(* ===== verification/Prelude.thy ===== *)
theory Prelude
  imports Main "HOL-Library.Word" "HOL-Library.Multiset" "HOL-Library.Monad_Syntax"
begin

text \<open>
  Shared vocabulary of the development: the machine integers of the C++ code, the
  collections that the component proofs draw on, and generic facts on options, lists,
  multisets and words.

  Failure convention.  An operation that can violate an \<^verbatim>\<open>NS_ASSERT\<close> or whose
  behaviour the C++ standard leaves undefined (\<^verbatim>\<open>front()\<close> of an empty list, a
  read out of range) returns an option; \<open>None\<close> is exactly that failure.  The assertions
  are those of a debug build, where \<^verbatim>\<open>NS_ASSERT\<close> is active.
\<close>

section \<open>Machine integers\<close>

type_synonym u8 = "8 word"
type_synonym u16 = "16 word"
type_synonym u32 = "32 word"
type_synonym u64 = "64 word"

text \<open>A pointer to a heap object; \<open>nullptr\<close> is address zero.\<close>

type_synonym ptr = nat

abbreviation (input) nullptr :: ptr where
  "nullptr \<equiv> 0"

text \<open>\<open>NS_ASSERT (b)\<close>: the run continues only when the condition holds.\<close>

definition ns_assert :: "bool \<Rightarrow> unit option" where
  "ns_assert b = (if b then Some () else None)"

section \<open>Collections of facts\<close>

named_theorems ns3_simps \<open>defining equations that component proofs unfold together\<close>
named_theorems word_bounds \<open>ranges of the unsigned reading of words\<close>

section \<open>Options\<close>

lemma ns_assert_True [simp]: "ns_assert True = Some ()"
  by (simp add: ns_assert_def)

lemma ns_assert_False [simp]: "ns_assert False = None"
  by (simp add: ns_assert_def)

lemma ns_assert_eq_Some [simp]: "ns_assert b = Some u \<longleftrightarrow> b"
  by (simp add: ns_assert_def)

lemma bind_ns_assert: "Option.bind (ns_assert b) f = (if b then f () else None)"
  by (simp add: ns_assert_def)

lemma bind_eq_SomeE:
  assumes "Option.bind x f = Some y"
  obtains a where "x = Some a" and "f a = Some y"
  using assms by (cases x) auto

section \<open>Words\<close>

lemma unat_u64_bound [word_bounds]: "unat (x :: u64) < 18446744073709551616"
  using unsigned_less [of x, where ?'a = nat] by simp

lemma unat_u32_bound [word_bounds]: "unat (x :: u32) < 4294967296"
  using unsigned_less [of x, where ?'a = nat] by simp

lemma unat_u16_bound [word_bounds]: "unat (x :: u16) < 65536"
  using unsigned_less [of x, where ?'a = nat] by simp

lemma unat_u8_bound [word_bounds]: "unat (x :: u8) < 256"
  using unsigned_less [of x, where ?'a = nat] by simp

lemma unat_plus_no_wrap:
  fixes a b :: "'a::len word"
  assumes "unat a + unat b < 2 ^ LENGTH('a)"
  shows "unat (a + b) = unat a + unat b"
  using assms by (simp add: unat_word_ariths(1))

lemma unat_Suc_no_wrap:
  fixes a :: "'a::len word"
  assumes "unat a + 1 < 2 ^ LENGTH('a)"
  shows "unat (a + 1) = unat a + 1"
  using assms by (simp add: unat_word_ariths(1))

lemma unat_minus_no_wrap:
  fixes a b :: "'a::len word"
  assumes "unat b \<le> unat a"
  shows "unat (a - b) = unat a - unat b"
  using assms by (simp add: unat_sub word_le_nat_alt)

text \<open>The signed reading of a 64-bit word whose sign bit is clear is the unsigned one.\<close>

lemma sint_u64_small:
  fixes d :: u64
  assumes "unat d < 2 ^ 63"
  shows "sint d = int (unat d)"
proof -
  have "int (unat d) < int (2 ^ 63)" using assms by (simp only: of_nat_less_iff)
  moreover have "- (2 ^ 63) \<le> (0 :: int)" by simp
  ultimately have "- (2 ^ 63) \<le> uint d \<and> uint d < 2 ^ 63"
    using order_trans [OF _ uint_ge_0 [of d]] by simp
  then show ?thesis by (simp add: sint_uint signed_take_bit_int_eq_self_iff)
qed

lemma sint_u64_nonneg:
  fixes d :: u64
  assumes "0 \<le> sint d"
  shows "sint d = int (unat d)" and "unat d < 2 ^ 63"
proof -
  show "unat d < 2 ^ 63"
  proof (rule ccontr)
    assume "\<not> unat d < 2 ^ 63"
    then have "int (2 ^ 63) \<le> int (unat d)" by (simp only: of_nat_le_iff not_less)
    then have big: "2 ^ 63 \<le> uint d" by simp
    have "uint d < 2 ^ 64" using uint_lt2p [of d] by simp
    then have "(uint d - 2 ^ 63 + 2 ^ 64) mod 2 ^ 64 = uint d - 2 ^ 63"
      unfolding mod_add_self2 using big by (intro mod_pos_pos_trivial) simp_all
    then have "sint d = uint d - 2 ^ 64"
      by (simp add: sint_uint signed_take_bit_eq_take_bit_shift take_bit_eq_mod add.commute)
    with \<open>uint d < 2 ^ 64\<close> assms show False by simp
  qed
  then show "sint d = int (unat d)" by (rule sint_u64_small)
qed

lemma uint_of_sint:
  fixes w :: "'a::len word"
  shows "uint w = (if sint w < 0 then sint w + 2 ^ LENGTH('a) else sint w)"
proof -
  have mono: "(2 :: int) ^ (LENGTH('a) - 1) \<le> 2 ^ LENGTH('a)" by (intro power_increasing) simp_all
  have lo: "- (2 ^ LENGTH('a)) \<le> sint w" using sint_greater_eq [of w] mono [unfolded One_nat_def] by linarith
  have hi: "sint w < 2 ^ LENGTH('a)" using sint_lt [of w] mono by linarith
  have "uint w = sint w mod 2 ^ LENGTH('a)" by (simp only: uint_sint take_bit_eq_mod)
  also have "\<dots> = (if sint w < 0 then sint w + 2 ^ LENGTH('a) else sint w)"
  proof (cases "sint w < 0")
    case True
    have "sint w mod 2 ^ LENGTH('a) = (sint w + 2 ^ LENGTH('a)) mod 2 ^ LENGTH('a)" by simp
    also have "\<dots> = sint w + 2 ^ LENGTH('a)" using True lo by (intro mod_pos_pos_trivial) simp_all
    finally show ?thesis using True by simp
  next
    case False
    then show ?thesis using hi by (simp add: mod_pos_pos_trivial)
  qed
  finally show ?thesis .
qed

section \<open>Lists and multisets\<close>

lemma mset_remove_at:
  assumes "i < length xs"
  shows "mset (take i xs @ drop (Suc i) xs) = mset xs - {#xs ! i#}"
proof -
  have "mset xs = mset (take i xs @ xs ! i # drop (Suc i) xs)"
    using assms by (simp add: id_take_nth_drop [symmetric])
  then show ?thesis by simp
qed

lemma mset_concat_update:
  assumes "j < length bs"
  shows "mset (concat (bs[j := b])) + mset (bs ! j) = mset (concat bs) + mset b"
  using assms
proof (induction bs arbitrary: j)
  case (Cons x xs)
  then show ?case by (cases j) (simp_all add: algebra_simps)
qed simp

lemma in_concat_nth: "x \<in># mset (concat bs) \<longleftrightarrow> (\<exists>j < length bs. x \<in> set (bs ! j))"
  by (auto simp: in_set_conv_nth) (metis in_set_conv_nth nth_mem)+

lemma residue_shift:
  assumes "j < N"
  shows "\<exists>k < N. (L + k) mod N = (j :: nat)"
proof (intro exI conjI)
  have N: "0 < N" using assms by simp
  then show "(j + (N - L mod N)) mod N < N" by simp
  have "(L + (j + (N - L mod N)) mod N) mod N = (L mod N + (j + (N - L mod N))) mod N"
    by (simp add: mod_simps)
  also have "L mod N + (j + (N - L mod N)) = j + N"
    using mod_less_divisor [OF N, of L] by simp
  finally show "(L + (j + (N - L mod N)) mod N) mod N = j" using assms by simp
qed

lemma sorted_wrt_remove_mid:
  "sorted_wrt P (xs @ y # ys) \<Longrightarrow> sorted_wrt P (xs @ ys)"
  by (simp add: sorted_wrt_append)

lemma distinct_mset_image_diff:
  assumes "inj_on f (set_mset M)" and "N \<subseteq># M"
  shows "inj_on f (set_mset N)"
  using assms by (meson inj_on_subset set_mset_mono)

end
