(* ===== verification/Events.thy ===== *)
theory Events
  imports Prelude
begin

text \<open>
  Simulation events and their order: \<^verbatim>\<open>Scheduler::EventKey\<close> and
  \<^verbatim>\<open>Scheduler::Event\<close> of src/core/model/scheduler.h with their comparison operators.
  A key is ordered by time stamp and then by unique id; the context takes no part in the
  order, so the order is a total preorder and not an order, and the two types become
  instances of class \<open>preorder\<close>.
\<close>

record event_key =
  key_ts :: u64
  key_uid :: u32
  key_context :: u32

record event =
  ev_impl :: ptr
  ev_key :: event_key

text \<open>\<open>operator<\<close>, \<open>operator>\<close> and \<open>operator==\<close> on keys and on events.\<close>

definition key_less :: "event_key \<Rightarrow> event_key \<Rightarrow> bool" where
  "key_less a b \<longleftrightarrow> key_ts a < key_ts b \<or> (key_ts a = key_ts b \<and> key_uid a < key_uid b)"

definition key_greater :: "event_key \<Rightarrow> event_key \<Rightarrow> bool" where
  "key_greater a b \<longleftrightarrow> key_ts a > key_ts b \<or> (key_ts a = key_ts b \<and> key_uid a > key_uid b)"

definition key_eq :: "event_key \<Rightarrow> event_key \<Rightarrow> bool" where
  "key_eq a b \<longleftrightarrow> key_uid a = key_uid b"

definition event_less :: "event \<Rightarrow> event \<Rightarrow> bool" where
  "event_less a b \<longleftrightarrow> key_less (ev_key a) (ev_key b)"

definition event_eq :: "event \<Rightarrow> event \<Rightarrow> bool" where
  "event_eq a b \<longleftrightarrow> key_eq (ev_key a) (ev_key b)"

abbreviation ev_ts :: "event \<Rightarrow> u64" where
  "ev_ts e \<equiv> key_ts (ev_key e)"

abbreviation ev_uid :: "event \<Rightarrow> u32" where
  "ev_uid e \<equiv> key_uid (ev_key e)"

text \<open>
  The order read as a number: the time stamp in the high digits, the unique id in the low
  32 bits.  Every comparison of keys is a comparison of ranks.
\<close>

definition key_rank :: "event_key \<Rightarrow> nat" where
  "key_rank k = unat (key_ts k) * 2 ^ 32 + unat (key_uid k)"

abbreviation ev_rank :: "event \<Rightarrow> nat" where
  "ev_rank e \<equiv> key_rank (ev_key e)"

lemma lex_less_nat:
  fixes a b c d N :: nat
  assumes "b < N" and "d < N"
  shows "a * N + b < c * N + d \<longleftrightarrow> a < c \<or> (a = c \<and> b < d)"
proof -
  have up: "x * N + y < z * N + w" if "x < z" and "y < N" for x y z w
  proof -
    have "x * N + y < Suc x * N" using that by simp
    also have "\<dots> \<le> z * N" using that by (intro mult_le_mono1) simp
    finally show ?thesis by simp
  qed
  show ?thesis
    using up [of a c b d] up [of c a d b] assms by (cases a c rule: linorder_cases) auto
qed

lemma key_less_rank: "key_less a b \<longleftrightarrow> key_rank a < key_rank b"
proof -
  have "unat (key_uid a) < 2 ^ 32" and "unat (key_uid b) < 2 ^ 32"
    using word_bounds by simp_all
  then show ?thesis
    unfolding key_less_def key_rank_def
    by (subst lex_less_nat) (auto simp: word_less_nat_alt word_unat_eq_iff)
qed

lemma key_greater_rank: "key_greater a b \<longleftrightarrow> key_rank b < key_rank a"
  using key_less_rank [of b a] by (auto simp: key_less_def key_greater_def)

lemma event_less_rank: "event_less a b \<longleftrightarrow> ev_rank a < ev_rank b"
  by (simp add: event_less_def key_less_rank)

lemmas order_rank = key_less_rank key_greater_rank event_less_rank

lemma rank_le_ts: "key_rank a \<le> key_rank b \<Longrightarrow> unat (key_ts a) \<le> unat (key_ts b)"
  using key_less_rank [of b a] by (auto simp: key_less_def word_less_nat_alt not_less)

lemma ts_less_rank: "unat (key_ts a) < unat (key_ts b) \<Longrightarrow> key_rank a < key_rank b"
  using key_less_rank [of a b] by (auto simp: key_less_def word_less_nat_alt)

lemma rank_eq_iff: "key_rank a = key_rank b \<longleftrightarrow> key_ts a = key_ts b \<and> key_uid a = key_uid b"
proof
  assume eq: "key_rank a = key_rank b"
  then have "\<not> key_less a b" and "\<not> key_less b a"
    by (simp_all add: key_less_rank)
  then show "key_ts a = key_ts b \<and> key_uid a = key_uid b"
    by (auto simp: key_less_def)
qed (simp add: key_rank_def)

instantiation event_key_ext :: (type) preorder
begin

definition less_event_key_ext :: "'a event_key_scheme \<Rightarrow> 'a event_key_scheme \<Rightarrow> bool" where
  "less_event_key_ext a b \<longleftrightarrow> key_less (event_key.truncate a) (event_key.truncate b)"

definition less_eq_event_key_ext :: "'a event_key_scheme \<Rightarrow> 'a event_key_scheme \<Rightarrow> bool" where
  "less_eq_event_key_ext a b \<longleftrightarrow> \<not> key_less (event_key.truncate b) (event_key.truncate a)"

instance
  by standard (auto simp: less_event_key_ext_def less_eq_event_key_ext_def key_less_rank)

end

lemma key_less_class: "(a :: event_key) < b \<longleftrightarrow> key_less a b"
  by (simp add: less_event_key_ext_def event_key.truncate_def key_less_def)

lemma key_le_class: "(a :: event_key) \<le> b \<longleftrightarrow> key_rank a \<le> key_rank b"
  by (simp add: less_eq_event_key_ext_def event_key.truncate_def key_less_rank not_less
      key_rank_def)


text \<open>
  Unique ids: no two pending events share one.  The simulator maintains it, and every
  scheduler relies on it.
\<close>

definition uniq_uids :: "event multiset \<Rightarrow> bool" where
  "uniq_uids M \<longleftrightarrow> (\<forall>u. count (image_mset ev_uid M) u \<le> 1)"

definition fresh_uid :: "event \<Rightarrow> event multiset \<Rightarrow> bool" where
  "fresh_uid ev M \<longleftrightarrow> (\<forall>e \<in># M. ev_uid e \<noteq> ev_uid ev)"

lemma uniq_uids_empty [simp]: "uniq_uids {#}"
  by (simp add: uniq_uids_def)

lemma fresh_uid_empty [simp]: "fresh_uid ev {#}"
  by (simp add: fresh_uid_def)

lemma uniq_uids_add [simp]: "uniq_uids (add_mset ev M) \<longleftrightarrow> uniq_uids M \<and> fresh_uid ev M"
proof -
  have fresh: "fresh_uid ev M \<longleftrightarrow> count (image_mset ev_uid M) (ev_uid ev) = 0"
    unfolding fresh_uid_def not_in_iff [symmetric] by (auto simp: image_iff)
  show ?thesis
    unfolding fresh uniq_uids_def by (auto simp: le_Suc_eq)
qed

lemma fresh_uid_add [simp]:
  "fresh_uid ev (add_mset e M) \<longleftrightarrow> ev_uid e \<noteq> ev_uid ev \<and> fresh_uid ev M"
  by (auto simp: fresh_uid_def)

lemma uniq_uids_mono: "N \<subseteq># M \<Longrightarrow> uniq_uids M \<Longrightarrow> uniq_uids N"
  unfolding uniq_uids_def
  by (meson image_mset_subseteq_mono le_trans mset_subset_eq_count)

lemma uniq_uids_same:
  assumes "uniq_uids M" and "a \<in># M" and "b \<in># M" and "ev_uid a = ev_uid b"
  shows "a = b"
proof (rule ccontr)
  assume "a \<noteq> b"
  obtain N where M: "M = add_mset a N" using assms(2) by (metis mset_add)
  then have "b \<in># N" and "fresh_uid a N" using assms(1,3) \<open>a \<noteq> b\<close> by auto
  then show False using assms(4) by (auto simp: fresh_uid_def)
qed

lemma fresh_uid_diff [simp]: "fresh_uid ev M \<Longrightarrow> fresh_uid ev (M - N)"
  by (auto simp: fresh_uid_def dest: in_diffD)

lemma uniq_uids_diff [simp]: "uniq_uids M \<Longrightarrow> uniq_uids (M - N)"
  by (rule uniq_uids_mono [of _ M]) simp_all

lemma uniq_rank_less:
  assumes "uniq_uids (add_mset a M)" and "b \<in># M" and "ev_rank a \<le> ev_rank b"
  shows "ev_rank a < ev_rank b"
  using assms by (auto simp: fresh_uid_def le_less rank_eq_iff)

text \<open>The events a scheduler must return next: those no pending event precedes.\<close>

definition is_next :: "event \<Rightarrow> event multiset \<Rightarrow> bool" where
  "is_next ev M \<longleftrightarrow> ev \<in># M \<and> (\<forall>e \<in># M. \<not> event_less e ev)"

lemma is_next_rank: "is_next ev M \<longleftrightarrow> ev \<in># M \<and> (\<forall>e \<in># M. ev_rank ev \<le> ev_rank e)"
  by (auto simp: is_next_def event_less_rank not_less)

lemma is_next_ts: "is_next ev M \<Longrightarrow> e \<in># M \<Longrightarrow> unat (ev_ts ev) \<le> unat (ev_ts e)"
  by (auto simp: is_next_rank intro: rank_le_ts)

lemma is_next_unique:
  assumes "uniq_uids M" and "is_next a M" and "is_next b M"
  shows "a = b"
proof -
  have "ev_rank a = ev_rank b" using assms(2,3) by (auto simp: is_next_rank intro: antisym)
  then show ?thesis using assms by (auto simp: is_next_rank rank_eq_iff intro: uniq_uids_same)
qed

end
