(* ===== verification/Scheduler.thy ===== *)
theory Scheduler
  imports Events
begin

text \<open>
  The interface \<^verbatim>\<open>ns3::Scheduler\<close> of src/core/model/scheduler.h.  Its virtual
  functions are a record of operations, so that the simulator can be written over any
  implementation, as the C++ calls them through the virtual table.  The locales state
  what an implementation promises, over the multiset of pending events:
  \<open>scheduler\<close> for \<^verbatim>\<open>Insert\<close>, \<^verbatim>\<open>IsEmpty\<close>, \<^verbatim>\<open>PeekNext\<close> and
  \<^verbatim>\<open>RemoveNext\<close>, and \<open>removing_scheduler\<close> for \<^verbatim>\<open>Remove\<close> as well.
\<close>

record 's scheduler_ops =
  op_Insert :: "event \<Rightarrow> 's \<Rightarrow> 's option"
  op_IsEmpty :: "'s \<Rightarrow> bool"
  op_PeekNext :: "'s \<Rightarrow> event option"
  op_RemoveNext :: "'s \<Rightarrow> (event \<times> 's) option"
  op_Remove :: "event \<Rightarrow> 's \<Rightarrow> 's option"

text \<open>
  Time stamps are the non-negative values of the 64-bit signed time, so an event is
  insertable when its time stamp is below \<open>2 ^ 63\<close>; \<open>floor s\<close> is the earliest time
  stamp the implementation still accepts (the time of the last removed event for the
  calendar queue, 0 for the others).  Fewer than \<open>2 ^ 31 - 1\<close> pending events keep the
  32-bit size counter of the calendar queue and the simulator's signed counter of
  unscheduled events from overflowing.
\<close>

definition ts_limit :: nat where
  "ts_limit = 2 ^ 63"

definition max_pending :: nat where
  "max_pending = 2 ^ 31 - 1"

definition insertable :: "nat \<Rightarrow> event \<Rightarrow> event multiset \<Rightarrow> bool" where
  "insertable lo ev M \<longleftrightarrow> lo \<le> unat (ev_ts ev) \<and> unat (ev_ts ev) < ts_limit
     \<and> fresh_uid ev M \<and> size M < max_pending"

locale scheduler =
  fixes ops :: "'s scheduler_ops"
    and invar :: "'s \<Rightarrow> bool"
    and events :: "'s \<Rightarrow> event multiset"
    and floor_ts :: "'s \<Rightarrow> nat"
  assumes IsEmpty_law: "invar s \<Longrightarrow> op_IsEmpty ops s \<longleftrightarrow> events s = {#}"
    and Insert_law: "invar s \<Longrightarrow> insertable (floor_ts s) ev (events s) \<Longrightarrow>
      \<exists>s'. op_Insert ops ev s = Some s' \<and> invar s' \<and> events s' = add_mset ev (events s)
        \<and> floor_ts s' = floor_ts s"
    and PeekNext_law: "invar s \<Longrightarrow> events s \<noteq> {#} \<Longrightarrow>
      \<exists>ev. op_PeekNext ops s = Some ev \<and> is_next ev (events s)"
    and RemoveNext_law: "invar s \<Longrightarrow> events s \<noteq> {#} \<Longrightarrow>
      \<exists>ev s'. op_RemoveNext ops s = Some (ev, s') \<and> is_next ev (events s) \<and> invar s'
        \<and> events s' = events s - {#ev#} \<and> floor_ts s' \<le> unat (ev_ts ev)"
    and uniq_law: "invar s \<Longrightarrow> uniq_uids (events s)"
begin

text \<open>Peeking announces exactly the event that the next removal returns.\<close>

lemma Peek_Remove_agree:
  assumes "invar s" and "op_RemoveNext ops s = Some (ev, s')" and "events s \<noteq> {#}"
  shows "op_PeekNext ops s = Some ev"
  using RemoveNext_law [of s] PeekNext_law [of s] is_next_unique [OF uniq_law, of s] assms
  by fastforce

text \<open>A removed event is followed only by events that do not precede it.\<close>

lemma RemoveNext_order:
  assumes "invar s" and "events s \<noteq> {#}" and "op_RemoveNext ops s = Some (ev, s')"
    and "e \<in># events s'"
  shows "event_less ev e"
proof -
  have nxt: "is_next ev (events s)" and ev': "events s' = events s - {#ev#}"
    using RemoveNext_law [OF assms(1,2)] assms(3) by auto
  then have "events s = add_mset ev (events s')" by (simp add: is_next_def)
  then show ?thesis
    using nxt uniq_law [OF assms(1)] assms(4) uniq_rank_less [of ev "events s'" e]
    by (auto simp: is_next_rank event_less_rank)
qed

end

text \<open>
  \<^verbatim>\<open>Remove\<close> takes an event that is pending; it leaves every other event in the
  schedule and keeps the schedule usable.
\<close>

locale removing_scheduler = scheduler +
  assumes Remove_law: "invar s \<Longrightarrow> ev \<in># events s \<Longrightarrow>
    \<exists>s'. op_Remove ops ev s = Some s' \<and> invar s' \<and> events s' = events s - {#ev#}
      \<and> floor_ts s' = floor_ts s"

text \<open>
  Draining a schedule: what \<^verbatim>\<open>SetScheduler\<close> and \<^verbatim>\<open>DoDispose\<close> do with
  every pending event, one \<^verbatim>\<open>RemoveNext\<close> after the other.
\<close>

fun drain :: "'s scheduler_ops \<Rightarrow> nat \<Rightarrow> 's \<Rightarrow> (event list \<times> 's) option" where
  "drain ops 0 s = (if op_IsEmpty ops s then Some ([], s) else None)"
| "drain ops (Suc n) s =
     (if op_IsEmpty ops s then Some ([], s)
      else do {
        (ev, s') \<leftarrow> op_RemoveNext ops s;
        (evs, s'') \<leftarrow> drain ops n s';
        Some (ev # evs, s'')
      })"

text \<open>Insert a sequence of events, and put them out again.\<close>

fun insert_all :: "'s scheduler_ops \<Rightarrow> event list \<Rightarrow> 's \<Rightarrow> 's option" where
  "insert_all ops [] s = Some s"
| "insert_all ops (e # es) s = do { s' \<leftarrow> op_Insert ops e s; insert_all ops es s' }"

definition schedule_order :: "'s scheduler_ops \<Rightarrow> 's \<Rightarrow> event list \<Rightarrow> event list option" where
  "schedule_order ops s evs = do {
     s1 \<leftarrow> insert_all ops evs s;
     (out, _) \<leftarrow> drain ops (length evs) s1;
     Some out
   }"

context scheduler begin

text \<open>
  Fuel equal to the number of pending events is enough; the drained events are all the
  pending events, in the order of the schedule.
\<close>

lemma drain_sorted:
  assumes "invar s" and "size (events s) \<le> n"
  shows "\<exists>evs s'. drain ops n s = Some (evs, s') \<and> mset evs = events s
     \<and> sorted_wrt event_less evs \<and> invar s' \<and> events s' = {#}"
  using assms
proof (induction n arbitrary: s)
  case 0
  then show ?case using IsEmpty_law [of s] by simp
next
  case (Suc n)
  show ?case
  proof (cases "events s = {#}")
    case True
    then show ?thesis using IsEmpty_law [OF Suc.prems(1)] Suc.prems(1) by simp
  next
    case False
    obtain ev s1 where r: "op_RemoveNext ops s = Some (ev, s1)" and nx: "is_next ev (events s)"
      and i1: "invar s1" and e1: "events s1 = events s - {#ev#}"
      using RemoveNext_law [OF Suc.prems(1) False] by blast
    have ev: "events s = add_mset ev (events s1)" using nx e1 by (simp add: is_next_def)
    then have "size (events s1) \<le> n" using Suc.prems(2) by simp
    from Suc.IH [OF i1 this] obtain evs s2 where d: "drain ops n s1 = Some (evs, s2)"
      and m: "mset evs = events s1" and srt: "sorted_wrt event_less evs"
      and i2: "invar s2" "events s2 = {#}"
      by blast
    have "\<forall>e \<in> set evs. event_less ev e"
      using RemoveNext_order [OF Suc.prems(1) False r] m by (metis set_mset_mset)
    moreover have "\<not> op_IsEmpty ops s" using IsEmpty_law [OF Suc.prems(1)] False by simp
    ultimately show ?thesis using r d m srt i2 ev by simp
  qed
qed

text \<open>Filling an empty schedule and draining it is sorting.\<close>

lemma insert_all_ok:
  assumes "invar s" and "uniq_uids (mset evs + events s)" and "size (mset evs + events s) \<le> max_pending"
    and "\<And>e. e \<in> set evs \<Longrightarrow> floor_ts s \<le> unat (ev_ts e) \<and> unat (ev_ts e) < ts_limit"
  shows "\<exists>s'. insert_all ops evs s = Some s' \<and> invar s' \<and> events s' = mset evs + events s"
  using assms
proof (induction evs arbitrary: s)
  case (Cons ev evs)
  have "fresh_uid ev (events s)" using Cons.prems(2) by (auto simp: fresh_uid_def)
  then have "insertable (floor_ts s) ev (events s)"
    using Cons.prems(3,4) by (auto simp: insertable_def)
  then obtain s1 where s1: "op_Insert ops ev s = Some s1" "invar s1"
    "events s1 = add_mset ev (events s)" "floor_ts s1 = floor_ts s"
    using Insert_law [OF Cons.prems(1)] by blast
  then have "\<exists>s'. insert_all ops evs s1 = Some s' \<and> invar s' \<and> events s' = mset evs + events s1"
    using Cons.IH [of s1] Cons.prems(2,3,4) by auto
  then show ?case using s1 by auto
qed simp

lemma schedule_order_ok:
  assumes "invar s" and "events s = {#}" and "floor_ts s = 0" and "uniq_uids (mset evs)"
    and "length evs \<le> max_pending" and "\<And>e. e \<in> set evs \<Longrightarrow> unat (ev_ts e) < ts_limit"
  shows "\<exists>out. schedule_order ops s evs = Some out \<and> mset out = mset evs \<and> sorted_wrt event_less out"
proof -
  obtain s1 where s1: "insert_all ops evs s = Some s1" "invar s1" "events s1 = mset evs"
    using insert_all_ok [of s evs] assms by auto
  then show ?thesis
    using drain_sorted [of s1 "length evs"] by (auto simp: schedule_order_def)
qed

end

text \<open>There is one order: any two implementations put the same events out in the same sequence.\<close>

lemma sorted_events_unique:
  assumes "sorted_wrt event_less xs" and "sorted_wrt event_less ys" and "mset xs = mset ys"
  shows "xs = ys"
  using assms
proof (induction xs arbitrary: ys)
  case (Cons x xs)
  then obtain y ys' where ys: "ys = y # ys'" by (cases ys) auto
  have mem: "set (x # xs) = set (y # ys')" using Cons.prems(3) ys by (metis set_mset_mset)
  have "\<not> event_less x y \<or> \<not> event_less y x" by (simp add: event_less_rank)
  moreover have "x = y \<or> event_less x y" using mem Cons.prems(1) by auto
  moreover have "x = y \<or> event_less y x" using mem Cons.prems(2) ys by auto
  ultimately have "x = y" by blast
  then show ?case using Cons ys by auto
qed simp

end
