(* ===== verification/List_Scheduler.thy ===== *)
theory List_Scheduler
  imports Scheduler
begin

text \<open>
  \<^verbatim>\<open>ns3::ListScheduler\<close> (src/core/model/list-scheduler.cc): the pending events in
  a \<^verbatim>\<open>std::list\<close> kept sorted by linear insertion.
\<close>

type_synonym list_sched = "event list"

definition ListScheduler_init :: list_sched where
  "ListScheduler_init = []"

fun list_Insert_from :: "event \<Rightarrow> list_sched \<Rightarrow> list_sched" where
  "list_Insert_from ev [] = [ev]"
| "list_Insert_from ev (i # rest) =
     (if key_less (ev_key ev) (ev_key i) then ev # i # rest
      else i # list_Insert_from ev rest)"

definition list_Insert :: "event \<Rightarrow> list_sched \<Rightarrow> list_sched option" where
  "list_Insert ev m_events = Some (list_Insert_from ev m_events)"

definition list_IsEmpty :: "list_sched \<Rightarrow> bool" where
  "list_IsEmpty m_events \<longleftrightarrow> m_events = []"

definition list_PeekNext :: "list_sched \<Rightarrow> event option" where
  "list_PeekNext m_events = (case m_events of [] \<Rightarrow> None | e # _ \<Rightarrow> Some e)"

definition list_RemoveNext :: "list_sched \<Rightarrow> (event \<times> list_sched) option" where
  "list_RemoveNext m_events = (case m_events of [] \<Rightarrow> None | e # rest \<Rightarrow> Some (e, rest))"

fun list_Remove :: "event \<Rightarrow> list_sched \<Rightarrow> list_sched option" where
  "list_Remove ev [] = None"
| "list_Remove ev (i # rest) =
     (if ev_uid i = ev_uid ev
      then do { ns_assert (ev_impl ev = ev_impl i); Some rest }
      else do { rest' \<leftarrow> list_Remove ev rest; Some (i # rest') })"

definition list_ops :: "list_sched scheduler_ops" where
  "list_ops = \<lparr>op_Insert = list_Insert, op_IsEmpty = list_IsEmpty, op_PeekNext = list_PeekNext,
     op_RemoveNext = list_RemoveNext, op_Remove = list_Remove\<rparr>"

section \<open>Invariant and laws\<close>

definition list_invar :: "list_sched \<Rightarrow> bool" where
  "list_invar xs \<longleftrightarrow> sorted_wrt event_less xs \<and> uniq_uids (mset xs)"

lemma mset_list_Insert_from [simp]: "mset (list_Insert_from ev xs) = add_mset ev (mset xs)"
  by (induction xs) auto

lemma set_list_Insert_from [simp]: "set (list_Insert_from ev xs) = insert ev (set xs)"
  by (metis mset_list_Insert_from set_mset_add_mset_insert set_mset_mset)

lemma sorted_list_Insert_from:
  assumes "sorted_wrt event_less xs" and "fresh_uid ev (mset xs)"
  shows "sorted_wrt event_less (list_Insert_from ev xs)"
  using assms
proof (induction xs)
  case (Cons x xs)
  then show ?case
    by (auto simp: event_less_rank key_less_rank fresh_uid_def rank_eq_iff not_less le_less
        dest: less_trans)
qed simp

lemma list_invar_Cons:
  "list_invar (x # xs) \<longleftrightarrow> (\<forall>e \<in> set xs. event_less x e) \<and> fresh_uid x (mset xs) \<and> list_invar xs"
  by (auto simp: list_invar_def)

lemma list_is_next: "list_invar (x # xs) \<Longrightarrow> is_next x (mset (x # xs))"
  by (auto simp: list_invar_Cons is_next_rank event_less_rank less_imp_le)

lemma list_Remove_pending:
  assumes "list_invar xs" and "ev \<in> set xs"
  shows "\<exists>xs'. list_Remove ev xs = Some xs' \<and> list_invar xs' \<and> mset xs' = mset xs - {#ev#}
     \<and> set xs' \<subseteq> set xs"
  using assms
proof (induction xs)
  case (Cons x xs)
  show ?case
  proof (cases "ev_uid x = ev_uid ev")
    case True
    have "uniq_uids (mset (x # xs))" using Cons.prems(1) by (simp add: list_invar_def)
    then have "x = ev"
      using True Cons.prems(2) by (metis list.set_intros(1) set_mset_mset uniq_uids_same)
    then show ?thesis using Cons.prems(1) by (auto simp: list_invar_Cons)
  next
    case False
    then have "ev \<in> set xs" and "list_invar xs" using Cons.prems by (auto simp: list_invar_Cons)
    then obtain ys where ys: "list_Remove ev xs = Some ys" "list_invar ys"
      "mset ys = mset xs - {#ev#}" "set ys \<subseteq> set xs" using Cons.IH by blast
    moreover have "list_invar (x # ys)" using Cons.prems(1) ys by (auto simp: list_invar_Cons)
    ultimately show ?thesis using False \<open>ev \<in> set xs\<close> by auto
  qed
qed simp

interpretation ls: removing_scheduler list_ops list_invar mset "\<lambda>_. 0"
proof unfold_locales
  fix s ev
  assume "list_invar s" and "insertable 0 ev (mset s)"
  then show "\<exists>s'. op_Insert list_ops ev s = Some s' \<and> list_invar s'
      \<and> mset s' = add_mset ev (mset s) \<and> (0::nat) = 0"
    by (auto simp: list_ops_def list_Insert_def list_invar_def insertable_def
        sorted_list_Insert_from)
next
  fix s
  assume i: "list_invar s" and ne: "mset s \<noteq> {#}"
  then obtain x xs where s: "s = x # xs" by (cases s) auto
  show "\<exists>ev. op_PeekNext list_ops s = Some ev \<and> is_next ev (mset s)"
    using list_is_next i by (simp add: s list_ops_def list_PeekNext_def)
  show "\<exists>ev s'. op_RemoveNext list_ops s = Some (ev, s') \<and> is_next ev (mset s) \<and> list_invar s'
      \<and> mset s' = mset s - {#ev#} \<and> 0 \<le> unat (ev_ts ev)"
    using list_is_next i by (simp add: s list_ops_def list_RemoveNext_def list_invar_Cons)
next
  fix s ev
  assume "list_invar s" and "ev \<in># mset s"
  then show "\<exists>s'. op_Remove list_ops ev s = Some s' \<and> list_invar s'
      \<and> mset s' = mset s - {#ev#} \<and> (0::nat) = 0"
    using list_Remove_pending [of s ev] by (auto simp: list_ops_def)
qed (auto simp: list_ops_def list_IsEmpty_def list_invar_def)

end
