(* ===== verification/Map_Scheduler.thy ===== *)
theory Map_Scheduler
  imports Scheduler
begin

text \<open>
  \<^verbatim>\<open>ns3::MapScheduler\<close> (src/core/model/map-scheduler.cc): the pending events in
  a \<^verbatim>\<open>std::map<EventKey, EventImpl*>\<close>.  A \<^verbatim>\<open>std::map\<close> is the list of
  its entries in increasing key order; two keys are the same key when neither is less
  than the other.  \<^verbatim>\<open>insert\<close> leaves the map alone when the key is present and
  tells so; \<^verbatim>\<open>begin\<close> is the first entry; \<^verbatim>\<open>find\<close> is \<open>None\<close> for
  \<^verbatim>\<open>end()\<close>.
\<close>

type_synonym map_sched = "(event_key \<times> ptr) list"

definition MapScheduler_init :: map_sched where
  "MapScheduler_init = []"

fun std_map_insert :: "event_key \<times> ptr \<Rightarrow> map_sched \<Rightarrow> map_sched \<times> bool" where
  "std_map_insert e [] = ([e], True)"
| "std_map_insert e (x # xs) =
     (if key_less (fst e) (fst x) then (e # x # xs, True)
      else if key_less (fst x) (fst e)
      then (let (xs', inserted) = std_map_insert e xs in (x # xs', inserted))
      else (x # xs, False))"

fun std_map_find :: "event_key \<Rightarrow> map_sched \<Rightarrow> nat option" where
  "std_map_find k [] = None"
| "std_map_find k (x # xs) =
     (if \<not> key_less k (fst x) \<and> \<not> key_less (fst x) k then Some 0
      else map_option Suc (std_map_find k xs))"

definition std_map_erase :: "nat \<Rightarrow> map_sched \<Rightarrow> map_sched" where
  "std_map_erase i m = take i m @ drop (Suc i) m"

definition map_Insert :: "event \<Rightarrow> map_sched \<Rightarrow> map_sched option" where
  "map_Insert ev m_list =
     (let (m', inserted) = std_map_insert (ev_key ev, ev_impl ev) m_list in
      do { ns_assert inserted; Some m' })"

definition map_IsEmpty :: "map_sched \<Rightarrow> bool" where
  "map_IsEmpty m_list \<longleftrightarrow> m_list = []"

definition map_PeekNext :: "map_sched \<Rightarrow> event option" where
  "map_PeekNext m_list =
     (case m_list of [] \<Rightarrow> None | (k, im) # _ \<Rightarrow> Some \<lparr>ev_impl = im, ev_key = k\<rparr>)"

definition map_RemoveNext :: "map_sched \<Rightarrow> (event \<times> map_sched) option" where
  "map_RemoveNext m_list =
     (case m_list of [] \<Rightarrow> None
      | (k, im) # rest \<Rightarrow> Some (\<lparr>ev_impl = im, ev_key = k\<rparr>, rest))"

definition map_Remove :: "event \<Rightarrow> map_sched \<Rightarrow> map_sched option" where
  "map_Remove ev m_list = do {
     i \<leftarrow> std_map_find (ev_key ev) m_list;
     ns_assert (snd (m_list ! i) = ev_impl ev);
     Some (std_map_erase i m_list)
   }"

definition map_ops :: "map_sched scheduler_ops" where
  "map_ops = \<lparr>op_Insert = map_Insert, op_IsEmpty = map_IsEmpty, op_PeekNext = map_PeekNext,
     op_RemoveNext = map_RemoveNext, op_Remove = map_Remove\<rparr>"

section \<open>Invariant and laws\<close>

definition entry_event :: "event_key \<times> ptr \<Rightarrow> event" where
  "entry_event e = \<lparr>ev_impl = snd e, ev_key = fst e\<rparr>"

definition map_events :: "map_sched \<Rightarrow> event multiset" where
  "map_events m = image_mset entry_event (mset m)"

definition map_invar :: "map_sched \<Rightarrow> bool" where
  "map_invar m \<longleftrightarrow> sorted_wrt (\<lambda>a b. key_less (fst a) (fst b)) m \<and> uniq_uids (map_events m)"

lemma entry_event_sel [simp]:
  "ev_key (entry_event e) = fst e" "ev_impl (entry_event e) = snd e"
  "entry_event (ev_key ev, ev_impl ev) = ev"
  by (simp_all add: entry_event_def)

lemma entry_event_inj [simp]: "entry_event a = entry_event b \<longleftrightarrow> a = b"
  by (auto simp: entry_event_def prod_eq_iff)

lemma in_map_events: "ev \<in># map_events m \<longleftrightarrow> (ev_key ev, ev_impl ev) \<in> set m"
  by (force simp: map_events_def image_iff)

lemma map_events_simps [simp]:
  "map_events [] = {#}" "map_events (e # m) = add_mset (entry_event e) (map_events m)"
  "map_events m = {#} \<longleftrightarrow> m = []"
  by (simp_all add: map_events_def)

lemma std_map_insert_spec:
  assumes "sorted_wrt (\<lambda>a b. key_less (fst a) (fst b)) m"
    and "fresh_uid (entry_event e) (map_events m)"
  shows "\<exists>m'. std_map_insert e m = (m', True) \<and> map_events m' = add_mset (entry_event e) (map_events m)
    \<and> set m' = insert e (set m) \<and> sorted_wrt (\<lambda>a b. key_less (fst a) (fst b)) m'"
  using assms
proof (induction m)
  case (Cons x xs)
  have ne: "key_uid (fst e) \<noteq> key_uid (fst x)" using Cons.prems(2) by auto
  consider "key_less (fst e) (fst x)" | "\<not> key_less (fst e) (fst x)" "key_less (fst x) (fst e)"
    using ne by (metis key_less_rank linorder_neqE_nat rank_eq_iff)
  then show ?case
  proof cases
    case 1
    then show ?thesis using Cons.prems by (auto simp: key_less_rank dest: less_trans)
  next
    case 2
    then show ?thesis using Cons by fastforce
  qed
qed simp

lemma std_map_find_mem:
  assumes "map_invar m" and "(k, im) \<in> set m"
  shows "\<exists>i < length m. std_map_find k m = Some i \<and> m ! i = (k, im)"
  using assms
proof (induction m)
  case (Cons x xs)
  have un: "uniq_uids (map_events (x # xs))" and inv: "map_invar xs"
    using Cons.prems(1) by (auto simp: map_invar_def)
  show ?case
  proof (cases "x = (k, im)")
    case True
    then show ?thesis by (auto simp: key_less_rank intro!: exI [of _ 0])
  next
    case False
    then have mem: "(k, im) \<in> set xs" using Cons.prems(2) by simp
    then have "key_less (fst x) k" using Cons.prems(1) by (auto simp: map_invar_def)
    moreover obtain i where "i < length xs" "std_map_find k xs = Some i" "xs ! i = (k, im)"
      using Cons.IH [OF inv mem] by blast
    ultimately show ?thesis by (auto intro!: exI [of _ "Suc i"])
  qed
qed simp

lemma map_invar_erase:
  assumes "map_invar m" and "i < length m"
  shows "map_invar (std_map_erase i m)"
    and "map_events (std_map_erase i m) = map_events m - {#entry_event (m ! i)#}"
proof -
  show ev: "map_events (std_map_erase i m) = map_events m - {#entry_event (m ! i)#}"
    using assms(2) unfolding map_events_def std_map_erase_def mset_remove_at [OF assms(2)]
    by (simp add: image_mset_Diff)
  have "sorted_wrt (\<lambda>a b. key_less (fst a) (fst b)) (take i m @ m ! i # drop (Suc i) m)"
    using assms by (simp add: map_invar_def id_take_nth_drop [symmetric])
  then show "map_invar (std_map_erase i m)"
    using assms(1) ev sorted_wrt_remove_mid
    by (auto simp: map_invar_def std_map_erase_def)
qed

lemma map_is_next: "map_invar (x # xs) \<Longrightarrow> is_next (entry_event x) (map_events (x # xs))"
  by (force simp: map_invar_def is_next_rank key_less_rank in_map_events less_imp_le)

interpretation ms: removing_scheduler map_ops map_invar map_events "\<lambda>_. 0"
proof unfold_locales
  fix s ev
  assume "map_invar s" and "insertable 0 ev (map_events s)"
  then show "\<exists>s'. op_Insert map_ops ev s = Some s' \<and> map_invar s'
      \<and> map_events s' = add_mset ev (map_events s) \<and> (0::nat) = 0"
    using std_map_insert_spec [of s "(ev_key ev, ev_impl ev)"]
    by (auto simp: map_ops_def map_Insert_def map_invar_def insertable_def)
next
  fix s
  assume i: "map_invar s" and ne: "map_events s \<noteq> {#}"
  then obtain x xs where s: "s = x # xs" by (cases s) auto
  have inv: "map_invar xs" using i by (simp add: s map_invar_def)
  show "\<exists>ev. op_PeekNext map_ops s = Some ev \<and> is_next ev (map_events s)"
    using map_is_next i by (auto simp: s map_ops_def map_PeekNext_def entry_event_def split: prod.split)
  show "\<exists>ev s'. op_RemoveNext map_ops s = Some (ev, s') \<and> is_next ev (map_events s) \<and> map_invar s'
      \<and> map_events s' = map_events s - {#ev#} \<and> 0 \<le> unat (ev_ts ev)"
    using map_is_next [of x xs] i inv
    by (auto simp: s map_ops_def map_RemoveNext_def entry_event_def split: prod.split)
next
  fix s ev
  assume i: "map_invar s" and "ev \<in># map_events s"
  then obtain k where "k < length s" "std_map_find (ev_key ev) s = Some k"
    "s ! k = (ev_key ev, ev_impl ev)"
    using std_map_find_mem in_map_events by metis
  then show "\<exists>s'. op_Remove map_ops ev s = Some s' \<and> map_invar s'
      \<and> map_events s' = map_events s - {#ev#} \<and> (0::nat) = 0"
    using map_invar_erase [OF i] by (simp add: map_ops_def map_Remove_def)
qed (auto simp: map_ops_def map_IsEmpty_def map_invar_def)

end
