(* ===== verification/Heap_Scheduler.thy ===== *)
theory Heap_Scheduler
  imports Scheduler
begin

text \<open>
  \<^verbatim>\<open>ns3::HeapScheduler\<close> (src/core/model/heap-scheduler.cc): a binary heap in a
  \<^verbatim>\<open>std::vector\<close> whose first element is a dummy, so that the indices start at
  one.  The two sifting loops are recursive functions with their termination proofs.
\<close>

type_synonym heap_sched = "event list"

definition HeapScheduler_init :: heap_sched where
  "HeapScheduler_init =
     [\<lparr>ev_impl = nullptr, ev_key = \<lparr>key_ts = 0, key_uid = 0, key_context = 0\<rparr>\<rparr>]"

definition heap_Parent :: "nat \<Rightarrow> nat" where
  "heap_Parent i = i div 2"

definition heap_LeftChild :: "nat \<Rightarrow> nat" where
  "heap_LeftChild i = i * 2"

definition heap_RightChild :: "nat \<Rightarrow> nat" where
  "heap_RightChild i = i * 2 + 1"

definition heap_Root :: nat where
  "heap_Root = 1"

definition heap_IsRoot :: "nat \<Rightarrow> bool" where
  "heap_IsRoot i \<longleftrightarrow> i = heap_Root"

definition heap_Last :: "heap_sched \<Rightarrow> nat" where
  "heap_Last h = length h - 1"

definition heap_IsBottom :: "heap_sched \<Rightarrow> nat \<Rightarrow> bool" where
  "heap_IsBottom h i \<longleftrightarrow> i \<ge> length h"

definition heap_Exch :: "nat \<Rightarrow> nat \<Rightarrow> heap_sched \<Rightarrow> heap_sched option" where
  "heap_Exch a b h = do {
     ns_assert (b < length h \<and> a < length h);
     Some (h[a := h ! b, b := h ! a])
   }"

definition heap_IsLessStrictly :: "heap_sched \<Rightarrow> nat \<Rightarrow> nat \<Rightarrow> bool" where
  "heap_IsLessStrictly h a b \<longleftrightarrow> event_less (h ! a) (h ! b)"

definition heap_Smallest :: "heap_sched \<Rightarrow> nat \<Rightarrow> nat \<Rightarrow> nat" where
  "heap_Smallest h a b = (if heap_IsLessStrictly h a b then a else b)"

definition heap_IsEmpty :: "heap_sched \<Rightarrow> bool" where
  "heap_IsEmpty h \<longleftrightarrow> length h = 1"

lemmas heap_index = heap_Parent_def heap_LeftChild_def heap_RightChild_def heap_Root_def
  heap_IsRoot_def heap_Last_def heap_IsBottom_def

lemma heap_less_rank: "heap_IsLessStrictly h a b \<longleftrightarrow> ev_rank (h ! a) < ev_rank (h ! b)"
  by (simp add: heap_IsLessStrictly_def event_less_rank)

lemma heap_Smallest_cases: "heap_Smallest h a b = a \<or> heap_Smallest h a b = b"
  by (simp add: heap_Smallest_def)

lemma heap_Exch_Some: "heap_Exch a b h = Some h' \<Longrightarrow> length h' = length h \<and> a < length h \<and> b < length h"
  by (auto simp: heap_Exch_def ns_assert_def split: if_splits)

text \<open>The loop of \<^verbatim>\<open>BottomUp\<close> from an index.\<close>

function heap_BottomUp_loop :: "nat \<Rightarrow> heap_sched \<Rightarrow> heap_sched option" where
  "heap_BottomUp_loop index h =
     (if \<not> heap_IsRoot index \<and> heap_IsLessStrictly h index (heap_Parent index)
      then do {
        h \<leftarrow> heap_Exch index (heap_Parent index) h;
        heap_BottomUp_loop (heap_Parent index) h
      }
      else Some h)"
  by pat_completeness auto
termination
proof (relation "measure fst", goal_cases)
  case (2 index h h')
  then have "index \<noteq> 0" by (cases "index = 0") (auto simp: heap_less_rank heap_Parent_def)
  with 2 show ?case by (simp add: heap_index)
qed simp

definition heap_BottomUp :: "heap_sched \<Rightarrow> heap_sched option" where
  "heap_BottomUp h = heap_BottomUp_loop (heap_Last h) h"

text \<open>
  The loop of \<^verbatim>\<open>TopDown\<close> and what follows it: a node with a right child sinks
  towards the smaller child; a node with a left child only is compared with it at the end.
  The indices start at one: index 0, the dummy, is its own left child, and the loop need not
  leave it.  No caller passes it, and there is no result for it.
\<close>

definition heap_TopDown_tail :: "nat \<Rightarrow> heap_sched \<Rightarrow> heap_sched option" where
  "heap_TopDown_tail index h =
     (if heap_IsBottom h index then Some h
      else do {
        ns_assert (\<not> heap_IsBottom h index);
        let left = heap_LeftChild index;
        if heap_IsBottom h left then Some h
        else if heap_IsLessStrictly h index left then Some h
        else heap_Exch index left h
      })"

function heap_TopDown :: "nat \<Rightarrow> heap_sched \<Rightarrow> heap_sched option" where
  "heap_TopDown index h =
     (if index = 0 then None
      else if heap_IsBottom h (heap_RightChild index) then heap_TopDown_tail index h
      else let tmp = heap_Smallest h (heap_LeftChild index) (heap_RightChild index) in
        if heap_IsLessStrictly h index tmp then Some h
        else do { h \<leftarrow> heap_Exch index tmp h; heap_TopDown tmp h })"
  by pat_completeness auto
termination
proof (relation "measure (\<lambda>(i, h). length h - i)", goal_cases)
  case (2 i h tmp h')
  then show ?case
    using heap_Smallest_cases [of h "heap_LeftChild i" "heap_RightChild i"] heap_Exch_Some [of i tmp h h']
    by (auto simp: heap_index)
qed simp

declare heap_BottomUp_loop.simps [simp del] heap_TopDown.simps [simp del]

definition heap_Insert :: "event \<Rightarrow> heap_sched \<Rightarrow> heap_sched option" where
  "heap_Insert ev h = heap_BottomUp (h @ [ev])"

definition heap_PeekNext :: "heap_sched \<Rightarrow> event option" where
  "heap_PeekNext h = (if heap_Root < length h then Some (h ! heap_Root) else None)"

definition heap_RemoveNext :: "heap_sched \<Rightarrow> (event \<times> heap_sched) option" where
  "heap_RemoveNext h =
     (if heap_Root < length h
      then do {
        let nxt = h ! heap_Root;
        h \<leftarrow> heap_Exch heap_Root (heap_Last h) h;
        h \<leftarrow> heap_TopDown heap_Root (butlast h);
        Some (nxt, h)
      }
      else None)"

text \<open>The index search of \<^verbatim>\<open>Remove\<close>, from index \<open>i\<close> on; \<open>None\<close> is the
  failed assertion after the loop.\<close>

fun heap_find :: "u32 \<Rightarrow> nat \<Rightarrow> event list \<Rightarrow> nat option" where
  "heap_find uid i [] = None"
| "heap_find uid i (e # es) = (if uid = ev_uid e then Some i else heap_find uid (Suc i) es)"

definition heap_Remove :: "event \<Rightarrow> heap_sched \<Rightarrow> heap_sched option" where
  "heap_Remove ev h = do {
     i \<leftarrow> heap_find (ev_uid ev) 1 (drop 1 h);
     ns_assert (ev_impl (h ! i) = ev_impl ev);
     h \<leftarrow> heap_Exch i (heap_Last h) h;
     heap_TopDown i (butlast h)
   }"

definition heap_ops :: "heap_sched scheduler_ops" where
  "heap_ops = \<lparr>op_Insert = heap_Insert, op_IsEmpty = heap_IsEmpty, op_PeekNext = heap_PeekNext,
     op_RemoveNext = heap_RemoveNext, op_Remove = heap_Remove\<rparr>"

section \<open>The loops without their assertions\<close>

text \<open>The indices of \<^verbatim>\<open>Exch\<close> are always in range, so that the loops never fail.\<close>

definition swap_at :: "nat \<Rightarrow> nat \<Rightarrow> heap_sched \<Rightarrow> heap_sched" where
  "swap_at a b h = h[a := h ! b, b := h ! a]"

function sift_up :: "nat \<Rightarrow> heap_sched \<Rightarrow> heap_sched" where
  "sift_up index h =
     (if \<not> heap_IsRoot index \<and> heap_IsLessStrictly h index (heap_Parent index)
      then sift_up (heap_Parent index) (swap_at index (heap_Parent index) h)
      else h)"
  by pat_completeness auto
termination
proof (relation "measure fst", goal_cases)
  case (2 index h)
  then have "index \<noteq> 0" by (cases "index = 0") (auto simp: heap_less_rank heap_Parent_def)
  with 2 show ?case by (simp add: heap_index)
qed simp

definition sink_tail :: "nat \<Rightarrow> heap_sched \<Rightarrow> heap_sched" where
  "sink_tail index h =
     (if heap_IsBottom h index then h
      else let left = heap_LeftChild index in
        if heap_IsBottom h left then h
        else if heap_IsLessStrictly h index left then h
        else swap_at index left h)"

function sink :: "nat \<Rightarrow> heap_sched \<Rightarrow> heap_sched" where
  "sink index h =
     (if index = 0 then h
      else if heap_IsBottom h (heap_RightChild index) then sink_tail index h
      else let tmp = heap_Smallest h (heap_LeftChild index) (heap_RightChild index) in
        if heap_IsLessStrictly h index tmp then h
        else sink tmp (swap_at index tmp h))"
  by pat_completeness auto
termination
proof (relation "measure (\<lambda>(i, h). length h - i)", goal_cases)
  case (2 i h)
  then show ?case
    using heap_Smallest_cases [of h "heap_LeftChild i" "heap_RightChild i"]
    by (auto simp: heap_index swap_at_def heap_less_rank)
qed simp

declare sift_up.simps [simp del] sink.simps [simp del]

lemma heap_Exch_eq: "a < length h \<Longrightarrow> b < length h \<Longrightarrow> heap_Exch a b h = Some (swap_at a b h)"
  by (simp add: heap_Exch_def swap_at_def)

lemma heap_BottomUp_eq: "k < length h \<Longrightarrow> heap_BottomUp_loop k h = Some (sift_up k h)"
proof (induction k h rule: sift_up.induct)
  case (1 k h)
  have "heap_Parent k < length h" using 1(2) by (simp add: heap_Parent_def)
  then show ?case using 1
    by (simp add: heap_BottomUp_loop.simps [of k h] sift_up.simps [of k h] heap_Exch_eq swap_at_def)
qed

lemma heap_TopDown_eq: "1 \<le> k \<Longrightarrow> heap_TopDown k h = Some (sink k h)"
proof (induction k h rule: sink.induct)
  case (1 k h)
  let ?t = "heap_Smallest h (heap_LeftChild k) (heap_RightChild k)"
  have tail: "heap_TopDown_tail k h = Some (sink_tail k h)"
    by (simp add: heap_TopDown_tail_def sink_tail_def heap_Exch_eq heap_IsBottom_def Let_def)
  have t: "1 \<le> ?t" "?t < length h" "k < length h" if "\<not> heap_IsBottom h (heap_RightChild k)"
    using that 1(2) heap_Smallest_cases [of h "heap_LeftChild k" "heap_RightChild k"] by (auto simp: heap_index)
  show ?case using 1 t tail
    by (simp add: heap_TopDown.simps [of k h] sink.simps [of k h] heap_Exch_eq Let_def)
qed

lemma heap_Insert_eq: "heap_Insert ev h = Some (sift_up (length h) (h @ [ev]))"
  by (simp add: heap_Insert_def heap_BottomUp_def heap_Last_def heap_BottomUp_eq)

lemma heap_RemoveNext_eq:
  "1 < length h \<Longrightarrow> heap_RemoveNext h = Some (h ! 1, sink 1 (butlast (swap_at 1 (heap_Last h) h)))"
  by (simp add: heap_RemoveNext_def heap_Root_def heap_Exch_eq heap_Last_def heap_TopDown_eq Let_def)

lemma heap_Remove_eq:
  assumes "heap_find (ev_uid ev) 1 (drop 1 h) = Some i" and "1 \<le> i" "i < length h" "h ! i = ev"
  shows "heap_Remove ev h = Some (sink i (butlast (swap_at i (heap_Last h) h)))"
  using assms by (simp add: heap_Remove_def heap_Exch_eq heap_Last_def heap_TopDown_eq)

section \<open>Invariant and laws\<close>

definition heap_events :: "heap_sched \<Rightarrow> event multiset" where
  "heap_events h = mset (drop 1 h)"

definition heap_ok :: "heap_sched \<Rightarrow> bool" where
  "heap_ok h \<longleftrightarrow> (\<forall>i. 2 \<le> i \<and> i < length h \<longrightarrow> ev_rank (h ! (i div 2)) \<le> ev_rank (h ! i))"

definition heap_invar :: "heap_sched \<Rightarrow> bool" where
  "heap_invar h \<longleftrightarrow> h \<noteq> [] \<and> heap_ok h \<and> uniq_uids (heap_events h)"

lemma length_heap_Exch [simp]: "length (swap_at a b h) = length h"
  by (simp add: swap_at_def)

lemma nth_heap_Exch:
  assumes "a < length h" and "b < length h" and "i < length h"
  shows "swap_at a b h ! i = (if i = b then h ! a else if i = a then h ! b else h ! i)"
  using assms by (simp add: swap_at_def nth_list_update)

lemma heap_events_Exch:
  assumes "1 \<le> a" "1 \<le> b" "a < length h" "b < length h"
  shows "heap_events (swap_at a b h) = heap_events h"
proof -
  obtain d t where h: "h = d # t" using assms by (cases h) auto
  obtain x y where xy: "a = Suc x" "b = Suc y" using assms by (metis Suc_le_D One_nat_def)
  have "mset (t[x := t ! y, y := t ! x]) = mset t"
    using assms by (intro mset_swap) (simp_all add: h xy)
  then show ?thesis by (simp add: heap_events_def swap_at_def h xy)
qed

text \<open>\<^verbatim>\<open>BottomUp\<close>: only the edge above the current index may be out of order.\<close>

definition bottomup_inv :: "nat \<Rightarrow> heap_sched \<Rightarrow> bool" where
  "bottomup_inv k h \<longleftrightarrow> 1 \<le> k \<and> k < length h
     \<and> (\<forall>i. 2 \<le> i \<and> i < length h \<and> i \<noteq> k \<longrightarrow> ev_rank (h ! (i div 2)) \<le> ev_rank (h ! i))
     \<and> (2 \<le> k \<longrightarrow> (\<forall>c < length h. c div 2 = k \<longrightarrow> ev_rank (h ! (k div 2)) \<le> ev_rank (h ! c)))"

lemma bottomup_inv_step:
  assumes inv: "bottomup_inv k h" and k: "k \<noteq> 1" and less: "ev_rank (h ! k) < ev_rank (h ! (k div 2))"
  shows "bottomup_inv (k div 2) (swap_at k (k div 2) h)"
proof -
  let ?p = "k div 2" and ?h = "swap_at k (k div 2) h"
  have k2: "2 \<le> k" "k < length h" "1 \<le> ?p" "?p < length h" "?p < k"
    using inv k by (auto simp: bottomup_inv_def)
  have edge: "ev_rank (h ! (i div 2)) \<le> ev_rank (h ! i)" if "2 \<le> i" "i < length h" "i \<noteq> k" for i
    using inv that by (simp add: bottomup_inv_def)
  have below: "ev_rank (h ! ?p) \<le> ev_rank (h ! c)" if "c < length h" "c div 2 = k" for c
    using inv that k2 by (simp add: bottomup_inv_def)
  have nth: "?h ! i = (if i = ?p then h ! k else if i = k then h ! ?p else h ! i)"
    if "i < length h" for i
    using nth_heap_Exch [OF k2(2,4) that] by simp
  have other: "ev_rank (?h ! (i div 2)) \<le> ev_rank (?h ! i)"
    if i: "2 \<le> i" "i < length h" "i \<noteq> ?p" for i
  proof -
    have par: "i div 2 < length h" using i by simp
    consider "i = k" | "i \<noteq> k" "i div 2 = k" | "i \<noteq> k" "i div 2 = ?p"
      | "i \<noteq> k" "i div 2 \<noteq> k" "i div 2 \<noteq> ?p" by blast
    then show ?thesis
      using edge [OF i(1,2)] below [OF i(2)] less k2 i par by cases (simp_all add: nth)
  qed
  have "ev_rank (?h ! (?p div 2)) \<le> ev_rank (?h ! c)"
    if p: "2 \<le> ?p" and c: "c < length h" "c div 2 = ?p" for c
  proof -
    have pp: "?p div 2 < length h" "?p div 2 \<noteq> ?p" "?p div 2 \<noteq> k" "c \<noteq> ?p" "2 \<le> c"
      using p k2 c by auto
    have up: "ev_rank (h ! (?p div 2)) \<le> ev_rank (h ! ?p)" using edge [of ?p] p k2 by simp
    then show ?thesis
      using edge [of c] c pp less by (auto simp: nth [OF pp(1)] nth [OF c(1)] intro: order_trans)
  qed
  then show ?thesis using other k2 by (auto simp: bottomup_inv_def)
qed

lemma heap_BottomUp_loop_ok:
  assumes "bottomup_inv k h"
  shows "heap_ok (sift_up k h) \<and> heap_events (sift_up k h) = heap_events h
     \<and> length (sift_up k h) = length h"
  using assms
proof (induction k h rule: sift_up.induct)
  case (1 k h)
  show ?case
  proof (cases "\<not> heap_IsRoot k \<and> heap_IsLessStrictly h k (heap_Parent k)")
    case True
    then have inv: "bottomup_inv (heap_Parent k) (swap_at k (heap_Parent k) h)"
      using bottomup_inv_step [OF "1.prems"] by (simp add: heap_index heap_less_rank)
    have "heap_events (swap_at k (heap_Parent k) h) = heap_events h"
      using "1.prems" inv True by (intro heap_events_Exch) (auto simp: bottomup_inv_def heap_index)
    then show ?thesis
      using "1.IH" [OF True inv] True by (simp add: sift_up.simps [of k h])
  next
    case False
    have "ev_rank (h ! (i div 2)) \<le> ev_rank (h ! i)" if "2 \<le> i" "i < length h" for i
      using False "1.prems" that
      by (cases "i = k") (auto simp: bottomup_inv_def heap_index heap_less_rank)
    then have "heap_ok h" by (simp add: heap_ok_def)
    moreover have "sift_up k h = h"
      using False by (subst sift_up.simps) auto
    ultimately show ?thesis by simp
  qed
qed

lemma heap_BottomUp_push:
  assumes "h \<noteq> []" and "heap_ok h"
  shows "heap_ok (sift_up (length h) (h @ [ev])) \<and> sift_up (length h) (h @ [ev]) \<noteq> []
    \<and> heap_events (sift_up (length h) (h @ [ev])) = add_mset ev (heap_events h)"
proof -
  have parent: "i div 2 < length h" if "i \<le> length h" for i
    using that assms(1) by (metis div_less_dividend le_neq_implies_less le_trans length_greater_0_conv
        less_le_trans one_less_numeral_iff semiring_norm(76) div_le_dividend)
  have "bottomup_inv (length h) (h @ [ev])"
    using assms parent
    by (auto simp: bottomup_inv_def heap_ok_def nth_append Suc_le_eq less_Suc_eq)
  from heap_BottomUp_loop_ok [OF this] show ?thesis
    using assms(1) by (cases h) (auto simp: heap_Last_def heap_events_def)
qed

text \<open>\<^verbatim>\<open>TopDown\<close>: only the edges below the current index may be out of order.\<close>

definition topdown_inv :: "nat \<Rightarrow> heap_sched \<Rightarrow> bool" where
  "topdown_inv k h \<longleftrightarrow> 1 \<le> k
     \<and> (\<forall>i. 2 \<le> i \<and> i < length h \<and> i div 2 \<noteq> k \<longrightarrow> ev_rank (h ! (i div 2)) \<le> ev_rank (h ! i))
     \<and> (2 \<le> k \<longrightarrow> (\<forall>c < length h. c div 2 = k \<longrightarrow> ev_rank (h ! (k div 2)) \<le> ev_rank (h ! c)))"

lemma topdown_inv_step:
  assumes inv: "topdown_inv k h" and c: "c < length h" "c div 2 = k"
    and least: "\<And>d. d < length h \<Longrightarrow> d div 2 = k \<Longrightarrow> ev_rank (h ! c) \<le> ev_rank (h ! d)"
    and ge: "ev_rank (h ! c) \<le> ev_rank (h ! k)"
  shows "topdown_inv c (swap_at k c h)"
proof -
  let ?h = "swap_at k c h"
  have k1: "1 \<le> k" "k < length h" "k < c" "2 \<le> c" using inv c by (auto simp: topdown_inv_def)
  have edge: "ev_rank (h ! (i div 2)) \<le> ev_rank (h ! i)"
    if "2 \<le> i" "i < length h" "i div 2 \<noteq> k" for i
    using inv that by (simp add: topdown_inv_def)
  have nth: "?h ! i = (if i = c then h ! k else if i = k then h ! c else h ! i)"
    if "i < length h" for i
    using nth_heap_Exch [OF k1(2) c(1) that] by simp
  have "ev_rank (?h ! (i div 2)) \<le> ev_rank (?h ! i)"
    if i: "2 \<le> i" "i < length h" "i div 2 \<noteq> c" for i
  proof -
    have par: "i div 2 < length h" using i by simp
    consider "i div 2 = k" | "i = k" "i div 2 \<noteq> k" | "i \<noteq> k" "i div 2 \<noteq> k" by blast
    then show ?thesis
    proof cases
      case 1
      then show ?thesis
        using least [OF i(2)] ge k1 by (auto simp: nth [OF k1(2)] nth [OF i(2)])
    next
      case 2
      have "ev_rank (h ! (k div 2)) \<le> ev_rank (h ! c)"
        using inv c i 2 by (simp add: topdown_inv_def)
      then show ?thesis using 2 i k1 par by (simp add: nth)
    next
      case 3
      then show ?thesis using edge [OF i(1,2)] i c by (auto simp: nth [OF par] nth [OF i(2)])
    qed
  qed
  moreover have "ev_rank (?h ! (c div 2)) \<le> ev_rank (?h ! d)" if d: "d < length h" "d div 2 = c" for d
    using edge [of d] d c k1 by (auto simp: nth [OF k1(2)] nth [OF d(1)])
  ultimately show ?thesis using k1 by (auto simp: topdown_inv_def)
qed

lemma topdown_done:
  assumes "topdown_inv k h" and "\<And>d. d < length h \<Longrightarrow> d div 2 = k \<Longrightarrow> ev_rank (h ! k) \<le> ev_rank (h ! d)"
  shows "heap_ok h"
  using assms unfolding heap_ok_def topdown_inv_def by metis

lemma child_cases: "(d :: nat) div 2 = k \<Longrightarrow> d = 2 * k \<or> d = 2 * k + 1"
  by presburger

lemma heap_TopDown_tail_ok:
  assumes inv: "topdown_inv k h" and bot: "heap_IsBottom h (heap_RightChild k)"
  shows "heap_ok (sink_tail k h) \<and> heap_events (sink_tail k h) = heap_events h
     \<and> length (sink_tail k h) = length h"
proof -
  have k1: "1 \<le> k" using inv by (simp add: topdown_inv_def)
  have child: "d = 2 * k" if "d < length h" "d div 2 = k" for d
    using child_cases [OF that(2)] that bot by (auto simp: heap_index)
  show ?thesis
  proof (cases "2 * k < length h \<and> \<not> heap_IsLessStrictly h k (2 * k)")
    case True
    then have le: "ev_rank (h ! (2 * k)) \<le> ev_rank (h ! k)" by (simp add: heap_less_rank)
    have "topdown_inv (2 * k) (swap_at k (2 * k) h)"
    proof (rule topdown_inv_step [OF inv])
      show "ev_rank (h ! (2 * k)) \<le> ev_rank (h ! d)" if "d < length h" "d div 2 = k" for d
        using child [OF that] by simp
    qed (use True le in simp_all)
    moreover have "\<not> d < length h" if "d div 2 = 2 * k" for d
      using child_cases [OF that] bot k1 by (auto simp: heap_index)
    ultimately have "heap_ok (swap_at k (2 * k) h)" by (intro topdown_done) auto
    moreover have "heap_events (swap_at k (2 * k) h) = heap_events h"
      using True k1 by (intro heap_events_Exch) auto
    ultimately show ?thesis
      using True k1 by (simp add: sink_tail_def heap_index Let_def mult.commute)
  next
    case False
    have "heap_ok h"
      using False child by (intro topdown_done [OF inv]) (auto simp: heap_less_rank)
    then show ?thesis
      using False by (auto simp: sink_tail_def heap_index Let_def mult.commute)
  qed
qed

lemma heap_TopDown_ok:
  assumes "topdown_inv k h"
  shows "heap_ok (sink k h) \<and> heap_events (sink k h) = heap_events h
     \<and> length (sink k h) = length h"
  using assms
proof (induction k h rule: sink.induct)
  case (1 k h)
  let ?l = "heap_LeftChild k" and ?r = "heap_RightChild k"
  let ?t = "heap_Smallest h ?l ?r"
  have k1: "1 \<le> k" using "1.prems" by (simp add: topdown_inv_def)
  show ?case
  proof (cases "heap_IsBottom h ?r")
    case True
    then show ?thesis
      using heap_TopDown_tail_ok [OF "1.prems" True] k1
      by (simp add: sink.simps [of k h] Let_def)
  next
    case False
    have t: "?t < length h" "?t div 2 = k" "k < length h" "1 \<le> ?t"
      using heap_Smallest_cases [of h ?l ?r] False k1 by (auto simp: heap_index)
    have least: "ev_rank (h ! ?t) \<le> ev_rank (h ! d)" if "d div 2 = k" for d
      using child_cases [OF that]
      by (auto simp: heap_Smallest_def heap_index heap_less_rank mult.commute)
    show ?thesis
    proof (cases "heap_IsLessStrictly h k ?t")
      case less: True
      have "heap_ok h"
        using less least by (intro topdown_done [OF "1.prems"])
          (auto simp: heap_less_rank intro: order_trans [OF less_imp_le])
      then show ?thesis using False less k1 by (simp add: sink.simps [of k h] Let_def)
    next
      case ge: False
      have inv: "topdown_inv ?t (swap_at k ?t h)"
        using ge least t by (intro topdown_inv_step [OF "1.prems"]) (auto simp: heap_less_rank)
      have "heap_events (swap_at k ?t h) = heap_events h"
        using t k1 by (intro heap_events_Exch) auto
      then show ?thesis
        using "1.IH" [OF _ False refl ge inv] False ge k1 by (simp add: sink.simps [of k h] Let_def)
    qed
  qed
qed

lemma heap_butlast_events:
  assumes i: "1 \<le> i" "i < length h"
  shows "heap_events (butlast (swap_at i (heap_Last h) h)) = heap_events h - {#h ! i#}"
proof -
  let ?n = "heap_Last h" and ?h = "butlast (swap_at i (heap_Last h) h)"
  have n: "?n < length h" "1 \<le> ?n" "length ?h = ?n" using i by (auto simp: heap_Last_def)
  have "drop 1 (swap_at i ?n h) = drop 1 ?h @ [h ! i]"
  proof -
    have "swap_at i ?n h \<noteq> []" using i by (metis length_0_conv length_heap_Exch not_less_zero)
    then have "swap_at i ?n h = ?h @ [swap_at i ?n h ! ?n]"
      by (metis append_butlast_last_id heap_Last_def last_conv_nth length_heap_Exch)
    moreover have "swap_at i ?n h ! ?n = h ! i" using i n by (simp add: nth_heap_Exch)
    ultimately show ?thesis using n by (metis drop_append append_self_conv2 drop0 diff_is_0_eq)
  qed
  then have "heap_events (swap_at i ?n h) = add_mset (h ! i) (heap_events ?h)"
    by (simp add: heap_events_def)
  then show ?thesis
    using heap_events_Exch [of i ?n h] i n by simp
qed

text \<open>
  The step that \<^verbatim>\<open>RemoveNext\<close> and \<^verbatim>\<open>Remove\<close> share: the last element
  takes the place of the removed one.  The sift that follows goes down only, so the new
  element must not precede the parent of its new place.
\<close>

lemma heap_replace_last:
  assumes ok: "heap_ok h" and i: "1 \<le> i" "i < length h"
    and up: "i = 1 \<or> i = heap_Last h \<or> ev_rank (h ! (i div 2)) \<le> ev_rank (h ! heap_Last h)"
  shows "topdown_inv i (butlast (swap_at i (heap_Last h) h))"
    and "heap_events (butlast (swap_at i (heap_Last h) h)) = heap_events h - {#h ! i#}"
proof -
  let ?n = "heap_Last h" and ?h = "butlast (swap_at i (heap_Last h) h)"
  have n: "?n < length h" "1 \<le> ?n" "length ?h = ?n" using i by (auto simp: heap_Last_def)
  have nth: "?h ! j = (if j = i then h ! ?n else h ! j)" if "j < ?n" for j
    using that i n by (auto simp: nth_butlast nth_heap_Exch)
  have edge: "ev_rank (h ! (j div 2)) \<le> ev_rank (h ! j)" if "2 \<le> j" "j < length h" for j
    using ok that by (simp add: heap_ok_def)
  have "ev_rank (?h ! (j div 2)) \<le> ev_rank (?h ! j)" if j: "2 \<le> j" "j < ?n" "j div 2 \<noteq> i" for j
  proof -
    have "j div 2 < ?n" using j by simp
    then show ?thesis using edge [of j] up j n by (auto simp: nth)
  qed
  moreover have "ev_rank (?h ! (i div 2)) \<le> ev_rank (?h ! c)"
    if "2 \<le> i" and c: "c < ?n" "c div 2 = i" for c
  proof -
    have b: "i div 2 < ?n" "i < ?n" "c \<noteq> i" "i div 2 \<noteq> i" "2 \<le> c" using that by auto
    have "ev_rank (h ! (i div 2)) \<le> ev_rank (h ! i)" using edge [of i] that b n by simp
    also have "\<dots> \<le> ev_rank (h ! c)" using edge [of c] that b n by simp
    finally show ?thesis using b c by (simp add: nth)
  qed
  ultimately show "topdown_inv i ?h" using i n by (auto simp: topdown_inv_def)
  show "heap_events ?h = heap_events h - {#h ! i#}" using heap_butlast_events [OF i] .
qed

lemma heap_invar_TopDown:
  assumes "heap_invar h" and "topdown_inv i h'" and "heap_events h' = heap_events h - M" and "h' \<noteq> []"
  shows "heap_invar (sink i h')" and "heap_events (sink i h') = heap_events h - M"
  using heap_TopDown_ok [OF assms(2)] assms by (auto simp: heap_invar_def)

lemma heap_root_min:
  assumes ok: "heap_ok h"
  shows "1 \<le> j \<Longrightarrow> j < length h \<Longrightarrow> ev_rank (h ! 1) \<le> ev_rank (h ! j)"
proof (induction j rule: less_induct)
  case (less j)
  show ?case
  proof (cases "j = 1")
    case False
    then have "ev_rank (h ! 1) \<le> ev_rank (h ! (j div 2))" using less by auto
    also have "\<dots> \<le> ev_rank (h ! j)" using ok less.prems False by (auto simp: heap_ok_def)
    finally show ?thesis .
  qed simp
qed

lemma heap_events_nth: "e \<in># heap_events h \<longleftrightarrow> (\<exists>j \<ge> 1. j < length h \<and> e = h ! j)"
proof
  assume "e \<in># heap_events h"
  then obtain k where "k < length h - 1" "e = drop 1 h ! k"
    by (auto simp: heap_events_def in_set_conv_nth)
  then show "\<exists>j \<ge> 1. j < length h \<and> e = h ! j" by (intro exI [of _ "Suc k"]) auto
next
  assume "\<exists>j \<ge> 1. j < length h \<and> e = h ! j"
  then obtain j where j: "1 \<le> j" "j < length h" "e = h ! j" by blast
  then have "drop 1 h ! (j - 1) = e" and "j - 1 < length (drop 1 h)" by auto
  then show "e \<in># heap_events h" unfolding heap_events_def by (metis nth_mem set_mset_mset)
qed

lemma heap_is_next: "heap_invar h \<Longrightarrow> 1 < length h \<Longrightarrow> is_next (h ! 1) (heap_events h)"
  using heap_root_min by (auto simp: is_next_rank heap_events_nth heap_invar_def)

lemma heap_nonempty: "heap_invar h \<Longrightarrow> heap_events h \<noteq> {#} \<longleftrightarrow> 1 < length h"
  by (cases h; cases "tl h") (auto simp: heap_events_def heap_invar_def)

interpretation hs: scheduler heap_ops heap_invar heap_events "\<lambda>_. 0"
proof unfold_locales
  fix s ev
  assume "heap_invar s" and "insertable 0 ev (heap_events s)"
  then show "\<exists>s'. op_Insert heap_ops ev s = Some s' \<and> heap_invar s'
      \<and> heap_events s' = add_mset ev (heap_events s) \<and> (0::nat) = 0"
    using heap_BottomUp_push [of s ev]
    by (auto simp: heap_ops_def heap_Insert_eq heap_invar_def insertable_def)
next
  fix s
  assume i: "heap_invar s" and ne: "heap_events s \<noteq> {#}"
  then have len: "1 < length s" using heap_nonempty by simp
  have nx: "is_next (s ! 1) (heap_events s)" using heap_is_next [OF i len] .
  show "\<exists>ev. op_PeekNext heap_ops s = Some ev \<and> is_next ev (heap_events s)"
    using nx len by (simp add: heap_ops_def heap_PeekNext_def heap_Root_def)
  let ?h = "butlast (swap_at 1 (heap_Last s) s)"
  have ok: "heap_ok s" using i by (simp add: heap_invar_def)
  have "length ?h > 0" using len by simp
  then have "?h \<noteq> []" by (metis length_greater_0_conv)
  then have "heap_invar (sink 1 ?h)"
    "heap_events (sink 1 ?h) = heap_events s - {#s ! 1#}"
    using heap_invar_TopDown [OF i heap_replace_last [OF ok _ len]] by simp_all
  then show "\<exists>ev s'. op_RemoveNext heap_ops s = Some (ev, s') \<and> is_next ev (heap_events s)
      \<and> heap_invar s' \<and> heap_events s' = heap_events s - {#ev#} \<and> 0 \<le> unat (ev_ts ev)"
    using nx len by (simp add: heap_ops_def heap_RemoveNext_eq)
next
  fix s
  assume "heap_invar s"
  then show "op_IsEmpty heap_ops s \<longleftrightarrow> heap_events s = {#}"
    by (cases s) (auto simp: heap_ops_def heap_IsEmpty_def heap_events_def heap_invar_def)
qed (auto simp: heap_invar_def)

section \<open>Remove\<close>

text \<open>
  \<^verbatim>\<open>Remove\<close> finds a pending event and deletes that event and no other.  The heap
  order survives when the last element, moved into the freed place, does not precede the
  parent of that place; the code sifts down only, and there are heaps where the order is
  lost.
\<close>

lemma heap_find_spec:
  "heap_find uid k es = Some i \<Longrightarrow> k \<le> i \<and> i - k < length es \<and> ev_uid (es ! (i - k)) = uid"
  by (induction es arbitrary: k) (fastforce split: if_splits simp: Suc_diff_le nth_Cons')+

lemma heap_find_ex: "e \<in> set es \<Longrightarrow> \<exists>i. heap_find (ev_uid e) k es = Some i"
  by (induction es arbitrary: k) auto

lemma heap_find_pending:
  assumes "heap_invar h" and "ev \<in># heap_events h"
  shows "\<exists>i. heap_find (ev_uid ev) 1 (drop 1 h) = Some i \<and> 1 \<le> i \<and> i < length h \<and> h ! i = ev"
proof -
  obtain i where f: "heap_find (ev_uid ev) 1 (drop 1 h) = Some i"
    using assms(2) heap_find_ex by (fastforce simp: heap_events_def)
  then have i: "1 \<le> i" "i < length h" "ev_uid (h ! i) = ev_uid ev"
    using heap_find_spec [OF f] by auto
  then have "h ! i \<in># heap_events h" by (auto simp: heap_events_nth)
  then have "h ! i = ev" using assms i by (intro uniq_uids_same) (auto simp: heap_invar_def)
  then show ?thesis using f i by blast
qed

text \<open>Whatever the order, sinking only rearranges.\<close>

lemma heap_TopDown_events: "1 \<le> k \<Longrightarrow> heap_events (sink k h) = heap_events h"
proof (induction k h rule: sink.induct)
  case (1 k h)
  let ?t = "heap_Smallest h (heap_LeftChild k) (heap_RightChild k)"
  show ?case
  proof (cases "heap_IsBottom h (heap_RightChild k)")
    case True
    have "heap_events (sink_tail k h) = heap_events h"
      using "1.prems" by (auto simp: sink_tail_def heap_index Let_def intro!: heap_events_Exch)
    then show ?thesis using True "1.prems" by (simp add: sink.simps [of k h])
  next
    case False
    have t: "1 \<le> ?t" "?t < length h" "k < length h"
      using heap_Smallest_cases [of h "heap_LeftChild k" "heap_RightChild k"] False "1.prems"
      by (auto simp: heap_index)
    then have "heap_events (swap_at k ?t h) = heap_events h"
      using "1.prems" by (intro heap_events_Exch) auto
    then show ?thesis
      using "1.IH" [OF _ False refl] False t "1.prems" by (simp add: sink.simps [of k h] Let_def)
  qed
qed

text \<open>
  An element that precedes the parent of its place, in a heap that is in order otherwise, does
  not move down: it precedes everything below its place as well.
\<close>

lemma heap_replace_smaller:
  assumes ok: "heap_ok h" and i: "2 \<le> i" "i < heap_Last h" and less: "ev_rank (h ! heap_Last h) < ev_rank (h ! (i div 2))"
  shows "\<not> heap_ok (sink i (butlast (swap_at i (heap_Last h) h)))"
proof -
  let ?n = "heap_Last h" and ?h = "butlast (swap_at i (heap_Last h) h)"
  have n: "i < length h" "?n < length h" "length ?h = ?n" using i by (auto simp: heap_Last_def)
  have nth: "?h ! j = (if j = i then h ! ?n else h ! j)" if "j < ?n" for j
    using that i n by (auto simp: nth_butlast nth_heap_Exch)
  have below: "heap_IsLessStrictly ?h i c" if "c < ?n" "c div 2 = i" for c
  proof -
    have "ev_rank (h ! (i div 2)) \<le> ev_rank (h ! i)" "ev_rank (h ! (c div 2)) \<le> ev_rank (h ! c)"
      using ok i n that unfolding heap_ok_def by auto
    then show ?thesis using less that i by (auto simp: heap_less_rank nth)
  qed
  have left: "heap_LeftChild i div 2 = i" "heap_RightChild i div 2 = i" by (simp_all add: heap_index)
  have small: "heap_Smallest ?h (heap_LeftChild i) (heap_RightChild i) div 2 = i"
    using heap_Smallest_cases [of ?h "heap_LeftChild i" "heap_RightChild i"] left by auto
  have "sink i ?h = ?h"
  proof (cases "heap_IsBottom ?h (heap_RightChild i)")
    case True
    have "sink_tail i ?h = ?h" using below [OF _ left(1)] n(3) by (simp add: sink_tail_def heap_IsBottom_def Let_def)
    then show ?thesis using True i by (simp add: sink.simps [of i ?h])
  next
    case False
    then have "heap_Smallest ?h (heap_LeftChild i) (heap_RightChild i) < ?n"
      using heap_Smallest_cases [of ?h "heap_LeftChild i" "heap_RightChild i"] n(3) by (auto simp: heap_index)
    then show ?thesis using below [OF _ small] False i by (simp add: sink.simps [of i ?h] Let_def)
  qed
  moreover have "i div 2 < ?n" "i div 2 \<noteq> i" using i by auto
  then have "ev_rank (?h ! i) < ev_rank (?h ! (i div 2))" using less i by (simp add: nth)
  ultimately show ?thesis using i n(3) by (auto simp: heap_ok_def not_le [symmetric])
qed

lemma heap_Remove_pending:
  assumes inv: "heap_invar h" and mem: "ev \<in># heap_events h"
  shows "\<exists>i h'. 1 \<le> i \<and> i < length h \<and> h ! i = ev \<and> heap_Remove ev h = Some h'
     \<and> heap_events h' = heap_events h - {#ev#}
     \<and> (heap_invar h' \<longleftrightarrow> i = 1 \<or> i = heap_Last h \<or> ev_rank (h ! (i div 2)) \<le> ev_rank (h ! heap_Last h))"
proof -
  obtain i where f: "heap_find (ev_uid ev) 1 (drop 1 h) = Some i" and i: "1 \<le> i" "i < length h" "h ! i = ev"
    using heap_find_pending [OF inv mem] by blast
  let ?h = "butlast (swap_at i (heap_Last h) h)"
  have rm: "heap_Remove ev h = Some (sink i ?h)" using heap_Remove_eq [OF f i] .
  have ok: "heap_ok h" using inv by (simp add: heap_invar_def)
  have ne: "?h \<noteq> []" using i by (metis One_nat_def Suc_pred bot_nat_0.extremum_strict length_butlast
        length_heap_Exch less_Suc_eq_le list.size(3) not_less order.strict_trans2 zero_less_diff zero_less_one)
  have evs: "heap_events ?h = heap_events h - {#ev#}"
    using heap_butlast_events [OF i(1,2)] i(3) by simp
  then have "heap_events (sink i ?h) = heap_events h - {#ev#}"
    using heap_TopDown_events [OF i(1)] by simp
  moreover have "heap_invar (sink i ?h)"
    if "i = 1 \<or> i = heap_Last h \<or> ev_rank (h ! (i div 2)) \<le> ev_rank (h ! heap_Last h)"
    using heap_invar_TopDown(1) [OF inv heap_replace_last(1) [OF ok i(1,2) that] evs ne] .
  moreover have "\<not> heap_invar (sink i ?h)"
    if "i \<noteq> 1" "i \<noteq> heap_Last h" "\<not> ev_rank (h ! (i div 2)) \<le> ev_rank (h ! heap_Last h)"
    using heap_replace_smaller [OF ok, of i] that i by (auto simp: heap_invar_def heap_Last_def)
  ultimately show ?thesis using rm i by blast
qed

end
