(* ===== verification/Priority_Queue_Scheduler.thy ===== *)
theory Priority_Queue_Scheduler
  imports Scheduler
begin

text \<open>
  \<^verbatim>\<open>ns3::PriorityQueueScheduler\<close> (src/core/model/priority-queue-scheduler.cc): a
  \<^verbatim>\<open>std::priority_queue\<close> over a \<^verbatim>\<open>std::vector\<close>.  The standard library
  promises what \<^verbatim>\<open>top\<close> and \<^verbatim>\<open>pop\<close> return and not how the vector is
  arranged, so the queue is the list of its elements; \<^verbatim>\<open>top\<close> is a least element
  (the comparator is \<^verbatim>\<open>std::greater\<close>), and \<^verbatim>\<open>std::make_heap\<close> only
  rearranges.
\<close>

type_synonym pq_sched = "event list"

definition PriorityQueueScheduler_init :: pq_sched where
  "PriorityQueueScheduler_init = []"

fun std_pq_top :: "pq_sched \<Rightarrow> event option" where
  "std_pq_top [] = None"
| "std_pq_top (e # es) = (case std_pq_top es of
     None \<Rightarrow> Some e
   | Some m \<Rightarrow> Some (if event_less m e then m else e))"

definition pq_Insert :: "event \<Rightarrow> pq_sched \<Rightarrow> pq_sched option" where
  "pq_Insert ev q = Some (q @ [ev])"

definition pq_IsEmpty :: "pq_sched \<Rightarrow> bool" where
  "pq_IsEmpty q \<longleftrightarrow> q = []"

definition pq_PeekNext :: "pq_sched \<Rightarrow> event option" where
  "pq_PeekNext q = std_pq_top q"

definition pq_RemoveNext :: "pq_sched \<Rightarrow> (event \<times> pq_sched) option" where
  "pq_RemoveNext q = do { ev \<leftarrow> std_pq_top q; Some (ev, remove1 ev q) }"

text \<open>\<^verbatim>\<open>std::find\<close> compares with \<open>operator==\<close>, which compares unique ids; an
  event that is not found is no failure.\<close>

fun pq_remove :: "event \<Rightarrow> pq_sched \<Rightarrow> pq_sched \<times> bool" where
  "pq_remove ev [] = ([], False)"
| "pq_remove ev (i # rest) =
     (if event_eq i ev then (rest, True)
      else let (rest', found) = pq_remove ev rest in (i # rest', found))"

definition pq_Remove :: "event \<Rightarrow> pq_sched \<Rightarrow> pq_sched option" where
  "pq_Remove ev q = Some (fst (pq_remove ev q))"

definition pq_ops :: "pq_sched scheduler_ops" where
  "pq_ops = \<lparr>op_Insert = pq_Insert, op_IsEmpty = pq_IsEmpty, op_PeekNext = pq_PeekNext,
     op_RemoveNext = pq_RemoveNext, op_Remove = pq_Remove\<rparr>"

definition pq_invar :: "pq_sched \<Rightarrow> bool" where
  "pq_invar q \<longleftrightarrow> uniq_uids (mset q)"

lemma std_pq_top_None [simp]: "std_pq_top q = None \<longleftrightarrow> q = []"
  by (cases q) (auto split: option.splits)

lemma std_pq_top_next: "std_pq_top q = Some ev \<Longrightarrow> is_next ev (mset q)"
proof (induction q arbitrary: ev)
  case (Cons x xs)
  then show ?case
    by (auto simp: is_next_rank event_less_rank split: option.splits if_splits)
qed simp

lemma pq_remove_mem:
  assumes "uniq_uids (mset q)" and "ev \<in> set q"
  shows "mset (fst (pq_remove ev q)) = mset q - {#ev#}"
  using assms
proof (induction q)
  case (Cons x xs)
  show ?case
  proof (cases "event_eq x ev")
    case True
    then have "x = ev"
      using Cons.prems by (metis event_eq_def key_eq_def list.set_intros(1) set_mset_mset uniq_uids_same)
    then show ?thesis by (simp add: event_eq_def key_eq_def)
  next
    case False
    then have "ev \<in> set xs" using Cons.prems(2) by (auto simp: event_eq_def key_eq_def)
    then show ?thesis using False Cons by (auto simp: case_prod_beta)
  qed
qed simp

interpretation pqs: removing_scheduler pq_ops pq_invar mset "\<lambda>_. 0"
proof unfold_locales
  fix s ev
  assume i: "pq_invar s"
  show "op_IsEmpty pq_ops s \<longleftrightarrow> mset s = {#}" by (simp add: pq_ops_def pq_IsEmpty_def)
  show "uniq_uids (mset s)" using i by (simp add: pq_invar_def)
  show "\<exists>s'. op_Insert pq_ops ev s = Some s' \<and> pq_invar s' \<and> mset s' = add_mset ev (mset s)
      \<and> (0::nat) = 0" if "insertable 0 ev (mset s)"
    using i that by (simp add: pq_ops_def pq_Insert_def pq_invar_def insertable_def)
  show "\<exists>s'. op_Remove pq_ops ev s = Some s' \<and> pq_invar s' \<and> mset s' = mset s - {#ev#}
      \<and> (0::nat) = 0" if "ev \<in># mset s"
    using i that pq_remove_mem [of s ev] by (simp add: pq_ops_def pq_Remove_def pq_invar_def)
  assume "mset s \<noteq> {#}"
  then obtain e where e: "std_pq_top s = Some e" by (cases "std_pq_top s") auto
  show "\<exists>ev. op_PeekNext pq_ops s = Some ev \<and> is_next ev (mset s)"
    using e std_pq_top_next by (simp add: pq_ops_def pq_PeekNext_def)
  show "\<exists>ev s'. op_RemoveNext pq_ops s = Some (ev, s') \<and> is_next ev (mset s) \<and> pq_invar s'
      \<and> mset s' = mset s - {#ev#} \<and> 0 \<le> unat (ev_ts ev)"
    using e std_pq_top_next i by (simp add: pq_ops_def pq_RemoveNext_def pq_invar_def)
qed

end
