(* ===== verification/Calendar_Scheduler.thy ===== *)
theory Calendar_Scheduler
  imports Scheduler
begin

text \<open>
  \<^verbatim>\<open>ns3::CalendarScheduler\<close> (src/core/model/calendar-scheduler.cc): a calendar
  queue.  Time is divided into days of \<open>cal_width\<close> time units; day \<open>d\<close> goes to bucket
  \<open>d mod cal_nBuckets\<close>, and each bucket is a sorted list, in reverse order when
  \<open>cal_reverse\<close> is set.  A search starts at the bucket of the last removed event and
  goes once around the calendar; the counters are the 32- and 64-bit words of the code,
  and the day boundary \<open>cal_bucketTop\<close> wraps around as it does there.
\<close>

record calendar =
  cal_buckets :: "event list list"
  cal_nBuckets :: u32
  cal_width :: u64
  cal_lastBucket :: u32
  cal_bucketTop :: u64
  cal_lastPrio :: u64
  cal_qSize :: u32
  cal_reverse :: bool

text \<open>The function pointers that \<^verbatim>\<open>SetReverse\<close> installs.\<close>

definition cal_NextEvent :: "bool \<Rightarrow> event list \<Rightarrow> event" where
  "cal_NextEvent reverse bucket = (if reverse then last bucket else hd bucket)"

definition cal_Order :: "bool \<Rightarrow> event_key \<Rightarrow> event_key \<Rightarrow> bool" where
  "cal_Order reverse a b = (if reverse then key_greater a b else key_less a b)"

definition cal_Pop :: "bool \<Rightarrow> event list \<Rightarrow> event list" where
  "cal_Pop reverse bucket = (if reverse then butlast bucket else tl bucket)"

definition cal_Hash :: "u32 \<Rightarrow> u64 \<Rightarrow> u64 \<Rightarrow> u32" where
  "cal_Hash nBuckets width ts = ucast ((ts div width) mod ucast nBuckets)"

definition cal_Init :: "u32 \<Rightarrow> u64 \<Rightarrow> u64 \<Rightarrow> calendar \<Rightarrow> calendar" where
  "cal_Init nBuckets width startPrio c = c\<lparr>
     cal_buckets := replicate (unat nBuckets) [],
     cal_nBuckets := nBuckets,
     cal_width := width,
     cal_lastPrio := startPrio,
     cal_lastBucket := cal_Hash nBuckets width startPrio,
     cal_bucketTop := (startPrio div width + 1) * width\<rparr>"

definition CalendarScheduler_init :: "bool \<Rightarrow> calendar" where
  "CalendarScheduler_init reverse = cal_Init 2 1 0
     \<lparr>cal_buckets = [], cal_nBuckets = 0, cal_width = 0, cal_lastBucket = 0, cal_bucketTop = 0,
      cal_lastPrio = 0, cal_qSize = 0, cal_reverse = reverse\<rparr>"

fun cal_insert_bucket :: "bool \<Rightarrow> event \<Rightarrow> event list \<Rightarrow> event list" where
  "cal_insert_bucket reverse ev [] = [ev]"
| "cal_insert_bucket reverse ev (i # rest) =
     (if cal_Order reverse (ev_key ev) (ev_key i) then ev # i # rest
      else i # cal_insert_bucket reverse ev rest)"

definition cal_DoInsert :: "event \<Rightarrow> calendar \<Rightarrow> calendar" where
  "cal_DoInsert ev c =
     (let bucket = unat (cal_Hash (cal_nBuckets c) (cal_width c) (ev_ts ev)) in
      c\<lparr>cal_buckets := (cal_buckets c)
          [bucket := cal_insert_bucket (cal_reverse c) ev (cal_buckets c ! bucket)]\<rparr>)"

definition cal_IsEmpty :: "calendar \<Rightarrow> bool" where
  "cal_IsEmpty c \<longleftrightarrow> cal_qSize c = 0"

text \<open>
  The search loop of \<^verbatim>\<open>PeekNext\<close> and \<^verbatim>\<open>DoRemoveNext\<close>: bucket \<open>i\<close>
  with day boundary \<open>bucketTop\<close>, and the least event seen so far with its bucket.
  The loop ends where it started; \<open>None\<close> is fuel that ran out.
\<close>

datatype cal_search = CalFound u32 u64 event | CalMin event "u32 option"

fun cal_scan :: "nat \<Rightarrow> calendar \<Rightarrow> u32 \<Rightarrow> u64 \<Rightarrow> event \<Rightarrow> u32 option \<Rightarrow> cal_search option" where
  "cal_scan 0 c i bucketTop mn mb = None"
| "cal_scan (Suc fuel) c i bucketTop mn mb =
     (let bucket = cal_buckets c ! unat i;
          nxt = cal_NextEvent (cal_reverse c) bucket;
          better = bucket \<noteq> [] \<and> key_less (ev_key nxt) (ev_key mn);
          mn' = (if better then nxt else mn);
          mb' = (if better then Some i else mb);
          i' = (i + 1) mod cal_nBuckets c
      in if bucket \<noteq> [] \<and> ev_ts nxt < bucketTop then Some (CalFound i bucketTop nxt)
         else if i' \<noteq> cal_lastBucket c
         then cal_scan fuel c i' (bucketTop + cal_width c) mn' mb'
         else Some (CalMin mn' mb'))"

text \<open>The initial minimum of the two searches.\<close>

definition cal_peekMin :: event where
  "cal_peekMin = \<lparr>ev_impl = nullptr, ev_key = \<lparr>key_ts = 0xffffffffffffffff,
     key_uid = 0xffffffff, key_context = 0\<rparr>\<rparr>"

definition cal_removeMin :: event where
  "cal_removeMin = \<lparr>ev_impl = nullptr, ev_key = \<lparr>key_ts = 0xffffffffffffffff,
     key_uid = 0, key_context = 0xffffffff\<rparr>\<rparr>"

definition cal_PeekNext :: "calendar \<Rightarrow> event option" where
  "cal_PeekNext c = do {
     ns_assert (\<not> cal_IsEmpty c);
     r \<leftarrow> cal_scan (unat (cal_nBuckets c)) c (cal_lastBucket c) (cal_bucketTop c)
       cal_peekMin None;
     Some (case r of CalFound i t nxt \<Rightarrow> nxt | CalMin mn mb \<Rightarrow> mn)
   }"

definition cal_DoRemoveNext :: "calendar \<Rightarrow> (event \<times> calendar) option" where
  "cal_DoRemoveNext c = do {
     ns_assert (\<not> cal_IsEmpty c);
     r \<leftarrow> cal_scan (unat (cal_nBuckets c)) c (cal_lastBucket c) (cal_bucketTop c)
       cal_removeMin None;
     case r of
       CalFound i t nxt \<Rightarrow>
         Some (nxt, c\<lparr>cal_lastBucket := i, cal_lastPrio := ev_ts nxt, cal_bucketTop := t,
           cal_buckets := (cal_buckets c)
             [unat i := cal_Pop (cal_reverse c) (cal_buckets c ! unat i)]\<rparr>)
     | CalMin mn None \<Rightarrow> None
     | CalMin mn (Some j) \<Rightarrow>
         (let nxt = cal_NextEvent (cal_reverse c) (cal_buckets c ! unat j) in
          Some (nxt, c\<lparr>cal_lastPrio := ev_ts mn,
            cal_lastBucket := cal_Hash (cal_nBuckets c) (cal_width c) (ev_ts mn),
            cal_bucketTop := (ev_ts mn div cal_width c + 1) * cal_width c,
            cal_buckets := (cal_buckets c)
              [unat j := cal_Pop (cal_reverse c) (cal_buckets c ! unat j)]\<rparr>))
   }"

section \<open>Resizing\<close>

fun cal_gather :: "nat \<Rightarrow> calendar \<Rightarrow> (event list \<times> calendar) option" where
  "cal_gather 0 c = Some ([], c)"
| "cal_gather (Suc n) c = do {
     (ev, c1) \<leftarrow> cal_DoRemoveNext c;
     (evs, c2) \<leftarrow> cal_gather n c1;
     Some (ev # evs, c2)
   }"

fun cal_separation :: "(u64 \<Rightarrow> bool) \<Rightarrow> event list \<Rightarrow> u64" where
  "cal_separation keep (cur # nxt # rest) =
     (let diff = ev_ts nxt - ev_ts cur in
      (if keep diff then diff else 0) + cal_separation keep (nxt # rest))"
| "cal_separation keep _ = 0"

definition cal_nSamples :: "u32 \<Rightarrow> u32" where
  "cal_nSamples qSize =
     (let n = (if qSize \<le> 5 then qSize else 5 + qSize div 10) in if n > 25 then 25 else n)"

definition cal_CalculateNewWidth :: "calendar \<Rightarrow> (u64 \<times> calendar) option" where
  "cal_CalculateNewWidth c =
     (if cal_qSize c < 2 then Some (1, c)
      else do {
        let nSamples = cal_nSamples (cal_qSize c);
        (samples, c1) \<leftarrow> cal_gather (unat nSamples) c;
        let c2 = fold cal_DoInsert samples c1;
        let c3 = c2\<lparr>cal_lastBucket := cal_lastBucket c, cal_bucketTop := cal_bucketTop c,
                    cal_lastPrio := cal_lastPrio c\<rparr>;
        let totalSeparation = cal_separation (\<lambda>_. True) samples;
        let twiceAvg = totalSeparation div ucast (nSamples - 1) * 2;
        let kept = cal_separation (\<lambda>diff. diff \<le> twiceAvg) samples * 3;
        Some (max kept 1, c3)
      })"

definition cal_DoResize :: "u32 \<Rightarrow> u64 \<Rightarrow> calendar \<Rightarrow> calendar" where
  "cal_DoResize newSize newWidth c =
     fold cal_DoInsert (concat (cal_buckets c)) (cal_Init newSize newWidth (cal_lastPrio c) c)"

definition cal_Resize :: "u32 \<Rightarrow> calendar \<Rightarrow> calendar option" where
  "cal_Resize newSize c = do {
     (newWidth, c') \<leftarrow> cal_CalculateNewWidth c;
     Some (cal_DoResize newSize newWidth c')
   }"

definition cal_ResizeUp :: "calendar \<Rightarrow> calendar option" where
  "cal_ResizeUp c =
     (if cal_qSize c > cal_nBuckets c * 2 \<and> cal_nBuckets c < 32768
      then cal_Resize (cal_nBuckets c * 2) c else Some c)"

definition cal_ResizeDown :: "calendar \<Rightarrow> calendar option" where
  "cal_ResizeDown c =
     (if cal_qSize c < cal_nBuckets c div 2 then cal_Resize (cal_nBuckets c div 2) c else Some c)"

section \<open>Operations of the interface\<close>

definition cal_Insert :: "event \<Rightarrow> calendar \<Rightarrow> calendar option" where
  "cal_Insert ev c = (let c1 = cal_DoInsert ev c in cal_ResizeUp (c1\<lparr>cal_qSize := cal_qSize c1 + 1\<rparr>))"

definition cal_RemoveNext :: "calendar \<Rightarrow> (event \<times> calendar) option" where
  "cal_RemoveNext c = do {
     ns_assert (\<not> cal_IsEmpty c);
     (ev, c1) \<leftarrow> cal_DoRemoveNext c;
     c2 \<leftarrow> cal_ResizeDown (c1\<lparr>cal_qSize := cal_qSize c1 - 1\<rparr>);
     Some (ev, c2)
   }"

fun cal_erase :: "event \<Rightarrow> event list \<Rightarrow> event list option" where
  "cal_erase ev [] = None"
| "cal_erase ev (i # rest) =
     (if ev_uid i = ev_uid ev
      then do { ns_assert (ev_impl ev = ev_impl i); Some rest }
      else do { rest' \<leftarrow> cal_erase ev rest; Some (i # rest') })"

definition cal_Remove :: "event \<Rightarrow> calendar \<Rightarrow> calendar option" where
  "cal_Remove ev c = do {
     ns_assert (\<not> cal_IsEmpty c);
     let bucket = unat (cal_Hash (cal_nBuckets c) (cal_width c) (ev_ts ev));
     b \<leftarrow> cal_erase ev (cal_buckets c ! bucket);
     cal_ResizeDown (c\<lparr>cal_buckets := (cal_buckets c)[bucket := b], cal_qSize := cal_qSize c - 1\<rparr>)
   }"

definition cal_ops :: "calendar scheduler_ops" where
  "cal_ops = \<lparr>op_Insert = cal_Insert, op_IsEmpty = cal_IsEmpty, op_PeekNext = cal_PeekNext,
     op_RemoveNext = cal_RemoveNext, op_Remove = cal_Remove\<rparr>"

end
