(* ===== verification/Calendar_Laws.thy ===== *)
theory Calendar_Laws
  imports Calendar_Scheduler
begin

text \<open>
  The calendar queue meets the contract of a scheduler.  The heart is the search: the
  first event found below a day boundary, or else the least head of all buckets, is the
  earliest pending event, although the boundary is a 64-bit word that may wrap around.
\<close>

section \<open>Invariant\<close>

definition cal_events :: "calendar \<Rightarrow> event multiset" where
  "cal_events c = mset (concat (cal_buckets c))"

abbreviation cal_n :: "calendar \<Rightarrow> nat" where "cal_n c \<equiv> unat (cal_nBuckets c)"

abbreviation cal_w :: "calendar \<Rightarrow> nat" where "cal_w c \<equiv> unat (cal_width c)"

definition cal_day :: "calendar \<Rightarrow> u64 \<Rightarrow> nat" where
  "cal_day c ts = unat ts div cal_w c"

definition cal_seq :: "bool \<Rightarrow> event list \<Rightarrow> event list" where
  "cal_seq reverse b = (if reverse then rev b else b)"

text \<open>What holds of the events of bucket \<open>j\<close>.\<close>

definition bucket_ok :: "calendar \<Rightarrow> nat \<Rightarrow> event list \<Rightarrow> bool" where
  "bucket_ok c j b \<longleftrightarrow> sorted_wrt event_less (cal_seq (cal_reverse c) b)
     \<and> (\<forall>e \<in> set b. cal_day c (ev_ts e) mod cal_n c = j \<and> unat (cal_lastPrio c) \<le> unat (ev_ts e)
          \<and> unat (ev_ts e) < ts_limit)"

definition cal_shape :: "calendar \<Rightarrow> bool" where
  "cal_shape c \<longleftrightarrow> length (cal_buckets c) = cal_n c \<and> 1 \<le> cal_n c \<and> cal_n c < 65536 \<and> 1 \<le> cal_w c"

definition cal_place :: "calendar \<Rightarrow> bool" where
  "cal_place c \<longleftrightarrow> unat (cal_lastPrio c) < ts_limit
     \<and> unat (cal_lastBucket c) = cal_day c (cal_lastPrio c) mod cal_n c
     \<and> cal_bucketTop c = of_nat ((cal_day c (cal_lastPrio c) + 1) * cal_w c)"

definition cal_core :: "calendar \<Rightarrow> bool" where
  "cal_core c \<longleftrightarrow> cal_shape c \<and> cal_place c \<and> (\<forall>j < cal_n c. bucket_ok c j (cal_buckets c ! j))
     \<and> uniq_uids (cal_events c)"

definition cal_invar :: "calendar \<Rightarrow> bool" where
  "cal_invar c \<longleftrightarrow> cal_core c \<and> unat (cal_qSize c) = size (cal_events c)
     \<and> size (cal_events c) \<le> max_pending"

section \<open>Buckets\<close>

lemma set_cal_seq [simp]: "set (cal_seq r b) = set b"
  by (simp add: cal_seq_def)

lemma cal_NextEvent_hd: "b \<noteq> [] \<Longrightarrow> cal_NextEvent r b = hd (cal_seq r b)"
  by (simp add: cal_NextEvent_def cal_seq_def hd_rev)

lemma cal_Pop_tl: "cal_seq r (cal_Pop r b) = tl (cal_seq r b)"
  by (simp add: cal_Pop_def cal_seq_def butlast_rev [symmetric]) (metis butlast_rev rev_rev_ident)

lemma mset_cal_Pop: "b \<noteq> [] \<Longrightarrow> mset (cal_Pop r b) = mset b - {#cal_NextEvent r b#}"
proof (cases r)
  case True
  then show "b \<noteq> [] \<Longrightarrow> ?thesis"
    by (cases b rule: rev_cases) (auto simp: cal_Pop_def cal_NextEvent_def)
next
  case False
  then show "b \<noteq> [] \<Longrightarrow> ?thesis"
    by (cases b) (auto simp: cal_Pop_def cal_NextEvent_def)
qed

lemma cal_NextEvent_mem: "b \<noteq> [] \<Longrightarrow> cal_NextEvent r b \<in> set b"
  by (simp add: cal_NextEvent_def)

lemma bucket_head_min:
  assumes "bucket_ok c j b" and "e \<in> set b"
  shows "ev_rank (cal_NextEvent (cal_reverse c) b) \<le> ev_rank e"
proof -
  have ne: "b \<noteq> []" using assms(2) by auto
  then obtain x xs where s: "cal_seq (cal_reverse c) b = x # xs"
    by (metis list.exhaust set_cal_seq set_empty)
  have "sorted_wrt event_less (x # xs)" using assms(1) s by (simp add: bucket_ok_def)
  moreover have "e \<in> set (x # xs)" using assms(2) s by (metis set_cal_seq)
  ultimately show ?thesis
    using cal_NextEvent_hd [OF ne, of "cal_reverse c"] s by (auto simp: event_less_rank less_imp_le)
qed

lemma mset_cal_insert_bucket [simp]: "mset (cal_insert_bucket r ev b) = add_mset ev (mset b)"
  by (induction b) auto

lemma set_cal_insert_bucket [simp]: "set (cal_insert_bucket r ev b) = insert ev (set b)"
  by (metis mset_cal_insert_bucket set_mset_add_mset_insert set_mset_mset)

lemma sorted_cal_seq:
  "sorted_wrt event_less (cal_seq r b) \<longleftrightarrow>
    sorted_wrt (\<lambda>x y. cal_Order r (ev_key x) (ev_key y)) b"
proof -
  have "event_less = (\<lambda>x y. ev_rank x < ev_rank y)"
    by (intro ext) (rule event_less_rank)
  then show ?thesis
    by (simp add: cal_seq_def cal_Order_def sorted_wrt_rev key_greater_rank key_less_rank
        event_less_rank)
qed

lemma sorted_cal_insert_bucket:
  assumes "sorted_wrt event_less (cal_seq r b)" and "fresh_uid ev (mset b)"
  shows "sorted_wrt event_less (cal_seq r (cal_insert_bucket r ev b))"
  using assms unfolding sorted_cal_seq
proof (induction b)
  case (Cons x xs)
  have ne: "ev_rank ev \<noteq> ev_rank x" using Cons.prems(2) by (auto simp: rank_eq_iff)
  show ?case
  proof (cases "cal_Order r (ev_key ev) (ev_key x)")
    case True
    then show ?thesis using Cons.prems
      by (auto simp: cal_Order_def key_less_rank key_greater_rank split: if_splits dest: less_trans)
  next
    case False
    then have "cal_Order r (ev_key x) (ev_key ev)"
      using ne by (auto simp: cal_Order_def key_less_rank key_greater_rank)
    then show ?thesis using Cons False by auto
  qed
qed simp

lemma bucket_ok_insert:
  assumes "bucket_ok c j b" and "fresh_uid ev (mset b)" and "cal_day c (ev_ts ev) mod cal_n c = j"
    and "unat (cal_lastPrio c) \<le> unat (ev_ts ev)" and "unat (ev_ts ev) < ts_limit"
  shows "bucket_ok c j (cal_insert_bucket (cal_reverse c) ev b)"
  using assms by (auto simp: bucket_ok_def sorted_cal_insert_bucket)

lemma sorted_sub:
  assumes "sorted_wrt P (cal_seq r b)" shows "sorted_wrt P (cal_seq r (cal_Pop r b))"
  using assms unfolding cal_Pop_tl by (cases "cal_seq r b") auto

lemma unat_cal_Hash:
  assumes "0 < unat n"
  shows "unat (cal_Hash n w ts) = (unat ts div unat w) mod unat n"
proof -
  have "unat (ts div w mod ucast n :: u64) = (unat ts div unat w) mod unat n"
  proof -
    have "unat n < 2 ^ 64" using unat_u32_bound [of n] by simp
    then have "unat (ucast n :: u64) = unat n" by (simp add: unsigned_ucast_eq take_bit_nat_eq_self)
    then show ?thesis by (simp add: unat_mod_distrib unat_div_distrib)
  qed
  moreover have "(unat ts div unat w) mod unat n < 2 ^ 32"
    using assms mod_less_divisor [OF assms, of "unat ts div unat w"] unat_u32_bound [of n] by simp
  ultimately show ?thesis
    by (simp add: cal_Hash_def unsigned_ucast_eq take_bit_nat_eq_self_iff)
qed

lemma cal_Hash_day:
  "cal_shape c \<Longrightarrow> unat (cal_Hash (cal_nBuckets c) (cal_width c) ts) = cal_day c ts mod cal_n c"
  by (simp add: unat_cal_Hash cal_shape_def cal_day_def)

lemma cal_top_nat:
  "(ts div cal_width c + 1) * cal_width c = of_nat ((cal_day c ts + 1) * cal_w c)"
  by (simp add: cal_day_def word_arith_nat_div distrib_right)

lemma in_cal_events: "e \<in># cal_events c \<longleftrightarrow> (\<exists>j < length (cal_buckets c). e \<in> set (cal_buckets c ! j))"
  by (simp add: cal_events_def in_concat_nth del: set_mset_mset)

section \<open>The search\<close>

text \<open>
  The day boundary does not wrap as long as an event on or after the day in question is
  pending: time stamps stay below \<open>2 ^ 63\<close>.
\<close>

lemma day_no_wrap:
  assumes w: "1 \<le> cal_w c" and d: "m \<le> cal_day c ts" and ts: "unat ts < ts_limit"
  shows "(m + 1) * cal_w c < 2 ^ 64"
proof (cases "cal_w c \<le> 2 ^ 63")
  case True
  have "m * cal_w c \<le> cal_day c ts * cal_w c" using d by (rule mult_le_mono1)
  also have "\<dots> \<le> unat ts" by (simp add: cal_day_def)
  finally show ?thesis using True ts by (simp add: ts_limit_def)
next
  case False
  then have "cal_day c ts = 0" using ts by (simp add: cal_day_def ts_limit_def)
  then show ?thesis using d unat_u64_bound [of "cal_width c"] by simp
qed

lemma day_less_iff: "1 \<le> cal_w c \<Longrightarrow> cal_day c ts < m \<longleftrightarrow> unat ts < m * cal_w c"
  by (simp add: cal_day_def div_less_iff_less_mult)

lemma day_mono: "unat ts \<le> unat ts' \<Longrightarrow> cal_day c ts \<le> cal_day c ts'"
  by (simp add: cal_day_def div_le_mono)

text \<open>The events seen in the first \<open>k\<close> buckets from the starting one.\<close>

definition cal_seen :: "calendar \<Rightarrow> nat \<Rightarrow> event \<Rightarrow> bool" where
  "cal_seen c k e \<longleftrightarrow> (\<exists>k' < k. cal_day c (ev_ts e) mod cal_n c
     = (cal_day c (cal_lastPrio c) + k') mod cal_n c)"

text \<open>Where the search stands: the days before are over, the least seen event is known.\<close>

definition scan_at :: "calendar \<Rightarrow> nat \<Rightarrow> event \<Rightarrow> u32 option \<Rightarrow> bool" where
  "scan_at c k mn mb \<longleftrightarrow>
     (\<forall>e \<in># cal_events c. cal_day c (cal_lastPrio c) + k \<le> cal_day c (ev_ts e)
        \<and> (cal_seen c k e \<longrightarrow> ev_rank mn \<le> ev_rank e))
     \<and> (case mb of
          None \<Rightarrow> \<forall>e \<in># cal_events c. \<not> cal_seen c k e \<and> ev_rank e < ev_rank mn
        | Some j \<Rightarrow> unat j < cal_n c \<and> cal_buckets c ! unat j \<noteq> []
            \<and> mn = cal_NextEvent (cal_reverse c) (cal_buckets c ! unat j))"

definition scan_post :: "calendar \<Rightarrow> cal_search \<Rightarrow> bool" where
  "scan_post c r = (case r of
     CalFound i t ev \<Rightarrow> unat i < cal_n c \<and> cal_buckets c ! unat i \<noteq> []
       \<and> ev = cal_NextEvent (cal_reverse c) (cal_buckets c ! unat i) \<and> is_next ev (cal_events c)
       \<and> unat i = cal_day c (ev_ts ev) mod cal_n c
       \<and> t = of_nat ((cal_day c (ev_ts ev) + 1) * cal_w c)
   | CalMin ev (Some j) \<Rightarrow> unat j < cal_n c \<and> cal_buckets c ! unat j \<noteq> []
       \<and> ev = cal_NextEvent (cal_reverse c) (cal_buckets c ! unat j) \<and> is_next ev (cal_events c)
   | CalMin ev None \<Rightarrow> False)"

lemma scan_post_FoundD:
  assumes "scan_post c (CalFound i t ev)"
  shows "unat i < cal_n c" and "cal_buckets c ! unat i \<noteq> []"
    and "ev = cal_NextEvent (cal_reverse c) (cal_buckets c ! unat i)" and "is_next ev (cal_events c)"
    and "unat i = cal_day c (ev_ts ev) mod cal_n c"
    and "t = of_nat ((cal_day c (ev_ts ev) + 1) * cal_w c)"
  using assms unfolding scan_post_def cal_search.case by blast+

lemma scan_post_MinE:
  assumes "scan_post c (CalMin ev mb)"
  obtains j where "mb = Some j" "unat j < cal_n c" "cal_buckets c ! unat j \<noteq> []"
    "ev = cal_NextEvent (cal_reverse c) (cal_buckets c ! unat j)" "is_next ev (cal_events c)"
  using assms by (cases mb) (auto simp: scan_post_def)

lemma core_bucket:
  assumes "cal_core c" and "j < cal_n c"
  shows "bucket_ok c j (cal_buckets c ! j)"
    and "e \<in> set (cal_buckets c ! j) \<longleftrightarrow> e \<in># cal_events c \<and> cal_day c (ev_ts e) mod cal_n c = j"
proof -
  show ok: "bucket_ok c j (cal_buckets c ! j)" using assms by (simp add: cal_core_def)
  have len: "length (cal_buckets c) = cal_n c" using assms(1) by (simp add: cal_core_def cal_shape_def)
  have "cal_day c (ev_ts e) mod cal_n c = i" if "i < cal_n c" "e \<in> set (cal_buckets c ! i)" for i
    using assms(1) that by (simp add: cal_core_def bucket_ok_def)
  then show "e \<in> set (cal_buckets c ! j) \<longleftrightarrow> e \<in># cal_events c \<and> cal_day c (ev_ts e) mod cal_n c = j"
    using assms(2) len by (auto simp: in_cal_events)
qed

lemma core_event:
  assumes "cal_core c" and "e \<in># cal_events c"
  shows "unat (cal_lastPrio c) \<le> unat (ev_ts e)" and "unat (ev_ts e) < ts_limit"
proof -
  obtain j where "j < cal_n c" "e \<in> set (cal_buckets c ! j)"
    using assms by (auto simp: in_cal_events cal_core_def cal_shape_def)
  then show "unat (cal_lastPrio c) \<le> unat (ev_ts e)" and "unat (ev_ts e) < ts_limit"
    using core_bucket(1) [OF assms(1)] by (auto simp: bucket_ok_def)
qed

lemma cal_seen_Suc:
  "cal_seen c (Suc k) e \<longleftrightarrow> cal_seen c k e
     \<or> cal_day c (ev_ts e) mod cal_n c = (cal_day c (cal_lastPrio c) + k) mod cal_n c"
  by (auto simp: cal_seen_def less_Suc_eq)

lemma cal_seen_all:
  assumes "cal_core c"
  shows "cal_seen c (cal_n c) e"
proof -
  have "0 < cal_n c" using assms by (auto simp: cal_core_def cal_shape_def)
  then have "cal_day c (ev_ts e) mod cal_n c < cal_n c" by simp
  from residue_shift [OF this, of "cal_day c (cal_lastPrio c)"] show ?thesis
    by (auto simp: cal_seen_def eq_commute)
qed

lemma scan_found:
  assumes core: "cal_core c" and at: "scan_at c k mn mb" and i: "unat i = (cal_day c (cal_lastPrio c) + k) mod cal_n c"
    and b: "cal_buckets c ! unat i \<noteq> []" and ev: "ev = cal_NextEvent (cal_reverse c) (cal_buckets c ! unat i)"
    and t: "t = of_nat ((cal_day c (cal_lastPrio c) + k + 1) * cal_w c)"
  shows "ev_ts ev < t \<longleftrightarrow> cal_day c (ev_ts ev) = cal_day c (cal_lastPrio c) + k"
    and "ev_ts ev < t \<Longrightarrow> scan_post c (CalFound i t ev)"
proof -
  let ?d = "cal_day c (cal_lastPrio c) + k"
  have sh: "1 \<le> cal_n c" "1 \<le> cal_w c" using core by (auto simp: cal_core_def cal_shape_def)
  then have il: "unat i < cal_n c" using i by simp
  have mem: "ev \<in># cal_events c"
    using core_bucket(2) [OF core il] cal_NextEvent_mem [OF b] ev by blast
  have d: "?d \<le> cal_day c (ev_ts ev)" using at mem by (simp add: scan_at_def)
  have "(?d + 1) * cal_w c < 2 ^ 64"
    using day_no_wrap [OF sh(2) d core_event(2) [OF core mem]] .
  then have "unat t = (?d + 1) * cal_w c" unfolding t unat_of_nat by (intro mod_less) simp
  then have lt: "ev_ts ev < t \<longleftrightarrow> cal_day c (ev_ts ev) < ?d + 1"
    using day_less_iff [OF sh(2)] by (simp add: word_less_nat_alt)
  show iff: "ev_ts ev < t \<longleftrightarrow> cal_day c (ev_ts ev) = ?d" using lt d by linarith
  assume found: "ev_ts ev < t"
  have "ev_rank ev \<le> ev_rank e" if e: "e \<in># cal_events c" for e
  proof (cases "cal_day c (ev_ts e) = ?d")
    case True
    then have "e \<in> set (cal_buckets c ! unat i)" using core_bucket(2) [OF core il] e i by simp
    then show ?thesis using bucket_head_min [OF core_bucket(1) [OF core il]] ev by simp
  next
    case False
    then have "cal_day c (ev_ts ev) < cal_day c (ev_ts e)"
      using iff found at e by (force simp: scan_at_def)
    then have "unat (ev_ts ev) < unat (ev_ts e)" using day_mono by (metis not_less)
    then show ?thesis using ts_less_rank by (simp add: less_imp_le)
  qed
  then have "is_next ev (cal_events c)" using mem by (simp add: is_next_rank)
  then show "scan_post c (CalFound i t ev)" using iff found b ev i t il by (simp add: scan_post_def)
qed

lemma scan_next:
  assumes core: "cal_core c" and at: "scan_at c k mn mb" and i: "unat i = (cal_day c (cal_lastPrio c) + k) mod cal_n c"
    and better: "better \<longleftrightarrow> cal_buckets c ! unat i \<noteq> [] \<and> key_less (ev_key ev) (ev_key mn)"
    and ev: "ev = cal_NextEvent (cal_reverse c) (cal_buckets c ! unat i)"
    and past: "cal_buckets c ! unat i \<noteq> [] \<Longrightarrow> cal_day c (ev_ts ev) \<noteq> cal_day c (cal_lastPrio c) + k"
  shows "scan_at c (Suc k) (if better then ev else mn) (if better then Some i else mb)"
proof -
  let ?d = "cal_day c (cal_lastPrio c) + k" and ?b = "cal_buckets c ! unat i"
  have "1 \<le> cal_n c" using core by (auto simp: cal_core_def cal_shape_def)
  then have il: "unat i < cal_n c" using i by simp
  note bkt = core_bucket [OF core il]
  have head: "ev_rank ev \<le> ev_rank e" if "e \<in> set ?b" for e
    using bucket_head_min [OF bkt(1) that] ev by simp
  have day: "?d + 1 \<le> cal_day c (ev_ts e)" if e: "e \<in># cal_events c" for e
  proof (cases "e \<in> set ?b")
    case True
    then have ne: "?b \<noteq> []" by auto
    then have "ev \<in># cal_events c" using cal_NextEvent_mem [OF ne] ev bkt(2) by blast
    then have "?d + 1 \<le> cal_day c (ev_ts ev)" using at past [OF ne] by (force simp: scan_at_def)
    also have "\<dots> \<le> cal_day c (ev_ts e)" using head [OF True] rank_le_ts day_mono by blast
    finally show ?thesis .
  next
    case False
    then have "cal_day c (ev_ts e) \<noteq> ?d" using bkt(2) [of e] e i by metis
    then show ?thesis using at e by (force simp: scan_at_def)
  qed
  have seen: "cal_seen c (Suc k) e \<longleftrightarrow> cal_seen c k e \<or> e \<in> set ?b" if "e \<in># cal_events c" for e
    using bkt(2) [of e] that i unfolding cal_seen_Suc by simp
  show ?thesis
  proof (cases better)
    case True
    then have "ev_rank ev \<le> ev_rank mn" using better by (simp add: key_less_rank less_imp_le)
    then show ?thesis
      using True better at day head il ev by (auto simp: scan_at_def seen)
  next
    case False
    then have le: "ev_rank mn \<le> ev_rank e" if "e \<in> set ?b" for e
      using that better head [OF that] by (auto simp: key_less_rank)
    have empty: "?b = []" if "mb = None"
    proof (rule ccontr)
      assume ne: "?b \<noteq> []"
      then have "ev \<in> set ?b" using cal_NextEvent_mem ev by simp
      moreover from this have "ev \<in># cal_events c" using bkt(2) by blast
      ultimately show False using le at that by (force simp: scan_at_def)
    qed
    then show ?thesis
      using False at day le by (cases mb) (auto simp: scan_at_def seen)
  qed
qed

text \<open>The whole search: \<open>cal_nBuckets\<close> units of fuel are enough.\<close>

lemma scan_ok:
  assumes core: "cal_core c" and "scan_at c k mn mb" and "k < cal_n c"
    and "unat i = (cal_day c (cal_lastPrio c) + k) mod cal_n c"
    and "t = of_nat ((cal_day c (cal_lastPrio c) + k + 1) * cal_w c)" and ne: "cal_events c \<noteq> {#}"
  shows "\<exists>r. cal_scan (cal_n c - k) c i t mn mb = Some r \<and> scan_post c r"
  using assms(2-5)
proof (induction "cal_n c - k" arbitrary: k i t mn mb)
  case (Suc f)
  let ?L = "cal_day c (cal_lastPrio c)" and ?b = "cal_buckets c ! unat i"
  define ev where "ev = cal_NextEvent (cal_reverse c) ?b"
  define better where "better \<longleftrightarrow> ?b \<noteq> [] \<and> key_less (ev_key ev) (ev_key mn)"
  define i' where "i' = (i + 1) mod cal_nBuckets c"
  have fuel: "cal_n c - k = Suc f" "f = cal_n c - Suc k" using Suc.hyps(2) by simp_all
  show ?case
  proof (cases "?b \<noteq> [] \<and> ev_ts ev < t")
    case True
    have "scan_post c (CalFound i t ev)"
      by (rule scan_found(2) [OF core Suc.prems(1,3) _ ev_def Suc.prems(4)]) (use True in simp_all)
    then show ?thesis using True by (auto simp: fuel ev_def Let_def)
  next
    case False
    have past: "cal_day c (ev_ts ev) \<noteq> ?L + k" if "?b \<noteq> []"
      using scan_found(1) [OF core Suc.prems(1,3) that ev_def Suc.prems(4)] False that by simp
    have at: "scan_at c (Suc k) (if better then ev else mn) (if better then Some i else mb)"
      by (rule scan_next [OF core Suc.prems(1,3) better_def ev_def past])
    have n: "unat i < cal_n c" "cal_n c < 65536" "unat (cal_lastBucket c) = ?L mod cal_n c"
      using Suc.prems(2,3) core by (auto simp: cal_core_def cal_shape_def cal_place_def)
    have "unat (i + 1) = unat i + 1" using n by (intro unat_Suc_no_wrap) simp
    then have i': "unat i' = (?L + Suc k) mod cal_n c"
      unfolding i'_def unat_mod_distrib using Suc.prems(3) by (simp add: mod_Suc_eq)
    have step: "cal_scan (Suc f) c i t mn mb =
      (if i' \<noteq> cal_lastBucket c
       then cal_scan f c i' (t + cal_width c) (if better then ev else mn) (if better then Some i else mb)
       else Some (CalMin (if better then ev else mn) (if better then Some i else mb)))"
      using False by (auto simp: Let_def ev_def better_def i'_def)
    have eq: "i' = cal_lastBucket c \<longleftrightarrow> Suc k = cal_n c"
    proof -
      have "(?L + Suc k) mod cal_n c = ?L mod cal_n c \<longleftrightarrow> cal_n c dvd Suc k"
        by (metis add_diff_cancel_left' le_add1 mod_eq_dvd_iff_nat)
      moreover have "cal_n c dvd Suc k \<longleftrightarrow> Suc k = cal_n c"
        using Suc.prems(2) by (auto dest: dvd_imp_le)
      ultimately show ?thesis using i' n(3) by (simp add: word_unat_eq_iff)
    qed
    show ?thesis
    proof (cases "Suc k = cal_n c")
      case True
      let ?mn = "if better then ev else mn" and ?mb = "if better then Some i else mb"
      have "ev_rank ?mn \<le> ev_rank e" if "e \<in># cal_events c" for e
        using at that cal_seen_all [OF core, of e] True by (simp add: scan_at_def)
      moreover obtain j where j: "?mb = Some j" "unat j < cal_n c" "cal_buckets c ! unat j \<noteq> []"
        "?mn = cal_NextEvent (cal_reverse c) (cal_buckets c ! unat j)"
        using at ne cal_seen_all [OF core] True
        by (auto simp: scan_at_def split: option.splits dest: multiset_nonemptyE)
      moreover have "?mn \<in># cal_events c"
        using j cal_NextEvent_mem [OF j(3)] core_bucket(2) [OF core j(2)] by metis
      ultimately have "scan_post c (CalMin ?mn ?mb)" by (simp add: scan_post_def is_next_rank)
      then show ?thesis unfolding fuel(1) step using eq True by auto
    next
      case nx: False
      have "t + cal_width c = of_nat ((?L + Suc k + 1) * cal_w c)"
        unfolding Suc.prems(4) by (simp add: algebra_simps)
      then show ?thesis
        unfolding fuel(1) step using Suc.hyps(1) [OF fuel(2) at _ i'] eq nx Suc.prems(2) fuel(2)
        by auto
    qed
  qed
qed simp

section \<open>Operations\<close>

text \<open>Replacing the bucket of one day.\<close>

lemma core_update:
  assumes core: "cal_core c" and j: "j < cal_n c"
    and b: "bucket_ok c j b" and u: "uniq_uids (cal_events (c\<lparr>cal_buckets := (cal_buckets c)[j := b]\<rparr>))"
  shows "cal_core (c\<lparr>cal_buckets := (cal_buckets c)[j := b]\<rparr>)"
proof -
  have "bucket_ok c i ((cal_buckets c)[j := b] ! i)" if "i < cal_n c" for i
    using core b j that by (cases "i = j") (auto simp: cal_core_def cal_shape_def)
  then show ?thesis
    using core u by (simp add: cal_core_def cal_shape_def cal_place_def cal_day_def bucket_ok_def)
qed

lemma cal_events_update:
  assumes "j < length (cal_buckets c)"
  shows "cal_events (c\<lparr>cal_buckets := (cal_buckets c)[j := b]\<rparr>) + mset (cal_buckets c ! j)
     = cal_events c + mset b"
  using mset_concat_update [OF assms] by (simp add: cal_events_def)

lemma cal_core_qSize [simp]: "cal_core (c\<lparr>cal_qSize := n\<rparr>) = cal_core c"
  by (simp add: cal_core_def cal_shape_def cal_place_def cal_day_def bucket_ok_def cal_events_def)

lemma cal_events_qSize [simp]: "cal_events (c\<lparr>cal_qSize := n\<rparr>) = cal_events c"
  by (simp add: cal_events_def)

definition same_calendar :: "calendar \<Rightarrow> calendar \<Rightarrow> bool" where
  "same_calendar c c' \<longleftrightarrow> cal_nBuckets c' = cal_nBuckets c \<and> cal_width c' = cal_width c
     \<and> cal_qSize c' = cal_qSize c \<and> cal_reverse c' = cal_reverse c"

lemma same_calendar_refl [simp]: "same_calendar c c"
  by (simp add: same_calendar_def)

lemma same_calendar_trans: "same_calendar a b \<Longrightarrow> same_calendar b c \<Longrightarrow> same_calendar a c"
  by (simp add: same_calendar_def)

lemma DoInsert_core:
  assumes core: "cal_core c" and fresh: "fresh_uid ev (cal_events c)"
    and ts: "unat (cal_lastPrio c) \<le> unat (ev_ts ev)" "unat (ev_ts ev) < ts_limit"
  shows "cal_core (cal_DoInsert ev c)" and "cal_events (cal_DoInsert ev c) = add_mset ev (cal_events c)"
    and "same_calendar c (cal_DoInsert ev c)"
    and "cal_lastPrio (cal_DoInsert ev c) = cal_lastPrio c"
proof -
  have sh: "cal_shape c" using core by (simp add: cal_core_def)
  define j where "j = unat (cal_Hash (cal_nBuckets c) (cal_width c) (ev_ts ev))"
  have j: "j = cal_day c (ev_ts ev) mod cal_n c" "j < cal_n c" "j < length (cal_buckets c)"
    using cal_Hash_day [OF sh] sh by (auto simp: j_def cal_shape_def)
  define b where "b = cal_insert_bucket (cal_reverse c) ev (cal_buckets c ! j)"
  have def: "cal_DoInsert ev c = c\<lparr>cal_buckets := (cal_buckets c)[j := b]\<rparr>"
    by (simp add: cal_DoInsert_def j_def b_def Let_def)
  have "add_mset ev (cal_events c) + mset (cal_buckets c ! j)
      = cal_events (cal_DoInsert ev c) + mset (cal_buckets c ! j)"
    using cal_events_update [OF j(3), of b] by (simp add: def b_def)
  then show ev: "cal_events (cal_DoInsert ev c) = add_mset ev (cal_events c)" by simp
  have "fresh_uid ev (mset (cal_buckets c ! j))"
    using fresh core_bucket(2) [OF core j(2)] by (auto simp: fresh_uid_def)
  then have "bucket_ok c j b"
    unfolding b_def using core_bucket(1) [OF core j(2)] ts j(1) by (intro bucket_ok_insert) simp_all
  then show "cal_core (cal_DoInsert ev c)"
    unfolding def using core fresh ev
    by (intro core_update [OF core j(2)]) (simp_all add: def cal_core_def)
  show "same_calendar c (cal_DoInsert ev c)" "cal_lastPrio (cal_DoInsert ev c) = cal_lastPrio c"
    by (simp_all add: def same_calendar_def)
qed

lemma fold_DoInsert_core:
  assumes "cal_core c" and "uniq_uids (mset evs + cal_events c)"
    and "\<And>e. e \<in> set evs \<Longrightarrow> unat (cal_lastPrio c) \<le> unat (ev_ts e) \<and> unat (ev_ts e) < ts_limit"
  shows "cal_core (fold cal_DoInsert evs c) \<and> cal_events (fold cal_DoInsert evs c) = mset evs + cal_events c
     \<and> same_calendar c (fold cal_DoInsert evs c)
     \<and> cal_lastPrio (fold cal_DoInsert evs c) = cal_lastPrio c"
  using assms
proof (induction evs arbitrary: c)
  case (Cons ev evs)
  have fresh: "fresh_uid ev (cal_events c)" using Cons.prems(2) by (auto simp: fresh_uid_def)
  note ins = DoInsert_core [OF Cons.prems(1) fresh]
  have "cal_core (cal_DoInsert ev c)" "cal_events (cal_DoInsert ev c) = add_mset ev (cal_events c)"
    "same_calendar c (cal_DoInsert ev c)" "cal_lastPrio (cal_DoInsert ev c) = cal_lastPrio c"
    using ins Cons.prems(3) by auto
  then show ?case
    using Cons.IH [of "cal_DoInsert ev c"] Cons.prems(2,3) by (auto simp: same_calendar_def)
qed (simp add: same_calendar_def)

lemma scan_start:
  assumes core: "cal_core c" and ne: "cal_events c \<noteq> {#}"
    and mn: "\<And>e. e \<in># cal_events c \<Longrightarrow> ev_rank e < ev_rank mn"
  shows "\<exists>r. cal_scan (cal_n c) c (cal_lastBucket c) (cal_bucketTop c) mn None = Some r \<and> scan_post c r"
proof -
  have "scan_at c 0 mn None"
    using mn core_event(1) [OF core] by (auto simp: scan_at_def cal_seen_def intro: day_mono)
  then show ?thesis
    using scan_ok [OF core, of 0 mn None "cal_lastBucket c" "cal_bucketTop c"] core ne
    by (auto simp: cal_core_def cal_shape_def cal_place_def)
qed

lemma rank_max:
  assumes "key_ts (ev_key mn) = 0xffffffffffffffff" and "unat (ev_ts e) < ts_limit"
  shows "ev_rank e < ev_rank mn"
  using assms by (intro ts_less_rank) (simp add: ts_limit_def)

lemma scan_sentinel:
  assumes core: "cal_core c" and ne: "cal_events c \<noteq> {#}" and mn: "mn \<in> {cal_peekMin, cal_removeMin}"
  shows "\<exists>r. cal_scan (cal_n c) c (cal_lastBucket c) (cal_bucketTop c) mn None = Some r \<and> scan_post c r"
proof (rule scan_start [OF core ne])
  have "key_ts (ev_key mn) = 0xffffffffffffffff"
    using mn by (auto simp: cal_peekMin_def cal_removeMin_def)
  then show "ev_rank e < ev_rank mn" if "e \<in># cal_events c" for e
    using core_event(2) [OF core that] by (rule rank_max)
qed

lemma PeekNext_core:
  assumes core: "cal_core c" and ne: "cal_events c \<noteq> {#}" and q: "cal_qSize c \<noteq> 0"
  shows "\<exists>ev. cal_PeekNext c = Some ev \<and> is_next ev (cal_events c)"
proof -
  obtain r where "cal_scan (cal_n c) c (cal_lastBucket c) (cal_bucketTop c) cal_peekMin None = Some r"
    "scan_post c r"
    using scan_sentinel [OF core ne, of cal_peekMin] by auto
  then show ?thesis using q scan_post_FoundD(4) scan_post_MinE
    by (cases r) (fastforce simp: cal_PeekNext_def cal_IsEmpty_def)+
qed

text \<open>Taking the found event out of its bucket and moving the calendar to its day.\<close>

lemma remove_head_core:
  assumes core: "cal_core c" and j: "j < cal_n c" and b: "cal_buckets c ! j \<noteq> []"
    and ev: "ev = cal_NextEvent (cal_reverse c) (cal_buckets c ! j)" and nx: "is_next ev (cal_events c)"
    and c': "c' = c\<lparr>cal_buckets := (cal_buckets c)[j := cal_Pop (cal_reverse c) (cal_buckets c ! j)],
      cal_lastPrio := ev_ts ev, cal_lastBucket := lb, cal_bucketTop := t\<rparr>"
    and lb: "unat lb = cal_day c (ev_ts ev) mod cal_n c"
    and t: "t = of_nat ((cal_day c (ev_ts ev) + 1) * cal_w c)"
  shows "cal_core c'" and "cal_events c' = cal_events c - {#ev#}"
proof -
  let ?b = "cal_buckets c ! j" and ?r = "cal_reverse c"
  have sh: "cal_shape c" using core by (simp add: cal_core_def)
  have mem: "ev \<in># cal_events c" using nx by (simp add: is_next_def)
  have mb: "mset ?b = add_mset ev (mset (cal_Pop ?r ?b))"
    using mset_cal_Pop [OF b, of ?r] cal_NextEvent_mem [OF b, of ?r] ev by simp
  then have "cal_events c = add_mset ev (cal_events (c\<lparr>cal_buckets := (cal_buckets c)[j := cal_Pop ?r ?b]\<rparr>))"
    using cal_events_update [of j c "cal_Pop ?r ?b"] j sh by (simp add: cal_shape_def)
  then show evs: "cal_events c' = cal_events c - {#ev#}" by (simp add: c' cal_events_def)
  have sub: "set (cal_Pop ?r ?b) \<subseteq> set ?b" using mb by (metis set_mset_mset set_mset_add_mset_insert subset_insertI)
  have ge: "unat (ev_ts ev) \<le> unat (ev_ts e)" if "e \<in># cal_events c" for e
    using is_next_ts [OF nx that] .
  have "bucket_ok c' i (cal_buckets c' ! i)" if i: "i < cal_n c" for i
  proof -
    have ok: "bucket_ok c i (cal_buckets c ! i)" using core_bucket(1) [OF core i] .
    have "set (cal_buckets c' ! i) \<subseteq> set (cal_buckets c ! i)"
      using sub i sh by (cases "i = j") (auto simp: c' cal_shape_def)
    moreover have "sorted_wrt event_less (cal_seq ?r (cal_buckets c' ! i))"
      using ok sorted_sub i sh by (cases "i = j") (auto simp: c' bucket_ok_def cal_shape_def)
    ultimately show ?thesis
      using ok ge core_bucket(2) [OF core i] by (auto simp: c' bucket_ok_def cal_day_def)
  qed
  then show "cal_core c'"
    using core evs lb t core_event(2) [OF core mem]
    by (auto simp: cal_core_def cal_shape_def cal_place_def) (simp_all add: c' cal_day_def)
qed

lemma DoRemoveNext_core:
  assumes core: "cal_core c" and ne: "cal_events c \<noteq> {#}" and q: "cal_qSize c \<noteq> 0"
  shows "\<exists>ev c'. cal_DoRemoveNext c = Some (ev, c') \<and> is_next ev (cal_events c) \<and> cal_core c'
     \<and> cal_events c' = cal_events c - {#ev#} \<and> same_calendar c c' \<and> cal_lastPrio c' = ev_ts ev"
proof -
  have sh: "cal_shape c" using core by (simp add: cal_core_def)
  obtain r where r: "cal_scan (cal_n c) c (cal_lastBucket c) (cal_bucketTop c) cal_removeMin None = Some r"
    and post: "scan_post c r"
    using scan_sentinel [OF core ne, of cal_removeMin] by auto
  show ?thesis
  proof (cases r)
    case (CalFound i t ev)
    define c' where "c' = c\<lparr>cal_buckets := (cal_buckets c)
        [unat i := cal_Pop (cal_reverse c) (cal_buckets c ! unat i)],
      cal_lastPrio := ev_ts ev, cal_lastBucket := i, cal_bucketTop := t\<rparr>"
    have "cal_DoRemoveNext c = Some (ev, c')"
      using r q by (simp add: cal_DoRemoveNext_def cal_IsEmpty_def CalFound c'_def)
    moreover note found = scan_post_FoundD [OF post [unfolded CalFound]]
    have "cal_core c'" "cal_events c' = cal_events c - {#ev#}"
      using remove_head_core [OF core found(1-4) c'_def found(5,6)] .
    moreover have "same_calendar c c'" "cal_lastPrio c' = ev_ts ev"
      by (simp_all add: same_calendar_def c'_def)
    ultimately show ?thesis using found(4) by blast
  next
    case (CalMin ev mb)
    then obtain j where mb: "mb = Some j" "unat j < cal_n c" "cal_buckets c ! unat j \<noteq> []"
      "ev = cal_NextEvent (cal_reverse c) (cal_buckets c ! unat j)" "is_next ev (cal_events c)"
      using post scan_post_MinE by blast
    define c' where "c' = c\<lparr>cal_buckets := (cal_buckets c)
        [unat j := cal_Pop (cal_reverse c) (cal_buckets c ! unat j)],
      cal_lastPrio := ev_ts ev, cal_lastBucket := cal_Hash (cal_nBuckets c) (cal_width c) (ev_ts ev),
      cal_bucketTop := (ev_ts ev div cal_width c + 1) * cal_width c\<rparr>"
    have "cal_DoRemoveNext c = Some (ev, c')"
      using r q mb(4) by (simp add: cal_DoRemoveNext_def cal_IsEmpty_def CalMin mb(1) c'_def Let_def)
    moreover have "cal_core c'" "cal_events c' = cal_events c - {#ev#}"
      using remove_head_core [OF core mb(2-5) c'_def cal_Hash_day [OF sh] cal_top_nat] by auto
    ultimately show ?thesis using mb(5) by (simp add: same_calendar_def c'_def)
  qed
qed

section \<open>Resizing keeps the pending events\<close>

lemma gather_core:
  assumes "cal_core c" and "n \<le> size (cal_events c)" and "cal_qSize c \<noteq> 0"
  shows "\<exists>evs c'. cal_gather n c = Some (evs, c') \<and> cal_core c' \<and> same_calendar c c'
     \<and> mset evs + cal_events c' = cal_events c"
  using assms
proof (induction n arbitrary: c)
  case (Suc n)
  then have "cal_events c \<noteq> {#}" by auto
  then obtain ev c1 where c1: "cal_DoRemoveNext c = Some (ev, c1)" "is_next ev (cal_events c)"
    "cal_core c1" "cal_events c1 = cal_events c - {#ev#}" "same_calendar c c1"
    using DoRemoveNext_core [OF Suc.prems(1) _ Suc.prems(3)] by blast
  then have ev: "cal_events c = add_mset ev (cal_events c1)" by (simp add: is_next_def)
  then obtain evs c2 where "cal_gather n c1 = Some (evs, c2)" "cal_core c2" "same_calendar c1 c2"
    "mset evs + cal_events c2 = cal_events c1"
    using Suc.IH [OF c1(3)] Suc.prems(2,3) c1(5) by (auto simp: same_calendar_def)
  then show ?case using c1(1) ev same_calendar_trans [OF c1(5)] by auto
qed simp

lemma nSamples_le: "unat (cal_nSamples q) \<le> unat q"
proof -
  define n where "n = (if q \<le> 5 then q else 5 + q div 10)"
  have n: "unat n \<le> unat q"
  proof (cases "q \<le> 5")
    case False
    have "unat q div 10 < 2 ^ 31" using unat_u32_bound [of q] by simp
    then have "unat (5 + q div 10) = 5 + unat q div 10"
      by (subst unat_plus_no_wrap) (simp_all add: unat_div_distrib)
    moreover have "6 \<le> unat q" using False by (simp add: word_le_nat_alt)
    ultimately show ?thesis using False by (simp add: n_def)
  qed (simp add: n_def)
  have "unat (if 25 < n then 25 else n) \<le> unat n"
  proof (cases "25 < n")
    case True
    then have "25 < unat n" by (simp add: word_less_nat_alt)
    then show ?thesis using True by simp
  qed simp
  moreover have "cal_nSamples q = (if 25 < n then 25 else n)" by (simp add: cal_nSamples_def n_def Let_def)
  ultimately show ?thesis using n by simp
qed

text \<open>
  Gathering the samples and putting them back leaves the same pending events.  The
  position of the calendar takes no part in insertion, so it may as well be restored
  first.
\<close>

definition cal_restore :: "calendar \<Rightarrow> calendar \<Rightarrow> calendar" where
  "cal_restore c c1 = c1\<lparr>cal_lastBucket := cal_lastBucket c, cal_bucketTop := cal_bucketTop c,
     cal_lastPrio := cal_lastPrio c\<rparr>"

lemma fold_DoInsert_restore:
  "cal_restore c (fold cal_DoInsert evs c1) = fold cal_DoInsert evs (cal_restore c c1)"
proof (induction evs arbitrary: c1)
  case (Cons ev evs)
  have "cal_restore c (cal_DoInsert ev c1) = cal_DoInsert ev (cal_restore c c1)"
    by (simp add: cal_restore_def cal_DoInsert_def Let_def)
  then show ?case by (simp add: Cons)
qed simp

lemma core_restore:
  assumes core: "cal_core c" and core1: "cal_core c1" and same: "same_calendar c c1"
    and ev: "cal_events c1 \<subseteq># cal_events c"
  shows "cal_core (cal_restore c c1)"
proof -
  let ?c = "cal_restore c c1"
  have eqs: "cal_nBuckets ?c = cal_nBuckets c" "cal_width ?c = cal_width c" "cal_reverse ?c = cal_reverse c"
    "cal_lastPrio ?c = cal_lastPrio c" "cal_buckets ?c = cal_buckets c1" "cal_day ?c = cal_day c"
    "cal_day c1 = cal_day c" "cal_nBuckets c1 = cal_nBuckets c" "cal_reverse c1 = cal_reverse c"
    "cal_lastBucket ?c = cal_lastBucket c" "cal_bucketTop ?c = cal_bucketTop c"
    "cal_events ?c = cal_events c1"
    using same by (auto simp: cal_restore_def same_calendar_def cal_day_def cal_events_def fun_eq_iff)
  have "bucket_ok ?c j (cal_buckets ?c ! j)" if j: "j < cal_n c" for j
  proof -
    have j1: "j < cal_n c1" using j eqs by simp
    have "e \<in># cal_events c" if "e \<in> set (cal_buckets c1 ! j)" for e
      using core_bucket(2) [OF core1 j1, of e] that ev by (blast dest: mset_subset_eqD)
    then show ?thesis
      using core_bucket(1) [OF core1 j1] core_event(1) [OF core] unfolding bucket_ok_def eqs by blast
  qed
  moreover have "cal_shape ?c"
    using core1 same by (simp add: cal_core_def cal_shape_def cal_restore_def)
  moreover have "cal_place ?c" using core unfolding cal_core_def cal_place_def eqs by blast
  ultimately show ?thesis using core1 unfolding cal_core_def eqs by blast
qed

lemma CalculateNewWidth_core:
  assumes core: "cal_core c" and q: "unat (cal_qSize c) = size (cal_events c)"
  shows "\<exists>w c'. cal_CalculateNewWidth c = Some (w, c') \<and> 1 \<le> unat w \<and> cal_core c'
     \<and> cal_events c' = cal_events c \<and> same_calendar c c' \<and> cal_lastPrio c' = cal_lastPrio c"
proof (cases "cal_qSize c < 2")
  case True
  then show ?thesis using core by (simp add: cal_CalculateNewWidth_def same_calendar_def)
next
  case False
  let ?n = "unat (cal_nSamples (cal_qSize c))"
  have "cal_qSize c \<noteq> 0" using False by auto
  then obtain evs c1 where g: "cal_gather ?n c = Some (evs, c1)"
    and c1: "cal_core c1" "same_calendar c c1" and m: "mset evs + cal_events c1 = cal_events c"
    using gather_core [OF core, of ?n] nSamples_le [of "cal_qSize c"] q by auto
  let ?c0 = "cal_restore c c1"
  let ?c2 = "fold cal_DoInsert evs ?c0"
  have core0: "cal_core ?c0" using core_restore [OF core c1] m by (metis mset_subset_eq_add_right)
  have e0: "mset evs + cal_events ?c0 = cal_events c" using m by (simp add: cal_restore_def cal_events_def)
  have lp: "cal_lastPrio ?c0 = cal_lastPrio c" by (simp add: cal_restore_def)
  have mem: "e \<in># cal_events c" if "e \<in> set evs" for e
    using that e0 by (metis UnI1 set_mset_mset set_mset_union)
  have "cal_core ?c2 \<and> cal_events ?c2 = mset evs + cal_events ?c0 \<and> same_calendar ?c0 ?c2
      \<and> cal_lastPrio ?c2 = cal_lastPrio ?c0"
    using core0 core e0 core_event [OF core] mem lp
    by (intro fold_DoInsert_core) (auto simp: cal_core_def)
  moreover have "same_calendar c ?c0" using c1(2) by (simp add: same_calendar_def cal_restore_def)
  moreover obtain w where "cal_CalculateNewWidth c = Some (max w 1, ?c2)"
    using False g fold_DoInsert_restore [of c evs c1]
    by (simp add: cal_CalculateNewWidth_def cal_restore_def Let_def)
  moreover have "1 \<le> unat (max w 1)" for w :: u64
  proof -
    have "(1 :: u64) \<le> max w 1" by simp
    then show ?thesis unfolding word_le_nat_alt by simp
  qed
  ultimately show ?thesis using e0 lp by (auto simp: same_calendar_def)
qed

lemma Init_core:
  assumes "1 \<le> unat n" and "unat n < 65536" and "1 \<le> unat w" and "unat p < ts_limit"
  shows "cal_core (cal_Init n w p c)" and "cal_events (cal_Init n w p c) = {#}"
proof -
  let ?c = "cal_Init n w p c"
  show ev: "cal_events ?c = {#}" by (simp add: cal_Init_def cal_events_def concat_replicate_trivial)
  have sh: "cal_shape ?c" using assms by (simp add: cal_Init_def cal_shape_def)
  have "unat (cal_Hash n w p) = cal_day ?c p mod cal_n ?c"
    using cal_Hash_day [OF sh] by (simp add: cal_Init_def)
  moreover have "(p div w + 1) * w = of_nat ((cal_day ?c p + 1) * cal_w ?c)"
    using cal_top_nat [of p ?c] by (simp add: cal_Init_def)
  moreover have "cal_lastPrio ?c = p" "cal_lastBucket ?c = cal_Hash n w p"
    "cal_bucketTop ?c = (p div w + 1) * w" by (simp_all add: cal_Init_def)
  ultimately have "cal_place ?c" using assms(4) unfolding cal_place_def by metis
  moreover have "bucket_ok ?c j (cal_buckets ?c ! j)" if "j < cal_n ?c" for j
    using that by (simp add: bucket_ok_def cal_Init_def cal_seq_def)
  ultimately show "cal_core ?c" using sh ev by (simp add: cal_core_def)
qed

lemma Resize_core:
  assumes core: "cal_core c" and q: "unat (cal_qSize c) = size (cal_events c)"
    and n: "1 \<le> unat n" "unat n < 65536"
  shows "\<exists>c'. cal_Resize n c = Some c' \<and> cal_core c' \<and> cal_events c' = cal_events c
     \<and> cal_qSize c' = cal_qSize c \<and> cal_lastPrio c' = cal_lastPrio c"
proof -
  obtain w c1 where c1: "cal_CalculateNewWidth c = Some (w, c1)" "1 \<le> unat w" "cal_core c1"
    "cal_events c1 = cal_events c" "same_calendar c c1" "cal_lastPrio c1 = cal_lastPrio c"
    using CalculateNewWidth_core [OF core q] by blast
  let ?i = "cal_Init n w (cal_lastPrio c1) c1"
  have lp: "unat (cal_lastPrio c1) < ts_limit" using c1(3) by (simp add: cal_core_def cal_place_def)
  note init = Init_core [OF n c1(2) lp, of c1]
  have evs: "mset (concat (cal_buckets c1)) = cal_events c1" by (simp add: cal_events_def)
  have "cal_core (cal_DoResize n w c1) \<and> cal_events (cal_DoResize n w c1) = mset (concat (cal_buckets c1)) + cal_events ?i
      \<and> same_calendar ?i (cal_DoResize n w c1) \<and> cal_lastPrio (cal_DoResize n w c1) = cal_lastPrio ?i"
    unfolding cal_DoResize_def
  proof (rule fold_DoInsert_core [OF init(1)])
    show "uniq_uids (mset (concat (cal_buckets c1)) + cal_events ?i)"
      using c1(3) init(2) evs by (simp add: cal_core_def)
    fix e
    assume "e \<in> set (concat (cal_buckets c1))"
    then have "e \<in># cal_events c1" unfolding cal_events_def by simp
    then show "unat (cal_lastPrio ?i) \<le> unat (ev_ts e) \<and> unat (ev_ts e) < ts_limit"
      using core_event [OF c1(3)] by (simp add: cal_Init_def)
  qed
  then show ?thesis
    using c1 init(2) evs by (simp add: cal_Resize_def same_calendar_def cal_Init_def)
qed

lemma ResizeUp_core:
  assumes core: "cal_core c" and q: "unat (cal_qSize c) = size (cal_events c)"
  shows "\<exists>c'. cal_ResizeUp c = Some c' \<and> cal_core c' \<and> cal_events c' = cal_events c
     \<and> cal_qSize c' = cal_qSize c \<and> cal_lastPrio c' = cal_lastPrio c"
proof (cases "cal_qSize c > cal_nBuckets c * 2 \<and> cal_nBuckets c < 32768")
  case True
  then have lt: "cal_n c < 32768" by (simp add: word_less_nat_alt)
  have "unat (cal_nBuckets c * 2) = cal_n c * 2" using lt by (simp add: unat_word_ariths)
  moreover have "1 \<le> cal_n c" using core by (simp add: cal_core_def cal_shape_def)
  ultimately show ?thesis
    using Resize_core [OF core q, of "cal_nBuckets c * 2"] True lt by (simp add: cal_ResizeUp_def)
qed (use core in \<open>auto simp: cal_ResizeUp_def\<close>)

lemma ResizeDown_core:
  assumes core: "cal_core c" and q: "unat (cal_qSize c) = size (cal_events c)"
  shows "\<exists>c'. cal_ResizeDown c = Some c' \<and> cal_core c' \<and> cal_events c' = cal_events c
     \<and> cal_qSize c' = cal_qSize c \<and> cal_lastPrio c' = cal_lastPrio c"
proof (cases "cal_qSize c < cal_nBuckets c div 2")
  case True
  have h: "unat (cal_nBuckets c div 2) = cal_n c div 2" by (simp add: unat_div_distrib)
  have "unat (cal_qSize c) < cal_n c div 2" using True h by (simp add: word_less_nat_alt)
  moreover have "cal_n c < 65536" using core by (simp add: cal_core_def cal_shape_def)
  ultimately show ?thesis
    using Resize_core [OF core q, of "cal_nBuckets c div 2"] True h by (simp add: cal_ResizeDown_def)
qed (use core in \<open>auto simp: cal_ResizeDown_def\<close>)

section \<open>The interface\<close>

lemma cal_empty: "cal_invar c \<Longrightarrow> cal_qSize c = 0 \<longleftrightarrow> cal_events c = {#}"
  by (auto simp: cal_invar_def unat_eq_zero)

lemma cal_qSize_inc:
  assumes "unat q = n" and "n < max_pending"
  shows "unat (q + 1 :: u32) = n + 1"
  using assms by (subst unat_Suc_no_wrap) (simp_all add: max_pending_def)

lemma cal_qSize_dec:
  assumes "unat q = Suc n"
  shows "unat (q - 1 :: u32) = n"
  using assms by (subst unat_minus_no_wrap) simp_all

lemma cal_invarI:
  assumes "cal_core c" and "unat (cal_qSize c) = size (cal_events c)" and "size (cal_events c) \<le> max_pending"
  shows "cal_invar c"
  using assms by (simp add: cal_invar_def)

lemma cal_Insert_law:
  assumes inv: "cal_invar c" and ok: "insertable (unat (cal_lastPrio c)) ev (cal_events c)"
  shows "\<exists>c'. cal_Insert ev c = Some c' \<and> cal_invar c' \<and> cal_events c' = add_mset ev (cal_events c)
     \<and> cal_lastPrio c' = cal_lastPrio c"
proof -
  have core: "cal_core c" and q: "unat (cal_qSize c) = size (cal_events c)"
    using inv by (simp_all add: cal_invar_def)
  have lt: "size (cal_events c) < max_pending" and fresh: "fresh_uid ev (cal_events c)"
    and ts: "unat (cal_lastPrio c) \<le> unat (ev_ts ev)" "unat (ev_ts ev) < ts_limit"
    using ok by (simp_all add: insertable_def)
  note ins = DoInsert_core [OF core fresh ts]
  define c1 where "c1 = (cal_DoInsert ev c)\<lparr>cal_qSize := cal_qSize (cal_DoInsert ev c) + 1\<rparr>"
  have c1: "cal_core c1" "cal_events c1 = add_mset ev (cal_events c)" "cal_lastPrio c1 = cal_lastPrio c"
    using ins by (simp_all add: c1_def)
  have q1: "unat (cal_qSize c1) = size (cal_events c1)"
    using ins(3) cal_qSize_inc [OF q lt] by (simp add: c1(2)) (simp add: c1_def same_calendar_def)
  obtain c' where "cal_ResizeUp c1 = Some c'" "cal_core c'" "cal_events c' = cal_events c1"
    "cal_qSize c' = cal_qSize c1" "cal_lastPrio c' = cal_lastPrio c1"
    using ResizeUp_core [OF c1(1) q1] by blast
  then show ?thesis
    using c1 q1 lt by (auto simp: cal_Insert_def Let_def c1_def [symmetric] intro!: cal_invarI)
qed

lemma cal_RemoveNext_law:
  assumes inv: "cal_invar c" and ne: "cal_events c \<noteq> {#}"
  shows "\<exists>ev c'. cal_RemoveNext c = Some (ev, c') \<and> is_next ev (cal_events c) \<and> cal_invar c'
     \<and> cal_events c' = cal_events c - {#ev#} \<and> cal_lastPrio c' = ev_ts ev"
proof -
  have core: "cal_core c" and q: "unat (cal_qSize c) = size (cal_events c)"
    and mx: "size (cal_events c) \<le> max_pending"
    using inv by (simp_all add: cal_invar_def)
  have q0: "cal_qSize c \<noteq> 0" using cal_empty [OF inv] ne by simp
  obtain ev c1 where c1: "cal_DoRemoveNext c = Some (ev, c1)" "is_next ev (cal_events c)"
    "cal_core c1" "cal_events c1 = cal_events c - {#ev#}" "same_calendar c c1" "cal_lastPrio c1 = ev_ts ev"
    using DoRemoveNext_core [OF core ne q0] by blast
  have sz: "size (cal_events c) = Suc (size (cal_events c1))"
    using c1(2,4) by (simp add: is_next_def size_Suc_Diff1)
  define c2 where "c2 = c1\<lparr>cal_qSize := cal_qSize c1 - 1\<rparr>"
  have c2: "cal_core c2" "cal_events c2 = cal_events c1" "cal_lastPrio c2 = ev_ts ev"
    using c1 by (simp_all add: c2_def)
  have q2: "unat (cal_qSize c2) = size (cal_events c2)"
    using cal_qSize_dec [of "cal_qSize c1" "size (cal_events c1)"] c1(5) q sz
    by (simp add: c2(2)) (simp add: c2_def same_calendar_def)
  obtain c' where c': "cal_ResizeDown c2 = Some c'" "cal_core c'" "cal_events c' = cal_events c2"
    "cal_qSize c' = cal_qSize c2" "cal_lastPrio c' = cal_lastPrio c2"
    using ResizeDown_core [OF c2(1) q2] by blast
  then have "cal_invar c'" using q2 mx sz c2(2) by (intro cal_invarI) simp_all
  then show ?thesis
    using c1(1,2,4) c' c2(2,3) q0 by (simp add: cal_RemoveNext_def cal_IsEmpty_def c2_def [symmetric])
qed

lemma cal_erase_spec:
  assumes "uniq_uids (mset b)" and "ev \<in> set b"
  shows "\<exists>b'. cal_erase ev b = Some b' \<and> mset b = add_mset ev (mset b')
     \<and> (\<forall>P. sorted_wrt P b \<longrightarrow> sorted_wrt P b')"
  using assms
proof (induction b)
  case (Cons x xs)
  show ?case
  proof (cases "ev_uid x = ev_uid ev")
    case True
    then have "x = ev"
      using Cons.prems by (metis list.set_intros(1) set_mset_mset uniq_uids_same)
    then show ?thesis by simp
  next
    case False
    then have "ev \<in> set xs" using Cons.prems(2) by auto
    then obtain b' where b': "cal_erase ev xs = Some b'" "mset xs = add_mset ev (mset b')"
      "\<forall>P. sorted_wrt P xs \<longrightarrow> sorted_wrt P b'"
      using Cons.IH Cons.prems(1) by auto
    have "set b' \<subseteq> set xs" using b'(2) by (metis set_mset_add_mset_insert set_mset_mset subset_insertI)
    then show ?thesis using False b' by auto
  qed
qed simp

lemma cal_Remove_law:
  assumes inv: "cal_invar c" and mem: "ev \<in># cal_events c"
  shows "\<exists>c'. cal_Remove ev c = Some c' \<and> cal_invar c' \<and> cal_events c' = cal_events c - {#ev#}
     \<and> cal_lastPrio c' = cal_lastPrio c"
proof -
  have core: "cal_core c" and q: "unat (cal_qSize c) = size (cal_events c)"
    and mx: "size (cal_events c) \<le> max_pending"
    using inv by (simp_all add: cal_invar_def)
  have sh: "cal_shape c" using core by (simp add: cal_core_def)
  define j where "j = unat (cal_Hash (cal_nBuckets c) (cal_width c) (ev_ts ev))"
  have j: "j = cal_day c (ev_ts ev) mod cal_n c" "j < cal_n c" "j < length (cal_buckets c)"
    using cal_Hash_day [OF sh] sh by (auto simp: j_def cal_shape_def)
  have inb: "ev \<in> set (cal_buckets c ! j)" using core_bucket(2) [OF core j(2)] mem j(1) by simp
  have "mset (cal_buckets c ! j) \<subseteq># cal_events c"
    using mset_concat_update [OF j(3), of "[]"] unfolding cal_events_def
    by (metis empty_neutral(2) mset.simps(1) mset_subset_eq_add_right)
  then have "uniq_uids (mset (cal_buckets c ! j))"
    using core uniq_uids_mono by (auto simp: cal_core_def)
  then obtain b where b: "cal_erase ev (cal_buckets c ! j) = Some b"
    "mset (cal_buckets c ! j) = add_mset ev (mset b)"
    "\<forall>P. sorted_wrt P (cal_buckets c ! j) \<longrightarrow> sorted_wrt P b"
    using cal_erase_spec [OF _ inb] by blast
  define c1 where "c1 = c\<lparr>cal_buckets := (cal_buckets c)[j := b]\<rparr>"
  have ev1: "cal_events c = add_mset ev (cal_events c1)"
    using cal_events_update [OF j(3), of b] b(2) by (simp add: c1_def)
  have "bucket_ok c j b"
    using core_bucket(1) [OF core j(2)] b(2,3) unfolding bucket_ok_def sorted_cal_seq
    by (metis insertCI set_mset_add_mset_insert set_mset_mset)
  moreover have "uniq_uids (cal_events c1)" using core ev1 by (simp add: cal_core_def)
  ultimately have core1: "cal_core c1" unfolding c1_def by (intro core_update [OF core j(2)])
  define c2 where "c2 = c1\<lparr>cal_qSize := cal_qSize c - 1\<rparr>"
  have c2: "cal_core c2" "cal_events c2 = cal_events c1" "cal_lastPrio c2 = cal_lastPrio c"
    using core1 by (simp_all add: c2_def c1_def)
  have q2: "unat (cal_qSize c2) = size (cal_events c2)"
    using cal_qSize_dec [of "cal_qSize c" "size (cal_events c1)"] q ev1
    by (simp add: c2(2)) (simp add: c2_def)
  obtain c' where c': "cal_ResizeDown c2 = Some c'" "cal_core c'" "cal_events c' = cal_events c2"
    "cal_qSize c' = cal_qSize c2" "cal_lastPrio c' = cal_lastPrio c2"
    using ResizeDown_core [OF c2(1) q2] by blast
  then have "cal_invar c'" using q2 mx ev1 c2(2) by (intro cal_invarI) simp_all
  moreover have "cal_qSize c \<noteq> 0" using cal_empty [OF inv] mem by auto
  moreover have "c2 = c\<lparr>cal_buckets := (cal_buckets c)[j := b], cal_qSize := cal_qSize c - 1\<rparr>"
    by (simp add: c2_def c1_def)
  ultimately show ?thesis
    using c' c2(2,3) b(1) ev1 by (simp add: cal_Remove_def cal_IsEmpty_def j_def [symmetric] Let_def)
qed

lemma CalendarScheduler_init_invar:
  "cal_invar (CalendarScheduler_init r)" "cal_events (CalendarScheduler_init r) = {#}"
  "cal_lastPrio (CalendarScheduler_init r) = 0"
proof -
  show ev: "cal_events (CalendarScheduler_init r) = {#}"
    unfolding CalendarScheduler_init_def by (rule Init_core) (simp_all add: ts_limit_def)
  have "cal_core (CalendarScheduler_init r)"
    unfolding CalendarScheduler_init_def by (rule Init_core) (simp_all add: ts_limit_def)
  then show "cal_invar (CalendarScheduler_init r)"
    using ev by (simp add: cal_invar_def) (simp add: CalendarScheduler_init_def cal_Init_def)
  show "cal_lastPrio (CalendarScheduler_init r) = 0"
    by (simp add: CalendarScheduler_init_def cal_Init_def)
qed

interpretation cs: removing_scheduler cal_ops cal_invar cal_events "\<lambda>c. unat (cal_lastPrio c)"
proof unfold_locales
  fix c ev
  assume c: "cal_invar c"
  show "op_IsEmpty cal_ops c \<longleftrightarrow> cal_events c = {#}"
    using cal_empty [OF c] by (simp add: cal_ops_def cal_IsEmpty_def)
  show "uniq_uids (cal_events c)" using c by (simp add: cal_invar_def cal_core_def)
  show "\<exists>s'. op_Insert cal_ops ev c = Some s' \<and> cal_invar s' \<and> cal_events s' = add_mset ev (cal_events c)
      \<and> unat (cal_lastPrio s') = unat (cal_lastPrio c)"
    if "insertable (unat (cal_lastPrio c)) ev (cal_events c)"
    using cal_Insert_law [OF c that] by (auto simp: cal_ops_def)
  show "\<exists>s'. op_Remove cal_ops ev c = Some s' \<and> cal_invar s' \<and> cal_events s' = cal_events c - {#ev#}
      \<and> unat (cal_lastPrio s') = unat (cal_lastPrio c)" if "ev \<in># cal_events c"
    using cal_Remove_law [OF c that] by (auto simp: cal_ops_def)
  assume ne: "cal_events c \<noteq> {#}"
  have "cal_qSize c \<noteq> 0" using cal_empty [OF c] ne by simp
  then show "\<exists>ev. op_PeekNext cal_ops c = Some ev \<and> is_next ev (cal_events c)"
    using PeekNext_core [OF _ ne] c by (simp add: cal_ops_def cal_invar_def)
  show "\<exists>ev s'. op_RemoveNext cal_ops c = Some (ev, s') \<and> is_next ev (cal_events c) \<and> cal_invar s'
      \<and> cal_events s' = cal_events c - {#ev#} \<and> unat (cal_lastPrio s') \<le> unat (ev_ts ev)"
    using cal_RemoveNext_law [OF c ne] by (auto simp: cal_ops_def)
qed

end
