(* ===== verification/Simulator.thy ===== *)
theory Simulator
  imports Scheduler
begin

text \<open>
  The event loop: \<^verbatim>\<open>ns3::DefaultSimulatorImpl\<close>
  (src/core/model/default-simulator-impl.cc) with \<^verbatim>\<open>EventId\<close> (event-id.h, .cc)
  and \<^verbatim>\<open>EventImpl\<close> (event-impl.cc).  Every operation takes the scheduler's
  operations as an argument, as the C++ calls them through \<^verbatim>\<open>Ptr<Scheduler>\<close>.

  The code that an event runs is not part of the simulator: it is the parameter
  \<open>notify\<close>, which maps the event, the state of the application code and the state of
  the simulator to the new application state and the simulator calls that the event
  makes.  The reference counts of \<^verbatim>\<open>EventImpl\<close> objects are left out; the flag
  \<^verbatim>\<open>m_cancel\<close> of each object is kept in a map from addresses.
\<close>

section \<open>Event identifiers\<close>

record event_id =
  id_impl :: ptr
  id_ts :: u64
  id_context :: u32
  id_uid :: u32

abbreviation (input) UID_INVALID :: u32 where "UID_INVALID \<equiv> 0"
abbreviation (input) UID_DESTROY :: u32 where "UID_DESTROY \<equiv> 2"
abbreviation (input) UID_VALID :: u32 where "UID_VALID \<equiv> 4"
abbreviation (input) NO_CONTEXT :: u32 where "NO_CONTEXT \<equiv> 0xffffffff"

definition event_id_eq :: "event_id \<Rightarrow> event_id \<Rightarrow> bool" where
  "event_id_eq a b \<longleftrightarrow> id_uid a = id_uid b \<and> id_context a = id_context b \<and> id_ts a = id_ts b
     \<and> id_impl a = id_impl b"

text \<open>The event that an identifier names, as \<^verbatim>\<open>Remove\<close> builds it.\<close>

definition id_event :: "event_id \<Rightarrow> event" where
  "id_event i = \<lparr>ev_impl = id_impl i,
     ev_key = \<lparr>key_ts = id_ts i, key_uid = id_uid i, key_context = id_context i\<rparr>\<rparr>"

section \<open>State\<close>

record event_with_context =
  ewc_context :: u32
  ewc_timestamp :: u64
  ewc_event :: ptr

record ('s, 'a) simulator =
  m_eventsWithContext :: "event_with_context list"
  m_eventsWithContextEmpty :: bool
  m_destroyEvents :: "event_id list"
  m_stop :: bool
  m_events :: 's
  m_uid :: u32
  m_currentUid :: u32
  m_currentTs :: u64
  m_currentContext :: u32
  m_eventCount :: u64
  m_unscheduledEvents :: int
  m_cancel :: "ptr \<Rightarrow> bool"
  m_app :: 'a

definition DefaultSimulatorImpl_init :: "'s \<Rightarrow> 'a \<Rightarrow> ('s, 'a) simulator" where
  "DefaultSimulatorImpl_init evs app = \<lparr>
     m_eventsWithContext = [], m_eventsWithContextEmpty = True, m_destroyEvents = [],
     m_stop = False, m_events = evs, m_uid = UID_VALID, m_currentUid = UID_INVALID,
     m_currentTs = 0, m_currentContext = NO_CONTEXT, m_eventCount = 0,
     m_unscheduledEvents = 0, m_cancel = (\<lambda>_. False), m_app = app\<rparr>"

text \<open>
  Signed arithmetic: \<^verbatim>\<open>Time\<close> adds 64-bit signed values, the counter of
  unscheduled events is a 32-bit \<^verbatim>\<open>int\<close>; overflow of either is undefined.
\<close>

definition time_add :: "u64 \<Rightarrow> u64 \<Rightarrow> u64 option" where
  "time_add a b = (let t = sint a + sint b in
     if - (2 ^ 63) \<le> t \<and> t < 2 ^ 63 then Some (a + b) else None)"

definition int_inc :: "int \<Rightarrow> int option" where
  "int_inc x = (if x < 2 ^ 31 - 1 then Some (x + 1) else None)"

definition int_dec :: "int \<Rightarrow> int option" where
  "int_dec x = (if - (2 ^ 31) < x then Some (x - 1) else None)"

section \<open>Operations\<close>

text \<open>The tail that all three scheduling operations share: number the event and insert it.\<close>

definition sim_enter :: "'s scheduler_ops \<Rightarrow> ptr \<Rightarrow> u64 \<Rightarrow> u32 \<Rightarrow> ('s, 'a) simulator
    \<Rightarrow> (event_id \<times> ('s, 'a) simulator) option" where
  "sim_enter ops im ts ctx s = do {
     let ev = \<lparr>ev_impl = im,
               ev_key = \<lparr>key_ts = ts, key_uid = m_uid s, key_context = ctx\<rparr>\<rparr>;
     n \<leftarrow> int_inc (m_unscheduledEvents s);
     evs \<leftarrow> op_Insert ops ev (m_events s);
     Some (\<lparr>id_impl = im, id_ts = ts, id_context = ctx, id_uid = m_uid s\<rparr>,
           s\<lparr>m_uid := m_uid s + 1, m_unscheduledEvents := n, m_events := evs\<rparr>)
   }"

definition sim_Schedule :: "'s scheduler_ops \<Rightarrow> u64 \<Rightarrow> ptr \<Rightarrow> ('s, 'a) simulator
    \<Rightarrow> (event_id \<times> ('s, 'a) simulator) option" where
  "sim_Schedule ops delay im s = do {
     ns_assert (0 \<le> sint delay);
     tAbsolute \<leftarrow> time_add delay (m_currentTs s);
     sim_enter ops im tAbsolute (m_currentContext s) s
   }"

definition sim_ScheduleNow :: "'s scheduler_ops \<Rightarrow> ptr \<Rightarrow> ('s, 'a) simulator
    \<Rightarrow> (event_id \<times> ('s, 'a) simulator) option" where
  "sim_ScheduleNow ops im s = sim_Schedule ops 0 im s"

text \<open>The flag tells whether the caller is the main thread.\<close>

definition sim_ScheduleWithContext :: "'s scheduler_ops \<Rightarrow> bool \<Rightarrow> u32 \<Rightarrow> u64 \<Rightarrow> ptr
    \<Rightarrow> ('s, 'a) simulator \<Rightarrow> ('s, 'a) simulator option" where
  "sim_ScheduleWithContext ops main ctx delay im s =
     (if main
      then do {
        tAbsolute \<leftarrow> time_add delay (m_currentTs s);
        (_, s') \<leftarrow> sim_enter ops im tAbsolute ctx s;
        Some s'
      }
      else Some (s\<lparr>m_eventsWithContext := m_eventsWithContext s @
               [\<lparr>ewc_context = ctx, ewc_timestamp = delay, ewc_event = im\<rparr>],
             m_eventsWithContextEmpty := False\<rparr>))"

definition sim_ScheduleDestroy :: "ptr \<Rightarrow> ('s, 'a) simulator \<Rightarrow> event_id \<times> ('s, 'a) simulator" where
  "sim_ScheduleDestroy im s =
     (let i = \<lparr>id_impl = im, id_ts = m_currentTs s, id_context = 0xffffffff,
               id_uid = UID_DESTROY\<rparr>
      in (i, s\<lparr>m_destroyEvents := m_destroyEvents s @ [i], m_uid := m_uid s + 1\<rparr>))"

definition sim_IsExpired :: "('s, 'a) simulator \<Rightarrow> event_id \<Rightarrow> bool" where
  "sim_IsExpired s i =
     (if id_uid i = UID_DESTROY
      then id_impl i = nullptr \<or> m_cancel s (id_impl i)
        \<or> \<not> list_ex (\<lambda>d. event_id_eq d i) (m_destroyEvents s)
      else id_impl i = nullptr \<or> id_ts i < m_currentTs s
        \<or> (id_ts i = m_currentTs s \<and> id_uid i \<le> m_currentUid s)
        \<or> m_cancel s (id_impl i))"

definition sim_GetDelayLeft :: "('s, 'a) simulator \<Rightarrow> event_id \<Rightarrow> u64" where
  "sim_GetDelayLeft s i = (if sim_IsExpired s i then 0 else id_ts i - m_currentTs s)"

definition sim_Cancel :: "event_id \<Rightarrow> ('s, 'a) simulator \<Rightarrow> ('s, 'a) simulator" where
  "sim_Cancel i s =
     (if \<not> sim_IsExpired s i then s\<lparr>m_cancel := (m_cancel s)(id_impl i := True)\<rparr> else s)"

fun erase_first :: "('x \<Rightarrow> bool) \<Rightarrow> 'x list \<Rightarrow> 'x list" where
  "erase_first p [] = []"
| "erase_first p (x # xs) = (if p x then xs else x # erase_first p xs)"

definition sim_Remove :: "'s scheduler_ops \<Rightarrow> event_id \<Rightarrow> ('s, 'a) simulator
    \<Rightarrow> ('s, 'a) simulator option" where
  "sim_Remove ops i s =
     (if id_uid i = UID_DESTROY
      then Some (s\<lparr>m_destroyEvents := erase_first (\<lambda>d. event_id_eq d i) (m_destroyEvents s)\<rparr>)
      else if sim_IsExpired s i then Some s
      else do {
        evs \<leftarrow> op_Remove ops (id_event i) (m_events s);
        n \<leftarrow> int_dec (m_unscheduledEvents s);
        Some (s\<lparr>m_events := evs, m_cancel := (m_cancel s)(id_impl i := True),
                m_unscheduledEvents := n\<rparr>)
      })"

definition sim_Stop :: "('s, 'a) simulator \<Rightarrow> ('s, 'a) simulator" where
  "sim_Stop s = s\<lparr>m_stop := True\<rparr>"

text \<open>
  \<^verbatim>\<open>Stop (delay)\<close> schedules a call of \<^verbatim>\<open>Simulator::Stop\<close>; \<open>im\<close> is
  the event object made for that call.
\<close>

definition sim_Stop_delay :: "'s scheduler_ops \<Rightarrow> u64 \<Rightarrow> ptr \<Rightarrow> ('s, 'a) simulator
    \<Rightarrow> (event_id \<times> ('s, 'a) simulator) option" where
  "sim_Stop_delay ops delay im s = sim_Schedule ops delay im s"

definition sim_IsFinished :: "'s scheduler_ops \<Rightarrow> ('s, 'a) simulator \<Rightarrow> bool" where
  "sim_IsFinished ops s \<longleftrightarrow> op_IsEmpty ops (m_events s) \<or> m_stop s"

text \<open>\<^verbatim>\<open>ProcessEventsWithContext\<close>: the queue filled by other threads.\<close>

fun sim_enter_foreign :: "'s scheduler_ops \<Rightarrow> event_with_context list \<Rightarrow> ('s, 'a) simulator
    \<Rightarrow> ('s, 'a) simulator option" where
  "sim_enter_foreign ops [] s = Some s"
| "sim_enter_foreign ops (e # es) s = do {
     (_, s') \<leftarrow> sim_enter ops (ewc_event e) (m_currentTs s + ewc_timestamp e) (ewc_context e) s;
     sim_enter_foreign ops es s'
   }"

definition sim_ProcessEventsWithContext :: "'s scheduler_ops \<Rightarrow> ('s, 'a) simulator
    \<Rightarrow> ('s, 'a) simulator option" where
  "sim_ProcessEventsWithContext ops s =
     (if m_eventsWithContextEmpty s then Some s
      else sim_enter_foreign ops (m_eventsWithContext s)
        (s\<lparr>m_eventsWithContext := [], m_eventsWithContextEmpty := True\<rparr>))"

section \<open>Running events\<close>

text \<open>The simulator calls that event code makes.\<close>

datatype api_call =
    CallSchedule u64 ptr
  | CallScheduleNow ptr
  | CallScheduleWithContext u32 u64 ptr
  | CallScheduleDestroy ptr
  | CallCancel event_id
  | CallRemove event_id
  | CallStop

fun sim_call :: "'s scheduler_ops \<Rightarrow> api_call \<Rightarrow> ('s, 'a) simulator \<Rightarrow> ('s, 'a) simulator option" where
  "sim_call ops (CallSchedule d im) s = map_option snd (sim_Schedule ops d im s)"
| "sim_call ops (CallScheduleNow im) s = map_option snd (sim_ScheduleNow ops im s)"
| "sim_call ops (CallScheduleWithContext c d im) s = sim_ScheduleWithContext ops True c d im s"
| "sim_call ops (CallScheduleDestroy im) s = Some (snd (sim_ScheduleDestroy im s))"
| "sim_call ops (CallCancel i) s = Some (sim_Cancel i s)"
| "sim_call ops (CallRemove i) s = sim_Remove ops i s"
| "sim_call ops CallStop s = Some (sim_Stop s)"

fun sim_calls :: "'s scheduler_ops \<Rightarrow> api_call list \<Rightarrow> ('s, 'a) simulator \<Rightarrow> ('s, 'a) simulator option" where
  "sim_calls ops [] s = Some s"
| "sim_calls ops (c # cs) s = do { s' \<leftarrow> sim_call ops c s; sim_calls ops cs s' }"

type_synonym ('s, 'a) notify = "ptr \<Rightarrow> 'a \<Rightarrow> ('s, 'a) simulator \<Rightarrow> 'a \<times> api_call list"

text \<open>\<^verbatim>\<open>EventImpl::Invoke\<close>: a cancelled event does nothing.\<close>

definition sim_Invoke :: "'s scheduler_ops \<Rightarrow> ('s, 'a) notify \<Rightarrow> ptr \<Rightarrow> ('s, 'a) simulator
    \<Rightarrow> ('s, 'a) simulator option" where
  "sim_Invoke ops notify im s =
     (if m_cancel s im then Some s
      else let (app, cs) = notify im (m_app s) s in sim_calls ops cs (s\<lparr>m_app := app\<rparr>))"

text \<open>The state in which the code of the removed event starts.\<close>

definition sim_begin_event :: "event \<Rightarrow> 's \<Rightarrow> int \<Rightarrow> ('s, 'a) simulator \<Rightarrow> ('s, 'a) simulator" where
  "sim_begin_event nxt evs n s = s\<lparr>m_events := evs, m_unscheduledEvents := n,
     m_eventCount := m_eventCount s + 1, m_currentTs := ev_ts nxt,
     m_currentContext := key_context (ev_key nxt), m_currentUid := ev_uid nxt\<rparr>"

definition sim_ProcessOneEvent :: "'s scheduler_ops \<Rightarrow> ('s, 'a) notify \<Rightarrow> ('s, 'a) simulator
    \<Rightarrow> ('s, 'a) simulator option" where
  "sim_ProcessOneEvent ops notify s = do {
     (nxt, evs) \<leftarrow> op_RemoveNext ops (m_events s);
     ns_assert (ev_ts nxt \<ge> m_currentTs s);
     n \<leftarrow> int_dec (m_unscheduledEvents s);
     s2 \<leftarrow> sim_Invoke ops notify (ev_impl nxt) (sim_begin_event nxt evs n s);
     sim_ProcessEventsWithContext ops s2
   }"

text \<open>
  The loop of \<^verbatim>\<open>Run\<close> may go on for ever: events may schedule events without
  end.  It runs on fuel, one unit per event; a run that is out of fuel is neither a fault
  nor a result.
\<close>

datatype 'x run_result = RunDone 'x | RunFault | RunFuel 'x

fun sim_Run_loop :: "'s scheduler_ops \<Rightarrow> ('s, 'a) notify \<Rightarrow> nat \<Rightarrow> ('s, 'a) simulator
    \<Rightarrow> ('s, 'a) simulator run_result" where
  "sim_Run_loop ops notify fuel s =
     (if op_IsEmpty ops (m_events s) \<or> m_stop s then RunDone s
      else case fuel of
        0 \<Rightarrow> RunFuel s
      | Suc n \<Rightarrow> (case sim_ProcessOneEvent ops notify s of
          None \<Rightarrow> RunFault
        | Some s' \<Rightarrow> sim_Run_loop ops notify n s'))"

definition sim_Run :: "'s scheduler_ops \<Rightarrow> ('s, 'a) notify \<Rightarrow> nat \<Rightarrow> ('s, 'a) simulator
    \<Rightarrow> ('s, 'a) simulator run_result" where
  "sim_Run ops notify fuel s =
     (case sim_ProcessEventsWithContext ops s of
        None \<Rightarrow> RunFault
      | Some s1 \<Rightarrow> (case sim_Run_loop ops notify fuel (s1\<lparr>m_stop := False\<rparr>) of
          RunDone s2 \<Rightarrow>
            (if \<not> op_IsEmpty ops (m_events s2) \<or> m_unscheduledEvents s2 = 0
             then RunDone s2 else RunFault)
        | r \<Rightarrow> r))"

text \<open>\<^verbatim>\<open>Destroy\<close>: the destroy events run in the order they were scheduled.\<close>

fun sim_Destroy :: "'s scheduler_ops \<Rightarrow> ('s, 'a) notify \<Rightarrow> nat \<Rightarrow> ('s, 'a) simulator
    \<Rightarrow> ('s, 'a) simulator run_result" where
  "sim_Destroy ops notify fuel s =
     (case m_destroyEvents s of
        [] \<Rightarrow> RunDone s
      | i # rest \<Rightarrow> (case fuel of
          0 \<Rightarrow> RunFuel s
        | Suc n \<Rightarrow> (case sim_Invoke ops notify (id_impl i) (s\<lparr>m_destroyEvents := rest\<rparr>) of
            None \<Rightarrow> RunFault
          | Some s' \<Rightarrow> sim_Destroy ops notify n s')))"

text \<open>
  \<^verbatim>\<open>SetScheduler\<close>: every pending event moves to the new scheduler.  \<open>None\<close>
  for a fault or for fuel that runs out.
\<close>

fun transfer_events :: "'s scheduler_ops \<Rightarrow> 't scheduler_ops \<Rightarrow> nat \<Rightarrow> 's \<Rightarrow> 't \<Rightarrow> 't option" where
  "transfer_events ops ops' n s t =
     (if op_IsEmpty ops s then Some t
      else case n of
        0 \<Rightarrow> None
      | Suc m \<Rightarrow> do {
          (ev, s') \<leftarrow> op_RemoveNext ops s;
          t' \<leftarrow> op_Insert ops' ev t;
          transfer_events ops ops' m s' t'
        })"

definition sim_SetScheduler :: "'s scheduler_ops \<Rightarrow> 't scheduler_ops \<Rightarrow> 't \<Rightarrow> nat
    \<Rightarrow> ('s, 'a) simulator \<Rightarrow> ('t, 'a) simulator option" where
  "sim_SetScheduler ops ops' fresh fuel s = do {
     t \<leftarrow> transfer_events ops ops' fuel (m_events s) fresh;
     Some \<lparr>m_eventsWithContext = m_eventsWithContext s,
       m_eventsWithContextEmpty = m_eventsWithContextEmpty s,
       m_destroyEvents = m_destroyEvents s, m_stop = m_stop s, m_events = t,
       m_uid = m_uid s, m_currentUid = m_currentUid s, m_currentTs = m_currentTs s,
       m_currentContext = m_currentContext s, m_eventCount = m_eventCount s,
       m_unscheduledEvents = m_unscheduledEvents s, m_cancel = m_cancel s, m_app = m_app s\<rparr>
   }"

text \<open>
  \<^verbatim>\<open>DoDispose\<close> empties the scheduler; the result is what is left in it.  The
  scheduler object itself is then dropped.
\<close>

definition sim_DoDispose :: "'s scheduler_ops \<Rightarrow> nat \<Rightarrow> ('s, 'a) simulator \<Rightarrow> 's option" where
  "sim_DoDispose ops fuel s = do {
     s1 \<leftarrow> sim_ProcessEventsWithContext ops s;
     (_, evs) \<leftarrow> drain ops fuel (m_events s1);
     Some evs
   }"

declare sim_Run_loop.simps [simp del] sim_Destroy.simps [simp del] transfer_events.simps [simp del]

section \<open>Invariant\<close>

text \<open>The place of the running event in the order of events.\<close>

definition cur_rank :: "('s, 'a) simulator \<Rightarrow> nat" where
  "cur_rank s = key_rank \<lparr>key_ts = m_currentTs s, key_uid = m_currentUid s, key_context = 0\<rparr>"

text \<open>
  Every pending event comes after the running one and carries a unique id that was
  already given out; the counter of unscheduled events counts the pending events.
\<close>

definition pending_ok :: "('s, 'a) simulator \<Rightarrow> event \<Rightarrow> bool" where
  "pending_ok s e \<longleftrightarrow> cur_rank s < ev_rank e \<and> unat (ev_ts e) < ts_limit
     \<and> ev_uid e < m_uid s \<and> UID_VALID \<le> ev_uid e \<and> ev_impl e \<noteq> nullptr"

definition sim_inv :: "('s \<Rightarrow> bool) \<Rightarrow> ('s \<Rightarrow> event multiset) \<Rightarrow> ('s \<Rightarrow> nat)
    \<Rightarrow> ('s, 'a) simulator \<Rightarrow> bool" where
  "sim_inv invar events floor_ts s \<longleftrightarrow>
     invar (m_events s) \<and> floor_ts (m_events s) \<le> unat (m_currentTs s)
     \<and> unat (m_currentTs s) < ts_limit \<and> m_currentUid s < m_uid s \<and> UID_VALID \<le> m_uid s
     \<and> m_unscheduledEvents s = int (size (events (m_events s)))
     \<and> (\<forall>e \<in># events (m_events s). pending_ok s e)"

text \<open>
  An identifier is genuine when it is the default one, a destroy identifier, expired, or
  names a pending event: every identifier that \<^verbatim>\<open>Schedule\<close> returned is, at any
  later time.
\<close>

definition genuine :: "('s \<Rightarrow> event multiset) \<Rightarrow> ('s, 'a) simulator \<Rightarrow> event_id \<Rightarrow> bool" where
  "genuine events s i \<longleftrightarrow> id_uid i = UID_DESTROY \<or> sim_IsExpired s i
     \<or> id_event i \<in># events (m_events s)"

text \<open>What the simulator expects of its callers.\<close>

definition delay_ok :: "('s, 'a) simulator \<Rightarrow> u64 \<Rightarrow> bool" where
  "delay_ok s d \<longleftrightarrow> 0 \<le> sint d \<and> unat (m_currentTs s) + nat (sint d) < ts_limit"

fun call_ok :: "('s \<Rightarrow> event multiset) \<Rightarrow> ('s, 'a) simulator \<Rightarrow> api_call \<Rightarrow> bool" where
  "call_ok events s (CallSchedule d im) = (delay_ok s d \<and> im \<noteq> nullptr)"
| "call_ok events s (CallScheduleNow im) = (im \<noteq> nullptr)"
| "call_ok events s (CallScheduleWithContext c d im) = (delay_ok s d \<and> im \<noteq> nullptr)"
| "call_ok events s (CallRemove i) = genuine events s i"
| "call_ok events s _ = True"

fun calls_ok :: "'s scheduler_ops \<Rightarrow> ('s \<Rightarrow> event multiset) \<Rightarrow> api_call list
    \<Rightarrow> ('s, 'a) simulator \<Rightarrow> bool" where
  "calls_ok ops events [] s = True"
| "calls_ok ops events (c # cs) s = (call_ok events s c
     \<and> (\<forall>s'. sim_call ops c s = Some s' \<longrightarrow> calls_ok ops events cs s'))"

definition max_uid :: nat where
  "max_uid = 2 ^ 31 - 1"

lemmas sim_limits = ts_limit_def max_uid_def max_pending_def

lemma uniq_uids_size:
  assumes "uniq_uids M" and "\<And>e. e \<in># M \<Longrightarrow> unat (ev_uid e) < n"
  shows "size M \<le> n"
proof -
  let ?I = "image_mset ev_uid M"
  have c1: "count ?I u \<le> 1" for u using assms(1) by (simp add: uniq_uids_def)
  have "?I = mset_set (set_mset ?I)"
  proof (rule multiset_eqI)
    fix u
    show "count ?I u = count (mset_set (set_mset ?I)) u"
      using c1 [of u] by (cases "u \<in># ?I")
        (auto simp: count_greater_zero_iff [symmetric] not_in_iff simp del: count_greater_zero_iff
          set_image_mset)
  qed
  then have "size M = card (set_mset ?I)" by (metis size_image_mset size_mset_set)
  also have "\<dots> = card (unat ` set_mset ?I)"
    by (rule card_image [symmetric]) (auto simp: inj_on_def word_unat_eq_iff)
  also have "\<dots> \<le> card {..<n}"
    using assms(2) by (intro card_mono) auto
  finally show ?thesis by simp
qed

lemma time_add_ok:
  assumes "delay_ok s d" and "unat (m_currentTs s) < ts_limit"
  shows "time_add d (m_currentTs s) = Some (d + m_currentTs s)"
    and "unat (d + m_currentTs s) = unat (m_currentTs s) + nat (sint d)"
proof -
  have d: "sint d = int (unat d)" using assms(1) by (simp add: delay_ok_def sint_u64_nonneg)
  have c: "sint (m_currentTs s) = int (unat (m_currentTs s))"
    using assms(2) by (simp add: ts_limit_def sint_u64_small)
  show "time_add d (m_currentTs s) = Some (d + m_currentTs s)"
  proof -
    have "int (unat d) + int (unat (m_currentTs s)) < int (2 ^ 63)"
      using assms(1) d unfolding delay_ok_def ts_limit_def by linarith
    moreover have "- (2 ^ 63) \<le> int (unat d) + int (unat (m_currentTs s))"
      by (rule order_trans [of _ 0]) simp_all
    ultimately show ?thesis using c d by (simp add: time_add_def Let_def)
  qed
  show "unat (d + m_currentTs s) = unat (m_currentTs s) + nat (sint d)"
    using assms d by (subst unat_plus_no_wrap) (auto simp: delay_ok_def sim_limits)
qed

end
