(* ===== verification/Simulator_Laws.thy ===== *)
theory Simulator_Laws
  imports Simulator
begin

text \<open>
  The simulator over an arbitrary scheduler: the client of the scheduler interface.  The
  locale \<open>simulation\<close> adds nothing to the contract of a scheduler; its lemmas are
  proved once and hold for each implementation that is interpreted.
\<close>

lemma pending_rank:
  assumes "unat (m_currentTs s) \<le> unat (ev_ts e)" and "m_currentUid s < ev_uid e"
  shows "cur_rank s < ev_rank e"
proof -
  have "key_less \<lparr>key_ts = m_currentTs s, key_uid = m_currentUid s, key_context = 0\<rparr> (ev_key e)"
    using assms by (auto simp: key_less_def word_le_nat_alt word_less_nat_alt le_less word_unat_eq_iff)
  then show ?thesis by (simp add: cur_rank_def key_less_rank)
qed

lemma pending_ok_cong:
  assumes "pending_ok s e" and "cur_rank s' = cur_rank s" and "m_uid s \<le> m_uid s'"
  shows "pending_ok s' e"
  using assms by (auto simp: pending_ok_def)

text \<open>An identifier that is not a destroy identifier expires exactly by its place in the order.\<close>

lemma IsExpired_rank:
  assumes "id_uid i \<noteq> UID_DESTROY"
  shows "sim_IsExpired s i \<longleftrightarrow>
    id_impl i = nullptr \<or> ev_rank (id_event i) \<le> cur_rank s \<or> m_cancel s (id_impl i)"
proof -
  have "ev_rank (id_event i) \<le> cur_rank s \<longleftrightarrow>
      id_ts i < m_currentTs s \<or> (id_ts i = m_currentTs s \<and> id_uid i \<le> m_currentUid s)"
    using key_less_rank [of "\<lparr>key_ts = m_currentTs s, key_uid = m_currentUid s, key_context = 0\<rparr>"
        "ev_key (id_event i)"]
    by (auto simp: cur_rank_def key_less_def id_event_def not_less [symmetric] dest: not_less_iff_gr_or_eq [THEN iffD1])
  then show ?thesis using assms by (auto simp: sim_IsExpired_def)
qed

lemma IsExpired_mono:
  assumes "sim_IsExpired s i" and "id_uid i \<noteq> UID_DESTROY" and "cur_rank s \<le> cur_rank s'"
    and "\<And>p. m_cancel s p \<Longrightarrow> m_cancel s' p"
  shows "sim_IsExpired s' i"
  using assms by (auto simp: IsExpired_rank)

lemma id_event_sel [simp]:
  "ev_impl (id_event i) = id_impl i" "ev_ts (id_event i) = id_ts i"
  "ev_uid (id_event i) = id_uid i" "key_context (ev_key (id_event i)) = id_context i"
  by (simp_all add: id_event_def)

text \<open>The fields that a call leaves alone.\<close>

definition same_clock :: "('s, 'a) simulator \<Rightarrow> ('s, 'a) simulator \<Rightarrow> bool" where
  "same_clock s s' \<longleftrightarrow> m_currentTs s' = m_currentTs s \<and> m_currentUid s' = m_currentUid s
     \<and> m_eventsWithContextEmpty s' = m_eventsWithContextEmpty s
     \<and> m_eventCount s' = m_eventCount s \<and> (\<forall>p. m_cancel s p \<longrightarrow> m_cancel s' p)"

lemma same_clock_refl [simp]: "same_clock s s"
  by (simp add: same_clock_def)

lemma same_clock_trans: "same_clock s t \<Longrightarrow> same_clock t u \<Longrightarrow> same_clock s u"
  unfolding same_clock_def by metis

lemma same_clock_rank: "same_clock s s' \<Longrightarrow> cur_rank s' = cur_rank s"
  by (simp add: same_clock_def cur_rank_def)

text \<open>
  What any piece of a run does to the pending events: each is still pending, or it was
  cancelled, or the clock has passed it.  Clock and cancellation never go back.
\<close>

definition evolves :: "('s \<Rightarrow> event multiset) \<Rightarrow> ('s, 'a) simulator \<Rightarrow> ('s, 'a) simulator \<Rightarrow> bool" where
  "evolves events s s' \<longleftrightarrow> cur_rank s \<le> cur_rank s' \<and> (\<forall>p. m_cancel s p \<longrightarrow> m_cancel s' p)
     \<and> (\<forall>e \<in># events (m_events s). e \<in># events (m_events s') \<or> m_cancel s' (ev_impl e)
          \<or> ev_rank e \<le> cur_rank s')"

lemma evolves_refl [simp]: "evolves events s s"
  by (simp add: evolves_def)

lemma evolves_trans: "evolves events s t \<Longrightarrow> evolves events t u \<Longrightarrow> evolves events s u"
  unfolding evolves_def by (metis order_trans)

lemma evolves_subset:
  assumes "same_clock s s'" and "events (m_events s) \<subseteq># events (m_events s')"
  shows "evolves events s s'"
  using assms same_clock_rank [OF assms(1)]
  by (auto simp: evolves_def same_clock_def dest: mset_subset_eqD)

lemma genuine_evolves:
  assumes "genuine events s i" and "evolves events s s'"
  shows "genuine events s' i"
proof (cases "id_uid i = UID_DESTROY")
  case False
  consider "sim_IsExpired s i" | "id_event i \<in># events (m_events s)"
    using assms(1) False by (auto simp: genuine_def)
  then show ?thesis
  proof cases
    case 1
    then have "sim_IsExpired s' i"
      using False assms(2) IsExpired_mono [of s i s'] by (auto simp: evolves_def)
    then show ?thesis by (simp add: genuine_def)
  next
    case 2
    then show ?thesis
      using assms(2) by (auto simp: evolves_def genuine_def IsExpired_rank [OF False])
  qed
qed (simp add: genuine_def)

text \<open>What is asked of event code: at most \<open>b\<close> calls, each meeting the expectations.\<close>

definition notify_ok :: "'s scheduler_ops \<Rightarrow> ('s \<Rightarrow> bool) \<Rightarrow> ('s \<Rightarrow> event multiset) \<Rightarrow> ('s \<Rightarrow> nat)
    \<Rightarrow> nat \<Rightarrow> ('s, 'a) notify \<Rightarrow> bool" where
  "notify_ok ops invar events floor_ts b notify \<longleftrightarrow> (\<forall>im s. sim_inv invar events floor_ts s \<longrightarrow>
     (case notify im (m_app s) s of (app, cs) \<Rightarrow>
        length cs \<le> b \<and> calls_ok ops events cs (s\<lparr>m_app := app\<rparr>)))"

text \<open>The states right after each event of a run.\<close>

fun sim_trace :: "'s scheduler_ops \<Rightarrow> ('s, 'a) notify \<Rightarrow> nat \<Rightarrow> ('s, 'a) simulator
    \<Rightarrow> ('s, 'a) simulator list" where
  "sim_trace ops notify 0 s = []"
| "sim_trace ops notify (Suc n) s =
     (if op_IsEmpty ops (m_events s) \<or> m_stop s then []
      else case sim_ProcessOneEvent ops notify s of
        None \<Rightarrow> []
      | Some s' \<Rightarrow> s' # sim_trace ops notify n s')"

locale simulation = removing_scheduler
begin

abbreviation inv :: "('a, 'b) simulator \<Rightarrow> bool" where
  "inv \<equiv> sim_inv invar events floor_ts"

abbreviation pending :: "('a, 'b) simulator \<Rightarrow> event multiset" where
  "pending s \<equiv> events (m_events s)"

lemma pending_size: "inv s \<Longrightarrow> size (pending s) \<le> unat (m_uid s)"
  unfolding sim_inv_def
  by (rule uniq_uids_size) (auto simp: uniq_law pending_ok_def word_less_nat_alt)

text \<open>Numbering and inserting an event.\<close>

lemma enter_ok:
  assumes inv: "inv s" and ts: "unat (m_currentTs s) \<le> unat ts" "unat ts < ts_limit"
    and im: "im \<noteq> nullptr" and uid: "unat (m_uid s) < max_uid"
  shows "\<exists>i s'. sim_enter ops im ts ctx s = Some (i, s') \<and> inv s' \<and> same_clock s s'
     \<and> i = \<lparr>id_impl = im, id_ts = ts, id_context = ctx, id_uid = m_uid s\<rparr>
     \<and> pending s' = add_mset (id_event i) (pending s) \<and> unat (m_uid s') = unat (m_uid s) + 1
     \<and> m_cancel s' = m_cancel s \<and> m_stop s' = m_stop s"
proof -
  define i where "i = \<lparr>id_impl = im, id_ts = ts, id_context = ctx, id_uid = m_uid s\<rparr>"
  have size: "size (pending s) < max_pending"
    using pending_size [OF inv] uid by (simp add: sim_limits)
  have "insertable (floor_ts (m_events s)) (id_event i) (pending s)"
    using inv ts size by (fastforce simp: insertable_def sim_inv_def pending_ok_def fresh_uid_def i_def)
  then obtain evs where ins: "op_Insert ops (id_event i) (m_events s) = Some evs" "invar evs"
    "events evs = add_mset (id_event i) (pending s)" "floor_ts evs = floor_ts (m_events s)"
    using Insert_law inv unfolding sim_inv_def by blast
  have u: "unat (m_uid s + 1) = unat (m_uid s) + 1"
    using uid by (intro unat_Suc_no_wrap) (simp add: sim_limits)
  have inc: "int_inc (m_unscheduledEvents s) = Some (m_unscheduledEvents s + 1)"
    using size inv by (simp add: int_inc_def sim_inv_def sim_limits)
  let ?s = "s\<lparr>m_uid := m_uid s + 1, m_unscheduledEvents := m_unscheduledEvents s + 1, m_events := evs\<rparr>"
  have le: "m_uid s \<le> m_uid ?s" "m_uid s < m_uid ?s"
    using u by (simp_all add: word_le_nat_alt word_less_nat_alt)
  have "pending_ok ?s (id_event i)"
  proof -
    have "cur_rank s < ev_rank (id_event i)"
      using inv ts by (intro pending_rank) (simp_all add: sim_inv_def i_def)
    then show ?thesis
      using ts im le inv by (simp add: pending_ok_def i_def cur_rank_def sim_inv_def)
  qed
  moreover have "pending_ok ?s e" if "e \<in># pending s" for e
  proof (rule pending_ok_cong)
    show "pending_ok s e" using inv that by (simp add: sim_inv_def)
    show "cur_rank ?s = cur_rank s" by (simp add: cur_rank_def)
  qed (rule le(1))
  ultimately have all: "\<forall>e \<in># events evs. pending_ok ?s e" unfolding ins(3) by auto
  have "m_currentUid s < m_uid s + 1" "UID_VALID \<le> m_uid s + 1"
    using inv le by (auto simp: sim_inv_def intro: less_trans order_trans less_imp_le)
  then have "inv ?s"
    using inv ins all unfolding sim_inv_def by simp
  moreover have "sim_enter ops im ts ctx s = Some (i, ?s)"
    using ins(1) inc by (simp add: sim_enter_def i_def id_event_def)
  ultimately show ?thesis using ins u by (auto simp: same_clock_def i_def)
qed

lemma Schedule_ok:
  assumes inv: "inv s" and d: "delay_ok s d" and "im \<noteq> nullptr" and "unat (m_uid s) < max_uid"
  shows "\<exists>i s'. sim_Schedule ops d im s = Some (i, s') \<and> inv s' \<and> same_clock s s'
     \<and> i = \<lparr>id_impl = im, id_ts = d + m_currentTs s, id_context = m_currentContext s, id_uid = m_uid s\<rparr>
     \<and> unat (id_ts i) = unat (m_currentTs s) + nat (sint d)
     \<and> pending s' = add_mset (id_event i) (pending s) \<and> unat (m_uid s') = unat (m_uid s) + 1
     \<and> m_cancel s' = m_cancel s \<and> m_stop s' = m_stop s"
proof -
  have lim: "unat (m_currentTs s) < ts_limit" using inv by (simp add: sim_inv_def)
  note t = time_add_ok [OF d lim]
  have "unat (d + m_currentTs s) < ts_limit" "unat (m_currentTs s) \<le> unat (d + m_currentTs s)"
    using d t by (simp_all add: delay_ok_def)
  from enter_ok [OF inv this(2,1) assms(3,4), of "m_currentContext s"] show ?thesis
    using d t by (auto simp: sim_Schedule_def delay_ok_def)
qed

lemma inv_same_queue:
  assumes "inv s" and "same_clock s s'" and "m_events s' = m_events s"
    and "m_unscheduledEvents s' = m_unscheduledEvents s" and "m_uid s \<le> m_uid s'"
  shows "inv s'"
proof -
  have "pending_ok s' e" if "e \<in># pending s" for e
    using pending_ok_cong [of s e s'] assms(1,5) that same_clock_rank [OF assms(2)]
    by (simp add: sim_inv_def)
  moreover have "m_currentUid s < m_uid s" "UID_VALID \<le> m_uid s"
    using assms(1) by (simp_all add: sim_inv_def)
  then have "m_currentUid s < m_uid s'" "UID_VALID \<le> m_uid s'"
    using less_le_trans order_trans assms(5) by blast+
  ultimately show ?thesis using assms by (simp add: sim_inv_def same_clock_def)
qed

text \<open>
  The identifier test is exact: an identifier that \<^verbatim>\<open>Schedule\<close> gave out and that
  is not expired names a pending event, and a pending event that was not cancelled has not
  expired.
\<close>

lemma IsExpired_exact:
  assumes inv: "inv s" and "genuine events s i" and uid: "id_uid i \<noteq> UID_DESTROY"
  shows "\<not> sim_IsExpired s i \<longleftrightarrow> id_event i \<in># pending s \<and> \<not> m_cancel s (id_impl i)"
proof -
  have "pending_ok s (id_event i)" if "id_event i \<in># pending s"
    using inv that by (simp add: sim_inv_def)
  then show ?thesis
    using assms by (auto simp: IsExpired_rank [OF uid] genuine_def pending_ok_def)
qed

lemma Remove_ok:
  assumes inv: "inv s" and gen: "genuine events s i"
  shows "\<exists>s'. sim_Remove ops i s = Some s' \<and> inv s' \<and> same_clock s s' \<and> m_uid s' = m_uid s
     \<and> (id_uid i \<noteq> UID_DESTROY \<longrightarrow> sim_IsExpired s' i)
     \<and> pending s' = (if id_uid i = UID_DESTROY \<or> sim_IsExpired s i then pending s
                     else pending s - {#id_event i#})
     \<and> evolves events s s'"
proof -
  consider "id_uid i = UID_DESTROY" | "id_uid i \<noteq> UID_DESTROY" "sim_IsExpired s i"
    | "id_uid i \<noteq> UID_DESTROY" "\<not> sim_IsExpired s i" by blast
  then show ?thesis
  proof cases
    case 1
    let ?s = "s\<lparr>m_destroyEvents := erase_first (\<lambda>d. event_id_eq d i) (m_destroyEvents s)\<rparr>"
    have "same_clock s ?s" by (simp add: same_clock_def)
    then show ?thesis
      using 1 inv_same_queue [OF inv, of ?s] evolves_subset [of s ?s events] by (simp add: sim_Remove_def)
  next
    case 2
    then show ?thesis using inv by (simp add: sim_Remove_def)
  next
    case 3
    have mem: "id_event i \<in># pending s" using IsExpired_exact [OF inv gen] 3 by simp
    then obtain evs where rm: "op_Remove ops (id_event i) (m_events s) = Some evs" "invar evs"
      "events evs = pending s - {#id_event i#}" "floor_ts evs = floor_ts (m_events s)"
      using Remove_law inv unfolding sim_inv_def by blast
    have pos: "0 < size (pending s)" using mem by (metis empty_iff gr0I set_mset_empty size_eq_0_iff_empty)
    then have dec: "int_dec (m_unscheduledEvents s) = Some (m_unscheduledEvents s - 1)"
      using inv by (simp add: sim_inv_def int_dec_def)
    let ?s = "s\<lparr>m_events := evs, m_cancel := (m_cancel s)(id_impl i := True),
                m_unscheduledEvents := m_unscheduledEvents s - 1\<rparr>"
    have clk: "same_clock s ?s" by (simp add: same_clock_def)
    have "pending_ok ?s e" if "e \<in># events evs" for e
    proof (rule pending_ok_cong)
      show "pending_ok s e" using inv that in_diffD [of e] by (auto simp: rm(3) sim_inv_def)
      show "cur_rank ?s = cur_rank s" by (rule same_clock_rank [OF clk])
    qed simp
    moreover have "size (events evs) = size (pending s) - 1"
      using mem by (simp add: rm(3) size_Diff_singleton)
    ultimately have "inv ?s" using inv rm pos by (simp add: sim_inv_def)
    moreover have "sim_IsExpired ?s i" using 3 by (simp add: IsExpired_rank)
    moreover have "sim_Remove ops i s = Some ?s" using 3 rm(1) dec by (simp add: sim_Remove_def)
    moreover have "evolves events s ?s"
      using rm same_clock_rank [OF clk] by (auto simp: evolves_def in_diff_count)
    ultimately show ?thesis using 3 clk rm by auto
  qed
qed

lemma Cancel_ok:
  assumes "inv s"
  shows "inv (sim_Cancel i s) \<and> same_clock s (sim_Cancel i s) \<and> pending (sim_Cancel i s) = pending s"
proof -
  have clk: "same_clock s (sim_Cancel i s)" by (simp add: sim_Cancel_def same_clock_def)
  then show ?thesis using inv_same_queue [OF assms clk] by (simp add: sim_Cancel_def)
qed

text \<open>Any call that meets the simulator's expectations succeeds and keeps the invariant.\<close>

lemma call_inv:
  assumes inv: "inv s" and ok: "call_ok events s c" and uid: "unat (m_uid s) < max_uid"
  shows "\<exists>s'. sim_call ops c s = Some s' \<and> inv s' \<and> same_clock s s' \<and> evolves events s s'
     \<and> unat (m_uid s') \<le> unat (m_uid s) + 1"
proof (cases c)
  case (CallSchedule d im)
  then show ?thesis
    using Schedule_ok [OF inv _ _ uid, of d im] ok by (auto intro!: evolves_subset)
next
  case (CallScheduleNow im)
  have "delay_ok s 0" using inv by (simp add: delay_ok_def sim_inv_def)
  then show ?thesis
    using Schedule_ok [OF inv _ _ uid, of 0 im] ok CallScheduleNow
    by (auto simp: sim_ScheduleNow_def intro!: evolves_subset)
next
  case (CallScheduleWithContext ctx d im)
  have d: "delay_ok s d" and im: "im \<noteq> nullptr" using ok CallScheduleWithContext by simp_all
  have lim: "unat (m_currentTs s) < ts_limit" using inv by (simp add: sim_inv_def)
  note t = time_add_ok [OF d lim]
  have "unat (d + m_currentTs s) < ts_limit" "unat (m_currentTs s) \<le> unat (d + m_currentTs s)"
    using d t by (simp_all add: delay_ok_def)
  from enter_ok [OF inv this(2,1) im uid, of ctx] show ?thesis
    using CallScheduleWithContext t by (auto simp: sim_ScheduleWithContext_def intro!: evolves_subset)
next
  case (CallScheduleDestroy im)
  let ?s = "snd (sim_ScheduleDestroy im s)"
  have u: "unat (m_uid s + 1) = unat (m_uid s) + 1"
    using uid by (intro unat_Suc_no_wrap) (simp add: sim_limits)
  have clk: "same_clock s ?s" by (simp add: sim_ScheduleDestroy_def same_clock_def Let_def)
  have "m_uid s \<le> m_uid ?s" using u by (simp add: sim_ScheduleDestroy_def word_le_nat_alt Let_def)
  then have "inv ?s"
    using inv_same_queue [OF inv clk] by (simp add: sim_ScheduleDestroy_def Let_def)
  moreover have "evolves events s ?s"
    using clk by (rule evolves_subset) (simp add: sim_ScheduleDestroy_def Let_def)
  ultimately show ?thesis using clk u CallScheduleDestroy by (simp add: sim_ScheduleDestroy_def Let_def)
next
  case (CallCancel i)
  then show ?thesis
    using Cancel_ok [OF inv, of i] evolves_subset [of s "sim_Cancel i s" events]
    by (simp add: sim_Cancel_def)
next
  case (CallRemove i)
  then obtain s' where s': "sim_Remove ops i s = Some s'" "inv s'" "same_clock s s'" "m_uid s' = m_uid s"
    "evolves events s s'"
    using Remove_ok [OF inv, of i] ok by auto
  then show ?thesis using CallRemove by simp
next
  case CallStop
  have "same_clock s (sim_Stop s)" by (simp add: sim_Stop_def same_clock_def)
  then show ?thesis
    using inv_same_queue [OF inv] evolves_subset [of s "sim_Stop s" events] CallStop
    by (simp add: sim_Stop_def)
qed

lemma calls_inv:
  assumes "inv s" and "calls_ok ops events cs s" and "unat (m_uid s) + length cs \<le> max_uid"
  shows "\<exists>s'. sim_calls ops cs s = Some s' \<and> inv s' \<and> same_clock s s' \<and> evolves events s s'
     \<and> unat (m_uid s') \<le> unat (m_uid s) + length cs"
  using assms
proof (induction cs arbitrary: s)
  case (Cons c cs)
  then obtain s1 where s1: "sim_call ops c s = Some s1" "inv s1" "same_clock s s1"
    "evolves events s s1" "unat (m_uid s1) \<le> unat (m_uid s) + 1"
    using call_inv [of s c] by auto
  moreover obtain s2 where "sim_calls ops cs s1 = Some s2" "inv s2" "same_clock s1 s2"
    "evolves events s1 s2" "unat (m_uid s2) \<le> unat (m_uid s1) + length cs"
    using Cons.IH [of s1] Cons.prems s1 by auto
  ultimately show ?case by (auto intro: same_clock_trans evolves_trans)
qed simp

lemma Invoke_inv:
  assumes inv: "inv s" and nf: "notify_ok ops invar events floor_ts b notify" and "unat (m_uid s) + b \<le> max_uid"
  shows "\<exists>s'. sim_Invoke ops notify im s = Some s' \<and> inv s' \<and> same_clock s s' \<and> evolves events s s'
     \<and> unat (m_uid s') \<le> unat (m_uid s) + b"
proof (cases "m_cancel s im")
  case False
  obtain app cs where n: "notify im (m_app s) s = (app, cs)" by force
  let ?s = "s\<lparr>m_app := app\<rparr>"
  have clk: "same_clock s ?s" by (simp add: same_clock_def)
  have "length cs \<le> b" "calls_ok ops events cs ?s" 
    using nf [unfolded notify_ok_def, rule_format, OF inv, of im] n by simp_all
  moreover have "inv ?s" using inv_same_queue [OF inv clk] by simp
  ultimately obtain s' where "sim_calls ops cs ?s = Some s'" "inv s'" "same_clock ?s s'"
    "evolves events ?s s'" "unat (m_uid s') \<le> unat (m_uid ?s) + length cs"
    using calls_inv [of ?s cs] assms(3) by auto
  moreover have "evolves events s ?s" using clk by (rule evolves_subset) simp
  ultimately show ?thesis
    using n False \<open>length cs \<le> b\<close> same_clock_trans [OF clk] evolves_trans [of events s ?s]
    by (auto simp: sim_Invoke_def)
qed (use inv in \<open>simp add: sim_Invoke_def\<close>)

text \<open>Taking the next event off the schedule.\<close>

lemma begin_event_ok:
  assumes inv: "inv s" and ne: "pending s \<noteq> {#}"
  shows "\<exists>ev evs n s1. op_RemoveNext ops (m_events s) = Some (ev, evs) \<and> m_currentTs s \<le> ev_ts ev
     \<and> int_dec (m_unscheduledEvents s) = Some n \<and> s1 = sim_begin_event ev evs n s \<and> inv s1
     \<and> is_next ev (pending s) \<and> pending s1 = pending s - {#ev#} \<and> cur_rank s1 = ev_rank ev
     \<and> cur_rank s < cur_rank s1 \<and> evolves events s s1"
proof -
  obtain ev evs where rm: "op_RemoveNext ops (m_events s) = Some (ev, evs)"
    and nx: "is_next ev (pending s)" and iv: "invar evs"
    and ev: "events evs = pending s - {#ev#}" and fl: "floor_ts evs \<le> unat (ev_ts ev)"
    using RemoveNext_law ne inv unfolding sim_inv_def by blast
  have mem: "ev \<in># pending s" using nx by (simp add: is_next_def)
  then have pok: "pending_ok s ev" using inv by (simp add: sim_inv_def)
  let ?s = "sim_begin_event ev evs (m_unscheduledEvents s - 1) s"
  have rank: "cur_rank ?s = ev_rank ev" by (simp add: cur_rank_def key_rank_def sim_begin_event_def)
  have ts: "m_currentTs s \<le> ev_ts ev"
    using pok rank_le_ts [of _ "ev_key ev"]
    by (force simp: pending_ok_def cur_rank_def word_le_nat_alt dest: less_imp_le)
  have pos: "0 < size (pending s)" using ne by (simp add: nonempty_has_size)
  then have dec: "int_dec (m_unscheduledEvents s) = Some (m_unscheduledEvents s - 1)"
    using inv by (simp add: sim_inv_def int_dec_def)
  have "pending_ok ?s e" if e: "e \<in># events evs" for e
  proof -
    have "event_less ev e" using RemoveNext_order [OF _ ne rm e] inv by (simp add: sim_inv_def)
    moreover have "pending_ok s e" using inv e by (auto simp: ev sim_inv_def dest: in_diffD)
    ultimately show ?thesis
      using rank by (simp add: pending_ok_def event_less_rank) (simp add: sim_begin_event_def)
  qed
  moreover have "size (events evs) = size (pending s) - 1" using mem by (simp add: ev size_Diff_singleton)
  ultimately have "inv ?s"
    using inv iv fl pok pos by (simp add: sim_inv_def pending_ok_def sim_begin_event_def)
  moreover have "evolves events s ?s"
  proof -
    have "e \<in># events evs \<or> ev_rank e \<le> ev_rank ev" if "e \<in># pending s" for e
      using that by (cases "e = ev") (auto simp: ev in_diff_count)
    moreover have "m_events ?s = evs" "m_cancel ?s = m_cancel s" by (simp_all add: sim_begin_event_def)
    ultimately show ?thesis using pok rank by (auto simp: evolves_def pending_ok_def)
  qed
  ultimately show ?thesis
    using rm ts dec nx pok rank ev by (auto simp: pending_ok_def) (simp add: sim_begin_event_def)
qed

text \<open>One event: no assertion fails, the clock moves strictly forward in the order of events.\<close>

lemma ProcessOneEvent_inv:
  assumes inv: "inv s" and ne: "pending s \<noteq> {#}" and ctx: "m_eventsWithContextEmpty s"
    and nf: "notify_ok ops invar events floor_ts b notify" and uid: "unat (m_uid s) + b \<le> max_uid"
  shows "\<exists>ev s'. sim_ProcessOneEvent ops notify s = Some s' \<and> inv s' \<and> m_eventsWithContextEmpty s'
     \<and> is_next ev (pending s) \<and> cur_rank s' = ev_rank ev \<and> cur_rank s < cur_rank s'
     \<and> m_currentTs s' = ev_ts ev \<and> m_currentUid s' = ev_uid ev
     \<and> m_eventCount s' = m_eventCount s + 1 \<and> unat (m_uid s') \<le> unat (m_uid s) + b
     \<and> evolves events s s'"
proof -
  obtain ev evs n s1 where s1: "op_RemoveNext ops (m_events s) = Some (ev, evs)"
    "m_currentTs s \<le> ev_ts ev" "int_dec (m_unscheduledEvents s) = Some n"
    "s1 = sim_begin_event ev evs n s" "inv s1" "is_next ev (pending s)" "cur_rank s1 = ev_rank ev"
    "cur_rank s < cur_rank s1" "evolves events s s1"
    using begin_event_ok [OF inv ne] by blast
  have "m_uid s1 = m_uid s" using s1(4) by (simp add: sim_begin_event_def)
  then obtain s' where s': "sim_Invoke ops notify (ev_impl ev) s1 = Some s'" "inv s'"
    "same_clock s1 s'" "unat (m_uid s') \<le> unat (m_uid s) + b" "evolves events s1 s'"
    using Invoke_inv [OF s1(5) nf, of "ev_impl ev"] uid by auto
  have clk: "m_eventsWithContextEmpty s'" "m_currentTs s' = ev_ts ev" "m_currentUid s' = ev_uid ev"
    "m_eventCount s' = m_eventCount s + 1"
    using s'(3) ctx s1(4) by (simp_all add: same_clock_def sim_begin_event_def)
  then have "sim_ProcessOneEvent ops notify s = Some s'"
    using s1(1-4) s'(1) by (simp add: sim_ProcessOneEvent_def sim_ProcessEventsWithContext_def)
  then show ?thesis
    using s1(6-9) s' clk same_clock_rank [OF s'(3)] evolves_trans [OF s1(9) s'(5)] by auto
qed

text \<open>The loop of \<^verbatim>\<open>Run\<close>.\<close>

definition run_post :: "nat \<Rightarrow> ('a, 'b) simulator \<Rightarrow> ('a, 'b) simulator run_result \<Rightarrow> bool" where
  "run_post fuel s r = (case r of
     RunFault \<Rightarrow> False
   | RunDone s' \<Rightarrow> inv s' \<and> m_eventsWithContextEmpty s' \<and> evolves events s s'
       \<and> (pending s' = {#} \<or> m_stop s')
   | RunFuel s' \<Rightarrow> inv s' \<and> m_eventsWithContextEmpty s' \<and> evolves events s s'
       \<and> m_eventCount s' = m_eventCount s + of_nat fuel)"

lemma run_post_step:
  assumes "evolves events s s1" and "m_eventCount s1 = m_eventCount s + 1" and "run_post n s1 r"
  shows "run_post (Suc n) s r"
  using assms by (auto simp: run_post_def algebra_simps intro: evolves_trans split: run_result.splits)

lemma Run_loop_post:
  assumes "inv s" and "m_eventsWithContextEmpty s" and nf: "notify_ok ops invar events floor_ts b notify"
    and "unat (m_uid s) + fuel * b \<le> max_uid"
  shows "run_post fuel s (sim_Run_loop ops notify fuel s)"
  using assms(1,2,4)
proof (induction fuel arbitrary: s)
  case 0
  then show ?case
    using IsEmpty_law by (auto simp: sim_Run_loop.simps [of _ _ 0] run_post_def sim_inv_def)
next
  case (Suc n)
  show ?case
  proof (cases "op_IsEmpty ops (m_events s) \<or> m_stop s")
    case True
    then show ?thesis using Suc.prems IsEmpty_law
      by (auto simp: sim_Run_loop.simps [of _ _ "Suc n"] run_post_def sim_inv_def)
  next
    case False
    then have ne: "pending s \<noteq> {#}" using IsEmpty_law Suc.prems(1) by (simp add: sim_inv_def)
    have "unat (m_uid s) + b \<le> max_uid" using Suc.prems(3) by simp
    from ProcessOneEvent_inv [OF Suc.prems(1) ne Suc.prems(2) nf this]
    obtain s1 where s1: "sim_ProcessOneEvent ops notify s = Some s1" "inv s1"
      "m_eventsWithContextEmpty s1" "m_eventCount s1 = m_eventCount s + 1"
      "unat (m_uid s1) \<le> unat (m_uid s) + b" "evolves events s s1" by blast
    then have "run_post n s1 (sim_Run_loop ops notify n s1)"
      using Suc.IH [of s1] Suc.prems(3) by simp
    then show ?thesis
      using run_post_step [OF s1(6,4)] s1(1) False by (simp add: sim_Run_loop.simps [of _ _ "Suc n"])
  qed
qed

lemma Run_post:
  assumes inv: "inv s" and ctx: "m_eventsWithContextEmpty s"
    and nf: "notify_ok ops invar events floor_ts b notify"
    and uid: "unat (m_uid s) + fuel * b \<le> max_uid"
  shows "run_post fuel s (sim_Run ops notify fuel s)"
proof -
  let ?s = "s\<lparr>m_stop := False\<rparr>"
  have clk: "same_clock s ?s" by (simp add: same_clock_def)
  have "inv ?s" using inv_same_queue [OF inv clk] by simp
  then have post: "run_post fuel ?s (sim_Run_loop ops notify fuel ?s)"
    using Run_loop_post [of ?s, OF _ _ nf] ctx uid by simp
  have ev: "evolves events s ?s" using clk by (rule evolves_subset) simp
  have "\<not> op_IsEmpty ops (m_events s2) \<or> m_unscheduledEvents s2 = 0" if "inv s2" for s2
    using that IsEmpty_law by (auto simp: sim_inv_def)
  then show ?thesis
    using post ctx evolves_trans [OF ev]
    by (auto simp: sim_Run_def sim_ProcessEventsWithContext_def run_post_def split: run_result.splits)
qed

text \<open>Events run in strictly increasing order of time stamp and unique id.\<close>

lemma trace_sorted:
  assumes "inv s" and "m_eventsWithContextEmpty s" and nf: "notify_ok ops invar events floor_ts b notify"
    and "unat (m_uid s) + n * b \<le> max_uid"
  shows "sorted_wrt (<) (map cur_rank (s # sim_trace ops notify n s))"
  using assms(1,2,4)
proof (induction n arbitrary: s)
  case (Suc n)
  show ?case
  proof (cases "op_IsEmpty ops (m_events s) \<or> m_stop s")
    case False
    then have ne: "pending s \<noteq> {#}" using IsEmpty_law Suc.prems(1) by (simp add: sim_inv_def)
    have "unat (m_uid s) + b \<le> max_uid" using Suc.prems(3) by simp
    from ProcessOneEvent_inv [OF Suc.prems(1) ne Suc.prems(2) nf this]
    obtain s1 where s1: "sim_ProcessOneEvent ops notify s = Some s1" "inv s1"
      "m_eventsWithContextEmpty s1" "unat (m_uid s1) \<le> unat (m_uid s) + b" "cur_rank s < cur_rank s1"
      by blast
    then have "sorted_wrt (<) (map cur_rank (s1 # sim_trace ops notify n s1))"
      using Suc.IH [of s1] Suc.prems(3) by simp
    then show ?thesis using s1 False by (auto intro: less_trans)
  qed auto
qed simp

text \<open>
  Event code that makes no calls: then the run ends by itself, after as many events as
  were pending.
\<close>

lemma quiet_step:
  assumes inv: "inv s" and ne: "pending s \<noteq> {#}" and ctx: "m_eventsWithContextEmpty s"
    and quiet: "\<And>im app s. snd (notify im app s) = []"
  shows "\<exists>s'. sim_ProcessOneEvent ops notify s = Some s' \<and> inv s' \<and> m_eventsWithContextEmpty s'
     \<and> size (pending s) = Suc (size (pending s')) \<and> m_stop s' = m_stop s
     \<and> m_eventCount s' = m_eventCount s + 1"
proof -
  obtain ev evs n s1 where s1: "op_RemoveNext ops (m_events s) = Some (ev, evs)"
    "m_currentTs s \<le> ev_ts ev" "int_dec (m_unscheduledEvents s) = Some n"
    "s1 = sim_begin_event ev evs n s" "inv s1" "is_next ev (pending s)" "pending s1 = pending s - {#ev#}"
    using begin_event_ok [OF inv ne] by blast
  obtain app where n: "notify (ev_impl ev) (m_app s1) s1 = (app, [])"
    using quiet by (metis prod.collapse)
  define s' where "s' = (if m_cancel s1 (ev_impl ev) then s1 else s1\<lparr>m_app := app\<rparr>)"
  have "sim_Invoke ops notify (ev_impl ev) s1 = Some s'"
    using n by (simp add: sim_Invoke_def s'_def)
  moreover have clk: "same_clock s1 s'" by (simp add: s'_def same_clock_def)
  moreover have "m_eventsWithContextEmpty s'" using ctx s1(4) by (simp add: s'_def sim_begin_event_def)
  ultimately have "sim_ProcessOneEvent ops notify s = Some s'"
    using s1(1-4) by (simp add: sim_ProcessOneEvent_def sim_ProcessEventsWithContext_def)
  moreover have "inv s'" using inv_same_queue [OF s1(5) clk] by (simp add: s'_def)
  moreover have "pending s' = pending s - {#ev#}" using s1(7) by (simp add: s'_def)
  moreover have "size (pending s) = Suc (size (pending s - {#ev#}))"
    using s1(6) by (simp add: is_next_def size_Suc_Diff1)
  ultimately show ?thesis
    using ctx s1(4) by (simp add: s'_def sim_begin_event_def)
qed

lemma quiet_run:
  assumes "inv s" and "m_eventsWithContextEmpty s" and "\<not> m_stop s"
    and quiet: "\<And>im app s. snd (notify im app s) = []" and "size (pending s) \<le> fuel"
  shows "\<exists>s'. sim_Run_loop ops notify fuel s = RunDone s' \<and> pending s' = {#} \<and> inv s'
     \<and> m_eventCount s' = m_eventCount s + of_nat (size (pending s))"
  using assms(1-3,5)
proof (induction fuel arbitrary: s)
  case 0
  then show ?case using IsEmpty_law by (simp add: sim_Run_loop.simps [of _ _ 0] sim_inv_def)
next
  case (Suc n)
  show ?case
  proof (cases "pending s = {#}")
    case True
    then show ?thesis using Suc.prems(1) IsEmpty_law
      by (simp add: sim_Run_loop.simps [of _ _ "Suc n"] sim_inv_def)
  next
    case False
    have "\<not> op_IsEmpty ops (m_events s)" using False IsEmpty_law Suc.prems(1) by (simp add: sim_inv_def)
    moreover obtain s1 where s1: "sim_ProcessOneEvent ops notify s = Some s1" "inv s1"
      "m_eventsWithContextEmpty s1" "size (pending s) = Suc (size (pending s1))"
      "m_stop s1 = m_stop s" "m_eventCount s1 = m_eventCount s + 1"
      using quiet_step [OF Suc.prems(1) False Suc.prems(2), of notify] quiet by blast
    moreover have "\<exists>s'. sim_Run_loop ops notify n s1 = RunDone s' \<and> pending s' = {#} \<and> inv s'
       \<and> m_eventCount s' = m_eventCount s1 + of_nat (size (pending s1))"
      using Suc.IH [of s1] s1 Suc.prems by simp
    ultimately show ?thesis
      using Suc.prems(3) by (auto simp: sim_Run_loop.simps [of _ _ "Suc n"] algebra_simps)
  qed
qed

text \<open>Disposal with as much fuel as there are pending events leaves nothing behind.\<close>

lemma DoDispose_empties:
  assumes "inv s" and "m_eventsWithContextEmpty s" and "size (pending s) \<le> fuel"
  shows "\<exists>q. sim_DoDispose ops fuel s = Some q \<and> op_IsEmpty ops q"
proof -
  have "invar (m_events s)" using assms(1) by (simp add: sim_inv_def)
  then obtain evs q where "drain ops fuel (m_events s) = Some (evs, q)" "invar q" "events q = {#}"
    using drain_sorted [OF _ assms(3)] by blast
  then show ?thesis
    using assms(2) IsEmpty_law by (simp add: sim_DoDispose_def sim_ProcessEventsWithContext_def)
qed

end

section \<open>Changing the scheduler\<close>

text \<open>\<^verbatim>\<open>SetScheduler\<close> relies on two schedulers at once.\<close>

locale migration =
  old: scheduler ops invar events floor_ts + new: scheduler ops' invar' events' floor_ts'
  for ops :: "'s scheduler_ops" and invar and events and floor_ts
    and ops' :: "'t scheduler_ops" and invar' and events' and floor_ts'
begin

lemma transfer_ok:
  assumes "invar s" and "invar' t" and "uniq_uids (events s + events' t)"
    and "size (events s + events' t) \<le> max_pending" and "size (events s) \<le> n"
    and "\<And>e. e \<in># events s \<Longrightarrow> floor_ts' t \<le> unat (ev_ts e) \<and> unat (ev_ts e) < ts_limit"
  shows "\<exists>t'. transfer_events ops ops' n s t = Some t' \<and> invar' t' \<and> events' t' = events s + events' t
     \<and> floor_ts' t' = floor_ts' t"
  using assms
proof (induction n arbitrary: s t)
  case 0
  then show ?case using old.IsEmpty_law [of s] by (simp add: transfer_events.simps [of _ _ 0])
next
  case (Suc n)
  show ?case
  proof (cases "events s = {#}")
    case True
    then show ?thesis
      using old.IsEmpty_law [of s] Suc.prems by (simp add: transfer_events.simps [of _ _ "Suc n"])
  next
    case False
    obtain ev s1 where s1: "op_RemoveNext ops s = Some (ev, s1)" "is_next ev (events s)" "invar s1"
      "events s1 = events s - {#ev#}"
      using old.RemoveNext_law [OF Suc.prems(1) False] by blast
    then have ev: "events s = add_mset ev (events s1)" by (simp add: is_next_def)
    have "fresh_uid ev (events' t)" using Suc.prems(3) by (auto simp: ev fresh_uid_def)
    then have "insertable (floor_ts' t) ev (events' t)"
      using Suc.prems(4,6) by (auto simp: insertable_def ev)
    then obtain t1 where t1: "op_Insert ops' ev t = Some t1" "invar' t1"
      "events' t1 = add_mset ev (events' t)" "floor_ts' t1 = floor_ts' t"
      using new.Insert_law [OF Suc.prems(2)] by blast
    have "\<exists>t'. transfer_events ops ops' n s1 t1 = Some t' \<and> invar' t'
        \<and> events' t' = events s1 + events' t1 \<and> floor_ts' t' = floor_ts' t1"
      using Suc.IH [OF s1(3) t1(2)] Suc.prems(3-6) by (simp add: ev t1(3,4))
    moreover have "\<not> op_IsEmpty ops s" using old.IsEmpty_law [OF Suc.prems(1)] False by simp
    ultimately show ?thesis
      using s1(1) t1 ev by (auto simp: transfer_events.simps [of _ _ "Suc n"])
  qed
qed

text \<open>The new scheduler holds exactly the old pending events, and the simulator goes on from there.\<close>

lemma SetScheduler_ok:
  assumes inv: "sim_inv invar events floor_ts s" and size: "size (events (m_events s)) \<le> max_pending"
    and t: "invar' t" "events' t = {#}" "floor_ts' t = 0" and fuel: "size (events (m_events s)) \<le> n"
  shows "\<exists>s'. sim_SetScheduler ops ops' t n s = Some s' \<and> sim_inv invar' events' floor_ts' s'
     \<and> events' (m_events s') = events (m_events s) \<and> m_uid s' = m_uid s
     \<and> m_eventsWithContextEmpty s' = m_eventsWithContextEmpty s"
proof -
  have pok: "pending_ok s e" if "e \<in># events (m_events s)" for e
    using inv that by (simp add: sim_inv_def)
  have "invar (m_events s)" using inv by (simp add: sim_inv_def)
  then obtain t' where t': "transfer_events ops ops' n (m_events s) t = Some t'" "invar' t'"
    "events' t' = events (m_events s)" "floor_ts' t' = 0"
    using transfer_ok [of "m_events s" t n] t size fuel pok old.uniq_law
    by (auto simp: pending_ok_def)
  then show ?thesis
    using inv pok by (simp add: sim_SetScheduler_def sim_inv_def pending_ok_def cur_rank_def)
qed

end

end
