(* ===== verification/Simulation.thy ===== *)
theory Simulation
  imports List_Scheduler Map_Scheduler Heap_Scheduler Priority_Queue_Scheduler Calendar_Laws
    Simulator_Laws
begin

text \<open>
  The simulator on the schedulers of the repository: the contracts of
  \<open>Simulator_Laws\<close> interpreted on the list, map, priority-queue and calendar
  schedulers, and the properties of whole runs.  The heap scheduler meets the contract
  without \<^verbatim>\<open>Remove\<close> only; what its \<^verbatim>\<open>Remove\<close> does keep, and an input
  on which the order of events is lost, are stated here too.
\<close>

lemma init_inv:
  assumes "invar q" and "events q = {#}" and "floor_ts q = 0"
  shows "sim_inv invar events floor_ts (DefaultSimulatorImpl_init q app)"
  using assms by (simp add: sim_inv_def DefaultSimulatorImpl_init_def ts_limit_def)

context simulation begin

text \<open>The first event of a simulation, ten time units after its start.\<close>

lemma first_Schedule:
  assumes "invar q" and "events q = {#}" and "floor_ts q = 0"
  shows "\<exists>i s. sim_Schedule ops 10 7 (DefaultSimulatorImpl_init q app) = Some (i, s) \<and> inv s
     \<and> m_eventsWithContextEmpty s \<and> unat (m_uid s) = 5 \<and> \<not> m_stop s \<and> \<not> m_cancel s 7
     \<and> i = \<lparr>id_impl = 7, id_ts = 10, id_context = NO_CONTEXT, id_uid = 4\<rparr>
     \<and> pending s = {#id_event i#} \<and> m_eventCount s = 0"
proof -
  let ?s = "DefaultSimulatorImpl_init q app"
  have "delay_ok ?s 10" by (simp add: delay_ok_def DefaultSimulatorImpl_init_def ts_limit_def)
  from Schedule_ok [OF init_inv [of invar q events floor_ts, OF assms] this, of 7] show ?thesis
    using assms by (auto simp: DefaultSimulatorImpl_init_def max_uid_def same_clock_def)
qed

end

interpretation lsim: simulation list_ops list_invar mset "\<lambda>_. 0" ..

interpretation msim: simulation map_ops map_invar map_events "\<lambda>_. 0" ..

interpretation qsim: simulation pq_ops pq_invar mset "\<lambda>_. 0" ..

interpretation csim: simulation cal_ops cal_invar cal_events "\<lambda>c. unat (cal_lastPrio c)" ..

interpretation map_to_cal: migration map_ops map_invar map_events "\<lambda>_. 0"
  cal_ops cal_invar cal_events "\<lambda>c. unat (cal_lastPrio c)" ..

text \<open>The simulator with the default scheduler, a map, and with the calendar queue.\<close>

abbreviation map_sim_inv :: "(map_sched, 'a) simulator \<Rightarrow> bool" where
  "map_sim_inv \<equiv> sim_inv map_invar map_events (\<lambda>_. 0)"

abbreviation cal_sim_inv :: "(calendar, 'a) simulator \<Rightarrow> bool" where
  "cal_sim_inv \<equiv> sim_inv cal_invar cal_events (\<lambda>c. unat (cal_lastPrio c))"

lemma map_init: "map_invar MapScheduler_init" "map_events MapScheduler_init = {#}"
  by (simp_all add: MapScheduler_init_def map_invar_def)

lemma cal_init: "unat (cal_lastPrio (CalendarScheduler_init r)) = 0"
  by (simp add: CalendarScheduler_init_invar)

lemma heap_init: "heap_invar HeapScheduler_init" "heap_events HeapScheduler_init = {#}"
  by (simp_all add: HeapScheduler_init_def heap_invar_def heap_ok_def heap_events_def)

lemmas map_first = msim.first_Schedule [OF map_init refl]
lemmas cal_first = csim.first_Schedule [OF CalendarScheduler_init_invar(1,2) cal_init]

text \<open>Event code used below: each event counts itself and schedules one more at the same time.\<close>

definition ping :: "('s, nat) notify" where
  "ping im app s = (app + 1, [CallScheduleNow 7])"

lemma ping_ok: "notify_ok ops invar events floor_ts 1 ping"
  by (auto simp: notify_ok_def ping_def)

section \<open>Runs\<close>

text \<open>
  C1: a run on the default scheduler never fails an assertion.  From a consistent state and
  with event code that respects the simulator's interface, \<^verbatim>\<open>Run\<close> ends with no
  pending event or because it was stopped, or has executed as many events as it was given
  fuel; the state it leaves is consistent again.
\<close>

theorem map_Run_safe:
  assumes "map_sim_inv s" and "m_eventsWithContextEmpty s"
    and "notify_ok map_ops map_invar map_events (\<lambda>_. 0) b notify"
    and "unat (m_uid s) + fuel * b \<le> max_uid"
  shows "case sim_Run map_ops notify fuel s of
      RunFault \<Rightarrow> False
    | RunDone s' \<Rightarrow> map_sim_inv s' \<and> (m_events s' = [] \<or> m_stop s')
    | RunFuel s' \<Rightarrow> map_sim_inv s' \<and> m_eventCount s' = m_eventCount s + of_nat fuel"
  using msim.Run_post [OF assms]
  by (auto simp: msim.run_post_def map_events_def split: run_result.splits)

theorem map_Run_safe_witness:
  "\<exists>i s. sim_Schedule map_ops 10 7 (DefaultSimulatorImpl_init MapScheduler_init (0 :: nat)) = Some (i, s)
    \<and> (case sim_Run map_ops ping 5 s of
        RunFault \<Rightarrow> False
      | RunDone s' \<Rightarrow> map_sim_inv s' \<and> (m_events s' = [] \<or> m_stop s')
      | RunFuel s' \<Rightarrow> map_sim_inv s' \<and> m_eventCount s' = m_eventCount s + of_nat 5)"
proof -
  obtain i s where s: "sim_Schedule map_ops 10 7 (DefaultSimulatorImpl_init MapScheduler_init (0 :: nat)) = Some (i, s)"
    "map_sim_inv s" "m_eventsWithContextEmpty s" "unat (m_uid s) = 5"
    using map_first [of 0] by blast
  then show ?thesis using map_Run_safe [OF s(2,3) ping_ok, of 5] by (auto simp: max_uid_def)
qed

text \<open>
  C13: on the calendar queue, events run in order.  Over any run, the position of the clock
  (time stamp first, then unique id) increases strictly from event to event: no event runs
  before one with an earlier time stamp, and events of the same time run in the order they
  were scheduled.
\<close>

theorem cal_Run_in_order:
  assumes "cal_sim_inv s" and "m_eventsWithContextEmpty s"
    and "notify_ok cal_ops cal_invar cal_events (\<lambda>c. unat (cal_lastPrio c)) b notify"
    and "unat (m_uid s) + n * b \<le> max_uid"
  shows "sorted_wrt (\<lambda>s1 s2. m_currentTs s1 < m_currentTs s2 \<or>
      (m_currentTs s1 = m_currentTs s2 \<and> m_currentUid s1 < m_currentUid s2))
    (s # sim_trace cal_ops notify n s)"
proof -
  have "sorted_wrt (<) (map cur_rank (s # sim_trace cal_ops notify n s))"
    by (rule csim.trace_sorted [OF assms])
  moreover have "cur_rank s1 < cur_rank s2 \<longleftrightarrow> m_currentTs s1 < m_currentTs s2 \<or>
      (m_currentTs s1 = m_currentTs s2 \<and> m_currentUid s1 < m_currentUid s2)"
    for s1 s2 :: "(calendar, 'a) simulator"
    unfolding cur_rank_def key_less_rank [symmetric] key_less_def by auto
  ultimately show ?thesis by (simp add: sorted_wrt_map)
qed

theorem cal_Run_in_order_witness:
  "\<exists>i s. sim_Schedule cal_ops 10 7 (DefaultSimulatorImpl_init (CalendarScheduler_init False) (0 :: nat)) = Some (i, s)
    \<and> sorted_wrt (\<lambda>s1 s2. m_currentTs s1 < m_currentTs s2 \<or>
        (m_currentTs s1 = m_currentTs s2 \<and> m_currentUid s1 < m_currentUid s2))
      (s # sim_trace cal_ops ping 5 s)"
proof -
  obtain i s where s:
    "sim_Schedule cal_ops 10 7 (DefaultSimulatorImpl_init (CalendarScheduler_init False) (0 :: nat)) = Some (i, s)"
    "cal_sim_inv s" "m_eventsWithContextEmpty s" "unat (m_uid s) = 5"
    using cal_first [of False 0] by blast
  then show ?thesis using cal_Run_in_order [OF s(2,3) ping_ok, of 5] by (auto simp: max_uid_def)
qed

text \<open>
  Runs come to an end when the event code schedules nothing.  With as much fuel as there
  are pending events, the loop of \<^verbatim>\<open>Run\<close> over the priority-queue scheduler
  returns, every pending event has been executed, and the event counter says how many.
\<close>

theorem pq_Run_terminates:
  assumes "sim_inv pq_invar mset (\<lambda>_. 0) s" and "m_eventsWithContextEmpty s" and "\<not> m_stop s"
    and "\<And>im app s. snd (notify im app s) = []" and "length (m_events s) \<le> fuel"
  shows "\<exists>s'. sim_Run_loop pq_ops notify fuel s = RunDone s' \<and> m_events s' = []
     \<and> m_eventCount s' = m_eventCount s + of_nat (length (m_events s))"
  using qsim.quiet_run [of s notify fuel, OF assms(1,2,3)] assms(4,5) by auto

theorem pq_Run_terminates_witness:
  "\<exists>i s s'. sim_Schedule pq_ops 10 7 (DefaultSimulatorImpl_init PriorityQueueScheduler_init ()) = Some (i, s)
     \<and> sim_Run_loop pq_ops (\<lambda>im app s. (app, [])) 3 s = RunDone s' \<and> m_events s' = []
     \<and> m_eventCount s' = m_eventCount s + of_nat (length (m_events s))"
proof -
  have q: "pq_invar PriorityQueueScheduler_init" "mset PriorityQueueScheduler_init = {#}"
    by (simp_all add: PriorityQueueScheduler_init_def pq_invar_def)
  obtain i s where s:
    "sim_Schedule pq_ops 10 7 (DefaultSimulatorImpl_init PriorityQueueScheduler_init ()) = Some (i, s)"
    "sim_inv pq_invar mset (\<lambda>_. 0) s" "m_eventsWithContextEmpty s" "\<not> m_stop s"
    "mset (m_events s) = {#id_event i#}"
    using qsim.first_Schedule [OF q refl, of "()"] by blast
  have "length (m_events s) = 1" using s(5) by (metis size_mset size_single)
  then show ?thesis
    using pq_Run_terminates [OF s(2-4), of "\<lambda>im app s. (app, [])" 3] s(1) by auto
qed

section \<open>Event identifiers\<close>

text \<open>
  The test \<^verbatim>\<open>IsExpired\<close> is exact.  For an identifier that
  \<^verbatim>\<open>Schedule\<close> has given out, \<^verbatim>\<open>IsExpired\<close> is false exactly when the
  event it names is still in the schedule and has not been cancelled, though the test looks
  at the clock only.
\<close>

theorem map_IsExpired_exact:
  assumes "map_sim_inv s" and "genuine map_events s i" and "id_uid i \<noteq> UID_DESTROY"
  shows "\<not> sim_IsExpired s i \<longleftrightarrow>
    (ev_key (id_event i), id_impl i) \<in> set (m_events s) \<and> \<not> m_cancel s (id_impl i)"
  using msim.IsExpired_exact [OF assms] by (simp add: in_map_events)

theorem map_IsExpired_exact_witness:
  "\<exists>i s. sim_Schedule map_ops 10 7 (DefaultSimulatorImpl_init MapScheduler_init ()) = Some (i, s)
     \<and> id_impl i = 7 \<and> (\<not> sim_IsExpired s i \<longleftrightarrow>
      (ev_key (id_event i), id_impl i) \<in> set (m_events s) \<and> \<not> m_cancel s (id_impl i))"
proof -
  obtain i s where s: "sim_Schedule map_ops 10 7 (DefaultSimulatorImpl_init MapScheduler_init ()) = Some (i, s)"
    "map_sim_inv s" "i = \<lparr>id_impl = 7, id_ts = 10, id_context = NO_CONTEXT, id_uid = 4\<rparr>"
    "map_events (m_events s) = {#id_event i#}"
    using map_first [of "()"] by blast
  have "genuine map_events s i" using s(4) by (simp add: genuine_def)
  then show ?thesis using map_IsExpired_exact [OF s(2), of i] s(1,3) by auto
qed

text \<open>
  An identifier stays good for the whole simulation.  The identifier that
  \<^verbatim>\<open>Schedule\<close> returns names the scheduled event: after any run from there it names
  an event that is still pending or it has expired, and so it may be passed to
  \<^verbatim>\<open>Cancel\<close>, \<^verbatim>\<open>Remove\<close> and \<^verbatim>\<open>IsExpired\<close> at any time.
\<close>

theorem cal_id_stays_genuine:
  assumes "cal_sim_inv s" and "delay_ok s d" and "im \<noteq> nullptr"
    and "notify_ok cal_ops cal_invar cal_events (\<lambda>c. unat (cal_lastPrio c)) b notify"
    and "m_eventsWithContextEmpty s" and "unat (m_uid s) + 1 + fuel * b \<le> max_uid"
  shows "\<exists>i s1. sim_Schedule cal_ops d im s = Some (i, s1)
     \<and> id_ts i = d + m_currentTs s \<and> id_uid i = m_uid s
     \<and> cal_events (m_events s1) = add_mset (id_event i) (cal_events (m_events s))
     \<and> (case sim_Run cal_ops notify fuel s1 of
          RunFault \<Rightarrow> False
        | RunDone s2 \<Rightarrow> genuine cal_events s2 i
        | RunFuel s2 \<Rightarrow> genuine cal_events s2 i)"
proof -
  have "unat (m_uid s) < max_uid" using assms(6) by simp
  from csim.Schedule_ok [OF assms(1-3) this] obtain i s1 where s1:
    "sim_Schedule cal_ops d im s = Some (i, s1)" "cal_sim_inv s1" "same_clock s s1"
    "id_ts i = d + m_currentTs s" "id_uid i = m_uid s" "unat (m_uid s1) = unat (m_uid s) + 1"
    "cal_events (m_events s1) = add_mset (id_event i) (cal_events (m_events s))"
    by auto
  have gen: "genuine cal_events s1 i" by (simp add: genuine_def s1(7))
  have "m_eventsWithContextEmpty s1" using assms(5) s1(3) by (simp add: same_clock_def)
  then have "csim.run_post fuel s1 (sim_Run cal_ops notify fuel s1)"
    using csim.Run_post [OF s1(2) _ assms(4)] assms(6) s1(6) by simp
  then show ?thesis
    using s1 genuine_evolves [OF gen] by (auto simp: csim.run_post_def split: run_result.splits)
qed

theorem cal_id_stays_genuine_witness:
  "\<exists>i s1. sim_Schedule cal_ops 10 7 (DefaultSimulatorImpl_init (CalendarScheduler_init True) 0) = Some (i, s1)
     \<and> id_ts i = 10 + 0 \<and> id_uid i = 4
     \<and> cal_events (m_events s1) = add_mset (id_event i) {#}
     \<and> (case sim_Run cal_ops ping 4 s1 of
          RunFault \<Rightarrow> False
        | RunDone s2 \<Rightarrow> genuine cal_events s2 i
        | RunFuel s2 \<Rightarrow> genuine cal_events s2 i)"
proof -
  let ?s = "DefaultSimulatorImpl_init (CalendarScheduler_init True) (0 :: nat)"
  have i: "cal_sim_inv ?s" by (rule init_inv) (simp_all add: CalendarScheduler_init_invar)
  have v: "m_currentTs ?s = 0" "m_uid ?s = 4" "m_eventsWithContextEmpty ?s"
    "cal_events (m_events ?s) = {#}" "delay_ok ?s 10" "unat (m_uid ?s) + 1 + 4 * 1 \<le> max_uid"
    by (simp_all add: DefaultSimulatorImpl_init_def CalendarScheduler_init_invar delay_ok_def
        ts_limit_def max_uid_def)
  show ?thesis
    using cal_id_stays_genuine [OF i v(5) _ ping_ok v(3,6), of 7] unfolding v by simp
qed

text \<open>
  C31: \<^verbatim>\<open>Remove\<close> takes exactly the named event out of the schedule, and nothing
  when the identifier has expired; afterwards the identifier has expired, and no assertion of
  the simulator or of the scheduler fails.
\<close>

theorem cal_Remove_exact:
  assumes "cal_sim_inv s" and "genuine cal_events s i" and "id_uid i \<noteq> UID_DESTROY"
  shows "\<exists>s'. sim_Remove cal_ops i s = Some s' \<and> cal_sim_inv s' \<and> sim_IsExpired s' i
     \<and> cal_events (m_events s') = (if sim_IsExpired s i then cal_events (m_events s)
                                   else cal_events (m_events s) - {#id_event i#})"
  using csim.Remove_ok [OF assms(1,2)] assms(3) by auto

theorem cal_Remove_exact_witness:
  "\<exists>i s s'. sim_Schedule cal_ops 10 7 (DefaultSimulatorImpl_init (CalendarScheduler_init True) ()) = Some (i, s)
     \<and> sim_Remove cal_ops i s = Some s' \<and> sim_IsExpired s' i \<and> cal_events (m_events s') = {#}"
proof -
  obtain i s where s:
    "sim_Schedule cal_ops 10 7 (DefaultSimulatorImpl_init (CalendarScheduler_init True) ()) = Some (i, s)"
    "cal_sim_inv s" "i = \<lparr>id_impl = 7, id_ts = 10, id_context = NO_CONTEXT, id_uid = 4\<rparr>"
    "cal_events (m_events s) = {#id_event i#}" "\<not> m_cancel s 7"
    using cal_first [of True "()"] by blast
  have g: "genuine cal_events s i" "id_uid i \<noteq> UID_DESTROY" using s(3,4) by (simp_all add: genuine_def)
  have "\<not> sim_IsExpired s i" using csim.IsExpired_exact [OF s(2) g] s(3-5) by simp
  then show ?thesis using cal_Remove_exact [OF s(2) g] s(1,4) by auto
qed

section \<open>Schedulers\<close>

text \<open>
  C14: the five schedulers are interchangeable.  Any events with different unique ids, inserted
  in any order into an empty scheduler and taken out with \<^verbatim>\<open>RemoveNext\<close>, come out
  of the list, the map, the heap, the priority queue and the calendar queue, forward or
  reverse, in the same sequence: all of them, sorted by time stamp and unique id.
\<close>

theorem schedulers_agree:
  assumes "uniq_uids (mset evs)" and "length evs \<le> max_pending"
    and "\<And>e. e \<in> set evs \<Longrightarrow> unat (ev_ts e) < ts_limit"
  shows "\<exists>out. mset out = mset evs \<and> sorted_wrt event_less out
     \<and> schedule_order list_ops ListScheduler_init evs = Some out
     \<and> schedule_order map_ops MapScheduler_init evs = Some out
     \<and> schedule_order heap_ops HeapScheduler_init evs = Some out
     \<and> schedule_order pq_ops PriorityQueueScheduler_init evs = Some out
     \<and> schedule_order cal_ops (CalendarScheduler_init r) evs = Some out"
proof -
  have l: "\<exists>out. schedule_order list_ops ListScheduler_init evs = Some out \<and> mset out = mset evs
      \<and> sorted_wrt event_less out"
    using ls.schedule_order_ok [of ListScheduler_init evs] assms
    by (simp add: ListScheduler_init_def list_invar_def)
  have m: "\<exists>out. schedule_order map_ops MapScheduler_init evs = Some out \<and> mset out = mset evs
      \<and> sorted_wrt event_less out"
    using ms.schedule_order_ok [of MapScheduler_init evs] assms by (simp add: map_init)
  have h: "\<exists>out. schedule_order heap_ops HeapScheduler_init evs = Some out \<and> mset out = mset evs
      \<and> sorted_wrt event_less out"
    using hs.schedule_order_ok [of HeapScheduler_init evs] assms by (simp add: heap_init)
  have p: "\<exists>out. schedule_order pq_ops PriorityQueueScheduler_init evs = Some out \<and> mset out = mset evs
      \<and> sorted_wrt event_less out"
    using pqs.schedule_order_ok [of PriorityQueueScheduler_init evs] assms
    by (simp add: PriorityQueueScheduler_init_def pq_invar_def)
  have c: "\<exists>out. schedule_order cal_ops (CalendarScheduler_init r) evs = Some out \<and> mset out = mset evs
      \<and> sorted_wrt event_less out"
    using cs.schedule_order_ok [of "CalendarScheduler_init r" evs] assms
    by (simp add: CalendarScheduler_init_invar)
  from l m h p c show ?thesis by (metis sorted_events_unique)
qed

text \<open>Seven events, in the order in which they fill the heap level by level.\<close>

definition demo_event :: "u32 \<Rightarrow> u64 \<Rightarrow> event" where
  "demo_event uid ts = \<lparr>ev_impl = 7, ev_key = \<lparr>key_ts = ts, key_uid = uid, key_context = 0\<rparr>\<rparr>"

definition demo_events :: "event list" where
  "demo_events = [demo_event 4 1, demo_event 5 10, demo_event 6 2, demo_event 7 11,
     demo_event 8 12, demo_event 9 30, demo_event 10 3]"

lemma demo_events_ok:
  "uniq_uids (mset demo_events)" "length demo_events \<le> max_pending"
  "e \<in> set demo_events \<Longrightarrow> unat (ev_ts e) < ts_limit"
  by (auto simp: demo_events_def demo_event_def uniq_uids_def max_pending_def ts_limit_def fresh_uid_def)

theorem schedulers_agree_witness:
  "\<exists>out. mset out = mset demo_events \<and> sorted_wrt event_less out
     \<and> schedule_order list_ops ListScheduler_init demo_events = Some out
     \<and> schedule_order map_ops MapScheduler_init demo_events = Some out
     \<and> schedule_order heap_ops HeapScheduler_init demo_events = Some out
     \<and> schedule_order pq_ops PriorityQueueScheduler_init demo_events = Some out
     \<and> schedule_order cal_ops (CalendarScheduler_init True) demo_events = Some out"
  by (rule schedulers_agree [OF demo_events_ok])

text \<open>
  C6: the calendar queue always gives out the earliest event.  Whatever the bucket width, the
  number of buckets and the day the search starts from, and though the day boundary may wrap
  around 64 bits, \<^verbatim>\<open>RemoveNext\<close> returns a pending event that no pending event
  precedes, takes out that event only, and \<^verbatim>\<open>PeekNext\<close> announces the same one;
  the resizing that may follow loses nothing.
\<close>

theorem cal_RemoveNext_earliest:
  assumes "cal_invar c" and "cal_events c \<noteq> {#}"
  shows "\<exists>ev c'. cal_RemoveNext c = Some (ev, c') \<and> cal_PeekNext c = Some ev
     \<and> ev \<in># cal_events c \<and> (\<forall>e \<in># cal_events c. \<not> event_less e ev)
     \<and> cal_events c' = cal_events c - {#ev#} \<and> cal_invar c'"
proof -
  obtain ev c' where rm: "cal_RemoveNext c = Some (ev, c')" "is_next ev (cal_events c)" "cal_invar c'"
    "cal_events c' = cal_events c - {#ev#}"
    using cs.RemoveNext_law [OF assms] by (auto simp: cal_ops_def)
  moreover have "cal_PeekNext c = Some ev"
    using cs.Peek_Remove_agree [OF assms(1) _ assms(2)] rm(1) by (simp add: cal_ops_def)
  ultimately show ?thesis by (auto simp: is_next_def)
qed

theorem cal_RemoveNext_earliest_witness:
  "\<exists>c ev c'. insert_all cal_ops demo_events (CalendarScheduler_init False) = Some c
     \<and> cal_RemoveNext c = Some (ev, c') \<and> cal_PeekNext c = Some ev
     \<and> ev \<in># mset demo_events \<and> (\<forall>e \<in># mset demo_events. \<not> event_less e ev)
     \<and> cal_events c' = mset demo_events - {#ev#} \<and> cal_invar c'"
proof -
  obtain c where c: "insert_all cal_ops demo_events (CalendarScheduler_init False) = Some c"
    "cal_invar c" "cal_events c = mset demo_events"
    using cs.insert_all_ok [of "CalendarScheduler_init False" demo_events] demo_events_ok
    by (auto simp: CalendarScheduler_init_invar)
  moreover have "cal_events c \<noteq> {#}" by (simp add: c(3) demo_events_def)
  ultimately show ?thesis using cal_RemoveNext_earliest [of c] by simp
qed

text \<open>
  C38: \<^verbatim>\<open>SetScheduler\<close> moves a simulation to another scheduler.  Changing from the
  map to the calendar queue in the middle of a simulation fails no assertion, and the
  simulator goes on with the same pending events and in a consistent state.
\<close>

theorem map_to_cal_SetScheduler:
  assumes "map_sim_inv s" and "length (m_events s) \<le> max_pending" and "length (m_events s) \<le> fuel"
  shows "\<exists>s'. sim_SetScheduler map_ops cal_ops (CalendarScheduler_init r) fuel s = Some s'
     \<and> cal_sim_inv s' \<and> cal_events (m_events s') = map_events (m_events s) \<and> m_uid s' = m_uid s"
proof -
  have "size (map_events (m_events s)) = length (m_events s)" by (simp add: map_events_def)
  then show ?thesis
    using map_to_cal.SetScheduler_ok [OF assms(1), of "CalendarScheduler_init r" fuel] assms(2,3)
    by (auto simp: CalendarScheduler_init_invar)
qed

theorem map_to_cal_SetScheduler_witness:
  "\<exists>i s s'. sim_Schedule map_ops 10 7 (DefaultSimulatorImpl_init MapScheduler_init ()) = Some (i, s)
     \<and> sim_SetScheduler map_ops cal_ops (CalendarScheduler_init True) 4 s = Some s'
     \<and> cal_sim_inv s' \<and> cal_events (m_events s') = {#id_event i#} \<and> m_uid s' = m_uid s"
proof -
  obtain i s where s: "sim_Schedule map_ops 10 7 (DefaultSimulatorImpl_init MapScheduler_init ()) = Some (i, s)"
    "map_sim_inv s" "map_events (m_events s) = {#id_event i#}"
    using map_first [of "()"] by blast
  have "length (m_events s) = 1"
    using s(3) by (metis map_events_def size_image_mset size_mset size_single)
  then show ?thesis using map_to_cal_SetScheduler [OF s(2), of 4 True] s by (auto simp: max_pending_def)
qed

text \<open>
  An example of what the property below says.  With seven events pending, removing the one at
  time 11 leaves a heap from which the event at time 10 is taken before the one at time 3, so
  that the time of the simulation would go back.
\<close>

lemma heap_Remove_example:
  "(do { h \<leftarrow> insert_all heap_ops demo_events HeapScheduler_init;
         h' \<leftarrow> heap_Remove (demo_event 7 11) h;
         (out, _) \<leftarrow> drain heap_ops 6 h';
         Some (map ev_ts out) }) = Some [1, 2, 10, 3, 12, 30]"
  by code_simp

text \<open>
  C40: exactly when \<^verbatim>\<open>Remove\<close> of the heap scheduler breaks the heap.  It finds every pending
  event by its unique id, fails no assertion and takes exactly that event out.  The last event of
  the vector moves into its place and is sifted down, never up; the heap is in order afterwards if
  and only if the removed event was the root or the last one, or the moved event does not precede
  the parent of its new place.
\<close>

theorem heap_Remove_order:
  assumes "heap_invar h" and "ev \<in># heap_events h"
  shows "\<exists>i h'. 1 \<le> i \<and> i < length h \<and> h ! i = ev \<and> heap_Remove ev h = Some h'
     \<and> heap_events h' = heap_events h - {#ev#}
     \<and> (heap_invar h' \<longleftrightarrow> i = 1 \<or> i = heap_Last h \<or> \<not> event_less (h ! heap_Last h) (h ! heap_Parent i))"
  using heap_Remove_pending [OF assms] by (auto simp: event_less_rank heap_Parent_def not_less)

definition demo_heap :: heap_sched where
  "demo_heap = [demo_event 0 0, demo_event 4 1, demo_event 5 10, demo_event 6 2, demo_event 7 11, demo_event 8 12, demo_event 9 3]"

lemma demo_heap_invar: "heap_invar demo_heap"
proof -
  have "\<not> event_less (demo_heap ! i) (demo_heap ! (i div 2))" if "2 \<le> i" "i < 7" for i
  proof -
    have "i \<in> {2, 3, 4, 5, 6}" using that by auto
    then show ?thesis by (auto simp: demo_heap_def event_less_def key_less_def demo_event_def)
  qed
  then have "heap_ok demo_heap" by (auto simp: heap_ok_def event_less_rank not_less demo_heap_def)
  moreover have "uniq_uids (heap_events demo_heap)" by (simp add: heap_events_def uniq_uids_def demo_heap_def demo_event_def)
  ultimately show ?thesis by (simp add: heap_invar_def demo_heap_def)
qed

theorem heap_Remove_order_witness:
  "\<exists>h'. heap_Remove (demo_event 7 11) demo_heap = Some h' \<and> size (heap_events h') = 5 \<and> \<not> heap_invar h'"
proof -
  have mem: "demo_event 7 11 \<in># heap_events demo_heap" by (simp add: heap_events_def demo_heap_def)
  obtain i h' where r: "1 \<le> i" "i < length demo_heap" "demo_heap ! i = demo_event 7 11"
    "heap_Remove (demo_event 7 11) demo_heap = Some h'" "heap_events h' = heap_events demo_heap - {#demo_event 7 11#}"
    "heap_invar h' \<longleftrightarrow> i = 1 \<or> i = heap_Last demo_heap \<or> \<not> event_less (demo_heap ! heap_Last demo_heap) (demo_heap ! heap_Parent i)"
    using heap_Remove_order [OF demo_heap_invar mem] by blast
  have "i \<in> {1, 2, 3, 4, 5, 6}" using r(1,2) by (auto simp: demo_heap_def)
  then have i: "i = 4" using r(3) by (auto simp: demo_heap_def demo_event_def)
  have "event_less (demo_heap ! heap_Last demo_heap) (demo_heap ! heap_Parent 4)" "heap_Last demo_heap = 6"
    by (simp_all add: demo_heap_def heap_Last_def heap_Parent_def event_less_def key_less_def demo_event_def)
  then have "\<not> heap_invar h'" using r(6) i by simp
  moreover have "size (heap_events h') = 5" using r(5) mem by (simp add: size_Diff_singleton) (simp add: heap_events_def demo_heap_def)
  ultimately show ?thesis using r(4) by blast
qed

end
