(* ===== verification/Int64x64.thy ===== *)
theory Int64x64
  imports Prelude
begin

text \<open>
  The fixed-point type \<^verbatim>\<open>int64x64_t\<close> on 128-bit integers
  (src/core/model/int64x64-128.h and .cc), used for the exact arithmetic of simulation
  time.  A value is a 128-bit word \<open>_v\<close>: 64 integer bits, 64 fraction bits, two's
  complement.  The lemmas show that multiplication and division are exact up to the last
  fraction bit, and what the reciprocal of \<^verbatim>\<open>Invert\<close> is good for.
\<close>

unbundle bit_operations_syntax

type_synonym u128 = "128 word"

definition HP128_MASK_HI_BIT :: u128 where
  "HP128_MASK_HI_BIT = push_bit 127 1"

definition HP_MASK_LO :: u128 where
  "HP_MASK_LO = 0xffffffffffffffff"

section \<open>Construction and access\<close>

text \<open>The constructor from an integer and the one from the two halves.\<close>

definition int64x64_of_int :: "u64 \<Rightarrow> u128" where
  "int64x64_of_int v = push_bit 64 (scast v)"

definition int64x64_of_parts :: "u64 \<Rightarrow> u64 \<Rightarrow> u128" where
  "int64x64_of_parts hi lo = push_bit 64 (scast hi) OR ucast lo"

definition int64x64_GetHigh :: "u128 \<Rightarrow> u64" where
  "int64x64_GetHigh v = ucast (signed_drop_bit 64 v)"

definition int64x64_GetLow :: "u128 \<Rightarrow> u64" where
  "int64x64_GetLow v = ucast (v AND HP_MASK_LO)"

text \<open>Signed addition, subtraction and negation; an overflow of the 128 bits is undefined.\<close>

definition int128 :: "int \<Rightarrow> u128 option" where
  "int128 x = (if - (2 ^ 127) \<le> x \<and> x < 2 ^ 127 then Some (word_of_int x) else None)"

definition int64x64_add :: "u128 \<Rightarrow> u128 \<Rightarrow> u128 option" where
  "int64x64_add lhs rhs = int128 (sint lhs + sint rhs)"

definition int64x64_sub :: "u128 \<Rightarrow> u128 \<Rightarrow> u128 option" where
  "int64x64_sub lhs rhs = int128 (sint lhs - sint rhs)"

definition int64x64_neg :: "u128 \<Rightarrow> u128 option" where
  "int64x64_neg lhs = int128 (- sint lhs)"

definition int64x64_less :: "u128 \<Rightarrow> u128 \<Rightarrow> bool" where
  "int64x64_less lhs rhs \<longleftrightarrow> sint lhs < sint rhs"

definition int64x64_GetInt :: "u128 \<Rightarrow> u64 option" where
  "int64x64_GetInt v = do {
     let negative = sint v < 0;
     value \<leftarrow> (if negative then int64x64_neg v else Some v);
     let retval = ucast (drop_bit 64 value);
     Some (if negative then - retval else retval)
   }"

definition int64x64_Round :: "u128 \<Rightarrow> u64 option" where
  "int64x64_Round v = do {
     let negative = sint v < 0;
     value \<leftarrow> (if negative then int64x64_neg v else Some v);
     value' \<leftarrow> int64x64_add value (int64x64_of_parts 0 (push_bit 63 1));
     let retval = int64x64_GetHigh value';
     Some (if negative then - retval else retval)
   }"

section \<open>Multiplication\<close>

definition output_sign :: "u128 \<Rightarrow> u128 \<Rightarrow> bool \<times> u128 \<times> u128" where
  "output_sign sa sb =
     (let negA = sint sa < 0; negB = sint sb < 0
      in (negA \<noteq> negB, if negA then - sa else sa, if negB then - sb else sb))"

definition int64x64_Umul :: "u128 \<Rightarrow> u128 \<Rightarrow> u128 option" where
  "int64x64_Umul a b = do {
     let al = a AND HP_MASK_LO;
     let bl = b AND HP_MASK_LO;
     let ah = drop_bit 64 a;
     let bh = drop_bit 64 b;
     let res = drop_bit 64 (al * bl);
     let mid = ah * bl + al * bh;
     let res = res + mid;
     let high = ah * bh;
     ns_assert (high \<le> push_bit 63 1);
     let high = push_bit 64 high;
     ns_assert (res + high \<ge> res);
     Some (res + high)
   }"

definition int64x64_Mul :: "u128 \<Rightarrow> u128 \<Rightarrow> u128 option" where
  "int64x64_Mul v o_v = do {
     let (negative, a, b) = output_sign v o_v;
     result \<leftarrow> int64x64_Umul a b;
     if negative
     then do { ns_assert (result \<le> HP128_MASK_HI_BIT); Some (- result) }
     else do { ns_assert (result < HP128_MASK_HI_BIT); Some result }
   }"

section \<open>Division\<close>

text \<open>Skip trailing zeros in the divisor.\<close>

function udiv_skip_den :: "nat \<Rightarrow> u128 \<Rightarrow> nat \<times> u128" where
  "udiv_skip_den shift den =
     (if shift < 64 \<and> den AND 1 = 0 then udiv_skip_den (shift + 1) (drop_bit 1 den)
      else (shift, den))"
  by pat_completeness auto
termination by (relation "measure (\<lambda>(shift, _). 64 - shift)") auto

text \<open>Skip leading zeros in the remainder.\<close>

function udiv_skip_rem :: "nat \<Rightarrow> nat \<Rightarrow> u128 \<Rightarrow> nat \<times> u128" where
  "udiv_skip_rem digis shift rem =
     (if digis + shift < 64 \<and> rem AND HP128_MASK_HI_BIT = 0
      then udiv_skip_rem digis (shift + 1) (push_bit 1 rem)
      else (shift, rem))"
  by pat_completeness auto
termination by (relation "measure (\<lambda>(digis, shift, _). 64 - (digis + shift))") auto

text \<open>Cast off denominator bits.\<close>

function udiv_cast_off :: "nat \<Rightarrow> nat \<Rightarrow> u128 \<Rightarrow> u128 \<Rightarrow> nat \<times> u128" where
  "udiv_cast_off digis shift rem den =
     (if digis + shift < 64 \<and> (den AND 1 = 0 \<or> rem < den)
      then udiv_cast_off digis (shift + 1) rem (drop_bit 1 den)
      else (shift, den))"
  by pat_completeness auto
termination by (relation "measure (\<lambda>(digis, shift, _). 64 - (digis + shift))") auto

text \<open>
  The loop that produces the fraction, one round for each group of quotient bits, and the
  shift that is left when the remainder is used up.  \<open>None\<close> is fuel that ran out or a
  division by zero.
\<close>

fun udiv_rounds :: "nat \<Rightarrow> nat \<Rightarrow> nat \<Rightarrow> u128 \<Rightarrow> u128 \<Rightarrow> u128 \<Rightarrow> u128 option" where
  "udiv_rounds fuel digis shift rem den result =
     (if digis < 64 \<and> rem \<noteq> 0
      then (case fuel of
          0 \<Rightarrow> None
        | Suc n \<Rightarrow>
            (let (shift, rem) = udiv_skip_rem digis shift rem;
                 (shift, den) = udiv_cast_off digis shift rem den
             in if den = 0 then None
                else udiv_rounds n (digis + shift) 0 (rem mod den) den
                       (push_bit shift result + rem div den)))
      else Some (if digis < 64 then push_bit (64 - digis) result else result))"

definition int64x64_Udiv :: "u128 \<Rightarrow> u128 \<Rightarrow> u128 option" where
  "int64x64_Udiv a b =
     (if b = 0 then None
      else do {
        let quo = a div b;
        let rem = a mod b;
        ns_assert (rem < b);
        let (shift, den) = udiv_skip_den 0 b;
        udiv_rounds 64 0 shift rem den quo
      })"

definition int64x64_Div :: "u128 \<Rightarrow> u128 \<Rightarrow> u128 option" where
  "int64x64_Div v o_v = do {
     let (negative, a, b) = output_sign v o_v;
     result \<leftarrow> int64x64_Udiv a b;
     if negative then int64x64_neg result else Some result
   }"

section \<open>Multiplication by a reciprocal\<close>

definition int64x64_UmulByInvert :: "u128 \<Rightarrow> u128 \<Rightarrow> u128 option" where
  "int64x64_UmulByInvert a b = do {
     ns_assert (b \<le> HP128_MASK_HI_BIT);
     let al = a AND HP_MASK_LO;
     let bl = b AND HP_MASK_LO;
     let ah = drop_bit 64 a;
     let bh = drop_bit 64 b;
     let high = ah * bh;
     let mid = ah * bl + al * bh;
     let mid = drop_bit 64 mid;
     Some (high + mid)
   }"

definition int64x64_MulByInvert :: "u128 \<Rightarrow> u128 \<Rightarrow> u128 option" where
  "int64x64_MulByInvert v o_v = do {
     let negResult = sint v < 0;
     let a = (if negResult then - v else v);
     result \<leftarrow> int64x64_UmulByInvert a o_v;
     Some (if negResult then - result else result)
   }"

definition int64x64_Invert :: "u64 \<Rightarrow> u128 option" where
  "int64x64_Invert v = do {
     ns_assert (v > 1);
     let a = push_bit 64 1;
     result \<leftarrow> int64x64_Udiv a (ucast v);
     let tmp = int64x64_of_parts v 0;
     tmp' \<leftarrow> int64x64_MulByInvert tmp result;
     if int64x64_GetHigh tmp' \<noteq> 1 then int128 (sint result + 1) else Some result
   }"

declare udiv_skip_den.simps [simp del] udiv_skip_rem.simps [simp del] udiv_cast_off.simps [simp del]
  udiv_rounds.simps [simp del]

section \<open>Halves\<close>

lemma unat_lo [simp]: "unat (a AND HP_MASK_LO) = unat a mod 2 ^ 64"
proof -
  have "HP_MASK_LO = mask 64" by (simp add: HP_MASK_LO_def mask_eq_exp_minus_1)
  then have "a AND HP_MASK_LO = take_bit 64 a" by (simp only: take_bit_eq_mask)
  then have "unat (a AND HP_MASK_LO) = take_bit 64 (unat a)" by (simp only: unsigned_take_bit_eq)
  then show ?thesis by (simp only: take_bit_eq_mod)
qed

lemma unat_hi [simp]: "unat (drop_bit 64 (a :: u128)) = unat a div 2 ^ 64"
proof -
  have "unat a < 2 ^ 128" using unsigned_less [of a] by simp
  then have "take_bit LENGTH(128) (unat a) = unat a" by (simp add: take_bit_nat_eq_self)
  then show ?thesis unfolding unsigned_drop_bit_eq by (simp only: drop_bit_eq_div)
qed

lemma unat_HI_BIT [simp]: "unat HP128_MASK_HI_BIT = 2 ^ 127"
  by (simp add: HP128_MASK_HI_BIT_def push_bit_eq_mult unat_word_ariths)

lemma unat_push_64: "unat (push_bit 64 (x :: u128)) = unat x * 2 ^ 64 mod 2 ^ 128"
  by (simp add: push_bit_eq_mult unat_word_ariths mult.commute)

lemma split_product:
  fixes a b k :: nat
  assumes "0 < k"
  shows "a * b div k = (a div k) * (b div k) * k + ((a div k) * (b mod k) + (a mod k) * (b div k))
    + (a mod k) * (b mod k) div k"
proof -
  let ?m = "(a div k) * (b mod k) + (a mod k) * (b div k)"
  have "a * b = (a div k * k + a mod k) * (b div k * k + b mod k)" by simp
  also have "\<dots> = ((a div k) * (b div k) * k + ?m) * k + (a mod k) * (b mod k)"
    by (simp only: algebra_simps)
  finally show ?thesis using assms by (metis (no_types, lifting) div_mult_self3 add.commute not_gr0)
qed

lemma unat_mult_small: "unat (x :: u128) * unat y < 2 ^ 128 \<Longrightarrow> unat (x * y) = unat x * unat y"
  by (simp add: unat_word_ariths)

lemma unat_add_small: "unat (x :: u128) + unat y < 2 ^ 128 \<Longrightarrow> unat (x + y) = unat x + unat y"
  by (simp add: unat_word_ariths)

text \<open>The parts of the product of two magnitudes fit their words.\<close>

lemma partial_products:
  fixes a b :: u128
  assumes "unat a \<le> 2 ^ 127" and "unat b \<le> 2 ^ 127"
  shows "unat ((a AND HP_MASK_LO) * (b AND HP_MASK_LO)) = (unat a mod 2 ^ 64) * (unat b mod 2 ^ 64)"
    and "unat (drop_bit 64 a * (b AND HP_MASK_LO) + (a AND HP_MASK_LO) * drop_bit 64 b)
      = (unat a div 2 ^ 64) * (unat b mod 2 ^ 64) + (unat a mod 2 ^ 64) * (unat b div 2 ^ 64)"
    and "(unat a div 2 ^ 64) * (unat b mod 2 ^ 64) + (unat a mod 2 ^ 64) * (unat b div 2 ^ 64)
      \<le> 2 ^ 128 - 2 ^ 64"
    and "unat (drop_bit 64 a * drop_bit 64 b) = (unat a div 2 ^ 64) * (unat b div 2 ^ 64)"
    and "(unat a div 2 ^ 64) * (unat b div 2 ^ 64) \<le> 2 ^ 126"
proof -
  define al ah bl bh where "al = unat a mod 2 ^ 64" and "ah = unat a div 2 ^ 64"
    and "bl = unat b mod 2 ^ 64" and "bh = unat b div 2 ^ 64"
  have b: "al \<le> 2 ^ 64 - 1" "bl \<le> 2 ^ 64 - 1" by (simp_all add: al_def bl_def)
  have h: "ah \<le> 2 ^ 63" "bh \<le> 2 ^ 63"
    using div_le_mono [OF assms(1), of "2 ^ 64"] div_le_mono [OF assms(2), of "2 ^ 64"]
    by (simp_all add: ah_def bh_def)
  have ll: "al * bl \<le> (2 ^ 64 - 1) * (2 ^ 64 - 1)" by (rule mult_le_mono [OF b])
  have m1: "ah * bl \<le> 2 ^ 63 * (2 ^ 64 - 1)" by (rule mult_le_mono [OF h(1) b(2)])
  have m2: "al * bh \<le> (2 ^ 64 - 1) * 2 ^ 63" by (rule mult_le_mono [OF b(1) h(2)])
  have hh: "ah * bh \<le> 2 ^ 63 * 2 ^ 63" by (rule mult_le_mono [OF h])
  show "unat ((a AND HP_MASK_LO) * (b AND HP_MASK_LO)) = al * bl"
    using ll by (subst unat_mult_small) (simp_all add: al_def bl_def)
  have "unat (drop_bit 64 a * (b AND HP_MASK_LO)) = ah * bl"
    using m1 by (subst unat_mult_small) (simp_all add: ah_def bl_def)
  moreover have "unat ((a AND HP_MASK_LO) * drop_bit 64 b) = al * bh"
    using m2 by (subst unat_mult_small) (simp_all add: al_def bh_def)
  ultimately show "unat (drop_bit 64 a * (b AND HP_MASK_LO) + (a AND HP_MASK_LO) * drop_bit 64 b)
      = ah * bl + al * bh"
    using m1 m2 by (subst unat_add_small) simp_all
  show "ah * bl + al * bh \<le> 2 ^ 128 - 2 ^ 64" using m1 m2 by simp
  show "unat (drop_bit 64 a * drop_bit 64 b) = ah * bh"
    using hh by (subst unat_mult_small) (simp_all add: ah_def bh_def)
  show "ah * bh \<le> 2 ^ 126" using hh by simp
qed

text \<open>
  The unsigned product is exact: the 256-bit product without its 64 lowest bits.  It is
  refused exactly when the product of the integer parts is above \<open>2 ^ 63\<close> or the result
  does not fit.
\<close>

lemma Umul_exact:
  assumes "unat a \<le> 2 ^ 127" and "unat b \<le> 2 ^ 127"
  shows "int64x64_Umul a b = Some r \<longleftrightarrow> unat r = unat a * unat b div 2 ^ 64
    \<and> (unat a div 2 ^ 64) * (unat b div 2 ^ 64) \<le> 2 ^ 63 \<and> unat a * unat b div 2 ^ 64 < 2 ^ 128"
proof -
  note pp = partial_products [OF assms]
  let ?al = "a AND HP_MASK_LO" and ?bl = "b AND HP_MASK_LO"
  let ?ah = "drop_bit 64 a" and ?bh = "drop_bit 64 b"
  define hh where "hh = (unat a div 2 ^ 64) * (unat b div 2 ^ 64)"
  define mid where "mid = (unat a div 2 ^ 64) * (unat b mod 2 ^ 64) + (unat a mod 2 ^ 64) * (unat b div 2 ^ 64)"
  define lo where "lo = (unat a mod 2 ^ 64) * (unat b mod 2 ^ 64) div 2 ^ 64"
  have prod: "unat a * unat b div 2 ^ 64 = hh * 2 ^ 64 + mid + lo"
    unfolding hh_def mid_def lo_def by (rule split_product) simp
  define res where "res = drop_bit 64 (?al * ?bl) + (?ah * ?bl + ?al * ?bh)"
  have lo: "lo < 2 ^ 64"
  proof -
    have "(unat a mod 2 ^ 64) * (unat b mod 2 ^ 64) < 2 ^ 64 * 2 ^ 64" by (intro mult_strict_mono) simp_all
    then show ?thesis unfolding lo_def by (simp add: less_mult_imp_div_less)
  qed
  have res: "unat res = lo + mid"
    using pp(1-3) lo unfolding res_def mid_def [symmetric]
    by (subst unat_add_small) (simp_all add: lo_def)
  have high: "unat (?ah * ?bh) = hh" using pp(4) by (simp add: hh_def)
  have le: "?ah * ?bh \<le> push_bit 63 1 \<longleftrightarrow> hh \<le> 2 ^ 63"
    by (simp add: word_le_nat_alt high)
  have "unat (push_bit 64 (?ah * ?bh)) = hh * 2 ^ 64" if "hh \<le> 2 ^ 63"
    using that by (simp add: unat_push_64 high)
  then have wrap: "res \<le> res + push_bit 64 (?ah * ?bh) \<longleftrightarrow> lo + mid + hh * 2 ^ 64 < 2 ^ 128"
    and sum: "lo + mid + hh * 2 ^ 64 < 2 ^ 128 \<Longrightarrow> unat (res + push_bit 64 (?ah * ?bh)) = lo + mid + hh * 2 ^ 64"
    if "hh \<le> 2 ^ 63"
    using that no_olen_add_nat [of res "push_bit 64 (?ah * ?bh)"] res by (simp_all add: unat_word_ariths)
  have "int64x64_Umul a b = (if hh \<le> 2 ^ 63 \<and> lo + mid + hh * 2 ^ 64 < 2 ^ 128
      then Some (res + push_bit 64 (?ah * ?bh)) else None)"
    using le wrap by (auto simp: int64x64_Umul_def Let_def res_def)
  moreover have "res + push_bit 64 (?ah * ?bh) = r \<longleftrightarrow> unat r = lo + mid + hh * 2 ^ 64"
    if "hh \<le> 2 ^ 63" "lo + mid + hh * 2 ^ 64 < 2 ^ 128"
    using sum [OF that] by (auto simp only: word_unat_eq_iff)
  moreover have "unat a * unat b div 2 ^ 64 = lo + mid + hh * 2 ^ 64" using prod by simp
  ultimately show ?thesis
    unfolding hh_def [symmetric]
    by (cases "hh \<le> 2 ^ 63 \<and> lo + mid + hh * 2 ^ 64 < 2 ^ 128") auto
qed

section \<open>Signs\<close>

lemma sint_range: "- (2 ^ 127) \<le> sint (v :: u128)" "sint (v :: u128) < 2 ^ 127"
  using sint_greater_eq [of v] sint_lt [of v] by simp_all

lemma uint_of_sint128: "uint (v :: u128) = (if sint v < 0 then sint v + 2 ^ 128 else sint v)"
  using uint_of_sint [of v] by simp

lemma magnitude:
  fixes v :: u128
  defines "m \<equiv> if sint v < 0 then - v else v"
  shows "int (unat m) = \<bar>sint v\<bar>" and "unat m \<le> 2 ^ 127"
proof -
  have "uint (- v) = (- uint v) mod 2 ^ 128" by (simp add: uint_word_ariths)
  moreover have "(- uint v) mod 2 ^ 128 = - sint v" if "sint v < 0"
  proof -
    have "(- uint v) mod 2 ^ 128 = (- sint v - 2 ^ 128) mod 2 ^ 128" using that by (simp add: uint_of_sint128)
    also have "\<dots> = (- sint v) mod 2 ^ 128" using mod_add_self2 [of "- sint v - 2 ^ 128" "2 ^ 128"] by simp
    also have "\<dots> = - sint v" using that sint_range [of v] by (intro mod_pos_pos_trivial) simp_all
    finally show ?thesis .
  qed
  ultimately have "uint m = \<bar>sint v\<bar>"
    using uint_of_sint128 [of v] by (cases "sint v < 0") (simp_all add: m_def)
  then show 1: "int (unat m) = \<bar>sint v\<bar>" by simp
  have "int (unat m) \<le> 2 ^ 127" using 1 sint_range [of v] by linarith
  then show "unat m \<le> 2 ^ 127" by (metis of_nat_le_iff of_nat_numeral of_nat_power)
qed

lemma sint_of_magnitude:
  fixes r :: u128
  shows "unat r < 2 ^ 127 \<Longrightarrow> sint r = int (unat r)"
    and "unat r \<le> 2 ^ 127 \<Longrightarrow> sint (- r) = - int (unat r)"
proof -
  show "sint r = int (unat r)" if "unat r < 2 ^ 127"
  proof -
    have "int (unat r) < 2 ^ 127" using that by (metis of_nat_less_iff of_nat_numeral of_nat_power)
    then show ?thesis
      using sint_range [of r] uint_of_sint128 [of r] by (auto split: if_splits)
  qed
  show "sint (- r) = - int (unat r)" if "unat r \<le> 2 ^ 127"
  proof -
    have "int (unat r) \<le> 2 ^ 127" using that by (metis of_nat_le_iff of_nat_numeral of_nat_power)
    moreover have "- uint r < 2 ^ 127" by (rule le_less_trans [of _ 0]) simp_all
    ultimately have "signed_take_bit 127 (- uint r) = - uint r"
      by (intro signed_take_bit_int_eq_self) simp_all
    moreover have "sint (word_of_int (- uint r) :: u128) = signed_take_bit 127 (- uint r)"
      by (simp only: signed_of_int) simp
    ultimately show ?thesis by simp
  qed
qed

text \<open>
  The signed product: exact, rounded towards zero, and defined whenever it is representable.
\<close>

lemma int_unat_le: "int (unat (r :: u128)) \<le> 2 ^ k \<longleftrightarrow> unat r \<le> 2 ^ k"
  and int_unat_less: "int (unat (r :: u128)) < 2 ^ k \<longleftrightarrow> unat r < 2 ^ k"
  by (metis of_nat_le_iff of_nat_numeral of_nat_power, metis of_nat_less_iff of_nat_numeral of_nat_power)

lemma high_part_bound:
  assumes "(a :: nat) * b div 2 ^ 64 \<le> 2 ^ 127"
  shows "(a div 2 ^ 64) * (b div 2 ^ 64) \<le> 2 ^ 63"
proof -
  have "(a div 2 ^ 64) * (b div 2 ^ 64) * 2 ^ 64 \<le> a * b div 2 ^ 64"
    by (subst split_product [of "2 ^ 64" a b]) simp_all
  then have "(a div 2 ^ 64) * (b div 2 ^ 64) * 2 ^ 64 \<le> 2 ^ 63 * 2 ^ 64" using assms by simp
  then show ?thesis by simp
qed

definition trunc_mul :: "int \<Rightarrow> int \<Rightarrow> int" where
  "trunc_mul x y = sgn x * sgn y * (\<bar>x\<bar> * \<bar>y\<bar> div 2 ^ 64)"

lemma trunc_mul_sign:
  assumes "(x < 0) \<noteq> (y < 0)"
  shows "trunc_mul x y = - (\<bar>x\<bar> * \<bar>y\<bar> div 2 ^ 64)"
  using assms by (auto simp: trunc_mul_def sgn_if)

lemma trunc_mul_nosign:
  assumes "(x < 0) = (y < 0)"
  shows "trunc_mul x y = \<bar>x\<bar> * \<bar>y\<bar> div 2 ^ 64"
  using assms by (auto simp: trunc_mul_def sgn_if)

lemma Mul_exact:
  "int64x64_Mul x y = Some r \<longleftrightarrow> sint r = trunc_mul (sint x) (sint y)"
proof -
  define a where "a = (if sint x < 0 then - x else x)"
  define b where "b = (if sint y < 0 then - y else y)"
  note a = magnitude [of x, folded a_def] and b = magnitude [of y, folded b_def]
  define p where "p = unat a * unat b div 2 ^ 64"
  have p: "\<bar>sint x\<bar> * \<bar>sint y\<bar> div 2 ^ 64 = int p"
    unfolding p_def a(1) [symmetric] b(1) [symmetric] by (simp add: zdiv_int)
  have U: "int64x64_Umul a b = Some m \<longleftrightarrow> unat m = p" if "unat m \<le> 2 ^ 127" for m
    using Umul_exact [OF a(2) b(2), of m] high_part_bound [of "unat a" "unat b"] that
      unsigned_less [of m, where ?'a = nat]
    unfolding p_def by auto
  let ?neg = "(sint x < 0) \<noteq> (sint y < 0)"
  show ?thesis
  proof (cases ?neg)
    case True
    have M: "int64x64_Mul x y = Some r \<longleftrightarrow>
        int64x64_Umul a b = Some (- r) \<and> unat (- r) \<le> 2 ^ 127"
      using True by (auto simp: int64x64_Mul_def output_sign_def Let_def a_def b_def word_le_nat_alt
          split: option.splits bind_splits)
    also have "\<dots> \<longleftrightarrow> sint r = - int p"
    proof
      assume "int64x64_Umul a b = Some (- r) \<and> unat (- r) \<le> 2 ^ 127"
      then show "sint r = - int p" using U [of "- r"] sint_of_magnitude(2) [of "- r"] by simp
    next
      assume r: "sint r = - int p"
      have "unat (- r) = p \<and> unat (- r) \<le> 2 ^ 127"
      proof (cases "p = 0")
        case True
        then have "r = 0" using r by (simp add: signed_eq_0_iff)
        then show ?thesis using True by simp
      next
        case False
        then have "int (unat (- r)) = int p" "unat (- r) \<le> 2 ^ 127" using r magnitude [of r] by simp_all
        then show ?thesis by (simp only: of_nat_eq_iff)
      qed
      then show "int64x64_Umul a b = Some (- r) \<and> unat (- r) \<le> 2 ^ 127" using U [of "- r"] by simp
    qed
    finally show ?thesis unfolding trunc_mul_sign [OF True] p .
  next
    case False
    have M: "int64x64_Mul x y = Some r \<longleftrightarrow>
        int64x64_Umul a b = Some r \<and> unat r < 2 ^ 127"
      using False by (auto simp: int64x64_Mul_def output_sign_def Let_def a_def b_def word_less_nat_alt
          split: option.splits bind_splits)
    also have "\<dots> \<longleftrightarrow> sint r = int p"
    proof
      assume "int64x64_Umul a b = Some r \<and> unat r < 2 ^ 127"
      then show "sint r = int p" using U [of r] sint_of_magnitude(1) [of r] by simp
    next
      assume r: "sint r = int p"
      then have i: "int (unat r) = int p" using magnitude(1) [of r] by simp
      then have "unat r = p" by (simp only: of_nat_eq_iff)
      moreover have "unat r < 2 ^ 127"
        using sint_range(2) [of r] r i int_unat_less [of r 127] by simp
      ultimately show "int64x64_Umul a b = Some r \<and> unat r < 2 ^ 127" using U [of r] by simp
    qed
    finally show ?thesis using False trunc_mul_nosign [of "sint x" "sint y"] unfolding p by simp
  qed
qed

section \<open>Long division\<close>

lemma even_halves:
  assumes "(d :: u128) AND 1 = 0"
  shows "unat d = unat (drop_bit 1 d) * 2"
proof -
  have "unat (d AND 1) = 0" using assms by simp
  then have "unat d mod 2 = 0" by (simp add: and_one_eq unat_mod)
  moreover have "unat (drop_bit 1 d) = unat d div 2"
    by (simp add: drop_bit_eq_div unat_div)
  ultimately show ?thesis by auto
qed

lemma HI_BIT_clear: "(r :: u128) AND HP128_MASK_HI_BIT = 0 \<longleftrightarrow> unat r < 2 ^ 127"
proof -
  have "r AND HP128_MASK_HI_BIT = 0 \<longleftrightarrow> \<not> bit r 127"
    unfolding HP128_MASK_HI_BIT_def push_bit_of_1 by (rule and_exp_eq_0_iff_not_bit)
  also have "\<dots> \<longleftrightarrow> take_bit 127 r = r"
  proof
    assume "\<not> bit r 127"
    then have "n < 127" if "bit r n" for n
      using that bit_imp_le_length [OF that] by (cases "n = 127") auto
    then show "take_bit 127 r = r" by (auto simp: bit_eq_iff bit_take_bit_iff)
  next
    assume "take_bit 127 r = r"
    then have "bit r 127 \<longleftrightarrow> bit (take_bit 127 r) 127" by (rule arg_cong2 [of _ _ _ _ bit, OF _ refl, symmetric])
    then show "\<not> bit r 127" by (simp add: bit_take_bit_iff)
  qed
  also have "\<dots> \<longleftrightarrow> unat r < 2 ^ 127"
    by (metis take_bit_nat_eq_self_iff unsigned_take_bit_eq word_unat_eq_iff)
  finally show ?thesis .
qed

lemma unat_shl: "unat (push_bit k (x :: u128)) = unat x * 2 ^ k mod 2 ^ 128"
  unfolding unsigned_push_bit_eq by (simp add: push_bit_eq_mult take_bit_eq_mod)

lemma skip_den:
  assumes "udiv_skip_den shift den = (shift', den')" and "shift \<le> 64"
  shows "shift \<le> shift' \<and> shift' \<le> 64 \<and> unat den = unat den' * 2 ^ (shift' - shift)"
  using assms
proof (induction shift den arbitrary: shift' den' rule: udiv_skip_den.induct)
  case (1 shift den)
  show ?case
  proof (cases "shift < 64 \<and> den AND 1 = 0")
    case True
    then have "udiv_skip_den (shift + 1) (drop_bit 1 den) = (shift', den')"
      using "1.prems"(1) by (simp add: udiv_skip_den.simps [of shift])
    then have "shift + 1 \<le> shift' \<and> shift' \<le> 64 \<and> unat (drop_bit 1 den) = unat den' * 2 ^ (shift' - (shift + 1))"
      using "1.IH" [OF True] True by simp
    moreover have "(2 :: nat) ^ (shift' - shift) = 2 ^ (shift' - (shift + 1)) * 2" if "shift + 1 \<le> shift'"
      using that by (metis Suc_diff_le Suc_eq_plus1 diff_Suc_Suc power_Suc2)
    ultimately show ?thesis using even_halves [of den] True by simp
  next
    case False
    then show ?thesis using "1.prems" by (auto simp add: udiv_skip_den.simps [of shift])
  qed
qed

lemma skip_rem:
  assumes "udiv_skip_rem digis shift rem = (shift', rem')" and "digis + shift \<le> 64"
  shows "shift \<le> shift' \<and> digis + shift' \<le> 64 \<and> unat rem' = unat rem * 2 ^ (shift' - shift)
    \<and> (digis + shift' = 64 \<or> 2 ^ 127 \<le> unat rem')"
  using assms
proof (induction digis shift rem arbitrary: shift' rem' rule: udiv_skip_rem.induct)
  case (1 digis shift rem)
  show ?case
  proof (cases "digis + shift < 64 \<and> rem AND HP128_MASK_HI_BIT = 0")
    case True
    then have rec: "udiv_skip_rem digis (shift + 1) (push_bit 1 rem) = (shift', rem')"
      using "1.prems"(1) by (simp add: udiv_skip_rem.simps [of digis shift])
    have "shift + 1 \<le> shift' \<and> digis + shift' \<le> 64 \<and> unat rem' = unat (push_bit 1 rem) * 2 ^ (shift' - (shift + 1))
      \<and> (digis + shift' = 64 \<or> 2 ^ 127 \<le> unat rem')"
      by (rule "1.IH" [OF True rec]) (use True in simp)
    moreover have "(2 :: nat) ^ (shift' - shift) = 2 * 2 ^ (shift' - (shift + 1))" if "shift + 1 \<le> shift'"
      using that by (metis Suc_diff_le Suc_eq_plus1 diff_Suc_Suc power_Suc)
    moreover have "unat (push_bit 1 rem) = unat rem * 2"
      using True unfolding HI_BIT_clear unat_shl by simp
    ultimately show ?thesis by (metis Suc_eq_plus1 Suc_leD mult.assoc)
  next
    case False
    then show ?thesis
      using "1.prems" by (auto simp add: udiv_skip_rem.simps [of digis shift] HI_BIT_clear)
  qed
qed

lemma cast_off:
  assumes "udiv_cast_off digis shift rem den = (shift', den')" and "digis + shift \<le> 64"
    and "digis + shift = 64 \<or> den \<le> rem"
  shows "shift \<le> shift' \<and> digis + shift' \<le> 64 \<and> unat den = unat den' * 2 ^ (shift' - shift)"
  using assms
proof (induction digis shift rem den arbitrary: shift' den' rule: udiv_cast_off.induct)
  case (1 digis shift rem den)
  show ?case
  proof (cases "digis + shift < 64 \<and> (den AND 1 = 0 \<or> rem < den)")
    case True
    then have ev: "den AND 1 = 0" and le: "den \<le> rem" using "1.prems"(3) by auto
    have half: "unat den = unat (drop_bit 1 den) * 2" by (rule even_halves [OF ev])
    then have "drop_bit 1 den \<le> rem" using le by (simp add: word_le_nat_alt)
    moreover have "udiv_cast_off digis (shift + 1) rem (drop_bit 1 den) = (shift', den')"
      using "1.prems"(1) True by (simp add: udiv_cast_off.simps [of digis shift])
    ultimately have "shift + 1 \<le> shift' \<and> digis + shift' \<le> 64
        \<and> unat (drop_bit 1 den) = unat den' * 2 ^ (shift' - (shift + 1))"
      using "1.IH" [OF True] True by simp
    moreover have "(2 :: nat) ^ (shift' - shift) = 2 ^ (shift' - (shift + 1)) * 2" if "shift + 1 \<le> shift'"
      using that by (metis Suc_diff_le Suc_eq_plus1 diff_Suc_Suc power_Suc2)
    ultimately show ?thesis using half by simp
  next
    case False
    then show ?thesis using "1.prems" by (auto simp add: udiv_cast_off.simps [of digis shift])
  qed
qed

text \<open>One round of the division consumes \<open>shift'\<close> quotient digits exactly.\<close>

lemma round_quotient:
  fixes rem den rem' den' res :: nat
  assumes r: "rem' = rem * 2 ^ j" and d: "den = den' * 2 ^ k" and "0 < den'" and s: "s + j + k \<le> m"
  shows "(res * 2 ^ (s + j + k) + rem' div den') * 2 ^ (m - (s + j + k))
      + (rem' mod den') * 2 ^ (m - (s + j + k)) div den'
    = res * 2 ^ m + rem * 2 ^ m div (den * 2 ^ s)"
proof -
  let ?t = "s + j + k" and ?u = "2 ^ (m - (s + j + k)) :: nat"
  have m: "(2 :: nat) ^ m = 2 ^ ?t * ?u" using s by (simp only: power_add [symmetric]) simp
  have "rem * 2 ^ m div (den * 2 ^ s) = (rem' * ?u) * 2 ^ (s + k) div (den' * 2 ^ (s + k))"
    by (simp add: m r d power_add mult_ac)
  also have "\<dots> = rem' * ?u div den'" by (simp del: power_add)
  also have "rem' * ?u = (rem' div den' * ?u) * den' + rem' mod den' * ?u"
  proof -
    have "rem' * ?u = (rem' div den' * den' + rem' mod den') * ?u" by (simp only: div_mult_mod_eq)
    also have "\<dots> = (rem' div den' * ?u) * den' + rem' mod den' * ?u" by (simp only: algebra_simps)
    finally show ?thesis .
  qed
  also have "((rem' div den' * ?u) * den' + rem' mod den' * ?u) div den' = rem' div den' * ?u + rem' mod den' * ?u div den'"
    using \<open>0 < den'\<close> by simp
  finally show ?thesis by (simp add: m algebra_simps)
qed

lemma mod_pow_shift:
  fixes x :: nat
  assumes "unat w = x mod 2 ^ 128"
  shows "unat (push_bit k w + (q :: u128)) = (x * 2 ^ k + unat q) mod 2 ^ 128"
proof -
  have "unat (push_bit k w + q) = (unat w * 2 ^ k mod 2 ^ 128 + unat q) mod 2 ^ 128"
    by (simp add: unat_word_ariths unat_shl)
  also have "\<dots> = (x * 2 ^ k + unat q) mod 2 ^ 128"
    unfolding assms by (simp only: mod_add_left_eq mod_mult_left_eq)
  finally show ?thesis .
qed

text \<open>
  The loop computes the remaining fraction digits exactly, provided that the divisor is the
  magnitude of a signed value; 64 rounds are enough.
\<close>

lemma rounds_exact:
  assumes "unat rem < unat den * 2 ^ shift" and "unat den \<le> 2 ^ 127" and "digis + shift \<le> 64"
    and "unat result = res mod 2 ^ 128" and "64 - digis \<le> fuel"
  shows "\<exists>r. udiv_rounds fuel digis shift rem den result = Some r
    \<and> unat r = (res * 2 ^ (64 - digis) + unat rem * 2 ^ (64 - digis) div (unat den * 2 ^ shift)) mod 2 ^ 128"
  using assms
proof (induction fuel arbitrary: digis shift rem den result res)
  case 0
  then show ?case by (simp add: udiv_rounds.simps [of 0])
next
  case (Suc n)
  show ?case
  proof (cases "digis < 64 \<and> rem \<noteq> 0")
    case False
    have "push_bit (64 - digis) result = push_bit (64 - digis) result + 0" by simp
    then show ?thesis
      using False Suc.prems(1,3,4) mod_pow_shift [OF Suc.prems(4), of "64 - digis" 0]
      by (auto simp: udiv_rounds.simps [of "Suc n"])
  next
    case True
    obtain s1 rem' where e1: "udiv_skip_rem digis shift rem = (s1, rem')" by force
    obtain s2 den' where e2: "udiv_cast_off digis s1 rem' den = (s2, den')" by force
    note sr = skip_rem [OF e1 Suc.prems(3)]
    have "digis + s1 = 64 \<or> den \<le> rem'"
      using sr Suc.prems(2) by (auto simp: word_le_nat_alt)
    note co = cast_off [OF e2 _ this]
    define j k where "j = s1 - shift" and "k = s2 - s1"
    have s2: "s2 = shift + j + k" using sr co by (simp add: j_def k_def)
    have r: "unat rem' = unat rem * 2 ^ j" and d: "unat den = unat den' * 2 ^ k"
      using sr co by (simp_all add: j_def k_def)
    have le: "digis + s2 \<le> 64" using sr co by simp
    have pos: "0 < unat den'" using Suc.prems(1) d by (cases "unat den' = 0") simp_all
    have prog: "0 < s2"
    proof (cases "shift = 0")
      case True
      then have "unat rem < 2 ^ 127" using Suc.prems(1,2) by simp
      then have "s1 \<noteq> 0"
        using sr True \<open>digis < 64 \<and> rem \<noteq> 0\<close> by (cases "s1 = 0") auto
      then show ?thesis using co sr by simp
    qed (simp add: s2)
    let ?res = "res * 2 ^ s2 + unat rem' div unat den'"
    have w: "unat (push_bit s2 result + rem' div den') = ?res mod 2 ^ 128"
      using mod_pow_shift [OF Suc.prems(4), of s2 "rem' div den'"] by (simp add: unat_div)
    have "\<exists>r. udiv_rounds n (digis + s2) 0 (rem' mod den') den' (push_bit s2 result + rem' div den') = Some r
      \<and> unat r = (?res * 2 ^ (64 - (digis + s2))
          + unat (rem' mod den') * 2 ^ (64 - (digis + s2)) div (unat den' * 2 ^ 0)) mod 2 ^ 128"
    proof (rule Suc.IH)
      show "unat (rem' mod den') < unat den' * 2 ^ 0" using pos by (simp add: unat_mod)
      show "unat den' \<le> 2 ^ 127" using d Suc.prems(2) by (metis le_trans mult.right_neutral mult_le_mono2 one_le_numeral one_le_power)
      show "digis + s2 + 0 \<le> 64" using le by simp
      show "64 - (digis + s2) \<le> n" using prog Suc.prems(5) by linarith
    qed (rule w)
    moreover have "den' \<noteq> 0" using pos by auto
    moreover have "?res * 2 ^ (64 - (digis + s2)) + unat (rem' mod den') * 2 ^ (64 - (digis + s2)) div unat den'
       = res * 2 ^ (64 - digis) + unat rem * 2 ^ (64 - digis) div (unat den * 2 ^ shift)"
      using round_quotient [OF r d pos, of shift "64 - digis" res] le s2 by (simp add: unat_mod)
    ultimately show ?thesis
      using True e1 e2 by (simp add: udiv_rounds.simps [of "Suc n"])
  qed
qed

text \<open>
  The quotient is exact up to the last fraction bit, rounded down, for any divisor up to
  \<open>2 ^ 127\<close>; if it does not fit, its lowest 128 bits.
\<close>

lemma Udiv_exact:
  assumes "b \<noteq> 0" and "unat b \<le> 2 ^ 127"
  shows "\<exists>r. int64x64_Udiv a b = Some r \<and> unat r = (unat a * 2 ^ 64 div unat b) mod 2 ^ 128"
proof -
  obtain s d where e: "udiv_skip_den 0 b = (s, d)" by force
  have sd: "s \<le> 64" "unat b = unat d * 2 ^ s" using skip_den [OF e] by simp_all
  have pos: "0 < unat b" using assms(1) by (simp add: unat_gt_0)
  have "unat d \<le> 2 ^ 127"
    using sd assms(2) by (metis le_trans mult.right_neutral mult_le_mono2 one_le_numeral one_le_power)
  moreover have "unat (a mod b) < unat d * 2 ^ s" using sd pos by (simp add: unat_mod)
  moreover have "unat (a div b) = (unat a div unat b) mod 2 ^ 128"
    using unsigned_less [of "a div b", where ?'a = nat] by (simp add: unat_div)
  ultimately obtain r where "udiv_rounds 64 0 s (a mod b) d (a div b) = Some r"
    "unat r = (unat a div unat b * 2 ^ 64 + unat (a mod b) * 2 ^ 64 div unat b) mod 2 ^ 128"
    using rounds_exact [of "a mod b" d s 0 "a div b" "unat a div unat b" 64] sd by auto
  moreover have "unat a * 2 ^ 64 div unat b = unat a div unat b * 2 ^ 64 + unat (a mod b) * 2 ^ 64 div unat b"
    using round_quotient [of "unat a" "unat a" 0 "unat b" "unat b" 0 0 64 0] pos
    by (simp add: unat_mod)
  moreover have "a mod b < b" using assms(1) pos by (simp add: word_less_nat_alt unat_mod)
  ultimately show ?thesis using assms(1) e by (simp add: int64x64_Udiv_def)
qed

section \<open>Signed division and reciprocals\<close>

lemma sint_int128: "int128 x = Some r \<Longrightarrow> sint r = x"
  by (auto simp: int128_def signed_of_int signed_take_bit_int_eq_self split: if_splits)

text \<open>The quotient of the magnitudes and its sign.\<close>

definition trunc_div :: "int \<Rightarrow> int \<Rightarrow> int" where
  "trunc_div x y = sgn x * sgn y * (\<bar>x\<bar> * 2 ^ 64 div \<bar>y\<bar>)"

lemma trunc_div_sign:
  assumes "y \<noteq> 0"
  shows "trunc_div x y = (if (x < 0) \<noteq> (y < 0) then - (\<bar>x\<bar> * 2 ^ 64 div \<bar>y\<bar>) else \<bar>x\<bar> * 2 ^ 64 div \<bar>y\<bar>)"
  using assms by (cases "x = 0") (auto simp: trunc_div_def sgn_if)

lemma int_eq_power: "int n = 2 ^ k \<longleftrightarrow> n = 2 ^ k"
  by (metis of_nat_eq_iff of_nat_numeral of_nat_power)

lemma top_word: "sint (r :: u128) = - (2 ^ 127) \<longleftrightarrow> unat r = 2 ^ 127"
proof -
  have "uint r = 2 ^ 127 \<longleftrightarrow> sint r = - (2 ^ 127)"
    using uint_of_sint128 [of r] sint_range [of r] by (auto split: if_splits)
  moreover have "uint r = int (unat r)" by simp
  then have "uint r = 2 ^ 127 \<longleftrightarrow> unat r = 2 ^ 127" by (simp only: int_eq_power)
  ultimately show ?thesis by blast
qed

lemma neg_word: "int64x64_neg r = (if unat r = 2 ^ 127 then None else Some (- r))"
proof (cases "unat r = 2 ^ 127")
  case True
  then have "sint r = - (2 ^ 127)" by (simp only: top_word)
  then show ?thesis using True by (simp add: int64x64_neg_def int128_def)
next
  case False
  then have "sint r \<noteq> - (2 ^ 127)" by (simp only: top_word) simp
  then have "- (2 ^ 127) \<le> - sint r" "- sint r < 2 ^ 127" using sint_range [of r] by linarith+
  moreover have "word_of_int (- sint r) = - r" by simp
  ultimately show ?thesis using False by (simp add: int64x64_neg_def int128_def)
qed

text \<open>What signed division computes, for all operands: the quotient modulo \<open>2 ^ 128\<close>, if any.\<close>

lemma Div_exact:
  "int64x64_Div x y =
     (if y = 0 \<or> (sint x < 0) \<noteq> (sint y < 0) \<and> (\<bar>sint x\<bar> * 2 ^ 64 div \<bar>sint y\<bar>) mod 2 ^ 128 = 2 ^ 127 then None
      else Some (word_of_int (trunc_div (sint x) (sint y))))"
proof (cases "y = 0")
  case True
  then show ?thesis by (simp add: int64x64_Div_def output_sign_def int64x64_Udiv_def Let_def)
next
  case False
  define a where "a = (if sint x < 0 then - x else x)"
  define b where "b = (if sint y < 0 then - y else y)"
  note a = magnitude [of x, folded a_def] and b = magnitude [of y, folded b_def]
  define q where "q = unat a * 2 ^ 64 div unat b"
  have q: "\<bar>sint x\<bar> * 2 ^ 64 div \<bar>sint y\<bar> = int q"
    unfolding q_def a(1) [symmetric] b(1) [symmetric] by (simp add: zdiv_int)
  have "b \<noteq> 0" using False by (simp add: b_def)
  then obtain r where r: "int64x64_Udiv a b = Some r" "unat r = q mod 2 ^ 128"
    using Udiv_exact [OF _ b(2)] unfolding q_def by blast
  have rq: "r = word_of_int (int q)"
    using r(2) by (simp add: word_unat_eq_iff unat_of_nat)
  have top: "int q mod 2 ^ 128 = 2 ^ 127 \<longleftrightarrow> unat r = 2 ^ 127"
  proof -
    have "int q mod 2 ^ 128 = int (unat r)" using r(2) by (simp add: zmod_int)
    also have "\<dots> = 2 ^ 127 \<longleftrightarrow> unat r = 2 ^ 127" by (rule int_eq_power)
    finally show ?thesis .
  qed
  let ?neg = "(sint x < 0) \<noteq> (sint y < 0)"
  have y0: "sint y \<noteq> 0" using False by (simp add: signed_eq_0_iff)
  have D: "int64x64_Div x y = (if ?neg then int64x64_neg r else Some r)"
    using r(1) by (simp add: int64x64_Div_def output_sign_def Let_def a_def b_def)
  have minus: "- r = word_of_int (- int q)" by (simp add: rq)
  show ?thesis
  proof (cases ?neg)
    case True
    then show ?thesis using False
      by (simp only: D neg_word trunc_div_sign [OF y0] q top minus if_True simp_thms)
  next
    case no: False
    then show ?thesis using False
      by (simp only: D trunc_div_sign [OF y0] q rq if_False simp_thms)
  qed
qed

text \<open>Values with an integer part only.\<close>

lemma unat_of_parts_0: "unat (int64x64_of_parts v 0) = unat v * 2 ^ 64"
proof -
  have "int64x64_of_parts v 0 = push_bit 64 (ucast v)"
    by (rule bit_eqI) (auto simp: int64x64_of_parts_def bit_simps)
  then show ?thesis
    using unat_u64_bound [of v] by (simp add: unat_shl unsigned_ucast_eq take_bit_nat_eq_self)
qed

lemma GetHigh_drop: "unat (int64x64_GetHigh t) = unat t div 2 ^ 64"
proof -
  have "int64x64_GetHigh t = ucast (drop_bit 64 t)"
    by (rule bit_eqI) (auto simp: int64x64_GetHigh_def bit_simps)
  moreover have "unat t div 2 ^ 64 < 2 ^ 64"
    using unsigned_less [of t, where ?'a = nat] by (intro less_mult_imp_div_less) simp
  ultimately show ?thesis by (simp add: unsigned_ucast_eq take_bit_nat_eq_self)
qed

text \<open>For an integer the reciprocal product drops nothing but the lowest 64 bits.\<close>

lemma MulByInvert_int:
  assumes n: "unat n < 2 ^ 63" and b: "unat b \<le> 2 ^ 127"
  shows "\<exists>t. int64x64_MulByInvert (int64x64_of_parts n 0) b = Some t \<and> unat t = unat n * unat b div 2 ^ 64"
proof -
  let ?a = "int64x64_of_parts n 0"
  have a: "unat ?a = unat n * 2 ^ 64" by (rule unat_of_parts_0)
  then have a127: "unat ?a \<le> 2 ^ 127" using n by simp
  have lo: "unat ?a mod 2 ^ 64 = 0" and hi: "unat ?a div 2 ^ 64 = unat n" by (simp_all add: a)
  note pp = partial_products [OF a127 b]
  let ?mid = "drop_bit 64 ?a * (b AND HP_MASK_LO) + (?a AND HP_MASK_LO) * drop_bit 64 b"
  have mid: "unat (drop_bit 64 ?mid) = unat n * (unat b mod 2 ^ 64) div 2 ^ 64"
    using pp(2) lo hi by simp
  have high: "unat (drop_bit 64 ?a * drop_bit 64 b) = unat n * (unat b div 2 ^ 64)"
    using pp(4) hi by simp
  have sum: "unat n * unat b div 2 ^ 64 = unat n * (unat b div 2 ^ 64) + unat n * (unat b mod 2 ^ 64) div 2 ^ 64"
    using split_product [of "2 ^ 64" "unat n * 2 ^ 64" "unat b"] by simp
  have "unat n * unat b \<le> 2 ^ 63 * 2 ^ 127" using n b by (intro mult_le_mono) simp_all
  then have "unat n * unat b div 2 ^ 64 \<le> 2 ^ 126" using div_le_mono [of _ _ "2 ^ 64"] by fastforce
  then have "unat (drop_bit 64 ?a * drop_bit 64 b + drop_bit 64 ?mid) = unat n * unat b div 2 ^ 64"
    unfolding sum using high mid by (subst unat_add_small) simp_all
  moreover have "\<not> sint ?a < 0"
    using sint_of_magnitude(1) [of ?a] a n by simp
  moreover have "b \<le> HP128_MASK_HI_BIT" using b by (simp add: word_le_nat_alt)
  ultimately show ?thesis by (simp add: int64x64_MulByInvert_def int64x64_UmulByInvert_def Let_def)
qed

lemma ceiling_div:
  fixes v q m :: nat
  assumes "m < v"
  shows "(v * q + m + v - 1) div v = (if m = 0 then q else q + 1)"
proof (cases "m = 0")
  case True
  then show ?thesis using assms by (intro div_nat_eqI) simp_all
next
  case False
  then show ?thesis using assms by (intro div_nat_eqI) (simp_all add: algebra_simps)
qed

lemma div_below: "(m :: nat) < k \<Longrightarrow> (k - m) div k = (if m = 0 then 1 else 0)"
  by simp

lemma reciprocal_bound:
  assumes "1 < (v :: nat)"
  shows "2 ^ 128 div v \<le> (2 :: nat) ^ 127" and "2 ^ 128 mod v \<noteq> 0 \<Longrightarrow> 2 ^ 128 div v + 1 < (2 :: nat) ^ 127"
proof -
  have "2 ^ 128 div v \<le> (2 :: nat) ^ 128 div 2" using assms by (intro div_le_mono2) simp_all
  then show "2 ^ 128 div v \<le> (2 :: nat) ^ 127" by simp
  assume "2 ^ 128 mod v \<noteq> 0"
  then have "v \<noteq> 2" by auto
  then have "2 ^ 128 div v \<le> (2 :: nat) ^ 128 div 3" using assms by (intro div_le_mono2) simp_all
  then show "2 ^ 128 div v + 1 < (2 :: nat) ^ 127" by simp
qed

text \<open>The reciprocal is the least value that is not below \<open>2 ^ 128 / v\<close>.\<close>

lemma Invert_ceiling:
  assumes v: "1 < unat v" "unat v < 2 ^ 63"
  shows "\<exists>r. int64x64_Invert v = Some r \<and> unat r = (2 ^ 128 + unat v - 1) div unat v"
proof -
  let ?v = "unat v"
  define q m where "q = (2 :: nat) ^ 128 div ?v" and "m = (2 :: nat) ^ 128 mod ?v"
  have qm: "2 ^ 128 = ?v * q + m" "m < ?v" using v by (simp_all add: q_def m_def)
  have uv: "unat (ucast v :: u128) = ?v"
    using unat_u64_bound [of v] by (simp add: unsigned_ucast_eq take_bit_nat_eq_self)
  then have vnz: "(ucast v :: u128) \<noteq> 0" using v by (metis not_less_zero unsigned_0)
  have q127: "q \<le> 2 ^ 127" using reciprocal_bound(1) [OF v(1)] by (simp add: q_def)
  obtain r where r: "int64x64_Udiv (push_bit 64 1) (ucast v) = Some r"
    "unat r = (unat (push_bit 64 1 :: u128) * 2 ^ 64 div ?v) mod 2 ^ 128"
    using Udiv_exact [OF vnz, of "push_bit 64 1"] uv v by auto
  have ur: "unat r = q"
  proof -
    have "unat (push_bit 64 1 :: u128) = 2 ^ 64" by (simp add: unat_shl)
    then have "unat r = q mod 2 ^ 128" using r(2) by (simp add: q_def)
    then show ?thesis using q127 by simp
  qed
  obtain t where t: "int64x64_MulByInvert (int64x64_of_parts v 0) r = Some t" "unat t = ?v * q div 2 ^ 64"
    using MulByInvert_int [OF v(2), of r] ur q127 by auto
  have vq: "?v * q = 2 ^ 128 - m" using qm(1) by simp
  have high: "int64x64_GetHigh t = 1 \<longleftrightarrow> m = 0"
  proof -
    have "unat (int64x64_GetHigh t) = (2 ^ 128 - m) div 2 ^ 128"
      unfolding GetHigh_drop t(2) vq by (simp add: div_mult2_eq [symmetric])
    also have "\<dots> = (if m = 0 then 1 else 0)"
      by (rule div_below) (rule less_trans [OF less_trans [OF qm(2) v(2)]], simp)
    finally show ?thesis by (metis unsigned_1 unsigned_0 word_unat_eq_iff zero_neq_one)
  qed
  have gt: "v > 1" using v by (simp add: word_less_nat_alt)
  show ?thesis
  proof (cases "m = 0")
    case True
    then have "(2 ^ 128 + ?v - 1) div ?v = q"
      unfolding qm(1) using ceiling_div [OF qm(2), of q] by simp
    then show ?thesis using True high r(1) t(1) gt ur by (simp add: int64x64_Invert_def)
  next
    case False
    then have lt: "q + 1 < 2 ^ 127" using reciprocal_bound(2) [OF v(1)] by (simp add: q_def m_def)
    have "(2 ^ 128 + ?v - 1) div ?v = q + 1"
      unfolding qm(1) using ceiling_div [OF qm(2), of q] False by simp
    moreover have sr: "sint r = int q" using sint_of_magnitude(1) [of r] ur lt by simp
    moreover have "unat (word_of_int (int q + 1) :: u128) = q + 1"
    proof -
      have "(word_of_int (int q + 1) :: u128) = word_of_nat (q + 1)" by simp
      then show ?thesis using lt by (simp only: unsigned_of_nat take_bit_eq_mod) simp
    qed
    moreover have "int (q + 1) < int (2 ^ 127)" using lt by (simp only: of_nat_less_iff)
    then have "int q + 1 < 2 ^ 127" by simp
    ultimately show ?thesis
      using False high r(1) t(1) gt by (simp add: int64x64_Invert_def int128_def)
  qed
qed

lemma reciprocal_quotient:
  fixes n v b k :: nat
  assumes v: "0 < v" and b: "k \<le> v * b" "v * b < k + v" and small: "n + v < b"
  shows "n * b div k = n div v"
proof (rule div_nat_eqI)
  define x y e where "x = n div v" and "y = n mod v" and "e = v * b - k"
  have n: "n = v * x + y" "y < v" using v by (simp_all add: x_def y_def)
  have vb: "v * b = k + e" "e < v" using b by (simp_all add: e_def)
  have nb: "n * b = x * k + x * e + y * b"
  proof -
    have "n * b = x * (v * b) + y * b" unfolding n(1) by (simp add: algebra_simps)
    then show ?thesis unfolding vb(1) by (simp add: algebra_simps)
  qed
  show "k * (n div v) \<le> n * b" unfolding nb x_def [symmetric] by (simp add: mult.commute)
  have "Suc x * e \<le> Suc x * v" using vb(2) by (intro mult_le_mono2) simp
  moreover have "Suc x * v \<le> n + v" unfolding n(1) by (simp add: mult.commute)
  moreover have "(y + 1) * b \<le> v * b" using n(2) by (intro mult_le_mono1) simp
  then have "y * b + b \<le> v * b" by (simp add: algebra_simps)
  ultimately have "x * e + y * b < k" using small vb(1) by (simp add: algebra_simps)
  then show "n * b < k * Suc (n div v)" unfolding nb x_def [symmetric] by (simp add: algebra_simps)
qed

section \<open>Properties\<close>

text \<open>
  C29: multiplication of fixed-point numbers is exact to the last bit.  \<^verbatim>\<open>Mul\<close>
  returns a result exactly when the product, rounded towards zero to 64 fraction bits, can be
  represented, and that is the result; otherwise one of its overflow assertions fails.
\<close>

theorem int64x64_Mul_exact:
  "int64x64_Mul x y = Some r \<longleftrightarrow>
    sint r = sgn (sint x) * sgn (sint y) * (\<bar>sint x\<bar> * \<bar>sint y\<bar> div 2 ^ 64)"
  using Mul_exact [of x y r] by (simp only: trunc_mul_def)

text \<open>
  C30: division of fixed-point numbers, for all operands.  The digit-by-digit division of
  \<^verbatim>\<open>Udiv\<close> ends.  Without a result are division by zero and a negative quotient whose magnitude is
  \<open>2 ^ 127\<close> modulo \<open>2 ^ 128\<close>, where \<^verbatim>\<open>-result\<close> overflows, although \<open>- 2 ^ 127\<close> itself could be
  represented; otherwise the result is the quotient, rounded towards zero to 64 fraction bits,
  modulo \<open>2 ^ 128\<close>.  So it is exact to the last bit whenever its magnitude is below \<open>2 ^ 127\<close>, and
  larger quotients wrap around without notice.
\<close>

theorem int64x64_Div_exact:
  "int64x64_Div x y =
     (if y = 0 \<or> (sint x < 0) \<noteq> (sint y < 0) \<and> (\<bar>sint x\<bar> * 2 ^ 64 div \<bar>sint y\<bar>) mod 2 ^ 128 = 2 ^ 127 then None
      else Some (word_of_int (sgn (sint x) * sgn (sint y) * (\<bar>sint x\<bar> * 2 ^ 64 div \<bar>sint y\<bar>))))
   \<and> (y \<noteq> 0 \<longrightarrow> \<bar>sint x\<bar> * 2 ^ 64 div \<bar>sint y\<bar> < 2 ^ 127 \<longrightarrow>
       (\<exists>r. int64x64_Div x y = Some r \<and> sint r = sgn (sint x) * sgn (sint y) * (\<bar>sint x\<bar> * 2 ^ 64 div \<bar>sint y\<bar>)))"
proof -
  have "\<exists>r. int64x64_Div x y = Some r \<and> sint r = trunc_div (sint x) (sint y)"
    if y: "y \<noteq> 0" and q: "\<bar>sint x\<bar> * 2 ^ 64 div \<bar>sint y\<bar> < 2 ^ 127"
  proof -
    let ?q = "\<bar>sint x\<bar> * 2 ^ 64 div \<bar>sint y\<bar>"
    have y0: "sint y \<noteq> 0" using y by (simp add: signed_eq_0_iff)
    have q0: "0 \<le> ?q" by (intro div_int_pos_iff [THEN iffD2]) auto
    then have "?q mod 2 ^ 128 = ?q" using q by (intro mod_pos_pos_trivial) simp_all
    then have D: "int64x64_Div x y = Some (word_of_int (trunc_div (sint x) (sint y)))" using Div_exact [of x y] y q by simp
    have "- (2 ^ 127) \<le> trunc_div (sint x) (sint y)" "trunc_div (sint x) (sint y) < 2 ^ 127"
      using q q0 unfolding trunc_div_sign [OF y0] by (auto split: if_split)
    then have "int128 (trunc_div (sint x) (sint y)) = Some (word_of_int (trunc_div (sint x) (sint y)))" by (simp add: int128_def)
    then show ?thesis using D sint_int128 by blast
  qed
  then show ?thesis using Div_exact [of x y] unfolding trunc_div_def by blast
qed

theorem int64x64_Div_exact_witness:
  "(\<exists>r. int64x64_Div (- 10) 3 = Some r
    \<and> sint r = sgn (sint (- 10 :: u128)) * sgn (sint (3 :: u128))
        * (\<bar>sint (- 10 :: u128)\<bar> * 2 ^ 64 div \<bar>sint (3 :: u128)\<bar>)) \<and> int64x64_Div 5 0 = None"
  using int64x64_Div_exact [of "- 10" 3] int64x64_Div_exact [of 5 0] by simp

text \<open>
  Dividing by way of a reciprocal loses nothing.  For an integer \<open>v > 1\<close>, the reciprocal
  that \<^verbatim>\<open>Invert\<close> computes, multiplied with \<^verbatim>\<open>MulByInvert\<close> to any integer
  \<open>n\<close>, has exactly the integer quotient of \<open>n\<close> and \<open>v\<close> as its integer part; this
  is how time values are converted to coarser units.
\<close>

theorem int64x64_reciprocal_exact:
  assumes "1 < v" and "unat v < 2 ^ 63" and "unat n < 2 ^ 63"
  shows "\<exists>r t. int64x64_Invert v = Some r \<and> int64x64_MulByInvert (int64x64_of_parts n 0) r = Some t
    \<and> int64x64_GetHigh t = n div v"
proof -
  have v: "1 < unat v" using assms(1) by (simp add: word_less_nat_alt)
  obtain r where r: "int64x64_Invert v = Some r" "unat r = (2 ^ 128 + unat v - 1) div unat v"
    using Invert_ceiling [OF v assms(2)] by blast
  define q m where "q = (2 :: nat) ^ 128 div unat v" and "m = (2 :: nat) ^ 128 mod unat v"
  have qm: "2 ^ 128 = unat v * q + m" "m < unat v" using v by (simp_all add: q_def m_def)
  have ur: "unat r = (if m = 0 then q else q + 1)" using r(2) ceiling_div [OF qm(2), of q] qm(1) by simp
  then have b: "2 ^ 128 \<le> unat v * unat r" "unat v * unat r < 2 ^ 128 + unat v"
    unfolding qm(1) using qm(2) v by (auto simp: algebra_simps)
  have "2 ^ 128 div 2 ^ 63 \<le> q" unfolding q_def using assms(2) v by (intro div_le_mono2) simp_all
  then have big: "unat n + unat v < unat r" using assms(2,3) ur by simp
  have "unat r \<le> 2 ^ 127"
    using reciprocal_bound [OF v] ur by (auto simp: q_def m_def)
  then obtain t where t: "int64x64_MulByInvert (int64x64_of_parts n 0) r = Some t"
    "unat t = unat n * unat r div 2 ^ 64"
    using MulByInvert_int [OF assms(3)] by blast
  have "unat (int64x64_GetHigh t) = unat n * unat r div 2 ^ 128"
    unfolding GetHigh_drop t(2) by (simp add: div_mult2_eq [symmetric])
  also have "\<dots> = unat (n div v)"
    using reciprocal_quotient [OF _ b big] v by (simp add: unat_div)
  finally show ?thesis using r(1) t(1) by (auto simp: word_unat_eq_iff)
qed

theorem int64x64_reciprocal_exact_witness:
  "\<exists>r t. int64x64_Invert 1000 = Some r \<and> int64x64_MulByInvert (int64x64_of_parts 123456 0) r = Some t
    \<and> int64x64_GetHigh t = 123456 div 1000"
  by (rule int64x64_reciprocal_exact) simp_all

end
