(* ===== verification/Buffer.thy ===== *)
theory Buffer
  imports Prelude
begin

text \<open>
  Packet bytes: \<^verbatim>\<open>ns3::Buffer\<close> (src/network/model/buffer.h, .cc).  A buffer is
  a window on a block of memory that it may share with other buffers; the run of zeroes in
  the middle of a packet, its payload, is kept as two offsets and takes no memory.  The
  memory is an explicit store from addresses to blocks with their reference counts and dirty
  areas, with the free list of recycled blocks.

  Offsets are \<^verbatim>\<open>uint32_t\<close> in the code.  They are natural numbers here, and an
  operation whose offsets would leave 32 bits, or that would touch memory outside its block,
  is \<open>None\<close>, like a failed assertion; where the code adds a negative \<^verbatim>\<open>int32_t\<close>
  delta to an unsigned offset, the model has the exact sum.  What fresh memory contains is
  unknown: it is the field \<open>s_junk\<close> of the store, which nothing else mentions.
\<close>

unbundle bit_operations_syntax

section \<open>Blocks of memory\<close>

record buf_data =
  d_count :: nat
  d_size :: nat
  d_dirtyStart :: nat
  d_dirtyEnd :: nat
  d_bytes :: "u8 list"

record buf_store =
  s_heap :: "nat \<Rightarrow> buf_data option"
  s_next :: nat
  s_freeList :: "nat list option"
  s_maxSize :: nat
  s_recommendedStart :: nat
  s_junk :: "nat \<Rightarrow> u8"

definition store_init :: "(nat \<Rightarrow> u8) \<Rightarrow> buf_store" where
  "store_init junk = \<lparr>s_heap = Map.empty, s_next = 0, s_freeList = None, s_maxSize = 0,
     s_recommendedStart = 0, s_junk = junk\<rparr>"

text \<open>\<^verbatim>\<open>memcpy\<close> from and to a block.\<close>

definition mem_read :: "u8 list \<Rightarrow> nat \<Rightarrow> nat \<Rightarrow> u8 list option" where
  "mem_read mem at n = (if at + n \<le> length mem then Some (take n (drop at mem)) else None)"

definition mem_write :: "u8 list \<Rightarrow> nat \<Rightarrow> u8 list \<Rightarrow> u8 list option" where
  "mem_write mem at src =
     (if at + length src \<le> length mem
      then Some (take at mem @ src @ drop (at + length src) mem) else None)"

definition buf_Deallocate :: "nat \<Rightarrow> buf_store \<Rightarrow> buf_store option" where
  "buf_Deallocate a s = do {
     d \<leftarrow> s_heap s a;
     ns_assert (d_count d = 0);
     Some (s\<lparr>s_heap := (s_heap s)(a := None)\<rparr>)
   }"

text \<open>
  The array that is allocated has room for the 20 bytes of \<^verbatim>\<open>Buffer::Data\<close>, one of which is the
  first of the data.  Sizes that do not fit 32 bits are \<open>None\<close>.
\<close>

definition buf_Allocate :: "nat \<Rightarrow> buf_store \<Rightarrow> (nat \<times> buf_store) option" where
  "buf_Allocate reqSize s = do {
     let reqSize = (if reqSize = 0 then 1 else reqSize);
     ns_assert (reqSize \<ge> 1);
     let reqSize = reqSize + 100;
     ns_assert (reqSize - 1 + 20 < 2 ^ 32);
     Some (s_next s, s\<lparr>s_heap := (s_heap s)(s_next s \<mapsto>
         \<lparr>d_count = 1, d_size = reqSize, d_dirtyStart = 0, d_dirtyEnd = 0,
          d_bytes = map (s_junk s) [0..<reqSize]\<rparr>), s_next := s_next s + 1\<rparr>)
   }"

text \<open>The search of the free list in \<^verbatim>\<open>Create\<close>, from its back, with the block if one fits.\<close>

function buf_search_free :: "nat \<Rightarrow> nat list \<Rightarrow> buf_store \<Rightarrow> (nat option \<times> buf_store) option" where
  "buf_search_free dataSize fl s =
     (if fl = [] then Some (None, s)
      else do {
        let a = last fl;
        let s = s\<lparr>s_freeList := Some (butlast fl)\<rparr>;
        d \<leftarrow> s_heap s a;
        if d_size d \<ge> dataSize
        then Some (Some a, s\<lparr>s_heap := (s_heap s)(a \<mapsto> d\<lparr>d_count := 1\<rparr>)\<rparr>)
        else do { s \<leftarrow> buf_Deallocate a s; buf_search_free dataSize (butlast fl) s }
      })"
  by pat_completeness auto
termination by (relation "measure (\<lambda>(_, fl, _). length fl)") auto

definition buf_Create :: "nat \<Rightarrow> buf_store \<Rightarrow> (nat \<times> buf_store) option" where
  "buf_Create dataSize s =
     (case s_freeList s of
        None \<Rightarrow> buf_Allocate dataSize (s\<lparr>s_freeList := Some []\<rparr>)
      | Some fl \<Rightarrow> do {
          (found, s) \<leftarrow> buf_search_free dataSize fl s;
          case found of Some a \<Rightarrow> Some (a, s) | None \<Rightarrow> buf_Allocate dataSize s
        })"

definition buf_Recycle :: "nat \<Rightarrow> buf_store \<Rightarrow> buf_store option" where
  "buf_Recycle a s = do {
     d \<leftarrow> s_heap s a;
     ns_assert (d_count d = 0);
     fl \<leftarrow> s_freeList s;
     let maxSize = max (s_maxSize s) (d_size d);
     let s = s\<lparr>s_maxSize := maxSize\<rparr>;
     if d_size d < maxSize \<or> length fl > 1000 then buf_Deallocate a s
     else Some (s\<lparr>s_freeList := Some (fl @ [a])\<rparr>)
   }"

text \<open>The two lines with which the destructor, the assignment and the reallocations drop a reference.\<close>

definition buf_unref :: "nat \<Rightarrow> buf_store \<Rightarrow> buf_store option" where
  "buf_unref a s = do {
     d \<leftarrow> s_heap s a;
     ns_assert (d_count d > 0);
     let s = s\<lparr>s_heap := (s_heap s)(a \<mapsto> d\<lparr>d_count := d_count d - 1\<rparr>)\<rparr>;
     if d_count d = 1 then buf_Recycle a s else Some s
   }"

section \<open>Buffers\<close>

record buffer =
  b_data :: nat
  b_maxZeroAreaStart :: nat
  b_zeroAreaStart :: nat
  b_zeroAreaEnd :: nat
  b_start :: nat
  b_end :: nat

definition buf_Initialize :: "nat \<Rightarrow> buf_store \<Rightarrow> (buffer \<times> buf_store) option" where
  "buf_Initialize zeroSize s = do {
     (a, s) \<leftarrow> buf_Create 0 s;
     d \<leftarrow> s_heap s a;
     let start = min (d_size d) (s_recommendedStart s);
     let b = \<lparr>b_data = a, b_maxZeroAreaStart = start, b_zeroAreaStart = start,
              b_zeroAreaEnd = start + zeroSize, b_start = start, b_end = start + zeroSize\<rparr>;
     ns_assert (b_end b < 2 ^ 32);
     Some (b, s\<lparr>s_heap := (s_heap s)(a \<mapsto> d\<lparr>d_dirtyStart := b_start b, d_dirtyEnd := b_end b\<rparr>)\<rparr>)
   }"

text \<open>Copy constructor and destructor; the assignment is the one after the other.\<close>

definition buf_copy :: "buffer \<Rightarrow> buf_store \<Rightarrow> (buffer \<times> buf_store) option" where
  "buf_copy b s = do {
     d \<leftarrow> s_heap s (b_data b);
     Some (b\<lparr>b_maxZeroAreaStart := b_zeroAreaStart b\<rparr>,
           s\<lparr>s_heap := (s_heap s)(b_data b \<mapsto> d\<lparr>d_count := d_count d + 1\<rparr>)\<rparr>)
   }"

definition buf_destroy :: "buffer \<Rightarrow> buf_store \<Rightarrow> buf_store option" where
  "buf_destroy b s =
     buf_unref (b_data b)
       (s\<lparr>s_recommendedStart := max (s_recommendedStart s) (b_maxZeroAreaStart b)\<rparr>)"

definition buf_GetSize :: "buffer \<Rightarrow> nat" where
  "buf_GetSize b = b_end b - b_start b"

definition buf_GetInternalSize :: "buffer \<Rightarrow> nat" where
  "buf_GetInternalSize b = b_zeroAreaStart b - b_start b + b_end b - b_zeroAreaEnd b"

definition buf_GetInternalEnd :: "buffer \<Rightarrow> nat" where
  "buf_GetInternalEnd b = b_end b - (b_zeroAreaEnd b - b_zeroAreaStart b)"

definition buf_note_zero :: "buffer \<Rightarrow> buffer" where
  "buf_note_zero b = b\<lparr>b_maxZeroAreaStart := max (b_maxZeroAreaStart b) (b_zeroAreaStart b)\<rparr>"

text \<open>
  The reallocation of \<^verbatim>\<open>AddAtStart\<close> and \<^verbatim>\<open>AddAtEnd\<close>: a new block with room
  for \<open>extra\<close> more bytes, the used bytes copied to offset \<open>at\<close>, the old block released.
\<close>

definition buf_realloc :: "nat \<Rightarrow> nat \<Rightarrow> buffer \<Rightarrow> buf_store \<Rightarrow> (nat \<times> buf_store) option" where
  "buf_realloc extra at b s = do {
     let newSize = buf_GetInternalSize b + extra;
     ns_assert (newSize < 2 ^ 32);
     (a, s) \<leftarrow> buf_Create newSize s;
     new \<leftarrow> s_heap s a;
     old \<leftarrow> s_heap s (b_data b);
     src \<leftarrow> mem_read (d_bytes old) (b_start b) (buf_GetInternalSize b);
     bytes \<leftarrow> mem_write (d_bytes new) at src;
     s \<leftarrow> buf_unref (b_data b) (s\<lparr>s_heap := (s_heap s)(a \<mapsto> new\<lparr>d_bytes := bytes\<rparr>)\<rparr>);
     Some (a, s)
   }"

text \<open>Set the dirty area of a block.\<close>

definition set_dirty :: "nat \<Rightarrow> nat \<Rightarrow> nat \<Rightarrow> buf_store \<Rightarrow> buf_store option" where
  "set_dirty a ds de s = do {
     d \<leftarrow> s_heap s a;
     Some (s\<lparr>s_heap := (s_heap s)(a \<mapsto> d\<lparr>d_dirtyStart := ds, d_dirtyEnd := de\<rparr>)\<rparr>)
   }"

definition buf_AddAtStart :: "nat \<Rightarrow> buffer \<Rightarrow> buf_store \<Rightarrow> (buffer \<times> buf_store) option" where
  "buf_AddAtStart start b s = do {
     d \<leftarrow> s_heap s (b_data b);
     let isDirty = (d_count d > 1 \<and> b_start b > d_dirtyStart d);
     if b_start b \<ge> start \<and> \<not> isDirty
     then do {
       ns_assert (d_count d = 1 \<or> b_start b = d_dirtyStart d);
       let b' = b\<lparr>b_start := b_start b - start\<rparr>;
       s' \<leftarrow> set_dirty (b_data b) (b_start b') (d_dirtyEnd d) s;
       Some (buf_note_zero b', s')
     }
     else do {
       (a, s1) \<leftarrow> buf_realloc start start b s;
       let b' = b\<lparr>b_data := a, b_start := 0,
                  b_zeroAreaStart := b_zeroAreaStart b - b_start b + start,
                  b_zeroAreaEnd := b_zeroAreaEnd b - b_start b + start,
                  b_end := b_end b - b_start b + start\<rparr>;
       ns_assert (b_end b' < 2 ^ 32);
       s2 \<leftarrow> set_dirty a (b_start b') (b_end b') s1;
       Some (buf_note_zero b', s2)
     }
   }"

definition buf_AddAtEnd :: "nat \<Rightarrow> buffer \<Rightarrow> buf_store \<Rightarrow> (buffer \<times> buf_store) option" where
  "buf_AddAtEnd n b s = do {
     d \<leftarrow> s_heap s (b_data b);
     let isDirty = (d_count d > 1 \<and> b_end b < d_dirtyEnd d);
     if buf_GetInternalEnd b + n \<le> d_size d \<and> \<not> isDirty
     then do {
       ns_assert (d_count d = 1 \<or> b_end b = d_dirtyEnd d);
       let b' = b\<lparr>b_end := b_end b + n\<rparr>;
       ns_assert (b_end b' < 2 ^ 32);
       s' \<leftarrow> set_dirty (b_data b) (d_dirtyStart d) (b_end b') s;
       Some (buf_note_zero b', s')
     }
     else do {
       (a, s1) \<leftarrow> buf_realloc n 0 b s;
       let b' = b\<lparr>b_data := a, b_start := 0,
                  b_zeroAreaStart := b_zeroAreaStart b - b_start b,
                  b_zeroAreaEnd := b_zeroAreaEnd b - b_start b,
                  b_end := b_end b - b_start b + n\<rparr>;
       ns_assert (b_end b' < 2 ^ 32);
       s2 \<leftarrow> set_dirty a (b_start b') (b_end b') s1;
       Some (buf_note_zero b', s2)
     }
   }"

definition buf_RemoveAtStart :: "nat \<Rightarrow> buffer \<Rightarrow> buffer option" where
  "buf_RemoveAtStart start b = do {
     let newStart = b_start b + start;
     ns_assert (newStart < 2 ^ 32);
     let b' = (if newStart \<le> b_zeroAreaStart b then b\<lparr>b_start := newStart\<rparr>
       else if newStart \<le> b_zeroAreaEnd b
       then let delta = newStart - b_zeroAreaStart b in
         b\<lparr>b_start := b_zeroAreaStart b, b_zeroAreaEnd := b_zeroAreaEnd b - delta, b_end := b_end b - delta\<rparr>
       else if newStart \<le> b_end b
       then let zeroSize = b_zeroAreaEnd b - b_zeroAreaStart b in
         b\<lparr>b_start := newStart - zeroSize, b_zeroAreaStart := newStart - zeroSize,
           b_zeroAreaEnd := newStart - zeroSize, b_end := b_end b - zeroSize\<rparr>
       else let e = b_end b - (b_zeroAreaEnd b - b_zeroAreaStart b) in
         b\<lparr>b_start := e, b_zeroAreaStart := e, b_zeroAreaEnd := e, b_end := e\<rparr>);
     ns_assert (b_zeroAreaEnd b < newStart \<and> newStart \<le> b_end b \<longrightarrow> b_end b \<ge> start);
     Some (buf_note_zero b')
   }"

definition buf_RemoveAtEnd :: "nat \<Rightarrow> buffer \<Rightarrow> buffer" where
  "buf_RemoveAtEnd n b =
     (let newEnd = b_end b - min n (b_end b - b_start b) in
      buf_note_zero
       (if newEnd > b_zeroAreaEnd b then b\<lparr>b_end := newEnd\<rparr>
        else if newEnd > b_zeroAreaStart b then b\<lparr>b_zeroAreaEnd := newEnd, b_end := newEnd\<rparr>
        else if newEnd > b_start b
        then b\<lparr>b_zeroAreaStart := newEnd, b_zeroAreaEnd := newEnd, b_end := newEnd\<rparr>
        else b\<lparr>b_zeroAreaStart := b_start b, b_zeroAreaEnd := b_start b, b_end := b_start b\<rparr>))"

definition buf_CreateFragment :: "nat \<Rightarrow> nat \<Rightarrow> buffer \<Rightarrow> buf_store \<Rightarrow> (buffer \<times> buf_store) option" where
  "buf_CreateFragment start len b s = do {
     (tmp, s) \<leftarrow> buf_copy b s;
     tmp \<leftarrow> buf_RemoveAtStart start tmp;
     ns_assert (start + len < 2 ^ 32);
     Some (buf_RemoveAtEnd ((buf_GetSize b + 2 ^ 32 - (start + len)) mod 2 ^ 32) tmp, s)
   }"

section \<open>Iterators\<close>

text \<open>
  \<^verbatim>\<open>Buffer::Iterator\<close>: a position in a buffer, with the offsets copied out of it.
  A write goes to the block at once, and every buffer that shares the block sees it.
\<close>

record iterator =
  it_zeroStart :: nat
  it_zeroEnd :: nat
  it_dataStart :: nat
  it_dataEnd :: nat
  it_current :: nat
  it_data :: nat

definition it_Construct :: "buffer \<Rightarrow> nat \<Rightarrow> iterator" where
  "it_Construct b cur = \<lparr>it_zeroStart = b_zeroAreaStart b, it_zeroEnd = b_zeroAreaEnd b,
     it_dataStart = b_start b, it_dataEnd = b_end b, it_current = cur, it_data = b_data b\<rparr>"

definition buf_Begin :: "buffer \<Rightarrow> iterator" where
  "buf_Begin b = it_Construct b (b_start b)"

definition buf_End :: "buffer \<Rightarrow> iterator" where
  "buf_End b = it_Construct b (b_end b)"

definition it_IsEnd :: "iterator \<Rightarrow> bool" where
  "it_IsEnd i \<longleftrightarrow> it_current i = it_dataEnd i"

definition it_IsStart :: "iterator \<Rightarrow> bool" where
  "it_IsStart i \<longleftrightarrow> it_current i = it_dataStart i"

definition it_GetSize :: "iterator \<Rightarrow> nat" where
  "it_GetSize i = it_dataEnd i - it_dataStart i"

definition it_GetRemainingSize :: "iterator \<Rightarrow> nat" where
  "it_GetRemainingSize i = it_dataEnd i - it_current i"

definition it_GetDistanceFrom :: "iterator \<Rightarrow> iterator \<Rightarrow> nat option" where
  "it_GetDistanceFrom i j = do {
     ns_assert (it_data i = it_data j);
     Some (if it_current i < it_current j then it_current j - it_current i
           else it_current i - it_current j)
   }"

definition it_Next :: "nat \<Rightarrow> iterator \<Rightarrow> iterator option" where
  "it_Next delta i = do {
     ns_assert (it_current i + delta \<le> it_dataEnd i);
     Some (i\<lparr>it_current := it_current i + delta\<rparr>)
   }"

definition it_Prev :: "nat \<Rightarrow> iterator \<Rightarrow> iterator option" where
  "it_Prev delta i = do {
     ns_assert (it_current i \<ge> delta);
     Some (i\<lparr>it_current := it_current i - delta\<rparr>)
   }"

definition it_CheckNoZero :: "nat \<Rightarrow> nat \<Rightarrow> iterator \<Rightarrow> bool" where
  "it_CheckNoZero start e i \<longleftrightarrow> \<not> (start < it_dataStart i \<or> e > it_dataEnd i
     \<or> (e > it_zeroStart i \<and> start < it_zeroEnd i \<and> it_zeroEnd i \<noteq> it_zeroStart i \<and> start \<noteq> e))"

definition it_Check :: "nat \<Rightarrow> iterator \<Rightarrow> bool" where
  "it_Check k i \<longleftrightarrow> k \<ge> it_dataStart i \<and> \<not> (k \<ge> it_zeroStart i \<and> k < it_zeroEnd i) \<and> k \<le> it_dataEnd i"

text \<open>Access to the block of an iterator.\<close>

definition blk_write :: "nat \<Rightarrow> nat \<Rightarrow> u8 list \<Rightarrow> buf_store \<Rightarrow> buf_store option" where
  "blk_write a at src s = do {
     d \<leftarrow> s_heap s a;
     bytes \<leftarrow> mem_write (d_bytes d) at src;
     Some (s\<lparr>s_heap := (s_heap s)(a \<mapsto> d\<lparr>d_bytes := bytes\<rparr>)\<rparr>)
   }"

definition blk_read :: "nat \<Rightarrow> nat \<Rightarrow> nat \<Rightarrow> buf_store \<Rightarrow> u8 list option" where
  "blk_read a at n s = do { d \<leftarrow> s_heap s a; mem_read (d_bytes d) at n }"

definition it_advance :: "nat \<Rightarrow> iterator \<Rightarrow> iterator" where
  "it_advance n i = i\<lparr>it_current := it_current i + n\<rparr>"

definition it_WriteU8 :: "u8 \<Rightarrow> iterator \<Rightarrow> buf_store \<Rightarrow> (iterator \<times> buf_store) option" where
  "it_WriteU8 data i s = do {
     ns_assert (it_Check (it_current i) i);
     s' \<leftarrow> (if it_current i < it_zeroStart i then blk_write (it_data i) (it_current i) [data] s
           else blk_write (it_data i) (it_current i - (it_zeroEnd i - it_zeroStart i)) [data] s);
     Some (it_advance 1 i, s')
   }"

definition it_WriteU8_len :: "u8 \<Rightarrow> nat \<Rightarrow> iterator \<Rightarrow> buf_store \<Rightarrow> (iterator \<times> buf_store) option" where
  "it_WriteU8_len data len i s = do {
     ns_assert (it_CheckNoZero (it_current i) (it_current i + len) i);
     s' \<leftarrow> (if it_current i \<le> it_zeroStart i
           then blk_write (it_data i) (it_current i) (replicate len data) s
           else blk_write (it_data i) (it_current i - (it_zeroEnd i - it_zeroStart i)) (replicate len data) s);
     Some (it_advance len i, s')
   }"

text \<open>
  \<^verbatim>\<open>Write (buffer, size)\<close>.  The assertion of the code passes \<open>size\<close> where
  \<^verbatim>\<open>CheckNoZero\<close> takes an end position.
\<close>

definition it_Write_bytes :: "u8 list \<Rightarrow> iterator \<Rightarrow> buf_store \<Rightarrow> (iterator \<times> buf_store) option" where
  "it_Write_bytes buffer i s = do {
     ns_assert (it_CheckNoZero (it_current i) (length buffer) i);
     s' \<leftarrow> (if it_current i \<le> it_zeroStart i then blk_write (it_data i) (it_current i) buffer s
           else blk_write (it_data i) (it_current i - (it_zeroEnd i - it_zeroStart i)) buffer s);
     Some (it_advance (length buffer) i, s')
   }"

text \<open>Several bytes in network order, with one check for all of them.\<close>

definition it_write_block :: "u8 list \<Rightarrow> iterator \<Rightarrow> buf_store \<Rightarrow> (iterator \<times> buf_store) option" where
  "it_write_block bs i s = do {
     let n = length bs;
     ns_assert (it_CheckNoZero (it_current i) (it_current i + n) i);
     s' \<leftarrow> (if it_current i + n \<le> it_zeroStart i then blk_write (it_data i) (it_current i) bs s
           else blk_write (it_data i) (it_current i - (it_zeroEnd i - it_zeroStart i)) bs s);
     Some (it_advance n i, s')
   }"

text \<open>The bytes of an integer, most or least significant byte first.\<close>

definition hton16 :: "u16 \<Rightarrow> u8 list" where
  "hton16 d = [ucast (drop_bit 8 d), ucast d]"

definition hton32 :: "u32 \<Rightarrow> u8 list" where
  "hton32 d = [ucast (drop_bit 24 d), ucast (drop_bit 16 d), ucast (drop_bit 8 d), ucast d]"

definition hton64 :: "u64 \<Rightarrow> u8 list" where
  "hton64 d = [ucast (drop_bit 56 d), ucast (drop_bit 48 d), ucast (drop_bit 40 d), ucast (drop_bit 32 d),
     ucast (drop_bit 24 d), ucast (drop_bit 16 d), ucast (drop_bit 8 d), ucast d]"

definition lsb16 :: "u16 \<Rightarrow> u8 list" where
  "lsb16 d = rev (hton16 d)"

definition lsb32 :: "u32 \<Rightarrow> u8 list" where
  "lsb32 d = rev (hton32 d)"

definition lsb64 :: "u64 \<Rightarrow> u8 list" where
  "lsb64 d = rev (hton64 d)"

definition it_WriteHtonU16 :: "u16 \<Rightarrow> iterator \<Rightarrow> buf_store \<Rightarrow> (iterator \<times> buf_store) option" where
  "it_WriteHtonU16 d = it_write_block (hton16 d)"

definition it_WriteHtonU32 :: "u32 \<Rightarrow> iterator \<Rightarrow> buf_store \<Rightarrow> (iterator \<times> buf_store) option" where
  "it_WriteHtonU32 d = it_write_block (hton32 d)"

text \<open>The other integers are written byte by byte.\<close>

fun it_WriteU8s :: "u8 list \<Rightarrow> iterator \<Rightarrow> buf_store \<Rightarrow> (iterator \<times> buf_store) option" where
  "it_WriteU8s [] i s = Some (i, s)"
| "it_WriteU8s (x # xs) i s = do { (i', s') \<leftarrow> it_WriteU8 x i s; it_WriteU8s xs i' s' }"

definition it_WriteHtonU64 :: "u64 \<Rightarrow> iterator \<Rightarrow> buf_store \<Rightarrow> (iterator \<times> buf_store) option" where
  "it_WriteHtonU64 d = it_WriteU8s (hton64 d)"

definition it_WriteU16 :: "u16 \<Rightarrow> iterator \<Rightarrow> buf_store \<Rightarrow> (iterator \<times> buf_store) option" where
  "it_WriteU16 d = it_WriteU8s (lsb16 d)"

definition it_WriteU32 :: "u32 \<Rightarrow> iterator \<Rightarrow> buf_store \<Rightarrow> (iterator \<times> buf_store) option" where
  "it_WriteU32 d = it_WriteU8s (lsb32 d)"

definition it_WriteU64 :: "u64 \<Rightarrow> iterator \<Rightarrow> buf_store \<Rightarrow> (iterator \<times> buf_store) option" where
  "it_WriteU64 d = it_WriteU8s (lsb64 d)"

definition it_WriteHtolsbU16 :: "u16 \<Rightarrow> iterator \<Rightarrow> buf_store \<Rightarrow> (iterator \<times> buf_store) option" where
  "it_WriteHtolsbU16 d = it_WriteU8s (lsb16 d)"

definition it_WriteHtolsbU32 :: "u32 \<Rightarrow> iterator \<Rightarrow> buf_store \<Rightarrow> (iterator \<times> buf_store) option" where
  "it_WriteHtolsbU32 d = it_WriteU8s (lsb32 d)"

definition it_WriteHtolsbU64 :: "u64 \<Rightarrow> iterator \<Rightarrow> buf_store \<Rightarrow> (iterator \<times> buf_store) option" where
  "it_WriteHtolsbU64 d = it_WriteU8s (lsb64 d)"

text \<open>\<^verbatim>\<open>Write (start, end)\<close>: copy between two buffers, the zero area of the source as zeroes.\<close>

definition it_Write :: "iterator \<Rightarrow> iterator \<Rightarrow> iterator \<Rightarrow> buf_store \<Rightarrow> (iterator \<times> buf_store) option" where
  "it_Write start e i s = do {
     ns_assert (it_data start = it_data e);
     ns_assert (it_current start \<le> it_current e);
     ns_assert (it_zeroStart start = it_zeroStart e);
     ns_assert (it_zeroEnd start = it_zeroEnd e);
     ns_assert (it_data i \<noteq> it_data start);
     let size = it_current e - it_current start;
     ns_assert (it_CheckNoZero (it_current i) (it_current i + size) i);
     let toCopy1 = (if it_current start \<le> it_zeroStart start
                    then min size (it_zeroStart start - it_current start) else 0);
     src1 \<leftarrow> blk_read (it_data start) (it_current start) toCopy1 s;
     s1 \<leftarrow> blk_write (it_data i) (it_current i) src1 s;
     let cur1 = it_current start + toCopy1;
     let size1 = size - toCopy1;
     let toCopy2 = (if cur1 \<le> it_zeroEnd start then min size1 (it_zeroEnd start - cur1) else 0);
     s2 \<leftarrow> blk_write (it_data i) (it_current i + toCopy1) (replicate toCopy2 0) s1;
     let cur2 = cur1 + toCopy2;
     let toCopy3 = min (size1 - toCopy2) (it_dataEnd start - cur2);
     ns_assert (it_zeroEnd start - it_zeroStart start \<le> cur2);
     src3 \<leftarrow> blk_read (it_data start) (cur2 - (it_zeroEnd start - it_zeroStart start)) toCopy3 s2;
     s3 \<leftarrow> blk_write (it_data i) (it_current i + toCopy1 + toCopy2) src3 s2;
     Some (it_advance (toCopy1 + toCopy2 + toCopy3) i, s3)
   }"

section \<open>Reading\<close>

definition it_PeekU8 :: "iterator \<Rightarrow> buf_store \<Rightarrow> u8 option" where
  "it_PeekU8 i s = do {
     ns_assert (it_current i \<ge> it_dataStart i \<and> it_current i < it_dataEnd i);
     if it_current i < it_zeroStart i then map_option hd (blk_read (it_data i) (it_current i) 1 s)
     else if it_current i < it_zeroEnd i then Some 0
     else map_option hd (blk_read (it_data i) (it_current i - (it_zeroEnd i - it_zeroStart i)) 1 s)
   }"

definition it_ReadU8 :: "iterator \<Rightarrow> buf_store \<Rightarrow> (u8 \<times> iterator) option" where
  "it_ReadU8 i s = do { x \<leftarrow> it_PeekU8 i s; Some (x, it_advance 1 i) }"

text \<open>\<^verbatim>\<open>Read (buffer, size)\<close>, and the bytes that the multi-byte reads fetch first.\<close>

fun it_Read :: "nat \<Rightarrow> iterator \<Rightarrow> buf_store \<Rightarrow> (u8 list \<times> iterator) option" where
  "it_Read 0 i s = Some ([], i)"
| "it_Read (Suc n) i s = do {
     (x, i') \<leftarrow> it_ReadU8 i s;
     (xs, i'') \<leftarrow> it_Read n i' s;
     Some (x # xs, i'')
   }"

text \<open>Put the bytes together: shift in one byte after the other, most significant first.\<close>

definition ntoh :: "u8 list \<Rightarrow> 'a::len word" where
  "ntoh bs = foldl (\<lambda>retval b. push_bit 8 retval OR ucast b) 0 bs"

definition it_ReadU16 :: "iterator \<Rightarrow> buf_store \<Rightarrow> (u16 \<times> iterator) option" where
  "it_ReadU16 i s = do { (bs, i') \<leftarrow> it_Read 2 i s; Some (ntoh (rev bs), i') }"

definition it_ReadU32 :: "iterator \<Rightarrow> buf_store \<Rightarrow> (u32 \<times> iterator) option" where
  "it_ReadU32 i s = do { (bs, i') \<leftarrow> it_Read 4 i s; Some (ntoh (rev bs), i') }"

definition it_ReadU64 :: "iterator \<Rightarrow> buf_store \<Rightarrow> (u64 \<times> iterator) option" where
  "it_ReadU64 i s = do { (bs, i') \<leftarrow> it_Read 8 i s; Some (ntoh (rev bs), i') }"

definition it_ReadLsbtohU16 :: "iterator \<Rightarrow> buf_store \<Rightarrow> (u16 \<times> iterator) option" where
  "it_ReadLsbtohU16 i s = do { (bs, i') \<leftarrow> it_Read 2 i s; Some (ntoh (rev bs), i') }"

definition it_ReadLsbtohU32 :: "iterator \<Rightarrow> buf_store \<Rightarrow> (u32 \<times> iterator) option" where
  "it_ReadLsbtohU32 i s = do { (bs, i') \<leftarrow> it_Read 4 i s; Some (ntoh (rev bs), i') }"

definition it_ReadLsbtohU64 :: "iterator \<Rightarrow> buf_store \<Rightarrow> (u64 \<times> iterator) option" where
  "it_ReadLsbtohU64 i s = do { (bs, i') \<leftarrow> it_Read 8 i s; Some (ntoh (rev bs), i') }"

definition it_SlowReadNtohU16 :: "iterator \<Rightarrow> buf_store \<Rightarrow> (u16 \<times> iterator) option" where
  "it_SlowReadNtohU16 i s = do { (bs, i') \<leftarrow> it_Read 2 i s; Some (ntoh bs, i') }"

definition it_SlowReadNtohU32 :: "iterator \<Rightarrow> buf_store \<Rightarrow> (u32 \<times> iterator) option" where
  "it_SlowReadNtohU32 i s = do { (bs, i') \<leftarrow> it_Read 4 i s; Some (ntoh bs, i') }"

definition it_ReadNtohU64 :: "iterator \<Rightarrow> buf_store \<Rightarrow> (u64 \<times> iterator) option" where
  "it_ReadNtohU64 i s = do { (bs, i') \<leftarrow> it_Read 8 i s; Some (ntoh bs, i') }"

text \<open>The fast reads look at the block directly when the bytes are on one side of the zero area.\<close>

definition it_ReadNtohU16 :: "iterator \<Rightarrow> buf_store \<Rightarrow> (u16 \<times> iterator) option" where
  "it_ReadNtohU16 i s =
     (if it_current i + 2 \<le> it_zeroStart i
      then do { bs \<leftarrow> blk_read (it_data i) (it_current i) 2 s; Some (ntoh bs, it_advance 2 i) }
      else if it_current i \<ge> it_zeroEnd i
      then do { bs \<leftarrow> blk_read (it_data i) (it_current i - (it_zeroEnd i - it_zeroStart i)) 2 s;
                Some (ntoh bs, it_advance 2 i) }
      else it_SlowReadNtohU16 i s)"

definition it_ReadNtohU32 :: "iterator \<Rightarrow> buf_store \<Rightarrow> (u32 \<times> iterator) option" where
  "it_ReadNtohU32 i s =
     (if it_current i + 4 \<le> it_zeroStart i
      then do { bs \<leftarrow> blk_read (it_data i) (it_current i) 4 s; Some (ntoh bs, it_advance 4 i) }
      else if it_current i \<ge> it_zeroEnd i
      then do { bs \<leftarrow> blk_read (it_data i) (it_current i - (it_zeroEnd i - it_zeroStart i)) 4 s;
                Some (ntoh bs, it_advance 4 i) }
      else it_SlowReadNtohU32 i s)"

section \<open>Internet checksum\<close>

fun it_sum16 :: "nat \<Rightarrow> u32 \<Rightarrow> iterator \<Rightarrow> buf_store \<Rightarrow> (u32 \<times> iterator) option" where
  "it_sum16 0 acc i s = Some (acc, i)"
| "it_sum16 (Suc n) acc i s = do {
     (x, i') \<leftarrow> it_ReadU16 i s;
     it_sum16 n (acc + ucast x) i' s
   }"

text \<open>The folding loop: each step makes the sum smaller.\<close>

lemma unat_and_ffff: "unat ((w :: u32) AND 0xffff) = unat w mod 65536"
proof -
  have "(0xffff :: u32) = mask 16" by (simp add: mask_eq_exp_minus_1)
  then have "w AND 0xffff = take_bit 16 w" by (simp only: take_bit_eq_mask)
  then have "unat (w AND 0xffff) = take_bit 16 (unat w)" by (simp only: unsigned_take_bit_eq)
  then show ?thesis by (simp add: take_bit_eq_mod)
qed

lemma unat_drop_16: "unat (drop_bit 16 (w :: u32)) = unat w div 65536"
  by (simp add: drop_bit_eq_div unat_div)

lemma unat_fold_step:
  "unat (((w :: u32) AND 0xffff) + drop_bit 16 w) = unat w mod 65536 + unat w div 65536"
proof -
  have "unat w div 65536 < 65536" using unat_u32_bound [of w] by simp
  then show ?thesis
    by (subst unat_plus_no_wrap) (simp_all add: unat_and_ffff unat_drop_16)
qed

lemma fold_step_less: "0 < (n :: nat) div 65536 \<Longrightarrow> n mod 65536 + n div 65536 < n"
  using div_mult_mod_eq [of n 65536] by linarith

function fold_carry :: "u32 \<Rightarrow> u32" where
  "fold_carry acc = (if drop_bit 16 acc \<noteq> 0 then fold_carry ((acc AND 0xffff) + drop_bit 16 acc) else acc)"
  by pat_completeness auto
termination
proof (relation "measure unat", goal_cases)
  case (2 acc)
  then have "0 < unat (drop_bit 16 acc)" by (simp add: unat_gt_0)
  then show ?case by (simp add: unat_fold_step unat_drop_16 fold_step_less)
qed simp

definition it_CalculateIpChecksum :: "u16 \<Rightarrow> u32 \<Rightarrow> iterator \<Rightarrow> buf_store \<Rightarrow> (u16 \<times> iterator) option" where
  "it_CalculateIpChecksum sz initialChecksum i s = do {
     (acc, i1) \<leftarrow> it_sum16 (unat (sz div 2)) initialChecksum i s;
     (acc, i2) \<leftarrow> (if sz AND 1 \<noteq> 0 then do { (x, i2) \<leftarrow> it_ReadU8 i1 s; Some (acc + ucast x, i2) }
                  else Some (acc, i1));
     Some (ucast (NOT (fold_carry acc)), i2)
   }"

section \<open>Whole buffers\<close>

text \<open>
  \<^verbatim>\<open>CreateFullCopy\<close>: a buffer with a zero area becomes one without, in a new block.
\<close>

definition buf_CreateFullCopy :: "buffer \<Rightarrow> buf_store \<Rightarrow> (buffer \<times> buf_store) option" where
  "buf_CreateFullCopy b s =
     (let zeroSize = b_zeroAreaEnd b - b_zeroAreaStart b in
      if zeroSize \<noteq> 0
      then do {
        (tmp, s) \<leftarrow> buf_Initialize 0 s;
        (tmp, s) \<leftarrow> buf_AddAtStart zeroSize tmp s;
        (_, s) \<leftarrow> it_WriteU8_len 0 zeroSize (buf_Begin tmp) s;
        let dataStart = b_zeroAreaStart b - b_start b;
        (tmp, s) \<leftarrow> buf_AddAtStart dataStart tmp s;
        src \<leftarrow> blk_read (b_data b) (b_start b) dataStart s;
        (_, s) \<leftarrow> it_Write_bytes src (buf_Begin tmp) s;
        let dataEnd = b_end b - b_zeroAreaEnd b;
        (tmp, s) \<leftarrow> buf_AddAtEnd dataEnd tmp s;
        i \<leftarrow> it_Prev dataEnd (buf_End tmp);
        src \<leftarrow> blk_read (b_data b) (b_zeroAreaStart b) dataEnd s;
        (_, s) \<leftarrow> it_Write_bytes src i s;
        Some (tmp, s)
      }
      else buf_copy b s)"

text \<open>\<^verbatim>\<open>operator =\<close>.\<close>

definition buf_assign :: "buffer \<Rightarrow> buffer \<Rightarrow> buf_store \<Rightarrow> (buffer \<times> buf_store) option" where
  "buf_assign b o' s = do {
     s1 \<leftarrow> (if b_data b \<noteq> b_data o'
           then do {
             s \<leftarrow> buf_unref (b_data b) s;
             d \<leftarrow> s_heap s (b_data o');
             Some (s\<lparr>s_heap := (s_heap s)(b_data o' \<mapsto> d\<lparr>d_count := d_count d + 1\<rparr>)\<rparr>)
           }
           else Some s);
     Some (o', s1\<lparr>s_recommendedStart := max (s_recommendedStart s1) (b_maxZeroAreaStart b)\<rparr>)
   }"

definition buf_TransformIntoRealBuffer :: "buffer \<Rightarrow> buf_store \<Rightarrow> (buffer \<times> buf_store) option" where
  "buf_TransformIntoRealBuffer b s = do {
     (tmp, s) \<leftarrow> buf_CreateFullCopy b s;
     (b', s) \<leftarrow> buf_assign b tmp s;
     s \<leftarrow> buf_destroy tmp s;
     Some (b', s)
   }"

text \<open>\<^verbatim>\<open>AddAtEnd (o)\<close>: append another buffer.\<close>

definition buf_AddAtEnd_buffer :: "buffer \<Rightarrow> buffer \<Rightarrow> buf_store \<Rightarrow> (buffer \<times> buf_store) option" where
  "buf_AddAtEnd_buffer o' b s = do {
     d \<leftarrow> s_heap s (b_data b);
     if d_count d = 1 \<and> (b_end b = b_zeroAreaEnd b \<or> b_zeroAreaStart b = b_zeroAreaEnd b)
        \<and> b_end b = d_dirtyEnd d \<and> b_start o' = b_zeroAreaStart o'
        \<and> b_zeroAreaEnd o' - b_zeroAreaStart o' > 0
     then do {
       let b = (if b_zeroAreaStart b = b_zeroAreaEnd b then b\<lparr>b_zeroAreaStart := b_end b\<rparr> else b);
       let zeroSize = b_zeroAreaEnd o' - b_zeroAreaStart o';
       let b = b\<lparr>b_zeroAreaEnd := b_end b + zeroSize, b_end := b_end b + zeroSize\<rparr>;
       ns_assert (b_end b < 2 ^ 32);
       s \<leftarrow> set_dirty (b_data b) (d_dirtyStart d) (b_zeroAreaEnd b) s;
       let endData = b_end o' - b_zeroAreaEnd o';
       (b, s) \<leftarrow> buf_AddAtEnd endData b s;
       dst \<leftarrow> it_Prev endData (buf_End b);
       src \<leftarrow> it_Prev endData (buf_End o');
       (_, s) \<leftarrow> it_Write src (buf_End o') dst s;
       Some (b, s)
     }
     else do {
       (tmp, s) \<leftarrow> buf_CreateFullCopy b s;
       (b, s) \<leftarrow> buf_assign b tmp s;
       s \<leftarrow> buf_destroy tmp s;
       (b, s) \<leftarrow> buf_AddAtEnd (buf_GetSize o') b s;
       destStart \<leftarrow> it_Prev (buf_GetSize o') (buf_End b);
       (_, s) \<leftarrow> it_Write (buf_Begin o') (buf_End o') destStart s;
       Some (b, s)
     }
   }"

text \<open>\<^verbatim>\<open>CopyData (buffer, size)\<close>: the bytes that are copied out.\<close>

definition buf_CopyData :: "nat \<Rightarrow> buffer \<Rightarrow> buf_store \<Rightarrow> u8 list option" where
  "buf_CopyData n b s =
     (if n > 0
      then do {
        let tmpsize = min (b_zeroAreaStart b - b_start b) n;
        out1 \<leftarrow> blk_read (b_data b) (b_start b) tmpsize s;
        let size = n - tmpsize;
        if size > 0
        then do {
          let tmpsize = min (b_zeroAreaEnd b - b_zeroAreaStart b) size;
          let out2 = replicate tmpsize 0;
          let size = size - tmpsize;
          if size > 0
          then do {
            let tmpsize = min (b_end b - b_zeroAreaEnd b) size;
            out3 \<leftarrow> blk_read (b_data b) (b_zeroAreaStart b) tmpsize s;
            Some (out1 @ out2 @ out3)
          }
          else Some (out1 @ out2)
        }
        else Some out1
      }
      else Some [])"

declare fold_carry.simps [simp del] buf_search_free.simps [simp del]

end
