(* ===== verification/Buffer_Laws.thy ===== *)
theory Buffer_Laws
  imports Buffer
begin

text \<open>
  Correctness of the packet buffers: what a buffer contains, the consistency of the store
  with all buffers that are alive, and that each operation changes the contents of its own
  buffer as it should and of no other buffer, though they share memory.
\<close>

section \<open>Contents\<close>

definition buf_window :: "u8 list \<Rightarrow> buffer \<Rightarrow> u8 list" where
  "buf_window bytes b = take (b_zeroAreaStart b - b_start b) (drop (b_start b) bytes)
     @ replicate (b_zeroAreaEnd b - b_zeroAreaStart b) 0
     @ take (b_end b - b_zeroAreaEnd b) (drop (b_zeroAreaStart b) bytes)"

definition bytes_at :: "buf_store \<Rightarrow> nat \<Rightarrow> u8 list option" where
  "bytes_at s a = map_option d_bytes (s_heap s a)"

definition buf_content :: "buf_store \<Rightarrow> buffer \<Rightarrow> u8 list" where
  "buf_content s b = buf_window (the (bytes_at s (b_data b))) b"

definition buf_wf :: "buffer \<Rightarrow> buf_data \<Rightarrow> bool" where
  "buf_wf b d \<longleftrightarrow> b_start b \<le> b_zeroAreaStart b \<and> b_zeroAreaStart b \<le> b_zeroAreaEnd b
     \<and> b_zeroAreaEnd b \<le> b_end b \<and> b_end b < 2 ^ 32 \<and> buf_GetInternalEnd b \<le> d_size d
     \<and> d_dirtyStart d \<le> b_start b \<and> b_end b \<le> d_dirtyEnd d"

text \<open>The references to a block held by the live buffers.\<close>

definition refs :: "buffer multiset \<Rightarrow> nat \<Rightarrow> nat" where
  "refs bs a = size {#b \<in># bs. b_data b = a#}"

text \<open>
  The store is consistent with the live buffers \<open>bs\<close> and with the references \<open>X\<close> that an
  operation holds in between: the counts are right, the offsets of every buffer are ordered
  and inside its block and its dirty area, a buffer that reaches the end of the dirty area
  has no other buffer of its block beyond it, and free blocks are not referenced.
\<close>

definition store_ok :: "buf_store \<Rightarrow> buffer multiset \<Rightarrow> nat multiset \<Rightarrow> bool" where
  "store_ok s bs X \<longleftrightarrow>
     (\<forall>a d. s_heap s a = Some d \<longrightarrow> a < s_next s \<and> length (d_bytes d) = d_size d
        \<and> d_count d = refs bs a + count X a)
     \<and> (\<forall>b \<in># bs. \<exists>d. s_heap s (b_data b) = Some d \<and> buf_wf b d)
     \<and> (\<forall>b \<in># bs. \<forall>c \<in># bs. \<forall>d. s_heap s (b_data b) = Some d \<and> b_data c = b_data b
          \<and> b_end b = d_dirtyEnd d \<longrightarrow> buf_GetInternalEnd c \<le> buf_GetInternalEnd b)
     \<and> (\<forall>a \<in># X. s_heap s a \<noteq> None)
     \<and> (case s_freeList s of
          None \<Rightarrow> s_heap s = Map.empty
        | Some fl \<Rightarrow> distinct fl \<and> (\<forall>a \<in> set fl. \<exists>d. s_heap s a = Some d \<and> d_count d = 0))"

definition same_bytes :: "buf_store \<Rightarrow> buf_store \<Rightarrow> buffer multiset \<Rightarrow> bool" where
  "same_bytes s s' bs \<longleftrightarrow> (\<forall>b \<in># bs. bytes_at s' (b_data b) = bytes_at s (b_data b))"

lemma same_bytes_refl [simp]: "same_bytes s s bs"
  by (simp add: same_bytes_def)

lemma same_bytes_trans: "same_bytes s t bs \<Longrightarrow> same_bytes t u bs \<Longrightarrow> same_bytes s u bs"
  by (simp add: same_bytes_def)

lemma same_bytes_content: "same_bytes s s' bs \<Longrightarrow> b \<in># bs \<Longrightarrow> buf_content s' b = buf_content s b"
  by (simp add: same_bytes_def buf_content_def)

lemma refs_add: "refs (add_mset b bs) a = (if b_data b = a then Suc (refs bs a) else refs bs a)"
  by (simp add: refs_def)

lemma refs_pos: "b \<in># bs \<Longrightarrow> 0 < refs bs (b_data b)"
  by (auto simp: refs_def nonempty_has_size [symmetric] filter_mset_eq_conv)

lemma refs_zero: "refs bs a = 0 \<longleftrightarrow> (\<forall>b \<in># bs. b_data b \<noteq> a)"
  by (auto simp: refs_def)

text \<open>Turning a live buffer into a held reference, and back.\<close>

lemma store_ok_release:
  assumes "store_ok s (add_mset b bs) X"
  shows "store_ok s bs (add_mset (b_data b) X)"
proof -
  have "\<exists>d. s_heap s (b_data b) = Some d" using assms by (auto simp: store_ok_def)
  then show ?thesis using assms unfolding store_ok_def refs_add by (auto split: option.splits if_splits)
qed

lemma store_ok_own:
  assumes "store_ok s bs (add_mset a X)" and "b_data b = a" and "s_heap s a = Some d" and "buf_wf b d"
    and "\<And>c. c \<in># bs \<Longrightarrow> b_data c = a \<Longrightarrow> b_end c = d_dirtyEnd d \<Longrightarrow> buf_GetInternalEnd b \<le> buf_GetInternalEnd c"
    and "\<And>c. c \<in># bs \<Longrightarrow> b_data c = a \<Longrightarrow> b_end b = d_dirtyEnd d \<Longrightarrow> buf_GetInternalEnd c \<le> buf_GetInternalEnd b"
  shows "store_ok s (add_mset b bs) X"
  using assms unfolding store_ok_def refs_add by (auto split: option.splits)

text \<open>Facts about one live buffer.\<close>

lemma store_ok_buffer:
  assumes "store_ok s (add_mset b bs) X"
  obtains d where "s_heap s (b_data b) = Some d" and "buf_wf b d" and "length (d_bytes d) = d_size d"
    and "d_count d = Suc (refs bs (b_data b)) + count X (b_data b)"
  using assms unfolding store_ok_def refs_add by auto

lemma store_ok_ends:
  assumes "store_ok s (add_mset b bs) X" and "s_heap s (b_data b) = Some d" and "c \<in># bs"
    and "b_data c = b_data b"
  shows "b_end c = d_dirtyEnd d \<Longrightarrow> buf_GetInternalEnd b \<le> buf_GetInternalEnd c"
    and "b_end b = d_dirtyEnd d \<Longrightarrow> buf_GetInternalEnd c \<le> buf_GetInternalEnd b"
  using assms unfolding store_ok_def by auto

section \<open>Blocks\<close>

lemma buf_Recycle_ok:
  assumes ok: "store_ok s bs X" and h: "s_heap s a = Some d" "d_count d = 0"
    and fl: "s_freeList s = Some fl" "a \<notin> set fl"
  shows "\<exists>s'. buf_Recycle a s = Some s' \<and> store_ok s' bs X \<and> (\<forall>x. x \<noteq> a \<longrightarrow> s_heap s' x = s_heap s x)"
proof -
  have r: "refs bs a = 0" "count X a = 0" using ok h by (auto simp: store_ok_def)
  then have out: "\<forall>b \<in># bs. b_data b \<noteq> a" "a \<notin># X" by (simp_all add: refs_zero not_in_iff)
  let ?m = "max (s_maxSize s) (d_size d)"
  have "store_ok (s\<lparr>s_maxSize := ?m, s_heap := (s_heap s)(a := None)\<rparr>) bs X"
    using ok fl out unfolding store_ok_def by (auto split: if_splits)
  moreover have "store_ok (s\<lparr>s_maxSize := ?m, s_freeList := Some (fl @ [a])\<rparr>) bs X"
    using ok fl out h unfolding store_ok_def by auto
  ultimately show ?thesis using h fl by (simp add: buf_Recycle_def buf_Deallocate_def Let_def)
qed

lemma buf_unref_ok:
  assumes ok: "store_ok s bs (add_mset a X)"
  shows "\<exists>s'. buf_unref a s = Some s' \<and> store_ok s' bs X \<and> (\<forall>x. x \<noteq> a \<longrightarrow> s_heap s' x = s_heap s x)
    \<and> same_bytes s s' bs"
proof -
  obtain d where d: "s_heap s a = Some d" using ok by (auto simp: store_ok_def)
  have c: "d_count d = Suc (refs bs a + count X a)" using ok d by (auto simp: store_ok_def)
  let ?s = "s\<lparr>s_heap := (s_heap s)(a \<mapsto> d\<lparr>d_count := d_count d - 1\<rparr>)\<rparr>"
  obtain fl where fl: "s_freeList s = Some fl" using ok d by (cases "s_freeList s") (auto simp: store_ok_def)
  have nfl: "a \<notin> set fl" using ok fl d c by (auto simp: store_ok_def)
  have ok': "store_ok ?s bs X"
    using ok d c fl nfl unfolding store_ok_def by (auto simp: buf_wf_def split: if_splits)
  have sb: "same_bytes s ?s bs" using d by (auto simp: same_bytes_def bytes_at_def)
  show ?thesis
  proof (cases "d_count d = 1")
    case True
    then obtain s' where s': "buf_Recycle a ?s = Some s'" "store_ok s' bs X"
      "\<forall>x. x \<noteq> a \<longrightarrow> s_heap s' x = s_heap ?s x"
      using buf_Recycle_ok [OF ok', of a "d\<lparr>d_count := 0\<rparr>" fl] fl nfl by auto
    have "\<forall>b \<in># bs. b_data b \<noteq> a" using True c refs_zero [of bs a] by simp
    then have "same_bytes s s' bs" using s'(3) by (auto simp: same_bytes_def bytes_at_def)
    then show ?thesis using True d s' by (simp add: buf_unref_def Let_def)
  next
    case False
    moreover have "0 < d_count d" using c by simp
    ultimately have "buf_unref a s = Some ?s" using d by (simp add: buf_unref_def Let_def)
    then show ?thesis using ok' sb by auto
  qed
qed

text \<open>A new block: not referenced by any buffer, large enough, and the rest of the store as before.\<close>

definition new_block :: "buf_store \<Rightarrow> buf_store \<Rightarrow> nat \<Rightarrow> nat \<Rightarrow> buffer multiset \<Rightarrow> nat multiset \<Rightarrow> bool" where
  "new_block s s' n a bs X \<longleftrightarrow> store_ok s' bs (add_mset a X) \<and> (\<forall>b \<in># bs. b_data b \<noteq> a) \<and> a \<notin># X
     \<and> (\<exists>d. s_heap s' a = Some d \<and> n \<le> d_size d) \<and> same_bytes s s' bs
     \<and> (\<forall>x \<in># X. bytes_at s' x = bytes_at s x) \<and> s_recommendedStart s' = s_recommendedStart s"

lemma store_ok_fresh:
  assumes "store_ok s bs X" and "s_freeList s = Some fl"
  shows "s_heap s (s_next s) = None" and "\<forall>b \<in># bs. b_data b \<noteq> s_next s" and "s_next s \<notin># X"
    and "s_next s \<notin> set fl"
proof -
  show n: "s_heap s (s_next s) = None"
    using assms by (cases "s_heap s (s_next s)") (auto simp: store_ok_def)
  show "\<forall>b \<in># bs. b_data b \<noteq> s_next s" "s_next s \<notin># X" "s_next s \<notin> set fl"
    using assms n unfolding store_ok_def by fastforce+
qed

lemma buf_Allocate_ok:
  assumes ok: "store_ok s bs X" and fl: "s_freeList s = Some fl" and n: "n + 119 < 2 ^ 32"
  shows "\<exists>a s'. buf_Allocate n s = Some (a, s') \<and> new_block s s' n a bs X"
proof -
  note fresh = store_ok_fresh [OF ok fl]
  define m where "m = (if n = 0 then 1 else n) + 100"
  have m: "1 \<le> (if n = 0 then 1 else n)" "m - 1 + 20 < 2 ^ 32" "n \<le> m" using n by (auto simp: m_def)
  let ?d = "\<lparr>d_count = 1, d_size = m, d_dirtyStart = 0, d_dirtyEnd = 0, d_bytes = map (s_junk s) [0..<m]\<rparr>"
  let ?s = "s\<lparr>s_heap := (s_heap s)(s_next s \<mapsto> ?d), s_next := s_next s + 1\<rparr>"
  have r0: "refs bs (s_next s) = 0" "count X (s_next s) = 0"
    using fresh by (simp_all add: refs_zero not_in_iff)
  have blocks: "\<forall>a d. s_heap ?s a = Some d \<longrightarrow> a < s_next ?s \<and> length (d_bytes d) = d_size d
      \<and> d_count d = refs bs a + count (add_mset (s_next s) X) a"
    using ok r0 unfolding store_ok_def by (auto split: if_splits simp: less_Suc_eq)
  have same: "s_heap ?s (b_data b) = s_heap s (b_data b)" if "b \<in># bs" for b using fresh(2) that by auto
  have "store_ok ?s bs (add_mset (s_next s) X)"
    using ok fl fresh blocks same unfolding store_ok_def by auto
  moreover have "same_bytes s ?s bs" using same by (simp add: same_bytes_def bytes_at_def)
  moreover have "\<forall>x \<in># X. bytes_at ?s x = bytes_at s x" using fresh(3) by (auto simp: bytes_at_def)
  ultimately have "new_block s ?s n (s_next s) bs X" using fresh m(3) by (simp add: new_block_def)
  moreover have "buf_Allocate n s = Some (s_next s, ?s)"
    using m by (simp add: buf_Allocate_def m_def Let_def)
  ultimately show ?thesis by blast
qed

lemma new_block_trans:
  assumes "new_block t s' n a bs X" and "same_bytes s t bs" and "\<forall>x \<in># X. bytes_at t x = bytes_at s x"
    and "s_recommendedStart t = s_recommendedStart s"
  shows "new_block s s' n a bs X"
  using assms same_bytes_trans [of s t bs s'] by (simp add: new_block_def)

lemma buf_search_free_ok:
  assumes "store_ok s bs X" and "s_freeList s = Some fl"
  shows "\<exists>f s'. buf_search_free n fl s = Some (f, s') \<and> (case f of
      Some a \<Rightarrow> new_block s s' n a bs X
    | None \<Rightarrow> store_ok s' bs X \<and> s_freeList s' = Some [] \<and> same_bytes s s' bs
        \<and> (\<forall>x \<in># X. bytes_at s' x = bytes_at s x) \<and> s_recommendedStart s' = s_recommendedStart s)"
  using assms
proof (induction "length fl" arbitrary: fl s)
  case 0
  then show ?case by (simp add: buf_search_free.simps)
next
  case (Suc k)
  define a where "a = last fl"
  have "fl \<noteq> []" using Suc.hyps(2) by auto
  then have fl: "fl = butlast fl @ [a]" by (simp add: a_def)
  have mem: "a \<in> set fl" using \<open>fl \<noteq> []\<close> by (simp add: a_def)
  have free: "distinct fl" "\<forall>x \<in> set fl. \<exists>d. s_heap s x = Some d \<and> d_count d = 0"
    using Suc.prems unfolding store_ok_def by auto
  then obtain d where d: "s_heap s a = Some d" "d_count d = 0" using mem by blast
  have na: "a \<notin> set (butlast fl)" using free(1) by (subst (asm) fl) simp
  have r: "refs bs a = 0" "count X a = 0" using Suc.prems(1) d by (auto simp: store_ok_def)
  then have out: "\<forall>b \<in># bs. b_data b \<noteq> a" "a \<notin># X" by (simp_all add: refs_zero not_in_iff)
  have sub: "set (butlast fl) \<subseteq> set fl" by (meson in_set_butlastD subsetI)
  have dist': "distinct (butlast fl)" using free(1) by (rule distinct_butlast)
  show ?case
  proof (cases "n \<le> d_size d")
    case True
    let ?s = "s\<lparr>s_heap := (s_heap s)(a \<mapsto> d\<lparr>d_count := 1\<rparr>), s_freeList := Some (butlast fl)\<rparr>"
    have "store_ok ?s bs (add_mset a X)"
      using Suc.prems d r out na sub dist' unfolding store_ok_def by (auto split: if_splits)
    moreover have "same_bytes s ?s bs" using out by (auto simp: same_bytes_def bytes_at_def)
    moreover have "\<forall>x \<in># X. bytes_at ?s x = bytes_at s x" using out by (auto simp: bytes_at_def)
    ultimately have "new_block s ?s n a bs X" using out True by (simp add: new_block_def)
    moreover have "buf_search_free n fl s = Some (Some a, ?s)"
      using True d fl by (subst buf_search_free.simps) (auto simp: a_def Let_def)
    ultimately show ?thesis by simp
  next
    case False
    let ?s = "s\<lparr>s_freeList := Some (butlast fl), s_heap := (s_heap s)(a := None)\<rparr>"
    have ok: "store_ok ?s bs X"
      using Suc.prems d r out na sub dist' unfolding store_ok_def by (auto split: if_splits)
    have sb: "same_bytes s ?s bs" "\<forall>x \<in># X. bytes_at ?s x = bytes_at s x"
      using out by (auto simp: same_bytes_def bytes_at_def)
    have step: "buf_search_free n fl s = buf_search_free n (butlast fl) ?s"
      using False d fl by (subst buf_search_free.simps) (auto simp: a_def buf_Deallocate_def Let_def)
    obtain f s' where f: "buf_search_free n (butlast fl) ?s = Some (f, s')" and
      s': "case f of Some a \<Rightarrow> new_block ?s s' n a bs X
        | None \<Rightarrow> store_ok s' bs X \<and> s_freeList s' = Some [] \<and> same_bytes ?s s' bs
          \<and> (\<forall>x \<in># X. bytes_at s' x = bytes_at ?s x) \<and> s_recommendedStart s' = s_recommendedStart ?s"
      using Suc.hyps(1) [OF _ ok, of "butlast fl"] Suc.hyps(2) by force
    show ?thesis unfolding step f
      using s' sb new_block_trans [of ?s s' n _ bs X s] same_bytes_trans [of s ?s bs s']
      by (auto split: option.splits)
  qed
qed

lemma buf_Create_ok:
  assumes ok: "store_ok s bs X" and n: "n + 119 < 2 ^ 32"
  shows "\<exists>a s'. buf_Create n s = Some (a, s') \<and> new_block s s' n a bs X"
proof (cases "s_freeList s")
  case None
  let ?s = "s\<lparr>s_freeList := Some []\<rparr>"
  have "store_ok ?s bs X" using ok None unfolding store_ok_def by auto
  then obtain a s' where "buf_Allocate n ?s = Some (a, s')" "new_block ?s s' n a bs X"
    using buf_Allocate_ok [of ?s bs X "[]" n] n by auto
  moreover have "same_bytes s ?s bs" "\<forall>x \<in># X. bytes_at ?s x = bytes_at s x"
    by (simp_all add: same_bytes_def bytes_at_def)
  ultimately show ?thesis using None new_block_trans [of ?s s' n a bs X s] by (simp add: buf_Create_def)
next
  case (Some fl)
  obtain r s1 where e: "buf_search_free n fl s = Some (r, s1)" and
    sf: "case r of Some a \<Rightarrow> new_block s s1 n a bs X
      | None \<Rightarrow> store_ok s1 bs X \<and> s_freeList s1 = Some [] \<and> same_bytes s s1 bs
        \<and> (\<forall>x \<in># X. bytes_at s1 x = bytes_at s x) \<and> s_recommendedStart s1 = s_recommendedStart s"
    using buf_search_free_ok [OF ok Some, of n] by blast
  show ?thesis
  proof (cases r)
    case None
    then have s1: "store_ok s1 bs X" "s_freeList s1 = Some []" "same_bytes s s1 bs"
      "\<forall>x \<in># X. bytes_at s1 x = bytes_at s x" "s_recommendedStart s1 = s_recommendedStart s"
      using sf by simp_all
    then obtain a s' where "buf_Allocate n s1 = Some (a, s')" "new_block s1 s' n a bs X"
      using buf_Allocate_ok [of s1 bs X "[]" n] n by blast
    then show ?thesis
      using e None Some new_block_trans [OF _ s1(3,4,5)] by (simp add: buf_Create_def)
  next
    case (Some a)
    then show ?thesis using e sf \<open>s_freeList s = Some fl\<close> by (simp add: buf_Create_def)
  qed
qed

lemma store_ok_bytes:
  assumes "store_ok s bs X" and "s_heap s a = Some d" and "length bytes = d_size d"
  shows "store_ok (s\<lparr>s_heap := (s_heap s)(a \<mapsto> d\<lparr>d_bytes := bytes\<rparr>)\<rparr>) bs X"
proof -
  have "buf_wf b (d\<lparr>d_bytes := bytes\<rparr>) = buf_wf b d" for b by (simp add: buf_wf_def)
  then show ?thesis using assms unfolding store_ok_def by (auto split: option.splits if_splits)
qed

lemma mem_write_at:
  assumes "at + length src \<le> length mem"
  shows "\<exists>bytes. mem_write mem at src = Some bytes \<and> length bytes = length mem
    \<and> take (length src) (drop at bytes) = src"
  using assms by (simp add: mem_write_def)

lemma internal_size:
  assumes "buf_wf b d"
  shows "b_start b + buf_GetInternalSize b = buf_GetInternalEnd b"
    and "buf_GetInternalSize b \<le> buf_GetSize b"
  using assms by (auto simp: buf_wf_def buf_GetInternalSize_def buf_GetInternalEnd_def buf_GetSize_def)

lemma buf_realloc_ok:
  assumes ok: "store_ok s (add_mset b bs) X" and n: "buf_GetSize b + extra + 119 < 2 ^ 32" and at: "at \<le> extra"
  shows "\<exists>a s' d. buf_realloc extra at b s = Some (a, s') \<and> store_ok s' bs (add_mset a X)
    \<and> (\<forall>c \<in># bs. b_data c \<noteq> a) \<and> s_heap s' a = Some d \<and> buf_GetInternalSize b + extra \<le> d_size d
    \<and> same_bytes s s' bs
    \<and> take (buf_GetInternalSize b) (drop at (d_bytes d))
        = take (buf_GetInternalSize b) (drop (b_start b) (the (bytes_at s (b_data b))))"
proof -
  obtain d0 where d0: "s_heap s (b_data b) = Some d0" "buf_wf b d0" "length (d_bytes d0) = d_size d0"
    using store_ok_buffer [OF ok] by blast
  let ?n = "buf_GetInternalSize b + extra"
  have lim: "?n + 119 < 2 ^ 32" using n internal_size(2) [OF d0(2)] by simp
  then obtain a s1 where s1: "buf_Create ?n s = Some (a, s1)" "new_block s s1 ?n a (add_mset b bs) X"
    using buf_Create_ok [OF ok, of ?n] by blast
  then obtain d1 where d1: "s_heap s1 a = Some d1" "?n \<le> d_size d1" and ok1: "store_ok s1 (add_mset b bs) (add_mset a X)"
    and out: "b_data b \<noteq> a" "\<forall>c \<in># bs. b_data c \<noteq> a" and sb1: "same_bytes s s1 (add_mset b bs)"
    by (auto simp: new_block_def)
  have len1: "length (d_bytes d1) = d_size d1" using ok1 d1(1) by (auto simp: store_ok_def)
  obtain old where old: "s_heap s1 (b_data b) = Some old" "d_bytes old = d_bytes d0"
    using sb1 d0(1) by (auto simp: same_bytes_def bytes_at_def)
  define src where "src = take (buf_GetInternalSize b) (drop (b_start b) (d_bytes d0))"
  have ie: "b_start b + buf_GetInternalSize b \<le> d_size d0"
    using internal_size(1) [OF d0(2)] d0(2) by (simp add: buf_wf_def)
  then have rd: "mem_read (d_bytes old) (b_start b) (buf_GetInternalSize b) = Some src"
    "length src = buf_GetInternalSize b"
    using d0(3) old(2) by (simp_all add: mem_read_def src_def)
  obtain bytes where w: "mem_write (d_bytes d1) at src = Some bytes" "length bytes = d_size d1"
    "take (length src) (drop at bytes) = src"
    using mem_write_at [of at src "d_bytes d1"] rd(2) d1(2) len1 at by auto
  let ?s2 = "s1\<lparr>s_heap := (s_heap s1)(a \<mapsto> d1\<lparr>d_bytes := bytes\<rparr>)\<rparr>"
  have "store_ok ?s2 bs (add_mset (b_data b) (add_mset a X))"
    using store_ok_bytes [OF store_ok_release [OF ok1] d1(1) w(2)] .
  from buf_unref_ok [OF this] obtain s3 where s3: "buf_unref (b_data b) ?s2 = Some s3"
    "store_ok s3 bs (add_mset a X)" "\<forall>x. x \<noteq> b_data b \<longrightarrow> s_heap s3 x = s_heap ?s2 x" "same_bytes ?s2 s3 bs"
    by blast
  have h3: "s_heap s3 a = Some (d1\<lparr>d_bytes := bytes\<rparr>)" using s3(3) out(1) by simp
  have "same_bytes s ?s2 bs" using sb1 out(2) by (auto simp: same_bytes_def bytes_at_def)
  then have "same_bytes s s3 bs" using s3(4) same_bytes_trans by blast
  moreover have "buf_realloc extra at b s = Some (a, s3)"
    using lim s1(1) d1(1) old(1) rd(1) w(1) s3(1) by (simp add: buf_realloc_def Let_def)
  ultimately show ?thesis
    using s3(2) out(2) h3 d1(2) w(3) rd(2) d0(1) by (simp add: src_def bytes_at_def)
qed

section \<open>Growing a buffer\<close>

text \<open>The bytes of a buffer that are in memory, without its zero area.\<close>

definition buf_internal :: "u8 list \<Rightarrow> buffer \<Rightarrow> u8 list" where
  "buf_internal bytes b = take (buf_GetInternalSize b) (drop (b_start b) bytes)"

definition buf_ordered :: "buffer \<Rightarrow> bool" where
  "buf_ordered b \<longleftrightarrow> b_start b \<le> b_zeroAreaStart b \<and> b_zeroAreaStart b \<le> b_zeroAreaEnd b
     \<and> b_zeroAreaEnd b \<le> b_end b"

lemma buf_wf_ordered: "buf_wf b d \<Longrightarrow> buf_ordered b"
  by (simp add: buf_wf_def buf_ordered_def)

lemma window_internal:
  assumes "buf_ordered b"
  shows "buf_window bytes b =
    take (b_zeroAreaStart b - b_start b) (buf_internal bytes b)
    @ replicate (b_zeroAreaEnd b - b_zeroAreaStart b) 0
    @ drop (b_zeroAreaStart b - b_start b) (buf_internal bytes b)"
proof -
  define k m where "k = b_zeroAreaStart b - b_start b" and "m = b_end b - b_zeroAreaEnd b"
  have "buf_GetInternalSize b = k + m" "b_zeroAreaStart b = b_start b + k"
    using assms by (auto simp: buf_GetInternalSize_def buf_ordered_def k_def m_def)
  then show ?thesis
    by (simp add: buf_window_def buf_internal_def drop_take m_def [symmetric] add.commute)
qed

lemma length_window:
  assumes "buf_ordered b" and "buf_GetInternalEnd b \<le> length bytes"
  shows "length (buf_window bytes b) = buf_GetSize b"
  using assms by (auto simp: buf_window_def buf_GetInternalEnd_def buf_ordered_def buf_GetSize_def min_def)

lemma buf_note_zero_sel [simp]:
  "b_data (buf_note_zero b) = b_data b" "b_start (buf_note_zero b) = b_start b"
  "b_zeroAreaStart (buf_note_zero b) = b_zeroAreaStart b" "b_zeroAreaEnd (buf_note_zero b) = b_zeroAreaEnd b"
  "b_end (buf_note_zero b) = b_end b" "buf_GetInternalEnd (buf_note_zero b) = buf_GetInternalEnd b"
  "buf_GetInternalSize (buf_note_zero b) = buf_GetInternalSize b"
  "buf_wf (buf_note_zero b) d = buf_wf b d" "buf_window bytes (buf_note_zero b) = buf_window bytes b"
  by (simp_all add: buf_note_zero_def buf_GetInternalEnd_def buf_GetInternalSize_def buf_wf_def buf_window_def)

lemma start_inside: "buf_wf b d \<Longrightarrow> b_zeroAreaStart b \<le> d_size d"
  by (auto simp: buf_wf_def buf_GetInternalEnd_def)

text \<open>A buffer whose bytes were moved to a new block owns that block.\<close>

lemma own_new_block:
  assumes ok: "store_ok s1 bs (add_mset a X)" and out: "\<forall>c \<in># bs. b_data c \<noteq> a"
    and h: "s_heap s1 a = Some d1" and b1: "b_data b1 = a" "b_start b1 = 0" "buf_ordered b1" "b_end b1 < 2 ^ 32"
    and size: "buf_GetInternalEnd b1 \<le> d_size d1"
  shows "\<exists>s'. set_dirty a (b_start b1) (b_end b1) s1 = Some s' \<and> store_ok s' (add_mset (buf_note_zero b1) bs) X
    \<and> same_bytes s1 s' bs \<and> bytes_at s' a = Some (d_bytes d1)"
proof -
  define d' where "d' = d1\<lparr>d_dirtyStart := 0, d_dirtyEnd := b_end b1\<rparr>"
  define s' where "s' = s1\<lparr>s_heap := (s_heap s1)(a \<mapsto> d')\<rparr>"
  have "store_ok s' bs (add_mset a X)"
    using ok out h unfolding store_ok_def s'_def d'_def by (auto split: option.splits if_splits)
  moreover have "buf_wf b1 d'" using b1 size by (auto simp: buf_wf_def buf_ordered_def d'_def)
  ultimately have "store_ok s' (add_mset (buf_note_zero b1) bs) X"
    by (intro store_ok_own [where d = d']) (use out b1 in \<open>auto simp: s'_def\<close>)
  moreover have "same_bytes s1 s' bs" using out by (auto simp: same_bytes_def bytes_at_def s'_def)
  moreover have "set_dirty a (b_start b1) (b_end b1) s1 = Some s'"
    using h b1 by (simp add: set_dirty_def s'_def d'_def)
  moreover have "bytes_at s' a = Some (d_bytes d1)" by (simp add: bytes_at_def s'_def d'_def)
  ultimately show ?thesis by blast
qed

text \<open>
  Memory for new bytes at the start: \<open>n\<close> bytes that no other buffer shows, before the old
  contents.
\<close>

definition grown_start :: "buf_store \<Rightarrow> buffer \<Rightarrow> nat \<Rightarrow> buffer multiset \<Rightarrow> nat multiset
    \<Rightarrow> buffer \<Rightarrow> buf_store \<Rightarrow> bool" where
  "grown_start s b n bs X b' s' \<longleftrightarrow> store_ok s' (add_mset b' bs) X
    \<and> same_bytes s s' bs \<and> drop n (buf_content s' b') = buf_content s b
    \<and> buf_GetSize b' = buf_GetSize b + n \<and> b_start b' + n \<le> b_zeroAreaStart b'
    \<and> b_end b' \<le> b_end b + n
    \<and> b_zeroAreaEnd b' - b_zeroAreaStart b' = b_zeroAreaEnd b - b_zeroAreaStart b
    \<and> (\<forall>c \<in># bs. b_data c = b_data b' \<longrightarrow> b_start b' + n \<le> b_start c)"

lemma AddAtStart_in_place:
  assumes ok: "store_ok s (add_mset b bs) X"
    and d: "s_heap s (b_data b) = Some d" "buf_wf b d" "length (d_bytes d) = d_size d"
      "d_count d = Suc (refs bs (b_data b)) + count X (b_data b)"
    and fit: "b_start b \<ge> n" "\<not> (d_count d > 1 \<and> b_start b > d_dirtyStart d)"
  shows "\<exists>b' s'. buf_AddAtStart n b s = Some (b', s') \<and> grown_start s b n bs X b' s'"
proof -
  note wf = d(2) [unfolded buf_wf_def]
  define b' where "b' = buf_note_zero (b\<lparr>b_start := b_start b - n\<rparr>)"
  define s' where "s' = s\<lparr>s_heap := (s_heap s)(b_data b \<mapsto> d\<lparr>d_dirtyStart := b_start b - n\<rparr>)\<rparr>"
  have b': "b_data b' = b_data b" "b_start b' = b_start b - n" "b_zeroAreaStart b' = b_zeroAreaStart b"
    "b_zeroAreaEnd b' = b_zeroAreaEnd b" "b_end b' = b_end b" "buf_GetInternalEnd b' = buf_GetInternalEnd b"
    by (simp_all add: b'_def buf_GetInternalEnd_def)
  have shared: "d_dirtyStart d = b_start b" if "c \<in># bs" "b_data c = b_data b" for c
    using fit wf d(4) refs_pos [OF that(1)] that(2) by fastforce
  have others: "b_start b \<le> b_start c" if "c \<in># bs" "b_data c = b_data b" for c
    using ok that d(1) shared [OF that] unfolding store_ok_def buf_wf_def by fastforce
  have "d_count d = 1 \<or> b_start b = d_dirtyStart d" using fit wf d(4) by linarith
  then have "buf_AddAtStart n b s = Some (b', s')"
    using fit d(1) by (simp add: buf_AddAtStart_def Let_def set_dirty_def b'_def s'_def)
  moreover have "store_ok s' (add_mset b' bs) X"
  proof -
    have "store_ok s' bs (add_mset (b_data b) X)"
      using store_ok_release [OF ok] d(1) others unfolding store_ok_def s'_def
      by (auto simp: buf_wf_def split: option.splits if_splits) (meson diff_le_self le_trans)+
    moreover have "buf_wf b' (d\<lparr>d_dirtyStart := b_start b - n\<rparr>)" using wf b' by (auto simp: buf_wf_def)
    ultimately show ?thesis
      by (intro store_ok_own [where a = "b_data b" and d = "d\<lparr>d_dirtyStart := b_start b - n\<rparr>"])
        (use store_ok_ends [OF ok d(1)] in \<open>simp_all add: b' s'_def\<close>)
  qed
  moreover have "same_bytes s s' bs" using d(1) by (auto simp: same_bytes_def bytes_at_def s'_def)
  moreover have "drop n (buf_content s' b') = buf_content s b"
    using fit wf d(1,3) start_inside [OF d(2)]
    by (simp add: buf_content_def bytes_at_def s'_def b' buf_window_def drop_take)
  ultimately show ?thesis using fit wf others by (auto simp: grown_start_def b' buf_GetSize_def)
qed

lemma AddAtStart_moved:
  assumes ok: "store_ok s (add_mset b bs) X" and n: "buf_GetSize b + n + 119 < 2 ^ 32"
    and d: "s_heap s (b_data b) = Some d" "buf_wf b d"
    and nofit: "\<not> (b_start b \<ge> n \<and> \<not> (d_count d > 1 \<and> b_start b > d_dirtyStart d))"
  shows "\<exists>b' s'. buf_AddAtStart n b s = Some (b', s') \<and> grown_start s b n bs X b' s'"
proof -
  note wf = d(2) [unfolded buf_wf_def]
  obtain a s1 d1 where r: "buf_realloc n n b s = Some (a, s1)" "store_ok s1 bs (add_mset a X)"
    "\<forall>c \<in># bs. b_data c \<noteq> a" "s_heap s1 a = Some d1" "buf_GetInternalSize b + n \<le> d_size d1"
    "same_bytes s s1 bs" "take (buf_GetInternalSize b) (drop n (d_bytes d1)) = buf_internal (d_bytes d) b"
    using buf_realloc_ok [OF ok n, of n] d(1) by (auto simp: buf_internal_def bytes_at_def)
  define b1 where "b1 = b\<lparr>b_data := a, b_start := 0, b_zeroAreaStart := b_zeroAreaStart b - b_start b + n,
      b_zeroAreaEnd := b_zeroAreaEnd b - b_start b + n, b_end := b_end b - b_start b + n\<rparr>"
  have b1: "b_data b1 = a" "b_start b1 = 0" "buf_GetInternalSize b1 = buf_GetInternalSize b + n"
    "buf_GetInternalEnd b1 = buf_GetInternalSize b + n" "buf_ordered b1" "b_end b1 < 2 ^ 32"
    using wf n by (auto simp: b1_def buf_GetInternalSize_def buf_GetInternalEnd_def buf_ordered_def buf_GetSize_def)
  obtain s' where s': "set_dirty a (b_start b1) (b_end b1) s1 = Some s'"
    "store_ok s' (add_mset (buf_note_zero b1) bs) X" "same_bytes s1 s' bs" "bytes_at s' a = Some (d_bytes d1)"
    using own_new_block [OF r(2-4) b1(1,2,5,6)] b1(4) r(5) by auto
  have "buf_AddAtStart n b s = do { (a, s1) \<leftarrow> buf_realloc n n b s;
      let b' = b\<lparr>b_data := a, b_start := 0, b_zeroAreaStart := b_zeroAreaStart b - b_start b + n,
        b_zeroAreaEnd := b_zeroAreaEnd b - b_start b + n, b_end := b_end b - b_start b + n\<rparr>;
      ns_assert (b_end b' < 2 ^ 32);
      s2 \<leftarrow> set_dirty a (b_start b') (b_end b') s1;
      Some (buf_note_zero b', s2) }"
    using nofit d(1) by (auto simp: buf_AddAtStart_def Let_def)
  then have "buf_AddAtStart n b s = Some (buf_note_zero b1, s')"
    using r(1) s'(1) b1(6) by (simp add: b1_def)
  moreover have "drop n (buf_content s' (buf_note_zero b1)) = buf_content s b"
  proof -
    have len: "length (d_bytes d1) = d_size d1" using r(2,4) by (auto simp: store_ok_def)
    have "buf_content s' (buf_note_zero b1) = take (b_zeroAreaStart b - b_start b + n) (buf_internal (d_bytes d1) b1)
        @ replicate (b_zeroAreaEnd b - b_zeroAreaStart b) 0
        @ drop (b_zeroAreaStart b - b_start b + n) (buf_internal (d_bytes d1) b1)"
      using window_internal [OF b1(5), of "d_bytes d1"] wf s'(4)
      by (simp add: buf_content_def b1(1)) (simp add: b1_def)
    moreover have "buf_internal (d_bytes d1) b1 = take n (d_bytes d1) @ buf_internal (d_bytes d) b"
      using r(7) by (simp add: buf_internal_def b1 take_add add.commute)
    moreover have "length (take n (d_bytes d1)) = n" using len r(5) by simp
    ultimately show ?thesis
      using window_internal [OF buf_wf_ordered [OF d(2)], of "d_bytes d"] d(1)
      by (simp add: buf_content_def bytes_at_def)
  qed
  ultimately show ?thesis
    using wf r(3) s'(2) same_bytes_trans [OF r(6) s'(3)]
    by (auto simp: grown_start_def buf_GetSize_def b1) (auto simp: b1_def)
qed

lemma buf_AddAtStart_ok:
  assumes ok: "store_ok s (add_mset b bs) X" and n: "buf_GetSize b + n + 119 < 2 ^ 32"
  shows "\<exists>b' s'. buf_AddAtStart n b s = Some (b', s') \<and> grown_start s b n bs X b' s'"
  using store_ok_buffer [OF ok] AddAtStart_in_place [OF ok] AddAtStart_moved [OF ok n] by metis

text \<open>Memory for new bytes at the end.\<close>

definition grown_end :: "buf_store \<Rightarrow> buffer \<Rightarrow> nat \<Rightarrow> buffer multiset \<Rightarrow> nat multiset
    \<Rightarrow> buffer \<Rightarrow> buf_store \<Rightarrow> bool" where
  "grown_end s b n bs X b' s' \<longleftrightarrow> store_ok s' (add_mset b' bs) X
    \<and> same_bytes s s' bs \<and> take (buf_GetSize b) (buf_content s' b') = buf_content s b
    \<and> buf_GetSize b' = buf_GetSize b + n \<and> b_zeroAreaEnd b' + n \<le> b_end b'
    \<and> b_zeroAreaStart b' - b_start b' = b_zeroAreaStart b - b_start b
    \<and> b_zeroAreaEnd b' - b_zeroAreaStart b' = b_zeroAreaEnd b - b_zeroAreaStart b
    \<and> (\<forall>c \<in># bs. b_data c = b_data b' \<longrightarrow> buf_GetInternalEnd c + n \<le> buf_GetInternalEnd b')"

lemma content_length:
  assumes "s_heap s (b_data b) = Some d" and "buf_wf b d" and "length (d_bytes d) = d_size d"
  shows "length (buf_content s b) = buf_GetSize b"
  using length_window [OF buf_wf_ordered [OF assms(2)], of "d_bytes d"] assms
  by (simp add: buf_content_def bytes_at_def buf_wf_def)

text \<open>Extending the dirty area to the new end of a buffer that reaches the old one.\<close>

lemma store_ok_extend:
  assumes ok: "store_ok s (add_mset b bs) X" and d: "s_heap s (b_data b) = Some d"
    and atEnd: "\<And>c. c \<in># bs \<Longrightarrow> b_data c = b_data b \<Longrightarrow> b_end b = d_dirtyEnd d"
  shows "store_ok (s\<lparr>s_heap := (s_heap s)(b_data b \<mapsto> d\<lparr>d_dirtyEnd := b_end b + n\<rparr>)\<rparr>) bs (add_mset (b_data b) X)"
proof -
  have cend: "b_end c \<le> b_end b" if "c \<in># bs" "b_data c = b_data b" for c
    using ok that d atEnd [OF that] unfolding store_ok_def buf_wf_def by fastforce
  have "buf_GetInternalEnd e \<le> buf_GetInternalEnd c"
    if "c \<in># bs" "e \<in># bs" "b_data c = b_data b" "b_data e = b_data b" "b_end c = b_end b + n" for c e
  proof -
    have "b_end c = d_dirtyEnd d" using that cend [OF that(1,3)] atEnd [OF that(1,3)] by simp
    then show ?thesis using ok that d unfolding store_ok_def by fastforce
  qed
  moreover have "buf_wf c (d\<lparr>d_dirtyEnd := b_end b + n\<rparr>)" if "c \<in># bs" "b_data c = b_data b" for c
    using ok that d cend [OF that] unfolding store_ok_def buf_wf_def by fastforce
  ultimately show ?thesis
    using store_ok_release [OF ok] d unfolding store_ok_def by (auto split: option.splits if_splits)
qed

lemma AddAtEnd_in_place:
  assumes ok: "store_ok s (add_mset b bs) X" and n: "b_end b + n + 119 < 2 ^ 32"
    and d: "s_heap s (b_data b) = Some d" "buf_wf b d" "length (d_bytes d) = d_size d"
      "d_count d = Suc (refs bs (b_data b)) + count X (b_data b)"
    and fit: "buf_GetInternalEnd b + n \<le> d_size d" "\<not> (d_count d > 1 \<and> b_end b < d_dirtyEnd d)"
  shows "\<exists>b' s'. buf_AddAtEnd n b s = Some (b', s') \<and> grown_end s b n bs X b' s'"
proof -
  note wf = d(2) [unfolded buf_wf_def]
  define b1 where "b1 = b\<lparr>b_end := b_end b + n\<rparr>"
  define s' where "s' = s\<lparr>s_heap := (s_heap s)(b_data b \<mapsto> d\<lparr>d_dirtyEnd := b_end b + n\<rparr>)\<rparr>"
  have b1: "b_data b1 = b_data b" "b_start b1 = b_start b" "b_zeroAreaStart b1 = b_zeroAreaStart b"
    "b_zeroAreaEnd b1 = b_zeroAreaEnd b" "b_end b1 = b_end b + n"
    "buf_GetInternalEnd b1 = buf_GetInternalEnd b + n"
    using wf by (auto simp: b1_def buf_GetInternalEnd_def)
  have atEnd: "b_end b = d_dirtyEnd d" if "c \<in># bs" "b_data c = b_data b" for c
    using fit wf d(4) refs_pos [OF that(1)] that(2) by fastforce
  have others: "buf_GetInternalEnd c \<le> buf_GetInternalEnd b" if "c \<in># bs" "b_data c = b_data b" for c
    using store_ok_ends(2) [OF ok d(1) that atEnd [OF that]] .
  have o1: "buf_GetInternalEnd b + n \<le> buf_GetInternalEnd c"
    if "c \<in># bs" "b_data c = b_data b" "b_end c = b_end b + n" for c
  proof -
    have "b_end c \<le> b_end b" using ok that d(1) atEnd [OF that(1,2)] unfolding store_ok_def buf_wf_def by fastforce
    then show ?thesis using that(3) atEnd [OF that(1,2)] store_ok_ends(1) [OF ok d(1) that(1,2)] by simp
  qed
  have o2: "buf_GetInternalEnd c \<le> buf_GetInternalEnd b + n" if "c \<in># bs" "b_data c = b_data b" for c
    using others [OF that] by simp
  have "d_count d = 1 \<or> b_end b = d_dirtyEnd d" using fit wf d(4) by linarith
  then have "buf_AddAtEnd n b s = Some (buf_note_zero b1, s')"
    using fit d(1) n by (simp add: buf_AddAtEnd_def Let_def set_dirty_def b1_def s'_def)
  moreover have "store_ok s' (add_mset (buf_note_zero b1) bs) X"
  proof -
    have "buf_wf b1 (d\<lparr>d_dirtyEnd := b_end b + n\<rparr>)" using wf b1 fit n by (auto simp: buf_wf_def)
    then show ?thesis
      using store_ok_extend [OF ok d(1) atEnd, where n = n]
      by (intro store_ok_own [where a = "b_data b" and d = "d\<lparr>d_dirtyEnd := b_end b + n\<rparr>"])
        (use o1 o2 in \<open>simp_all add: b1 s'_def\<close>)
  qed
  moreover have "same_bytes s s' bs" using d(1) by (auto simp: same_bytes_def bytes_at_def s'_def)
  moreover have "take (buf_GetSize b) (buf_content s' (buf_note_zero b1)) = buf_content s b"
  proof -
    have "b_end b + n - b_zeroAreaEnd b = (b_end b - b_zeroAreaEnd b) + n" using wf by linarith
    then have "buf_content s' (buf_note_zero b1) = buf_content s b
        @ take n (drop (b_end b - b_zeroAreaEnd b) (drop (b_zeroAreaStart b) (d_bytes d)))"
      using d(1) by (simp add: buf_content_def bytes_at_def s'_def b1(1))
        (simp only: buf_window_def b1 take_add append_assoc drop_drop)
    then show ?thesis using content_length [OF d(1-3)] by simp
  qed
  ultimately show ?thesis using wf others by (auto simp: grown_end_def buf_GetSize_def b1)
qed

lemma AddAtEnd_moved:
  assumes ok: "store_ok s (add_mset b bs) X" and n: "b_end b + n + 119 < 2 ^ 32"
    and d: "s_heap s (b_data b) = Some d" "buf_wf b d" "length (d_bytes d) = d_size d"
    and nofit: "\<not> (buf_GetInternalEnd b + n \<le> d_size d \<and> \<not> (d_count d > 1 \<and> b_end b < d_dirtyEnd d))"
  shows "\<exists>b' s'. buf_AddAtEnd n b s = Some (b', s') \<and> grown_end s b n bs X b' s'"
proof -
  note wf = d(2) [unfolded buf_wf_def]
  have lim: "buf_GetSize b + n + 119 < 2 ^ 32" using n by (simp add: buf_GetSize_def)
  obtain a s1 d1 where r: "buf_realloc n 0 b s = Some (a, s1)" "store_ok s1 bs (add_mset a X)"
    "\<forall>c \<in># bs. b_data c \<noteq> a" "s_heap s1 a = Some d1" "buf_GetInternalSize b + n \<le> d_size d1"
    "same_bytes s s1 bs" "take (buf_GetInternalSize b) (d_bytes d1) = buf_internal (d_bytes d) b"
    using buf_realloc_ok [OF ok lim, of 0] d(1) by (auto simp: buf_internal_def bytes_at_def)
  define b1 where "b1 = b\<lparr>b_data := a, b_start := 0, b_zeroAreaStart := b_zeroAreaStart b - b_start b,
      b_zeroAreaEnd := b_zeroAreaEnd b - b_start b, b_end := b_end b - b_start b + n\<rparr>"
  have b1: "b_data b1 = a" "b_start b1 = 0" "buf_GetInternalSize b1 = buf_GetInternalSize b + n"
    "buf_GetInternalEnd b1 = buf_GetInternalSize b + n" "buf_ordered b1" "b_end b1 < 2 ^ 32"
    using wf n by (auto simp: b1_def buf_GetInternalSize_def buf_GetInternalEnd_def buf_ordered_def)
  obtain s' where s': "set_dirty a (b_start b1) (b_end b1) s1 = Some s'"
    "store_ok s' (add_mset (buf_note_zero b1) bs) X" "same_bytes s1 s' bs" "bytes_at s' a = Some (d_bytes d1)"
    using own_new_block [OF r(2-4) b1(1,2,5,6)] b1(4) r(5) by auto
  have "buf_AddAtEnd n b s = do { (a, s1) \<leftarrow> buf_realloc n 0 b s;
      let b' = b\<lparr>b_data := a, b_start := 0, b_zeroAreaStart := b_zeroAreaStart b - b_start b,
        b_zeroAreaEnd := b_zeroAreaEnd b - b_start b, b_end := b_end b - b_start b + n\<rparr>;
      ns_assert (b_end b' < 2 ^ 32);
      s2 \<leftarrow> set_dirty a (b_start b') (b_end b') s1;
      Some (buf_note_zero b', s2) }"
    using nofit d(1) by (auto simp: buf_AddAtEnd_def Let_def)
  then have "buf_AddAtEnd n b s = Some (buf_note_zero b1, s')"
    using r(1) s'(1) b1(6) by (simp add: b1_def)
  moreover have "take (buf_GetSize b) (buf_content s' (buf_note_zero b1)) = buf_content s b"
  proof -
    let ?k = "b_zeroAreaStart b - b_start b"
    have "buf_content s' (buf_note_zero b1) = take ?k (buf_internal (d_bytes d1) b1)
        @ replicate (b_zeroAreaEnd b - b_zeroAreaStart b) 0 @ drop ?k (buf_internal (d_bytes d1) b1)"
      using window_internal [OF b1(5), of "d_bytes d1"] wf s'(4)
      by (simp add: buf_content_def b1(1)) (simp add: b1_def)
    moreover have "buf_internal (d_bytes d1) b1
        = buf_internal (d_bytes d) b @ take n (drop (buf_GetInternalSize b) (d_bytes d1))"
      using r(7) by (simp add: buf_internal_def b1 take_add)
    moreover have "?k \<le> length (buf_internal (d_bytes d) b)"
      using wf d(3) by (auto simp: buf_internal_def buf_GetInternalSize_def buf_GetInternalEnd_def)
    ultimately have "buf_content s' (buf_note_zero b1)
        = buf_content s b @ take n (drop (buf_GetInternalSize b) (d_bytes d1))"
      using window_internal [OF buf_wf_ordered [OF d(2)], of "d_bytes d"] d(1)
      by (simp add: buf_content_def bytes_at_def)
    then show ?thesis using content_length [OF d] by simp
  qed
  ultimately show ?thesis
    using wf r(3) s'(2) same_bytes_trans [OF r(6) s'(3)]
    by (auto simp: grown_end_def buf_GetSize_def b1) (auto simp: b1_def)
qed

lemma buf_AddAtEnd_ok:
  assumes ok: "store_ok s (add_mset b bs) X" and n: "b_end b + n + 119 < 2 ^ 32"
  shows "\<exists>b' s'. buf_AddAtEnd n b s = Some (b', s') \<and> grown_end s b n bs X b' s'"
  using store_ok_buffer [OF ok] AddAtEnd_in_place [OF ok n] AddAtEnd_moved [OF ok n] by metis

section \<open>Shrinking, copying and destroying\<close>

lemma store_ok_shrink:
  assumes ok: "store_ok s (add_mset b bs) X" and d: "s_heap s (b_data b) = Some d" and wf: "buf_wf b' d"
    and b': "b_data b' = b_data b" "b_end b' \<le> b_end b" "buf_GetInternalEnd b' \<le> buf_GetInternalEnd b"
      "b_end b' = b_end b \<Longrightarrow> buf_GetInternalEnd b' = buf_GetInternalEnd b"
  shows "store_ok s (add_mset b' bs) X"
proof (rule store_ok_own [OF store_ok_release [OF ok] b'(1) d wf])
  fix c assume c: "c \<in># bs" "b_data c = b_data b"
  show "b_end c = d_dirtyEnd d \<Longrightarrow> buf_GetInternalEnd b' \<le> buf_GetInternalEnd c"
    using store_ok_ends(1) [OF ok d c] b'(3) by simp
  have "b_end b \<le> d_dirtyEnd d" using ok d by (auto simp: store_ok_def buf_wf_def)
  then show "b_end b' = d_dirtyEnd d \<Longrightarrow> buf_GetInternalEnd c \<le> buf_GetInternalEnd b'"
    using store_ok_ends(2) [OF ok d c] b'(2,4) by simp
qed

text \<open>A buffer on the same block with other offsets.\<close>

definition with_offsets :: "buffer \<Rightarrow> nat \<Rightarrow> nat \<Rightarrow> nat \<Rightarrow> nat \<Rightarrow> buffer" where
  "with_offsets b st zs ze e =
     buf_note_zero (b\<lparr>b_start := st, b_zeroAreaStart := zs, b_zeroAreaEnd := ze, b_end := e\<rparr>)"

lemma with_offsets_sel:
  "b_data (with_offsets b st zs ze e) = b_data b" "b_end (with_offsets b st zs ze e) = e"
  "buf_GetInternalEnd (with_offsets b st zs ze e) = e - (ze - zs)"
  "buf_wf (with_offsets b st zs ze e) d \<longleftrightarrow> st \<le> zs \<and> zs \<le> ze \<and> ze \<le> e \<and> e < 2 ^ 32
     \<and> e - (ze - zs) \<le> d_size d \<and> d_dirtyStart d \<le> st \<and> e \<le> d_dirtyEnd d"
  "buf_window bytes (with_offsets b st zs ze e)
     = take (zs - st) (drop st bytes) @ replicate (ze - zs) 0 @ take (e - ze) (drop zs bytes)"
  by (simp_all add: with_offsets_def buf_GetInternalEnd_def buf_wf_def buf_window_def)

lemma with_offsets_same:
  "buf_note_zero b = with_offsets b (b_start b) (b_zeroAreaStart b) (b_zeroAreaEnd b) (b_end b)"
  by (simp add: with_offsets_def)

lemma window_parts:
  assumes "buf_wf b d" and "length bytes = d_size d"
  obtains st zs ze e where "b_start b = st" "b_zeroAreaStart b = zs" "b_zeroAreaEnd b = ze" "b_end b = e"
    "st \<le> zs" "zs \<le> ze" "ze \<le> e" "e < 2 ^ 32" "d_dirtyStart d \<le> st" "e \<le> d_dirtyEnd d"
    "e - (ze - zs) \<le> d_size d" "length (take (zs - st) (drop st bytes)) = zs - st"
    "length (take (e - ze) (drop zs bytes)) = e - ze"
    "buf_window bytes b = take (zs - st) (drop st bytes) @ replicate (ze - zs) 0 @ take (e - ze) (drop zs bytes)"
    "buf_GetInternalEnd b = e - (ze - zs)"
  using assms by (auto simp: buf_wf_def buf_window_def buf_GetInternalEnd_def)

text \<open>Cutting a list that consists of bytes, zeroes and bytes.\<close>

lemma drop_three:
  fixes A B :: "u8 list"
  assumes "length A = a" and "length B = c"
  shows "n \<le> a \<Longrightarrow> drop n (A @ replicate z 0 @ B) = drop n A @ replicate z 0 @ B"
    and "a \<le> n \<Longrightarrow> n \<le> a + z \<Longrightarrow> drop n (A @ replicate z 0 @ B) = replicate (a + z - n) 0 @ B"
    and "a + z \<le> n \<Longrightarrow> drop n (A @ replicate z 0 @ B) = drop (n - (a + z)) B"
    and "a + z + c \<le> n \<Longrightarrow> drop n (A @ replicate z 0 @ B) = []"
  using assms by auto

lemma take_three:
  fixes A B :: "u8 list"
  assumes "length A = a"
  shows "n \<le> a \<Longrightarrow> take n (A @ replicate z 0 @ B) = take n A"
    and "a \<le> n \<Longrightarrow> n \<le> a + z \<Longrightarrow> take n (A @ replicate z 0 @ B) = A @ replicate (n - a) 0"
    and "a + z \<le> n \<Longrightarrow> take n (A @ replicate z 0 @ B) = A @ replicate z 0 @ take (n - (a + z)) B"
  using assms by (auto simp: min_def)

lemma buf_RemoveAtStart_wf:
  assumes wf: "buf_wf b d" and len: "length bytes = d_size d" and n: "b_start b + n < 2 ^ 32"
  shows "\<exists>b'. buf_RemoveAtStart n b = Some b' \<and> buf_wf b' d \<and> b_data b' = b_data b \<and> b_end b' \<le> b_end b
    \<and> buf_GetInternalEnd b' = buf_GetInternalEnd b \<and> buf_window bytes b' = drop n (buf_window bytes b)"
proof -
  obtain st zs ze e where f: "b_start b = st" "b_zeroAreaStart b = zs" "b_zeroAreaEnd b = ze" "b_end b = e"
    and o: "st \<le> zs" "zs \<le> ze" "ze \<le> e" "e < 2 ^ 32" "d_dirtyStart d \<le> st" "e \<le> d_dirtyEnd d"
      "e - (ze - zs) \<le> d_size d"
    and l: "length (take (zs - st) (drop st bytes)) = zs - st" "length (take (e - ze) (drop zs bytes)) = e - ze"
    and win: "buf_window bytes b = take (zs - st) (drop st bytes) @ replicate (ze - zs) 0 @ take (e - ze) (drop zs bytes)"
    and ie: "buf_GetInternalEnd b = e - (ze - zs)"
    using window_parts [OF wf len] by metis
  have n': "st + n < 2 ^ 32" using n f by simp
  note R = buf_RemoveAtStart_def Let_def with_offsets_def
  have fin: ?thesis
    if "buf_RemoveAtStart n b = Some (with_offsets b st' zs' ze' e')" "buf_wf (with_offsets b st' zs' ze' e') d"
      "e' \<le> e" "e' - (ze' - zs') = e - (ze - zs)"
      "take (zs' - st') (drop st' bytes) @ replicate (ze' - zs') 0 @ take (e' - ze') (drop zs' bytes)
        = drop n (buf_window bytes b)" for st' zs' ze' e'
    using that by (auto simp: with_offsets_sel f ie)
  consider "st + n \<le> zs" | "zs < st + n" "st + n \<le> ze" | "ze < st + n" "st + n \<le> e" | "e < st + n"
    by linarith
  then show ?thesis
  proof cases
    case 1
    show ?thesis
    proof (rule fin)
      show "buf_RemoveAtStart n b = Some (with_offsets b (st + n) zs ze e)" using 1 n' by (simp add: R flip: f)
    qed (use 1 o l in \<open>auto simp: with_offsets_sel win drop_take add.commute\<close>)
  next
    case 2
    define m where "m = st + n - zs"
    have m: "m \<le> ze - zs" "zs - st + (ze - zs) - n = ze - m - zs" "e - ze = (e - m) - (ze - m)"
      "zs - st \<le> n" "n \<le> zs - st + (ze - zs)"
      using 2 o by (auto simp: m_def)
    show ?thesis
    proof (rule fin)
      show "buf_RemoveAtStart n b = Some (with_offsets b zs zs (ze - m) (e - m))"
        using 2 n' by (simp add: R m_def flip: f)
      show "take (zs - zs) (drop zs bytes) @ replicate (ze - m - zs) 0 @ take (e - m - (ze - m)) (drop zs bytes)
          = drop n (buf_window bytes b)"
        by (simp only: win drop_three(2) [OF l m(4,5)] m(2) m(3) [symmetric] diff_self_eq_0 take_0 append_Nil)
    qed (use m(1) o in \<open>auto simp: with_offsets_sel\<close>)
  next
    case 3
    define k where "k = st + n - (ze - zs)"
    have k: "zs \<le> k" "k \<le> e - (ze - zs)" "n - (zs - st + (ze - zs)) = k - zs" "zs - st + (ze - zs) \<le> n"
      "e - ze - (k - zs) = e - (ze - zs) - k"
      using 3 o by (auto simp: k_def)
    show ?thesis
    proof (rule fin)
      show "buf_RemoveAtStart n b = Some (with_offsets b k k k (e - (ze - zs)))"
        using 3 n' o by (simp add: R k_def flip: f)
      show "take (k - k) (drop k bytes) @ replicate (k - k) 0 @ take (e - (ze - zs) - k) (drop k bytes)
          = drop n (buf_window bytes b)"
        unfolding win drop_three(3) [OF l k(4)] k(3) drop_take k(5) using k(1) by simp
    qed (use k(1,2) o in \<open>auto simp: with_offsets_sel\<close>)
  next
    case 4
    define k where "k = e - (ze - zs)"
    have k: "zs - st + (ze - zs) + (e - ze) \<le> n" "zs \<le> k" using 4 o by (auto simp: k_def)
    show ?thesis
    proof (rule fin)
      show "buf_RemoveAtStart n b = Some (with_offsets b k k k k)"
        using 4 n' o by (simp add: R k_def flip: f)
      show "take (k - k) (drop k bytes) @ replicate (k - k) 0 @ take (k - k) (drop k bytes)
          = drop n (buf_window bytes b)"
        unfolding win drop_three(4) [OF l k(1)] by simp
    qed (use k(2) o k_def in \<open>auto simp: with_offsets_sel\<close>)
  qed
qed

lemma buf_RemoveAtEnd_wf:
  assumes wf: "buf_wf b d" and len: "length bytes = d_size d"
  shows "\<exists>b'. buf_RemoveAtEnd n b = b' \<and> buf_wf b' d \<and> b_data b' = b_data b \<and> b_end b' \<le> b_end b
    \<and> buf_GetInternalEnd b' \<le> buf_GetInternalEnd b
    \<and> (b_end b' = b_end b \<longrightarrow> buf_GetInternalEnd b' = buf_GetInternalEnd b)
    \<and> buf_window bytes b' = take (buf_GetSize b - n) (buf_window bytes b)"
proof -
  obtain st zs ze e where f: "b_start b = st" "b_zeroAreaStart b = zs" "b_zeroAreaEnd b = ze" "b_end b = e"
    and o: "st \<le> zs" "zs \<le> ze" "ze \<le> e" "e < 2 ^ 32" "d_dirtyStart d \<le> st" "e \<le> d_dirtyEnd d"
      "e - (ze - zs) \<le> d_size d"
    and l: "length (take (zs - st) (drop st bytes)) = zs - st" "length (take (e - ze) (drop zs bytes)) = e - ze"
    and win: "buf_window bytes b = take (zs - st) (drop st bytes) @ replicate (ze - zs) 0 @ take (e - ze) (drop zs bytes)"
    and ie: "buf_GetInternalEnd b = e - (ze - zs)"
    using window_parts [OF wf len] by metis
  define m where "m = e - min n (e - st)"
  have m: "st \<le> m" "m \<le> e" and size: "buf_GetSize b - n = m - st"
    using o by (auto simp: m_def min_def buf_GetSize_def f)
  note R = buf_RemoveAtEnd_def Let_def with_offsets_def m_def
  have fin: ?thesis
    if "buf_RemoveAtEnd n b = with_offsets b st zs' ze' m" "buf_wf (with_offsets b st zs' ze' m) d"
      "m - (ze' - zs') \<le> e - (ze - zs)" "m = e \<Longrightarrow> ze' - zs' = ze - zs"
      "take (zs' - st) (drop st bytes) @ replicate (ze' - zs') 0 @ take (m - ze') (drop zs' bytes)
        = take (m - st) (buf_window bytes b)" for zs' ze'
    using that m unfolding size by (auto simp: with_offsets_sel f ie)
  consider "ze < m" | "zs < m" "m \<le> ze" | "st < m" "m \<le> zs" | "m = st" using m by linarith
  then show ?thesis
  proof cases
    case 1
    have c: "zs - st + (ze - zs) \<le> m - st" "m - st - (zs - st + (ze - zs)) = m - ze" using 1 o by auto
    show ?thesis
    proof (rule fin)
      show "buf_RemoveAtEnd n b = with_offsets b st zs ze m" using 1 by (simp add: R flip: f)
      show "take (zs - st) (drop st bytes) @ replicate (ze - zs) 0 @ take (m - ze) (drop zs bytes)
          = take (m - st) (buf_window bytes b)"
        unfolding win take_three(3) [OF l(1) c(1)] c(2) take_take using m(2) by (simp add: min_def)
    qed (use 1 o m in \<open>auto simp: with_offsets_sel\<close>)
  next
    case 2
    have c: "zs - st \<le> m - st" "m - st \<le> zs - st + (ze - zs)" "m - st - (zs - st) = m - zs" using 2 o by auto
    show ?thesis
    proof (rule fin)
      show "buf_RemoveAtEnd n b = with_offsets b st zs m m" using 2 by (simp add: R flip: f)
      show "take (zs - st) (drop st bytes) @ replicate (m - zs) 0 @ take (m - m) (drop zs bytes)
          = take (m - st) (buf_window bytes b)"
        unfolding win take_three(2) [OF l(1) c(1,2)] c(3) by simp
    qed (use 2 o m in \<open>auto simp: with_offsets_sel\<close>)
  next
    case 3
    have c: "m - st \<le> zs - st" using 3 by auto
    show ?thesis
    proof (rule fin)
      show "buf_RemoveAtEnd n b = with_offsets b st m m m" using 3 o by (simp add: R flip: f)
      show "take (m - st) (drop st bytes) @ replicate (m - m) 0 @ take (m - m) (drop m bytes)
          = take (m - st) (buf_window bytes b)"
        unfolding win take_three(1) [OF l(1) c] take_take using c by (simp add: min_def)
    qed (use 3 o m in \<open>auto simp: with_offsets_sel\<close>)
  next
    case 4
    show ?thesis
    proof (rule fin)
      show "buf_RemoveAtEnd n b = with_offsets b st st st m" using 4 o by (simp add: R flip: f)
    qed (use 4 o m in \<open>auto simp: with_offsets_sel\<close>)
  qed
qed

end
