(* ===== verification/Buffer_Access.thy ===== *)
theory Buffer_Access
  imports Buffer_Laws
begin

text \<open>
  Reading and writing packet buffers: live buffers under copying, cutting and destruction,
  the effect of iterator writes on the buffers that share a block, what the reads return,
  and the Internet checksum.
\<close>

section \<open>Live buffers\<close>

lemma buf_RemoveAtStart_ok:
  assumes ok: "store_ok s (add_mset b bs) X" and n: "b_start b + n < 2 ^ 32"
  shows "\<exists>b'. buf_RemoveAtStart n b = Some b' \<and> store_ok s (add_mset b' bs) X
    \<and> buf_content s b' = drop n (buf_content s b) \<and> b_data b' = b_data b"
proof -
  obtain d where d: "s_heap s (b_data b) = Some d" "buf_wf b d" "length (d_bytes d) = d_size d"
    using store_ok_buffer [OF ok] by blast
  obtain b' where b': "buf_RemoveAtStart n b = Some b'" "buf_wf b' d" "b_data b' = b_data b" "b_end b' \<le> b_end b"
    "buf_GetInternalEnd b' = buf_GetInternalEnd b"
    "buf_window (d_bytes d) b' = drop n (buf_window (d_bytes d) b)"
    using buf_RemoveAtStart_wf [OF d(2,3) n] by blast
  then show ?thesis
    using store_ok_shrink [OF ok d(1) b'(2-4)] d(1) by (simp add: buf_content_def bytes_at_def)
qed

lemma buf_RemoveAtEnd_ok:
  assumes ok: "store_ok s (add_mset b bs) X"
  shows "store_ok s (add_mset (buf_RemoveAtEnd n b) bs) X
    \<and> buf_content s (buf_RemoveAtEnd n b) = take (buf_GetSize b - n) (buf_content s b)"
proof -
  obtain d where d: "s_heap s (b_data b) = Some d" "buf_wf b d" "length (d_bytes d) = d_size d"
    using store_ok_buffer [OF ok] by blast
  obtain b' where b': "buf_RemoveAtEnd n b = b'" "buf_wf b' d" "b_data b' = b_data b" "b_end b' \<le> b_end b"
    "buf_GetInternalEnd b' \<le> buf_GetInternalEnd b"
    "b_end b' = b_end b \<longrightarrow> buf_GetInternalEnd b' = buf_GetInternalEnd b"
    "buf_window (d_bytes d) b' = take (buf_GetSize b - n) (buf_window (d_bytes d) b)"
    using buf_RemoveAtEnd_wf [OF d(2,3)] by blast
  then show ?thesis
    using store_ok_shrink [OF ok d(1) b'(2-5)] d(1) by (simp add: buf_content_def bytes_at_def)
qed

lemma content_size: "store_ok s (add_mset b bs) X \<Longrightarrow> length (buf_content s b) = buf_GetSize b"
  by (erule store_ok_buffer) (rule content_length)

text \<open>A copy shares the block of the original.\<close>

lemma buf_copy_ok:
  assumes ok: "store_ok s (add_mset b bs) X"
  shows "\<exists>b' s'. buf_copy b s = Some (b', s') \<and> store_ok s' (add_mset b' (add_mset b bs)) X
    \<and> same_bytes s s' (add_mset b bs) \<and> buf_content s' b' = buf_content s b
    \<and> b_start b' = b_start b \<and> buf_GetSize b' = buf_GetSize b"
proof -
  obtain d where d: "s_heap s (b_data b) = Some d" "buf_wf b d" using store_ok_buffer [OF ok] by blast
  let ?d = "d\<lparr>d_count := d_count d + 1\<rparr>"
  let ?s = "s\<lparr>s_heap := (s_heap s)(b_data b \<mapsto> ?d)\<rparr>"
  let ?b = "b\<lparr>b_maxZeroAreaStart := b_zeroAreaStart b\<rparr>"
  have "b_data b \<notin> set fl" if "s_freeList s = Some fl" for fl
    using ok d(1) that refs_pos [of b "add_mset b bs"] unfolding store_ok_def by fastforce
  then have ok': "store_ok ?s (add_mset b bs) (add_mset (b_data b) X)"
    using ok d unfolding store_ok_def by (auto simp: buf_wf_def split: option.splits if_splits)
  have ie: "buf_GetInternalEnd ?b = buf_GetInternalEnd b" by (simp add: buf_GetInternalEnd_def)
  have "store_ok ?s (add_mset ?b (add_mset b bs)) X"
  proof (rule store_ok_own [OF ok'])
    show "s_heap ?s (b_data b) = Some ?d" "b_data ?b = b_data b" by simp_all
    show "buf_wf ?b ?d" using d(2) by (simp add: buf_wf_def ie)
  qed (use store_ok_ends [OF ok d(1)] ie in auto)
  moreover have "buf_copy b s = Some (?b, ?s)" by (simp add: buf_copy_def d(1))
  moreover have "same_bytes s ?s (add_mset b bs)" using d(1) by (auto simp: same_bytes_def bytes_at_def)
  moreover have "buf_content ?s ?b = buf_content s b"
    using d(1) by (simp add: buf_content_def bytes_at_def buf_window_def)
  ultimately show ?thesis by (simp add: buf_GetSize_def)
qed

lemma store_ok_recommended: "store_ok (s\<lparr>s_recommendedStart := r\<rparr>) bs X = store_ok s bs X"
  by (simp add: store_ok_def cong: option.case_cong)

lemma buf_destroy_ok:
  assumes "store_ok s (add_mset b bs) X"
  shows "\<exists>s'. buf_destroy b s = Some s' \<and> store_ok s' bs X \<and> same_bytes s s' bs"
proof -
  let ?s = "s\<lparr>s_recommendedStart := max (s_recommendedStart s) (b_maxZeroAreaStart b)\<rparr>"
  have "store_ok ?s bs (add_mset (b_data b) X)"
    using store_ok_release [OF assms] by (simp add: store_ok_recommended)
  then show ?thesis
    using buf_unref_ok [of ?s bs "b_data b" X] by (auto simp: buf_destroy_def same_bytes_def bytes_at_def)
qed

text \<open>A new buffer: zeroes only, in a block of its own.\<close>

lemma buf_Initialize_ok:
  assumes ok: "store_ok s bs X" and n: "s_recommendedStart s + n < 2 ^ 32"
  shows "\<exists>b s'. buf_Initialize n s = Some (b, s') \<and> store_ok s' (add_mset b bs) X
    \<and> same_bytes s s' bs \<and> buf_content s' b = replicate n 0
    \<and> b_end b \<le> s_recommendedStart s + n"
proof -
  obtain a s1 where s1: "buf_Create 0 s = Some (a, s1)" "new_block s s1 0 a bs X"
    using buf_Create_ok [OF ok, of 0] by auto
  then obtain d where d: "s_heap s1 a = Some d" and ok1: "store_ok s1 bs (add_mset a X)"
    and out: "\<forall>c \<in># bs. b_data c \<noteq> a" and sb: "same_bytes s s1 bs"
    and rec: "s_recommendedStart s1 = s_recommendedStart s"
    by (auto simp: new_block_def)
  define st where "st = min (d_size d) (s_recommendedStart s1)"
  define b where "b = \<lparr>b_data = a, b_maxZeroAreaStart = st, b_zeroAreaStart = st,
      b_zeroAreaEnd = st + n, b_start = st, b_end = st + n\<rparr>"
  define d' where "d' = d\<lparr>d_dirtyStart := st, d_dirtyEnd := st + n\<rparr>"
  define s' where "s' = s1\<lparr>s_heap := (s_heap s1)(a \<mapsto> d')\<rparr>"
  have lim: "st + n < 2 ^ 32" using n rec by (simp add: st_def min_def)
  have "store_ok s' bs (add_mset a X)"
    using ok1 out d unfolding store_ok_def s'_def d'_def by (auto split: option.splits if_splits)
  moreover have "buf_wf b d'" using lim by (auto simp: buf_wf_def b_def d'_def st_def buf_GetInternalEnd_def)
  ultimately have "store_ok s' (add_mset b bs) X"
    by (intro store_ok_own [where d = d' and a = a]) (use out in \<open>auto simp: s'_def b_def\<close>)
  moreover have "buf_Initialize n s = Some (b, s')"
    using s1(1) d lim by (simp add: buf_Initialize_def Let_def b_def s'_def d'_def st_def)
  moreover have "same_bytes s s' bs" using sb out by (auto simp: same_bytes_def bytes_at_def s'_def)
  moreover have "buf_content s' b = replicate n 0"
    by (simp add: buf_content_def bytes_at_def s'_def b_def buf_window_def)
  moreover have "b_end b \<le> s_recommendedStart s + n" using rec by (simp add: b_def st_def)
  ultimately show ?thesis by blast
qed

section \<open>Writing\<close>

lemma blk_write_step:
  assumes "s_heap s a = Some d" and "at + length src \<le> length (d_bytes d)"
  shows "blk_write a at src s = Some (s\<lparr>s_heap := (s_heap s)(a \<mapsto>
    d\<lparr>d_bytes := take at (d_bytes d) @ src @ drop (at + length src) (d_bytes d)\<rparr>)\<rparr>)"
  using assms by (simp add: blk_write_def mem_write_def)

lemma blk_write_Cons:
  assumes "s_heap s a = Some d" and "at + length (x # xs) \<le> length (d_bytes d)"
  shows "do { s' \<leftarrow> blk_write a at [x] s; blk_write a (at + 1) xs s' } = blk_write a at (x # xs) s"
proof -
  let ?bytes = "take at (d_bytes d) @ [x] @ drop (at + 1) (d_bytes d)"
  have "blk_write a at [x] s = Some (s\<lparr>s_heap := (s_heap s)(a \<mapsto> d\<lparr>d_bytes := ?bytes\<rparr>)\<rparr>)"
    using blk_write_step [OF assms(1), of at "[x]"] assms(2) by simp
  moreover have "at + 1 + length xs \<le> length ?bytes" using assms(2) by simp
  ultimately show ?thesis
    using assms by (simp add: blk_write_step [OF assms(1)] blk_write_step [of _ a "d\<lparr>d_bytes := ?bytes\<rparr>"]
        add.commute)
qed

text \<open>Where the bytes of an iterator are in its block.\<close>

definition it_index :: "iterator \<Rightarrow> nat \<Rightarrow> nat" where
  "it_index i p = (if p < it_zeroStart i then p else p - (it_zeroEnd i - it_zeroStart i))"

lemma it_advance_sel [simp]:
  "it_data (it_advance n i) = it_data i" "it_current (it_advance n i) = it_current i + n"
  "it_zeroStart (it_advance n i) = it_zeroStart i" "it_zeroEnd (it_advance n i) = it_zeroEnd i"
  "it_dataStart (it_advance n i) = it_dataStart i" "it_dataEnd (it_advance n i) = it_dataEnd i"
  "it_advance m (it_advance n i) = it_advance (n + m) i" "it_index (it_advance n i) p = it_index i p"
  by (simp_all add: it_advance_def it_index_def)

text \<open>Writing byte by byte and writing in one go are the same.\<close>

lemma it_write_block_index:
  assumes "it_CheckNoZero (it_current i) (it_current i + length bs) i" and "it_zeroStart i \<le> it_zeroEnd i"
    and "bs \<noteq> []"
  shows "it_write_block bs i s = do {
    s' \<leftarrow> blk_write (it_data i) (it_index i (it_current i)) bs s; Some (it_advance (length bs) i, s') }"
proof -
  obtain m where len: "length bs = Suc m" using assms(3) by (cases bs) auto
  have "(if it_current i + length bs \<le> it_zeroStart i then it_current i
      else it_current i - (it_zeroEnd i - it_zeroStart i)) = it_index i (it_current i)"
    using assms(1,2) len unfolding it_CheckNoZero_def it_index_def by auto
  then show ?thesis using assms(1) by (auto simp: it_write_block_def Let_def)
qed

lemma it_WriteU8s_block:
  assumes "it_CheckNoZero (it_current i) (it_current i + length bs) i" and "it_zeroStart i \<le> it_zeroEnd i"
    and "bs \<noteq> []" and "s_heap s (it_data i) = Some d"
    and "it_index i (it_current i) + length bs \<le> length (d_bytes d)"
  shows "it_WriteU8s bs i s = it_write_block bs i s"
  using assms
proof (induction bs arbitrary: i s d)
  case (Cons x xs)
  let ?p = "it_index i (it_current i)" and ?i = "it_advance 1 i"
  have chk: "it_Check (it_current i) i" using Cons.prems(1) by (auto simp: it_CheckNoZero_def it_Check_def)
  have w8: "it_WriteU8 x i s = do { s' \<leftarrow> blk_write (it_data i) ?p [x] s; Some (?i, s') }"
    using chk by (simp add: it_WriteU8_def it_index_def)
  define s1 where "s1 = s\<lparr>s_heap := (s_heap s)(it_data i \<mapsto>
      d\<lparr>d_bytes := take ?p (d_bytes d) @ [x] @ drop (?p + 1) (d_bytes d)\<rparr>)\<rparr>"
  have b1: "blk_write (it_data i) ?p [x] s = Some s1"
    using blk_write_step [OF Cons.prems(4), of ?p "[x]"] Cons.prems(5) by (simp add: s1_def)
  show ?case
  proof (cases "xs = []")
    case True
    then show ?thesis using w8 b1 it_write_block_index [OF Cons.prems(1-3)] by simp
  next
    case False
    have ix: "it_index ?i (it_current ?i) = ?p + 1"
    proof -
      obtain m where "length xs = Suc m" using False by (cases xs) auto
      then show ?thesis using Cons.prems(1,2) by (auto simp: it_index_def it_CheckNoZero_def)
    qed
    have c: "it_CheckNoZero (it_current ?i) (it_current ?i + length xs) ?i"
      using Cons.prems(1) False by (auto simp: it_CheckNoZero_def)
    have "it_WriteU8s xs ?i s1 = it_write_block xs ?i s1"
      using Cons.IH [OF c, of s1] False Cons.prems(2,5) ix by (simp add: s1_def)
    also have "\<dots> = do { s' \<leftarrow> blk_write (it_data i) (?p + 1) xs s1; Some (it_advance (length xs) ?i, s') }"
      using it_write_block_index [OF c _ False, of s1] Cons.prems(2) ix by simp
    finally have "it_WriteU8s (x # xs) i s
        = do { s' \<leftarrow> blk_write (it_data i) (?p + 1) xs s1; Some (it_advance (length xs) ?i, s') }"
      using w8 b1 by simp
    moreover have "blk_write (it_data i) (?p + 1) xs s1 = blk_write (it_data i) ?p (x # xs) s"
      using blk_write_Cons [OF Cons.prems(4), of ?p x xs] Cons.prems(5) b1 by simp
    ultimately show ?thesis using it_write_block_index [OF Cons.prems(1-3)] by simp
  qed
qed simp

text \<open>A write to bytes that only one buffer shows.\<close>

lemma window_write_front:
  assumes "b_start b + length bs \<le> b_zeroAreaStart b" and "b_zeroAreaStart b \<le> length bytes"
  shows "buf_window (take (b_start b) bytes @ bs @ drop (b_start b + length bs) bytes) b
    = bs @ drop (length bs) (buf_window bytes b)"
proof -
  define k where "k = b_zeroAreaStart b - (b_start b + length bs)"
  have k: "b_zeroAreaStart b = b_start b + length bs + k" using assms(1) by (simp add: k_def)
  have "length (take (b_start b) bytes) = b_start b" using assms by simp
  then show ?thesis
    using assms(2) by (simp add: buf_window_def k drop_take add.commute add.left_commute)
qed

lemma window_write_below:
  assumes "at + length bs \<le> b_start b" and "buf_ordered b" and "at + length bs \<le> length bytes"
  shows "buf_window (take at bytes @ bs @ drop (at + length bs) bytes) b = buf_window bytes b"
proof -
  have d: "drop k (take at bytes @ bs @ drop (at + length bs) bytes) = drop k bytes" if "at + length bs \<le> k" for k
    using that assms(3) by simp
  have "at + length bs \<le> b_zeroAreaStart b" using assms(1,2) by (simp add: buf_ordered_def)
  then show ?thesis by (simp only: buf_window_def d [OF assms(1)] d)
qed

lemma window_write_above:
  assumes "buf_GetInternalEnd b \<le> at" and "buf_ordered b" and "at + length bs \<le> length bytes"
  shows "buf_window (take at bytes @ bs @ drop (at + length bs) bytes) b = buf_window bytes b"
proof -
  have "take n (drop k (take at bytes @ bs @ drop (at + length bs) bytes)) = take n (drop k bytes)"
    if "k + n \<le> at" for k n
    using that assms(3) by (simp add: take_drop min_def)
  then show ?thesis using assms by (auto simp: buf_window_def buf_ordered_def buf_GetInternalEnd_def)
qed

lemma window_write_back:
  assumes "b_zeroAreaEnd b + length bs \<le> b_end b" and "buf_ordered b" and "buf_GetInternalEnd b \<le> length bytes"
    and "at = buf_GetInternalEnd b - length bs"
  shows "buf_window (take at bytes @ bs @ drop (at + length bs) bytes) b
    = take (buf_GetSize b - length bs) (buf_window bytes b) @ bs"
proof -
  define k where "k = b_end b - (b_zeroAreaEnd b + length bs)"
  have k: "b_end b - b_zeroAreaEnd b = k + length bs" "at = b_zeroAreaStart b + k"
    "b_start b \<le> b_zeroAreaStart b" "b_zeroAreaStart b + k + length bs \<le> length bytes"
    using assms by (auto simp: k_def buf_GetInternalEnd_def buf_ordered_def)
  have sz: "buf_GetSize b - length bs = (b_zeroAreaStart b - b_start b) + (b_zeroAreaEnd b - b_zeroAreaStart b) + k"
    using assms by (auto simp: k_def buf_GetSize_def buf_ordered_def)
  let ?new = "take at bytes @ bs @ drop (at + length bs) bytes"
  have f: "take (b_zeroAreaStart b - b_start b) (drop (b_start b) ?new)
      = take (b_zeroAreaStart b - b_start b) (drop (b_start b) bytes)"
    using k by (simp add: take_drop min_def)
  have g: "take (k + length bs) (drop (b_zeroAreaStart b) ?new) = take k (drop (b_zeroAreaStart b) bytes) @ bs"
    using k by (simp add: drop_take)
  have l: "length (take (b_zeroAreaStart b - b_start b) (drop (b_start b) bytes)) = b_zeroAreaStart b - b_start b"
    using k by simp
  show ?thesis
    unfolding sz buf_window_def k(1) f g take_three(3) [OF l le_add1] by simp
qed

text \<open>
  A write into a block, seen by the live buffers: those whose bytes are all above or all
  below the written range keep their contents.
\<close>

lemma write_frame:
  assumes ok: "store_ok s bs X" and h: "s_heap s a = Some d" and fits: "at + length src \<le> length (d_bytes d)"
    and s': "blk_write a at src s = Some s'" and c: "c \<in># bs"
    and apart: "b_data c = a \<Longrightarrow> at + length src \<le> b_start c \<or> buf_GetInternalEnd c \<le> at"
  shows "buf_content s' c = buf_content s c"
proof (cases "b_data c = a")
  case True
  have "buf_ordered c" using ok c by (auto simp: store_ok_def intro: buf_wf_ordered)
  then have "buf_window (take at (d_bytes d) @ src @ drop (at + length src) (d_bytes d)) c
      = buf_window (d_bytes d) c"
    using apart [OF True] fits window_write_below window_write_above by blast
  then show ?thesis
    using True h s' blk_write_step [OF h fits] by (auto simp: buf_content_def bytes_at_def)
next
  case False
  then show ?thesis using s' blk_write_step [OF h fits] by (auto simp: buf_content_def bytes_at_def)
qed

lemma write_store_ok:
  assumes "store_ok s bs X" and "s_heap s a = Some d" and "at + length src \<le> length (d_bytes d)"
    and "blk_write a at src s = Some s'"
  shows "store_ok s' bs X"
proof -
  have "length (d_bytes d) = d_size d" using assms(1,2) by (auto simp: store_ok_def)
  then show ?thesis
    using assms(3,4) blk_write_step [OF assms(2,3)]
      store_ok_bytes [OF assms(1,2), of "take at (d_bytes d) @ src @ drop (at + length src) (d_bytes d)"]
    by simp
qed

lemma bytes_at_heap: "s_heap s a = Some d \<Longrightarrow> bytes_at s a = Some (d_bytes d)"
  by (simp add: bytes_at_def)

lemma blk_write_bytes:
  assumes "s_heap s a = Some d" and "at + length src \<le> length (d_bytes d)" and "blk_write a at src s = Some s'"
  shows "bytes_at s' a = Some (take at (d_bytes d) @ src @ drop (at + length src) (d_bytes d))"
  using assms blk_write_step [OF assms(1,2)] by (auto simp: bytes_at_def)

lemma add_header_ok:
  assumes "store_ok s (add_mset b bs) X" and "buf_GetSize b + length hdr + 119 < 2 ^ 32" and "hdr \<noteq> []"
  shows "\<exists>b' s1 i s2. buf_AddAtStart (length hdr) b s = Some (b', s1)
    \<and> it_WriteU8s hdr (buf_Begin b') s1 = Some (i, s2) \<and> store_ok s2 (add_mset b' bs) X
    \<and> buf_content s2 b' = hdr @ buf_content s b \<and> (\<forall>c \<in># bs. buf_content s2 c = buf_content s c)"
proof -
  obtain b' s1 where a: "buf_AddAtStart (length hdr) b s = Some (b', s1)"
    and "grown_start s b (length hdr) bs X b' s1"
    using buf_AddAtStart_ok [OF assms(1,2)] by blast
  then have ok: "store_ok s1 (add_mset b' bs) X" and sb: "same_bytes s s1 bs"
    and content: "drop (length hdr) (buf_content s1 b') = buf_content s b"
    and room: "b_start b' + length hdr \<le> b_zeroAreaStart b'"
    and apart: "\<forall>c \<in># bs. b_data c = b_data b' \<longrightarrow> b_start b' + length hdr \<le> b_start c"
    by (simp_all add: grown_start_def)
  obtain d where d: "s_heap s1 (b_data b') = Some d" "buf_wf b' d" "length (d_bytes d) = d_size d"
    using store_ok_buffer [OF ok] by blast
  have zs: "b_zeroAreaStart b' \<le> length (d_bytes d)" using start_inside [OF d(2)] d(3) by simp
  have "b_start b' < b_start b' + length hdr" using assms(3) by simp
  then have pos: "b_start b' < b_zeroAreaStart b'" using room by linarith
  have ix: "it_index (buf_Begin b') (b_start b') = b_start b'" "it_data (buf_Begin b') = b_data b'"
    "it_current (buf_Begin b') = b_start b'"
    using room pos by (auto simp: it_index_def buf_Begin_def it_Construct_def)
  have chk: "it_CheckNoZero (it_current (buf_Begin b')) (it_current (buf_Begin b') + length hdr) (buf_Begin b')"
    "it_zeroStart (buf_Begin b') \<le> it_zeroEnd (buf_Begin b')"
    using room d(2) by (auto simp: it_CheckNoZero_def buf_Begin_def it_Construct_def buf_wf_def)
  have fits: "b_start b' + length hdr \<le> length (d_bytes d)" using room zs by simp
  obtain s2 where s2: "blk_write (b_data b') (b_start b') hdr s1 = Some s2"
    using blk_write_step [OF d(1) fits] by blast
  have "it_WriteU8s hdr (buf_Begin b') s1 = Some (it_advance (length hdr) (buf_Begin b'), s2)"
    using it_WriteU8s_block [OF chk assms(3), of s1 d] it_write_block_index [OF chk assms(3), of s1]
      d(1) fits s2 by (simp add: ix)
  moreover have "store_ok s2 (add_mset b' bs) X" by (rule write_store_ok [OF ok d(1) fits s2])
  moreover have "buf_content s2 b' = hdr @ buf_content s b"
    using window_write_front [OF room zs] blk_write_bytes [OF d(1) fits s2] content bytes_at_heap [OF d(1)]
    by (simp add: buf_content_def)
  moreover have "buf_content s2 c = buf_content s c" if "c \<in># bs" for c
    using write_frame [OF ok d(1) fits s2, of c] apart that same_bytes_content [OF sb that] by auto
  ultimately show ?thesis using a by blast
qed

text \<open>
  C7: adding a header to a packet.  \<^verbatim>\<open>AddAtStart\<close> makes room and the header is
  written there, byte by byte, through an iterator: no assertion fails, the buffer then holds
  the header followed by its old contents, and every other buffer, of the same block of memory
  or not, holds what it held before.
\<close>

theorem buffer_add_header:
  assumes "store_ok s (add_mset b bs) X" and "buf_GetSize b + length hdr + 119 < 2 ^ 32" and "hdr \<noteq> []"
  shows "\<exists>b' s1 i s2. buf_AddAtStart (length hdr) b s = Some (b', s1)
    \<and> it_WriteU8s hdr (buf_Begin b') s1 = Some (i, s2) \<and> store_ok s2 (add_mset b' bs) X
    \<and> buf_content s2 b' = hdr @ buf_content s b \<and> (\<forall>c \<in># bs. buf_content s2 c = buf_content s c)"
  using assms by (rule add_header_ok)

lemma add_trailer_ok:
  assumes "store_ok s (add_mset b bs) X" and "b_end b + length trl + 119 < 2 ^ 32" and "trl \<noteq> []"
  shows "\<exists>b' s1 i0 i s2. buf_AddAtEnd (length trl) b s = Some (b', s1)
    \<and> it_Prev (length trl) (buf_End b') = Some i0 \<and> it_WriteU8s trl i0 s1 = Some (i, s2)
    \<and> store_ok s2 (add_mset b' bs) X \<and> buf_content s2 b' = buf_content s b @ trl
    \<and> (\<forall>c \<in># bs. buf_content s2 c = buf_content s c)"
proof -
  let ?n = "length trl"
  obtain b' s1 where a: "buf_AddAtEnd ?n b s = Some (b', s1)" and "grown_end s b ?n bs X b' s1"
    using buf_AddAtEnd_ok [OF assms(1,2)] by blast
  then have ok: "store_ok s1 (add_mset b' bs) X" and sb: "same_bytes s s1 bs"
    and content: "take (buf_GetSize b) (buf_content s1 b') = buf_content s b"
    and size: "buf_GetSize b' = buf_GetSize b + ?n" and room: "b_zeroAreaEnd b' + ?n \<le> b_end b'"
    and apart: "\<forall>c \<in># bs. b_data c = b_data b' \<longrightarrow> buf_GetInternalEnd c + ?n \<le> buf_GetInternalEnd b'"
    by (simp_all add: grown_end_def)
  obtain d where d: "s_heap s1 (b_data b') = Some d" "buf_wf b' d" "length (d_bytes d) = d_size d"
    using store_ok_buffer [OF ok] by blast
  define at where "at = buf_GetInternalEnd b' - ?n"
  define i0 where "i0 = it_Construct b' (b_end b' - ?n)"
  have i0: "it_Prev ?n (buf_End b') = Some i0"
    using room by (simp add: it_Prev_def buf_End_def it_Construct_def i0_def)
  have ie: "buf_GetInternalEnd b' \<le> length (d_bytes d)" using d(2,3) by (simp add: buf_wf_def)
  have at: "at + ?n = buf_GetInternalEnd b'" "at + ?n \<le> length (d_bytes d)"
    using room d(2) ie by (auto simp: at_def buf_wf_def buf_GetInternalEnd_def)
  have ix: "it_index i0 (it_current i0) = at" "it_data i0 = b_data b'"
    using room d(2) by (auto simp: it_index_def i0_def it_Construct_def at_def buf_wf_def buf_GetInternalEnd_def)
  have chk: "it_CheckNoZero (it_current i0) (it_current i0 + ?n) i0" "it_zeroStart i0 \<le> it_zeroEnd i0"
    using room d(2) by (auto simp: it_CheckNoZero_def i0_def it_Construct_def buf_wf_def)
  obtain s2 where s2: "blk_write (b_data b') at trl s1 = Some s2" using blk_write_step [OF d(1) at(2)] by blast
  have "it_WriteU8s trl i0 s1 = Some (it_advance ?n i0, s2)"
    using it_WriteU8s_block [OF chk assms(3), of s1 d] it_write_block_index [OF chk assms(3), of s1]
      d(1) at(2) s2 by (simp add: ix)
  moreover have "store_ok s2 (add_mset b' bs) X" by (rule write_store_ok [OF ok d(1) at(2) s2])
  moreover have "buf_content s2 b' = buf_content s b @ trl"
    using window_write_back [OF room buf_wf_ordered [OF d(2)] ie at_def] blk_write_bytes [OF d(1) at(2) s2]
      content size bytes_at_heap [OF d(1)] by (simp add: buf_content_def)
  moreover have "buf_content s2 c = buf_content s c" if "c \<in># bs" for c
    using write_frame [OF ok d(1) at(2) s2, of c] apart that same_bytes_content [OF sb that] at(1) by force
  ultimately show ?thesis using a i0 by blast
qed

text \<open>
  Adding a trailer.  \<^verbatim>\<open>AddAtEnd\<close> makes room and the trailer is written at the end:
  the buffer then holds its old contents followed by the trailer, and every other buffer holds
  what it held before.
\<close>

theorem buffer_add_trailer:
  assumes "store_ok s (add_mset b bs) X" and "b_end b + length trl + 119 < 2 ^ 32" and "trl \<noteq> []"
  shows "\<exists>b' s1 i0 i s2. buf_AddAtEnd (length trl) b s = Some (b', s1)
    \<and> it_Prev (length trl) (buf_End b') = Some i0 \<and> it_WriteU8s trl i0 s1 = Some (i, s2)
    \<and> store_ok s2 (add_mset b' bs) X \<and> buf_content s2 b' = buf_content s b @ trl
    \<and> (\<forall>c \<in># bs. buf_content s2 c = buf_content s c)"
  using assms by (rule add_trailer_ok)

lemma fragment_ok:
  assumes "store_ok s (add_mset b bs) X" and "start + len \<le> buf_GetSize b" and "b_start b + start < 2 ^ 32"
  shows "\<exists>f s'. buf_CreateFragment start len b s = Some (f, s') \<and> store_ok s' (add_mset f (add_mset b bs)) X
    \<and> buf_content s' f = take len (drop start (buf_content s b))
    \<and> (\<forall>c \<in># add_mset b bs. buf_content s' c = buf_content s c)"
proof -
  obtain t s1 where c: "buf_copy b s = Some (t, s1)" "store_ok s1 (add_mset t (add_mset b bs)) X"
    "same_bytes s s1 (add_mset b bs)" "buf_content s1 t = buf_content s b" "b_start t = b_start b"
    "buf_GetSize t = buf_GetSize b"
    using buf_copy_ok [OF assms(1)] by blast
  obtain t' where t': "buf_RemoveAtStart start t = Some t'" "store_ok s1 (add_mset t' (add_mset b bs)) X"
    "buf_content s1 t' = drop start (buf_content s1 t)"
    using buf_RemoveAtStart_ok [OF c(2), of start] assms(3) c(5) by auto
  have size: "length (buf_content s b) = buf_GetSize b" by (rule content_size [OF assms(1)])
  have small: "buf_GetSize b < 2 ^ 32"
    using store_ok_buffer [OF assms(1)] by (metis buf_GetSize_def buf_wf_def diff_le_self le_less_trans)
  let ?n = "buf_GetSize b - (start + len)"
  have m: "(buf_GetSize b + 2 ^ 32 - (start + len)) mod 2 ^ 32 = ?n"
  proof -
    have "buf_GetSize b + 2 ^ 32 - (start + len) = ?n + 2 ^ 32" using assms(2) by simp
    moreover have "?n < 2 ^ 32" using small by simp
    ultimately show ?thesis by (metis mod_add_self2 mod_less)
  qed
  have t'size: "buf_GetSize t' = buf_GetSize b - start"
    using content_size [OF t'(2)] t'(3) c(4) size by simp
  have "buf_CreateFragment start len b s = Some (buf_RemoveAtEnd ?n t', s1)"
    using c(1) t'(1) small assms(2) by (simp add: buf_CreateFragment_def m [simplified])
  moreover have "buf_content s1 (buf_RemoveAtEnd ?n t') = take len (drop start (buf_content s b))"
    using buf_RemoveAtEnd_ok [OF t'(2), of ?n] t'(3) c(4) t'size assms(2) by (simp add: diff_diff_eq)
  ultimately show ?thesis
    using buf_RemoveAtEnd_ok [OF t'(2), of ?n] same_bytes_content [OF c(3)] by blast
qed

text \<open>
  Cutting a fragment out of a packet.  \<^verbatim>\<open>CreateFragment\<close> gives a new live buffer
  that holds the bytes from \<open>start\<close> on, \<open>len\<close> of them, in the memory of the original;
  no buffer changes.
\<close>

theorem buffer_fragment:
  assumes "store_ok s (add_mset b bs) X" and "start + len \<le> buf_GetSize b" and "b_start b + start < 2 ^ 32"
  shows "\<exists>f s'. buf_CreateFragment start len b s = Some (f, s') \<and> store_ok s' (add_mset f (add_mset b bs)) X
    \<and> buf_content s' f = take len (drop start (buf_content s b))
    \<and> (\<forall>c \<in># add_mset b bs. buf_content s' c = buf_content s c)"
  using assms by (rule fragment_ok)

section \<open>Reading\<close>

lemma window_nth:
  assumes wf: "buf_wf b d" and len: "length bytes = d_size d" and p: "b_start b \<le> p" "p < b_end b"
  shows "buf_window bytes b ! (p - b_start b) =
    (if p < b_zeroAreaStart b then bytes ! p else if p < b_zeroAreaEnd b then 0
     else bytes ! (p - (b_zeroAreaEnd b - b_zeroAreaStart b)))"
proof -
  obtain st zs ze e where f: "b_start b = st" "b_zeroAreaStart b = zs" "b_zeroAreaEnd b = ze" "b_end b = e"
    and o: "st \<le> zs" "zs \<le> ze" "ze \<le> e" and ie: "e - (ze - zs) \<le> d_size d"
    and l: "length (take (zs - st) (drop st bytes)) = zs - st"
    and win: "buf_window bytes b = take (zs - st) (drop st bytes) @ replicate (ze - zs) 0 @ take (e - ze) (drop zs bytes)"
    using window_parts [OF wf len] by metis
  consider "p < zs" | "zs \<le> p" "p < ze" | "ze \<le> p" by linarith
  then show ?thesis
  proof cases
    case 1
    then have "p - st < zs - st" using p f by auto
    then show ?thesis using 1 p o l f len ie unfolding win f by (simp add: nth_append)
  next
    case 2
    then have j: "p - st = (zs - st) + (p - zs)" "p - zs < ze - zs" using o p f by auto
    have "(A @ replicate (ze - zs) 0 @ B) ! (p - st) = 0" if "length A = zs - st" for A B :: "u8 list"
      unfolding j(1) that [symmetric] using j(2) by (simp only: nth_append_length_plus) (simp add: nth_append)
    from this [OF l] show ?thesis using 2 unfolding win f by simp
  next
    case 3
    define j where "j = p - ze"
    have j: "p - st = (zs - st) + ((ze - zs) + j)" "j < e - ze" "p - (ze - zs) = zs + j" "zs \<le> length bytes"
      using 3 o p f ie len by (auto simp: j_def)
    have "(A @ replicate (ze - zs) 0 @ B) ! (p - st) = B ! j" if "length A = zs - st" for A B :: "u8 list"
      unfolding j(1) that [symmetric] by (simp only: nth_append_length_plus) (simp add: nth_append)
    from this [OF l] show ?thesis using 3 o j(2-4) p f unfolding win f by simp
  qed
qed

lemma blk_read_step:
  assumes "s_heap s a = Some d" and "at + n \<le> length (d_bytes d)"
  shows "blk_read a at n s = Some (take n (drop at (d_bytes d)))"
  using assms by (simp add: blk_read_def mem_read_def)

text \<open>An iterator reads the contents of its buffer.\<close>

lemma it_ReadU8_ok:
  assumes ok: "store_ok s (add_mset b bs) X" and p: "b_start b \<le> p" "p < b_end b"
  shows "it_ReadU8 (it_Construct b p) s = Some (buf_content s b ! (p - b_start b), it_Construct b (p + 1))"
proof -
  obtain d where d: "s_heap s (b_data b) = Some d" "buf_wf b d" "length (d_bytes d) = d_size d"
    using store_ok_buffer [OF ok] by blast
  note w = d(2) [unfolded buf_wf_def buf_GetInternalEnd_def]
  have c: "buf_content s b = buf_window (d_bytes d) b" by (simp add: buf_content_def bytes_at_def d(1))
  have r: "map_option hd (blk_read (b_data b) q 1 s) = Some (d_bytes d ! q)" if "q < length (d_bytes d)" for q
    using blk_read_step [OF d(1), of q 1] that by (simp add: hd_drop_conv_nth)
  have "it_PeekU8 (it_Construct b p) s = Some (buf_content s b ! (p - b_start b))"
  proof -
    have "p < length (d_bytes d)" if "p < b_zeroAreaStart b" using that w d(3) by auto
    moreover have "p - (b_zeroAreaEnd b - b_zeroAreaStart b) < length (d_bytes d)" if "\<not> p < b_zeroAreaEnd b"
      using that p w d(3) by auto
    ultimately show ?thesis
      using p r unfolding c window_nth [OF d(2,3) p] by (auto simp: it_PeekU8_def it_Construct_def)
  qed
  then show ?thesis by (simp add: it_ReadU8_def it_advance_def it_Construct_def)
qed

lemma it_Read_ok:
  assumes ok: "store_ok s (add_mset b bs) X" and "b_start b \<le> p" and "p + n \<le> b_end b"
  shows "it_Read n (it_Construct b p) s
    = Some (take n (drop (p - b_start b) (buf_content s b)), it_Construct b (p + n))"
  using assms(2,3)
proof (induction n arbitrary: p)
  case (Suc n)
  have len: "length (buf_content s b) = b_end b - b_start b"
    using content_size [OF ok] by (simp add: buf_GetSize_def)
  have "p - b_start b < length (buf_content s b)" using Suc.prems len by simp
  then have "take (Suc n) (drop (p - b_start b) (buf_content s b))
      = buf_content s b ! (p - b_start b) # take n (drop (p + 1 - b_start b) (buf_content s b))"
    using Suc.prems by (simp add: take_Suc_conv_app_nth Cons_nth_drop_Suc [symmetric] Suc_diff_le)
  then show ?case
    using Suc.IH [of "p + 1"] it_ReadU8_ok [OF ok, of p] Suc.prems by simp
qed simp

text \<open>The fast reads agree with the contents, on either side of the zero area and across it.\<close>

lemma window_block:
  assumes wf: "buf_wf b d" and len: "length bytes = d_size d" and p: "b_start b \<le> p" "p + n \<le> b_end b"
    and q: "p + n \<le> b_zeroAreaStart b \<and> q = p
      \<or> b_zeroAreaEnd b \<le> p \<and> q = p - (b_zeroAreaEnd b - b_zeroAreaStart b)"
  shows "q + n \<le> length bytes" and "take n (drop q bytes) = take n (drop (p - b_start b) (buf_window bytes b))"
proof -
  note w = wf [unfolded buf_wf_def buf_GetInternalEnd_def]
  show fit: "q + n \<le> length bytes" using q p w len by auto
  have size: "length (buf_window bytes b) = b_end b - b_start b"
    using length_window [OF buf_wf_ordered [OF wf], of bytes] wf len by (simp add: buf_wf_def buf_GetSize_def)
  show "take n (drop q bytes) = take n (drop (p - b_start b) (buf_window bytes b))"
  proof (rule nth_equalityI)
    show "length (take n (drop q bytes)) = length (take n (drop (p - b_start b) (buf_window bytes b)))"
    proof -
      have "n \<le> length (drop q bytes)" "n \<le> length (drop (p - b_start b) (buf_window bytes b))"
        using fit size p by auto
      then show ?thesis by (simp only: length_take min_absorb2)
    qed
    fix i assume "i < length (take n (drop q bytes))"
    then have i: "i < n" "q + i < length bytes" using fit by auto
    have pi: "b_start b \<le> p + i" "p + i < b_end b" "p + i - b_start b = p - b_start b + i" using p i by auto
    have "buf_window bytes b ! (p + i - b_start b) = bytes ! (q + i)"
    proof (cases "p + n \<le> b_zeroAreaStart b \<and> q = p")
      case True
      then show ?thesis unfolding window_nth [OF wf len pi(1,2)] using i by auto
    next
      case False
      then have "b_zeroAreaEnd b \<le> p" and e: "p + i - (b_zeroAreaEnd b - b_zeroAreaStart b) = q + i"
        using q w by auto
      then show ?thesis unfolding window_nth [OF wf len pi(1,2)] e using w by auto
    qed
    moreover have "take n (drop q bytes) ! i = bytes ! (q + i)" using i by simp
    moreover have "take n (drop k W) ! i = W ! (k + i)" if "k + i < length W" for k and W :: "u8 list"
      using i that by simp
    moreover have "p - b_start b + i < length (buf_window bytes b)" using size p i by linarith
    ultimately show "take n (drop q bytes) ! i = take n (drop (p - b_start b) (buf_window bytes b)) ! i"
      unfolding pi(3) by metis
  qed
qed

lemma it_ReadNtohU16_ok:
  assumes ok: "store_ok s (add_mset b bs) X" and p: "b_start b \<le> p" "p + 2 \<le> b_end b"
  shows "it_ReadNtohU16 (it_Construct b p) s
    = Some (ntoh (take 2 (drop (p - b_start b) (buf_content s b))), it_Construct b (p + 2))"
proof -
  obtain d where d: "s_heap s (b_data b) = Some d" "buf_wf b d" "length (d_bytes d) = d_size d"
    using store_ok_buffer [OF ok] by blast
  have c: "buf_content s b = buf_window (d_bytes d) b" by (simp add: buf_content_def bytes_at_def d(1))
  have rd: "blk_read (b_data b) q 2 s = Some (take 2 (drop (p - b_start b) (buf_content s b)))"
    if "p + 2 \<le> b_zeroAreaStart b \<and> q = p \<or> b_zeroAreaEnd b \<le> p \<and> q = p - (b_zeroAreaEnd b - b_zeroAreaStart b)" for q
    using window_block [OF d(2,3) p that] blk_read_step [OF d(1)] unfolding c by simp
  have "it_advance 2 (it_Construct b p) = it_Construct b (p + 2)" by (simp add: it_advance_def it_Construct_def)
  then show ?thesis
    using rd it_Read_ok [OF ok p]
    by (auto simp: it_ReadNtohU16_def it_SlowReadNtohU16_def it_Construct_def)
qed

lemma it_ReadNtohU32_ok:
  assumes ok: "store_ok s (add_mset b bs) X" and p: "b_start b \<le> p" "p + 4 \<le> b_end b"
  shows "it_ReadNtohU32 (it_Construct b p) s
    = Some (ntoh (take 4 (drop (p - b_start b) (buf_content s b))), it_Construct b (p + 4))"
proof -
  obtain d where d: "s_heap s (b_data b) = Some d" "buf_wf b d" "length (d_bytes d) = d_size d"
    using store_ok_buffer [OF ok] by blast
  have c: "buf_content s b = buf_window (d_bytes d) b" by (simp add: buf_content_def bytes_at_def d(1))
  have rd: "blk_read (b_data b) q 4 s = Some (take 4 (drop (p - b_start b) (buf_content s b)))"
    if "p + 4 \<le> b_zeroAreaStart b \<and> q = p \<or> b_zeroAreaEnd b \<le> p \<and> q = p - (b_zeroAreaEnd b - b_zeroAreaStart b)" for q
    using window_block [OF d(2,3) p that] blk_read_step [OF d(1)] unfolding c by simp
  have "it_advance 4 (it_Construct b p) = it_Construct b (p + 4)" by (simp add: it_advance_def it_Construct_def)
  then show ?thesis
    using rd it_Read_ok [OF ok p]
    by (auto simp: it_ReadNtohU32_def it_SlowReadNtohU32_def it_Construct_def)
qed

text \<open>The integers come back from their bytes.\<close>

lemma shift_in:
  fixes d :: "'a::len word"
  assumes "8 \<le> LENGTH('a)"
  shows "push_bit 8 (drop_bit (k + 8) d) OR ucast (ucast (drop_bit k d) :: u8) = drop_bit k d"
  using assms by (intro bit_eqI) (auto simp: bit_simps)

lemma drop_bit_beyond: "drop_bit LENGTH('a) (d :: 'a::len word) = 0"
  by (intro bit_eqI) (auto simp: bit_simps dest: bit_imp_le_length)

lemma ntoh_hton16 [simp]: "ntoh (hton16 d) = d"
  using shift_in [of 8 d] shift_in [of 0 d] drop_bit_beyond [of d] by (simp add: ntoh_def hton16_def)

lemma ntoh_hton32 [simp]: "ntoh (hton32 d) = d"
  using shift_in [of 24 d] shift_in [of 16 d] shift_in [of 8 d] shift_in [of 0 d] drop_bit_beyond [of d]
  by (simp add: ntoh_def hton32_def)

lemma ntoh_hton64 [simp]: "ntoh (hton64 d) = d"
  using shift_in [of 56 d] shift_in [of 48 d] shift_in [of 40 d] shift_in [of 32 d]
    shift_in [of 24 d] shift_in [of 16 d] shift_in [of 8 d] shift_in [of 0 d] drop_bit_beyond [of d]
  by (simp add: ntoh_def hton64_def)

lemma length_hton [simp]: "length (hton16 d) = 2" "length (hton32 e) = 4" "length (hton64 f) = 8"
  by (simp_all add: hton16_def hton32_def hton64_def)

text \<open>A concrete store: a buffer of ten zeroes and a copy of it in the same block.\<close>

lemma store_init_ok: "store_ok (store_init junk) {#} {#}"
  by (simp add: store_ok_def store_init_def)

lemma Initialize_fresh:
  "\<exists>b s. buf_Initialize 10 (store_init junk) = Some (b, s) \<and> b_start b = 0 \<and> b_end b = 10
     \<and> b_zeroAreaStart b = 0 \<and> b_zeroAreaEnd b = 10 \<and> s_recommendedStart s = 0"
  by (simp add: buf_Initialize_def store_init_def buf_Create_def buf_Allocate_def Let_def)

lemma shared_pair:
  obtains s b c where "store_ok s {#b, c#} {#}" "b_data c = b_data b" "b_start b = 0" "b_end b = 10"
    "buf_content s b = replicate 10 0" "buf_content s c = replicate 10 0"
    "b_zeroAreaStart b = 0" "b_zeroAreaEnd b = 10" "s_recommendedStart s = 0"
proof -
  let ?s0 = "store_init (\<lambda>_. 0)"
  obtain b s1 where b: "buf_Initialize 10 ?s0 = Some (b, s1)" "b_start b = 0" "b_end b = 10"
    "b_zeroAreaStart b = 0" "b_zeroAreaEnd b = 10" "s_recommendedStart s1 = 0"
    using Initialize_fresh by blast
  have "store_ok s1 {#b#} {#} \<and> buf_content s1 b = replicate 10 0"
    using buf_Initialize_ok [OF store_init_ok, of "\<lambda>_. 0" 10] b(1) by (simp add: store_init_def)
  then have 1: "store_ok s1 (add_mset b {#}) {#}" and c1: "buf_content s1 b = replicate 10 0" by auto
  obtain c s where c: "buf_copy b s1 = Some (c, s)" "store_ok s (add_mset c (add_mset b {#})) {#}"
    "same_bytes s1 s (add_mset b {#})" "buf_content s c = buf_content s1 b"
    using buf_copy_ok [OF 1] by blast
  have "b_data c = b_data b" "s_recommendedStart s = 0" using c(1) b(6) by (auto simp: buf_copy_def split: bind_splits option.splits)
  moreover have "buf_content s b = buf_content s1 b" using same_bytes_content [OF c(3)] by simp
  ultimately show ?thesis
    using that [of s b c] c(2,4) b c1 by (simp add: add_mset_commute)
qed

lemma length_two: "length [x, y] = 2"
  by simp

theorem buffer_add_header_witness:
  "\<exists>s b c b' s1 i s2. store_ok s {#b, c#} {#} \<and> b_data c = b_data b
     \<and> buf_AddAtStart 2 b s = Some (b', s1) \<and> it_WriteU8s [7, 8] (buf_Begin b') s1 = Some (i, s2)
     \<and> buf_content s2 b' = [7, 8] @ replicate 10 0 \<and> buf_content s2 c = replicate 10 0"
proof (rule shared_pair, goal_cases)
  case (1 s b c)
  then show ?case
    using buffer_add_header [of s b "{#c#}" "{#}" "[7, 8]", unfolded length_two]
    by (simp add: buf_GetSize_def) blast
qed

theorem buffer_add_trailer_witness:
  "\<exists>s b c b' s1 i0 i s2. store_ok s {#b, c#} {#} \<and> b_data c = b_data b
     \<and> buf_AddAtEnd 2 b s = Some (b', s1) \<and> it_Prev 2 (buf_End b') = Some i0
     \<and> it_WriteU8s [7, 8] i0 s1 = Some (i, s2)
     \<and> buf_content s2 b' = replicate 10 0 @ [7, 8] \<and> buf_content s2 c = replicate 10 0"
proof (rule shared_pair, goal_cases)
  case (1 s b c)
  then show ?case
    using buffer_add_trailer [of s b "{#c#}" "{#}" "[7, 8]", unfolded length_two]
    by (simp add:) blast
qed

theorem buffer_fragment_witness:
  "\<exists>s b c f s'. store_ok s {#b, c#} {#} \<and> buf_CreateFragment 3 4 b s = Some (f, s')
     \<and> buf_content s' f = replicate 4 0 \<and> buf_content s' c = replicate 10 0"
proof (rule shared_pair, goal_cases)
  case (1 s b c)
  then show ?case
    using buffer_fragment [of s b "{#c#}" "{#}" 3 4]
    by (simp add: buf_GetSize_def) blast
qed

end
