(* ===== verification/Buffer_Serialize.thy ===== *)
theory Buffer_Serialize
  imports Buffer_Access
begin

text \<open>
  \<^verbatim>\<open>Buffer::Serialize\<close> and \<^verbatim>\<open>Deserialize\<close>: the image of a packet buffer
  that the distributed simulator sends between processes.  It has the length of the zero
  area, the length and bytes before it, and the length and bytes after it, the byte runs
  padded to four bytes; lengths are in host byte order, \<open>le\<close> telling which one that is.
  The round trip is proved for both, and so is that the copy of bytes with
  \<^verbatim>\<open>Iterator::Write\<close> can pass the end of the buffer.
\<close>

definition host32 :: "bool \<Rightarrow> u32 \<Rightarrow> u8 list" where
  "host32 le d = (if le then lsb32 d else hton32 d)"

definition host32_read :: "bool \<Rightarrow> u8 list \<Rightarrow> nat \<Rightarrow> u32 option" where
  "host32_read le mem at = do {
     bs \<leftarrow> mem_read mem at 4;
     Some (ntoh (if le then rev bs else bs))
   }"

text \<open>\<^verbatim>\<open>(n + 3) & (~3)\<close>.\<close>

definition pad4 :: "nat \<Rightarrow> nat" where
  "pad4 n = (n + 3) div 4 * 4"

definition buf_GetSerializedSize :: "buffer \<Rightarrow> nat" where
  "buf_GetSerializedSize b =
     (let dataStart = pad4 (b_zeroAreaStart b - b_start b);
          dataEnd = pad4 (b_end b - b_zeroAreaEnd b)
      in 4 + 4 + dataStart + 4 + dataEnd)"

text \<open>The destination is a memory of \<open>length mem\<close> bytes; the padding is not written.\<close>

definition buf_Serialize :: "bool \<Rightarrow> u8 list \<Rightarrow> nat \<Rightarrow> buffer \<Rightarrow> buf_store \<Rightarrow> (nat \<times> u8 list) option" where
  "buf_Serialize le mem maxSize b s =
     (let size = 4 in if size > maxSize then Some (0, mem) else do {
        mem \<leftarrow> mem_write mem 0 (host32 le (of_nat (b_zeroAreaEnd b - b_zeroAreaStart b)));
        let size = size + 4;
        if size > maxSize then Some (0, mem) else do {
          let dataStartLength = b_zeroAreaStart b - b_start b;
          mem \<leftarrow> mem_write mem 4 (host32 le (of_nat dataStartLength));
          let size = size + pad4 dataStartLength;
          if size > maxSize then Some (0, mem) else do {
            src \<leftarrow> blk_read (b_data b) (b_start b) dataStartLength s;
            mem \<leftarrow> mem_write mem 8 src;
            let p = 8 + pad4 dataStartLength;
            let size = size + 4;
            if size > maxSize then Some (0, mem) else do {
              let dataEndLength = b_end b - b_zeroAreaEnd b;
              mem \<leftarrow> mem_write mem p (host32 le (of_nat dataEndLength));
              let size = size + pad4 dataEndLength;
              if size > maxSize then Some (0, mem) else do {
                src \<leftarrow> blk_read (b_data b) (b_zeroAreaStart b) dataEndLength s;
                mem \<leftarrow> mem_write mem (p + 4) src;
                Some (1, mem)
              }
            }
          }
        }
      })"

text \<open>
  \<^verbatim>\<open>Deserialize\<close> builds a new buffer; \<open>sizeCheck\<close> is the unsigned counter of the
  code, which starts four below the size it is given.
\<close>

definition buf_Deserialize ::
  "bool \<Rightarrow> u8 list \<Rightarrow> u32 \<Rightarrow> buf_store \<Rightarrow> (nat \<times> buffer \<times> buf_store) option" where
  "buf_Deserialize le mem size' s = do {
     let sizeCheck = size' - 4;
     ns_assert (sizeCheck \<ge> 4);
     zeroDataLength \<leftarrow> host32_read le mem 0;
     let sizeCheck = sizeCheck - 4;
     (b, s) \<leftarrow> buf_Initialize (unat zeroDataLength) s;
     ns_assert (sizeCheck \<ge> 4);
     dataStartLength \<leftarrow> host32_read le mem 4;
     let sizeCheck = sizeCheck - 4;
     (b, s) \<leftarrow> buf_AddAtStart (unat dataStartLength) b s;
     ns_assert (sizeCheck \<ge> dataStartLength);
     src \<leftarrow> mem_read mem 8 (unat dataStartLength);
     (_, s) \<leftarrow> it_Write_bytes src (buf_Begin b) s;
     let p = 8 + pad4 (unat dataStartLength);
     let sizeCheck = sizeCheck - of_nat (pad4 (unat dataStartLength));
     ns_assert (sizeCheck \<ge> 4);
     dataEndLength \<leftarrow> host32_read le mem p;
     let sizeCheck = sizeCheck - 4;
     (b, s) \<leftarrow> buf_AddAtEnd (unat dataEndLength) b s;
     ns_assert (sizeCheck \<ge> dataEndLength);
     tmp \<leftarrow> it_Prev (unat dataEndLength) (buf_End b);
     src \<leftarrow> mem_read mem (p + 4) (unat dataEndLength);
     (_, s) \<leftarrow> it_Write_bytes src tmp s;
     let sizeCheck = sizeCheck - of_nat (pad4 (unat dataEndLength));
     ns_assert (sizeCheck = 0);
     Some (if sizeCheck \<noteq> 0 then 0 else 1, b, s)
   }"

section \<open>Copying bytes in\<close>

lemma it_Write_bytes_block:
  assumes "it_CheckNoZero (it_current i) (it_current i + length bs) i" and "it_zeroStart i \<le> it_zeroEnd i"
    and "it_current i + length bs \<le> it_zeroStart i \<or> it_zeroEnd i \<le> it_current i"
  shows "it_Write_bytes bs i s = it_write_block bs i s"
proof (cases "it_zeroEnd i \<le> it_current i \<and> it_current i \<le> it_zeroStart i")
  case True
  then have "it_zeroEnd i = it_zeroStart i" using assms(2) by simp
  then show ?thesis using assms(1)
    by (auto simp: it_Write_bytes_def it_write_block_def it_CheckNoZero_def Let_def bind_ns_assert)
next
  case False
  then show ?thesis using assms
    by (auto simp: it_Write_bytes_def it_write_block_def it_CheckNoZero_def Let_def bind_ns_assert
        split: if_splits)
qed

lemma write_bytes_empty:
  assumes "store_ok s (add_mset b bs) X" and "b_start b \<le> p" and "p \<le> b_end b"
    and "p = b_start b \<or> p = b_end b"
  shows "it_Write_bytes [] (it_Construct b p) s = Some (it_Construct b p, s)"
proof -
  obtain d where d: "s_heap s (b_data b) = Some d" "buf_wf b d" "length (d_bytes d) = d_size d"
    using store_ok_buffer [OF assms(1)] by blast
  then have e: "buf_GetInternalEnd b \<le> length (d_bytes d)" "b_zeroAreaStart b \<le> buf_GetInternalEnd b"
    by (auto simp: buf_wf_def buf_GetInternalEnd_def)
  have w: "blk_write (b_data b) q [] s = Some s" if "q \<le> buf_GetInternalEnd b" for q
    using that d(1) e(1) by (auto simp: blk_write_def mem_write_def fun_upd_idem)
  have "p - (b_zeroAreaEnd b - b_zeroAreaStart b) \<le> buf_GetInternalEnd b"
    using assms(3) by (simp add: buf_GetInternalEnd_def diff_le_mono)
  moreover have "p \<le> b_zeroAreaStart b \<Longrightarrow> p \<le> buf_GetInternalEnd b" using e(2) by simp
  ultimately show ?thesis
    using assms(2) d(2) w
    by (auto simp: it_Write_bytes_def it_Construct_def it_CheckNoZero_def it_advance_def bind_ns_assert buf_wf_def)
qed

text \<open>Adding bytes at the front and at the back with \<^verbatim>\<open>Write\<close>, none included.\<close>

lemma write_at_start_ok:
  assumes ok: "store_ok s (add_mset b bs) X" and n: "buf_GetSize b + length src + 119 < 2 ^ 32"
  shows "\<exists>b' s1 i s2. buf_AddAtStart (length src) b s = Some (b', s1)
    \<and> it_Write_bytes src (buf_Begin b') s1 = Some (i, s2) \<and> store_ok s2 (add_mset b' bs) X
    \<and> buf_content s2 b' = src @ buf_content s b \<and> b_end b' \<le> b_end b + length src
    \<and> (\<forall>c \<in># bs. buf_content s2 c = buf_content s c)"
proof -
  obtain b' s1 where a: "buf_AddAtStart (length src) b s = Some (b', s1)"
    and g: "grown_start s b (length src) bs X b' s1"
    using buf_AddAtStart_ok [OF ok n] by blast
  then have ok1: "store_ok s1 (add_mset b' bs) X" and room: "b_start b' + length src \<le> b_zeroAreaStart b'"
    and e: "b_end b' \<le> b_end b + length src"
    by (simp_all add: grown_start_def)
  obtain d where d: "s_heap s1 (b_data b') = Some d" "buf_wf b' d" "length (d_bytes d) = d_size d"
    using store_ok_buffer [OF ok1] by blast
  show ?thesis
  proof (cases "src = []")
    case True
    then have "it_Write_bytes src (buf_Begin b') s1 = Some (buf_Begin b', s1)"
      using write_bytes_empty [OF ok1, of "b_start b'"] d(2) by (simp add: buf_Begin_def buf_wf_def)
    then show ?thesis using a g e True same_bytes_content by (fastforce simp: grown_start_def)
  next
    case False
    then obtain i s2 where w: "it_WriteU8s src (buf_Begin b') s1 = Some (i, s2)"
      "store_ok s2 (add_mset b' bs) X" "buf_content s2 b' = src @ buf_content s b"
      "\<forall>c \<in># bs. buf_content s2 c = buf_content s c"
      using add_header_ok [OF ok n] a by auto
    have i: "it_current (buf_Begin b') = b_start b'" "it_zeroStart (buf_Begin b') = b_zeroAreaStart b'"
      "it_zeroEnd (buf_Begin b') = b_zeroAreaEnd b'" "it_data (buf_Begin b') = b_data b'"
      by (simp_all add: buf_Begin_def it_Construct_def)
    have chk: "it_CheckNoZero (it_current (buf_Begin b')) (it_current (buf_Begin b') + length src) (buf_Begin b')"
      using room d(2) by (auto simp: it_CheckNoZero_def buf_Begin_def it_Construct_def buf_wf_def)
    have z: "it_zeroStart (buf_Begin b') \<le> it_zeroEnd (buf_Begin b')" using d(2) by (simp add: i buf_wf_def)
    have "0 < length src" using False by simp
    then have lt: "b_start b' < b_zeroAreaStart b'" using room by linarith
    have fits: "it_index (buf_Begin b') (it_current (buf_Begin b')) + length src \<le> length (d_bytes d)"
      using room lt start_inside [OF d(2)] d(3) by (simp add: it_index_def i)
    have "it_Write_bytes src (buf_Begin b') s1 = it_WriteU8s src (buf_Begin b') s1"
      using it_Write_bytes_block [OF chk z] it_WriteU8s_block [OF chk z False, of s1 d] fits room d(1)
      by (simp add: i)
    then show ?thesis using a w e by auto
  qed
qed

lemma write_at_end_ok:
  assumes ok: "store_ok s (add_mset b bs) X" and n: "b_end b + length src + 119 < 2 ^ 32"
  shows "\<exists>b' s1 i0 i s2. buf_AddAtEnd (length src) b s = Some (b', s1)
    \<and> it_Prev (length src) (buf_End b') = Some i0
    \<and> it_Write_bytes src i0 s1 = Some (i, s2) \<and> store_ok s2 (add_mset b' bs) X
    \<and> buf_content s2 b' = buf_content s b @ src \<and> (\<forall>c \<in># bs. buf_content s2 c = buf_content s c)"
proof -
  obtain b' s1 where a: "buf_AddAtEnd (length src) b s = Some (b', s1)"
    and g: "grown_end s b (length src) bs X b' s1"
    using buf_AddAtEnd_ok [OF ok n] by blast
  then have ok1: "store_ok s1 (add_mset b' bs) X" and room: "b_zeroAreaEnd b' + length src \<le> b_end b'"
    by (simp_all add: grown_end_def)
  obtain d where d: "s_heap s1 (b_data b') = Some d" "buf_wf b' d" "length (d_bytes d) = d_size d"
    using store_ok_buffer [OF ok1] by blast
  define i0 where "i0 = it_Construct b' (b_end b' - length src)"
  have prev: "it_Prev (length src) (buf_End b') = Some i0"
    using room by (simp add: it_Prev_def buf_End_def it_Construct_def i0_def)
  show ?thesis
  proof (cases "src = []")
    case True
    have "it_Write_bytes src i0 s1 = Some (i0, s1)"
      using True write_bytes_empty [OF ok1, of "b_end b'"] d(2) by (simp add: i0_def buf_wf_def)
    moreover have "length (buf_content s1 b') = buf_GetSize b"
      using content_size [OF ok1] g True by (simp add: grown_end_def)
    ultimately show ?thesis using a g prev True same_bytes_content by (fastforce simp: grown_end_def)
  next
    case False
    then obtain i s2 where w: "it_WriteU8s src i0 s1 = Some (i, s2)"
      "store_ok s2 (add_mset b' bs) X" "buf_content s2 b' = buf_content s b @ src"
      "\<forall>c \<in># bs. buf_content s2 c = buf_content s c"
      using add_trailer_ok [OF ok n] a prev by auto
    have i: "it_current i0 = b_end b' - length src" "it_zeroStart i0 = b_zeroAreaStart b'"
      "it_zeroEnd i0 = b_zeroAreaEnd b'" "it_data i0 = b_data b'" "it_dataStart i0 = b_start b'"
      "it_dataEnd i0 = b_end b'"
      by (simp_all add: i0_def it_Construct_def)
    have past: "b_zeroAreaEnd b' \<le> b_end b' - length src" "length src \<le> b_end b'" using room by linarith+
    have chk: "it_CheckNoZero (it_current i0) (it_current i0 + length src) i0"
      using past d(2) by (auto simp: it_CheckNoZero_def i buf_wf_def)
    have z: "it_zeroStart i0 \<le> it_zeroEnd i0" using d(2) by (simp add: i buf_wf_def)
    have fits: "it_index i0 (it_current i0) + length src \<le> length (d_bytes d)"
    proof -
      have "\<not> b_end b' - length src < b_zeroAreaStart b'" using past d(2) by (simp add: buf_wf_def)
      then have "it_index i0 (it_current i0) + length src = buf_GetInternalEnd b'"
        using past d(2) by (simp add: it_index_def i buf_GetInternalEnd_def buf_wf_def)
      then show ?thesis using d(2,3) by (simp add: buf_wf_def)
    qed
    have "it_Write_bytes src i0 s1 = it_WriteU8s src i0 s1"
      using it_Write_bytes_block [OF chk z] it_WriteU8s_block [OF chk z False, of s1 d] fits past d(1)
      by (simp add: i)
    then show ?thesis using a w prev by auto
  qed
qed

section \<open>The round trip\<close>

lemma pad4_le: "n \<le> pad4 n"
  unfolding pad4_def by presburger

lemma length_host32 [simp]: "length (host32 le d) = 4"
  by (simp add: host32_def lsb32_def)

lemma host32_back: "ntoh (if le then rev (host32 le d) else host32 le d) = d"
  by (simp add: host32_def lsb32_def)

text \<open>Reading a memory back after a write.\<close>

lemma mem_write_length: "mem_write mem at src = Some mem' \<Longrightarrow> length mem' = length mem"
  by (auto simp: mem_write_def split: if_splits)

lemma mem_write_some: "at + length src \<le> length mem \<Longrightarrow> \<exists>mem'. mem_write mem at src = Some mem'"
  by (simp add: mem_write_def)

lemma mem_read_written: "mem_write mem at src = Some mem' \<Longrightarrow> mem_read mem' at (length src) = Some src"
  by (auto simp: mem_write_def mem_read_def split: if_splits)

lemma mem_read_below:
  assumes "mem_write mem at src = Some mem'" and "k + n \<le> at"
  shows "mem_read mem' k n = mem_read mem k n"
  using assms by (auto simp: mem_write_def mem_read_def take_drop split: if_splits)

lemma host32_read_eq: "mem_read mem at 4 = Some (host32 le d) \<Longrightarrow> host32_read le mem at = Some d"
  by (simp add: host32_read_def host32_back)

text \<open>The parts of a buffer, and the image that \<^verbatim>\<open>Serialize\<close> leaves in memory.\<close>

definition buf_front :: "buf_store \<Rightarrow> buffer \<Rightarrow> u8 list" where
  "buf_front s b = take (b_zeroAreaStart b - b_start b) (drop (b_start b) (the (bytes_at s (b_data b))))"

definition buf_back :: "buf_store \<Rightarrow> buffer \<Rightarrow> u8 list" where
  "buf_back s b = take (b_end b - b_zeroAreaEnd b) (drop (b_zeroAreaStart b) (the (bytes_at s (b_data b))))"

lemma content_parts:
  assumes "store_ok s (add_mset b bs) X"
  shows "buf_content s b = buf_front s b @ replicate (b_zeroAreaEnd b - b_zeroAreaStart b) 0 @ buf_back s b"
    and "length (buf_front s b) = b_zeroAreaStart b - b_start b" and "length (buf_back s b) = b_end b - b_zeroAreaEnd b"
    and "blk_read (b_data b) (b_start b) (b_zeroAreaStart b - b_start b) s = Some (buf_front s b)"
    and "blk_read (b_data b) (b_zeroAreaStart b) (b_end b - b_zeroAreaEnd b) s = Some (buf_back s b)"
proof -
  obtain d where d: "s_heap s (b_data b) = Some d" "buf_wf b d" "length (d_bytes d) = d_size d"
    using store_ok_buffer [OF assms] by blast
  have z: "b_zeroAreaStart b \<le> length (d_bytes d)" using start_inside [OF d(2)] d(3) by simp
  have e: "b_zeroAreaStart b + (b_end b - b_zeroAreaEnd b) \<le> length (d_bytes d)"
    using d(2,3) unfolding buf_wf_def buf_GetInternalEnd_def by linarith
  have o': "b_start b \<le> b_zeroAreaStart b" using d(2) by (simp add: buf_wf_def)
  show "buf_content s b = buf_front s b @ replicate (b_zeroAreaEnd b - b_zeroAreaStart b) 0 @ buf_back s b"
    by (simp add: buf_content_def buf_window_def buf_front_def buf_back_def)
  show "length (buf_front s b) = b_zeroAreaStart b - b_start b" "length (buf_back s b) = b_end b - b_zeroAreaEnd b"
    using z e d(1) by (simp_all add: buf_front_def buf_back_def bytes_at_def)
  show "blk_read (b_data b) (b_start b) (b_zeroAreaStart b - b_start b) s = Some (buf_front s b)"
    "blk_read (b_data b) (b_zeroAreaStart b) (b_end b - b_zeroAreaEnd b) s = Some (buf_back s b)"
    using z e o' d(1) by (simp_all add: buf_front_def buf_back_def bytes_at_def blk_read_def mem_read_def)
qed

definition buf_image :: "bool \<Rightarrow> u8 list \<Rightarrow> nat \<Rightarrow> u8 list \<Rightarrow> u8 list \<Rightarrow> bool" where
  "buf_image le mem z front back \<longleftrightarrow>
     host32_read le mem 0 = Some (of_nat z) \<and> host32_read le mem 4 = Some (of_nat (length front))
     \<and> mem_read mem 8 (length front) = Some front
     \<and> host32_read le mem (8 + pad4 (length front)) = Some (of_nat (length back))
     \<and> mem_read mem (12 + pad4 (length front)) (length back) = Some back"

lemma buf_Serialize_ok:
  assumes ok: "store_ok s (add_mset b bs) X" and fits: "buf_GetSerializedSize b \<le> maxSize" "maxSize \<le> length mem"
  shows "\<exists>mem'. buf_Serialize le mem maxSize b s = Some (1, mem')
    \<and> buf_image le mem' (b_zeroAreaEnd b - b_zeroAreaStart b) (buf_front s b) (buf_back s b)"
proof -
  let ?z = "b_zeroAreaEnd b - b_zeroAreaStart b" and ?f = "buf_front s b" and ?k = "buf_back s b"
  note parts = content_parts [OF ok]
  have sz: "12 + pad4 (length ?f) + pad4 (length ?k) \<le> maxSize" "12 + pad4 (length ?f) + pad4 (length ?k) \<le> length mem"
    using fits by (simp_all add: buf_GetSerializedSize_def parts(2,3))
  note pads = pad4_le [of "length ?f"] pad4_le [of "length ?k"]
  obtain m1 where m1: "mem_write mem 0 (host32 le (of_nat ?z)) = Some m1"
    using mem_write_some [of 0 "host32 le (of_nat ?z)" mem] sz by auto
  obtain m2 where m2: "mem_write m1 4 (host32 le (of_nat (length ?f))) = Some m2"
    using mem_write_some [of 4 "host32 le (of_nat (length ?f))" m1] sz mem_write_length [OF m1] by auto
  obtain m3 where m3: "mem_write m2 8 ?f = Some m3"
    using mem_write_some [of 8 ?f m2] sz pads mem_write_length [OF m1] mem_write_length [OF m2] by auto
  obtain m4 where m4: "mem_write m3 (8 + pad4 (length ?f)) (host32 le (of_nat (length ?k))) = Some m4"
    using mem_write_some [of "8 + pad4 (length ?f)" "host32 le (of_nat (length ?k))" m3] sz pads
      mem_write_length [OF m1] mem_write_length [OF m2] mem_write_length [OF m3] by auto
  obtain m5 where m5: "mem_write m4 (12 + pad4 (length ?f)) ?k = Some m5"
    using mem_write_some [of "12 + pad4 (length ?f)" ?k m4] sz pads mem_write_length [OF m1]
      mem_write_length [OF m2] mem_write_length [OF m3] mem_write_length [OF m4] by auto
  have "buf_Serialize le mem maxSize b s = Some (1, m5)"
    using sz m1 m2 m3 m4 m5 parts(2-5) by (simp add: buf_Serialize_def Let_def add.commute)
  moreover have "buf_image le m5 ?z ?f ?k"
  proof -
    note keep = mem_read_below [OF m5] mem_read_below [OF m4] mem_read_below [OF m3] mem_read_below [OF m2]
    have "host32_read le m5 0 = Some (of_nat ?z)" "host32_read le m5 4 = Some (of_nat (length ?f))"
      "host32_read le m5 (8 + pad4 (length ?f)) = Some (of_nat (length ?k))"
      using mem_read_written [OF m1] mem_read_written [OF m2] mem_read_written [OF m4]
      by (simp_all add: host32_read_eq keep)
    moreover have "mem_read m5 8 (length ?f) = Some ?f"
      using mem_read_written [OF m3] pads by (simp add: keep)
    moreover have "mem_read m5 (12 + pad4 (length ?f)) (length ?k) = Some ?k"
      using mem_read_written [OF m5] .
    ultimately show ?thesis by (simp add: buf_image_def)
  qed
  ultimately show ?thesis by blast
qed

lemma u32_of_nat_ge: "m \<le> n \<Longrightarrow> n < 2 ^ 32 \<Longrightarrow> (of_nat m :: u32) \<le> of_nat n"
  by (simp add: word_le_nat_alt unat_of_nat)

lemma u32_of_nat_ge4: "4 \<le> n \<Longrightarrow> n < 2 ^ 32 \<Longrightarrow> (4 :: u32) \<le> of_nat n"
  using u32_of_nat_ge [of 4 n] by simp

lemma u32_counter:
  "(of_nat (m + n) :: u32) - of_nat n = of_nat m" "(of_nat (m + 4) :: u32) - 4 = of_nat m"
  by simp_all

lemma buf_Deserialize_ok:
  assumes im: "buf_image le mem z front back" and ok: "store_ok s bs X"
    and lim: "s_recommendedStart s + z + length front + length back + 119 < 2 ^ 32"
      "16 + pad4 (length front) + pad4 (length back) < 2 ^ 32"
  shows "\<exists>b s'. buf_Deserialize le mem (of_nat (16 + pad4 (length front) + pad4 (length back))) s = Some (1, b, s')
    \<and> store_ok s' (add_mset b bs) X \<and> buf_content s' b = front @ replicate z 0 @ back
    \<and> (\<forall>c \<in># bs. buf_content s' c = buf_content s c)"
proof -
  let ?F = "pad4 (length front)" and ?K = "pad4 (length back)"
  note pads = pad4_le [of "length front"] pad4_le [of "length back"]
  obtain b1 s1 where 1: "buf_Initialize z s = Some (b1, s1)" "store_ok s1 (add_mset b1 bs) X"
    "same_bytes s s1 bs" "buf_content s1 b1 = replicate z 0" "b_end b1 \<le> s_recommendedStart s + z"
    using buf_Initialize_ok [OF ok, of z] lim by auto
  have z: "buf_GetSize b1 = z" using content_size [OF 1(2)] 1(4) by simp
  obtain b2 s2 i s3 where 2: "buf_AddAtStart (length front) b1 s1 = Some (b2, s2)"
    "it_Write_bytes front (buf_Begin b2) s2 = Some (i, s3)" "store_ok s3 (add_mset b2 bs) X"
    "buf_content s3 b2 = front @ buf_content s1 b1" "b_end b2 \<le> b_end b1 + length front"
    "\<forall>c \<in># bs. buf_content s3 c = buf_content s1 c"
    using write_at_start_ok [OF 1(2), of front] z lim by auto
  obtain b3 s4 i0 j s5 where 3: "buf_AddAtEnd (length back) b2 s3 = Some (b3, s4)"
    "it_Prev (length back) (buf_End b3) = Some i0" "it_Write_bytes back i0 s4 = Some (j, s5)"
    "store_ok s5 (add_mset b3 bs) X" "buf_content s5 b3 = buf_content s3 b2 @ back"
    "\<forall>c \<in># bs. buf_content s5 c = buf_content s3 c"
    using write_at_end_ok [OF 2(3), of "back"] 1(5) 2(5) lim by auto
  have un: "unat (of_nat z :: u32) = z" "unat (of_nat (length front) :: u32) = length front"
    "unat (of_nat (length back) :: u32) = length back"
    using lim by (simp_all add: unat_of_nat)
  have c: "(of_nat (16 + ?F + ?K) :: u32) - 4 = of_nat (12 + ?F + ?K)"
    "(of_nat (12 + ?F + ?K) :: u32) - 4 = of_nat (8 + ?F + ?K)"
    "(of_nat (8 + ?F + ?K) :: u32) - 4 = of_nat (4 + ?K + ?F)"
    "(of_nat (4 + ?K + ?F) :: u32) - of_nat ?F = of_nat (4 + ?K)"
    "(of_nat (4 + ?K) :: u32) - 4 = of_nat (0 + ?K)"
    "(of_nat (0 + ?K) :: u32) - of_nat ?K = 0"
    by (simp_all add: algebra_simps)
  have g: "(4 :: u32) \<le> of_nat (12 + ?F + ?K)" "(4 :: u32) \<le> of_nat (8 + ?F + ?K)"
    "(of_nat (length front) :: u32) \<le> of_nat (4 + ?K + ?F)" "(4 :: u32) \<le> of_nat (4 + ?K)"
    "(of_nat (length back) :: u32) \<le> of_nat (0 + ?K)"
    using lim pads by (intro u32_of_nat_ge4 u32_of_nat_ge; linarith)+
  note im' = im [unfolded buf_image_def]
  have "buf_Deserialize le mem (of_nat (16 + ?F + ?K)) s = Some (1, b3, s5)"
    unfolding buf_Deserialize_def Let_def c
    using 1(1) 2(1,2) 3(1-3) g im' by (simp only: un c bind_ns_assert if_True bind.bind_lunit prod.case) (simp add: un c)
  then show ?thesis
    using 1(3,4) 2(4,6) 3(4-6) same_bytes_content [OF 1(3)] by auto
qed

text \<open>
  C28: a packet buffer survives being sent to another process.  \<^verbatim>\<open>Serialize\<close> into a
  memory with at least \<^verbatim>\<open>GetSerializedSize\<close> bytes succeeds, and
  \<^verbatim>\<open>Deserialize\<close> on the receiving side, given that size plus the four bytes of
  the length word that \<^verbatim>\<open>Packet\<close> puts before the image, builds a live buffer with
  the same contents; no buffer of the receiver changes.
\<close>

theorem buffer_Serialize_roundtrip:
  assumes "store_ok s (add_mset b bs) X" and "buf_GetSerializedSize b \<le> length mem"
    and "store_ok t cs Y" and "s_recommendedStart t + buf_GetSize b + 119 < 2 ^ 32"
    and "buf_GetSerializedSize b + 4 < 2 ^ 32"
  shows "\<exists>mem' b' t'. buf_Serialize le mem (buf_GetSerializedSize b) b s = Some (1, mem')
    \<and> buf_Deserialize le mem' (of_nat (buf_GetSerializedSize b + 4)) t = Some (1, b', t')
    \<and> store_ok t' (add_mset b' cs) Y \<and> buf_content t' b' = buf_content s b
    \<and> (\<forall>c \<in># cs. buf_content t' c = buf_content t c)"
proof -
  note parts = content_parts [OF assms(1)]
  let ?z = "b_zeroAreaEnd b - b_zeroAreaStart b" and ?f = "buf_front s b" and ?k = "buf_back s b"
  have sz: "buf_GetSerializedSize b + 4 = 16 + pad4 (length ?f) + pad4 (length ?k)"
    by (simp add: buf_GetSerializedSize_def parts(2,3))
  have "buf_GetSize b = length ?f + ?z + length ?k"
    using content_size [OF assms(1)] arg_cong [OF parts(1), of length] by simp
  then have lim: "s_recommendedStart t + ?z + length ?f + length ?k + 119 < 2 ^ 32" using assms(4) by simp
  obtain mem' where m: "buf_Serialize le mem (buf_GetSerializedSize b) b s = Some (1, mem')"
    "buf_image le mem' ?z ?f ?k"
    using buf_Serialize_ok [OF assms(1) order_refl assms(2)] by blast
  show ?thesis
    using buf_Deserialize_ok [OF m(2) assms(3) lim] assms(5) m(1) unfolding sz by (auto simp: parts(1))
qed

theorem buffer_Serialize_roundtrip_witness:
  "\<exists>s b c mem' b' t'. buf_GetSize b = 10 \<and> buf_Serialize True (replicate 12 0) 12 b s = Some (1, mem')
     \<and> buf_Deserialize True mem' 16 s = Some (1, b', t') \<and> buf_content t' b' = buf_content s b
     \<and> buf_content t' c = replicate 10 0"
proof (rule shared_pair, goal_cases)
  case (1 s b c)
  have sz: "buf_GetSerializedSize b = 12" "buf_GetSize b = 10"
    using 1 by (simp_all add: buf_GetSerializedSize_def pad4_def buf_GetSize_def)
  have "\<exists>mem' b' t'. buf_Serialize True (replicate 12 0) 12 b s = Some (1, mem')
    \<and> buf_Deserialize True mem' 16 s = Some (1, b', t') \<and> buf_content t' b' = buf_content s b
    \<and> buf_content t' c = replicate 10 0"
    using buffer_Serialize_roundtrip [of s b "{#c#}" "{#}" "replicate 12 0" s "{#b, c#}" "{#}" True] 1 sz by auto
  then show ?case using sz(2) by blast
qed

section \<open>The bounds check of Write\<close>

text \<open>
  \<^verbatim>\<open>Iterator::Write (buffer, size)\<close> does not notice that it passes the end.  Its
  assertion hands the size to \<^verbatim>\<open>CheckNoZero\<close> where the end position belongs: a write
  that no more fits, of at most as many bytes as the end offset of the buffer, passes it,
  overwrites the bytes behind the buffer and leaves the iterator past the end, where
  \<^verbatim>\<open>WriteU8 (data, len)\<close>, whose assertion is right, stops.
\<close>

theorem Write_misses_overrun:
  assumes "it_zeroStart i = it_zeroEnd i" and "it_dataStart i \<le> it_current i"
    and "length src \<le> it_dataEnd i" and "it_dataEnd i < it_current i + length src"
    and "s_heap s (it_data i) = Some d" and "it_current i + length src \<le> length (d_bytes d)"
  shows "\<exists>s'. it_Write_bytes src i s = Some (it_advance (length src) i, s')
    \<and> bytes_at s' (it_data i) = Some (take (it_current i) (d_bytes d) @ src @ drop (it_current i + length src) (d_bytes d))
    \<and> it_WriteU8_len x (length src) i s = None"
  using assms
  by (simp add: it_Write_bytes_def it_WriteU8_len_def it_CheckNoZero_def bind_ns_assert blk_write_step bytes_at_def)

theorem Write_misses_overrun_witness:
  "\<exists>i s s'. it_dataStart i = 0 \<and> it_dataEnd i = 5 \<and> it_current i = 3
     \<and> it_Write_bytes [1, 1, 1, 1] i s = Some (it_advance 4 i, s')
     \<and> bytes_at s' 0 = Some [0, 0, 0, 1, 1, 1, 1, 0] \<and> it_WriteU8_len 1 4 i s = None"
proof -
  let ?i = "\<lparr>it_zeroStart = 5, it_zeroEnd = 5, it_dataStart = 0, it_dataEnd = 5, it_current = 3, it_data = 0\<rparr>"
  let ?d = "\<lparr>d_count = 1, d_size = 8, d_dirtyStart = 0, d_dirtyEnd = 8, d_bytes = replicate 8 0\<rparr>"
  let ?s = "(store_init (\<lambda>_. 0))\<lparr>s_heap := [0 \<mapsto> ?d], s_next := 1, s_freeList := Some []\<rparr>"
  have "length [1 :: u8, 1, 1, 1] = 4" by simp
  note w = Write_misses_overrun [of ?i "[1, 1, 1, 1]" ?s ?d 1, unfolded this]
  have "take 3 (replicate 8 0) @ [1, 1, 1, 1] @ drop (3 + 4) (replicate 8 0) = [0, 0, 0, 1, 1, 1, 1, 0 :: u8]"
    by (simp add: numeral_eq_Suc)
  then obtain s' where s': "it_Write_bytes [1, 1, 1, 1] ?i ?s = Some (it_advance 4 ?i, s')"
    "bytes_at s' 0 = Some [0, 0, 0, 1, 1, 1, 1, 0]" "it_WriteU8_len 1 4 ?i ?s = None"
    using w by auto
  show ?thesis
    by (rule exI [of _ ?i], rule exI [of _ ?s], rule exI [of _ s']) (use s' in simp)
qed

end
