(* ===== verification/Sequence_Number.thy ===== *)
theory Sequence_Number
  imports Prelude
begin

text \<open>
  Sequence numbers: \<^verbatim>\<open>ns3::SequenceNumber\<close> (src/network/utils/sequence-number.h), a
  template over the width of the number.  Numbers wrap around; the comparisons go by which
  of the two ways around the circle is the shorter one.  The main fact is that within any
  window of less than half the circle the comparisons are those of the offsets, wherever on
  the circle the window starts.
\<close>

text \<open>\<^verbatim>\<open>halfMaxValue\<close>, the greatest value halved.\<close>

definition seq_half :: "'a::len word" where
  "seq_half = drop_bit 1 (- 1)"

definition seq_gt :: "'a::len word \<Rightarrow> 'a word \<Rightarrow> bool" where
  "seq_gt a b \<longleftrightarrow> (a > b \<and> a - b \<le> seq_half) \<or> (b > a \<and> b - a > seq_half)"

definition seq_le :: "'a::len word \<Rightarrow> 'a word \<Rightarrow> bool" where
  "seq_le a b \<longleftrightarrow> \<not> seq_gt a b"

definition seq_ge :: "'a::len word \<Rightarrow> 'a word \<Rightarrow> bool" where
  "seq_ge a b \<longleftrightarrow> seq_gt a b \<or> a = b"

definition seq_lt :: "'a::len word \<Rightarrow> 'a word \<Rightarrow> bool" where
  "seq_lt a b \<longleftrightarrow> \<not> seq_gt a b \<and> a \<noteq> b"

text \<open>The difference; the result is a word whose signed reading is the value returned.\<close>

definition seq_minus :: "'a::len word \<Rightarrow> 'a word \<Rightarrow> 'a word" where
  "seq_minus a b =
     (if a > b
      then let diff = a - b in if diff < seq_half then diff else - (- 1 - a + 1 + b)
      else let diff = b - a in if diff < seq_half then - diff else - 1 - b + 1 + a)"

section \<open>Order by offset\<close>

lemma unat_seq_half: "unat (seq_half :: 'a::len word) = 2 ^ (LENGTH('a) - 1) - 1"
proof -
  have "unat (seq_half :: 'a word) = (2 ^ LENGTH('a) - 1) div 2"
    unfolding seq_half_def unsigned_drop_bit_eq unsigned_minus_1_eq_mask
    by (simp add: drop_bit_eq_div del: drop_bit_mask_eq) (simp add: mask_eq_exp_minus_1)
  also have "2 ^ LENGTH('a) = 2 * 2 ^ (LENGTH('a) - 1)"
    by (simp add: power_Suc [symmetric] del: power_Suc)
  also have "(2 * 2 ^ (LENGTH('a) - 1) - 1) div 2 = (2 ^ (LENGTH('a) - 1) - (1 :: nat))"
    by (cases "2 ^ (LENGTH('a) - 1) :: nat") auto
  finally show ?thesis .
qed

lemma half_circle: "2 ^ LENGTH('a) = 2 * (2 ^ (LENGTH('a::len) - 1) :: nat)"
  by (simp add: power_Suc [symmetric] del: power_Suc)

lemma unat_minus_eq:
  fixes a :: "'a::len word"
  assumes "a \<noteq> 0"
  shows "unat (- a) = 2 ^ LENGTH('a) - unat a"
proof -
  let ?c = "2 ^ LENGTH('a) :: nat"
  have "(unat a + unat (- a)) mod ?c = unat (a + - a)" by (simp only: unat_word_ariths(1))
  then have "(unat a + unat (- a)) mod ?c = 0" by (simp only: add.right_inverse unsigned_0)
  then obtain k where k: "unat a + unat (- a) = ?c * k" by (auto simp: mod_eq_0_iff_dvd)
  have b: "0 < unat a" "unat a < ?c" "unat (- a) < ?c" using assms by (simp_all add: unat_gt_0)
  then have "?c * k < ?c * 2" using k by linarith
  then have "k < 2" by simp
  moreover have "k \<noteq> 0" using k b by (intro notI) simp
  ultimately have "k = 1" by linarith
  then have "unat a + unat (- a) = ?c" using k by simp
  then show ?thesis by linarith
qed

lemma unat_diff_wrap:
  fixes a b :: "'a::len word"
  assumes "unat a < unat b"
  shows "unat (a - b) = 2 ^ LENGTH('a) - (unat b - unat a)"
proof -
  have "unat (b - a) = unat b - unat a" using assms by (simp add: unat_minus_no_wrap)
  moreover have "b - a \<noteq> 0" using assms by auto
  moreover have "a - b = - (b - a)" by simp
  ultimately show ?thesis by (metis unat_minus_eq)
qed

text \<open>\<open>a\<close> is after \<open>b\<close> when the way from \<open>b\<close> forward to \<open>a\<close> is less than half the circle.\<close>

lemma seq_gt_forward:
  fixes a b :: "'a::len word"
  assumes "unat (a - b) \<noteq> 2 ^ (LENGTH('a) - 1)"
  shows "seq_gt a b \<longleftrightarrow> a \<noteq> b \<and> unat (a - b) < 2 ^ (LENGTH('a) - 1)"
proof -
  let ?h = "2 ^ (LENGTH('a) - 1) :: nat"
  have h: "unat (seq_half :: 'a word) = ?h - 1" "0 < ?h" by (simp_all add: unat_seq_half)
  consider (eq) "a = b" | (gt) "unat a > unat b" | (lt) "unat a < unat b"
    by (metis linorder_cases word_unat_eq_iff)
  then show ?thesis
  proof cases
    case eq
    then show ?thesis by (simp add: seq_gt_def)
  next
    case gt
    then have "a \<noteq> b" "b < a" "\<not> a < b" by (auto simp: word_less_nat_alt)
    moreover have "unat (a - b) \<le> ?h - 1 \<longleftrightarrow> unat (a - b) < ?h" using h(2) by linarith
    ultimately show ?thesis using h(1) by (auto simp: seq_gt_def word_le_nat_alt)
  next
    case lt
    then have "a \<noteq> b" "a < b" "\<not> b < a" by (auto simp: word_less_nat_alt)
    moreover have "unat (b - a) = unat b - unat a" using lt by (simp add: unat_minus_no_wrap)
    ultimately have gt: "seq_gt a b \<longleftrightarrow> unat b - unat a > ?h - 1"
      using h(1) by (simp add: seq_gt_def word_less_nat_alt)
    define d where "d = unat b - unat a"
    have "unat (a - b) = 2 * ?h - d" "d < 2 * ?h"
      using unat_diff_wrap [OF lt] half_circle [where ?'a = 'a] unsigned_less [of b, where ?'a = nat] lt
      by (simp_all add: d_def)
    then have "d > ?h - 1 \<longleftrightarrow> unat (a - b) < ?h" using assms by linarith
    then show ?thesis using gt \<open>a \<noteq> b\<close> by (simp add: d_def)
  qed
qed

lemma seq_gt_offset:
  fixes s :: "'a::len word"
  assumes "m < n + 2 ^ (LENGTH('a) - 1)" and "n < m + 2 ^ (LENGTH('a) - 1)"
  shows "seq_gt (s + of_nat m) (s + of_nat n) \<longleftrightarrow> m > n"
proof -
  let ?h = "2 ^ (LENGTH('a) - 1) :: nat"
  have c: "2 ^ LENGTH('a) = 2 * ?h" "0 < ?h" by (rule half_circle) simp
  show ?thesis
  proof (cases "n \<le> m")
    case True
    then have "(s + of_nat m) - (s + of_nat n) = of_nat (m - n)" by simp
    moreover have "unat (of_nat (m - n) :: 'a word) = m - n"
    proof -
      have "m - n < 2 ^ LENGTH('a)" using assms(1) c by linarith
      then show ?thesis by (simp add: unat_of_nat)
    qed
    ultimately have u: "unat ((s + of_nat m) - (s + of_nat n)) = m - n" by metis
    have "s + of_nat m = s + (of_nat n :: 'a word) \<longleftrightarrow> m = n"
      using u True by (metis cancel_comm_monoid_add_class.diff_cancel diff_is_0_eq le_antisym unsigned_0)
    then show ?thesis using seq_gt_forward [of "s + of_nat m" "s + of_nat n"] u assms(1) True by auto
  next
    case False
    then have "(s + of_nat n) - (s + of_nat m) = of_nat (n - m)" by simp
    moreover have "unat (of_nat (n - m) :: 'a word) = n - m"
    proof -
      have "n - m < 2 ^ LENGTH('a)" using assms(2) c by linarith
      then show ?thesis by (simp add: unat_of_nat)
    qed
    ultimately have u: "unat ((s + of_nat n) - (s + of_nat m)) = n - m" by metis
    have "(s + of_nat m) - (s + of_nat n) = - ((s + of_nat n) - (s + of_nat m))" by simp
    moreover have "(s + of_nat n) - (s + of_nat m) \<noteq> 0" using u False by auto
    ultimately have "unat ((s + of_nat m) - (s + of_nat n)) = 2 * ?h - (n - m)"
      using unat_minus_eq [of "(s + of_nat n) - (s + of_nat m)"] u c(1) by metis
    then show ?thesis
      using seq_gt_forward [of "s + of_nat m" "s + of_nat n"] False assms(2) by auto
  qed
qed

lemma seq_eq_offset:
  fixes s :: "'a::len word"
  assumes "m < n + 2 ^ (LENGTH('a) - 1)" and "n < m + 2 ^ (LENGTH('a) - 1)"
  shows "s + of_nat m = s + of_nat n \<longleftrightarrow> m = n"
proof
  assume "s + of_nat m = s + of_nat n"
  then have "\<not> seq_gt (s + of_nat m) (s + of_nat n)" "\<not> seq_gt (s + of_nat n) (s + of_nat m)"
    by (simp_all add: seq_gt_def)
  then show "m = n" using seq_gt_offset [OF assms] seq_gt_offset [OF assms(2,1)] by auto
qed simp

text \<open>All comparisons at once, for the clients.\<close>

lemma seq_offset:
  fixes s :: "'a::len word"
  assumes "m < n + 2 ^ (LENGTH('a) - 1)" and "n < m + 2 ^ (LENGTH('a) - 1)"
  shows "seq_gt (s + of_nat m) (s + of_nat n) \<longleftrightarrow> m > n" "seq_lt (s + of_nat m) (s + of_nat n) \<longleftrightarrow> m < n"
    "seq_le (s + of_nat m) (s + of_nat n) \<longleftrightarrow> m \<le> n" "seq_ge (s + of_nat m) (s + of_nat n) \<longleftrightarrow> m \<ge> n"
    "s + of_nat m = s + of_nat n \<longleftrightarrow> m = n"
  using seq_gt_offset [OF assms] seq_eq_offset [OF assms]
  by (auto simp: seq_lt_def seq_le_def seq_ge_def)

lemma seq_minus_eq: "seq_minus a b = a - b"
  by (simp add: seq_minus_def Let_def)

text \<open>
  C37: sequence numbers order by distance.  Take any starting point of the circle and two
  offsets less than half the circle apart: the four comparison operators and equality on the
  wrapped numbers are those of the offsets, and the difference operator returns, as a signed
  number, the difference of the offsets; no wrap-around in between shows.
\<close>

theorem seq_order_window:
  fixes s :: "'a::len word"
  assumes "m < n + 2 ^ (LENGTH('a) - 1)" and "n < m + 2 ^ (LENGTH('a) - 1)"
  shows "(seq_gt (s + of_nat m) (s + of_nat n) \<longleftrightarrow> m > n) \<and> (seq_lt (s + of_nat m) (s + of_nat n) \<longleftrightarrow> m < n)
    \<and> (seq_le (s + of_nat m) (s + of_nat n) \<longleftrightarrow> m \<le> n) \<and> (seq_ge (s + of_nat m) (s + of_nat n) \<longleftrightarrow> m \<ge> n)
    \<and> sint (seq_minus (s + of_nat m) (s + of_nat n)) = int m - int n"
proof -
  have "seq_minus (s + of_nat m) (s + of_nat n) = word_of_int (int m - int n)"
    by (simp add: seq_minus_eq)
  moreover have "sint (word_of_int (int m - int n) :: 'a word) = int m - int n"
  proof -
    let ?h = "2 ^ (LENGTH('a) - 1) :: int"
    have "int m < int (n + 2 ^ (LENGTH('a) - 1))" "int n < int (m + 2 ^ (LENGTH('a) - 1))"
      using assms by (simp_all only: of_nat_less_iff)
    then have "int m < int n + ?h" "int n < int m + ?h" by simp_all
    then have "- ?h \<le> int m - int n" "int m - int n < ?h" by linarith+
    then show ?thesis unfolding sint_sbintrunc' by (intro signed_take_bit_int_eq_self)
  qed
  ultimately show ?thesis using seq_offset [OF assms, of s] by simp
qed

theorem seq_order_window_witness:
  "seq_gt (0xFFFFFFF0 + of_nat 0x20 :: u32) (0xFFFFFFF0 + of_nat 3) \<and> (0x10 :: u32) = 0xFFFFFFF0 + of_nat 0x20
     \<and> sint (seq_minus (0xFFFFFFF0 + of_nat 0x20 :: u32) (0xFFFFFFF0 + of_nat 3)) = 29"
proof -
  have "(0x20 :: nat) < 3 + 2 ^ (LENGTH(32) - 1)" "(3 :: nat) < 0x20 + 2 ^ (LENGTH(32) - 1)" by simp_all
  note w = seq_order_window [OF this, of "0xFFFFFFF0"]
  have "(0x10 :: u32) = 0xFFFFFFF0 + of_nat 0x20" by simp
  moreover have "(3 :: nat) < 0x20" "int 0x20 - int 3 = 29" by simp_all
  ultimately show ?thesis using w by (simp only: simp_thms)
qed

end
