(* ===== verification/Tcp_Rx_Buffer.thy ===== *)
theory Tcp_Rx_Buffer
  imports Sequence_Number
begin

text \<open>
  The TCP receive buffer: \<^verbatim>\<open>ns3::TcpRxBuffer\<close> (src/internet/model/tcp-rx-buffer.h, .cc).
  Segments arrive in any order, overlapping and repeated; the buffer trims them, keeps them
  in a map by sequence number, hands out the contiguous bytes in order and keeps the list of
  blocks to be reported in the SACK option.

  A packet is its list of bytes: \<^verbatim>\<open>CreateFragment\<close> and \<^verbatim>\<open>AddAtEnd\<close> act on
  them as shown for the buffer of a packet.  \<^verbatim>\<open>std::map\<close> is a list in the order of
  \<^verbatim>\<open>operator<\<close> on sequence numbers.  Counters are 32-bit words; assertions that fail and
  dereferencing the end of a container give \<open>None\<close>.
\<close>

type_synonym seq32 = u32

record rx_buffer =
  rx_sackList :: "(seq32 \<times> seq32) list"
  rx_nextRxSeq :: seq32
  rx_finSeq :: seq32
  rx_gotFin :: bool
  rx_size :: u32
  rx_maxBuffer :: u32
  rx_availBytes :: u32
  rx_data :: "(seq32 \<times> u8 list) list"

definition TcpRxBuffer_init :: "u32 \<Rightarrow> rx_buffer" where
  "TcpRxBuffer_init n = \<lparr>rx_sackList = [], rx_nextRxSeq = n, rx_finSeq = 0, rx_gotFin = False,
     rx_size = 0, rx_maxBuffer = 32768, rx_availBytes = 0, rx_data = []\<rparr>"

definition rx_SetMaxBufferSize :: "u32 \<Rightarrow> rx_buffer \<Rightarrow> rx_buffer" where
  "rx_SetMaxBufferSize s rx = rx\<lparr>rx_maxBuffer := s\<rparr>"

definition rx_SetNextRxSequence :: "seq32 \<Rightarrow> rx_buffer \<Rightarrow> rx_buffer" where
  "rx_SetNextRxSequence s rx = rx\<lparr>rx_nextRxSeq := s\<rparr>"

definition rx_IncNextRxSequence :: "rx_buffer \<Rightarrow> rx_buffer option" where
  "rx_IncNextRxSequence rx = do {
     ns_assert (rx_size rx = 0);
     Some (rx\<lparr>rx_nextRxSeq := rx_nextRxSeq rx + 1\<rparr>)
   }"

definition rx_MaxRxSequence :: "rx_buffer \<Rightarrow> seq32" where
  "rx_MaxRxSequence rx =
     (if rx_gotFin rx then rx_finSeq rx
      else case rx_data rx of
        (k, _) # _ \<Rightarrow> (if seq_gt (rx_nextRxSeq rx) k then k + rx_maxBuffer rx
                     else rx_nextRxSeq rx + rx_maxBuffer rx)
      | [] \<Rightarrow> rx_nextRxSeq rx + rx_maxBuffer rx)"

definition rx_SetFinSequence :: "seq32 \<Rightarrow> rx_buffer \<Rightarrow> rx_buffer" where
  "rx_SetFinSequence s rx =
     (let rx = rx\<lparr>rx_gotFin := True, rx_finSeq := s\<rparr> in
      if rx_nextRxSeq rx = rx_finSeq rx then rx\<lparr>rx_nextRxSeq := rx_nextRxSeq rx + 1\<rparr> else rx)"

definition rx_Finished :: "rx_buffer \<Rightarrow> bool" where
  "rx_Finished rx \<longleftrightarrow> rx_gotFin rx \<and> seq_lt (rx_finSeq rx) (rx_nextRxSeq rx)"

section \<open>The map of packets\<close>

fun rx_put :: "seq32 \<Rightarrow> u8 list \<Rightarrow> (seq32 \<times> u8 list) list \<Rightarrow> (seq32 \<times> u8 list) list" where
  "rx_put k p [] = [(k, p)]"
| "rx_put k p ((k', p') # r) =
     (if seq_lt k k' then (k, p) # (k', p') # r
      else if seq_lt k' k then (k', p') # rx_put k p r
      else (k, p) # r)"

definition rx_has :: "seq32 \<Rightarrow> (seq32 \<times> u8 list) list \<Rightarrow> bool" where
  "rx_has k d \<longleftrightarrow> list_ex (\<lambda>(k', _). \<not> seq_lt k k' \<and> \<not> seq_lt k' k) d"

definition rx_erase :: "seq32 \<Rightarrow> (seq32 \<times> u8 list) list \<Rightarrow> (seq32 \<times> u8 list) list" where
  "rx_erase k d = filter (\<lambda>(k', _). seq_lt k k' \<or> seq_lt k' k) d"

section \<open>The SACK list\<close>

text \<open>
  The loop of \<^verbatim>\<open>UpdateSackList\<close>: \<open>b\<close> is the first block, \<open>sc\<close> the blocks passed so
  far and the last argument the blocks still to be compared; after a merge it starts over.
\<close>

function rx_sack_merge ::
  "seq32 \<times> seq32 \<Rightarrow> (seq32 \<times> seq32) list \<Rightarrow> (seq32 \<times> seq32) list \<Rightarrow> (seq32 \<times> seq32) list option" where
  "rx_sack_merge b sc [] = Some (b # sc)"
| "rx_sack_merge b sc (c # r) =
     (if fst b = snd c
      then do { ns_assert (seq_lt (fst c) (snd b)); rx_sack_merge (fst c, snd b) [] (sc @ r) }
      else if snd b = fst c
      then do { ns_assert (seq_lt (fst b) (snd c)); rx_sack_merge (fst b, snd c) [] (sc @ r) }
      else rx_sack_merge b (sc @ [c]) r)"
  by pat_completeness auto
termination
  by (relation "measures [\<lambda>(_, sc, r). length sc + length r, \<lambda>(_, _, r). length r]") auto

definition rx_UpdateSackList :: "seq32 \<Rightarrow> seq32 \<Rightarrow> rx_buffer \<Rightarrow> rx_buffer option" where
  "rx_UpdateSackList head tail rx = do {
     ns_assert (seq_gt head (rx_nextRxSeq rx));
     l \<leftarrow> rx_sack_merge (head, tail) [] (rx_sackList rx);
     Some (rx\<lparr>rx_sackList := (if length l > 4 then butlast l else l)\<rparr>)
   }"

definition rx_ClearSackList :: "seq32 \<Rightarrow> rx_buffer \<Rightarrow> rx_buffer option" where
  "rx_ClearSackList s rx = do {
     ns_assert (list_all (\<lambda>(f, l). seq_lt f l) (rx_sackList rx));
     Some (rx\<lparr>rx_sackList := filter (\<lambda>(_, l). \<not> seq_le l s) (rx_sackList rx)\<rparr>)
   }"

section \<open>Adding a segment\<close>

text \<open>
  The loop that removes the overlap with what is buffered: it trims the new segment, and
  drops a buffered packet that lies strictly inside it.
\<close>

fun rx_overlap :: "(seq32 \<times> u8 list) list \<Rightarrow> seq32 \<Rightarrow> seq32 \<Rightarrow> u32
    \<Rightarrow> (seq32 \<times> u8 list) list \<times> seq32 \<times> seq32 \<times> u32" where
  "rx_overlap [] h t sz = ([], h, t, sz)"
| "rx_overlap ((k, p) # r) h t sz =
     (if \<not> seq_le k t then ((k, p) # r, h, t, sz)
      else let lastByteSeq = k + of_nat (length p) in
        if seq_gt lastByteSeq h \<and> seq_gt k h \<and> seq_lt lastByteSeq t
        then rx_overlap r h t (sz - of_nat (length p))
        else let h' = (if seq_gt lastByteSeq h \<and> seq_le k h then lastByteSeq else h);
                 t' = (if seq_gt lastByteSeq h \<and> seq_ge lastByteSeq t then k else t);
                 (d, h'', t'', sz') = rx_overlap r h' t' sz
          in ((k, p) # d, h'', t'', sz'))"

text \<open>The loop that moves \<^verbatim>\<open>m_nextRxSeq\<close> over the packets that are now in sequence.\<close>

fun rx_advance :: "(seq32 \<times> u8 list) list \<Rightarrow> rx_buffer \<Rightarrow> rx_buffer option" where
  "rx_advance [] rx = Some rx"
| "rx_advance ((k, p) # r) rx =
     (if seq_lt k (rx_nextRxSeq rx) then rx_advance r rx
      else if seq_gt k (rx_nextRxSeq rx) then Some rx
      else do {
        let next = k + of_nat (length p);
        rx \<leftarrow> rx_ClearSackList next
          (rx\<lparr>rx_nextRxSeq := next, rx_availBytes := rx_availBytes rx + of_nat (length p)\<rparr>);
        rx_advance r rx
      })"

definition rx_trim :: "seq32 \<Rightarrow> seq32 \<Rightarrow> rx_buffer \<Rightarrow> seq32 \<times> seq32" where
  "rx_trim h t rx =
     (let h = (if seq_lt h (rx_nextRxSeq rx) then rx_nextRxSeq rx else h) in
      case rx_data rx of
        [] \<Rightarrow> (h, t)
      | (k, _) # _ \<Rightarrow>
          (let maxSeq = k + rx_maxBuffer rx;
               t = (if seq_lt maxSeq t then maxSeq else t);
               h = (if seq_lt t h then t else h)
           in (h, t)))"

definition rx_Add :: "u8 list \<Rightarrow> seq32 \<Rightarrow> rx_buffer \<Rightarrow> (bool \<times> rx_buffer) option" where
  "rx_Add p s rx =
     (let (h, t) = rx_trim s (s + of_nat (length p)) rx;
          (d, h, t, sz) = rx_overlap (rx_data rx) h t (rx_size rx);
          rx = rx\<lparr>rx_size := sz, rx_data := d\<rparr>
      in if seq_ge h t then Some (False, rx)
      else do {
        let start = unat (seq_minus h s);
        let len = unat (seq_minus t h);
        let q = take len (drop start p);
        ns_assert (len = length q);
        ns_assert (\<not> rx_has h (rx_data rx));
        let rx = rx\<lparr>rx_data := rx_put h q (rx_data rx)\<rparr>;
        rx \<leftarrow> (if seq_gt h (rx_nextRxSeq rx) then rx_UpdateSackList h t rx else Some rx);
        let rx = rx\<lparr>rx_size := rx_size rx + of_nat (length q)\<rparr>;
        rx \<leftarrow> rx_advance (rx_data rx) rx;
        Some (True, if rx_gotFin rx \<and> rx_nextRxSeq rx = rx_finSeq rx
                    then rx\<lparr>rx_nextRxSeq := rx_nextRxSeq rx + 1\<rparr> else rx)
      })"

section \<open>Extracting bytes\<close>

text \<open>\<open>n\<close> bytes are still to be extracted; \<^verbatim>\<open>begin ()\<close> of an empty map is not an element.\<close>

function rx_extract_loop :: "u32 \<Rightarrow> u8 list \<Rightarrow> rx_buffer \<Rightarrow> (u8 list \<times> rx_buffer) option" where
  "rx_extract_loop n out rx =
     (if n = 0 then Some (out, rx)
      else case rx_data rx of
        [] \<Rightarrow> None
      | (k, p) # r \<Rightarrow>
          if \<not> seq_le k (rx_nextRxSeq rx) then None
          else if of_nat (length p) \<le> n
          then rx_extract_loop (n - of_nat (length p)) (out @ p)
            (rx\<lparr>rx_data := r, rx_size := rx_size rx - of_nat (length p),
                rx_availBytes := rx_availBytes rx - of_nat (length p)\<rparr>)
          else Some (out @ take (unat n) p,
            rx\<lparr>rx_data := rx_erase k (rx_put (k + n) (take (length p - unat n) (drop (unat n) p)) (rx_data rx)),
               rx_size := rx_size rx - n, rx_availBytes := rx_availBytes rx - n\<rparr>))"
  by pat_completeness auto
termination by (relation "measure (\<lambda>(_, _, rx). length (rx_data rx))") auto

definition rx_Extract :: "u32 \<Rightarrow> rx_buffer \<Rightarrow> (u8 list option \<times> rx_buffer) option" where
  "rx_Extract maxSize rx =
     (let extractSize = min maxSize (rx_availBytes rx) in
      if extractSize = 0 then Some (None, rx)
      else do {
        ns_assert (rx_data rx \<noteq> []);
        (out, rx) \<leftarrow> rx_extract_loop extractSize [] rx;
        Some (if out = [] then None else Some out, rx)
      })"

declare rx_extract_loop.simps [simp del]

end
