(* ===== verification/Tcp_Rx_Laws.thy ===== *)
theory Tcp_Rx_Laws
  imports Tcp_Rx_Buffer
begin

text \<open>
  Correctness of the TCP receive buffer.  Sequence numbers are read as offsets of a stream:
  within a window of \<open>2 ^ 31\<close> the comparisons are those of the offsets, so that the operations
  are mirrored by operations on lists of (offset, bytes), for which the loops are analysed.
  Then every state that segments of one stream can lead to, in any order, delivers a prefix
  of that stream, and reports in its SACK list only bytes that it holds.
\<close>

section \<open>Offsets in a window\<close>

definition near :: "nat \<Rightarrow> nat \<Rightarrow> bool" where
  "near L x \<longleftrightarrow> L \<le> x \<and> x < L + 2 ^ 31"

lemma seq_near:
  fixes isn :: u32
  assumes "near L m" and "near L n"
  shows "seq_gt (isn + of_nat m) (isn + of_nat n) \<longleftrightarrow> m > n" "seq_lt (isn + of_nat m) (isn + of_nat n) \<longleftrightarrow> m < n"
    "seq_le (isn + of_nat m) (isn + of_nat n) \<longleftrightarrow> m \<le> n" "seq_ge (isn + of_nat m) (isn + of_nat n) \<longleftrightarrow> m \<ge> n"
    "isn + of_nat m = isn + of_nat n \<longleftrightarrow> m = n"
proof -
  have "m < n + 2 ^ (LENGTH(32) - 1)" "n < m + 2 ^ (LENGTH(32) - 1)" using assms by (simp_all add: near_def)
  from seq_offset [OF this, of isn]
  show "seq_gt (isn + of_nat m) (isn + of_nat n) \<longleftrightarrow> m > n" "seq_lt (isn + of_nat m) (isn + of_nat n) \<longleftrightarrow> m < n"
    "seq_le (isn + of_nat m) (isn + of_nat n) \<longleftrightarrow> m \<le> n" "seq_ge (isn + of_nat m) (isn + of_nat n) \<longleftrightarrow> m \<ge> n"
    "isn + of_nat m = isn + of_nat n \<longleftrightarrow> m = n" by blast+
qed

type_synonym pieces = "(nat \<times> u8 list) list"

definition at_seq :: "u32 \<Rightarrow> pieces \<Rightarrow> (seq32 \<times> u8 list) list" where
  "at_seq isn D = map (\<lambda>(o', p). (isn + of_nat o', p)) D"

lemma at_seq_simps [simp]:
  "at_seq isn [] = []" "at_seq isn ((o', p) # r) = (isn + of_nat o', p) # at_seq isn r"
  "at_seq isn (D @ E) = at_seq isn D @ at_seq isn E"
  by (simp_all add: at_seq_def)

lemma seq_end: "isn + of_nat o' + of_nat n = isn + (of_nat (o' + n) :: u32)"
  by simp

text \<open>Disjoint pieces in order between two bounds, and pieces without a gap.\<close>

fun chain :: "nat \<Rightarrow> pieces \<Rightarrow> nat \<Rightarrow> bool" where
  "chain lo [] hi \<longleftrightarrow> lo \<le> hi"
| "chain lo ((o', p) # r) hi \<longleftrightarrow> lo \<le> o' \<and> p \<noteq> [] \<and> chain (o' + length p) r hi"

fun contig :: "nat \<Rightarrow> pieces \<Rightarrow> nat \<Rightarrow> bool" where
  "contig lo [] hi \<longleftrightarrow> lo = hi"
| "contig lo ((o', p) # r) hi \<longleftrightarrow> o' = lo \<and> p \<noteq> [] \<and> contig (o' + length p) r hi"

definition cov :: "pieces \<Rightarrow> nat set" where
  "cov D = (\<Union>(o', p) \<in> set D. {o' ..< o' + length p})"

definition total :: "pieces \<Rightarrow> nat" where
  "total D = sum_list (map (\<lambda>(_, p). length p) D)"

lemma cov_simps [simp]:
  "cov [] = {}" "cov ((o', p) # r) = {o' ..< o' + length p} \<union> cov r" "cov (D @ E) = cov D \<union> cov E"
  by (auto simp: cov_def)

lemma total_simps [simp]:
  "total [] = 0" "total ((o', p) # r) = length p + total r" "total (D @ E) = total D + total E"
  by (simp_all add: total_def)

lemma chain_le: "chain lo D hi \<Longrightarrow> lo \<le> hi"
  by (induction lo D hi rule: chain.induct) auto

lemma chain_weaken: "chain lo D hi \<Longrightarrow> lo' \<le> lo \<Longrightarrow> hi \<le> hi' \<Longrightarrow> chain lo' D hi'"
  by (induction lo D hi arbitrary: lo' rule: chain.induct) auto

lemma contig_le: "contig lo D hi \<Longrightarrow> lo \<le> hi"
  by (induction lo D hi rule: contig.induct) auto

lemma contig_chain: "contig lo D hi \<Longrightarrow> chain lo D hi"
  by (induction lo D hi rule: contig.induct) auto

lemma chain_append: "chain lo (D @ E) hi \<longleftrightarrow> (\<exists>m. chain lo D m \<and> chain m E hi)"
proof (induction D arbitrary: lo)
  case Nil
  then show ?case using chain_weaken by auto
next
  case (Cons x D)
  then show ?case by (cases x) auto
qed

lemma contig_append: "contig lo D m \<Longrightarrow> contig m E hi \<Longrightarrow> contig lo (D @ E) hi"
  by (induction lo D m rule: contig.induct) auto

lemma cov_chain: "chain lo D hi \<Longrightarrow> x \<in> cov D \<Longrightarrow> lo \<le> x \<and> x < hi"
proof (induction lo D hi rule: chain.induct)
  case (2 lo o' p r hi)
  then have "o' + length p \<le> hi" using chain_le by auto
  then show ?case using 2 by fastforce
qed simp

lemma cov_contig: "contig lo D hi \<Longrightarrow> cov D = {lo ..< hi}"
proof (induction lo D hi rule: contig.induct)
  case (2 lo o' p r hi)
  then have "o' + length p \<le> hi" using contig_le by auto
  then show ?case using 2 by auto
qed simp

lemma total_contig: "contig lo D hi \<Longrightarrow> lo + total D = hi"
  by (induction lo D hi rule: contig.induct) auto

lemma total_chain: "chain lo D hi \<Longrightarrow> lo + total D \<le> hi"
  by (induction lo D hi rule: chain.induct) auto

lemma chain_member: "chain lo D hi \<Longrightarrow> (o', p) \<in> set D \<Longrightarrow> lo \<le> o' \<and> p \<noteq> [] \<and> o' + length p \<le> hi"
proof (induction lo D hi rule: chain.induct)
  case (2 lo o1 p1 r hi)
  then have "o1 + length p1 \<le> hi" using chain_le by auto
  then show ?case using 2 by fastforce
qed simp

section \<open>Removing the overlap\<close>

fun ov :: "pieces \<Rightarrow> nat \<Rightarrow> nat \<Rightarrow> pieces \<times> nat \<times> nat" where
  "ov [] h t = ([], h, t)"
| "ov ((o', p) # r) h t =
     (if t < o' then ((o', p) # r, h, t)
      else let e = o' + length p in
        if h < e \<and> h < o' \<and> e < t then ov r h t
        else let (d, h', t') = ov r (if h < e \<and> o' \<le> h then e else h) (if h < e \<and> t \<le> e then o' else t)
          in ((o', p) # d, h', t'))"

lemma rx_overlap_ov:
  assumes "near L h" and "near L t" and "\<forall>(o', p) \<in> set D. near L o' \<and> near L (o' + length p)"
    and "ov D h t = (D', h', t')"
  shows "\<exists>sz'. rx_overlap (at_seq isn D) (isn + of_nat h) (isn + of_nat t) sz
      = (at_seq isn D', isn + of_nat h', isn + of_nat t', sz')
    \<and> sz' + of_nat (total D) = sz + of_nat (total D') \<and> near L h' \<and> near L t'"
  using assms
proof (induction D arbitrary: h t sz D' h' t')
  case (Cons x D)
  obtain o' p where x: "x = (o', p)" by (cases x)
  let ?e = "o' + length p"
  have nr: "near L o'" "near L ?e" "near L h" "near L t"
    and ih: "\<forall>(o', p) \<in> set D. near L o' \<and> near L (o' + length p)"
    using Cons.prems x by auto
  note c = seq_near [OF nr(1,4), of isn] seq_near [OF nr(2,3), of isn] seq_near [OF nr(1,3), of isn]
    seq_near [OF nr(2,4), of isn]
  show ?case
  proof (cases "t < o'")
    case True
    then have "\<not> seq_le (isn + of_nat o') (isn + of_nat t)" by (simp only: seq_near [OF nr(1,4)] not_le)
    then show ?thesis using Cons.prems(4) nr True by (auto simp: x)
  next
    case False
    show ?thesis
    proof (cases "h < ?e \<and> h < o' \<and> ?e < t")
      case True
      then have "ov D h t = (D', h', t')" using Cons.prems(4) False by (simp add: x)
      from Cons.IH [OF nr(3,4) ih this, of "sz - of_nat (length p)"]
      obtain sz' where s: "rx_overlap (at_seq isn D) (isn + of_nat h) (isn + of_nat t) (sz - of_nat (length p))
          = (at_seq isn D', isn + of_nat h', isn + of_nat t', sz')"
        "sz' + of_nat (total D) = sz - of_nat (length p) + of_nat (total D')" "near L h'" "near L t'"
        by blast
      have "seq_le (isn + of_nat o') (isn + of_nat t)" "seq_gt (isn + of_nat ?e) (isn + of_nat h)"
        "seq_gt (isn + of_nat o') (isn + of_nat h)" "seq_lt (isn + of_nat ?e) (isn + of_nat t)"
        using True False
        by (simp_all only: seq_near [OF nr(1,4)] seq_near [OF nr(2,3)] seq_near [OF nr(1,3)] seq_near [OF nr(2,4)] not_less)
      then have "rx_overlap (at_seq isn (x # D)) (isn + of_nat h) (isn + of_nat t) sz
          = (at_seq isn D', isn + of_nat h', isn + of_nat t', sz')"
        by (simp only: x at_seq_simps rx_overlap.simps Let_def seq_end s(1)) simp
      moreover have "sz' + of_nat (total (x # D)) = sz' + of_nat (total D) + of_nat (length p)"
        by (simp add: x add_ac)
      ultimately show ?thesis using s(2-4) by simp
    next
      case noerase: False
      let ?h = "if h < ?e \<and> o' \<le> h then ?e else h" and ?t = "if h < ?e \<and> t \<le> ?e then o' else t"
      obtain d where d: "ov D ?h ?t = (d, h', t')" "D' = (o', p) # d"
        using Cons.prems(4) False noerase by (auto simp: x Let_def split: prod.splits)
      have "near L ?h" "near L ?t" using nr by auto
      from Cons.IH [OF this ih d(1), of sz]
      obtain sz' where s: "rx_overlap (at_seq isn D) (isn + of_nat ?h) (isn + of_nat ?t) sz
          = (at_seq isn d, isn + of_nat h', isn + of_nat t', sz')"
        "sz' + of_nat (total D) = sz + of_nat (total d)" "near L h'" "near L t'"
        by blast
      have hw: "(if seq_gt (isn + of_nat ?e) (isn + of_nat h) \<and> seq_le (isn + of_nat o') (isn + of_nat h)
          then isn + of_nat ?e else isn + of_nat h) = isn + of_nat ?h" using c by auto
      have tw: "(if seq_gt (isn + of_nat ?e) (isn + of_nat h) \<and> seq_ge (isn + of_nat ?e) (isn + of_nat t)
          then isn + of_nat o' else isn + of_nat t) = isn + of_nat ?t" using c by auto
      have "\<not> (seq_gt (isn + of_nat ?e) (isn + of_nat h) \<and> seq_gt (isn + of_nat o') (isn + of_nat h)
          \<and> seq_lt (isn + of_nat ?e) (isn + of_nat t))" using noerase c by auto
      moreover have "seq_le (isn + of_nat o') (isn + of_nat t)" using False c by auto
      ultimately have "rx_overlap (at_seq isn (x # D)) (isn + of_nat h) (isn + of_nat t) sz
          = ((isn + of_nat o', p) # at_seq isn d, isn + of_nat h', isn + of_nat t', sz')"
        by (simp only: x at_seq_simps rx_overlap.simps Let_def seq_end hw tw s(1)) simp
      moreover have "sz' + of_nat (total (x # D)) = sz + of_nat (total D')"
        using s(2) by (simp add: x d(2) add.left_commute [of _ "of_nat (length p)"])
      ultimately show ?thesis using s(3,4) d(2) by (simp add: x)
    qed
  qed
qed simp

text \<open>An empty segment stays empty and removes nothing; past the pieces nothing happens.\<close>

lemma ov_empty: "t \<le> h \<Longrightarrow> \<exists>h' t'. ov D h t = (D, h', t') \<and> t' \<le> h'"
proof (induction D arbitrary: h t)
  case (Cons x D)
  obtain o' p where x: "x = (o', p)" by (cases x)
  let ?e = "o' + length p"
  let ?h = "if h < ?e \<and> o' \<le> h then ?e else h" and ?t = "if h < ?e \<and> t \<le> ?e then o' else t"
  show ?case
  proof (cases "t < o'")
    case False
    then have "?t \<le> ?h" using Cons.prems by auto
    then show ?thesis using Cons.IH [of ?t ?h] False Cons.prems by (auto simp: x Let_def)
  qed (use Cons.prems in \<open>auto simp: x\<close>)
qed simp

lemma ov_past: "chain lo D hi \<Longrightarrow> t < lo \<Longrightarrow> ov D h t = (D, h, t)"
  by (cases D) auto

lemma ov_before:
  assumes "contig lo C n" and "n \<le> h" and "h < t" and "ov G h t = (G', h', t')"
  shows "ov (C @ G) h t = (C @ G', h', t')"
  using assms(1)
proof (induction C arbitrary: lo)
  case (Cons x C)
  obtain o' p where x: "x = (o', p)" by (cases x)
  have "o' + length p \<le> n" using Cons.prems contig_le by (auto simp: x)
  then have "\<not> h < o' + length p" "\<not> t < o'" using assms(2,3) by linarith+
  then show ?case using Cons by (auto simp: x Let_def)
qed (use assms(4) in simp)

text \<open>What is left of a segment \<open>[h, t)\<close> fits in a gap, and nothing is lost.\<close>

lemma ov_split:
  assumes "chain lo D hi" and "lo \<le> h" and "h < t" and "ov D h t = (D', h', t')"
  shows "(D' = D \<and> t' \<le> h' \<and> {h ..< t} \<subseteq> cov D)
    \<or> (h \<le> h' \<and> h' < t' \<and> t' \<le> t \<and> (\<exists>A B. D' = A @ B \<and> chain lo A h' \<and> chain t' B (max hi t))
       \<and> cov D \<subseteq> cov D' \<union> {h' ..< t'} \<and> {h ..< t} \<subseteq> cov D' \<union> {h' ..< t'}
       \<and> set D' \<subseteq> set D)"
  using assms
proof (induction D arbitrary: lo h t D' h' t')
  case Nil
  then show ?case by auto
next
  case (Cons x D)
  obtain o' p where x: "x = (o', p)" by (cases x)
  let ?e = "o' + length p"
  have ch: "lo \<le> o'" "p \<noteq> []" "chain ?e D hi" using Cons.prems(1) by (auto simp: x)
  have pos: "o' < ?e" using ch(2) by simp
  show ?case
  proof (cases "t < o'")
    case True
    then have "D' = x # D" "h' = h" "t' = t" using Cons.prems(4) by (auto simp: x)
    moreover have "chain t (x # D) (max hi t)"
      using chain_weaken [OF ch(3), of ?e "max hi t"] True ch(2) by (simp add: x)
    ultimately have "\<exists>A B. D' = A @ B \<and> chain lo A h' \<and> chain t' B (max hi t)"
      using Cons.prems(2) by (metis append_Nil chain.simps(1))
    then show ?thesis using Cons.prems(3) \<open>D' = x # D\<close> \<open>h' = h\<close> \<open>t' = t\<close> by auto
  next
    case False
    show ?thesis
    proof (cases "h < ?e \<and> h < o' \<and> ?e < t")
      case True
      then have ov: "ov D h t = (D', h', t')" using Cons.prems(4) False by (simp add: x)
      have "chain lo D hi" using ch pos by (auto intro: chain_weaken)
      from Cons.IH [OF this Cons.prems(2,3) ov] show ?thesis
      proof
        assume a: "D' = D \<and> t' \<le> h' \<and> {h ..< t} \<subseteq> cov D"
        then have "h \<in> cov D" using Cons.prems(3) by auto
        then show ?thesis using cov_chain [OF ch(3)] True by fastforce
      next
        assume a: "h \<le> h' \<and> h' < t' \<and> t' \<le> t \<and> (\<exists>A B. D' = A @ B \<and> chain lo A h' \<and> chain t' B (max hi t))
          \<and> cov D \<subseteq> cov D' \<union> {h' ..< t'} \<and> {h ..< t} \<subseteq> cov D' \<union> {h' ..< t'} \<and> set D' \<subseteq> set D"
        moreover have "{o' ..< ?e} \<subseteq> {h ..< t}" using True by auto
        ultimately have "{o' ..< ?e} \<union> cov D \<subseteq> cov D' \<union> {h' ..< t'}" by (meson Un_least subset_trans)
        then show ?thesis using a by (intro disjI2) (simp add: x subset_insertI2)
      qed
    next
      case noerase: False
      consider (before) "?e \<le> h" | (head) "h < ?e" "o' \<le> h" | (tail) "h < o'" "t \<le> ?e"
        using noerase pos by linarith
      then show ?thesis
      proof cases
        case before
        then obtain d where d: "ov D h t = (d, h', t')" "D' = x # d"
          using Cons.prems(4) False by (auto simp: x Let_def split: prod.splits)
        from Cons.IH [OF ch(3) before Cons.prems(3) d(1)] show ?thesis
        proof
          assume a: "h \<le> h' \<and> h' < t' \<and> t' \<le> t \<and> (\<exists>A B. d = A @ B \<and> chain ?e A h' \<and> chain t' B (max hi t))
            \<and> cov D \<subseteq> cov d \<union> {h' ..< t'} \<and> {h ..< t} \<subseteq> cov d \<union> {h' ..< t'} \<and> set d \<subseteq> set D"
          then obtain A B where ab: "d = A @ B" "chain ?e A h'" "chain t' B (max hi t)" by blast
          then have "D' = (x # A) @ B" "chain lo (x # A) h'" using d(2) ch by (auto simp: x)
          then have E: "\<exists>A B. D' = A @ B \<and> chain lo A h' \<and> chain t' B (max hi t)" using ab(3) by blast
          show ?thesis by (intro disjI2 conjI E) (use a d(2) in \<open>auto simp: x\<close>)
        qed (auto simp: d(2) x)
      next
        case head
        show ?thesis
        proof (cases "t \<le> ?e")
          case True
          obtain h2 t2 where o2: "ov D ?e o' = (D, h2, t2)" "t2 \<le> h2" using ov_empty [of o' ?e D] by auto
          then have "D' = x # D" "t' \<le> h'" using Cons.prems(4) False head True by (auto simp: x Let_def)
          moreover have "{h ..< t} \<subseteq> {o' ..< ?e}" using head True by auto
          ultimately show ?thesis by (auto simp: x)
        next
          case more: False
          then obtain d where d: "ov D ?e t = (d, h', t')" "D' = x # d"
            using Cons.prems(4) False head by (auto simp: x Let_def split: prod.splits)
          have "?e < t" using more by simp
          from Cons.IH [OF ch(3) order_refl this d(1)] show ?thesis
          proof
            assume a: "d = D \<and> t' \<le> h' \<and> {?e ..< t} \<subseteq> cov D"
            then have sub: "{?e ..< t} \<subseteq> cov D" by blast
            have "{h ..< t} \<subseteq> cov (x # D)"
            proof
              fix y assume "y \<in> {h ..< t}"
              then have "y \<in> {o' ..< ?e} \<or> y \<in> {?e ..< t}" using head by auto
              then show "y \<in> cov (x # D)" using subsetD [OF sub, of y] by (auto simp: x)
            qed
            then show ?thesis using a d(2) by simp
          next
            assume a: "?e \<le> h' \<and> h' < t' \<and> t' \<le> t \<and> (\<exists>A B. d = A @ B \<and> chain ?e A h' \<and> chain t' B (max hi t))
              \<and> cov D \<subseteq> cov d \<union> {h' ..< t'} \<and> {?e ..< t} \<subseteq> cov d \<union> {h' ..< t'} \<and> set d \<subseteq> set D"
            then obtain A B where ab: "d = A @ B" "chain ?e A h'" "chain t' B (max hi t)" by blast
            then have ab': "D' = (x # A) @ B" "chain lo (x # A) h'" using d(2) ch by (auto simp: x)
            have sub: "{?e ..< t} \<subseteq> cov d \<union> {h' ..< t'}" using a by blast
            have "{h ..< t} \<subseteq> cov D' \<union> {h' ..< t'}"
            proof
              fix y assume "y \<in> {h ..< t}"
              then have "y \<in> {o' ..< ?e} \<or> y \<in> {?e ..< t}" using head by auto
              then show "y \<in> cov D' \<union> {h' ..< t'}" using subsetD [OF sub, of y] d(2) by (auto simp: x)
            qed
            moreover have E: "\<exists>A B. D' = A @ B \<and> chain lo A h' \<and> chain t' B (max hi t)"
              using ab(3) ab' by blast
            ultimately show ?thesis by (intro disjI2 conjI E) (use a d(2) head in \<open>auto simp: x\<close>)
          qed
        qed
      next
        case tail
        have "ov D h o' = (D, h, o')" using ov_past [OF ch(3) pos] .
        then have D': "D' = x # D" "h' = h" "t' = o'"
          using Cons.prems(4) False tail pos by (auto simp: x Let_def)
        have "chain o' (x # D) (max hi t)" using ch chain_weaken [OF ch(3), of ?e "max hi t"] by (simp add: x)
        moreover have "{h ..< t} \<subseteq> cov (x # D) \<union> {h ..< o'}" using tail by (auto simp: x)
        moreover have "\<exists>A B. D' = A @ B \<and> chain lo A h' \<and> chain t' B (max hi t)"
          using calculation(1) D' Cons.prems(2) by (metis append_Nil chain.simps(1))
        ultimately show ?thesis using D' tail False by auto
      qed
    qed
  qed
qed

end
