(* ===== verification/Tcp_Rx_Stream.thy ===== *)
theory Tcp_Rx_Stream
  imports Tcp_Rx_Laws
begin

text \<open>
  The states of a TCP receive buffer fed with segments of one byte stream, in any order and
  with any overlap: the invariant, that adding and extracting keep it, and the properties of
  the buffer as a whole.
\<close>

section \<open>The operations on pieces\<close>

lemma seq_min_max:
  fixes isn :: u32
  assumes "near L a" and "near L b"
  shows "(if seq_lt (isn + of_nat a) (isn + of_nat b) then isn + of_nat a else isn + of_nat b) = isn + of_nat (min a b)"
    "(if seq_lt (isn + of_nat a) (isn + of_nat b) then isn + of_nat b else isn + of_nat a) = isn + of_nat (max a b)"
  unfolding seq_near(2) [OF assms] by (auto simp: min_def max_def)

definition all_near :: "nat \<Rightarrow> pieces \<Rightarrow> bool" where
  "all_near L D \<longleftrightarrow> (\<forall>(o', p) \<in> set D. near L o' \<and> near L (o' + length p))"

lemma all_near_simps [simp]:
  "all_near L []" "all_near L ((o', p) # r) \<longleftrightarrow> near L o' \<and> near L (o' + length p) \<and> all_near L r"
  "all_near L (D @ E) \<longleftrightarrow> all_near L D \<and> all_near L E"
  by (auto simp: all_near_def)

lemma all_near_chain: "chain lo D hi \<Longrightarrow> L \<le> lo \<Longrightarrow> hi < L + 2 ^ 31 \<Longrightarrow> all_near L D"
  using chain_member by (fastforce simp: all_near_def near_def)

lemma rx_put_gap:
  assumes "chain lo A h" and "chain t B hi" and "h < t" and "all_near L A" "all_near L B" "near L h"
  shows "rx_put (isn + of_nat h) q (at_seq isn (A @ B)) = at_seq isn (A @ (h, q) # B)"
  using assms(1,4)
proof (induction A arbitrary: lo)
  case Nil
  then show ?case using assms by (cases B) (auto simp: seq_near)
next
  case (Cons x A)
  obtain o' p where x: "x = (o', p)" by (cases x)
  have "o' + length p \<le> h" "p \<noteq> []" using Cons.prems chain_le by (auto simp: x)
  then have "o' < h" by (cases p) auto
  moreover have "near L o'" using Cons.prems by (simp add: x)
  ultimately have "seq_lt (isn + of_nat o') (isn + of_nat h)" "\<not> seq_lt (isn + of_nat h) (isn + of_nat o')"
    using assms(6) by (simp_all add: seq_near)
  then show ?case using Cons.IH [of "o' + length p"] Cons.prems by (simp add: x)
qed

lemma rx_has_not:
  assumes "\<forall>(o', p) \<in> set D. o' \<noteq> h" and "all_near L D" and "near L h"
  shows "\<not> rx_has (isn + of_nat h) (at_seq isn D)"
  using assms by (induction D) (auto simp: rx_has_def seq_near)

text \<open>SACK blocks that report bytes of \<open>K\<close> beyond offset \<open>n\<close>.\<close>

definition sack_block :: "u32 \<Rightarrow> nat \<Rightarrow> nat set \<Rightarrow> seq32 \<times> seq32 \<Rightarrow> bool" where
  "sack_block isn n K blk \<longleftrightarrow>
     (\<exists>a b. blk = (isn + of_nat a, isn + of_nat b) \<and> n < a \<and> a < b \<and> {a ..< b} \<subseteq> K)"

lemma rx_sack_merge_inv:
  assumes "\<And>b c. P b \<Longrightarrow> P c \<Longrightarrow> fst b = snd c \<Longrightarrow> seq_lt (fst c) (snd b) \<and> P (fst c, snd b)"
    and "list_all P (b # sc @ r)"
  shows "\<exists>l. rx_sack_merge b sc r = Some l \<and> list_all P l"
  using assms(2)
proof (induction b sc r rule: rx_sack_merge.induct)
  case (2 b sc c r)
  have "P b" "P c" using 2(4) by auto
  then have m: "fst b = snd c \<Longrightarrow> seq_lt (fst c) (snd b) \<and> P (fst c, snd b)"
    "snd b = fst c \<Longrightarrow> seq_lt (fst b) (snd c) \<and> P (fst b, snd c)"
    using assms(1) [of b c] assms(1) [of c b] by auto
  show ?case
  proof (cases "fst b = snd c")
    case True
    then show ?thesis using 2(1) 2(4) m(1) by (auto simp: bind_ns_assert)
  next
    case left: False
    show ?thesis
    proof (cases "snd b = fst c")
      case True
      then show ?thesis using 2(2) 2(4) left m(2) by (auto simp: bind_ns_assert)
    next
      case False
      then show ?thesis using 2(3) 2(4) left by auto
    qed
  qed
qed auto

lemma sack_block_near:
  assumes "sack_block isn n K blk" and "K \<subseteq> {..< hi}" and "L \<le> n" "hi < L + 2 ^ 31"
  obtains a b where "blk = (isn + of_nat a, isn + of_nat b)" "n < a" "a < b" "{a ..< b} \<subseteq> K" "near L a" "near L b"
proof -
  obtain a b where ab: "blk = (isn + of_nat a, isn + of_nat b)" "n < a" "a < b" "{a ..< b} \<subseteq> K"
    using assms(1) by (auto simp: sack_block_def)
  have "b - 1 \<in> K" using ab(3,4) by auto
  then have "b - 1 < hi" using assms(2) by auto
  then show ?thesis using that [OF ab] ab(2,3) assms(3,4) by (simp add: near_def)
qed

lemma sack_block_merge:
  assumes "sack_block isn n K b" and "sack_block isn n K c" and "fst b = snd c"
    and "K \<subseteq> {..< hi}" and "L \<le> n" "hi < L + 2 ^ 31"
  shows "seq_lt (fst c) (snd b) \<and> sack_block isn n K (fst c, snd b)"
proof -
  obtain a1 b1 where 1: "b = (isn + of_nat a1, isn + of_nat b1)" "n < a1" "a1 < b1" "{a1 ..< b1} \<subseteq> K"
    "near L a1" "near L b1" using sack_block_near [OF assms(1,4-6)] by blast
  obtain a2 b2 where 2: "c = (isn + of_nat a2, isn + of_nat b2)" "n < a2" "a2 < b2" "{a2 ..< b2} \<subseteq> K"
    "near L a2" "near L b2" using sack_block_near [OF assms(2,4-6)] by blast
  have "isn + of_nat a1 = isn + (of_nat b2 :: u32)" using assms(3) 1(1) 2(1) by simp
  then have "a1 = b2" by (simp only: seq_near(5) [OF 1(5) 2(6)])
  then have "{a2 ..< b1} = {a2 ..< b2} \<union> {a1 ..< b1}" using 1(3) 2(3) by auto
  then have "{a2 ..< b1} \<subseteq> K" using 1(4) 2(4) by simp
  moreover have lt: "a2 < b1" using 1(3) 2(3) \<open>a1 = b2\<close> by simp
  ultimately have "sack_block isn n K (isn + of_nat a2, isn + of_nat b1)"
    using 2(2) unfolding sack_block_def by blast
  moreover have "seq_lt (isn + of_nat a2) (isn + (of_nat b1 :: u32))" using lt seq_near(2) [OF 2(5) 1(6)] by simp
  ultimately show ?thesis using 1(1) 2(1) by simp
qed

lemma rx_UpdateSackList_ok:
  assumes "list_all (sack_block isn n K) (rx_sackList rx)" and "rx_nextRxSeq rx = isn + of_nat n"
    and "n < h" "h < t" "{h ..< t} \<subseteq> K" and "K \<subseteq> {..< hi}" and "L \<le> n" "hi < L + 2 ^ 31"
  shows "\<exists>l. rx_UpdateSackList (isn + of_nat h) (isn + of_nat t) rx = Some (rx\<lparr>rx_sackList := l\<rparr>)
    \<and> list_all (sack_block isn n K) l"
proof -
  have blk: "sack_block isn n K (isn + of_nat h, isn + of_nat t)" using assms(3-5) by (auto simp: sack_block_def)
  obtain h' t' where "isn + of_nat h = isn + (of_nat h' :: u32)" "near L h'" "n < h'"
    using sack_block_near [OF blk assms(6-8)] by (metis prod.inject)
  moreover have "near L n" using assms(6-8) blk \<open>near L h'\<close> \<open>n < h'\<close> by (auto simp: near_def)
  ultimately have gt: "seq_gt (isn + of_nat h) (rx_nextRxSeq rx)" using assms(2) by (simp add: seq_near)
  obtain l where l: "rx_sack_merge (isn + of_nat h, isn + of_nat t) [] (rx_sackList rx) = Some l"
    "list_all (sack_block isn n K) l"
    using rx_sack_merge_inv [of "sack_block isn n K" "(isn + of_nat h, isn + of_nat t)" "[]" "rx_sackList rx"]
      sack_block_merge [OF _ _ _ assms(6-8)] blk assms(1) by auto
  have "list_all (sack_block isn n K) (if length l > 4 then butlast l else l)"
    using l(2) by (auto simp: list_all_iff dest: in_set_butlastD)
  then show ?thesis using gt l(1)
    by (intro exI [of _ "if length l > 4 then butlast l else l"]) (simp add: rx_UpdateSackList_def)
qed

lemma rx_ClearSackList_ok:
  assumes "list_all (sack_block isn n K) (rx_sackList rx)" and "K \<subseteq> {..< hi}" and "L \<le> n" "hi < L + 2 ^ 31"
  shows "\<exists>l. rx_ClearSackList s rx = Some (rx\<lparr>rx_sackList := l\<rparr>) \<and> list_all (sack_block isn n K) l
    \<and> (\<forall>blk \<in> set l. \<not> seq_le (snd blk) s)"
proof -
  have "seq_lt (fst blk) (snd blk)" if "blk \<in> set (rx_sackList rx)" for blk
  proof -
    have "sack_block isn n K blk" using assms(1) that by (auto simp: list_all_iff)
    from sack_block_near [OF this assms(2-4)] show ?thesis by (metis fst_conv snd_conv seq_near(2))
  qed
  then have "list_all (\<lambda>(f, l). seq_lt f l) (rx_sackList rx)" by (auto simp: list_all_iff)
  then show ?thesis using assms(1) by (auto simp: rx_ClearSackList_def list_all_iff)
qed

section \<open>Moving the next expected byte\<close>

lemma rx_advance_skip:
  assumes "contig lo C n" and "rx_nextRxSeq rx = isn + of_nat n" and "all_near L C" and "near L n"
  shows "rx_advance (at_seq isn (C @ E)) rx = rx_advance (at_seq isn E) rx"
  using assms(1,3)
proof (induction C arbitrary: lo)
  case (Cons x C)
  obtain o' p where x: "x = (o', p)" by (cases x)
  have "o' + length p \<le> n" "p \<noteq> []" using Cons.prems contig_le by (auto simp: x)
  then have "o' < n" by (cases p) auto
  moreover have "near L o'" using Cons.prems(2) by (simp add: x)
  ultimately have "seq_lt (isn + of_nat o') (rx_nextRxSeq rx)"
    using assms(2) seq_near(2) [OF _ assms(4)] by simp
  then show ?case using Cons.IH [of "o' + length p"] Cons.prems by (auto simp: x)
qed simp

lemma rx_advance_ok:
  assumes "chain n E hi" and "rx_nextRxSeq rx = isn + of_nat n"
    and "list_all (sack_block isn n0 K) (rx_sackList rx)" and "K \<subseteq> {..< tp}" and "L \<le> n0" "n0 \<le> n" "tp < L + 2 ^ 31"
    and "hi < L + 2 ^ 31"
  shows "\<exists>E1 E2 n' l. E = E1 @ E2 \<and> contig n E1 n' \<and> chain n' E2 hi \<and> n' \<notin> cov E2
    \<and> rx_advance (at_seq isn E) rx = Some (rx\<lparr>rx_nextRxSeq := isn + of_nat n',
        rx_availBytes := rx_availBytes rx + of_nat (n' - n), rx_sackList := l\<rparr>)
    \<and> list_all (sack_block isn n0 K) l
    \<and> (n' = n \<and> l = rx_sackList rx \<or> (\<forall>blk \<in> set l. \<not> seq_le (snd blk) (isn + of_nat n')))"
  using assms(1-3,6)
proof (induction E arbitrary: n rx)
  case Nil
  then show ?case by (intro exI [of _ "[]"] exI [of _ n] exI [of _ "rx_sackList rx"]) auto
next
  case (Cons x E)
  obtain o' p where x: "x = (o', p)" by (cases x)
  have ch: "n \<le> o'" "p \<noteq> []" "chain (o' + length p) E hi" using Cons.prems(1) by (auto simp: x)
  have le: "o' + length p \<le> hi" using chain_le [OF ch(3)] .
  then have nr: "near L n" "near L o'" using ch(1) Cons.prems(4) assms(5,8) by (auto simp: near_def)
  show ?case
  proof (cases "o' = n")
    case False
    then have gt: "seq_gt (isn + of_nat o') (rx_nextRxSeq rx)" "\<not> seq_lt (isn + of_nat o') (rx_nextRxSeq rx)"
      using ch(1) nr Cons.prems(2) by (simp_all add: seq_near)
    have "n \<notin> cov (x # E)" using cov_chain [OF ch(3)] ch(1,2) False by (fastforce simp: x)
    then show ?thesis using gt Cons.prems
      by (intro exI [of _ "[]"] exI [of _ "x # E"] exI [of _ n] exI [of _ "rx_sackList rx"]) (auto simp: x)
  next
    case True
    let ?n = "n + length p"
    let ?rx = "rx\<lparr>rx_nextRxSeq := isn + of_nat ?n, rx_availBytes := rx_availBytes rx + of_nat (length p)\<rparr>"
    obtain l where l: "rx_ClearSackList (isn + of_nat ?n) ?rx = Some (?rx\<lparr>rx_sackList := l\<rparr>)"
      "list_all (sack_block isn n0 K) l" "\<forall>blk \<in> set l. \<not> seq_le (snd blk) (isn + of_nat ?n)"
      using rx_ClearSackList_ok [of isn n0 K ?rx tp L "isn + of_nat ?n"] Cons.prems(3) assms(4,5,7) by auto
    have "\<not> seq_lt (isn + of_nat o') (rx_nextRxSeq rx)" "\<not> seq_gt (isn + of_nat o') (rx_nextRxSeq rx)"
      using True nr Cons.prems(2) by (simp_all add: seq_near)
    then have step: "rx_advance (at_seq isn (x # E)) rx = rx_advance (at_seq isn E) (?rx\<lparr>rx_sackList := l\<rparr>)"
      using l(1) by (simp add: x True add.assoc)
    obtain E1 E2 n' l' where ih: "E = E1 @ E2" "contig ?n E1 n'" "chain n' E2 hi" "n' \<notin> cov E2"
      "rx_advance (at_seq isn E) (?rx\<lparr>rx_sackList := l\<rparr>) = Some (?rx\<lparr>rx_sackList := l,
         rx_nextRxSeq := isn + of_nat n', rx_availBytes := rx_availBytes ?rx + of_nat (n' - ?n), rx_sackList := l'\<rparr>)"
      "list_all (sack_block isn n0 K) l'"
      "n' = ?n \<and> l' = l \<or> (\<forall>blk \<in> set l'. \<not> seq_le (snd blk) (isn + of_nat n'))"
      using Cons.IH [of ?n "?rx\<lparr>rx_sackList := l\<rparr>"] ch(3) True l(2) Cons.prems(4) by auto
    have "of_nat (length p) + of_nat (n' - ?n) = (of_nat (n' - n) :: u32)"
      using contig_le [OF ih(2)] by (simp add: of_nat_diff)
    then have "rx_advance (at_seq isn (x # E)) rx = Some (rx\<lparr>rx_nextRxSeq := isn + of_nat n',
        rx_availBytes := rx_availBytes rx + of_nat (n' - n), rx_sackList := l'\<rparr>)"
      using ih(5) by (simp add: step add.assoc)
    moreover have "contig n (x # E1) n'" using ih(2) ch(2) True by (simp add: x)
    moreover have "\<forall>blk \<in> set l'. \<not> seq_le (snd blk) (isn + of_nat n')" using ih(7) l(3) by auto
    ultimately show ?thesis using ih(1,3,4,6)
      by (intro exI [of _ "x # E1"] exI [of _ E2] exI [of _ n'] exI [of _ l']) auto
  qed
qed

section \<open>The invariant\<close>

text \<open>
  \<open>out\<close> is what has been extracted, \<open>C\<close> the pieces in sequence after it, up to offset \<open>n\<close>,
  and \<open>G\<close> the pieces behind a gap; the stream has \<open>F\<close> bytes.  The receive window is below
  \<open>2 ^ 29\<close> bytes, and a segment may be a repetition of bytes up to \<open>2 ^ 30\<close> back.
\<close>

definition slice_of :: "(nat \<Rightarrow> u8) \<Rightarrow> nat \<Rightarrow> u8 list \<Rightarrow> bool" where
  "slice_of S o' p \<longleftrightarrow> p = map S [o' ..< o' + length p]"

definition genuine :: "(nat \<Rightarrow> u8) \<Rightarrow> pieces \<Rightarrow> bool" where
  "genuine S D \<longleftrightarrow> (\<forall>(o', p) \<in> set D. slice_of S o' p)"

lemma genuine_simps [simp]:
  "genuine S []" "genuine S ((o', p) # r) \<longleftrightarrow> slice_of S o' p \<and> genuine S r"
  "genuine S (D @ E) \<longleftrightarrow> genuine S D \<and> genuine S E"
  by (auto simp: genuine_def)

definition rx_inv :: "u32 \<Rightarrow> (nat \<Rightarrow> u8) \<Rightarrow> nat \<Rightarrow> rx_buffer \<Rightarrow> u8 list \<Rightarrow> pieces \<Rightarrow> pieces \<Rightarrow> nat \<Rightarrow> nat \<Rightarrow> bool" where
  "rx_inv isn S F rx out C G n hi \<longleftrightarrow>
     rx_data rx = at_seq isn (C @ G) \<and> contig (length out) C n \<and> chain n G hi \<and> n \<notin> cov G
     \<and> hi \<le> F \<and> hi < length out + 2 ^ 29
     \<and> rx_availBytes rx = of_nat (n - length out) \<and> rx_size rx = of_nat (total (C @ G))
     \<and> unat (rx_maxBuffer rx) < 2 ^ 29
     \<and> rx_nextRxSeq rx = isn + of_nat (n + (if rx_gotFin rx \<and> n = F then 1 else 0))
     \<and> (rx_gotFin rx \<longrightarrow> rx_finSeq rx = isn + of_nat F \<and> F + 1 < length out + 2 ^ 30)
     \<and> genuine S (C @ G) \<and> slice_of S 0 out
     \<and> list_all (sack_block isn n (cov G)) (rx_sackList rx)"

lemma rx_inv_bounds:
  assumes "rx_inv isn S F rx out C G n hi"
  shows "length out \<le> n" "n \<le> hi" "hi \<le> F" "unat (rx_availBytes rx) = n - length out"
proof -
  show 1: "length out \<le> n" "n \<le> hi" "hi \<le> F"
    using assms contig_le chain_le by (auto simp: rx_inv_def)
  have "hi < length out + 2 ^ 29" "rx_availBytes rx = of_nat (n - length out)" using assms by (simp_all add: rx_inv_def)
  then show "unat (rx_availBytes rx) = n - length out" using 1 by (simp add: unat_of_nat del: of_nat_diff)
qed

text \<open>The window around a state: everything near the bytes delivered.\<close>

lemma window_low:
  assumes "n \<le> o' + (2 ^ 30 :: nat)" and "base \<le> n"
  shows "base - 2 ^ 30 \<le> o'" "base + 2 ^ 30 \<le> base - 2 ^ 30 + 2 ^ 31"
  using assms by auto

definition rx_legal :: "rx_buffer \<Rightarrow> u8 list \<Rightarrow> nat \<Rightarrow> nat \<Rightarrow> bool" where
  "rx_legal rx out o' len \<longleftrightarrow>
     length out + unat (rx_availBytes rx) \<le> o' + 2 ^ 30 \<and> o' + len < length out + 2 ^ 29"

text \<open>Trimming to the window: what is left starts at the next expected byte or later.\<close>

lemma rx_trim_ok:
  assumes inv: "rx_inv isn S F rx out C G n hi" and legal: "rx_legal rx out o' len" and F: "o' + len \<le> F"
  defines "L \<equiv> length out - 2 ^ 30"
  shows "\<exists>h t. rx_trim (isn + of_nat o') (isn + of_nat (o' + len)) rx = (isn + of_nat h, isn + of_nat t)
    \<and> near L h \<and> near L t \<and> t \<le> o' + len
    \<and> (h < t \<longrightarrow> h = max o' n \<and> \<not> (rx_gotFin rx \<and> n = F))
    \<and> (o' \<le> n \<and> n < o' + len \<and> unat (rx_availBytes rx) < unat (rx_maxBuffer rx) \<longrightarrow> h < t)"
proof -
  note b = rx_inv_bounds [OF inv]
  note i = inv [unfolded rx_inv_def]
  let ?m = "n + (if rx_gotFin rx \<and> n = F then 1 else 0)"
  have win: "n \<le> o' + 2 ^ 30" "o' + len < length out + 2 ^ 29"
    using legal b(1,4) by (simp_all add: rx_legal_def)
  note w = window_low [OF win(1) b(1)]
  have no: "near L o'" "near L (o' + len)" using w win(2) by (simp_all add: near_def L_def)
  have "?m < length out + 2 ^ 30" using b i by auto
  then have nm: "near L ?m" using w b(1) by (auto simp: near_def L_def)
  let ?h = "max o' ?m"
  have nh: "near L ?h" using no nm by (simp add: max_def)
  have h: "(if seq_lt (isn + of_nat o') (rx_nextRxSeq rx) then rx_nextRxSeq rx else isn + of_nat o')
      = isn + of_nat ?h"
    using i seq_min_max(2) [OF no(1) nm, of isn] by (simp only:)
  have fin: "?h < t' \<Longrightarrow> t' \<le> o' + len \<Longrightarrow> ?h = max o' n \<and> \<not> (rx_gotFin rx \<and> n = F)" for t'
    using F by (auto split: if_splits)
  show ?thesis
  proof (cases "C @ G")
    case Nil
    then have "rx_trim (isn + of_nat o') (isn + of_nat (o' + len)) rx = (isn + of_nat ?h, isn + of_nat (o' + len))"
      using i h by (simp only: rx_trim_def Let_def) simp
    then show ?thesis using nh no fin [of "o' + len"] F
      by (intro exI [of _ ?h] exI [of _ "o' + len"]) auto
  next
    case (Cons x D)
    obtain k p where x: "x = (k, p)" by (cases x)
    have k: "length out \<le> k" "k \<le> hi" "C \<noteq> [] \<Longrightarrow> k = length out" "C = [] \<Longrightarrow> n = length out"
    proof -
      have ch: "chain (length out) (C @ G) hi"
        using i contig_chain by (auto simp: chain_append)
      have "(k, p) \<in> set (C @ G)" unfolding Cons x by simp
      from chain_member [OF ch this] show "length out \<le> k" "k \<le> hi" by simp_all
      show "C \<noteq> [] \<Longrightarrow> k = length out" "C = [] \<Longrightarrow> n = length out"
        using i Cons x by (cases C, auto)+
    qed
    let ?M = "unat (rx_maxBuffer rx)" and ?e = "o' + len"
    have nM: "near L (k + ?M)" using k(1,2) i w b(1) by (auto simp: near_def L_def)
    let ?t = "min ?e (k + ?M)"
    have nt: "near L ?t" using no nM by (simp add: min_def)
    have eM: "isn + of_nat k + rx_maxBuffer rx = isn + of_nat (k + ?M)" by simp
    have t: "(if seq_lt (isn + of_nat k + rx_maxBuffer rx) (isn + of_nat ?e)
        then isn + of_nat k + rx_maxBuffer rx else isn + of_nat ?e) = isn + of_nat ?t"
      unfolding eM seq_min_max(1) [OF nM no(2)] by (simp only: min.commute)
    have h2: "(if seq_lt (isn + of_nat ?t) (isn + of_nat ?h) then isn + of_nat ?t else isn + of_nat ?h)
        = isn + (of_nat (min ?h ?t) :: u32)"
      unfolding seq_min_max(1) [OF nt nh] by (simp only: min.commute)
    have "rx_data rx = (isn + of_nat k, p) # at_seq isn D" using i Cons x by simp
    then have trim: "rx_trim (isn + of_nat o') (isn + of_nat ?e) rx = (isn + of_nat (min ?h ?t), isn + of_nat ?t)"
      by (simp only: rx_trim_def Let_def h list.case prod.case t h2)
    have nmin: "near L (min ?h ?t)" using nh nt by (simp add: min_def)
    have f1: "min ?h ?t < ?t \<longrightarrow> min ?h ?t = max o' n \<and> \<not> (rx_gotFin rx \<and> n = F)"
    proof
      assume "min ?h ?t < ?t"
      then have lt: "?h < ?t" by linarith
      have "min ?h ?t = ?h" using lt by (rule min.absorb3)
      then show "min ?h ?t = max o' n \<and> \<not> (rx_gotFin rx \<and> n = F)" using fin [OF lt min.cobounded1] by simp
    qed
    have f2: "o' \<le> n \<and> n < ?e \<and> unat (rx_availBytes rx) < ?M \<longrightarrow> min ?h ?t < ?t"
    proof
      assume a: "o' \<le> n \<and> n < ?e \<and> unat (rx_availBytes rx) < ?M"
      then have "n \<noteq> F" using F by linarith
      then have hn: "?h = n" using a by simp
      have "n < k + ?M" using a k b(1,4) by (cases "C = []") (simp, linarith)
      then have "n < ?t" using a by simp
      then show "min ?h ?t < ?t" unfolding hn by simp
    qed
    show ?thesis
      by (rule exI [of _ "min ?h ?t"], rule exI [of _ ?t]) (intro conjI trim nmin nt min.cobounded1 f1 f2)
  qed
qed

section \<open>Adding a segment\<close>

text \<open>What is left of a segment when it is stored: a slice of it in a gap behind the pieces in sequence.\<close>

lemma slice_cut:
  assumes "slice_of S o' p" and "o' \<le> h" and "h \<le> t" and "t \<le> o' + length p"
  shows "slice_of S h (take (t - h) (drop (h - o') p))" "length (take (t - h) (drop (h - o') p)) = t - h"
proof -
  show l: "length (take (t - h) (drop (h - o') p)) = t - h" using assms by simp
  have "take (t - h) (drop (h - o') p) ! j = S (h + j)" if "j < t - h" for j
  proof -
    have "p ! (h - o' + j) = map S [o' ..< o' + length p] ! (h - o' + j)"
      using assms(1) by (simp add: slice_of_def)
    also have "\<dots> = S (h + j)" using that assms by simp
    finally show ?thesis using that assms by simp
  qed
  then show "slice_of S h (take (t - h) (drop (h - o') p))"
    unfolding slice_of_def l by (intro nth_equalityI) (use l in \<open>simp_all del: nth_drop nth_take length_take\<close>)
qed

lemma cov_genuine: "set D' \<subseteq> set D \<Longrightarrow> genuine S D \<Longrightarrow> genuine S D'"
  by (auto simp: genuine_def)

lemma sack_block_mono: "K \<subseteq> K' \<Longrightarrow> list_all (sack_block isn n K) l \<Longrightarrow> list_all (sack_block isn n K') l"
  by (fastforce simp: list_all_iff sack_block_def)

lemma near_diff:
  assumes "near L a" "near L b" "a \<le> b"
  shows "unat (seq_minus (isn + of_nat b) (isn + of_nat a) :: u32) = b - a"
proof -
  have "seq_minus (isn + of_nat b) (isn + of_nat a) = (of_nat (b - a) :: u32)"
    using assms(3) by (simp add: seq_minus_eq)
  moreover have "b - a < 2 ^ LENGTH(32)" using assms by (simp add: near_def)
  ultimately show ?thesis by (simp add: unat_of_nat del: of_nat_diff)
qed

text \<open>The end of \<^verbatim>\<open>Add\<close>: move over what is in sequence now, and over the FIN.\<close>

definition rx_settle :: "rx_buffer \<Rightarrow> (bool \<times> rx_buffer) option" where
  "rx_settle rx = do {
     rx \<leftarrow> rx_advance (rx_data rx) rx;
     Some (True, if rx_gotFin rx \<and> rx_nextRxSeq rx = rx_finSeq rx
                 then rx\<lparr>rx_nextRxSeq := rx_nextRxSeq rx + 1\<rparr> else rx)
   }"

lemma sack_blocks_settled:
  assumes l: "list_all (sack_block isn n (cov (E1 @ E2))) l"
    and E: "contig n E1 n'" "n' \<notin> cov E2" "cov (E1 @ E2) \<subseteq> {..< tp}" and L: "L \<le> n" "n' \<le> tp" "tp < L + 2 ^ 31"
    and cases': "n' = n \<or> (\<forall>blk \<in> set l. \<not> seq_le (snd blk) (isn + of_nat n'))"
  shows "list_all (sack_block isn n' (cov E2)) l"
  unfolding list_all_iff
proof
  fix blk assume blk: "blk \<in> set l"
  then have "sack_block isn n (cov (E1 @ E2)) blk" using l by (auto simp: list_all_iff)
  then obtain a c where ac: "blk = (isn + of_nat a, isn + of_nat c)" "n < a" "a < c" "{a ..< c} \<subseteq> cov (E1 @ E2)"
    "near L a" "near L c" using sack_block_near E(3) L(1,3) by blast
  have n': "n \<le> n'" "cov E1 = {n ..< n'}" using contig_le [OF E(1)] cov_contig [OF E(1)] by simp_all
  then have nn: "near L n'" using L by (simp add: near_def)
  have "n' < a"
  proof (rule ccontr)
    assume na: "\<not> n' < a"
    then have "n' \<noteq> n" using ac(2) by simp
    then have "\<not> seq_le (isn + of_nat c) (isn + of_nat n')" using cases' blk ac(1) by force
    then have "n' < c" using seq_near(3) [OF ac(6) nn, of isn] by simp
    then have "n' \<in> cov (E1 @ E2)" using subsetD [OF ac(4), of n'] na by simp
    then show False using E(2) n'(2) by simp
  qed
  moreover have "{a ..< c} \<subseteq> cov E2" using ac(4) n'(2) \<open>n' < a\<close> by fastforce
  ultimately show "sack_block isn n' (cov E2) blk" using ac(1,3) unfolding sack_block_def by blast
qed

lemma rx_settle_ok:
  assumes C: "contig (length out) C n" and E: "chain n E tp" and tp: "tp \<le> F" "tp < length out + 2 ^ 29"
    and rx: "rx_data rx = at_seq isn (C @ E)" "rx_nextRxSeq rx = isn + of_nat n"
      "rx_availBytes rx = of_nat (n - length out)" "rx_size rx = of_nat (total (C @ E))"
      "unat (rx_maxBuffer rx) < 2 ^ 29"
      "rx_gotFin rx \<longrightarrow> rx_finSeq rx = isn + of_nat F \<and> F + 1 < length out + 2 ^ 30"
    and S: "genuine S (C @ E)" "slice_of S 0 out"
    and l: "list_all (sack_block isn n (cov E)) (rx_sackList rx)"
  shows "\<exists>rx' C' G' n'. rx_settle rx = Some (True, rx') \<and> rx_inv isn S F rx' out C' G' n' tp \<and> n \<le> n' \<and> n' \<notin> cov E"
proof -
  define L where "L = length out - 2 ^ 30"
  have Lb: "L \<le> n" "tp < L + 2 ^ 31" "L \<le> length out"
    using tp(2) contig_le [OF C] by (auto simp: L_def)
  have K: "cov E \<subseteq> {..< tp}" using cov_chain [OF E] by auto
  have n: "length out \<le> n" "n \<le> tp" using contig_le [OF C] chain_le [OF E] by simp_all
  have "all_near L C" by (rule all_near_chain [OF contig_chain [OF C]]) (use n Lb in auto)
  moreover have "near L n" using n Lb by (simp add: near_def)
  ultimately have skip: "rx_advance (at_seq isn (C @ E)) rx = rx_advance (at_seq isn E) rx"
    using rx_advance_skip [OF C rx(2)] by blast
  obtain E1 E2 n' l' where adv: "E = E1 @ E2" "contig n E1 n'" "chain n' E2 tp" "n' \<notin> cov E2"
    "rx_advance (at_seq isn E) rx = Some (rx\<lparr>rx_nextRxSeq := isn + of_nat n',
        rx_availBytes := rx_availBytes rx + of_nat (n' - n), rx_sackList := l'\<rparr>)"
    "list_all (sack_block isn n (cov E)) l'"
    "n' = n \<and> l' = rx_sackList rx \<or> (\<forall>blk \<in> set l'. \<not> seq_le (snd blk) (isn + of_nat n'))"
    using rx_advance_ok [OF E rx(2) l K Lb(1) order_refl Lb(2) Lb(2)] by blast
  have n': "n \<le> n'" "n' \<le> tp" using contig_le [OF adv(2)] chain_le [OF adv(3)] by simp_all
  define rx1 where "rx1 = rx\<lparr>rx_nextRxSeq := isn + of_nat n',
        rx_availBytes := rx_availBytes rx + of_nat (n' - n), rx_sackList := l'\<rparr>"
  define rx' where "rx' = rx1\<lparr>rx_nextRxSeq := isn + of_nat (n' + (if rx_gotFin rx \<and> n' = F then 1 else 0))\<rparr>"
  have fin: "isn + of_nat n' = isn + (of_nat F :: u32) \<longleftrightarrow> n' = F" if "rx_gotFin rx"
  proof (rule seq_near(5))
    have "F + 1 < length out + 2 ^ 30" using that rx(6) by simp
    then show "near L n'" "near L F" using n n' tp Lb by (auto simp: near_def L_def)
  qed
  have "rx_advance (rx_data rx) rx = Some rx1" using adv(5) skip rx(1) by (simp only: rx1_def)
  then have "rx_settle rx = Some (True, if rx_gotFin rx1 \<and> rx_nextRxSeq rx1 = rx_finSeq rx1
      then rx1\<lparr>rx_nextRxSeq := rx_nextRxSeq rx1 + 1\<rparr> else rx1)" by (simp add: rx_settle_def)
  moreover have "rx_gotFin rx1 \<and> rx_nextRxSeq rx1 = rx_finSeq rx1 \<longleftrightarrow> rx_gotFin rx \<and> n' = F"
    using fin rx(6) by (auto simp: rx1_def)
  ultimately have "rx_settle rx = Some (True, rx')" by (simp add: rx'_def) (simp add: rx1_def add.assoc)
  moreover have "list_all (sack_block isn n' (cov E2)) l'"
    by (rule sack_blocks_settled [OF _ adv(2,4), where L = L and tp = tp])
      (use adv(1,6,7) K Lb n' in auto)
  moreover have "rx_availBytes rx' = of_nat (n' - length out)"
    using n n' by (simp add: rx'_def rx1_def rx(3) of_nat_diff)
  moreover have "contig (length out) (C @ E1) n'" by (rule contig_append [OF C adv(2)])
  ultimately have "rx_inv isn S F rx' out (C @ E1) E2 n' tp"
    using adv(1,3,4) tp rx S by (auto simp: rx_inv_def rx'_def rx1_def)
  moreover have "n' \<notin> cov E" using adv(1,4) cov_contig [OF adv(2)] by simp
  ultimately show ?thesis using \<open>rx_settle rx = Some (True, rx')\<close> n'(1) by blast
qed

text \<open>The part of \<^verbatim>\<open>Add\<close> after the trimming, when something is left.\<close>

lemma rx_store_ok:
  assumes inv: "rx_inv isn S F rx out C G n hi" and nofin: "\<not> (rx_gotFin rx \<and> n = F)"
    and G': "ov G h t = (A @ B, h', t')" "chain n A h'" "chain t' B (max hi t)" "h' < t'" "n \<le> h'" "t' \<le> t"
      "cov G \<subseteq> cov (A @ B) \<union> {h' ..< t'}" "set (A @ B) \<subseteq> set G"
    and q: "slice_of S h' q" "length q = t' - h'"
    and top: "t \<le> F" "t < length out + 2 ^ 29" and L: "L = length out - 2 ^ 30"
    and rx1: "rx1 = rx\<lparr>rx_size := of_nat (total (C @ A @ B)), rx_data := at_seq isn (C @ A @ B)\<rparr>"
  shows "\<exists>rx' C' G' n' hi'. (do {
        ns_assert (\<not> rx_has (isn + of_nat h') (rx_data rx1));
        let rx = rx1\<lparr>rx_data := rx_put (isn + of_nat h') q (rx_data rx1)\<rparr>;
        rx \<leftarrow> (if seq_gt (isn + of_nat h') (rx_nextRxSeq rx)
              then rx_UpdateSackList (isn + of_nat h') (isn + of_nat t') rx else Some rx);
        let rx = rx\<lparr>rx_size := rx_size rx + of_nat (length q)\<rparr>;
        rx_settle rx }) = Some (True, rx')
    \<and> rx_inv isn S F rx' out C' G' n' hi' \<and> n \<le> n' \<and> (h' = n \<longrightarrow> t' \<le> n')"
proof -
  note b = rx_inv_bounds [OF inv]
  note i = inv [unfolded rx_inv_def]
  let ?top = "max hi t" and ?E = "A @ (h', q) # B"
  have topb: "?top < length out + 2 ^ 29" "?top \<le> F" using i top by auto
  have Lb: "L \<le> length out" "?top < L + 2 ^ 31" using topb L by (auto simp: max_def)
  have next': "rx_nextRxSeq rx = isn + of_nat n" using i nofin by auto
  have q0: "q \<noteq> []" using q(2) G'(4) by auto
  have chE: "chain n ?E ?top" unfolding chain_append using G'(2,3,4) q(2) q0 by (intro exI [of _ h']) auto
  have nrC: "all_near L C" and nrA: "all_near L A" and nrB: "all_near L B"
  proof -
    have "chain (length out) C n" using i contig_chain by blast
    then show "all_near L C" by (rule all_near_chain) (use b topb Lb in auto)
    show "all_near L A" by (rule all_near_chain [OF G'(2)]) (use b Lb G'(4,6) in auto)
    show "all_near L B" by (rule all_near_chain [OF G'(3)]) (use b Lb G'(4,5) in auto)
  qed
  have nh: "near L h'" "near L n" "near L t'" using b Lb G'(4-6) topb by (auto simp: near_def)
  have ch: "chain (length out) (C @ A) h'"
    using i G'(2) contig_chain by (auto simp: chain_append)
  have put: "rx_put (isn + of_nat h') q (at_seq isn (C @ A @ B)) = at_seq isn (C @ ?E)"
    using rx_put_gap [OF ch G'(3,4) _ nrB nh(1)] nrC nrA by simp
  have "o' \<noteq> h'" if "(o', p) \<in> set (C @ A @ B)" for o' p
  proof -
    have "(o', p) \<in> set (C @ A) \<or> (o', p) \<in> set B" using that by auto
    then show ?thesis using chain_member [OF ch, of o' p] chain_member [OF G'(3), of o' p] G'(4) by (cases p) auto
  qed
  then have has: "\<not> rx_has (isn + of_nat h') (at_seq isn (C @ A @ B))"
    using nrC nrA nrB nh(1) by (intro rx_has_not) auto
  have covE: "cov ?E = cov (A @ B) \<union> {h' ..< t'}" using q(2) G'(4) by auto
  have K: "cov ?E \<subseteq> {..< ?top}" using cov_chain [OF chE] by auto
  have sacks: "list_all (sack_block isn n (cov ?E)) (rx_sackList rx)"
    using i G'(7) covE sack_block_mono by blast
  define rx2 where "rx2 = rx1\<lparr>rx_data := at_seq isn (C @ ?E)\<rparr>"
  have "\<exists>l. (if seq_gt (isn + of_nat h') (rx_nextRxSeq rx2)
      then rx_UpdateSackList (isn + of_nat h') (isn + of_nat t') rx2 else Some rx2) = Some (rx2\<lparr>rx_sackList := l\<rparr>)
    \<and> list_all (sack_block isn n (cov ?E)) l"
  proof (cases "n < h'")
    case True
    then have "seq_gt (isn + of_nat h') (rx_nextRxSeq rx2)"
      using nh next' by (simp add: rx2_def rx1 seq_near)
    moreover have "{h' ..< t'} \<subseteq> cov ?E" using covE by blast
    ultimately show ?thesis
      using rx_UpdateSackList_ok [of isn n "cov ?E" rx2 h' t' ?top L] True sacks next' G'(4) K b(1) Lb
      by (simp add: rx2_def rx1)
  next
    case False
    then have "\<not> seq_gt (isn + of_nat h') (rx_nextRxSeq rx2)"
      using nh next' by (simp add: rx2_def rx1 seq_near)
    then show ?thesis using sacks by (intro exI [of _ "rx_sackList rx"]) (simp add: rx2_def rx1)
  qed
  then obtain l where l: "(if seq_gt (isn + of_nat h') (rx_nextRxSeq rx2)
      then rx_UpdateSackList (isn + of_nat h') (isn + of_nat t') rx2 else Some rx2) = Some (rx2\<lparr>rx_sackList := l\<rparr>)"
    "list_all (sack_block isn n (cov ?E)) l" by blast
  define rx3 where "rx3 = rx2\<lparr>rx_sackList := l, rx_size := rx_size rx2 + of_nat (length q)\<rparr>"
  obtain rx' C' G' n' where settle: "rx_settle rx3 = Some (True, rx')" "rx_inv isn S F rx' out C' G' n' ?top"
    "n \<le> n'" "n' \<notin> cov ?E"
  proof -
    have "genuine S G" "genuine S C" using i by simp_all
    then have g: "genuine S (C @ ?E)" using cov_genuine [OF G'(8)] q(1) by simp
    have c: "contig (length out) C n" using i by blast
    have r: "rx_data rx3 = at_seq isn (C @ ?E)" "rx_nextRxSeq rx3 = isn + of_nat n"
      "rx_availBytes rx3 = of_nat (n - length out)" "rx_size rx3 = of_nat (total (C @ ?E))"
      "unat (rx_maxBuffer rx3) < 2 ^ 29"
      "rx_gotFin rx3 \<longrightarrow> rx_finSeq rx3 = isn + of_nat F \<and> F + 1 < length out + 2 ^ 30"
      "list_all (sack_block isn n (cov ?E)) (rx_sackList rx3)" "slice_of S 0 out"
      using i next' l(2) by (simp_all add: rx3_def rx2_def rx1)
    show ?thesis using rx_settle_ok [OF c chE topb(2,1) r(1-6) g r(8,7)] that by blast
  qed
  have tn: "h' = n \<longrightarrow> t' \<le> n'"
  proof (intro impI, rule ccontr)
    assume hn: "h' = n" and "\<not> t' \<le> n'"
    then have "n' \<in> {h' ..< t'}" using settle(3) by simp
    then have "n' \<in> cov ?E" unfolding covE by simp
    then show False using settle(4) by contradiction
  qed
  have st: "rx_settle (rx2\<lparr>rx_sackList := l, rx_size := rx_size (rx2\<lparr>rx_sackList := l\<rparr>) + of_nat (length q)\<rparr>)
      = Some (True, rx')" using settle(1) by (simp add: rx3_def)
  have d1: "rx_data rx1 = at_seq isn (C @ A @ B)" by (simp add: rx1)
  show ?thesis
    by (rule exI [of _ rx'], rule exI [of _ C'], rule exI [of _ G'], rule exI [of _ n'], rule exI [of _ ?top])
      (simp only: d1 put has Let_def ns_assert_True bind.bind_lunit rx2_def [symmetric] l(1) st settle(2,3)
        not_False_eq_True simp_thms, rule tn)
qed

lemma rx_Add_unfold:
  assumes "rx_trim s (s + of_nat (length p)) rx = (h, t)" and "rx_overlap (rx_data rx) h t (rx_size rx) = (d, h', t', sz)"
  shows "rx_Add p s rx = (let rx1 = rx\<lparr>rx_size := sz, rx_data := d\<rparr>;
      q = take (unat (seq_minus t' h')) (drop (unat (seq_minus h' s)) p) in
    if seq_ge h' t' then Some (False, rx1)
    else do {
      ns_assert (unat (seq_minus t' h') = length q);
      ns_assert (\<not> rx_has h' (rx_data rx1));
      let rx = rx1\<lparr>rx_data := rx_put h' q (rx_data rx1)\<rparr>;
      rx \<leftarrow> (if seq_gt h' (rx_nextRxSeq rx) then rx_UpdateSackList h' t' rx else Some rx);
      let rx = rx\<lparr>rx_size := rx_size rx + of_nat (length q)\<rparr>;
      rx_settle rx
    })"
  unfolding rx_Add_def rx_settle_def assms Let_def prod.case by (simp add: assms(2))

lemma cov_subset: "set D \<subseteq> set E \<Longrightarrow> cov D \<subseteq> cov E"
  by (auto simp: cov_def)

lemma rx_Add_ok:
  assumes inv: "rx_inv isn S F rx out C G n hi" and legal: "rx_legal rx out o' (length p)"
    and F: "o' + length p \<le> F" and p: "slice_of S o' p"
  shows "\<exists>r rx' C' G' n' hi'. rx_Add p (isn + of_nat o') rx = Some (r, rx') \<and> rx_inv isn S F rx' out C' G' n' hi'
    \<and> n \<le> n' \<and> (o' \<le> n \<and> n < o' + length p \<and> unat (rx_availBytes rx) < unat (rx_maxBuffer rx) \<longrightarrow> r \<and> n < n')"
proof -
  note b = rx_inv_bounds [OF inv]
  note i = inv [unfolded rx_inv_def]
  define L where "L = length out - 2 ^ 30"
  obtain h t where ht: "rx_trim (isn + of_nat o') (isn + of_nat (o' + length p)) rx = (isn + of_nat h, isn + of_nat t)"
    "near L h" "near L t" "t \<le> o' + length p" "h < t \<longrightarrow> h = max o' n \<and> \<not> (rx_gotFin rx \<and> n = F)"
    "o' \<le> n \<and> n < o' + length p \<and> unat (rx_availBytes rx) < unat (rx_maxBuffer rx) \<longrightarrow> h < t"
    using rx_trim_ok [OF inv legal F] unfolding L_def by blast
  have topb: "o' + length p < length out + 2 ^ 29" using legal by (simp add: rx_legal_def)
  have win: "near L x" if "length out \<le> x" "x < length out + 2 ^ 29" for x using that by (auto simp: near_def L_def)
  have "chain (length out) (C @ G) hi" using i contig_chain by (auto simp: chain_append)
  then have nr: "all_near L (C @ G)" by (rule all_near_chain) (use i in \<open>auto simp: L_def\<close>)
  have trim: "rx_trim (isn + of_nat o') (isn + of_nat o' + of_nat (length p)) rx = (isn + of_nat h, isn + of_nat t)"
    using ht(1) by (simp only: seq_end)
  have keep: ?thesis if ovk: "ov (C @ G) h t = (C @ G, h', t')" and le: "t' \<le> h'"
    and no: "\<not> (o' \<le> n \<and> n < o' + length p \<and> unat (rx_availBytes rx) < unat (rx_maxBuffer rx))" for h' t'
  proof -
    obtain sz where sz: "rx_overlap (at_seq isn (C @ G)) (isn + of_nat h) (isn + of_nat t) (rx_size rx)
        = (at_seq isn (C @ G), isn + of_nat h', isn + of_nat t', sz)" "sz + of_nat (total (C @ G)) = rx_size rx + of_nat (total (C @ G))"
      "near L h'" "near L t'"
      using rx_overlap_ov [OF ht(2,3) nr [unfolded all_near_def] ovk] by blast
    have "seq_ge (isn + of_nat h') (isn + (of_nat t' :: u32))" using le seq_near(4) [OF sz(3,4)] by simp
    moreover have "rx\<lparr>rx_size := sz, rx_data := at_seq isn (C @ G)\<rparr> = rx" using sz(2) i by simp
    moreover have "rx_data rx = at_seq isn (C @ G)" using i by simp
    ultimately have "rx_Add p (isn + of_nat o') rx = Some (False, rx)"
      using rx_Add_unfold [OF trim, of "at_seq isn (C @ G)" "isn + of_nat h'" "isn + of_nat t'" sz] sz(1)
      by (simp only: Let_def if_True)
    then show ?thesis using inv no by blast
  qed
  show ?thesis
  proof (cases "h < t")
    case False
    then obtain h' t' where "ov (C @ G) h t = (C @ G, h', t')" "t' \<le> h'" using ov_empty [of t h "C @ G"] by auto
    then show ?thesis by (rule keep) (use ht(6) False in blast)
  next
    case True
    then have h: "h = max o' n" and nofin: "\<not> (rx_gotFin rx \<and> n = F)" using ht(5) by blast+
    then have nh: "n \<le> h" by simp
    obtain G' h' t' where ov: "ov G h t = (G', h', t')" by (cases "ov G h t") auto
    have C: "contig (length out) C n" and G: "chain n G hi" and nG: "n \<notin> cov G" using i by blast+
    have ovC: "ov (C @ G) h t = (C @ G', h', t')" by (rule ov_before [OF C nh True ov])
    from ov_split [OF G nh True ov] show ?thesis
    proof
      assume a: "G' = G \<and> t' \<le> h' \<and> {h ..< t} \<subseteq> cov G"
      then have "h \<noteq> n" using nG True by auto
      then have "\<not> o' \<le> n" using h by auto
      then show ?thesis using keep [of h' t'] ovC a by blast
    next
      assume a: "h \<le> h' \<and> h' < t' \<and> t' \<le> t \<and> (\<exists>A B. G' = A @ B \<and> chain n A h' \<and> chain t' B (max hi t))
        \<and> cov G \<subseteq> cov G' \<union> {h' ..< t'} \<and> {h ..< t} \<subseteq> cov G' \<union> {h' ..< t'} \<and> set G' \<subseteq> set G"
      then obtain A B where AB: "G' = A @ B" "chain n A h'" "chain t' B (max hi t)" by blast
      have ord: "h \<le> h'" "h' < t'" "t' \<le> t" "n \<le> h'" "t \<le> F" "t < length out + 2 ^ 29"
        using a nh ht(4) F topb by auto
      obtain sz where sz: "rx_overlap (at_seq isn (C @ G)) (isn + of_nat h) (isn + of_nat t) (rx_size rx)
          = (at_seq isn (C @ G'), isn + of_nat h', isn + of_nat t', sz)"
        "sz + of_nat (total (C @ G)) = rx_size rx + of_nat (total (C @ G'))" "near L h'" "near L t'"
        using rx_overlap_ov [OF ht(2,3) nr [unfolded all_near_def] ovC] by blast
      have szv: "sz = of_nat (total (C @ G'))" using sz(2) i by simp
      let ?q = "take (t' - h') (drop (h' - o') p)"
      have oh: "o' \<le> h'" "h' \<le> t'" "t' \<le> o' + length p" using ord h ht(4) by auto
      have q: "slice_of S h' ?q" "length ?q = t' - h'" using slice_cut [OF p oh] by auto
      have no: "near L o'"
        using legal b(1,4) window_low(1) [of n o' "length out"] topb by (auto simp: near_def L_def rx_legal_def)
      have d: "unat (seq_minus (isn + of_nat t') (isn + of_nat h')) = t' - h'"
        "unat (seq_minus (isn + of_nat h') (isn + of_nat o')) = h' - o'"
        using near_diff [OF sz(3,4)] near_diff [OF no sz(3)] oh ord(2) by auto
      have nge: "\<not> seq_ge (isn + of_nat h') (isn + (of_nat t' :: u32))" using ord(2) seq_near(4) [OF sz(3,4)] by simp
      define rx1 where "rx1 = rx\<lparr>rx_size := of_nat (total (C @ A @ B)), rx_data := at_seq isn (C @ A @ B)\<rparr>"
      have cG: "cov G \<subseteq> cov (A @ B) \<union> {h' ..< t'}" "set (A @ B) \<subseteq> set G" using a AB(1) by auto
      have ov': "ov G h t = (A @ B, h', t')" using ov AB(1) by simp
      obtain rx' C' G2 n' hi' where st: "rx_Add p (isn + of_nat o') rx = Some (True, rx')"
        "rx_inv isn S F rx' out C' G2 n' hi'" "n \<le> n'" "h' = n \<longrightarrow> t' \<le> n'"
      proof -
        have "rx_data rx = at_seq isn (C @ G)" using i by simp
        then have ov2: "rx_overlap (rx_data rx) (isn + of_nat h) (isn + of_nat t) (rx_size rx)
            = (at_seq isn (C @ A @ B), isn + of_nat h', isn + of_nat t', of_nat (total (C @ A @ B)))"
          using sz(1) szv AB(1) by simp
        show ?thesis
          using rx_store_ok [OF inv nofin ov' AB(2,3) ord(2,4,3) cG q ord(5,6) L_def rx1_def] that
          unfolding rx_Add_unfold [OF trim ov2] Let_def d rx1_def [symmetric]
          by (simp only: nge if_False q(2) simp_thms ns_assert_True bind.bind_lunit) blast
      qed
      have "n < n'" if "o' \<le> n"
      proof -
        have "n \<in> {h ..< t}" using that h True by auto
        then have "n \<in> cov G' \<union> {h' ..< t'}" using a by blast
        moreover have "n \<notin> cov G'" using nG cov_subset cG(2) AB(1) by blast
        ultimately have "h' = n" using ord(4) by simp
        then show ?thesis using st(4) ord(2) by simp
      qed
      then show ?thesis using st by blast
    qed
  qed
qed

section \<open>Extracting bytes\<close>

lemma slice_parts:
  assumes "slice_of S o' p" and "k \<le> length p"
  shows "slice_of S o' (take k p)" "slice_of S (o' + k) (drop k p)"
  using slice_cut [OF assms(1), of o' "o' + k"] slice_cut [OF assms(1), of "o' + k" "o' + length p"] assms(2)
  by simp_all

lemma slice_append:
  assumes "slice_of S o' p" and "slice_of S (o' + length p) q"
  shows "slice_of S o' (p @ q)"
proof -
  have p: "map S [o' ..< o' + length p] = p" using assms(1) unfolding slice_of_def by (rule sym)
  have q: "map S [o' + length p ..< o' + length p + length q] = q" using assms(2) unfolding slice_of_def by (rule sym)
  have "[o' ..< o' + length (p @ q)] = [o' ..< o' + length p] @ [o' + length p ..< o' + length p + length q]"
    using upt_add_eq_append [of o' "o' + length p" "length q"] by (simp add: add.assoc)
  then show ?thesis unfolding slice_of_def by (simp only: map_append p q)
qed

lemma rx_put_split:
  assumes "chain (base + length p) D hi" and "k < length p" "0 < k" and "all_near L ((base, p) # D)"
  shows "rx_erase (isn + of_nat base) (rx_put (isn + of_nat (base + k)) q (at_seq isn ((base, p) # D)))
    = at_seq isn ((base + k, q) # D)"
proof -
  have nb: "near L base" "near L (base + k)" using assms by (auto simp: near_def)
  have "rx_put (isn + of_nat (base + k)) q (at_seq isn ([(base, p)] @ D)) = at_seq isn ([(base, p)] @ (base + k, q) # D)"
  proof -
    have lt: "seq_lt (isn + of_nat base) (isn + of_nat (base + k))" "\<not> seq_lt (isn + of_nat (base + k)) (isn + of_nat base)"
      using seq_near(2) [OF nb] seq_near(2) [OF nb(2,1)] assms(3) by simp_all
    have "rx_put (isn + of_nat (base + k)) q (at_seq isn ([] @ D)) = at_seq isn ([] @ (base + k, q) # D)"
      by (rule rx_put_gap [OF _ assms(1)]) (use assms nb in auto)
    then show ?thesis using lt by simp
  qed
  moreover have "seq_lt (isn + of_nat base) (isn + of_nat o')" if "(o', r) \<in> set ((base + k, q) # D)" for o' r
  proof -
    have "near L o' \<and> base < o'"
      using that assms nb chain_member [OF assms(1), of o' r] by (auto simp: all_near_def)
    then show ?thesis using seq_near(2) [OF nb(1)] by simp
  qed
  then have "rx_erase (isn + of_nat base) (at_seq isn ((base + k, q) # D)) = at_seq isn ((base + k, q) # D)"
    unfolding rx_erase_def at_seq_def by (intro filter_True) fastforce
  moreover have "\<not> seq_lt (isn + of_nat base) (isn + (of_nat base :: u32))" by (simp add: seq_lt_def)
  ultimately show ?thesis by (simp add: rx_erase_def)
qed

lemma rx_extract_loop_ok:
  assumes "contig base C n" and "chain n G hi" and "k \<le> n - base" and "rx_data rx = at_seq isn (C @ G)"
    and "rx_nextRxSeq rx = isn + of_nat m" "n \<le> m" "near L m" and "L \<le> base" "hi < L + 2 ^ 31" and "genuine S C"
    and "rx_size rx = of_nat (total (C @ G))" and "rx_availBytes rx = of_nat (n - base)"
  shows "\<exists>bs rx' C'. rx_extract_loop (of_nat k) acc rx = Some (acc @ bs, rx') \<and> length bs = k \<and> slice_of S base bs
    \<and> contig (base + k) C' n \<and> genuine S C'
    \<and> rx' = rx\<lparr>rx_data := at_seq isn (C' @ G), rx_size := of_nat (total (C' @ G)),
        rx_availBytes := of_nat (n - (base + k))\<rparr>"
  using assms(1,3-5,8,10-12)
proof (induction C arbitrary: base k rx acc)
  case Nil
  then have "k = 0" by simp
  moreover have "rx\<lparr>rx_data := at_seq isn ([] @ G), rx_size := of_nat (total ([] @ G)),
      rx_availBytes := of_nat (n - (base + 0))\<rparr> = rx" using Nil by simp
  ultimately show ?case using Nil
    by (intro exI [of _ "[]"] exI [of _ rx]) (simp add: rx_extract_loop.simps [of 0] slice_of_def exI [of _ "[]"])
next
  case (Cons x C)
  obtain o' p where x: "x = (o', p)" by (cases x)
  have c: "o' = base" "p \<noteq> []" "contig (base + length p) C n" using Cons.prems(1) by (auto simp: x)
  have le: "base + length p \<le> n" "n \<le> hi" using contig_le [OF c(3)] chain_le [OF assms(2)] by simp_all
  have kn: "k < 2 ^ LENGTH(32)" "length p < 2 ^ LENGTH(32)"
    using Cons.prems(2,5) le assms(9) by simp_all
  have uk: "unat (of_nat k :: u32) = k" "unat (of_nat (length p) :: u32) = length p"
    using kn by (simp_all add: unat_of_nat)
  have nb: "near L base" using Cons.prems(5) le assms(9) by (simp add: near_def)
  have dat: "rx_data rx = (isn + of_nat base, p) # at_seq isn (C @ G)" using Cons.prems(3) x c(1) by simp
  have sq: "seq_le (isn + of_nat base) (rx_nextRxSeq rx)"
    using Cons.prems(4) seq_near(3) [OF nb assms(7), of isn] le(1) assms(6) by simp
  show ?case
  proof (cases "k = 0")
    case True
    have "rx\<lparr>rx_data := at_seq isn ((x # C) @ G), rx_size := of_nat (total ((x # C) @ G)),
        rx_availBytes := of_nat (n - (base + k))\<rparr> = rx" using Cons.prems(3,7,8) True by simp
    then show ?thesis using True Cons.prems(1,6)
      by (intro exI [of _ "[]"] exI [of _ rx] exI [of _ "x # C"]) (simp add: rx_extract_loop.simps [of 0] slice_of_def)
  next
    case False
    then have k0: "(of_nat k :: u32) \<noteq> 0" using uk(1) by (metis unsigned_0)
    show ?thesis
    proof (cases "length p \<le> k")
      case True
      then have cmp: "(of_nat (length p) :: u32) \<le> of_nat k" using uk by (simp add: word_le_nat_alt)
      let ?rx = "rx\<lparr>rx_data := at_seq isn (C @ G), rx_size := rx_size rx - of_nat (length p),
          rx_availBytes := rx_availBytes rx - of_nat (length p)\<rparr>"
      have "of_nat k - of_nat (length p) = (of_nat (k - length p) :: u32)" using True by (simp add: of_nat_diff)
      then have step: "rx_extract_loop (of_nat k) acc rx = rx_extract_loop (of_nat (k - length p)) (acc @ p) ?rx"
        using k0 cmp sq dat by (subst rx_extract_loop.simps) simp
      have pre: "k - length p \<le> n - (base + length p)" "rx_data ?rx = at_seq isn (C @ G)"
        "rx_nextRxSeq ?rx = isn + of_nat m" "L \<le> base + length p" "genuine S C"
        "rx_size ?rx = of_nat (total (C @ G))" "rx_availBytes ?rx = of_nat (n - (base + length p))"
        using Cons.prems le True by (simp_all add: x of_nat_diff)
      obtain bs rx' C' where ih: "rx_extract_loop (of_nat (k - length p)) (acc @ p) ?rx = Some ((acc @ p) @ bs, rx')"
        "length bs = k - length p" "slice_of S (base + length p) bs" "contig (base + length p + (k - length p)) C' n"
        "genuine S C'" "rx' = ?rx\<lparr>rx_data := at_seq isn (C' @ G), rx_size := of_nat (total (C' @ G)),
          rx_availBytes := of_nat (n - (base + length p + (k - length p)))\<rparr>"
        using Cons.IH [OF c(3) pre, of "acc @ p"] by blast
      have sl: "slice_of S base (p @ bs)" using slice_append ih(3) Cons.prems(6) by (simp add: x c(1))
      have bk: "base + length p + (k - length p) = base + k" "length (p @ bs) = k" using True ih(2) by simp_all
      have loop: "rx_extract_loop (of_nat k) acc rx = Some (acc @ (p @ bs), rx')"
        using step ih(1) by (simp only: append_assoc)
      have "rx' = rx\<lparr>rx_data := at_seq isn (C' @ G), rx_size := of_nat (total (C' @ G)),
          rx_availBytes := of_nat (n - (base + k))\<rparr>" using ih(6) unfolding bk(1) by simp
      then show ?thesis using loop bk(2) sl ih(4) [unfolded bk(1)] ih(5) by blast
    next
      case part: False
      then have cmp: "\<not> (of_nat (length p) :: u32) \<le> of_nat k" using uk by (simp add: word_le_nat_alt)
      let ?C = "(base + k, drop k p) # C"
      have chG: "chain (base + length p) (C @ G) hi" using contig_chain [OF c(3)] assms(2) by (auto simp: chain_append)
      have "all_near L ((base, p) # C @ G)"
        by (rule all_near_chain [of base _ hi]) (use chG c(2) Cons.prems(5) assms(9) in auto)
      then have "rx_erase (isn + of_nat base) (rx_put (isn + of_nat base + of_nat k) (drop k p) (rx_data rx))
          = at_seq isn (?C @ G)"
        using rx_put_split [OF chG, of k L isn "drop k p"] part False dat by (simp add: add.assoc)
      then have step: "rx_extract_loop (of_nat k) acc rx = Some (acc @ take k p,
          rx\<lparr>rx_data := at_seq isn (?C @ G), rx_size := rx_size rx - of_nat k,
             rx_availBytes := rx_availBytes rx - of_nat k\<rparr>)"
        using k0 cmp sq dat uk by (subst rx_extract_loop.simps) simp
      have "rx_size rx - of_nat k = of_nat (total (?C @ G))"
        using Cons.prems(7) part by (simp add: x of_nat_diff)
      moreover have "rx_availBytes rx - of_nat k = of_nat (n - (base + k))"
        using Cons.prems(2,8) le part by (simp add: of_nat_diff)
      moreover have "slice_of S base (take k p)" "slice_of S (base + k) (drop k p)"
        using slice_parts [of S base p k] Cons.prems(6) part by (simp_all add: x c(1))
      moreover have "contig (base + k) ?C n" using c(3) part by simp
      moreover have "length (take k p) = k" "genuine S ?C"
        using part Cons.prems(6) \<open>slice_of S (base + k) (drop k p)\<close> by (simp_all add: x)
      ultimately show ?thesis using step by metis
    qed
  qed
qed

lemma rx_Extract_ok:
  assumes inv: "rx_inv isn S F rx out C G n hi"
  shows "\<exists>res rx' C'. rx_Extract m rx = Some (res, rx')
    \<and> rx_inv isn S F rx' (out @ (case res of None \<Rightarrow> [] | Some bs \<Rightarrow> bs)) C' G n hi
    \<and> length (case res of None \<Rightarrow> [] | Some bs \<Rightarrow> bs) = unat (min m (rx_availBytes rx))"
proof -
  note b = rx_inv_bounds [OF inv]
  note i = inv [unfolded rx_inv_def]
  define k where "k = unat (min m (rx_availBytes rx))"
  have k: "k \<le> n - length out" "min m (rx_availBytes rx) = of_nat k"
    using b(4) by (simp_all add: k_def min_def word_le_nat_alt)
  show ?thesis
  proof (cases "k = 0")
    case True
    then have "min m (rx_availBytes rx) = 0" using k(2) by simp
    then show ?thesis using inv by (auto simp: rx_Extract_def)
  next
    case False
    let ?f = "if rx_gotFin rx \<and> n = F then 1 else 0"
    define L where "L = length out - 2 ^ 30"
    have near: "near L (n + ?f)" "L \<le> length out" "hi < L + 2 ^ 31"
      using i b by (auto simp: near_def L_def)
    have c: "contig (length out) C n" "chain n G hi" "rx_data rx = at_seq isn (C @ G)"
      "rx_nextRxSeq rx = isn + of_nat (n + ?f)" "genuine S C" "rx_size rx = of_nat (total (C @ G))"
      "rx_availBytes rx = of_nat (n - length out)"
      using i by auto
    obtain bs rx' C' where e: "rx_extract_loop (of_nat k) [] rx = Some ([] @ bs, rx')" "length bs = k"
      "slice_of S (length out) bs" "contig (length out + k) C' n" "genuine S C'"
      "rx' = rx\<lparr>rx_data := at_seq isn (C' @ G), rx_size := of_nat (total (C' @ G)),
        rx_availBytes := of_nat (n - (length out + k))\<rparr>"
      using rx_extract_loop_ok [OF c(1,2) k(1) c(3,4) le_add1 near(1-3) c(5-7), of "[]"] by blast
    have uk: "unat (of_nat k :: u32) = k" by (subst k(2) [symmetric]) (rule k_def [symmetric])
    have k0: "(of_nat k :: u32) \<noteq> 0" using uk False by (intro notI) simp
    have bs0: "bs \<noteq> []" using False e(2) by auto
    have "C \<noteq> []" using False k(1) c(1) by auto
    then have "rx_data rx \<noteq> []" using c(3) by (auto simp: at_seq_def)
    then have "rx_Extract m rx = Some (Some bs, rx')" 
      using e(1) k(2) k0 bs0 by (simp add: rx_Extract_def)
    moreover have "slice_of S 0 (out @ bs)" using i e(3) slice_append [of S 0 out bs] by simp
    then have "rx_inv isn S F rx' (out @ bs) C' G n hi"
      using i e(2,4-6) by (auto simp: rx_inv_def)
    ultimately show ?thesis using e(2) unfolding k_def by fastforce
  qed
qed

section \<open>Reachable states\<close>

text \<open>
  The states of a receive buffer on the connection with initial sequence number \<open>isn\<close>: it is
  created with a window, receives segments of the stream \<open>S\<close> of \<open>F\<close> bytes that are not out of
  reach, in any order and any number of times, receives the FIN, and the application extracts
  bytes; \<open>out\<close> is what it has extracted so far.
\<close>

inductive rx_reach :: "u32 \<Rightarrow> (nat \<Rightarrow> u8) \<Rightarrow> nat \<Rightarrow> rx_buffer \<Rightarrow> u8 list \<Rightarrow> bool"
  for isn S F where
  rx_new: "unat m < 2 ^ 29 \<Longrightarrow> rx_reach isn S F (rx_SetMaxBufferSize m (TcpRxBuffer_init isn)) []"
| rx_segment: "rx_reach isn S F rx out \<Longrightarrow> slice_of S o' p \<Longrightarrow> o' + length p \<le> F \<Longrightarrow> rx_legal rx out o' (length p)
    \<Longrightarrow> rx_Add p (isn + of_nat o') rx = Some (r, rx') \<Longrightarrow> rx_reach isn S F rx' out"
| rx_fin: "rx_reach isn S F rx out \<Longrightarrow> F + 1 < length out + 2 ^ 30
    \<Longrightarrow> rx_reach isn S F (rx_SetFinSequence (isn + of_nat F) rx) out"
| rx_read: "rx_reach isn S F rx out \<Longrightarrow> rx_Extract m rx = Some (res, rx')
    \<Longrightarrow> rx_reach isn S F rx' (out @ (case res of None \<Rightarrow> [] | Some bs \<Rightarrow> bs))"

lemma rx_fin_ok:
  assumes inv: "rx_inv isn S F rx out C G n hi" and F: "F + 1 < length out + 2 ^ 30"
  shows "rx_inv isn S F (rx_SetFinSequence (isn + of_nat F) rx) out C G n hi"
proof -
  note b = rx_inv_bounds [OF inv]
  let ?m = "n + (if rx_gotFin rx \<and> n = F then 1 else 0)"
  have "near (length out - 2 ^ 30) ?m" "near (length out - 2 ^ 30) F"
    using b F by (auto simp: near_def)
  from seq_near(5) [OF this, of isn] have "isn + of_nat ?m = isn + (of_nat F :: u32) \<longleftrightarrow> ?m = F" .
  then show ?thesis using inv F b by (auto simp: rx_inv_def rx_SetFinSequence_def Let_def add.assoc)
qed

lemma rx_reach_inv: "rx_reach isn S F rx out \<Longrightarrow> \<exists>C G n hi. rx_inv isn S F rx out C G n hi"
proof (induction rule: rx_reach.induct)
  case (rx_new m)
  then have "rx_inv isn S F (rx_SetMaxBufferSize m (TcpRxBuffer_init isn)) [] [] [] 0 0"
    by (simp add: rx_inv_def rx_SetMaxBufferSize_def TcpRxBuffer_init_def slice_of_def)
  then show ?case by blast
next
  case (rx_segment rx out o' p r rx')
  then obtain C G n hi where "rx_inv isn S F rx out C G n hi" by blast
  from rx_Add_ok [OF this rx_segment(4,3,2)] rx_segment(5) show ?case by fastforce
next
  case (rx_fin rx out)
  then show ?case using rx_fin_ok by blast
next
  case (rx_read rx out m res rx')
  then obtain C G n hi where "rx_inv isn S F rx out C G n hi" by blast
  from rx_Extract_ok [OF this, of m] rx_read(2) show ?case by fastforce
qed

end
