(* ===== verification/Tcp_Receiver.thy ===== *)
theory Tcp_Receiver
  imports Tcp_Rx_Stream
begin

text \<open>The properties of the TCP receive buffer as a whole, with an example run across the wrap of the sequence numbers.\<close>

section \<open>An example run\<close>

text \<open>A connection whose numbers start two below the wrap; the second half of the stream arrives first.\<close>

definition ex_stream :: "nat \<Rightarrow> u8" where
  "ex_stream j = of_nat j"

definition ex_rx0 :: rx_buffer where
  "ex_rx0 = rx_SetMaxBufferSize 100 (TcpRxBuffer_init 0xFFFFFFFE)"

definition ex_rx1 :: rx_buffer where
  "ex_rx1 = \<lparr>rx_sackList = [(1, 4)], rx_nextRxSeq = 0xFFFFFFFE, rx_finSeq = 0, rx_gotFin = False,
     rx_size = 3, rx_maxBuffer = 100, rx_availBytes = 0, rx_data = [(1, [3, 4, 5])]\<rparr>"

definition ex_rx2 :: rx_buffer where
  "ex_rx2 = \<lparr>rx_sackList = [], rx_nextRxSeq = 4, rx_finSeq = 0, rx_gotFin = False,
     rx_size = 6, rx_maxBuffer = 100, rx_availBytes = 6, rx_data = [(0xFFFFFFFE, [0, 1, 2]), (1, [3, 4, 5])]\<rparr>"

lemma ex_slices: "slice_of ex_stream 0 [0, 1, 2]" "slice_of ex_stream 3 [3, 4, 5]"
  by (simp_all add: slice_of_def ex_stream_def upt_conv_Cons)

lemma ex_reach0: "rx_reach 0xFFFFFFFE ex_stream 6 ex_rx0 []"
  unfolding ex_rx0_def by (rule rx_new) simp

lemma ex_legal:
  "rx_legal ex_rx0 [] 3 (length [3, 4, 5 :: u8])" "rx_legal ex_rx1 [] 0 (length [0, 1, 2 :: u8])"
  "unat (rx_availBytes ex_rx1) = 0" "unat (rx_maxBuffer ex_rx1) = 100"
  by (simp_all add: rx_legal_def ex_rx0_def ex_rx1_def rx_SetMaxBufferSize_def TcpRxBuffer_init_def)

lemma ex_Add:
  "rx_Add [3, 4, 5] (0xFFFFFFFE + of_nat 3) ex_rx0 = Some (True, ex_rx1)"
  "rx_Add [0, 1, 2] (0xFFFFFFFE + of_nat 0) ex_rx1 = Some (True, ex_rx2)"
  by code_simp+

lemma ex_reach1: "rx_reach 0xFFFFFFFE ex_stream 6 ex_rx1 []"
  by (rule rx_segment [OF ex_reach0 ex_slices(2) _ ex_legal(1) ex_Add(1)]) simp

lemma ex_reach2: "rx_reach 0xFFFFFFFE ex_stream 6 ex_rx2 []"
  by (rule rx_segment [OF ex_reach1 ex_slices(1) _ ex_legal(2) ex_Add(2)]) simp

lemma ex_Extract: "\<exists>rx. rx_Extract 10 ex_rx2 = Some (Some [0, 1, 2, 3, 4, 5], rx)"
proof -
  have "map_option fst (rx_Extract 10 ex_rx2) = Some (Some [0, 1, 2, 3, 4, 5])" by code_simp
  then show ?thesis by auto
qed

lemma ex_reach3: "\<exists>rx. rx_reach 0xFFFFFFFE ex_stream 6 rx [0, 1, 2, 3, 4, 5]"
  using ex_Extract rx_read [OF ex_reach2, of 10] by fastforce

section \<open>Properties\<close>

text \<open>
  C2: the bytes come out in order, once and unchanged.  Whatever segments of a stream arrive,
  in whatever order, overlapping or repeated, across the wrap of the sequence numbers: what
  the application has extracted is a prefix of the stream, the bytes reported as available
  are within it, and the connection counts as finished only when all of it is there.
\<close>

theorem rx_delivers_stream:
  assumes "rx_reach isn S F rx out"
  shows "out = map S [0 ..< length out] \<and> length out + unat (rx_availBytes rx) \<le> F
    \<and> (rx_Finished rx \<longrightarrow> length out + unat (rx_availBytes rx) = F)"
proof -
  obtain C G n hi where inv: "rx_inv isn S F rx out C G n hi" using rx_reach_inv [OF assms] by blast
  note b = rx_inv_bounds [OF inv] and i = inv [unfolded rx_inv_def]
  have "n = F" if "rx_Finished rx"
  proof (rule ccontr)
    assume "n \<noteq> F"
    have g: "rx_gotFin rx" "seq_lt (rx_finSeq rx) (rx_nextRxSeq rx)" using that by (simp_all add: rx_Finished_def)
    then have "seq_lt (isn + of_nat F) (isn + (of_nat n :: u32))" using i \<open>n \<noteq> F\<close> by simp
    moreover have "near (length out - 2 ^ 30) F" "near (length out - 2 ^ 30) n"
      using b i g(1) by (auto simp: near_def)
    ultimately show False using seq_near(2) b by auto
  qed
  then show ?thesis using b i by (auto simp: slice_of_def)
qed

theorem rx_delivers_stream_witness:
  "\<exists>rx out. rx_reach 0xFFFFFFFE ex_stream 6 rx out \<and> length out = 6 \<and> out = map ex_stream [0 ..< 6]"
proof -
  obtain rx where "rx_reach 0xFFFFFFFE ex_stream 6 rx [0, 1, 2, 3, 4, 5]" using ex_reach3 by blast
  moreover have len: "length [0, 1, 2, 3, 4, 5 :: u8] = 6" by simp
  moreover from rx_delivers_stream [OF calculation(1), unfolded len]
  have "[0, 1, 2, 3, 4, 5] = map ex_stream [0 ..< 6]" by (rule conjunct1)
  ultimately show ?thesis by (intro exI [of _ rx] exI [of _ "[0, 1, 2, 3, 4, 5]"]) simp
qed

text \<open>
  C15: the receiver never gets stuck.  In every reachable state a segment within reach is
  taken without a failing assertion; one that contains the next expected byte is stored and
  moves the acknowledgement forward as long as the buffer has room, so that a sender that
  repeats the missing segment makes progress; and \<^verbatim>\<open>Extract\<close> succeeds and returns as many
  bytes as were asked for and are available.
\<close>

theorem rx_progress:
  assumes "rx_reach isn S F rx out" and "slice_of S o' p" and "o' + length p \<le> F" and "rx_legal rx out o' (length p)"
  shows "\<exists>r rx'. rx_Add p (isn + of_nat o') rx = Some (r, rx') \<and> unat (rx_availBytes rx) \<le> unat (rx_availBytes rx')
    \<and> (o' \<le> length out + unat (rx_availBytes rx) \<and> length out + unat (rx_availBytes rx) < o' + length p
        \<and> unat (rx_availBytes rx) < unat (rx_maxBuffer rx)
       \<longrightarrow> r \<and> unat (rx_availBytes rx) < unat (rx_availBytes rx'))
    \<and> (\<exists>res rx''. rx_Extract m rx' = Some (res, rx'')
        \<and> length (case res of None \<Rightarrow> [] | Some bs \<Rightarrow> bs) = unat (min m (rx_availBytes rx')))"
proof -
  obtain C G n hi where inv: "rx_inv isn S F rx out C G n hi" using rx_reach_inv [OF assms(1)] by blast
  obtain r rx' C' G' n' hi' where add: "rx_Add p (isn + of_nat o') rx = Some (r, rx')"
    "rx_inv isn S F rx' out C' G' n' hi'" "n \<le> n'"
    "o' \<le> n \<and> n < o' + length p \<and> unat (rx_availBytes rx) < unat (rx_maxBuffer rx) \<longrightarrow> r \<and> n < n'"
    using rx_Add_ok [OF inv assms(4,3,2)] by blast
  obtain res rx'' where ext: "rx_Extract m rx' = Some (res, rx'')"
    "length (case res of None \<Rightarrow> [] | Some bs \<Rightarrow> bs) = unat (min m (rx_availBytes rx'))"
    using rx_Extract_ok [OF add(2)] by blast
  have "length out + unat (rx_availBytes rx) = n" "length out + unat (rx_availBytes rx') = n'"
    using rx_inv_bounds [OF inv] rx_inv_bounds [OF add(2)] by simp_all
  then show ?thesis using add ext by auto
qed

theorem rx_progress_witness:
  "\<exists>r rx'. rx_Add [0, 1, 2] (0xFFFFFFFE + of_nat 0) ex_rx1 = Some (r, rx') \<and> r
     \<and> unat (rx_availBytes ex_rx1) < unat (rx_availBytes rx') \<and> rx_Extract 4 rx' \<noteq> None"
proof -
  have "0 + length [0, 1, 2 :: u8] \<le> 6" by simp
  note w = rx_progress [OF ex_reach1 ex_slices(1) this ex_legal(2), of 4, unfolded ex_legal(3,4)]
  show ?thesis using w unfolding ex_legal(3) by force
qed

text \<open>
  C32: SACK blocks are true.  Every block that a reachable receive buffer reports lies beyond
  the next expected byte and inside the stream, and each of its bytes is held in the buffer
  with the value it has in the stream, so that a sender may forget what is reported.
\<close>

theorem rx_sack_truthful:
  assumes "rx_reach isn S F rx out" and "blk \<in> set (rx_sackList rx)"
  shows "\<exists>a b. blk = (isn + of_nat a, isn + of_nat b) \<and> length out + unat (rx_availBytes rx) < a \<and> a < b \<and> b \<le> F
    \<and> (\<forall>j \<in> {a ..< b}. \<exists>k p. (isn + of_nat k, p) \<in> set (rx_data rx) \<and> k \<le> j \<and> j < k + length p \<and> p ! (j - k) = S j)"
proof -
  obtain C G n hi where inv: "rx_inv isn S F rx out C G n hi" using rx_reach_inv [OF assms(1)] by blast
  note b = rx_inv_bounds [OF inv] and i = inv [unfolded rx_inv_def]
  have "sack_block isn n (cov G) blk" using i assms(2) by (auto simp: list_all_iff)
  then obtain a c where ac: "blk = (isn + of_nat a, isn + of_nat c)" "n < a" "a < c" "{a ..< c} \<subseteq> cov G"
    by (auto simp: sack_block_def)
  have G: "chain n G hi" "genuine S G" "rx_data rx = at_seq isn (C @ G)" using i by auto
  have "c - 1 \<in> cov G" using ac(3,4) by auto
  then have "c \<le> F" using cov_chain [OF G(1)] b(3) by fastforce
  moreover have "\<exists>k p. (isn + of_nat k, p) \<in> set (rx_data rx) \<and> k \<le> j \<and> j < k + length p \<and> p ! (j - k) = S j"
    if "j \<in> {a ..< c}" for j
  proof -
    have "j \<in> cov G" using ac(4) that by (rule subsetD)
    then obtain k p where kp: "(k, p) \<in> set G" "k \<le> j" "j < k + length p" by (auto simp: cov_def)
    then have sl: "p = map S [k ..< k + length p]" using G(2) by (auto simp: genuine_def slice_of_def)
    have "p ! (j - k) = map S [k ..< k + length p] ! (j - k)" using sl by (rule arg_cong)
    also have "\<dots> = S j" using kp by simp
    finally show ?thesis using kp G(3) by (force simp: at_seq_def)
  qed
  moreover have "length out + unat (rx_availBytes rx) = n" using b by simp
  ultimately show ?thesis using ac(1-3) by blast
qed

theorem rx_sack_truthful_witness:
  "\<exists>a b. ((1, 4) :: seq32 \<times> seq32) = (0xFFFFFFFE + of_nat a, 0xFFFFFFFE + of_nat b) \<and> a < b
     \<and> (\<forall>j \<in> {a ..< b}. \<exists>k p. (0xFFFFFFFE + of_nat k, p) \<in> set (rx_data ex_rx1) \<and> k \<le> j \<and> j < k + length p
          \<and> p ! (j - k) = ex_stream j)"
proof -
  have "(1, 4) \<in> set (rx_sackList ex_rx1)" by (simp add: ex_rx1_def)
  from rx_sack_truthful [OF ex_reach1 this] show ?thesis by metis
qed

end
