(* ===== verification/Buffer_Checksum.thy ===== *)
theory Buffer_Checksum
  imports Buffer_Access
begin

text \<open>
  The Internet checksum of \<^verbatim>\<open>Buffer::Iterator::CalculateIpChecksum\<close>: what it
  computes from the bytes of a packet, in one's complement arithmetic, and that a packet
  into which it was inserted verifies.  The equivalence of the fast reads of 16- and 32-bit
  fields with the byte-by-byte ones is here as well.
\<close>

section \<open>The checksum of a list of bytes\<close>

fun sum16 :: "u8 list \<Rightarrow> u32 \<Rightarrow> u32" where
  "sum16 (x # y # r) acc = sum16 r (acc + ucast (ntoh [y, x] :: u16))"
| "sum16 [x] acc = acc + ucast x"
| "sum16 [] acc = acc"

definition ip_checksum :: "u8 list \<Rightarrow> u32 \<Rightarrow> u16" where
  "ip_checksum bytes initialChecksum = ucast (NOT (fold_carry (sum16 bytes initialChecksum)))"

text \<open>One's complement arithmetic: the carries folded in is the remainder modulo 65535.\<close>

definition fold16 :: "nat \<Rightarrow> nat" where
  "fold16 n = (if n = 0 then 0 else Suc ((n - 1) mod 65535))"

lemma fold16_step: "fold16 (n mod 65536 + n div 65536) = fold16 n"
proof (cases "n = 0")
  case False
  let ?m = "n mod 65536 + n div 65536"
  have n: "n = 65536 * (n div 65536) + n mod 65536" by simp
  have pos: "0 < ?m" using False n by (cases "n div 65536 = 0") auto
  have "n - 1 = 65535 * (n div 65536) + (?m - 1)" using n pos by linarith
  then have "(n - 1) mod 65535 = (?m - 1) mod 65535" by (metis mod_mult_self4)
  then show ?thesis using False pos by (simp add: fold16_def)
qed (simp add: fold16_def)

lemma unat_fold_carry: "unat (fold_carry acc) = fold16 (unat acc)"
proof (induction acc rule: fold_carry.induct)
  case (1 acc)
  show ?case
  proof (cases "drop_bit 16 acc = 0")
    case True
    then have "unat acc div 65536 = 0" by (simp add: unat_drop_16 [symmetric])
    then have "unat acc < 65536" by simp
    then have "fold16 (unat acc) = unat acc" by (simp add: fold16_def)
    then show ?thesis using True by (simp add: fold_carry.simps [of acc])
  next
    case False
    then show ?thesis
      using 1 by (simp add: fold_carry.simps [of acc] unat_fold_step fold16_step)
  qed
qed

lemma fold16_le: "fold16 n \<le> 65535"
proof -
  have "(n - 1) mod 65535 < 65535" by simp
  then have "Suc ((n - 1) mod 65535) \<le> 65535" by (rule Suc_leI)
  then show ?thesis by (simp only: fold16_def le0 split: if_split) simp
qed

lemma unat_not16: "unat (NOT x) = 65535 - unat (x :: u16)"
proof -
  have "NOT x = - 1 - x" by (simp add: not_eq_complement)
  then have "unat (NOT x) = unat (- 1 :: u16) - unat x" by (simp only: unat_sub [OF word_n1_ge])
  also have "unat (- 1 :: u16) = 65535" by (simp add: unsigned_minus_1_eq_mask mask_eq_exp_minus_1)
  finally show ?thesis .
qed

lemma ucast_not16: "(ucast (NOT (w :: u32)) :: u16) = NOT (ucast w)"
  by (intro bit_eqI) (auto simp: bit_simps)

lemma unat_low16_not:
  assumes "unat (w :: u32) \<le> 65535"
  shows "unat (ucast (NOT w) :: u16) = 65535 - unat w"
proof -
  have "unat (ucast w :: u16) = unat w mod 65536" by (simp add: unsigned_ucast_eq take_bit_eq_mod)
  then have "unat (ucast w :: u16) = unat w" using assms by simp
  then show ?thesis by (simp only: ucast_not16 unat_not16)
qed

lemma unat_ip_checksum: "unat (ip_checksum bytes c) = 65535 - fold16 (unat (sum16 bytes c))"
  unfolding ip_checksum_def
  using fold16_le by (subst unat_low16_not) (simp_all add: unat_fold_carry)

section \<open>The sum of the 16-bit words, without wrap-around\<close>

fun words16 :: "u8 list \<Rightarrow> nat" where
  "words16 (x # y # r) = unat (ntoh [y, x] :: u16) + words16 r"
| "words16 [x] = unat x"
| "words16 [] = 0"

lemma unat_u16_le: "unat (x :: u16) \<le> 65535"
  using unsigned_less [of x, where ?'a = nat] by simp

lemma unat_u8_le: "unat (x :: u8) \<le> 255"
  using unsigned_less [of x, where ?'a = nat] by simp

lemma words16_bound: "2 * words16 bs \<le> 65535 * (length bs + 1)"
proof (induction bs rule: words16.induct)
  case (1 x y r)
  then show ?case using unat_u16_le [of "ntoh [y, x]"] by simp
next
  case (2 x)
  then show ?case using unat_u8_le [of x] by simp
qed simp

lemma words16_append: "even (length xs) \<Longrightarrow> words16 (xs @ ys) = words16 xs + words16 ys"
  by (induction xs rule: words16.induct) simp_all

lemma unat_sum16:
  assumes "unat acc + words16 bs < 2 ^ 32"
  shows "unat (sum16 bs acc) = unat acc + words16 bs"
  using assms
proof (induction bs acc rule: sum16.induct)
  case (1 x y r acc)
  let ?w = "ntoh [y, x] :: u16"
  have w: "unat (ucast ?w :: u32) = unat ?w"
    using unat_u16_bound [of ?w] by (simp add: unsigned_ucast_eq take_bit_nat_eq_self)
  have "unat (acc + ucast ?w) = unat acc + unat ?w"
    using 1(2) by (subst unat_plus_no_wrap) (simp_all add: w)
  with 1 show ?case by simp
next
  case (2 x acc)
  have "unat (ucast x :: u32) = unat x"
    using unat_u8_bound [of x] by (simp add: unsigned_ucast_eq take_bit_nat_eq_self)
  with 2 show ?case by (simp add: unat_plus_no_wrap)
qed simp

text \<open>Inserting the checksum makes the sum a positive multiple of 65535.\<close>

lemma fold16_complement: "fold16 (n + (65535 - fold16 n)) = 65535"
proof (cases "n = 0")
  case False
  then obtain m where m: "n = Suc m" by (cases n) auto
  have lt: "m mod 65535 < 65535" by simp
  have "n + (65535 - fold16 n) = m + (65535 - m mod 65535)" using m lt by (simp add: fold16_def)
  also have "\<dots> = 65535 * (m div 65535) + 65535"
    using lt mult_div_mod_eq [of 65535 m] by linarith
  finally have e: "n + (65535 - fold16 n) = 65535 * (m div 65535) + 65535" .
  have "65535 * (m div 65535) + 65535 - 1 = 65534 + 65535 * (m div 65535)" by simp
  then have "(65535 * (m div 65535) + 65535 - 1) mod 65535 = 65534" by (simp only: mod_mult_self2) simp
  then show ?thesis unfolding e by (simp add: fold16_def)
qed (simp add: fold16_def)

lemma lsb16_length [simp]: "length (lsb16 c) = 2"
  by (simp add: lsb16_def)

lemma lsb16_not_Nil [simp]: "lsb16 c \<noteq> []"
  using lsb16_length [of c] by fastforce

lemma words16_zeros: "words16 (replicate n 0) = 0 \<and> words16 (replicate (Suc n) 0) = 0"
  by (induction n) (simp_all add: ntoh_def)

lemma words16_lsb16: "words16 (lsb16 c) = unat c"
  using ntoh_hton16 [of c] by (simp add: lsb16_def hton16_def)

lemma words16_zero: "words16 [0, 0] = 0"
  by (simp add: ntoh_def)

lemma words16_pair_bound:
  "words16 xs + words16 ys \<le> 65535 * ((length xs + length ys) div 2 + 2)"
proof -
  let ?l = "length xs + length ys"
  have "2 * (words16 xs + words16 ys) \<le> 65535 * (?l + 2)"
    using words16_bound [of xs] words16_bound [of ys] by simp
  moreover have "?l + 2 \<le> 2 * (?l div 2 + 2)" by presburger
  then have "65535 * (?l + 2) \<le> 65535 * (2 * (?l div 2 + 2))" by (rule mult_le_mono2)
  ultimately have "2 * (words16 xs + words16 ys) \<le> 2 * (65535 * (?l div 2 + 2))" by linarith
  then show ?thesis by simp
qed

lemma checksum_inserted:
  assumes "even (length xs)" and "unat c0 + 65535 * ((length xs + length ys) div 2 + 3) < 2 ^ 32"
  shows "ip_checksum (xs @ lsb16 (ip_checksum (xs @ [0, 0] @ ys) c0) @ ys) c0 = 0"
proof -
  let ?c = "ip_checksum (xs @ [0, 0] @ ys) c0"
  have l: "length (lsb16 ?c) = 2" by (simp add: lsb16_def)
  have s0: "words16 (xs @ [0, 0] @ ys) = words16 xs + words16 ys"
    using assms(1) words16_append [of "[0, 0]" ys] words16_zero by (simp only: words16_append) simp
  have s1: "words16 (xs @ lsb16 ?c @ ys) = words16 xs + unat ?c + words16 ys"
    using assms(1) l by (simp add: words16_append words16_lsb16)
  have b: "unat c0 + words16 xs + words16 ys + 65535 < 2 ^ 32"
    using assms(2) words16_pair_bound [of xs ys] by simp
  have "unat (sum16 (xs @ [0, 0] @ ys) c0) = unat c0 + words16 xs + words16 ys"
    using b s0 by (subst unat_sum16) linarith+
  then have c: "unat ?c = 65535 - fold16 (unat c0 + words16 xs + words16 ys)"
    by (simp only: unat_ip_checksum)
  have "unat (sum16 (xs @ lsb16 ?c @ ys) c0) = unat c0 + words16 xs + words16 ys + unat ?c"
    using b s1 unat_u16_le [of ?c] by (subst unat_sum16) linarith+
  then have "unat (ip_checksum (xs @ lsb16 ?c @ ys) c0)
      = 65535 - fold16 (unat c0 + words16 xs + words16 ys + (65535 - fold16 (unat c0 + words16 xs + words16 ys)))"
    unfolding unat_ip_checksum [of "xs @ lsb16 ?c @ ys"] c by (rule arg_cong)
  then have "unat (ip_checksum (xs @ lsb16 ?c @ ys) c0) = 0" by (simp only: fold16_complement diff_self_eq_0)
  then show ?thesis by (simp only: unat_eq_0)
qed

text \<open>Two fields over which the same packet verifies are equal, or are the two forms of zero.\<close>

lemma fold16_full_iff: "fold16 n = 65535 \<longleftrightarrow> 0 < n \<and> n mod 65535 = 0"
proof (cases n)
  case (Suc m)
  have "Suc m mod 65535 = (if Suc (m mod 65535) = 65535 then 0 else Suc (m mod 65535))" by (rule mod_Suc)
  then show ?thesis using Suc by (auto simp: fold16_def)
qed (simp add: fold16_def)

lemma checksum_zero_field:
  assumes "even (length xs)" and "unat c0 + 65535 * ((length xs + length ys) div 2 + 3) < 2 ^ 32"
  shows "ip_checksum (xs @ lsb16 u @ ys) c0 = 0
    \<longleftrightarrow> fold16 (unat c0 + words16 xs + words16 ys + unat u) = 65535"
proof -
  let ?n = "unat c0 + words16 xs + words16 ys + unat u"
  have b: "unat c0 + words16 xs + words16 ys + 65535 < 2 ^ 32"
    using assms(2) words16_pair_bound [of xs ys] by simp
  have "words16 (xs @ lsb16 u @ ys) = words16 xs + unat u + words16 ys"
    using assms(1) by (simp add: words16_append words16_lsb16)
  then have "unat (sum16 (xs @ lsb16 u @ ys) c0) = ?n"
    using b unat_u16_le [of u] by (subst unat_sum16) linarith+
  then have "unat (ip_checksum (xs @ lsb16 u @ ys) c0) = 65535 - fold16 ?n" by (simp only: unat_ip_checksum)
  then have "unat (ip_checksum (xs @ lsb16 u @ ys) c0) = 0 \<longleftrightarrow> fold16 ?n = 65535"
    using fold16_le [of ?n] by linarith
  then show ?thesis by (simp only: unat_eq_0)
qed

lemma same_residue:
  assumes "(n + a) mod 65535 = 0" and "(n + b) mod 65535 = 0" and "a \<le> b" and "b \<le> 65535"
  shows "a = b \<or> a = 0 \<and> b = (65535 :: nat)"
proof -
  have "(n + b) mod 65535 = (n + a) mod 65535" using assms by simp
  then have "65535 dvd (n + b) - (n + a)" using assms(3) by (subst (asm) mod_eq_dvd_iff_nat) simp_all
  then have "65535 dvd b - a" using assms(3) by simp
  then show ?thesis using assms(3,4) dvd_imp_le [of 65535 "b - a"] by (cases "b = a") auto
qed

lemma checksum_fields_agree:
  assumes "even (length xs)" and "unat c0 + 65535 * ((length xs + length ys) div 2 + 3) < 2 ^ 32"
    and "ip_checksum (xs @ lsb16 u @ ys) c0 = 0" and "ip_checksum (xs @ lsb16 v @ ys) c0 = 0"
  shows "u = v \<or> {u, v} = {0, 0xffff}"
proof -
  let ?n = "unat c0 + words16 xs + words16 ys"
  have m: "(?n + unat u) mod 65535 = 0" "(?n + unat v) mod 65535 = 0"
    using assms(3,4) by (simp_all only: checksum_zero_field [OF assms(1,2)] fold16_full_iff)
  have l: "unat u \<le> 65535" "unat v \<le> 65535" by (rule unat_u16_le)+
  consider "unat u = unat v" | "unat u = 0" "unat v = 65535" | "unat v = 0" "unat u = 65535"
    using same_residue [OF m _ l(2)] same_residue [OF m(2,1) _ l(1)] nat_le_linear [of "unat u" "unat v"] by metis
  then show ?thesis
  proof cases
    case 1
    then show ?thesis by (simp add: word_unat_eq_iff)
  next
    case 2
    then have "u = 0" "v = 0xffff" by (simp_all add: word_unat_eq_iff)
    then show ?thesis by simp
  next
    case 3
    then have "v = 0" "u = 0xffff" by (simp_all add: word_unat_eq_iff)
    then show ?thesis by (simp add: insert_commute)
  qed
qed

section \<open>The checksum of a packet\<close>

lemma it_ReadU16_ok:
  assumes "store_ok s (add_mset b bs) X" and "b_start b \<le> p" and "p + 2 \<le> b_end b"
  shows "it_ReadU16 (it_Construct b p) s
    = Some (ntoh (rev (take 2 (drop (p - b_start b) (buf_content s b)))), it_Construct b (p + 2))"
  using it_Read_ok [OF assms] by (simp add: it_ReadU16_def)

lemma drop_two:
  assumes "k + 2 \<le> length xs"
  shows "drop k xs = xs ! k # xs ! (k + 1) # drop (k + 2) xs"
  using assms Cons_nth_drop_Suc [of k xs] Cons_nth_drop_Suc [of "k + 1" xs] by simp

lemma it_sum16_ok:
  assumes ok: "store_ok s (add_mset b bs) X" and "b_start b \<le> p" and "p + 2 * n \<le> b_end b"
  shows "it_sum16 n acc (it_Construct b p) s
    = Some (sum16 (take (2 * n) (drop (p - b_start b) (buf_content s b))) acc, it_Construct b (p + 2 * n))"
  using assms(2,3)
proof (induction n arbitrary: p acc)
  case (Suc n)
  let ?c = "buf_content s b" and ?k = "p - b_start b"
  have len: "?k + 2 \<le> length ?c" using Suc.prems content_size [OF ok] by (simp add: buf_GetSize_def)
  have k: "p + 2 - b_start b = ?k + 2" using Suc.prems by simp
  have r: "it_ReadU16 (it_Construct b p) s
      = Some (ntoh [?c ! (?k + 1), ?c ! ?k], it_Construct b (p + 2))"
    using it_ReadU16_ok [OF ok, of p] Suc.prems by (simp add: drop_two [OF len])
  show ?case
    using Suc.IH [of "p + 2" "acc + ucast (ntoh [?c ! (?k + 1), ?c ! ?k] :: u16)"] Suc.prems
    by (simp add: r k drop_two [OF len] Suc_diff_le)
qed simp

lemma sum16_append: "even (length xs) \<Longrightarrow> sum16 (xs @ ys) acc = sum16 ys (sum16 xs acc)"
  by (induction xs acc rule: sum16.induct) simp_all

lemma it_CalculateIpChecksum_ok:
  assumes ok: "store_ok s (add_mset b bs) X" and p: "b_start b \<le> p" "p + n \<le> b_end b" and n16: "n < 65536"
  shows "it_CalculateIpChecksum (of_nat n) c0 (it_Construct b p) s
    = Some (ip_checksum (take n (drop (p - b_start b) (buf_content s b))) c0, it_Construct b (p + n))"
proof -
  let ?c = "buf_content s b" and ?k = "p - b_start b" and ?m = "2 * (n div 2)"
  have u: "unat (of_nat n :: u16) = n" using n16 by (simp add: unat_of_nat)
  then have half: "unat ((of_nat n :: u16) div 2) = n div 2" by (simp add: unat_div)
  have "unat ((of_nat n :: u16) AND 1) = n mod 2" by (simp only: and_one_eq unat_mod u) simp
  then have parity: "((of_nat n :: u16) AND 1 \<noteq> 0) \<longleftrightarrow> odd n" by (metis odd_iff_mod_2_eq_one unat_eq_0 unat_0 not_mod_2_eq_0_eq_1 zero_neq_one)
  note [simp] = it_CalculateIpChecksum_def half parity
  have len: "?k + n \<le> length ?c" using p content_size [OF ok] by (simp add: buf_GetSize_def)
  have s16: "it_sum16 (n div 2) c0 (it_Construct b p) s
      = Some (sum16 (take ?m (drop ?k ?c)) c0, it_Construct b (p + ?m))"
    using it_sum16_ok [OF ok p(1), of "n div 2" c0] p(2) by simp
  show ?thesis
  proof (cases "even n")
    case True
    then show ?thesis by (simp add: s16 ip_checksum_def)
  next
    case False
    then have n: "n = ?m + 1" by (metis dvd_imp_mod_0 mult_div_mod_eq odd_iff_mod_2_eq_one)
    have lt: "p + ?m < b_end b" "?k + ?m < length ?c" using p len n by linarith+
    have rd: "it_ReadU8 (it_Construct b (p + ?m)) s = Some (?c ! (?k + ?m), it_Construct b (p + n))"
    proof -
      have "p + ?m + 1 = p + n" "p + ?m - b_start b = ?k + ?m" using p n by linarith+
      then show ?thesis using it_ReadU8_ok [OF ok trans_le_add1 [OF p(1)] lt(1)] by (simp only:)
    qed
    have "take n (drop ?k ?c) = take ?m (drop ?k ?c) @ [?c ! (?k + ?m)]"
      using lt(2) n take_Suc_conv_app_nth [of ?m "drop ?k ?c"] by simp
    moreover have "even (length (take ?m (drop ?k ?c)))" using lt(2) by (simp add: min_absorb2)
    ultimately have "sum16 (take n (drop ?k ?c)) c0 = sum16 (take ?m (drop ?k ?c)) c0 + ucast (?c ! (?k + ?m))"
      by (simp only: sum16_append) simp
    then show ?thesis using False
      by (simp add: s16 rd ip_checksum_def del: odd_two_times_div_two_nat)
  qed
qed

text \<open>
  The checksum verifies.  A packet in which the checksum computed over it, with its
  checksum field zero, has been written into that field (in host byte order, at an even
  offset) has the checksum zero, which is what the receivers of ns-3 test.
\<close>

theorem checksum_verifies:
  assumes "store_ok s (add_mset b bs) X" and "buf_content s b = xs @ [0, 0] @ ys"
    and "it_CalculateIpChecksum (of_nat (length xs + 2 + length ys)) c0 (buf_Begin b) s = Some (c, i)"
    and "store_ok s' (add_mset b' bs') X'" and "buf_content s' b' = xs @ lsb16 c @ ys"
    and "even (length xs)" and "unat c0 + 65535 * ((length xs + length ys) div 2 + 3) < 2 ^ 32"
    and "length xs + 2 + length ys < 65536"
  shows "\<exists>i'. it_CalculateIpChecksum (of_nat (length xs + 2 + length ys)) c0 (buf_Begin b') s' = Some (0, i')"
proof -
  let ?n = "length xs + 2 + length ys"
  have l: "length (lsb16 c) = 2" by (simp add: lsb16_def)
  have sz: "buf_GetSize b = ?n" "buf_GetSize b' = ?n"
    using content_size [OF assms(1)] content_size [OF assms(4)] assms(2,5) l by simp_all
  have e: "b_start b + ?n \<le> b_end b" "b_start b' + ?n \<le> b_end b'"
    using sz by (simp_all add: buf_GetSize_def)
  have "c = ip_checksum (xs @ [0, 0] @ ys) c0"
    using it_CalculateIpChecksum_ok [OF assms(1) order_refl e(1) assms(8), of c0] assms(2,3) by (simp add: buf_Begin_def)
  then have "ip_checksum (xs @ lsb16 c @ ys) c0 = 0" using checksum_inserted [OF assms(6,7)] by simp
  then show ?thesis
    using it_CalculateIpChecksum_ok [OF assms(4) order_refl e(2) assms(8), of c0] assms(5) l by (simp add: buf_Begin_def)
qed

text \<open>
  C36: the checksum detects every damaged word.  When one 16-bit word (at an even offset) of a
  packet that verifies is replaced by another value, the checksum is no longer zero, except for
  the two forms of zero of one's complement, 0 and 0xffff.  The size is a 16-bit number: the
  statement is about packets shorter than 65536 bytes, all of which are summed.
\<close>

theorem checksum_detects:
  assumes "store_ok s (add_mset b bs) X" and "buf_content s b = xs @ lsb16 u @ ys"
    and "it_CalculateIpChecksum (of_nat (length xs + 2 + length ys)) c0 (buf_Begin b) s = Some (0, i)"
    and "store_ok s' (add_mset b' bs') X'" and "buf_content s' b' = xs @ lsb16 v @ ys"
    and "u \<noteq> v" and "{u, v} \<noteq> {0, 0xffff}"
    and "even (length xs)" and "unat c0 + 65535 * ((length xs + length ys) div 2 + 3) < 2 ^ 32"
    and "length xs + 2 + length ys < 65536"
  shows "\<exists>c i'. it_CalculateIpChecksum (of_nat (length xs + 2 + length ys)) c0 (buf_Begin b') s' = Some (c, i') \<and> c \<noteq> 0"
proof -
  let ?n = "length xs + 2 + length ys"
  have l: "length (lsb16 w) = 2" for w by (simp add: lsb16_def)
  have sz: "buf_GetSize b = ?n" "buf_GetSize b' = ?n"
    using content_size [OF assms(1)] content_size [OF assms(4)] assms(2,5) l by simp_all
  have e: "b_start b + ?n \<le> b_end b" "b_start b' + ?n \<le> b_end b'"
    using sz by (simp_all add: buf_GetSize_def)
  have "ip_checksum (xs @ lsb16 u @ ys) c0 = 0"
    using it_CalculateIpChecksum_ok [OF assms(1) order_refl e(1) assms(10), of c0] assms(2,3) l by (simp add: buf_Begin_def)
  then have "ip_checksum (xs @ lsb16 v @ ys) c0 \<noteq> 0"
    using checksum_fields_agree [OF assms(8,9)] assms(6,7) by blast
  then show ?thesis
    using it_CalculateIpChecksum_ok [OF assms(4) order_refl e(2) assms(10), of c0] assms(5) l by (simp add: buf_Begin_def)
qed

text \<open>
  The fast reads are the slow reads.  On a live buffer and at any position with enough
  bytes left, whether the field lies before the zero area, after it or reaches into it,
  \<^verbatim>\<open>ReadNtohU16\<close> and \<^verbatim>\<open>ReadNtohU32\<close> return what the byte-by-byte
  versions return and leave the iterator at the same place.
\<close>

theorem fast_reads_exact:
  assumes "store_ok s (add_mset b bs) X" and "b_start b \<le> p" and "p + 4 \<le> b_end b"
  shows "it_ReadNtohU32 (it_Construct b p) s = it_SlowReadNtohU32 (it_Construct b p) s
    \<and> it_ReadNtohU16 (it_Construct b p) s = it_SlowReadNtohU16 (it_Construct b p) s
    \<and> it_ReadNtohU32 (it_Construct b p) s \<noteq> None \<and> it_ReadNtohU16 (it_Construct b p) s \<noteq> None"
  using it_ReadNtohU32_ok [OF assms] it_Read_ok [OF assms] it_ReadNtohU16_ok [OF assms(1,2)]
    it_Read_ok [OF assms(1,2), of 2] assms(3)
  by (simp add: it_SlowReadNtohU32_def it_SlowReadNtohU16_def)

theorem checksum_verifies_witness:
  "\<exists>s b c i s' b' i'. buf_content s b = [] @ [0, 0] @ replicate 10 0
     \<and> it_CalculateIpChecksum 12 0 (buf_Begin b) s = Some (c, i)
     \<and> buf_content s' b' = [] @ lsb16 c @ replicate 10 0
     \<and> it_CalculateIpChecksum 12 0 (buf_Begin b') s' = Some (0, i')"
proof (rule shared_pair, goal_cases)
  case (1 s b c)
  have lim: "buf_GetSize b + 2 + 119 < 2 ^ 32" using 1 by (simp add: buf_GetSize_def)
  obtain b1 s1 where b1: "store_ok s1 {#b1, c#} {#}" "buf_content s1 b1 = [0, 0] @ replicate 10 0"
    using add_header_ok [of s b "{#c#}" "{#}" "[0, 0]", unfolded length_two, OF 1(1) lim] 1(5) by auto
  have e1: "b_start b1 + 12 \<le> b_end b1"
    using content_size [OF b1(1)] b1(2) by (simp add: buf_GetSize_def)
  obtain k i where k: "it_CalculateIpChecksum 12 0 (buf_Begin b1) s1 = Some (k, i)"
    using it_CalculateIpChecksum_ok [OF b1(1) order_refl e1, of 0] by (simp add: buf_Begin_def)
  have l: "length (lsb16 k) = 2" by (simp add: lsb16_def)
  have "lsb16 k \<noteq> []" using l by auto
  then obtain b2 s2 where b2: "store_ok s2 {#b2, c#} {#}" "buf_content s2 b2 = lsb16 k @ replicate 10 0"
    using add_header_ok [of s b "{#c#}" "{#}" "lsb16 k", unfolded l, OF 1(1) lim] 1(5) by auto
  have "\<exists>i'. it_CalculateIpChecksum 12 0 (buf_Begin b2) s2 = Some (0, i')"
    using checksum_verifies [of s1 b1 "{#c#}" "{#}" "[]" "replicate 10 0" 0 k i s2 b2 "{#c#}" "{#}"] b1 b2 k
    by simp
  then show ?case using b1(2) b2(2) k by (simp only: append_Nil) blast
qed

theorem checksum_detects_witness:
  "\<exists>s b i s' b' c i'. buf_content s b = [] @ lsb16 0xffff @ replicate 10 0
     \<and> it_CalculateIpChecksum 12 0 (buf_Begin b) s = Some (0, i)
     \<and> buf_content s' b' = [] @ lsb16 7 @ replicate 10 0
     \<and> it_CalculateIpChecksum 12 0 (buf_Begin b') s' = Some (c, i') \<and> c \<noteq> 0"
proof (rule shared_pair, goal_cases)
  case (1 s b c)
  have lim: "buf_GetSize b + 2 + 119 < 2 ^ 32" using 1 by (simp add: buf_GetSize_def)
  have l: "length (lsb16 w) = 2" for w by simp
  obtain b1 s1 where b1: "store_ok s1 {#b1, c#} {#}" "buf_content s1 b1 = lsb16 0xffff @ replicate 10 0"
    using add_header_ok [of s b "{#c#}" "{#}" "lsb16 0xffff", unfolded l, OF 1(1) lim] 1(5) by auto
  obtain b2 s2 where b2: "store_ok s2 {#b2, c#} {#}" "buf_content s2 b2 = lsb16 7 @ replicate 10 0"
    using add_header_ok [of s b "{#c#}" "{#}" "lsb16 7", unfolded l, OF 1(1) lim] 1(5) by auto
  have e1: "b_start b1 + 12 \<le> b_end b1"
    using content_size [OF b1(1)] b1(2) l by (simp add: buf_GetSize_def)
  have z: "ip_checksum (lsb16 0xffff @ replicate 10 0) 0 = 0"
    using checksum_zero_field [of "[]" 0 "replicate 10 0" "0xffff"]
    by (simp add: fold16_def words16_zeros)
  obtain i where k: "it_CalculateIpChecksum 12 0 (buf_Begin b1) s1 = Some (0, i)"
    using it_CalculateIpChecksum_ok [OF b1(1) order_refl e1, of 0] b1(2) z l by (simp add: buf_Begin_def)
  have "\<exists>d i'. it_CalculateIpChecksum 12 0 (buf_Begin b2) s2 = Some (d, i') \<and> d \<noteq> 0"
    using checksum_detects [of s1 b1 "{#c#}" "{#}" "[]" "0xffff" "replicate 10 0" 0 i s2 b2 "{#c#}" "{#}" 7] b1 b2 k
    by (simp add: doubleton_eq_iff)
  then show ?case using b1(2) b2(2) k by (simp only: append_Nil) blast
qed

theorem fast_reads_exact_witness:
  "\<exists>s b. b_start b = 0 \<and> b_end b = 10
     \<and> it_ReadNtohU32 (it_Construct b 3) s = it_SlowReadNtohU32 (it_Construct b 3) s
     \<and> it_ReadNtohU32 (it_Construct b 3) s \<noteq> None"
proof (rule shared_pair, goal_cases)
  case (1 s b c)
  then show ?case using fast_reads_exact [of s b "{#c#}" "{#}" 3] by auto
qed

end
