(* ===== verification/Wire.thy ===== *)
theory Wire
  imports Buffer_Checksum
begin

text \<open>
  Reading protocol headers.  A header is written with a sequence of iterator writes and read
  with a sequence of iterator reads; here the reads are readers of the bytes that are left in
  the packet, and agree with the iterators on every live buffer.  The locale states the
  contract of \<^verbatim>\<open>ns3::Header\<close>; from it follows, once for all headers, that a header that
  was added to a packet is the one that is removed from it.
\<close>

type_synonym 'a reader = "u8 list \<Rightarrow> ('a \<times> u8 list) option"

definition rd_n :: "nat \<Rightarrow> u8 list reader" where
  "rd_n n bs = (if n \<le> length bs then Some (take n bs, drop n bs) else None)"

definition rdU8 :: "u8 reader" where
  "rdU8 bs = do { (x, r) \<leftarrow> rd_n 1 bs; Some (hd x, r) }"

definition rdU16 :: "u16 reader" where
  "rdU16 bs = do { (x, r) \<leftarrow> rd_n 2 bs; Some (ntoh (rev x), r) }"

definition rdNtohU16 :: "u16 reader" where
  "rdNtohU16 bs = do { (x, r) \<leftarrow> rd_n 2 bs; Some (ntoh x, r) }"

definition rdNtohU32 :: "u32 reader" where
  "rdNtohU32 bs = do { (x, r) \<leftarrow> rd_n 4 bs; Some (ntoh x, r) }"

lemma rd_written [simp]:
  "rdU8 (x # r) = Some (x, r)"
  "rdU16 (lsb16 v @ r) = Some (v, r)"
  "rdNtohU16 (hton16 v @ r) = Some (v, r)"
  "rdNtohU32 (hton32 w @ r) = Some (w, r)"
  by (simp_all add: rdU8_def rdU16_def rdNtohU16_def rdNtohU32_def rd_n_def lsb16_def)

text \<open>On a live buffer the reads of an iterator are these readers, on the bytes from its position on.\<close>

definition left_of :: "buf_store \<Rightarrow> buffer \<Rightarrow> nat \<Rightarrow> u8 list" where
  "left_of s b p = drop (p - b_start b) (buf_content s b)"

lemma live_reads:
  assumes ok: "store_ok s (add_mset b bs) X" and p: "b_start b \<le> p" "p + n \<le> b_end b"
  shows "n = 1 \<Longrightarrow> map_option (\<lambda>(x, i). (x, left_of s b (it_current i))) (it_ReadU8 (it_Construct b p) s) = rdU8 (left_of s b p)"
    and "n = 2 \<Longrightarrow> map_option (\<lambda>(x, i). (x, left_of s b (it_current i))) (it_ReadU16 (it_Construct b p) s) = rdU16 (left_of s b p)"
    and "n = 2 \<Longrightarrow> map_option (\<lambda>(x, i). (x, left_of s b (it_current i))) (it_ReadNtohU16 (it_Construct b p) s) = rdNtohU16 (left_of s b p)"
    and "n = 4 \<Longrightarrow> map_option (\<lambda>(x, i). (x, left_of s b (it_current i))) (it_ReadNtohU32 (it_Construct b p) s) = rdNtohU32 (left_of s b p)"
proof -
  have len: "p - b_start b + n \<le> length (buf_content s b)"
    using p content_size [OF ok] by (simp add: buf_GetSize_def)
  have adv: "p + n - b_start b = p - b_start b + n" using p by simp
  have rd: "rd_n n (left_of s b p) = Some (take n (left_of s b p), left_of s b (p + n))"
  proof -
    have "n \<le> length (left_of s b p)" using len by (simp add: left_of_def)
    moreover have "drop n (left_of s b p) = left_of s b (p + n)"
      unfolding left_of_def adv by (simp only: drop_drop add.commute [of n])
    ultimately show ?thesis by (simp add: rd_n_def)
  qed
  have cur: "it_current (it_Construct b k) = k" for k by (simp add: it_Construct_def)
  show "n = 1 \<Longrightarrow> map_option (\<lambda>(x, i). (x, left_of s b (it_current i))) (it_ReadU8 (it_Construct b p) s) = rdU8 (left_of s b p)"
  proof -
    assume n: "n = 1"
    have "p - b_start b < length (buf_content s b)" using len n by simp
    then have "hd (take 1 (left_of s b p)) = buf_content s b ! (p - b_start b)"
      by (simp add: left_of_def hd_drop_conv_nth)
    then show ?thesis using it_ReadU8_ok [OF ok p(1)] p(2) rd n by (simp add: rdU8_def cur)
  qed
  show "n = 2 \<Longrightarrow> map_option (\<lambda>(x, i). (x, left_of s b (it_current i))) (it_ReadU16 (it_Construct b p) s) = rdU16 (left_of s b p)"
    using it_ReadU16_ok [OF ok p(1)] p(2) rd by (simp add: rdU16_def cur) (simp add: left_of_def)
  show "n = 2 \<Longrightarrow> map_option (\<lambda>(x, i). (x, left_of s b (it_current i))) (it_ReadNtohU16 (it_Construct b p) s) = rdNtohU16 (left_of s b p)"
    using it_ReadNtohU16_ok [OF ok p(1)] p(2) rd by (simp add: rdNtohU16_def cur) (simp add: left_of_def)
  show "n = 4 \<Longrightarrow> map_option (\<lambda>(x, i). (x, left_of s b (it_current i))) (it_ReadNtohU32 (it_Construct b p) s) = rdNtohU32 (left_of s b p)"
    using it_ReadNtohU32_ok [OF ok p(1)] p(2) rd by (simp add: rdNtohU32_def cur) (simp add: left_of_def)
qed

section \<open>Headers of packets\<close>

text \<open>
  \<^verbatim>\<open>Packet::AddHeader\<close>, \<^verbatim>\<open>RemoveHeader\<close> and \<^verbatim>\<open>PeekHeader\<close>
  (src/network/model/packet.cc) on the buffer of a packet.  \<open>ser\<close> gives the bytes that the
  header writes in front of a payload and \<open>des\<close> what it reads from the bytes of a packet,
  with the number of bytes it says it took.  The tags and the metadata of the packet are not
  part of the model.
\<close>

type_synonym 'h deserializer = "u8 list \<Rightarrow> ('h \<times> nat) option"

definition pkt_AddHeader :: "nat \<Rightarrow> (u8 list \<Rightarrow> u8 list option) \<Rightarrow> buffer \<Rightarrow> buf_store \<Rightarrow> (buffer \<times> buf_store) option" where
  "pkt_AddHeader sz ser b s = do {
     (b', s1) \<leftarrow> buf_AddAtStart sz b s;
     hdr \<leftarrow> ser (buf_content s b);
     (_, s2) \<leftarrow> it_WriteU8s hdr (buf_Begin b') s1;
     Some (b', s2)
   }"

definition pkt_PeekHeader :: "'h deserializer \<Rightarrow> buffer \<Rightarrow> buf_store \<Rightarrow> ('h \<times> nat) option" where
  "pkt_PeekHeader des b s = des (buf_content s b)"

definition pkt_RemoveHeader :: "'h deserializer \<Rightarrow> buffer \<Rightarrow> buf_store \<Rightarrow> ('h \<times> nat \<times> buffer) option" where
  "pkt_RemoveHeader des b s = do {
     (h, n) \<leftarrow> pkt_PeekHeader des b s;
     b' \<leftarrow> buf_RemoveAtStart n b;
     Some (h, n, b')
   }"

text \<open>
  The contract of \<^verbatim>\<open>ns3::Header\<close>: what is written is as long as announced and reads
  back.  \<open>fit\<close> says which headers can be sent in front of a payload, \<open>result\<close> what the receiver
  gets.
\<close>

locale ns3_header =
  fixes ser :: "'h \<Rightarrow> u8 list \<Rightarrow> u8 list option"
    and des :: "'r \<Rightarrow> 'h' deserializer"
    and hsize :: "'h \<Rightarrow> nat"
    and fit :: "'h \<Rightarrow> 'r \<Rightarrow> u8 list \<Rightarrow> bool"
    and result :: "'h \<Rightarrow> 'r \<Rightarrow> u8 list \<Rightarrow> 'h'"
  assumes size_pos: "fit h r pl \<Longrightarrow> 0 < hsize h"
    and read_back: "fit h r pl \<Longrightarrow> \<exists>hdr. ser h pl = Some hdr \<and> length hdr = hsize h
      \<and> des r (hdr @ pl) = Some (result h r pl, hsize h)"
begin

lemma packet_roundtrip:
  assumes ok: "store_ok s (add_mset b bs) X" and fit: "fit h r (buf_content s b)"
    and lim: "buf_GetSize b + hsize h + 119 < 2 ^ 32"
  shows "\<exists>hdr b1 s1 b2. pkt_AddHeader (hsize h) (ser h) b s = Some (b1, s1)
    \<and> ser h (buf_content s b) = Some hdr \<and> buf_content s1 b1 = hdr @ buf_content s b
    \<and> pkt_RemoveHeader (des r) b1 s1 = Some (result h r (buf_content s b), hsize h, b2)
    \<and> store_ok s1 (add_mset b2 bs) X \<and> buf_content s1 b2 = buf_content s b
    \<and> (\<forall>c \<in># bs. buf_content s1 c = buf_content s c)"
proof -
  obtain hdr where hdr: "ser h (buf_content s b) = Some hdr" "length hdr = hsize h"
    "des r (hdr @ buf_content s b) = Some (result h r (buf_content s b), hsize h)"
    using read_back [OF fit] by blast
  then have "hdr \<noteq> []" using size_pos [OF fit] by auto
  then obtain b1 s0 i s1 where add: "buf_AddAtStart (hsize h) b s = Some (b1, s0)"
    "it_WriteU8s hdr (buf_Begin b1) s0 = Some (i, s1)" "store_ok s1 (add_mset b1 bs) X"
    "buf_content s1 b1 = hdr @ buf_content s b" "\<forall>c \<in># bs. buf_content s1 c = buf_content s c"
    using add_header_ok [OF ok, of hdr] lim by (auto simp: hdr(2))
  obtain d where "buf_wf b1 d" using store_ok_buffer [OF add(3)] by blast
  moreover have "buf_GetSize b1 = hsize h + buf_GetSize b"
    using content_size [OF add(3)] content_size [OF ok] add(4) hdr(2) by simp
  ultimately have "b_start b1 + hsize h < 2 ^ 32" by (auto simp: buf_wf_def buf_GetSize_def)
  then obtain b2 where rem: "buf_RemoveAtStart (hsize h) b1 = Some b2" "store_ok s1 (add_mset b2 bs) X"
    "buf_content s1 b2 = drop (hsize h) (buf_content s1 b1)"
    using buf_RemoveAtStart_ok [OF add(3)] by blast
  have "pkt_AddHeader (hsize h) (ser h) b s = Some (b1, s1)" using add(1,2) hdr(1) by (simp add: pkt_AddHeader_def)
  moreover have "pkt_RemoveHeader (des r) b1 s1 = Some (result h r (buf_content s b), hsize h, b2)"
    using hdr(2,3) add(4) rem(1) by (simp add: pkt_RemoveHeader_def pkt_PeekHeader_def)
  ultimately show ?thesis using add(4,5) rem(2,3) hdr(1,2) by auto
qed

end

end
