(* ===== verification/Udp_Header.thy ===== *)
theory Udp_Header
  imports Wire
begin

text \<open>
  The UDP header: \<^verbatim>\<open>ns3::UdpHeader\<close> (src/internet/model/udp-header.h, .cc), with its
  checksum over the pseudo header of the network layer, the header and the payload.
\<close>

text \<open>
  The addresses that a socket can have (\<^verbatim>\<open>ns3::Address\<close> holding an IPv4, an IPv6 or
  another address), and the bytes that \<^verbatim>\<open>WriteTo\<close> writes for them.
\<close>

datatype net_address = Ipv4 u32 | Ipv6 "u8 list" | OtherAddress "u8 list"

fun address_bytes :: "net_address \<Rightarrow> u8 list" where
  "address_bytes (Ipv4 a) = hton32 a"
| "address_bytes (Ipv6 bs) = bs"
| "address_bytes (OtherAddress bs) = bs"

record udp_header =
  udp_sourcePort :: u16
  udp_destinationPort :: u16
  udp_payloadSize :: u16
  udp_forcedPayloadSize :: u16
  udp_source :: net_address
  udp_destination :: net_address
  udp_protocol :: u8
  udp_checksum :: u16
  udp_calcChecksum :: bool
  udp_goodChecksum :: bool

text \<open>A fresh header object, and the setters.\<close>

definition UdpHeader_init :: udp_header where
  "UdpHeader_init = \<lparr>udp_sourcePort = 0xfffd, udp_destinationPort = 0xfffd, udp_payloadSize = 0,
     udp_forcedPayloadSize = 0, udp_source = OtherAddress [], udp_destination = OtherAddress [],
     udp_protocol = 17, udp_checksum = 0, udp_calcChecksum = False, udp_goodChecksum = True\<rparr>"

definition udp_EnableChecksums :: "udp_header \<Rightarrow> udp_header" where
  "udp_EnableChecksums h = h\<lparr>udp_calcChecksum := True\<rparr>"

definition udp_SetDestinationPort :: "u16 \<Rightarrow> udp_header \<Rightarrow> udp_header" where
  "udp_SetDestinationPort port h = h\<lparr>udp_destinationPort := port\<rparr>"

definition udp_SetSourcePort :: "u16 \<Rightarrow> udp_header \<Rightarrow> udp_header" where
  "udp_SetSourcePort port h = h\<lparr>udp_sourcePort := port\<rparr>"

definition udp_ForceChecksum :: "u16 \<Rightarrow> udp_header \<Rightarrow> udp_header" where
  "udp_ForceChecksum checksum h = h\<lparr>udp_checksum := checksum\<rparr>"

definition udp_ForcePayloadSize :: "u16 \<Rightarrow> udp_header \<Rightarrow> udp_header" where
  "udp_ForcePayloadSize payloadSize h = h\<lparr>udp_forcedPayloadSize := payloadSize\<rparr>"

definition udp_GetSerializedSize :: "udp_header \<Rightarrow> nat" where
  "udp_GetSerializedSize h = 8"

definition udp_InitializeChecksum :: "net_address \<Rightarrow> net_address \<Rightarrow> u8 \<Rightarrow> udp_header \<Rightarrow> udp_header" where
  "udp_InitializeChecksum source destination protocol h =
     h\<lparr>udp_source := source, udp_destination := destination, udp_protocol := protocol\<rparr>"

text \<open>
  \<^verbatim>\<open>CalculateHeaderChecksum\<close>: the sum of the pseudo header, not complemented.  Reading
  past the bytes that were written into the scratch buffer, which needs two addresses of
  different families, is \<open>None\<close>.
\<close>

definition udp_CalculateHeaderChecksum :: "u16 \<Rightarrow> udp_header \<Rightarrow> u16 option" where
  "udp_CalculateHeaderChecksum sz h = do {
     let addrs = address_bytes (udp_source h) @ address_bytes (udp_destination h);
     let (bytes, hdrSize) = (case udp_source h of
         Ipv4 _ \<Rightarrow> (addrs @ [0, udp_protocol h, ucast (drop_bit 8 sz), ucast sz], 12)
       | Ipv6 _ \<Rightarrow> (addrs @ lsb16 0 @ [ucast (drop_bit 8 sz), ucast sz] @ lsb16 0 @ [0, udp_protocol h], 40)
       | OtherAddress _ \<Rightarrow> (addrs, 0));
     ns_assert (hdrSize \<le> length bytes);
     Some (NOT (ip_checksum (take hdrSize bytes) 0))
   }"

text \<open>The bytes written in front of the payload \<open>pl\<close>; sizes are cut to 16 bits as in the code.\<close>

definition udp_Serialize :: "udp_header \<Rightarrow> u8 list \<Rightarrow> u8 list option" where
  "udp_Serialize h pl =
     (let total = 8 + length pl;
          ports = hton16 (udp_sourcePort h) @ hton16 (udp_destinationPort h)
            @ hton16 (if udp_forcedPayloadSize h = 0 then of_nat total else udp_forcedPayloadSize h)
      in if udp_checksum h = 0
         then if udp_calcChecksum h
           then do {
             headerChecksum \<leftarrow> udp_CalculateHeaderChecksum (of_nat total) h;
             let checksum = ip_checksum (take (total mod 65536) (ports @ [0, 0] @ pl)) (ucast headerChecksum);
             let checksum = (if checksum = 0 then 0xffff else checksum);
             Some (ports @ lsb16 checksum)
           }
           else Some (ports @ lsb16 0)
         else Some (ports @ lsb16 (udp_checksum h)))"

text \<open>Reading into the header object \<open>r\<close> of the receiver.\<close>

definition udp_Deserialize :: "udp_header \<Rightarrow> udp_header deserializer" where
  "udp_Deserialize r bs = do {
     (sp, a) \<leftarrow> rdNtohU16 bs;
     (dp, a) \<leftarrow> rdNtohU16 a;
     (len, a) \<leftarrow> rdNtohU16 a;
     (ck, a) \<leftarrow> rdU16 a;
     let h = r\<lparr>udp_sourcePort := sp, udp_destinationPort := dp,
               udp_payloadSize := len - of_nat (udp_GetSerializedSize r), udp_checksum := ck\<rparr>;
     h \<leftarrow> (if udp_calcChecksum r \<and> ck \<noteq> 0
           then do {
             headerChecksum \<leftarrow> udp_CalculateHeaderChecksum (of_nat (length bs)) h;
             let checksum = ip_checksum (take (length bs mod 65536) bs) (ucast headerChecksum);
             Some (h\<lparr>udp_goodChecksum := (checksum = 0)\<rparr>)
           }
           else Some h);
     Some (h, udp_GetSerializedSize h)
   }"

section \<open>What the receiver gets\<close>

text \<open>A sent header that asks for a checksum, and a receiver that checks it over the same addresses.\<close>

definition udp_fit :: "udp_header \<Rightarrow> udp_header \<Rightarrow> u8 list \<Rightarrow> bool" where
  "udp_fit h r pl \<longleftrightarrow> udp_calcChecksum h \<and> udp_checksum h = 0 \<and> udp_forcedPayloadSize h = 0
     \<and> udp_calcChecksum r \<and> udp_source r = udp_source h \<and> udp_destination r = udp_destination h
     \<and> udp_protocol r = udp_protocol h \<and> udp_CalculateHeaderChecksum (of_nat (8 + length pl)) h \<noteq> None
     \<and> 8 + length pl < 65536"

lemma fold16_add_ones:
  assumes "fold16 n = 65535"
  shows "fold16 (n + 65535) = 65535"
proof (cases n)
  case (Suc m)
  then show ?thesis using assms by (simp add: fold16_def)
qed (use assms in \<open>simp add: fold16_def\<close>)

text \<open>Sending all ones for a zero checksum does not disturb the receiver.\<close>

lemma checksum_inserted_udp:
  assumes "even (length xs)" and "unat c0 + 65535 * ((length xs + length ys) div 2 + 3) < 2 ^ 32"
    and "c = ip_checksum (xs @ [0, 0] @ ys) c0"
  shows "ip_checksum (xs @ lsb16 (if c = 0 then 0xffff else c) @ ys) c0 = 0"
proof (cases "c = 0")
  case False
  then show ?thesis using checksum_inserted [OF assms(1,2)] assms(3) by simp
next
  case True
  have l: "length (lsb16 0xffff) = 2" by (simp add: lsb16_def)
  have w0: "words16 (xs @ [0, 0] @ ys) = words16 xs + words16 ys"
    using assms(1) words16_append [of "[0, 0]" ys] words16_zero by (simp only: words16_append) simp
  have w1: "words16 (xs @ lsb16 0xffff @ ys) = words16 xs + 65535 + words16 ys"
    using assms(1) l by (simp add: words16_append words16_lsb16)
  have b: "unat c0 + words16 xs + words16 ys + 65535 < 2 ^ 32"
    using assms(2) words16_pair_bound [of xs ys] by simp
  let ?n = "unat c0 + words16 xs + words16 ys"
  have s0: "unat (sum16 (xs @ [0, 0] @ ys) c0) = ?n" using b w0 by (subst unat_sum16) linarith+
  have s1: "unat (sum16 (xs @ lsb16 0xffff @ ys) c0) = ?n + 65535" using b w1 by (subst unat_sum16) linarith+
  have "unat c = 65535 - fold16 ?n" using unat_ip_checksum [of "xs @ [0, 0] @ ys" c0] s0 assms(3) by (simp only:)
  then have "65535 - fold16 ?n = 0" using True by simp
  then have f: "fold16 ?n = 65535" using fold16_le [of ?n] by linarith
  then have "fold16 (?n + 65535) = 65535" by (rule fold16_add_ones)
  then have "unat (ip_checksum (xs @ lsb16 0xffff @ ys) c0) = 0" by (simp only: unat_ip_checksum s1 diff_self_eq_0)
  then show ?thesis using True by (simp add: unat_eq_0)
qed

definition udp_result :: "udp_header \<Rightarrow> udp_header \<Rightarrow> u8 list \<Rightarrow> udp_header" where
  "udp_result h r pl =
     r\<lparr>udp_sourcePort := udp_sourcePort h, udp_destinationPort := udp_destinationPort h,
       udp_payloadSize := of_nat (length pl),
       udp_checksum := (case udp_Serialize h pl of Some hdr \<Rightarrow> ntoh (rev (drop 6 hdr)) | None \<Rightarrow> 0),
       udp_goodChecksum := True\<rparr>"

lemma udp_header_checksum_cong:
  assumes "udp_source r = udp_source h" and "udp_destination r = udp_destination h"
    and "udp_protocol r = udp_protocol h"
  shows "udp_CalculateHeaderChecksum sz r = udp_CalculateHeaderChecksum sz h"
  using assms by (simp only: udp_CalculateHeaderChecksum_def)

lemma udp_read_back:
  assumes fit: "udp_fit h r pl"
  shows "\<exists>hdr. udp_Serialize h pl = Some hdr \<and> length hdr = udp_GetSerializedSize h
    \<and> udp_Deserialize r (hdr @ pl) = Some (udp_result h r pl, udp_GetSerializedSize h)"
proof -
  let ?sz = "of_nat (8 + length pl) :: u16"
  let ?p = "hton16 (udp_sourcePort h) @ hton16 (udp_destinationPort h) @ hton16 ?sz"
  obtain hc where hc: "udp_CalculateHeaderChecksum ?sz h = Some hc" and len: "8 + length pl < 65536"
    using fit by (auto simp: udp_fit_def)
  define c where "c = ip_checksum (?p @ [0, 0] @ pl) (ucast hc)"
  define c' :: u16 where "c' = (if c = 0 then 0xffff else c)"
  let ?hdr = "?p @ lsb16 c'"
  have ev: "even (length ?p)" and lp: "length ?p = 6" by simp_all
  have "unat (ucast hc :: u32) < 65536" using unsigned_less [of hc, where ?'a = nat]
    by (simp add: unsigned_ucast_eq le_less_trans [OF take_bit_nat_less_eq_self])
  moreover have "(length ?p + length pl) div 2 \<le> 32768" using lp len by linarith
  ultimately have b: "unat (ucast hc :: u32) + 65535 * ((length ?p + length pl) div 2 + 3) < 2 ^ 32" by simp
  have good: "ip_checksum (?p @ lsb16 c' @ pl) (ucast hc) = 0"
    unfolding c'_def by (rule checksum_inserted_udp [OF ev b c_def])
  have tk: "take ((8 + length pl) mod 65536) (?p @ x @ pl) = ?p @ x @ pl" if "length x = 2" for x
    using that len by simp
  have ser: "udp_Serialize h pl = Some ?hdr"
    using fit hc tk [of "[0, 0]"] unfolding udp_fit_def udp_Serialize_def Let_def c'_def c_def by simp
  have nz: "c' \<noteq> 0" by (simp add: c'_def)
  have dr: "drop 6 ?hdr = lsb16 c'" using lp by (metis append_eq_conv_conj)
  have sz: "?sz - of_nat (udp_GetSerializedSize r) = of_nat (length pl)" by (simp add: udp_GetSerializedSize_def)
  have res: "udp_result h r pl = r\<lparr>udp_sourcePort := udp_sourcePort h, udp_destinationPort := udp_destinationPort h,
       udp_payloadSize := of_nat (length pl), udp_checksum := c', udp_goodChecksum := True\<rparr>"
    unfolding udp_result_def ser option.case dr by (simp add: lsb16_def)
  have hck: "udp_CalculateHeaderChecksum (of_nat (length (?hdr @ pl)))
      (r\<lparr>udp_sourcePort := a1, udp_destinationPort := a2, udp_payloadSize := a3, udp_checksum := a4\<rparr>) = Some hc"
    for a1 a2 a3 a4
    using fit hc udp_header_checksum_cong [of "r\<lparr>udp_sourcePort := a1, udp_destinationPort := a2,
      udp_payloadSize := a3, udp_checksum := a4\<rparr>" h] by (simp add: udp_fit_def)
  have "udp_Deserialize r (?hdr @ pl) = Some (udp_result h r pl, udp_GetSerializedSize h)"
    using fit nz good sz tk [of "lsb16 c'"] hck res
    unfolding udp_Deserialize_def Let_def udp_fit_def by (simp add: udp_GetSerializedSize_def)
  moreover have "length ?hdr = udp_GetSerializedSize h" using lp by (simp add: udp_GetSerializedSize_def)
  ultimately show ?thesis using ser by blast
qed

interpretation udp: ns3_header udp_Serialize udp_Deserialize udp_GetSerializedSize udp_fit udp_result
  by unfold_locales (use udp_read_back in \<open>auto simp: udp_GetSerializedSize_def\<close>)

text \<open>
  C26: a UDP datagram that is sent with checksums is received as it was sent.  The header that is
  removed has the ports of the sent one, the length of the payload and a good checksum; the
  payload is what remains of the packet; no other packet changes.  \<open>udp_fit\<close> asks that both ends
  compute the checksum over the same addresses and that the datagram has at most 65535 bytes.
\<close>

theorem udp_roundtrip:
  assumes "store_ok s (add_mset b bs) X" and "udp_fit h r (buf_content s b)"
  shows "\<exists>b1 s1 h' b2. pkt_AddHeader (udp_GetSerializedSize h) (udp_Serialize h) b s = Some (b1, s1)
    \<and> pkt_RemoveHeader (udp_Deserialize r) b1 s1 = Some (h', 8, b2)
    \<and> udp_sourcePort h' = udp_sourcePort h \<and> udp_destinationPort h' = udp_destinationPort h
    \<and> unat (udp_payloadSize h') = buf_GetSize b \<and> udp_goodChecksum h'
    \<and> buf_content s1 b2 = buf_content s b \<and> (\<forall>c \<in># bs. buf_content s1 c = buf_content s c)"
proof -
  have len: "8 + buf_GetSize b < 65536"
    using assms(2) content_size [OF assms(1)] by (simp add: udp_fit_def)
  then have "buf_GetSize b + udp_GetSerializedSize h + 119 < 2 ^ 32" by (simp add: udp_GetSerializedSize_def)
  from udp.packet_roundtrip [OF assms this] obtain b1 s1 b2 where
    rt: "pkt_AddHeader (udp_GetSerializedSize h) (udp_Serialize h) b s = Some (b1, s1)"
      "pkt_RemoveHeader (udp_Deserialize r) b1 s1
        = Some (udp_result h r (buf_content s b), udp_GetSerializedSize h, b2)"
      "buf_content s1 b2 = buf_content s b" "\<forall>c \<in># bs. buf_content s1 c = buf_content s c" by blast
  have "unat (udp_payloadSize (udp_result h r (buf_content s b))) = buf_GetSize b"
    using len content_size [OF assms(1)] by (simp add: udp_result_def unat_of_nat)
  then show ?thesis using rt by (simp add: udp_GetSerializedSize_def udp_result_def)
qed

theorem udp_roundtrip_witness:
  "\<exists>s b h r b1 s1 h' b2. udp_sourcePort h = 4000 \<and> buf_content s b = replicate 10 0
    \<and> pkt_AddHeader 8 (udp_Serialize h) b s = Some (b1, s1)
    \<and> pkt_RemoveHeader (udp_Deserialize r) b1 s1 = Some (h', 8, b2)
    \<and> udp_sourcePort h' = 4000 \<and> udp_goodChecksum h' \<and> buf_content s1 b2 = replicate 10 0"
proof (rule shared_pair, goal_cases)
  case (1 s b c)
  let ?r = "udp_InitializeChecksum (Ipv4 0x0a000001) (Ipv4 0x0a000002) 17 (udp_EnableChecksums UdpHeader_init)"
  let ?h = "udp_SetSourcePort 4000 ?r"
  have "udp_fit ?h ?r (replicate 10 0)"
    by (simp add: udp_fit_def udp_SetSourcePort_def udp_InitializeChecksum_def udp_EnableChecksums_def
        UdpHeader_init_def udp_CalculateHeaderChecksum_def)
  then have "\<exists>b1 s1 h' b2. pkt_AddHeader 8 (udp_Serialize ?h) b s = Some (b1, s1)
    \<and> pkt_RemoveHeader (udp_Deserialize ?r) b1 s1 = Some (h', 8, b2)
    \<and> udp_sourcePort h' = udp_sourcePort ?h \<and> udp_goodChecksum h' \<and> buf_content s1 b2 = replicate 10 0"
    using udp_roundtrip [of s b "{#c#}" "{#}" ?h ?r] 1 unfolding udp_GetSerializedSize_def by fastforce
  moreover have "udp_sourcePort ?h = 4000" by (simp add: udp_SetSourcePort_def)
  ultimately show ?case using 1(5) by metis
qed

end
