(* ===== verification/Ipv4_Address.thy ===== *)
theory Ipv4_Address
  imports Prelude
begin

text \<open>
  IPv4 addresses and masks (\<^verbatim>\<open>Ipv4Address\<close>, \<^verbatim>\<open>Ipv4Mask\<close>, src/network/utils/ipv4-address.h, .cc)
  and the addresses of an interface (\<^verbatim>\<open>Ipv4InterfaceAddress\<close>,
  src/internet/model/ipv4-interface-address.h, .cc).  An address and a mask are the 32-bit words
  that they hold; the flag that marks an address as set is kept only where the code reads it.
\<close>

unbundle bit_operations_syntax

section \<open>Definitions\<close>

definition mask_IsMatch :: "u32 \<Rightarrow> u32 \<Rightarrow> u32 \<Rightarrow> bool" where
  "mask_IsMatch m a b \<longleftrightarrow> a AND m = b AND m"

definition mask_GetInverse :: "u32 \<Rightarrow> u32" where
  "mask_GetInverse m = NOT m"

definition Ipv4Mask_init :: u32 where
  "Ipv4Mask_init = 0x66666666"

definition mask_GetLoopback :: u32 where
  "mask_GetLoopback = 0xff000000"

definition mask_GetZero :: u32 where
  "mask_GetZero = 0"

definition mask_GetOnes :: u32 where
  "mask_GetOnes = 0xffffffff"

text \<open>\<^verbatim>\<open>GetPrefixLength\<close> shifts the mask to the left until nothing is left of it.\<close>

definition from_lowest :: "u32 \<Rightarrow> nat set" where
  "from_lowest m = {n. n < 32 \<and> (\<exists>k \<le> n. bit m k)}"

lemma from_lowest_shift: "from_lowest (push_bit 1 m) = Suc ` (from_lowest m - {31})"
proof (rule set_eqI)
  fix n
  have shifted: "bit (push_bit 1 m) k \<longleftrightarrow> 1 \<le> k \<and> k < 32 \<and> bit m (k - 1)" for k
    using bit_imp_le_length [of m "k - 1"] by (auto simp only: bit_push_bit_iff possible_bit_word) simp_all
  have "(\<exists>k \<le> n. bit (push_bit 1 m) k) \<longleftrightarrow> (\<exists>j. Suc j \<le> n \<and> Suc j < 32 \<and> bit m j)"
    unfolding shifted by (metis Suc_le_D diff_Suc_1 le_add1 One_nat_def plus_1_eq_Suc)
  then have "n \<in> from_lowest (push_bit 1 m) \<longleftrightarrow> n < 32 \<and> (\<exists>j. Suc j \<le> n \<and> Suc j < 32 \<and> bit m j)"
    by (simp only: from_lowest_def mem_Collect_eq)
  also have "\<dots> \<longleftrightarrow> (\<exists>i. n = Suc i \<and> i < 31 \<and> (\<exists>j \<le> i. bit m j))" by (cases n) auto
  also have "\<dots> \<longleftrightarrow> n \<in> Suc ` (from_lowest m - {31})" by (auto simp: from_lowest_def)
  finally show "n \<in> from_lowest (push_bit 1 m) \<longleftrightarrow> n \<in> Suc ` (from_lowest m - {31})" .
qed

lemma from_lowest_card:
  assumes "m \<noteq> 0"
  shows "card (from_lowest m) = Suc (card (from_lowest (push_bit 1 m)))"
proof -
  obtain k where k: "bit m k" using assms by (metis bit_eq_iff bit_0_eq bot_apply bot_bool_def)
  then have "k < 32" using bit_imp_le_length [OF k] by simp
  then have "31 \<in> from_lowest m" using k by (auto simp: from_lowest_def intro: exI [of _ k])
  moreover have "finite (from_lowest m)" by (simp add: from_lowest_def)
  ultimately have "card (from_lowest m) = Suc (card (from_lowest m - {31}))" by (rule card.remove [rotated])
  then show ?thesis by (simp only: from_lowest_shift card_image [OF inj_on_subset [OF inj_Suc subset_UNIV]])
qed

lemma shift_decreases: "m \<noteq> 0 \<Longrightarrow> card (from_lowest (push_bit 1 m)) < card (from_lowest m)"
  using from_lowest_card [of m] by linarith

function prefix_loop :: "u32 \<Rightarrow> u16 \<Rightarrow> u16" where
  "prefix_loop m tmp = (if m \<noteq> 0 then prefix_loop (push_bit 1 m) (tmp + 1) else tmp)"
  by pat_completeness auto
termination
  by (relation "measure (\<lambda>(m, tmp). card (from_lowest m))")
     (simp_all only: wf_measure in_measure split_conv shift_decreases not_False_eq_True)

declare prefix_loop.simps [simp del]

definition mask_GetPrefixLength :: "u32 \<Rightarrow> u16" where
  "mask_GetPrefixLength m = prefix_loop m 0"

definition UNINITIALIZED :: u32 where
  "UNINITIALIZED = 0x66666666"

definition addr_CombineMask :: "u32 \<Rightarrow> u32 \<Rightarrow> u32" where
  "addr_CombineMask m a = a AND m"

definition addr_GetSubnetDirectedBroadcast :: "u32 \<Rightarrow> u32 \<Rightarrow> u32 option" where
  "addr_GetSubnetDirectedBroadcast m a = do {
     ns_assert (m \<noteq> mask_GetOnes);
     Some (a OR mask_GetInverse m)
   }"

definition addr_GetZero :: u32 where
  "addr_GetZero = 0"

definition addr_GetAny :: u32 where
  "addr_GetAny = 0"

definition addr_GetBroadcast :: u32 where
  "addr_GetBroadcast = 0xffffffff"

definition addr_GetLoopback :: u32 where
  "addr_GetLoopback = 0x7f000001"

definition addr_IsSubnetDirectedBroadcast :: "u32 \<Rightarrow> u32 \<Rightarrow> bool" where
  "addr_IsSubnetDirectedBroadcast m a \<longleftrightarrow> m \<noteq> mask_GetOnes \<and> a OR m = addr_GetBroadcast"

definition addr_IsAny :: "u32 \<Rightarrow> bool" where
  "addr_IsAny a \<longleftrightarrow> a = 0"

definition addr_IsLocalhost :: "u32 \<Rightarrow> bool" where
  "addr_IsLocalhost a \<longleftrightarrow> a = 0x7f000001"

definition addr_IsBroadcast :: "u32 \<Rightarrow> bool" where
  "addr_IsBroadcast a \<longleftrightarrow> a = 0xffffffff"

definition addr_IsMulticast :: "u32 \<Rightarrow> bool" where
  "addr_IsMulticast a \<longleftrightarrow> a \<ge> 0xe0000000 \<and> a \<le> 0xefffffff"

definition addr_IsLocalMulticast :: "u32 \<Rightarrow> bool" where
  "addr_IsLocalMulticast a \<longleftrightarrow> a AND 0xffffff00 = 0xe0000000"

definition addr_Serialize :: "u32 \<Rightarrow> u8 list" where
  "addr_Serialize a = [ucast (drop_bit 24 a AND 0xff), ucast (drop_bit 16 a AND 0xff),
     ucast (drop_bit 8 a AND 0xff), ucast (a AND 0xff)]"

text \<open>The shifts and disjunctions of \<^verbatim>\<open>Deserialize\<close>, byte after byte.\<close>

definition addr_Deserialize :: "u8 \<Rightarrow> u8 \<Rightarrow> u8 \<Rightarrow> u8 \<Rightarrow> u32" where
  "addr_Deserialize b0 b1 b2 b3 =
     push_bit 8 (push_bit 8 (push_bit 8 (0 OR ucast b0) OR ucast b1) OR ucast b2) OR ucast b3"

datatype addr_scope = HOST | LINK | GLOBAL

text \<open>The numbers of the enumeration, which the code compares.\<close>

primrec scope_num :: "addr_scope \<Rightarrow> nat" where
  "scope_num HOST = 0"
| "scope_num LINK = 1"
| "scope_num GLOBAL = 2"

record iface_addr =
  ia_local :: u32
  ia_mask :: u32
  ia_broadcast :: u32
  ia_scope :: addr_scope
  ia_secondary :: bool

text \<open>The two constructors: without arguments every address is unset.\<close>

definition Ipv4InterfaceAddress_init :: iface_addr where
  "Ipv4InterfaceAddress_init = \<lparr>ia_local = UNINITIALIZED, ia_mask = Ipv4Mask_init, ia_broadcast = UNINITIALIZED,
     ia_scope = GLOBAL, ia_secondary = False\<rparr>"

definition ia_new :: "u32 \<Rightarrow> u32 \<Rightarrow> iface_addr" where
  "ia_new loc m = \<lparr>ia_local = loc, ia_mask = m, ia_broadcast = loc OR NOT m,
     ia_scope = (if loc = addr_GetLoopback then HOST else GLOBAL), ia_secondary = False\<rparr>"

definition ia_IsInSameSubnet :: "u32 \<Rightarrow> iface_addr \<Rightarrow> bool" where
  "ia_IsInSameSubnet b ia \<longleftrightarrow> addr_CombineMask (ia_mask ia) (ia_local ia) = addr_CombineMask (ia_mask ia) b"

section \<open>Masks of a prefix length\<close>

text \<open>\<open>net_mask n\<close> is the mask written \<open>/n\<close>, as the constructor from a string computes it.\<close>

definition net_mask :: "nat \<Rightarrow> u32" where
  "net_mask n = (if n > 0 then push_bit (32 - n) 0xffffffff else 0)"

lemma bit_ones: "bit (0xffffffff :: u32) i \<longleftrightarrow> i < 32"
proof -
  have "(0xffffffff :: u32) = - 1" by simp
  then show ?thesis by (simp only: bit_minus_1_iff possible_bit_word) simp
qed

lemma bit_net_mask: "n \<le> 32 \<Longrightarrow> bit (net_mask n) i \<longleftrightarrow> 32 - n \<le> i \<and> i < 32"
  using bit_ones [of "i + n - 32"] by (auto simp: net_mask_def bit_push_bit_iff)

lemma net_mask_ends [simp]: "net_mask 0 = 0" "net_mask 32 = 0xffffffff"
  by (simp_all add: net_mask_def)

lemma net_mask_shift: "n < 32 \<Longrightarrow> push_bit 1 (net_mask (Suc n)) = net_mask n"
  by (rule bit_word_eqI) (auto simp: bit_push_bit_iff bit_net_mask simp del: push_bit_of_1 push_bit_Suc)

lemma net_mask_nonzero: "n < 32 \<Longrightarrow> net_mask (Suc n) \<noteq> 0"
  using bit_net_mask [of "Suc n" 31] by auto

lemma prefix_loop_net_mask: "n \<le> 32 \<Longrightarrow> prefix_loop (net_mask n) tmp = tmp + of_nat n"
proof (induction n arbitrary: tmp)
  case 0
  then show ?case by (simp add: prefix_loop.simps)
next
  case (Suc n)
  then have "prefix_loop (net_mask (Suc n)) tmp = prefix_loop (net_mask n) (tmp + 1)"
    using net_mask_nonzero [of n] net_mask_shift [of n] by (simp add: prefix_loop.simps [of "net_mask (Suc n)"])
  then show ?case using Suc by simp
qed

lemma GetPrefixLength_net_mask: "n \<le> 32 \<Longrightarrow> unat (mask_GetPrefixLength (net_mask n)) = n"
  by (simp add: mask_GetPrefixLength_def prefix_loop_net_mask unat_of_nat)

text \<open>A prefix of \<open>n\<close> bits matches when the upper \<open>n\<close> bits are equal.\<close>

lemma IsMatch_net_mask:
  assumes "n \<le> 32"
  shows "mask_IsMatch (net_mask n) a b \<longleftrightarrow> drop_bit (32 - n) a = drop_bit (32 - n) b"
proof -
  have "mask_IsMatch (net_mask n) a b \<longleftrightarrow> (\<forall>i. 32 - n \<le> i \<and> i < 32 \<longrightarrow> bit a i = bit b i)"
    unfolding mask_IsMatch_def using assms by (auto simp: bit_eq_iff bit_simps bit_net_mask)
  also have "\<dots> \<longleftrightarrow> (\<forall>i. bit (drop_bit (32 - n) a) i = bit (drop_bit (32 - n) b) i)"
  proof safe
    fix i assume "\<forall>i. 32 - n \<le> i \<and> i < 32 \<longrightarrow> bit a i = bit b i" "bit (drop_bit (32 - n) a) i"
    then show "bit (drop_bit (32 - n) b) i"
      using bit_imp_le_length [of a "32 - n + i"] by (simp add: bit_simps)
  next
    fix i assume "\<forall>i. 32 - n \<le> i \<and> i < 32 \<longrightarrow> bit a i = bit b i" "bit (drop_bit (32 - n) b) i"
    then show "bit (drop_bit (32 - n) a) i"
      using bit_imp_le_length [of b "32 - n + i"] by (simp add: bit_simps)
  next
    fix i assume *: "\<forall>i. bit (drop_bit (32 - n) a) i = bit (drop_bit (32 - n) b) i" "32 - n \<le> i" "i < 32" "bit a i"
    then show "bit b i" using spec [OF *(1), of "i - (32 - n)"] by (simp add: bit_simps)
  next
    fix i assume *: "\<forall>i. bit (drop_bit (32 - n) a) i = bit (drop_bit (32 - n) b) i" "32 - n \<le> i" "i < 32" "bit b i"
    then show "bit a i" using spec [OF *(1), of "i - (32 - n)"] by (simp add: bit_simps)
  qed
  finally show ?thesis by (simp only: bit_eq_iff possible_bit_word)
     (metis bit_imp_le_length)
qed

text \<open>For every mask the prefix length is at most 32, and 0 for the empty mask only.\<close>

lemma prefix_loop_card: "prefix_loop m tmp = tmp + of_nat (card (from_lowest m))"
proof (induction m tmp rule: prefix_loop.induct)
  case (1 m tmp)
  show ?case
  proof (cases "m = 0")
    case True
    then show ?thesis by (simp add: prefix_loop.simps from_lowest_def)
  next
    case False
    then have "prefix_loop m tmp = prefix_loop (push_bit 1 m) (tmp + 1)" by (subst prefix_loop.simps) (simp only: if_True not_False_eq_True)
    then show ?thesis using 1 [OF False] from_lowest_card [OF False] by (simp only: of_nat_Suc add_ac)
  qed
qed

lemma from_lowest_bound: "card (from_lowest m) \<le> 32"
  using card_mono [of "{..< 32}" "from_lowest m"] by (auto simp: from_lowest_def)

lemma unat_prefix: "unat (mask_GetPrefixLength m) = card (from_lowest m)"
  using from_lowest_bound [of m] by (simp add: mask_GetPrefixLength_def prefix_loop_card unat_of_nat)

lemma prefix_le_32: "unat (mask_GetPrefixLength m) \<le> 32"
  using from_lowest_bound [of m] by (simp only: unat_prefix)

end
