(* ===== verification/Ipv4_Interfaces.thy ===== *)
theory Ipv4_Interfaces
  imports Ipv4_Address
begin

text \<open>
  The interfaces of a node: \<^verbatim>\<open>Ipv4Interface\<close> (src/internet/model/ipv4-interface.h, .cc) and the
  operations of \<^verbatim>\<open>Ipv4L3Protocol\<close> on its interfaces and their addresses
  (src/internet/model/ipv4-l3-protocol.cc).  A device is a pointer; interface numbers are read
  as natural numbers.  \<open>None\<close> is the use of an interface that does not exist (a null pointer) or
  the \<^verbatim>\<open>NS_FATAL_ERROR\<close> of an address that does not exist.
\<close>

section \<open>Interfaces\<close>

record ipv4_interface =
  if_ifup :: bool
  if_forwarding :: bool
  if_metric :: u16
  if_device :: ptr
  if_ifaddrs :: "iface_addr list"

definition Ipv4Interface_init :: ipv4_interface where
  "Ipv4Interface_init = \<lparr>if_ifup = False, if_forwarding = True, if_metric = 1, if_device = nullptr, if_ifaddrs = []\<rparr>"

definition if_SetDevice :: "ptr \<Rightarrow> ipv4_interface \<Rightarrow> ipv4_interface" where
  "if_SetDevice device f = f\<lparr>if_device := device\<rparr>"

definition if_SetMetric :: "u16 \<Rightarrow> ipv4_interface \<Rightarrow> ipv4_interface" where
  "if_SetMetric metric f = f\<lparr>if_metric := metric\<rparr>"

definition if_SetUp :: "ipv4_interface \<Rightarrow> ipv4_interface" where
  "if_SetUp f = f\<lparr>if_ifup := True\<rparr>"

definition if_SetDown :: "ipv4_interface \<Rightarrow> ipv4_interface" where
  "if_SetDown f = f\<lparr>if_ifup := False\<rparr>"

definition if_SetForwarding :: "bool \<Rightarrow> ipv4_interface \<Rightarrow> ipv4_interface" where
  "if_SetForwarding val f = f\<lparr>if_forwarding := val\<rparr>"

definition if_GetNAddresses :: "ipv4_interface \<Rightarrow> nat" where
  "if_GetNAddresses f = length (if_ifaddrs f)"

definition if_AddAddress :: "iface_addr \<Rightarrow> ipv4_interface \<Rightarrow> ipv4_interface" where
  "if_AddAddress a f = f\<lparr>if_ifaddrs := if_ifaddrs f @ [a]\<rparr>"

definition if_GetAddress :: "nat \<Rightarrow> ipv4_interface \<Rightarrow> iface_addr option" where
  "if_GetAddress index f = (if index < length (if_ifaddrs f) then Some (if_ifaddrs f ! index) else None)"

definition if_RemoveAddress_at :: "nat \<Rightarrow> ipv4_interface \<Rightarrow> (iface_addr \<times> ipv4_interface) option" where
  "if_RemoveAddress_at index f =
     (if index \<ge> length (if_ifaddrs f) then None
      else Some (if_ifaddrs f ! index,
        f\<lparr>if_ifaddrs := take index (if_ifaddrs f) @ drop (Suc index) (if_ifaddrs f)\<rparr>))"

text \<open>The first address that is equal is removed.\<close>

fun addr_erase :: "u32 \<Rightarrow> iface_addr list \<Rightarrow> (iface_addr \<times> iface_addr list) option" where
  "addr_erase address [] = None"
| "addr_erase address (a # r) =
     (if ia_local a = address then Some (a, r)
      else map_option (\<lambda>(b, r'). (b, a # r')) (addr_erase address r))"

definition if_RemoveAddress :: "u32 \<Rightarrow> ipv4_interface \<Rightarrow> iface_addr \<times> ipv4_interface" where
  "if_RemoveAddress address f =
     (if address = addr_GetLoopback then (Ipv4InterfaceAddress_init, f)
      else case addr_erase address (if_ifaddrs f) of
        Some (a, r) \<Rightarrow> (a, f\<lparr>if_ifaddrs := r\<rparr>)
      | None \<Rightarrow> (Ipv4InterfaceAddress_init, f))"

section \<open>The interfaces of the protocol object\<close>

record l3_ifs =
  l3_interfaces :: "ipv4_interface list"
  l3_reverse :: "ptr \<rightharpoonup> nat"
  l3_ipForward :: bool
  l3_strongEndSystemModel :: bool

definition l3_AddIpv4Interface :: "ipv4_interface \<Rightarrow> l3_ifs \<Rightarrow> nat \<times> l3_ifs" where
  "l3_AddIpv4Interface f st =
     (let index = length (l3_interfaces st) in
      (index, st\<lparr>l3_interfaces := l3_interfaces st @ [f], l3_reverse := (l3_reverse st)(if_device f \<mapsto> index)\<rparr>))"

definition l3_AddInterface :: "ptr \<Rightarrow> l3_ifs \<Rightarrow> nat \<times> l3_ifs" where
  "l3_AddInterface device st =
     l3_AddIpv4Interface (if_SetForwarding (l3_ipForward st) (if_SetDevice device Ipv4Interface_init)) st"

definition l3_GetInterface :: "nat \<Rightarrow> l3_ifs \<Rightarrow> ipv4_interface option" where
  "l3_GetInterface index st =
     (if index < length (l3_interfaces st) then Some (l3_interfaces st ! index) else None)"

definition l3_GetNInterfaces :: "l3_ifs \<Rightarrow> nat" where
  "l3_GetNInterfaces st = length (l3_interfaces st)"

text \<open>A change of one interface.\<close>

definition l3_on :: "nat \<Rightarrow> (ipv4_interface \<Rightarrow> ipv4_interface) \<Rightarrow> l3_ifs \<Rightarrow> l3_ifs option" where
  "l3_on i g st = do {
     f \<leftarrow> l3_GetInterface i st;
     Some (st\<lparr>l3_interfaces := (l3_interfaces st)[i := g f]\<rparr>)
   }"

text \<open>
  The number of the first interface with an address of a kind; \<open>None\<close> stands for the result
  -1 of the search.
\<close>

fun iface_with :: "(iface_addr \<Rightarrow> bool) \<Rightarrow> nat \<Rightarrow> ipv4_interface list \<Rightarrow> nat option" where
  "iface_with P interface [] = None"
| "iface_with P interface (f # r) =
     (if list_ex P (if_ifaddrs f) then Some interface else iface_with P (Suc interface) r)"

definition l3_GetInterfaceForAddress :: "u32 \<Rightarrow> l3_ifs \<Rightarrow> nat option" where
  "l3_GetInterfaceForAddress address st = iface_with (\<lambda>a. ia_local a = address) 0 (l3_interfaces st)"

definition l3_GetInterfaceForPrefix :: "u32 \<Rightarrow> u32 \<Rightarrow> l3_ifs \<Rightarrow> nat option" where
  "l3_GetInterfaceForPrefix address m st =
     iface_with (\<lambda>a. addr_CombineMask m (ia_local a) = addr_CombineMask m address) 0 (l3_interfaces st)"

definition l3_GetInterfaceForDevice :: "ptr \<Rightarrow> l3_ifs \<Rightarrow> nat option" where
  "l3_GetInterfaceForDevice device st = l3_reverse st device"

definition l3_GetAddress :: "nat \<Rightarrow> nat \<Rightarrow> l3_ifs \<Rightarrow> iface_addr option" where
  "l3_GetAddress i j st = do { f \<leftarrow> l3_GetInterface i st; if_GetAddress j f }"

definition l3_GetNAddresses :: "nat \<Rightarrow> l3_ifs \<Rightarrow> nat option" where
  "l3_GetNAddresses i st = do { f \<leftarrow> l3_GetInterface i st; Some (if_GetNAddresses f) }"

definition l3_IsUp :: "nat \<Rightarrow> l3_ifs \<Rightarrow> bool option" where
  "l3_IsUp i st = do { f \<leftarrow> l3_GetInterface i st; Some (if_ifup f) }"

definition l3_IsForwarding :: "nat \<Rightarrow> l3_ifs \<Rightarrow> bool option" where
  "l3_IsForwarding i st = do { f \<leftarrow> l3_GetInterface i st; Some (if_forwarding f) }"

definition l3_SetForwarding :: "nat \<Rightarrow> bool \<Rightarrow> l3_ifs \<Rightarrow> l3_ifs option" where
  "l3_SetForwarding i val = l3_on i (if_SetForwarding val)"

definition l3_SetMetric :: "nat \<Rightarrow> u16 \<Rightarrow> l3_ifs \<Rightarrow> l3_ifs option" where
  "l3_SetMetric i metric = l3_on i (if_SetMetric metric)"

definition l3_GetNetDevice :: "nat \<Rightarrow> l3_ifs \<Rightarrow> ptr option" where
  "l3_GetNetDevice i st = do { f \<leftarrow> l3_GetInterface i st; Some (if_device f) }"

definition l3_SetIpForward :: "bool \<Rightarrow> l3_ifs \<Rightarrow> l3_ifs" where
  "l3_SetIpForward forward st =
     st\<lparr>l3_ipForward := forward, l3_interfaces := map (if_SetForwarding forward) (l3_interfaces st)\<rparr>"

definition l3_SetWeakEsModel :: "bool \<Rightarrow> l3_ifs \<Rightarrow> l3_ifs" where
  "l3_SetWeakEsModel model st = st\<lparr>l3_strongEndSystemModel := \<not> model\<rparr>"

definition l3_SetStrongEndSystemModel :: "bool \<Rightarrow> l3_ifs \<Rightarrow> l3_ifs" where
  "l3_SetStrongEndSystemModel model st = st\<lparr>l3_strongEndSystemModel := model\<rparr>"

text \<open>The other interfaces are looked at only without the strong end system model.\<close>

definition addr_on :: "u32 \<Rightarrow> ipv4_interface \<Rightarrow> bool" where
  "addr_on address f \<longleftrightarrow> list_ex (\<lambda>a. address = ia_local a \<or> address = ia_broadcast a) (if_ifaddrs f)"

definition l3_IsDestinationAddress :: "u32 \<Rightarrow> nat \<Rightarrow> l3_ifs \<Rightarrow> bool option" where
  "l3_IsDestinationAddress address iif st = do {
     f \<leftarrow> l3_GetInterface iif st;
     Some (if addr_on address f then True
           else if addr_IsMulticast address then True
           else if addr_IsBroadcast address then True
           else if \<not> l3_strongEndSystemModel st
             then list_ex (\<lambda>(j, f). j \<noteq> iif \<and> addr_on address f) (enumerate 0 (l3_interfaces st))
           else False)
   }"

definition l3_IsUnicast :: "u32 \<Rightarrow> l3_ifs \<Rightarrow> bool" where
  "l3_IsUnicast ad st \<longleftrightarrow>
     (if addr_IsBroadcast ad \<or> addr_IsMulticast ad then False
      else \<not> list_ex (\<lambda>f. list_ex (\<lambda>a. ad = ia_broadcast a) (if_ifaddrs f)) (l3_interfaces st))"

definition l3_IsUnicast_mask :: "u32 \<Rightarrow> u32 \<Rightarrow> bool" where
  "l3_IsUnicast_mask ad interfaceMask \<longleftrightarrow> \<not> addr_IsMulticast ad \<and> \<not> addr_IsSubnetDirectedBroadcast interfaceMask ad"

text \<open>The first address of the interface unless a primary address is on the link of the destination.\<close>

definition l3_SourceAddressSelection :: "nat \<Rightarrow> u32 \<Rightarrow> l3_ifs \<Rightarrow> u32 option" where
  "l3_SourceAddressSelection interfaceIdx dest st = do {
     f \<leftarrow> l3_GetInterface interfaceIdx st;
     if if_GetNAddresses f = 1
     then do { a \<leftarrow> if_GetAddress 0 f; Some (ia_local a) }
     else do {
       a \<leftarrow> if_GetAddress 0 f;
       Some (case find (\<lambda>t. addr_CombineMask (ia_mask t) (ia_local t) = addr_CombineMask (ia_mask t) dest
                         \<and> \<not> ia_secondary t) (if_ifaddrs f) of
           Some t \<Rightarrow> ia_local t
         | None \<Rightarrow> ia_local a)
     }
   }"

text \<open>
  The loop of \<^verbatim>\<open>SelectSourceAddress\<close> over the addresses of the device: the address that is
  returned at once, or the one that was found first.
\<close>

fun select_loop :: "u32 \<Rightarrow> addr_scope \<Rightarrow> u32 option \<Rightarrow> iface_addr list \<Rightarrow> u32 option" where
  "select_loop dst scope found [] = found"
| "select_loop dst scope found (a # r) =
     (if ia_secondary a then select_loop dst scope found r
      else if scope_num (ia_scope a) > scope_num scope then select_loop dst scope found r
      else if addr_CombineMask (ia_mask a) dst = addr_CombineMask (ia_mask a) (ia_local a) then Some (ia_local a)
      else select_loop dst scope (case found of None \<Rightarrow> Some (ia_local a) | Some x \<Rightarrow> Some x) r)"

definition l3_SelectSourceAddress :: "ptr \<Rightarrow> u32 \<Rightarrow> addr_scope \<Rightarrow> l3_ifs \<Rightarrow> u32 option" where
  "l3_SelectSourceAddress device dst scope st = do {
     found \<leftarrow> (if device \<noteq> nullptr
       then do {
         i \<leftarrow> l3_GetInterfaceForDevice device st;
         f \<leftarrow> l3_GetInterface i st;
         Some (select_loop dst scope None (if_ifaddrs f))
       }
       else Some None);
     Some (case found of
         Some a \<Rightarrow> a
       | None \<Rightarrow> (case find (\<lambda>a. \<not> ia_secondary a \<and> ia_scope a \<noteq> LINK \<and> scope_num (ia_scope a) \<le> scope_num scope)
             (concat (map if_ifaddrs (l3_interfaces st))) of
             Some a \<Rightarrow> ia_local a
           | None \<Rightarrow> 0))
   }"

section \<open>Laws\<close>

text \<open>
  Every device is found at its interface: \<^verbatim>\<open>m_reverseInterfacesContainer\<close> is the inverse of
  \<^verbatim>\<open>m_interfaces\<close>.
\<close>

definition ifs_ok :: "l3_ifs \<Rightarrow> bool" where
  "ifs_ok st \<longleftrightarrow> (\<forall>i < length (l3_interfaces st). l3_reverse st (if_device (l3_interfaces st ! i)) = Some i)
     \<and> (\<forall>d i. l3_reverse st d = Some i \<longrightarrow> i < length (l3_interfaces st) \<and> if_device (l3_interfaces st ! i) = d)"

lemma GetInterface_eq [simp]:
  "l3_GetInterface i st = Some f \<longleftrightarrow> i < length (l3_interfaces st) \<and> f = l3_interfaces st ! i"
  by (auto simp: l3_GetInterface_def)

lemma ifs_ok_add:
  assumes "ifs_ok st" and "l3_reverse st (if_device f) = None"
  shows "ifs_ok (snd (l3_AddIpv4Interface f st))"
proof -
  let ?n = "length (l3_interfaces st)"
  have old: "l3_reverse st (if_device (l3_interfaces st ! i)) = Some i" if "i < ?n" for i
    using assms(1) that by (simp add: ifs_ok_def)
  then have other: "if_device (l3_interfaces st ! i) \<noteq> if_device f" if "i < ?n" for i using that assms(2) by force
  have rev: "i < ?n \<and> if_device (l3_interfaces st ! i) = d" if "l3_reverse st d = Some i" for d i
    using assms(1) that unfolding ifs_ok_def by blast
  show ?thesis unfolding ifs_ok_def l3_AddIpv4Interface_def Let_def snd_conv
  proof (intro conjI allI impI)
    fix i assume "i < length (l3_interfaces (st\<lparr>l3_interfaces := l3_interfaces st @ [f],
      l3_reverse := (l3_reverse st)(if_device f \<mapsto> ?n)\<rparr>))"
    then consider "i < ?n" | "i = ?n" by fastforce
    then show "l3_reverse (st\<lparr>l3_interfaces := l3_interfaces st @ [f], l3_reverse := (l3_reverse st)(if_device f \<mapsto> ?n)\<rparr>)
      (if_device (l3_interfaces (st\<lparr>l3_interfaces := l3_interfaces st @ [f],
        l3_reverse := (l3_reverse st)(if_device f \<mapsto> ?n)\<rparr>) ! i)) = Some i"
      using old other by cases (simp_all add: nth_append)
  next
    fix d i assume *: "l3_reverse (st\<lparr>l3_interfaces := l3_interfaces st @ [f],
      l3_reverse := (l3_reverse st)(if_device f \<mapsto> ?n)\<rparr>) d = Some i"
    then show "i < length (l3_interfaces (st\<lparr>l3_interfaces := l3_interfaces st @ [f],
        l3_reverse := (l3_reverse st)(if_device f \<mapsto> ?n)\<rparr>))"
      using rev [of d i] by (fastforce split: if_splits)
    from * show "if_device (l3_interfaces (st\<lparr>l3_interfaces := l3_interfaces st @ [f],
        l3_reverse := (l3_reverse st)(if_device f \<mapsto> ?n)\<rparr>) ! i) = d"
      using rev [of d i] by (auto simp: nth_append split: if_splits)
  qed
qed

lemma ifs_ok_on:
  assumes "ifs_ok st" and "l3_on i g st = Some st'" and "\<And>f. if_device (g f) = if_device f"
  shows "ifs_ok st'"
proof -
  have st': "st' = st\<lparr>l3_interfaces := (l3_interfaces st)[i := g (l3_interfaces st ! i)]\<rparr>"
    using assms(2) by (auto simp: l3_on_def elim: bind_eq_SomeE)
  have "if_device ((l3_interfaces st)[i := g (l3_interfaces st ! i)] ! j) = if_device (l3_interfaces st ! j)"
    if "j < length (l3_interfaces st)" for j using that assms(3) by (cases "i = j") auto
  then show ?thesis using assms(1) unfolding ifs_ok_def st' by simp
qed

lemma ifs_ok_device: "ifs_ok st \<Longrightarrow> l3_GetNetDevice i st = Some d \<Longrightarrow> l3_GetInterfaceForDevice d st = Some i"
  by (auto simp: ifs_ok_def l3_GetNetDevice_def l3_GetInterfaceForDevice_def elim!: bind_eq_SomeE)

text \<open>A source address that is chosen belongs to the interface, and is on the link when a primary address is.\<close>

lemma SourceAddressSelection_ok:
  assumes "i < length (l3_interfaces st)" and "if_ifaddrs (l3_interfaces st ! i) \<noteq> []"
  shows "\<exists>a \<in> set (if_ifaddrs (l3_interfaces st ! i)). l3_SourceAddressSelection i dest st = Some (ia_local a)"
proof -
  let ?as = "if_ifaddrs (l3_interfaces st ! i)"
  have hd: "?as ! 0 \<in> set ?as" using assms(2) by simp
  show ?thesis
  proof (cases "find (\<lambda>t. addr_CombineMask (ia_mask t) (ia_local t) = addr_CombineMask (ia_mask t) dest
                         \<and> \<not> ia_secondary t) ?as")
    case None
    then show ?thesis using assms hd
      by (auto simp: l3_SourceAddressSelection_def l3_GetInterface_def if_GetAddress_def)
  next
    case (Some t)
    then have "t \<in> set ?as" by (auto simp: find_Some_iff)
    with Some show ?thesis using assms hd
      by (auto simp: l3_SourceAddressSelection_def l3_GetInterface_def if_GetAddress_def)
  qed
qed

end
