(* ===== verification/Ipv4_End_Points.thy ===== *)
theory Ipv4_End_Points
  imports Ipv4_Interfaces
begin

text \<open>
  The end points of sockets and their demultiplexing: \<^verbatim>\<open>Ipv4EndPoint\<close> and
  \<^verbatim>\<open>Ipv4EndPointDemux\<close> (src/internet/model/ipv4-end-point.cc, ipv4-end-point-demux.cc).
\<close>

section \<open>Definitions\<close>

text \<open>A callback is the socket whose method it calls; \<open>nullptr\<close> is the null callback.\<close>

record end_point =
  ep_localAddr :: u32
  ep_localPort :: u16
  ep_peerAddr :: u32
  ep_peerPort :: u16
  ep_boundnetdevice :: ptr
  ep_rxCallback :: ptr
  ep_icmpCallback :: ptr
  ep_destroyCallback :: ptr
  ep_rxEnabled :: bool

definition Ipv4EndPoint_init :: "u32 \<Rightarrow> u16 \<Rightarrow> end_point" where
  "Ipv4EndPoint_init address port = \<lparr>ep_localAddr = address, ep_localPort = port, ep_peerAddr = addr_GetAny, ep_peerPort = 0,
     ep_boundnetdevice = nullptr, ep_rxCallback = nullptr, ep_icmpCallback = nullptr, ep_destroyCallback = nullptr,
     ep_rxEnabled = True\<rparr>"

definition ep_SetLocalAddress :: "u32 \<Rightarrow> end_point \<Rightarrow> end_point" where
  "ep_SetLocalAddress address e = e\<lparr>ep_localAddr := address\<rparr>"

definition ep_SetPeer :: "u32 \<Rightarrow> u16 \<Rightarrow> end_point \<Rightarrow> end_point" where
  "ep_SetPeer address port e = e\<lparr>ep_peerAddr := address, ep_peerPort := port\<rparr>"

definition ep_BindToNetDevice :: "ptr \<Rightarrow> end_point \<Rightarrow> end_point" where
  "ep_BindToNetDevice netdevice e = e\<lparr>ep_boundnetdevice := netdevice\<rparr>"

definition ep_SetRxCallback :: "ptr \<Rightarrow> end_point \<Rightarrow> end_point" where
  "ep_SetRxCallback callback e = e\<lparr>ep_rxCallback := callback\<rparr>"

definition ep_SetIcmpCallback :: "ptr \<Rightarrow> end_point \<Rightarrow> end_point" where
  "ep_SetIcmpCallback callback e = e\<lparr>ep_icmpCallback := callback\<rparr>"

definition ep_SetDestroyCallback :: "ptr \<Rightarrow> end_point \<Rightarrow> end_point" where
  "ep_SetDestroyCallback callback e = e\<lparr>ep_destroyCallback := callback\<rparr>"

definition ep_SetRxEnabled :: "bool \<Rightarrow> end_point \<Rightarrow> end_point" where
  "ep_SetRxEnabled enabled e = e\<lparr>ep_rxEnabled := enabled\<rparr>"

text \<open>
  The end points are objects with an address; \<open>dx_fresh\<close> is the address of the next one that is
  made with \<^verbatim>\<open>new\<close>.
\<close>

record demux =
  dx_ephemeral :: u16
  dx_portLast :: u16
  dx_portFirst :: u16
  dx_endPoints :: "(ptr \<times> end_point) list"
  dx_fresh :: ptr

definition Ipv4EndPointDemux_init :: demux where
  "Ipv4EndPointDemux_init = \<lparr>dx_ephemeral = 49152, dx_portLast = 65535, dx_portFirst = 49152, dx_endPoints = [], dx_fresh = 1\<rparr>"

definition dx_LookupPortLocal :: "u16 \<Rightarrow> demux \<Rightarrow> bool" where
  "dx_LookupPortLocal port dx = list_ex (\<lambda>(_, e). ep_localPort e = port) (dx_endPoints dx)"

definition dx_LookupLocal :: "ptr \<Rightarrow> u32 \<Rightarrow> u16 \<Rightarrow> demux \<Rightarrow> bool" where
  "dx_LookupLocal boundNetDevice addr port dx =
     list_ex (\<lambda>(_, e). ep_localPort e = port \<and> ep_localAddr e = addr \<and> ep_boundnetdevice e = boundNetDevice) (dx_endPoints dx)"

text \<open>The loop of \<^verbatim>\<open>AllocateEphemeralPort\<close>; \<open>cnt\<close> is an \<^verbatim>\<open>int\<close> that goes down to -1.\<close>

function ephemeral_loop :: "demux \<Rightarrow> u16 \<Rightarrow> int \<Rightarrow> u16 option" where
  "ephemeral_loop dx port cnt =
     (if cnt < 0 then None
      else let port = port + 1;
               port = (if port < dx_portFirst dx \<or> port > dx_portLast dx then dx_portFirst dx else port)
           in if dx_LookupPortLocal port dx then ephemeral_loop dx port (cnt - 1) else Some port)"
  by pat_completeness auto
termination
  by (relation "measure (\<lambda>(dx, port, cnt). nat (cnt + 1))") auto

declare ephemeral_loop.simps [simp del]

definition dx_AllocateEphemeralPort :: "demux \<Rightarrow> u16 \<times> demux" where
  "dx_AllocateEphemeralPort dx =
     (case ephemeral_loop dx (dx_ephemeral dx) (uint (dx_portLast dx) - uint (dx_portFirst dx)) of
        None \<Rightarrow> (0, dx)
      | Some port \<Rightarrow> (port, dx\<lparr>dx_ephemeral := port\<rparr>))"

text \<open>\<^verbatim>\<open>new\<close> and \<^verbatim>\<open>push_back\<close> of a new end point.\<close>

definition dx_push :: "end_point \<Rightarrow> demux \<Rightarrow> ptr \<times> demux" where
  "dx_push e dx = (dx_fresh dx, dx\<lparr>dx_endPoints := dx_endPoints dx @ [(dx_fresh dx, e)], dx_fresh := dx_fresh dx + 1\<rparr>)"

definition dx_Allocate_address :: "u32 \<Rightarrow> demux \<Rightarrow> ptr \<times> demux" where
  "dx_Allocate_address address dx =
     (let (port, dx) = dx_AllocateEphemeralPort dx in
      if port = 0 then (nullptr, dx) else dx_push (Ipv4EndPoint_init address port) dx)"

definition dx_Allocate :: "demux \<Rightarrow> ptr \<times> demux" where
  "dx_Allocate dx =
     (let (port, dx) = dx_AllocateEphemeralPort dx in
      if port = 0 then (nullptr, dx) else dx_push (Ipv4EndPoint_init addr_GetAny port) dx)"

definition dx_Allocate_local :: "ptr \<Rightarrow> u32 \<Rightarrow> u16 \<Rightarrow> demux \<Rightarrow> ptr \<times> demux" where
  "dx_Allocate_local boundNetDevice address port dx =
     (if dx_LookupLocal boundNetDevice address port dx \<or> dx_LookupLocal nullptr address port dx
      then (nullptr, dx) else dx_push (Ipv4EndPoint_init address port) dx)"

definition dx_Allocate_port :: "ptr \<Rightarrow> u16 \<Rightarrow> demux \<Rightarrow> ptr \<times> demux" where
  "dx_Allocate_port boundNetDevice port dx = dx_Allocate_local boundNetDevice addr_GetAny port dx"

definition dx_Allocate_peer :: "ptr \<Rightarrow> u32 \<Rightarrow> u16 \<Rightarrow> u32 \<Rightarrow> u16 \<Rightarrow> demux \<Rightarrow> ptr \<times> demux" where
  "dx_Allocate_peer boundNetDevice localAddress localPort peerAddress peerPort dx =
     (if list_ex (\<lambda>(_, e). ep_localPort e = localPort \<and> ep_localAddr e = localAddress \<and> ep_peerPort e = peerPort
           \<and> ep_peerAddr e = peerAddress \<and> (ep_boundnetdevice e = boundNetDevice \<or> ep_boundnetdevice e = nullptr)) (dx_endPoints dx)
      then (nullptr, dx)
      else dx_push (ep_SetPeer peerAddress peerPort (Ipv4EndPoint_init localAddress localPort)) dx)"

text \<open>The result of \<^verbatim>\<open>DeAllocate\<close> is the destroy callback that the destructor of the end point calls.\<close>

fun ep_erase :: "ptr \<Rightarrow> (ptr \<times> end_point) list \<Rightarrow> ptr \<times> (ptr \<times> end_point) list" where
  "ep_erase p [] = (nullptr, [])"
| "ep_erase p ((q, e) # r) =
     (if q = p then (ep_destroyCallback e, r) else (let (c, r) = ep_erase p r in (c, (q, e) # r)))"

definition dx_DeAllocate :: "ptr \<Rightarrow> demux \<Rightarrow> ptr \<times> demux" where
  "dx_DeAllocate endPoint dx = (let (c, es) = ep_erase endPoint (dx_endPoints dx) in (c, dx\<lparr>dx_endPoints := es\<rparr>))"

definition dx_GetAllEndPoints :: "demux \<Rightarrow> ptr list" where
  "dx_GetAllEndPoints dx = map fst (dx_endPoints dx)"

text \<open>A call of a setter through a pointer to an end point.\<close>

definition dx_on :: "ptr \<Rightarrow> (end_point \<Rightarrow> end_point) \<Rightarrow> demux \<Rightarrow> demux" where
  "dx_on p g dx = dx\<lparr>dx_endPoints := map (\<lambda>(q, e). (q, if q = p then g e else e)) (dx_endPoints dx)\<rparr>"

text \<open>A bound end point whose address is that of a network of the interface takes what goes to this network.\<close>

definition subnet_any :: "ipv4_interface \<Rightarrow> u32 \<Rightarrow> end_point \<Rightarrow> bool" where
  "subnet_any incomingInterface daddr e =
     list_ex (\<lambda>addr. let addrNetpart = addr_CombineMask (ia_mask addr) (ia_local addr) in
         ep_localAddr e = addrNetpart \<and> addrNetpart = addr_CombineMask (ia_mask addr) daddr) (if_ifaddrs incomingInterface)"

text \<open>The four lists of \<^verbatim>\<open>Lookup\<close>, from the least to the most exact.\<close>

record lookup_lists =
  retval1 :: "ptr list"
  retval2 :: "ptr list"
  retval3 :: "ptr list"
  retval4 :: "ptr list"

definition lookup_step :: "u32 \<Rightarrow> u16 \<Rightarrow> u32 \<Rightarrow> u16 \<Rightarrow> ipv4_interface \<Rightarrow> ptr \<times> end_point \<Rightarrow> lookup_lists \<Rightarrow> lookup_lists" where
  "lookup_step daddr dport saddr sport incomingInterface x L = (case x of (p, e) \<Rightarrow>
     if \<not> ep_rxEnabled e then L
     else if ep_localPort e \<noteq> dport then L
     else if ep_boundnetdevice e \<noteq> nullptr \<and> ep_boundnetdevice e \<noteq> if_device incomingInterface then L
     else let localAddressMatchesExact = (ep_localAddr e = daddr);
              localAddressIsAny = (ep_localAddr e \<noteq> daddr \<and> ep_localAddr e = addr_GetAny);
              localAddressIsSubnetAny = (ep_localAddr e \<noteq> daddr \<and> ep_localAddr e \<noteq> addr_GetAny \<and> subnet_any incomingInterface daddr e)
       in if \<not> localAddressMatchesExact \<and> \<not> localAddressIsAny \<and> \<not> localAddressIsSubnetAny then L
       else let remotePortMatchesExact = (ep_peerPort e = sport);
                remotePortMatchesWildCard = (ep_peerPort e = 0);
                remoteAddressMatchesExact = (ep_peerAddr e = saddr);
                remoteAddressMatchesWildCard = (ep_peerAddr e = addr_GetAny)
         in if \<not> (remotePortMatchesExact \<or> remotePortMatchesWildCard) then L
         else if \<not> (remoteAddressMatchesExact \<or> remoteAddressMatchesWildCard) then L
         else let localAddressMatchesWildCard = (localAddressIsAny \<or> localAddressIsSubnetAny);
                  L = (if localAddressMatchesExact \<and> remoteAddressMatchesExact \<and> remotePortMatchesExact
                       then L\<lparr>retval4 := retval4 L @ [p]\<rparr> else L);
                  L = (if localAddressMatchesWildCard \<and> remoteAddressMatchesExact \<and> remotePortMatchesExact
                       then L\<lparr>retval3 := retval3 L @ [p]\<rparr> else L);
                  L = (if localAddressMatchesExact \<and> remoteAddressMatchesWildCard \<and> remotePortMatchesWildCard
                       then L\<lparr>retval2 := retval2 L @ [p]\<rparr> else L);
                  L = (if localAddressMatchesWildCard \<and> remoteAddressMatchesWildCard \<and> remotePortMatchesWildCard
                       then L\<lparr>retval1 := retval1 L @ [p]\<rparr> else L)
           in L)"

text \<open>More than one end point is the abort \<open>None\<close>.\<close>

definition dx_Lookup :: "u32 \<Rightarrow> u16 \<Rightarrow> u32 \<Rightarrow> u16 \<Rightarrow> ipv4_interface \<Rightarrow> demux \<Rightarrow> ptr list option" where
  "dx_Lookup daddr dport saddr sport incomingInterface dx =
     (let L = fold (lookup_step daddr dport saddr sport incomingInterface) (dx_endPoints dx)
                \<lparr>retval1 = [], retval2 = [], retval3 = [], retval4 = []\<rparr>;
          retval = (if retval4 L \<noteq> [] then retval4 L else if retval3 L \<noteq> [] then retval3 L
                    else if retval2 L \<noteq> [] then retval2 L else retval1 L)
      in if length retval > 1 then None else Some retval)"

fun simple_loop :: "u32 \<Rightarrow> u16 \<Rightarrow> u32 \<Rightarrow> u16 \<Rightarrow> (ptr \<times> end_point) list \<Rightarrow> nat \<Rightarrow> ptr \<Rightarrow> ptr" where
  "simple_loop daddr dport saddr sport [] genericity generic = generic"
| "simple_loop daddr dport saddr sport ((p, e) # r) genericity generic =
     (if ep_localPort e \<noteq> dport then simple_loop daddr dport saddr sport r genericity generic
      else if ep_localAddr e = daddr \<and> ep_peerPort e = sport \<and> ep_peerAddr e = saddr then p
      else let tmp = (if ep_localAddr e = addr_GetAny then 1 else 0) + (if ep_peerAddr e = addr_GetAny then 1 else 0) in
        if tmp < genericity then simple_loop daddr dport saddr sport r tmp p
        else simple_loop daddr dport saddr sport r genericity generic)"

definition dx_SimpleLookup :: "u32 \<Rightarrow> u16 \<Rightarrow> u32 \<Rightarrow> u16 \<Rightarrow> demux \<Rightarrow> ptr" where
  "dx_SimpleLookup daddr dport saddr sport dx = simple_loop daddr dport saddr sport (dx_endPoints dx) 3 nullptr"

section \<open>Ephemeral ports\<close>

text \<open>What the operations keep: the range of the ephemeral ports and the addresses of the end points.\<close>

definition dx_wf :: "demux \<Rightarrow> bool" where
  "dx_wf dx \<longleftrightarrow> dx_portFirst dx = 49152 \<and> dx_portLast dx = 65535 \<and> 49152 \<le> unat (dx_ephemeral dx)
     \<and> distinct (map fst (dx_endPoints dx)) \<and> (\<forall>p \<in> fst ` set (dx_endPoints dx). 0 < p \<and> p < dx_fresh dx) \<and> 0 < dx_fresh dx"

definition next_port :: "u16 \<Rightarrow> u16" where
  "next_port port = (if port + 1 < 49152 \<or> port + 1 > 65535 then 49152 else port + 1)"

lemma next_port_cycles:
  assumes "unat p = 49152 + i" and "i < 16384"
  shows "unat (next_port p) = 49152 + Suc i mod 16384"
proof (cases "i = 16383")
  case True
  then have "unat p = 65535" using assms(1) by simp
  then have "p = 65535" by (simp add: word_unat_eq_iff)
  then show ?thesis using True by (simp add: next_port_def)
next
  case False
  then have i: "Suc i mod 16384 = Suc i" using assms(2) by simp
  have u: "unat (p + 1) = 49152 + Suc i"
    using assms False by (subst unat_word_ariths) simp
  then have "\<not> p + 1 < 49152" "\<not> p + 1 > 65535"
    using assms(2) False by (simp_all add: word_less_nat_alt)
  then show ?thesis using u i by (simp add: next_port_def)
qed

lemma loop_step:
  assumes "dx_wf dx"
  shows "ephemeral_loop dx port cnt = (if cnt < 0 then None
    else if dx_LookupPortLocal (next_port port) dx then ephemeral_loop dx (next_port port) (cnt - 1) else Some (next_port port))"
  using assms by (subst ephemeral_loop.simps) (simp only: dx_wf_def next_port_def Let_def)

lemma loop_Some:
  assumes "ephemeral_loop dx port cnt = Some q" and "dx_wf dx"
  shows "\<not> dx_LookupPortLocal q dx \<and> 49152 \<le> unat q"
  using assms
proof (induction dx port cnt rule: ephemeral_loop.induct)
  case (1 dx port cnt)
  have range: "49152 \<le> unat (next_port port)"
    using word_le_nat_alt [of 49152 "port + 1"] by (auto simp: next_port_def not_less)
  have next_eq: "(if port + 1 < dx_portFirst dx \<or> port + 1 > dx_portLast dx then dx_portFirst dx else port + 1) = next_port port"
    using 1(3) by (simp add: dx_wf_def next_port_def)
  show ?case
    using 1(1) [OF _ refl refl] 1(2,3) range unfolding next_eq
    by (subst (asm) (2) loop_step [OF 1(3)]) (auto split: if_splits)
qed

lemma loop_None:
  assumes "ephemeral_loop dx port cnt = None" and "dx_wf dx" and "unat port = 49152 + i" and "i < 16384"
    and "0 < k" and "int k \<le> cnt + 1" and "unat q = 49152 + (i + k) mod 16384"
  shows "dx_LookupPortLocal q dx"
  using assms
proof (induction k arbitrary: port cnt i)
  case 0
  then show ?case by simp
next
  case (Suc k)
  have u: "unat (next_port port) = 49152 + Suc i mod 16384" using next_port_cycles Suc.prems(3,4) by blast
  have rest: "dx_LookupPortLocal (next_port port) dx" "ephemeral_loop dx (next_port port) (cnt - 1) = None"
    using Suc.prems(1,6) by (subst (asm) loop_step [OF Suc.prems(2)], simp split: if_splits)+
  show ?case
  proof (cases k)
    case 0
    then have "q = next_port port" using u Suc.prems(7) by (simp add: word_unat_eq_iff)
    then show ?thesis using rest(1) by simp
  next
    case (Suc m)
    have "(i + Suc k) mod 16384 = (Suc i mod 16384 + k) mod 16384"
      using mod_add_left_eq [of "Suc i" 16384 k] by simp
    then have q: "unat q = 49152 + (Suc i mod 16384 + k) mod 16384" using Suc.prems(7) by (simp only:)
    show ?thesis using Suc Suc.prems(6) by (intro Suc.IH [OF rest(2) Suc.prems(2) u _ _ _ q]) simp_all
  qed
qed

lemma ephemeral_port_found:
  assumes "dx_wf dx" and "\<not> dx_LookupPortLocal q dx" and "49152 \<le> unat q"
  shows "\<exists>p. dx_AllocateEphemeralPort dx = (p, dx\<lparr>dx_ephemeral := p\<rparr>) \<and> \<not> dx_LookupPortLocal p dx \<and> 49152 \<le> unat p"
proof (cases "ephemeral_loop dx (dx_ephemeral dx) 16383")
  case (Some p)
  then show ?thesis using loop_Some [OF Some assms(1)] assms(1) by (simp add: dx_AllocateEphemeralPort_def dx_wf_def)
next
  case None
  define i j where "i = unat (dx_ephemeral dx) - 49152" and "j = unat q - 49152"
  have b: "unat (dx_ephemeral dx) < 65536" "unat q < 65536" using unat_u16_bound by simp_all
  have ij: "unat (dx_ephemeral dx) = 49152 + i" "i < 16384" "unat q = 49152 + j" "j < 16384"
    using assms(1,3) b by (auto simp: i_def j_def dx_wf_def)
  define k where "k = (if i < j then j - i else j + 16384 - i)"
  have k: "0 < k" "int k \<le> 16383 + 1" "(i + k) mod 16384 = j" using ij by (auto simp: k_def)
  then have "unat q = 49152 + (i + k) mod 16384" using ij(3) by (simp only:)
  then have "dx_LookupPortLocal q dx" by (rule loop_None [OF None assms(1) ij(1,2) k(1,2)])
  then show ?thesis using assms(2) by simp
qed

lemma ephemeral_ports_exhausted:
  assumes "dx_wf dx" and "\<forall>q. 49152 \<le> unat q \<longrightarrow> dx_LookupPortLocal q dx"
  shows "dx_AllocateEphemeralPort dx = (0, dx)"
proof -
  have "ephemeral_loop dx (dx_ephemeral dx) 16383 = None"
    using loop_Some [OF _ assms(1)] assms(2) by (cases "ephemeral_loop dx (dx_ephemeral dx) 16383") auto
  then show ?thesis using assms(1) by (simp add: dx_AllocateEphemeralPort_def dx_wf_def)
qed

end
