(* ===== verification/Ipv4_Demux.thy ===== *)
theory Ipv4_Demux
  imports Ipv4_End_Points
begin

text \<open>
  What the demultiplexer of end points promises: the most exact end point gets the packet, end
  points that were allocated in the intended way never make it ambiguous, and ports are given out
  as long as there are any.
\<close>

section \<open>The most exact end point\<close>

definition ep_accepts :: "u16 \<Rightarrow> ipv4_interface \<Rightarrow> end_point \<Rightarrow> bool" where
  "ep_accepts dport f e \<longleftrightarrow> ep_rxEnabled e \<and> ep_localPort e = dport
     \<and> (ep_boundnetdevice e = nullptr \<or> ep_boundnetdevice e = if_device f)"

definition local_wildcard :: "u32 \<Rightarrow> ipv4_interface \<Rightarrow> end_point \<Rightarrow> bool" where
  "local_wildcard daddr f e \<longleftrightarrow> ep_localAddr e \<noteq> daddr \<and> (ep_localAddr e = addr_GetAny \<or> subnet_any f daddr e)"

definition peer_exact :: "u32 \<Rightarrow> u16 \<Rightarrow> end_point \<Rightarrow> bool" where
  "peer_exact saddr sport e \<longleftrightarrow> ep_peerAddr e = saddr \<and> ep_peerPort e = sport"

definition peer_wildcard :: "end_point \<Rightarrow> bool" where
  "peer_wildcard e \<longleftrightarrow> ep_peerAddr e = addr_GetAny \<and> ep_peerPort e = 0"

text \<open>How exactly an end point matches a packet, 0 for not at all.\<close>

definition ep_rank :: "u32 \<Rightarrow> u16 \<Rightarrow> u32 \<Rightarrow> u16 \<Rightarrow> ipv4_interface \<Rightarrow> end_point \<Rightarrow> nat" where
  "ep_rank daddr dport saddr sport f e =
     (if \<not> ep_accepts dport f e then 0
      else if ep_localAddr e = daddr \<and> peer_exact saddr sport e then 4
      else if local_wildcard daddr f e \<and> peer_exact saddr sport e then 3
      else if ep_localAddr e = daddr \<and> peer_wildcard e then 2
      else if local_wildcard daddr f e \<and> peer_wildcard e then 1
      else 0)"

definition best_end_points :: "u32 \<Rightarrow> u16 \<Rightarrow> u32 \<Rightarrow> u16 \<Rightarrow> ipv4_interface \<Rightarrow> demux \<Rightarrow> ptr list" where
  "best_end_points daddr dport saddr sport f dx =
     map fst (filter (\<lambda>(_, e). ep_rank daddr dport saddr sport f e \<noteq> 0
       \<and> (\<forall>(_, e') \<in> set (dx_endPoints dx). ep_rank daddr dport saddr sport f e' \<le> ep_rank daddr dport saddr sport f e))
       (dx_endPoints dx))"

definition lookup_class :: "bool \<Rightarrow> bool \<Rightarrow> u32 \<Rightarrow> u16 \<Rightarrow> u32 \<Rightarrow> u16 \<Rightarrow> ipv4_interface \<Rightarrow> end_point \<Rightarrow> bool" where
  "lookup_class exact connected daddr dport saddr sport f e \<longleftrightarrow> ep_accepts dport f e
     \<and> (if exact then ep_localAddr e = daddr else local_wildcard daddr f e)
     \<and> (if connected then peer_exact saddr sport e else peer_wildcard e)"

lemma lookup_step_eq:
  "lookup_step daddr dport saddr sport f (p, e) L =
     \<lparr>retval1 = retval1 L @ (if lookup_class False False daddr dport saddr sport f e then [p] else []),
      retval2 = retval2 L @ (if lookup_class True False daddr dport saddr sport f e then [p] else []),
      retval3 = retval3 L @ (if lookup_class False True daddr dport saddr sport f e then [p] else []),
      retval4 = retval4 L @ (if lookup_class True True daddr dport saddr sport f e then [p] else [])\<rparr>"
  by (cases L) (auto simp: lookup_step_def lookup_class_def ep_accepts_def local_wildcard_def peer_exact_def peer_wildcard_def Let_def)

lemma lookup_fold:
  "fold (lookup_step daddr dport saddr sport f) es L =
     \<lparr>retval1 = retval1 L @ map fst (filter (\<lambda>(_, e). lookup_class False False daddr dport saddr sport f e) es),
      retval2 = retval2 L @ map fst (filter (\<lambda>(_, e). lookup_class True False daddr dport saddr sport f e) es),
      retval3 = retval3 L @ map fst (filter (\<lambda>(_, e). lookup_class False True daddr dport saddr sport f e) es),
      retval4 = retval4 L @ map fst (filter (\<lambda>(_, e). lookup_class True True daddr dport saddr sport f e) es)\<rparr>"
proof (induction es arbitrary: L)
  case Nil
  then show ?case by simp
next
  case (Cons x es)
  obtain p e where "x = (p, e)" by fastforce
  then show ?case by (simp add: Cons.IH lookup_step_eq)
qed

lemma class_rank:
  "lookup_class True True daddr dport saddr sport f e \<longleftrightarrow> ep_rank daddr dport saddr sport f e = 4"
  "lookup_class True True daddr dport saddr sport f e \<or> lookup_class False True daddr dport saddr sport f e
     \<longleftrightarrow> ep_rank daddr dport saddr sport f e \<ge> 3"
  "lookup_class True True daddr dport saddr sport f e \<or> lookup_class False True daddr dport saddr sport f e
     \<or> lookup_class True False daddr dport saddr sport f e \<longleftrightarrow> ep_rank daddr dport saddr sport f e \<ge> 2"
  "lookup_class True True daddr dport saddr sport f e \<or> lookup_class False True daddr dport saddr sport f e
     \<or> lookup_class True False daddr dport saddr sport f e \<or> lookup_class False False daddr dport saddr sport f e
     \<longleftrightarrow> ep_rank daddr dport saddr sport f e \<ge> 1"
  by (auto simp: lookup_class_def ep_rank_def)

lemma rank_le_4: "ep_rank daddr dport saddr sport f e \<le> 4"
  by (simp add: ep_rank_def)

lemma best_is_class:
  assumes "\<And>e. e \<in> snd ` set (dx_endPoints dx) \<Longrightarrow> ep_rank daddr dport saddr sport f e \<le> n"
    and "\<And>e. e \<in> snd ` set (dx_endPoints dx) \<Longrightarrow> P e \<longleftrightarrow> ep_rank daddr dport saddr sport f e = n"
    and "n \<noteq> 0" and "\<exists>e \<in> snd ` set (dx_endPoints dx). P e"
  shows "map fst (filter (\<lambda>(_, e). P e) (dx_endPoints dx)) = best_end_points daddr dport saddr sport f dx"
proof -
  obtain e0 where e0: "e0 \<in> snd ` set (dx_endPoints dx)" "ep_rank daddr dport saddr sport f e0 = n" using assms(2,4) by blast
  have "P e \<longleftrightarrow> ep_rank daddr dport saddr sport f e \<noteq> 0
      \<and> (\<forall>x \<in> set (dx_endPoints dx). ep_rank daddr dport saddr sport f (snd x) \<le> ep_rank daddr dport saddr sport f e)"
    if e: "e \<in> snd ` set (dx_endPoints dx)" for e
  proof
    assume "P e"
    then show "ep_rank daddr dport saddr sport f e \<noteq> 0
      \<and> (\<forall>x \<in> set (dx_endPoints dx). ep_rank daddr dport saddr sport f (snd x) \<le> ep_rank daddr dport saddr sport f e)"
      using assms(1,2,3) e by simp
  next
    assume "ep_rank daddr dport saddr sport f e \<noteq> 0
      \<and> (\<forall>x \<in> set (dx_endPoints dx). ep_rank daddr dport saddr sport f (snd x) \<le> ep_rank daddr dport saddr sport f e)"
    then have "n \<le> ep_rank daddr dport saddr sport f e" using e0 by auto
    then show "P e" using assms(1,2) e by (simp add: le_antisym)
  qed
  then show ?thesis unfolding best_end_points_def by (intro arg_cong [of _ _ "map fst"] filter_cong refl) (auto simp: case_prod_unfold)
qed

lemma lookup_most_exact_eq:
  "dx_Lookup daddr dport saddr sport f dx =
     (if length (best_end_points daddr dport saddr sport f dx) > 1 then None
      else Some (best_end_points daddr dport saddr sport f dx))"
proof -
  let ?c = "\<lambda>a b e. lookup_class a b daddr dport saddr sport f e" and ?r = "ep_rank daddr dport saddr sport f"
  let ?E = "snd ` set (dx_endPoints dx)"
  let ?F = "\<lambda>a b. map fst (filter (\<lambda>(_, e). ?c a b e) (dx_endPoints dx))"
  let ?v = "if ?F True True \<noteq> [] then ?F True True else if ?F False True \<noteq> [] then ?F False True
    else if ?F True False \<noteq> [] then ?F True False else ?F False False"
  have none: "?F a b = [] \<longleftrightarrow> (\<forall>e \<in> ?E. \<not> ?c a b e)" for a b by (auto simp: filter_empty_conv)
  have zero: "?r e = 0" if "\<not> ?c True True e" "\<not> ?c False True e" "\<not> ?c True False e" "\<not> ?c False False e" for e
    using class_rank(4) [of daddr dport saddr sport f e] that by simp
  let ?X = "\<lambda>a b. \<exists>e \<in> ?E. ?c a b e"
  consider (4) "?X True True" | (3) "\<not> ?X True True" "?X False True"
    | (2) "\<not> ?X True True" "\<not> ?X False True" "?X True False"
    | (1) "\<not> ?X True True" "\<not> ?X False True" "\<not> ?X True False" "?X False False"
    | (0) "\<not> ?X True True" "\<not> ?X False True" "\<not> ?X True False" "\<not> ?X False False" by argo
  then have "?v = best_end_points daddr dport saddr sport f dx"
  proof cases
    case 4
    then have "?v = ?F True True" using none by simp
    also have "\<dots> = best_end_points daddr dport saddr sport f dx"
      using 4 class_rank(1) rank_le_4 by (intro best_is_class [of _ _ _ _ _ _ 4]) auto
    finally show ?thesis .
  next
    case 3
    then have "?v = ?F False True" using none by simp
    also have "\<dots> = best_end_points daddr dport saddr sport f dx"
    proof (rule best_is_class)
      fix e assume e: "e \<in> ?E"
      have n: "\<not> ?c True True e" using e 3(1) by blast+
      show "?r e \<le> 3" using n class_rank(1) [of daddr dport saddr sport f e] rank_le_4 [of daddr dport saddr sport f e] by simp
      then show "?c False True e \<longleftrightarrow> ?r e = 3" using n class_rank(2) [of daddr dport saddr sport f e] by auto
    qed (use 3(2) in auto)
    finally show ?thesis .
  next
    case 2
    then have "?v = ?F True False" using none by simp
    also have "\<dots> = best_end_points daddr dport saddr sport f dx"
    proof (rule best_is_class)
      fix e assume e: "e \<in> ?E"
      have n: "\<not> ?c True True e" "\<not> ?c False True e" using e 2(1-2) by blast+
      show "?r e \<le> 2" using n class_rank(2) [of daddr dport saddr sport f e] by simp
      then show "?c True False e \<longleftrightarrow> ?r e = 2" using n class_rank(3) [of daddr dport saddr sport f e] by auto
    qed (use 2(3) in auto)
    finally show ?thesis .
  next
    case 1
    then have "?v = ?F False False" using none by simp
    also have "\<dots> = best_end_points daddr dport saddr sport f dx"
    proof (rule best_is_class)
      fix e assume e: "e \<in> ?E"
      have n: "\<not> ?c True True e" "\<not> ?c False True e" "\<not> ?c True False e" using e 1(1-3) by blast+
      show "?r e \<le> 1" using n class_rank(3) [of daddr dport saddr sport f e] by simp
      then show "?c False False e \<longleftrightarrow> ?r e = 1" using n class_rank(4) [of daddr dport saddr sport f e] by auto
    qed (use 1(4) in auto)
    finally show ?thesis .
  next
    case 0
    then have "?v = []" using none by simp
    moreover have "best_end_points daddr dport saddr sport f dx = []"
      using 0 zero by (fastforce simp: best_end_points_def filter_empty_conv)
    ultimately show ?thesis by simp
  qed
  then show ?thesis unfolding dx_Lookup_def lookup_fold by (simp only: Let_def lookup_lists.simps append_Nil)
qed

text \<open>
  C22: \<^verbatim>\<open>Lookup\<close> gives the packet to the end points that match it most exactly: address, port and
  peer before peer and port, before address and port, before the port alone; it is empty only if
  no end point matches, and it aborts exactly if two end points are equally exact.
\<close>

theorem lookup_most_exact:
  "dx_Lookup daddr dport saddr sport f dx =
     (if length (best_end_points daddr dport saddr sport f dx) > 1 then None
      else Some (best_end_points daddr dport saddr sport f dx))"
  by (rule lookup_most_exact_eq)

section \<open>End points that do not compete\<close>

text \<open>Two end points compete for packets if they have the same addresses and ports and may hear the same device.\<close>

definition ep_compete :: "end_point \<Rightarrow> end_point \<Rightarrow> bool" where
  "ep_compete e g \<longleftrightarrow> ep_localPort e = ep_localPort g \<and> ep_localAddr e = ep_localAddr g
     \<and> ep_peerAddr e = ep_peerAddr g \<and> ep_peerPort e = ep_peerPort g
     \<and> (ep_boundnetdevice e = ep_boundnetdevice g \<or> ep_boundnetdevice e = nullptr \<or> ep_boundnetdevice g = nullptr)"

definition dx_separate :: "demux \<Rightarrow> bool" where
  "dx_separate dx \<longleftrightarrow> (\<forall>x \<in> set (dx_endPoints dx). \<forall>y \<in> set (dx_endPoints dx). fst x \<noteq> fst y \<longrightarrow> \<not> ep_compete (snd x) (snd y))"

text \<open>
  How sockets use a demultiplexer: they allocate an end point and bind it to the device of the
  socket, bind it to another device later, change what does not concern addresses, and give the end
  point back.  The first argument tells whether the history is free of the two uses that can make end
  points compete: an end point without a device that is made beside one of the same address
  and port with a device, and an end point that changes its device.
\<close>

definition all_unbound :: "u32 \<Rightarrow> u16 \<Rightarrow> demux \<Rightarrow> bool" where
  "all_unbound address port dx \<longleftrightarrow>
     (\<forall>x \<in> set (dx_endPoints dx). ep_localPort (snd x) = port \<longrightarrow> ep_localAddr (snd x) = address \<longrightarrow> ep_boundnetdevice (snd x) = nullptr)"

inductive dx_reach :: "bool \<Rightarrow> demux \<Rightarrow> bool" where
  start: "dx_reach True Ipv4EndPointDemux_init"
| ephemeral: "dx_reach clean dx \<Longrightarrow> dx_Allocate_address address dx = (p, dx') \<Longrightarrow> dx_reach clean (dx_on p (ep_BindToNetDevice device) dx')"
| ephemeral_any: "dx_reach clean dx \<Longrightarrow> dx_Allocate dx = (p, dx') \<Longrightarrow> dx_reach clean (dx_on p (ep_BindToNetDevice device) dx')"
| bound: "dx_reach clean dx \<Longrightarrow> dx_Allocate_local device address port dx = (p, dx')
    \<Longrightarrow> dx_reach (clean \<and> (device = nullptr \<longrightarrow> all_unbound address port dx)) (dx_on p (ep_BindToNetDevice device) dx')"
| connected: "dx_reach clean dx \<Longrightarrow> dx_Allocate_peer device address port peer peerPort dx = (p, dx')
    \<Longrightarrow> dx_reach (clean \<and> (device = nullptr \<longrightarrow> all_unbound address port dx)) (dx_on p (ep_BindToNetDevice device) dx')"
| rebind: "dx_reach clean dx \<Longrightarrow> dx_reach False (dx_on p (ep_BindToNetDevice device) dx)"
| callbacks: "dx_reach clean dx \<Longrightarrow> dx_reach clean (dx_on p (\<lambda>e. ep_SetDestroyCallback c (ep_SetIcmpCallback b (ep_SetRxCallback a e))) dx)"
| rx: "dx_reach clean dx \<Longrightarrow> dx_reach clean (dx_on p (ep_SetRxEnabled enabled) dx)"
| release: "dx_reach clean dx \<Longrightarrow> dx_DeAllocate p dx = (c, dx') \<Longrightarrow> dx_reach clean dx'"

lemma dx_on_absent: "p \<notin> fst ` set (dx_endPoints dx) \<Longrightarrow> dx_on p g dx = dx"
proof -
  assume "p \<notin> fst ` set (dx_endPoints dx)"
  then have "map (\<lambda>(q, e). (q, if q = p then g e else e)) (dx_endPoints dx) = dx_endPoints dx"
    by (intro map_idI) force
  then show ?thesis by (simp add: dx_on_def)
qed

lemma dx_on_wf [simp]: "dx_wf (dx_on p g dx) \<longleftrightarrow> dx_wf dx"
  by (simp add: dx_wf_def dx_on_def comp_def case_prod_unfold image_image)

lemma dx_wf_nullptr: "dx_wf dx \<Longrightarrow> nullptr \<notin> fst ` set (dx_endPoints dx)"
  by (auto simp: dx_wf_def)

text \<open>A new end point, bound to a device, is separate from the old ones.\<close>

lemma push_bind_ok:
  assumes "dx_wf dx" and "dx_push e dx = (p, dx')"
  shows "dx_wf (dx_on p (ep_BindToNetDevice device) dx') \<and>
    (dx_separate dx \<and> (\<forall>x \<in> set (dx_endPoints dx). \<not> ep_compete (snd x) (ep_BindToNetDevice device e))
      \<longrightarrow> dx_separate (dx_on p (ep_BindToNetDevice device) dx'))"
proof -
  have p: "p = dx_fresh dx" "dx' = dx\<lparr>dx_endPoints := dx_endPoints dx @ [(p, e)], dx_fresh := p + 1\<rparr>"
    using assms(2) by (auto simp: dx_push_def)
  have new: "p \<notin> fst ` set (dx_endPoints dx)" "0 < p" using assms(1) p(1) by (auto simp: dx_wf_def)
  have old: "map (\<lambda>(q, e'). (q, if q = p then ep_BindToNetDevice device e' else e')) (dx_endPoints dx) = dx_endPoints dx"
    using new(1) by (intro map_idI) force
  have eps: "dx_endPoints (dx_on p (ep_BindToNetDevice device) dx') = dx_endPoints dx @ [(p, ep_BindToNetDevice device e)]"
    using old by (simp add: dx_on_def p(2))
  have "dx_wf dx'" using assms(1) new by (force simp: dx_wf_def p)
  moreover have sym: "ep_compete a b \<longleftrightarrow> ep_compete b a" for a b by (auto simp: ep_compete_def)
  have "dx_separate (dx_on p (ep_BindToNetDevice device) dx')" if "dx_separate dx"
    "\<forall>x \<in> set (dx_endPoints dx). \<not> ep_compete (snd x) (ep_BindToNetDevice device e)"
  proof -
    have "\<forall>x \<in> set (dx_endPoints dx). \<not> ep_compete (ep_BindToNetDevice device e) (snd x)" using that(2) sym by blast
    then show ?thesis using that unfolding dx_separate_def eps by simp
  qed
  ultimately show ?thesis by simp
qed

lemma separate_on:
  assumes "dx_separate dx" and "\<And>e. ep_localPort (g e) = ep_localPort e \<and> ep_localAddr (g e) = ep_localAddr e
    \<and> ep_peerAddr (g e) = ep_peerAddr e \<and> ep_peerPort (g e) = ep_peerPort e \<and> ep_boundnetdevice (g e) = ep_boundnetdevice e"
  shows "dx_separate (dx_on p g dx)"
proof -
  have "ep_compete (if a then g e else e) (if b then g e' else e') = ep_compete e e'" for a b e e'
    using assms(2) by (simp add: ep_compete_def)
  then show ?thesis using assms(1) by (simp add: dx_separate_def dx_on_def case_prod_unfold)
qed

lemma ep_erase_set: "ep_erase p es = (c, es') \<Longrightarrow> set es' \<subseteq> set es"
  by (induction es arbitrary: es' c rule: ep_erase.induct) (auto split: if_splits prod.splits)

lemma ep_erase_distinct: "distinct (map fst es) \<Longrightarrow> ep_erase p es = (c, es') \<Longrightarrow> distinct (map fst es')"
proof (induction p es arbitrary: es' c rule: ep_erase.induct)
  case (2 p q e r)
  obtain d r' where r: "ep_erase p r = (d, r')" by fastforce
  have "set r' \<subseteq> set r" using ep_erase_set r by blast
  then have "fst ` set r' \<subseteq> fst ` set r" by blast
  then show ?case using 2 r by (auto split: if_splits)
qed simp

lemma DeAllocate_ok:
  assumes "dx_wf dx" and "dx_DeAllocate p dx = (c, dx')"
  shows "dx_wf dx' \<and> (dx_separate dx \<longrightarrow> dx_separate dx')"
proof -
  obtain es where es: "ep_erase p (dx_endPoints dx) = (c, es)" "dx' = dx\<lparr>dx_endPoints := es\<rparr>"
    using assms(2) by (auto simp: dx_DeAllocate_def split: prod.splits)
  then show ?thesis using assms(1) ep_erase_set [OF es(1)] ep_erase_distinct [OF _ es(1)]
    by (fastforce simp: dx_wf_def dx_separate_def)
qed

lemma AllocateEphemeralPort_ok:
  assumes "dx_wf dx" and "dx_AllocateEphemeralPort dx = (port, dx')"
  shows "dx_wf dx' \<and> dx_endPoints dx' = dx_endPoints dx \<and> (port \<noteq> 0 \<longrightarrow> \<not> dx_LookupPortLocal port dx)"
proof (cases "ephemeral_loop dx (dx_ephemeral dx) 16383")
  case None
  then show ?thesis using assms by (simp add: dx_AllocateEphemeralPort_def dx_wf_def)
next
  case (Some q)
  then show ?thesis using loop_Some [OF Some assms(1)] assms by (fastforce simp: dx_AllocateEphemeralPort_def dx_wf_def)
qed

lemma ephemeral_ok:
  assumes "dx_wf dx"
    and "(let (port, dx) = dx_AllocateEphemeralPort dx in
      if port = 0 then (nullptr, dx) else dx_push (Ipv4EndPoint_init address port) dx) = (p, dx')"
  shows "dx_wf (dx_on p (ep_BindToNetDevice device) dx') \<and> (dx_separate dx \<longrightarrow> dx_separate (dx_on p (ep_BindToNetDevice device) dx'))"
proof -
  obtain port dx1 where dx1: "dx_AllocateEphemeralPort dx = (port, dx1)" by fastforce
  note a = AllocateEphemeralPort_ok [OF assms(1) dx1]
  have sep: "dx_separate dx1 = dx_separate dx" using a by (simp add: dx_separate_def)
  show ?thesis
  proof (cases "port = 0")
    case True
    then have "p = nullptr" "dx' = dx1" using assms(2) dx1 by simp_all
    then show ?thesis using a sep dx_wf_nullptr dx_on_absent by metis
  next
    case False
    then have push: "dx_push (Ipv4EndPoint_init address port) dx1 = (p, dx')" using assms(2) dx1 by simp
    have "\<not> ep_compete (snd x) (ep_BindToNetDevice device (Ipv4EndPoint_init address port))" if "x \<in> set (dx_endPoints dx1)" for x
    proof -
      have "ep_localPort (snd x) \<noteq> port" using that a False by (fastforce simp: dx_LookupPortLocal_def list_ex_iff)
      then show ?thesis by (simp add: ep_compete_def ep_BindToNetDevice_def Ipv4EndPoint_init_def)
    qed
    then show ?thesis using push_bind_ok [OF _ push, of device] a sep by blast
  qed
qed

lemma dx_reach_ok: "dx_reach clean dx \<Longrightarrow> dx_wf dx \<and> (clean \<longrightarrow> dx_separate dx)"
proof (induction rule: dx_reach.induct)
  case start
  then show ?case by (simp add: dx_wf_def dx_separate_def Ipv4EndPointDemux_init_def)
next
  case (ephemeral clean dx address p dx' device)
  then show ?case using ephemeral_ok unfolding dx_Allocate_address_def by blast
next
  case (ephemeral_any clean dx p dx' device)
  then show ?case using ephemeral_ok unfolding dx_Allocate_def by blast
next
  case (bound clean dx device address port p dx')
  show ?case
  proof (cases "dx_LookupLocal device address port dx \<or> dx_LookupLocal nullptr address port dx")
    case True
    then have "p = nullptr" "dx' = dx" using bound.hyps(2) by (simp_all add: dx_Allocate_local_def)
    then show ?thesis using bound.IH dx_wf_nullptr dx_on_absent by metis
  next
    case False
    then have push: "dx_push (Ipv4EndPoint_init address port) dx = (p, dx')" using bound.hyps(2) by (simp add: dx_Allocate_local_def)
    have "\<not> ep_compete (snd x) (ep_BindToNetDevice device (Ipv4EndPoint_init address port))"
      if "device = nullptr \<longrightarrow> all_unbound address port dx" "x \<in> set (dx_endPoints dx)" for x
      using that False by (fastforce simp: dx_LookupLocal_def list_ex_iff all_unbound_def ep_compete_def
          ep_BindToNetDevice_def Ipv4EndPoint_init_def)
    then show ?thesis using push_bind_ok [OF _ push, of device] bound.IH by blast
  qed
next
  case (connected clean dx device address port peer peerPort p dx')
  let ?old = "\<exists>x \<in> set (dx_endPoints dx). ep_localPort (snd x) = port \<and> ep_localAddr (snd x) = address \<and> ep_peerPort (snd x) = peerPort
      \<and> ep_peerAddr (snd x) = peer \<and> (ep_boundnetdevice (snd x) = device \<or> ep_boundnetdevice (snd x) = nullptr)"
  let ?e = "ep_SetPeer peer peerPort (Ipv4EndPoint_init address port)"
  have eq: "dx_Allocate_peer device address port peer peerPort dx = (if ?old then (nullptr, dx) else dx_push ?e dx)"
    by (simp add: dx_Allocate_peer_def list_ex_iff case_prod_unfold)
  show ?case
  proof (cases ?old)
    case True
    then have "p = nullptr" "dx' = dx" using connected.hyps(2) by (simp_all add: eq)
    then show ?thesis using connected.IH dx_wf_nullptr dx_on_absent by metis
  next
    case False
    then have push: "dx_push ?e dx = (p, dx')" using connected.hyps(2) unfolding eq by (simp only: if_False)
    have "\<not> ep_compete (snd x) (ep_BindToNetDevice device ?e)"
      if "device = nullptr \<longrightarrow> all_unbound address port dx" "x \<in> set (dx_endPoints dx)" for x
      using that False by (fastforce simp: all_unbound_def ep_compete_def ep_BindToNetDevice_def ep_SetPeer_def Ipv4EndPoint_init_def)
    then show ?thesis using push_bind_ok [OF _ push, of device] connected.IH by blast
  qed
next
  case (rebind clean dx p device)
  then show ?case by simp
next
  case (callbacks clean dx p c b a)
  then show ?case by (auto intro!: separate_on simp: ep_SetDestroyCallback_def ep_SetIcmpCallback_def ep_SetRxCallback_def)
next
  case (rx clean dx p enabled)
  then show ?case by (auto intro!: separate_on simp: ep_SetRxEnabled_def)
next
  case (release clean dx p c dx')
  then show ?case using DeAllocate_ok by blast
qed

lemma rank_cases:
  assumes "ep_rank daddr dport saddr sport f e \<noteq> 0" and "\<not> subnet_any f daddr e \<or> ep_localAddr e \<in> {daddr, addr_GetAny}"
  shows "ep_accepts dport f e"
    and "ep_localAddr e = (if even (ep_rank daddr dport saddr sport f e) then daddr else addr_GetAny)"
    and "ep_peerAddr e = (if 3 \<le> ep_rank daddr dport saddr sport f e then saddr else addr_GetAny)"
    and "ep_peerPort e = (if 3 \<le> ep_rank daddr dport saddr sport f e then sport else 0)"
proof -
  have "ep_accepts dport f e \<and> (ep_rank daddr dport saddr sport f e = 4 \<and> ep_localAddr e = daddr \<and> peer_exact saddr sport e
      \<or> ep_rank daddr dport saddr sport f e = 3 \<and> local_wildcard daddr f e \<and> peer_exact saddr sport e
      \<or> ep_rank daddr dport saddr sport f e = 2 \<and> ep_localAddr e = daddr \<and> peer_wildcard e
      \<or> ep_rank daddr dport saddr sport f e = 1 \<and> local_wildcard daddr f e \<and> peer_wildcard e)"
    using assms(1) by (simp add: ep_rank_def split: if_splits)
  moreover have "ep_localAddr e = addr_GetAny" if "local_wildcard daddr f e" using that assms(2) by (auto simp: local_wildcard_def)
  ultimately show "ep_accepts dport f e"
    "ep_localAddr e = (if even (ep_rank daddr dport saddr sport f e) then daddr else addr_GetAny)"
    "ep_peerAddr e = (if 3 \<le> ep_rank daddr dport saddr sport f e then saddr else addr_GetAny)"
    "ep_peerPort e = (if 3 \<le> ep_rank daddr dport saddr sport f e then sport else 0)"
    by (elim conjE disjE; simp add: peer_exact_def peer_wildcard_def)+
qed

lemma same_rank_compete:
  assumes "ep_rank daddr dport saddr sport f e = ep_rank daddr dport saddr sport f g" and "ep_rank daddr dport saddr sport f e \<noteq> 0"
    and "\<not> subnet_any f daddr e \<or> ep_localAddr e \<in> {daddr, addr_GetAny}" "\<not> subnet_any f daddr g \<or> ep_localAddr g \<in> {daddr, addr_GetAny}"
  shows "ep_compete e g"
proof -
  have "ep_rank daddr dport saddr sport f g \<noteq> 0" using assms(1,2) by simp
  note e = rank_cases [OF assms(2,3)] and g = rank_cases [OF this assms(4)]
  show ?thesis unfolding ep_compete_def e(2-4) g(2-4) assms(1) using e(1) g(1) by (auto simp: ep_accepts_def)
qed

lemma at_most_one:
  assumes "distinct xs" and "\<And>x y. x \<in> set xs \<Longrightarrow> y \<in> set xs \<Longrightarrow> x = y"
  shows "length xs \<le> 1"
proof (cases xs)
  case (Cons x r)
  have "x = y" if "y \<in> set r" for y by (rule assms(2)) (simp_all add: Cons that)
  then have "r = []" using assms(1) Cons by (cases r) auto
  then show ?thesis using Cons by simp
qed simp

text \<open>No end point has the address of a network of the interface (the case of subnet-directed packets).\<close>

definition no_subnet_end_points :: "ipv4_interface \<Rightarrow> demux \<Rightarrow> bool" where
  "no_subnet_end_points f dx \<longleftrightarrow> (\<forall>x \<in> set (dx_endPoints dx). \<forall>a \<in> set (if_ifaddrs f).
     ep_localAddr (snd x) = addr_CombineMask (ia_mask a) (ia_local a) \<longrightarrow> ep_localAddr (snd x) = addr_GetAny)"

text \<open>
  When no two end points compete and none has the address of a network of the interface, no packet
  is ambiguous: \<^verbatim>\<open>Lookup\<close> does not abort.
\<close>

lemma lookup_unambiguous:
  assumes ok: "dx_wf dx" "dx_separate dx" and "no_subnet_end_points f dx"
  shows "\<exists>r. dx_Lookup daddr dport saddr sport f dx = Some r \<and> length r \<le> 1"
proof -
  let ?r = "ep_rank daddr dport saddr sport f"
  let ?xs = "filter (\<lambda>(_, e). ?r e \<noteq> 0 \<and> (\<forall>(_, e') \<in> set (dx_endPoints dx). ?r e' \<le> ?r e)) (dx_endPoints dx)"
  have sub: "\<not> subnet_any f daddr (snd x) \<or> ep_localAddr (snd x) \<in> {daddr, addr_GetAny}" if "x \<in> set (dx_endPoints dx)" for x
    using assms(3) that unfolding no_subnet_end_points_def subnet_any_def list_ex_iff Let_def by blast
  have one: "fst x = fst y" if "x \<in> set ?xs" "y \<in> set ?xs" for x y
  proof (rule ccontr)
    assume "fst x \<noteq> fst y"
    moreover have xy: "x \<in> set (dx_endPoints dx)" "y \<in> set (dx_endPoints dx)" "?r (snd x) \<noteq> 0" using that by auto
    moreover have "\<forall>z \<in> set (dx_endPoints dx). ?r (snd z) \<le> ?r (snd x)" "\<forall>z \<in> set (dx_endPoints dx). ?r (snd z) \<le> ?r (snd y)"
      using that by (simp_all add: case_prod_unfold)
    then have "?r (snd x) = ?r (snd y)" using xy(1,2) by (simp add: le_antisym)
    ultimately show False using same_rank_compete [OF _ _ sub sub] ok(2) unfolding dx_separate_def by blast
  qed
  have "distinct (map fst ?xs)" using ok(1) by (simp add: dx_wf_def distinct_map_filter)
  then have "length (map fst ?xs) \<le> 1"
  proof (rule at_most_one)
    fix p q assume "p \<in> set (map fst ?xs)" "q \<in> set (map fst ?xs)"
    then show "p = q" unfolding set_map using one by blast
  qed
  then show ?thesis by (simp add: lookup_most_exact_eq best_end_points_def)
qed

definition udp_server :: "demux" where
  "udp_server = dx_on 1 (ep_BindToNetDevice nullptr) (snd (dx_Allocate_local nullptr 0x0a000001 9 Ipv4EndPointDemux_init))"

lemma udp_server_reach: "dx_reach True udp_server"
  unfolding udp_server_def
  using dx_reach.bound [OF dx_reach.start, where address = "0x0a000001" and port = 9 and device = nullptr]
  by (simp add: all_unbound_def Ipv4EndPointDemux_init_def dx_Allocate_local_def dx_LookupLocal_def dx_push_def)

lemma udp_server_end_points: "dx_endPoints udp_server = [(1, Ipv4EndPoint_init 0x0a000001 9)]"
  by (simp add: udp_server_def dx_on_def ep_BindToNetDevice_def Ipv4EndPointDemux_init_def dx_Allocate_local_def
      dx_LookupLocal_def dx_push_def Ipv4EndPoint_init_def)

section \<open>Ephemeral ports are used up before allocation fails\<close>

text \<open>
  C35: \<^verbatim>\<open>Allocate\<close> without a port fails only if every one of the 16384 ephemeral ports is taken;
  otherwise the new end point has an ephemeral port that no other end point has.
\<close>

theorem ephemeral_allocation:
  assumes "dx_reach clean dx" and "dx_Allocate_address address dx = (p, dx')"
  shows "if \<forall>q. 49152 \<le> unat q \<longrightarrow> dx_LookupPortLocal q dx then p = nullptr \<and> dx' = dx
    else p \<noteq> nullptr \<and> (\<exists>port. 49152 \<le> unat port \<and> \<not> dx_LookupPortLocal port dx
      \<and> dx_endPoints dx' = dx_endPoints dx @ [(p, Ipv4EndPoint_init address port)])"
proof (cases "\<forall>q. 49152 \<le> unat q \<longrightarrow> dx_LookupPortLocal q dx")
  case True
  then have "p = nullptr \<and> dx' = dx"
    using ephemeral_ports_exhausted [OF _ True] dx_reach_ok [OF assms(1)] assms(2) by (simp add: dx_Allocate_address_def)
  then show ?thesis using True by simp
next
  case False
  have wf: "dx_wf dx" using dx_reach_ok [OF assms(1)] by simp
  obtain port where port: "dx_AllocateEphemeralPort dx = (port, dx\<lparr>dx_ephemeral := port\<rparr>)"
    "\<not> dx_LookupPortLocal port dx" "49152 \<le> unat port"
    using False ephemeral_port_found [OF wf] by blast
  have "port \<noteq> 0" using port(3) by auto
  then have "p = dx_fresh dx" "dx_endPoints dx' = dx_endPoints dx @ [(p, Ipv4EndPoint_init address port)]"
    using assms(2) port(1) by (auto simp: dx_Allocate_address_def dx_push_def)
  moreover have "0 < dx_fresh dx" using wf by (simp add: dx_wf_def)
  ultimately show ?thesis using False port(2,3) by auto
qed

theorem ephemeral_allocation_witness:
  "\<exists>port. 49152 \<le> unat port \<and> dx_endPoints (snd (dx_Allocate_address 0x0a000001 udp_server))
     = [(1, Ipv4EndPoint_init 0x0a000001 9), (2, Ipv4EndPoint_init 0x0a000001 port)]"
proof -
  obtain p dx' where dx': "dx_Allocate_address 0x0a000001 udp_server = (p, dx')" by fastforce
  have free: "\<not> (\<forall>q. 49152 \<le> unat q \<longrightarrow> dx_LookupPortLocal q udp_server)"
    by (simp add: dx_LookupPortLocal_def udp_server_end_points Ipv4EndPoint_init_def) (rule exI [of _ 65535], simp)
  have "dx_fresh udp_server = 2"
    by (simp add: udp_server_def dx_on_def Ipv4EndPointDemux_init_def dx_Allocate_local_def dx_LookupLocal_def dx_push_def)
  then have "p = 2 \<or> p = nullptr" using dx'
    by (auto simp: dx_Allocate_address_def dx_push_def dx_AllocateEphemeralPort_def split: prod.splits if_splits option.splits)
  then show ?thesis using ephemeral_allocation [OF udp_server_reach dx'] free dx' by (auto simp: udp_server_end_points)
qed

section \<open>Where packets go astray\<close>

text \<open>
  A socket bound to a device does not keep another from taking the same address and port without
  a device; the first packet for both then ends the simulation.
\<close>

theorem unbound_beside_bound_aborts:
  assumes "device \<noteq> nullptr" and "if_device f = device"
    and "dx_Allocate_local device address port Ipv4EndPointDemux_init = (p, dx)"
    and "dx_Allocate_local nullptr address port (dx_on p (ep_BindToNetDevice device) dx) = (q, dx')"
  shows "q \<noteq> nullptr \<and> dx_Lookup address port saddr sport f dx' = None"
proof -
  have p: "p = 1" "dx = Ipv4EndPointDemux_init\<lparr>dx_endPoints := [(1, Ipv4EndPoint_init address port)], dx_fresh := 2\<rparr>"
    using assms(3) by (auto simp: dx_Allocate_local_def dx_LookupLocal_def dx_push_def Ipv4EndPointDemux_init_def)
  have "dx_endPoints (dx_on p (ep_BindToNetDevice device) dx) = [(1, (Ipv4EndPoint_init address port)\<lparr>ep_boundnetdevice := device\<rparr>)]"
    "dx_fresh (dx_on p (ep_BindToNetDevice device) dx) = 2"
    by (simp_all add: p dx_on_def ep_BindToNetDevice_def)
  then have "q = 2" "dx_endPoints dx' = [(1, (Ipv4EndPoint_init address port)\<lparr>ep_boundnetdevice := device\<rparr>), (2, Ipv4EndPoint_init address port)]"
    using assms(1,4) by (auto simp: dx_Allocate_local_def dx_LookupLocal_def dx_push_def Ipv4EndPoint_init_def)
  then show ?thesis using assms(1,2)
    by (auto simp: dx_Lookup_def lookup_step_def Ipv4EndPoint_init_def Let_def)
qed

text \<open>
  \<^verbatim>\<open>SimpleLookup\<close>, which ICMP errors go through, does not compare the addresses of an inexact
  match: an end point that is connected to another host is preferred to the one that listens.
\<close>

theorem simple_lookup_wrong_peer:
  assumes "dx_endPoints dx = [(p, ep_SetPeer peer peerPort (Ipv4EndPoint_init address port)), (q, Ipv4EndPoint_init addr_GetAny port)]"
    and "peer \<noteq> addr_GetAny" and "address \<noteq> addr_GetAny" and "peer \<noteq> saddr" and "daddr \<noteq> addr_GetAny"
  shows "dx_SimpleLookup daddr port saddr sport dx = p \<and> dx_Lookup daddr port saddr sport f dx = Some [q]"
  using assms by (auto simp: dx_SimpleLookup_def dx_Lookup_def lookup_step_def Ipv4EndPoint_init_def ep_SetPeer_def Let_def)

end
