(* ===== verification/Ipv4_Header.thy ===== *)
theory Ipv4_Header
  imports Wire
begin

text \<open>
  The IPv4 header: \<^verbatim>\<open>ns3::Ipv4Header\<close> (src/internet/model/ipv4-header.h, .cc), its fields,
  the setters and getters of the TOS byte and of the fragmentation fields, serialization with
  the header checksum and deserialization.
\<close>

unbundle bit_operations_syntax

type_synonym u3 = "3 word"

record ipv4_header =
  ip_calcChecksum :: bool
  ip_payloadSize :: u16
  ip_identification :: u16
  ip_tos :: u8
  ip_ttl :: u8
  ip_protocol :: u8
  ip_flags :: u3
  ip_fragmentOffset :: u16
  ip_source :: u32
  ip_destination :: u32
  ip_checksumField :: u16
  ip_goodChecksum :: bool
  ip_headerSize :: u16

abbreviation (input) DONT_FRAGMENT :: u3 where "DONT_FRAGMENT \<equiv> 1"
abbreviation (input) MORE_FRAGMENTS :: u3 where "MORE_FRAGMENTS \<equiv> 2"

text \<open>\<^verbatim>\<open>Ipv4Address()\<close> is the address 102.102.102.102 that marks an unset address.\<close>

definition Ipv4Header_init :: ipv4_header where
  "Ipv4Header_init = \<lparr>ip_calcChecksum = False, ip_payloadSize = 0, ip_identification = 0, ip_tos = 0,
     ip_ttl = 0, ip_protocol = 0, ip_flags = 0, ip_fragmentOffset = 0, ip_source = 0x66666666,
     ip_destination = 0x66666666, ip_checksumField = 0, ip_goodChecksum = True, ip_headerSize = 20\<rparr>"

definition ip_EnableChecksum :: "ipv4_header \<Rightarrow> ipv4_header" where
  "ip_EnableChecksum h = h\<lparr>ip_calcChecksum := True\<rparr>"

definition ip_SetPayloadSize :: "u16 \<Rightarrow> ipv4_header \<Rightarrow> ipv4_header" where
  "ip_SetPayloadSize sz h = h\<lparr>ip_payloadSize := sz\<rparr>"

definition ip_SetIdentification :: "u16 \<Rightarrow> ipv4_header \<Rightarrow> ipv4_header" where
  "ip_SetIdentification identification h = h\<lparr>ip_identification := identification\<rparr>"

definition ip_SetTos :: "u8 \<Rightarrow> ipv4_header \<Rightarrow> ipv4_header" where
  "ip_SetTos tos h = h\<lparr>ip_tos := tos\<rparr>"

definition ip_SetTtl :: "u8 \<Rightarrow> ipv4_header \<Rightarrow> ipv4_header" where
  "ip_SetTtl ttl h = h\<lparr>ip_ttl := ttl\<rparr>"

definition ip_SetProtocol :: "u8 \<Rightarrow> ipv4_header \<Rightarrow> ipv4_header" where
  "ip_SetProtocol protocol h = h\<lparr>ip_protocol := protocol\<rparr>"

definition ip_SetSource :: "u32 \<Rightarrow> ipv4_header \<Rightarrow> ipv4_header" where
  "ip_SetSource src h = h\<lparr>ip_source := src\<rparr>"

definition ip_SetDestination :: "u32 \<Rightarrow> ipv4_header \<Rightarrow> ipv4_header" where
  "ip_SetDestination dst h = h\<lparr>ip_destination := dst\<rparr>"

text \<open>The TOS byte holds the DSCP in its upper six bits and the ECN in its lower two.\<close>

definition ip_SetDscp :: "u8 \<Rightarrow> ipv4_header \<Rightarrow> ipv4_header" where
  "ip_SetDscp dscp h = h\<lparr>ip_tos := (ip_tos h AND 0x3) OR push_bit 2 dscp\<rparr>"

definition ip_SetEcn :: "u8 \<Rightarrow> ipv4_header \<Rightarrow> ipv4_header" where
  "ip_SetEcn ecn h = h\<lparr>ip_tos := (ip_tos h AND 0xFC) OR ecn\<rparr>"

definition ip_GetDscp :: "ipv4_header \<Rightarrow> u8" where
  "ip_GetDscp h = drop_bit 2 (ip_tos h AND 0xFC)"

definition ip_GetEcn :: "ipv4_header \<Rightarrow> u8" where
  "ip_GetEcn h = ip_tos h AND 0x3"

definition ip_DscpTypeToString :: "u8 \<Rightarrow> string" where
  "ip_DscpTypeToString dscp = (case map_of
     [(0x00, ''Default''), (0x08, ''CS1''), (0x0A, ''AF11''), (0x0C, ''AF12''), (0x0E, ''AF13''),
      (0x10, ''CS2''), (0x12, ''AF21''), (0x14, ''AF22''), (0x16, ''AF23''),
      (0x18, ''CS3''), (0x1A, ''AF31''), (0x1C, ''AF32''), (0x1E, ''AF33''),
      (0x20, ''CS4''), (0x22, ''AF41''), (0x24, ''AF42''), (0x26, ''AF43''),
      (0x28, ''CS5''), (0x2E, ''EF''), (0x30, ''CS6''), (0x38, ''CS7'')] dscp of
     Some name \<Rightarrow> name | None \<Rightarrow> ''Unrecognized DSCP'')"

definition ip_EcnTypeToString :: "u8 \<Rightarrow> string" where
  "ip_EcnTypeToString ecn = (case map_of
     [(0, ''Not-ECT''), (1, ''ECT (1)''), (2, ''ECT (0)''), (3, ''CE'')] ecn of
     Some name \<Rightarrow> name | None \<Rightarrow> ''Unknown ECN'')"

text \<open>Fragmentation.\<close>

definition ip_SetMoreFragments :: "ipv4_header \<Rightarrow> ipv4_header" where
  "ip_SetMoreFragments h = h\<lparr>ip_flags := ip_flags h OR MORE_FRAGMENTS\<rparr>"

definition ip_SetLastFragment :: "ipv4_header \<Rightarrow> ipv4_header" where
  "ip_SetLastFragment h = h\<lparr>ip_flags := ip_flags h AND NOT MORE_FRAGMENTS\<rparr>"

definition ip_IsLastFragment :: "ipv4_header \<Rightarrow> bool" where
  "ip_IsLastFragment h \<longleftrightarrow> ip_flags h AND MORE_FRAGMENTS = 0"

definition ip_SetDontFragment :: "ipv4_header \<Rightarrow> ipv4_header" where
  "ip_SetDontFragment h = h\<lparr>ip_flags := ip_flags h OR DONT_FRAGMENT\<rparr>"

definition ip_SetMayFragment :: "ipv4_header \<Rightarrow> ipv4_header" where
  "ip_SetMayFragment h = h\<lparr>ip_flags := ip_flags h AND NOT DONT_FRAGMENT\<rparr>"

definition ip_IsDontFragment :: "ipv4_header \<Rightarrow> bool" where
  "ip_IsDontFragment h \<longleftrightarrow> ip_flags h AND DONT_FRAGMENT \<noteq> 0"

text \<open>An offset that is not a multiple of eight aborts the program.\<close>

definition ip_SetFragmentOffset :: "u16 \<Rightarrow> ipv4_header \<Rightarrow> ipv4_header option" where
  "ip_SetFragmentOffset offsetBytes h = do {
     ns_assert (offsetBytes AND 0x7 = 0);
     Some (h\<lparr>ip_fragmentOffset := offsetBytes\<rparr>)
   }"

definition ip_GetFragmentOffset :: "ipv4_header \<Rightarrow> u16" where
  "ip_GetFragmentOffset h = ip_fragmentOffset h"

definition ip_GetSerializedSize :: "ipv4_header \<Rightarrow> nat" where
  "ip_GetSerializedSize h = unat (ip_headerSize h)"

text \<open>The twenty bytes, before and after the checksum is written at offset ten.\<close>

definition ip_flagsFrag :: "ipv4_header \<Rightarrow> u8" where
  "ip_flagsFrag h =
     (ucast (drop_bit 8 (ip_fragmentOffset h div 8)) AND 0x1f)
     OR (if ip_flags h AND DONT_FRAGMENT \<noteq> 0 then push_bit 6 1 else 0)
     OR (if ip_flags h AND MORE_FRAGMENTS \<noteq> 0 then push_bit 5 1 else 0)"

definition ip_Serialize :: "ipv4_header \<Rightarrow> u8 list" where
  "ip_Serialize h =
     (let front = [0x45, ip_tos h] @ hton16 (ip_payloadSize h + 20) @ hton16 (ip_identification h)
            @ [ip_flagsFrag h, ucast (ip_fragmentOffset h div 8), ip_ttl h, ip_protocol h];
          addrs = hton32 (ip_source h) @ hton32 (ip_destination h)
      in if ip_calcChecksum h
         then front @ lsb16 (ip_checksum (front @ hton16 0 @ addrs) 0) @ addrs
         else front @ hton16 0 @ addrs)"

text \<open>Reading into the header object \<open>r\<close>; the byte with the flags is read twice in the code.\<close>

definition ip_read_flags :: "u8 \<Rightarrow> u3" where
  "ip_read_flags flags =
     (if flags AND push_bit 6 1 \<noteq> 0 then DONT_FRAGMENT else 0)
     OR (if flags AND push_bit 5 1 \<noteq> 0 then MORE_FRAGMENTS else 0)"

definition ip_Deserialize :: "ipv4_header \<Rightarrow> ipv4_header deserializer" where
  "ip_Deserialize r bs = do {
     (verIhl, a) \<leftarrow> rdU8 bs;
     let headerSize = ucast (verIhl AND 0x0f) * 4;
     if drop_bit 4 verIhl \<noteq> 4 then Some (r, 0) else do {
       (tos, a) \<leftarrow> rdU8 a;
       (size', a) \<leftarrow> rdNtohU16 a;
       (ident, a) \<leftarrow> rdNtohU16 a;
       (flags, a) \<leftarrow> rdU8 a;
       (frag, a) \<leftarrow> rdU8 a;
       (ttl, a) \<leftarrow> rdU8 a;
       (prot, a) \<leftarrow> rdU8 a;
       (ck, a) \<leftarrow> rdU16 a;
       (src, a) \<leftarrow> rdNtohU32 a;
       (dst, a) \<leftarrow> rdNtohU32 a;
       let h = r\<lparr>ip_tos := tos, ip_payloadSize := size' - headerSize, ip_identification := ident,
                 ip_flags := ip_read_flags flags,
                 ip_fragmentOffset := push_bit 3 (push_bit 8 (ucast (flags AND 0x1f)) OR ucast frag),
                 ip_ttl := ttl, ip_protocol := prot, ip_checksumField := ck, ip_source := src,
                 ip_destination := dst, ip_headerSize := headerSize\<rparr>;
       h \<leftarrow> (if ip_calcChecksum r
             then do {
               ns_assert (unat headerSize \<le> length bs);
               Some (h\<lparr>ip_goodChecksum := (ip_checksum (take (unat headerSize) bs) 0 = 0)\<rparr>)
             }
             else Some h);
       Some (h, ip_GetSerializedSize h)
     }
   }"

section \<open>Bit fields\<close>

definition offset_sent :: "u16 \<Rightarrow> u16" where
  "offset_sent k = push_bit 3 (push_bit 8 (ucast ((ucast (drop_bit 8 (k div 8)) :: u8) AND 0x1f)) OR ucast (ucast (k div 8) :: u8))"

lemma offset_roundtrip:
  assumes "k AND 0x7 = 0"
  shows "offset_sent k = k"
proof (rule bit_word_eqI)
  fix n assume n: "n < LENGTH(16)"
  have m: "(0x1f :: u8) = mask 5" "k div 8 = drop_bit 3 k" "(0x7 :: u16) = mask 3"
    by (simp_all add: mask_eq_exp_minus_1 drop_bit_eq_div)
  have "bit (k AND mask 3) n \<longleftrightarrow> bit k n" if "n < 3" using that by (simp only: bit_and_iff bit_mask_iff) simp
  then have low: "\<not> bit k n" if "n < 3" using that assms unfolding m(3) by (metis bit_0_eq bot_apply bot_bool_def)
  show "bit (offset_sent k) n = bit k n"
  proof (cases "n < 3")
    case False
    then obtain j where "n = 3 + j" using le_Suc_ex by (metis not_less)
    then show ?thesis using n unfolding offset_sent_def m(1,2) by (auto simp: bit_simps)
  qed (use low in \<open>simp add: offset_sent_def bit_simps\<close>)
qed

text \<open>The byte with the flags and the high bits of the offset, read back.\<close>

lemma flags_bits:
  "(f :: u3) AND DONT_FRAGMENT \<noteq> 0 \<longleftrightarrow> bit f 0" "f AND MORE_FRAGMENTS \<noteq> 0 \<longleftrightarrow> bit f 1"
  using and_exp_eq_0_iff_not_bit [of f 0] and_exp_eq_0_iff_not_bit [of f 1] by simp_all

lemma byte_bit: "((a :: u8) AND push_bit k 1 \<noteq> 0) \<longleftrightarrow> bit a k"
  by (simp add: push_bit_of_1 and_exp_eq_0_iff_not_bit)

lemma flagsFrag_bits:
  "ip_flagsFrag h AND 0x1f = ucast (drop_bit 8 (ip_fragmentOffset h div 8)) AND 0x1f"
  "bit (ip_flagsFrag h) 6 \<longleftrightarrow> bit (ip_flags h) 0" "bit (ip_flagsFrag h) 5 \<longleftrightarrow> bit (ip_flags h) 1"
proof -
  have m: "(0x1f :: u8) = mask 5" by (simp add: mask_eq_exp_minus_1)
  have pb: "bit (push_bit k 1 :: u8) n \<longleftrightarrow> n = k \<and> n < 8" for k n by (auto simp: bit_simps)
  have nb: "bit (if d then push_bit k 1 else 0 :: u8) n \<longleftrightarrow> d \<and> n = k \<and> n < 8" for d k n using pb by simp
  show "ip_flagsFrag h AND 0x1f = ucast (drop_bit 8 (ip_fragmentOffset h div 8)) AND 0x1f"
    unfolding ip_flagsFrag_def m by (rule bit_word_eqI) (auto simp only: bit_and_iff bit_or_iff nb bit_mask_iff)
  show "bit (ip_flagsFrag h) 6 \<longleftrightarrow> bit (ip_flags h) 0" "bit (ip_flagsFrag h) 5 \<longleftrightarrow> bit (ip_flags h) 1"
    unfolding ip_flagsFrag_def m flags_bits [symmetric]
    by (simp_all only: bit_and_iff bit_or_iff nb bit_mask_iff) simp_all
qed

lemma read_flags_sent:
  assumes "ip_flags h AND 4 = 0"
  shows "ip_read_flags (ip_flagsFrag h) = ip_flags h"
proof (rule bit_word_eqI)
  fix n assume n: "n < LENGTH(3)"
  have two: "\<not> bit (ip_flags h) 2" using assms and_exp_eq_0_iff_not_bit [of "ip_flags h" 2] by simp
  have r: "ip_read_flags (ip_flagsFrag h)
      = (if bit (ip_flags h) 0 then 2 ^ 0 else 0) OR (if bit (ip_flags h) 1 then 2 ^ 1 else 0)"
    by (simp only: ip_read_flags_def byte_bit flagsFrag_bits(2,3)) simp
  consider "n = 0" | "n = 1" | "n = 2" using n by fastforce
  then show "bit (ip_read_flags (ip_flagsFrag h)) n = bit (ip_flags h) n"
    unfolding r by cases (simp_all add: bit_or_iff bit_exp_iff two)
qed

section \<open>What the receiver gets\<close>

text \<open>
  A header in the range of its setters, whose receiver checks a checksum only if the sender
  computes one.
\<close>

definition ip_ok :: "ipv4_header \<Rightarrow> ipv4_header \<Rightarrow> bool" where
  "ip_ok h r \<longleftrightarrow> ip_fragmentOffset h AND 0x7 = 0 \<and> ip_flags h AND 4 = 0
     \<and> (ip_calcChecksum r \<longrightarrow> ip_calcChecksum h)"

definition ip_result :: "ipv4_header \<Rightarrow> ipv4_header \<Rightarrow> ipv4_header" where
  "ip_result h r =
     r\<lparr>ip_tos := ip_tos h, ip_payloadSize := ip_payloadSize h, ip_identification := ip_identification h,
       ip_flags := ip_flags h, ip_fragmentOffset := ip_fragmentOffset h, ip_ttl := ip_ttl h,
       ip_protocol := ip_protocol h, ip_checksumField := ntoh (rev (take 2 (drop 10 (ip_Serialize h)))),
       ip_source := ip_source h, ip_destination := ip_destination h, ip_headerSize := 20,
       ip_goodChecksum := ip_calcChecksum r \<or> ip_goodChecksum r\<rparr>"

definition ip_front :: "ipv4_header \<Rightarrow> u8 list" where
  "ip_front h = [0x45, ip_tos h] @ hton16 (ip_payloadSize h + 20) @ hton16 (ip_identification h)
     @ [ip_flagsFrag h, ucast (ip_fragmentOffset h div 8), ip_ttl h, ip_protocol h]"

definition ip_addrs :: "ipv4_header \<Rightarrow> u8 list" where
  "ip_addrs h = hton32 (ip_source h) @ hton32 (ip_destination h)"

lemma ip_front_length [simp]: "length (ip_front h) = 10" "length (ip_addrs h) = 8"
  by (simp_all add: ip_front_def ip_addrs_def)

lemma ip_Serialize_form:
  obtains c where "ip_Serialize h = ip_front h @ lsb16 c @ ip_addrs h"
    "ip_calcChecksum h \<longrightarrow> ip_checksum (ip_front h @ lsb16 c @ ip_addrs h) 0 = 0"
proof (cases "ip_calcChecksum h")
  case True
  have z: "hton16 0 = [0, 0]" by (simp add: hton16_def)
  have "ip_checksum (ip_front h @ lsb16 (ip_checksum (ip_front h @ [0, 0] @ ip_addrs h) 0) @ ip_addrs h) 0 = 0"
    by (rule checksum_inserted) simp_all
  then show ?thesis
    using that [of "ip_checksum (ip_front h @ [0, 0] @ ip_addrs h) 0"] True z
    by (simp add: ip_Serialize_def ip_front_def ip_addrs_def Let_def)
next
  case False
  have "hton16 0 = lsb16 0" by (simp add: hton16_def lsb16_def)
  then show ?thesis using that [of 0] False by (simp add: ip_Serialize_def ip_front_def ip_addrs_def Let_def)
qed

lemma ip_Serialize_length: "length (ip_Serialize h) = 20"
  by (rule ip_Serialize_form [of h]) simp

lemma ip_read:
  assumes "ip_ok h r"
  shows "ip_Deserialize r (ip_Serialize h @ rest) = Some (ip_result h r, 20)"
proof -
  obtain c where c: "ip_Serialize h = ip_front h @ lsb16 c @ ip_addrs h"
    "ip_calcChecksum h \<longrightarrow> ip_checksum (ip_front h @ lsb16 c @ ip_addrs h) 0 = 0"
    by (rule ip_Serialize_form)
  have v: "drop_bit 4 (0x45 :: u8) = 4" "ucast ((0x45 :: u8) AND 0x0f) * 4 = (20 :: u16)" by simp_all
  have ck: "ntoh (rev (take 2 (drop 10 (ip_Serialize h)))) = c" by (simp add: c(1)) (simp add: lsb16_def)
  have off: "push_bit 3 (push_bit 8 (ucast (ip_flagsFrag h AND 0x1f)) OR ucast (ucast (ip_fragmentOffset h div 8) :: u8))
      = ip_fragmentOffset h"
    using offset_roundtrip [of "ip_fragmentOffset h"] assms unfolding flagsFrag_bits(1) offset_sent_def
    by (simp add: ip_ok_def)
  have fl: "ip_read_flags (ip_flagsFrag h) = ip_flags h" using assms by (intro read_flags_sent) (simp add: ip_ok_def)
  have tk: "take 20 (ip_Serialize h @ rest) = ip_front h @ lsb16 c @ ip_addrs h"
    using c(1) ip_Serialize_length [of h] by simp
  have good: "ip_checksum (take 20 (ip_Serialize h @ rest)) 0 = 0" if "ip_calcChecksum r"
    using that assms c(2) unfolding tk by (simp add: ip_ok_def)
  have len: "20 \<le> length (ip_Serialize h @ rest)" using ip_Serialize_length [of h] by simp
  define bs where "bs = ip_Serialize h @ rest"
  have "bs = 0x45 # ip_tos h # hton16 (ip_payloadSize h + 20) @ hton16 (ip_identification h)
      @ ip_flagsFrag h # ucast (ip_fragmentOffset h div 8) # ip_ttl h # ip_protocol h # lsb16 c
      @ hton32 (ip_source h) @ hton32 (ip_destination h) @ rest"
    by (simp add: bs_def c(1) ip_front_def ip_addrs_def)
  then have first: "rdU8 bs = Some (0x45, ip_tos h # hton16 (ip_payloadSize h + 20) @ hton16 (ip_identification h)
      @ ip_flagsFrag h # ucast (ip_fragmentOffset h div 8) # ip_ttl h # ip_protocol h # lsb16 c
      @ hton32 (ip_source h) @ hton32 (ip_destination h) @ rest)" by simp
  have "ip_Deserialize r bs = Some (ip_result h r, 20)"
    using good len unfolding ip_Deserialize_def bs_def [symmetric]
    by (simp add: first v fl ip_result_def ck ip_GetSerializedSize_def Let_def off [simplified])
  then show ?thesis by (simp only: bs_def)
qed

definition ip_fit :: "ipv4_header \<Rightarrow> ipv4_header \<Rightarrow> u8 list \<Rightarrow> bool" where
  "ip_fit h r pl \<longleftrightarrow> ip_ok h r \<and> ip_headerSize h = 20"

interpretation ip: ns3_header "\<lambda>h pl. Some (ip_Serialize h)" ip_Deserialize ip_GetSerializedSize ip_fit
  "\<lambda>h r pl. ip_result h r"
  by unfold_locales (use ip_read ip_Serialize_length in \<open>auto simp: ip_fit_def ip_GetSerializedSize_def\<close>)

text \<open>
  C27: an IPv4 packet is received as it was sent.  For a header without options that was built
  with the setters, \<^verbatim>\<open>AddHeader\<close> followed by \<^verbatim>\<open>RemoveHeader\<close> returns every field
  (flags and fragment offset included), the checksum verifies, and the payload is unchanged.
\<close>

theorem ipv4_roundtrip:
  assumes "store_ok s (add_mset b bs) X" and "ip_fit h r (buf_content s b)"
    and "buf_GetSize b + 139 < 2 ^ 32"
  shows "\<exists>b1 s1 h' b2. pkt_AddHeader (ip_GetSerializedSize h) (\<lambda>pl. Some (ip_Serialize h)) b s = Some (b1, s1)
    \<and> pkt_RemoveHeader (ip_Deserialize r) b1 s1 = Some (h', 20, b2)
    \<and> ip_tos h' = ip_tos h \<and> ip_payloadSize h' = ip_payloadSize h \<and> ip_identification h' = ip_identification h
    \<and> ip_flags h' = ip_flags h \<and> ip_fragmentOffset h' = ip_fragmentOffset h \<and> ip_ttl h' = ip_ttl h
    \<and> ip_protocol h' = ip_protocol h \<and> ip_source h' = ip_source h \<and> ip_destination h' = ip_destination h
    \<and> (ip_goodChecksum h' \<longleftrightarrow> ip_calcChecksum r \<or> ip_goodChecksum r)
    \<and> buf_content s1 b2 = buf_content s b \<and> (\<forall>c \<in># bs. buf_content s1 c = buf_content s c)"
proof -
  have hs: "ip_GetSerializedSize h = 20" using assms(2) by (simp add: ip_fit_def ip_GetSerializedSize_def)
  then have "buf_GetSize b + ip_GetSerializedSize h + 119 < 2 ^ 32" using assms(3) by simp
  from ip.packet_roundtrip [OF assms(1,2) this] obtain b1 s1 b2 where
    rt: "pkt_AddHeader (ip_GetSerializedSize h) (\<lambda>pl. Some (ip_Serialize h)) b s = Some (b1, s1)"
      "pkt_RemoveHeader (ip_Deserialize r) b1 s1 = Some (ip_result h r, 20, b2)"
      "buf_content s1 b2 = buf_content s b" "\<forall>c \<in># bs. buf_content s1 c = buf_content s c"
    unfolding hs by blast
  then show ?thesis
    by (intro exI [of _ b1] exI [of _ s1] exI [of _ "ip_result h r"] exI [of _ b2]) (simp add: ip_result_def)
qed

text \<open>
  A header that was received with options cannot be sent again.  \<^verbatim>\<open>Deserialize\<close> sets
  \<^verbatim>\<open>m_headerSize\<close> from the packet and \<^verbatim>\<open>GetSerializedSize\<close> returns it, so that
  \<^verbatim>\<open>AddHeader\<close> makes room for the options, but \<^verbatim>\<open>Serialize\<close> writes twenty bytes
  that announce a header of twenty bytes: whatever the remaining \<open>pad\<close> bytes hold, the next
  receiver takes them for the start of the payload.
\<close>

theorem ipv4_options_misplaced:
  assumes "ip_ok h r" and "ip_GetSerializedSize h = 20 + length pad"
  shows "length (ip_Serialize h) = 20
    \<and> ip_Deserialize r (ip_Serialize h @ pad @ pl) = Some (ip_result h r, 20)
    \<and> drop 20 (ip_Serialize h @ pad @ pl) = pad @ pl"
  using ip_read [OF assms(1)] ip_Serialize_length [of h] by simp

lemma low_two: "(0x3 :: u8) = mask 2"
  by (simp add: mask_eq_exp_minus_1)

lemma high_six: "(0xFC :: u8) = NOT (mask 2)"
  by (simp add: mask_eq_exp_minus_1)

text \<open>
  The two parts of the TOS byte do not disturb each other, and a setter determines what its
  getter returns: the DSCP for the code points of six bits, the ECN for its four values.
\<close>

theorem ipv4_tos_fields:
  assumes "dscp < 64" and "ecn < 4"
  shows "ip_GetDscp (ip_SetDscp dscp h) = dscp \<and> ip_GetEcn (ip_SetDscp dscp h) = ip_GetEcn h
    \<and> ip_GetEcn (ip_SetEcn ecn h) = ecn \<and> ip_GetDscp (ip_SetEcn ecn h) = ip_GetDscp h"
proof -
  have d: "take_bit 6 dscp = dscp" using assms(1) by (simp add: word_unat_eq_iff unsigned_take_bit_eq take_bit_nat_eq_self_iff word_less_nat_alt)
  have e: "take_bit 2 ecn = ecn" using assms(2) by (simp add: word_unat_eq_iff unsigned_take_bit_eq take_bit_nat_eq_self_iff word_less_nat_alt)
  have hd: "n < 6" if "bit dscp n" for n using that by (metis bit_take_bit_iff d)
  have he: "n < 2" if "bit ecn n" for n using that by (metis bit_take_bit_iff e)
  note defs = ip_GetDscp_def ip_SetDscp_def ip_GetEcn_def ip_SetEcn_def low_two high_six
  show ?thesis unfolding defs
    by (intro conjI; rule bit_word_eqI) (auto simp: bit_simps dest: hd he)
qed

definition sample_ip :: ipv4_header where
  "sample_ip = ip_SetDontFragment (ip_SetTtl 64 (ip_SetSource 0x0a000001 (ip_SetDestination 0x0a000002
     (ip_EnableChecksum Ipv4Header_init))))"

lemma sample_ip_ok: "ip_ok sample_ip (ip_EnableChecksum Ipv4Header_init)" "ip_headerSize sample_ip = 20"
  by (simp_all add: sample_ip_def ip_ok_def ip_SetDontFragment_def ip_SetTtl_def ip_SetSource_def
      ip_SetDestination_def ip_EnableChecksum_def Ipv4Header_init_def)

theorem ipv4_roundtrip_witness:
  "\<exists>s b b1 s1 h' b2. buf_content s b = replicate 10 0
    \<and> pkt_AddHeader 20 (\<lambda>pl. Some (ip_Serialize sample_ip)) b s = Some (b1, s1)
    \<and> pkt_RemoveHeader (ip_Deserialize (ip_EnableChecksum Ipv4Header_init)) b1 s1 = Some (h', 20, b2)
    \<and> ip_flags h' = ip_flags sample_ip \<and> ip_goodChecksum h' \<and> buf_content s1 b2 = replicate 10 0"
proof (rule shared_pair, goal_cases)
  case (1 s b c)
  have "ip_fit sample_ip (ip_EnableChecksum Ipv4Header_init) (buf_content s b)" "ip_GetSerializedSize sample_ip = 20"
    "ip_calcChecksum (ip_EnableChecksum Ipv4Header_init)"
    using sample_ip_ok by (simp_all add: ip_fit_def ip_GetSerializedSize_def ip_EnableChecksum_def)
  moreover have "buf_GetSize b + 139 < 2 ^ 32" using 1 by (simp add: buf_GetSize_def)
  ultimately show ?case
    using ipv4_roundtrip [of s b "{#c#}" "{#}" sample_ip "ip_EnableChecksum Ipv4Header_init"] 1(1,5) by metis
qed

theorem ipv4_options_misplaced_witness:
  "length (ip_Serialize (sample_ip\<lparr>ip_headerSize := 24\<rparr>)) = 20
    \<and> ip_GetSerializedSize (sample_ip\<lparr>ip_headerSize := 24\<rparr>) = 24
    \<and> drop 20 (ip_Serialize (sample_ip\<lparr>ip_headerSize := 24\<rparr>) @ [1, 2, 3, 4] @ [5]) = [1, 2, 3, 4, 5]"
proof -
  let ?h = "sample_ip\<lparr>ip_headerSize := 24\<rparr>"
  have "ip_ok ?h (ip_EnableChecksum Ipv4Header_init)" "ip_GetSerializedSize ?h = 20 + length [1, 2, 3, 4 :: u8]"
    using sample_ip_ok by (simp_all add: ip_ok_def ip_GetSerializedSize_def)
  then show ?thesis using ipv4_options_misplaced [of ?h "ip_EnableChecksum Ipv4Header_init" "[1, 2, 3, 4]" "[5]"] by simp
qed

theorem ipv4_tos_fields_witness:
  "ip_GetDscp (ip_SetDscp 0x2E Ipv4Header_init) = 0x2E \<and> ip_GetEcn (ip_SetEcn 3 Ipv4Header_init) = 3
    \<and> ip_DscpTypeToString 0x2E = ''EF''"
  using ipv4_tos_fields [of "0x2E" 3 Ipv4Header_init] by (simp add: ip_DscpTypeToString_def)

end
