(* ===== verification/Ipv4_Fragments.thy ===== *)
theory Ipv4_Fragments
  imports Ipv4_Header
begin

text \<open>
  Fragmentation and the set of fragments of one packet:
  \<^verbatim>\<open>Ipv4L3Protocol::DoFragmentation\<close> and the class \<^verbatim>\<open>Ipv4L3Protocol::Fragments\<close>
  (src/internet/model/ipv4-l3-protocol.cc, .h).  A packet is the list of its bytes.
\<close>

section \<open>Definitions\<close>

text \<open>
  \<^verbatim>\<open>Packet::CreateFragment\<close> on the bytes of a packet, with the 32-bit arithmetic of
  the sizes; that the buffer operation returns these bytes is shown for buffers.
\<close>

definition pkt_CreateFragment :: "nat \<Rightarrow> u32 \<Rightarrow> u8 list \<Rightarrow> u8 list option" where
  "pkt_CreateFragment start len p = do {
     let rest = drop start p;
     let cut = unat (of_nat (length p) - (of_nat start + len));
     ns_assert (of_nat (length p) \<ge> of_nat start + len);
     Some (take (length rest - cut) rest)
   }"

record fragments =
  fr_moreFragment :: bool
  fr_list :: "(u8 list \<times> u16) list"

definition Fragments_init :: fragments where
  "Fragments_init = \<lparr>fr_moreFragment = False, fr_list = []\<rparr>"

text \<open>The new fragment goes in front of the first one with a greater offset.\<close>

definition fr_AddFragment :: "u8 list \<Rightarrow> u16 \<Rightarrow> bool \<Rightarrow> fragments \<Rightarrow> fragments" where
  "fr_AddFragment fragment fragmentOffset moreFragment f =
     (let before = takeWhile (\<lambda>(_, k). \<not> k > fragmentOffset) (fr_list f);
          after = dropWhile (\<lambda>(_, k). \<not> k > fragmentOffset) (fr_list f);
          f = (if after = [] then f\<lparr>fr_moreFragment := moreFragment\<rparr> else f)
      in f\<lparr>fr_list := before @ (fragment, fragmentOffset) # after\<rparr>)"

fun fr_gapless :: "u16 \<Rightarrow> (u8 list \<times> u16) list \<Rightarrow> bool" where
  "fr_gapless lastEndOffset [] = True"
| "fr_gapless lastEndOffset ((p, k) # r) =
     (if lastEndOffset < k then False
      else fr_gapless (max lastEndOffset (of_nat (length p) + k)) r)"

definition fr_IsEntire :: "fragments \<Rightarrow> bool" where
  "fr_IsEntire f \<longleftrightarrow> \<not> fr_moreFragment f \<and> fr_list f \<noteq> [] \<and> fr_gapless 0 (fr_list f)"

fun fr_join :: "u8 list \<Rightarrow> (u8 list \<times> u16) list \<Rightarrow> u8 list option" where
  "fr_join p [] = Some p"
| "fr_join p ((q, k) # r) =
     (let lastEndOffset = of_nat (length p) :: u16 in
      if lastEndOffset > k
      then let newStart = unat lastEndOffset - unat k in
        if length q > newStart
        then do {
          tempFragment \<leftarrow> pkt_CreateFragment newStart (of_nat (length q) - of_nat newStart) q;
          fr_join (p @ tempFragment) r
        }
        else fr_join p r
      else fr_join (p @ q) r)"

text \<open>Without fragments the code dereferences the end of an empty list.\<close>

definition fr_GetPacket :: "fragments \<Rightarrow> u8 list option" where
  "fr_GetPacket f = (case fr_list f of [] \<Rightarrow> None | (p, _) # r \<Rightarrow> fr_join p r)"

fun fr_partial :: "u8 list \<Rightarrow> (u8 list \<times> u16) list \<Rightarrow> u8 list option" where
  "fr_partial p [] = Some p"
| "fr_partial p ((q, k) # r) =
     (let lastEndOffset = of_nat (length p) :: u16 in
      if lastEndOffset > k
      then do {
        let newStart = unat lastEndOffset - unat k;
        tempFragment \<leftarrow> pkt_CreateFragment newStart (of_nat (length q) - of_nat newStart) q;
        fr_partial (p @ tempFragment) r
      }
      else if lastEndOffset = k then fr_partial (p @ q) r
      else fr_partial p r)"

definition fr_GetPartialPacket :: "fragments \<Rightarrow> u8 list option" where
  "fr_GetPartialPacket f = (case fr_list f of
       [] \<Rightarrow> None
     | (_, k) # _ \<Rightarrow> if k > 0 then Some [] else fr_partial [] (fr_list f))"

text \<open>
  The loop of \<^verbatim>\<open>DoFragmentation\<close> may run for ever, so that it runs on fuel, one unit per
  fragment; an invalid offset aborts the program.
\<close>

datatype 'x frag_result = FragDone 'x | FragAbort | FragFuel

fun frag_bind :: "'x frag_result \<Rightarrow> ('x \<Rightarrow> 'y frag_result) \<Rightarrow> 'y frag_result" where
  "frag_bind (FragDone x) g = g x"
| "frag_bind FragAbort g = FragAbort"
| "frag_bind FragFuel g = FragFuel"

definition frag_header :: "bool \<Rightarrow> bool \<Rightarrow> u16 \<Rightarrow> u32 \<Rightarrow> ipv4_header \<Rightarrow> ipv4_header option" where
  "frag_header checksumEnabled mf offset' size' h = do {
     h \<leftarrow> ip_SetFragmentOffset offset' (if mf then ip_SetMoreFragments h else ip_SetLastFragment h);
     let h = ip_SetPayloadSize (ucast size') h;
     Some (if checksumEnabled then ip_EnableChecksum h else h)
   }"

fun frag_loop :: "nat \<Rightarrow> bool \<Rightarrow> u8 list \<Rightarrow> ipv4_header \<Rightarrow> u32 \<Rightarrow> u16
    \<Rightarrow> (u8 list \<times> ipv4_header) list frag_result" where
  "frag_loop 0 checksumEnabled p h fragmentSize offset' = FragFuel"
| "frag_loop (Suc fuel) checksumEnabled p h fragmentSize offset' =
     (let moreFragment = (of_nat (length p) > ucast offset' + fragmentSize);
          size' = (if moreFragment then fragmentSize else of_nat (length p) - ucast offset')
      in case (pkt_CreateFragment (unat offset') size' p,
               frag_header checksumEnabled (moreFragment \<or> \<not> ip_IsLastFragment h)
                 (offset' + ip_GetFragmentOffset h) size' h) of
           (Some fragment, Some fragmentHeader) \<Rightarrow>
             if moreFragment
             then frag_bind (frag_loop fuel checksumEnabled p h fragmentSize (offset' + ucast size'))
                    (\<lambda>fs. FragDone ((fragment, fragmentHeader) # fs))
             else FragDone [(fragment, fragmentHeader)]
         | _ \<Rightarrow> FragAbort)"

definition l3_DoFragmentation :: "nat \<Rightarrow> bool \<Rightarrow> u8 list \<Rightarrow> ipv4_header \<Rightarrow> u32
    \<Rightarrow> (u8 list \<times> ipv4_header) list frag_result" where
  "l3_DoFragmentation fuel checksumEnabled packet ipv4Header outIfaceMtu =
     (if ip_GetSerializedSize ipv4Header = 5 * 4
      then frag_loop fuel checksumEnabled packet ipv4Header
             ((outIfaceMtu - of_nat (ip_GetSerializedSize ipv4Header)) AND NOT 0x7) 0
      else FragAbort)"

section \<open>Fragments of a packet\<close>

lemma pkt_CreateFragment_ok:
  assumes "start + n \<le> length p" and "length p < 2 ^ 32"
  shows "pkt_CreateFragment start (of_nat n) p = Some (take n (drop start p))"
proof -
  have le: "of_nat start + of_nat n \<le> (of_nat (length p) :: u32)"
    using assms by (simp add: word_le_nat_alt unat_of_nat flip: of_nat_add)
  have "(of_nat (length p) :: u32) - (of_nat start + of_nat n) = of_nat (length p - (start + n))"
    using assms(1) by (simp add: of_nat_diff)
  then have "unat ((of_nat (length p) :: u32) - (of_nat start + of_nat n)) = length p - (start + n)"
    using assms(2) by (simp add: unat_of_nat)
  then show ?thesis using le assms by (simp add: pkt_CreateFragment_def Let_def)
qed

text \<open>What the code asks for when a fragment adds nothing is an empty one.\<close>

lemma pkt_CreateFragment_rest:
  assumes "length p < 2 ^ 32"
  shows "pkt_CreateFragment start (of_nat (length p) - of_nat start) p = Some (drop start p)"
  by (simp add: pkt_CreateFragment_def Let_def)

text \<open>
  \<open>piece S p k mf\<close>: \<open>p\<close> is the part of the payload \<open>S\<close> at offset \<open>k\<close>, and \<open>mf\<close> says whether
  it is followed by more.
\<close>

definition piece :: "u8 list \<Rightarrow> u8 list \<Rightarrow> u16 \<Rightarrow> bool \<Rightarrow> bool" where
  "piece S p k mf \<longleftrightarrow> unat k + length p \<le> length S \<and> p = take (length p) (drop (unat k) S)
     \<and> (mf \<longleftrightarrow> unat k + length p < length S)"

definition piece_end :: "u8 list \<times> u16 \<Rightarrow> nat" where
  "piece_end x = unat (snd x) + length (fst x)"

text \<open>Everything that is stored comes from \<open>S\<close>, and no more to come means that the end is there.\<close>

definition fr_ok :: "u8 list \<Rightarrow> fragments \<Rightarrow> bool" where
  "fr_ok S f \<longleftrightarrow> (\<forall>(p, k) \<in> set (fr_list f). \<exists>mf. piece S p k mf)
     \<and> (fr_list f \<noteq> [] \<and> \<not> fr_moreFragment f \<longrightarrow> (\<exists>x \<in> set (fr_list f). piece_end x = length S))"

lemma fr_ok_init: "fr_ok S Fragments_init"
  by (simp add: fr_ok_def Fragments_init_def)

lemma fr_AddFragment_set: "set (fr_list (fr_AddFragment p k mf f)) = insert (p, k) (set (fr_list f))"
proof -
  let ?P = "\<lambda>(_, j). \<not> j > k"
  have "set (takeWhile ?P (fr_list f) @ dropWhile ?P (fr_list f)) = set (fr_list f)"
    by (simp only: takeWhile_dropWhile_id)
  then show ?thesis by (auto simp: fr_AddFragment_def Let_def simp del: takeWhile_dropWhile_id)
qed

lemma fr_ok_AddFragment:
  assumes ok: "fr_ok S f" and new: "piece S p k mf"
  shows "fr_ok S (fr_AddFragment p k mf f)"
proof -
  let ?f = "fr_AddFragment p k mf f"
  have "\<exists>x \<in> set (fr_list ?f). piece_end x = length S" if "\<not> fr_moreFragment ?f"
  proof (cases "dropWhile (\<lambda>(_, j). \<not> j > k) (fr_list f) = []")
    case True
    then have "\<not> mf" using that by (simp add: fr_AddFragment_def Let_def)
    then have "piece_end (p, k) = length S" using new by (simp add: piece_def piece_end_def)
    then show ?thesis using fr_AddFragment_set [of p k mf f] by blast
  next
    case False
    then have "\<not> fr_moreFragment f" "fr_list f \<noteq> []"
      using that by (auto simp: fr_AddFragment_def Let_def split: if_splits)
    then show ?thesis using ok fr_AddFragment_set [of p k mf f] by (auto simp: fr_ok_def)
  qed
  then show ?thesis using ok new fr_AddFragment_set [of p k mf f] by (auto simp: fr_ok_def)
qed

section \<open>Putting the packet together\<close>

lemma glue:
  assumes "piece S q k mf" and "unat k \<le> n" and "n \<le> unat k + length q"
  shows "take n S @ drop (n - unat k) q = take (unat k + length q) S"
proof -
  let ?o = "unat k" and ?l = "length q"
  have q: "q = take ?l (drop ?o S)" using assms(1) by (simp add: piece_def)
  have "drop (n - ?o) (take ?l (drop ?o S)) = take (?o + ?l - n) (drop n S)"
    using assms(2,3) by (simp add: drop_take add.commute)
  then have "drop (n - ?o) q = take (?o + ?l - n) (drop n S)" using q by argo
  then show ?thesis using take_add [of n "?o + ?l - n" S] assms(3) by simp
qed

lemma fold_max_step: "fold max (x # xs) n = fold max xs (max n (x :: nat))"
  by (simp add: max.commute [of x n])

lemma fold_max_ge: "n \<le> fold max xs (n :: nat)"
  by (induction xs arbitrary: n) (simp_all del: fold.simps(2) add: fold_max_step, meson max.boundedE)

lemma fold_max_full:
  assumes "\<exists>x \<in> set xs. x = l" and "\<forall>x \<in> set xs. x \<le> l" and "n \<le> l"
  shows "fold max xs (n :: nat) = l"
  using assms
proof (induction xs arbitrary: n)
  case (Cons x xs)
  show ?case
  proof (cases "l \<in> set xs")
    case False
    then have "x = l" using Cons.prems(1) by auto
    then have "l \<le> fold max (x # xs) n" using Cons.prems(3) fold_max_ge [of l xs] by (simp add: max_absorb1 max_absorb2)
    moreover have "fold max ys m \<le> l" if "\<forall>y \<in> set ys. y \<le> l" "m \<le> l" for ys :: "nat list" and m
      using that by (induction ys arbitrary: m) simp_all
    ultimately show ?thesis using Cons.prems(2,3) by (meson antisym)
  qed (use Cons in simp)
qed simp

lemma unat_end:
  assumes "piece S q k mf" and "length S \<le> 65535"
  shows "unat (of_nat (length q) + k) = piece_end (q, k)"
  using assms by (subst unat_word_ariths(1)) (simp add: piece_def piece_end_def unat_of_nat)

lemma of_nat_max16: "a \<le> 65535 \<Longrightarrow> b \<le> 65535 \<Longrightarrow> max (of_nat a) (of_nat b) = (of_nat (max a b) :: u16)"
  by (auto simp: max_def word_le_nat_alt unat_of_nat)

text \<open>One step of the walk over the fragments, in terms of the offsets.\<close>

lemma gapless_step:
  assumes "piece S q k mf" and "length S \<le> 65535" and "n \<le> length S"
  shows "fr_gapless (of_nat n) ((q, k) # r) \<longleftrightarrow> unat k \<le> n \<and> fr_gapless (of_nat (max n (piece_end (q, k)))) r"
proof -
  have b: "piece_end (q, k) \<le> 65535" using assms by (simp add: piece_def piece_end_def)
  have e: "of_nat (length q) + k = of_nat (piece_end (q, k))"
  proof -
    have "unat (of_nat (piece_end (q, k)) :: u16) = piece_end (q, k)" using b by (simp add: unat_of_nat)
    then show ?thesis using unat_end [OF assms(1,2)] by (simp only: word_unat_eq_iff)
  qed
  from b have "max (of_nat n) (of_nat (length q) + k) = of_nat (max n (piece_end (q, k)))"
    unfolding e using assms by (intro of_nat_max16) simp_all
  moreover have "of_nat n < k \<longleftrightarrow> n < unat k" using assms by (simp add: word_less_nat_alt unat_of_nat)
  ultimately show ?thesis by simp
qed

lemma fr_join_ok:
  assumes len: "length S \<le> 65535" and "\<forall>(q, k) \<in> set r. \<exists>mf. piece S q k mf" and "n \<le> length S"
    and "fr_gapless (of_nat n) r"
  shows "fr_join (take n S) r = Some (take (fold max (map piece_end r) n) S)"
  using assms(2-)
proof (induction r arbitrary: n)
  case (Cons x r)
  obtain q k where x: "x = (q, k)" by (cases x)
  obtain mf where pc: "piece S q k mf" using Cons.prems(1) x by auto
  let ?e = "piece_end (q, k)"
  have gap: "unat k \<le> n" "fr_gapless (of_nat (max n ?e)) r"
    using Cons.prems(3) gapless_step [OF pc len Cons.prems(2), of r] unfolding x by blast+
  have e: "?e \<le> length S" using pc by (simp add: piece_def piece_end_def)
  have ih: "fr_join (take (max n ?e) S) r = Some (take (fold max (map piece_end (x # r)) n) S)"
    using Cons.IH [of "max n ?e"] Cons.prems(1,2) gap(2) e x by (simp add: fold_max_step del: fold.simps(2))
  have l: "length (take n S) = n" "unat (of_nat n :: u16) = n" using Cons.prems(2) len by (simp_all add: unat_of_nat)
  have lt: "of_nat n > k \<longleftrightarrow> n > unat k" using l by (simp add: word_less_nat_alt)
  have "length q < 2 ^ 32" using pc len by (simp add: piece_def)
  then have frag: "pkt_CreateFragment (n - unat k) (of_nat (length q) - of_nat (n - unat k)) q = Some (drop (n - unat k) q)"
    by (rule pkt_CreateFragment_rest)
  have "fr_join (take n S) (x # r) = fr_join (take (max n ?e) S) r"
  proof (cases "n < ?e")
    case True
    then have g: "take n S @ drop (n - unat k) q = take (max n ?e) S"
      using glue [OF pc gap(1)] by (simp add: piece_end_def)
    show ?thesis
    proof (cases "n = unat k")
      case True
      then show ?thesis using g lt l x by (simp add: Let_def)
    next
      case False
      then show ?thesis using g lt l x frag gap(1) True by (simp add: Let_def piece_end_def less_diff_conv2)
    qed
  next
    case False
    then show ?thesis using lt l x gap(1) by (auto simp: Let_def piece_end_def max_absorb1)
  qed
  then show ?case using ih by simp
qed simp

lemma fr_GetPacket_ok:
  assumes "fr_ok S f" and "fr_IsEntire f" and len: "length S \<le> 65535"
  shows "fr_GetPacket f = Some S"
proof -
  obtain p k r where l: "fr_list f = (p, k) # r" using assms(2) by (cases "fr_list f") (auto simp: fr_IsEntire_def)
  obtain mf where pc: "piece S p k mf" using assms(1) l by (auto simp: fr_ok_def)
  have "fr_gapless (of_nat 0) ((p, k) # r)" using assms(2) unfolding fr_IsEntire_def l by (simp del: fr_gapless.simps)
  then have k: "unat k = 0" "fr_gapless (of_nat (max 0 (piece_end (p, k)))) r"
    using gapless_step [OF pc len, of 0 r] by blast+
  then have p: "p = take (length p) S" and e: "piece_end (p, k) = length p"
    using pc by (simp_all add: piece_def piece_end_def)
  have "fr_join (take (length p) S) r = Some (take (fold max (map piece_end r) (length p)) S)"
    using assms(1) l pc k(2) e by (intro fr_join_ok [OF len]) (auto simp: fr_ok_def piece_def)
  moreover have "fold max (map piece_end r) (length p) = length S"
  proof -
    have "\<exists>x \<in> set ((p, k) # r). piece_end x = length S" "\<forall>x \<in> set ((p, k) # r). piece_end x \<le> length S"
      using assms(1,2) l by (auto simp: fr_ok_def fr_IsEntire_def piece_def piece_end_def)
    then have "fold max (map piece_end ((p, k) # r)) 0 = length S"
      by (intro fold_max_full) (auto simp: image_iff intro: sym)
    then show ?thesis using e by simp
  qed
  ultimately show ?thesis using p l by (simp add: fr_GetPacket_def)
qed

text \<open>The part that an expired packet leaves is a prefix of the payload.\<close>

lemma fr_partial_ok:
  assumes len: "length S \<le> 65535" and "\<forall>(q, k) \<in> set r. \<exists>mf. piece S q k mf" and "n \<le> length S"
  shows "\<exists>m. fr_partial (take n S) r = Some (take m S) \<and> n \<le> m \<and> m \<le> length S"
  using assms(2-)
proof (induction r arbitrary: n)
  case (Cons x r)
  obtain q k where x: "x = (q, k)" by (cases x)
  obtain mf where pc: "piece S q k mf" using Cons.prems(1) x by auto
  let ?e = "piece_end (q, k)"
  have e: "?e \<le> length S" using pc by (simp add: piece_def piece_end_def)
  have l: "length (take n S) = n" "unat (of_nat n :: u16) = n" using Cons.prems(2) len by (simp_all add: unat_of_nat)
  have lt: "of_nat n > k \<longleftrightarrow> n > unat k" "of_nat n = k \<longleftrightarrow> n = unat k"
    using l by (simp_all add: word_less_nat_alt word_unat_eq_iff)
  have "length q < 2 ^ 32" using pc len by (simp add: piece_def)
  then have frag: "pkt_CreateFragment (n - unat k) (of_nat (length q) - of_nat (n - unat k)) q = Some (drop (n - unat k) q)"
    by (rule pkt_CreateFragment_rest)
  have ih: "\<exists>m. fr_partial (take j S) r = Some (take m S) \<and> n \<le> m \<and> m \<le> length S" if "n \<le> j" "j \<le> length S" for j
    using Cons.IH [of j] Cons.prems(1) that by (auto intro: order_trans)
  consider "unat k \<le> n" "n \<le> ?e" | "unat k < n" "?e < n" | "n < unat k" by (metis not_less not_le piece_end_def le_add1 fst_conv snd_conv order_le_less_trans)
  then show ?case
  proof cases
    case 1
    then have g: "take n S @ drop (n - unat k) q = take ?e S" using glue [OF pc] by (simp add: piece_end_def)
    have "fr_partial (take n S) (x # r) = fr_partial (take ?e S) r"
    proof (cases "n = unat k")
      case True
      then show ?thesis using g lt l x by (simp add: Let_def)
    next
      case False
      then have "of_nat n > k" using lt 1 by simp
      then show ?thesis using g l frag unfolding x by (simp add: Let_def)
    qed
    then show ?thesis using ih [of ?e] 1 e by simp
  next
    case 2
    then have "drop (n - unat k) q = []" by (simp add: piece_end_def)
    then show ?thesis using ih [of n] Cons.prems(2) lt l x frag 2 by (simp add: Let_def)
  next
    case 3
    then show ?thesis using ih [of n] Cons.prems(2) lt l x by (simp add: Let_def)
  qed
qed auto

lemma fr_GetPartialPacket_ok:
  assumes "fr_ok S f" and "fr_list f \<noteq> []" and "length S \<le> 65535"
  shows "\<exists>m. fr_GetPartialPacket f = Some (take m S)"
proof -
  have "\<exists>m. fr_partial (take 0 S) (fr_list f) = Some (take m S)"
    using fr_partial_ok [OF assms(3), of "fr_list f" 0] assms(1) by (auto simp: fr_ok_def)
  then show ?thesis using assms(2) by (auto simp: fr_GetPartialPacket_def split: list.split intro: exI [of _ 0])
qed

section \<open>Cutting a packet into fragments\<close>

lemma IsLast_bit: "ip_IsLastFragment h \<longleftrightarrow> \<not> bit (ip_flags h) 1"
  using flags_bits(2) [of "ip_flags h"] unfolding ip_IsLastFragment_def by blast

lemma set_flag_bits:
  "ip_IsLastFragment (ip_SetMoreFragments h) \<longleftrightarrow> False" "ip_IsLastFragment (ip_SetLastFragment h) \<longleftrightarrow> True"
proof -
  have b: "bit (2 :: u3) 1" using flags_bits(2) [of 2] by simp
  show "ip_IsLastFragment (ip_SetMoreFragments h) \<longleftrightarrow> False"
    using b by (simp only: IsLast_bit ip_SetMoreFragments_def) (simp add: bit_or_iff)
  have "\<not> bit (ip_flags h AND NOT 2) 1" using b by (simp only: bit_and_iff bit_not_iff) simp
  then show "ip_IsLastFragment (ip_SetLastFragment h) \<longleftrightarrow> True"
    unfolding IsLast_bit ip_SetLastFragment_def by simp
qed

lemma and_seven: "k AND 0x7 = 0 \<longleftrightarrow> 8 dvd unat (k :: u16)"
proof -
  have "k AND 0x7 = take_bit 3 k" by (simp add: take_bit_eq_mask mask_eq_exp_minus_1)
  moreover have "take_bit 3 k = 0 \<longleftrightarrow> unat (take_bit 3 k) = 0" by (simp only: unat_eq_0)
  ultimately show ?thesis by (simp add: take_bit_eq_mod unat_mod dvd_eq_mod_eq_0)
qed

lemma fragment_size:
  assumes "20 \<le> unat mtu"
  shows "unat ((mtu - of_nat 20) AND NOT 0x7 :: u32) = 8 * ((unat mtu - 20) div 8)"
proof -
  let ?x = "mtu - of_nat 20"
  have x: "unat ?x = unat mtu - 20" using assms by (simp add: unat_sub word_le_nat_alt)
  have "?x AND NOT 0x7 = ?x AND NOT (mask 3)" by (simp add: mask_eq_exp_minus_1)
  also have "\<dots> = push_bit 3 (drop_bit 3 ?x)" by (rule bit_word_eqI) (auto simp: bit_simps)
  also have "unat \<dots> = 8 * (unat ?x div 8)"
  proof -
    have "unat (drop_bit 3 ?x) = unat ?x div 8" by (simp add: drop_bit_eq_div unat_div)
    moreover have "unat ?x div 8 * 8 < 2 ^ 32" using unsigned_less [of ?x, where ?'a = nat] by simp
    ultimately show ?thesis by (simp add: push_bit_eq_mult unat_word_ariths(2))
  qed
  finally show ?thesis using x by simp
qed

text \<open>A fragment \<open>x\<close> of the payload \<open>S\<close>, cut from a packet with header \<open>h\<close>, with at most \<open>n\<close> bytes.\<close>

definition frag_of :: "u8 list \<Rightarrow> ipv4_header \<Rightarrow> nat \<Rightarrow> u8 list \<times> ipv4_header \<Rightarrow> bool" where
  "frag_of S h n x \<longleftrightarrow> piece S (fst x) (ip_fragmentOffset (snd x)) (\<not> ip_IsLastFragment (snd x))
     \<and> length (fst x) \<le> n \<and> unat (ip_payloadSize (snd x)) = length (fst x) \<and> ip_source (snd x) = ip_source h
     \<and> ip_destination (snd x) = ip_destination h \<and> ip_identification (snd x) = ip_identification h
     \<and> ip_protocol (snd x) = ip_protocol h \<and> ip_ttl (snd x) = ip_ttl h \<and> ip_tos (snd x) = ip_tos h
     \<and> ip_headerSize (snd x) = ip_headerSize h \<and> ip_fragmentOffset (snd x) AND 0x7 = 0"

fun contiguous :: "nat \<Rightarrow> (u8 list \<times> ipv4_header) list \<Rightarrow> bool" where
  "contiguous k [] = True"
| "contiguous k (x # r) \<longleftrightarrow> unat (ip_fragmentOffset (snd x)) = k \<and> contiguous (k + length (fst x)) r"

lemma set_flags_fields [simp]:
  "ip_source (ip_SetMoreFragments h) = ip_source h" "ip_source (ip_SetLastFragment h) = ip_source h"
  "ip_destination (ip_SetMoreFragments h) = ip_destination h" "ip_destination (ip_SetLastFragment h) = ip_destination h"
  "ip_identification (ip_SetMoreFragments h) = ip_identification h" "ip_identification (ip_SetLastFragment h) = ip_identification h"
  "ip_protocol (ip_SetMoreFragments h) = ip_protocol h" "ip_protocol (ip_SetLastFragment h) = ip_protocol h"
  "ip_ttl (ip_SetMoreFragments h) = ip_ttl h" "ip_ttl (ip_SetLastFragment h) = ip_ttl h"
  "ip_tos (ip_SetMoreFragments h) = ip_tos h" "ip_tos (ip_SetLastFragment h) = ip_tos h"
  "ip_headerSize (ip_SetMoreFragments h) = ip_headerSize h" "ip_headerSize (ip_SetLastFragment h) = ip_headerSize h"
  by (simp_all add: ip_SetMoreFragments_def ip_SetLastFragment_def)

lemma frag_header_ok:
  assumes "k AND 0x7 = 0"
  obtains h' where "frag_header ck mf k sz h = Some h'" "ip_fragmentOffset h' = k" "ip_payloadSize h' = ucast sz"
    "\<not> ip_IsLastFragment h' \<longleftrightarrow> mf" "ip_source h' = ip_source h" "ip_destination h' = ip_destination h"
    "ip_identification h' = ip_identification h" "ip_protocol h' = ip_protocol h" "ip_ttl h' = ip_ttl h"
    "ip_tos h' = ip_tos h" "ip_headerSize h' = ip_headerSize h"
proof -
  let ?m = "if mf then ip_SetMoreFragments h else ip_SetLastFragment h"
  let ?h = "ip_SetPayloadSize (ucast sz) (?m\<lparr>ip_fragmentOffset := k\<rparr>)"
  have "ip_flags (if ck then ip_EnableChecksum ?h else ?h) = ip_flags ?m"
    by (simp add: ip_SetPayloadSize_def ip_EnableChecksum_def)
  then have "\<not> ip_IsLastFragment (if ck then ip_EnableChecksum ?h else ?h) \<longleftrightarrow> mf"
    using set_flag_bits [of h] by (simp only: IsLast_bit split: if_split) simp
  then show ?thesis using assms
    by (intro that [of "if ck then ip_EnableChecksum ?h else ?h"])
      (simp_all add: frag_header_def ip_SetFragmentOffset_def ip_SetPayloadSize_def ip_EnableChecksum_def)
qed

lemma sub_piece:
  assumes "piece S p k mf" and "j + n \<le> length p" and "length S \<le> 65535"
  shows "piece S (take n (drop j p)) (of_nat j + k) (j + n < length p \<or> mf)"
proof -
  have u: "unat (of_nat j + k) = j + unat k"
    using assms by (subst unat_word_ariths(1)) (simp add: piece_def unat_of_nat)
  have "take n (drop j (take (length p) (drop (unat k) S))) = take n (drop (j + unat k) S)"
    using assms(2) by (simp add: drop_take min_def add.commute)
  moreover have "p = take (length p) (drop (unat k) S)" using assms(1) by (simp add: piece_def)
  ultimately have "take n (drop j p) = take n (drop (j + unat k) S)" by argo
  then show ?thesis using assms by (auto simp: piece_def u)
qed

lemma frag_step:
  assumes pc: "piece S p (ip_fragmentOffset h) (\<not> ip_IsLastFragment h)" and len: "length S \<le> 65535"
    and al: "ip_fragmentOffset h AND 0x7 = 0" "8 dvd j" and n: "j + n \<le> length p" "n \<le> N"
    and mf: "mf \<longleftrightarrow> j + n < length p \<or> \<not> ip_IsLastFragment h"
  obtains h' where "frag_header ck mf (of_nat j + ip_fragmentOffset h) (of_nat n) h = Some h'"
    "frag_of S h N (take n (drop j p), h')" "unat (ip_fragmentOffset h') = unat (ip_fragmentOffset h) + j"
proof -
  let ?k = "of_nat j + ip_fragmentOffset h"
  have u: "unat ?k = unat (ip_fragmentOffset h) + j"
    using pc len n(1) by (subst unat_word_ariths(1)) (simp add: piece_def unat_of_nat)
  have "?k AND 0x7 = 0" using al u by (simp add: and_seven)
  then obtain h' where h': "frag_header ck mf ?k (of_nat n) h = Some h'" "ip_fragmentOffset h' = ?k"
    "ip_payloadSize h' = ucast (of_nat n :: u32)"
    "\<not> ip_IsLastFragment h' \<longleftrightarrow> mf" "ip_source h' = ip_source h" "ip_destination h' = ip_destination h"
    "ip_identification h' = ip_identification h" "ip_protocol h' = ip_protocol h" "ip_ttl h' = ip_ttl h"
    "ip_tos h' = ip_tos h" "ip_headerSize h' = ip_headerSize h"
    by (rule frag_header_ok)
  have n16: "n \<le> 65535" using n(1) pc len by (simp add: piece_def)
  then have "unat (ip_payloadSize h') = n" by (simp add: h'(3) unsigned_ucast_eq unat_of_nat take_bit_eq_mod)
  then have "frag_of S h N (take n (drop j p), h')"
    using sub_piece [OF pc n(1) len] h' n mf \<open>?k AND 0x7 = 0\<close> by (simp add: frag_of_def)
  then show ?thesis using that h'(1,2) u by simp
qed

lemma frag_loop_ok:
  assumes pc: "piece S p (ip_fragmentOffset h) (\<not> ip_IsLastFragment h)" and len: "length S \<le> 65535"
    and al: "ip_fragmentOffset h AND 0x7 = 0" and N: "8 dvd N" "0 < N" "N \<le> 65535"
    and "8 dvd j" and "j \<le> length p" and "length p - j < fuel"
  shows "\<exists>fs. frag_loop fuel ck p h (of_nat N) (of_nat j) = FragDone fs \<and> concat (map fst fs) = drop j p
    \<and> contiguous (unat (ip_fragmentOffset h) + j) fs \<and> (\<forall>x \<in> set fs. frag_of S h N x)
    \<and> (j < length p \<longrightarrow> (\<forall>x \<in> set fs. fst x \<noteq> [])) \<and> fs \<noteq> []"
  using assms(7-)
proof (induction fuel arbitrary: j)
  case (Suc fuel)
  let ?L = "length p"
  have L: "?L \<le> 65535" using pc len by (simp add: piece_def)
  have j: "unat (of_nat j :: u16) = j" "ucast (of_nat j :: u16) = (of_nat j :: u32)"
    using Suc.prems(2) L by (simp_all add: unat_of_nat word_unat_eq_iff unsigned_ucast_eq take_bit_eq_mod)
  have cond: "of_nat ?L > ucast (of_nat j :: u16) + (of_nat N :: u32) \<longleftrightarrow> j + N < ?L"
    using j L N(3) Suc.prems(2) by (simp add: word_less_nat_alt unat_of_nat flip: of_nat_add)
  show ?case
  proof (cases "j + N < ?L")
    case True
    obtain h' where h': "frag_header ck True (of_nat j + ip_fragmentOffset h) (of_nat N) h = Some h'"
      "frag_of S h N (take N (drop j p), h')" "unat (ip_fragmentOffset h') = unat (ip_fragmentOffset h) + j"
      by (rule frag_step [OF pc len al Suc.prems(1), of N N True]) (use True in auto)
    have cf: "pkt_CreateFragment j (of_nat N) p = Some (take N (drop j p))"
      using True L by (intro pkt_CreateFragment_ok) simp_all
    have nxt: "(of_nat j :: u16) + ucast (of_nat N :: u32) = of_nat (j + N)"
      using N(3) by (simp add: word_unat_eq_iff unat_word_ariths(1) unsigned_ucast_eq unat_of_nat take_bit_eq_mod)
    have less: "?L - (j + N) < fuel" using Suc.prems(3) True N(2) by linarith
    obtain fs where fs: "frag_loop fuel ck p h (of_nat N) (of_nat (j + N)) = FragDone fs"
      "concat (map fst fs) = drop (j + N) p" "contiguous (unat (ip_fragmentOffset h) + (j + N)) fs"
      "\<forall>x \<in> set fs. frag_of S h N x" "\<forall>x \<in> set fs. fst x \<noteq> []"
      using Suc.IH [of "j + N"] Suc.prems(1) N True less by auto
    have "frag_loop (Suc fuel) ck p h (of_nat N) (of_nat j) = FragDone ((take N (drop j p), h') # fs)"
      using cond True cf h'(1) fs(1) nxt j(1) by (simp add: Let_def ip_GetFragmentOffset_def)
    moreover have "take N (drop j p) @ drop (j + N) p = drop j p"
      by (metis add.commute append_take_drop_id drop_drop)
    moreover have "length (take N (drop j p)) = N" "take N (drop j p) \<noteq> []" using True N(2) by auto
    ultimately show ?thesis using fs h'(2,3)
      by (intro exI [of _ "(take N (drop j p), h') # fs"]) (simp add: add.assoc)
  next
    case False
    let ?n = "?L - j"
    obtain h' where h': "frag_header ck (\<not> ip_IsLastFragment h) (of_nat j + ip_fragmentOffset h) (of_nat ?n) h = Some h'"
      "frag_of S h N (take ?n (drop j p), h')" "unat (ip_fragmentOffset h') = unat (ip_fragmentOffset h) + j"
      by (rule frag_step [OF pc len al Suc.prems(1), of ?n N "\<not> ip_IsLastFragment h"]) (use False Suc.prems(2) in auto)
    have cf: "pkt_CreateFragment j (of_nat ?n) p = Some (take ?n (drop j p))"
      using L Suc.prems(2) by (intro pkt_CreateFragment_ok) simp_all
    have sz: "of_nat ?L - (of_nat j :: u32) = of_nat ?n" using Suc.prems(2) by (simp add: of_nat_diff)
    have "frag_loop (Suc fuel) ck p h (of_nat N) (of_nat j) = FragDone [(take ?n (drop j p), h')]"
      using cond False cf h'(1) sz j by (simp add: Let_def ip_GetFragmentOffset_def)
    then show ?thesis using h'(2,3) by auto
  qed
qed simp

lemma l3_DoFragmentation_ok:
  assumes "piece S p (ip_fragmentOffset h) (\<not> ip_IsLastFragment h)" and "length S \<le> 65535"
    and "ip_fragmentOffset h AND 0x7 = 0" and "ip_headerSize h = 20"
    and "28 \<le> unat mtu" and "unat mtu \<le> 65535" and "length p < fuel"
  shows "\<exists>fs. l3_DoFragmentation fuel ck p h mtu = FragDone fs \<and> concat (map fst fs) = p
    \<and> contiguous (unat (ip_fragmentOffset h)) fs \<and> (\<forall>x \<in> set fs. frag_of S h (unat mtu - 20) x)
    \<and> (p \<noteq> [] \<longrightarrow> (\<forall>x \<in> set fs. fst x \<noteq> [])) \<and> fs \<noteq> []"
proof -
  let ?N = "8 * ((unat mtu - 20) div 8)"
  have N: "8 dvd ?N" "0 < ?N" "?N \<le> 65535" "?N \<le> unat mtu - 20"
    using assms(5,6) by (simp_all add: div_greater_zero_iff)
  have sz: "(mtu - of_nat 20) AND NOT 0x7 = of_nat ?N"
  proof -
    have "unat ((mtu - of_nat 20) AND NOT 0x7) = ?N" using assms(5) by (intro fragment_size) simp
    moreover have "unat (of_nat n :: u32) = n" if "n \<le> 65535" for n using that by (simp add: unat_of_nat)
    then have "unat (of_nat ?N :: u32) = ?N" using N(3) .
    ultimately show ?thesis by (simp only: word_unat_eq_iff)
  qed
  have hs: "ip_GetSerializedSize h = 20" using assms(4) by (simp add: ip_GetSerializedSize_def)
  have e: "l3_DoFragmentation fuel ck p h mtu = frag_loop fuel ck p h (of_nat ?N) (of_nat 0)"
    unfolding l3_DoFragmentation_def hs sz [symmetric] by simp
  have w: "frag_of S h (unat mtu - 20) x" if "frag_of S h ?N x" for x using that unfolding frag_of_def by (auto intro: order_trans [OF _ N(4)])
  obtain fs where "frag_loop fuel ck p h (of_nat ?N) (of_nat 0) = FragDone fs" "concat (map fst fs) = drop 0 p"
    "contiguous (unat (ip_fragmentOffset h) + 0) fs" "\<forall>x \<in> set fs. frag_of S h ?N x"
    "0 < length p \<longrightarrow> (\<forall>x \<in> set fs. fst x \<noteq> [])" "fs \<noteq> []"
    using frag_loop_ok [OF assms(1-3) N(1-3), of 0 fuel ck] assms(7) by auto
  then show ?thesis using w unfolding e by (intro exI [of _ fs]) simp
qed

lemma frag_loop_zero:
  assumes "p \<noteq> []" and "length p < 2 ^ 32" and "ip_fragmentOffset h AND 0x7 = 0"
  shows "frag_loop fuel ck p h 0 0 = FragFuel"
proof (induction fuel)
  case (Suc fuel)
  obtain h' where h': "frag_header ck True (ip_fragmentOffset h) 0 h = Some h'"
    using frag_header_ok [OF assms(3)] by blast
  have "pkt_CreateFragment 0 0 p = Some []" using pkt_CreateFragment_ok [of 0 0 p] assms(2) by simp
  moreover have "of_nat (length p) > (0 :: u32)" using assms(1,2) by (simp add: word_less_nat_alt unat_of_nat)
  ultimately show ?case using h' Suc by (simp add: Let_def ip_GetFragmentOffset_def)
qed simp

text \<open>
  C34: fragmentation.  With an MTU that has room for eight bytes of payload,
  \<^verbatim>\<open>DoFragmentation\<close> ends (within as many rounds as there are bytes), aborts on no offset,
  and cuts the packet into consecutive pieces: together they are the packet, each fits the MTU
  with its header, starts at a multiple of eight where the piece before ends, carries the flag
  \<^verbatim>\<open>MoreFragments\<close> exactly when bytes of the original payload \<open>S\<close> follow it, and keeps the
  addresses, the identification and the protocol.  The packet may itself be a fragment of \<open>S\<close>.
\<close>

theorem fragmentation_ok:
  assumes "piece S p (ip_fragmentOffset h) (\<not> ip_IsLastFragment h)" and "length S \<le> 65535"
    and "ip_fragmentOffset h AND 0x7 = 0" and "ip_headerSize h = 20"
    and "28 \<le> unat mtu" and "unat mtu \<le> 65535" and "length p < fuel"
  shows "\<exists>fs. l3_DoFragmentation fuel ck p h mtu = FragDone fs \<and> concat (map fst fs) = p
    \<and> contiguous (unat (ip_fragmentOffset h)) fs
    \<and> (\<forall>x \<in> set fs. 20 + length (fst x) \<le> unat mtu \<and> unat (ip_payloadSize (snd x)) = length (fst x)
        \<and> piece S (fst x) (ip_fragmentOffset (snd x)) (\<not> ip_IsLastFragment (snd x))
        \<and> ip_fragmentOffset (snd x) AND 0x7 = 0
        \<and> ip_source (snd x) = ip_source h \<and> ip_destination (snd x) = ip_destination h
        \<and> ip_identification (snd x) = ip_identification h \<and> ip_protocol (snd x) = ip_protocol h)"
proof -
  obtain fs where fs: "l3_DoFragmentation fuel ck p h mtu = FragDone fs" "concat (map fst fs) = p"
    "contiguous (unat (ip_fragmentOffset h)) fs" "\<forall>x \<in> set fs. frag_of S h (unat mtu - 20) x"
    using l3_DoFragmentation_ok [OF assms, of ck] by blast
  then show ?thesis using assms(5) by (intro exI [of _ fs]) (auto simp: frag_of_def)
qed

text \<open>
  An MTU that is too small makes fragmentation run for ever.  When the MTU is at least the
  size of the header but leaves less than eight bytes, the fragments are empty and the loop
  makes no progress, whatever the number of rounds.  (\<^verbatim>\<open>SetUp\<close> refuses such devices; the MTU
  is not checked again when a packet is sent.)
\<close>

theorem fragmentation_diverges:
  assumes "p \<noteq> []" and "length p < 2 ^ 32" and "ip_fragmentOffset h AND 0x7 = 0" and "ip_headerSize h = 20"
    and "20 \<le> unat mtu" and "unat mtu < 28"
  shows "\<forall>fuel. l3_DoFragmentation fuel ck p h mtu = FragFuel"
proof -
  have "unat ((mtu - of_nat 20) AND NOT 0x7) = 8 * ((unat mtu - 20) div 8)" by (rule fragment_size) fact
  also have "\<dots> = 0" using assms(6) by simp
  finally have "(mtu - of_nat 20) AND NOT 0x7 = 0" by (simp only: unat_eq_0)
  moreover have "ip_GetSerializedSize h = 20" using assms(4) by (simp add: ip_GetSerializedSize_def)
  ultimately show ?thesis using frag_loop_zero [OF assms(1-3)] unfolding l3_DoFragmentation_def by simp
qed

theorem fragmentation_ok_witness:
  "\<exists>fs. l3_DoFragmentation 200 True (replicate 100 7) sample_ip 68 = FragDone fs
    \<and> concat (map fst fs) = replicate 100 7 \<and> (\<forall>x \<in> set fs. 20 + length (fst x) \<le> 68)"
proof -
  have off: "ip_fragmentOffset sample_ip = 0" "ip_IsLastFragment sample_ip"
    by (simp_all add: sample_ip_def ip_IsLastFragment_def ip_SetDontFragment_def ip_SetTtl_def ip_SetSource_def
        ip_SetDestination_def ip_EnableChecksum_def Ipv4Header_init_def)
  have "\<exists>fs. l3_DoFragmentation 200 True (replicate 100 7) sample_ip 68 = FragDone fs
    \<and> concat (map fst fs) = replicate 100 7 \<and> (\<forall>x \<in> set fs. 20 + length (fst x) \<le> unat (68 :: u32))"
    using fragmentation_ok [of "replicate 100 7" "replicate 100 7" sample_ip 68 200 True] off sample_ip_ok(2)
    by (simp add: piece_def) blast
  then show ?thesis by simp
qed

theorem fragmentation_diverges_witness:
  "\<forall>fuel. l3_DoFragmentation fuel False [1, 2, 3] Ipv4Header_init 24 = FragFuel"
  using fragmentation_diverges [of "[1, 2, 3]" Ipv4Header_init 24 False] by (simp add: Ipv4Header_init_def)

end
