(* ===== verification/Ipv4_Reassembly.thy ===== *)
theory Ipv4_Reassembly
  imports Ipv4_Fragments
begin

text \<open>
  Reassembly at the receiving node: \<^verbatim>\<open>Ipv4L3Protocol::ProcessFragment\<close>, the timeouts
  of incomplete packets and the start of \<^verbatim>\<open>LocalDeliver\<close>
  (src/internet/model/ipv4-l3-protocol.cc).
\<close>

section \<open>Definitions\<close>

type_synonym frag_key = "u64 \<times> u32"

text \<open>
  The part of the protocol object that takes part in reassembly.  \<open>l3_timers\<close> are the times of
  the pending \<^verbatim>\<open>HandleTimeout\<close> events in the simulator; \<open>l3_icmp\<close> and \<open>l3_drop\<close> record the
  ICMP messages that were sent and the calls of the drop trace.
\<close>

record l3_state =
  l3_now :: nat
  l3_fragments :: "frag_key \<rightharpoonup> fragments"
  l3_timeoutEventList :: "(nat \<times> frag_key \<times> ipv4_header \<times> nat) list"
  l3_timers :: "nat list"
  l3_icmp :: "(ipv4_header \<times> u8 list) list"
  l3_drop :: "(ipv4_header \<times> u8 list \<times> nat) list"

definition frag_key :: "ipv4_header \<Rightarrow> frag_key" where
  "frag_key h =
     (push_bit 32 (ucast (ip_source h)) OR ucast (ip_destination h),
      push_bit 16 (ucast (ip_identification h)) OR ucast (ip_protocol h))"

definition l3_SetTimeout :: "nat \<Rightarrow> frag_key \<Rightarrow> ipv4_header \<Rightarrow> nat \<Rightarrow> l3_state \<Rightarrow> l3_state" where
  "l3_SetTimeout timeout key h iif st =
     (let st = (if l3_timeoutEventList st = []
                then st\<lparr>l3_timers := (l3_now st + timeout) # l3_timers st\<rparr> else st)
      in st\<lparr>l3_timeoutEventList := l3_timeoutEventList st @ [(l3_now st + timeout, key, h, iif)]\<rparr>)"

text \<open>
  The iterator that a set of fragments keeps into the list of timeouts is found by its key: the
  entry was made together with the set and lives as long as it does.
\<close>

fun timeout_erase :: "frag_key \<Rightarrow> (nat \<times> frag_key \<times> 'h) list \<Rightarrow> (nat \<times> frag_key \<times> 'h) list" where
  "timeout_erase key [] = []"
| "timeout_erase key ((t, k, x) # r) = (if k = key then r else (t, k, x) # timeout_erase key r)"

text \<open>
  The result is whether the packet is complete, and the packet: the whole one, or the fragment
  unchanged.  \<open>None\<close> is an access to an empty list of fragments.
\<close>

definition l3_ProcessFragment :: "nat \<Rightarrow> u8 list \<Rightarrow> ipv4_header \<Rightarrow> nat \<Rightarrow> l3_state
    \<Rightarrow> (bool \<times> u8 list \<times> l3_state) option" where
  "l3_ProcessFragment timeout packet ipHeader iif st = do {
     let key = frag_key ipHeader;
     let (fragments, st) = (case l3_fragments st key of
         None \<Rightarrow> (Fragments_init, l3_SetTimeout timeout key ipHeader iif st)
       | Some f \<Rightarrow> (f, st));
     let fragments = fr_AddFragment packet (ip_GetFragmentOffset ipHeader) (\<not> ip_IsLastFragment ipHeader) fragments;
     if fr_IsEntire fragments
     then do {
       packet \<leftarrow> fr_GetPacket fragments;
       Some (True, packet, st\<lparr>l3_timeoutEventList := timeout_erase key (l3_timeoutEventList st),
         l3_fragments := (l3_fragments st)(key := None)\<rparr>)
     }
     else Some (False, packet, st\<lparr>l3_fragments := (l3_fragments st)(key \<mapsto> fragments)\<rparr>)
   }"

definition l3_HandleFragmentsTimeout :: "frag_key \<Rightarrow> ipv4_header \<Rightarrow> nat \<Rightarrow> l3_state \<Rightarrow> l3_state option" where
  "l3_HandleFragmentsTimeout key ipHeader iif st = do {
     f \<leftarrow> l3_fragments st key;
     packet \<leftarrow> fr_GetPartialPacket f;
     let st = (if length packet > 8 then st\<lparr>l3_icmp := l3_icmp st @ [(ipHeader, packet)]\<rparr> else st);
     Some (st\<lparr>l3_drop := l3_drop st @ [(ipHeader, packet, iif)], l3_fragments := (l3_fragments st)(key := None)\<rparr>)
   }"

text \<open>The loop of \<^verbatim>\<open>HandleTimeout\<close> over the front of the list.\<close>

fun l3_expire :: "(nat \<times> frag_key \<times> ipv4_header \<times> nat) list \<Rightarrow> l3_state
    \<Rightarrow> ((nat \<times> frag_key \<times> ipv4_header \<times> nat) list \<times> l3_state) option" where
  "l3_expire [] st = Some ([], st)"
| "l3_expire ((t, key, h, iif) # r) st =
     (if t = l3_now st
      then do { st \<leftarrow> l3_HandleFragmentsTimeout key h iif st; l3_expire r st }
      else Some ((t, key, h, iif) # r, st))"

definition l3_HandleTimeout :: "l3_state \<Rightarrow> l3_state option" where
  "l3_HandleTimeout st = do {
     (l, st) \<leftarrow> l3_expire (l3_timeoutEventList st) st;
     let st = st\<lparr>l3_timeoutEventList := l\<rparr>;
     Some (case l of
         [] \<Rightarrow> st
       | (t, _) # _ \<Rightarrow> st\<lparr>l3_timers := (l3_now st + (t - l3_now st)) # l3_timers st\<rparr>)
   }"

text \<open>
  What \<^verbatim>\<open>LocalDeliver\<close> hands to the protocols above, if anything: the packet and its header.
\<close>

definition l3_LocalDeliver :: "nat \<Rightarrow> u8 list \<Rightarrow> ipv4_header \<Rightarrow> nat \<Rightarrow> l3_state
    \<Rightarrow> ((u8 list \<times> ipv4_header) option \<times> l3_state) option" where
  "l3_LocalDeliver timeout packet ip iif st =
     (if \<not> ip_IsLastFragment ip \<or> ip_GetFragmentOffset ip \<noteq> 0
      then do {
        (isPacketComplete, p, st) \<leftarrow> l3_ProcessFragment timeout packet ip iif st;
        if isPacketComplete
        then do {
          h \<leftarrow> ip_SetFragmentOffset 0 ip;
          Some (Some (p, ip_SetPayloadSize (of_nat (length p)) h), st)
        }
        else Some (None, st)
      }
      else Some (Some (packet, ip), st))"

section \<open>Keys\<close>

lemma frag_key_iff:
  "frag_key g = frag_key h \<longleftrightarrow> ip_source g = ip_source h \<and> ip_destination g = ip_destination h
     \<and> ip_identification g = ip_identification h \<and> ip_protocol g = ip_protocol h"
proof -
  have pair: "(push_bit 32 (ucast a) OR ucast b :: u64) = push_bit 32 (ucast c) OR ucast d \<longleftrightarrow> a = c \<and> b = d"
    for a b c d :: u32
  proof
    assume e: "(push_bit 32 (ucast a) OR ucast b :: u64) = push_bit 32 (ucast c) OR ucast d"
    have high: "\<not> bit (x :: u32) (n + 32)" for x n using bit_imp_le_length [of x "n + 32"] by auto
    have "bit a n = bit c n" if "n < 32" for n
      using arg_cong [OF e, of "\<lambda>w. bit w (n + 32)"] that high by (simp add: bit_simps)
    moreover have "bit b n = bit d n" if "n < 32" for n
      using arg_cong [OF e, of "\<lambda>w. bit w n"] that by (simp add: bit_simps)
    ultimately show "a = c \<and> b = d" by (auto intro!: bit_word_eqI)
  qed simp
  have pair2: "(push_bit 16 (ucast a) OR ucast b :: u32) = push_bit 16 (ucast c) OR ucast d \<longleftrightarrow> a = c \<and> b = d"
    for a c :: u16 and b d :: u8
  proof
    assume e: "(push_bit 16 (ucast a) OR ucast b :: u32) = push_bit 16 (ucast c) OR ucast d"
    have high: "\<not> bit (x :: u8) n" if "8 \<le> n" for x n using that bit_imp_le_length [of x n] by auto
    have "bit a n = bit c n" if "n < 16" for n
      using arg_cong [OF e, of "\<lambda>w. bit w (n + 16)"] that high [of "n + 16"] by (simp add: bit_simps)
    moreover have "bit b n = bit d n" if "n < 8" for n
      using arg_cong [OF e, of "\<lambda>w. bit w n"] that by (simp add: bit_simps)
    ultimately show "a = c \<and> b = d" by (auto intro!: bit_word_eqI)
  qed simp
  show ?thesis unfolding frag_key_def by (auto simp: pair pair2)
qed

section \<open>The invariant of reassembly\<close>

text \<open>
  \<open>S k\<close> is the payload of the packet with key \<open>k\<close>.  Every stored fragment is a piece of it; every
  incomplete packet has one entry in the list of timeouts, due within the timeout; the entries
  are in the order of their times; and a timer is pending that is due no later than the first.
\<close>

definition frs_ok :: "(frag_key \<Rightarrow> u8 list) \<Rightarrow> (frag_key \<rightharpoonup> fragments) \<Rightarrow> bool" where
  "frs_ok S m \<longleftrightarrow> (\<forall>k f. m k = Some f \<longrightarrow> fr_ok (S k) f \<and> fr_list f \<noteq> [] \<and> length (S k) \<le> 65535)"

definition l3_inv :: "nat \<Rightarrow> (frag_key \<Rightarrow> u8 list) \<Rightarrow> l3_state \<Rightarrow> bool" where
  "l3_inv T S st \<longleftrightarrow> sorted (map fst (l3_timeoutEventList st))
     \<and> (\<forall>e \<in> set (l3_timeoutEventList st). l3_now st \<le> fst e \<and> fst e \<le> l3_now st + T)
     \<and> distinct (map (fst \<circ> snd) (l3_timeoutEventList st))
     \<and> set (map (fst \<circ> snd) (l3_timeoutEventList st)) = dom (l3_fragments st)
     \<and> (l3_timeoutEventList st \<noteq> [] \<longrightarrow> (\<exists>x \<in> set (l3_timers st). x \<le> fst (hd (l3_timeoutEventList st))))
     \<and> (\<forall>x \<in> set (l3_timers st). l3_now st \<le> x)
     \<and> frs_ok S (l3_fragments st)"

lemma frs_ok_update:
  "frs_ok S m \<Longrightarrow> fr_ok (S k) f \<Longrightarrow> fr_list f \<noteq> [] \<Longrightarrow> length (S k) \<le> 65535 \<Longrightarrow> frs_ok S (m(k \<mapsto> f))"
  unfolding frs_ok_def by (auto simp only: fun_upd_apply option.inject split: if_splits)

lemma frs_ok_delete: "frs_ok S m \<Longrightarrow> frs_ok S (m(k := None))"
  unfolding frs_ok_def by (metis fun_upd_other fun_upd_same option.distinct(1))

lemma frs_okD: "frs_ok S m \<Longrightarrow> m k = Some f \<Longrightarrow> fr_ok (S k) f \<and> fr_list f \<noteq> [] \<and> length (S k) \<le> 65535"
  unfolding frs_ok_def by blast

lemma timeout_erase_filter:
  "distinct (map (fst \<circ> snd) l) \<Longrightarrow> timeout_erase k l = filter (\<lambda>e. fst (snd e) \<noteq> k) l"
proof (induction l)
  case (Cons e l)
  then have "filter (\<lambda>e. fst (snd e) \<noteq> k) l = l" if "fst (snd e) = k" using that by (auto simp: filter_id_conv image_iff)
  then show ?case using Cons by (cases e) auto
qed simp

lemma inv_update:
  assumes "l3_inv T S st" and "l3_fragments st k = Some f" and "fr_ok (S k) f'" and "fr_list f' \<noteq> []"
  shows "l3_inv T S (st\<lparr>l3_fragments := (l3_fragments st)(k \<mapsto> f')\<rparr>)"
proof -
  have "dom ((l3_fragments st)(k \<mapsto> f')) = dom (l3_fragments st)" using assms(2) by auto
  then show ?thesis using assms frs_okD [of S "l3_fragments st" k f]
    unfolding l3_inv_def by (simp add: frs_ok_update)
qed

lemma inv_open:
  assumes inv: "l3_inv T S st" and new: "l3_fragments st k = None" and "fr_ok (S k) f" and "fr_list f \<noteq> []"
    and "length (S k) \<le> 65535"
  shows "l3_inv T S ((l3_SetTimeout T k h iif st)\<lparr>l3_fragments := (l3_fragments st)(k \<mapsto> f)\<rparr>)"
proof -
  let ?l = "l3_timeoutEventList st"
  have "k \<notin> set (map (fst \<circ> snd) ?l)" using inv new by (auto simp: l3_inv_def)
  moreover have "sorted (map fst ?l @ [l3_now st + T])" using inv by (auto simp: l3_inv_def sorted_append)
  moreover have "hd (?l @ [x]) = (if ?l = [] then x else hd ?l)" for x by simp
  ultimately show ?thesis using inv assms(3-)
    unfolding l3_inv_def by (auto simp: l3_SetTimeout_def Let_def frs_ok_update)
qed

lemma inv_erase:
  assumes inv: "l3_inv T S st"
  shows "l3_inv T S (st\<lparr>l3_timeoutEventList := timeout_erase k (l3_timeoutEventList st),
    l3_fragments := (l3_fragments st)(k := None)\<rparr>)"
proof -
  let ?l = "l3_timeoutEventList st" and ?P = "\<lambda>e :: nat \<times> frag_key \<times> ipv4_header \<times> nat. fst (snd e) \<noteq> k"
  have e: "timeout_erase k ?l = filter ?P ?l" using inv by (intro timeout_erase_filter) (simp add: l3_inv_def)
  have so: "sorted (map fst ?l)" using inv by (simp add: l3_inv_def)
  then have "sorted (map fst (filter ?P ?l))" by (rule sorted_filter)
  moreover have "distinct (map (fst \<circ> snd) (filter ?P ?l))" using inv by (simp add: l3_inv_def distinct_map_filter)
  moreover have "set (map (fst \<circ> snd) (filter ?P ?l)) = dom ((l3_fragments st)(k := None))"
    using inv by (auto simp: l3_inv_def)
  moreover have hd: "fst (hd ?l) \<le> fst (hd (filter ?P ?l))" if "filter ?P ?l \<noteq> []"
  proof -
    have "hd (filter ?P ?l) \<in> set ?l" using hd_in_set [OF that] unfolding set_filter by blast
    then show ?thesis using so by (cases ?l) auto
  qed
  moreover have "\<exists>x \<in> set (l3_timers st). x \<le> fst (hd (filter ?P ?l))" if "filter ?P ?l \<noteq> []"
  proof -
    have "?l \<noteq> []" using that by auto
    then obtain x where "x \<in> set (l3_timers st)" "x \<le> fst (hd ?l)" using inv by (auto simp: l3_inv_def)
    then show ?thesis using hd [OF that] by (meson order_trans)
  qed
  ultimately show ?thesis using inv unfolding l3_inv_def e by (simp add: frs_ok_delete)
qed

lemma AddFragment_not_Nil [simp]: "fr_list (fr_AddFragment p k mf f) \<noteq> []"
  by (simp add: fr_AddFragment_def Let_def)

text \<open>A fragment of the payload is always accepted, and a packet that is given out is that payload.\<close>

lemma ProcessFragment_ok:
  assumes inv: "l3_inv T S st" and pc: "piece (S (frag_key h)) p (ip_fragmentOffset h) (\<not> ip_IsLastFragment h)"
    and len: "length (S (frag_key h)) \<le> 65535"
  shows "\<exists>c q st'. l3_ProcessFragment T p h iif st = Some (c, q, st') \<and> l3_inv T S st'
    \<and> (c \<longrightarrow> q = S (frag_key h) \<and> l3_fragments st' (frag_key h) = None)
    \<and> (\<forall>k. k \<noteq> frag_key h \<longrightarrow> l3_fragments st' k = l3_fragments st k)
    \<and> (let f = fr_AddFragment p (ip_fragmentOffset h) (\<not> ip_IsLastFragment h)
          (case l3_fragments st (frag_key h) of None \<Rightarrow> Fragments_init | Some f \<Rightarrow> f)
       in c = fr_IsEntire f \<and> (\<not> c \<longrightarrow> l3_fragments st' (frag_key h) = Some f))"
proof -
  let ?k = "frag_key h"
  define f0 where "f0 = (case l3_fragments st ?k of None \<Rightarrow> Fragments_init | Some f \<Rightarrow> f)"
  define st0 where "st0 = (case l3_fragments st ?k of None \<Rightarrow> l3_SetTimeout T ?k h iif st | Some f \<Rightarrow> st)"
  let ?f = "fr_AddFragment p (ip_fragmentOffset h) (\<not> ip_IsLastFragment h) f0"
  let ?st = "st0\<lparr>l3_fragments := (l3_fragments st)(?k \<mapsto> ?f)\<rparr>"
  have ok0: "fr_ok (S ?k) f0"
    using inv frs_okD [of S "l3_fragments st" ?k] by (auto simp: f0_def l3_inv_def fr_ok_init split: option.split)
  then have ok: "fr_ok (S ?k) ?f" by (rule fr_ok_AddFragment) (rule pc)
  have fr0: "l3_fragments st0 = l3_fragments st" by (simp add: st0_def l3_SetTimeout_def Let_def split: option.split)
  have inv1: "l3_inv T S ?st"
    using inv_open [OF inv _ ok _ len] inv_update [OF inv _ ok] by (auto simp: st0_def split: option.split)
  have run: "l3_ProcessFragment T p h iif st =
    (if fr_IsEntire ?f
     then do { q \<leftarrow> fr_GetPacket ?f; Some (True, q, st0\<lparr>l3_timeoutEventList := timeout_erase ?k (l3_timeoutEventList st0),
       l3_fragments := (l3_fragments st)(?k := None)\<rparr>) }
     else Some (False, p, ?st))"
    unfolding l3_ProcessFragment_def f0_def st0_def
    by (simp add: Let_def ip_GetFragmentOffset_def l3_SetTimeout_def split: option.split)
  show ?thesis
  proof (cases "fr_IsEntire ?f")
    case True
    then have "fr_GetPacket ?f = Some (S ?k)" using ok len by (intro fr_GetPacket_ok)
    moreover have "l3_inv T S (st0\<lparr>l3_timeoutEventList := timeout_erase ?k (l3_timeoutEventList st0),
        l3_fragments := (l3_fragments st)(?k := None)\<rparr>)"
      using inv_erase [OF inv1, of ?k] by simp
    ultimately show ?thesis using True run by (auto simp: f0_def Let_def)
  next
    case False
    then show ?thesis using run inv1 by (auto simp: f0_def Let_def)
  qed
qed

section \<open>Timeouts\<close>

lemma expire_ok:
  assumes len: "frs_ok S (l3_fragments st)" and "sorted (map fst l)" and "\<forall>e \<in> set l. l3_now st \<le> fst e"
    and "distinct (map (fst \<circ> snd) l)" and "set (map (fst \<circ> snd) l) = dom (l3_fragments st)"
  shows "\<exists>l' st'. l3_expire l st = Some (l', st') \<and> l3_now st' = l3_now st \<and> l3_timers st' = l3_timers st
    \<and> l' = filter (\<lambda>e. fst e \<noteq> l3_now st) l \<and> frs_ok S (l3_fragments st') \<and> sorted (map fst l')
    \<and> set (map (fst \<circ> snd) l') = dom (l3_fragments st') \<and> l3_timeoutEventList st' = l3_timeoutEventList st
    \<and> (\<forall>e \<in> set l'. l3_now st < fst e)"
  using assms
proof (induction l arbitrary: st)
  case (Cons e l)
  obtain t k h iif where e: "e = (t, k, h, iif)" by (cases e)
  show ?case
  proof (cases "t = l3_now st")
    case False
    then have late: "\<forall>x \<in> set (e # l). l3_now st < fst x" using Cons.prems(2,3) e by fastforce
    then have "filter (\<lambda>x. fst x \<noteq> l3_now st) (e # l) = e # l" by (intro filter_True) fastforce
    then show ?thesis using False e late Cons.prems by simp
  next
    case True
    have "k \<in> dom (l3_fragments st)" using Cons.prems(5) e by auto
    then obtain f where f: "l3_fragments st k = Some f" by blast
    note fok = frs_okD [OF Cons.prems(1) f]
    obtain q where q: "fr_GetPartialPacket f = Some q" using fr_GetPartialPacket_ok [of "S k" f] fok by blast
    obtain st1 where st1: "l3_HandleFragmentsTimeout k h iif st = Some st1"
      "l3_fragments st1 = (l3_fragments st)(k := None)" "l3_now st1 = l3_now st" "l3_timers st1 = l3_timers st"
      "l3_timeoutEventList st1 = l3_timeoutEventList st"
      using f q by (simp add: l3_HandleFragmentsTimeout_def Let_def)
    have ks: "set (map (fst \<circ> snd) l) = dom (l3_fragments st1)"
      using Cons.prems(4,5) e st1(2) by (auto simp del: split_paired_All)
    have fs: "frs_ok S (l3_fragments st1)" unfolding st1(2) by (rule frs_ok_delete [OF Cons.prems(1)])
    have "\<exists>l' st'. l3_expire l st1 = Some (l', st') \<and> l3_now st' = l3_now st1 \<and> l3_timers st' = l3_timers st1
      \<and> l' = filter (\<lambda>e. fst e \<noteq> l3_now st1) l \<and> frs_ok S (l3_fragments st') \<and> sorted (map fst l')
      \<and> set (map (fst \<circ> snd) l') = dom (l3_fragments st') \<and> l3_timeoutEventList st' = l3_timeoutEventList st1
      \<and> (\<forall>e \<in> set l'. l3_now st1 < fst e)"
      using Cons.prems(2-4) by (intro Cons.IH [OF fs _ _ _ ks]) (simp_all add: st1(3))
    then show ?thesis using True e st1 by simp
  qed
qed simp

lemma HandleTimeout_ok:
  assumes inv: "l3_inv T S st" and due: "l3_now st \<in> set (l3_timers st)"
  shows "\<exists>st'. l3_HandleTimeout (st\<lparr>l3_timers := remove1 (l3_now st) (l3_timers st)\<rparr>) = Some st' \<and> l3_inv T S st'
    \<and> l3_timeoutEventList st' = filter (\<lambda>e. fst e \<noteq> l3_now st) (l3_timeoutEventList st)"
proof -
  let ?st = "st\<lparr>l3_timers := remove1 (l3_now st) (l3_timers st)\<rparr>" and ?l = "l3_timeoutEventList st"
  obtain l' st' where x: "l3_expire ?l ?st = Some (l', st')" "l3_now st' = l3_now st"
    "l3_timers st' = remove1 (l3_now st) (l3_timers st)" "l' = filter (\<lambda>e. fst e \<noteq> l3_now st) ?l"
    "frs_ok S (l3_fragments st')" "sorted (map fst l')" "set (map (fst \<circ> snd) l') = dom (l3_fragments st')"
    "\<forall>e \<in> set l'. l3_now st < fst e"
    using expire_ok [of S ?st ?l] inv by (auto simp: l3_inv_def)
  let ?r = "case l' of [] \<Rightarrow> st'\<lparr>l3_timeoutEventList := l'\<rparr>
    | (t, _) # _ \<Rightarrow> (st'\<lparr>l3_timeoutEventList := l'\<rparr>)\<lparr>l3_timers := (l3_now st' + (t - l3_now st')) # l3_timers st'\<rparr>"
  have run: "l3_HandleTimeout ?st = Some ?r" using x(1) by (simp add: l3_HandleTimeout_def Let_def split: list.split)
  have b: "\<forall>e \<in> set l'. fst e \<le> l3_now st + T" "distinct (map (fst \<circ> snd) l')"
    "\<forall>y \<in> set (l3_timers st'). l3_now st \<le> y"
    using inv x(3,4) by (auto simp: l3_inv_def distinct_map_filter dest: notin_set_remove1 [rotated])
  have "l3_inv T S ?r"
  proof (cases l')
    case Nil
    then show ?thesis using x b by (simp add: l3_inv_def)
  next
    case (Cons e r)
    then have "l3_now st + (fst e - l3_now st) = fst e" using x(8) by simp
    then show ?thesis using x(2,3,5-8) b unfolding Cons by (cases e) (auto simp: l3_inv_def)
  qed
  moreover have "l3_timeoutEventList ?r = l'" by (simp split: list.split)
  ultimately show ?thesis using run x(4) by blast
qed

end
