(* ===== verification/Ipv4_Complete.thy ===== *)
theory Ipv4_Complete
  imports Ipv4_Reassembly
begin

text \<open>
  When a set of fragments is complete: the fragments that
  \<^verbatim>\<open>Ipv4L3Protocol::DoFragmentation\<close> cuts are complete exactly when all have arrived, in
  whatever order.
\<close>

section \<open>Consecutive fragments\<close>

definition frag_pair :: "u8 list \<times> ipv4_header \<Rightarrow> u8 list \<times> u16" where
  "frag_pair x = (fst x, ip_fragmentOffset (snd x))"

definition frag_off :: "u8 list \<times> ipv4_header \<Rightarrow> nat" where
  "frag_off x = unat (ip_fragmentOffset (snd x))"

lemma contiguous_Cons: "contiguous k (x # r) \<longleftrightarrow> frag_off x = k \<and> contiguous (k + length (fst x)) r"
  by (simp add: frag_off_def)

lemma piece_end_pair: "piece_end (frag_pair x) = frag_off x + length (fst x)"
  by (simp add: piece_end_def frag_pair_def frag_off_def)

lemma contiguous_bounds:
  assumes "contiguous k fs" and "x \<in> set fs"
  shows "k \<le> frag_off x \<and> frag_off x + length (fst x) \<le> k + length (concat (map fst fs))"
  using assms
proof (induction fs arbitrary: k)
  case (Cons a r)
  have c: "frag_off a = k" "contiguous (k + length (fst a)) r" using Cons.prems(1) unfolding contiguous_Cons by auto
  show ?case
  proof (cases "x = a")
    case False
    then have "x \<in> set r" using Cons.prems(2) by simp
    then show ?thesis using Cons.IH [OF c(2)] by simp
  qed (use c(1) in simp)
qed simp

lemma contiguous_disjoint:
  assumes "contiguous k fs" and "x \<in> set fs" and "y \<in> set fs" and "\<forall>z \<in> set fs. fst z \<noteq> []"
    and "frag_off x \<le> frag_off y" and "frag_off y < frag_off x + length (fst x)"
  shows "x = y"
  using assms
proof (induction fs arbitrary: k)
  case (Cons a r)
  have c: "frag_off a = k" "contiguous (k + length (fst a)) r" using Cons.prems(1) unfolding contiguous_Cons by auto
  have pos: "0 < length (fst a)" using Cons.prems(4) by simp
  have in_r: "k + length (fst a) \<le> frag_off z" if "z \<in> set r" for z using contiguous_bounds [OF c(2) that] by simp
  consider "x = a" "y = a" | "x = a" "y \<in> set r" | "x \<in> set r" "y = a" | "x \<in> set r" "y \<in> set r"
    using Cons.prems(2,3) by auto
  then show ?case
  proof cases
    case 2
    then show ?thesis using in_r [of y] c(1) Cons.prems(6) by simp
  next
    case 3
    then show ?thesis using in_r [of x] c(1) Cons.prems(5) pos by simp
  next
    case 4
    then show ?thesis using Cons.IH [OF c(2)] Cons.prems(4-) by simp
  qed simp
qed simp

lemma contiguous_pred:
  assumes "contiguous k fs" and "y \<in> set fs" and "frag_off y \<noteq> k" and "\<forall>z \<in> set fs. fst z \<noteq> []"
  shows "\<exists>x \<in> set fs. frag_off x < frag_off y \<and> frag_off y = frag_off x + length (fst x)"
  using assms
proof (induction fs arbitrary: k)
  case (Cons a r)
  have c: "frag_off a = k" "contiguous (k + length (fst a)) r" using Cons.prems(1) unfolding contiguous_Cons by auto
  then have y: "y \<in> set r" using Cons.prems(2,3) by auto
  show ?case
  proof (cases "frag_off y = k + length (fst a)")
    case True
    then show ?thesis using c(1) Cons.prems(4) by (intro bexI [of _ a]) auto
  next
    case False
    then show ?thesis using Cons.IH [OF c(2) y] Cons.prems(4) by auto
  qed
qed simp

lemma contiguous_end:
  assumes "contiguous k fs" and "fs \<noteq> []"
  shows "frag_off (last fs) + length (fst (last fs)) = k + length (concat (map fst fs))"
  using assms
proof (induction fs arbitrary: k)
  case (Cons a r)
  then show ?case unfolding contiguous_Cons by (cases "r = []") auto
qed simp

lemma contiguous_distinct:
  assumes "contiguous k fs" and "\<forall>z \<in> set fs. fst z \<noteq> []"
  shows "distinct fs"
  using assms
proof (induction fs arbitrary: k)
  case (Cons a r)
  have c: "frag_off a = k" "contiguous (k + length (fst a)) r" using Cons.prems(1) unfolding contiguous_Cons by auto
  have "a \<notin> set r"
  proof
    assume "a \<in> set r"
    then have "k + length (fst a) \<le> frag_off a" using contiguous_bounds [OF c(2)] by blast
    then show False using c(1) Cons.prems(2) by simp
  qed
  then show ?case using Cons.IH [OF c(2)] Cons.prems(2) by simp
qed simp

section \<open>Gaps\<close>

lemma gapless_cover:
  assumes len: "length S \<le> 65535" and "\<forall>(q, k) \<in> set r. \<exists>mf. piece S q k mf" and "n \<le> length S"
    and "fr_gapless (of_nat n) r" and "n \<le> y" and "y < fold max (map piece_end r) n"
  shows "\<exists>x \<in> set r. unat (snd x) \<le> y \<and> y < piece_end x"
  using assms(2-)
proof (induction r arbitrary: n)
  case (Cons x r)
  obtain q k where x: "x = (q, k)" by (cases x)
  obtain mf where pc: "piece S q k mf" using Cons.prems(1) x by auto
  have gap: "unat k \<le> n" "fr_gapless (of_nat (max n (piece_end x))) r"
    using Cons.prems(3) gapless_step [OF pc len Cons.prems(2), of r] unfolding x by blast+
  have e: "piece_end x \<le> length S" using pc by (simp add: x piece_def piece_end_def)
  show ?case
  proof (cases "y < piece_end x")
    case True
    then show ?thesis using gap(1) Cons.prems(4) x by (intro bexI [of _ x]) auto
  next
    case False
    have "y < fold max (map piece_end r) (max n (piece_end x))"
      using Cons.prems(5) by (simp add: fold_max_step del: fold.simps(2))
    then have "\<exists>z \<in> set r. unat (snd z) \<le> y \<and> y < piece_end z"
      using Cons.IH [OF _ _ gap(2)] Cons.prems(1,2,4) False e by auto
    then show ?thesis by auto
  qed
qed simp

lemma gapless_intro:
  assumes len: "length S \<le> 65535" and "\<forall>(q, k) \<in> set r. \<exists>mf. piece S q k mf" and "n \<le> length S"
    and "sorted (map snd r)"
    and "\<forall>x \<in> set r. unat (snd x) \<le> n \<or> (\<exists>z \<in> set r. snd z < snd x \<and> unat (snd x) \<le> piece_end z)"
  shows "fr_gapless (of_nat n) r"
  using assms(2-)
proof (induction r arbitrary: n)
  case (Cons x r)
  obtain q k where x: "x = (q, k)" by (cases x)
  obtain mf where pc: "piece S q k mf" using Cons.prems(1) x by auto
  have e: "piece_end x \<le> length S" using pc by (simp add: x piece_def piece_end_def)
  have "\<not> snd z < snd x" if "z \<in> set (x # r)" for z using that Cons.prems(3) by auto
  then have k: "unat k \<le> n" using Cons.prems(4) x by fastforce
  have "fr_gapless (of_nat (max n (piece_end x))) r"
  proof (rule Cons.IH)
    show "\<forall>y \<in> set r. unat (snd y) \<le> max n (piece_end x)
        \<or> (\<exists>z \<in> set r. snd z < snd y \<and> unat (snd y) \<le> piece_end z)"
    proof
      fix y assume "y \<in> set r"
      then have "unat (snd y) \<le> n \<or> (\<exists>z \<in> set (x # r). snd z < snd y \<and> unat (snd y) \<le> piece_end z)"
        using Cons.prems(4) by simp
      then show "unat (snd y) \<le> max n (piece_end x)
          \<or> (\<exists>z \<in> set r. snd z < snd y \<and> unat (snd y) \<le> piece_end z)" by (auto simp: max_def)
    qed
  qed (use Cons.prems e in auto)
  then show ?case using gapless_step [OF pc len Cons.prems(2), of r] k unfolding x by simp
qed simp

section \<open>The state of a set of fragments\<close>

text \<open>The list is sorted by offset, and the flag is that of its last fragment.\<close>

definition fr_tidy :: "u8 list \<Rightarrow> fragments \<Rightarrow> bool" where
  "fr_tidy S f \<longleftrightarrow> sorted (map snd (fr_list f))
     \<and> (fr_list f \<noteq> [] \<longrightarrow> (fr_moreFragment f \<longleftrightarrow> piece_end (last (fr_list f)) < length S))"

lemma fr_tidy_AddFragment:
  assumes tidy: "fr_tidy S f" and pc: "piece S p k mf"
  shows "fr_tidy S (fr_AddFragment p k mf f)"
proof -
  let ?P = "\<lambda>(_ :: u8 list, j). \<not> j > k"
  define B where "B = takeWhile ?P (fr_list f)"
  define A where "A = dropWhile ?P (fr_list f)"
  have BA: "fr_list f = B @ A" by (simp add: B_def A_def)
  have so: "sorted (map snd (B @ A))" using tidy by (simp add: fr_tidy_def BA)
  have b: "snd x \<le> k" if "x \<in> set B" for x
    using set_takeWhileD [OF that [unfolded B_def]] by (auto split: prod.splits)
  have a: "k \<le> snd x" if "x \<in> set A" for x
  proof (cases A)
    case (Cons y r)
    then have "\<not> ?P y" unfolding A_def by (metis dropWhile_eq_Cons_conv)
    then have "k \<le> snd y" by (auto split: prod.splits)
    moreover have "snd y \<le> snd x" using so that Cons by (auto simp: sorted_append)
    ultimately show ?thesis by simp
  qed (use that in simp)
  have ab: "snd x \<le> snd y" if "x \<in> set B" "y \<in> set A" for x y using a b that by (meson order_trans)
  have "sorted (map snd (B @ (p, k) # A))" using so a b ab by (simp add: sorted_append)
  moreover have "piece_end (p, k) < length S \<longleftrightarrow> mf" using pc by (simp add: piece_def piece_end_def)
  moreover have "fr_AddFragment p k mf f
      = f\<lparr>fr_moreFragment := (if A = [] then mf else fr_moreFragment f), fr_list := B @ (p, k) # A\<rparr>"
    unfolding fr_AddFragment_def Let_def B_def [symmetric] A_def [symmetric] by simp
  ultimately show ?thesis using tidy by (simp add: fr_tidy_def BA)
qed

lemma sorted_le_last: "sorted xs \<Longrightarrow> x \<in> set xs \<Longrightarrow> x \<le> last xs"
  by (induction xs) auto

text \<open>All the fragments of a packet, cut by \<^verbatim>\<open>DoFragmentation\<close>.\<close>

definition all_frags :: "u8 list \<Rightarrow> (u8 list \<times> ipv4_header) list \<Rightarrow> bool" where
  "all_frags S fs \<longleftrightarrow> contiguous 0 fs \<and> concat (map fst fs) = S \<and> fs \<noteq> [] \<and> (\<forall>x \<in> set fs. fst x \<noteq> [])
     \<and> (\<forall>x \<in> set fs. piece S (fst x) (ip_fragmentOffset (snd x)) (\<not> ip_IsLastFragment (snd x))) \<and> length S \<le> 65535"

lemma frag_pair_inj:
  assumes "all_frags S fs" and "x \<in> set fs" and "y \<in> set fs" and "frag_pair x = frag_pair y"
  shows "x = y"
proof (rule contiguous_disjoint)
  show "frag_off x \<le> frag_off y" "frag_off y < frag_off x + length (fst x)"
    using assms by (auto simp: frag_pair_def frag_off_def all_frags_def)
qed (use assms in \<open>auto simp: all_frags_def\<close>)

lemma entire_iff_all:
  assumes all: "all_frags S fs" and tidy: "fr_tidy S f" and ok: "fr_ok S f"
    and sub: "set (fr_list f) \<subseteq> frag_pair ` set fs" and ne: "fr_list f \<noteq> []"
  shows "fr_IsEntire f \<longleftrightarrow> set (fr_list f) = frag_pair ` set fs"
proof
  let ?l = "fr_list f"
  have c: "contiguous 0 fs" "\<forall>x \<in> set fs. fst x \<noteq> []" "length S \<le> 65535" "length (concat (map fst fs)) = length S"
    using all by (auto simp: all_frags_def)
  have pcs: "\<forall>(q, k) \<in> set ?l. \<exists>mf. piece S q k mf" using ok by (auto simp: fr_ok_def)
  assume ent: "fr_IsEntire f"
  then have gap: "fr_gapless (of_nat 0) ?l" by (simp add: fr_IsEntire_def)
  have full: "fold max (map piece_end ?l) 0 = length S"
  proof (rule fold_max_full)
    show "\<exists>x \<in> set (map piece_end ?l). x = length S" using ok ent ne by (auto simp: fr_ok_def fr_IsEntire_def image_iff intro: sym)
    show "\<forall>x \<in> set (map piece_end ?l). x \<le> length S" using pcs by (auto simp: piece_def piece_end_def)
  qed simp
  have "frag_pair y \<in> set ?l" if y: "y \<in> set fs" for y
  proof -
    have "frag_off y < length S"
      using contiguous_bounds [OF c(1) y] c(2,4) y by (metis add.left_neutral add_less_cancel_left add_0_right length_greater_0_conv order_less_le_trans)
    then obtain x where x: "x \<in> set ?l" "unat (snd x) \<le> frag_off y" "frag_off y < piece_end x"
      using gapless_cover [OF c(3) pcs _ gap, of "frag_off y"] full by auto
    then obtain z where z: "z \<in> set fs" "x = frag_pair z" using sub by auto
    then have "z = y"
      using contiguous_disjoint [OF c(1) z(1) y c(2)] x(2,3) by (simp add: piece_end_def frag_pair_def frag_off_def)
    then show ?thesis using x(1) z(2) by simp
  qed
  then show "set ?l = frag_pair ` set fs" using sub by auto
next
  let ?l = "fr_list f"
  have c: "contiguous 0 fs" "\<forall>x \<in> set fs. fst x \<noteq> []" "length S \<le> 65535" "length (concat (map fst fs)) = length S" "fs \<noteq> []"
    using all by (auto simp: all_frags_def)
  have pcs: "\<forall>(q, k) \<in> set ?l. \<exists>mf. piece S q k mf" using ok by (auto simp: fr_ok_def)
  assume eq: "set ?l = frag_pair ` set fs"
  have so: "sorted (map snd ?l)" using tidy by (simp add: fr_tidy_def)
  have "fr_gapless (of_nat 0) ?l"
  proof (rule gapless_intro [OF c(3) pcs _ so])
    show "\<forall>x \<in> set ?l. unat (snd x) \<le> 0 \<or> (\<exists>z \<in> set ?l. snd z < snd x \<and> unat (snd x) \<le> piece_end z)"
    proof
      fix x assume "x \<in> set ?l"
      then obtain y where y: "y \<in> set fs" "x = frag_pair y" using eq by auto
      show "unat (snd x) \<le> 0 \<or> (\<exists>z \<in> set ?l. snd z < snd x \<and> unat (snd x) \<le> piece_end z)"
      proof (cases "frag_off y = 0")
        case False
        then obtain w where "w \<in> set fs" "frag_off w < frag_off y" "frag_off y = frag_off w + length (fst w)"
          using contiguous_pred [OF c(1) y(1) _ c(2)] by auto
        then have "frag_pair w \<in> set ?l" "snd (frag_pair w) < snd x" "unat (snd x) \<le> piece_end (frag_pair w)"
          using eq y(2) by (simp_all add: piece_end_pair) (simp_all add: frag_pair_def frag_off_def word_less_nat_alt)
        then show ?thesis by blast
      qed (use y(2) in \<open>simp add: frag_pair_def frag_off_def\<close>)
    qed
  qed simp
  moreover have "\<not> fr_moreFragment f"
  proof -
    let ?e = "last fs"
    have e: "?e \<in> set fs" "frag_off ?e + length (fst ?e) = length S" using c(5) contiguous_end [OF c(1,5)] c(4) by auto
    obtain y where y: "y \<in> set fs" "last ?l = frag_pair y" using eq ne last_in_set [of ?l] by auto
    have "frag_pair ?e \<in> set ?l" using eq e(1) by blast
    then have "snd (frag_pair ?e) \<le> snd (last ?l)"
      using sorted_le_last [OF so, of "snd (frag_pair ?e)"] ne by (simp add: last_map)
    then have "frag_off ?e \<le> frag_off y" using y(2) by (simp add: frag_pair_def frag_off_def word_le_nat_alt)
    moreover have "frag_off y < length S"
      using contiguous_bounds [OF c(1) y(1)] c(2,4) y(1) by (metis add.left_neutral add_less_cancel_left add_0_right length_greater_0_conv order_less_le_trans)
    ultimately have "?e = y" using contiguous_disjoint [OF c(1) e(1) y(1) c(2)] e(2) by simp
    then have "piece_end (last ?l) = length S" using y(2) e(2) by (simp add: piece_end_pair)
    then show ?thesis using tidy ne by (simp add: fr_tidy_def)
  qed
  ultimately show "fr_IsEntire f" using ne by (simp add: fr_IsEntire_def)
qed

section \<open>Receiving the fragments of a packet\<close>

text \<open>The fragments arrive one after the other.\<close>

fun l3_receive :: "nat \<Rightarrow> (u8 list \<times> ipv4_header) list \<Rightarrow> nat \<Rightarrow> l3_state
    \<Rightarrow> ((bool \<times> u8 list) list \<times> l3_state) option" where
  "l3_receive T [] iif st = Some ([], st)"
| "l3_receive T (x # r) iif st = do {
     (c, q, st) \<leftarrow> l3_ProcessFragment T (fst x) (snd x) iif st;
     (cs, st) \<leftarrow> l3_receive T r iif st;
     Some ((c, q) # cs, st)
   }"

definition got :: "u8 list \<Rightarrow> (u8 list \<times> ipv4_header) list \<Rightarrow> fragments \<Rightarrow> bool" where
  "got S ps f \<longleftrightarrow> fr_tidy S f \<and> fr_ok S f \<and> set (fr_list f) = frag_pair ` set ps"

lemma got_init: "got S [] Fragments_init"
  by (simp add: got_def fr_tidy_def fr_ok_init) (simp add: Fragments_init_def)

lemma got_add:
  assumes "got S ps f" and "piece S (fst x) (ip_fragmentOffset (snd x)) (\<not> ip_IsLastFragment (snd x))"
  shows "got S (ps @ [x]) (fr_AddFragment (fst x) (ip_fragmentOffset (snd x)) (\<not> ip_IsLastFragment (snd x)) f)"
  using assms fr_tidy_AddFragment [OF _ assms(2)] fr_ok_AddFragment [OF _ assms(2)]
  by (auto simp: got_def fr_AddFragment_set frag_pair_def)

lemma got_all_iff:
  assumes "all_frags S fs" and "got S ps f" and "ps \<noteq> []" and "set ps \<subseteq> set fs"
  shows "fr_IsEntire f \<longleftrightarrow> set ps = set fs"
proof -
  have "inj_on frag_pair (set fs)" using frag_pair_inj [OF assms(1)] by (auto intro: inj_onI)
  then have "frag_pair ` set ps = frag_pair ` set fs \<longleftrightarrow> set ps = set fs"
    using assms(4) by (metis inj_on_image_eq_iff order_refl)
  moreover have "fr_list f \<noteq> []" using assms(2,3) by (auto simp: got_def)
  ultimately show ?thesis using entire_iff_all [OF assms(1)] assms(2,4) unfolding got_def by (metis image_mono)
qed

lemma receive_ok:
  assumes all: "all_frags (S K) fs" and keys: "\<forall>x \<in> set fs. frag_key (snd x) = K"
    and "l3_inv T S st" and "distinct (ps @ as)" and "set (ps @ as) = set fs" and "as \<noteq> []"
    and "got (S K) ps (case l3_fragments st K of None \<Rightarrow> Fragments_init | Some f \<Rightarrow> f)"
  shows "\<exists>rs st'. l3_receive T as iif st = Some (rs, st') \<and> map fst rs = replicate (length as - 1) False @ [True]
    \<and> snd (last rs) = S K \<and> l3_fragments st' = (l3_fragments st)(K := None)"
  using assms(3-)
proof (induction as arbitrary: ps st)
  case (Cons x r)
  let ?f0 = "case l3_fragments st K of None \<Rightarrow> Fragments_init | Some f \<Rightarrow> f"
  let ?f = "fr_AddFragment (fst x) (ip_fragmentOffset (snd x)) (\<not> ip_IsLastFragment (snd x)) ?f0"
  have x: "x \<in> set fs" "frag_key (snd x) = K" using Cons.prems(3) keys by auto
  then have pc: "piece (S K) (fst x) (ip_fragmentOffset (snd x)) (\<not> ip_IsLastFragment (snd x))" "length (S K) \<le> 65535"
    using all by (auto simp: all_frags_def)
  have gf: "got (S K) (ps @ [x]) ?f" by (rule got_add [OF Cons.prems(5) pc(1)])
  have sub: "set (ps @ [x]) \<subseteq> set fs" using Cons.prems(3) by auto
  have fin: "fr_IsEntire ?f \<longleftrightarrow> r = []"
  proof -
    have "set (ps @ [x]) = set fs \<longleftrightarrow> r = []" using Cons.prems(2,3) by (cases r) auto
    then show ?thesis using got_all_iff [OF all gf _ sub] by simp
  qed
  obtain c q st1 where p: "l3_ProcessFragment T (fst x) (snd x) iif st = Some (c, q, st1)" "l3_inv T S st1"
    "c \<longrightarrow> q = S K \<and> l3_fragments st1 K = None" "\<forall>k. k \<noteq> K \<longrightarrow> l3_fragments st1 k = l3_fragments st k"
    "c = fr_IsEntire ?f" "\<not> c \<longrightarrow> l3_fragments st1 K = Some ?f"
    using ProcessFragment_ok [of T S st "snd x" "fst x" iif] Cons.prems(1) pc x(2) unfolding Let_def by blast
  have off: "(l3_fragments st1)(K := None) = (l3_fragments st)(K := None)" using p(4) by (intro ext) (simp del: split_paired_All)
  show ?case
  proof (cases "r = []")
    case True
    then have eq: "l3_fragments st1 = (l3_fragments st)(K := None)" using p(3,5) fin off by (metis fun_upd_idem)
    have rec: "l3_receive T (x # r) iif st = Some ([(True, S K)], st1)" using p(1,3,5) fin True by simp
    show ?thesis by (rule exI [of _ "[(True, S K)]"], rule exI [of _ st1], intro conjI rec eq) (simp_all add: True)
  next
    case False
    then have c: "\<not> c" using p(5) fin by simp
    have d: "distinct ((ps @ [x]) @ r)" and e: "set ((ps @ [x]) @ r) = set fs" using Cons.prems(2,3) by auto
    have g: "got (S K) (ps @ [x]) (case l3_fragments st1 K of None \<Rightarrow> Fragments_init | Some f \<Rightarrow> f)"
      using gf p(6) c by simp
    obtain rs st' where rs: "l3_receive T r iif st1 = Some (rs, st')" "map fst rs = replicate (length r - 1) False @ [True]"
      "snd (last rs) = S K" "l3_fragments st' = (l3_fragments st1)(K := None)"
      using Cons.IH [OF p(2) d e False g] by blast
    moreover have "replicate (length r) False = False # replicate (length r - 1) False" using False by (cases r) simp_all
    moreover have "rs \<noteq> []" using rs(2) by auto
    ultimately show ?thesis using p(1) c off
      by (intro exI [of _ "(c, q) # rs"] exI [of _ st'] conjI) (simp_all del: fun_upd_apply)
  qed
qed simp

section \<open>Runs of the protocol\<close>

text \<open>
  The state changes when a fragment arrives, when time passes (never beyond the next pending
  timer, because the simulator runs events in order) and when a timer that is due fires.
\<close>

inductive l3_step :: "nat \<Rightarrow> (frag_key \<Rightarrow> u8 list) \<Rightarrow> l3_state \<Rightarrow> l3_state \<Rightarrow> bool" for T S where
  arrive: "piece (S (frag_key h)) p (ip_fragmentOffset h) (\<not> ip_IsLastFragment h) \<Longrightarrow> length (S (frag_key h)) \<le> 65535
    \<Longrightarrow> l3_ProcessFragment T p h iif st = Some (c, q, st') \<Longrightarrow> l3_step T S st st'"
| tick: "l3_now st \<le> t \<Longrightarrow> \<forall>x \<in> set (l3_timers st). t \<le> x \<Longrightarrow> l3_step T S st (st\<lparr>l3_now := t\<rparr>)"
| fire: "l3_now st \<in> set (l3_timers st)
    \<Longrightarrow> l3_HandleTimeout (st\<lparr>l3_timers := remove1 (l3_now st) (l3_timers st)\<rparr>) = Some st' \<Longrightarrow> l3_step T S st st'"

definition l3_init :: l3_state where
  "l3_init = \<lparr>l3_now = 0, l3_fragments = Map.empty, l3_timeoutEventList = [], l3_timers = [], l3_icmp = [], l3_drop = []\<rparr>"

inductive l3_reach :: "nat \<Rightarrow> (frag_key \<Rightarrow> u8 list) \<Rightarrow> l3_state \<Rightarrow> bool" for T S where
  start: "l3_reach T S l3_init"
| move: "l3_reach T S st \<Longrightarrow> l3_step T S st st' \<Longrightarrow> l3_reach T S st'"

lemma l3_inv_tick:
  assumes inv: "l3_inv T S st" and "l3_now st \<le> t" and "\<forall>x \<in> set (l3_timers st). t \<le> x"
  shows "l3_inv T S (st\<lparr>l3_now := t\<rparr>)"
proof -
  let ?l = "l3_timeoutEventList st"
  have "t \<le> fst e \<and> fst e \<le> t + T" if e: "e \<in> set ?l" for e
  proof -
    have "?l \<noteq> []" using e by auto
    then obtain x where "x \<in> set (l3_timers st)" "x \<le> fst (hd ?l)" using inv by (auto simp: l3_inv_def)
    moreover have "fst (hd ?l) \<le> fst e" using inv e by (cases ?l) (auto simp: l3_inv_def)
    moreover have "fst e \<le> l3_now st + T" using inv e by (auto simp: l3_inv_def)
    ultimately show ?thesis using assms(2,3) by fastforce
  qed
  then show ?thesis using inv assms(3) by (simp add: l3_inv_def)
qed

lemma l3_reach_inv: "l3_reach T S st \<Longrightarrow> l3_inv T S st"
proof (induction rule: l3_reach.induct)
  case start
  show ?case by (simp add: l3_inv_def l3_init_def frs_ok_def)
next
  case (move st st')
  from move(2) show ?case
  proof (cases rule: l3_step.cases)
    case (arrive h p iif c q)
    then show ?thesis using ProcessFragment_ok [OF move.IH arrive(1,2), of iif] by auto
  next
    case (tick t)
    then show ?thesis using l3_inv_tick [OF move.IH] by simp
  next
    case fire
    then show ?thesis using HandleTimeout_ok [OF move.IH fire(1)] by auto
  qed
qed

text \<open>
  C10: reassembly is exact.  Whatever fragments of whatever packets arrive in whatever order
  (repeated, overlapping, cut for different MTUs) and whatever times out in between, handling a
  fragment never fails, and when it reports a complete packet, the packet is the payload that
  was sent.
\<close>

theorem reassembly_exact:
  assumes "l3_reach T S st" and "piece (S (frag_key h)) p (ip_fragmentOffset h) (\<not> ip_IsLastFragment h)"
    and "length (S (frag_key h)) \<le> 65535"
  shows "\<exists>c q st'. l3_ProcessFragment T p h iif st = Some (c, q, st')
    \<and> (c \<longrightarrow> q = S (frag_key h) \<and> l3_fragments st' (frag_key h) = None)
    \<and> (\<forall>k. k \<noteq> frag_key h \<longrightarrow> l3_fragments st' k = l3_fragments st k)"
  using ProcessFragment_ok [OF l3_reach_inv [OF assms(1)] assms(2,3), of iif] by blast

text \<open>
  Fragmentation and reassembly.  When a packet that is no fragment has been cut by
  \<^verbatim>\<open>DoFragmentation\<close> and its fragments arrive in any order at a node that knows nothing of it,
  each of them but the last to arrive is kept, and the last one gives the payload back and
  leaves nothing behind.
\<close>

theorem fragments_reassembled:
  assumes "l3_reach T S st" and "l3_fragments st (frag_key h) = None" and "S (frag_key h) = p" and "p \<noteq> []"
    and "length p \<le> 65535" and "ip_fragmentOffset h = 0" and "ip_IsLastFragment h" and "ip_headerSize h = 20"
    and "28 \<le> unat mtu" and "unat mtu \<le> 65535" and "l3_DoFragmentation (Suc (length p)) ck p h mtu = FragDone fs"
    and "mset as = mset fs"
  shows "\<exists>rs st'. l3_receive T as iif st = Some (rs, st') \<and> map fst rs = replicate (length fs - 1) False @ [True]
    \<and> snd (last rs) = p \<and> l3_fragments st' = l3_fragments st"
proof -
  have pc: "piece p p (ip_fragmentOffset h) (\<not> ip_IsLastFragment h)" using assms(6,7) by (simp add: piece_def)
  have fs: "concat (map fst fs) = p" "contiguous 0 fs" "\<forall>x \<in> set fs. frag_of p h (unat mtu - 20) x"
    "\<forall>x \<in> set fs. fst x \<noteq> []" "fs \<noteq> []"
    using l3_DoFragmentation_ok [OF pc assms(5) _ assms(8-10), of "Suc (length p)" ck] assms(4,6,11) by auto
  have all: "all_frags (S (frag_key h)) fs" using fs assms(3,5) by (auto simp: all_frags_def frag_of_def)
  have keys: "\<forall>x \<in> set fs. frag_key (snd x) = frag_key h" using fs(3) by (auto simp: frag_key_iff frag_of_def)
  have "distinct as" "set as = set fs" "as \<noteq> []" "length as = length fs"
    using contiguous_distinct [OF fs(2,4)] assms(12) fs(5) mset_eq_imp_distinct_iff mset_eq_setD mset_eq_length
    by (metis, metis, metis list.size(3) length_0_conv mset_eq_length, metis)
  then obtain rs st' where "l3_receive T as iif st = Some (rs, st')"
    "map fst rs = replicate (length fs - 1) False @ [True]" "snd (last rs) = S (frag_key h)"
    "l3_fragments st' = (l3_fragments st)(frag_key h := None)"
    using receive_ok [OF all keys l3_reach_inv [OF assms(1)], of "[]" as iif] assms(2) got_init by auto
  then show ?thesis using assms(2,3) by (auto simp: fun_upd_idem)
qed

text \<open>
  Incomplete packets are dropped in time.  Every packet that waits for fragments is in the
  list of timeouts, is due within the timeout and has a timer pending that fires by then; and
  when a timer fires, the handler finds every packet that is due (no entry refers to a set of
  fragments that is gone) and leaves none of them.
\<close>

theorem reassembly_timeouts:
  assumes "l3_reach T S st"
  shows "(\<forall>k \<in> dom (l3_fragments st). \<exists>e \<in> set (l3_timeoutEventList st). fst (snd e) = k
      \<and> l3_now st \<le> fst e \<and> fst e \<le> l3_now st + T \<and> (\<exists>x \<in> set (l3_timers st). l3_now st \<le> x \<and> x \<le> fst e))
    \<and> (l3_now st \<in> set (l3_timers st) \<longrightarrow>
        (\<exists>st'. l3_HandleTimeout (st\<lparr>l3_timers := remove1 (l3_now st) (l3_timers st)\<rparr>) = Some st'
          \<and> l3_timeoutEventList st' = filter (\<lambda>e. fst e \<noteq> l3_now st) (l3_timeoutEventList st)
          \<and> dom (l3_fragments st') = (fst \<circ> snd) ` set (l3_timeoutEventList st')))"
proof -
  have inv: "l3_inv T S st" by (rule l3_reach_inv [OF assms])
  have "\<exists>e \<in> set (l3_timeoutEventList st). fst (snd e) = k \<and> l3_now st \<le> fst e \<and> fst e \<le> l3_now st + T
      \<and> (\<exists>x \<in> set (l3_timers st). l3_now st \<le> x \<and> x \<le> fst e)" if "k \<in> dom (l3_fragments st)" for k
  proof -
    have "k \<in> (fst \<circ> snd) ` set (l3_timeoutEventList st)" using inv that unfolding l3_inv_def set_map by blast
    then obtain e where e: "e \<in> set (l3_timeoutEventList st)" "fst (snd e) = k" by auto
    then have "l3_timeoutEventList st \<noteq> []" by auto
    then obtain x where x: "x \<in> set (l3_timers st)" "x \<le> fst (hd (l3_timeoutEventList st))"
      using inv unfolding l3_inv_def by blast
    have "fst (hd (l3_timeoutEventList st)) \<le> fst e"
      using inv e(1) by (cases "l3_timeoutEventList st") (auto simp: l3_inv_def)
    then have "x \<le> fst e" using x(2) by simp
    moreover have "l3_now st \<le> x" "l3_now st \<le> fst e" "fst e \<le> l3_now st + T"
      using inv x(1) e(1) unfolding l3_inv_def by blast+
    ultimately show ?thesis using e x(1) by blast
  qed
  moreover have "dom (l3_fragments st') = (fst \<circ> snd) ` set (l3_timeoutEventList st')" if "l3_inv T S st'" for st'
    using that unfolding l3_inv_def set_map by blast
  ultimately show ?thesis using HandleTimeout_ok [OF inv] by blast
qed

text \<open>
  The header that goes up with a reassembled packet.  \<^verbatim>\<open>LocalDeliver\<close> sets the offset to
  zero and the payload size to that of the packet, but the flag \<^verbatim>\<open>MoreFragments\<close> stays that of
  the fragment that completed the packet: unless the final fragment arrives last, the protocols
  above see a header that says that more fragments follow.
\<close>

theorem LocalDeliver_flag_stays:
  assumes "l3_LocalDeliver T p h iif st = Some (Some (q, h'), st')" and "\<not> ip_IsLastFragment h"
  shows "\<not> ip_IsLastFragment h' \<and> ip_fragmentOffset h' = 0 \<and> ip_payloadSize h' = of_nat (length q)
    \<and> l3_ProcessFragment T p h iif st = Some (True, q, st')"
  using assms by (auto simp: l3_LocalDeliver_def ip_SetFragmentOffset_def ip_SetPayloadSize_def IsLast_bit
      split: bind_splits if_splits)

theorem reassembly_exact_witness:
  "\<exists>st'. l3_ProcessFragment 30 [1, 2, 3] Ipv4Header_init 1 l3_init = Some (True, [1, 2, 3], st')"
proof -
  have "fr_IsEntire (fr_AddFragment [1, 2, 3] 0 False Fragments_init)"
    by (simp add: fr_IsEntire_def fr_AddFragment_def Fragments_init_def)
  moreover have "ip_IsLastFragment Ipv4Header_init" "ip_fragmentOffset Ipv4Header_init = 0"
    by (simp_all add: ip_IsLastFragment_def Ipv4Header_init_def)
  ultimately have "\<exists>st'. l3_ProcessFragment 30 [1, 2, 3] Ipv4Header_init 1 l3_init = Some (True, [1, 2, 3], st')
      \<or> (\<forall>c q st'. l3_ProcessFragment 30 [1, 2, 3] Ipv4Header_init 1 l3_init = Some (c, q, st') \<longrightarrow> c \<and> q \<noteq> [1, 2, 3])"
    by (auto simp: l3_ProcessFragment_def l3_init_def ip_GetFragmentOffset_def Let_def split: bind_splits)
  then show ?thesis
    using reassembly_exact [OF start [of 30 "\<lambda>_. [1, 2, 3]"], of "[1, 2, 3]" Ipv4Header_init 1]
      \<open>ip_IsLastFragment Ipv4Header_init\<close> \<open>ip_fragmentOffset Ipv4Header_init = 0\<close>
    by (auto simp: piece_def)
qed

lemma sample_whole: "ip_fragmentOffset sample_ip = 0" "ip_IsLastFragment sample_ip" "ip_headerSize sample_ip = 20"
  by (simp_all add: sample_ip_def ip_IsLastFragment_def ip_SetDontFragment_def ip_SetTtl_def ip_SetSource_def
      ip_SetDestination_def ip_EnableChecksum_def Ipv4Header_init_def)

theorem fragments_reassembled_witness:
  "\<exists>fs rs st'. l3_DoFragmentation 101 True (replicate 100 7) sample_ip 68 = FragDone fs
    \<and> l3_receive 30 (rev fs) 1 l3_init = Some (rs, st') \<and> snd (last rs) = replicate 100 7"
proof -
  let ?p = "replicate 100 (7 :: u8)"
  have pc: "piece ?p ?p (ip_fragmentOffset sample_ip) (\<not> ip_IsLastFragment sample_ip)" using sample_whole by (simp add: piece_def)
  obtain fs where fs: "l3_DoFragmentation (Suc (length ?p)) True ?p sample_ip 68 = FragDone fs"
    using l3_DoFragmentation_ok [OF pc, of 68 "Suc (length ?p)" True] sample_whole by auto
  have "\<exists>rs st'. l3_receive 30 (rev fs) 1 l3_init = Some (rs, st')
      \<and> map fst rs = replicate (length fs - 1) False @ [True] \<and> snd (last rs) = ?p
      \<and> l3_fragments st' = l3_fragments l3_init"
    by (rule fragments_reassembled [OF start [of 30 "\<lambda>_. ?p"] _ _ _ _ sample_whole _ _ fs])
      (simp_all add: l3_init_def)
  moreover have "Suc (length ?p) = 101" by simp
  ultimately show ?thesis using fs by (metis (no_types))
qed

lemma waiting_state:
  obtains st where "l3_reach 30 (\<lambda>_. replicate 10 7) st"
    "l3_fragments st (frag_key (ip_SetMoreFragments Ipv4Header_init)) \<noteq> None"
proof -
  let ?h = "ip_SetMoreFragments Ipv4Header_init" and ?S = "\<lambda>_ :: frag_key. replicate 10 (7 :: u8)"
  have mf: "\<not> ip_IsLastFragment ?h" using set_flag_bits(1) by simp
  have pc: "piece (?S (frag_key ?h)) (replicate 8 7) (ip_fragmentOffset ?h) (\<not> ip_IsLastFragment ?h)"
    using mf by (simp add: piece_def ip_SetMoreFragments_def Ipv4Header_init_def)
  have "\<not> fr_IsEntire (fr_AddFragment (replicate 8 7) k True Fragments_init)" for k
    by (simp add: fr_IsEntire_def fr_AddFragment_def Fragments_init_def)
  moreover have "l3_fragments l3_init (frag_key ?h) = None" by (simp add: l3_init_def)
  ultimately obtain c q st where st: "l3_ProcessFragment 30 (replicate 8 7) ?h 1 l3_init = Some (c, q, st)"
    "l3_fragments st (frag_key ?h) \<noteq> None"
    using ProcessFragment_ok [OF l3_reach_inv [OF start] pc, of 30 1] mf unfolding Let_def by fastforce
  have "l3_reach 30 ?S st" by (rule move [OF start arrive [OF pc _ st(1)]]) simp
  then show ?thesis using that st(2) by blast
qed

theorem reassembly_timeouts_witness:
  "\<exists>st k. l3_reach 30 (\<lambda>_. replicate 10 7) st \<and> l3_fragments st k \<noteq> None
    \<and> (\<exists>e \<in> set (l3_timeoutEventList st). fst (snd e) = k \<and> fst e \<le> l3_now st + 30
         \<and> (\<exists>x \<in> set (l3_timers st). x \<le> fst e))"
proof -
  let ?k = "frag_key (ip_SetMoreFragments Ipv4Header_init)"
  obtain st where st: "l3_reach 30 (\<lambda>_. replicate 10 7) st" "l3_fragments st ?k \<noteq> None" by (rule waiting_state)
  then have "?k \<in> dom (l3_fragments st)" by blast
  then have "\<exists>e \<in> set (l3_timeoutEventList st). fst (snd e) = ?k \<and> fst e \<le> l3_now st + 30
         \<and> (\<exists>x \<in> set (l3_timers st). x \<le> fst e)"
    using reassembly_timeouts [OF st(1)] by blast
  then show ?thesis using st by blast
qed

text \<open>The final fragment first, then the first one: the header delivered has the flag set.\<close>

theorem LocalDeliver_flag_stays_witness:
  "\<exists>st h' st'. l3_LocalDeliver 30 (replicate 8 7) (ip_SetMoreFragments Ipv4Header_init) 1 st
      = Some (Some (replicate 8 7 @ [9], h'), st') \<and> \<not> ip_IsLastFragment h'"
proof -
  let ?h = "ip_SetMoreFragments Ipv4Header_init"
  let ?st = "l3_init\<lparr>l3_fragments := [frag_key ?h \<mapsto> \<lparr>fr_moreFragment = False, fr_list = [([9], 8)]\<rparr>]\<rparr>"
  have mf: "\<not> ip_IsLastFragment ?h" using set_flag_bits(1) by simp
  have off: "ip_fragmentOffset ?h = 0" by (simp add: ip_SetMoreFragments_def Ipv4Header_init_def)
  have "\<exists>h' st'. l3_LocalDeliver 30 (replicate 8 7) ?h 1 ?st = Some (Some (replicate 8 7 @ [9], h'), st')"
    using mf off by (simp add: l3_LocalDeliver_def l3_ProcessFragment_def ip_GetFragmentOffset_def fr_AddFragment_def
        fr_IsEntire_def fr_GetPacket_def ip_SetFragmentOffset_def)
  then show ?thesis using LocalDeliver_flag_stays [OF _ mf] by blast
qed

end
