(* ===== verification/Ipv4_Static_Routing.thy ===== *)
theory Ipv4_Static_Routing
  imports Ipv4_Interfaces
begin

text \<open>
  Static routing: \<^verbatim>\<open>Ipv4RoutingTableEntry\<close>, \<^verbatim>\<open>Ipv4MulticastRoutingTableEntry\<close>
  (src/internet/model/ipv4-routing-table-entry.cc), \<^verbatim>\<open>Ipv4Route\<close>, \<^verbatim>\<open>Ipv4MulticastRoute\<close>
  (ipv4-route.cc) and \<^verbatim>\<open>Ipv4StaticRouting\<close> (ipv4-static-routing.cc).  The protocol object
  behind \<^verbatim>\<open>m_ipv4\<close> is an argument of the operations that use it.
\<close>

section \<open>Entries and routes\<close>

text \<open>\<open>rte_gatewaySet\<close> is the flag \<^verbatim>\<open>m_initialized\<close> of the gateway address.\<close>

record route_entry =
  rte_dest :: u32
  rte_destNetworkMask :: u32
  rte_gateway :: u32
  rte_gatewaySet :: bool
  rte_interface :: nat

definition rte_IsHost :: "route_entry \<Rightarrow> bool" where
  "rte_IsHost e \<longleftrightarrow> rte_destNetworkMask e = mask_GetOnes"

definition rte_IsNetwork :: "route_entry \<Rightarrow> bool" where
  "rte_IsNetwork e \<longleftrightarrow> \<not> rte_IsHost e"

definition rte_IsDefault :: "route_entry \<Rightarrow> bool" where
  "rte_IsDefault e \<longleftrightarrow> rte_dest e = addr_GetZero"

definition rte_IsGateway :: "route_entry \<Rightarrow> bool" where
  "rte_IsGateway e \<longleftrightarrow> rte_gateway e \<noteq> addr_GetZero"

definition rte_CreateNetworkRouteTo :: "u32 \<Rightarrow> u32 \<Rightarrow> u32 \<Rightarrow> bool \<Rightarrow> nat \<Rightarrow> route_entry" where
  "rte_CreateNetworkRouteTo network networkMask nextHop nextHopSet interface =
     \<lparr>rte_dest = network, rte_destNetworkMask = networkMask, rte_gateway = nextHop,
      rte_gatewaySet = nextHopSet, rte_interface = interface\<rparr>"

definition rte_CreateNetworkRouteTo_direct :: "u32 \<Rightarrow> u32 \<Rightarrow> nat \<Rightarrow> route_entry" where
  "rte_CreateNetworkRouteTo_direct network networkMask interface =
     \<lparr>rte_dest = network, rte_destNetworkMask = networkMask, rte_gateway = addr_GetZero,
      rte_gatewaySet = True, rte_interface = interface\<rparr>"

record mroute_entry =
  mre_origin :: u32
  mre_group :: u32
  mre_inputInterface :: nat
  mre_outputInterfaces :: "nat list"

record ipv4_route =
  rt_dest :: u32
  rt_source :: u32
  rt_gateway :: u32
  rt_gatewaySet :: bool
  rt_outputDevice :: ptr

text \<open>The map from interfaces to TTLs is the list of its pairs in the order of the keys.\<close>

record ipv4_mroute =
  mrt_group :: u32
  mrt_origin :: u32
  mrt_parent :: nat
  mrt_ttls :: "(nat \<times> nat) list"

fun ttl_insert :: "nat \<Rightarrow> nat \<Rightarrow> (nat \<times> nat) list \<Rightarrow> (nat \<times> nat) list" where
  "ttl_insert oif ttl [] = [(oif, ttl)]"
| "ttl_insert oif ttl ((k, t) # r) =
     (if oif < k then (oif, ttl) # (k, t) # r
      else if oif = k then (k, ttl) # r
      else (k, t) # ttl_insert oif ttl r)"

definition mrt_SetOutputTtl :: "nat \<Rightarrow> nat \<Rightarrow> ipv4_mroute \<Rightarrow> ipv4_mroute" where
  "mrt_SetOutputTtl oif ttl m =
     (if ttl \<ge> 255 then m\<lparr>mrt_ttls := filter (\<lambda>(k, _). k \<noteq> oif) (mrt_ttls m)\<rparr>
      else m\<lparr>mrt_ttls := ttl_insert oif ttl (mrt_ttls m)\<rparr>)"

section \<open>The routing table\<close>

record static_routing =
  sr_networkRoutes :: "(route_entry \<times> u32) list"
  sr_multicastRoutes :: "mroute_entry list"

definition sr_LookupRoute :: "route_entry \<Rightarrow> u32 \<Rightarrow> static_routing \<Rightarrow> bool" where
  "sr_LookupRoute route metric sr \<longleftrightarrow> list_ex (\<lambda>(e, k).
     rte_dest e = rte_dest route \<and> rte_destNetworkMask e = rte_destNetworkMask route
     \<and> rte_gateway e = rte_gateway route \<and> rte_interface e = rte_interface route \<and> k = metric) (sr_networkRoutes sr)"

definition sr_add :: "route_entry \<Rightarrow> u32 \<Rightarrow> static_routing \<Rightarrow> static_routing" where
  "sr_add route metric sr =
     (if \<not> sr_LookupRoute route metric sr
      then sr\<lparr>sr_networkRoutes := sr_networkRoutes sr @ [(route, metric)]\<rparr> else sr)"

definition sr_AddNetworkRouteTo :: "u32 \<Rightarrow> u32 \<Rightarrow> u32 \<Rightarrow> bool \<Rightarrow> nat \<Rightarrow> u32 \<Rightarrow> static_routing \<Rightarrow> static_routing" where
  "sr_AddNetworkRouteTo network networkMask nextHop nextHopSet interface metric sr =
     sr_add (rte_CreateNetworkRouteTo network networkMask nextHop nextHopSet interface) metric sr"

definition sr_AddNetworkRouteTo_direct :: "u32 \<Rightarrow> u32 \<Rightarrow> nat \<Rightarrow> u32 \<Rightarrow> static_routing \<Rightarrow> static_routing" where
  "sr_AddNetworkRouteTo_direct network networkMask interface metric sr =
     sr_add (rte_CreateNetworkRouteTo_direct network networkMask interface) metric sr"

definition sr_AddHostRouteTo :: "u32 \<Rightarrow> u32 \<Rightarrow> bool \<Rightarrow> nat \<Rightarrow> u32 \<Rightarrow> static_routing \<Rightarrow> static_routing" where
  "sr_AddHostRouteTo dest nextHop nextHopSet interface metric sr =
     sr_AddNetworkRouteTo dest mask_GetOnes nextHop nextHopSet interface metric sr"

definition sr_AddHostRouteTo_direct :: "u32 \<Rightarrow> nat \<Rightarrow> u32 \<Rightarrow> static_routing \<Rightarrow> static_routing" where
  "sr_AddHostRouteTo_direct dest interface metric sr =
     sr_AddNetworkRouteTo_direct dest mask_GetOnes interface metric sr"

definition sr_SetDefaultRoute :: "u32 \<Rightarrow> bool \<Rightarrow> nat \<Rightarrow> u32 \<Rightarrow> static_routing \<Rightarrow> static_routing" where
  "sr_SetDefaultRoute nextHop nextHopSet interface metric sr =
     sr_AddNetworkRouteTo 0 mask_GetZero nextHop nextHopSet interface metric sr"

definition sr_AddMulticastRoute :: "u32 \<Rightarrow> u32 \<Rightarrow> nat \<Rightarrow> nat list \<Rightarrow> static_routing \<Rightarrow> static_routing" where
  "sr_AddMulticastRoute origin grp inputInterface outputInterfaces sr =
     sr\<lparr>sr_multicastRoutes := sr_multicastRoutes sr @
       [\<lparr>mre_origin = origin, mre_group = grp, mre_inputInterface = inputInterface,
         mre_outputInterfaces = outputInterfaces\<rparr>]\<rparr>"

text \<open>The default multicast route is the network route to 224.0.0.0/4, added without a look at the table.\<close>

definition sr_SetDefaultMulticastRoute :: "nat \<Rightarrow> static_routing \<Rightarrow> static_routing" where
  "sr_SetDefaultMulticastRoute outputInterface sr =
     sr\<lparr>sr_networkRoutes := sr_networkRoutes sr @
       [(rte_CreateNetworkRouteTo_direct 0xe0000000 0xf0000000 outputInterface, 0)]\<rparr>"

definition sr_GetNMulticastRoutes :: "static_routing \<Rightarrow> nat" where
  "sr_GetNMulticastRoutes sr = length (sr_multicastRoutes sr)"

definition sr_GetMulticastRoute :: "nat \<Rightarrow> static_routing \<Rightarrow> mroute_entry option" where
  "sr_GetMulticastRoute index sr = do {
     ns_assert (index < length (sr_multicastRoutes sr));
     Some (sr_multicastRoutes sr ! index)
   }"

fun mroute_erase :: "(mroute_entry \<Rightarrow> bool) \<Rightarrow> mroute_entry list \<Rightarrow> (mroute_entry list) option" where
  "mroute_erase P [] = None"
| "mroute_erase P (m # r) = (if P m then Some r else map_option ((#) m) (mroute_erase P r))"

definition sr_RemoveMulticastRoute :: "u32 \<Rightarrow> u32 \<Rightarrow> nat \<Rightarrow> static_routing \<Rightarrow> bool \<times> static_routing" where
  "sr_RemoveMulticastRoute origin grp inputInterface sr =
     (case mroute_erase (\<lambda>m. origin = mre_origin m \<and> grp = mre_group m
           \<and> inputInterface = mre_inputInterface m) (sr_multicastRoutes sr) of
        Some l \<Rightarrow> (True, sr\<lparr>sr_multicastRoutes := l\<rparr>)
      | None \<Rightarrow> (False, sr))"

definition sr_RemoveMulticastRoute_at :: "nat \<Rightarrow> static_routing \<Rightarrow> static_routing" where
  "sr_RemoveMulticastRoute_at index sr =
     sr\<lparr>sr_multicastRoutes := take index (sr_multicastRoutes sr) @ drop (Suc index) (sr_multicastRoutes sr)\<rparr>"

text \<open>
  The loop of \<^verbatim>\<open>LookupStatic\<close> over the network routes, with its variables
  \<^verbatim>\<open>longest_mask\<close>, \<^verbatim>\<open>shortest_metric\<close> and \<^verbatim>\<open>rtentry\<close>; \<open>oif\<close> is a device or null.
\<close>

fun static_loop :: "l3_ifs \<Rightarrow> u32 \<Rightarrow> ptr \<Rightarrow> (route_entry \<times> u32) list \<Rightarrow> u16 \<Rightarrow> u32
    \<Rightarrow> ipv4_route option \<Rightarrow> ipv4_route option option" where
  "static_loop st dest oif [] longest_mask shortest_metric rtentry = Some rtentry"
| "static_loop st dest oif ((j, metric) # r) longest_mask shortest_metric rtentry =
     (let m = rte_destNetworkMask j; masklen = mask_GetPrefixLength m in
      if mask_IsMatch m dest (rte_dest j)
      then do {
        skip \<leftarrow> (if oif \<noteq> nullptr
          then do { d \<leftarrow> l3_GetNetDevice (rte_interface j) st; Some (oif \<noteq> d) }
          else Some False);
        if skip then static_loop st dest oif r longest_mask shortest_metric rtentry
        else if masklen < longest_mask then static_loop st dest oif r longest_mask shortest_metric rtentry
        else do {
          let shortest_metric = (if masklen > longest_mask then 0xffffffff else shortest_metric);
          if metric > shortest_metric then static_loop st dest oif r masklen shortest_metric rtentry
          else do {
            source \<leftarrow> l3_SourceAddressSelection (rte_interface j) (rte_dest j) st;
            d \<leftarrow> l3_GetNetDevice (rte_interface j) st;
            let rtentry = Some \<lparr>rt_dest = rte_dest j, rt_source = source, rt_gateway = rte_gateway j,
              rt_gatewaySet = rte_gatewaySet j, rt_outputDevice = d\<rparr>;
            if masklen = 32 then Some rtentry else static_loop st dest oif r masklen metric rtentry
          }
        }
      }
      else static_loop st dest oif r longest_mask shortest_metric rtentry)"

definition sr_LookupStatic :: "l3_ifs \<Rightarrow> u32 \<Rightarrow> ptr \<Rightarrow> static_routing \<Rightarrow> ipv4_route option option" where
  "sr_LookupStatic st dest oif sr =
     (if addr_IsLocalMulticast dest
      then do {
        ns_assert (oif \<noteq> nullptr);
        i \<leftarrow> l3_GetInterfaceForDevice oif st;
        a \<leftarrow> l3_GetAddress i 0 st;
        Some (Some \<lparr>rt_dest = dest, rt_source = ia_local a, rt_gateway = addr_GetZero, rt_gatewaySet = True,
          rt_outputDevice = oif\<rparr>)
      }
      else static_loop st dest oif (sr_networkRoutes sr) 0 0xffffffff None)"

abbreviation (input) IF_ANY :: nat where "IF_ANY \<equiv> 0xffffffff"

definition sr_LookupMulticast :: "u32 \<Rightarrow> u32 \<Rightarrow> nat \<Rightarrow> static_routing \<Rightarrow> ipv4_mroute option" where
  "sr_LookupMulticast origin grp interface sr =
     (case find (\<lambda>m. grp = mre_group m \<and> (interface = IF_ANY \<or> interface = mre_inputInterface m))
           (sr_multicastRoutes sr) of
        None \<Rightarrow> None
      | Some m \<Rightarrow> Some (foldl (\<lambda>rt oif. if oif \<noteq> 0 then mrt_SetOutputTtl oif 254 rt else rt)
          \<lparr>mrt_group = mre_group m, mrt_origin = mre_origin m, mrt_parent = mre_inputInterface m, mrt_ttls = []\<rparr>
          (mre_outputInterfaces m)))"

definition sr_GetNRoutes :: "static_routing \<Rightarrow> nat" where
  "sr_GetNRoutes sr = length (sr_networkRoutes sr)"

text \<open>
  \<open>None\<close> is the entry made by the default constructor, whose interface number is not initialized.
\<close>

fun default_loop :: "(route_entry \<times> u32) list \<Rightarrow> u32 \<Rightarrow> route_entry option \<Rightarrow> route_entry option" where
  "default_loop [] shortest_metric result = result"
| "default_loop ((j, metric) # r) shortest_metric result =
     (if mask_GetPrefixLength (rte_destNetworkMask j) \<noteq> 0 then default_loop r shortest_metric result
      else if metric > shortest_metric then default_loop r shortest_metric result
      else default_loop r metric (Some j))"

definition sr_GetDefaultRoute :: "static_routing \<Rightarrow> route_entry option" where
  "sr_GetDefaultRoute sr = default_loop (sr_networkRoutes sr) 0xffffffff None"

definition sr_GetRoute :: "nat \<Rightarrow> static_routing \<Rightarrow> route_entry option" where
  "sr_GetRoute index sr =
     (if index < length (sr_networkRoutes sr) then Some (fst (sr_networkRoutes sr ! index)) else None)"

definition sr_GetMetric :: "nat \<Rightarrow> static_routing \<Rightarrow> u32 option" where
  "sr_GetMetric index sr =
     (if index < length (sr_networkRoutes sr) then Some (snd (sr_networkRoutes sr ! index)) else None)"

definition sr_RemoveRoute :: "nat \<Rightarrow> static_routing \<Rightarrow> static_routing option" where
  "sr_RemoveRoute index sr =
     (if index < length (sr_networkRoutes sr)
      then Some (sr\<lparr>sr_networkRoutes := take index (sr_networkRoutes sr) @ drop (Suc index) (sr_networkRoutes sr)\<rparr>)
      else None)"

datatype sock_errno =
    ERROR_NOTERROR | ERROR_ISCONN | ERROR_NOTCONN | ERROR_MSGSIZE | ERROR_AGAIN | ERROR_SHUTDOWN | ERROR_OPNOTSUPP
  | ERROR_AFNOSUPPORT | ERROR_INVAL | ERROR_BADF | ERROR_NOROUTETOHOST | ERROR_NODEV | ERROR_ADDRNOTAVAIL | ERROR_ADDRINUSE

definition sr_RouteOutput :: "l3_ifs \<Rightarrow> u32 \<Rightarrow> ptr \<Rightarrow> static_routing \<Rightarrow> (ipv4_route option \<times> sock_errno) option" where
  "sr_RouteOutput st destination oif sr = do {
     rtentry \<leftarrow> sr_LookupStatic st destination oif sr;
     Some (rtentry, if rtentry \<noteq> None then ERROR_NOTERROR else ERROR_NOROUTETOHOST)
   }"

text \<open>
  What \<^verbatim>\<open>RouteInput\<close> does with a packet: the callback that it calls, or nothing when it returns false.
\<close>

datatype route_input =
    UnicastForward ipv4_route | MulticastForward ipv4_mroute | LocalDelivery nat
  | RouteError sock_errno | NotRouted

definition sr_RouteInput :: "l3_ifs \<Rightarrow> u32 \<Rightarrow> u32 \<Rightarrow> ptr \<Rightarrow> bool \<Rightarrow> static_routing \<Rightarrow> route_input option" where
  "sr_RouteInput st source destination idev lcb sr = do {
     iif \<leftarrow> l3_GetInterfaceForDevice idev st;
     if addr_IsMulticast destination
     then Some (case sr_LookupMulticast source destination iif sr of
         Some m \<Rightarrow> MulticastForward m | None \<Rightarrow> NotRouted)
     else do {
       mine \<leftarrow> l3_IsDestinationAddress destination iif st;
       if mine then Some (if lcb then LocalDelivery iif else NotRouted)
       else do {
         forwarding \<leftarrow> l3_IsForwarding iif st;
         if \<not> forwarding then Some (RouteError ERROR_NOROUTETOHOST)
         else do {
           rtentry \<leftarrow> sr_LookupStatic st destination nullptr sr;
           Some (case rtentry of Some rt \<Rightarrow> UnicastForward rt | None \<Rightarrow> NotRouted)
         }
       }
     }
   }"

text \<open>Routes to the networks of the interfaces come and go with the interfaces and their addresses.\<close>

definition sr_up_route :: "nat \<Rightarrow> iface_addr \<Rightarrow> static_routing \<Rightarrow> static_routing" where
  "sr_up_route i a sr =
     (if ia_local a \<noteq> UNINITIALIZED \<and> ia_mask a \<noteq> Ipv4Mask_init \<and> ia_mask a \<noteq> mask_GetOnes
      then sr_AddNetworkRouteTo_direct (addr_CombineMask (ia_mask a) (ia_local a)) (ia_mask a) i 0 sr
      else sr)"

definition sr_NotifyInterfaceUp :: "l3_ifs \<Rightarrow> nat \<Rightarrow> static_routing \<Rightarrow> static_routing option" where
  "sr_NotifyInterfaceUp st i sr = do {
     f \<leftarrow> l3_GetInterface i st;
     Some (fold (sr_up_route i) (if_ifaddrs f) sr)
   }"

definition sr_NotifyInterfaceDown :: "nat \<Rightarrow> static_routing \<Rightarrow> static_routing" where
  "sr_NotifyInterfaceDown i sr =
     sr\<lparr>sr_networkRoutes := filter (\<lambda>(e, _). rte_interface e \<noteq> i) (sr_networkRoutes sr)\<rparr>"

definition sr_NotifyAddAddress :: "l3_ifs \<Rightarrow> nat \<Rightarrow> iface_addr \<Rightarrow> static_routing \<Rightarrow> static_routing option" where
  "sr_NotifyAddAddress st interface a sr = do {
     up \<leftarrow> l3_IsUp interface st;
     Some (if \<not> up then sr
           else if ia_local a \<noteq> UNINITIALIZED \<and> ia_mask a \<noteq> Ipv4Mask_init
           then sr_AddNetworkRouteTo_direct (addr_CombineMask (ia_mask a) (ia_local a)) (ia_mask a) interface 0 sr
           else sr)
   }"

definition sr_NotifyRemoveAddress :: "l3_ifs \<Rightarrow> nat \<Rightarrow> iface_addr \<Rightarrow> static_routing \<Rightarrow> static_routing option" where
  "sr_NotifyRemoveAddress st interface a sr = do {
     up \<leftarrow> l3_IsUp interface st;
     Some (if \<not> up then sr
           else sr\<lparr>sr_networkRoutes := filter (\<lambda>(e, _). \<not> (rte_interface e = interface \<and> rte_IsNetwork e
             \<and> rte_dest e = addr_CombineMask (ia_mask a) (ia_local a)
             \<and> rte_destNetworkMask e = ia_mask a)) (sr_networkRoutes sr)\<rparr>)
   }"

text \<open>\<^verbatim>\<open>SetIpv4\<close> goes over all interfaces.\<close>

fun sr_notify_all :: "l3_ifs \<Rightarrow> nat list \<Rightarrow> static_routing \<Rightarrow> static_routing option" where
  "sr_notify_all st [] sr = Some sr"
| "sr_notify_all st (i # r) sr = do {
     up \<leftarrow> l3_IsUp i st;
     sr \<leftarrow> (if up then sr_NotifyInterfaceUp st i sr else Some (sr_NotifyInterfaceDown i sr));
     sr_notify_all st r sr
   }"

definition sr_SetIpv4 :: "l3_ifs \<Rightarrow> static_routing \<Rightarrow> static_routing option" where
  "sr_SetIpv4 st sr = sr_notify_all st [0 ..< l3_GetNInterfaces st] sr"

end
