(* ===== verification/Ipv4_Routing_Laws.thy ===== *)
theory Ipv4_Routing_Laws
  imports Ipv4_Static_Routing
begin

text \<open>
  The lookup of static routes: \<^verbatim>\<open>LookupStatic\<close> against the definition of the best route by
  prefix length and metric, and what the lookup does among host routes.
\<close>

section \<open>The last optimum of a list\<close>

definition last_opt :: "('a \<Rightarrow> 'a \<Rightarrow> bool) \<Rightarrow> 'a list \<Rightarrow> 'a option" where
  "last_opt R cs = (case filter (\<lambda>c. list_all (R c) cs) cs of [] \<Rightarrow> None | b # bs \<Rightarrow> Some (last (b # bs)))"

lemma last_opt_Nil [simp]: "last_opt R [] = None"
  by (simp add: last_opt_def)

lemma last_opt_None: "last_opt R cs = None \<longleftrightarrow> filter (\<lambda>c. list_all (R c) cs) cs = []"
  by (simp add: last_opt_def split: list.split)

lemma last_opt_Some: "last_opt R cs = Some b \<longleftrightarrow>
  filter (\<lambda>c. list_all (R c) cs) cs \<noteq> [] \<and> last (filter (\<lambda>c. list_all (R c) cs) cs) = b"
  unfolding last_opt_def by (cases "filter (\<lambda>c. list_all (R c) cs) cs") simp_all

lemma last_opt_best:
  assumes "last_opt R cs = Some b"
  shows "b \<in> set cs" and "\<And>d. d \<in> set cs \<Longrightarrow> R b d"
proof -
  have "b \<in> set (filter (\<lambda>c. list_all (R c) cs) cs)" using assms unfolding last_opt_Some by (metis last_in_set)
  then show "b \<in> set cs" and "\<And>d. d \<in> set cs \<Longrightarrow> R b d" by (auto simp: list_all_iff)
qed

text \<open>For a total preorder the optimum can be kept while the list is read.\<close>

lemma last_opt_snoc:
  assumes total: "\<And>x y. R x y \<or> R y x" and trans: "\<And>x y z. R x y \<Longrightarrow> R y z \<Longrightarrow> R x z"
  shows "last_opt R (cs @ [c]) = (case last_opt R cs of None \<Rightarrow> Some c | Some b \<Rightarrow> if R c b then Some c else Some b)
    \<and> (cs = [] \<or> last_opt R cs \<noteq> None)"
proof (induction cs arbitrary: c rule: rev_induct)
  case Nil
  show ?case using total [of c c] by (simp add: last_opt_def)
next
  case (snoc d ds)
  let ?cs = "ds @ [d]"
  have "last_opt R ?cs \<noteq> None" using snoc [of d] by (auto split: option.splits)
  then obtain b where b: "last_opt R ?cs = Some b" by blast
  note best = last_opt_best [OF b]
  have "last_opt R (?cs @ [c]) = (if R c b then Some c else Some b)"
  proof (cases "R c b")
    case True
    then have "list_all (R c) (?cs @ [c])" using best(2) trans [OF True] total [of c c] by (auto simp: list_all_iff)
    then show ?thesis using True by (simp add: last_opt_Some)
  next
    case False
    then have bc: "R b c" using total by blast
    have "filter (\<lambda>x. list_all (R x) (?cs @ [c])) (?cs @ [c]) = filter (\<lambda>x. list_all (R x) (?cs @ [c])) ?cs"
      using False best(1) by (auto simp: list_all_iff)
    also have "\<dots> = filter (\<lambda>x. list_all (R x) ?cs) ?cs"
      using best(1) trans [OF _ bc] by (intro filter_cong) (auto simp: list_all_iff)
    finally have "last_opt R (?cs @ [c]) = last_opt R ?cs" by (simp only: last_opt_def)
    then show ?thesis using b False by simp
  qed
  then show ?case using b by simp
qed

section \<open>The best route\<close>

text \<open>
  A candidate is an entry that matches the destination and is on the requested device.  Of two
  candidates the one with the longer prefix is better, then the one with the lesser metric.
\<close>

definition candidate :: "l3_ifs \<Rightarrow> u32 \<Rightarrow> ptr \<Rightarrow> route_entry \<times> u32 \<Rightarrow> bool" where
  "candidate st dest oif c \<longleftrightarrow> mask_IsMatch (rte_destNetworkMask (fst c)) dest (rte_dest (fst c))
     \<and> (oif = nullptr \<or> l3_GetNetDevice (rte_interface (fst c)) st = Some oif)"

definition plen :: "route_entry \<times> u32 \<Rightarrow> nat" where
  "plen c = unat (mask_GetPrefixLength (rte_destNetworkMask (fst c)))"

definition better :: "route_entry \<times> u32 \<Rightarrow> route_entry \<times> u32 \<Rightarrow> bool" where
  "better c d \<longleftrightarrow> plen d < plen c \<or> plen d = plen c \<and> snd c \<le> snd d"

text \<open>
  The choice of the code: the first host route if there is one, otherwise the last of the best
  candidates.
\<close>

definition best_route :: "(route_entry \<times> u32) list \<Rightarrow> (route_entry \<times> u32) option" where
  "best_route cs = (if list_ex (\<lambda>c. plen c = 32) cs then find (\<lambda>c. plen c = 32) cs else last_opt better cs)"

definition route_via :: "l3_ifs \<Rightarrow> route_entry \<Rightarrow> ipv4_route option" where
  "route_via st e = do {
     source \<leftarrow> l3_SourceAddressSelection (rte_interface e) (rte_dest e) st;
     d \<leftarrow> l3_GetNetDevice (rte_interface e) st;
     Some \<lparr>rt_dest = rte_dest e, rt_source = source, rt_gateway = rte_gateway e,
       rt_gatewaySet = rte_gatewaySet e, rt_outputDevice = d\<rparr>
   }"

text \<open>The entries of a table are usable when their interfaces exist and have an address.\<close>

definition usable :: "l3_ifs \<Rightarrow> nat \<Rightarrow> bool" where
  "usable st i \<longleftrightarrow> i < length (l3_interfaces st) \<and> if_ifaddrs (l3_interfaces st ! i) \<noteq> []"

definition routes_ok :: "l3_ifs \<Rightarrow> static_routing \<Rightarrow> bool" where
  "routes_ok st sr \<longleftrightarrow> list_all (\<lambda>c. usable st (rte_interface (fst c))) (sr_networkRoutes sr)"

lemma usable_device: "usable st i \<Longrightarrow> l3_GetNetDevice i st = Some (if_device (l3_interfaces st ! i))"
  by (simp add: usable_def l3_GetNetDevice_def l3_GetInterface_def)

lemma route_via_ok:
  assumes "usable st (rte_interface e)"
  shows "\<exists>rt. route_via st e = Some rt \<and> rt_dest rt = rte_dest e \<and> rt_gateway rt = rte_gateway e
    \<and> rt_gatewaySet rt = rte_gatewaySet e \<and> l3_GetNetDevice (rte_interface e) st = Some (rt_outputDevice rt)
    \<and> (\<exists>a \<in> set (if_ifaddrs (l3_interfaces st ! rte_interface e)). rt_source rt = ia_local a)"
proof -
  obtain a where "a \<in> set (if_ifaddrs (l3_interfaces st ! rte_interface e))"
    "l3_SourceAddressSelection (rte_interface e) (rte_dest e) st = Some (ia_local a)"
    using SourceAddressSelection_ok [of "rte_interface e" st "rte_dest e"] assms by (auto simp: usable_def)
  then show ?thesis using usable_device [OF assms] by (auto simp: route_via_def)
qed

lemma better_total: "better c d \<or> better d c"
  by (auto simp: better_def)

lemma better_trans: "better c d \<Longrightarrow> better d e \<Longrightarrow> better c e"
  unfolding better_def by (auto intro: order_trans)

lemma last_best_snoc:
  "last_opt better (cs @ [c]) = (case last_opt better cs of None \<Rightarrow> Some c | Some b \<Rightarrow> if better c b then Some c else Some b)"
  using last_opt_snoc [of better cs c] better_total better_trans by blast

section \<open>The loop\<close>

text \<open>The choice as a single pass, with the candidate that was chosen so far.\<close>

fun pick :: "(route_entry \<times> u32) option \<Rightarrow> (route_entry \<times> u32) list \<Rightarrow> (route_entry \<times> u32) option" where
  "pick acc [] = acc"
| "pick acc (c # cs) =
     (if (case acc of None \<Rightarrow> True | Some b \<Rightarrow> better c b)
      then (if plen c = 32 then Some c else pick (Some c) cs)
      else pick acc cs)"

lemma plen_le_32: "plen c \<le> 32"
  by (simp add: plen_def prefix_le_32)

lemma pick_best:
  assumes "\<not> list_ex (\<lambda>c. plen c = 32) ds"
  shows "pick (last_opt better ds) cs = best_route (ds @ cs)"
  using assms
proof (induction cs arbitrary: ds)
  case Nil
  then show ?case by (simp add: best_route_def)
next
  case (Cons c cs)
  let ?take = "case last_opt better ds of None \<Rightarrow> True | Some b \<Rightarrow> better c b"
  show ?case
  proof (cases "plen c = 32")
    case True
    have "better c b" if "last_opt better ds = Some b" for b
      using last_opt_best(1) [OF that] Cons.prems plen_le_32 [of b] True
      by (fastforce simp: better_def list_ex_iff)
    then have "?take" by (simp split: option.split)
    moreover have "find (\<lambda>c. plen c = 32) (ds @ c # cs) = Some c"
      using Cons.prems True by (induction ds) (auto split: if_splits)
    ultimately show ?thesis using True by (simp add: best_route_def)
  next
    case False
    then have "pick (last_opt better ds) (c # cs) = pick (last_opt better (ds @ [c])) cs"
      using last_best_snoc [of ds c] by (auto split: option.split)
    also have "\<dots> = best_route ((ds @ [c]) @ cs)" using Cons.prems False by (intro Cons.IH) simp
    finally show ?thesis by simp
  qed
qed

definition loop_vars :: "l3_ifs \<Rightarrow> (route_entry \<times> u32) option \<Rightarrow> u16 \<Rightarrow> u32 \<Rightarrow> ipv4_route option \<Rightarrow> bool" where
  "loop_vars st acc longest shortest rt \<longleftrightarrow> (case acc of
       None \<Rightarrow> longest = 0 \<and> shortest = 0xffffffff \<and> rt = None
     | Some b \<Rightarrow> longest = mask_GetPrefixLength (rte_destNetworkMask (fst b)) \<and> shortest = snd b
         \<and> rt = route_via st (fst b) \<and> rt \<noteq> None)"

lemma u32_top: "\<not> (0xffffffff :: u32) < x"
proof -
  have "(0xffffffff :: u32) = - 1" by simp
  then show ?thesis by (simp only: not_less word_order.extremum)
qed

lemma static_loop_pick:
  assumes "list_all (\<lambda>c. usable st (rte_interface (fst c))) rs" and "loop_vars st acc longest shortest rt"
  shows "static_loop st dest oif rs longest shortest rt =
    (case pick acc (filter (candidate st dest oif) rs) of None \<Rightarrow> Some None | Some b \<Rightarrow> map_option Some (route_via st (fst b)))"
  using assms
proof (induction rs arbitrary: acc longest shortest rt)
  case Nil
  then show ?case by (auto simp: loop_vars_def split: option.splits)
next
  case (Cons c rs)
  obtain j metric where c: "c = (j, metric)" by (cases c)
  have us: "usable st (rte_interface j)" and rest: "list_all (\<lambda>c. usable st (rte_interface (fst c))) rs"
    using Cons.prems(1) by (simp_all add: c)
  obtain rt' where rt': "route_via st j = Some rt'" using route_via_ok [OF us] by blast
  note dev = usable_device [OF us]
  let ?len = "mask_GetPrefixLength (rte_destNetworkMask j)"
  show ?case
  proof (cases "candidate st dest oif c")
    case False
    then have "static_loop st dest oif (c # rs) longest shortest rt = static_loop st dest oif rs longest shortest rt"
      using dev by (auto simp: c candidate_def Let_def)
    then show ?thesis using False Cons.IH [OF rest Cons.prems(2)] by simp
  next
    case True
    define take where "take \<longleftrightarrow> \<not> ?len < longest \<and> \<not> metric > (if ?len > longest then 0xffffffff else shortest)"
    have taken: "take \<longleftrightarrow> (case acc of None \<Rightarrow> True | Some b \<Rightarrow> better c b)"
    proof (cases acc)
      case None
      then have "longest = 0" "shortest = 0xffffffff" using Cons.prems(2) by (simp_all add: loop_vars_def)
      then show ?thesis using u32_top by (simp add: take_def None)
    next
      case (Some b)
      then have "longest = mask_GetPrefixLength (rte_destNetworkMask (fst b))" "shortest = snd b"
        using Cons.prems(2) by (simp_all add: loop_vars_def)
      then show ?thesis using u32_top unfolding take_def Some better_def plen_def c fst_conv snd_conv option.case
        by (cases ?len longest rule: linorder_cases) (auto simp: word_less_nat_alt word_le_nat_alt not_less)
    qed
    have loop: "static_loop st dest oif (c # rs) longest shortest rt =
        (if take then (if ?len = 32 then Some (Some rt') else static_loop st dest oif rs ?len metric (Some rt'))
         else static_loop st dest oif rs longest shortest rt)"
    proof -
      have match: "mask_IsMatch (rte_destNetworkMask j) dest (rte_dest j)"
        and on: "oif = nullptr \<or> oif = if_device (l3_interfaces st ! rte_interface j)"
        using True dev by (auto simp: c candidate_def)
      obtain source where source: "l3_SourceAddressSelection (rte_interface j) (rte_dest j) st = Some source"
        using rt' unfolding route_via_def by (auto elim: bind_eq_SomeE)
      then have "rt' = \<lparr>rt_dest = rte_dest j, rt_source = source, rt_gateway = rte_gateway j,
          rt_gatewaySet = rte_gatewaySet j, rt_outputDevice = if_device (l3_interfaces st ! rte_interface j)\<rparr>"
        using rt' dev by (simp add: route_via_def)
      moreover have "?len = longest" if "metric > (if ?len > longest then 0xffffffff else shortest)" "\<not> ?len < longest"
        using that u32_top by (cases "?len > longest") auto
      ultimately show ?thesis unfolding c take_def using on
        by (cases "?len < longest"; cases "metric > (if ?len > longest then 0xffffffff else shortest)")
           (auto simp: Let_def match source dev u32_top)
    qed
    show ?thesis
    proof (cases take)
      case False
      then show ?thesis using loop taken True Cons.IH [OF rest Cons.prems(2)] by simp
    next
      case True': True
      have len: "?len = 32 \<longleftrightarrow> plen c = 32" by (simp add: plen_def c word_unat_eq_iff)
      have "loop_vars st (Some c) ?len metric (Some rt')" using rt' by (simp add: loop_vars_def c)
      moreover have "route_via st (fst c) = Some rt'" using rt' by (simp add: c)
      ultimately show ?thesis using loop taken True True' len Cons.IH [OF rest] by simp
    qed
  qed
qed

lemma LookupStatic_best:
  assumes "routes_ok st sr" and "\<not> addr_IsLocalMulticast dest"
  shows "sr_LookupStatic st dest oif sr =
    (case best_route (filter (candidate st dest oif) (sr_networkRoutes sr)) of
       None \<Rightarrow> Some None | Some b \<Rightarrow> map_option Some (route_via st (fst b)))"
proof -
  have "loop_vars st None 0 0xffffffff None" by (simp add: loop_vars_def)
  from static_loop_pick [OF assms(1) [unfolded routes_ok_def] this] show ?thesis
    using assms(2) pick_best [of "[]"] by (simp add: sr_LookupStatic_def)
qed

lemma best_route_in: "best_route cs = Some b \<Longrightarrow> b \<in> set cs"
  by (auto simp: best_route_def find_Some_iff dest: last_opt_best(1) split: if_splits)

lemma best_route_None: "best_route cs = None \<longleftrightarrow> cs = []"
proof
  assume "best_route cs = None"
  then have "last_opt better cs = None" by (auto simp: best_route_def find_None_iff list_ex_iff split: if_splits)
  then show "cs = []" using last_opt_snoc [of better cs] better_total better_trans by blast
qed (simp add: best_route_def)

text \<open>Without host routes no candidate is better, and with one a host route is taken.\<close>

lemma best_route_longest: "best_route cs = Some b \<Longrightarrow> d \<in> set cs \<Longrightarrow> plen d \<le> plen b"
  using plen_le_32 [of d] by (auto simp: best_route_def find_Some_iff better_def dest!: last_opt_best(2) split: if_splits)

lemma best_route_metric:
  "best_route cs = Some b \<Longrightarrow> plen b \<noteq> 32 \<Longrightarrow> d \<in> set cs \<Longrightarrow> plen d = plen b \<Longrightarrow> snd b \<le> snd d"
  by (auto simp: best_route_def find_Some_iff better_def dest!: last_opt_best(2) split: if_splits)

section \<open>Properties of the lookup\<close>

text \<open>
  C11: longest prefix match.  When the interfaces of all entries exist and have an address, a
  lookup ends without a failure.  It finds nothing exactly when no entry matches the destination
  (on the requested device), and otherwise the route of a matching entry: no matching entry has a
  longer prefix and, unless it is a host route, none with a prefix of the same length has a
  lesser metric.  The route has the gateway of the entry, its device, and a source address of its
  interface.
\<close>

theorem lookup_longest_prefix:
  assumes "routes_ok st sr" and "\<not> addr_IsLocalMulticast dest"
  shows "\<exists>r. sr_LookupStatic st dest oif sr = Some r
    \<and> (r = None \<longleftrightarrow> (\<forall>c \<in> set (sr_networkRoutes sr). \<not> candidate st dest oif c))
    \<and> (\<forall>rt. r = Some rt \<longrightarrow> (\<exists>c \<in> set (sr_networkRoutes sr). candidate st dest oif c
        \<and> (\<forall>d \<in> set (sr_networkRoutes sr). candidate st dest oif d \<longrightarrow>
             plen d < plen c \<or> plen d = plen c \<and> (plen c = 32 \<or> snd c \<le> snd d))
        \<and> rt_gateway rt = rte_gateway (fst c)
        \<and> l3_GetNetDevice (rte_interface (fst c)) st = Some (rt_outputDevice rt)
        \<and> (\<exists>a \<in> set (if_ifaddrs (l3_interfaces st ! rte_interface (fst c))). rt_source rt = ia_local a)))"
proof -
  let ?cs = "filter (candidate st dest oif) (sr_networkRoutes sr)"
  note lookup = LookupStatic_best [OF assms, of oif]
  show ?thesis
  proof (cases "best_route ?cs")
    case None
    then have "?cs = []" by (simp only: best_route_None)
    then show ?thesis using lookup None by (auto simp: filter_empty_conv)
  next
    case (Some c)
    then have c: "c \<in> set ?cs" by (rule best_route_in)
    then have "usable st (rte_interface (fst c))" using assms(1) by (auto simp: routes_ok_def list_all_iff)
    then obtain rt where rt: "route_via st (fst c) = Some rt" "rt_gateway rt = rte_gateway (fst c)"
      "l3_GetNetDevice (rte_interface (fst c)) st = Some (rt_outputDevice rt)"
      "\<exists>a \<in> set (if_ifaddrs (l3_interfaces st ! rte_interface (fst c))). rt_source rt = ia_local a"
      using route_via_ok by blast
    have best: "plen d < plen c \<or> plen d = plen c \<and> (plen c = 32 \<or> snd c \<le> snd d)"
      if "d \<in> set (sr_networkRoutes sr)" "candidate st dest oif d" for d
      using that best_route_longest [OF Some, of d] best_route_metric [OF Some, of d] by fastforce
    have "sr_LookupStatic st dest oif sr = Some (Some rt)" using lookup Some rt(1) by simp
    moreover have "c \<in> set (sr_networkRoutes sr)" "candidate st dest oif c" using c by simp_all
    ultimately show ?thesis using rt(2-4) best
      by (intro exI [of _ "Some rt"] conjI allI impI) (simp, blast, metis option.inject)
  qed
qed

text \<open>
  The metric of host routes has no effect.  When the first matching entry with a prefix of 32
  bits is \<open>c\<close>, its route is taken, whatever entries with a lesser metric follow.
\<close>

theorem host_routes_ignore_metric:
  assumes "routes_ok st sr" and "\<not> addr_IsLocalMulticast dest"
    and "sr_networkRoutes sr = cs @ c # ds" and "\<forall>d \<in> set cs. \<not> (candidate st dest oif d \<and> plen d = 32)"
    and "candidate st dest oif c" and "plen c = 32"
  shows "\<exists>rt. sr_LookupStatic st dest oif sr = Some (Some rt) \<and> route_via st (fst c) = Some rt"
proof -
  let ?f = "filter (candidate st dest oif)"
  have "find (\<lambda>c. plen c = 32) (?f cs @ c # ?f ds) = Some c"
    using assms(4,6) by (induction cs) auto
  then have "best_route (?f (sr_networkRoutes sr)) = Some c"
    using assms(3,5,6) by (simp add: best_route_def)
  moreover have "usable st (rte_interface (fst c))" using assms(1,3) by (simp add: routes_ok_def)
  then obtain rt where "route_via st (fst c) = Some rt" using route_via_ok by blast
  ultimately show ?thesis using LookupStatic_best [OF assms(1,2), of oif] by simp
qed

section \<open>Witnesses\<close>

definition sample_ifs :: l3_ifs where
  "sample_ifs = \<lparr>l3_interfaces = [
       \<lparr>if_ifup = True, if_forwarding = True, if_metric = 1, if_device = 1, if_ifaddrs = [ia_new 0x7f000001 0xff000000]\<rparr>,
       \<lparr>if_ifup = True, if_forwarding = True, if_metric = 1, if_device = 2, if_ifaddrs = [ia_new 0x0a000001 0xffffff00]\<rparr>,
       \<lparr>if_ifup = True, if_forwarding = True, if_metric = 1, if_device = 3, if_ifaddrs = [ia_new 0x0a000101 0xffffff00]\<rparr>],
     l3_reverse = [1 \<mapsto> 0, 2 \<mapsto> 1, 3 \<mapsto> 2], l3_ipForward = True, l3_strongEndSystemModel = False\<rparr>"

definition sample_routes :: static_routing where
  "sample_routes = \<lparr>sr_networkRoutes = [
       (rte_CreateNetworkRouteTo_direct 0x0a000000 (net_mask 24) 1, 0),
       (rte_CreateNetworkRouteTo 0 0 0x0a0001fe True 2, 0),
       (rte_CreateNetworkRouteTo 0x0a000907 (net_mask 32) 0x0a0000fe True 1, 10),
       (rte_CreateNetworkRouteTo 0x0a000907 (net_mask 32) 0x0a0001fe True 2, 1)], sr_multicastRoutes = []\<rparr>"

lemma sample_routes_ok: "routes_ok sample_ifs sample_routes"
  by (simp add: routes_ok_def sample_routes_def usable_def sample_ifs_def rte_CreateNetworkRouteTo_def
      rte_CreateNetworkRouteTo_direct_def numeral_2_eq_2)

lemma plen_net_mask: "rte_destNetworkMask (fst c) = net_mask n \<Longrightarrow> n \<le> 32 \<Longrightarrow> plen c = n"
  by (simp add: plen_def GetPrefixLength_net_mask)

theorem lookup_longest_prefix_witness:
  "\<exists>r. sr_LookupStatic sample_ifs 0x0a000005 0 sample_routes = Some (Some r)"
proof -
  let ?c = "(rte_CreateNetworkRouteTo_direct 0x0a000000 (net_mask 24) 1, 0 :: u32)"
  have "\<not> addr_IsLocalMulticast 0x0a000005" by (simp add: addr_IsLocalMulticast_def)
  from lookup_longest_prefix [OF sample_routes_ok this, of 0] obtain r where
    r: "sr_LookupStatic sample_ifs 0x0a000005 0 sample_routes = Some r"
    "r = None \<longleftrightarrow> (\<forall>c \<in> set (sr_networkRoutes sample_routes). \<not> candidate sample_ifs 0x0a000005 0 c)" by blast
  moreover have "?c \<in> set (sr_networkRoutes sample_routes)" by (simp add: sample_routes_def)
  moreover have "candidate sample_ifs 0x0a000005 0 ?c"
    by (simp add: candidate_def mask_IsMatch_def rte_CreateNetworkRouteTo_direct_def net_mask_def)
  ultimately show ?thesis by (cases r) blast+
qed

theorem host_routes_ignore_metric_witness:
  "\<exists>rt. sr_LookupStatic sample_ifs 0x0a000907 0 sample_routes = Some (Some rt) \<and> rt_gateway rt = 0x0a0000fe"
proof -
  let ?c = "(rte_CreateNetworkRouteTo 0x0a000907 (net_mask 32) 0x0a0000fe True 1, 10 :: u32)"
  have "\<not> addr_IsLocalMulticast 0x0a000907" by (simp add: addr_IsLocalMulticast_def)
  moreover have "sr_networkRoutes sample_routes = [(rte_CreateNetworkRouteTo_direct 0x0a000000 (net_mask 24) 1, 0),
      (rte_CreateNetworkRouteTo 0 (net_mask 0) 0x0a0001fe True 2, 0)] @ ?c # [(rte_CreateNetworkRouteTo 0x0a000907 (net_mask 32) 0x0a0001fe True 2, 1)]"
    by (simp add: sample_routes_def)
  moreover have "\<forall>d \<in> set [(rte_CreateNetworkRouteTo_direct 0x0a000000 (net_mask 24) 1, 0 :: u32),
      (rte_CreateNetworkRouteTo 0 (net_mask 0) 0x0a0001fe True 2, 0)]. \<not> (candidate sample_ifs 0x0a000907 0 d \<and> plen d = 32)"
    using plen_net_mask [of "(rte_CreateNetworkRouteTo_direct 0x0a000000 (net_mask 24) 1, 0)" 24]
      plen_net_mask [of "(rte_CreateNetworkRouteTo 0 (net_mask 0) 0x0a0001fe True 2, 0)" 0]
    by (simp add: rte_CreateNetworkRouteTo_direct_def rte_CreateNetworkRouteTo_def)
  moreover have "candidate sample_ifs 0x0a000907 0 ?c"
    by (simp add: candidate_def mask_IsMatch_def rte_CreateNetworkRouteTo_def)
  moreover have "plen ?c = 32" by (rule plen_net_mask) (simp_all add: rte_CreateNetworkRouteTo_def)
  ultimately obtain rt where rt: "sr_LookupStatic sample_ifs 0x0a000907 0 sample_routes = Some (Some rt)"
    "route_via sample_ifs (fst ?c) = Some rt"
    using host_routes_ignore_metric [OF sample_routes_ok] by blast
  then have "rt_gateway rt = 0x0a0000fe"
    by (auto simp: route_via_def rte_CreateNetworkRouteTo_def elim!: bind_eq_SomeE)
  with rt(1) show ?thesis by blast
qed

end
