(* ===== verification/Ipv4_Node.thy ===== *)
theory Ipv4_Node
  imports Ipv4_Routing_Laws
begin

text \<open>
  The configuration of a node: the operations of \<^verbatim>\<open>Ipv4L3Protocol\<close> that change interfaces and
  tell the routing protocol about it (src/internet/model/ipv4-l3-protocol.cc), with
  \<^verbatim>\<open>Ipv4StaticRouting\<close> as the routing protocol, and what the routing table holds after any
  sequence of them.
\<close>

section \<open>Definitions\<close>

record ipv4_node =
  nd_ifs :: l3_ifs
  nd_routing :: static_routing

definition node_AddAddress :: "nat \<Rightarrow> iface_addr \<Rightarrow> ipv4_node \<Rightarrow> ipv4_node option" where
  "node_AddAddress i a nd = do {
     st \<leftarrow> l3_on i (if_AddAddress a) (nd_ifs nd);
     sr \<leftarrow> sr_NotifyAddAddress st i a (nd_routing nd);
     Some (nd\<lparr>nd_ifs := st, nd_routing := sr\<rparr>)
   }"

text \<open>The routing is told about a removed address unless it is equal to an unset one.\<close>

definition node_removed :: "nat \<Rightarrow> iface_addr \<Rightarrow> ipv4_interface \<Rightarrow> ipv4_node \<Rightarrow> (bool \<times> ipv4_node) option" where
  "node_removed i a f nd = do {
     st \<leftarrow> l3_on i (\<lambda>_. f) (nd_ifs nd);
     if a \<noteq> Ipv4InterfaceAddress_init
     then do {
       sr \<leftarrow> sr_NotifyRemoveAddress st i a (nd_routing nd);
       Some (True, nd\<lparr>nd_ifs := st, nd_routing := sr\<rparr>)
     }
     else Some (False, nd\<lparr>nd_ifs := st\<rparr>)
   }"

definition node_RemoveAddress_at :: "nat \<Rightarrow> nat \<Rightarrow> ipv4_node \<Rightarrow> (bool \<times> ipv4_node) option" where
  "node_RemoveAddress_at i addressIndex nd = do {
     f \<leftarrow> l3_GetInterface i (nd_ifs nd);
     (a, f) \<leftarrow> if_RemoveAddress_at addressIndex f;
     node_removed i a f nd
   }"

definition node_RemoveAddress :: "nat \<Rightarrow> u32 \<Rightarrow> ipv4_node \<Rightarrow> (bool \<times> ipv4_node) option" where
  "node_RemoveAddress i address nd =
     (if address = addr_GetLoopback then Some (False, nd)
      else do {
        f \<leftarrow> l3_GetInterface i (nd_ifs nd);
        let (a, f) = if_RemoveAddress address f;
        node_removed i a f nd
      })"

text \<open>
  \<open>mtu\<close> is \<^verbatim>\<open>NetDevice::GetMtu\<close>.  An interface whose device cannot carry 68 bytes stays as it is.
\<close>

definition node_SetUp :: "(ptr \<Rightarrow> u16) \<Rightarrow> nat \<Rightarrow> ipv4_node \<Rightarrow> ipv4_node option" where
  "node_SetUp mtu i nd = do {
     f \<leftarrow> l3_GetInterface i (nd_ifs nd);
     if mtu (if_device f) \<ge> 68
     then do {
       st \<leftarrow> l3_on i if_SetUp (nd_ifs nd);
       sr \<leftarrow> sr_NotifyInterfaceUp st i (nd_routing nd);
       Some (nd\<lparr>nd_ifs := st, nd_routing := sr\<rparr>)
     }
     else Some nd
   }"

definition node_SetDown :: "nat \<Rightarrow> ipv4_node \<Rightarrow> ipv4_node option" where
  "node_SetDown i nd = do {
     st \<leftarrow> l3_on i if_SetDown (nd_ifs nd);
     Some (nd\<lparr>nd_ifs := st, nd_routing := sr_NotifyInterfaceDown i (nd_routing nd)\<rparr>)
   }"

definition node_SetupLoopback :: "ptr \<Rightarrow> ipv4_node \<Rightarrow> ipv4_node option" where
  "node_SetupLoopback device nd = do {
     let f = if_AddAddress (ia_new addr_GetLoopback mask_GetLoopback) (if_SetDevice device Ipv4Interface_init);
     let (index, st) = l3_AddIpv4Interface f (nd_ifs nd);
     st \<leftarrow> l3_on index if_SetUp st;
     sr \<leftarrow> sr_NotifyInterfaceUp st index (nd_routing nd);
     Some (nd\<lparr>nd_ifs := st, nd_routing := sr\<rparr>)
   }"

definition node_AddInterface :: "ptr \<Rightarrow> ipv4_node \<Rightarrow> nat \<times> ipv4_node" where
  "node_AddInterface device nd =
     (let (index, st) = l3_AddInterface device (nd_ifs nd) in (index, nd\<lparr>nd_ifs := st\<rparr>))"

definition node_SetRoutingProtocol :: "static_routing \<Rightarrow> ipv4_node \<Rightarrow> ipv4_node option" where
  "node_SetRoutingProtocol sr nd = do {
     sr \<leftarrow> sr_SetIpv4 (nd_ifs nd) sr;
     Some (nd\<lparr>nd_routing := sr\<rparr>)
   }"

section \<open>Lookups in a changed table\<close>

lemma LookupRoute_add: "sr_LookupRoute r k (sr_add r k sr)"
  by (auto simp: sr_add_def sr_LookupRoute_def)

lemma LookupRoute_mono: "sr_LookupRoute r k sr \<Longrightarrow> sr_LookupRoute r k (sr_add r' k' sr)"
  by (auto simp: sr_add_def sr_LookupRoute_def)

lemma add_routes: "set (sr_networkRoutes (sr_add r k sr)) \<subseteq> insert (r, k) (set (sr_networkRoutes sr))"
  by (auto simp: sr_add_def)

text \<open>The route to the network of an address.\<close>

definition net_route :: "nat \<Rightarrow> iface_addr \<Rightarrow> route_entry" where
  "net_route i a = rte_CreateNetworkRouteTo_direct (addr_CombineMask (ia_mask a) (ia_local a)) (ia_mask a) i"

definition real_addr :: "iface_addr \<Rightarrow> bool" where
  "real_addr a \<longleftrightarrow> ia_local a \<noteq> UNINITIALIZED \<and> ia_mask a \<noteq> Ipv4Mask_init"

lemma up_route_add: "sr_up_route i a sr =
  (if real_addr a \<and> ia_mask a \<noteq> mask_GetOnes then sr_add (net_route i a) 0 sr else sr)"
  by (simp add: sr_up_route_def real_addr_def sr_AddNetworkRouteTo_direct_def net_route_def)

lemma NotifyAdd_eq: "l3_IsUp i st = Some True \<Longrightarrow>
  sr_NotifyAddAddress st i a sr = Some (if real_addr a then sr_add (net_route i a) 0 sr else sr)"
  by (simp add: sr_NotifyAddAddress_def real_addr_def sr_AddNetworkRouteTo_direct_def net_route_def)

lemma up_routes_lookup:
  "(a \<in> set as \<and> real_addr a \<and> ia_mask a \<noteq> mask_GetOnes) \<or> sr_LookupRoute (net_route i a) 0 sr
   \<Longrightarrow> sr_LookupRoute (net_route i a) 0 (fold (sr_up_route i) as sr)"
proof (induction as arbitrary: sr)
  case (Cons b as)
  have "(a \<in> set as \<and> real_addr a \<and> ia_mask a \<noteq> mask_GetOnes) \<or> sr_LookupRoute (net_route i a) 0 (sr_up_route i b sr)"
    using Cons.prems LookupRoute_add LookupRoute_mono by (auto simp: up_route_add)
  then show ?case using Cons.IH by simp
qed simp

lemma up_routes_mono: "sr_LookupRoute r k sr \<Longrightarrow> sr_LookupRoute r k (fold (sr_up_route i) as sr)"
  by (induction as arbitrary: sr) (auto simp: up_route_add LookupRoute_mono)

lemma up_routes_set:
  "c \<in> set (sr_networkRoutes (fold (sr_up_route i) as sr)) \<Longrightarrow> c \<in> set (sr_networkRoutes sr) \<or> rte_interface (fst c) = i"
proof (induction as arbitrary: sr)
  case (Cons b as)
  then have "c \<in> set (sr_networkRoutes (sr_up_route i b sr)) \<or> rte_interface (fst c) = i" by auto
  then show ?case using add_routes [of "net_route i b" 0 sr]
    by (auto simp: up_route_add net_route_def rte_CreateNetworkRouteTo_direct_def split: if_splits)
qed simp

section \<open>No entry twice\<close>

text \<open>
  An entry is added only when the table has none with the same key; the default multicast
  route, which is appended without a look at the table, is the exception.
\<close>

definition entry_key :: "route_entry \<times> u32 \<Rightarrow> u32 \<times> u32 \<times> u32 \<times> nat \<times> u32" where
  "entry_key c = (rte_dest (fst c), rte_destNetworkMask (fst c), rte_gateway (fst c), rte_interface (fst c), snd c)"

definition mcast_default :: "route_entry \<times> u32 \<Rightarrow> bool" where
  "mcast_default c \<longleftrightarrow> rte_dest (fst c) = 0xe0000000 \<and> rte_destNetworkMask (fst c) = 0xf0000000"

definition table_distinct :: "static_routing \<Rightarrow> bool" where
  "table_distinct sr \<longleftrightarrow> distinct (map entry_key (filter (\<lambda>c. \<not> mcast_default c) (sr_networkRoutes sr)))"

lemma LookupRoute_key: "sr_LookupRoute r k sr \<longleftrightarrow> entry_key (r, k) \<in> entry_key ` set (sr_networkRoutes sr)"
  by (force simp: sr_LookupRoute_def entry_key_def list_ex_iff image_iff)

lemma distinct_add: "table_distinct sr \<Longrightarrow> table_distinct (sr_add r k sr)"
  by (auto simp: table_distinct_def sr_add_def LookupRoute_key)

lemma distinct_up: "table_distinct sr \<Longrightarrow> table_distinct (fold (sr_up_route i) as sr)"
  by (induction as arbitrary: sr) (auto simp: up_route_add distinct_add)

lemma distinct_filter: "table_distinct sr \<Longrightarrow> table_distinct (sr\<lparr>sr_networkRoutes := filter P (sr_networkRoutes sr)\<rparr>)"
proof -
  have "distinct (map f (filter Q (filter P xs)))" if "distinct (map f (filter Q xs))" for f :: "'a \<Rightarrow> 'b" and P Q xs
  proof -
    have "filter Q (filter P xs) = filter P (filter Q xs)" by (simp add: conj_commute)
    then show ?thesis using that by (simp only: distinct_map_filter)
  qed
  then show "table_distinct sr \<Longrightarrow> ?thesis" by (simp add: table_distinct_def)
qed

lemma distinct_remove:
  assumes "table_distinct sr" and "sr_RemoveRoute k sr = Some sr'"
  shows "table_distinct sr'"
proof -
  let ?xs = "sr_networkRoutes sr"
  have k: "k < length ?xs" and sr': "sr' = sr\<lparr>sr_networkRoutes := take k ?xs @ drop (Suc k) ?xs\<rparr>"
    using assms(2) by (auto simp: sr_RemoveRoute_def split: if_splits)
  have "distinct (map entry_key (filter (\<lambda>c. \<not> mcast_default c) (take k ?xs @ ?xs ! k # drop (Suc k) ?xs)))"
    using assms(1) id_take_nth_drop [OF k] by (simp add: table_distinct_def)
  then show ?thesis by (auto simp: sr' table_distinct_def split: if_splits)
qed

section \<open>The invariant of the configuration\<close>

text \<open>
  A set \<open>gone\<close> of networks, as interface, network and mask, is excepted.  Every interface that is up
  has the direct routes to the other networks of its addresses (of a host address, with a mask of 32
  bits, only when it was added while the interface was up), and a device that can carry 68 bytes.
\<close>

type_synonym net_key = "nat \<times> u32 \<times> u32"

definition net_of :: "nat \<Rightarrow> iface_addr \<Rightarrow> net_key" where
  "net_of i a = (i, addr_CombineMask (ia_mask a) (ia_local a), ia_mask a)"

definition connected :: "net_key set \<Rightarrow> l3_ifs \<Rightarrow> static_routing \<Rightarrow> bool" where
  "connected gone st sr \<longleftrightarrow> (\<forall>i < length (l3_interfaces st). if_ifup (l3_interfaces st ! i) \<longrightarrow>
     (\<forall>a \<in> set (if_ifaddrs (l3_interfaces st ! i)). real_addr a \<and> ia_mask a \<noteq> mask_GetOnes \<and> net_of i a \<notin> gone
        \<longrightarrow> sr_LookupRoute (net_route i a) 0 sr))"

definition mtu_ok :: "(ptr \<Rightarrow> u16) \<Rightarrow> l3_ifs \<Rightarrow> bool" where
  "mtu_ok mtu st \<longleftrightarrow> (\<forall>f \<in> set (l3_interfaces st). if_ifup f \<longrightarrow> 68 \<le> mtu (if_device f))"

definition node_inv :: "(ptr \<Rightarrow> u16) \<Rightarrow> ipv4_node \<Rightarrow> net_key set \<Rightarrow> bool" where
  "node_inv mtu nd gone \<longleftrightarrow> ifs_ok (nd_ifs nd) \<and> mtu_ok mtu (nd_ifs nd) \<and> table_distinct (nd_routing nd)
     \<and> connected gone (nd_ifs nd) (nd_routing nd)"

text \<open>The effect of a change of interface \<open>i\<close>, of the table and of the exceptions on the invariant.\<close>

lemma node_inv_on:
  assumes inv: "node_inv mtu nd gone" and i: "i < length (l3_interfaces (nd_ifs nd))"
    and f: "if_device f = if_device (l3_interfaces (nd_ifs nd) ! i)" "if_ifup f \<Longrightarrow> 68 \<le> mtu (if_device f)"
    and sr: "table_distinct sr"
    and kept: "\<And>j a. j \<noteq> i \<Longrightarrow> net_of j a \<notin> gone' \<Longrightarrow>
      net_of j a \<notin> gone \<and> (sr_LookupRoute (net_route j a) 0 (nd_routing nd) \<longrightarrow> sr_LookupRoute (net_route j a) 0 sr)"
    and here: "\<And>a. if_ifup f \<Longrightarrow> a \<in> set (if_ifaddrs f) \<Longrightarrow> real_addr a \<Longrightarrow> ia_mask a \<noteq> mask_GetOnes \<Longrightarrow> net_of i a \<notin> gone'
      \<Longrightarrow> sr_LookupRoute (net_route i a) 0 sr"
  shows "node_inv mtu (nd\<lparr>nd_ifs := (nd_ifs nd)\<lparr>l3_interfaces := (l3_interfaces (nd_ifs nd))[i := f]\<rparr>, nd_routing := sr\<rparr>) gone'"
proof -
  let ?fs = "l3_interfaces (nd_ifs nd)"
  let ?st = "(nd_ifs nd)\<lparr>l3_interfaces := ?fs[i := f]\<rparr>"
  have old: "ifs_ok (nd_ifs nd)" "mtu_ok mtu (nd_ifs nd)" "connected gone (nd_ifs nd) (nd_routing nd)"
    using inv by (simp_all add: node_inv_def)
  have at: "?fs[i := f] ! j = (if j = i then f else ?fs ! j)" if "j < length ?fs" for j using that i by simp
  have "if_device (?fs[i := f] ! j) = if_device (?fs ! j)" if "j < length ?fs" for j
    using f(1) by (simp add: at [OF that])
  then have 1: "ifs_ok ?st" using old(1) unfolding ifs_ok_def by simp
  have 2: "mtu_ok mtu ?st" using old(2) f(2) set_update_subset_insert [of ?fs i f] unfolding mtu_ok_def by auto
  have 3: "connected gone' ?st sr"
    unfolding connected_def
  proof (intro allI impI ballI, elim conjE)
    fix j a assume j: "j < length (l3_interfaces ?st)" "if_ifup (l3_interfaces ?st ! j)"
      "a \<in> set (if_ifaddrs (l3_interfaces ?st ! j))" "real_addr a" "ia_mask a \<noteq> mask_GetOnes" "net_of j a \<notin> gone'"
    then show "sr_LookupRoute (net_route j a) 0 sr"
      using here [of a] kept [of j a] old(3) at [of j] by (cases "j = i") (simp_all add: connected_def)
  qed
  from 1 2 3 sr show ?thesis by (simp add: node_inv_def)
qed

text \<open>Changes of an interface that keep its addresses and do not set it up.\<close>

lemma node_inv_same:
  assumes inv: "node_inv mtu nd gone" and i: "i < length (l3_interfaces (nd_ifs nd))"
    and f: "if_device f = if_device (l3_interfaces (nd_ifs nd) ! i)" "if_ifup f \<Longrightarrow> if_ifup (l3_interfaces (nd_ifs nd) ! i)"
      "if_ifaddrs f = if_ifaddrs (l3_interfaces (nd_ifs nd) ! i)"
  shows "node_inv mtu (nd\<lparr>nd_ifs := (nd_ifs nd)\<lparr>l3_interfaces := (l3_interfaces (nd_ifs nd))[i := f]\<rparr>\<rparr>) gone"
proof -
  have "node_inv mtu (nd\<lparr>nd_ifs := (nd_ifs nd)\<lparr>l3_interfaces := (l3_interfaces (nd_ifs nd))[i := f]\<rparr>,
      nd_routing := nd_routing nd\<rparr>) gone"
    using inv i f nth_mem [OF i] by (intro node_inv_on [OF inv i]) (auto simp: node_inv_def mtu_ok_def connected_def)
  then show ?thesis by simp
qed

text \<open>Changes of the table alone.\<close>

lemma node_inv_table:
  assumes "node_inv mtu nd gone" and "table_distinct sr"
    and "\<And>j a. net_of j a \<notin> gone' \<Longrightarrow> (net_of j a \<notin> gone \<Longrightarrow> sr_LookupRoute (net_route j a) 0 (nd_routing nd))
      \<Longrightarrow> sr_LookupRoute (net_route j a) 0 sr"
  shows "node_inv mtu (nd\<lparr>nd_routing := sr\<rparr>) gone'"
  using assms by (auto simp: node_inv_def connected_def)

lemma on_eq: "l3_on i g st = Some st' \<longleftrightarrow> i < length (l3_interfaces st)
  \<and> st' = st\<lparr>l3_interfaces := (l3_interfaces st)[i := g (l3_interfaces st ! i)]\<rparr>"
  by (auto simp: l3_on_def l3_GetInterface_def)

lemma Lookup_net_of: "net_of i a = net_of j b \<Longrightarrow> sr_LookupRoute (net_route i a) k sr = sr_LookupRoute (net_route j b) k sr"
  unfolding net_of_def net_route_def by (metis prod.inject)

lemma AddAddress_inv:
  assumes inv: "node_inv mtu nd gone" and "node_AddAddress i a nd = Some nd'"
  shows "node_inv mtu nd' (if real_addr a then gone - {net_of i a} else gone)"
proof -
  let ?f = "l3_interfaces (nd_ifs nd) ! i" and ?sr = "nd_routing nd"
  let ?g = "if_AddAddress a ?f"
  let ?gone = "if real_addr a then gone - {net_of i a} else gone"
  obtain sr where i: "i < length (l3_interfaces (nd_ifs nd))"
    and sr: "sr_NotifyAddAddress ((nd_ifs nd)\<lparr>l3_interfaces := (l3_interfaces (nd_ifs nd))[i := ?g]\<rparr>) i a ?sr = Some sr"
    and nd': "nd' = nd\<lparr>nd_ifs := (nd_ifs nd)\<lparr>l3_interfaces := (l3_interfaces (nd_ifs nd))[i := ?g]\<rparr>, nd_routing := sr\<rparr>"
    using assms(2) unfolding node_AddAddress_def by (auto simp: on_eq elim!: bind_eq_SomeE)
  have f: "if_device ?g = if_device ?f" "if_ifaddrs ?g = if_ifaddrs ?f @ [a]" "if_ifup ?g = if_ifup ?f"
    by (simp_all add: if_AddAddress_def)
  have sr_eq: "sr = (if if_ifup ?f \<and> real_addr a then sr_add (net_route i a) 0 ?sr else ?sr)"
    using sr i f by (auto simp: sr_NotifyAddAddress_def l3_IsUp_def l3_GetInterface_def real_addr_def
        sr_AddNetworkRouteTo_direct_def net_route_def)
  have mono: "sr_LookupRoute r k ?sr \<Longrightarrow> sr_LookupRoute r k sr" for r k by (simp add: sr_eq LookupRoute_mono)
  show ?thesis unfolding nd'
  proof (rule node_inv_on [OF inv i])
    show "table_distinct sr" using inv by (simp add: sr_eq distinct_add node_inv_def)
    show "net_of j b \<notin> gone \<and> (sr_LookupRoute (net_route j b) 0 ?sr \<longrightarrow> sr_LookupRoute (net_route j b) 0 sr)"
      if "j \<noteq> i" "net_of j b \<notin> ?gone" for j b using that mono by (auto simp: net_of_def split: if_splits)
    show "sr_LookupRoute (net_route i b) 0 sr" if "if_ifup ?g" "b \<in> set (if_ifaddrs ?g)" "real_addr b"
      "ia_mask b \<noteq> mask_GetOnes" "net_of i b \<notin> ?gone" for b
    proof (cases "real_addr a \<and> net_of i b = net_of i a")
      case True
      then show ?thesis using that(1) f(3) Lookup_net_of [of i b i a] by (simp add: sr_eq LookupRoute_add)
    next
      case False
      then have "b \<in> set (if_ifaddrs ?f)" "net_of i b \<notin> gone" using that f(2) by (auto split: if_splits)
      then show ?thesis using inv i that f(3) by (intro mono) (auto simp: node_inv_def connected_def)
    qed
  qed (use f inv i nth_mem [OF i] in \<open>auto simp: node_inv_def mtu_ok_def\<close>)
qed

text \<open>Setting an interface up makes the routes to all networks of its addresses.\<close>

definition up_at :: "nat \<Rightarrow> net_key set \<Rightarrow> net_key set" where
  "up_at i gone = {c \<in> gone. fst c \<noteq> i}"

lemma up_inv:
  assumes inv: "node_inv mtu nd gone" and i: "i < length (l3_interfaces (nd_ifs nd))"
    and mtu: "68 \<le> mtu (if_device (l3_interfaces (nd_ifs nd) ! i))"
  shows "node_inv mtu (nd\<lparr>nd_ifs := (nd_ifs nd)\<lparr>l3_interfaces := (l3_interfaces (nd_ifs nd))[i := if_SetUp (l3_interfaces (nd_ifs nd) ! i)]\<rparr>,
    nd_routing := fold (sr_up_route i) (if_ifaddrs (l3_interfaces (nd_ifs nd) ! i)) (nd_routing nd)\<rparr>) (up_at i gone)"
proof -
  let ?f = "l3_interfaces (nd_ifs nd) ! i"
  let ?sr = "fold (sr_up_route i) (if_ifaddrs ?f) (nd_routing nd)"
  show ?thesis
  proof (rule node_inv_on [OF inv i])
    show "table_distinct ?sr" using inv by (simp add: distinct_up node_inv_def)
    show "net_of j b \<notin> gone \<and> (sr_LookupRoute (net_route j b) 0 (nd_routing nd) \<longrightarrow> sr_LookupRoute (net_route j b) 0 ?sr)"
      if "j \<noteq> i" "net_of j b \<notin> up_at i gone" for j b
      using that up_routes_mono by (auto simp: up_at_def net_of_def)
    show "sr_LookupRoute (net_route i b) 0 ?sr"
      if "b \<in> set (if_ifaddrs (if_SetUp ?f))" "real_addr b" "ia_mask b \<noteq> mask_GetOnes" for b
      using that by (intro up_routes_lookup) (simp add: if_SetUp_def)
  qed (use mtu in \<open>simp_all add: if_SetUp_def\<close>)
qed

lemma SetUp_inv:
  assumes "node_inv mtu nd gone" and "node_SetUp mtu i nd = Some nd'"
  shows "node_inv mtu nd' (if 68 \<le> mtu (if_device (l3_interfaces (nd_ifs nd) ! i)) then up_at i gone else gone)"
proof -
  have i: "i < length (l3_interfaces (nd_ifs nd))"
    using assms(2) by (auto simp: node_SetUp_def elim: bind_eq_SomeE)
  then show ?thesis using assms up_inv [OF assms(1) i]
    by (auto simp: node_SetUp_def l3_GetInterface_def l3_on_def sr_NotifyInterfaceUp_def if_SetUp_def)
qed

lemma filter_lookup:
  assumes "sr_LookupRoute r k sr"
    and "\<And>e. rte_dest e = rte_dest r \<Longrightarrow> rte_destNetworkMask e = rte_destNetworkMask r
      \<Longrightarrow> rte_interface e = rte_interface r \<Longrightarrow> P (e, k)"
  shows "sr_LookupRoute r k (sr\<lparr>sr_networkRoutes := filter P (sr_networkRoutes sr)\<rparr>)"
  using assms by (auto simp: sr_LookupRoute_def list_ex_iff)

lemma SetDown_inv:
  assumes inv: "node_inv mtu nd gone" and "node_SetDown i nd = Some nd'"
  shows "node_inv mtu nd' gone"
proof -
  let ?f = "l3_interfaces (nd_ifs nd) ! i"
  have i: "i < length (l3_interfaces (nd_ifs nd))" and nd': "nd' = nd\<lparr>nd_ifs := (nd_ifs nd)\<lparr>l3_interfaces :=
      (l3_interfaces (nd_ifs nd))[i := if_SetDown ?f]\<rparr>, nd_routing := sr_NotifyInterfaceDown i (nd_routing nd)\<rparr>"
    using assms(2) by (auto simp: node_SetDown_def on_eq elim!: bind_eq_SomeE)
  have kept: "sr_LookupRoute (net_route j b) 0 (sr_NotifyInterfaceDown i (nd_routing nd))"
    if "j \<noteq> i" "sr_LookupRoute (net_route j b) 0 (nd_routing nd)" for j b
    unfolding sr_NotifyInterfaceDown_def using that
    by (intro filter_lookup) (auto simp: net_route_def rte_CreateNetworkRouteTo_direct_def)
  show ?thesis unfolding nd'
    using inv kept by (intro node_inv_on [OF inv i])
      (auto simp: if_SetDown_def sr_NotifyInterfaceDown_def distinct_filter node_inv_def)
qed

lemma addr_erase_set: "addr_erase x as = Some (a, r) \<Longrightarrow> a \<in> set as \<and> ia_local a = x \<and> set r \<subseteq> set as"
proof (induction as arbitrary: r)
  case (Cons b as)
  then show ?case by (cases "addr_erase x as") (fastforce split: if_splits)+
qed simp

text \<open>
  The removal of an address, by value or by number, takes away the route to its network while
  the interface is up, also when another address of the interface is in the same network.
\<close>

lemma removed_inv:
  assumes inv: "node_inv mtu nd gone" and run: "node_removed i a (f\<lparr>if_ifaddrs := r\<rparr>) nd = Some (ok, nd')"
    and f: "f = l3_interfaces (nd_ifs nd) ! i" "set r \<subseteq> set (if_ifaddrs f)"
  shows "node_inv mtu nd' (insert (net_of i a) gone)"
proof -
  let ?g = "f\<lparr>if_ifaddrs := r\<rparr>"
  let ?st = "(nd_ifs nd)\<lparr>l3_interfaces := (l3_interfaces (nd_ifs nd))[i := ?g]\<rparr>"
  let ?P = "\<lambda>(e, _ :: u32). \<not> (rte_interface e = i \<and> rte_IsNetwork e
             \<and> rte_dest e = addr_CombineMask (ia_mask a) (ia_local a) \<and> rte_destNetworkMask e = ia_mask a)"
  define sr where "sr = (if a \<noteq> Ipv4InterfaceAddress_init \<and> if_ifup f
    then (nd_routing nd)\<lparr>sr_networkRoutes := filter ?P (sr_networkRoutes (nd_routing nd))\<rparr> else nd_routing nd)"
  have i: "i < length (l3_interfaces (nd_ifs nd))"
    using run by (auto simp: node_removed_def on_eq elim!: bind_eq_SomeE split: if_splits)
  have nd': "nd' = nd\<lparr>nd_ifs := ?st, nd_routing := sr\<rparr>"
    using run i f(1) by (auto simp: node_removed_def l3_on_def l3_GetInterface_def sr_NotifyRemoveAddress_def l3_IsUp_def sr_def
        split: if_splits)
  have kept: "sr_LookupRoute (net_route j b) 0 sr" if "net_of j b \<noteq> net_of i a" "sr_LookupRoute (net_route j b) 0 (nd_routing nd)" for j b
    using that filter_lookup [OF that(2), of ?P]
    by (auto simp: sr_def net_of_def net_route_def rte_CreateNetworkRouteTo_direct_def)
  show ?thesis unfolding nd'
  proof (rule node_inv_on [OF inv i])
    show "table_distinct sr" using inv by (simp add: sr_def distinct_filter node_inv_def)
    show "net_of j b \<notin> gone \<and> (sr_LookupRoute (net_route j b) 0 (nd_routing nd) \<longrightarrow> sr_LookupRoute (net_route j b) 0 sr)"
      if "net_of j b \<notin> insert (net_of i a) gone" for j b using that kept by auto
    show "sr_LookupRoute (net_route i b) 0 sr" if "if_ifup ?g" "b \<in> set (if_ifaddrs ?g)" "real_addr b"
      "ia_mask b \<noteq> mask_GetOnes" "net_of i b \<notin> insert (net_of i a) gone" for b
      using that f inv i by (intro kept) (auto simp: node_inv_def connected_def)
  qed (use f inv i nth_mem [OF i] in \<open>auto simp: node_inv_def mtu_ok_def\<close>)
qed

lemma RemoveAddress_inv:
  assumes "node_inv mtu nd gone" and "node_RemoveAddress i x nd = Some (ok, nd')" and "x \<noteq> addr_GetLoopback"
    and "addr_erase x (if_ifaddrs (l3_interfaces (nd_ifs nd) ! i)) = Some (a, r)"
  shows "node_inv mtu nd' (insert (net_of i a) gone)"
proof -
  have "i < length (l3_interfaces (nd_ifs nd))"
    using assms(2,3) by (auto simp: node_RemoveAddress_def elim: bind_eq_SomeE)
  then have "node_removed i a ((l3_interfaces (nd_ifs nd) ! i)\<lparr>if_ifaddrs := r\<rparr>) nd = Some (ok, nd')"
    using assms(2-4) by (simp add: node_RemoveAddress_def l3_GetInterface_def if_RemoveAddress_def)
  from removed_inv [OF assms(1) this refl] show ?thesis using addr_erase_set [OF assms(4)] by simp
qed

lemma RemoveAddress_none:
  assumes "node_RemoveAddress i x nd = Some (ok, nd')"
    and "x = addr_GetLoopback \<or> addr_erase x (if_ifaddrs (l3_interfaces (nd_ifs nd) ! i)) = None"
  shows "nd' = nd"
  using assms by (auto simp: node_RemoveAddress_def node_removed_def if_RemoveAddress_def on_eq elim!: bind_eq_SomeE split: if_splits)

lemma RemoveAddress_at_inv:
  assumes "node_inv mtu nd gone" and "node_RemoveAddress_at i k nd = Some (ok, nd')"
  shows "node_inv mtu nd' (insert (net_of i (if_ifaddrs (l3_interfaces (nd_ifs nd) ! i) ! k)) gone)"
proof -
  let ?f = "l3_interfaces (nd_ifs nd) ! i"
  have "node_removed i (if_ifaddrs ?f ! k) (?f\<lparr>if_ifaddrs := take k (if_ifaddrs ?f) @ drop (Suc k) (if_ifaddrs ?f)\<rparr>) nd = Some (ok, nd')"
    using assms(2) by (auto simp: node_RemoveAddress_at_def if_RemoveAddress_at_def elim!: bind_eq_SomeE split: if_splits)
  from removed_inv [OF assms(1) this refl] show ?thesis by (auto dest: in_set_takeD in_set_dropD)
qed

lemma AddIpv4Interface_inv:
  assumes "node_inv mtu nd gone" and "l3_reverse (nd_ifs nd) (if_device f) = None" and "\<not> if_ifup f"
  shows "node_inv mtu (nd\<lparr>nd_ifs := snd (l3_AddIpv4Interface f (nd_ifs nd))\<rparr>) gone"
proof -
  let ?st = "snd (l3_AddIpv4Interface f (nd_ifs nd))"
  have st: "l3_interfaces ?st = l3_interfaces (nd_ifs nd) @ [f]" by (simp add: l3_AddIpv4Interface_def Let_def)
  have "ifs_ok ?st" using assms by (intro ifs_ok_add) (simp_all add: node_inv_def)
  moreover have "mtu_ok mtu ?st" using assms(1,3) by (simp add: node_inv_def mtu_ok_def st)
  moreover have "connected gone ?st (nd_routing nd)"
    using assms(1,3) by (auto simp: node_inv_def connected_def st nth_append less_Suc_eq)
  ultimately show ?thesis using assms(1) by (simp add: node_inv_def)
qed

lemma AddInterface_inv:
  assumes "node_inv mtu nd gone" and "l3_reverse (nd_ifs nd) device = None"
  shows "node_inv mtu (snd (node_AddInterface device nd)) gone"
proof -
  let ?f = "if_SetForwarding (l3_ipForward (nd_ifs nd)) (if_SetDevice device Ipv4Interface_init)"
  have "snd (node_AddInterface device nd) = nd\<lparr>nd_ifs := snd (l3_AddIpv4Interface ?f (nd_ifs nd))\<rparr>"
    by (simp add: node_AddInterface_def l3_AddInterface_def split: prod.split)
  moreover have "if_device ?f = device" "\<not> if_ifup ?f" by (simp_all add: if_SetForwarding_def if_SetDevice_def Ipv4Interface_init_def)
  ultimately show ?thesis using AddIpv4Interface_inv [OF assms(1), of ?f] assms(2) by simp
qed

lemma SetupLoopback_inv:
  assumes "node_inv mtu nd gone" and "l3_reverse (nd_ifs nd) device = None" and "68 \<le> mtu device"
    and "node_SetupLoopback device nd = Some nd'"
  shows "node_inv mtu nd' (up_at (length (l3_interfaces (nd_ifs nd))) gone)"
proof -
  let ?f = "if_AddAddress (ia_new addr_GetLoopback mask_GetLoopback) (if_SetDevice device Ipv4Interface_init)"
  let ?i = "length (l3_interfaces (nd_ifs nd))"
  let ?nd = "nd\<lparr>nd_ifs := snd (l3_AddIpv4Interface ?f (nd_ifs nd))\<rparr>"
  have f: "if_device ?f = device" "\<not> if_ifup ?f" by (simp_all add: if_AddAddress_def if_SetDevice_def Ipv4Interface_init_def)
  have new: "l3_interfaces (nd_ifs ?nd) = l3_interfaces (nd_ifs nd) @ [?f]" by (simp add: l3_AddIpv4Interface_def Let_def)
  have inv: "node_inv mtu ?nd gone" using AddIpv4Interface_inv [OF assms(1), of ?f] f assms(2) by simp
  have "nd' = ?nd\<lparr>nd_ifs := (nd_ifs ?nd)\<lparr>l3_interfaces := (l3_interfaces (nd_ifs ?nd))[?i := if_SetUp (l3_interfaces (nd_ifs ?nd) ! ?i)]\<rparr>,
      nd_routing := fold (sr_up_route ?i) (if_ifaddrs (l3_interfaces (nd_ifs ?nd) ! ?i)) (nd_routing ?nd)\<rparr>"
    using assms(4) by (auto simp: node_SetupLoopback_def l3_AddIpv4Interface_def l3_on_def l3_GetInterface_def
        sr_NotifyInterfaceUp_def if_SetUp_def Let_def)
  then show ?thesis using up_inv [OF inv, of ?i] f(1) assms(3) new by simp
qed

text \<open>Routes that are added and removed by hand; \<open>direct\<close> is the network whose direct route an entry is.\<close>

definition direct :: "route_entry \<times> u32 \<Rightarrow> net_key set" where
  "direct c = (if rte_gateway (fst c) = 0 \<and> snd c = 0 then {(rte_interface (fst c), rte_dest (fst c), rte_destNetworkMask (fst c))} else {})"

lemma Lookup_direct: "sr_LookupRoute (net_route i a) 0 sr \<longleftrightarrow> (\<exists>c \<in> set (sr_networkRoutes sr). net_of i a \<in> direct c)"
proof -
  have "net_of i a \<in> direct c \<longleftrightarrow> entry_key (net_route i a, 0) = entry_key c" for c
    by (auto simp: direct_def net_of_def entry_key_def net_route_def rte_CreateNetworkRouteTo_direct_def addr_GetZero_def)
  then show ?thesis unfolding LookupRoute_key by auto
qed

lemma AddRoute_inv:
  assumes "node_inv mtu nd gone"
  shows "node_inv mtu (nd\<lparr>nd_routing := sr_add r k (nd_routing nd)\<rparr>) (gone - direct (r, k))"
proof (rule node_inv_table [OF assms])
  show "table_distinct (sr_add r k (nd_routing nd))" using assms by (simp add: node_inv_def distinct_add)
  show "sr_LookupRoute (net_route j a) 0 (sr_add r k (nd_routing nd))" if "net_of j a \<notin> gone - direct (r, k)"
    "net_of j a \<notin> gone \<Longrightarrow> sr_LookupRoute (net_route j a) 0 (nd_routing nd)" for j a
  proof (cases "net_of j a \<in> direct (r, k)")
    case True
    have "sr_LookupRoute r k (sr_add r k (nd_routing nd))" by (rule LookupRoute_add)
    then obtain c where "c \<in> set (sr_networkRoutes (sr_add r k (nd_routing nd)))" "entry_key (r, k) = entry_key c"
      unfolding LookupRoute_key by auto
    then show ?thesis using True unfolding Lookup_direct by (auto simp: direct_def entry_key_def split: if_splits)
  qed (use that LookupRoute_mono in blast)
qed

lemma RemoveRoute_inv:
  assumes "node_inv mtu nd gone" and "sr_RemoveRoute k (nd_routing nd) = Some sr"
  shows "node_inv mtu (nd\<lparr>nd_routing := sr\<rparr>) (gone \<union> direct (sr_networkRoutes (nd_routing nd) ! k))"
proof (rule node_inv_table [OF assms(1)])
  let ?xs = "sr_networkRoutes (nd_routing nd)"
  show "table_distinct sr" using assms distinct_remove by (auto simp: node_inv_def)
  have k: "k < length ?xs" "sr_networkRoutes sr = take k ?xs @ drop (Suc k) ?xs"
    using assms(2) by (auto simp: sr_RemoveRoute_def split: if_splits)
  then have "set ?xs = insert (?xs ! k) (set (sr_networkRoutes sr))"
    using id_take_nth_drop [OF k(1)] by (metis Un_insert_right list.simps(15) set_append)
  then show "sr_LookupRoute (net_route j a) 0 sr" if "net_of j a \<notin> gone \<union> direct (?xs ! k)"
    "net_of j a \<notin> gone \<Longrightarrow> sr_LookupRoute (net_route j a) 0 (nd_routing nd)" for j a
    using that by (auto simp: Lookup_direct)
qed

lemma SetDefaultMulticastRoute_inv:
  assumes "node_inv mtu nd gone"
  shows "node_inv mtu (nd\<lparr>nd_routing := sr_SetDefaultMulticastRoute i (nd_routing nd)\<rparr>) gone"
  using assms by (intro node_inv_table [OF assms])
    (auto simp: node_inv_def sr_SetDefaultMulticastRoute_def table_distinct_def mcast_default_def rte_CreateNetworkRouteTo_direct_def
      Lookup_direct)

text \<open>A new routing protocol learns the networks of all interfaces that are up.\<close>

lemma notify_all_ok:
  assumes "sr_notify_all st is sr = Some sr'" and "distinct is" and "table_distinct sr"
  shows "table_distinct sr' \<and> (\<forall>i < length (l3_interfaces st). i \<in> set is \<longrightarrow> if_ifup (l3_interfaces st ! i) \<longrightarrow>
      (\<forall>a \<in> set (if_ifaddrs (l3_interfaces st ! i)). real_addr a \<and> ia_mask a \<noteq> mask_GetOnes \<longrightarrow> sr_LookupRoute (net_route i a) 0 sr'))
    \<and> (\<forall>i a. i \<notin> set is \<longrightarrow> sr_LookupRoute (net_route i a) 0 sr \<longrightarrow> sr_LookupRoute (net_route i a) 0 sr')"
  using assms
proof (induction "is" arbitrary: sr)
  case (Cons j "is")
  obtain sr1 where sr1: "sr_notify_all st is sr1 = Some sr'" and up: "sr1 = (if if_ifup (l3_interfaces st ! j)
      then fold (sr_up_route j) (if_ifaddrs (l3_interfaces st ! j)) sr else sr_NotifyInterfaceDown j sr)"
    using Cons.prems(1) by (auto simp: l3_IsUp_def sr_NotifyInterfaceUp_def elim!: bind_eq_SomeE split: if_splits)
  have d: "table_distinct sr1" using Cons.prems(3) by (simp add: up distinct_up sr_NotifyInterfaceDown_def distinct_filter)
  note IH = Cons.IH [OF sr1 _ d]
  have here: "sr_LookupRoute (net_route j a) 0 sr1" if "if_ifup (l3_interfaces st ! j)" "a \<in> set (if_ifaddrs (l3_interfaces st ! j))"
    "real_addr a" "ia_mask a \<noteq> mask_GetOnes" for a
    using that by (auto simp: up intro!: up_routes_lookup)
  have kept: "sr_LookupRoute (net_route i a) 0 sr1" if "i \<noteq> j" "sr_LookupRoute (net_route i a) 0 sr" for i a
    using that up_routes_mono unfolding up sr_NotifyInterfaceDown_def
    by (auto intro!: filter_lookup simp: net_route_def rte_CreateNetworkRouteTo_direct_def)
  show ?case using IH Cons.prems(2) here kept by (auto simp: le_Suc_eq)
qed simp

lemma SetRoutingProtocol_inv:
  assumes "node_inv mtu nd gone" and "sr_networkRoutes sr = []" and "node_SetRoutingProtocol sr nd = Some nd'"
  shows "node_inv mtu nd' {}"
proof -
  obtain sr' where sr': "sr_notify_all (nd_ifs nd) [0 ..< length (l3_interfaces (nd_ifs nd))] sr = Some sr'"
    "nd' = nd\<lparr>nd_routing := sr'\<rparr>"
    using assms(3) by (auto simp: node_SetRoutingProtocol_def sr_SetIpv4_def l3_GetNInterfaces_def elim!: bind_eq_SomeE)
  have "table_distinct sr" using assms(2) by (simp add: table_distinct_def)
  then show ?thesis using notify_all_ok [OF sr'(1)] assms(1) sr'(2) by (simp add: node_inv_def connected_def)
qed

end
