(* ===== verification/Ipv4_Configuration.thy ===== *)
theory Ipv4_Configuration
  imports Ipv4_Node
begin

text \<open>
  Histories of the configuration of a node and the properties of its routing table: which networks of
  the interfaces are routed, and the two ways in which the removal of an address goes wrong.
\<close>

section \<open>Histories of a node\<close>

text \<open>
  The operations of a node in any order and with any arguments; a device is added once, and the
  loopback device has the MTU of its class.  \<open>gone\<close> records the networks whose direct route was taken away:
  by the removal of an address or of the route itself.  It is back when the interface is set up (which
  does nothing when its device cannot carry 68 bytes), when an address of the network is added, or when
  the route is.
\<close>

definition node_init :: "bool \<Rightarrow> bool \<Rightarrow> ipv4_node" where
  "node_init forward strong = \<lparr>nd_ifs = \<lparr>l3_interfaces = [], l3_reverse = Map.empty, l3_ipForward = forward,
     l3_strongEndSystemModel = strong\<rparr>, nd_routing = \<lparr>sr_networkRoutes = [], sr_multicastRoutes = []\<rparr>\<rparr>"

inductive node_hist :: "(ptr \<Rightarrow> u16) \<Rightarrow> ipv4_node \<Rightarrow> net_key set \<Rightarrow> bool" for mtu where
  init: "node_hist mtu (node_init forward strong) {}"
| loopback: "node_hist mtu nd gone \<Longrightarrow> l3_reverse (nd_ifs nd) device = None \<Longrightarrow> mtu device = 0xffff
    \<Longrightarrow> node_SetupLoopback device nd = Some nd' \<Longrightarrow> node_hist mtu nd' (up_at (length (l3_interfaces (nd_ifs nd))) gone)"
| add_interface: "node_hist mtu nd gone \<Longrightarrow> l3_reverse (nd_ifs nd) device = None
    \<Longrightarrow> node_hist mtu (snd (node_AddInterface device nd)) gone"
| set_up: "node_hist mtu nd gone \<Longrightarrow> node_SetUp mtu i nd = Some nd'
    \<Longrightarrow> node_hist mtu nd' (if 68 \<le> mtu (if_device (l3_interfaces (nd_ifs nd) ! i)) then up_at i gone else gone)"
| set_down: "node_hist mtu nd gone \<Longrightarrow> node_SetDown i nd = Some nd' \<Longrightarrow> node_hist mtu nd' gone"
| add_address: "node_hist mtu nd gone \<Longrightarrow> node_AddAddress i a nd = Some nd'
    \<Longrightarrow> node_hist mtu nd' (if real_addr a then gone - {net_of i a} else gone)"
| remove_address: "node_hist mtu nd gone \<Longrightarrow> node_RemoveAddress i x nd = Some (ok, nd') \<Longrightarrow> x \<noteq> addr_GetLoopback
    \<Longrightarrow> addr_erase x (if_ifaddrs (l3_interfaces (nd_ifs nd) ! i)) = Some (a, r) \<Longrightarrow> node_hist mtu nd' (insert (net_of i a) gone)"
| remove_nothing: "node_hist mtu nd gone \<Longrightarrow> node_RemoveAddress i x nd = Some (ok, nd')
    \<Longrightarrow> x = addr_GetLoopback \<or> addr_erase x (if_ifaddrs (l3_interfaces (nd_ifs nd) ! i)) = None \<Longrightarrow> node_hist mtu nd' gone"
| remove_address_at: "node_hist mtu nd gone \<Longrightarrow> node_RemoveAddress_at i k nd = Some (ok, nd')
    \<Longrightarrow> node_hist mtu nd' (insert (net_of i (if_ifaddrs (l3_interfaces (nd_ifs nd) ! i) ! k)) gone)"
| set_forwarding: "node_hist mtu nd gone \<Longrightarrow> l3_SetForwarding i val (nd_ifs nd) = Some st \<Longrightarrow> node_hist mtu (nd\<lparr>nd_ifs := st\<rparr>) gone"
| set_metric: "node_hist mtu nd gone \<Longrightarrow> l3_SetMetric i m (nd_ifs nd) = Some st \<Longrightarrow> node_hist mtu (nd\<lparr>nd_ifs := st\<rparr>) gone"
| set_ip_forward: "node_hist mtu nd gone \<Longrightarrow> node_hist mtu (nd\<lparr>nd_ifs := l3_SetIpForward val (nd_ifs nd)\<rparr>) gone"
| set_model: "node_hist mtu nd gone \<Longrightarrow> node_hist mtu (nd\<lparr>nd_ifs := l3_SetStrongEndSystemModel val (nd_ifs nd)\<rparr>) gone"
| set_routing: "node_hist mtu nd gone \<Longrightarrow> sr_networkRoutes sr = [] \<Longrightarrow> node_SetRoutingProtocol sr nd = Some nd' \<Longrightarrow> node_hist mtu nd' {}"
| add_route: "node_hist mtu nd gone
    \<Longrightarrow> node_hist mtu (nd\<lparr>nd_routing := sr_AddNetworkRouteTo net m nextHop gwset i metric (nd_routing nd)\<rparr>)
         (gone - direct (rte_CreateNetworkRouteTo net m nextHop gwset i, metric))"
| add_direct_route: "node_hist mtu nd gone
    \<Longrightarrow> node_hist mtu (nd\<lparr>nd_routing := sr_AddNetworkRouteTo_direct net m i metric (nd_routing nd)\<rparr>)
         (gone - direct (rte_CreateNetworkRouteTo_direct net m i, metric))"
| default_multicast: "node_hist mtu nd gone \<Longrightarrow> node_hist mtu (nd\<lparr>nd_routing := sr_SetDefaultMulticastRoute i (nd_routing nd)\<rparr>) gone"
| remove_route: "node_hist mtu nd gone \<Longrightarrow> sr_RemoveRoute k (nd_routing nd) = Some sr
    \<Longrightarrow> node_hist mtu (nd\<lparr>nd_routing := sr\<rparr>) (gone \<union> direct (sr_networkRoutes (nd_routing nd) ! k))"
| multicast: "node_hist mtu nd gone \<Longrightarrow> node_hist mtu (nd\<lparr>nd_routing := (nd_routing nd)\<lparr>sr_multicastRoutes := ms\<rparr>\<rparr>) gone"

lemma node_init_inv: "node_inv mtu (node_init forward strong) {}"
  by (simp add: node_inv_def node_init_def ifs_ok_def mtu_ok_def table_distinct_def connected_def)

lemma SetForwarding_inv:
  assumes "node_inv mtu nd gone" and "l3_SetForwarding i val (nd_ifs nd) = Some st"
  shows "node_inv mtu (nd\<lparr>nd_ifs := st\<rparr>) gone"
  using assms(2) by (auto simp: l3_SetForwarding_def on_eq if_SetForwarding_def intro!: node_inv_same [OF assms(1)])

lemma SetMetric_inv:
  assumes "node_inv mtu nd gone" and "l3_SetMetric i m (nd_ifs nd) = Some st"
  shows "node_inv mtu (nd\<lparr>nd_ifs := st\<rparr>) gone"
  using assms(2) by (auto simp: l3_SetMetric_def on_eq if_SetMetric_def intro!: node_inv_same [OF assms(1)])

lemma flags_inv:
  assumes "node_inv mtu nd gone"
  shows "node_inv mtu (nd\<lparr>nd_ifs := l3_SetIpForward val (nd_ifs nd)\<rparr>) gone"
    and "node_inv mtu (nd\<lparr>nd_ifs := l3_SetStrongEndSystemModel val (nd_ifs nd)\<rparr>) gone"
  using assms by (simp_all add: node_inv_def l3_SetIpForward_def l3_SetStrongEndSystemModel_def ifs_ok_def mtu_ok_def
      connected_def if_SetForwarding_def)

lemma multicast_inv:
  "node_inv mtu nd gone \<Longrightarrow> node_inv mtu (nd\<lparr>nd_routing := (nd_routing nd)\<lparr>sr_multicastRoutes := ms\<rparr>\<rparr>) gone"
  by (simp add: node_inv_def table_distinct_def connected_def sr_LookupRoute_def)

lemma node_hist_inv: "node_hist mtu nd gone \<Longrightarrow> node_inv mtu nd gone"
proof (induction rule: node_hist.induct)
  case (loopback nd gone device nd')
  then show ?case by (intro SetupLoopback_inv) simp_all
next
  case (remove_nothing nd gone i x ok nd')
  then show ?case using RemoveAddress_none by blast
next
  case (add_route nd gone net m nextHop gwset i metric)
  then show ?case unfolding sr_AddNetworkRouteTo_def by (intro AddRoute_inv)
next
  case (add_direct_route nd gone net m i metric)
  then show ?case unfolding sr_AddNetworkRouteTo_direct_def by (intro AddRoute_inv)
qed (blast intro: node_init_inv AddInterface_inv SetUp_inv SetDown_inv AddAddress_inv RemoveAddress_inv RemoveAddress_at_inv
    SetForwarding_inv SetMetric_inv flags_inv SetRoutingProtocol_inv SetDefaultMulticastRoute_inv RemoveRoute_inv multicast_inv)+

text \<open>
  The configurations in which lookups cannot fail: those of a history whose routes all lead
  through an interface that exists and has an address.
\<close>

definition node_reach :: "(ptr \<Rightarrow> u16) \<Rightarrow> ipv4_node \<Rightarrow> bool" where
  "node_reach mtu nd \<longleftrightarrow> (\<exists>gone. node_hist mtu nd gone) \<and> routes_ok (nd_ifs nd) (nd_routing nd)"

lemma node_reach_inv:
  assumes "node_reach mtu nd"
  shows "ifs_ok (nd_ifs nd)" and "mtu_ok mtu (nd_ifs nd)" and "routes_ok (nd_ifs nd) (nd_routing nd)"
  using assms node_hist_inv by (auto simp: node_reach_def node_inv_def)

lemma ops_total:
  assumes "i < length (l3_interfaces (nd_ifs nd))"
  shows "node_SetUp mtu i nd \<noteq> None" and "node_SetDown i nd \<noteq> None"
    and "node_AddAddress i a nd \<noteq> None" and "node_RemoveAddress i x nd \<noteq> None"
proof -
  show "node_SetUp mtu i nd \<noteq> None" "node_SetDown i nd \<noteq> None" "node_AddAddress i a nd \<noteq> None"
    using assms by (simp_all add: node_SetUp_def node_SetDown_def node_AddAddress_def l3_GetInterface_def l3_on_def
        sr_NotifyInterfaceUp_def sr_NotifyAddAddress_def l3_IsUp_def)
  show "node_RemoveAddress i x nd \<noteq> None"
    using assms by (auto simp: node_RemoveAddress_def node_removed_def l3_GetInterface_def l3_on_def
        sr_NotifyRemoveAddress_def l3_IsUp_def split: prod.splits)
qed

section \<open>Properties\<close>

lemma net_route_candidate:
  assumes "sr_LookupRoute (net_route i a) 0 sr" and "i < length (l3_interfaces st)"
    and "mask_IsMatch (ia_mask a) dest (ia_local a)" and "oif = nullptr \<or> oif = if_device (l3_interfaces st ! i)"
  shows "\<exists>c \<in> set (sr_networkRoutes sr). candidate st dest oif c \<and> plen c = unat (mask_GetPrefixLength (ia_mask a))"
proof -
  obtain e where e: "(e, 0) \<in> set (sr_networkRoutes sr)" "rte_dest e = addr_CombineMask (ia_mask a) (ia_local a)"
    "rte_destNetworkMask e = ia_mask a" "rte_interface e = i"
    using assms(1) by (auto simp: sr_LookupRoute_def list_ex_iff net_route_def rte_CreateNetworkRouteTo_direct_def)
  have "candidate st dest oif (e, 0)" using e(2-4) assms(2-4)
    by (auto simp: candidate_def mask_IsMatch_def addr_CombineMask_def l3_GetNetDevice_def l3_GetInterface_def and.assoc)
  moreover have "plen (e, 0) = unat (mask_GetPrefixLength (ia_mask a))" by (simp add: plen_def e(3))
  ultimately show ?thesis using e(1) by blast
qed

text \<open>
  C17: connected networks.  After any sequence of the operations of a node, removals of addresses and of
  routes included, the table has no entry twice apart from the default multicast route, and
  for every interface that is up and every address of it that is set and not a host address, the table
  has the direct route to its network, unless that route was taken away by a removal (of an address in
  the network, even if another one is left, or of the route) after the interface was last set up, and
  not added again since.  If moreover every entry of the table leads through an interface that exists
  and has an address, each destination of such a network is routed, also when the device of the interface is
  asked for: the lookup returns a route, and the route is that of an entry with a prefix at least as
  long as the mask of the address.
\<close>

theorem connected_networks_routed:
  assumes "node_hist mtu nd gone" and "i < length (l3_interfaces (nd_ifs nd))" and "if_ifup (l3_interfaces (nd_ifs nd) ! i)"
    and "a \<in> set (if_ifaddrs (l3_interfaces (nd_ifs nd) ! i))" and "real_addr a" and "ia_mask a \<noteq> mask_GetOnes"
    and "net_of i a \<notin> gone"
  shows "table_distinct (nd_routing nd) \<and> sr_LookupRoute (net_route i a) 0 (nd_routing nd)
    \<and> (routes_ok (nd_ifs nd) (nd_routing nd) \<and> mask_IsMatch (ia_mask a) dest (ia_local a) \<and> \<not> addr_IsLocalMulticast dest
        \<and> (oif = nullptr \<or> oif = if_device (l3_interfaces (nd_ifs nd) ! i)) \<longrightarrow>
      (\<exists>rt c. sr_LookupStatic (nd_ifs nd) dest oif (nd_routing nd) = Some (Some rt)
        \<and> c \<in> set (sr_networkRoutes (nd_routing nd)) \<and> candidate (nd_ifs nd) dest oif c
        \<and> rt_gateway rt = rte_gateway (fst c) \<and> l3_GetInterfaceForDevice (rt_outputDevice rt) (nd_ifs nd) = Some (rte_interface (fst c))
        \<and> unat (mask_GetPrefixLength (ia_mask a)) \<le> plen c))"
proof -
  let ?st = "nd_ifs nd" let ?sr = "nd_routing nd"
  have inv: "ifs_ok ?st" "table_distinct ?sr" "sr_LookupRoute (net_route i a) 0 ?sr"
    using node_hist_inv [OF assms(1)] assms(2-7) by (simp_all add: node_inv_def connected_def)
  have "\<exists>rt c. sr_LookupStatic ?st dest oif ?sr = Some (Some rt) \<and> c \<in> set (sr_networkRoutes ?sr) \<and> candidate ?st dest oif c
        \<and> rt_gateway rt = rte_gateway (fst c) \<and> l3_GetInterfaceForDevice (rt_outputDevice rt) ?st = Some (rte_interface (fst c))
        \<and> unat (mask_GetPrefixLength (ia_mask a)) \<le> plen c"
    if ok: "routes_ok ?st ?sr" and dest: "mask_IsMatch (ia_mask a) dest (ia_local a)" "\<not> addr_IsLocalMulticast dest"
      and oif: "oif = nullptr \<or> oif = if_device (l3_interfaces ?st ! i)"
  proof -
    let ?cs = "filter (candidate ?st dest oif) (sr_networkRoutes ?sr)"
    obtain d where d: "d \<in> set ?cs" "plen d = unat (mask_GetPrefixLength (ia_mask a))"
      using net_route_candidate [OF inv(3) assms(2) dest(1) oif] by auto
    then have "?cs \<noteq> []" by (metis empty_iff list.set(1))
    then obtain c where c: "best_route ?cs = Some c" unfolding best_route_None [symmetric] by blast
    have in_cs: "c \<in> set (sr_networkRoutes ?sr)" "candidate ?st dest oif c" using best_route_in [OF c] by simp_all
    with ok have "usable ?st (rte_interface (fst c))" by (auto simp: routes_ok_def list_all_iff)
    then obtain rt where rt: "route_via ?st (fst c) = Some rt" "rt_gateway rt = rte_gateway (fst c)"
      "l3_GetNetDevice (rte_interface (fst c)) ?st = Some (rt_outputDevice rt)" using route_via_ok by blast
    have "sr_LookupStatic ?st dest oif ?sr = Some (Some rt)"
      using LookupStatic_best [OF ok dest(2), of oif] c rt(1) by simp
    moreover have "unat (mask_GetPrefixLength (ia_mask a)) \<le> plen c" using best_route_longest [OF c d(1)] d(2) by simp
    ultimately show ?thesis using in_cs rt(2) ifs_ok_device [OF inv(1) rt(3)] by blast
  qed
  then show ?thesis using inv(2,3) by blast
qed

text \<open>
  The removal of an address takes the route to its network away, also when another address
  of the interface is in the same network: the interface is up and has the address, and there
  is no route to its network any more.
\<close>

theorem removal_cuts_network:
  assumes "i < length (l3_interfaces (nd_ifs nd))" and "if_ifup (l3_interfaces (nd_ifs nd) ! i)"
    and "addr_erase x (if_ifaddrs (l3_interfaces (nd_ifs nd) ! i)) = Some (b, r)" and "a \<in> set r"
    and "ia_mask a = ia_mask b" and "addr_CombineMask (ia_mask a) (ia_local a) = addr_CombineMask (ia_mask b) (ia_local b)"
    and "ia_mask b \<noteq> mask_GetOnes" and "real_addr b" and "x \<noteq> addr_GetLoopback"
  shows "\<exists>nd'. node_RemoveAddress i x nd = Some (True, nd') \<and> if_ifup (l3_interfaces (nd_ifs nd') ! i)
    \<and> a \<in> set (if_ifaddrs (l3_interfaces (nd_ifs nd') ! i)) \<and> \<not> sr_LookupRoute (net_route i a) 0 (nd_routing nd')"
proof -
  have "b \<noteq> Ipv4InterfaceAddress_init" using assms(8) by (auto simp: real_addr_def Ipv4InterfaceAddress_init_def)
  then show ?thesis using assms
    by (auto simp: node_RemoveAddress_def node_removed_def l3_GetInterface_def l3_on_def if_RemoveAddress_def
        sr_NotifyRemoveAddress_def l3_IsUp_def sr_LookupRoute_def list_ex_iff net_route_def
        rte_CreateNetworkRouteTo_direct_def rte_IsNetwork_def rte_IsHost_def)
qed

lemma static_loop_fatal:
  assumes "filter (candidate st dest nullptr) rs = c # cs" and "i = rte_interface (fst c)"
    and "i < length (l3_interfaces st)" and "if_ifaddrs (l3_interfaces st ! i) = []"
  shows "static_loop st dest nullptr rs 0 0xffffffff None = None"
  using assms(1)
proof (induction rs)
  case (Cons d rs)
  obtain j metric where d: "d = (j, metric)" by (cases d)
  show ?case
  proof (cases "candidate st dest nullptr d")
    case False
    then have "static_loop st dest nullptr (d # rs) 0 0xffffffff None = static_loop st dest nullptr rs 0 0xffffffff None"
      by (auto simp: d candidate_def Let_def)
    then show ?thesis using Cons False by simp
  next
    case True
    then have "c = d" using Cons.prems by simp
    then have "l3_SourceAddressSelection (rte_interface j) (rte_dest j) st = None"
      using assms(2-4) by (simp add: d l3_SourceAddressSelection_def l3_GetInterface_def if_GetNAddresses_def if_GetAddress_def)
    then show ?thesis using True u32_top by (auto simp: d candidate_def Let_def)
  qed
qed simp

text \<open>
  A lookup that meets an entry through an interface without addresses ends in the
  \<^verbatim>\<open>NS_FATAL_ERROR\<close> of \<^verbatim>\<open>Ipv4Interface::GetAddress\<close>.  Such entries remain when the last address
  of an interface is removed, since only the route to its network goes with it.
\<close>

theorem lookup_without_address_fatal:
  assumes "\<not> addr_IsLocalMulticast dest" and "filter (candidate st dest nullptr) (sr_networkRoutes sr) = c # cs"
    and "rte_interface (fst c) < length (l3_interfaces st)" and "if_ifaddrs (l3_interfaces st ! rte_interface (fst c)) = []"
  shows "sr_LookupStatic st dest nullptr sr = None"
  using assms(1) static_loop_fatal [OF assms(2) refl assms(3,4)] by (simp add: sr_LookupStatic_def)

section \<open>Witnesses\<close>

text \<open>A node with one interface, two addresses in one network and a default route, made by the operations.\<close>

definition sample_node :: "ipv4_node option" where
  "sample_node = do {
     let nd = snd (node_AddInterface 7 (node_init True False));
     nd \<leftarrow> node_AddAddress 0 (ia_new 0x0a000001 (net_mask 24)) nd;
     nd \<leftarrow> node_AddAddress 0 (ia_new 0x0a000002 (net_mask 24)) nd;
     node_SetUp (\<lambda>_. 1500) 0 nd
   }"

lemmas node_evals = sample_node_def node_AddInterface_def l3_AddInterface_def l3_AddIpv4Interface_def node_init_def
  node_AddAddress_def node_SetUp_def l3_on_def l3_GetInterface_def sr_NotifyAddAddress_def sr_NotifyInterfaceUp_def
  l3_IsUp_def if_AddAddress_def if_SetUp_def if_SetForwarding_def if_SetDevice_def Ipv4Interface_init_def
  sr_up_route_def sr_AddNetworkRouteTo_direct_def sr_add_def sr_LookupRoute_def rte_CreateNetworkRouteTo_direct_def
  ia_new_def UNINITIALIZED_def Ipv4Mask_init_def mask_GetOnes_def net_mask_def addr_CombineMask_def addr_GetLoopback_def

lemma sample_node_hist: "\<exists>nd. sample_node = Some nd \<and> node_hist (\<lambda>_. 1500) nd {}
  \<and> l3_interfaces (nd_ifs nd) = [\<lparr>if_ifup = True, if_forwarding = True, if_metric = 1, if_device = 7,
      if_ifaddrs = [ia_new 0x0a000001 (net_mask 24), ia_new 0x0a000002 (net_mask 24)]\<rparr>]
  \<and> sr_networkRoutes (nd_routing nd) = [(rte_CreateNetworkRouteTo_direct 0x0a000000 (net_mask 24) 0, 0)]"
proof -
  let ?nd0 = "snd (node_AddInterface 7 (node_init True False))"
  have r0: "node_hist (\<lambda>_. 1500) ?nd0 {}" by (rule node_hist.add_interface [OF node_hist.init]) (simp add: node_init_def)
  have "\<exists>nd. sample_node = Some nd" by (simp add: node_evals)
  then obtain nd1 nd2 nd where nd: "node_AddAddress 0 (ia_new 0x0a000001 (net_mask 24)) ?nd0 = Some nd1"
    "node_AddAddress 0 (ia_new 0x0a000002 (net_mask 24)) nd1 = Some nd2" "node_SetUp (\<lambda>_. 1500) 0 nd2 = Some nd" "sample_node = Some nd"
    unfolding sample_node_def Let_def by (auto elim!: bind_eq_SomeE)
  have "node_hist (\<lambda>_. 1500) nd {}"
    using node_hist.set_up [OF node_hist.add_address [OF node_hist.add_address [OF r0 nd(1)] nd(2)] nd(3)]
    by (simp add: up_at_def split: if_splits)
  moreover have "l3_interfaces (nd_ifs nd) = [\<lparr>if_ifup = True, if_forwarding = True, if_metric = 1, if_device = 7,
      if_ifaddrs = [ia_new 0x0a000001 (net_mask 24), ia_new 0x0a000002 (net_mask 24)]\<rparr>]
    \<and> sr_networkRoutes (nd_routing nd) = [(rte_CreateNetworkRouteTo_direct 0x0a000000 (net_mask 24) 0, 0)]"
    using nd(4) by (auto simp: node_evals)
  ultimately show ?thesis using nd(4) by blast
qed

lemma sample_node_eq: "\<exists>nd. sample_node = Some nd \<and> node_reach (\<lambda>_. 1500) nd
  \<and> l3_interfaces (nd_ifs nd) = [\<lparr>if_ifup = True, if_forwarding = True, if_metric = 1, if_device = 7,
      if_ifaddrs = [ia_new 0x0a000001 (net_mask 24), ia_new 0x0a000002 (net_mask 24)]\<rparr>]
  \<and> sr_networkRoutes (nd_routing nd) = [(rte_CreateNetworkRouteTo_direct 0x0a000000 (net_mask 24) 0, 0)]"
  using sample_node_hist
  by (fastforce simp: node_reach_def routes_ok_def usable_def rte_CreateNetworkRouteTo_direct_def)

theorem connected_networks_routed_witness:
  "\<exists>nd rt. sample_node = Some nd \<and> node_hist (\<lambda>_. 1500) nd {}
    \<and> sr_LookupStatic (nd_ifs nd) 0x0a000005 0 (nd_routing nd) = Some (Some rt)"
proof -
  obtain nd where nd: "sample_node = Some nd" "node_hist (\<lambda>_. 1500) nd {}"
    "l3_interfaces (nd_ifs nd) = [\<lparr>if_ifup = True, if_forwarding = True, if_metric = 1, if_device = 7,
      if_ifaddrs = [ia_new 0x0a000001 (net_mask 24), ia_new 0x0a000002 (net_mask 24)]\<rparr>]"
    "sr_networkRoutes (nd_routing nd) = [(rte_CreateNetworkRouteTo_direct 0x0a000000 (net_mask 24) 0, 0)]"
    using sample_node_hist by blast
  let ?a = "ia_new 0x0a000001 (net_mask 24)"
  have "real_addr ?a" "ia_mask ?a \<noteq> mask_GetOnes"
    by (simp_all add: real_addr_def ia_new_def UNINITIALIZED_def Ipv4Mask_init_def net_mask_def mask_GetOnes_def)
  then have "routes_ok (nd_ifs nd) (nd_routing nd) \<and> mask_IsMatch (ia_mask ?a) 0x0a000005 (ia_local ?a)
      \<and> \<not> addr_IsLocalMulticast 0x0a000005 \<and> ((0 :: ptr) = nullptr \<or> 0 = if_device (l3_interfaces (nd_ifs nd) ! 0)) \<longrightarrow>
      (\<exists>rt c. sr_LookupStatic (nd_ifs nd) 0x0a000005 0 (nd_routing nd) = Some (Some rt)
        \<and> c \<in> set (sr_networkRoutes (nd_routing nd)) \<and> candidate (nd_ifs nd) 0x0a000005 0 c
        \<and> rt_gateway rt = rte_gateway (fst c) \<and> l3_GetInterfaceForDevice (rt_outputDevice rt) (nd_ifs nd) = Some (rte_interface (fst c))
        \<and> unat (mask_GetPrefixLength (ia_mask ?a)) \<le> plen c)"
    using connected_networks_routed [OF nd(2), where i = 0 and a = ?a and dest = "0x0a000005" and oif = 0] nd(3) by simp
  moreover have "routes_ok (nd_ifs nd) (nd_routing nd)"
    using nd(3,4) by (simp add: routes_ok_def usable_def rte_CreateNetworkRouteTo_direct_def)
  moreover have "mask_IsMatch (ia_mask ?a) 0x0a000005 (ia_local ?a)" "\<not> addr_IsLocalMulticast 0x0a000005"
    by (simp_all add: mask_IsMatch_def ia_new_def net_mask_def addr_IsLocalMulticast_def)
  ultimately show ?thesis using nd(1,2) by auto
qed

theorem removal_cuts_network_witness:
  "\<exists>nd nd'. sample_node = Some nd \<and> node_RemoveAddress 0 0x0a000002 nd = Some (True, nd')
    \<and> \<not> sr_LookupRoute (net_route 0 (ia_new 0x0a000001 (net_mask 24))) 0 (nd_routing nd')"
proof -
  obtain nd where nd: "sample_node = Some nd"
    "l3_interfaces (nd_ifs nd) = [\<lparr>if_ifup = True, if_forwarding = True, if_metric = 1, if_device = 7,
      if_ifaddrs = [ia_new 0x0a000001 (net_mask 24), ia_new 0x0a000002 (net_mask 24)]\<rparr>]"
    using sample_node_eq by blast
  have "real_addr (ia_new 0x0a000002 (net_mask 24))" "ia_mask (ia_new 0x0a000002 (net_mask 24)) \<noteq> mask_GetOnes"
    "addr_CombineMask (ia_mask (ia_new 0x0a000001 (net_mask 24))) (ia_local (ia_new 0x0a000001 (net_mask 24)))
     = addr_CombineMask (ia_mask (ia_new 0x0a000002 (net_mask 24))) (ia_local (ia_new 0x0a000002 (net_mask 24)))"
    "ia_mask (ia_new 0x0a000001 (net_mask 24)) = ia_mask (ia_new 0x0a000002 (net_mask 24))"
    "(0x0a000002 :: u32) \<noteq> addr_GetLoopback"
    by (simp_all add: real_addr_def ia_new_def UNINITIALIZED_def Ipv4Mask_init_def net_mask_def mask_GetOnes_def
        addr_CombineMask_def addr_GetLoopback_def)
  moreover have "addr_erase 0x0a000002 (if_ifaddrs (l3_interfaces (nd_ifs nd) ! 0))
      = Some (ia_new 0x0a000002 (net_mask 24), [ia_new 0x0a000001 (net_mask 24)])"
    by (simp add: nd(2) ia_new_def)
  ultimately show ?thesis
    using removal_cuts_network [where i = 0 and nd = nd and x = "0x0a000002" and b = "ia_new 0x0a000002 (net_mask 24)"
        and r = "[ia_new 0x0a000001 (net_mask 24)]" and a = "ia_new 0x0a000001 (net_mask 24)"] nd by auto
qed

definition bare_ifs :: l3_ifs where
  "bare_ifs = \<lparr>l3_interfaces = [\<lparr>if_ifup = True, if_forwarding = True, if_metric = 1, if_device = 7, if_ifaddrs = []\<rparr>],
     l3_reverse = [7 \<mapsto> 0], l3_ipForward = True, l3_strongEndSystemModel = False\<rparr>"

theorem lookup_without_address_fatal_witness:
  "sr_LookupStatic bare_ifs 0x0a000907 0
     (sr_SetDefaultRoute 0x0a0000fe True 0 0 \<lparr>sr_networkRoutes = [], sr_multicastRoutes = []\<rparr>) = None"
proof -
  let ?e = "rte_CreateNetworkRouteTo 0 0 0x0a0000fe True 0"
  have sr: "sr_networkRoutes (sr_SetDefaultRoute 0x0a0000fe True 0 0 \<lparr>sr_networkRoutes = [], sr_multicastRoutes = []\<rparr>) = [(?e, 0)]"
    by (simp add: sr_SetDefaultRoute_def sr_AddNetworkRouteTo_def sr_add_def sr_LookupRoute_def mask_GetZero_def)
  have "candidate bare_ifs 0x0a000907 0 (?e, 0)" "\<not> addr_IsLocalMulticast 0x0a000907"
    by (simp_all add: candidate_def mask_IsMatch_def rte_CreateNetworkRouteTo_def addr_IsLocalMulticast_def)
  then show ?thesis
    by (intro lookup_without_address_fatal [where c = "(?e, 0)" and cs = "[]"])
       (simp_all add: sr bare_ifs_def rte_CreateNetworkRouteTo_def)
qed

end
