(* ===== verification/Ipv4_Sending.thy ===== *)
theory Ipv4_Sending
  imports Ipv4_Complete Ipv4_Configuration
begin

text \<open>
  The output side of \<^verbatim>\<open>Ipv4L3Protocol\<close> (src/internet/model/ipv4-l3-protocol.cc): building
  headers, sending, and forwarding.  A packet is its bytes with the TTL and TOS tags of sockets
  passed as arguments.  What reaches \<^verbatim>\<open>Ipv4Interface::Send\<close>, the drop trace and ICMP is
  recorded.  Duplicate packet detection, which is off by default, and the trace of sent packets
  are left out.
\<close>

section \<open>Definitions\<close>

datatype drop_reason =
    DROP_TTL_EXPIRED | DROP_NO_ROUTE | DROP_BAD_CHECKSUM | DROP_INTERFACE_DOWN
  | DROP_ROUTE_ERROR | DROP_FRAGMENT_TIMEOUT | DROP_DUPLICATE

type_synonym ip_packet = "u8 list \<times> ipv4_header"

text \<open>
  \<open>sn_out\<close>: the calls of \<^verbatim>\<open>Send (p, hdr, target)\<close> with the number of the interface;
  \<open>sn_drop\<close>: the calls of the drop trace; \<open>sn_timeExceeded\<close>: the ICMP messages about an expired TTL.
\<close>

record ipv4_sender =
  sn_identification :: "u64 \<times> u8 \<Rightarrow> u16"
  sn_out :: "(nat \<times> ip_packet \<times> u32) list"
  sn_drop :: "(drop_reason \<times> ip_packet \<times> nat) list"
  sn_timeExceeded :: "ip_packet list"

text \<open>An assertion that fails and an abort are both \<open>FragAbort\<close>; \<open>FragFuel\<close> is a loop that does not end.\<close>

definition or_abort :: "'x option \<Rightarrow> ('x \<Rightarrow> 'y frag_result) \<Rightarrow> 'y frag_result" where
  "or_abort x g = (case x of None \<Rightarrow> FragAbort | Some y \<Rightarrow> g y)"

definition id_key :: "u32 \<Rightarrow> u32 \<Rightarrow> u8 \<Rightarrow> u64 \<times> u8" where
  "id_key source destination protocol = (ucast destination OR push_bit 32 (ucast source), protocol)"

definition l3_DecreaseIdentification :: "u32 \<Rightarrow> u32 \<Rightarrow> u8 \<Rightarrow> ipv4_sender \<Rightarrow> ipv4_sender" where
  "l3_DecreaseIdentification source destination protocol s =
     (let key = id_key source destination protocol in
      s\<lparr>sn_identification := (sn_identification s)(key := sn_identification s key - 1)\<rparr>)"

definition l3_BuildHeader :: "bool \<Rightarrow> u32 \<Rightarrow> u32 \<Rightarrow> u8 \<Rightarrow> u16 \<Rightarrow> u8 \<Rightarrow> u8 \<Rightarrow> bool \<Rightarrow> ipv4_sender
    \<Rightarrow> ipv4_header \<times> ipv4_sender" where
  "l3_BuildHeader checksumEnabled source destination protocol payloadSize ttl tos mayFragment s =
     (let h = ip_SetTos tos (ip_SetTtl ttl (ip_SetPayloadSize payloadSize (ip_SetProtocol protocol
                (ip_SetDestination destination (ip_SetSource source Ipv4Header_init)))));
          key = id_key source destination protocol;
          h = ip_SetIdentification (sn_identification s key) (if mayFragment then ip_SetMayFragment h else ip_SetDontFragment h);
          s = s\<lparr>sn_identification := (sn_identification s)(key := sn_identification s key + 1)\<rparr>
      in (if checksumEnabled then ip_EnableChecksum h else h, s))"

text \<open>
  \<^verbatim>\<open>SendRealOut\<close> with a route.  The packet is fragmented when it does not fit the MTU of the
  device; the flag \<^verbatim>\<open>DontFragment\<close> is not looked at.  \<open>fuel\<close> bounds the fragments.
\<close>

definition l3_SendRealOut :: "nat \<Rightarrow> bool \<Rightarrow> (ptr \<Rightarrow> u16) \<Rightarrow> l3_ifs \<Rightarrow> ipv4_route option \<Rightarrow> u8 list \<Rightarrow> ipv4_header
    \<Rightarrow> ipv4_sender \<Rightarrow> ipv4_sender frag_result" where
  "l3_SendRealOut fuel checksumEnabled mtu st route packet ipHeader s = (case route of
       None \<Rightarrow> FragDone (s\<lparr>sn_drop := sn_drop s @ [(DROP_NO_ROUTE, (packet, ipHeader), 0)]\<rparr>)
     | Some rt \<Rightarrow>
         or_abort (l3_GetInterfaceForDevice (rt_outputDevice rt) st) (\<lambda>interface.
         or_abort (l3_GetInterface interface st) (\<lambda>outInterface.
           let target = (if addr_IsAny (rt_gateway rt) then ip_destination ipHeader else rt_gateway rt) in
           if if_ifup outInterface
           then if of_nat (length packet) + of_nat (ip_GetSerializedSize ipHeader) > (ucast (mtu (if_device outInterface)) :: u32)
             then frag_bind (l3_DoFragmentation fuel checksumEnabled packet ipHeader (ucast (mtu (if_device outInterface))))
               (\<lambda>fs. FragDone (s\<lparr>sn_out := sn_out s @ map (\<lambda>x. (interface, x, target)) fs\<rparr>))
             else FragDone (s\<lparr>sn_out := sn_out s @ [(interface, (packet, ipHeader), target)]\<rparr>)
           else FragDone s)))"

definition l3_SendWithHeader :: "nat \<Rightarrow> bool \<Rightarrow> (ptr \<Rightarrow> u16) \<Rightarrow> l3_ifs \<Rightarrow> u8 list \<Rightarrow> ipv4_header \<Rightarrow> ipv4_route option
    \<Rightarrow> ipv4_sender \<Rightarrow> ipv4_sender frag_result" where
  "l3_SendWithHeader fuel checksumEnabled mtu st packet ipHeader route s =
     l3_SendRealOut fuel checksumEnabled mtu st route packet
       (if checksumEnabled then ip_EnableChecksum ipHeader else ipHeader) s"

text \<open>
  What a call of \<^verbatim>\<open>Send\<close> depends on: the packet with its tags and its addresses.
\<close>

record send_args =
  sa_packet :: "u8 list"
  sa_ttlTag :: "u8 option"
  sa_tosTag :: "u8 option"
  sa_source :: u32
  sa_destination :: u32
  sa_protocol :: u8

definition send_header :: "bool \<Rightarrow> u8 \<Rightarrow> send_args \<Rightarrow> ipv4_sender \<Rightarrow> ipv4_header \<times> ipv4_sender" where
  "send_header checksumEnabled defaultTtl a s =
     l3_BuildHeader checksumEnabled (sa_source a) (sa_destination a) (sa_protocol a) (of_nat (length (sa_packet a)))
       (case sa_ttlTag a of Some ttl \<Rightarrow> ttl | None \<Rightarrow> defaultTtl) (case sa_tosTag a of Some tos \<Rightarrow> tos | None \<Rightarrow> 0) True s"

text \<open>Case 1 of \<^verbatim>\<open>Send\<close>: the packet comes with a route, whose gateway has to be set.\<close>

definition l3_Send_route :: "nat \<Rightarrow> bool \<Rightarrow> u8 \<Rightarrow> (ptr \<Rightarrow> u16) \<Rightarrow> l3_ifs \<Rightarrow> send_args \<Rightarrow> ipv4_route
    \<Rightarrow> ipv4_sender \<Rightarrow> ipv4_sender frag_result" where
  "l3_Send_route fuel checksumEnabled defaultTtl mtu st a route s =
     (let (ipHeader, s) = send_header checksumEnabled defaultTtl a s in
      if \<not> rt_gatewaySet route then FragAbort
      else l3_SendRealOut fuel checksumEnabled mtu st (Some route) (sa_packet a) ipHeader s)"

definition proxy_route :: "send_args \<Rightarrow> ptr \<Rightarrow> ipv4_route" where
  "proxy_route a device = \<lparr>rt_dest = sa_destination a, rt_source = sa_source a, rt_gateway = addr_GetAny,
     rt_gatewaySet = True, rt_outputDevice = device\<rparr>"

text \<open>
  Cases 2 to 4 call \<^verbatim>\<open>Send\<close> again with a route and the copy of the packet that still has the
  tags, after the identification was taken back.
\<close>

definition l3_resend :: "nat \<Rightarrow> bool \<Rightarrow> u8 \<Rightarrow> (ptr \<Rightarrow> u16) \<Rightarrow> l3_ifs \<Rightarrow> send_args \<Rightarrow> ipv4_route
    \<Rightarrow> ipv4_sender \<Rightarrow> ipv4_sender frag_result" where
  "l3_resend fuel checksumEnabled defaultTtl mtu st a route s =
     l3_Send_route fuel checksumEnabled defaultTtl mtu st a route
       (l3_DecreaseIdentification (sa_source a) (sa_destination a) (sa_protocol a) s)"

text \<open>
  The recursive call removes the tags from the packet it is given.  That packet is the one copy
  (\<^verbatim>\<open>pktCopyWithTags\<close>) that the loop over the interfaces passes on every time, so the tags are
  gone from the second call on.
\<close>

definition sa_untag :: "send_args \<Rightarrow> send_args" where
  "sa_untag a = a\<lparr>sa_ttlTag := None, sa_tosTag := None\<rparr>"

fun send_broadcast :: "nat \<Rightarrow> bool \<Rightarrow> u8 \<Rightarrow> (ptr \<Rightarrow> u16) \<Rightarrow> l3_ifs \<Rightarrow> send_args \<Rightarrow> ipv4_interface list
    \<Rightarrow> ipv4_sender \<Rightarrow> ipv4_sender frag_result" where
  "send_broadcast fuel checksumEnabled defaultTtl mtu st a [] s = FragDone s"
| "send_broadcast fuel checksumEnabled defaultTtl mtu st a (f # r) s =
     (if addr_IsAny (sa_source a) \<or> list_ex (\<lambda>x. ia_local x = sa_source a) (if_ifaddrs f)
      then frag_bind (l3_resend fuel checksumEnabled defaultTtl mtu st a (proxy_route a (if_device f)) s)
             (send_broadcast fuel checksumEnabled defaultTtl mtu st (sa_untag a) r)
      else send_broadcast fuel checksumEnabled defaultTtl mtu st a r s)"

text \<open>The device of the first interface for whose network the destination is the directed broadcast address.\<close>

fun subnet_broadcast :: "l3_ifs \<Rightarrow> u32 \<Rightarrow> ipv4_interface list \<Rightarrow> ptr option option" where
  "subnet_broadcast st destination [] = Some None"
| "subnet_broadcast st destination (f # r) = do {
     ifaceIndex \<leftarrow> l3_GetInterfaceForDevice (if_device f) st;
     g \<leftarrow> l3_GetInterface ifaceIndex st;
     if list_ex (\<lambda>x. addr_IsSubnetDirectedBroadcast (ia_mask x) destination
         \<and> addr_CombineMask (ia_mask x) destination = addr_CombineMask (ia_mask x) (ia_local x)) (if_ifaddrs g)
     then Some (Some (if_device f))
     else subnet_broadcast st destination r
   }"

text \<open>\<open>ro\<close> is \<^verbatim>\<open>RouteOutput\<close> of the routing protocol of the node.\<close>

definition l3_Send :: "(l3_ifs \<Rightarrow> u32 \<Rightarrow> ptr \<Rightarrow> (ipv4_route option \<times> sock_errno) option)
    \<Rightarrow> nat \<Rightarrow> bool \<Rightarrow> u8 \<Rightarrow> (ptr \<Rightarrow> u16) \<Rightarrow> l3_ifs \<Rightarrow> send_args \<Rightarrow> ipv4_route option \<Rightarrow> ipv4_sender \<Rightarrow> ipv4_sender frag_result" where
  "l3_Send ro fuel checksumEnabled defaultTtl mtu st a route s = (case route of
       Some rt \<Rightarrow> l3_Send_route fuel checksumEnabled defaultTtl mtu st a rt s
     | None \<Rightarrow>
         let (ipHeader, s) = send_header checksumEnabled defaultTtl a s in
         if addr_IsBroadcast (sa_destination a) \<or> addr_IsLocalMulticast (sa_destination a)
         then send_broadcast fuel checksumEnabled defaultTtl mtu st a (l3_interfaces st) s
         else or_abort (subnet_broadcast st (sa_destination a) (l3_interfaces st)) (\<lambda>bcast. case bcast of
             Some device \<Rightarrow> l3_resend fuel checksumEnabled defaultTtl mtu st a (proxy_route a device) s
           | None \<Rightarrow> or_abort (ro st (sa_destination a) nullptr) (\<lambda>(newRoute, errno). case newRoute of
               Some rt \<Rightarrow> l3_resend fuel checksumEnabled defaultTtl mtu st a rt s
             | None \<Rightarrow> FragDone (l3_DecreaseIdentification (sa_source a) (sa_destination a) (sa_protocol a)
                 (s\<lparr>sn_drop := sn_drop s @ [(DROP_NO_ROUTE, (sa_packet a, ipHeader), 0)]\<rparr>)))))"

text \<open>Forwarding.  The TTL is an 8-bit number; the arithmetic wraps around.\<close>

definition l3_IpForward :: "nat \<Rightarrow> bool \<Rightarrow> (ptr \<Rightarrow> u16) \<Rightarrow> l3_ifs \<Rightarrow> ipv4_route \<Rightarrow> u8 list \<Rightarrow> ipv4_header
    \<Rightarrow> ipv4_sender \<Rightarrow> ipv4_sender frag_result" where
  "l3_IpForward fuel checksumEnabled mtu st rtentry packet header s =
     (let ipHeader = ip_SetTtl (ip_ttl header - 1) header;
          interface = (case l3_GetInterfaceForDevice (rt_outputDevice rtentry) st of Some i \<Rightarrow> i | None \<Rightarrow> 2 ^ 32 - 1) in
      if ip_ttl ipHeader = 0
      then let s = (if \<not> addr_IsBroadcast (ip_destination ipHeader) \<and> \<not> addr_IsMulticast (ip_destination ipHeader)
                    then s\<lparr>sn_timeExceeded := sn_timeExceeded s @ [(packet, ipHeader)]\<rparr> else s)
           in FragDone (s\<lparr>sn_drop := sn_drop s @ [(DROP_TTL_EXPIRED, (packet, header), interface)]\<rparr>)
      else l3_SendRealOut fuel checksumEnabled mtu st (Some rtentry) packet ipHeader s)"

fun multicast_loop :: "nat \<Rightarrow> bool \<Rightarrow> (ptr \<Rightarrow> u16) \<Rightarrow> l3_ifs \<Rightarrow> (nat \<times> nat) list \<Rightarrow> u8 list \<Rightarrow> ipv4_header
    \<Rightarrow> ipv4_sender \<Rightarrow> ipv4_sender frag_result" where
  "multicast_loop fuel checksumEnabled mtu st [] packet header s = FragDone s"
| "multicast_loop fuel checksumEnabled mtu st ((interface, outputTtl) # r) packet header s =
     (let ipHeader = ip_SetTtl (ip_ttl header - 1) header in
      if ip_ttl ipHeader = 0
      then FragDone (s\<lparr>sn_drop := sn_drop s @ [(DROP_TTL_EXPIRED, (packet, header), interface)]\<rparr>)
      else or_abort (l3_GetNetDevice interface st) (\<lambda>device.
        frag_bind (l3_SendRealOut fuel checksumEnabled mtu st
            (Some \<lparr>rt_dest = ip_destination ipHeader, rt_source = ip_source ipHeader, rt_gateway = addr_GetAny,
              rt_gatewaySet = True, rt_outputDevice = device\<rparr>) packet ipHeader s)
          (multicast_loop fuel checksumEnabled mtu st r packet header)))"

definition l3_IpMulticastForward :: "nat \<Rightarrow> bool \<Rightarrow> (ptr \<Rightarrow> u16) \<Rightarrow> l3_ifs \<Rightarrow> ipv4_mroute \<Rightarrow> u8 list \<Rightarrow> ipv4_header
    \<Rightarrow> ipv4_sender \<Rightarrow> ipv4_sender frag_result" where
  "l3_IpMulticastForward fuel checksumEnabled mtu st mrtentry packet header s =
     multicast_loop fuel checksumEnabled mtu st (mrt_ttls mrtentry) packet header s"

definition l3_RouteInputError :: "u8 list \<Rightarrow> ipv4_header \<Rightarrow> ipv4_sender \<Rightarrow> ipv4_sender" where
  "l3_RouteInputError packet ipHeader s = s\<lparr>sn_drop := sn_drop s @ [(DROP_ROUTE_ERROR, (packet, ipHeader), 0)]\<rparr>"

end
