(* ===== verification/Ipv4_Forwarding.thy ===== *)
theory Ipv4_Forwarding
  imports Ipv4_Sending
begin

text \<open>
  Laws of sending and forwarding: what reaches the interfaces, with which identification and
  which TTL.  The routing protocol of the node is an interface, with static routing as the
  instance.
\<close>

section \<open>Headers of fragments\<close>

text \<open>The headers of fragments come from \<open>frag_header\<close>, however the loop ends.\<close>

lemma frag_loop_header:
  "frag_loop fuel ck p h sz k = FragDone fs \<Longrightarrow> x \<in> set fs \<Longrightarrow> \<exists>mf j n. frag_header ck mf j n h = Some (snd x)"
proof (induction fuel arbitrary: k fs)
  case (Suc fuel)
  let ?mf = "of_nat (length p) > ucast k + sz"
  let ?sz = "if ?mf then sz else of_nat (length p) - ucast k"
  obtain q h' where qh: "pkt_CreateFragment (unat k) ?sz p = Some q"
    "frag_header ck (?mf \<or> \<not> ip_IsLastFragment h) (k + ip_GetFragmentOffset h) ?sz h = Some h'"
    using Suc.prems(1) by (auto simp: Let_def split: option.splits)
  show ?case
  proof (cases ?mf)
    case True
    obtain gs where gs: "frag_loop fuel ck p h sz (k + ucast ?sz) = FragDone gs" "fs = (q, h') # gs"
      using Suc.prems(1) qh True by (cases "frag_loop fuel ck p h sz (k + ucast ?sz)") (auto simp: Let_def)
    show ?thesis
    proof (cases "x \<in> set gs")
      case True
      then show ?thesis using Suc.IH [OF gs(1)] by blast
    next
      case False
      then have "snd x = h'" using gs(2) Suc.prems(2) by simp
      then show ?thesis using qh(2) by blast
    qed
  next
    case False
    then have "snd x = h'" using Suc.prems qh by (auto simp: Let_def)
    then show ?thesis using qh(2) by blast
  qed
qed simp

lemma DoFragmentation_header:
  assumes "l3_DoFragmentation fuel ck p h m = FragDone fs" and "x \<in> set fs"
  shows "\<exists>mf j n. frag_header ck mf j n h = Some (snd x)"
  using assms frag_loop_header [of fuel ck p h _ 0 fs x] by (auto simp: l3_DoFragmentation_def split: if_splits)

lemma frag_header_kept:
  assumes "frag_header ck mf k sz h = Some h'"
  shows "ip_ttl h' = ip_ttl h" and "ip_calcChecksum h' \<longleftrightarrow> ck \<or> ip_calcChecksum h"
    and "ip_flags h AND 4 = 0 \<Longrightarrow> ip_flags h' AND 4 = 0"
proof -
  have h': "h' = (let g = (if mf then ip_SetMoreFragments h else ip_SetLastFragment h)\<lparr>ip_fragmentOffset := k, ip_payloadSize := ucast sz\<rparr>
      in if ck then g\<lparr>ip_calcChecksum := True\<rparr> else g)"
    using assms by (auto simp: frag_header_def ip_SetFragmentOffset_def ip_SetPayloadSize_def ip_EnableChecksum_def Let_def
        bind_ns_assert split: if_splits)
  show "ip_ttl h' = ip_ttl h" "ip_calcChecksum h' \<longleftrightarrow> ck \<or> ip_calcChecksum h"
    by (simp_all add: h' Let_def ip_SetMoreFragments_def ip_SetLastFragment_def)
  have "(f OR 2) AND 4 = f AND 4" "(f AND NOT 2) AND 4 = f AND 4" for f :: u3
  proof -
    have "(2 :: u3) AND 4 = 0" "NOT 2 AND 4 = (4 :: u3)" by simp_all
    then show "(f OR 2) AND 4 = f AND 4" "(f AND NOT 2) AND 4 = f AND 4"
      by (simp_all add: and.assoc bit.conj_disj_distrib2)
  qed
  then show "ip_flags h AND 4 = 0 \<Longrightarrow> ip_flags h' AND 4 = 0"
    by (simp add: h' Let_def ip_SetMoreFragments_def ip_SetLastFragment_def)
qed

section \<open>Sending over an interface\<close>

text \<open>The target of the interface: the gateway of the route, or the destination.\<close>

definition next_hop :: "ipv4_route \<Rightarrow> ipv4_header \<Rightarrow> u32" where
  "next_hop rt h = (if rt_gateway rt = 0 then ip_destination h else rt_gateway rt)"

definition sent_as :: "u8 list \<Rightarrow> u8 list \<Rightarrow> ipv4_header \<Rightarrow> nat \<Rightarrow> ip_packet list \<Rightarrow> bool" where
  "sent_as S p h n fs \<longleftrightarrow> concat (map fst fs) = p \<and> contiguous (unat (ip_fragmentOffset h)) fs
     \<and> (\<forall>x \<in> set fs. frag_of S h n x \<and> (ip_calcChecksum h \<longrightarrow> ip_calcChecksum (snd x))
          \<and> (ip_flags h AND 4 = 0 \<longrightarrow> ip_flags (snd x) AND 4 = 0))
     \<and> (p \<noteq> [] \<longrightarrow> (\<forall>x \<in> set fs. fst x \<noteq> [])) \<and> fs \<noteq> []"

text \<open>The packet goes out whole, over interface \<open>i\<close> to the target \<open>t\<close>.\<close>

definition sent_over :: "(ptr \<Rightarrow> u16) \<Rightarrow> l3_ifs \<Rightarrow> nat \<Rightarrow> u32 \<Rightarrow> u8 list \<Rightarrow> ipv4_header \<Rightarrow> (nat \<times> ip_packet \<times> u32) list \<Rightarrow> bool" where
  "sent_over mtu st i t p h outs \<longleftrightarrow> (\<exists>fs. outs = map (\<lambda>x. (i, x, t)) fs
     \<and> sent_as p p h (unat (mtu (if_device (l3_interfaces st ! i))) - 20) fs)"

lemma SendRealOut_ok:
  assumes dev: "l3_reverse st (rt_outputDevice rt) = Some i" "i < length (l3_interfaces st)" and mtu: "mtu_ok mtu st"
    and pc: "piece S p (ip_fragmentOffset h) (\<not> ip_IsLastFragment h)" "length S \<le> 65535"
    and h: "ip_fragmentOffset h AND 0x7 = 0" "ip_headerSize h = 20" "unat (ip_payloadSize h) = length p"
    and fuel: "length p < fuel"
  shows "if if_ifup (l3_interfaces st ! i)
    then \<exists>fs. l3_SendRealOut fuel ck mtu st (Some rt) p h s =
        FragDone (s\<lparr>sn_out := sn_out s @ map (\<lambda>x. (i, x, next_hop rt h)) fs\<rparr>)
      \<and> sent_as S p h (unat (mtu (if_device (l3_interfaces st ! i))) - 20) fs
    else l3_SendRealOut fuel ck mtu st (Some rt) p h s = FragDone s"
proof -
  let ?f = "l3_interfaces st ! i"
  let ?m = "mtu (if_device ?f)"
  have len: "length p \<le> 65535" using pc by (simp add: piece_def)
  have m: "unat (ucast ?m :: u32) = unat ?m" 
    using unat_u16_bound [of ?m] by (simp add: unsigned_ucast_eq take_bit_nat_eq_self_iff)
  have big: "of_nat (length p) + of_nat (ip_GetSerializedSize h) > (ucast ?m :: u32) \<longleftrightarrow> unat ?m < length p + 20"
  proof -
    have "(of_nat (length p) + of_nat 20 :: u32) = of_nat (length p + 20)" by simp
    moreover have "unat (of_nat (length p + 20) :: u32) = length p + 20"
      using len by (simp add: unat_of_nat del: of_nat_add)
    ultimately show ?thesis using h(2) m by (simp add: ip_GetSerializedSize_def word_less_nat_alt)
  qed
  have target: "(if addr_IsAny (rt_gateway rt) then ip_destination h else rt_gateway rt) = next_hop rt h"
    by (simp add: next_hop_def addr_IsAny_def)
  show ?thesis
  proof (cases "if_ifup ?f")
    case False
    then show ?thesis using dev
      by (simp add: l3_SendRealOut_def or_abort_def l3_GetInterfaceForDevice_def l3_GetInterface_def Let_def)
  next
    case up: True
    have m68: "68 \<le> unat ?m" using mtu up nth_mem [OF dev(2)] by (auto simp: mtu_ok_def word_le_nat_alt)
    show ?thesis
    proof (cases "unat ?m < length p + 20")
      case False
      have "frag_of S h (unat ?m - 20) (p, h)" using pc h False by (simp add: frag_of_def)
      then have "sent_as S p h (unat ?m - 20) [(p, h)]" by (simp add: sent_as_def)
      moreover have "l3_SendRealOut fuel ck mtu st (Some rt) p h s =
          FragDone (s\<lparr>sn_out := sn_out s @ map (\<lambda>x. (i, x, next_hop rt h)) [(p, h)]\<rparr>)"
        using dev up False big by (simp add: l3_SendRealOut_def or_abort_def l3_GetInterfaceForDevice_def
            l3_GetInterface_def Let_def target del: of_nat_add)
      ultimately show ?thesis unfolding if_P [OF up] by blast
    next
      case True
      have "28 \<le> unat (ucast ?m :: u32)" "unat (ucast ?m :: u32) \<le> 65535" using m m68 unat_u16_bound [of ?m] by simp_all
      from l3_DoFragmentation_ok [OF pc h(1,2) this fuel, of ck] obtain fs where
        fs: "l3_DoFragmentation fuel ck p h (ucast ?m) = FragDone fs" and ok: "concat (map fst fs) = p"
          "contiguous (unat (ip_fragmentOffset h)) fs" "\<forall>x \<in> set fs. frag_of S h (unat ?m - 20) x"
          "p \<noteq> [] \<longrightarrow> (\<forall>x \<in> set fs. fst x \<noteq> [])" "fs \<noteq> []"
        unfolding m by blast
      have "ip_calcChecksum h \<longrightarrow> ip_calcChecksum (snd x)" "ip_flags h AND 4 = 0 \<longrightarrow> ip_flags (snd x) AND 4 = 0"
        if "x \<in> set fs" for x using DoFragmentation_header [OF fs that] frag_header_kept(2,3) by blast+
      then have ok: "sent_as S p h (unat ?m - 20) fs" using ok unfolding sent_as_def by blast
      from fs have "l3_SendRealOut fuel ck mtu st (Some rt) p h s =
          FragDone (s\<lparr>sn_out := sn_out s @ map (\<lambda>x. (i, x, next_hop rt h)) fs\<rparr>)"
        using dev up True big by (simp add: l3_SendRealOut_def or_abort_def l3_GetInterfaceForDevice_def
            l3_GetInterface_def Let_def target del: of_nat_add)
      then show ?thesis unfolding if_P [OF up] using ok by blast
    qed
  qed
qed

section \<open>Sending\<close>

text \<open>The header that \<^verbatim>\<open>Send\<close> builds for a packet with identification \<open>n\<close>.\<close>

definition header_of :: "bool \<Rightarrow> u8 \<Rightarrow> send_args \<Rightarrow> u16 \<Rightarrow> ipv4_header" where
  "header_of ck defaultTtl a n = (let h = Ipv4Header_init\<lparr>ip_source := sa_source a, ip_destination := sa_destination a,
     ip_protocol := sa_protocol a, ip_payloadSize := of_nat (length (sa_packet a)), ip_identification := n,
     ip_ttl := (case sa_ttlTag a of Some t \<Rightarrow> t | None \<Rightarrow> defaultTtl), ip_tos := (case sa_tosTag a of Some t \<Rightarrow> t | None \<Rightarrow> 0)\<rparr>
     in h\<lparr>ip_calcChecksum := ck\<rparr>)"

definition sa_key :: "send_args \<Rightarrow> u64 \<times> u8" where
  "sa_key a = id_key (sa_source a) (sa_destination a) (sa_protocol a)"

lemma send_header_eq: "send_header ck ttl a s = (header_of ck ttl a (sn_identification s (sa_key a)),
  s\<lparr>sn_identification := (sn_identification s)(sa_key a := sn_identification s (sa_key a) + 1)\<rparr>)"
  by (simp add: send_header_def l3_BuildHeader_def header_of_def sa_key_def Let_def ip_SetTos_def ip_SetTtl_def
      ip_SetPayloadSize_def ip_SetProtocol_def ip_SetDestination_def ip_SetSource_def ip_SetIdentification_def
      ip_SetMayFragment_def ip_EnableChecksum_def Ipv4Header_init_def)

lemma header_of_fields [simp]:
  "ip_fragmentOffset (header_of ck ttl a n) = 0" "ip_headerSize (header_of ck ttl a n) = 20"
  "ip_identification (header_of ck ttl a n) = n" "ip_payloadSize (header_of ck ttl a n) = of_nat (length (sa_packet a))"
  "ip_destination (header_of ck ttl a n) = sa_destination a" "ip_source (header_of ck ttl a n) = sa_source a"
  "ip_protocol (header_of ck ttl a n) = sa_protocol a" "ip_flags (header_of ck ttl a n) = 0"
  by (simp_all add: header_of_def Let_def Ipv4Header_init_def)

lemma header_of_last [simp]: "ip_IsLastFragment (header_of ck ttl a n)"
  by (simp add: ip_IsLastFragment_def)

text \<open>
  The packet is handed to interface \<open>i\<close>: all of it when the interface is up, nothing otherwise.
\<close>

definition handed_to :: "(ptr \<Rightarrow> u16) \<Rightarrow> l3_ifs \<Rightarrow> nat \<Rightarrow> u32 \<Rightarrow> u8 list \<Rightarrow> ipv4_header \<Rightarrow> (nat \<times> ip_packet \<times> u32) list \<Rightarrow> bool" where
  "handed_to mtu st i t p h outs \<longleftrightarrow> i < length (l3_interfaces st)
     \<and> (if if_ifup (l3_interfaces st ! i) then sent_over mtu st i t p h outs else outs = [])"

lemma Send_route_ok:
  assumes dev: "l3_reverse st (rt_outputDevice rt) = Some i" "i < length (l3_interfaces st)" and mtu: "mtu_ok mtu st"
    and gw: "rt_gatewaySet rt" and len: "length (sa_packet a) \<le> 65535" "length (sa_packet a) < fuel"
    and n: "n = sn_identification s (sa_key a)"
  shows "\<exists>outs. l3_Send_route fuel ck ttl mtu st a rt s =
      FragDone (s\<lparr>sn_identification := (sn_identification s)(sa_key a := n + 1), sn_out := sn_out s @ outs\<rparr>)
    \<and> handed_to mtu st i (next_hop rt (header_of ck ttl a n)) (sa_packet a) (header_of ck ttl a n) outs"
proof -
  let ?h = "header_of ck ttl a n"
  have pc: "piece (sa_packet a) (sa_packet a) (ip_fragmentOffset ?h) (\<not> ip_IsLastFragment ?h)" by (simp add: piece_def)
  have ps: "unat (ip_payloadSize ?h) = length (sa_packet a)" using len(1) by (simp add: unat_of_nat)
  let ?s = "s\<lparr>sn_identification := (sn_identification s)(sa_key a := n + 1)\<rparr>"
  have e: "l3_Send_route fuel ck ttl mtu st a rt s = l3_SendRealOut fuel ck mtu st (Some rt) (sa_packet a) ?h ?s"
    using gw by (simp add: l3_Send_route_def send_header_eq n)
  have *: "if if_ifup (l3_interfaces st ! i)
    then \<exists>fs. l3_SendRealOut fuel ck mtu st (Some rt) (sa_packet a) ?h ?s =
        FragDone (?s\<lparr>sn_out := sn_out ?s @ map (\<lambda>x. (i, x, next_hop rt ?h)) fs\<rparr>)
      \<and> sent_as (sa_packet a) (sa_packet a) ?h (unat (mtu (if_device (l3_interfaces st ! i))) - 20) fs
    else l3_SendRealOut fuel ck mtu st (Some rt) (sa_packet a) ?h ?s = FragDone ?s"
    using len ps by (intro SendRealOut_ok [OF dev mtu pc]) simp_all
  show ?thesis
  proof (cases "if_ifup (l3_interfaces st ! i)")
    case True
    then obtain fs where fs: "l3_SendRealOut fuel ck mtu st (Some rt) (sa_packet a) ?h ?s =
        FragDone (?s\<lparr>sn_out := sn_out ?s @ map (\<lambda>x. (i, x, next_hop rt ?h)) fs\<rparr>)"
      "sent_as (sa_packet a) (sa_packet a) ?h (unat (mtu (if_device (l3_interfaces st ! i))) - 20) fs" using * by auto
    let ?o = "map (\<lambda>x. (i, x, next_hop rt ?h)) fs"
    have "sent_over mtu st i (next_hop rt ?h) (sa_packet a) ?h ?o" using fs(2) unfolding sent_over_def by blast
    then show ?thesis using e fs(1) True dev(2) by (intro exI [of _ ?o]) (auto simp: handed_to_def)
  next
    case False
    then show ?thesis using e * dev(2) by (intro exI [of _ "[]"]) (simp add: handed_to_def)
  qed
qed

text \<open>After the header was built once, the identification is taken back and given out again.\<close>

lemma resend_ok:
  assumes dev: "l3_reverse st (rt_outputDevice rt) = Some i" "i < length (l3_interfaces st)" and mtu: "mtu_ok mtu st"
    and gw: "rt_gatewaySet rt" and len: "length (sa_packet a) \<le> 65535" "length (sa_packet a) < fuel"
    and n: "sn_identification s (sa_key a) = n + 1"
  shows "\<exists>outs. l3_resend fuel ck ttl mtu st a rt s = FragDone (s\<lparr>sn_out := sn_out s @ outs\<rparr>)
    \<and> handed_to mtu st i (next_hop rt (header_of ck ttl a n)) (sa_packet a) (header_of ck ttl a n) outs"
proof -
  let ?s = "l3_DecreaseIdentification (sa_source a) (sa_destination a) (sa_protocol a) s"
  have s: "?s = s\<lparr>sn_identification := (sn_identification s)(sa_key a := n)\<rparr>"
    by (simp add: l3_DecreaseIdentification_def Let_def n flip: sa_key_def)
  have "n = sn_identification ?s (sa_key a)" by (simp add: s)
  from Send_route_ok [OF dev mtu gw len this, of ck ttl]
  have "\<exists>outs. l3_Send_route fuel ck ttl mtu st a rt ?s = FragDone (?s\<lparr>sn_identification :=
        (sn_identification ?s)(sa_key a := n + 1), sn_out := sn_out ?s @ outs\<rparr>)
    \<and> handed_to mtu st i (next_hop rt (header_of ck ttl a n)) (sa_packet a) (header_of ck ttl a n) outs" .
  moreover have "?s\<lparr>sn_identification := (sn_identification ?s)(sa_key a := n + 1), sn_out := sn_out ?s @ outs\<rparr>
      = s\<lparr>sn_out := sn_out s @ outs\<rparr>" for outs
  proof -
    have "(sn_identification s)(sa_key a := n + 1) = sn_identification s" using n by auto
    then show ?thesis by (simp add: s)
  qed
  ultimately show ?thesis unfolding l3_resend_def by simp
qed

text \<open>
  A broadcast goes to the interfaces \<open>sends_on\<close>: all of them for the source \<^verbatim>\<open>0.0.0.0\<close>, otherwise those
  that have the source among their addresses.  The first of them gets the packet with its tags, the
  others without.
\<close>

definition sends_on :: "send_args \<Rightarrow> ipv4_interface \<Rightarrow> bool" where
  "sends_on a f \<longleftrightarrow> sa_source a = 0 \<or> sa_source a \<in> ia_local ` set (if_ifaddrs f)"

definition copy_args :: "l3_ifs \<Rightarrow> send_args \<Rightarrow> nat \<Rightarrow> send_args" where
  "copy_args st a i = (if \<exists>j < i. sends_on a (l3_interfaces st ! j) then sa_untag a else a)"

definition broadcast_out :: "(ptr \<Rightarrow> u16) \<Rightarrow> l3_ifs \<Rightarrow> bool \<Rightarrow> u8 \<Rightarrow> send_args \<Rightarrow> u16 \<Rightarrow> nat \<Rightarrow> (nat \<times> ip_packet \<times> u32) list \<Rightarrow> bool" where
  "broadcast_out mtu st ck ttl a n i outs \<longleftrightarrow> (if sends_on a (l3_interfaces st ! i)
     then handed_to mtu st i (sa_destination a) (sa_packet a) (header_of ck ttl (copy_args st a i) n) outs
     else outs = [])"

lemma sends_on_eq: "addr_IsAny (sa_source a) \<or> list_ex (\<lambda>x. ia_local x = sa_source a) (if_ifaddrs f) \<longleftrightarrow> sends_on a f"
  by (auto simp: sends_on_def addr_IsAny_def list_ex_iff) (metis imageI)

lemma untag_fields [simp]:
  "sa_packet (sa_untag a) = sa_packet a" "sa_source (sa_untag a) = sa_source a" "sa_destination (sa_untag a) = sa_destination a"
  "sa_protocol (sa_untag a) = sa_protocol a" "sa_key (sa_untag a) = sa_key a" "sa_untag (sa_untag a) = sa_untag a"
  "sends_on (sa_untag a) f = sends_on a f" "proxy_route (sa_untag a) d = proxy_route a d"
  by (simp_all add: sa_untag_def sa_key_def sends_on_def proxy_route_def)

lemma copy_args_fields [simp]:
  "sa_packet (copy_args st a i) = sa_packet a" "sa_source (copy_args st a i) = sa_source a"
  "sa_destination (copy_args st a i) = sa_destination a" "sa_protocol (copy_args st a i) = sa_protocol a"
  "sa_key (copy_args st a i) = sa_key a" "sends_on (copy_args st a i) f = sends_on a f"
  "proxy_route (copy_args st a i) d = proxy_route a d"
  by (simp_all add: copy_args_def)

lemma copy_args_Suc: "copy_args st a (Suc k) = (if sends_on a (l3_interfaces st ! k) then sa_untag (copy_args st a k) else copy_args st a k)"
  by (auto simp: copy_args_def less_Suc_eq)

lemma next_hop_proxy [simp]: "next_hop (proxy_route a d) h = ip_destination h"
  by (simp add: next_hop_def proxy_route_def addr_GetAny_def)

lemma broadcast_ok:
  assumes ok: "ifs_ok st" "mtu_ok mtu st" and len: "length (sa_packet a) \<le> 65535" "length (sa_packet a) < fuel"
    and n: "sn_identification s (sa_key a) = n + 1" and k: "fs = drop k (l3_interfaces st)"
  shows "\<exists>os. send_broadcast fuel ck ttl mtu st (copy_args st a k) fs s = FragDone (s\<lparr>sn_out := sn_out s @ concat os\<rparr>)
    \<and> length os = length fs \<and> (\<forall>j < length fs. broadcast_out mtu st ck ttl a n (k + j) (os ! j))"
  using n k
proof (induction fs arbitrary: k s)
  case Nil
  then show ?case by (intro exI [of _ "[]"]) simp
next
  case (Cons f fs)
  have kl: "k < length (l3_interfaces st)" using Cons.prems(2) by (metis drop_eq_Nil leI list.distinct(1))
  then have f: "f = l3_interfaces st ! k" "fs = drop (Suc k) (l3_interfaces st)"
    using Cons.prems(2) by (simp_all add: Cons_nth_drop_Suc [symmetric])
  have head: "\<exists>xs. broadcast_out mtu st ck ttl a n k xs \<and> send_broadcast fuel ck ttl mtu st (copy_args st a k) (f # fs) s
      = send_broadcast fuel ck ttl mtu st (copy_args st a (Suc k)) fs (s\<lparr>sn_out := sn_out s @ xs\<rparr>)"
  proof (cases "sends_on a f")
    case True
    let ?rt = "proxy_route a (if_device f)"
    have "l3_reverse st (rt_outputDevice ?rt) = Some k" "rt_gatewaySet ?rt"
      using ok(1) kl f(1) by (simp_all add: ifs_ok_def proxy_route_def)
    then obtain xs where "l3_resend fuel ck ttl mtu st (copy_args st a k) ?rt s = FragDone (s\<lparr>sn_out := sn_out s @ xs\<rparr>)"
      "handed_to mtu st k (sa_destination a) (sa_packet a) (header_of ck ttl (copy_args st a k) n) xs"
      using resend_ok [OF _ kl ok(2), of ?rt "copy_args st a k" fuel s n ck ttl] len Cons.prems(1) by auto
    then show ?thesis using True f(1)
      by (intro exI [of _ xs]) (simp add: broadcast_out_def copy_args_Suc sends_on_eq)
  next
    case False
    then show ?thesis using f(1)
      by (intro exI [of _ "[]"]) (simp add: broadcast_out_def copy_args_Suc sends_on_eq)
  qed
  then obtain xs where xs: "broadcast_out mtu st ck ttl a n k xs" "send_broadcast fuel ck ttl mtu st (copy_args st a k) (f # fs) s
      = send_broadcast fuel ck ttl mtu st (copy_args st a (Suc k)) fs (s\<lparr>sn_out := sn_out s @ xs\<rparr>)" by blast
  have "sn_identification (s\<lparr>sn_out := sn_out s @ xs\<rparr>) (sa_key a) = n + 1" using Cons.prems(1) by simp
  from Cons.IH [OF this f(2)] obtain os where
    os: "send_broadcast fuel ck ttl mtu st (copy_args st a (Suc k)) fs (s\<lparr>sn_out := sn_out s @ xs\<rparr>)
        = FragDone (s\<lparr>sn_out := sn_out s @ xs @ concat os\<rparr>)"
      "length os = length fs" "\<forall>j < length fs. broadcast_out mtu st ck ttl a n (Suc k + j) (os ! j)" by auto
  then have "broadcast_out mtu st ck ttl a n (k + j) ((xs # os) ! j)" if "j < length (f # fs)" for j
    using that xs(1) by (cases j) auto
  then show ?case using xs(2) os(1,2) by (intro exI [of _ "xs # os"]) (simp del: send_broadcast.simps)
qed

text \<open>The interface for one of whose networks the destination is the directed broadcast address.\<close>

definition directed :: "u32 \<Rightarrow> ipv4_interface \<Rightarrow> bool" where
  "directed dest f \<longleftrightarrow> (\<exists>x \<in> set (if_ifaddrs f). addr_IsSubnetDirectedBroadcast (ia_mask x) dest
     \<and> addr_CombineMask (ia_mask x) dest = addr_CombineMask (ia_mask x) (ia_local x))"

lemma subnet_broadcast_find:
  assumes "ifs_ok st" and "set fs \<subseteq> set (l3_interfaces st)"
  shows "subnet_broadcast st dest fs = Some (map_option if_device (find (directed dest) fs))"
  using assms(2)
proof (induction fs)
  case (Cons f fs)
  then obtain i where i: "i < length (l3_interfaces st)" "f = l3_interfaces st ! i" by (auto simp: in_set_conv_nth)
  then have "l3_reverse st (if_device f) = Some i" using assms(1) by (simp add: ifs_ok_def)
  then show ?case using Cons i
    by (auto simp: l3_GetInterfaceForDevice_def l3_GetInterface_def directed_def list_ex_iff)
qed simp

text \<open>
  What \<^verbatim>\<open>Send\<close> without a route does with a packet whose flow has the identification \<open>n\<close>: to every
  interface \<open>os\<close>, in their order, for a broadcast; over the interface of the network for a directed
  broadcast; over the route otherwise.  \<open>n'\<close> is the next identification of the flow.
\<close>

definition send_outcome :: "(l3_ifs \<Rightarrow> u32 \<Rightarrow> ptr \<Rightarrow> (ipv4_route option \<times> sock_errno) option) \<Rightarrow> bool \<Rightarrow> u8 \<Rightarrow> (ptr \<Rightarrow> u16)
    \<Rightarrow> l3_ifs \<Rightarrow> send_args \<Rightarrow> u16 \<Rightarrow> (nat \<times> ip_packet \<times> u32) list \<Rightarrow> (drop_reason \<times> ip_packet \<times> nat) list \<Rightarrow> u16 \<Rightarrow> bool" where
  "send_outcome ro ck ttl mtu st a n outs drops n' \<longleftrightarrow>
     (if addr_IsBroadcast (sa_destination a) \<or> addr_IsLocalMulticast (sa_destination a)
      then drops = [] \<and> n' = n + 1 \<and> (\<exists>os. outs = concat os \<and> length os = length (l3_interfaces st)
        \<and> (\<forall>i < length (l3_interfaces st). broadcast_out mtu st ck ttl a n i (os ! i)))
      else case find (directed (sa_destination a)) (l3_interfaces st) of
        Some f \<Rightarrow> drops = [] \<and> n' = n + 1 \<and> (\<exists>i. l3_reverse st (if_device f) = Some i
          \<and> handed_to mtu st i (sa_destination a) (sa_packet a) (header_of ck ttl a n) outs)
      | None \<Rightarrow> (case ro st (sa_destination a) nullptr of
          Some (Some rt, _) \<Rightarrow> drops = [] \<and> n' = n + 1 \<and> (\<exists>i. l3_reverse st (rt_outputDevice rt) = Some i
            \<and> handed_to mtu st i (next_hop rt (header_of ck ttl a n)) (sa_packet a) (header_of ck ttl a n) outs)
        | _ \<Rightarrow> outs = [] \<and> n' = n \<and> drops = [(DROP_NO_ROUTE, (sa_packet a, header_of ck ttl a n), 0)]))"

text \<open>
  The interface \<^verbatim>\<open>Ipv4RoutingProtocol\<close>: an answer is always given, and a route that is found has
  a gateway and leads over a device of the node.
\<close>

locale ipv4_routing =
  fixes ro :: "'r \<Rightarrow> l3_ifs \<Rightarrow> u32 \<Rightarrow> ptr \<Rightarrow> (ipv4_route option \<times> sock_errno) option"
    and ok :: "'r \<Rightarrow> l3_ifs \<Rightarrow> bool"
  assumes ok_ifs: "ok r st \<Longrightarrow> ifs_ok st"
    and answers: "ok r st \<Longrightarrow> \<not> addr_IsLocalMulticast dest \<Longrightarrow> \<exists>x e. ro r st dest nullptr = Some (x, e)
      \<and> (\<forall>rt. x = Some rt \<longrightarrow> rt_gatewaySet rt \<and> l3_reverse st (rt_outputDevice rt) \<noteq> None)"
begin

lemma known_device:
  assumes "ok r st" and "l3_reverse st d = Some i"
  shows "i < length (l3_interfaces st)"
  using ok_ifs [OF assms(1)] assms(2) by (simp add: ifs_ok_def)

lemma send_done:
  assumes ok: "ok r st" "mtu_ok mtu st" and len: "length (sa_packet a) \<le> 65535" "length (sa_packet a) < fuel"
    and n: "n = sn_identification s (sa_key a)"
  shows "\<exists>outs drops n'. l3_Send (ro r) fuel ck ttl mtu st a None s =
      FragDone (s\<lparr>sn_identification := (sn_identification s)(sa_key a := n'), sn_out := sn_out s @ outs,
        sn_drop := sn_drop s @ drops\<rparr>)
    \<and> send_outcome (ro r) ck ttl mtu st a n outs drops n'"
    (is "\<exists>outs drops n'. ?Q outs drops n'")
proof -
  let ?h = "header_of ck ttl a n" and ?d = "sa_destination a"
  define s1 where "s1 = s\<lparr>sn_identification := (sn_identification s)(sa_key a := n + 1)\<rparr>"
  have n1: "sn_identification s1 (sa_key a) = n + 1" by (simp add: s1_def)
  have hd: "send_header ck ttl a s = (?h, s1)" by (simp add: send_header_eq n s1_def)
  note find = subnet_broadcast_find [OF ok_ifs [OF ok(1)] order_refl, of ?d]
  consider (broadcast) "addr_IsBroadcast ?d \<or> addr_IsLocalMulticast ?d"
    | (directed) f where "\<not> addr_IsBroadcast ?d" "\<not> addr_IsLocalMulticast ?d" "find (directed ?d) (l3_interfaces st) = Some f"
    | (unicast) "\<not> addr_IsBroadcast ?d" "\<not> addr_IsLocalMulticast ?d" "find (directed ?d) (l3_interfaces st) = None" by auto
  then show ?thesis
  proof cases
    case broadcast
    have "copy_args st a 0 = a" by (simp add: copy_args_def)
    then obtain os where "send_broadcast fuel ck ttl mtu st a (l3_interfaces st) s1 = FragDone (s1\<lparr>sn_out := sn_out s1 @ concat os\<rparr>)"
      "length os = length (l3_interfaces st)" "\<forall>j < length (l3_interfaces st). broadcast_out mtu st ck ttl a n j (os ! j)"
      using broadcast_ok [OF ok_ifs [OF ok(1)] ok(2) len n1, of "l3_interfaces st" 0 ck ttl] by auto
    then have "?Q (concat os) [] (n + 1)" using broadcast hd by (auto simp: l3_Send_def s1_def send_outcome_def)
    then show ?thesis by blast
  next
    case directed
    have "f \<in> set (l3_interfaces st)" using directed(3) by (auto simp: find_Some_iff in_set_conv_nth)
    then obtain i where i: "i < length (l3_interfaces st)" "l3_reverse st (rt_outputDevice (proxy_route a (if_device f))) = Some i"
      "rt_gatewaySet (proxy_route a (if_device f))"
      using ok_ifs [OF ok(1)] by (auto simp: ifs_ok_def proxy_route_def in_set_conv_nth)
    obtain outs where "l3_resend fuel ck ttl mtu st a (proxy_route a (if_device f)) s1 = FragDone (s1\<lparr>sn_out := sn_out s1 @ outs\<rparr>)"
      "handed_to mtu st i ?d (sa_packet a) ?h outs" using resend_ok [OF i(2,1) ok(2) i(3) len n1, of ck ttl] by auto
    then have "?Q outs [] (n + 1)"
      using directed hd find i(2) by (auto simp: l3_Send_def s1_def or_abort_def send_outcome_def proxy_route_def)
    then show ?thesis by blast
  next
    case unicast
    obtain y e where y: "ro r st ?d nullptr = Some (y, e)"
      "\<And>rt. y = Some rt \<Longrightarrow> rt_gatewaySet rt \<and> l3_reverse st (rt_outputDevice rt) \<noteq> None"
      using answers [OF ok(1) unicast(2)] by blast
    show ?thesis
    proof (cases y)
      case None
      have "?Q [] [(DROP_NO_ROUTE, (sa_packet a, ?h), 0)] n"
        using unicast hd find y(1) None n
        by (simp add: l3_Send_def or_abort_def l3_DecreaseIdentification_def s1_def Let_def send_outcome_def flip: sa_key_def)
      then show ?thesis by blast
    next
      case (Some rt)
      then obtain i where i: "l3_reverse st (rt_outputDevice rt) = Some i" "rt_gatewaySet rt" using y(2) by blast
      obtain outs where "l3_resend fuel ck ttl mtu st a rt s1 = FragDone (s1\<lparr>sn_out := sn_out s1 @ outs\<rparr>)"
        "handed_to mtu st i (next_hop rt ?h) (sa_packet a) ?h outs"
        using resend_ok [OF i(1) known_device [OF ok(1) i(1)] ok(2) i(2) len n1, of ck ttl] by blast
      then have "?Q outs [] (n + 1)"
        using unicast hd find y(1) Some i(1) by (simp add: l3_Send_def s1_def or_abort_def send_outcome_def)
      then show ?thesis by blast
    qed
  qed
qed

end

section \<open>Static routing as the routing protocol\<close>

definition gateways_set :: "static_routing \<Rightarrow> bool" where
  "gateways_set sr \<longleftrightarrow> list_all (\<lambda>c. rte_gatewaySet (fst c)) (sr_networkRoutes sr)"

lemma RouteOutput_ok:
  assumes "ifs_ok st" and "routes_ok st sr" and "gateways_set sr" and "\<not> addr_IsLocalMulticast dest"
  shows "\<exists>x e. sr_RouteOutput st dest oif sr = Some (x, e)
    \<and> (\<forall>rt. x = Some rt \<longrightarrow> rt_gatewaySet rt \<and> l3_reverse st (rt_outputDevice rt) \<noteq> None)"
proof -
  let ?cs = "filter (candidate st dest oif) (sr_networkRoutes sr)"
  note lookup = LookupStatic_best [OF assms(2,4), of oif]
  show ?thesis
  proof (cases "best_route ?cs")
    case None
    then show ?thesis using lookup by (simp add: sr_RouteOutput_def)
  next
    case (Some c)
    have c: "c \<in> set (sr_networkRoutes sr)" using best_route_in [OF Some] by simp
    then have "usable st (rte_interface (fst c))" "rte_gatewaySet (fst c)"
      using assms(2,3) by (simp_all add: routes_ok_def gateways_set_def list_all_iff)
    then obtain rt where rt: "route_via st (fst c) = Some rt" "rt_gatewaySet rt"
      "l3_GetNetDevice (rte_interface (fst c)) st = Some (rt_outputDevice rt)"
      using route_via_ok [of st "fst c"] by auto
    moreover have "l3_reverse st (rt_outputDevice rt) \<noteq> None"
      using ifs_ok_device [OF assms(1) rt(3)] by (simp add: l3_GetInterfaceForDevice_def)
    ultimately show ?thesis using lookup Some by (simp add: sr_RouteOutput_def)
  qed
qed

interpretation static: ipv4_routing "\<lambda>sr st dest oif. sr_RouteOutput st dest oif sr"
  "\<lambda>sr st. ifs_ok st \<and> routes_ok st sr \<and> gateways_set sr"
  by unfold_locales (use RouteOutput_ok in \<open>auto\<close>)

text \<open>
  C16: what becomes of a packet that is sent without a route.  On a node in any reachable
  configuration, whose routes have gateways that are set, \<^verbatim>\<open>Send\<close> ends for every packet of at
  most 65535 bytes, every destination and every pair of tags.  A limited broadcast or a link-local
  multicast packet goes to every interface that is up and selected by the source, as the whole packet or
  as fragments that fit the MTU and make up the packet; the first selected interface gets it with the
  TTL and the TOS of the tags, the following ones with the default TTL and TOS 0.  A directed
  broadcast goes over the interface of its network, and any other packet over the interface of its
  route to the gateway, or to the destination when there is none, with the tags respected; nothing is
  handed out when that interface is down.  In these cases all copies carry the old identification of the
  flow and it advances by one.  When there is no route, the packet is dropped and the identification
  stays free.
\<close>

theorem send_complete:
  assumes "node_reach mtu nd" and "gateways_set (nd_routing nd)" and "length (sa_packet a) \<le> 65535"
  shows "\<exists>outs drops n'. l3_Send (\<lambda>st dest oif. sr_RouteOutput st dest oif (nd_routing nd)) (Suc (length (sa_packet a)))
        ck ttl mtu (nd_ifs nd) a None s =
      FragDone (s\<lparr>sn_identification := (sn_identification s)(sa_key a := n'), sn_out := sn_out s @ outs,
        sn_drop := sn_drop s @ drops\<rparr>)
    \<and> send_outcome (\<lambda>st dest oif. sr_RouteOutput st dest oif (nd_routing nd)) ck ttl mtu (nd_ifs nd) a
        (sn_identification s (sa_key a)) outs drops n'"
proof -
  have "ifs_ok (nd_ifs nd) \<and> routes_ok (nd_ifs nd) (nd_routing nd) \<and> gateways_set (nd_routing nd)"
    using node_reach_inv [OF assms(1)] assms(2) by simp
  from static.send_done [OF this node_reach_inv(2) [OF assms(1)] assms(3) lessI refl, where s = s and ck = ck and ttl = ttl] show ?thesis .
qed

section \<open>Forwarding\<close>

text \<open>Whatever the state of the node is, the interfaces get the TTL of the header.\<close>

lemma SendRealOut_ttl:
  assumes "l3_SendRealOut fuel ck mtu st (Some rt) p h s = FragDone s'"
  shows "\<exists>outs. sn_out s' = sn_out s @ outs \<and> (\<forall>x \<in> set outs. ip_ttl (snd (fst (snd x))) = ip_ttl h)"
proof -
  obtain i where i: "l3_GetInterfaceForDevice (rt_outputDevice rt) st = Some i"
    using assms by (cases "l3_GetInterfaceForDevice (rt_outputDevice rt) st") (auto simp: l3_SendRealOut_def or_abort_def)
  obtain f where f: "l3_GetInterface i st = Some f"
    using assms i by (cases "l3_GetInterface i st") (auto simp: l3_SendRealOut_def or_abort_def)
  let ?t = "if addr_IsAny (rt_gateway rt) then ip_destination h else rt_gateway rt"
  let ?big = "of_nat (length p) + of_nat (ip_GetSerializedSize h) > (ucast (mtu (if_device f)) :: u32)"
  have s': "FragDone s' = (if if_ifup f then if ?big
      then frag_bind (l3_DoFragmentation fuel ck p h (ucast (mtu (if_device f))))
        (\<lambda>fs. FragDone (s\<lparr>sn_out := sn_out s @ map (\<lambda>x. (i, x, ?t)) fs\<rparr>))
      else FragDone (s\<lparr>sn_out := sn_out s @ [(i, (p, h), ?t)]\<rparr>) else FragDone s)"
    using assms i f by (simp only: l3_SendRealOut_def or_abort_def option.case Let_def)
  show ?thesis
  proof (cases "if_ifup f \<and> ?big")
    case True
    obtain fs where fs: "l3_DoFragmentation fuel ck p h (ucast (mtu (if_device f))) = FragDone fs"
      using s' True by (cases "l3_DoFragmentation fuel ck p h (ucast (mtu (if_device f)))") auto
    have "ip_ttl (snd x) = ip_ttl h" if "x \<in> set fs" for x
      using DoFragmentation_header [OF fs that] frag_header_kept(1) by blast
    then show ?thesis using s' True fs by (intro exI [of _ "map (\<lambda>x. (i, x, ?t)) fs"]) auto
  next
    case False
    then show ?thesis using s' by (intro exI [of _ "if if_ifup f then [(i, (p, h), ?t)] else []"]) (auto split: if_splits)
  qed
qed

text \<open>
  One hop: some node, in whatever state, forwards a packet, and the next node reads one of the
  packets that were handed out.
\<close>

inductive hop :: "ip_packet \<Rightarrow> ip_packet \<Rightarrow> bool" where
  hop: "l3_IpForward fuel ck mtu st rt p h s = FragDone s' \<Longrightarrow> sn_out s' = sn_out s @ outs
    \<Longrightarrow> (i, (p', h'), t) \<in> set outs \<Longrightarrow> hop (p, h) (p', ip_result h' r)"

lemma hop_ttl:
  assumes "hop x y"
  shows "ip_ttl (snd x) \<noteq> 1 \<and> ip_ttl (snd y) = ip_ttl (snd x) - 1"
  using assms
proof cases
  case (hop fuel ck mtu st rt p h s s' outs i p' h' t r)
  have "ip_ttl h \<noteq> 1"
  proof
    assume "ip_ttl h = 1"
    then have "sn_out s' = sn_out s" using hop(3) by (auto simp: l3_IpForward_def ip_SetTtl_def Let_def split: if_splits)
    then show False using hop(4,5) by simp
  qed
  then have "l3_SendRealOut fuel ck mtu st (Some rt) p (ip_SetTtl (ip_ttl h - 1) h) s = FragDone s'"
    using hop(3) by (auto simp: l3_IpForward_def ip_SetTtl_def Let_def split: if_splits)
  from SendRealOut_ttl [OF this] have "ip_ttl h' = ip_ttl h - 1" using hop(4,5) by (force simp: ip_SetTtl_def)
  then show ?thesis using hop(1,2) \<open>ip_ttl h \<noteq> 1\<close> by (simp add: ip_result_def)
qed

text \<open>
  C23: packets do not circulate for ever.  A packet with a TTL of at least one is forwarded less
  often than its TTL says, whatever the routing tables of the nodes are: every hop lowers the
  TTL by one, and a packet with a TTL of one is not handed out again.
\<close>

theorem ttl_bounds_hops:
  assumes "(hop ^^ n) x y" and "1 \<le> ip_ttl (snd x)"
  shows "n < unat (ip_ttl (snd x)) \<and> unat (ip_ttl (snd y)) = unat (ip_ttl (snd x)) - n"
  using assms(1)
proof (induction n arbitrary: y)
  case 0
  then show ?case using assms(2) by (simp add: word_le_nat_alt)
next
  case (Suc n)
  then obtain z where z: "(hop ^^ n) x z" "hop z y" by auto
  note IH = Suc.IH [OF z(1)] and h = hop_ttl [OF z(2)]
  have "unat (ip_ttl (snd z)) \<noteq> 1" using h by (metis unat_1 word_unat_eq_iff)
  moreover have "unat (ip_ttl (snd y)) = unat (ip_ttl (snd z)) - 1"
    using IH h unat_minus_no_wrap [of 1 "ip_ttl (snd z)"] by (simp add: Suc_le_eq)
  ultimately show ?case using IH by linarith
qed

text \<open>
  A packet that arrives with a TTL of zero is not dropped.  The TTL wraps around, and the
  packet is sent on with a TTL of 255.
\<close>

theorem ttl_zero_revived:
  assumes "l3_reverse st (rt_outputDevice rt) = Some i" and "i < length (l3_interfaces st)" and "mtu_ok mtu st"
    and "if_ifup (l3_interfaces st ! i)" and "piece S p (ip_fragmentOffset h) (\<not> ip_IsLastFragment h)" and "length S \<le> 65535"
    and "ip_fragmentOffset h AND 0x7 = 0" and "ip_headerSize h = 20" and "unat (ip_payloadSize h) = length p"
    and "ip_ttl h = 0"
  shows "\<exists>s' outs. l3_IpForward (Suc (length p)) ck mtu st rt p h s = FragDone s' \<and> sn_out s' = sn_out s @ outs
    \<and> concat (map (fst \<circ> fst \<circ> snd) outs) = p \<and> outs \<noteq> [] \<and> (\<forall>x \<in> set outs. ip_ttl (snd (fst (snd x))) = 255)"
proof -
  let ?h = "ip_SetTtl (ip_ttl h - 1) h"
  have ttl: "ip_ttl ?h = 255" using assms(10) by (simp add: ip_SetTtl_def)
  have "ip_IsLastFragment ?h = ip_IsLastFragment h" by (simp add: ip_IsLastFragment_def ip_SetTtl_def)
  then have pc: "piece S p (ip_fragmentOffset ?h) (\<not> ip_IsLastFragment ?h)" using assms(5) by (simp add: ip_SetTtl_def)
  have *: "if if_ifup (l3_interfaces st ! i)
    then \<exists>fs. l3_SendRealOut (Suc (length p)) ck mtu st (Some rt) p ?h s =
        FragDone (s\<lparr>sn_out := sn_out s @ map (\<lambda>x. (i, x, next_hop rt ?h)) fs\<rparr>)
      \<and> sent_as S p ?h (unat (mtu (if_device (l3_interfaces st ! i))) - 20) fs
    else l3_SendRealOut (Suc (length p)) ck mtu st (Some rt) p ?h s = FragDone s"
    by (rule SendRealOut_ok [OF assms(1-3) pc assms(6)]) (use assms(7-9) in \<open>simp_all add: ip_SetTtl_def\<close>)
  then obtain fs where fs: "l3_SendRealOut (Suc (length p)) ck mtu st (Some rt) p ?h s =
        FragDone (s\<lparr>sn_out := sn_out s @ map (\<lambda>x. (i, x, next_hop rt ?h)) fs\<rparr>)"
      "sent_as S p ?h (unat (mtu (if_device (l3_interfaces st ! i))) - 20) fs" using assms(4) by auto
  have "l3_IpForward (Suc (length p)) ck mtu st rt p h s = l3_SendRealOut (Suc (length p)) ck mtu st (Some rt) p ?h s"
    using ttl by (simp add: l3_IpForward_def Let_def)
  moreover have "\<forall>x \<in> set fs. ip_ttl (snd x) = 255" "concat (map fst fs) = p" "fs \<noteq> []"
    using fs(2) ttl by (auto simp: sent_as_def frag_of_def)
  ultimately show ?thesis using fs(1)
    by (intro exI [of _ "s\<lparr>sn_out := sn_out s @ map (\<lambda>x. (i, x, next_hop rt ?h)) fs\<rparr>"]
        exI [of _ "map (\<lambda>x. (i, x, next_hop rt ?h)) fs"]) (simp add: comp_def)
qed

section \<open>Witnesses\<close>

definition idle :: ipv4_sender where
  "idle = \<lparr>sn_identification = (\<lambda>_. 0), sn_out = [], sn_drop = [], sn_timeExceeded = []\<rparr>"

definition sample_args :: send_args where
  "sample_args = \<lparr>sa_packet = [1, 2, 3], sa_ttlTag = None, sa_tosTag = None, sa_source = 0x0a000001,
     sa_destination = 0x0a000005, sa_protocol = 17\<rparr>"

text \<open>A node with two interfaces without addresses, and a broadcast from \<^verbatim>\<open>0.0.0.0\<close> with a TTL tag.\<close>

definition twin_node :: "ipv4_node option" where
  "twin_node = do {
     nd \<leftarrow> node_SetUp (\<lambda>_. 1500) 0 (snd (node_AddInterface 8 (snd (node_AddInterface 7 (node_init True False)))));
     node_SetUp (\<lambda>_. 1500) 1 nd
   }"

definition twin_args :: send_args where
  "twin_args = \<lparr>sa_packet = [1, 2, 3], sa_ttlTag = Some 1, sa_tosTag = Some 16, sa_source = 0,
     sa_destination = 0xffffffff, sa_protocol = 17\<rparr>"

lemma twin_node_eq: "\<exists>nd. twin_node = Some nd \<and> node_reach (\<lambda>_. 1500) nd
  \<and> l3_interfaces (nd_ifs nd) = [Ipv4Interface_init\<lparr>if_ifup := True, if_forwarding := True, if_device := 7\<rparr>,
      Ipv4Interface_init\<lparr>if_ifup := True, if_forwarding := True, if_device := 8\<rparr>]
  \<and> sr_networkRoutes (nd_routing nd) = []"
proof -
  let ?nd1 = "snd (node_AddInterface 7 (node_init True False))"
  let ?nd2 = "snd (node_AddInterface 8 ?nd1)"
  have "node_hist (\<lambda>_. 1500) ?nd1 {}" by (rule node_hist.add_interface [OF node_hist.init]) (simp add: node_init_def)
  then have h2: "node_hist (\<lambda>_. 1500) ?nd2 {}"
    by (rule node_hist.add_interface)
      (simp add: node_init_def node_AddInterface_def l3_AddInterface_def l3_AddIpv4Interface_def if_SetForwarding_def if_SetDevice_def)
  have "\<exists>nd. twin_node = Some nd" by (simp add: twin_node_def node_evals)
  then obtain nd3 nd where nd: "node_SetUp (\<lambda>_. 1500) 0 ?nd2 = Some nd3" "node_SetUp (\<lambda>_. 1500) 1 nd3 = Some nd" "twin_node = Some nd"
    unfolding twin_node_def by (auto elim!: bind_eq_SomeE)
  have "\<exists>gone. node_hist (\<lambda>_. 1500) nd gone"
    using node_hist.set_up [OF node_hist.set_up [OF h2 nd(1)] nd(2)] by blast
  moreover have *: "l3_interfaces (nd_ifs nd) = [Ipv4Interface_init\<lparr>if_ifup := True, if_forwarding := True, if_device := 7\<rparr>,
      Ipv4Interface_init\<lparr>if_ifup := True, if_forwarding := True, if_device := 8\<rparr>]
    \<and> sr_networkRoutes (nd_routing nd) = []"
    using nd(3) by (auto simp: twin_node_def node_evals)
  ultimately show ?thesis using nd(3) by (auto simp: node_reach_def routes_ok_def)
qed

text \<open>Both interfaces get the broadcast, the first with the TTL of the tag and the second with the default.\<close>

theorem send_complete_witness:
  "\<exists>nd s' xs ys. twin_node = Some nd \<and> l3_Send (\<lambda>st dest oif. sr_RouteOutput st dest oif (nd_routing nd)) 4 True 64
     (\<lambda>_. 1500) (nd_ifs nd) twin_args None idle = FragDone s' \<and> sn_out s' = xs @ ys \<and> xs \<noteq> [] \<and> ys \<noteq> []
     \<and> (\<forall>x \<in> set xs. fst x = 0 \<and> ip_ttl (snd (fst (snd x))) = 1) \<and> (\<forall>y \<in> set ys. fst y = 1 \<and> ip_ttl (snd (fst (snd y))) = 64)"
proof -
  obtain nd where nd: "twin_node = Some nd" "node_reach (\<lambda>_. 1500) nd"
    "l3_interfaces (nd_ifs nd) = [Ipv4Interface_init\<lparr>if_ifup := True, if_forwarding := True, if_device := 7\<rparr>,
      Ipv4Interface_init\<lparr>if_ifup := True, if_forwarding := True, if_device := 8\<rparr>]"
    "sr_networkRoutes (nd_routing nd) = []" using twin_node_eq by blast
  let ?st = "nd_ifs nd" and ?mtu = "\<lambda>_ :: ptr. 1500 :: u16"
  have a: "gateways_set (nd_routing nd)" "length (sa_packet twin_args) = 3" "sa_source twin_args = 0"
    "addr_IsBroadcast (sa_destination twin_args)"
    by (simp_all add: gateways_set_def nd(4) twin_args_def addr_IsBroadcast_def)
  obtain outs drops n' where run: "l3_Send (\<lambda>st dest oif. sr_RouteOutput st dest oif (nd_routing nd)) 4 True 64 ?mtu ?st twin_args None idle
      = FragDone (idle\<lparr>sn_identification := (sn_identification idle)(sa_key twin_args := n'), sn_out := sn_out idle @ outs,
          sn_drop := sn_drop idle @ drops\<rparr>)"
    "send_outcome (\<lambda>st dest oif. sr_RouteOutput st dest oif (nd_routing nd)) True 64 ?mtu ?st twin_args
      (sn_identification idle (sa_key twin_args)) outs drops n'"
    using send_complete [OF nd(2) a(1), of twin_args True 64 idle] a(2) by auto
  obtain os where os: "outs = concat os" "length os = 2"
    "\<forall>i < 2. broadcast_out ?mtu ?st True 64 twin_args (sn_identification idle (sa_key twin_args)) i (os ! i)"
    using run(2) a(4) nd(3) by (auto simp: send_outcome_def numeral_2_eq_2)
  obtain xs ys where xy: "os = [xs, ys]" using os(2) by (auto simp: numeral_2_eq_2 length_Suc_conv)
  have on: "sends_on twin_args f" for f by (simp add: sends_on_def a(3))
  have "sent_over ?mtu ?st 0 (sa_destination twin_args) (sa_packet twin_args) (header_of True 64 twin_args (sn_identification idle (sa_key twin_args))) xs"
    using spec [OF os(3), of 0] xy on nd(3) by (simp add: broadcast_out_def handed_to_def copy_args_def)
  moreover have "sent_over ?mtu ?st 1 (sa_destination twin_args) (sa_packet twin_args)
      (header_of True 64 (sa_untag twin_args) (sn_identification idle (sa_key twin_args))) ys"
    using spec [OF os(3), of 1] xy on nd(3) by (simp add: broadcast_out_def handed_to_def copy_args_def)
  moreover have "ip_ttl (header_of True 64 twin_args n) = 1" "ip_ttl (header_of True 64 (sa_untag twin_args) n) = 64" for n
    by (simp_all add: header_of_def twin_args_def sa_untag_def Let_def)
  ultimately have "xs \<noteq> []" "ys \<noteq> []" "\<forall>x \<in> set xs. fst x = 0 \<and> ip_ttl (snd (fst (snd x))) = 1"
    "\<forall>y \<in> set ys. fst y = 1 \<and> ip_ttl (snd (fst (snd y))) = 64"
    by (auto simp: sent_over_def sent_as_def frag_of_def)
  moreover have "sn_out idle = []" by (simp add: idle_def)
  ultimately show ?thesis using nd(1) run(1) os(1) xy by (intro exI conjI) auto
qed

definition sample_route :: ipv4_route where
  "sample_route = \<lparr>rt_dest = 0x0a000100, rt_source = 0x0a000101, rt_gateway = 0, rt_gatewaySet = True, rt_outputDevice = 3\<rparr>"

definition transit :: "u8 \<Rightarrow> ipv4_header" where
  "transit ttl = Ipv4Header_init\<lparr>ip_ttl := ttl, ip_payloadSize := 1, ip_destination := 0x0a000107\<rparr>"

lemma sample_ifs_at: "l3_reverse sample_ifs (rt_outputDevice sample_route) = Some 2" "2 < length (l3_interfaces sample_ifs)"
  "if_ifup (l3_interfaces sample_ifs ! 2)" "mtu_ok (\<lambda>_. 1500) sample_ifs"
proof -
  show "l3_reverse sample_ifs (rt_outputDevice sample_route) = Some 2" "2 < length (l3_interfaces sample_ifs)"
    "mtu_ok (\<lambda>_. 1500) sample_ifs" by (simp_all add: sample_ifs_def sample_route_def mtu_ok_def)
  show "if_ifup (l3_interfaces sample_ifs ! 2)" by (simp add: sample_ifs_def numeral_2_eq_2)
qed

lemma sample_hop: "hop ([7], transit 2) ([7], ip_result (ip_SetTtl 1 (transit 2)) Ipv4Header_init)"
proof -
  have "l3_IpForward 2 True (\<lambda>_. 1500) sample_ifs sample_route [7] (transit 2) idle =
    FragDone (idle\<lparr>sn_out := [(2, ([7], ip_SetTtl 1 (transit 2)), 0x0a000107)]\<rparr>)"
    using sample_ifs_at(1-3)
    by (simp add: l3_IpForward_def l3_SendRealOut_def or_abort_def l3_GetInterfaceForDevice_def l3_GetInterface_def
        sample_route_def transit_def ip_SetTtl_def idle_def ip_GetSerializedSize_def Ipv4Header_init_def
        addr_IsAny_def Let_def)
  from hop.hop [OF this, of "[(2, ([7], ip_SetTtl 1 (transit 2)), 0x0a000107)]" 2 "[7]" "ip_SetTtl 1 (transit 2)"]
  show ?thesis by (simp add: idle_def)
qed

theorem ttl_bounds_hops_witness:
  "unat (ip_ttl (snd ([7 :: u8], ip_result (ip_SetTtl 1 (transit 2)) Ipv4Header_init))) = 2 - 1"
proof -
  have "(hop ^^ 1) ([7], transit 2) ([7], ip_result (ip_SetTtl 1 (transit 2)) Ipv4Header_init)"
    unfolding relpowp_1 by (rule sample_hop)
  from ttl_bounds_hops [OF this] show ?thesis by (simp add: transit_def)
qed

theorem ttl_zero_revived_witness:
  "\<exists>s' outs. l3_IpForward 2 True (\<lambda>_. 1500) sample_ifs sample_route [7] (transit 0) idle = FragDone s'
    \<and> sn_out s' = outs \<and> outs \<noteq> [] \<and> (\<forall>x \<in> set outs. ip_ttl (snd (fst (snd x))) = 255)"
proof -
  have h: "ip_fragmentOffset (transit 0) = 0" "ip_IsLastFragment (transit 0)" "ip_headerSize (transit 0) = 20"
    "unat (ip_payloadSize (transit 0)) = length [7 :: u8]" "ip_ttl (transit 0) = 0"
    by (simp_all add: transit_def Ipv4Header_init_def ip_IsLastFragment_def)
  have pc: "piece [7] [7] (ip_fragmentOffset (transit 0)) (\<not> ip_IsLastFragment (transit 0))" using h by (simp add: piece_def)
  have "\<exists>s' outs. l3_IpForward (Suc (length [7 :: u8])) True (\<lambda>_. 1500) sample_ifs sample_route [7] (transit 0) idle = FragDone s'
    \<and> sn_out s' = sn_out idle @ outs \<and> concat (map (fst \<circ> fst \<circ> snd) outs) = [7] \<and> outs \<noteq> []
    \<and> (\<forall>x \<in> set outs. ip_ttl (snd (fst (snd x))) = 255)"
    by (rule ttl_zero_revived [OF sample_ifs_at(1,2,4,3) pc]) (use h in simp_all)
  moreover have "Suc (length [7 :: u8]) = 2" "sn_out idle = []" by (simp_all add: idle_def)
  ultimately show ?thesis by (metis append_Nil)
qed

end
