(* ===== verification/Arp_Header.thy ===== *)
theory Arp_Header
  imports Wire
begin

text \<open>
  The ARP header: \<^verbatim>\<open>ns3::ArpHeader\<close> (src/internet/model/arp-header.h, .cc).  A hardware
  address is the list of its bytes; the type tag of \<^verbatim>\<open>ns3::Address\<close> does not travel.
\<close>

section \<open>Definitions\<close>

type_synonym hw_address = "u8 list"

record arp_header =
  arp_type :: u16
  arp_macSource :: hw_address
  arp_macDest :: hw_address
  arp_ipv4Source :: u32
  arp_ipv4Dest :: u32

definition arp_SetRequest :: "hw_address \<Rightarrow> u32 \<Rightarrow> hw_address \<Rightarrow> u32 \<Rightarrow> arp_header \<Rightarrow> arp_header" where
  "arp_SetRequest sourceHardwareAddress sourceProtocolAddress destinationHardwareAddress destinationProtocolAddress h =
     h\<lparr>arp_type := 1, arp_macSource := sourceHardwareAddress, arp_macDest := destinationHardwareAddress,
       arp_ipv4Source := sourceProtocolAddress, arp_ipv4Dest := destinationProtocolAddress\<rparr>"

definition arp_SetReply :: "hw_address \<Rightarrow> u32 \<Rightarrow> hw_address \<Rightarrow> u32 \<Rightarrow> arp_header \<Rightarrow> arp_header" where
  "arp_SetReply sourceHardwareAddress sourceProtocolAddress destinationHardwareAddress destinationProtocolAddress h =
     h\<lparr>arp_type := 2, arp_macSource := sourceHardwareAddress, arp_macDest := destinationHardwareAddress,
       arp_ipv4Source := sourceProtocolAddress, arp_ipv4Dest := destinationProtocolAddress\<rparr>"

definition arp_IsRequest :: "arp_header \<Rightarrow> bool" where
  "arp_IsRequest h \<longleftrightarrow> arp_type h = 1"

definition arp_IsReply :: "arp_header \<Rightarrow> bool" where
  "arp_IsReply h \<longleftrightarrow> arp_type h = 2"

definition arp_GetSerializedSize :: "arp_header \<Rightarrow> nat option" where
  "arp_GetSerializedSize h = do {
     ns_assert (length (arp_macSource h) \<in> {6, 8, 1});
     ns_assert (length (arp_macSource h) = length (arp_macDest h));
     Some (16 + length (arp_macSource h) * 2)
   }"

definition arp_Serialize :: "arp_header \<Rightarrow> u8 list option" where
  "arp_Serialize h = do {
     ns_assert (length (arp_macSource h) = length (arp_macDest h));
     Some (hton16 0x0001 @ hton16 0x0800 @ [of_nat (length (arp_macSource h)), 4] @ hton16 (arp_type h)
       @ arp_macSource h @ hton32 (arp_ipv4Source h) @ arp_macDest h @ hton32 (arp_ipv4Dest h))
   }"

text \<open>
  \<^verbatim>\<open>ReadFrom\<close> of an address copies the bytes into an array of
  \<^verbatim>\<open>Address::MAX_SIZE\<close> = 20 bytes; more of them run over the array, which is \<open>None\<close> here.
\<close>

definition rd_address :: "nat \<Rightarrow> hw_address reader" where
  "rd_address len bs = do { ns_assert (len \<le> 20); rd_n len bs }"

definition arp_Deserialize :: "arp_header \<Rightarrow> arp_header deserializer" where
  "arp_Deserialize r bs = do {
     (_, a) \<leftarrow> rd_n 2 bs;
     (protocolType, a) \<leftarrow> rdNtohU16 a;
     (hardwareAddressLen, a) \<leftarrow> rdU8 a;
     (protocolAddressLen, a) \<leftarrow> rdU8 a;
     if protocolType \<noteq> 0x800 \<or> protocolAddressLen \<noteq> 4 then Some (r, 0)
     else do {
       (ty, a) \<leftarrow> rdNtohU16 a;
       (macSource, a) \<leftarrow> rd_address (unat hardwareAddressLen) a;
       (ipv4Source, a) \<leftarrow> rdNtohU32 a;
       (macDest, a) \<leftarrow> rd_address (unat hardwareAddressLen) a;
       (ipv4Dest, a) \<leftarrow> rdNtohU32 a;
       let h = \<lparr>arp_type = ty, arp_macSource = macSource, arp_macDest = macDest,
                arp_ipv4Source = ipv4Source, arp_ipv4Dest = ipv4Dest\<rparr>;
       n \<leftarrow> arp_GetSerializedSize h;
       Some (h, n)
     }
   }"

section \<open>What the receiver gets\<close>

definition arp_fit :: "arp_header \<Rightarrow> arp_header \<Rightarrow> u8 list \<Rightarrow> bool" where
  "arp_fit h r pl \<longleftrightarrow> length (arp_macSource h) \<in> {6, 8, 1} \<and> length (arp_macDest h) = length (arp_macSource h)"

definition arp_size :: "arp_header \<Rightarrow> nat" where
  "arp_size h = 16 + length (arp_macSource h) * 2"

lemma arp_size_ok: "arp_fit h r pl \<Longrightarrow> arp_GetSerializedSize h = Some (arp_size h)"
  by (auto simp: arp_fit_def arp_GetSerializedSize_def arp_size_def)

lemma rd_skip: "length xs = n \<Longrightarrow> rd_n n (xs @ r) = Some (xs, r)"
  by (simp add: rd_n_def)

lemma arp_read_back:
  assumes "arp_fit h r pl"
  shows "\<exists>hdr. arp_Serialize h = Some hdr \<and> length hdr = arp_size h \<and> arp_Deserialize r (hdr @ pl) = Some (h, arp_size h)"
proof -
  let ?n = "length (arp_macSource h)"
  have n: "?n \<le> 8" "length (arp_macDest h) = ?n" using assms by (auto simp: arp_fit_def)
  have w: "unat (of_nat ?n :: u8) = ?n" using n(1) by (simp add: unat_of_nat)
  have a: "rd_address ?n (arp_macSource h @ x) = Some (arp_macSource h, x)"
    "rd_address ?n (arp_macDest h @ x) = Some (arp_macDest h, x)" for x
    using n by (simp_all add: rd_address_def rd_skip)
  have sk: "rd_n 2 (hton16 v @ x) = Some (hton16 v, x)" for v x by (simp add: rd_skip)
  have eta: "\<lparr>arp_type = arp_type h, arp_macSource = arp_macSource h, arp_macDest = arp_macDest h,
      arp_ipv4Source = arp_ipv4Source h, arp_ipv4Dest = arp_ipv4Dest h\<rparr> = h" by (cases h) simp
  show ?thesis using n w a sk arp_size_ok [OF assms]
    by (auto simp: eta arp_Serialize_def arp_Deserialize_def arp_size_def Let_def)
qed

interpretation arp: ns3_header "\<lambda>h pl. arp_Serialize h" arp_Deserialize arp_size arp_fit "\<lambda>h r pl. h"
  by unfold_locales (use arp_read_back in \<open>auto simp: arp_size_def\<close>)

text \<open>
  An ARP message is received as it was sent, for the three lengths of hardware addresses that
  the code admits: the header that is removed is the one that was added, in every field, and the
  rest of the packet is unchanged.
\<close>

theorem arp_roundtrip:
  assumes "store_ok s (add_mset b bs) X" and "arp_GetSerializedSize h = Some n" and "buf_GetSize b + 151 < 2 ^ 32"
  shows "\<exists>b1 s1 b2. pkt_AddHeader n (\<lambda>pl. arp_Serialize h) b s = Some (b1, s1)
    \<and> pkt_RemoveHeader (arp_Deserialize r) b1 s1 = Some (h, n, b2)
    \<and> buf_content s1 b2 = buf_content s b \<and> (\<forall>c \<in># bs. buf_content s1 c = buf_content s c)"
proof -
  have n: "arp_fit h r (buf_content s b)" "n = arp_size h" "n \<le> 32"
    using assms(2) by (auto simp: arp_GetSerializedSize_def arp_fit_def arp_size_def bind_ns_assert split: if_splits)
  then have "buf_GetSize b + arp_size h + 119 < 2 ^ 32" using assms(3) by simp
  from arp.packet_roundtrip [OF assms(1) n(1) this] show ?thesis unfolding n(2) by blast
qed

text \<open>
  A malformed ARP message stops the program.  The receiver is meant to ignore headers it does
  not recognize, which \<^verbatim>\<open>Deserialize\<close> reports by returning 0; but for an IPv4 message whose
  hardware addresses have another length than 1, 6 or 8 it fails an assertion or, above 20, writes
  past the end of an array.
\<close>

theorem arp_bad_length:
  assumes "unat hln \<notin> {1, 6, 8}" and "length hrd = 2"
  shows "arp_Deserialize r (hrd @ hton16 0x0800 @ [hln, 4] @ rest) = None"
proof -
  have mac: "length m = k" if "rd_address k x = Some (m, y)" for k x m y
    using that by (auto simp: rd_address_def rd_n_def bind_ns_assert split: if_splits)
  have "rd_n 2 (hrd @ x) = Some (hrd, x)" for x using assms(2) by (rule rd_skip)
  then show ?thesis using assms(1)
    by (auto simp: arp_Deserialize_def arp_GetSerializedSize_def Let_def bind_ns_assert
        split: bind_splits if_splits dest!: mac)
qed

theorem arp_roundtrip_witness:
  "\<exists>s b h b1 s1 b2. arp_IsRequest h \<and> pkt_AddHeader 28 (\<lambda>pl. arp_Serialize h) b s = Some (b1, s1)
    \<and> pkt_RemoveHeader (arp_Deserialize h) b1 s1 = Some (h, 28, b2) \<and> buf_content s1 b2 = replicate 10 0"
proof (rule shared_pair, goal_cases)
  case (1 s b c)
  let ?h = "arp_SetRequest [1, 2, 3, 4, 5, 6] 0x0a000001 (replicate 6 255) 0x0a000002
    \<lparr>arp_type = 0, arp_macSource = [], arp_macDest = [], arp_ipv4Source = 0, arp_ipv4Dest = 0\<rparr>"
  have h: "arp_GetSerializedSize ?h = Some 28" "arp_IsRequest ?h"
    by (simp_all add: arp_GetSerializedSize_def arp_SetRequest_def arp_IsRequest_def)
  have "buf_GetSize b + 151 < 2 ^ 32" using 1 by (simp add: buf_GetSize_def)
  then show ?case using arp_roundtrip [of s b "{#c#}" "{#}" ?h 28 ?h] 1(1,5) h by metis
qed

theorem arp_bad_length_witness:
  "arp_Deserialize \<lparr>arp_type = 0, arp_macSource = [], arp_macDest = [], arp_ipv4Source = 0, arp_ipv4Dest = 0\<rparr>
     ([0, 1] @ hton16 0x0800 @ [2, 4] @ replicate 20 0) = None"
  by (rule arp_bad_length) simp_all

end
