(* ===== verification/Arp_Cache.thy ===== *)
theory Arp_Cache
  imports Arp_Header Ipv4_Header
begin

text \<open>
  Address resolution: \<^verbatim>\<open>ns3::ArpCache\<close> with its entries (src/internet/model/arp-cache.h,
  .cc) and the two operations of \<^verbatim>\<open>ns3::ArpL3Protocol\<close> that work on a cache,
  \<^verbatim>\<open>Lookup\<close> and \<^verbatim>\<open>Receive\<close> (src/internet/model/arp-l3-protocol.cc).
\<close>

section \<open>Entries\<close>

datatype arp_entry_state = ALIVE | WAIT_REPLY | DEAD | PERMANENT | STATIC_AUTOGENERATED

type_synonym pending = "u8 list \<times> ipv4_header"

record arp_entry =
  ae_state :: arp_entry_state
  ae_lastSeen :: nat
  ae_macAddress :: hw_address
  ae_ipv4Address :: u32
  ae_pending :: "pending list"
  ae_retries :: nat

text \<open>The attributes of a cache.\<close>

record arp_config =
  ac_aliveTimeout :: nat
  ac_deadTimeout :: nat
  ac_waitReplyTimeout :: nat
  ac_maxRetries :: nat
  ac_pendingQueueSize :: nat

definition entry_new :: "u32 \<Rightarrow> arp_entry" where
  "entry_new to = \<lparr>ae_state = ALIVE, ae_lastSeen = 0, ae_macAddress = [], ae_ipv4Address = to, ae_pending = [], ae_retries = 0\<rparr>"

definition entry_UpdateSeen :: "nat \<Rightarrow> arp_entry \<Rightarrow> arp_entry" where
  "entry_UpdateSeen now e = e\<lparr>ae_lastSeen := now\<rparr>"

definition entry_ClearRetries :: "arp_entry \<Rightarrow> arp_entry" where
  "entry_ClearRetries e = e\<lparr>ae_retries := 0\<rparr>"

definition entry_IncrementRetries :: "nat \<Rightarrow> arp_entry \<Rightarrow> arp_entry" where
  "entry_IncrementRetries now e = entry_UpdateSeen now (e\<lparr>ae_retries := ae_retries e + 1\<rparr>)"

definition entry_MarkDead :: "nat \<Rightarrow> arp_entry \<Rightarrow> arp_entry option" where
  "entry_MarkDead now e = do {
     ns_assert (ae_state e = ALIVE \<or> ae_state e = WAIT_REPLY \<or> ae_state e = DEAD);
     Some (entry_UpdateSeen now (entry_ClearRetries (e\<lparr>ae_state := DEAD\<rparr>)))
   }"

definition entry_MarkAlive :: "hw_address \<Rightarrow> nat \<Rightarrow> arp_entry \<Rightarrow> arp_entry option" where
  "entry_MarkAlive macAddress now e = do {
     ns_assert (ae_state e = WAIT_REPLY);
     Some (entry_UpdateSeen now (entry_ClearRetries (e\<lparr>ae_macAddress := macAddress, ae_state := ALIVE\<rparr>)))
   }"

definition entry_SetMacAddress :: "hw_address \<Rightarrow> arp_entry \<Rightarrow> arp_entry" where
  "entry_SetMacAddress macAddress e = e\<lparr>ae_macAddress := macAddress\<rparr>"

text \<open>An address without bytes is \<^verbatim>\<open>IsInvalid\<close>.\<close>

definition entry_MarkPermanent :: "nat \<Rightarrow> arp_entry \<Rightarrow> arp_entry option" where
  "entry_MarkPermanent now e = do {
     ns_assert (ae_macAddress e \<noteq> []);
     Some (entry_UpdateSeen now (entry_ClearRetries (e\<lparr>ae_state := PERMANENT\<rparr>)))
   }"

definition entry_MarkAutoGenerated :: "nat \<Rightarrow> arp_entry \<Rightarrow> arp_entry option" where
  "entry_MarkAutoGenerated now e = do {
     ns_assert (ae_macAddress e \<noteq> []);
     Some (entry_UpdateSeen now (entry_ClearRetries (e\<lparr>ae_state := STATIC_AUTOGENERATED\<rparr>)))
   }"

definition entry_UpdateWaitReply :: "arp_config \<Rightarrow> pending \<Rightarrow> arp_entry \<Rightarrow> (bool \<times> arp_entry) option" where
  "entry_UpdateWaitReply cfg waiting e = do {
     ns_assert (ae_state e = WAIT_REPLY);
     if length (ae_pending e) \<ge> ac_pendingQueueSize cfg then Some (False, e)
     else Some (True, e\<lparr>ae_pending := ae_pending e @ [waiting]\<rparr>)
   }"

text \<open>The timer that the code starts here is started by the caller.\<close>

definition entry_MarkWaitReply :: "pending \<Rightarrow> nat \<Rightarrow> arp_entry \<Rightarrow> arp_entry option" where
  "entry_MarkWaitReply waiting now e = do {
     ns_assert (ae_state e = ALIVE \<or> ae_state e = DEAD);
     ns_assert (ae_pending e = []);
     Some (entry_UpdateSeen now (e\<lparr>ae_state := WAIT_REPLY, ae_pending := ae_pending e @ [waiting]\<rparr>))
   }"

fun entry_timeout :: "arp_config \<Rightarrow> arp_entry_state \<Rightarrow> nat" where
  "entry_timeout cfg WAIT_REPLY = ac_waitReplyTimeout cfg"
| "entry_timeout cfg DEAD = ac_deadTimeout cfg"
| "entry_timeout cfg ALIVE = ac_aliveTimeout cfg"
| "entry_timeout cfg PERMANENT = 2 ^ 63 - 1"
| "entry_timeout cfg STATIC_AUTOGENERATED = 2 ^ 63 - 1"

definition entry_IsExpired :: "arp_config \<Rightarrow> nat \<Rightarrow> arp_entry \<Rightarrow> bool" where
  "entry_IsExpired cfg now e \<longleftrightarrow> now - ae_lastSeen e > entry_timeout cfg (ae_state e)"

definition entry_DequeuePending :: "arp_entry \<Rightarrow> pending option \<times> arp_entry" where
  "entry_DequeuePending e = (case ae_pending e of
       [] \<Rightarrow> (None, e)
     | p # ps \<Rightarrow> (Some p, e\<lparr>ae_pending := ps\<rparr>))"

text \<open>The loops that take packets out until there is none; the fuel is the length of the queue.\<close>

fun entry_drain :: "nat \<Rightarrow> arp_entry \<Rightarrow> pending list \<times> arp_entry" where
  "entry_drain 0 e = ([], e)"
| "entry_drain (Suc n) e = (case entry_DequeuePending e of
       (None, e) \<Rightarrow> ([], e)
     | (Some p, e) \<Rightarrow> (let (ps, e) = entry_drain n e in (p # ps, e)))"

definition entry_dequeue_all :: "arp_entry \<Rightarrow> pending list \<times> arp_entry" where
  "entry_dequeue_all e = entry_drain (Suc (length (ae_pending e))) e"

section \<open>The cache\<close>

text \<open>
  The map of entries is a list sorted by address.  \<open>as_timer\<close> is the time of the pending
  \<^verbatim>\<open>HandleWaitReplyTimeout\<close>; the other lists record what the protocol hands out: the
  addresses for which requests are issued, the ARP messages that are answered, the packets that
  are passed to the interface, the packets and the ARP messages that are dropped.
\<close>

type_synonym arp_map = "(u32 \<times> arp_entry) list"

record arp_state =
  as_now :: nat
  as_cache :: arp_map
  as_timer :: "nat option"
  as_requests :: "u32 list"
  as_replies :: "arp_header list"
  as_sent :: "(pending \<times> u32) list"
  as_drops :: "pending list"
  as_rejected :: "arp_header list"

fun cache_insert :: "u32 \<Rightarrow> arp_entry \<Rightarrow> arp_map \<Rightarrow> arp_map" where
  "cache_insert to e [] = [(to, e)]"
| "cache_insert to e ((k, x) # r) = (if to < k then (to, e) # (k, x) # r else (k, x) # cache_insert to e r)"

definition cache_update :: "u32 \<Rightarrow> arp_entry \<Rightarrow> arp_map \<Rightarrow> arp_map" where
  "cache_update to e c = map (\<lambda>(k, x). if k = to then (k, e) else (k, x)) c"

definition cache_Lookup :: "u32 \<Rightarrow> arp_state \<Rightarrow> arp_entry option" where
  "cache_Lookup to st = map_of (as_cache st) to"

definition cache_LookupInverse :: "hw_address \<Rightarrow> arp_state \<Rightarrow> arp_entry list" where
  "cache_LookupInverse to st = filter (\<lambda>e. ae_macAddress e = to) (map snd (as_cache st))"

definition cache_Add :: "u32 \<Rightarrow> arp_state \<Rightarrow> (arp_entry \<times> arp_state) option" where
  "cache_Add to st = do {
     ns_assert (cache_Lookup to st = None);
     Some (entry_new to, st\<lparr>as_cache := cache_insert to (entry_new to) (as_cache st)\<rparr>)
   }"

definition cache_put :: "u32 \<Rightarrow> arp_entry \<Rightarrow> arp_state \<Rightarrow> arp_state" where
  "cache_put to e st = st\<lparr>as_cache := cache_update to e (as_cache st)\<rparr>"

text \<open>An entry is named by its address, which identifies it within the cache.\<close>

definition cache_Remove :: "u32 \<Rightarrow> arp_state \<Rightarrow> arp_state" where
  "cache_Remove to st = st\<lparr>as_cache := filter (\<lambda>(k, _). k \<noteq> to) (as_cache st)\<rparr>"

definition cache_RemoveAutoGeneratedEntries :: "arp_state \<Rightarrow> arp_state" where
  "cache_RemoveAutoGeneratedEntries st =
     st\<lparr>as_cache := filter (\<lambda>(_, e). ae_state e \<noteq> STATIC_AUTOGENERATED) (as_cache st)\<rparr>"

definition cache_Flush :: "arp_state \<Rightarrow> arp_state" where
  "cache_Flush st = st\<lparr>as_cache := [], as_timer := None\<rparr>"

definition cache_StartWaitReplyTimer :: "arp_config \<Rightarrow> arp_state \<Rightarrow> arp_state" where
  "cache_StartWaitReplyTimer cfg st =
     (if as_timer st = None then st\<lparr>as_timer := Some (as_now st + ac_waitReplyTimeout cfg)\<rparr> else st)"

text \<open>What the handler of the timer does to one entry: the requests, the dropped packets, and whether it retries.\<close>

definition entry_wait_timeout :: "arp_config \<Rightarrow> nat \<Rightarrow> arp_entry \<Rightarrow> (arp_entry \<times> u32 list \<times> pending list \<times> bool) option" where
  "entry_wait_timeout cfg now e =
     (if ae_state e = WAIT_REPLY
      then if ae_retries e < ac_maxRetries cfg
        then Some (entry_IncrementRetries now e, [ae_ipv4Address e], [], True)
        else do {
          e \<leftarrow> entry_MarkDead now e;
          let (ps, e) = entry_dequeue_all (entry_ClearRetries e);
          Some (e, [], ps, False)
        }
      else Some (e, [], [], False))"

fun cache_scan :: "arp_config \<Rightarrow> nat \<Rightarrow> arp_map \<Rightarrow> (arp_map \<times> u32 list \<times> pending list \<times> bool) option" where
  "cache_scan cfg now [] = Some ([], [], [], False)"
| "cache_scan cfg now ((k, e) # r) = do {
     (e, rq, dr, again) \<leftarrow> entry_wait_timeout cfg now e;
     (r, rqs, drs, restart) \<leftarrow> cache_scan cfg now r;
     Some ((k, e) # r, rq @ rqs, dr @ drs, again \<or> restart)
   }"

text \<open>The handler runs when its timer has fired, so that no timer is pending.\<close>

definition cache_HandleWaitReplyTimeout :: "arp_config \<Rightarrow> arp_state \<Rightarrow> arp_state option" where
  "cache_HandleWaitReplyTimeout cfg st = do {
     (c, rqs, drs, restart) \<leftarrow> cache_scan cfg (as_now st) (as_cache st);
     Some (st\<lparr>as_cache := c, as_requests := as_requests st @ rqs, as_drops := as_drops st @ drs,
       as_timer := (if restart then Some (as_now st + ac_waitReplyTimeout cfg) else None)\<rparr>)
   }"

section \<open>The protocol\<close>

text \<open>
  \<^verbatim>\<open>ArpL3Protocol::Lookup\<close>: the hardware address if it is known.  The request that follows a
  new wait is issued after a random delay.  \<open>None\<close> is a failed assertion or
  \<^verbatim>\<open>NS_FATAL_ERROR\<close>.
\<close>

definition arp_wait :: "arp_config \<Rightarrow> pending \<Rightarrow> u32 \<Rightarrow> arp_entry \<Rightarrow> arp_state \<Rightarrow> (hw_address option \<times> arp_state) option" where
  "arp_wait cfg waiting to e st = do {
     e \<leftarrow> entry_MarkWaitReply waiting (as_now st) e;
     let st = cache_StartWaitReplyTimer cfg (cache_put to e st);
     Some (None, st\<lparr>as_requests := as_requests st @ [to]\<rparr>)
   }"

definition arp_Lookup :: "arp_config \<Rightarrow> pending \<Rightarrow> u32 \<Rightarrow> arp_state \<Rightarrow> (hw_address option \<times> arp_state) option" where
  "arp_Lookup cfg packet destination st = (case cache_Lookup destination st of
       Some e \<Rightarrow>
         if entry_IsExpired cfg (as_now st) e
         then if ae_state e = DEAD then arp_wait cfg packet destination e st
           else if ae_state e = ALIVE then arp_wait cfg packet destination e st
           else None
         else if ae_state e = DEAD then Some (None, st\<lparr>as_drops := as_drops st @ [packet]\<rparr>)
           else if ae_state e = ALIVE then Some (Some (ae_macAddress e), st)
           else if ae_state e = WAIT_REPLY
             then do {
               (queued, e) \<leftarrow> entry_UpdateWaitReply cfg packet e;
               let st = cache_put destination e st;
               Some (None, if queued then st else st\<lparr>as_drops := as_drops st @ [packet]\<rparr>)
             }
           else Some (Some (ae_macAddress e), st)
     | None \<Rightarrow> do {
         (e, st) \<leftarrow> cache_Add destination st;
         arp_wait cfg packet destination e st
       })"

text \<open>
  \<^verbatim>\<open>ArpL3Protocol::Receive\<close> for a message whose header could be read: \<open>locals\<close> are the
  addresses of the interface and \<open>dev\<close> is the address of the device.  \<open>arp_mine\<close> is the test of
  the loop over the addresses.
\<close>

definition arp_mine :: "hw_address \<Rightarrow> arp_header \<Rightarrow> u32 \<Rightarrow> bool" where
  "arp_mine dev arp a \<longleftrightarrow> arp_IsRequest arp \<and> arp_ipv4Dest arp = a
     \<or> arp_IsReply arp \<and> arp_ipv4Dest arp = a \<and> arp_macDest arp = dev"

definition arp_SendArpReply :: "hw_address \<Rightarrow> u32 \<Rightarrow> u32 \<Rightarrow> hw_address \<Rightarrow> arp_state \<Rightarrow> arp_state" where
  "arp_SendArpReply dev myIp toIp toMac st =
     st\<lparr>as_replies := as_replies st @ [\<lparr>arp_type = 2, arp_macSource = dev, arp_macDest = toMac,
          arp_ipv4Source = myIp, arp_ipv4Dest = toIp\<rparr>]\<rparr>"

definition arp_Receive :: "hw_address \<Rightarrow> u32 list \<Rightarrow> arp_header \<Rightarrow> arp_state \<Rightarrow> arp_state option" where
  "arp_Receive dev locals arp st =
     (if \<exists>a \<in> set locals. arp_mine dev arp a
      then if arp_IsRequest arp
        then Some (arp_SendArpReply dev (arp_ipv4Dest arp) (arp_ipv4Source arp) (arp_macSource arp) st)
        else (case cache_Lookup (arp_ipv4Source arp) st of
            Some e \<Rightarrow>
              if ae_state e = WAIT_REPLY
              then do {
                e \<leftarrow> entry_MarkAlive (arp_macSource arp) (as_now st) e;
                let (ps, e) = entry_dequeue_all e;
                let st = cache_put (arp_ipv4Source arp) e st;
                Some (st\<lparr>as_sent := as_sent st @ map (\<lambda>p. (p, arp_ipv4Source arp)) ps\<rparr>)
              }
              else Some (st\<lparr>as_rejected := as_rejected st @ [arp]\<rparr>)
          | None \<Rightarrow> Some (st\<lparr>as_rejected := as_rejected st @ [arp]\<rparr>))
      else Some st)"

text \<open>
  The first part of \<^verbatim>\<open>ArpL3Protocol::Receive\<close>, on the bytes of the message: the header is removed, and
  a message whose header is not recognized is ignored.  The definition above is what follows.
\<close>

definition arp_ReceivePacket :: "arp_header \<Rightarrow> hw_address \<Rightarrow> u32 list \<Rightarrow> u8 list \<Rightarrow> arp_state \<Rightarrow> arp_state option" where
  "arp_ReceivePacket arp dev locals bs st = do {
     (arp, size) \<leftarrow> arp_Deserialize arp bs;
     if size = 0 then Some st else arp_Receive dev locals arp st
   }"

text \<open>
  \<^verbatim>\<open>Ipv4L3Protocol::Receive\<close> confirms the entry of the source of a packet or, when there is
  none, all entries with the hardware address of the sender.
\<close>

definition arp_refresh :: "u32 \<Rightarrow> hw_address \<Rightarrow> arp_state \<Rightarrow> arp_state" where
  "arp_refresh source sender st = (case cache_Lookup source st of
       Some e \<Rightarrow> if ae_state e = ALIVE then cache_put source (entry_UpdateSeen (as_now st) e) st else st
     | None \<Rightarrow> st\<lparr>as_cache := map (\<lambda>(k, e). (k, if ae_macAddress e = sender \<and> ae_state e = ALIVE
         then entry_UpdateSeen (as_now st) e else e)) (as_cache st)\<rparr>)"

end
