(* ===== verification/Arp_Laws.thy ===== *)
theory Arp_Laws
  imports Arp_Cache
begin

text \<open>
  The invariant of address resolution, that the operations keep it and never fail, and how each of
  them changes the account of the packets that wait, were dropped or were passed on.
\<close>

section \<open>Entries and maps\<close>

lemmas entry_defs = entry_UpdateSeen_def entry_ClearRetries_def entry_IncrementRetries_def entry_MarkDead_def
  entry_MarkAlive_def entry_MarkWaitReply_def entry_UpdateWaitReply_def entry_MarkPermanent_def
  entry_MarkAutoGenerated_def entry_SetMacAddress_def

lemma entry_drain_all:
  "length (ae_pending e) \<le> n \<Longrightarrow> entry_drain (Suc n) e = (ae_pending e, e\<lparr>ae_pending := []\<rparr>)"
proof (induction n arbitrary: e)
  case (Suc n)
  show ?case
  proof (cases "ae_pending e")
    case (Cons p ps)
    then have "entry_drain (Suc n) (e\<lparr>ae_pending := ps\<rparr>) = (ps, e\<lparr>ae_pending := []\<rparr>)"
      using Suc.IH [of "e\<lparr>ae_pending := ps\<rparr>"] Suc.prems by simp
    then show ?thesis using Cons by (simp add: entry_DequeuePending_def del: entry_drain.simps(2) add: entry_drain.simps(2) [of "Suc n"])
  qed (simp add: entry_DequeuePending_def)
qed (simp add: entry_DequeuePending_def)

lemma entry_dequeue_all_eq: "entry_dequeue_all e = (ae_pending e, e\<lparr>ae_pending := []\<rparr>)"
  unfolding entry_dequeue_all_def by (rule entry_drain_all) simp

definition pend :: "arp_map \<Rightarrow> pending multiset" where
  "pend c = mset (concat (map (ae_pending \<circ> snd) c))"

lemma pend_simps [simp]:
  "pend [] = {#}" "pend ((k, e) # r) = mset (ae_pending e) + pend r" "pend (xs @ ys) = pend xs + pend ys"
  by (simp_all add: pend_def)

lemma cache_split:
  assumes "distinct (map fst c)" and "map_of c k = Some e"
  obtains xs ys where "c = xs @ (k, e) # ys" "\<And>e'. cache_update k e' c = xs @ (k, e') # ys"
proof -
  obtain xs ys where c: "c = xs @ (k, e) # ys" using map_of_SomeD [OF assms(2)] split_list by metis
  have "k \<notin> fst ` set xs" "k \<notin> fst ` set ys" using assms(1) c by auto
  then have "cache_update k e' xs = xs" "cache_update k e' ys = ys" for e'
    unfolding cache_update_def by (auto intro!: map_idI simp: image_iff split: if_splits)
  then have "cache_update k e' c = xs @ (k, e') # ys" for e' by (simp add: c cache_update_def)
  then show ?thesis using that c by blast
qed

lemma cache_insert_split:
  obtains xs ys where "c = xs @ ys" "cache_insert k e c = xs @ (k, e) # ys"
proof -
  have "\<exists>xs ys. c = xs @ ys \<and> cache_insert k e c = xs @ (k, e) # ys"
  proof (induction c)
    case (Cons x c)
    obtain j y where x: "x = (j, y)" by (cases x)
    obtain xs ys where "c = xs @ ys" "cache_insert k e c = xs @ (k, e) # ys" using Cons by blast
    then show ?case unfolding x
      by (cases "k < j") (rule exI [of _ "[]"], simp, rule exI [of _ "(j, y) # xs"], simp)
  qed simp
  then show ?thesis using that by blast
qed

section \<open>The invariant\<close>

text \<open>
  A waiting entry has packets (no more than the queue admits), has not used up its retries, and
  the timer fires before it would be expired; an entry that is alive or dead has no packets.
\<close>

definition entry_ok :: "arp_config \<Rightarrow> nat \<Rightarrow> nat option \<Rightarrow> arp_entry \<Rightarrow> bool" where
  "entry_ok cfg now timer e \<longleftrightarrow> ae_lastSeen e \<le> now
     \<and> (ae_state e = WAIT_REPLY \<longrightarrow> (\<exists>t. timer = Some t \<and> t \<le> ae_lastSeen e + ac_waitReplyTimeout cfg)
          \<and> ae_retries e \<le> ac_maxRetries cfg \<and> ae_pending e \<noteq> []
          \<and> length (ae_pending e) \<le> max 1 (ac_pendingQueueSize cfg))
     \<and> (ae_state e = ALIVE \<or> ae_state e = DEAD \<longrightarrow> ae_pending e = [] \<and> ae_retries e = 0)"

definition arp_inv :: "arp_config \<Rightarrow> arp_state \<Rightarrow> bool" where
  "arp_inv cfg st \<longleftrightarrow> as_now st < 2 ^ 63 \<and> distinct (map fst (as_cache st))
     \<and> (\<forall>t. as_timer st = Some t \<longrightarrow> as_now st \<le> t \<and> t \<le> as_now st + ac_waitReplyTimeout cfg)
     \<and> (\<forall>x \<in> set (as_cache st). ae_ipv4Address (snd x) = fst x \<and> entry_ok cfg (as_now st) (as_timer st) (snd x))"

lemma inv_lookup:
  assumes "arp_inv cfg st" and "cache_Lookup k st = Some e"
  shows "entry_ok cfg (as_now st) (as_timer st) e \<and> ae_ipv4Address e = k"
proof -
  have "(k, e) \<in> set (as_cache st)" using assms(2) map_of_SomeD by (metis cache_Lookup_def)
  then show ?thesis using assms(1) unfolding arp_inv_def by force
qed

lemma inv_put:
  assumes inv: "arp_inv cfg st" and k: "cache_Lookup k st = Some e"
    and ok: "entry_ok cfg (as_now st) (as_timer st) e'" "ae_ipv4Address e' = k"
  shows "arp_inv cfg (cache_put k e' st)"
proof -
  obtain xs ys where c: "as_cache st = xs @ (k, e) # ys" "cache_update k e' (as_cache st) = xs @ (k, e') # ys"
    using cache_split [of "as_cache st" k e] inv k by (metis arp_inv_def cache_Lookup_def)
  then show ?thesis using inv ok by (auto simp: arp_inv_def cache_put_def)
qed

lemma pend_put:
  assumes "arp_inv cfg st" and "cache_Lookup k st = Some e"
  shows "pend (as_cache (cache_put k e' st)) + mset (ae_pending e) = pend (as_cache st) + mset (ae_pending e')"
proof -
  obtain xs ys where "as_cache st = xs @ (k, e) # ys" "cache_update k e' (as_cache st) = xs @ (k, e') # ys"
    using cache_split [of "as_cache st" k e] assms by (metis arp_inv_def cache_Lookup_def)
  then show ?thesis by (simp add: cache_put_def)
qed

lemma inv_timer:
  assumes "arp_inv cfg st"
  shows "arp_inv cfg (cache_StartWaitReplyTimer cfg st)"
  using assms by (auto simp: arp_inv_def cache_StartWaitReplyTimer_def entry_ok_def)

lemma not_expired:
  assumes "arp_inv cfg st" and "cache_Lookup k st = Some e" and "entry_IsExpired cfg (as_now st) e"
  shows "ae_state e = ALIVE \<or> ae_state e = DEAD"
proof -
  have e: "entry_ok cfg (as_now st) (as_timer st) e" using inv_lookup [OF assms(1,2)] by blast
  have now: "as_now st < 2 ^ 63" using assms(1) by (simp add: arp_inv_def)
  show ?thesis
  proof (cases "ae_state e")
    case WAIT_REPLY
    then obtain t where "as_timer st = Some t" "t \<le> ae_lastSeen e + ac_waitReplyTimeout cfg"
      using e by (auto simp: entry_ok_def)
    moreover have "as_now st \<le> t" using assms(1) calculation(1) by (simp add: arp_inv_def)
    ultimately show ?thesis using assms(3) WAIT_REPLY by (simp add: entry_IsExpired_def)
  qed (use assms(3) now in \<open>simp_all add: entry_IsExpired_def\<close>)
qed

section \<open>Operations\<close>

text \<open>The packets that the protocol has in its hands, or has passed on or dropped.\<close>

definition arp_account :: "arp_state \<Rightarrow> pending multiset" where
  "arp_account st = pend (as_cache st) + mset (as_drops st) + mset (map fst (as_sent st))"

lemma cache_put_fields [simp]:
  "as_now (cache_put k e st) = as_now st" "as_timer (cache_put k e st) = as_timer st"
  "as_drops (cache_put k e st) = as_drops st" "as_sent (cache_put k e st) = as_sent st"
  by (simp_all add: cache_put_def)

lemma timer_fields [simp]:
  "as_now (cache_StartWaitReplyTimer cfg st) = as_now st" "as_cache (cache_StartWaitReplyTimer cfg st) = as_cache st"
  "as_drops (cache_StartWaitReplyTimer cfg st) = as_drops st" "as_sent (cache_StartWaitReplyTimer cfg st) = as_sent st"
  "cache_StartWaitReplyTimer cfg (cache_put k e st) = cache_put k e (cache_StartWaitReplyTimer cfg st)"
  "cache_Lookup k (cache_StartWaitReplyTimer cfg st) = cache_Lookup k st"
  by (simp_all add: cache_StartWaitReplyTimer_def cache_put_def cache_Lookup_def)

lemma inv_requests [simp]: "arp_inv cfg (st\<lparr>as_requests := r\<rparr>) = arp_inv cfg st"
  "arp_inv cfg (st\<lparr>as_drops := d\<rparr>) = arp_inv cfg st" "arp_inv cfg (st\<lparr>as_sent := x\<rparr>) = arp_inv cfg st"
  "arp_inv cfg (st\<lparr>as_replies := y\<rparr>) = arp_inv cfg st" "arp_inv cfg (st\<lparr>as_rejected := z\<rparr>) = arp_inv cfg st"
  by (simp_all add: arp_inv_def)

lemma arp_wait_ok:
  assumes inv: "arp_inv cfg st" and k: "cache_Lookup k st = Some e" and s: "ae_state e = ALIVE \<or> ae_state e = DEAD"
  shows "\<exists>st'. arp_wait cfg p k e st = Some (None, st') \<and> arp_inv cfg st' \<and> arp_account st' = add_mset p (arp_account st)"
proof -
  let ?t = "cache_StartWaitReplyTimer cfg st"
  let ?e = "e\<lparr>ae_state := WAIT_REPLY, ae_pending := [p], ae_lastSeen := as_now st\<rparr>"
  have e: "ae_pending e = []" "ae_retries e = 0" "ae_ipv4Address e = k"
    using inv_lookup [OF inv k] s by (auto simp: entry_ok_def)
  have it: "arp_inv cfg ?t" by (rule inv_timer [OF inv])
  have kt: "cache_Lookup k ?t = Some e" using k by simp
  obtain t where "as_timer ?t = Some t" by (cases "as_timer st") (auto simp: cache_StartWaitReplyTimer_def)
  then have "entry_ok cfg (as_now ?t) (as_timer ?t) ?e" using it e by (auto simp: entry_ok_def arp_inv_def)
  then have "arp_inv cfg (cache_put k ?e ?t)" using inv_put [OF it kt, of ?e] e(3) by simp
  moreover have "pend (as_cache (cache_put k ?e ?t)) = add_mset p (pend (as_cache st))"
    using pend_put [OF it kt, of ?e] e(1) by simp
  moreover have "arp_wait cfg p k e st = Some (None, (cache_put k ?e ?t)\<lparr>as_requests := as_requests (cache_put k ?e ?t) @ [k]\<rparr>)"
    using s e(1) by (auto simp: arp_wait_def entry_defs Let_def)
  ultimately show ?thesis by (simp add: arp_account_def)
qed

lemma cache_Add_ok:
  assumes inv: "arp_inv cfg st" and k: "cache_Lookup k st = None"
  shows "\<exists>st'. cache_Add k st = Some (entry_new k, st') \<and> arp_inv cfg st' \<and> cache_Lookup k st' = Some (entry_new k)
    \<and> arp_account st' = arp_account st"
proof -
  obtain xs ys where c: "as_cache st = xs @ ys" "cache_insert k (entry_new k) (as_cache st) = xs @ (k, entry_new k) # ys"
    by (rule cache_insert_split)
  let ?st = "st\<lparr>as_cache := cache_insert k (entry_new k) (as_cache st)\<rparr>"
  have nin: "k \<notin> fst ` set xs" "k \<notin> fst ` set ys" using k c(1) by (auto simp: cache_Lookup_def map_of_eq_None_iff)
  then have "distinct (map fst (xs @ (k, entry_new k) # ys))" using inv c(1) by (auto simp: arp_inv_def)
  moreover have "entry_ok cfg (as_now st) (as_timer st) (entry_new k)" "ae_ipv4Address (entry_new k) = k"
    by (simp_all add: entry_ok_def entry_new_def)
  ultimately have "arp_inv cfg ?st" using inv c by (auto simp: arp_inv_def)
  moreover have "cache_Lookup k ?st = Some (entry_new k)"
    using nin c(2) by (simp add: cache_Lookup_def map_add_def map_of_eq_None_iff [THEN iffD2] split: option.split)
  moreover have "arp_account ?st = arp_account st" using c by (simp add: arp_account_def entry_new_def)
  ultimately show ?thesis using k by (simp add: cache_Add_def)
qed

lemma arp_Lookup_ok:
  assumes inv: "arp_inv cfg st"
  shows "\<exists>r st'. arp_Lookup cfg p k st = Some (r, st') \<and> arp_inv cfg st'
    \<and> arp_account st' + (if r = None then {#} else {#p#}) = add_mset p (arp_account st)"
proof (cases "cache_Lookup k st")
  case None
  then obtain st1 where st1: "cache_Add k st = Some (entry_new k, st1)" "arp_inv cfg st1"
    "cache_Lookup k st1 = Some (entry_new k)" "arp_account st1 = arp_account st"
    using cache_Add_ok [OF inv] by blast
  then show ?thesis using arp_wait_ok [OF st1(2,3), of p] None by (auto simp: arp_Lookup_def entry_new_def)
next
  case (Some e)
  note e = inv_lookup [OF inv Some]
  show ?thesis
  proof (cases "entry_IsExpired cfg (as_now st) e")
    case True
    then have "ae_state e = ALIVE \<or> ae_state e = DEAD" by (rule not_expired [OF inv Some])
    then show ?thesis using arp_wait_ok [OF inv Some, of p] True Some by (auto simp: arp_Lookup_def)
  next
    case False
    show ?thesis
    proof (cases "ae_state e = WAIT_REPLY \<and> length (ae_pending e) < ac_pendingQueueSize cfg")
      case True
      let ?e = "e\<lparr>ae_pending := ae_pending e @ [p]\<rparr>"
      have "arp_inv cfg (cache_put k ?e st)" using e True by (intro inv_put [OF inv Some]) (auto simp: entry_ok_def)
      moreover have "pend (as_cache (cache_put k ?e st)) = add_mset p (pend (as_cache st))"
        using pend_put [OF inv Some, of ?e] by simp
      ultimately show ?thesis using True False Some
        by (auto simp: arp_Lookup_def entry_UpdateWaitReply_def arp_account_def)
    next
      case full: False
      have same: "cache_put k e st = st"
      proof -
        obtain xs ys where "as_cache st = xs @ (k, e) # ys" "cache_update k e (as_cache st) = xs @ (k, e) # ys"
          using cache_split [of "as_cache st" k e] inv Some by (metis arp_inv_def cache_Lookup_def)
        then show ?thesis by (simp add: cache_put_def)
      qed
      show ?thesis using full False Some inv
        by (cases "ae_state e") (auto simp: arp_Lookup_def entry_UpdateWaitReply_def arp_account_def same)
    qed
  qed
qed

lemma arp_Receive_ok:
  assumes inv: "arp_inv cfg st"
  shows "\<exists>st'. arp_Receive dev locals arp st = Some st' \<and> arp_inv cfg st' \<and> arp_account st' = arp_account st"
proof (cases "(\<exists>a \<in> set locals. arp_mine dev arp a) \<and> \<not> arp_IsRequest arp
    \<and> (\<exists>e. cache_Lookup (arp_ipv4Source arp) st = Some e \<and> ae_state e = WAIT_REPLY)")
  case True
  let ?k = "arp_ipv4Source arp"
  obtain e where e: "cache_Lookup ?k st = Some e" "ae_state e = WAIT_REPLY" using True by blast
  let ?e = "e\<lparr>ae_macAddress := arp_macSource arp, ae_state := ALIVE, ae_retries := 0, ae_lastSeen := as_now st, ae_pending := []\<rparr>"
  have "arp_inv cfg (cache_put ?k ?e st)"
    using inv_lookup [OF inv e(1)] by (intro inv_put [OF inv e(1)]) (auto simp: entry_ok_def)
  moreover have "pend (as_cache (cache_put ?k ?e st)) + mset (ae_pending e) = pend (as_cache st)"
    using pend_put [OF inv e(1), of ?e] by simp
  moreover have "arp_Receive dev locals arp st
      = Some ((cache_put ?k ?e st)\<lparr>as_sent := as_sent st @ map (\<lambda>p. (p, ?k)) (ae_pending e)\<rparr>)"
    using True e by (simp add: arp_Receive_def entry_defs entry_dequeue_all_eq)
  moreover have "x + d + (s + m) = y + d + s" if "x + m = y" for x d s m y :: "pending multiset" using that by (auto simp: ac_simps)
  ultimately show ?thesis by (simp add: arp_account_def comp_def multiset.map_comp)
next
  case False
  then show ?thesis using inv
    by (auto simp: arp_Receive_def arp_SendArpReply_def arp_account_def split: option.split)
qed

text \<open>The handler of the timer.\<close>

lemma wait_timeout_ok:
  assumes "entry_ok cfg now timer e"
  obtains e' rq dr b where "entry_wait_timeout cfg now e = Some (e', rq, dr, b)"
    "mset (ae_pending e') + mset dr = mset (ae_pending e)" "ae_ipv4Address e' = ae_ipv4Address e"
    "\<And>timer'. (b \<longrightarrow> timer' = Some (now + ac_waitReplyTimeout cfg)) \<Longrightarrow> entry_ok cfg now timer' e'"
proof (cases "ae_state e = WAIT_REPLY")
  case True
  show ?thesis
  proof (cases "ae_retries e < ac_maxRetries cfg")
    case True
    then show ?thesis using \<open>ae_state e = WAIT_REPLY\<close> assms
      by (intro that [of "entry_IncrementRetries now e" "[ae_ipv4Address e]" "[]" True])
        (auto simp: entry_wait_timeout_def entry_defs entry_ok_def)
  next
    case False
    then show ?thesis using \<open>ae_state e = WAIT_REPLY\<close>
      by (intro that [of "e\<lparr>ae_state := DEAD, ae_retries := 0, ae_lastSeen := now, ae_pending := []\<rparr>" "[]" "ae_pending e" False])
        (simp_all add: entry_wait_timeout_def entry_defs entry_dequeue_all_eq entry_ok_def)
  qed
next
  case False
  then show ?thesis using assms by (intro that [of e "[]" "[]" False]) (auto simp: entry_wait_timeout_def entry_ok_def)
qed

lemma cache_scan_ok:
  assumes "\<forall>x \<in> set c. ae_ipv4Address (snd x) = fst x \<and> entry_ok cfg now timer (snd x)"
  shows "\<exists>c' rqs drs b. cache_scan cfg now c = Some (c', rqs, drs, b) \<and> map fst c' = map fst c
    \<and> pend c' + mset drs = pend c
    \<and> (\<forall>timer'. (b \<longrightarrow> timer' = Some (now + ac_waitReplyTimeout cfg)) \<longrightarrow>
         (\<forall>x \<in> set c'. ae_ipv4Address (snd x) = fst x \<and> entry_ok cfg now timer' (snd x)))"
  using assms
proof (induction c)
  case (Cons x c)
  obtain k e where x: "x = (k, e)" by (cases x)
  obtain e' rq dr b where e': "entry_wait_timeout cfg now e = Some (e', rq, dr, b)"
    "mset (ae_pending e') + mset dr = mset (ae_pending e)" "ae_ipv4Address e' = ae_ipv4Address e"
    "\<And>timer'. (b \<longrightarrow> timer' = Some (now + ac_waitReplyTimeout cfg)) \<Longrightarrow> entry_ok cfg now timer' e'"
    using Cons.prems x by (auto elim: wait_timeout_ok [of cfg now timer e])
  obtain c' rqs drs bs where c': "cache_scan cfg now c = Some (c', rqs, drs, bs)" "map fst c' = map fst c"
    "pend c' + mset drs = pend c"
    "\<forall>timer'. (bs \<longrightarrow> timer' = Some (now + ac_waitReplyTimeout cfg)) \<longrightarrow>
       (\<forall>x \<in> set c'. ae_ipv4Address (snd x) = fst x \<and> entry_ok cfg now timer' (snd x))"
    using Cons by auto
  have acc: "(a + p) + (d + q) = (a + d) + (p + q)" for a p d q :: "pending multiset" by (simp add: ac_simps)
  have "pend ((k, e') # c') + mset (dr @ drs) = pend (x # c)"
    using acc [of "mset (ae_pending e')" "pend c'" "mset dr" "mset drs"] e'(2) c'(3) x by simp
  moreover have "cache_scan cfg now (x # c) = Some ((k, e') # c', rq @ rqs, dr @ drs, b \<or> bs)"
    using e'(1) c'(1) x by simp
  moreover have "ae_ipv4Address e' = k" using Cons.prems x e'(3) by simp
  ultimately show ?case using c'(2,4) e'(4) x by auto
qed (auto intro: exI [of _ False])

lemma cache_scan_entry:
  assumes "cache_scan cfg now c = Some (c', rqs, drs, bs)" and "map_of c k = Some e"
  shows "\<exists>e' rq dr b. entry_wait_timeout cfg now e = Some (e', rq, dr, b) \<and> map_of c' k = Some e'
    \<and> set rq \<subseteq> set rqs \<and> set dr \<subseteq> set drs \<and> (b \<longrightarrow> bs)"
  using assms
proof (induction c arbitrary: c' rqs drs bs)
  case (Cons x c)
  obtain j y where x: "x = (j, y)" by (cases x)
  obtain y' rq dr b where y: "entry_wait_timeout cfg now y = Some (y', rq, dr, b)"
    using Cons.prems(1) x by (cases "entry_wait_timeout cfg now y") auto
  obtain c2 rqs2 drs2 b2 where c: "cache_scan cfg now c = Some (c2, rqs2, drs2, b2)"
    using Cons.prems(1) x y by (cases "cache_scan cfg now c") auto
  have s: "c' = (j, y') # c2" "rqs = rq @ rqs2" "drs = dr @ drs2" "bs = (b \<or> b2)"
    using Cons.prems(1) x y c by auto
  show ?case
  proof (cases "j = k")
    case True
    then show ?thesis using Cons.prems(2) x y s by auto
  next
    case False
    then have "map_of c k = Some e" using Cons.prems(2) x by simp
    from Cons.IH [OF c this] show ?thesis using False s by fastforce
  qed
qed simp

lemma HandleWaitReplyTimeout_ok:
  assumes inv: "arp_inv cfg st" and due: "as_timer st = Some (as_now st)"
  shows "\<exists>st'. cache_HandleWaitReplyTimeout cfg (st\<lparr>as_timer := None\<rparr>) = Some st' \<and> arp_inv cfg st'
    \<and> arp_account st' = arp_account st \<and> as_now st' = as_now st"
proof -
  let ?now = "as_now st"
  obtain c' rqs drs b where c: "cache_scan cfg ?now (as_cache st) = Some (c', rqs, drs, b)"
    "map fst c' = map fst (as_cache st)" "pend c' + mset drs = pend (as_cache st)"
    "\<forall>timer'. (b \<longrightarrow> timer' = Some (?now + ac_waitReplyTimeout cfg)) \<longrightarrow>
         (\<forall>x \<in> set c'. ae_ipv4Address (snd x) = fst x \<and> entry_ok cfg ?now timer' (snd x))"
    using cache_scan_ok [of "as_cache st" cfg ?now "as_timer st"] inv by (auto simp: arp_inv_def)
  let ?st = "st\<lparr>as_cache := c', as_requests := as_requests st @ rqs, as_drops := as_drops st @ drs,
       as_timer := (if b then Some (?now + ac_waitReplyTimeout cfg) else None)\<rparr>"
  have "cache_HandleWaitReplyTimeout cfg (st\<lparr>as_timer := None\<rparr>) = Some ?st"
    using c(1) by (simp add: cache_HandleWaitReplyTimeout_def)
  moreover have "arp_inv cfg ?st" using inv c(2,4) by (simp add: arp_inv_def)
  moreover have "x + (d + m) + s = y + d + s" if "x + m = y" for x d s m y :: "pending multiset" using that by (auto simp: ac_simps)
  then have "arp_account ?st = arp_account st" using c(3) by (simp add: arp_account_def)
  ultimately show ?thesis by simp
qed

end
