(* ===== verification/Arp_Resolution.thy ===== *)
theory Arp_Resolution
  imports Arp_Laws
begin

text \<open>
  Runs of address resolution: packets to send, ARP messages, timeouts and changes made by the user
  in any order, with time passing between them; and the properties of every reachable state.
\<close>

text \<open>
  Time never passes a pending timer, because the simulator runs events in order, and stays below
  \<^verbatim>\<open>Time::Max\<close>.  The user adds entries, gives them an address and marks them permanent or automatically
  generated, and removes entries.
\<close>

inductive arp_step :: "arp_config \<Rightarrow> hw_address \<Rightarrow> u32 list \<Rightarrow> arp_state \<Rightarrow> arp_state \<Rightarrow> bool" for cfg dev locals where
  lookup: "arp_Lookup cfg p k st = Some (r, st') \<Longrightarrow> arp_step cfg dev locals st st'"
| receive: "arp_Receive dev locals arp st = Some st' \<Longrightarrow> arp_step cfg dev locals st st'"
| timeout: "as_timer st = Some (as_now st) \<Longrightarrow> cache_HandleWaitReplyTimeout cfg (st\<lparr>as_timer := None\<rparr>) = Some st'
    \<Longrightarrow> arp_step cfg dev locals st st'"
| tick: "as_now st \<le> t \<Longrightarrow> t < 2 ^ 63 \<Longrightarrow> (\<And>x. as_timer st = Some x \<Longrightarrow> t \<le> x) \<Longrightarrow> arp_step cfg dev locals st (st\<lparr>as_now := t\<rparr>)"
| flush: "arp_step cfg dev locals st (cache_Flush st)"
| remove: "arp_step cfg dev locals st (cache_Remove k st)"
| remove_auto: "arp_step cfg dev locals st (cache_RemoveAutoGeneratedEntries st)"
| permanent: "cache_Lookup k st = Some e \<Longrightarrow> entry_MarkPermanent (as_now st) (entry_SetMacAddress m e) = Some e'
    \<Longrightarrow> arp_step cfg dev locals st (cache_put k e' st)"
| auto_generated: "cache_Lookup k st = Some e \<Longrightarrow> entry_MarkAutoGenerated (as_now st) (entry_SetMacAddress m e) = Some e'
    \<Longrightarrow> arp_step cfg dev locals st (cache_put k e' st)"
| add: "cache_Add k st = Some (e, st') \<Longrightarrow> arp_step cfg dev locals st st'"
| confirm: "arp_step cfg dev locals st (arp_refresh source sender st)"

definition arp_init :: arp_state where
  "arp_init = \<lparr>as_now = 0, as_cache = [], as_timer = None, as_requests = [], as_replies = [], as_sent = [],
     as_drops = [], as_rejected = []\<rparr>"

inductive arp_reach :: "arp_config \<Rightarrow> hw_address \<Rightarrow> u32 list \<Rightarrow> arp_state \<Rightarrow> bool" for cfg dev locals where
  arp_start: "arp_reach cfg dev locals arp_init"
| arp_move: "arp_reach cfg dev locals st \<Longrightarrow> arp_step cfg dev locals st st' \<Longrightarrow> arp_reach cfg dev locals st'"

lemma inv_sub:
  assumes "arp_inv cfg st"
  shows "arp_inv cfg (st\<lparr>as_cache := filter P (as_cache st)\<rparr>)"
  using assms by (auto simp: arp_inv_def distinct_map_filter)

lemma inv_fixed:
  assumes inv: "arp_inv cfg st" and k: "cache_Lookup k st = Some e" and s: "s = PERMANENT \<or> s = STATIC_AUTOGENERATED"
  shows "arp_inv cfg (cache_put k (e\<lparr>ae_macAddress := m, ae_state := s, ae_retries := 0, ae_lastSeen := as_now st\<rparr>) st)"
  using inv_lookup [OF inv k] s by (intro inv_put [OF inv k]) (auto simp: entry_ok_def)

lemma inv_refresh:
  assumes "arp_inv cfg st"
  shows "arp_inv cfg (arp_refresh source sender st)"
proof -
  have seen: "entry_ok cfg (as_now st) (as_timer st) (entry_UpdateSeen (as_now st) e)
      \<and> ae_ipv4Address (entry_UpdateSeen (as_now st) e) = ae_ipv4Address e"
    if "entry_ok cfg (as_now st) (as_timer st) e" "ae_state e = ALIVE" for e
    using that by (simp add: entry_ok_def entry_UpdateSeen_def)
  show ?thesis
  proof (cases "cache_Lookup source st")
    case None
    have keys: "map fst (map (\<lambda>(k, e). (k, f k e)) c) = map fst c" for f :: "u32 \<Rightarrow> arp_entry \<Rightarrow> arp_entry" and c :: arp_map
      by (simp add: case_prod_beta comp_def)
    show ?thesis using assms seen None unfolding arp_refresh_def arp_inv_def by (fastforce simp: keys simp del: map_map)
  next
    case (Some e)
    then show ?thesis using inv_put [OF assms Some] inv_lookup [OF assms Some] seen [of e] assms
      by (simp add: arp_refresh_def)
  qed
qed

lemma arp_step_inv:
  assumes "arp_step cfg dev locals st st'" and inv: "arp_inv cfg st"
  shows "arp_inv cfg st'"
  using assms(1)
proof cases
  case (lookup p k r)
  then show ?thesis using arp_Lookup_ok [OF inv, of p k] by auto
next
  case (receive arp)
  then show ?thesis using arp_Receive_ok [OF inv, of dev locals arp] by auto
next
  case timeout
  then show ?thesis using HandleWaitReplyTimeout_ok [OF inv] by auto
next
  case (tick t)
  have "entry_ok cfg t (as_timer st) e" if "entry_ok cfg (as_now st) (as_timer st) e" for e
    using that tick(2) by (auto simp: entry_ok_def)
  moreover have "x \<le> t + ac_waitReplyTimeout cfg" if "as_timer st = Some x" for x
    using inv that tick(2) by (fastforce simp: arp_inv_def)
  ultimately show ?thesis using inv tick by (simp add: arp_inv_def)
next
  case flush
  then show ?thesis using inv by (simp add: arp_inv_def cache_Flush_def)
next
  case (remove k)
  then show ?thesis using inv_sub [OF inv] by (simp add: cache_Remove_def)
next
  case remove_auto
  then show ?thesis using inv_sub [OF inv] by (simp add: cache_RemoveAutoGeneratedEntries_def)
next
  case (permanent k e m e')
  then show ?thesis using inv_fixed [OF inv permanent(2), of PERMANENT m]
    by (auto simp: entry_defs bind_ns_assert split: if_splits)
next
  case (auto_generated k e m e')
  then show ?thesis using inv_fixed [OF inv auto_generated(2), of STATIC_AUTOGENERATED m]
    by (auto simp: entry_defs bind_ns_assert split: if_splits)
next
  case (add k e)
  then have "cache_Lookup k st = None" by (auto simp: cache_Add_def bind_ns_assert split: if_splits)
  then obtain st1 where "cache_Add k st = Some (entry_new k, st1)" "arp_inv cfg st1" using cache_Add_ok [OF inv] by blast
  then show ?thesis using add by simp
next
  case (confirm source sender)
  then show ?thesis using inv_refresh [OF inv] by simp
qed

lemma arp_reach_inv: "arp_reach cfg dev locals st \<Longrightarrow> arp_inv cfg st"
proof (induction rule: arp_reach.induct)
  case arp_start
  show ?case by (simp add: arp_inv_def arp_init_def)
next
  case (arp_move st st')
  then show ?case using arp_step_inv by blast
qed

text \<open>
  C12: address resolution never stops the program.  In every reachable state looking up any
  address, handling any ARP message and the handler of the timer that is due succeed: no
  assertion of the cache fails, and the branch of \<^verbatim>\<open>Lookup\<close> that the source suspects to be
  unreachable (an expired entry that waits for a reply, or a permanent one) is unreachable,
  because the timer fires before the entry expires.  The queue of every waiting entry keeps its
  bound, and so does the number of retries.
\<close>

theorem arp_never_fatal:
  assumes "arp_reach cfg dev locals st"
  shows "arp_Lookup cfg p k st \<noteq> None \<and> arp_Receive dev locals arp st \<noteq> None
    \<and> (as_timer st = Some (as_now st) \<longrightarrow> cache_HandleWaitReplyTimeout cfg (st\<lparr>as_timer := None\<rparr>) \<noteq> None)
    \<and> (\<forall>e. cache_Lookup k st = Some e \<and> ae_state e = WAIT_REPLY \<longrightarrow> \<not> entry_IsExpired cfg (as_now st) e
         \<and> as_timer st \<noteq> None \<and> length (ae_pending e) \<le> max 1 (ac_pendingQueueSize cfg)
         \<and> ae_retries e \<le> ac_maxRetries cfg)"
proof -
  have inv: "arp_inv cfg st" by (rule arp_reach_inv [OF assms])
  have "\<not> entry_IsExpired cfg (as_now st) e \<and> as_timer st \<noteq> None
      \<and> length (ae_pending e) \<le> max 1 (ac_pendingQueueSize cfg) \<and> ae_retries e \<le> ac_maxRetries cfg"
    if "cache_Lookup k st = Some e" "ae_state e = WAIT_REPLY" for e
    using not_expired [OF inv that(1)] inv_lookup [OF inv that(1)] that(2) by (auto simp: entry_ok_def)
  then show ?thesis
    using arp_Lookup_ok [OF inv, of p k] arp_Receive_ok [OF inv, of dev locals arp] HandleWaitReplyTimeout_ok [OF inv]
    by auto
qed

text \<open>How the remaining operations change the account.\<close>

lemma pend_filter: "pend c = pend (filter P c) + pend (filter (\<lambda>x. \<not> P x) c)"
  by (induction c) (auto simp: ac_simps)

lemma pend_key: "distinct (map fst c) \<Longrightarrow> pend (filter (\<lambda>(j, _). j = k) c)
    = (case map_of c k of Some e \<Rightarrow> mset (ae_pending e) | None \<Rightarrow> {#})"
proof (induction c)
  case (Cons x c)
  have "filter (\<lambda>(j, _). j = k) c = []" if "k \<notin> fst ` set c" using that by (force simp: filter_empty_conv)
  then show ?case using Cons by (cases x) auto
qed simp

lemma cache_Remove_account:
  assumes "arp_inv cfg st"
  shows "arp_account st = arp_account (cache_Remove k st)
    + (case cache_Lookup k st of Some e \<Rightarrow> mset (ae_pending e) | None \<Rightarrow> {#})"
proof -
  have "pend (as_cache st) = pend (filter (\<lambda>(j, _). j \<noteq> k) (as_cache st)) + pend (filter (\<lambda>(j, _). j = k) (as_cache st))"
    using pend_filter [of "as_cache st" "\<lambda>(j, _). j \<noteq> k"] by (simp add: case_prod_unfold)
  then show ?thesis using pend_key [of "as_cache st" k] assms
    by (simp add: arp_account_def cache_Remove_def cache_Lookup_def arp_inv_def ac_simps)
qed

lemma cache_RemoveAutoGeneratedEntries_account:
  "arp_account st = arp_account (cache_RemoveAutoGeneratedEntries st)
    + pend (filter (\<lambda>(_, e). ae_state e = STATIC_AUTOGENERATED) (as_cache st))"
  using pend_filter [of "as_cache st" "\<lambda>(_, e). ae_state e \<noteq> STATIC_AUTOGENERATED"]
  by (simp add: arp_account_def cache_RemoveAutoGeneratedEntries_def case_prod_unfold ac_simps)

lemma cache_put_account:
  assumes "arp_inv cfg st" and "cache_Lookup k st = Some e" and "ae_pending e' = ae_pending e"
  shows "arp_account (cache_put k e' st) = arp_account st"
  using pend_put [OF assms(1,2), of e'] assms(3) by (simp add: arp_account_def)

lemma arp_refresh_account:
  assumes "arp_inv cfg st"
  shows "arp_account (arp_refresh source sender st) = arp_account st"
proof (cases "cache_Lookup source st")
  case None
  have "pend (map (\<lambda>(k, e). (k, if ae_macAddress e = sender \<and> ae_state e = ALIVE then entry_UpdateSeen (as_now st) e else e)) c)
      = pend c" for c
    by (induction c) (auto simp: entry_UpdateSeen_def)
  then show ?thesis using None by (simp add: arp_refresh_def arp_account_def)
next
  case (Some e)
  then show ?thesis using cache_put_account [OF assms Some, of "entry_UpdateSeen (as_now st) e"]
    by (simp add: arp_refresh_def entry_UpdateSeen_def)
qed

lemma arp_ReceivePacket_account:
  assumes "arp_inv cfg st" and "arp_ReceivePacket h dev locals bs st = Some st'"
  shows "arp_account st' = arp_account st"
proof -
  obtain arp n where d: "arp_Deserialize h bs = Some (arp, n)"
    using assms(2) by (cases "arp_Deserialize h bs") (auto simp: arp_ReceivePacket_def)
  then show ?thesis using assms(2) arp_Receive_ok [OF assms(1), of dev locals arp]
    by (auto simp: arp_ReceivePacket_def split: if_splits)
qed

text \<open>
  C33: where the packets handed to address resolution are.  Of the packets that wait in the cache, have
  been dropped or have been passed to the interface, taken together with their multiplicities, a
  lookup adds exactly its packet, unless it returns the hardware address and leaves the packet to
  its caller; an ARP message, a timeout, adding an entry, marking one permanent or automatically generated
  and confirming entries change nothing, so a packet can neither get lost nor be duplicated in them.  The
  three operations that remove entries are the exception: \<^verbatim>\<open>Flush\<close>, \<^verbatim>\<open>Remove\<close> and
  \<^verbatim>\<open>RemoveAutoGeneratedEntries\<close> take away exactly the packets that waited in the entries
  they remove, without reporting them as dropped.
\<close>

theorem arp_conserves:
  assumes "arp_reach cfg dev locals st"
  shows "(arp_Lookup cfg p k st = Some (r, st') \<longrightarrow>
      arp_account st' + (if r = None then {#} else {#p#}) = add_mset p (arp_account st))
    \<and> (arp_Receive dev locals arp st = Some st' \<longrightarrow> arp_account st' = arp_account st)
    \<and> (arp_ReceivePacket h dev locals bs st = Some st' \<longrightarrow> arp_account st' = arp_account st)
    \<and> (as_timer st = Some (as_now st) \<longrightarrow> cache_HandleWaitReplyTimeout cfg (st\<lparr>as_timer := None\<rparr>) = Some st'
        \<longrightarrow> arp_account st' = arp_account st)
    \<and> (cache_Add k st = Some (e, st') \<longrightarrow> arp_account st' = arp_account st)
    \<and> (cache_Lookup k st = Some e \<and> (entry_MarkPermanent (as_now st) (entry_SetMacAddress m e) = Some e'
          \<or> entry_MarkAutoGenerated (as_now st) (entry_SetMacAddress m e) = Some e')
        \<longrightarrow> arp_account (cache_put k e' st) = arp_account st)
    \<and> arp_account (arp_refresh source sender st) = arp_account st
    \<and> arp_account st = arp_account (cache_Flush st) + pend (as_cache st)
    \<and> arp_account st = arp_account (cache_Remove k st)
        + (case cache_Lookup k st of Some e \<Rightarrow> mset (ae_pending e) | None \<Rightarrow> {#})
    \<and> arp_account st = arp_account (cache_RemoveAutoGeneratedEntries st)
        + pend (filter (\<lambda>(_, e). ae_state e = STATIC_AUTOGENERATED) (as_cache st))"
proof -
  have inv: "arp_inv cfg st" by (rule arp_reach_inv [OF assms])
  have add: "arp_account st' = arp_account st" if "cache_Add k st = Some (e, st')"
  proof -
    have "cache_Lookup k st = None" using that by (auto simp: cache_Add_def bind_ns_assert split: if_splits)
    then obtain st1 where "cache_Add k st = Some (entry_new k, st1)" "arp_account st1 = arp_account st"
      using cache_Add_ok [OF inv] by blast
    then show ?thesis using that by simp
  qed
  have mark: "arp_account (cache_put k e' st) = arp_account st"
    if "cache_Lookup k st = Some e" "entry_MarkPermanent (as_now st) (entry_SetMacAddress m e) = Some e'
      \<or> entry_MarkAutoGenerated (as_now st) (entry_SetMacAddress m e) = Some e'"
    using that(2) by (intro cache_put_account [OF inv that(1)]) (auto simp: entry_defs bind_ns_assert split: if_splits)
  have flush: "arp_account st = arp_account (cache_Flush st) + pend (as_cache st)"
    by (simp add: arp_account_def cache_Flush_def)
  have rest: "arp_account st' = arp_account st" if "arp_Receive dev locals arp st = Some st' \<or>
      as_timer st = Some (as_now st) \<and> cache_HandleWaitReplyTimeout cfg (st\<lparr>as_timer := None\<rparr>) = Some st'"
    using that arp_Receive_ok [OF inv, of dev locals arp] HandleWaitReplyTimeout_ok [OF inv] by auto
  have "arp_Lookup cfg p k st = Some (r, st') \<longrightarrow>
      arp_account st' + (if r = None then {#} else {#p#}) = add_mset p (arp_account st)"
    using arp_Lookup_ok [OF inv, of p k] by auto
  then show ?thesis
    using rest add mark flush arp_ReceivePacket_account [OF inv, of h dev locals bs st'] arp_refresh_account [OF inv, of source sender]
      cache_Remove_account [OF inv, of k] cache_RemoveAutoGeneratedEntries_account [of st] by (intro conjI impI) blast+
qed

section \<open>Resolutions end\<close>

text \<open>One period of the timer in which nothing else happens.\<close>

definition arp_round :: "arp_config \<Rightarrow> arp_state \<Rightarrow> arp_state option" where
  "arp_round cfg st = do {
     t \<leftarrow> as_timer st;
     cache_HandleWaitReplyTimeout cfg (st\<lparr>as_now := t, as_timer := None\<rparr>)
   }"

fun arp_rounds :: "arp_config \<Rightarrow> nat \<Rightarrow> arp_state \<Rightarrow> arp_state option" where
  "arp_rounds cfg 0 st = Some st"
| "arp_rounds cfg (Suc n) st = do { st \<leftarrow> arp_round cfg st; arp_rounds cfg n st }"

lemma arp_round_ok:
  assumes inv: "arp_inv cfg st" and k: "cache_Lookup k st = Some e" and w: "ae_state e = WAIT_REPLY"
    and lim: "as_now st + ac_waitReplyTimeout cfg < 2 ^ 63"
  shows "\<exists>st' e' rq dr b. arp_round cfg st = Some st' \<and> arp_inv cfg st' \<and> cache_Lookup k st' = Some e'
    \<and> as_now st' \<le> as_now st + ac_waitReplyTimeout cfg
    \<and> entry_wait_timeout cfg (as_now st') e = Some (e', rq, dr, b) \<and> set dr \<subseteq> set (as_drops st')"
proof -
  obtain t where t: "as_timer st = Some t" using inv_lookup [OF inv k] w by (auto simp: entry_ok_def)
  then have b: "as_now st \<le> t" "t \<le> as_now st + ac_waitReplyTimeout cfg" using inv by (auto simp: arp_inv_def)
  let ?st = "st\<lparr>as_now := t\<rparr>"
  have "arp_step cfg [] [] st ?st" using b lim t by (intro tick) auto
  then have inv1: "arp_inv cfg ?st" using inv by (rule arp_step_inv)
  have due: "as_timer ?st = Some (as_now ?st)" using t by simp
  obtain st' where st': "cache_HandleWaitReplyTimeout cfg (?st\<lparr>as_timer := None\<rparr>) = Some st'" "arp_inv cfg st'" "as_now st' = t"
    using HandleWaitReplyTimeout_ok [OF inv1 due] by auto
  then obtain c' rqs drs bs where c1: "cache_scan cfg t (as_cache st) = Some (c', rqs, drs, bs)"
    by (cases "cache_scan cfg t (as_cache st)") (auto simp: cache_HandleWaitReplyTimeout_def)
  then have c: "as_cache st' = c'" "as_drops st' = as_drops st @ drs"
    using st'(1) by (auto simp: cache_HandleWaitReplyTimeout_def)
  obtain e' rq dr b' where e': "entry_wait_timeout cfg t e = Some (e', rq, dr, b')" "map_of c' k = Some e'" "set dr \<subseteq> set drs"
    using cache_scan_entry [OF c1 k [unfolded cache_Lookup_def]] by blast
  then show ?thesis using st' t b c by (auto simp: arp_round_def cache_Lookup_def)
qed

lemma arp_rounds_end:
  assumes "arp_inv cfg st" and "cache_Lookup k st = Some e" and "ae_state e = WAIT_REPLY"
    and "ac_maxRetries cfg - ae_retries e = n" and "as_now st + Suc n * ac_waitReplyTimeout cfg < 2 ^ 63"
  shows "\<exists>st' e'. arp_rounds cfg (Suc n) st = Some st' \<and> cache_Lookup k st' = Some e' \<and> ae_state e' = DEAD
    \<and> ae_pending e' = [] \<and> set (ae_pending e) \<subseteq> set (as_drops st')
    \<and> as_now st' \<le> as_now st + Suc n * ac_waitReplyTimeout cfg"
  using assms
proof (induction n arbitrary: st e)
  case 0
  obtain st' e' rq dr b where r: "arp_round cfg st = Some st'" "cache_Lookup k st' = Some e'"
    "as_now st' \<le> as_now st + ac_waitReplyTimeout cfg"
    "entry_wait_timeout cfg (as_now st') e = Some (e', rq, dr, b)" "set dr \<subseteq> set (as_drops st')"
    using arp_round_ok [OF 0(1-3)] 0(5) by auto
  have "ae_state e' = DEAD" "ae_pending e' = []" "dr = ae_pending e"
    using r(4) 0(3,4) by (auto simp: entry_wait_timeout_def entry_defs entry_dequeue_all_eq)
  then show ?case using r by auto
next
  case (Suc n)
  obtain st' e' rq dr b where r: "arp_round cfg st = Some st'" "arp_inv cfg st'" "cache_Lookup k st' = Some e'"
    "as_now st' \<le> as_now st + ac_waitReplyTimeout cfg" "entry_wait_timeout cfg (as_now st') e = Some (e', rq, dr, b)"
    using arp_round_ok [OF Suc.prems(1-3)] Suc.prems(5) by auto
  have e': "ae_state e' = WAIT_REPLY" "ae_pending e' = ae_pending e" "ac_maxRetries cfg - ae_retries e' = n"
    using r(5) Suc.prems(3,4) by (auto simp: entry_wait_timeout_def entry_defs split: if_splits)
  have "as_now st' + Suc n * ac_waitReplyTimeout cfg < 2 ^ 63" using r(4) Suc.prems(5) by simp
  from Suc.IH [OF r(2,3) e'(1,3) this] obtain st2 e2 where
    "arp_rounds cfg (Suc n) st' = Some st2" "cache_Lookup k st2 = Some e2" "ae_state e2 = DEAD" "ae_pending e2 = []"
    "set (ae_pending e') \<subseteq> set (as_drops st2)" "as_now st2 \<le> as_now st' + Suc n * ac_waitReplyTimeout cfg" by blast
  then show ?case using r(1,4) e'(2) by auto
qed

text \<open>
  A resolution that gets no answer ends.  After one period of the timer for each retry that is
  left and one more, an entry that nobody answers is dead, its packets have been dropped, and no
  more time has passed than those periods.
\<close>

theorem arp_gives_up:
  assumes "arp_reach cfg dev locals st" and "cache_Lookup k st = Some e" and "ae_state e = WAIT_REPLY"
    and "n = ac_maxRetries cfg - ae_retries e" and "as_now st + Suc n * ac_waitReplyTimeout cfg < 2 ^ 63"
  shows "\<exists>st' e'. arp_rounds cfg (Suc n) st = Some st' \<and> cache_Lookup k st' = Some e' \<and> ae_state e' = DEAD
    \<and> ae_pending e' = [] \<and> set (ae_pending e) \<subseteq> set (as_drops st')
    \<and> as_now st' \<le> as_now st + Suc n * ac_waitReplyTimeout cfg"
  by (rule arp_rounds_end [OF arp_reach_inv [OF assms(1)] assms(2,3) assms(4) [symmetric] assms(5)])

text \<open>
  An answer ends the wait.  When the answer to a pending request arrives for one of the
  addresses of the interface, the entry becomes alive with the announced hardware address and all
  packets that waited are passed on in their order; until the entry expires, lookups return that
  address at once.
\<close>

theorem arp_answer:
  assumes "arp_reach cfg dev locals st" and "cache_Lookup k st = Some e" and "ae_state e = WAIT_REPLY"
    and "arp_IsReply arp" and "arp_ipv4Source arp = k" and "arp_ipv4Dest arp \<in> set locals" and "arp_macDest arp = dev"
  shows "\<exists>st'. arp_Receive dev locals arp st = Some st' \<and> as_sent st' = as_sent st @ map (\<lambda>p. (p, k)) (ae_pending e)
    \<and> (\<forall>t \<le> ac_aliveTimeout cfg. arp_Lookup cfg p k (st'\<lparr>as_now := as_now st + t\<rparr>)
         = Some (Some (arp_macSource arp), st'\<lparr>as_now := as_now st + t\<rparr>))"
proof -
  have inv: "arp_inv cfg st" by (rule arp_reach_inv [OF assms(1)])
  let ?e = "e\<lparr>ae_macAddress := arp_macSource arp, ae_state := ALIVE, ae_retries := 0, ae_lastSeen := as_now st, ae_pending := []\<rparr>"
  let ?st = "(cache_put k ?e st)\<lparr>as_sent := as_sent st @ map (\<lambda>p. (p, k)) (ae_pending e)\<rparr>"
  have "\<not> arp_IsRequest arp" "\<exists>a \<in> set locals. arp_mine dev arp a"
    using assms(4,6,7) by (auto simp: arp_IsRequest_def arp_IsReply_def arp_mine_def)
  then have run: "arp_Receive dev locals arp st = Some ?st"
    using assms(2,3,5) by (simp add: arp_Receive_def entry_defs entry_dequeue_all_eq)
  obtain xs ys where c: "as_cache st = xs @ (k, e) # ys" "cache_update k ?e (as_cache st) = xs @ (k, ?e) # ys"
    using cache_split [of "as_cache st" k e] inv assms(2) by (metis arp_inv_def cache_Lookup_def)
  have "map_of (xs @ (k, ?e) # ys) k = Some ?e"
    using inv c(1) by (auto simp: arp_inv_def map_add_def map_of_eq_None_iff [THEN iffD2] image_iff split: option.split)
  then have "cache_Lookup k ?st = Some ?e" using c(2) by (simp add: cache_Lookup_def cache_put_def)
  then have "arp_Lookup cfg p k (?st\<lparr>as_now := as_now st + t\<rparr>)
      = Some (Some (arp_macSource arp), ?st\<lparr>as_now := as_now st + t\<rparr>)" if "t \<le> ac_aliveTimeout cfg" for t
    using that by (simp add: arp_Lookup_def cache_Lookup_def entry_IsExpired_def)
  then show ?thesis using run by auto
qed

section \<open>A concrete resolution\<close>

definition sample_arp :: arp_config where
  "sample_arp = \<lparr>ac_aliveTimeout = 120, ac_deadTimeout = 100, ac_waitReplyTimeout = 1, ac_maxRetries = 3, ac_pendingQueueSize = 3\<rparr>"

definition sample_packet :: pending where
  "sample_packet = ([1, 2, 3], Ipv4Header_init)"

lemma waiting_arp:
  obtains st e where "arp_reach sample_arp [6] [5] st" "cache_Lookup 7 st = Some e" "ae_state e = WAIT_REPLY"
    "ae_retries e = 0" "ae_pending e = [sample_packet]" "as_now st = 0" "as_sent st = []"
proof -
  let ?e = "(entry_new 7)\<lparr>ae_state := WAIT_REPLY, ae_pending := [sample_packet]\<rparr>"
  let ?st = "arp_init\<lparr>as_cache := [(7, ?e)], as_timer := Some 1, as_requests := [7]\<rparr>"
  have "arp_Lookup sample_arp sample_packet 7 arp_init = Some (None, ?st)"
    by (simp add: arp_Lookup_def cache_Lookup_def arp_init_def cache_Add_def arp_wait_def entry_defs entry_new_def
        cache_put_def cache_update_def cache_StartWaitReplyTimer_def sample_arp_def)
  then have "arp_reach sample_arp [6] [5] ?st" by (intro arp_move [OF arp_start lookup])
  moreover have "cache_Lookup 7 ?st = Some ?e" by (simp add: cache_Lookup_def)
  ultimately show ?thesis using that [of ?st ?e] by (simp add: arp_init_def entry_new_def)
qed

theorem arp_never_fatal_witness:
  "\<exists>st e. cache_Lookup 7 st = Some e \<and> ae_state e = WAIT_REPLY \<and> arp_Lookup sample_arp sample_packet 7 st \<noteq> None
    \<and> entry_IsExpired sample_arp (as_now st) e = False \<and> length (ae_pending e) \<le> 3"
proof (rule waiting_arp, goal_cases)
  case (1 st e)
  then show ?case
    using arp_never_fatal [OF 1(1), of sample_packet 7] by (intro exI [of _ st] exI [of _ e]) (simp add: sample_arp_def)
qed

theorem arp_conserves_witness:
  "\<exists>st r st'. arp_Lookup sample_arp sample_packet 7 st = Some (r, st') \<and> r = None
    \<and> arp_account st' = add_mset sample_packet (arp_account st)
    \<and> arp_account st = add_mset sample_packet (arp_account (cache_Remove 7 st))"
proof (rule waiting_arp, goal_cases)
  case (1 st e)
  have q: "\<not> entry_IsExpired sample_arp (as_now st) e" using 1(6) by (simp add: entry_IsExpired_def)
  obtain r st' where r: "arp_Lookup sample_arp sample_packet 7 st = Some (r, st')"
    using arp_Lookup_ok [OF arp_reach_inv [OF 1(1)]] by blast
  then have "r = None" using 1(2,3,5) q by (auto simp: arp_Lookup_def entry_UpdateWaitReply_def sample_arp_def)
  moreover note c = arp_conserves [OF 1(1), where p = sample_packet and k = 7 and r = r and st' = st']
  have "arp_account st = arp_account (cache_Remove 7 st) + (case cache_Lookup 7 st of Some e \<Rightarrow> mset (ae_pending e) | None \<Rightarrow> {#})"
    using c by blast
  moreover have "arp_account st' + (if r = None then {#} else {#sample_packet#}) = add_mset sample_packet (arp_account st)"
    using c r by blast
  ultimately have "arp_Lookup sample_arp sample_packet 7 st = Some (r, st') \<and> r = None
    \<and> arp_account st' = add_mset sample_packet (arp_account st)
    \<and> arp_account st = add_mset sample_packet (arp_account (cache_Remove 7 st))" using r 1(2,5) by simp
  then show ?case by blast
qed

theorem arp_gives_up_witness:
  "\<exists>st st' e'. arp_rounds sample_arp 4 st = Some st' \<and> cache_Lookup 7 st' = Some e' \<and> ae_state e' = DEAD
    \<and> sample_packet \<in> set (as_drops st') \<and> as_now st' \<le> 4"
proof (rule waiting_arp, goal_cases)
  case (1 st e)
  have n: "(3 :: nat) = ac_maxRetries sample_arp - ae_retries e" using 1(4) by (simp add: sample_arp_def)
  have "\<exists>st' e'. arp_rounds sample_arp (Suc 3) st = Some st' \<and> cache_Lookup 7 st' = Some e' \<and> ae_state e' = DEAD
    \<and> ae_pending e' = [] \<and> set (ae_pending e) \<subseteq> set (as_drops st')
    \<and> as_now st' \<le> as_now st + Suc 3 * ac_waitReplyTimeout sample_arp"
    by (rule arp_gives_up [OF 1(1-3) n]) (simp add: 1(6) sample_arp_def)
  moreover have "Suc 3 = 4" "ac_waitReplyTimeout sample_arp = 1" by (simp_all add: sample_arp_def)
  ultimately show ?case using 1(5,6) by (auto simp del: arp_rounds.simps)
qed

theorem arp_answer_witness:
  "\<exists>st arp st'. arp_Receive [6] [5] arp st = Some st' \<and> as_sent st' = [(sample_packet, 7)]"
proof (rule waiting_arp, goal_cases)
  case (1 st e)
  let ?a = "\<lparr>arp_type = 2, arp_macSource = [9], arp_macDest = [6], arp_ipv4Source = 7, arp_ipv4Dest = 5\<rparr>"
  have "\<exists>st'. arp_Receive [6] [5] ?a st = Some st' \<and> as_sent st' = [(sample_packet, 7)]"
    using arp_answer [OF 1(1-3), of ?a sample_packet] 1(5,7) by (auto simp: arp_IsReply_def)
  then show ?case by blast
qed

end
