(* ===== verification/Ipv4_Delivery.thy ===== *)
theory Ipv4_Delivery
  imports Ipv4_Forwarding Arp_Resolution
begin

text \<open>
  The input side: \<^verbatim>\<open>Ipv4L3Protocol::Receive\<close> (src/internet/model/ipv4-l3-protocol.cc) from the
  bytes of a frame to forwarding or local delivery, \<^verbatim>\<open>Ipv4Interface::Send\<close>
  (src/internet/model/ipv4-interface.cc), and the way of a packet from \<^verbatim>\<open>Send\<close> at one node to
  delivery at another.
\<close>

section \<open>Definitions\<close>

text \<open>\<open>sk_arp i\<close> is the ARP cache of interface \<open>i\<close>, if it has one.  Raw sockets are left out.\<close>

record ipv4_stack =
  sk_node :: ipv4_node
  sk_sender :: ipv4_sender
  sk_reasm :: l3_state
  sk_arp :: "nat \<Rightarrow> arp_state option"

definition sk_dropped :: "drop_reason \<Rightarrow> ip_packet \<Rightarrow> nat \<Rightarrow> ipv4_stack \<Rightarrow> ipv4_stack" where
  "sk_dropped reason x interface sk =
     sk\<lparr>sk_sender := (sk_sender sk)\<lparr>sn_drop := sn_drop (sk_sender sk) @ [(reason, x, interface)]\<rparr>\<rparr>"

text \<open>
  What follows the decision of the routing protocol.  The result is the packet that is passed to
  the protocols above, if any.
\<close>

definition l3_dispatch :: "nat \<Rightarrow> bool \<Rightarrow> nat \<Rightarrow> (ptr \<Rightarrow> u16) \<Rightarrow> route_input \<Rightarrow> u8 list \<Rightarrow> ipv4_header \<Rightarrow> nat
    \<Rightarrow> ipv4_stack \<Rightarrow> (ip_packet option \<times> ipv4_stack) frag_result" where
  "l3_dispatch fuel checksumEnabled timeout mtu decision packet ipHeader interface sk = (case decision of
       UnicastForward rt \<Rightarrow>
         frag_bind (l3_IpForward fuel checksumEnabled mtu (nd_ifs (sk_node sk)) rt packet ipHeader (sk_sender sk))
           (\<lambda>s. FragDone (None, sk\<lparr>sk_sender := s\<rparr>))
     | MulticastForward m \<Rightarrow>
         frag_bind (l3_IpMulticastForward fuel checksumEnabled mtu (nd_ifs (sk_node sk)) m packet ipHeader (sk_sender sk))
           (\<lambda>s. FragDone (None, sk\<lparr>sk_sender := s\<rparr>))
     | LocalDelivery iif \<Rightarrow>
         or_abort (l3_LocalDeliver timeout packet ipHeader iif (sk_reasm sk))
           (\<lambda>(d, st). FragDone (d, sk\<lparr>sk_reasm := st\<rparr>))
     | RouteError e \<Rightarrow> FragDone (None, sk\<lparr>sk_sender := l3_RouteInputError packet ipHeader (sk_sender sk)\<rparr>)
     | NotRouted \<Rightarrow> FragDone (None, sk_dropped DROP_NO_ROUTE (packet, ipHeader) interface sk))"

definition l3_Receive :: "nat \<Rightarrow> bool \<Rightarrow> nat \<Rightarrow> (ptr \<Rightarrow> u16) \<Rightarrow> ptr \<Rightarrow> hw_address \<Rightarrow> u8 list
    \<Rightarrow> ipv4_stack \<Rightarrow> (ip_packet option \<times> ipv4_stack) frag_result" where
  "l3_Receive fuel checksumEnabled timeout mtu device sender frame sk =
     (let st = nd_ifs (sk_node sk) in
      or_abort (l3_GetInterfaceForDevice device st) (\<lambda>interface.
      or_abort (l3_GetInterface interface st) (\<lambda>ipv4Interface.
        if \<not> if_ifup ipv4Interface
        then or_abort (ip_Deserialize Ipv4Header_init frame) (\<lambda>(ipHeader, n).
          FragDone (None, sk_dropped DROP_INTERFACE_DOWN (drop n frame, ipHeader) interface sk))
        else or_abort (ip_Deserialize (if checksumEnabled then ip_EnableChecksum Ipv4Header_init else Ipv4Header_init) frame)
          (\<lambda>(ipHeader, n).
            let packet = drop n frame;
                packet = (if unat (ip_payloadSize ipHeader) < length packet
                          then take (unat (ip_payloadSize ipHeader)) packet else packet) in
            if \<not> ip_goodChecksum ipHeader
            then FragDone (None, sk_dropped DROP_BAD_CHECKSUM (packet, ipHeader) interface sk)
            else let sk = sk\<lparr>sk_arp := (sk_arp sk)(interface :=
                     map_option (arp_refresh (ip_source ipHeader) sender) (sk_arp sk interface))\<rparr> in
              or_abort (sr_RouteInput st (ip_source ipHeader) (ip_destination ipHeader) device True (nd_routing (sk_node sk)))
                (\<lambda>decision. l3_dispatch fuel checksumEnabled timeout mtu decision packet ipHeader interface sk)))))"

text \<open>Frames that arrive one after the other at a device.\<close>

fun l3_receive_all :: "nat \<Rightarrow> bool \<Rightarrow> nat \<Rightarrow> (ptr \<Rightarrow> u16) \<Rightarrow> ptr \<Rightarrow> hw_address \<Rightarrow> u8 list list
    \<Rightarrow> ipv4_stack \<Rightarrow> (ip_packet option list \<times> ipv4_stack) frag_result" where
  "l3_receive_all fuel ck T mtu device sender [] sk = FragDone ([], sk)"
| "l3_receive_all fuel ck T mtu device sender (x # r) sk =
     frag_bind (l3_Receive fuel ck T mtu device sender x sk) (\<lambda>(d, sk).
     frag_bind (l3_receive_all fuel ck T mtu device sender r sk) (\<lambda>(ds, sk). FragDone (d # ds, sk)))"

text \<open>
  \<^verbatim>\<open>Ipv4Interface::Send\<close>.  The virtual functions of \<^verbatim>\<open>NetDevice\<close> are a record of the device.
  The result says what becomes of the packet: nothing (the interface is down), the frame is sent
  over the loopback device, it is received by the node itself, it is handed to the traffic
  control layer with a hardware address, or address resolution has taken it.
\<close>

record net_device =
  dev_loopback :: bool
  dev_needsArp :: bool
  dev_isMulticast :: bool
  dev_broadcast :: hw_address
  dev_multicast :: "u32 \<Rightarrow> hw_address"

datatype if_output = IfDown | IfLoopback "u8 list" | IfSelf "u8 list" | IfTransmit hw_address ip_packet | IfResolving

definition if_Send :: "net_device \<Rightarrow> arp_config \<Rightarrow> ip_packet \<Rightarrow> u32 \<Rightarrow> ipv4_interface \<Rightarrow> arp_state
    \<Rightarrow> (if_output \<times> arp_state) option" where
  "if_Send dev cfg x dest f arp =
     (if \<not> if_ifup f then Some (IfDown, arp)
      else if dev_loopback dev then Some (IfLoopback (ip_Serialize (snd x) @ fst x), arp)
      else if list_ex (\<lambda>a. dest = ia_local a) (if_ifaddrs f) then Some (IfSelf (ip_Serialize (snd x) @ fst x), arp)
      else if dev_needsArp dev then do {
        (found, arp) \<leftarrow> (if addr_IsBroadcast dest then Some (Some (dev_broadcast dev), arp)
          else if addr_IsMulticast dest
          then do { ns_assert (dev_isMulticast dev); Some (Some (dev_multicast dev dest), arp) }
          else if list_ex (\<lambda>a. addr_IsSubnetDirectedBroadcast (ia_mask a) dest) (if_ifaddrs f)
          then Some (Some (dev_broadcast dev), arp)
          else arp_Lookup cfg x dest arp);
        Some (case found of Some hw \<Rightarrow> IfTransmit hw x | None \<Rightarrow> IfResolving, arp)
      }
      else Some (IfTransmit (dev_broadcast dev) x, arp))"

section \<open>Frames with padding\<close>

text \<open>The frame of a packet with the padding of the link layer.\<close>

definition frame_of :: "ip_packet \<Rightarrow> u8 list \<Rightarrow> u8 list" where
  "frame_of x pad = ip_Serialize (snd x) @ fst x @ pad"

text \<open>A node at which the packets to a destination end.\<close>

definition ends_at :: "u32 \<Rightarrow> ptr \<Rightarrow> nat \<Rightarrow> ipv4_node \<Rightarrow> bool" where
  "ends_at dest device j nd \<longleftrightarrow> l3_reverse (nd_ifs nd) device = Some j \<and> j < length (l3_interfaces (nd_ifs nd))
     \<and> if_ifup (l3_interfaces (nd_ifs nd) ! j) \<and> \<not> addr_IsMulticast dest
     \<and> (\<exists>a \<in> set (if_ifaddrs (l3_interfaces (nd_ifs nd) ! j)). ia_local a = dest)"

definition received :: "bool \<Rightarrow> ip_packet \<Rightarrow> ip_packet" where
  "received ck x = (fst x, ip_result (snd x) (if ck then ip_EnableChecksum Ipv4Header_init else Ipv4Header_init))"

lemma received_fields [simp]:
  "fst (received ck x) = fst x" "ip_source (snd (received ck x)) = ip_source (snd x)"
  "ip_destination (snd (received ck x)) = ip_destination (snd x)" "ip_protocol (snd (received ck x)) = ip_protocol (snd x)"
  "ip_identification (snd (received ck x)) = ip_identification (snd x)" "ip_flags (snd (received ck x)) = ip_flags (snd x)"
  "ip_fragmentOffset (snd (received ck x)) = ip_fragmentOffset (snd x)" "ip_payloadSize (snd (received ck x)) = ip_payloadSize (snd x)"
  "ip_ttl (snd (received ck x)) = ip_ttl (snd x)"
  by (simp_all add: received_def ip_result_def)

lemma received_last [simp]: "ip_IsLastFragment (snd (received ck x)) = ip_IsLastFragment (snd x)"
  by (simp add: ip_IsLastFragment_def)

definition wire_ok :: "bool \<Rightarrow> u32 \<Rightarrow> ip_packet \<Rightarrow> bool" where
  "wire_ok ck dest x \<longleftrightarrow> ip_fragmentOffset (snd x) AND 0x7 = 0 \<and> ip_flags (snd x) AND 4 = 0
     \<and> (ck \<longrightarrow> ip_calcChecksum (snd x)) \<and> unat (ip_payloadSize (snd x)) = length (fst x) \<and> ip_destination (snd x) = dest"

lemma Receive_local:
  assumes "ends_at dest device j (sk_node sk)" and "wire_ok ck dest x"
  shows "\<exists>sk'. sk_reasm sk' = sk_reasm sk \<and> sk_node sk' = sk_node sk \<and> sk_sender sk' = sk_sender sk
    \<and> l3_Receive fuel ck T mtu device sender (frame_of x pad) sk =
      or_abort (l3_LocalDeliver T (fst x) (snd (received ck x)) j (sk_reasm sk)) (\<lambda>(d, st). FragDone (d, sk'\<lparr>sk_reasm := st\<rparr>))"
proof -
  let ?r = "if ck then ip_EnableChecksum Ipv4Header_init else Ipv4Header_init"
  let ?st = "nd_ifs (sk_node sk)"
  let ?h = "snd (received ck x)"
  have ok: "ip_ok (snd x) ?r" using assms(2) by (auto simp: wire_ok_def ip_ok_def Ipv4Header_init_def)
  have read: "ip_Deserialize ?r (frame_of x pad) = Some (?h, 20)"
    unfolding frame_of_def received_def snd_conv using ip_read [OF ok, of "fst x @ pad"] by simp
  have rest: "drop 20 (frame_of x pad) = fst x @ pad" by (simp add: frame_of_def ip_Serialize_length)
  have trim: "(if unat (ip_payloadSize ?h) < length (fst x @ pad) then take (unat (ip_payloadSize ?h)) (fst x @ pad)
      else fst x @ pad) = fst x" using assms(2) by (auto simp: wire_ok_def)
  have good: "ip_goodChecksum ?h" by (simp add: received_def ip_result_def ip_EnableChecksum_def Ipv4Header_init_def)
  have route: "sr_RouteInput ?st (ip_source ?h) (ip_destination ?h) device True (nd_routing (sk_node sk)) = Some (LocalDelivery j)"
    using assms by (auto simp: sr_RouteInput_def ends_at_def wire_ok_def l3_GetInterfaceForDevice_def
        l3_IsDestinationAddress_def l3_GetInterface_def addr_on_def list_ex_iff)
  let ?sk = "sk\<lparr>sk_arp := (sk_arp sk)(j := map_option (arp_refresh (ip_source ?h) sender) (sk_arp sk j))\<rparr>"
  have dev: "l3_GetInterfaceForDevice device ?st = Some j" "l3_GetInterface j ?st = Some (l3_interfaces ?st ! j)"
    "if_ifup (l3_interfaces ?st ! j)"
    using assms(1) by (simp_all add: ends_at_def l3_GetInterfaceForDevice_def l3_GetInterface_def)
  have "l3_Receive fuel ck T mtu device sender (frame_of x pad) sk = l3_dispatch fuel ck T mtu (LocalDelivery j) (fst x) ?h j ?sk"
    unfolding l3_Receive_def Let_def or_abort_def dev(1,2) option.case read rest prod.case trim
    using route by (simp only: dev(3) good not_True_eq_False if_False ipv4_stack.simps ipv4_stack.update_convs option.case) simp
  then show ?thesis by (intro exI [of _ ?sk]) (simp add: l3_dispatch_def)
qed

section \<open>Delivery of fragments\<close>

text \<open>The header that goes up with a reassembled packet.\<close>

definition whole :: "u8 list \<Rightarrow> ipv4_header \<Rightarrow> ipv4_header" where
  "whole q h = ip_SetPayloadSize (of_nat (length q)) (h\<lparr>ip_fragmentOffset := 0\<rparr>)"

definition deliveries :: "bool \<Rightarrow> (bool \<times> u8 list) list \<Rightarrow> ip_packet list \<Rightarrow> ip_packet option list" where
  "deliveries ck rs xs = map2 (\<lambda>r x. if fst r then Some (snd r, whole (snd r) (snd (received ck x))) else None) rs xs"

lemma LocalDeliver_fragment:
  assumes "\<not> ip_IsLastFragment h \<or> ip_fragmentOffset h \<noteq> 0" and "l3_ProcessFragment T q h j st = Some (c, q', st')"
  shows "l3_LocalDeliver T q h j st = Some (if c then Some (q', whole q' h) else None, st')"
  using assms by (simp add: l3_LocalDeliver_def ip_GetFragmentOffset_def ip_SetFragmentOffset_def whole_def)

lemma receive_all_fragments:
  assumes "ends_at dest device j (sk_node sk)"
    and "\<forall>x \<in> set xs. wire_ok ck dest x \<and> (\<not> ip_IsLastFragment (snd x) \<or> ip_fragmentOffset (snd x) \<noteq> 0)"
    and "list_all2 (\<lambda>x f. \<exists>pad. f = frame_of x pad) xs frames"
    and "l3_receive T (map (received ck) xs) j (sk_reasm sk) = Some (rs, st')"
  shows "\<exists>sk'. l3_receive_all fuel ck T mtu device sender frames sk = FragDone (deliveries ck rs xs, sk')
    \<and> sk_reasm sk' = st' \<and> sk_node sk' = sk_node sk \<and> sk_sender sk' = sk_sender sk"
  using assms
proof (induction xs arbitrary: sk frames rs)
  case Nil
  then show ?case by (simp add: deliveries_def)
next
  case (Cons x xs)
  obtain pad frs where frs: "frames = frame_of x pad # frs" "list_all2 (\<lambda>x f. \<exists>pad. f = frame_of x pad) xs frs"
    using Cons.prems(3) by (auto simp: list_all2_Cons1)
  obtain c q st1 where p: "l3_ProcessFragment T (fst x) (snd (received ck x)) j (sk_reasm sk) = Some (c, q, st1)"
    using Cons.prems(4) by (cases "l3_ProcessFragment T (fst x) (snd (received ck x)) j (sk_reasm sk)") auto
  then obtain rs1 where rs1: "l3_receive T (map (received ck) xs) j st1 = Some (rs1, st')" "rs = (c, q) # rs1"
    using Cons.prems(4) by (cases "l3_receive T (map (received ck) xs) j st1") auto
  let ?d = "if c then Some (q, whole q (snd (received ck x))) else None"
  have ld: "l3_LocalDeliver T (fst x) (snd (received ck x)) j (sk_reasm sk) = Some (?d, st1)"
    using Cons.prems(2) p by (intro LocalDeliver_fragment) simp_all
  obtain sk1 where sk1: "sk_node sk1 = sk_node sk" "sk_sender sk1 = sk_sender sk"
    "l3_Receive fuel ck T mtu device sender (frame_of x pad) sk = FragDone (?d, sk1\<lparr>sk_reasm := st1\<rparr>)"
    using Receive_local [OF Cons.prems(1), of ck x fuel T mtu sender pad] Cons.prems(2) ld by (auto simp: or_abort_def)
  obtain sk2 where sk2: "l3_receive_all fuel ck T mtu device sender frs (sk1\<lparr>sk_reasm := st1\<rparr>) = FragDone (deliveries ck rs1 xs, sk2)"
    "sk_reasm sk2 = st'" "sk_node sk2 = sk_node sk" "sk_sender sk2 = sk_sender sk"
    using Cons.IH [of "sk1\<lparr>sk_reasm := st1\<rparr>" frs rs1] Cons.prems(1,2) frs(2) rs1(1) sk1(1,2) by auto
  then show ?case using sk1(3) by (auto simp: frs(1) rs1(2) deliveries_def)
qed

lemma contiguous_received: "contiguous k (map (received ck) fs) = contiguous k fs"
  by (induction fs arbitrary: k) simp_all

lemma sole_fragment:
  assumes "concat (map fst fs) = p" and "\<forall>x \<in> set fs. fst x \<noteq> []" and "x \<in> set fs" and "length (fst x) = length p"
  shows "length fs = 1"
proof -
  obtain as bs where fs: "fs = as @ x # bs" using split_list [OF assms(3)] by blast
  then have "p = concat (map fst as) @ fst x @ concat (map fst bs)" using assms(1) by simp
  then have "length (concat (map fst as)) = 0" "length (concat (map fst bs)) = 0" using assms(4) by simp_all
  then have "\<forall>y \<in> set as. fst y = []" "\<forall>y \<in> set bs. fst y = []" by simp_all
  then have "as = []" "bs = []" using assms(2) fs by (metis in_set_conv_decomp_first list.exhaust list.set_intros(1) Un_iff set_append insertCI list.simps(15))+
  then show ?thesis using fs by simp
qed

lemma deliveries_last:
  assumes "map fst rs = replicate (length xs - 1) False @ [True]" and "length rs = length xs"
  shows "\<exists>x \<in> set xs. deliveries ck rs xs = replicate (length xs - 1) None @ [Some (snd (last rs), whole (snd (last rs)) (snd (received ck x)))]"
  using assms
proof (induction xs arbitrary: rs)
  case (Cons x xs)
  then obtain r rs1 where rs: "rs = r # rs1" by (cases rs) auto
  show ?case
  proof (cases xs)
    case Nil
    then show ?thesis using Cons.prems rs by (simp add: deliveries_def)
  next
    case (Cons y ys)
    then have "map fst rs1 = replicate (length xs - 1) False @ [True]" "length rs1 = length xs" "\<not> fst r" "rs1 \<noteq> []"
      using Cons.prems rs by auto
    from Cons.IH [OF this(1,2)] this(3,4) show ?thesis using rs Cons by (auto simp: deliveries_def)
  qed
qed simp

lemma deliver_fragments:
  assumes at: "ends_at (ip_destination h) device j (sk_node sk)"
    and sent: "sent_as p p h n fs" and h: "ip_fragmentOffset h = 0" "ip_flags h AND 4 = 0" "ck \<longrightarrow> ip_calcChecksum h"
    and p: "p \<noteq> []" "length p \<le> 65535"
    and inv: "l3_inv T S (sk_reasm sk)" "S (frag_key h) = p" "l3_fragments (sk_reasm sk) (frag_key h) = None"
    and xs: "mset xs = mset fs" and frames: "list_all2 (\<lambda>x f. \<exists>pad. f = frame_of x pad) xs frames"
  shows "\<exists>x sk'. l3_receive_all fuel ck T mtu device sender frames sk =
      FragDone (replicate (length frames - 1) None @ [Some (p, x)], sk')
    \<and> ip_source x = ip_source h \<and> ip_destination x = ip_destination h \<and> ip_protocol x = ip_protocol h
    \<and> unat (ip_payloadSize x) = length p
    \<and> l3_fragments (sk_reasm sk') = l3_fragments (sk_reasm sk) \<and> sk_node sk' = sk_node sk"
proof -
  have fs: "concat (map fst fs) = p" "contiguous 0 fs" "\<forall>x \<in> set fs. fst x \<noteq> []" "fs \<noteq> []"
    "\<And>x. x \<in> set fs \<Longrightarrow> frag_of p h n x" "\<And>x. x \<in> set fs \<Longrightarrow> wire_ok ck (ip_destination h) x"
  proof -
    show "concat (map fst fs) = p" "contiguous 0 fs" "\<forall>x \<in> set fs. fst x \<noteq> []" "fs \<noteq> []"
      using sent h(1) p(1) unfolding sent_as_def by simp_all
    show of_h: "frag_of p h n x" if "x \<in> set fs" for x using sent that unfolding sent_as_def by blast
    show "wire_ok ck (ip_destination h) x" if "x \<in> set fs" for x
    proof -
      have "ip_calcChecksum h \<longrightarrow> ip_calcChecksum (snd x)" "ip_flags h AND 4 = 0 \<longrightarrow> ip_flags (snd x) AND 4 = 0"
        using sent that unfolding sent_as_def by blast+
      moreover have "ip_fragmentOffset (snd x) AND 0x7 = 0" "unat (ip_payloadSize (snd x)) = length (fst x)"
        "ip_destination (snd x) = ip_destination h" using of_h [OF that] unfolding frag_of_def by argo+
      ultimately show ?thesis using h(2,3) unfolding wire_ok_def by argo
    qed
  qed
  have set_xs: "set xs = set fs" using xs by (rule mset_eq_setD)
  have len: "length xs = length fs" "length frames = length xs"
    using mset_eq_length [OF xs] list_all2_lengthD [OF frames] by simp_all
  show ?thesis
  proof (cases "length fs = 1")
    case True
    then obtain x where x: "fs = [x]" by (auto simp: length_Suc_conv)
    then have xs1: "xs = [x]" using len(1) set_xs by (cases xs) auto
    then obtain pad where fr: "frames = [frame_of x pad]" using frames by (auto simp: list_all2_Cons1)
    have px: "fst x = p" "piece p (fst x) (ip_fragmentOffset (snd x)) (\<not> ip_IsLastFragment (snd x))"
      using fs(1,5) x by (auto simp: frag_of_def)
    then have "ip_fragmentOffset (snd x) = 0" "ip_IsLastFragment (snd x)" by (auto simp: piece_def unat_eq_0)
    then have "l3_LocalDeliver T (fst x) (snd (received ck x)) j (sk_reasm sk) = Some (Some (p, snd (received ck x)), sk_reasm sk)"
      by (simp add: l3_LocalDeliver_def ip_GetFragmentOffset_def px(1))
    then obtain sk' where "l3_Receive fuel ck T mtu device sender (frame_of x pad) sk = FragDone (Some (p, snd (received ck x)), sk')"
      "sk_reasm sk' = sk_reasm sk" "sk_node sk' = sk_node sk"
      using Receive_local [OF at fs(6), of x fuel T mtu sender pad] x by (auto simp: or_abort_def)
    moreover have "frag_of p h n x" using fs(5) x by simp
    ultimately show ?thesis using fr px(1)
      by (intro exI [of _ "snd (received ck x)"] exI [of _ sk']) (simp add: frag_of_def)
  next
    case False
    have frag: "\<not> ip_IsLastFragment (snd x) \<or> ip_fragmentOffset (snd x) \<noteq> 0" if "x \<in> set fs" for x
      using sole_fragment [OF fs(1,3) that] fs(5) [OF that] False by (auto simp: frag_of_def piece_def)
    let ?ys = "map (received ck) xs" let ?gs = "map (received ck) fs" let ?K = "frag_key h"
    have all: "all_frags (S ?K) ?gs"
      using fs p(2) by (auto simp: all_frags_def contiguous_received inv(2) frag_of_def comp_def)
    have keys: "\<forall>y \<in> set ?gs. frag_key (snd y) = ?K" using fs(5) by (auto simp: frag_key_iff frag_of_def)
    have dist: "distinct ?gs" using fs(2,3) by (intro contiguous_distinct [of 0]) (auto simp: contiguous_received)
    have "mset ?ys = mset ?gs" using xs by simp
    then have "distinct ([] @ ?ys)" "set ([] @ ?ys) = set ?gs" "?ys \<noteq> []"
      using dist set_xs fs(4) mset_eq_imp_distinct_iff by (fastforce, simp, fastforce)
    from receive_ok [OF all keys inv(1) this, of j] inv(3) got_init obtain rs st' where
      rs: "l3_receive T ?ys j (sk_reasm sk) = Some (rs, st')" "map fst rs = replicate (length ?ys - 1) False @ [True]"
        "snd (last rs) = p" "l3_fragments st' = (l3_fragments (sk_reasm sk))(?K := None)" by (auto simp: inv(2))
    have "length rs = length (map fst rs)" by simp
    then have lrs: "length rs = length xs" using rs(2) \<open>?ys \<noteq> []\<close> by (cases xs) simp_all
    obtain sk' where sk': "l3_receive_all fuel ck T mtu device sender frames sk = FragDone (deliveries ck rs xs, sk')"
      "sk_reasm sk' = st'" "sk_node sk' = sk_node sk"
      using receive_all_fragments [OF at _ frames rs(1), of fuel mtu sender] frag fs(6) set_xs by blast
    obtain x where x: "x \<in> set xs" "deliveries ck rs xs = replicate (length xs - 1) None @ [Some (p, whole p (snd (received ck x)))]"
      using deliveries_last [of rs xs ck] rs(2,3) lrs by auto
    have "frag_of p h n x" using fs(5) x(1) set_xs by simp
    moreover have "l3_fragments st' = l3_fragments (sk_reasm sk)" using rs(4) inv(3) by (simp only: fun_upd_idem)
    moreover have "unat (of_nat (length p) :: u16) = length p" using p(2) by (simp add: unat_of_nat)
    ultimately show ?thesis using sk' x(2) len(2)
      by (intro exI [of _ "whole p (snd (received ck x))"] exI [of _ sk']) (simp add: whole_def ip_SetPayloadSize_def frag_of_def)
  qed
qed

section \<open>From node to node\<close>

lemma send_unicast:
  assumes "node_reach mtu nd" and "gateways_set (nd_routing nd)" and "length (sa_packet a) \<le> 65535"
    and "\<not> addr_IsBroadcast (sa_destination a)" and "\<not> addr_IsLocalMulticast (sa_destination a)"
    and "subnet_broadcast (nd_ifs nd) (sa_destination a) (l3_interfaces (nd_ifs nd)) = Some None"
    and "sr_RouteOutput (nd_ifs nd) (sa_destination a) nullptr (nd_routing nd) = Some (Some rt, e)"
    and "l3_reverse (nd_ifs nd) (rt_outputDevice rt) = Some i" and "if_ifup (l3_interfaces (nd_ifs nd) ! i)"
  shows "\<exists>s' fs. l3_Send (\<lambda>st dest oif. sr_RouteOutput st dest oif (nd_routing nd)) (Suc (length (sa_packet a)))
        ck ttl mtu (nd_ifs nd) a None s = FragDone s'
    \<and> sn_out s' = sn_out s @ map (\<lambda>x. (i, x, next_hop rt (header_of ck ttl a (sn_identification s (sa_key a))))) fs
    \<and> sent_as (sa_packet a) (sa_packet a) (header_of ck ttl a (sn_identification s (sa_key a)))
        (unat (mtu (if_device (l3_interfaces (nd_ifs nd) ! i))) - 20) fs"
proof -
  have ok: "ifs_ok (nd_ifs nd) \<and> routes_ok (nd_ifs nd) (nd_routing nd) \<and> gateways_set (nd_routing nd)"
    using node_reach_inv [OF assms(1)] assms(2) by simp
  let ?h = "header_of ck ttl a (sn_identification s (sa_key a))"
  have find: "find (directed (sa_destination a)) (l3_interfaces (nd_ifs nd)) = None"
    using subnet_broadcast_find [OF node_reach_inv(1) [OF assms(1)] order_refl, of "sa_destination a"] assms(6) by simp
  obtain outs drops n' where run: "l3_Send (\<lambda>st dest oif. sr_RouteOutput st dest oif (nd_routing nd)) (Suc (length (sa_packet a)))
        ck ttl mtu (nd_ifs nd) a None s = FragDone (s\<lparr>sn_identification := (sn_identification s)(sa_key a := n'),
          sn_out := sn_out s @ outs, sn_drop := sn_drop s @ drops\<rparr>)"
    "send_outcome (\<lambda>st dest oif. sr_RouteOutput st dest oif (nd_routing nd)) ck ttl mtu (nd_ifs nd) a
      (sn_identification s (sa_key a)) outs drops n'"
    using static.send_done [OF ok node_reach_inv(2) [OF assms(1)] assms(3) lessI refl, where s = s and ck = ck and ttl = ttl] by blast
  have "sent_over mtu (nd_ifs nd) i (next_hop rt ?h) (sa_packet a) ?h outs"
    using run(2) assms(4,5,7-9) find by (simp add: send_outcome_def handed_to_def)
  with run(1) obtain s' where "l3_Send (\<lambda>st dest oif. sr_RouteOutput st dest oif (nd_routing nd)) (Suc (length (sa_packet a)))
        ck ttl mtu (nd_ifs nd) a None s = FragDone s'" "sn_out s' = sn_out s @ outs"
    "sent_over mtu (nd_ifs nd) i (next_hop rt ?h) (sa_packet a) ?h outs" by auto
  then show ?thesis unfolding sent_over_def by blast
qed

lemma send_receive:
  assumes "node_reach mtu nd" and "gateways_set (nd_routing nd)" and "sa_packet a \<noteq> []" and "length (sa_packet a) \<le> 65535"
    and "\<not> addr_IsBroadcast (sa_destination a)" and "\<not> addr_IsLocalMulticast (sa_destination a)"
    and "subnet_broadcast (nd_ifs nd) (sa_destination a) (l3_interfaces (nd_ifs nd)) = Some None"
    and "sr_RouteOutput (nd_ifs nd) (sa_destination a) nullptr (nd_routing nd) = Some (Some rt, e)"
    and "l3_reverse (nd_ifs nd) (rt_outputDevice rt) = Some i" and "if_ifup (l3_interfaces (nd_ifs nd) ! i)"
    and "ends_at (sa_destination a) device j (sk_node sk)" and "l3_reach T S (sk_reasm sk)"
    and "K = frag_key (header_of ck ttl a (sn_identification s (sa_key a)))"
    and "S K = sa_packet a" and "l3_fragments (sk_reasm sk) K = None"
  shows "\<exists>s' outs. l3_Send (\<lambda>st dest oif. sr_RouteOutput st dest oif (nd_routing nd)) (Suc (length (sa_packet a)))
        ck ttl mtu (nd_ifs nd) a None s = FragDone s' \<and> sn_out s' = sn_out s @ outs \<and> (\<forall>x \<in> set outs. fst x = i)
    \<and> (\<forall>xs frames. mset xs = mset (map (fst \<circ> snd) outs) \<longrightarrow> list_all2 (\<lambda>x f. \<exists>pad. f = frame_of x pad) xs frames \<longrightarrow>
        (\<exists>x sk'. l3_receive_all fuel ck T mtu' device sender frames sk =
            FragDone (replicate (length frames - 1) None @ [Some (sa_packet a, x)], sk')
          \<and> ip_source x = sa_source a \<and> ip_destination x = sa_destination a \<and> ip_protocol x = sa_protocol a
          \<and> unat (ip_payloadSize x) = length (sa_packet a)
          \<and> l3_fragments (sk_reasm sk') = l3_fragments (sk_reasm sk) \<and> sk_node sk' = sk_node sk))"
proof -
  let ?h = "header_of ck ttl a (sn_identification s (sa_key a))"
  let ?n = "unat (mtu (if_device (l3_interfaces (nd_ifs nd) ! i))) - 20"
  obtain s' fs where send: "l3_Send (\<lambda>st dest oif. sr_RouteOutput st dest oif (nd_routing nd)) (Suc (length (sa_packet a)))
        ck ttl mtu (nd_ifs nd) a None s = FragDone s'" "sn_out s' = sn_out s @ map (\<lambda>x. (i, x, next_hop rt ?h)) fs"
    "sent_as (sa_packet a) (sa_packet a) ?h ?n fs"
    using send_unicast [OF assms(1,2,4-10), of ck ttl s] by blast
  let ?outs = "map (\<lambda>x. (i, x, next_hop rt ?h)) fs"
  have outs: "map (fst \<circ> snd) ?outs = fs" by (simp add: comp_def)
  have at: "ends_at (ip_destination ?h) device j (sk_node sk)" using assms(11) by simp
  have h: "ip_fragmentOffset ?h = 0" "ip_flags ?h AND 4 = 0" "ck \<longrightarrow> ip_calcChecksum ?h"
    by (simp_all add: header_of_def Let_def Ipv4Header_init_def)
  have inv: "l3_inv T S (sk_reasm sk)" "S (frag_key ?h) = sa_packet a" "l3_fragments (sk_reasm sk) (frag_key ?h) = None"
    using l3_reach_inv [OF assms(12)] assms(13-15) by simp_all
  have "\<exists>x sk'. l3_receive_all fuel ck T mtu' device sender frames sk =
            FragDone (replicate (length frames - 1) None @ [Some (sa_packet a, x)], sk')
          \<and> ip_source x = sa_source a \<and> ip_destination x = sa_destination a \<and> ip_protocol x = sa_protocol a
          \<and> unat (ip_payloadSize x) = length (sa_packet a)
          \<and> l3_fragments (sk_reasm sk') = l3_fragments (sk_reasm sk) \<and> sk_node sk' = sk_node sk"
    if "mset xs = mset fs" "list_all2 (\<lambda>x f. \<exists>pad. f = frame_of x pad) xs frames" for xs frames
    using deliver_fragments [OF at send(3) h assms(3,4) inv that, of fuel mtu' sender] by simp
  then show ?thesis using send(1,2) outs by (intro exI [of _ s'] exI [of _ ?outs]) auto
qed

text \<open>
  C9: a packet arrives.  A node in a reachable configuration sends a packet to a unicast
  destination for which it has a route over an interface that is up.  Then \<^verbatim>\<open>Send\<close> ends, and when
  what it hands to the interface arrives at the destination, as frames in any order and with any
  padding of the link layer, the destination passes exactly one packet up, with the last frame:
  the bytes that were sent, with the source, the protocol and the size in its header.  Nothing is
  left in the state of reassembly.  The destination may have any other packets in reassembly, but
  none of the same flow and identification.
\<close>

theorem end_to_end:
  assumes "node_reach mtu nd" and "gateways_set (nd_routing nd)" and "sa_packet a \<noteq> []" and "length (sa_packet a) \<le> 65535"
    and "\<not> addr_IsBroadcast (sa_destination a)" and "\<not> addr_IsLocalMulticast (sa_destination a)"
    and "subnet_broadcast (nd_ifs nd) (sa_destination a) (l3_interfaces (nd_ifs nd)) = Some None"
    and "sr_RouteOutput (nd_ifs nd) (sa_destination a) nullptr (nd_routing nd) = Some (Some rt, e)"
    and "l3_reverse (nd_ifs nd) (rt_outputDevice rt) = Some i" and "if_ifup (l3_interfaces (nd_ifs nd) ! i)"
    and "ends_at (sa_destination a) device j (sk_node sk)" and "l3_reach T S (sk_reasm sk)"
    and "K = frag_key (header_of ck ttl a (sn_identification s (sa_key a)))"
    and "S K = sa_packet a" and "l3_fragments (sk_reasm sk) K = None"
  shows "\<exists>s' outs. l3_Send (\<lambda>st dest oif. sr_RouteOutput st dest oif (nd_routing nd)) (Suc (length (sa_packet a)))
        ck ttl mtu (nd_ifs nd) a None s = FragDone s' \<and> sn_out s' = sn_out s @ outs \<and> (\<forall>x \<in> set outs. fst x = i)
    \<and> (\<forall>xs frames. mset xs = mset (map (fst \<circ> snd) outs) \<longrightarrow> list_all2 (\<lambda>x f. \<exists>pad. f = frame_of x pad) xs frames \<longrightarrow>
        (\<exists>x sk'. l3_receive_all fuel ck T mtu' device sender frames sk =
            FragDone (replicate (length frames - 1) None @ [Some (sa_packet a, x)], sk')
          \<and> ip_source x = sa_source a \<and> ip_destination x = sa_destination a \<and> ip_protocol x = sa_protocol a
          \<and> unat (ip_payloadSize x) = length (sa_packet a)
          \<and> l3_fragments (sk_reasm sk') = l3_fragments (sk_reasm sk) \<and> sk_node sk' = sk_node sk))"
  using assms by (rule send_receive)

text \<open>
  The interface keeps the invariant of its ARP cache, never fails on a device that can do
  multicast, and hands every packet to exactly one place.
\<close>

lemma if_Send_ok:
  assumes "arp_inv cfg arp" and "addr_IsMulticast dest \<longrightarrow> dev_isMulticast dev"
  shows "\<exists>r arp'. if_Send dev cfg x dest f arp = Some (r, arp') \<and> arp_inv cfg arp'
    \<and> (r = IfResolving \<longrightarrow> arp_account arp' = add_mset x (arp_account arp))
    \<and> (r \<noteq> IfResolving \<longrightarrow> arp_account arp' = arp_account arp)"
proof -
  obtain r arp' where l: "arp_Lookup cfg x dest arp = Some (r, arp')" "arp_inv cfg arp'"
    "arp_account arp' + (if r = None then {#} else {#x#}) = add_mset x (arp_account arp)"
    using arp_Lookup_ok [OF assms(1), of x dest] by auto
  then show ?thesis using assms by (cases r) (auto simp: if_Send_def)
qed

section \<open>Witnesses\<close>

definition far_stack :: ipv4_stack where
  "far_stack = \<lparr>sk_node = \<lparr>nd_ifs = \<lparr>l3_interfaces = [\<lparr>if_ifup = True, if_forwarding = False, if_metric = 1, if_device = 9,
         if_ifaddrs = [ia_new 0x0a000005 (net_mask 24)]\<rparr>], l3_reverse = [9 \<mapsto> 0], l3_ipForward = False,
         l3_strongEndSystemModel = False\<rparr>, nd_routing = \<lparr>sr_networkRoutes = [], sr_multicastRoutes = []\<rparr>\<rparr>,
     sk_sender = idle, sk_reasm = l3_init, sk_arp = (\<lambda>_. None)\<rparr>"

definition near_route :: ipv4_route where
  "near_route = \<lparr>rt_dest = 0x0a000000, rt_source = 0x0a000001, rt_gateway = 0, rt_gatewaySet = True, rt_outputDevice = 7\<rparr>"

lemma sample_route_output:
  assumes "l3_interfaces (nd_ifs nd) = [\<lparr>if_ifup = True, if_forwarding = True, if_metric = 1, if_device = 7,
      if_ifaddrs = [ia_new 0x0a000001 (net_mask 24), ia_new 0x0a000002 (net_mask 24)]\<rparr>]"
    and "sr_networkRoutes (nd_routing nd) = [(rte_CreateNetworkRouteTo_direct 0x0a000000 (net_mask 24) 0, 0)]"
  shows "sr_RouteOutput (nd_ifs nd) 0x0a000005 0 (nd_routing nd) = Some (Some near_route, ERROR_NOTERROR)"
proof -
  have match: "mask_IsMatch (net_mask 24) 0x0a000005 0x0a000000" by (simp add: mask_IsMatch_def net_mask_def)
  have source: "l3_SourceAddressSelection 0 0x0a000000 (nd_ifs nd) = Some 0x0a000001"
    by (simp add: l3_SourceAddressSelection_def l3_GetInterface_def if_GetNAddresses_def if_GetAddress_def assms(1)
        ia_new_def addr_CombineMask_def net_mask_def)
  have dev: "l3_GetNetDevice 0 (nd_ifs nd) = Some 7" by (simp add: l3_GetNetDevice_def l3_GetInterface_def assms(1))
  have "sr_LookupStatic (nd_ifs nd) 0x0a000005 0 (nd_routing nd) = Some (Some near_route)"
    by (simp add: sr_LookupStatic_def addr_IsLocalMulticast_def assms(2) rte_CreateNetworkRouteTo_direct_def match source dev
        near_route_def addr_GetZero_def Let_def)
  then show ?thesis by (simp add: sr_RouteOutput_def)
qed

theorem end_to_end_witness:
  "\<exists>nd s' outs. sample_node = Some nd
    \<and> l3_Send (\<lambda>st dest oif. sr_RouteOutput st dest oif (nd_routing nd)) 4 True 64 (\<lambda>_. 1500) (nd_ifs nd) sample_args None idle
        = FragDone s' \<and> sn_out s' = sn_out idle @ outs \<and> (\<forall>x \<in> set outs. fst x = 0)"
proof -
  obtain nd where nd: "sample_node = Some nd" "node_reach (\<lambda>_. 1500) nd"
    "l3_interfaces (nd_ifs nd) = [\<lparr>if_ifup = True, if_forwarding = True, if_metric = 1, if_device = 7,
      if_ifaddrs = [ia_new 0x0a000001 (net_mask 24), ia_new 0x0a000002 (net_mask 24)]\<rparr>]"
    "sr_networkRoutes (nd_routing nd) = [(rte_CreateNetworkRouteTo_direct 0x0a000000 (net_mask 24) 0, 0)]"
    using sample_node_eq by blast
  have gw: "gateways_set (nd_routing nd)" by (simp add: gateways_set_def nd(4) rte_CreateNetworkRouteTo_direct_def)
  have dest: "sa_destination sample_args = 0x0a000005" by (simp add: sample_args_def)
  have kind: "\<not> addr_IsBroadcast (sa_destination sample_args)" "\<not> addr_IsLocalMulticast (sa_destination sample_args)"
    by (simp_all add: dest addr_IsBroadcast_def addr_IsLocalMulticast_def)
  have "ifs_ok (nd_ifs nd)" by (rule node_reach_inv(1) [OF nd(2)])
  then have rev: "l3_reverse (nd_ifs nd) 7 = Some 0" by (simp add: ifs_ok_def nd(3))
  have sub: "subnet_broadcast (nd_ifs nd) (sa_destination sample_args) (l3_interfaces (nd_ifs nd)) = Some None"
    by (simp add: dest nd(3) l3_GetInterfaceForDevice_def rev l3_GetInterface_def ia_new_def addr_IsSubnetDirectedBroadcast_def
        addr_GetBroadcast_def net_mask_def)
  have rt: "sr_RouteOutput (nd_ifs nd) (sa_destination sample_args) nullptr (nd_routing nd) = Some (Some near_route, ERROR_NOTERROR)"
    using sample_route_output [OF nd(3,4)] by (simp add: dest)
  have dev: "l3_reverse (nd_ifs nd) (rt_outputDevice near_route) = Some 0" "if_ifup (l3_interfaces (nd_ifs nd) ! 0)"
    by (simp_all add: near_route_def rev nd(3))
  have far: "ends_at (sa_destination sample_args) 9 0 (sk_node far_stack)" "l3_reach 30 (\<lambda>_. sa_packet sample_args) (sk_reasm far_stack)"
    by (simp_all add: ends_at_def far_stack_def dest ia_new_def addr_IsMulticast_def l3_reach.start)
  have "sa_packet sample_args \<noteq> []" "length (sa_packet sample_args) \<le> 65535" by (simp_all add: sample_args_def)
  moreover have "l3_fragments (sk_reasm far_stack) k = None" for k by (simp add: far_stack_def l3_init_def)
  ultimately obtain s' outs where "l3_Send (\<lambda>st dest oif. sr_RouteOutput st dest oif (nd_routing nd))
      (Suc (length (sa_packet sample_args))) True 64 (\<lambda>_. 1500) (nd_ifs nd) sample_args None idle = FragDone s'"
    "sn_out s' = sn_out idle @ outs" "\<forall>x \<in> set outs. fst x = 0"
    using end_to_end [OF nd(2) gw _ _ kind sub rt dev far refl, where ck = True and ttl = 64 and s = idle] by blast
  moreover have "Suc (length (sa_packet sample_args)) = 4" by (simp add: sample_args_def)
  ultimately show ?thesis using nd(1) by auto
qed

end
