(* ===== verification/Udp_Socket.thy ===== *)
theory Udp_Socket
  imports Udp_Header Ipv4_Demux Ipv4_Delivery
begin

text \<open>
  UDP over IPv4: \<^verbatim>\<open>UdpL4Protocol\<close> and \<^verbatim>\<open>UdpSocketImpl\<close>
  (src/internet/model/udp-l4-protocol.cc, udp-socket-impl.cc), with the part of
  \<^verbatim>\<open>Ipv4L3Protocol::LocalDeliver\<close> that calls the protocol.  IPv6, the priority and
  \<^verbatim>\<open>DontFragment\<close> tags, the receive tags and the notifications of the application are left out.
\<close>

section \<open>Definitions\<close>

text \<open>An address that is not an IPv4 socket address is \<open>NotInet\<close>.\<close>

datatype sock_address = InetSocketAddress u32 u16 | NotInet

record udp_socket =
  us_endPoint :: ptr
  us_errno :: sock_errno
  us_shutdownSend :: bool
  us_shutdownRecv :: bool
  us_connected :: bool
  us_defaultAddress :: "u32 option"
  us_defaultPort :: u16
  us_boundnetdevice :: ptr
  us_allowBroadcast :: bool
  us_ipTos :: u8
  us_manualIpTtl :: bool
  us_ipTtl :: u8
  us_ipMulticastTtl :: u8
  us_rcvBufSize :: u32
  us_rxAvailable :: u32
  us_deliveryQueue :: "(u8 list \<times> sock_address) list"
  us_dropTrace :: "u8 list list"

text \<open>A socket as it is made, with the attributes set to their defaults (which makes the TTL manual and zero).\<close>

definition UdpSocketImpl_init :: udp_socket where
  "UdpSocketImpl_init = \<lparr>us_endPoint = nullptr, us_errno = ERROR_NOTERROR, us_shutdownSend = False, us_shutdownRecv = False,
     us_connected = False, us_defaultAddress = None, us_defaultPort = 0, us_boundnetdevice = nullptr, us_allowBroadcast = False,
     us_ipTos = 0, us_manualIpTtl = True, us_ipTtl = 0, us_ipMulticastTtl = 0, us_rcvBufSize = 131072, us_rxAvailable = 0,
     us_deliveryQueue = [], us_dropTrace = []\<rparr>"

text \<open>
  The protocol with the sockets it has made: \<open>ul_sockets\<close> is the unordered map \<^verbatim>\<open>m_sockets\<close>,
  which has every socket once, \<open>ul_store\<close> the socket objects by address and \<open>ul_fresh\<close> the address of the next one.
\<close>

record udp_l4 =
  ul_endPoints :: demux
  ul_sockets :: "(u64 \<times> ptr) list"
  ul_socketIndex :: u64
  ul_store :: "ptr \<Rightarrow> udp_socket"
  ul_fresh :: ptr

definition UdpL4Protocol_init :: udp_l4 where
  "UdpL4Protocol_init = \<lparr>ul_endPoints = Ipv4EndPointDemux_init, ul_sockets = [], ul_socketIndex = 0,
     ul_store = (\<lambda>_. UdpSocketImpl_init), ul_fresh = 1\<rparr>"

definition us_on :: "ptr \<Rightarrow> (udp_socket \<Rightarrow> udp_socket) \<Rightarrow> udp_l4 \<Rightarrow> udp_l4" where
  "us_on k g ul = ul\<lparr>ul_store := (ul_store ul)(k := g (ul_store ul k))\<rparr>"

definition ul_CreateSocket :: "udp_l4 \<Rightarrow> ptr \<times> udp_l4" where
  "ul_CreateSocket ul =
     (let k = ul_fresh ul in
      (k, ul\<lparr>ul_store := (ul_store ul)(k := UdpSocketImpl_init), ul_fresh := k + 1,
            ul_sockets := ul_sockets ul @ [(ul_socketIndex ul, k)], ul_socketIndex := ul_socketIndex ul + 1\<rparr>))"

fun remove_socket :: "ptr \<Rightarrow> (u64 \<times> ptr) list \<Rightarrow> bool \<times> (u64 \<times> ptr) list" where
  "remove_socket k [] = (False, [])"
| "remove_socket k ((i, q) # r) =
     (if q = k then (True, r) else (let (b, r) = remove_socket k r in (b, (i, q) # r)))"

definition ul_RemoveSocket :: "ptr \<Rightarrow> udp_l4 \<Rightarrow> bool \<times> udp_l4" where
  "ul_RemoveSocket k ul = (let (b, r) = remove_socket k (ul_sockets ul) in (b, ul\<lparr>ul_sockets := r\<rparr>))"

definition us_Destroy :: "ptr \<Rightarrow> udp_l4 \<Rightarrow> udp_l4" where
  "us_Destroy k ul = us_on k (\<lambda>s. s\<lparr>us_endPoint := nullptr\<rparr>) (snd (ul_RemoveSocket k ul))"

text \<open>The destructor of an end point calls \<^verbatim>\<open>Destroy\<close> of the socket that is its callback.\<close>

definition ul_DeAllocate :: "ptr \<Rightarrow> udp_l4 \<Rightarrow> udp_l4" where
  "ul_DeAllocate endPoint ul =
     (let (callback, dx) = dx_DeAllocate endPoint (ul_endPoints ul);
          ul = ul\<lparr>ul_endPoints := dx\<rparr>
      in if callback \<noteq> nullptr then us_Destroy callback ul else ul)"

definition us_DeallocateEndPoint :: "ptr \<Rightarrow> udp_l4 \<Rightarrow> udp_l4" where
  "us_DeallocateEndPoint k ul =
     (if us_endPoint (ul_store ul k) \<noteq> nullptr
      then us_on k (\<lambda>s. s\<lparr>us_endPoint := nullptr\<rparr>) (ul_DeAllocate (us_endPoint (ul_store ul k)) ul)
      else ul)"

text \<open>A call through the pointer of a socket to its end point.\<close>

definition ep_call :: "ptr \<Rightarrow> (end_point \<Rightarrow> end_point) \<Rightarrow> udp_l4 \<Rightarrow> udp_l4" where
  "ep_call k g ul = ul\<lparr>ul_endPoints := dx_on (us_endPoint (ul_store ul k)) g (ul_endPoints ul)\<rparr>"

text \<open>The results of socket calls are those of the code: 0 or a size, and -1 for an error.\<close>

definition us_FinishBind :: "ptr \<Rightarrow> udp_l4 \<Rightarrow> int \<times> udp_l4" where
  "us_FinishBind k ul =
     (if us_endPoint (ul_store ul k) \<noteq> nullptr
      then (0, us_on k (\<lambda>s. s\<lparr>us_shutdownRecv := False, us_shutdownSend := False\<rparr>)
             (ep_call k (\<lambda>e. ep_SetDestroyCallback k (ep_SetIcmpCallback k (ep_SetRxCallback k e))) ul))
      else (-1, ul))"

text \<open>The end point that was allocated; binding a null end point to the device of the socket is a crash.\<close>

definition us_bound :: "ptr \<Rightarrow> ptr \<times> demux \<Rightarrow> udp_l4 \<Rightarrow> udp_l4" where
  "us_bound k r ul = us_on k (\<lambda>s. s\<lparr>us_endPoint := fst r\<rparr>) (ul\<lparr>ul_endPoints := snd r\<rparr>)"

definition us_bind_device :: "ptr \<Rightarrow> udp_l4 \<Rightarrow> udp_l4 option" where
  "us_bind_device k ul =
     (let s = ul_store ul k in
      if us_boundnetdevice s \<noteq> nullptr
      then do { ns_assert (us_endPoint s \<noteq> nullptr); Some (ep_call k (ep_BindToNetDevice (us_boundnetdevice s)) ul) }
      else Some ul)"

definition us_Bind :: "ptr \<Rightarrow> udp_l4 \<Rightarrow> (int \<times> udp_l4) option" where
  "us_Bind k ul = do {
     ul \<leftarrow> us_bind_device k (us_bound k (dx_Allocate (ul_endPoints ul)) ul);
     Some (us_FinishBind k ul)
   }"

definition us_allocate :: "ptr \<Rightarrow> u32 \<Rightarrow> u16 \<Rightarrow> udp_l4 \<Rightarrow> ptr \<times> demux" where
  "us_allocate k ipv4 port ul =
     (if ipv4 = addr_GetAny \<and> port = 0 then dx_Allocate (ul_endPoints ul)
      else if ipv4 = addr_GetAny then dx_Allocate_port (us_boundnetdevice (ul_store ul k)) port (ul_endPoints ul)
      else if port = 0 then dx_Allocate_address ipv4 (ul_endPoints ul)
      else dx_Allocate_local (us_boundnetdevice (ul_store ul k)) ipv4 port (ul_endPoints ul))"

definition us_Bind_address :: "ptr \<Rightarrow> sock_address \<Rightarrow> udp_l4 \<Rightarrow> (int \<times> udp_l4) option" where
  "us_Bind_address k address ul = (case address of
       InetSocketAddress ipv4 port \<Rightarrow> do {
         ns_assert (us_endPoint (ul_store ul k) = nullptr);
         let ul = us_bound k (us_allocate k ipv4 port ul) ul;
         if us_endPoint (ul_store ul k) = nullptr
         then Some (-1, us_on k (\<lambda>s. s\<lparr>us_errno := if port \<noteq> 0 then ERROR_ADDRINUSE else ERROR_ADDRNOTAVAIL\<rparr>) ul)
         else do { ul \<leftarrow> us_bind_device k ul; Some (us_FinishBind k ul) }
       }
     | NotInet \<Rightarrow> Some (-1, us_on k (\<lambda>s. s\<lparr>us_errno := ERROR_INVAL\<rparr>) ul))"

definition us_ShutdownSend :: "ptr \<Rightarrow> udp_l4 \<Rightarrow> int \<times> udp_l4" where
  "us_ShutdownSend k ul = (0, us_on k (\<lambda>s. s\<lparr>us_shutdownSend := True\<rparr>) ul)"

definition us_ShutdownRecv :: "ptr \<Rightarrow> udp_l4 \<Rightarrow> int \<times> udp_l4" where
  "us_ShutdownRecv k ul =
     (let ul = us_on k (\<lambda>s. s\<lparr>us_shutdownRecv := True\<rparr>) ul in
      (0, if us_endPoint (ul_store ul k) \<noteq> nullptr then ep_call k (ep_SetRxEnabled False) ul else ul))"

definition us_Close :: "ptr \<Rightarrow> udp_l4 \<Rightarrow> int \<times> udp_l4" where
  "us_Close k ul =
     (if us_shutdownRecv (ul_store ul k) \<and> us_shutdownSend (ul_store ul k)
      then (-1, us_on k (\<lambda>s. s\<lparr>us_errno := ERROR_BADF\<rparr>) ul)
      else (0, us_DeallocateEndPoint k (us_on k (\<lambda>s. s\<lparr>us_shutdownRecv := True, us_shutdownSend := True\<rparr>) ul)))"

definition us_Connect :: "ptr \<Rightarrow> sock_address \<Rightarrow> udp_l4 \<Rightarrow> int \<times> udp_l4" where
  "us_Connect k address ul = (case address of
       InetSocketAddress ipv4 port \<Rightarrow>
         (0, us_on k (\<lambda>s. s\<lparr>us_defaultAddress := Some ipv4, us_defaultPort := port, us_connected := True\<rparr>) ul)
     | NotInet \<Rightarrow> (-1, ul))"

definition us_Listen :: "ptr \<Rightarrow> udp_l4 \<Rightarrow> int \<times> udp_l4" where
  "us_Listen k ul = (-1, us_on k (\<lambda>s. s\<lparr>us_errno := ERROR_OPNOTSUPP\<rparr>) ul)"

definition us_GetTxAvailable :: u32 where
  "us_GetTxAvailable = 65507"

text \<open>
  \<^verbatim>\<open>UdpL4Protocol::Send\<close>.  \<open>down\<close> is the down target, \<^verbatim>\<open>Ipv4L3Protocol::Send\<close>, on the state
  \<open>'n\<close> of the network layer.
\<close>

type_synonym 'n down_target = "send_args \<Rightarrow> ipv4_route option \<Rightarrow> 'n \<Rightarrow> 'n frag_result"

record app_packet =
  ap_bytes :: "u8 list"
  ap_ttlTag :: "u8 option"
  ap_tosTag :: "u8 option"

definition udp_send_header :: "bool \<Rightarrow> u32 \<Rightarrow> u32 \<Rightarrow> u16 \<Rightarrow> u16 \<Rightarrow> udp_header" where
  "udp_send_header checksumEnabled saddr daddr sport dport =
     udp_SetSourcePort sport (udp_SetDestinationPort dport
       (if checksumEnabled then udp_InitializeChecksum (Ipv4 saddr) (Ipv4 daddr) 17 (udp_EnableChecksums UdpHeader_init)
        else UdpHeader_init))"

definition ul_Send :: "bool \<Rightarrow> 'n down_target \<Rightarrow> app_packet \<Rightarrow> u32 \<Rightarrow> u32 \<Rightarrow> u16 \<Rightarrow> u16 \<Rightarrow> ipv4_route option \<Rightarrow> 'n \<Rightarrow> 'n frag_result" where
  "ul_Send checksumEnabled down packet saddr daddr sport dport route n =
     or_abort (udp_Serialize (udp_send_header checksumEnabled saddr daddr sport dport) (ap_bytes packet)) (\<lambda>header.
       down \<lparr>sa_packet = header @ ap_bytes packet, sa_ttlTag = ap_ttlTag packet, sa_tosTag = ap_tosTag packet,
             sa_source = saddr, sa_destination = daddr, sa_protocol = 17\<rparr> route n)"

text \<open>
  \<^verbatim>\<open>DoSendTo\<close>, cut at the tags, the broadcast loop, and the choice of the source.  An assertion
  that fails is \<open>FragAbort\<close>.
\<close>

definition us_tag_packet :: "udp_socket \<Rightarrow> u32 \<Rightarrow> u8 \<Rightarrow> app_packet \<Rightarrow> app_packet option" where
  "us_tag_packet s dest tos p =
     (let p = (if tos \<noteq> 0 then p\<lparr>ap_tosTag := Some tos\<rparr> else p) in
      if us_ipMulticastTtl s \<noteq> 0 \<and> addr_IsMulticast dest
      then do { ns_assert (ap_ttlTag p = None); Some (p\<lparr>ap_ttlTag := Some (us_ipMulticastTtl s)\<rparr>) }
      else if us_manualIpTtl s \<and> us_ipTtl s \<noteq> 0 \<and> \<not> addr_IsMulticast dest \<and> \<not> addr_IsBroadcast dest
      then do { ns_assert (ap_ttlTag p = None); Some (p\<lparr>ap_ttlTag := Some (us_ipTtl s)\<rparr>) }
      else Some p)"

fun udp_broadcast :: "bool \<Rightarrow> 'n down_target \<Rightarrow> l3_ifs \<Rightarrow> ptr \<Rightarrow> app_packet \<Rightarrow> u32 \<Rightarrow> u16 \<Rightarrow> u16 \<Rightarrow> nat list \<Rightarrow> 'n \<Rightarrow> 'n frag_result" where
  "udp_broadcast checksumEnabled down st bounddevice p dest sport port [] n = FragDone n"
| "udp_broadcast checksumEnabled down st bounddevice p dest sport port (i # r) n =
     or_abort (l3_GetAddress i 0 st) (\<lambda>iaddr.
       if ia_local iaddr = addr_GetLoopback then udp_broadcast checksumEnabled down st bounddevice p dest sport port r n
       else if bounddevice \<noteq> nullptr \<and> l3_GetNetDevice i st \<noteq> Some bounddevice
       then udp_broadcast checksumEnabled down st bounddevice p dest sport port r n
       else frag_bind (ul_Send checksumEnabled down p (ia_local iaddr) dest sport port None n)
              (udp_broadcast checksumEnabled down st bounddevice p dest sport port r))"

type_synonym route_output = "l3_ifs \<Rightarrow> u32 \<Rightarrow> ptr \<Rightarrow> (ipv4_route option \<times> sock_errno) option"

text \<open>The local port of the end point of a socket, and its local address.\<close>

definition us_end_point :: "ptr \<Rightarrow> udp_l4 \<Rightarrow> end_point option" where
  "us_end_point k ul = map_of (dx_endPoints (ul_endPoints ul)) (us_endPoint (ul_store ul k))"

definition us_fail :: "ptr \<Rightarrow> sock_errno \<Rightarrow> udp_l4 \<Rightarrow> 'n \<Rightarrow> (int \<times> udp_l4 \<times> 'n) frag_result" where
  "us_fail k e ul n = FragDone (-1, us_on k (\<lambda>s. s\<lparr>us_errno := e\<rparr>) ul, n)"

definition us_send_routed :: "route_output \<Rightarrow> bool \<Rightarrow> 'n down_target \<Rightarrow> l3_ifs \<Rightarrow> ptr \<Rightarrow> app_packet \<Rightarrow> u32 \<Rightarrow> u16 \<Rightarrow> u16
    \<Rightarrow> udp_l4 \<Rightarrow> 'n \<Rightarrow> (int \<times> udp_l4 \<times> 'n) frag_result" where
  "us_send_routed ro checksumEnabled down st k p dest sport port ul n =
     (let s = ul_store ul k in
      or_abort (ro st dest (us_boundnetdevice s)) (\<lambda>(route, errno). case route of
        None \<Rightarrow> us_fail k errno ul n
      | Some rt \<Rightarrow>
          or_abort (if us_allowBroadcast s then Some False
            else do {
              outputIfIndex \<leftarrow> l3_GetInterfaceForDevice (rt_outputDevice rt) st;
              f \<leftarrow> l3_GetInterface outputIfIndex st;
              Some (list_ex (\<lambda>a. dest = ia_broadcast a) (if_ifaddrs f))
            }) (\<lambda>refused.
          if refused then us_fail k ERROR_OPNOTSUPP ul n
          else frag_bind (ul_Send checksumEnabled down p (rt_source rt) dest sport port (Some rt) n)
            (\<lambda>n. FragDone (int (length (ap_bytes p)), ul, n)))))"

definition us_DoSendTo :: "route_output \<Rightarrow> bool \<Rightarrow> 'n down_target \<Rightarrow> l3_ifs \<Rightarrow> ptr \<Rightarrow> app_packet \<Rightarrow> u32 \<Rightarrow> u16 \<Rightarrow> u8
    \<Rightarrow> udp_l4 \<Rightarrow> 'n \<Rightarrow> (int \<times> udp_l4 \<times> 'n) frag_result" where
  "us_DoSendTo ro checksumEnabled down st k p dest port tos ul n =
     or_abort (if us_endPoint (ul_store ul k) = nullptr then us_Bind k ul else Some (0, ul)) (\<lambda>(r, ul).
       let s = ul_store ul k; sz = length (ap_bytes p) in
       if r = -1 then (if us_endPoint s = nullptr then FragDone (-1, ul, n) else FragAbort)
       else if us_shutdownSend s then us_fail k ERROR_SHUTDOWN ul n
       else if sz > unat us_GetTxAvailable then us_fail k ERROR_MSGSIZE ul n
       else or_abort (us_tag_packet s dest tos p) (\<lambda>p.
         or_abort (us_end_point k ul) (\<lambda>e.
         if addr_IsBroadcast dest
         then if \<not> us_allowBroadcast s then us_fail k ERROR_OPNOTSUPP ul n
              else frag_bind (udp_broadcast checksumEnabled down st (us_boundnetdevice s) p dest (ep_localPort e) port
                     [0..<l3_GetNInterfaces st] n) (\<lambda>n. FragDone (int sz, ul, n))
         else if ep_localAddr e \<noteq> addr_GetAny
         then frag_bind (ul_Send checksumEnabled down p (ep_localAddr e) dest (ep_localPort e) port None n)
                (\<lambda>n. FragDone (int sz, ul, n))
         else us_send_routed ro checksumEnabled down st k p dest (ep_localPort e) port ul n)))"

definition us_DoSend :: "route_output \<Rightarrow> bool \<Rightarrow> 'n down_target \<Rightarrow> l3_ifs \<Rightarrow> ptr \<Rightarrow> app_packet
    \<Rightarrow> udp_l4 \<Rightarrow> 'n \<Rightarrow> (int \<times> udp_l4 \<times> 'n) frag_result" where
  "us_DoSend ro checksumEnabled down st k p ul n =
     or_abort (if us_endPoint (ul_store ul k) = nullptr \<and> us_defaultAddress (ul_store ul k) \<noteq> None
               then us_Bind k ul else Some (0, ul)) (\<lambda>(r, ul).
       let s = ul_store ul k in
       if r = -1 then (if us_endPoint s = nullptr then FragDone (-1, ul, n) else FragAbort)
       else if us_shutdownSend s then us_fail k ERROR_SHUTDOWN ul n
       else case us_defaultAddress s of
         Some a \<Rightarrow> us_DoSendTo ro checksumEnabled down st k p a (us_defaultPort s) (us_ipTos s) ul n
       | None \<Rightarrow> us_fail k ERROR_AFNOSUPPORT ul n)"

definition us_Send :: "route_output \<Rightarrow> bool \<Rightarrow> 'n down_target \<Rightarrow> l3_ifs \<Rightarrow> ptr \<Rightarrow> app_packet
    \<Rightarrow> udp_l4 \<Rightarrow> 'n \<Rightarrow> (int \<times> udp_l4 \<times> 'n) frag_result" where
  "us_Send ro checksumEnabled down st k p ul n =
     (if \<not> us_connected (ul_store ul k) then us_fail k ERROR_NOTCONN ul n
      else us_DoSend ro checksumEnabled down st k p ul n)"

definition us_SendTo :: "route_output \<Rightarrow> bool \<Rightarrow> 'n down_target \<Rightarrow> l3_ifs \<Rightarrow> ptr \<Rightarrow> app_packet \<Rightarrow> sock_address
    \<Rightarrow> udp_l4 \<Rightarrow> 'n \<Rightarrow> (int \<times> udp_l4 \<times> 'n) frag_result" where
  "us_SendTo ro checksumEnabled down st k p address ul n = (case address of
       InetSocketAddress ipv4 port \<Rightarrow> us_DoSendTo ro checksumEnabled down st k p ipv4 port (us_ipTos (ul_store ul k)) ul n
     | NotInet \<Rightarrow> FragDone (-1, ul, n))"

text \<open>Receiving.\<close>

definition us_RecvFrom :: "u32 \<Rightarrow> udp_socket \<Rightarrow> (u8 list \<times> sock_address) option \<times> udp_socket" where
  "us_RecvFrom maxSize s = (case us_deliveryQueue s of
       [] \<Rightarrow> (None, s\<lparr>us_errno := ERROR_AGAIN\<rparr>)
     | (p, from) # r \<Rightarrow>
         if of_nat (length p) \<le> maxSize
         then (Some (p, from), s\<lparr>us_deliveryQueue := r, us_rxAvailable := us_rxAvailable s - of_nat (length p)\<rparr>)
         else (None, s))"

definition us_GetSockName :: "ptr \<Rightarrow> udp_l4 \<Rightarrow> sock_address option" where
  "us_GetSockName k ul =
     (if us_endPoint (ul_store ul k) \<noteq> nullptr
      then do { e \<leftarrow> us_end_point k ul; Some (InetSocketAddress (ep_localAddr e) (ep_localPort e)) }
      else Some (InetSocketAddress addr_GetZero 0))"

definition us_GetPeerName :: "ptr \<Rightarrow> udp_l4 \<Rightarrow> (int \<times> sock_address option \<times> udp_l4) option" where
  "us_GetPeerName k ul =
     (let s = ul_store ul k in
      if \<not> us_connected s then Some (-1, None, us_on k (\<lambda>s. s\<lparr>us_errno := ERROR_NOTCONN\<rparr>) ul)
      else case us_defaultAddress s of
          Some a \<Rightarrow> Some (0, Some (InetSocketAddress a (us_defaultPort s)), ul)
        | None \<Rightarrow> None)"

text \<open>\<open>devices\<close>: the devices of the node.\<close>

definition us_BindToNetDevice :: "ptr list \<Rightarrow> ptr \<Rightarrow> ptr \<Rightarrow> udp_l4 \<Rightarrow> udp_l4 option" where
  "us_BindToNetDevice devices k netdevice ul = do {
     ns_assert (netdevice = nullptr \<or> netdevice \<in> set devices);
     let ul = us_on k (\<lambda>s. s\<lparr>us_boundnetdevice := netdevice\<rparr>) ul;
     Some (if us_endPoint (ul_store ul k) \<noteq> nullptr then ep_call k (ep_BindToNetDevice netdevice) ul else ul)
   }"

definition us_ForwardUp :: "u8 list \<Rightarrow> ipv4_header \<Rightarrow> u16 \<Rightarrow> udp_socket \<Rightarrow> udp_socket" where
  "us_ForwardUp packet header port s =
     (if us_shutdownRecv s then s
      else if us_rxAvailable s + of_nat (length packet) \<le> us_rcvBufSize s
      then s\<lparr>us_deliveryQueue := us_deliveryQueue s @ [(packet, InetSocketAddress (ip_source header) port)],
             us_rxAvailable := us_rxAvailable s + of_nat (length packet)\<rparr>
      else s\<lparr>us_dropTrace := us_dropTrace s @ [packet]\<rparr>)"

definition us_SetRcvBufSize :: "u32 \<Rightarrow> udp_socket \<Rightarrow> udp_socket" where
  "us_SetRcvBufSize sz s = s\<lparr>us_rcvBufSize := sz\<rparr>"

definition us_SetIpMulticastTtl :: "u8 \<Rightarrow> udp_socket \<Rightarrow> udp_socket" where
  "us_SetIpMulticastTtl ipTtl s = s\<lparr>us_ipMulticastTtl := ipTtl\<rparr>"

definition us_SetAllowBroadcast :: "bool \<Rightarrow> udp_socket \<Rightarrow> bool \<times> udp_socket" where
  "us_SetAllowBroadcast allowBroadcast s = (True, s\<lparr>us_allowBroadcast := allowBroadcast\<rparr>)"

datatype rx_status = RX_OK | RX_CSUM_FAILED | RX_ENDPOINT_CLOSED | RX_ENDPOINT_UNREACH

text \<open>\<^verbatim>\<open>Ipv4EndPoint::ForwardUp\<close> to the socket of the callback.\<close>

definition ep_ForwardUp :: "u8 list \<Rightarrow> ipv4_header \<Rightarrow> u16 \<Rightarrow> ptr \<Rightarrow> udp_l4 \<Rightarrow> udp_l4" where
  "ep_ForwardUp p header sport endPoint ul = (case map_of (dx_endPoints (ul_endPoints ul)) endPoint of
       Some e \<Rightarrow> if ep_rxCallback e \<noteq> nullptr then us_on (ep_rxCallback e) (us_ForwardUp p header sport) ul else ul
     | None \<Rightarrow> ul)"

definition ul_Receive :: "bool \<Rightarrow> u8 list \<Rightarrow> ipv4_header \<Rightarrow> ipv4_interface \<Rightarrow> udp_l4 \<Rightarrow> (rx_status \<times> udp_l4) option" where
  "ul_Receive checksumEnabled packet header interface ul = do {
     let r = udp_InitializeChecksum (Ipv4 (ip_source header)) (Ipv4 (ip_destination header)) 17
               (if checksumEnabled then udp_EnableChecksums UdpHeader_init else UdpHeader_init);
     (udpHeader, _) \<leftarrow> udp_Deserialize r packet;
     if \<not> udp_goodChecksum udpHeader then Some (RX_CSUM_FAILED, ul)
     else do {
       endPoints \<leftarrow> dx_Lookup (ip_destination header) (udp_destinationPort udpHeader) (ip_source header) (udp_sourcePort udpHeader)
         interface (ul_endPoints ul);
       if endPoints = [] then Some (RX_ENDPOINT_UNREACH, ul)
       else do {
         (udpHeader, n) \<leftarrow> udp_Deserialize udpHeader packet;
         Some (RX_OK, fold (ep_ForwardUp (drop n packet) header (udp_sourcePort udpHeader)) endPoints ul)
       }
     }
   }"

text \<open>\<^verbatim>\<open>ReceiveIcmp\<close>: the socket that is told of the error, or \<open>nullptr\<close>.\<close>

definition ul_ReceiveIcmp :: "u32 \<Rightarrow> u32 \<Rightarrow> u8 list \<Rightarrow> udp_l4 \<Rightarrow> ptr option" where
  "ul_ReceiveIcmp payloadSource payloadDestination payload ul = do {
     ns_assert (length payload = 8);
     let src = ntoh (take 2 payload);
     let dst = ntoh (take 2 (drop 2 payload));
     let endPoint = dx_SimpleLookup payloadSource src payloadDestination dst (ul_endPoints ul);
     Some (if endPoint \<noteq> nullptr
           then case map_of (dx_endPoints (ul_endPoints ul)) endPoint of Some e \<Rightarrow> ep_icmpCallback e | None \<Rightarrow> nullptr
           else nullptr)
   }"

text \<open>
  The end of \<^verbatim>\<open>LocalDeliver\<close>: the protocol receives the packet, and a port that nobody listens on
  is answered with an ICMP message (the second component of the result).
\<close>

definition l3_deliver_up :: "(u8 list \<Rightarrow> ipv4_header \<Rightarrow> ipv4_interface \<Rightarrow> 'u \<Rightarrow> (rx_status \<times> 'u) option) option
    \<Rightarrow> l3_ifs \<Rightarrow> nat \<Rightarrow> ip_packet \<Rightarrow> 'u \<Rightarrow> (bool \<times> 'u) option" where
  "l3_deliver_up protocol st iif x u = (case protocol of
       None \<Rightarrow> Some (False, u)
     | Some receive \<Rightarrow> do {
         f \<leftarrow> l3_GetInterface iif st;
         (status, u) \<leftarrow> receive (fst x) (snd x) f u;
         Some (case status of
             RX_ENDPOINT_UNREACH \<Rightarrow>
               (let dest = ip_destination (snd x) in
                \<not> addr_IsBroadcast dest \<and> \<not> addr_IsMulticast dest
                \<and> \<not> list_ex (\<lambda>a. addr_CombineMask (ia_mask a) (ia_local a) = addr_CombineMask (ia_mask a) dest
                     \<and> addr_IsSubnetDirectedBroadcast (ia_mask a) dest) (if_ifaddrs f))
           | _ \<Rightarrow> False, u)
       })"

end
