(* ===== verification/Udp_Laws.thy ===== *)
theory Udp_Laws
  imports Udp_Socket
begin

text \<open>
  What UDP sockets promise: datagrams arrive as they were sent, in the order of arrival and within
  the receive buffer; and exactly when receiving stops the simulation.
\<close>

section \<open>The header of a datagram\<close>

lemma header_checksum_ipv4:
  assumes "udp_source h = Ipv4 a" and "udp_destination h = Ipv4 b"
  shows "udp_CalculateHeaderChecksum sz h \<noteq> None"
  using assms by (simp add: udp_CalculateHeaderChecksum_def)

definition udp_receive_header :: "bool \<Rightarrow> u32 \<Rightarrow> u32 \<Rightarrow> udp_header" where
  "udp_receive_header ck saddr daddr =
     udp_InitializeChecksum (Ipv4 saddr) (Ipv4 daddr) 17 (if ck then udp_EnableChecksums UdpHeader_init else UdpHeader_init)"

lemma udp_fit_sent:
  assumes "length pl \<le> 65507"
  shows "udp_fit (udp_send_header True saddr daddr sport dport) (udp_receive_header True saddr daddr) pl"
    and "udp_fit (udp_send_header True saddr daddr sport dport)
      (udp_result (udp_send_header True saddr daddr sport dport) (udp_receive_header True saddr daddr) pl) pl"
  using assms header_checksum_ipv4 [of "udp_send_header True saddr daddr sport dport" saddr daddr]
  by (simp_all add: udp_fit_def udp_send_header_def udp_receive_header_def udp_SetSourcePort_def udp_SetDestinationPort_def
      udp_InitializeChecksum_def udp_EnableChecksums_def UdpHeader_init_def udp_result_def)

text \<open>With and without checksums, what is sent can be read, also into a header that was read before.\<close>

lemma udp_wire:
  assumes "length pl \<le> 65507"
  shows "\<exists>hdr h h'. udp_Serialize (udp_send_header ck saddr daddr sport dport) pl = Some hdr \<and> length hdr = 8
    \<and> udp_Deserialize (udp_receive_header ck saddr daddr) (hdr @ pl) = Some (h, 8)
    \<and> udp_sourcePort h = sport \<and> udp_destinationPort h = dport \<and> udp_goodChecksum h
    \<and> udp_Deserialize h (hdr @ pl) = Some (h', 8) \<and> udp_sourcePort h' = sport"
proof (cases ck)
  case True
  let ?h = "udp_send_header True saddr daddr sport dport" and ?r = "udp_receive_header True saddr daddr"
  have ports: "udp_sourcePort ?h = sport" "udp_destinationPort ?h = dport"
    by (simp_all add: udp_send_header_def udp_SetSourcePort_def udp_SetDestinationPort_def)
  obtain hdr where hdr: "udp_Serialize ?h pl = Some hdr" "length hdr = 8" "udp_Deserialize ?r (hdr @ pl) = Some (udp_result ?h ?r pl, 8)"
    using udp_read_back [OF udp_fit_sent(1) [OF assms, of saddr daddr sport dport]] by (auto simp: udp_GetSerializedSize_def)
  moreover have "udp_Deserialize (udp_result ?h ?r pl) (hdr @ pl) = Some (udp_result ?h (udp_result ?h ?r pl) pl, 8)"
    using udp_read_back [OF udp_fit_sent(2) [OF assms, of saddr daddr sport dport]] hdr(1) by (auto simp: udp_GetSerializedSize_def)
  ultimately show ?thesis using True ports by (simp add: udp_result_def)
next
  case False
  let ?hdr = "hton16 sport @ hton16 dport @ hton16 (of_nat (8 + length pl)) @ lsb16 0"
  have "udp_Serialize (udp_send_header False saddr daddr sport dport) pl = Some ?hdr"
    by (simp add: udp_Serialize_def udp_send_header_def udp_SetSourcePort_def udp_SetDestinationPort_def UdpHeader_init_def Let_def)
  moreover have "length ?hdr = 8" by simp
  moreover obtain h where h: "udp_Deserialize (udp_receive_header False saddr daddr) (?hdr @ pl) = Some (h, 8)"
    "udp_sourcePort h = sport" "udp_destinationPort h = dport" "udp_goodChecksum h" "\<not> udp_calcChecksum h"
    by (auto simp: udp_Deserialize_def udp_receive_header_def udp_InitializeChecksum_def UdpHeader_init_def udp_GetSerializedSize_def Let_def)
  moreover have "\<exists>h'. udp_Deserialize h (?hdr @ pl) = Some (h', 8) \<and> udp_sourcePort h' = sport"
    using h(5) by (auto simp: udp_Deserialize_def udp_GetSerializedSize_def Let_def)
  moreover have "ck = False" using False by simp
  ultimately show ?thesis by blast
qed

lemma udp_receive_header_eq:
  "udp_InitializeChecksum (Ipv4 saddr) (Ipv4 daddr) 17 (if ck then udp_EnableChecksums UdpHeader_init else UdpHeader_init)
     = udp_receive_header ck saddr daddr"
  by (simp add: udp_receive_header_def)

section \<open>From socket to socket\<close>

lemma ul_Receive_sent:
  assumes "udp_Serialize (udp_send_header ck (ip_source x) (ip_destination x) sport dport) pl = Some hdr" and "length pl \<le> 65507"
    and "dx_Lookup (ip_destination x) dport (ip_source x) sport f (ul_endPoints ul) = Some [q]"
  shows "ul_Receive ck (hdr @ pl) x f ul = Some (RX_OK, ep_ForwardUp pl x sport q ul)"
proof -
  obtain h h' where "length hdr = 8" "udp_Deserialize (udp_receive_header ck (ip_source x) (ip_destination x)) (hdr @ pl) = Some (h, 8)"
    "udp_sourcePort h = sport" "udp_destinationPort h = dport" "udp_goodChecksum h"
    "udp_Deserialize h (hdr @ pl) = Some (h', 8)" "udp_sourcePort h' = sport"
    using udp_wire [OF assms(2), of ck "ip_source x" "ip_destination x" sport dport] assms(1) by auto
  then show ?thesis using assms(3) unfolding ul_Receive_def Let_def udp_receive_header_eq by simp
qed

text \<open>A socket that listens: the callback of its end point, and room for a datagram.\<close>

definition us_listens :: "ptr \<Rightarrow> ptr \<Rightarrow> nat \<Rightarrow> udp_l4 \<Rightarrow> bool" where
  "us_listens k q n ul \<longleftrightarrow> k \<noteq> nullptr \<and> (\<exists>e. map_of (dx_endPoints (ul_endPoints ul)) q = Some e \<and> ep_rxCallback e = k)
     \<and> \<not> us_shutdownRecv (ul_store ul k) \<and> us_rxAvailable (ul_store ul k) + of_nat n \<le> us_rcvBufSize (ul_store ul k)"

definition us_queued :: "u8 list \<Rightarrow> sock_address \<Rightarrow> udp_socket \<Rightarrow> udp_socket" where
  "us_queued pl from s = s\<lparr>us_deliveryQueue := us_deliveryQueue s @ [(pl, from)], us_rxAvailable := us_rxAvailable s + of_nat (length pl)\<rparr>"

lemma ep_ForwardUp_listens:
  assumes "us_listens k q (length pl) ul"
  shows "ep_ForwardUp pl x sport q ul = us_on k (us_queued pl (InetSocketAddress (ip_source x) sport)) ul"
  using assms by (auto simp: us_listens_def ep_ForwardUp_def us_ForwardUp_def us_queued_def us_on_def)

text \<open>A socket that can send: its end point has an address, and no TTL of its own.\<close>

definition us_ready :: "ptr \<Rightarrow> u32 \<Rightarrow> u16 \<Rightarrow> udp_l4 \<Rightarrow> bool" where
  "us_ready k saddr sport ul \<longleftrightarrow> us_endPoint (ul_store ul k) \<noteq> nullptr \<and> \<not> us_shutdownSend (ul_store ul k)
     \<and> (us_manualIpTtl (ul_store ul k) \<longrightarrow> us_ipTtl (ul_store ul k) = 0) \<and> us_ipMulticastTtl (ul_store ul k) = 0 \<and> saddr \<noteq> addr_GetAny
     \<and> (\<exists>e. us_end_point k ul = Some e \<and> ep_localAddr e = saddr \<and> ep_localPort e = sport)"

lemma us_SendTo_ready:
  assumes "us_ready k saddr sport ul" and "length (ap_bytes p) \<le> 65507" and "\<not> addr_IsBroadcast dest"
  shows "us_SendTo ro ck down st k p (InetSocketAddress dest dport) ul n =
    frag_bind (ul_Send ck down (if us_ipTos (ul_store ul k) \<noteq> 0 then p\<lparr>ap_tosTag := Some (us_ipTos (ul_store ul k))\<rparr> else p)
        saddr dest sport dport None n) (\<lambda>n. FragDone (int (length (ap_bytes p)), ul, n))"
  using assms by (auto simp: us_ready_def us_SendTo_def us_DoSendTo_def or_abort_def us_tag_packet_def us_GetTxAvailable_def Let_def)

text \<open>What reaches the network layer for a datagram.\<close>

definition datagram :: "bool \<Rightarrow> udp_socket \<Rightarrow> app_packet \<Rightarrow> u32 \<Rightarrow> u16 \<Rightarrow> u32 \<Rightarrow> u16 \<Rightarrow> send_args" where
  "datagram ck s p saddr sport daddr dport =
     \<lparr>sa_packet = (case udp_Serialize (udp_send_header ck saddr daddr sport dport) (ap_bytes p) of Some hdr \<Rightarrow> hdr | None \<Rightarrow> []) @ ap_bytes p,
      sa_ttlTag = ap_ttlTag p, sa_tosTag = (if us_ipTos s \<noteq> 0 then Some (us_ipTos s) else ap_tosTag p),
      sa_source = saddr, sa_destination = daddr, sa_protocol = 17\<rparr>"

lemma us_SendTo_datagram:
  assumes "us_ready k saddr sport ul" and "length (ap_bytes p) \<le> 65507" and "\<not> addr_IsBroadcast dest"
  shows "us_SendTo ro ck down st k p (InetSocketAddress dest dport) ul n =
    frag_bind (down (datagram ck (ul_store ul k) p saddr sport dest dport) None n) (\<lambda>n. FragDone (int (length (ap_bytes p)), ul, n))"
proof -
  obtain hdr where "udp_Serialize (udp_send_header ck saddr dest sport dport) (ap_bytes p) = Some hdr"
    using udp_wire [OF assms(2)] by blast
  then show ?thesis unfolding us_SendTo_ready [OF assms] by (simp add: ul_Send_def or_abort_def datagram_def)
qed

text \<open>
  C8: a datagram goes from socket to socket.  A bound socket of a node in a reachable configuration
  sends at most 65507 bytes to a unicast destination for which the node has a route.  Then
  \<^verbatim>\<open>SendTo\<close> returns the size, and when the frames it leads to arrive at the destination, in any
  order and with any padding, the protocol there puts exactly the bytes that were sent, with the
  address and port of the sender, at the end of the queue of the socket that the demultiplexer
  finds, and nobody is sent an ICMP error.  This holds with and without checksums.
\<close>

theorem udp_end_to_end:
  assumes "node_reach mtu nd" and "gateways_set (nd_routing nd)" and "us_ready k saddr sport ul" and "length (ap_bytes p) \<le> 65507"
    and "\<not> addr_IsBroadcast dest" and "\<not> addr_IsLocalMulticast dest"
    and "subnet_broadcast (nd_ifs nd) dest (l3_interfaces (nd_ifs nd)) = Some None"
    and "sr_RouteOutput (nd_ifs nd) dest nullptr (nd_routing nd) = Some (Some rt, e)"
    and "l3_reverse (nd_ifs nd) (rt_outputDevice rt) = Some i" and "if_ifup (l3_interfaces (nd_ifs nd) ! i)"
    and "ends_at dest device j (sk_node sk)" and "l3_reach T S (sk_reasm sk)"
    and "a = datagram ck (ul_store ul k) p saddr sport dest dport"
    and "K = frag_key (header_of ck ttl a (sn_identification s (sa_key a)))"
    and "S K = sa_packet a" and "l3_fragments (sk_reasm sk) K = None"
    and "dx_Lookup dest dport saddr sport (l3_interfaces (nd_ifs (sk_node sk)) ! j) (ul_endPoints ul') = Some [q]"
    and "us_listens k' q (length (ap_bytes p)) ul'"
  shows "\<exists>s' outs. us_SendTo ro ck
        (\<lambda>a. l3_Send (\<lambda>st dest oif. sr_RouteOutput st dest oif (nd_routing nd)) (length (ap_bytes p) + 9) ck ttl mtu (nd_ifs nd) a)
        (nd_ifs nd) k p (InetSocketAddress dest dport) ul s = FragDone (int (length (ap_bytes p)), ul, s')
    \<and> sn_out s' = sn_out s @ outs
    \<and> (\<forall>xs frames. mset xs = mset (map (fst \<circ> snd) outs) \<longrightarrow> list_all2 (\<lambda>x f. \<exists>pad. f = frame_of x pad) xs frames \<longrightarrow>
        (\<exists>x sk'. l3_receive_all fuel ck T mtu' device sender frames sk = FragDone (replicate (length frames - 1) None @ [Some x], sk')
          \<and> l3_deliver_up (Some (ul_Receive ck)) (nd_ifs (sk_node sk')) j x ul'
            = Some (False, us_on k' (us_queued (ap_bytes p) (InetSocketAddress saddr sport)) ul')))"
proof -
  obtain hdr where hdr: "udp_Serialize (udp_send_header ck saddr dest sport dport) (ap_bytes p) = Some hdr" "length hdr = 8"
    using udp_wire [OF assms(4), of ck saddr dest sport dport] by blast
  have a: "sa_packet a = hdr @ ap_bytes p" "sa_source a = saddr" "sa_destination a = dest"
    by (simp_all add: assms(13) datagram_def hdr(1))
  have len: "sa_packet a \<noteq> []" "length (sa_packet a) \<le> 65535" "Suc (length (sa_packet a)) = length (ap_bytes p) + 9"
    using hdr(2) assms(4) by (auto simp: a)
  let ?send = "\<lambda>a. l3_Send (\<lambda>st dest oif. sr_RouteOutput st dest oif (nd_routing nd)) (length (ap_bytes p) + 9) ck ttl mtu (nd_ifs nd) a"
  obtain s' outs where send: "?send a None s = FragDone s'" "sn_out s' = sn_out s @ outs"
    and receive: "\<forall>xs frames. mset xs = mset (map (fst \<circ> snd) outs) \<longrightarrow> list_all2 (\<lambda>x f. \<exists>pad. f = frame_of x pad) xs frames \<longrightarrow>
        (\<exists>x sk'. l3_receive_all fuel ck T mtu' device sender frames sk =
            FragDone (replicate (length frames - 1) None @ [Some (sa_packet a, x)], sk')
          \<and> ip_source x = sa_source a \<and> ip_destination x = sa_destination a \<and> ip_protocol x = sa_protocol a
          \<and> unat (ip_payloadSize x) = length (sa_packet a)
          \<and> l3_fragments (sk_reasm sk') = l3_fragments (sk_reasm sk) \<and> sk_node sk' = sk_node sk)"
    using send_receive [OF assms(1,2) len(1,2), where s = s and ck = ck and ttl = ttl and sk = sk and S = S and T = T and K = K
        and rt = rt and e = e and i = i and device = device and j = j and fuel = fuel and mtu' = mtu' and sender = sender]
      assms(5-12,14-16) unfolding a(3) len(3) by blast
  have j: "l3_GetInterface j (nd_ifs (sk_node sk)) = Some (l3_interfaces (nd_ifs (sk_node sk)) ! j)"
    using assms(11) by (simp add: ends_at_def)
  have up: "l3_deliver_up (Some (ul_Receive ck)) (nd_ifs (sk_node sk)) j (sa_packet a, x) ul'
      = Some (False, us_on k' (us_queued (ap_bytes p) (InetSocketAddress saddr sport)) ul')"
    if "ip_source x = saddr" "ip_destination x = dest" for x
    using ul_Receive_sent [of ck x sport dport "ap_bytes p" hdr "l3_interfaces (nd_ifs (sk_node sk)) ! j" ul' q] that hdr(1) assms(4,17)
      ep_ForwardUp_listens [OF assms(18), of x sport] unfolding l3_deliver_up_def option.case j a(1) by simp
  have "us_SendTo ro ck ?send (nd_ifs nd) k p (InetSocketAddress dest dport) ul s = FragDone (int (length (ap_bytes p)), ul, s')"
    unfolding us_SendTo_datagram [OF assms(3,4,5)] assms(13) [symmetric] send(1) by simp
  moreover have "\<exists>x sk'. l3_receive_all fuel ck T mtu' device sender frames sk = FragDone (replicate (length frames - 1) None @ [Some x], sk')
          \<and> l3_deliver_up (Some (ul_Receive ck)) (nd_ifs (sk_node sk')) j x ul'
            = Some (False, us_on k' (us_queued (ap_bytes p) (InetSocketAddress saddr sport)) ul')"
    if "mset xs = mset (map (fst \<circ> snd) outs)" "list_all2 (\<lambda>x f. \<exists>pad. f = frame_of x pad) xs frames" for xs frames
  proof -
    from receive [rule_format, OF that] obtain x sk' where x: "l3_receive_all fuel ck T mtu' device sender frames sk =
        FragDone (replicate (length frames - 1) None @ [Some (sa_packet a, x)], sk')"
      "ip_source x = sa_source a" "ip_destination x = sa_destination a" "sk_node sk' = sk_node sk" by blast
    then show ?thesis using up [of x] a(2,3) by (intro exI [of _ "(sa_packet a, x)"] exI [of _ sk']) simp
  qed
  ultimately show ?thesis using send(2) by blast
qed

section \<open>The receive queue\<close>

datatype us_event = Arrive "u8 list" ipv4_header u16 | Read u32 | Resize u32

text \<open>What happens at a socket: datagrams arrive, the application reads, the buffer size is set.\<close>

fun us_run :: "us_event list \<Rightarrow> udp_socket \<Rightarrow> (u8 list \<times> sock_address) list \<times> udp_socket" where
  "us_run [] s = ([], s)"
| "us_run (Arrive p h port # r) s = us_run r (us_ForwardUp p h port s)"
| "us_run (Resize n # r) s = us_run r (us_SetRcvBufSize n s)"
| "us_run (Read n # r) s =
     (let (x, s) = us_RecvFrom n s; (xs, s) = us_run r s in ((case x of Some y \<Rightarrow> [y] | None \<Rightarrow> []) @ xs, s))"

fun arrivals :: "us_event list \<Rightarrow> (u8 list \<times> sock_address) list" where
  "arrivals [] = []"
| "arrivals (Arrive p h port # r) = (p, InetSocketAddress (ip_source h) port) # arrivals r"
| "arrivals (Resize n # r) = arrivals r"
| "arrivals (Read n # r) = arrivals r"

text \<open>Datagrams are smaller than 64 KiB, and the buffer leaves room for one below the wrap-around of 32 bits.\<close>

fun ev_ok :: "us_event \<Rightarrow> bool" where
  "ev_ok (Arrive p h port) \<longleftrightarrow> length p \<le> 65535"
| "ev_ok (Read n) \<longleftrightarrow> True"
| "ev_ok (Resize n) \<longleftrightarrow> unat n < 2 ^ 32 - 65536"

definition rx_inv :: "udp_socket \<Rightarrow> bool" where
  "rx_inv s \<longleftrightarrow> unat (us_rxAvailable s) = sum_list (map (length \<circ> fst) (us_deliveryQueue s))
     \<and> unat (us_rxAvailable s) < 2 ^ 32 - 65536 \<and> unat (us_rcvBufSize s) < 2 ^ 32 - 65536"

lemma ForwardUp_inv:
  assumes "rx_inv s" and "length p \<le> 65535"
  shows "rx_inv (us_ForwardUp p h port s)"
proof -
  have l: "unat (of_nat (length p) :: u32) = length p" using assms(2) by (simp add: unat_of_nat)
  have "unat (us_rxAvailable s + of_nat (length p)) = unat (us_rxAvailable s) + length p"
    using assms l by (subst unat_word_ariths) (simp add: rx_inv_def)
  then show ?thesis using assms by (auto simp: us_ForwardUp_def rx_inv_def word_le_nat_alt)
qed

lemma RecvFrom_inv:
  assumes "rx_inv s" and "us_RecvFrom n s = (x, s')"
  shows "rx_inv s' \<and> us_deliveryQueue s = (case x of Some y \<Rightarrow> [y] | None \<Rightarrow> []) @ us_deliveryQueue s'
    \<and> us_dropTrace s' = us_dropTrace s \<and> us_shutdownRecv s' = us_shutdownRecv s"
proof (cases "us_deliveryQueue s")
  case Nil
  then show ?thesis using assms by (auto simp: us_RecvFrom_def rx_inv_def)
next
  case (Cons y r)
  obtain p a where y: "y = (p, a)" by fastforce
  have le: "length p \<le> unat (us_rxAvailable s)" using assms(1) Cons y by (simp add: rx_inv_def)
  have "unat (of_nat (length p) :: u32) = length p" using le assms(1) by (simp add: unat_of_nat rx_inv_def)
  then have "unat (us_rxAvailable s - of_nat (length p)) = unat (us_rxAvailable s) - length p"
    using le by (subst unat_sub) (simp_all add: word_le_nat_alt)
  then show ?thesis using assms Cons y le by (auto simp: us_RecvFrom_def rx_inv_def split: if_splits)
qed

text \<open>
  C21: the receive queue of a socket is a queue.  Whatever arrives and is read, in any order and
  with any buffer sizes, what was read followed by what is still queued is what was accepted, in
  the order of arrival; every arriving datagram is either accepted or reported to the drop trace;
  and \<^verbatim>\<open>GetRxAvailable\<close> is the number of bytes in the queue.
\<close>

theorem udp_receive_queue:
  assumes "us_run evs s = (rs, s')" and "rx_inv s" and "\<forall>ev \<in> set evs. ev_ok ev" and "\<not> us_shutdownRecv s"
  shows "\<exists>acc drp. rs @ us_deliveryQueue s' = us_deliveryQueue s @ acc \<and> us_dropTrace s' = us_dropTrace s @ map fst drp
    \<and> arrivals evs \<in> shuffles acc drp \<and> rx_inv s'"
  using assms
proof (induction evs s arbitrary: rs rule: us_run.induct)
  case (1 s)
  then show ?case by auto
next
  case (2 p h port r s)
  let ?y = "(p, InetSocketAddress (ip_source h) port)" and ?s = "us_ForwardUp p h port s"
  have inv: "rx_inv ?s" "\<not> us_shutdownRecv ?s"
    using 2(3-5) by (simp_all add: ForwardUp_inv) (simp add: us_ForwardUp_def)
  then obtain acc drp where ad: "rs @ us_deliveryQueue s' = us_deliveryQueue ?s @ acc" "us_dropTrace s' = us_dropTrace ?s @ map fst drp"
    "arrivals r \<in> shuffles acc drp" "rx_inv s'"
    using 2(1) [OF _ inv(1) _ inv(2)] 2(2,4) by auto
  show ?case
  proof (cases "us_rxAvailable s + of_nat (length p) \<le> us_rcvBufSize s")
    case True
    then have "us_deliveryQueue ?s = us_deliveryQueue s @ [?y]" "us_dropTrace ?s = us_dropTrace s"
      using 2(5) by (simp_all add: us_ForwardUp_def)
    moreover have "?y # arrivals r \<in> shuffles (?y # acc) drp" using ad(3) by (rule Cons_in_shuffles_leftI)
    ultimately show ?thesis using ad by (intro exI [of _ "?y # acc"] exI [of _ drp]) simp
  next
    case False
    then have "us_deliveryQueue ?s = us_deliveryQueue s" "us_dropTrace ?s = us_dropTrace s @ [p]"
      using 2(5) by (simp_all add: us_ForwardUp_def)
    moreover have "?y # arrivals r \<in> shuffles acc (?y # drp)" using ad(3) by (rule Cons_in_shuffles_rightI)
    ultimately show ?thesis using ad by (intro exI [of _ acc] exI [of _ "?y # drp"]) simp
  qed
next
  case (3 n r s)
  then show ?case by (auto simp: us_SetRcvBufSize_def rx_inv_def)
next
  case (4 n r s)
  obtain x s1 where x: "us_RecvFrom n s = (x, s1)" by fastforce
  obtain rs1 where rs1: "us_run r s1 = (rs1, s')" "rs = (case x of Some y \<Rightarrow> [y] | None \<Rightarrow> []) @ rs1"
    using 4(2) x by (auto split: prod.splits)
  note r = RecvFrom_inv [OF 4(3) x]
  then show ?case using 4(1) [OF x [symmetric] refl rs1(1)] 4(4,5) rs1(2) by auto
qed

theorem udp_receive_queue_witness:
  "us_run [Arrive [1, 2] Ipv4Header_init 7, Arrive [3] Ipv4Header_init 7, Read 10, Resize 0, Arrive [4] Ipv4Header_init 8] UdpSocketImpl_init
     = ([([1, 2], InetSocketAddress (ip_source Ipv4Header_init) 7)],
        UdpSocketImpl_init\<lparr>us_rcvBufSize := 0, us_rxAvailable := 1,
          us_deliveryQueue := [([3], InetSocketAddress (ip_source Ipv4Header_init) 7)], us_dropTrace := [[4]]\<rparr>)
   \<and> (\<exists>drp. [[4 :: u8]] = map fst drp \<and>
     [([1, 2], InetSocketAddress (ip_source Ipv4Header_init) 7), ([3], InetSocketAddress (ip_source Ipv4Header_init) 7),
      ([4], InetSocketAddress (ip_source Ipv4Header_init) 8)]
     \<in> shuffles [([1, 2], InetSocketAddress (ip_source Ipv4Header_init) 7), ([3], InetSocketAddress (ip_source Ipv4Header_init) 7)] drp)"
proof -
  let ?evs = "[Arrive [1, 2] Ipv4Header_init 7, Arrive [3] Ipv4Header_init 7, Read 10, Resize 0, Arrive [4] Ipv4Header_init 8]"
  let ?s = "UdpSocketImpl_init\<lparr>us_rcvBufSize := 0, us_rxAvailable := 1,
          us_deliveryQueue := [([3], InetSocketAddress (ip_source Ipv4Header_init) 7)], us_dropTrace := [[4]]\<rparr>"
  have run: "us_run ?evs UdpSocketImpl_init = ([([1, 2], InetSocketAddress (ip_source Ipv4Header_init) 7)], ?s)"
    by (simp add: us_ForwardUp_def us_RecvFrom_def us_SetRcvBufSize_def UdpSocketImpl_init_def)
  have init: "rx_inv UdpSocketImpl_init" "\<not> us_shutdownRecv UdpSocketImpl_init"
    "us_deliveryQueue UdpSocketImpl_init = []" "us_dropTrace UdpSocketImpl_init = []" by (simp_all add: rx_inv_def UdpSocketImpl_init_def)
  have "\<forall>ev \<in> set ?evs. ev_ok ev" by simp
  from udp_receive_queue [OF run init(1) this init(2)] obtain acc drp where
    "[([1, 2], InetSocketAddress (ip_source Ipv4Header_init) 7)] @ us_deliveryQueue ?s = us_deliveryQueue UdpSocketImpl_init @ acc"
    "us_dropTrace ?s = us_dropTrace UdpSocketImpl_init @ map fst drp" "arrivals ?evs \<in> shuffles acc drp" by blast
  then show ?thesis using run unfolding init(3,4) by auto
qed

section \<open>Sockets that are shut down\<close>

text \<open>After \<^verbatim>\<open>Close\<close> a socket has no end point, and it does not send or receive.\<close>

lemma us_on_same [simp]: "ul_store (us_on k g ul) k = g (ul_store ul k)"
  by (simp add: us_on_def)

lemma us_on_endPoints [simp]: "ul_endPoints (us_on k g ul) = ul_endPoints ul"
  by (simp add: us_on_def)

lemma ul_RemoveSocket_store [simp]: "ul_store (snd (ul_RemoveSocket k ul)) = ul_store ul"
  by (simp add: ul_RemoveSocket_def case_prod_unfold Let_def)

lemma us_Destroy_keeps:
  "us_shutdownSend (ul_store (us_Destroy c ul) k) = us_shutdownSend (ul_store ul k)"
  "us_shutdownRecv (ul_store (us_Destroy c ul) k) = us_shutdownRecv (ul_store ul k)"
  "us_boundnetdevice (ul_store (us_Destroy c ul) k) = us_boundnetdevice (ul_store ul k)"
  by (simp_all add: us_Destroy_def us_on_def)

lemma ul_DeAllocate_keeps:
  "us_shutdownSend (ul_store (ul_DeAllocate q ul) k) = us_shutdownSend (ul_store ul k)"
  "us_shutdownRecv (ul_store (ul_DeAllocate q ul) k) = us_shutdownRecv (ul_store ul k)"
  "us_boundnetdevice (ul_store (ul_DeAllocate q ul) k) = us_boundnetdevice (ul_store ul k)"
  by (simp_all add: ul_DeAllocate_def us_Destroy_keeps Let_def case_prod_unfold)

lemma us_Close_closed:
  assumes "us_Close k ul = (0, ul')"
  shows "us_endPoint (ul_store ul' k) = nullptr \<and> us_shutdownSend (ul_store ul' k) \<and> us_shutdownRecv (ul_store ul' k)
    \<and> us_boundnetdevice (ul_store ul' k) = us_boundnetdevice (ul_store ul k)"
  using assms by (auto simp: us_Close_def us_DeallocateEndPoint_def ul_DeAllocate_keeps split: if_splits)

text \<open>An ephemeral port for a socket without end point.\<close>

lemma us_Bind_free:
  assumes "dx_reach clean (ul_endPoints ul)" and "\<not> dx_LookupPortLocal port (ul_endPoints ul)" and "49152 \<le> unat port"
  shows "\<exists>ul'. us_Bind k ul = Some (0, ul') \<and> us_endPoint (ul_store ul' k) \<noteq> nullptr \<and> \<not> us_shutdownSend (ul_store ul' k)
    \<and> \<not> us_shutdownRecv (ul_store ul' k)"
proof -
  have wf: "dx_wf (ul_endPoints ul)" using dx_reach_ok [OF assms(1)] by simp
  obtain p where p: "dx_AllocateEphemeralPort (ul_endPoints ul) = (p, (ul_endPoints ul)\<lparr>dx_ephemeral := p\<rparr>)" "49152 \<le> unat p"
    using ephemeral_port_found [OF wf assms(2,3)] by blast
  have "p \<noteq> 0" using p(2) by auto
  then have "fst (dx_Allocate (ul_endPoints ul)) = dx_fresh (ul_endPoints ul)" using p(1) by (simp add: dx_Allocate_def dx_push_def)
  moreover have "dx_fresh (ul_endPoints ul) \<noteq> 0" using wf by (simp add: dx_wf_def)
  ultimately show ?thesis
    by (auto simp: us_Bind_def us_bind_device_def us_bound_def us_FinishBind_def ep_call_def us_on_def Let_def)
qed

text \<open>
  C39: a socket sends after it was closed.  \<^verbatim>\<open>Close\<close> shuts the socket down and gives its end point
  back; but the next \<^verbatim>\<open>SendTo\<close> finds no end point, binds the socket again, and \<^verbatim>\<open>FinishBind\<close>
  clears both flags before they are tested.  As long as there is an ephemeral port, the datagram
  is treated as that of an open socket, with a new port.
\<close>

theorem closed_socket_sends:
  assumes "us_Close k ul = (0, ul1)" and "dx_reach clean (ul_endPoints ul1)"
    and "\<not> dx_LookupPortLocal port (ul_endPoints ul1)" and "49152 \<le> unat port"
  shows "\<exists>ul2. us_endPoint (ul_store ul2 k) \<noteq> nullptr \<and> \<not> us_shutdownSend (ul_store ul2 k) \<and> \<not> us_shutdownRecv (ul_store ul2 k)
    \<and> (\<forall>p dest dport tos n. us_DoSendTo ro ck down st k p dest dport tos ul1 n = us_DoSendTo ro ck down st k p dest dport tos ul2 n)"
proof -
  obtain ul2 where ul2: "us_Bind k ul1 = Some (0, ul2)" "us_endPoint (ul_store ul2 k) \<noteq> nullptr"
    "\<not> us_shutdownSend (ul_store ul2 k)" "\<not> us_shutdownRecv (ul_store ul2 k)"
    using us_Bind_free [OF assms(2-4)] by blast
  have "us_endPoint (ul_store ul1 k) = nullptr" using us_Close_closed [OF assms(1)] by simp
  then have "us_DoSendTo ro ck down st k p dest dport tos ul1 n = us_DoSendTo ro ck down st k p dest dport tos ul2 n" for p dest dport tos n
    using ul2(1,2) unfolding us_DoSendTo_def by (simp add: or_abort_def)
  then show ?thesis using ul2(2-4) by blast
qed

theorem closed_socket_sends_witness:
  "\<exists>ul2. us_endPoint (ul_store ul2 1) \<noteq> nullptr \<and> \<not> us_shutdownSend (ul_store ul2 1)
    \<and> us_DoSendTo (\<lambda>_ _ _. None) True (\<lambda>_ _ n. FragDone n) bare_ifs 1 \<lparr>ap_bytes = [], ap_ttlTag = None, ap_tosTag = None\<rparr> 1 9 0
        (snd (us_Close 1 UdpL4Protocol_init)) ()
      = us_DoSendTo (\<lambda>_ _ _. None) True (\<lambda>_ _ n. FragDone n) bare_ifs 1 \<lparr>ap_bytes = [], ap_ttlTag = None, ap_tosTag = None\<rparr> 1 9 0 ul2 ()"
proof -
  obtain ul1 where ul1: "us_Close 1 UdpL4Protocol_init = (0, ul1)" "ul_endPoints ul1 = Ipv4EndPointDemux_init"
    by (simp add: us_Close_def us_DeallocateEndPoint_def UdpL4Protocol_init_def us_on_def UdpSocketImpl_init_def)
  have "dx_reach True (ul_endPoints ul1)" "\<not> dx_LookupPortLocal 65535 (ul_endPoints ul1)" "49152 \<le> unat (65535 :: u16)"
    unfolding ul1(2) by (rule dx_reach.start, simp_all add: dx_LookupPortLocal_def Ipv4EndPointDemux_init_def)
  from closed_socket_sends [OF ul1(1) this, of "\<lambda>_ _ _. None" True "\<lambda>_ _ n :: unit. FragDone n" bare_ifs] show ?thesis
    using ul1(1) by auto
qed

section \<open>Sockets share a demultiplexer\<close>

lemma dx_on_id:
  assumes "\<And>e. (p, e) \<in> set (dx_endPoints dx) \<Longrightarrow> g e = e"
  shows "dx_on p g dx = dx"
proof -
  have "map (\<lambda>(q, e). (q, if q = p then g e else e)) (dx_endPoints dx) = dx_endPoints dx"
    using assms by (intro map_idI) auto
  then show ?thesis by (simp add: dx_on_def)
qed

text \<open>What a demultiplexer is after a socket allocated an end point and bound it to its device.\<close>

definition dx_bound :: "ptr \<Rightarrow> ptr \<times> demux \<Rightarrow> demux" where
  "dx_bound device r = dx_on (fst r) (ep_BindToNetDevice device) (snd r)"

lemma push_unbound:
  assumes "dx_wf dx" and "dx_push e dx = (p, dx')" and "ep_boundnetdevice e = nullptr"
  shows "dx_on p (ep_BindToNetDevice nullptr) dx' = dx'"
proof (rule dx_on_id)
  fix e' assume "(p, e') \<in> set (dx_endPoints dx')"
  moreover have "(p, e') \<notin> set (dx_endPoints dx)" using assms(1,2) by (force simp: dx_wf_def dx_push_def)
  ultimately have "e' = e" using assms(2) by (auto simp: dx_push_def)
  then show "ep_BindToNetDevice nullptr e' = e'" using assms(3) by (simp add: ep_BindToNetDevice_def)
qed

lemma new_unbound [simp]: "ep_boundnetdevice (Ipv4EndPoint_init a p) = nullptr"
  by (simp add: Ipv4EndPoint_init_def)

lemma nullptr_unbound: "dx_wf dx \<Longrightarrow> dx_on nullptr g dx = dx"
  using dx_on_absent dx_wf_nullptr by blast

text \<open>Binding to no device leaves the result of an allocation as it is.\<close>

lemma allocated_unbound:
  assumes "dx_wf dx" and "r \<in> {dx_Allocate dx, dx_Allocate_address address dx, dx_Allocate_local device address port dx}"
  shows "dx_bound nullptr r = snd r"
proof -
  obtain q dx1 where q: "dx_AllocateEphemeralPort dx = (q, dx1)" by fastforce
  have wf1: "dx_wf dx1" using AllocateEphemeralPort_ok [OF assms(1) q] by simp
  have "r = (nullptr, dx) \<or> r = (nullptr, dx1) \<or> (\<exists>a p. r = dx_push (Ipv4EndPoint_init a p) dx) \<or> (\<exists>a p. r = dx_push (Ipv4EndPoint_init a p) dx1)"
    using assms(2) q by (auto simp: dx_Allocate_def dx_Allocate_address_def dx_Allocate_local_def; blast)
  then show ?thesis
  proof (elim disjE exE)
    fix a p assume "r = dx_push (Ipv4EndPoint_init a p) dx"
    then show ?thesis using push_unbound [OF assms(1)] by (cases r) (simp add: dx_bound_def)
  next
    fix a p assume "r = dx_push (Ipv4EndPoint_init a p) dx1"
    then show ?thesis using push_unbound [OF wf1] by (cases r) (simp add: dx_bound_def)
  qed (simp_all add: dx_bound_def nullptr_unbound assms(1) wf1)
qed

text \<open>The demultiplexer after \<^verbatim>\<open>Bind\<close>.\<close>

lemma bind_device_endPoints:
  assumes "us_bind_device k (us_bound k r ul) = Some ul'" and "us_boundnetdevice (ul_store ul k) = nullptr \<longrightarrow> dx_bound nullptr r = snd r"
  shows "ul_endPoints ul' = dx_bound (us_boundnetdevice (ul_store ul k)) r \<and> us_endPoint (ul_store ul' k) = fst r"
  using assms by (auto simp: us_bind_device_def us_bound_def Let_def ep_call_def dx_bound_def ns_assert_def us_on_def split: if_splits)

lemma FinishBind_endPoints:
  "\<exists>c b a q. ul_endPoints (snd (us_FinishBind k ul)) = ul_endPoints ul
    \<or> ul_endPoints (snd (us_FinishBind k ul)) = dx_on q (\<lambda>e. ep_SetDestroyCallback c (ep_SetIcmpCallback b (ep_SetRxCallback a e))) (ul_endPoints ul)"
  by (auto simp: us_FinishBind_def ep_call_def)

lemma FinishBind_reach:
  assumes "dx_reach clean (ul_endPoints ul)" and "us_FinishBind k ul = (n, ul')"
  shows "dx_reach clean (ul_endPoints ul')"
  using FinishBind_endPoints [of k ul] assms dx_reach.callbacks by (metis snd_conv)

lemma us_Bind_reach:
  assumes "dx_reach clean (ul_endPoints ul)" and "us_Bind k ul = Some (n, ul')"
  shows "dx_reach clean (ul_endPoints ul')"
proof -
  let ?r = "dx_Allocate (ul_endPoints ul)"
  obtain ul1 where ul1: "us_bind_device k (us_bound k ?r ul) = Some ul1" "us_FinishBind k ul1 = (n, ul')"
    using assms(2) by (auto simp: us_Bind_def bind_eq_Some_conv)
  have "dx_bound nullptr ?r = snd ?r" by (rule allocated_unbound [of "ul_endPoints ul"]) (use dx_reach_ok [OF assms(1)] in simp_all)
  then have "ul_endPoints ul1 = dx_bound (us_boundnetdevice (ul_store ul k)) ?r" using bind_device_endPoints [OF ul1(1)] by simp
  moreover have "dx_reach clean (dx_bound d ?r)" for d unfolding dx_bound_def by (rule dx_reach.ephemeral_any [OF assms(1)]) simp
  ultimately show ?thesis using FinishBind_reach [OF _ ul1(2)] by simp
qed

text \<open>A socket without a device is bound to an address and port that a socket with a device has.\<close>

definition binds_beside :: "ptr \<Rightarrow> sock_address \<Rightarrow> udp_l4 \<Rightarrow> bool" where
  "binds_beside k address ul = (case address of
       InetSocketAddress ipv4 port \<Rightarrow> port \<noteq> 0 \<and> us_boundnetdevice (ul_store ul k) = nullptr \<and> \<not> all_unbound ipv4 port (ul_endPoints ul)
     | NotInet \<Rightarrow> False)"

lemma us_allocate_reach:
  assumes "dx_reach clean (ul_endPoints ul)"
  shows "dx_reach (clean \<and> \<not> binds_beside k (InetSocketAddress ipv4 port) ul)
      (dx_bound (us_boundnetdevice (ul_store ul k)) (us_allocate k ipv4 port ul))"
    and "dx_bound nullptr (us_allocate k ipv4 port ul) = snd (us_allocate k ipv4 port ul)"
proof -
  let ?d = "us_boundnetdevice (ul_store ul k)"
  have wf: "dx_wf (ul_endPoints ul)" using dx_reach_ok [OF assms] by simp
  have "dx_reach clean (dx_bound ?d (dx_Allocate (ul_endPoints ul)))" "dx_reach clean (dx_bound ?d (dx_Allocate_address ipv4 (ul_endPoints ul)))"
    "dx_reach (clean \<and> (?d = nullptr \<longrightarrow> all_unbound ipv4 port (ul_endPoints ul)))
      (dx_bound ?d (dx_Allocate_local ?d ipv4 port (ul_endPoints ul)))"
    unfolding dx_bound_def
    by (rule dx_reach.ephemeral_any [OF assms], simp, rule dx_reach.ephemeral [OF assms], simp,
        rule dx_reach.bound [OF assms], simp)
  then show "dx_reach (clean \<and> \<not> binds_beside k (InetSocketAddress ipv4 port) ul) (dx_bound ?d (us_allocate k ipv4 port ul))"
    by (cases "ipv4 = addr_GetAny"; cases "port = 0"; cases "?d = nullptr")
      (simp_all add: us_allocate_def dx_Allocate_port_def binds_beside_def)
  show "dx_bound nullptr (us_allocate k ipv4 port ul) = snd (us_allocate k ipv4 port ul)"
    by (rule allocated_unbound [OF wf, of _ ipv4 ?d port]) (simp add: us_allocate_def dx_Allocate_port_def)
qed

lemma us_Bind_address_reach:
  assumes "dx_reach clean (ul_endPoints ul)" and "us_Bind_address k address ul = Some (n, ul')"
  shows "dx_reach (clean \<and> \<not> binds_beside k address ul) (ul_endPoints ul')"
proof (cases address)
  case NotInet
  then show ?thesis using assms by (auto simp: us_Bind_address_def binds_beside_def)
next
  case (InetSocketAddress ipv4 port)
  let ?r = "us_allocate k ipv4 port ul" and ?d = "us_boundnetdevice (ul_store ul k)"
  have r: "dx_reach (clean \<and> \<not> binds_beside k address ul) (dx_bound ?d ?r)" "dx_bound nullptr ?r = snd ?r"
    unfolding InetSocketAddress by (rule us_allocate_reach [OF assms(1)])+
  show ?thesis
  proof (cases "fst ?r = nullptr")
    case True
    then have "ul_endPoints ul' = snd ?r" using assms(2) InetSocketAddress
      by (auto simp: us_Bind_address_def Let_def us_bound_def ns_assert_def split: if_splits)
    moreover have "dx_bound ?d ?r = snd ?r" using r(1) True dx_reach_ok [OF r(1)]
      by (simp add: dx_bound_def) (simp add: nullptr_unbound)
    ultimately show ?thesis using r(1) by simp
  next
    case False
    then obtain ul1 where ul1: "us_bind_device k (us_bound k ?r ul) = Some ul1" "us_FinishBind k ul1 = (n, ul')"
      using assms(2) InetSocketAddress
      by (auto simp: us_Bind_address_def Let_def us_bound_def ns_assert_def bind_eq_Some_conv split: if_splits)
    then show ?thesis using bind_device_endPoints [OF ul1(1)] r FinishBind_reach [OF _ ul1(2)] by simp
  qed
qed

lemma us_BindToNetDevice_reach:
  assumes "dx_reach clean (ul_endPoints ul)" and "us_BindToNetDevice devices k d ul = Some ul'"
  shows "dx_reach (clean \<and> us_endPoint (ul_store ul k) = nullptr) (ul_endPoints ul')"
  using assms dx_reach.rebind [OF assms(1)]
  by (auto simp: us_BindToNetDevice_def ns_assert_def Let_def ep_call_def split: if_splits)

lemma us_Destroy_endPoints [simp]: "ul_endPoints (us_Destroy c ul) = ul_endPoints ul"
  by (simp add: us_Destroy_def ul_RemoveSocket_def case_prod_unfold Let_def)

lemma ul_DeAllocate_endPoints: "ul_endPoints (ul_DeAllocate q ul) = snd (dx_DeAllocate q (ul_endPoints ul))"
  by (simp add: ul_DeAllocate_def case_prod_unfold Let_def)

lemma us_Close_reach:
  assumes "dx_reach clean (ul_endPoints ul)"
  shows "dx_reach clean (ul_endPoints (snd (us_Close k ul)))"
proof -
  have "dx_reach clean (snd (dx_DeAllocate q (ul_endPoints ul)))" for q by (rule dx_reach.release [OF assms prod.collapse [symmetric]])
  then show ?thesis using assms by (simp add: us_Close_def us_DeallocateEndPoint_def ul_DeAllocate_endPoints)
qed

lemma frag_bind_done: "frag_bind x g = FragDone y \<Longrightarrow> \<exists>z. x = FragDone z \<and> g z = FragDone y"
  by (cases x) simp_all

lemma or_abort_done: "or_abort x g = FragDone y \<Longrightarrow> \<exists>z. x = Some z \<and> g z = FragDone y"
  by (cases x) (simp_all add: or_abort_def)

lemma us_fail_endPoints: "us_fail k e ul n = FragDone (r, ul', n') \<Longrightarrow> ul_endPoints ul' = ul_endPoints ul"
  by (auto simp: us_fail_def)

lemma us_send_routed_endPoints:
  assumes "us_send_routed ro ck down st k p dest sport port ul n = FragDone (r, ul', n')"
  shows "ul_endPoints ul' = ul_endPoints ul"
  using assms unfolding us_send_routed_def Let_def
  by (auto dest!: or_abort_done frag_bind_done simp: us_fail_endPoints split: option.splits if_splits)

lemma us_DoSendTo_endPoints:
  assumes "us_DoSendTo ro ck down st k p dest port tos ul n = FragDone (r, ul', n')"
  shows "ul_endPoints ul' = ul_endPoints ul \<or> (\<exists>m ul1. us_Bind k ul = Some (m, ul1) \<and> ul_endPoints ul' = ul_endPoints ul1)"
proof -
  obtain m ul1 where ul1: "(if us_endPoint (ul_store ul k) = nullptr then us_Bind k ul else Some (0, ul)) = Some (m, ul1)"
    and rest: "ul_endPoints ul' = ul_endPoints ul1"
    using assms unfolding us_DoSendTo_def Let_def
    by (auto dest!: or_abort_done frag_bind_done us_send_routed_endPoints us_fail_endPoints split: if_splits)
  then show ?thesis by (auto split: if_splits)
qed

lemma us_DoSendTo_reach:
  assumes "dx_reach clean (ul_endPoints ul)" and "us_DoSendTo ro ck down st k p dest port tos ul n = FragDone (r, ul', n')"
  shows "dx_reach clean (ul_endPoints ul')"
  using us_DoSendTo_endPoints [OF assms(2)] us_Bind_reach [OF assms(1)] assms(1) by auto

lemma us_SendTo_reach:
  assumes "dx_reach clean (ul_endPoints ul)" and "us_SendTo ro ck down st k p address ul n = FragDone (r, ul', n')"
  shows "dx_reach clean (ul_endPoints ul')"
  using assms us_DoSendTo_reach [OF assms(1)] by (cases address) (auto simp: us_SendTo_def)

lemma us_Send_reach:
  assumes "dx_reach clean (ul_endPoints ul)" and "us_Send ro ck down st k p ul n = FragDone (r, ul', n')"
  shows "dx_reach clean (ul_endPoints ul')"
proof (cases "us_connected (ul_store ul k)")
  case False
  then show ?thesis using assms us_fail_endPoints by (metis us_Send_def)
next
  case True
  let ?b = "if us_endPoint (ul_store ul k) = nullptr \<and> us_defaultAddress (ul_store ul k) \<noteq> None then us_Bind k ul else Some (0, ul)"
  obtain m ul1 where ul1: "?b = Some (m, ul1)" and rest: "ul_endPoints ul' = ul_endPoints ul1
      \<or> (\<exists>a pt tos. us_DoSendTo ro ck down st k p a pt tos ul1 n = FragDone (r, ul', n'))"
    using assms(2) True unfolding us_Send_def us_DoSend_def Let_def
    by (fastforce dest!: or_abort_done us_fail_endPoints split: if_splits option.splits)
  have "dx_reach clean (ul_endPoints ul1)" using ul1 us_Bind_reach [OF assms(1)] assms(1) by (auto split: if_splits)
  then show ?thesis using rest us_DoSendTo_reach by metis
qed

lemma fold_ForwardUp_endPoints: "ul_endPoints (fold (ep_ForwardUp p h sport) qs ul) = ul_endPoints ul"
  by (induction qs arbitrary: ul) (simp_all add: ep_ForwardUp_def split: option.split)

text \<open>
  The protocol of a node with the sockets that the applications made: they are bound to addresses and
  devices, send, are connected, shut down and closed, read, change their options, and receive, in any
  order.  The first argument tells whether the history is free of two uses that can make end points
  compete: a socket without a device is bound to an address and port that a socket with a device has, and
  a socket changes its device after it was bound.
\<close>

inductive ul_history :: "bool \<Rightarrow> udp_l4 \<Rightarrow> bool" where
  start: "ul_history True UdpL4Protocol_init"
| create: "ul_history clean ul \<Longrightarrow> ul_CreateSocket ul = (k, ul') \<Longrightarrow> ul_history clean ul'"
| device: "ul_history clean ul \<Longrightarrow> us_BindToNetDevice devices k d ul = Some ul'
    \<Longrightarrow> ul_history (clean \<and> us_endPoint (ul_store ul k) = nullptr) ul'"
| bind: "ul_history clean ul \<Longrightarrow> us_Bind k ul = Some (n, ul') \<Longrightarrow> ul_history clean ul'"
| bind_address: "ul_history clean ul \<Longrightarrow> us_Bind_address k address ul = Some (n, ul')
    \<Longrightarrow> ul_history (clean \<and> \<not> binds_beside k address ul) ul'"
| send: "ul_history clean ul \<Longrightarrow> us_Send ro ck down st k p ul (s :: ipv4_sender) = FragDone (n, ul', s') \<Longrightarrow> ul_history clean ul'"
| send_to: "ul_history clean ul \<Longrightarrow> us_SendTo ro ck down st k p address ul (s :: ipv4_sender) = FragDone (n, ul', s') \<Longrightarrow> ul_history clean ul'"
| connect: "ul_history clean ul \<Longrightarrow> us_Connect k address ul = (n, ul') \<Longrightarrow> ul_history clean ul'"
| listen: "ul_history clean ul \<Longrightarrow> us_Listen k ul = (n, ul') \<Longrightarrow> ul_history clean ul'"
| shut_send: "ul_history clean ul \<Longrightarrow> us_ShutdownSend k ul = (n, ul') \<Longrightarrow> ul_history clean ul'"
| shut_recv: "ul_history clean ul \<Longrightarrow> us_ShutdownRecv k ul = (n, ul') \<Longrightarrow> ul_history clean ul'"
| close: "ul_history clean ul \<Longrightarrow> us_Close k ul = (n, ul') \<Longrightarrow> ul_history clean ul'"
| read: "ul_history clean ul \<Longrightarrow> ul_history clean (us_on k (\<lambda>s. snd (us_RecvFrom n s)) ul)"
| buffer_size: "ul_history clean ul \<Longrightarrow> ul_history clean (us_on k (us_SetRcvBufSize sz) ul)"
| multicast_ttl: "ul_history clean ul \<Longrightarrow> ul_history clean (us_on k (us_SetIpMulticastTtl ttl) ul)"
| allow_broadcast: "ul_history clean ul \<Longrightarrow> ul_history clean (us_on k (\<lambda>s. snd (us_SetAllowBroadcast b s)) ul)"
| receive: "ul_history clean ul \<Longrightarrow> ul_Receive ck packet h f ul = Some (status, ul') \<Longrightarrow> ul_history clean ul'"

lemma ul_Receive_endPoints: "ul_Receive ck packet h f ul = Some (status, ul') \<Longrightarrow> ul_endPoints ul' = ul_endPoints ul"
  by (auto simp: ul_Receive_def bind_eq_Some_conv fold_ForwardUp_endPoints Let_def split: if_splits)

lemma ul_history_dx: "ul_history clean ul \<Longrightarrow> dx_reach clean (ul_endPoints ul)"
proof (induction rule: ul_history.induct)
  case start
  then show ?case by (simp add: UdpL4Protocol_init_def dx_reach.start)
next
  case (create clean ul k ul')
  then show ?case by (auto simp: ul_CreateSocket_def Let_def)
next
  case (connect clean ul k address n ul')
  then show ?case by (auto simp: us_Connect_def split: sock_address.splits)
next
  case (listen clean ul k n ul')
  then show ?case by (auto simp: us_Listen_def)
next
  case (shut_send clean ul k n ul')
  then show ?case by (auto simp: us_ShutdownSend_def)
next
  case (shut_recv clean ul k n ul')
  then show ?case by (auto simp: us_ShutdownRecv_def ep_call_def Let_def intro: dx_reach.rx split: if_splits)
next
  case (close clean ul k n ul')
  then show ?case using us_Close_reach by (metis snd_conv)
next
  case (receive clean ul ck packet h f status ul')
  then show ?case using ul_Receive_endPoints by metis
next
  case (device clean ul devices k d ul')
  show ?case by (rule us_BindToNetDevice_reach [OF device.IH device.hyps(2)])
next
  case (bind clean ul k n ul')
  show ?case by (rule us_Bind_reach [OF bind.IH bind.hyps(2)])
next
  case (bind_address clean ul k address n ul')
  show ?case by (rule us_Bind_address_reach [OF bind_address.IH bind_address.hyps(2)])
next
  case (send clean ul ro ck down st k p s n ul' s')
  show ?case by (rule us_Send_reach [OF send.IH send.hyps(2)])
next
  case (send_to clean ul ro ck down st k p address s n ul' s')
  show ?case by (rule us_SendTo_reach [OF send_to.IH send_to.hyps(2)])
qed simp_all

lemma read_two: "2 \<le> length bs \<Longrightarrow> \<exists>x. rdNtohU16 bs = Some (x, drop 2 bs)" "2 \<le> length bs \<Longrightarrow> \<exists>x. rdU16 bs = Some (x, drop 2 bs)"
  by (auto simp: rdNtohU16_def rdU16_def rd_n_def)

lemma udp_Deserialize_total:
  assumes "8 \<le> length bs" and "udp_source r = Ipv4 a" and "udp_destination r = Ipv4 b"
  shows "\<exists>h. udp_Deserialize r bs = Some (h, 8) \<and> udp_source h = Ipv4 a \<and> udp_destination h = Ipv4 b"
proof -
  have d: "drop 2 (drop 2 bs) = drop 4 bs" "drop 2 (drop 4 bs) = drop 6 bs" "drop 2 (drop 6 bs) = drop 8 bs"
    "2 \<le> length bs" "2 \<le> length (drop 2 bs)" "2 \<le> length (drop 4 bs)" "2 \<le> length (drop 6 bs)"
    using assms(1) by simp_all
  obtain sp where sp: "rdNtohU16 bs = Some (sp, drop 2 bs)" using read_two(1) [OF d(4)] by blast
  obtain dp where dp: "rdNtohU16 (drop 2 bs) = Some (dp, drop 4 bs)" using read_two(1) [OF d(5)] unfolding d by blast
  obtain len where len: "rdNtohU16 (drop 4 bs) = Some (len, drop 6 bs)" using read_two(1) [OF d(6)] unfolding d by blast
  obtain ck where ck: "rdU16 (drop 6 bs) = Some (ck, drop 8 bs)" using read_two(2) [OF d(7)] unfolding d by blast
  note reads = sp dp len ck
  let ?h = "r\<lparr>udp_sourcePort := sp, udp_destinationPort := dp,
     udp_payloadSize := len - of_nat (udp_GetSerializedSize r), udp_checksum := ck\<rparr>"
  obtain hc where "udp_CalculateHeaderChecksum (of_nat (length bs)) ?h = Some hc"
    using header_checksum_ipv4 [of ?h a b] assms(2,3) by fastforce
  then show ?thesis using assms(2,3) by (simp add: udp_Deserialize_def reads Let_def udp_GetSerializedSize_def)
qed

text \<open>
  C20: what receiving a packet does, and exactly when it stops the simulation.  In any history of the
  sockets of a node, for every packet of at least the size of a header: the header can be read; a
  packet with a bad checksum is reported as such; otherwise the end points that fit it best decide:
  with none it is reported as unreachable, with one it is given to the socket of that end point, no
  other socket changes, and with two or more the program aborts.  The abort needs end points that
  compete, with the same addresses and ports and not bound to different devices, or an end
  point with the address of a network of the interface; and there are no competing end points unless
  a socket without a device was bound to an address and port of a socket with a device, or a socket
  changed its device after it was bound.
\<close>

theorem udp_receive_total:
  assumes "ul_history clean ul" and "8 \<le> length packet"
  shows "\<exists>u v. udp_Deserialize (udp_receive_header ck (ip_source h) (ip_destination h)) packet = Some (u, 8)
    \<and> udp_Deserialize u packet = Some (v, 8)
    \<and> ul_Receive ck packet h f ul =
        (if \<not> udp_goodChecksum u then Some (RX_CSUM_FAILED, ul)
         else case best_end_points (ip_destination h) (udp_destinationPort u) (ip_source h) (udp_sourcePort u) f (ul_endPoints ul) of
           [] \<Rightarrow> Some (RX_ENDPOINT_UNREACH, ul)
         | [q] \<Rightarrow> Some (RX_OK, ep_ForwardUp (drop 8 packet) h (udp_sourcePort v) q ul)
         | _ \<Rightarrow> None)
    \<and> (ul_Receive ck packet h f ul = None \<longrightarrow> \<not> dx_separate (ul_endPoints ul) \<or> \<not> no_subnet_end_points f (ul_endPoints ul))
    \<and> (clean \<longrightarrow> dx_separate (ul_endPoints ul))
    \<and> (\<forall>status ul'. ul_Receive ck packet h f ul = Some (status, ul') \<longrightarrow>
        ul_history clean ul' \<and> (\<exists>k. \<forall>k'. k' \<noteq> k \<longrightarrow> ul_store ul' k' = ul_store ul k'))"
proof -
  let ?r = "udp_receive_header ck (ip_source h) (ip_destination h)"
  have "udp_source ?r = Ipv4 (ip_source h)" "udp_destination ?r = Ipv4 (ip_destination h)"
    by (simp_all add: udp_receive_header_def udp_InitializeChecksum_def)
  then obtain u where u: "udp_Deserialize ?r packet = Some (u, 8)" "udp_source u = Ipv4 (ip_source h)" "udp_destination u = Ipv4 (ip_destination h)"
    using udp_Deserialize_total [OF assms(2)] by blast
  obtain v where v: "udp_Deserialize u packet = Some (v, 8)" using udp_Deserialize_total [OF assms(2) u(2,3)] by blast
  let ?b = "best_end_points (ip_destination h) (udp_destinationPort u) (ip_source h) (udp_sourcePort u) f (ul_endPoints ul)"
  have eq: "ul_Receive ck packet h f ul = (if \<not> udp_goodChecksum u then Some (RX_CSUM_FAILED, ul)
      else case ?b of [] \<Rightarrow> Some (RX_ENDPOINT_UNREACH, ul)
         | [q] \<Rightarrow> Some (RX_OK, ep_ForwardUp (drop 8 packet) h (udp_sourcePort v) q ul) | _ \<Rightarrow> None)"
    unfolding ul_Receive_def Let_def udp_receive_header_eq
    by (auto simp: u(1) v lookup_most_exact_eq split: list.split)
  have ok: "dx_wf (ul_endPoints ul)" "clean \<longrightarrow> dx_separate (ul_endPoints ul)" using dx_reach_ok [OF ul_history_dx [OF assms(1)]] by simp_all
  have abort: "\<not> dx_separate (ul_endPoints ul) \<or> \<not> no_subnet_end_points f (ul_endPoints ul)" if "ul_Receive ck packet h f ul = None"
  proof (rule ccontr)
    assume *: "\<not> ?thesis"
    have "length ?b \<le> 1" using lookup_unambiguous [OF ok(1)] * lookup_most_exact_eq
      by (metis (no_types, lifting) not_le option.distinct(1))
    then show False using that unfolding eq by (cases ?b) (auto split: if_splits)
  qed
  have one: "\<exists>k. \<forall>k'. k' \<noteq> k \<longrightarrow> ul_store ul' k' = ul_store ul k'" if "ul_Receive ck packet h f ul = Some (status, ul')" for status ul'
    using that unfolding eq by (auto simp: ep_ForwardUp_def us_on_def split: option.splits if_splits list.splits)
  show ?thesis using u(1) v eq abort ok(2) one ul_history.receive [OF assms(1)] by (intro exI [of _ u] exI [of _ v]) blast
qed

text \<open>
  In a history without those two uses, on an interface for whose networks no socket is bound,
  every packet of at least the size of a header is received.
\<close>

theorem udp_receive_succeeds:
  assumes "ul_history True ul" and "no_subnet_end_points f (ul_endPoints ul)" and "8 \<le> length packet"
  shows "\<exists>status ul'. ul_Receive ck packet h f ul = Some (status, ul') \<and> ul_history True ul'"
proof -
  have ok: "dx_wf (ul_endPoints ul)" "dx_separate (ul_endPoints ul)" using dx_reach_ok [OF ul_history_dx [OF assms(1)]] by simp_all
  let ?r = "udp_receive_header ck (ip_source h) (ip_destination h)"
  have "udp_source ?r = Ipv4 (ip_source h)" "udp_destination ?r = Ipv4 (ip_destination h)"
    by (simp_all add: udp_receive_header_def udp_InitializeChecksum_def)
  then obtain u v where u: "udp_Deserialize ?r packet = Some (u, 8)" and v: "udp_Deserialize u packet = Some (v, 8)"
    using udp_Deserialize_total [OF assms(3)] by meson
  obtain qs where qs: "dx_Lookup (ip_destination h) (udp_destinationPort u) (ip_source h) (udp_sourcePort u) f (ul_endPoints ul) = Some qs"
    using lookup_unambiguous [OF ok assms(2)] by blast
  have "\<exists>status ul'. ul_Receive ck packet h f ul = Some (status, ul')"
    unfolding ul_Receive_def Let_def udp_receive_header_eq by (auto simp: u qs v)
  then show ?thesis using ul_history.receive [OF assms(1)] by blast
qed

text \<open>A server with one socket, made by the operations, and a datagram without a checksum that it gets.\<close>

definition server_udp :: "udp_l4 option" where
  "server_udp = map_option snd (us_Bind_address 1 (InetSocketAddress 0x0a000001 9) (snd (ul_CreateSocket UdpL4Protocol_init)))"

definition server_packet :: "u8 list" where
  "server_packet = [0x0f, 0xa0, 0, 9, 0, 10, 0, 0, 104, 105]"

definition server_header :: ipv4_header where
  "server_header = Ipv4Header_init\<lparr>ip_source := 0x0a000005, ip_destination := 0x0a000001\<rparr>"

lemma server_udp_eq: "\<exists>ul. server_udp = Some ul \<and> ul_history True ul
  \<and> dx_endPoints (ul_endPoints ul) = [(1, (Ipv4EndPoint_init 0x0a000001 9)\<lparr>ep_rxCallback := 1, ep_icmpCallback := 1, ep_destroyCallback := 1\<rparr>)]
  \<and> ul_store ul 1 = UdpSocketImpl_init\<lparr>us_endPoint := 1\<rparr>"
proof -
  let ?ul0 = "snd (ul_CreateSocket UdpL4Protocol_init)"
  have h0: "ul_history True ?ul0" by (rule ul_history.create [OF ul_history.start prod.collapse [symmetric]])
  have "\<exists>n ul. us_Bind_address 1 (InetSocketAddress 0x0a000001 9) ?ul0 = Some (n, ul)
    \<and> dx_endPoints (ul_endPoints ul) = [(1, (Ipv4EndPoint_init 0x0a000001 9)\<lparr>ep_rxCallback := 1, ep_icmpCallback := 1, ep_destroyCallback := 1\<rparr>)]
    \<and> ul_store ul 1 = UdpSocketImpl_init\<lparr>us_endPoint := 1\<rparr>"
    by (simp add: us_Bind_address_def ul_CreateSocket_def UdpL4Protocol_init_def us_allocate_def us_bound_def us_on_def UdpSocketImpl_init_def
        dx_Allocate_local_def dx_LookupLocal_def Ipv4EndPointDemux_init_def dx_push_def us_bind_device_def us_FinishBind_def ep_call_def dx_on_def
        ep_SetDestroyCallback_def ep_SetIcmpCallback_def ep_SetRxCallback_def addr_GetAny_def Let_def)
  then obtain n ul where ul: "us_Bind_address 1 (InetSocketAddress 0x0a000001 9) ?ul0 = Some (n, ul)"
    "dx_endPoints (ul_endPoints ul) = [(1, (Ipv4EndPoint_init 0x0a000001 9)\<lparr>ep_rxCallback := 1, ep_icmpCallback := 1, ep_destroyCallback := 1\<rparr>)]"
    "ul_store ul 1 = UdpSocketImpl_init\<lparr>us_endPoint := 1\<rparr>" by blast
  have "\<not> binds_beside 1 (InetSocketAddress 0x0a000001 9) ?ul0"
    by (simp add: binds_beside_def all_unbound_def ul_CreateSocket_def UdpL4Protocol_init_def Ipv4EndPointDemux_init_def Let_def)
  then have "ul_history True ul" using ul_history.bind_address [OF h0 ul(1)] by simp
  then show ?thesis using ul by (auto simp: server_udp_def)
qed

theorem udp_receive_total_witness:
  "\<exists>ul ul'. server_udp = Some ul \<and> ul_Receive False server_packet server_header Ipv4Interface_init ul = Some (RX_OK, ul')
    \<and> us_deliveryQueue (ul_store ul' 1) = [([104, 105], InetSocketAddress 0x0a000005 4000)]"
proof -
  obtain ul where ul: "server_udp = Some ul" "ul_history True ul"
    "dx_endPoints (ul_endPoints ul) = [(1, (Ipv4EndPoint_init 0x0a000001 9)\<lparr>ep_rxCallback := 1, ep_icmpCallback := 1, ep_destroyCallback := 1\<rparr>)]"
    "ul_store ul 1 = UdpSocketImpl_init\<lparr>us_endPoint := 1\<rparr>" using server_udp_eq by blast
  have len: "8 \<le> length server_packet" by (simp add: server_packet_def)
  obtain u v where uv: "udp_Deserialize (udp_receive_header False (ip_source server_header) (ip_destination server_header)) server_packet = Some (u, 8)"
    "udp_Deserialize u server_packet = Some (v, 8)"
    "ul_Receive False server_packet server_header Ipv4Interface_init ul =
        (if \<not> udp_goodChecksum u then Some (RX_CSUM_FAILED, ul)
         else case best_end_points (ip_destination server_header) (udp_destinationPort u) (ip_source server_header) (udp_sourcePort u)
             Ipv4Interface_init (ul_endPoints ul) of
           [] \<Rightarrow> Some (RX_ENDPOINT_UNREACH, ul)
         | [q] \<Rightarrow> Some (RX_OK, ep_ForwardUp (drop 8 server_packet) server_header (udp_sourcePort v) q ul)
         | _ \<Rightarrow> None)"
    using udp_receive_total [OF ul(2) len, where ck = False and h = server_header and f = Ipv4Interface_init] by blast
  have u: "udp_goodChecksum u" "udp_destinationPort u = 9" "udp_sourcePort u = 4000" "\<not> udp_calcChecksum u"
    using uv(1) by (simp_all add: udp_Deserialize_def udp_receive_header_def udp_InitializeChecksum_def UdpHeader_init_def server_packet_def
        rdNtohU16_def rdU16_def rd_n_def Let_def) (auto simp: ntoh_def)
  have v: "udp_sourcePort v = 4000"
    using uv(2) u(4) by (simp add: udp_Deserialize_def server_packet_def rdNtohU16_def rdU16_def rd_n_def Let_def) (auto simp: ntoh_def)
  have best: "best_end_points (ip_destination server_header) 9 (ip_source server_header) 4000 Ipv4Interface_init (ul_endPoints ul) = [1]"
    by (simp add: best_end_points_def ul(3) ep_rank_def ep_accepts_def peer_exact_def peer_wildcard_def Ipv4EndPoint_init_def
        server_header_def addr_GetAny_def)
  have "ul_Receive False server_packet server_header Ipv4Interface_init ul
      = Some (RX_OK, ep_ForwardUp [104, 105] server_header 4000 1 ul)"
    using uv(3) u best v by (simp add: server_packet_def)
  moreover have "us_deliveryQueue (ul_store (ep_ForwardUp [104, 105] server_header 4000 1 ul) 1) = [([104, 105], InetSocketAddress 0x0a000005 4000)]"
    using ul(4) by (simp add: ep_ForwardUp_def ul(3) us_on_def us_ForwardUp_def UdpSocketImpl_init_def server_header_def)
  ultimately show ?thesis using ul(1) by blast
qed

definition near_udp :: udp_l4 where
  "near_udp = UdpL4Protocol_init\<lparr>ul_endPoints := Ipv4EndPointDemux_init\<lparr>dx_endPoints := [(1, Ipv4EndPoint_init 0x0a000001 4000)], dx_fresh := 2\<rparr>,
     ul_store := (\<lambda>_. UdpSocketImpl_init\<lparr>us_endPoint := 1\<rparr>)\<rparr>"

definition far_udp :: udp_l4 where
  "far_udp = UdpL4Protocol_init\<lparr>ul_endPoints := Ipv4EndPointDemux_init\<lparr>dx_endPoints :=
       [(1, (Ipv4EndPoint_init 0x0a000005 9)\<lparr>ep_rxCallback := 3\<rparr>)], dx_fresh := 2\<rparr>\<rparr>"

definition greeting :: app_packet where
  "greeting = \<lparr>ap_bytes = [104, 105], ap_ttlTag = None, ap_tosTag = None\<rparr>"

lemma near_udp_ready: "us_ready 3 0x0a000001 4000 near_udp"
  by (simp add: us_ready_def near_udp_def us_end_point_def UdpSocketImpl_init_def Ipv4EndPoint_init_def addr_GetAny_def)

lemma far_udp_listens:
  "us_listens 3 1 (length (ap_bytes greeting)) far_udp"
  "dx_Lookup 0x0a000005 9 0x0a000001 4000 (l3_interfaces (nd_ifs (sk_node far_stack)) ! 0) (ul_endPoints far_udp) = Some [1]"
  by (simp_all add: us_listens_def far_udp_def greeting_def UdpL4Protocol_init_def UdpSocketImpl_init_def Ipv4EndPoint_init_def
      dx_Lookup_def lookup_step_def far_stack_def addr_GetAny_def Let_def)

theorem udp_end_to_end_witness:
  "\<exists>nd s' outs. sample_node = Some nd
    \<and> us_SendTo (\<lambda>_ _ _. None) True
        (\<lambda>a. l3_Send (\<lambda>st dest oif. sr_RouteOutput st dest oif (nd_routing nd)) 11 True 64 (\<lambda>_. 1500) (nd_ifs nd) a)
        (nd_ifs nd) 3 greeting (InetSocketAddress 0x0a000005 9) near_udp idle = FragDone (2, near_udp, s')
    \<and> sn_out s' = sn_out idle @ outs"
proof -
  obtain nd where nd: "sample_node = Some nd" "node_reach (\<lambda>_. 1500) nd"
    "l3_interfaces (nd_ifs nd) = [\<lparr>if_ifup = True, if_forwarding = True, if_metric = 1, if_device = 7,
      if_ifaddrs = [ia_new 0x0a000001 (net_mask 24), ia_new 0x0a000002 (net_mask 24)]\<rparr>]"
    "sr_networkRoutes (nd_routing nd) = [(rte_CreateNetworkRouteTo_direct 0x0a000000 (net_mask 24) 0, 0)]"
    using sample_node_eq by blast
  have gw: "gateways_set (nd_routing nd)" by (simp add: gateways_set_def nd(4) rte_CreateNetworkRouteTo_direct_def)
  have kind: "\<not> addr_IsBroadcast 0x0a000005" "\<not> addr_IsLocalMulticast 0x0a000005"
    by (simp_all add: addr_IsBroadcast_def addr_IsLocalMulticast_def)
  have "ifs_ok (nd_ifs nd)" by (rule node_reach_inv(1) [OF nd(2)])
  then have rev: "l3_reverse (nd_ifs nd) 7 = Some 0" by (simp add: ifs_ok_def nd(3))
  have sub: "subnet_broadcast (nd_ifs nd) 0x0a000005 (l3_interfaces (nd_ifs nd)) = Some None"
    by (simp add: nd(3) l3_GetInterfaceForDevice_def rev l3_GetInterface_def ia_new_def addr_IsSubnetDirectedBroadcast_def
        addr_GetBroadcast_def net_mask_def)
  have rt: "sr_RouteOutput (nd_ifs nd) 0x0a000005 nullptr (nd_routing nd) = Some (Some near_route, ERROR_NOTERROR)"
    using sample_route_output [OF nd(3,4)] by simp
  have dev: "l3_reverse (nd_ifs nd) (rt_outputDevice near_route) = Some 0" "if_ifup (l3_interfaces (nd_ifs nd) ! 0)"
    by (simp_all add: near_route_def rev nd(3))
  let ?a = "datagram True (ul_store near_udp 3) greeting 0x0a000001 4000 0x0a000005 9"
  have far: "ends_at 0x0a000005 9 0 (sk_node far_stack)" "l3_reach 30 (\<lambda>_. sa_packet ?a) (sk_reasm far_stack)"
    by (simp_all add: ends_at_def far_stack_def ia_new_def addr_IsMulticast_def l3_reach.start)
  have empty: "l3_fragments (sk_reasm far_stack) k = None" for k by (simp add: far_stack_def l3_init_def)
  have len: "length (ap_bytes greeting) \<le> 65507" by (simp add: greeting_def)
  obtain s' outs where "us_SendTo (\<lambda>_ _ _. None) True
      (\<lambda>a. l3_Send (\<lambda>st dest oif. sr_RouteOutput st dest oif (nd_routing nd)) (length (ap_bytes greeting) + 9) True 64 (\<lambda>_. 1500) (nd_ifs nd) a)
      (nd_ifs nd) 3 greeting (InetSocketAddress 0x0a000005 9) near_udp idle = FragDone (int (length (ap_bytes greeting)), near_udp, s')"
    "sn_out s' = sn_out idle @ outs"
    using udp_end_to_end [OF nd(2) gw near_udp_ready len kind sub rt dev far refl [of ?a] refl refl [of "sa_packet ?a"] empty
          far_udp_listens(2,1), where ro = "\<lambda>_ _ _. None" and ttl = 64 and s = idle] by blast
  then show ?thesis using nd(1) by (auto simp: greeting_def)
qed

end
