(* ===== verification/Drop_Tail_Queue.thy ===== *)
theory Drop_Tail_Queue
  imports Prelude
begin

text \<open>
  Packet queues: \<^verbatim>\<open>QueueSize\<close>, \<^verbatim>\<open>QueueBase\<close>, \<^verbatim>\<open>Queue\<close> and \<^verbatim>\<open>DropTailQueue\<close>
  (src/network/utils/queue-size.h, .cc, queue.h, .cc, drop-tail-queue.h) of packets, which are
  their bytes.  A failing assertion and an abort are \<open>None\<close>; the trace sources record what they
  were called with.
\<close>

section \<open>Sizes\<close>

datatype queue_unit = PACKETS | BYTES

record queue_size =
  qs_unit :: queue_unit
  qs_value :: u32

definition qs_new :: "queue_unit \<Rightarrow> u32 \<Rightarrow> queue_size" where
  "qs_new u v = \<lparr>qs_unit = u, qs_value = v\<rparr>"

definition qs_less :: "queue_size \<Rightarrow> queue_size \<Rightarrow> bool option" where
  "qs_less a b = do { ns_assert (qs_unit a = qs_unit b); Some (qs_value a < qs_value b) }"

definition qs_greater :: "queue_size \<Rightarrow> queue_size \<Rightarrow> bool option" where
  "qs_greater a b = do { ns_assert (qs_unit a = qs_unit b); Some (qs_value a > qs_value b) }"

definition qs_add :: "queue_size \<Rightarrow> u8 list \<Rightarrow> queue_size" where
  "qs_add a p = (case qs_unit a of
       PACKETS \<Rightarrow> qs_new PACKETS (qs_value a + 1)
     | BYTES \<Rightarrow> qs_new BYTES (qs_value a + of_nat (length p)))"

section \<open>Queues\<close>

record pkt_queue =
  dt_packets :: "u8 list list"
  dt_nBytes :: u32
  dt_nTotalReceivedBytes :: u32
  dt_nPackets :: u32
  dt_nTotalReceivedPackets :: u32
  dt_nTotalDroppedBytes :: u32
  dt_nTotalDroppedBytesBeforeEnqueue :: u32
  dt_nTotalDroppedBytesAfterDequeue :: u32
  dt_nTotalDroppedPackets :: u32
  dt_nTotalDroppedPacketsBeforeEnqueue :: u32
  dt_nTotalDroppedPacketsAfterDequeue :: u32
  dt_maxSize :: queue_size
  dt_traceEnqueue :: "u8 list list"
  dt_traceDequeue :: "u8 list list"
  dt_traceDropBeforeEnqueue :: "u8 list list"
  dt_traceDropAfterDequeue :: "u8 list list"

definition QueueBase_init :: pkt_queue where
  "QueueBase_init = \<lparr>dt_packets = [], dt_nBytes = 0, dt_nTotalReceivedBytes = 0, dt_nPackets = 0, dt_nTotalReceivedPackets = 0,
     dt_nTotalDroppedBytes = 0, dt_nTotalDroppedBytesBeforeEnqueue = 0, dt_nTotalDroppedBytesAfterDequeue = 0,
     dt_nTotalDroppedPackets = 0, dt_nTotalDroppedPacketsBeforeEnqueue = 0, dt_nTotalDroppedPacketsAfterDequeue = 0,
     dt_maxSize = qs_new PACKETS 0xffffffff, dt_traceEnqueue = [], dt_traceDequeue = [], dt_traceDropBeforeEnqueue = [],
     dt_traceDropAfterDequeue = []\<rparr>"

definition dt_IsEmpty :: "pkt_queue \<Rightarrow> bool" where
  "dt_IsEmpty q \<longleftrightarrow> dt_nPackets q = 0"

definition dt_GetCurrentSize :: "pkt_queue \<Rightarrow> queue_size" where
  "dt_GetCurrentSize q = (case qs_unit (dt_maxSize q) of
       PACKETS \<Rightarrow> qs_new PACKETS (dt_nPackets q)
     | BYTES \<Rightarrow> qs_new BYTES (dt_nBytes q))"

definition dt_ResetStatistics :: "pkt_queue \<Rightarrow> pkt_queue" where
  "dt_ResetStatistics q = q\<lparr>dt_nTotalReceivedBytes := 0, dt_nTotalReceivedPackets := 0, dt_nTotalDroppedBytes := 0,
     dt_nTotalDroppedBytesBeforeEnqueue := 0, dt_nTotalDroppedBytesAfterDequeue := 0, dt_nTotalDroppedPackets := 0,
     dt_nTotalDroppedPacketsBeforeEnqueue := 0, dt_nTotalDroppedPacketsAfterDequeue := 0\<rparr>"

definition dt_SetMaxSize :: "queue_size \<Rightarrow> pkt_queue \<Rightarrow> pkt_queue option" where
  "dt_SetMaxSize sz q =
     (if qs_value sz = 0 then Some q
      else do {
        let q = q\<lparr>dt_maxSize := sz\<rparr>;
        less \<leftarrow> qs_less sz (dt_GetCurrentSize q);
        ns_assert (\<not> less);
        Some q
      })"

definition dt_WouldOverflow :: "u32 \<Rightarrow> u32 \<Rightarrow> pkt_queue \<Rightarrow> bool" where
  "dt_WouldOverflow nPackets nBytes q = (case qs_unit (dt_maxSize q) of
       PACKETS \<Rightarrow> dt_nPackets q + nPackets > qs_value (dt_maxSize q)
     | BYTES \<Rightarrow> dt_nBytes q + nBytes > qs_value (dt_maxSize q))"

definition dt_DropBeforeEnqueue :: "u8 list \<Rightarrow> pkt_queue \<Rightarrow> pkt_queue" where
  "dt_DropBeforeEnqueue item q = q\<lparr>dt_nTotalDroppedPackets := dt_nTotalDroppedPackets q + 1,
     dt_nTotalDroppedPacketsBeforeEnqueue := dt_nTotalDroppedPacketsBeforeEnqueue q + 1,
     dt_nTotalDroppedBytes := dt_nTotalDroppedBytes q + of_nat (length item),
     dt_nTotalDroppedBytesBeforeEnqueue := dt_nTotalDroppedBytesBeforeEnqueue q + of_nat (length item),
     dt_traceDropBeforeEnqueue := dt_traceDropBeforeEnqueue q @ [item]\<rparr>"

definition dt_DropAfterDequeue :: "u8 list \<Rightarrow> pkt_queue \<Rightarrow> pkt_queue" where
  "dt_DropAfterDequeue item q = q\<lparr>dt_nTotalDroppedPackets := dt_nTotalDroppedPackets q + 1,
     dt_nTotalDroppedPacketsAfterDequeue := dt_nTotalDroppedPacketsAfterDequeue q + 1,
     dt_nTotalDroppedBytes := dt_nTotalDroppedBytes q + of_nat (length item),
     dt_nTotalDroppedBytesAfterDequeue := dt_nTotalDroppedBytesAfterDequeue q + of_nat (length item),
     dt_traceDropAfterDequeue := dt_traceDropAfterDequeue q @ [item]\<rparr>"

text \<open>A position in the container is the number of items before it.\<close>

definition dt_DoEnqueue :: "nat \<Rightarrow> u8 list \<Rightarrow> pkt_queue \<Rightarrow> (bool \<times> pkt_queue) option" where
  "dt_DoEnqueue pos item q = do {
     full \<leftarrow> qs_greater (qs_add (dt_GetCurrentSize q) item) (dt_maxSize q);
     if full then Some (False, dt_DropBeforeEnqueue item q)
     else Some (True, q\<lparr>dt_packets := take pos (dt_packets q) @ [item] @ drop pos (dt_packets q),
       dt_nBytes := dt_nBytes q + of_nat (length item),
       dt_nTotalReceivedBytes := dt_nTotalReceivedBytes q + of_nat (length item),
       dt_nPackets := dt_nPackets q + 1,
       dt_nTotalReceivedPackets := dt_nTotalReceivedPackets q + 1,
       dt_traceEnqueue := dt_traceEnqueue q @ [item]\<rparr>)
   }"

text \<open>The common part of \<^verbatim>\<open>DoDequeue\<close> and \<^verbatim>\<open>DoRemove\<close>; reading past the end of the container is \<open>None\<close>.\<close>

definition dt_take :: "nat \<Rightarrow> pkt_queue \<Rightarrow> (u8 list \<times> pkt_queue) option" where
  "dt_take pos q = do {
     ns_assert (pos < length (dt_packets q));
     let item = dt_packets q ! pos;
     ns_assert (dt_nBytes q \<ge> of_nat (length item));
     ns_assert (dt_nPackets q > 0);
     Some (item, q\<lparr>dt_packets := take pos (dt_packets q) @ drop (Suc pos) (dt_packets q),
       dt_nBytes := dt_nBytes q - of_nat (length item), dt_nPackets := dt_nPackets q - 1,
       dt_traceDequeue := dt_traceDequeue q @ [item]\<rparr>)
   }"

definition dt_DoDequeue :: "nat \<Rightarrow> pkt_queue \<Rightarrow> (u8 list option \<times> pkt_queue) option" where
  "dt_DoDequeue pos q =
     (if dt_nPackets q = 0 then Some (None, q)
      else do { (item, q) \<leftarrow> dt_take pos q; Some (Some item, q) })"

definition dt_DoRemove :: "nat \<Rightarrow> pkt_queue \<Rightarrow> (u8 list option \<times> pkt_queue) option" where
  "dt_DoRemove pos q =
     (if dt_nPackets q = 0 then Some (None, q)
      else do { (item, q) \<leftarrow> dt_take pos q; Some (Some item, dt_DropAfterDequeue item q) })"

definition dt_DoPeek :: "nat \<Rightarrow> pkt_queue \<Rightarrow> u8 list option option" where
  "dt_DoPeek pos q =
     (if dt_nPackets q = 0 then Some None
      else do { ns_assert (pos < length (dt_packets q)); Some (Some (dt_packets q ! pos)) })"

text \<open>\<^verbatim>\<open>DropTailQueue\<close>, with a maximum of 100 packets as its attribute says.\<close>

definition DropTailQueue_init :: pkt_queue where
  "DropTailQueue_init = QueueBase_init\<lparr>dt_maxSize := qs_new PACKETS 100\<rparr>"

definition dt_Enqueue :: "u8 list \<Rightarrow> pkt_queue \<Rightarrow> (bool \<times> pkt_queue) option" where
  "dt_Enqueue item q = dt_DoEnqueue (length (dt_packets q)) item q"

definition dt_Dequeue :: "pkt_queue \<Rightarrow> (u8 list option \<times> pkt_queue) option" where
  "dt_Dequeue q = dt_DoDequeue 0 q"

definition dt_Remove :: "pkt_queue \<Rightarrow> (u8 list option \<times> pkt_queue) option" where
  "dt_Remove q = dt_DoRemove 0 q"

definition dt_Peek :: "pkt_queue \<Rightarrow> u8 list option option" where
  "dt_Peek q = dt_DoPeek 0 q"

function dt_Flush :: "pkt_queue \<Rightarrow> pkt_queue option" where
  "dt_Flush q =
     (if dt_IsEmpty q then Some q
      else case dt_Remove q of None \<Rightarrow> None | Some (_, q') \<Rightarrow> dt_Flush q')"
  by pat_completeness auto
termination
proof (relation "measure (\<lambda>q. unat (dt_nPackets q))", goal_cases)
  case (2 q x r q')
  then have "dt_nPackets q \<noteq> 0" "dt_nPackets q' = dt_nPackets q - 1"
    by (auto simp: dt_IsEmpty_def dt_Remove_def dt_DoRemove_def dt_take_def dt_DropAfterDequeue_def ns_assert_def Let_def
        split: if_splits)
  then show ?case by (simp add: measure_unat)
qed simp

declare dt_Flush.simps [simp del]

section \<open>The contract of a queue\<close>

text \<open>
  What a device relies on: \<open>enq\<close> appends the item or refuses it, \<open>deq\<close> takes the first item, and
  neither fails on a queue in a proper state and on items of proper size.
\<close>

locale packet_queue =
  fixes enq :: "u8 list \<Rightarrow> 'q \<Rightarrow> (bool \<times> 'q) option"
    and deq :: "'q \<Rightarrow> (u8 list option \<times> 'q) option"
    and contents :: "'q \<Rightarrow> u8 list list"
    and inv :: "'q \<Rightarrow> bool"
    and proper :: "u8 list \<Rightarrow> bool"
  assumes enq_ok: "inv q \<Longrightarrow> proper p \<Longrightarrow> \<exists>b q'. enq p q = Some (b, q') \<and> inv q'
      \<and> contents q' = (if b then contents q @ [p] else contents q)"
    and deq_ok: "inv q \<Longrightarrow> \<exists>q'. deq q = Some (case contents q of [] \<Rightarrow> None | p # _ \<Rightarrow> Some p, q') \<and> inv q' \<and> contents q' = tl (contents q)"

datatype queue_op = Enq "u8 list" | Deq

text \<open>A sequence of calls: what was accepted, what was refused, and what came out.\<close>

fun q_run :: "(u8 list \<Rightarrow> 'q \<Rightarrow> (bool \<times> 'q) option) \<Rightarrow> ('q \<Rightarrow> (u8 list option \<times> 'q) option) \<Rightarrow> queue_op list \<Rightarrow> 'q
    \<Rightarrow> (u8 list list \<times> u8 list list \<times> u8 list list \<times> 'q) option" where
  "q_run enq deq [] q = Some ([], [], [], q)"
| "q_run enq deq (Enq p # r) q = do {
     (b, q) \<leftarrow> enq p q;
     (acc, refused, outs, q) \<leftarrow> q_run enq deq r q;
     Some (if b then p # acc else acc, if b then refused else p # refused, outs, q)
   }"
| "q_run enq deq (Deq # r) q = do {
     (x, q) \<leftarrow> deq q;
     (acc, refused, outs, q) \<leftarrow> q_run enq deq r q;
     Some (acc, refused, (case x of Some p \<Rightarrow> p # outs | None \<Rightarrow> outs), q)
   }"

fun enqueued :: "queue_op list \<Rightarrow> u8 list list" where
  "enqueued [] = []"
| "enqueued (Enq p # r) = p # enqueued r"
| "enqueued (Deq # r) = enqueued r"

context packet_queue
begin

lemma run_fifo:
  assumes "inv q" and "\<forall>p \<in> set (enqueued ops). proper p"
  shows "\<exists>acc refused outs q'. q_run enq deq ops q = Some (acc, refused, outs, q') \<and> inv q'
    \<and> outs @ contents q' = contents q @ acc \<and> enqueued ops \<in> shuffles acc refused"
  using assms
proof (induction ops arbitrary: q rule: enqueued.induct)
  case 1
  then show ?case by simp
next
  case (2 p r)
  obtain b q1 where q1: "enq p q = Some (b, q1)" "inv q1" "contents q1 = (if b then contents q @ [p] else contents q)"
    using enq_ok [OF 2(2), of p] 2(3) by (simp only: enqueued.simps list.set insert_iff) blast
  obtain acc refused outs q' where r: "q_run enq deq r q1 = Some (acc, refused, outs, q')" "inv q'"
    "outs @ contents q' = contents q1 @ acc" "enqueued r \<in> shuffles acc refused"
    using 2(1) [OF q1(2)] 2(3) by auto
  show ?case using q1 r by (cases b) (auto intro: Cons_in_shuffles_leftI Cons_in_shuffles_rightI)
next
  case (3 r)
  obtain q1 where q1: "deq q = Some (case contents q of [] \<Rightarrow> None | p # _ \<Rightarrow> Some p, q1)" "inv q1" "contents q1 = tl (contents q)"
    using deq_ok [OF 3(2)] by blast
  obtain acc refused outs q' where r: "q_run enq deq r q1 = Some (acc, refused, outs, q')" "inv q'"
    "outs @ contents q' = contents q1 @ acc" "enqueued r \<in> shuffles acc refused"
    using 3(1) [OF q1(2)] 3(3) by auto
  show ?case using q1 r by (cases "contents q") auto
qed

end

section \<open>The drop-tail queue is a queue\<close>

text \<open>
  The counts are exact as long as they do not wrap around, which the limit of the queue keeps them
  from when no item is longer than \<open>M\<close> bytes.
\<close>

definition dt_limit :: "nat \<Rightarrow> queue_size \<Rightarrow> bool" where
  "dt_limit M sz \<longleftrightarrow> (case qs_unit sz of PACKETS \<Rightarrow> unat (qs_value sz) < 2 ^ 32 - 1 \<and> unat (qs_value sz) * M < 2 ^ 32
     | BYTES \<Rightarrow> unat (qs_value sz) + M < 2 ^ 32)"

definition dt_inv :: "nat \<Rightarrow> pkt_queue \<Rightarrow> bool" where
  "dt_inv M q \<longleftrightarrow> unat (dt_nPackets q) = length (dt_packets q) \<and> unat (dt_nBytes q) = sum_list (map length (dt_packets q))
     \<and> (\<forall>p \<in> set (dt_packets q). 0 < length p \<and> length p \<le> M) \<and> dt_limit M (dt_maxSize q)
     \<and> qs_value (dt_GetCurrentSize q) \<le> qs_value (dt_maxSize q)"

lemma bytes_bounds:
  assumes "\<forall>p \<in> set xs. 0 < length p \<and> length p \<le> M"
  shows "length xs \<le> sum_list (map length xs)" and "sum_list (map length xs) \<le> length xs * M"
  using assms by (induction xs) (auto simp: Suc_le_eq add_less_le_mono neq_Nil_conv)

lemma unat_of_length: "n < 2 ^ 32 \<Longrightarrow> unat (of_nat n :: u32) = n"
  by (simp add: unat_of_nat)

definition dt_accept :: "u8 list \<Rightarrow> pkt_queue \<Rightarrow> pkt_queue" where
  "dt_accept p q = q\<lparr>dt_packets := dt_packets q @ [p], dt_nBytes := dt_nBytes q + of_nat (length p),
     dt_nTotalReceivedBytes := dt_nTotalReceivedBytes q + of_nat (length p), dt_nPackets := dt_nPackets q + 1,
     dt_nTotalReceivedPackets := dt_nTotalReceivedPackets q + 1, dt_traceEnqueue := dt_traceEnqueue q @ [p]\<rparr>"

lemma dt_Enqueue_eq:
  "dt_Enqueue p q = Some (if qs_value (qs_add (dt_GetCurrentSize q) p) > qs_value (dt_maxSize q)
     then (False, dt_DropBeforeEnqueue p q) else (True, dt_accept p q))"
  by (cases "qs_unit (dt_maxSize q)")
    (simp_all add: dt_Enqueue_def dt_DoEnqueue_def qs_greater_def qs_add_def dt_GetCurrentSize_def qs_new_def dt_accept_def)

lemma DropBeforeEnqueue_inv: "dt_inv M (dt_DropBeforeEnqueue p q) \<longleftrightarrow> dt_inv M q"
  by (cases "qs_unit (dt_maxSize q)") (simp_all add: dt_inv_def dt_DropBeforeEnqueue_def dt_GetCurrentSize_def)

lemma dt_accept_inv:
  assumes "dt_inv M q" and "0 < length p" and "length p \<le> M" and "qs_value (qs_add (dt_GetCurrentSize q) p) \<le> qs_value (dt_maxSize q)"
  shows "dt_inv M (dt_accept p q)"
proof -
  note inv = assms(1) [unfolded dt_inv_def]
  let ?n = "length (dt_packets q)" and ?b = "sum_list (map length (dt_packets q))" and ?m = "unat (qs_value (dt_maxSize q))"
  have b: "?n \<le> ?b" "?b \<le> ?n * M" using bytes_bounds [of "dt_packets q" M] inv by blast+
  have "unat (dt_nPackets q + 1) = Suc ?n \<and> unat (dt_nBytes q + of_nat (length p)) = ?b + length p"
  proof (cases "qs_unit (dt_maxSize q)")
    case PACKETS
    have m: "?n \<le> ?m" "?m < 2 ^ 32 - 1" "?m * M < 2 ^ 32"
      using inv PACKETS by (simp_all add: dt_limit_def dt_GetCurrentSize_def qs_new_def word_le_nat_alt)
    have n: "unat (dt_nPackets q + 1) = Suc ?n" using inv m by (subst unat_Suc_no_wrap) simp_all
    then have "Suc ?n \<le> ?m" using assms(4) PACKETS by (simp add: qs_add_def dt_GetCurrentSize_def qs_new_def word_le_nat_alt)
    then have "Suc ?n * M < 2 ^ 32" using m(3) by (meson le_less_trans mult_le_mono1)
    then have "?b + length p < 2 ^ 32" using b(2) assms(3) by simp
    then show ?thesis using n inv unat_of_length [of "length p"] by (subst unat_plus_no_wrap) simp_all
  next
    case BYTES
    have m: "?b \<le> ?m" "?m + M < 2 ^ 32"
      using inv BYTES by (simp_all add: dt_limit_def dt_GetCurrentSize_def qs_new_def word_le_nat_alt)
    have n: "unat (dt_nBytes q + of_nat (length p)) = ?b + length p"
      using inv m assms(3) unat_of_length [of "length p"] by (subst unat_plus_no_wrap) simp_all
    then have "?b + length p \<le> ?m" using assms(4) BYTES by (simp add: qs_add_def dt_GetCurrentSize_def qs_new_def word_le_nat_alt)
    then have "Suc ?n < 2 ^ 32" using b(1) assms(2) m(2) by linarith
    then show ?thesis using n inv by (subst unat_Suc_no_wrap) simp_all
  qed
  then show ?thesis using inv assms(2-4)
    by (cases "qs_unit (dt_maxSize q)") (simp_all add: dt_inv_def dt_accept_def dt_GetCurrentSize_def qs_add_def qs_new_def)
qed

lemma dt_Enqueue_ok:
  assumes "dt_inv M q" and "0 < length p" and "length p \<le> M"
  shows "\<exists>b q'. dt_Enqueue p q = Some (b, q') \<and> dt_inv M q' \<and> dt_packets q' = (if b then dt_packets q @ [p] else dt_packets q)
    \<and> dt_traceEnqueue q' = (if b then dt_traceEnqueue q @ [p] else dt_traceEnqueue q) \<and> dt_maxSize q' = dt_maxSize q"
proof (cases "qs_value (qs_add (dt_GetCurrentSize q) p) > qs_value (dt_maxSize q)")
  case True
  moreover have "dt_packets (dt_DropBeforeEnqueue p q) = dt_packets q" "dt_traceEnqueue (dt_DropBeforeEnqueue p q) = dt_traceEnqueue q"
    "dt_maxSize (dt_DropBeforeEnqueue p q) = dt_maxSize q" by (simp_all add: dt_DropBeforeEnqueue_def)
  ultimately show ?thesis using assms(1)
    by (intro exI [of _ False] exI [of _ "dt_DropBeforeEnqueue p q"]) (simp add: dt_Enqueue_eq DropBeforeEnqueue_inv)
next
  case False
  moreover have "dt_packets (dt_accept p q) = dt_packets q @ [p]" "dt_traceEnqueue (dt_accept p q) = dt_traceEnqueue q @ [p]"
    "dt_maxSize (dt_accept p q) = dt_maxSize q" by (simp_all add: dt_accept_def)
  ultimately show ?thesis using dt_accept_inv [OF assms]
    by (intro exI [of _ True] exI [of _ "dt_accept p q"]) (simp add: dt_Enqueue_eq)
qed

lemma dt_take_ok:
  assumes "dt_inv M q" and "dt_packets q = p # r"
  shows "\<exists>q'. dt_take 0 q = Some (p, q') \<and> dt_inv M q' \<and> dt_packets q' = r \<and> dt_nPackets q \<noteq> 0
    \<and> dt_traceEnqueue q' = dt_traceEnqueue q \<and> dt_maxSize q' = dt_maxSize q"
proof -
  note inv = assms(1) [unfolded dt_inv_def]
  have n: "unat (dt_nPackets q) = Suc (length r)" "unat (dt_nBytes q) = length p + sum_list (map length r)"
    using inv assms(2) by simp_all
  then have l: "unat (of_nat (length p) :: u32) = length p" using unat_u32_bound [of "dt_nBytes q"] by (intro unat_of_length) simp
  have pos: "dt_nPackets q > 0" "dt_nPackets q \<noteq> 0" using n(1) by (auto simp: word_less_nat_alt)
  have ge: "dt_nBytes q \<ge> of_nat (length p)" using n(2) l by (simp add: word_le_nat_alt)
  have u: "unat (dt_nBytes q - of_nat (length p)) = sum_list (map length r)" "unat (dt_nPackets q - 1) = length r"
    using n l ge pos(1) by (simp_all add: unat_minus_no_wrap word_le_nat_alt)
  have "qs_value (dt_GetCurrentSize (q\<lparr>dt_packets := r, dt_nBytes := dt_nBytes q - of_nat (length p), dt_nPackets := dt_nPackets q - 1,
      dt_traceDequeue := t\<rparr>)) \<le> qs_value (dt_maxSize q)" for t
    using inv u n by (cases "qs_unit (dt_maxSize q)") (simp_all add: dt_GetCurrentSize_def qs_new_def word_le_nat_alt)
  then show ?thesis using assms inv pos ge u by (simp add: dt_take_def dt_inv_def Let_def)
qed

lemma dt_Dequeue_ok:
  assumes "dt_inv M q"
  shows "\<exists>q'. dt_Dequeue q = Some (case dt_packets q of [] \<Rightarrow> None | p # _ \<Rightarrow> Some p, q') \<and> dt_inv M q' \<and> dt_packets q' = tl (dt_packets q)
    \<and> dt_traceEnqueue q' = dt_traceEnqueue q \<and> dt_maxSize q' = dt_maxSize q"
proof (cases "dt_packets q")
  case Nil
  then have "dt_nPackets q = 0" using assms by (simp add: dt_inv_def unat_eq_0)
  then show ?thesis using assms Nil by (simp add: dt_Dequeue_def dt_DoDequeue_def)
next
  case (Cons p r)
  from dt_take_ok [OF assms Cons] show ?thesis using Cons by (auto simp: dt_Dequeue_def dt_DoDequeue_def)
qed

interpretation dt: packet_queue dt_Enqueue dt_Dequeue dt_packets "dt_inv M" "\<lambda>p. 0 < length p \<and> length p \<le> M" for M
  by unfold_locales (use dt_Enqueue_ok dt_Dequeue_ok in blast)+

text \<open>
  C19: the drop-tail queue is a queue of bounded size.  For every sequence of calls with packets of
  1 to \<open>M\<close> bytes, none of its assertions fails; what came out, followed by what is still in it, is
  what was accepted, in order; every packet is accepted or refused; the counts of packets and
  bytes are exact and stay within the maximum (which is part of \<open>dt_inv\<close>).
\<close>

theorem drop_tail_fifo:
  assumes "dt_inv M q" and "\<forall>p \<in> set (enqueued ops). 0 < length p \<and> length p \<le> M"
  shows "\<exists>acc refused outs q'. q_run dt_Enqueue dt_Dequeue ops q = Some (acc, refused, outs, q') \<and> dt_inv M q'
    \<and> outs @ dt_packets q' = dt_packets q @ acc \<and> enqueued ops \<in> shuffles acc refused"
  by (rule dt.run_fifo [OF assms])

lemma DropTailQueue_init_inv: "dt_inv 65537 DropTailQueue_init"
  by (simp add: dt_inv_def DropTailQueue_init_def QueueBase_init_def dt_limit_def qs_new_def dt_GetCurrentSize_def)

theorem drop_tail_fifo_witness:
  "\<exists>acc refused outs q'. q_run dt_Enqueue dt_Dequeue [Enq [1], Enq [2, 3], Deq] DropTailQueue_init = Some (acc, refused, outs, q')
    \<and> outs @ dt_packets q' = acc"
  using drop_tail_fifo [OF DropTailQueue_init_inv, of "[Enq [1], Enq [2, 3], Deq]"]
  by (auto simp: DropTailQueue_init_def QueueBase_init_def)

lemma DropAfterDequeue_inv: "dt_inv M (dt_DropAfterDequeue p q) \<longleftrightarrow> dt_inv M q"
  by (cases "qs_unit (dt_maxSize q)") (simp_all add: dt_inv_def dt_DropAfterDequeue_def dt_GetCurrentSize_def)

lemma dt_Flush_ok:
  assumes "dt_inv M q"
  shows "\<exists>q'. dt_Flush q = Some q' \<and> dt_inv M q' \<and> dt_packets q' = []
    \<and> dt_traceDropAfterDequeue q' = dt_traceDropAfterDequeue q @ dt_packets q"
  using assms
proof (induction "dt_packets q" arbitrary: q)
  case Nil
  then have "dt_nPackets q = 0" by (simp add: dt_inv_def unat_eq_0)
  then show ?case using Nil by (subst dt_Flush.simps) (simp add: dt_IsEmpty_def)
next
  case (Cons p r)
  obtain q1 where q1: "dt_take 0 q = Some (p, q1)" "dt_inv M q1" "dt_packets q1 = r" "dt_nPackets q \<noteq> 0"
    using dt_take_ok [OF Cons.prems Cons.hyps(2) [symmetric]] by blast
  have tr: "dt_traceDropAfterDequeue q1 = dt_traceDropAfterDequeue q" using q1(1) by (auto simp: dt_take_def Let_def ns_assert_def split: if_splits)
  let ?q = "dt_DropAfterDequeue p q1"
  have "dt_packets ?q = r" "dt_inv M ?q" "dt_traceDropAfterDequeue ?q = dt_traceDropAfterDequeue q @ [p]"
    using q1 tr by (simp_all add: DropAfterDequeue_inv) (simp_all add: dt_DropAfterDequeue_def)
  moreover have "dt_Flush q = dt_Flush ?q"
    using q1(1,4) by (subst dt_Flush.simps) (simp add: dt_IsEmpty_def dt_Remove_def dt_DoRemove_def)
  ultimately show ?case using Cons.hyps(1) [of ?q] Cons.hyps(2) by simp
qed

end
