(* ===== verification/Point_To_Point.thy ===== *)
theory Point_To_Point
  imports Drop_Tail_Queue Wire
begin

text \<open>
  Point-to-point links: \<^verbatim>\<open>PppHeader\<close>, \<^verbatim>\<open>PointToPointNetDevice\<close> and \<^verbatim>\<open>PointToPointChannel\<close>
  (src/point-to-point/model/ppp-header.cc, point-to-point-net-device.cc,
  point-to-point-channel.cc).  The devices have a drop-tail queue.  Simulated time is a number of
  ticks; the time a frame takes (\<^verbatim>\<open>DataRate::CalculateBytesTxTime\<close>) is a function of its size.
\<close>

section \<open>Definitions\<close>

text \<open>The PPP header.\<close>

definition ppp_GetSerializedSize :: nat where
  "ppp_GetSerializedSize = 2"

definition ppp_Serialize :: "u16 \<Rightarrow> u8 list" where
  "ppp_Serialize protocol = hton16 protocol"

definition ppp_Deserialize :: "u8 list \<Rightarrow> (u16 \<times> nat) option" where
  "ppp_Deserialize bs = do { (protocol, _) \<leftarrow> rdNtohU16 bs; Some (protocol, ppp_GetSerializedSize) }"

definition PppToEther :: "u16 \<Rightarrow> u16 option" where
  "PppToEther proto = (if proto = 0x0021 then Some 0x0800 else if proto = 0x0057 then Some 0x86DD else None)"

definition EtherToPpp :: "u16 \<Rightarrow> u16 option" where
  "EtherToPpp proto = (if proto = 0x0800 then Some 0x0021 else if proto = 0x86DD then Some 0x0057 else None)"

definition p2p_AddHeader :: "u8 list \<Rightarrow> u16 \<Rightarrow> u8 list option" where
  "p2p_AddHeader p protocolNumber = do { ppp \<leftarrow> EtherToPpp protocolNumber; Some (ppp_Serialize ppp @ p) }"

definition p2p_ProcessHeader :: "u8 list \<Rightarrow> (u8 list \<times> u16) option" where
  "p2p_ProcessHeader p = do {
     (ppp, n) \<leftarrow> ppp_Deserialize p;
     param \<leftarrow> PppToEther ppp;
     Some (drop n p, param)
   }"

datatype tx_state = READY | BUSY

text \<open>
  A device.  The trace sources and the receive callback record what they are called with; the
  promiscuous callback and the sniffer traces are left out.
\<close>

record p2p_device =
  pd_txMachineState :: tx_state
  pd_tInterframeGap :: nat
  pd_queue :: pkt_queue
  pd_linkUp :: bool
  pd_currentPkt :: "u8 list option"
  pd_mtu :: u16
  pd_macTxDrop :: "u8 list list"
  pd_phyRxEnd :: "u8 list list"
  pd_phyRxDrop :: "u8 list list"
  pd_rxCallback :: "(u8 list \<times> u16) list"

definition PointToPointNetDevice_init :: p2p_device where
  "PointToPointNetDevice_init = \<lparr>pd_txMachineState = READY, pd_tInterframeGap = 0, pd_queue = DropTailQueue_init, pd_linkUp = False,
     pd_currentPkt = None, pd_mtu = 1500, pd_macTxDrop = [], pd_phyRxEnd = [], pd_phyRxDrop = [], pd_rxCallback = []\<rparr>"

datatype wire_state = INITIALIZING | IDLE | TRANSMITTING | PROPAGATING

record p2p_wire =
  w_state :: wire_state
  w_src :: ptr
  w_dst :: ptr

record p2p_channel =
  ch_delay :: nat
  ch_nDevices :: nat
  ch_link :: "p2p_wire list"

definition PointToPointChannel_init :: "nat \<Rightarrow> p2p_channel" where
  "PointToPointChannel_init delay = \<lparr>ch_delay = delay, ch_nDevices = 0,
     ch_link = replicate 2 \<lparr>w_state = INITIALIZING, w_src = nullptr, w_dst = nullptr\<rparr>\<rparr>"

text \<open>
  The part of the simulation that concerns a link: the time, the devices by their address, the
  channel, and the events that are scheduled, in the order in which they were scheduled.
\<close>

datatype p2p_event = TransmitComplete ptr | ReceiveAt ptr "u8 list"

record p2p_world =
  pw_now :: nat
  pw_dev :: "ptr \<Rightarrow> p2p_device"
  pw_channel :: p2p_channel
  pw_agenda :: "(nat \<times> p2p_event) list"

definition dev_on :: "ptr \<Rightarrow> (p2p_device \<Rightarrow> p2p_device) \<Rightarrow> p2p_world \<Rightarrow> p2p_world" where
  "dev_on d g w = w\<lparr>pw_dev := (pw_dev w)(d := g (pw_dev w d))\<rparr>"

definition pw_schedule :: "nat \<Rightarrow> p2p_event \<Rightarrow> p2p_world \<Rightarrow> p2p_world" where
  "pw_schedule delay e w = w\<lparr>pw_agenda := pw_agenda w @ [(pw_now w + delay, e)]\<rparr>"

definition ch_Attach :: "ptr \<Rightarrow> p2p_channel \<Rightarrow> p2p_channel option" where
  "ch_Attach device c = do {
     ns_assert (ch_nDevices c < 2);
     ns_assert (device \<noteq> nullptr);
     let c = c\<lparr>ch_link := (ch_link c)[ch_nDevices c := (ch_link c ! ch_nDevices c)\<lparr>w_src := device\<rparr>], ch_nDevices := ch_nDevices c + 1\<rparr>;
     Some (if ch_nDevices c = 2
           then c\<lparr>ch_link := [(ch_link c ! 0)\<lparr>w_dst := w_src (ch_link c ! 1), w_state := IDLE\<rparr>,
                             (ch_link c ! 1)\<lparr>w_dst := w_src (ch_link c ! 0), w_state := IDLE\<rparr>]\<rparr>
           else c)
   }"

definition ch_TransmitStart :: "u8 list \<Rightarrow> ptr \<Rightarrow> nat \<Rightarrow> p2p_world \<Rightarrow> (bool \<times> p2p_world) option" where
  "ch_TransmitStart p src txTime w = do {
     let c = pw_channel w;
     ns_assert (w_state (ch_link c ! 0) \<noteq> INITIALIZING);
     ns_assert (w_state (ch_link c ! 1) \<noteq> INITIALIZING);
     let wire = (if src = w_src (ch_link c ! 0) then 0 else 1);
     Some (True, pw_schedule (txTime + ch_delay c) (ReceiveAt (w_dst (ch_link c ! wire)) p) w)
   }"

text \<open>\<open>txTime\<close>: the time for a frame of a size, at the data rate of the device.\<close>

definition p2p_TransmitStart :: "(nat \<Rightarrow> nat) \<Rightarrow> ptr \<Rightarrow> u8 list \<Rightarrow> p2p_world \<Rightarrow> (bool \<times> p2p_world) option" where
  "p2p_TransmitStart txTime d p w = do {
     ns_assert (pd_txMachineState (pw_dev w d) = READY);
     let w = dev_on d (\<lambda>v. v\<lparr>pd_txMachineState := BUSY, pd_currentPkt := Some p\<rparr>) w;
     let w = pw_schedule (txTime (length p) + pd_tInterframeGap (pw_dev w d)) (TransmitComplete d) w;
     ch_TransmitStart p d (txTime (length p)) w
   }"

definition p2p_TransmitComplete :: "(nat \<Rightarrow> nat) \<Rightarrow> ptr \<Rightarrow> p2p_world \<Rightarrow> p2p_world option" where
  "p2p_TransmitComplete txTime d w = do {
     ns_assert (pd_txMachineState (pw_dev w d) = BUSY);
     ns_assert (pd_currentPkt (pw_dev w d) \<noteq> None);
     let w = dev_on d (\<lambda>v. v\<lparr>pd_txMachineState := READY, pd_currentPkt := None\<rparr>) w;
     (p, q) \<leftarrow> dt_Dequeue (pd_queue (pw_dev w d));
     let w = dev_on d (\<lambda>v. v\<lparr>pd_queue := q\<rparr>) w;
     case p of
       None \<Rightarrow> Some w
     | Some p \<Rightarrow> do { (_, w) \<leftarrow> p2p_TransmitStart txTime d p w; Some w }
   }"

definition p2p_Attach :: "ptr \<Rightarrow> p2p_world \<Rightarrow> p2p_world option" where
  "p2p_Attach d w = do {
     c \<leftarrow> ch_Attach d (pw_channel w);
     Some (dev_on d (\<lambda>v. v\<lparr>pd_linkUp := True\<rparr>) (w\<lparr>pw_channel := c\<rparr>))
   }"

definition p2p_Send :: "(nat \<Rightarrow> nat) \<Rightarrow> ptr \<Rightarrow> u8 list \<Rightarrow> u16 \<Rightarrow> p2p_world \<Rightarrow> (bool \<times> p2p_world) option" where
  "p2p_Send txTime d packet protocolNumber w =
     (if \<not> pd_linkUp (pw_dev w d)
      then Some (False, dev_on d (\<lambda>v. v\<lparr>pd_macTxDrop := pd_macTxDrop v @ [packet]\<rparr>) w)
      else do {
        packet \<leftarrow> p2p_AddHeader packet protocolNumber;
        (ok, q) \<leftarrow> dt_Enqueue packet (pd_queue (pw_dev w d));
        let w = dev_on d (\<lambda>v. v\<lparr>pd_queue := q\<rparr>) w;
        if ok
        then if pd_txMachineState (pw_dev w d) = READY
          then do {
            (p, q) \<leftarrow> dt_Dequeue (pd_queue (pw_dev w d));
            p \<leftarrow> p;
            p2p_TransmitStart txTime d p (dev_on d (\<lambda>v. v\<lparr>pd_queue := q\<rparr>) w)
          }
          else Some (True, w)
        else Some (False, dev_on d (\<lambda>v. v\<lparr>pd_macTxDrop := pd_macTxDrop v @ [packet]\<rparr>) w)
      })"

text \<open>The device at the other end, whose address goes to the receive callback.\<close>

definition p2p_GetRemote :: "ptr \<Rightarrow> p2p_world \<Rightarrow> ptr option" where
  "p2p_GetRemote d w = do {
     let c = pw_channel w;
     ns_assert (ch_nDevices c = 2);
     find (\<lambda>tmp. tmp \<noteq> d) (map (\<lambda>i. w_src (ch_link c ! i)) [0..<ch_nDevices c])
   }"

text \<open>\<open>corrupt\<close>: the answer of the error model of the receiver.\<close>

definition p2p_Receive :: "bool \<Rightarrow> ptr \<Rightarrow> u8 list \<Rightarrow> p2p_world \<Rightarrow> p2p_world option" where
  "p2p_Receive corrupt d packet w =
     (if corrupt then Some (dev_on d (\<lambda>v. v\<lparr>pd_phyRxDrop := pd_phyRxDrop v @ [packet]\<rparr>) w)
      else do {
        x \<leftarrow> p2p_ProcessHeader packet;
        _ \<leftarrow> p2p_GetRemote d w;
        Some (dev_on d (\<lambda>v. v\<lparr>pd_phyRxEnd := pd_phyRxEnd v @ [packet], pd_rxCallback := pd_rxCallback v @ [x]\<rparr>) w)
      })"

text \<open>
  The simulator takes the first of the events with the least time, as its scheduler does.
\<close>

definition next_event :: "(nat \<times> p2p_event) list \<Rightarrow> nat \<Rightarrow> bool" where
  "next_event ag i \<longleftrightarrow> i < length ag \<and> (\<forall>j < length ag. fst (ag ! i) \<le> fst (ag ! j)) \<and> (\<forall>j < i. fst (ag ! i) < fst (ag ! j))"

definition p2p_invoke :: "(nat \<Rightarrow> nat) \<Rightarrow> bool \<Rightarrow> p2p_event \<Rightarrow> p2p_world \<Rightarrow> p2p_world option" where
  "p2p_invoke txTime corrupt e w = (case e of
       TransmitComplete d \<Rightarrow> p2p_TransmitComplete txTime d w
     | ReceiveAt d p \<Rightarrow> p2p_Receive corrupt d p w)"

definition p2p_process :: "(nat \<Rightarrow> nat) \<Rightarrow> bool \<Rightarrow> nat \<Rightarrow> p2p_world \<Rightarrow> p2p_world option" where
  "p2p_process txTime corrupt i w =
     p2p_invoke txTime corrupt (snd (pw_agenda w ! i))
       (w\<lparr>pw_now := fst (pw_agenda w ! i), pw_agenda := take i (pw_agenda w) @ drop (Suc i) (pw_agenda w)\<rparr>)"

end
