(* ===== verification/Point_To_Point_Laws.thy ===== *)
theory Point_To_Point_Laws
  imports Point_To_Point
begin

text \<open>
  What a point-to-point link promises: the devices never meet a failing assertion, frames arrive
  in the order in which they were queued, and a link without new frames comes to rest with every
  frame delivered.
\<close>

section \<open>Frames\<close>

definition frame_ok :: "u8 list \<Rightarrow> bool" where
  "frame_ok p \<longleftrightarrow> 2 \<le> length p \<and> length p \<le> 65537 \<and> p2p_ProcessHeader p \<noteq> None"

lemma ppp_header:
  assumes "p2p_AddHeader p protocol = Some f"
  shows "p2p_ProcessHeader f = Some (p, protocol)" and "length f = length p + 2"
  using assms by (auto simp: p2p_AddHeader_def p2p_ProcessHeader_def EtherToPpp_def PppToEther_def ppp_Serialize_def ppp_Deserialize_def
      ppp_GetSerializedSize_def split: if_splits)

lemma frame_added: "p2p_AddHeader p protocol = Some f \<Longrightarrow> length p \<le> 65535 \<Longrightarrow> frame_ok f"
  using ppp_header [of p protocol f] by (simp add: frame_ok_def)

section \<open>One direction of a link\<close>

fun recvs :: "ptr \<Rightarrow> (nat \<times> p2p_event) list \<Rightarrow> (nat \<times> u8 list) list" where
  "recvs d [] = []"
| "recvs d ((t, ReceiveAt d' p) # r) = (if d' = d then (t, p) # recvs d r else recvs d r)"
| "recvs d ((t, TransmitComplete d') # r) = recvs d r"

fun completes :: "ptr \<Rightarrow> (nat \<times> p2p_event) list \<Rightarrow> nat list" where
  "completes d [] = []"
| "completes d ((t, ReceiveAt d' p) # r) = completes d r"
| "completes d ((t, TransmitComplete d') # r) = (if d' = d then t # completes d r else completes d r)"

lemma recvs_append [simp]: "recvs d (xs @ ys) = recvs d xs @ recvs d ys"
  by (induction d xs rule: recvs.induct) simp_all

lemma completes_append [simp]: "completes d (xs @ ys) = completes d xs @ completes d ys"
  by (induction d xs rule: completes.induct) simp_all

lemma recvs_in: "x \<in> set (recvs d ag) \<Longrightarrow> (fst x, ReceiveAt d (snd x)) \<in> set ag"
  by (induction d ag rule: recvs.induct) (auto split: if_splits)

lemma completes_in: "t \<in> set (completes d ag) \<Longrightarrow> (t, TransmitComplete d) \<in> set ag"
  by (induction d ag rule: completes.induct) (auto split: if_splits)

text \<open>
  The transmitter \<open>v\<close>, the frames under way \<open>rs\<close> and the ends of transmission \<open>cs\<close> that are
  scheduled; and the frames that were queued, as they are found at the receiver \<open>v'\<close>, under way,
  and in the queue.
\<close>

definition tx_ok :: "nat \<Rightarrow> nat \<Rightarrow> p2p_device \<Rightarrow> nat list \<Rightarrow> (nat \<times> u8 list) list \<Rightarrow> bool" where
  "tx_ok delay now v cs rs \<longleftrightarrow> (case pd_txMachineState v of
       READY \<Rightarrow> cs = [] \<and> dt_packets (pd_queue v) = [] \<and> (\<forall>x \<in> set rs. fst x \<le> now + delay)
     | BUSY \<Rightarrow> pd_currentPkt v \<noteq> None \<and> (\<exists>tc. cs = [tc] \<and> (\<forall>x \<in> set rs. fst x \<le> tc + delay)))"

definition history :: "pkt_queue \<Rightarrow> p2p_device \<Rightarrow> u8 list list \<Rightarrow> bool" where
  "history q v' rest \<longleftrightarrow> (\<exists>arr. dt_traceEnqueue q = arr @ rest \<and> arr \<in> shuffles (pd_phyRxEnd v') (pd_phyRxDrop v'))
     \<and> map p2p_ProcessHeader (pd_phyRxEnd v') = map Some (pd_rxCallback v')"

definition dir_inv :: "nat \<Rightarrow> nat \<Rightarrow> p2p_device \<Rightarrow> p2p_device \<Rightarrow> nat list \<Rightarrow> (nat \<times> u8 list) list \<Rightarrow> bool" where
  "dir_inv delay now v v' cs rs \<longleftrightarrow> pd_linkUp v \<and> dt_inv 65537 (pd_queue v) \<and> (\<forall>p \<in> set (dt_packets (pd_queue v)). frame_ok p)
     \<and> (\<forall>x \<in> set rs. frame_ok (snd x)) \<and> sorted (map fst rs) \<and> tx_ok delay now v cs rs
     \<and> history (pd_queue v) v' (map snd rs @ dt_packets (pd_queue v))"

lemma dir_started:
  assumes "pd_linkUp v" and "dt_inv 65537 q" and "\<forall>p \<in> set (dt_packets q). frame_ok p" and "\<forall>x \<in> set rs. frame_ok (snd x)"
    and "sorted (map fst rs)" and "\<forall>x \<in> set rs. fst x \<le> now + delay" and "frame_ok p" and "history q v' (map snd rs @ p # dt_packets q)"
  shows "dir_inv delay now (v\<lparr>pd_queue := q, pd_txMachineState := BUSY, pd_currentPkt := Some p\<rparr>) v'
    [now + (tx + gap)] (rs @ [(now + (tx + delay), p)])"
proof -
  have "x \<le> now + (tx + delay)" if "x \<in> fst ` set rs" for x using assms(6) that by fastforce
  then have "sorted (map fst (rs @ [(now + (tx + delay), p)]))" using assms(5) by (auto simp: sorted_append)
  moreover have "\<forall>x \<in> set rs. fst x \<le> now + (tx + gap) + delay" using assms(6) by fastforce
  ultimately show ?thesis using assms by (simp add: dir_inv_def tx_ok_def)
qed

lemma shuffles_single: "zs @ [x] \<in> shuffles [x] zs" "zs @ [x] \<in> shuffles zs [x]"
  by (induction zs) (auto intro: Cons_in_shuffles_rightI Cons_in_shuffles_leftI)

lemma shuffles_snoc:
  "xs \<in> shuffles ys zs \<Longrightarrow> xs @ [x] \<in> shuffles (ys @ [x]) zs \<and> xs @ [x] \<in> shuffles ys (zs @ [x])"
proof (induction ys zs arbitrary: xs rule: shuffles.induct)
  case (1 zs)
  then show ?case by (simp add: shuffles_single)
next
  case (2 ys)
  then show ?case by (simp add: shuffles_single)
next
  case (3 y ys z zs)
  then show ?case by (auto simp: Cons_in_shuffles_iff)
qed

lemma tx_ok_later: "tx_ok delay now v cs rs \<Longrightarrow> now \<le> t \<Longrightarrow> tx_ok delay t v cs rs"
  by (fastforce simp: tx_ok_def split: tx_state.splits)

lemma dir_later: "dir_inv delay now v v' cs rs \<Longrightarrow> now \<le> t \<Longrightarrow> dir_inv delay t v v' cs rs"
  by (auto simp: dir_inv_def intro: tx_ok_later)

lemma dir_receiver:
  assumes "dir_inv delay now v v' cs rs" and "pd_phyRxEnd u = pd_phyRxEnd v'" and "pd_phyRxDrop u = pd_phyRxDrop v'"
    and "pd_rxCallback u = pd_rxCallback v'"
  shows "dir_inv delay now v u cs rs"
  using assms by (simp add: dir_inv_def history_def)

lemma dir_sender:
  assumes "dir_inv delay now v v' cs rs" and "pd_linkUp u = pd_linkUp v" and "pd_queue u = pd_queue v"
    and "pd_txMachineState u = pd_txMachineState v" and "pd_currentPkt u = pd_currentPkt v"
  shows "dir_inv delay now u v' cs rs"
  using assms by (cases "pd_txMachineState v") (auto simp: dir_inv_def tx_ok_def)

section \<open>Both directions\<close>

definition conn :: "p2p_channel \<Rightarrow> ptr \<Rightarrow> ptr \<Rightarrow> bool" where
  "conn c d d' \<longleftrightarrow> ch_nDevices c = 2 \<and> w_state (ch_link c ! 0) = IDLE \<and> w_state (ch_link c ! 1) = IDLE
     \<and> w_dst (ch_link c ! (if d = w_src (ch_link c ! 0) then 0 else 1)) = d'
     \<and> (w_src (ch_link c ! 0) = d \<or> w_src (ch_link c ! 1) = d)"

lemma conn_remote: "conn (pw_channel w) d d' \<Longrightarrow> d \<noteq> d' \<Longrightarrow> p2p_GetRemote d' w \<noteq> None"
  by (auto simp: conn_def p2p_GetRemote_def numeral_2_eq_2 upt_rec Let_def)

definition pair_inv :: "p2p_world \<Rightarrow> ptr \<Rightarrow> ptr \<Rightarrow> bool" where
  "pair_inv w d d' \<longleftrightarrow> conn (pw_channel w) d d'
     \<and> dir_inv (ch_delay (pw_channel w)) (pw_now w) (pw_dev w d) (pw_dev w d') (completes d (pw_agenda w)) (recvs d' (pw_agenda w))"

fun ev_dev :: "p2p_event \<Rightarrow> ptr" where
  "ev_dev (TransmitComplete d) = d"
| "ev_dev (ReceiveAt d p) = d"

definition link_inv :: "ptr \<Rightarrow> ptr \<Rightarrow> p2p_world \<Rightarrow> bool" where
  "link_inv a b w \<longleftrightarrow> a \<noteq> b \<and> (\<forall>x \<in> set (pw_agenda w). pw_now w \<le> fst x \<and> ev_dev (snd x) \<in> {a, b}) \<and> pair_inv w a b \<and> pair_inv w b a"

lemma link_inv_sym: "link_inv a b w \<longleftrightarrow> link_inv b a w"
  by (auto simp: link_inv_def)

lemma TransmitStart_eq:
  assumes "conn (pw_channel w) d d'" and "pd_txMachineState (pw_dev w d) = READY"
  shows "p2p_TransmitStart txTime d p w = Some (True,
    w\<lparr>pw_dev := (pw_dev w)(d := (pw_dev w d)\<lparr>pd_txMachineState := BUSY, pd_currentPkt := Some p\<rparr>),
      pw_agenda := pw_agenda w @ [(pw_now w + (txTime (length p) + pd_tInterframeGap (pw_dev w d)), TransmitComplete d),
        (pw_now w + (txTime (length p) + ch_delay (pw_channel w)), ReceiveAt d' p)]\<rparr>)"
  using assms by (simp add: p2p_TransmitStart_def ch_TransmitStart_def conn_def dev_on_def pw_schedule_def Let_def)

text \<open>Starting to transmit, from a state in which the frame was taken from the queue.\<close>

lemma TransmitStart_ok:
  assumes "a \<noteq> b" and "\<forall>x \<in> set (pw_agenda w). pw_now w \<le> fst x \<and> ev_dev (snd x) \<in> {a, b}" and "conn (pw_channel w) a b"
    and "pd_txMachineState (pw_dev w a) = READY" and "completes a (pw_agenda w) = []" and "pd_linkUp (pw_dev w a)"
    and "dt_inv 65537 (pd_queue (pw_dev w a))" and "\<forall>p \<in> set (dt_packets (pd_queue (pw_dev w a))). frame_ok p"
    and "\<forall>x \<in> set (recvs b (pw_agenda w)). frame_ok (snd x) \<and> fst x \<le> pw_now w + ch_delay (pw_channel w)"
    and "sorted (map fst (recvs b (pw_agenda w)))" and "frame_ok p"
    and "history (pd_queue (pw_dev w a)) (pw_dev w b) (map snd (recvs b (pw_agenda w)) @ p # dt_packets (pd_queue (pw_dev w a)))"
    and "pair_inv w b a"
  shows "\<exists>w'. p2p_TransmitStart txTime a p w = Some (True, w') \<and> link_inv a b w'"
proof -
  let ?v = "(pw_dev w a)\<lparr>pd_txMachineState := BUSY, pd_currentPkt := Some p\<rparr>"
  let ?w = "w\<lparr>pw_dev := (pw_dev w)(a := ?v),
      pw_agenda := pw_agenda w @ [(pw_now w + (txTime (length p) + pd_tInterframeGap (pw_dev w a)), TransmitComplete a),
        (pw_now w + (txTime (length p) + ch_delay (pw_channel w)), ReceiveAt b p)]\<rparr>"
  have "dir_inv (ch_delay (pw_channel w)) (pw_now w) ((pw_dev w a)\<lparr>pd_queue := pd_queue (pw_dev w a), pd_txMachineState := BUSY, pd_currentPkt := Some p\<rparr>)
      (pw_dev w b) [pw_now w + (txTime (length p) + pd_tInterframeGap (pw_dev w a))]
      (recvs b (pw_agenda w) @ [(pw_now w + (txTime (length p) + ch_delay (pw_channel w)), p)])"
    by (rule dir_started) (use assms in auto)
  moreover have "(pw_dev w a)\<lparr>pd_queue := pd_queue (pw_dev w a), pd_txMachineState := BUSY, pd_currentPkt := Some p\<rparr> = ?v" by simp
  ultimately have "pair_inv ?w a b" using assms(1,3,5) by (simp add: pair_inv_def)
  moreover have "dir_inv (ch_delay (pw_channel w)) (pw_now w) (pw_dev w b) ?v (completes b (pw_agenda w)) (recvs a (pw_agenda w))"
    by (rule dir_receiver [of _ _ _ "pw_dev w a"]) (use assms(13) in \<open>simp_all add: pair_inv_def\<close>)
  then have "pair_inv ?w b a" using assms(1,13) by (simp add: pair_inv_def)
  ultimately have "link_inv a b ?w" using assms(1,2) by (auto simp: link_inv_def)
  then show ?thesis using TransmitStart_eq [OF assms(3,4), of txTime p] by blast
qed

lemma Send_ok:
  assumes "link_inv a b w" and "EtherToPpp protocol \<noteq> None" and "length packet \<le> 65535"
  shows "\<exists>ok w'. p2p_Send txTime a packet protocol w = Some (ok, w') \<and> link_inv a b w'"
proof -
  let ?v = "pw_dev w a" and ?ag = "pw_agenda w"
  have ab: "a \<noteq> b" and ag: "\<forall>x \<in> set ?ag. pw_now w \<le> fst x \<and> ev_dev (snd x) \<in> {a, b}" and p: "pair_inv w a b" "pair_inv w b a"
    using assms(1) by (simp_all add: link_inv_def)
  have dir: "dir_inv (ch_delay (pw_channel w)) (pw_now w) ?v (pw_dev w b) (completes a ?ag) (recvs b ?ag)" and c: "conn (pw_channel w) a b"
    using p(1) by (simp_all add: pair_inv_def)
  obtain f where f: "p2p_AddHeader packet protocol = Some f" using assms(2) by (auto simp: p2p_AddHeader_def)
  have fok: "frame_ok f" using frame_added [OF f assms(3)] .
  then have "0 < length f" "length f \<le> 65537" "dt_inv 65537 (pd_queue ?v)" using dir by (auto simp: frame_ok_def dir_inv_def)
  then obtain ok q where q: "dt_Enqueue f (pd_queue ?v) = Some (ok, q)" "dt_inv 65537 q"
    "dt_packets q = (if ok then dt_packets (pd_queue ?v) @ [f] else dt_packets (pd_queue ?v))"
    "dt_traceEnqueue q = (if ok then dt_traceEnqueue (pd_queue ?v) @ [f] else dt_traceEnqueue (pd_queue ?v))"
    using dt_Enqueue_ok [of 65537 "pd_queue ?v" f] by blast
  have up: "pd_linkUp ?v" using dir by (simp add: dir_inv_def)
  have other: "pair_inv (w\<lparr>pw_dev := (pw_dev w)(a := u)\<rparr>) b a"
    if "pd_phyRxEnd u = pd_phyRxEnd ?v" "pd_phyRxDrop u = pd_phyRxDrop ?v" "pd_rxCallback u = pd_rxCallback ?v" for u
    using p(2) ab that dir_receiver [of _ _ "pw_dev w b" ?v _ _ u] by (simp add: pair_inv_def)
  have plain: "link_inv a b (w\<lparr>pw_dev := (pw_dev w)(a := u)\<rparr>)"
    if "pd_phyRxEnd u = pd_phyRxEnd ?v" "pd_phyRxDrop u = pd_phyRxDrop ?v" "pd_rxCallback u = pd_rxCallback ?v"
      "dir_inv (ch_delay (pw_channel w)) (pw_now w) u (pw_dev w b) (completes a ?ag) (recvs b ?ag)" for u
    using other [OF that(1-3)] that(4) ab ag c by (simp add: link_inv_def pair_inv_def)
  show ?thesis
  proof (cases "ok \<and> pd_txMachineState ?v = READY")
    case True
    then have empty: "dt_packets (pd_queue ?v) = []" "completes a ?ag = []"
      "\<forall>x \<in> set (recvs b ?ag). fst x \<le> pw_now w + ch_delay (pw_channel w)" using dir by (simp_all add: dir_inv_def tx_ok_def)
    obtain q2 where q2: "dt_Dequeue q = Some (Some f, q2)" "dt_inv 65537 q2" "dt_packets q2 = []" "dt_traceEnqueue q2 = dt_traceEnqueue q"
      using dt_Dequeue_ok [OF q(2)] q(3) True empty(1) by auto
    let ?w = "w\<lparr>pw_dev := (pw_dev w)(a := ?v\<lparr>pd_queue := q2\<rparr>)\<rparr>"
    have "history q2 (pw_dev w b) (map snd (recvs b ?ag) @ [f])"
      using dir q(4) q2(4) True empty(1) by (auto simp: dir_inv_def history_def)
    then have "\<exists>w'. p2p_TransmitStart txTime a f ?w = Some (True, w') \<and> link_inv a b w'"
      using ab ag c True empty(2,3) up q2 fok dir other [of "?v\<lparr>pd_queue := q2\<rparr>"]
      by (intro TransmitStart_ok) (simp_all add: dir_inv_def)
    then show ?thesis using True up f q(1) q2(1) by (auto simp: p2p_Send_def dev_on_def Let_def)
  next
    case False
    let ?u = "?v\<lparr>pd_queue := q\<rparr>"
    have d: "dir_inv (ch_delay (pw_channel w)) (pw_now w) ?u (pw_dev w b) (completes a ?ag) (recvs b ?ag)"
      using dir q(2-4) fok False
      by (cases ok; cases "pd_txMachineState ?v") (auto simp: dir_inv_def history_def tx_ok_def)
    show ?thesis
    proof (cases ok)
      case True
      then show ?thesis using False up f q(1) plain [OF _ _ _ d] by (simp add: p2p_Send_def dev_on_def Let_def) blast
    next
      case False
      have "dir_inv (ch_delay (pw_channel w)) (pw_now w) (?u\<lparr>pd_macTxDrop := pd_macTxDrop ?u @ [f]\<rparr>) (pw_dev w b) (completes a ?ag) (recvs b ?ag)"
        by (rule dir_sender [OF d]) simp_all
      from plain [OF _ _ _ this] show ?thesis using False up f q(1) by (simp add: p2p_Send_def dev_on_def Let_def) blast
    qed
  qed
qed

section \<open>Events\<close>

lemma next_split:
  assumes "next_event ag i"
  obtains xs t e ys where "ag = xs @ (t, e) # ys" and "i = length xs" and "\<forall>x \<in> set xs. t < fst x" and "\<forall>x \<in> set ys. t \<le> fst x"
proof -
  have i: "i < length ag" "\<And>j. j < length ag \<Longrightarrow> fst (ag ! i) \<le> fst (ag ! j)" "\<And>j. j < i \<Longrightarrow> fst (ag ! i) < fst (ag ! j)"
    using assms by (auto simp: next_event_def)
  obtain t e where te: "ag ! i = (t, e)" by fastforce
  have "ag = take i ag @ (t, e) # drop (Suc i) ag" using id_take_nth_drop [OF i(1)] te by simp
  moreover have "\<forall>x \<in> set (take i ag). t < fst x" using i(1,3) te by (fastforce simp: in_set_conv_nth)
  moreover have "\<forall>x \<in> set (drop (Suc i) ag). t \<le> fst x"
  proof
    fix x assume "x \<in> set (drop (Suc i) ag)"
    then have "x \<in> set ag" by (rule in_set_dropD)
    then show "t \<le> fst x" using i(2) te by (auto simp: in_set_conv_nth)
  qed
  ultimately show ?thesis using i(1) by (intro that [of "take i ag" t e "drop (Suc i) ag"]) simp_all
qed

lemma TransmitComplete_ok:
  assumes inv: "link_inv a b w" and ag: "pw_agenda w = xs @ (t, TransmitComplete a) # ys"
    and later: "\<forall>x \<in> set xs. t < fst x" "\<forall>x \<in> set ys. t \<le> fst x"
  shows "\<exists>w'. p2p_TransmitComplete txTime a (w\<lparr>pw_now := t, pw_agenda := xs @ ys\<rparr>) = Some w' \<and> link_inv a b w'"
proof -
  let ?v = "pw_dev w a" and ?delay = "ch_delay (pw_channel w)" and ?rs = "recvs b (xs @ ys)"
  have ab: "a \<noteq> b" and now: "pw_now w \<le> t" and devs: "\<forall>x \<in> set (xs @ ys). ev_dev (snd x) \<in> {a, b}"
    and p: "pair_inv w a b" "pair_inv w b a" using inv ag by (auto simp: link_inv_def)
  have dir: "dir_inv ?delay (pw_now w) ?v (pw_dev w b) (completes a xs @ t # completes a ys) ?rs" and c: "conn (pw_channel w) a b"
    using p(1) ag by (simp_all add: pair_inv_def)
  have busy: "pd_txMachineState ?v = BUSY" using dir by (cases "pd_txMachineState ?v") (simp_all add: dir_inv_def tx_ok_def)
  then have cur: "pd_currentPkt ?v \<noteq> None" "completes a (xs @ ys) = []" "\<forall>x \<in> set ?rs. fst x \<le> t + ?delay"
    using dir by (auto simp: dir_inv_def tx_ok_def append_eq_Cons_conv)
  obtain q where q: "dt_Dequeue (pd_queue ?v) = Some (case dt_packets (pd_queue ?v) of [] \<Rightarrow> None | p # _ \<Rightarrow> Some p, q)"
    "dt_inv 65537 q" "dt_packets q = tl (dt_packets (pd_queue ?v))" "dt_traceEnqueue q = dt_traceEnqueue (pd_queue ?v)"
    using dt_Dequeue_ok [of 65537 "pd_queue ?v"] dir by (auto simp: dir_inv_def)
  let ?u = "?v\<lparr>pd_txMachineState := READY, pd_currentPkt := None, pd_queue := q\<rparr>"
  let ?w = "w\<lparr>pw_now := t, pw_agenda := xs @ ys, pw_dev := (pw_dev w)(a := ?u)\<rparr>"
  have "dir_inv ?delay (pw_now w) (pw_dev w b) ?u (completes b (xs @ ys)) (recvs a (xs @ ys))"
    by (rule dir_receiver [of _ _ _ ?v]) (use p(2) ag ab in \<open>simp_all add: pair_inv_def\<close>)
  then have other: "pair_inv ?w b a" using p(2) ab dir_later [OF _ now] by (simp add: pair_inv_def)
  have agenda: "\<forall>x \<in> set (xs @ ys). t \<le> fst x \<and> ev_dev (snd x) \<in> {a, b}" using later devs by (auto intro: less_imp_le)
  have body: "p2p_TransmitComplete txTime a (w\<lparr>pw_now := t, pw_agenda := xs @ ys\<rparr>) =
      (case dt_packets (pd_queue ?v) of [] \<Rightarrow> Some ?w | p # _ \<Rightarrow> map_option snd (p2p_TransmitStart txTime a p ?w))"
    using busy cur(1) q(1) by (auto simp: p2p_TransmitComplete_def dev_on_def Let_def map_option_case split: list.split option.split)
  show ?thesis
  proof (cases "dt_packets (pd_queue ?v)")
    case Nil
    have "dir_inv ?delay t ?u (pw_dev w b) (completes a (xs @ ys)) ?rs"
      using dir q(2-4) cur(2,3) Nil by (auto simp: dir_inv_def tx_ok_def history_def)
    then have "pair_inv ?w a b" using c ab by (simp add: pair_inv_def)
    then have "link_inv a b ?w" using other ab agenda by (simp add: link_inv_def)
    then show ?thesis using body Nil by simp
  next
    case (Cons f r)
    have "history q (pw_dev w b) (map snd ?rs @ f # dt_packets q)" using dir q(3,4) Cons by (simp add: dir_inv_def history_def)
    moreover have "frame_ok f" "\<forall>p \<in> set (dt_packets q). frame_ok p" using dir q(3) Cons by (auto simp: dir_inv_def)
    moreover have "\<forall>x \<in> set ?rs. frame_ok (snd x) \<and> fst x \<le> t + ?delay" "sorted (map fst ?rs)" using dir cur(3) by (auto simp: dir_inv_def)
    moreover have "pd_linkUp ?v" using dir by (simp add: dir_inv_def)
    ultimately have "\<exists>w'. p2p_TransmitStart txTime a f ?w = Some (True, w') \<and> link_inv a b w'"
      using ab c other agenda q(2) cur(2) by (intro TransmitStart_ok) simp_all
    then show ?thesis using body Cons by auto
  qed
qed

lemma Receive_ok:
  assumes inv: "link_inv a b w" and ag: "pw_agenda w = xs @ (t, ReceiveAt b p) # ys"
    and later: "\<forall>x \<in> set xs. t < fst x" "\<forall>x \<in> set ys. t \<le> fst x"
  shows "\<exists>w'. p2p_Receive corrupt b p (w\<lparr>pw_now := t, pw_agenda := xs @ ys\<rparr>) = Some w' \<and> link_inv a b w'"
proof -
  let ?v = "pw_dev w a" and ?v' = "pw_dev w b" and ?delay = "ch_delay (pw_channel w)" and ?rs = "recvs b (xs @ ys)"
  have ab: "a \<noteq> b" and now: "pw_now w \<le> t" and devs: "\<forall>x \<in> set (xs @ ys). ev_dev (snd x) \<in> {a, b}"
    and pi: "pair_inv w a b" "pair_inv w b a" using inv ag by (auto simp: link_inv_def)
  have dir: "dir_inv ?delay (pw_now w) ?v ?v' (completes a (xs @ ys)) (recvs b xs @ (t, p) # recvs b ys)" and c: "conn (pw_channel w) a b"
    using pi(1) ag by (simp_all add: pair_inv_def)
  have first: "recvs b xs = []"
  proof (rule ccontr)
    assume "recvs b xs \<noteq> []"
    then obtain x where x: "x \<in> set (recvs b xs)" by (cases "recvs b xs") auto
    then have "t < fst x" using later(1) recvs_in [OF x] by fastforce
    moreover have "fst x \<le> t" using dir x by (auto simp: dir_inv_def sorted_append)
    ultimately show False by simp
  qed
  obtain y where y: "p2p_ProcessHeader p = Some y" using dir by (auto simp: dir_inv_def frame_ok_def)
  let ?u = "if corrupt then ?v'\<lparr>pd_phyRxDrop := pd_phyRxDrop ?v' @ [p]\<rparr>
    else ?v'\<lparr>pd_phyRxEnd := pd_phyRxEnd ?v' @ [p], pd_rxCallback := pd_rxCallback ?v' @ [y]\<rparr>"
  let ?w = "w\<lparr>pw_now := t, pw_agenda := xs @ ys, pw_dev := (pw_dev w)(b := ?u)\<rparr>"
  have eq: "p2p_Receive corrupt b p (w\<lparr>pw_now := t, pw_agenda := xs @ ys\<rparr>) = Some ?w"
    using y conn_remote [of "w\<lparr>pw_now := t, pw_agenda := xs @ ys\<rparr>" a b] c ab by (auto simp: p2p_Receive_def dev_on_def)
  obtain arr where arr: "dt_traceEnqueue (pd_queue ?v) = arr @ p # map snd ?rs @ dt_packets (pd_queue ?v)"
    "arr \<in> shuffles (pd_phyRxEnd ?v') (pd_phyRxDrop ?v')" "map p2p_ProcessHeader (pd_phyRxEnd ?v') = map Some (pd_rxCallback ?v')"
    using dir first by (auto simp: dir_inv_def history_def)
  have "arr @ [p] \<in> shuffles (pd_phyRxEnd ?u) (pd_phyRxDrop ?u)" using shuffles_snoc [OF arr(2)] by simp
  then have "history (pd_queue ?v) ?u (map snd ?rs @ dt_packets (pd_queue ?v))"
    using arr(1,3) y unfolding history_def by (intro conjI exI [of _ "arr @ [p]"]) simp_all
  moreover have "tx_ok ?delay (pw_now w) ?v (completes a (xs @ ys)) ?rs"
    using dir first by (cases "pd_txMachineState ?v") (auto simp: dir_inv_def tx_ok_def)
  ultimately have "dir_inv ?delay (pw_now w) ?v ?u (completes a (xs @ ys)) ?rs"
    using dir first by (simp add: dir_inv_def)
  then have "pair_inv ?w a b" using c ab dir_later [OF _ now] by (simp add: pair_inv_def)
  moreover have "dir_inv ?delay (pw_now w) ?u ?v (completes b (xs @ ys)) (recvs a (xs @ ys))"
    by (rule dir_sender [of _ _ ?v']) (use pi(2) ag ab in \<open>simp_all add: pair_inv_def\<close>)
  then have "pair_inv ?w b a" using pi(2) ab dir_later [OF _ now] by (simp add: pair_inv_def)
  moreover have "\<forall>x \<in> set (xs @ ys). t \<le> fst x \<and> ev_dev (snd x) \<in> {a, b}" using later devs by (auto intro: less_imp_le)
  ultimately have "link_inv a b ?w" using ab by (simp add: link_inv_def)
  then show ?thesis using eq by blast
qed

lemma process_ok:
  assumes "link_inv a b w" and "next_event (pw_agenda w) i"
  shows "\<exists>w'. p2p_process txTime corrupt i w = Some w' \<and> link_inv a b w'"
proof -
  obtain xs t e ys where s: "pw_agenda w = xs @ (t, e) # ys" "i = length xs" "\<forall>x \<in> set xs. t < fst x" "\<forall>x \<in> set ys. t \<le> fst x"
    using next_split [OF assms(2)] .
  have d: "ev_dev e \<in> {a, b}" using assms(1) s(1) by (auto simp: link_inv_def)
  have sym: "link_inv b a w" using assms(1) link_inv_sym by blast
  have "p2p_process txTime corrupt i w = p2p_invoke txTime corrupt e (w\<lparr>pw_now := t, pw_agenda := xs @ ys\<rparr>)"
    by (simp add: p2p_process_def s(1,2))
  moreover have "\<exists>w'. p2p_invoke txTime corrupt e (w\<lparr>pw_now := t, pw_agenda := xs @ ys\<rparr>) = Some w' \<and> link_inv a b w'"
  proof (cases e)
    case (TransmitComplete d')
    then show ?thesis using d TransmitComplete_ok [OF assms(1) _ s(3,4), of txTime] TransmitComplete_ok [OF sym _ s(3,4), of txTime] s(1)
        link_inv_sym [of a b] by (auto simp: p2p_invoke_def)
  next
    case (ReceiveAt d' p)
    then show ?thesis using d Receive_ok [OF assms(1) _ s(3,4), of p corrupt] Receive_ok [OF sym _ s(3,4), of p corrupt] s(1)
        link_inv_sym [of a b] by (auto simp: p2p_invoke_def)
  qed
  ultimately show ?thesis by simp
qed

section \<open>Histories of a link\<close>

text \<open>
  A new link with two devices, and what happens to it: applications send, time passes as long as
  no event is due, and the simulator processes the next event, with any answer of the error model.
\<close>

definition p2p_start :: "nat \<Rightarrow> nat \<Rightarrow> p2p_world" where
  "p2p_start delay gap = \<lparr>pw_now = 0, pw_dev = (\<lambda>_. PointToPointNetDevice_init\<lparr>pd_tInterframeGap := gap\<rparr>),
     pw_channel = PointToPointChannel_init delay, pw_agenda = []\<rparr>"

inductive p2p_reach :: "(nat \<Rightarrow> nat) \<Rightarrow> ptr \<Rightarrow> ptr \<Rightarrow> p2p_world \<Rightarrow> bool" for txTime :: "nat \<Rightarrow> nat" and a b :: ptr where
  start: "a \<noteq> b \<Longrightarrow> p2p_Attach a (p2p_start delay gap) = Some w1 \<Longrightarrow> p2p_Attach b w1 = Some w \<Longrightarrow> p2p_reach txTime a b w"
| tick: "p2p_reach txTime a b w \<Longrightarrow> pw_now w \<le> t \<Longrightarrow> \<forall>x \<in> set (pw_agenda w). t \<le> fst x \<Longrightarrow> p2p_reach txTime a b (w\<lparr>pw_now := t\<rparr>)"
| send: "p2p_reach txTime a b w \<Longrightarrow> d \<in> {a, b} \<Longrightarrow> EtherToPpp protocol \<noteq> None \<Longrightarrow> length packet \<le> 65535
    \<Longrightarrow> p2p_Send txTime d packet protocol w = Some (ok, w') \<Longrightarrow> p2p_reach txTime a b w'"
| event: "p2p_reach txTime a b w \<Longrightarrow> next_event (pw_agenda w) i \<Longrightarrow> p2p_process txTime corrupt i w = Some w' \<Longrightarrow> p2p_reach txTime a b w'"

lemma p2p_start_inv:
  assumes "a \<noteq> b" and "p2p_Attach a (p2p_start delay gap) = Some w1" and "p2p_Attach b w1 = Some w"
  shows "link_inv a b w"
proof -
  have "a \<noteq> nullptr" "b \<noteq> nullptr" using assms(2,3) by (auto simp: p2p_Attach_def ch_Attach_def ns_assert_def bind_eq_Some_conv split: if_splits)
  then have w: "pw_agenda w = []" "pw_now w = 0" "ch_delay (pw_channel w) = delay"
    "pw_dev w a = PointToPointNetDevice_init\<lparr>pd_tInterframeGap := gap, pd_linkUp := True\<rparr>"
    "pw_dev w b = PointToPointNetDevice_init\<lparr>pd_tInterframeGap := gap, pd_linkUp := True\<rparr>"
    "ch_nDevices (pw_channel w) = 2" "ch_link (pw_channel w) = [\<lparr>w_state = IDLE, w_src = a, w_dst = b\<rparr>, \<lparr>w_state = IDLE, w_src = b, w_dst = a\<rparr>]"
    using assms by (auto simp: p2p_Attach_def ch_Attach_def p2p_start_def PointToPointChannel_init_def dev_on_def Let_def
        numeral_2_eq_2)
  have q: "dt_packets DropTailQueue_init = []" "dt_traceEnqueue DropTailQueue_init = []"
    by (simp_all add: DropTailQueue_init_def QueueBase_init_def)
  have "dir_inv delay 0 (PointToPointNetDevice_init\<lparr>pd_tInterframeGap := gap, pd_linkUp := True\<rparr>)
      (PointToPointNetDevice_init\<lparr>pd_tInterframeGap := gap, pd_linkUp := True\<rparr>) [] []"
    using DropTailQueue_init_inv by (simp add: dir_inv_def tx_ok_def history_def PointToPointNetDevice_init_def q)
  then show ?thesis using w assms(1) by (simp add: link_inv_def pair_inv_def conn_def)
qed

lemma p2p_reach_inv: "p2p_reach txTime a b w \<Longrightarrow> link_inv a b w"
proof (induction rule: p2p_reach.induct)
  case (start delay gap w1 w)
  then show ?case by (rule p2p_start_inv)
next
  case (tick w t)
  then show ?case using dir_later by (auto simp: link_inv_def pair_inv_def)
next
  case (send w d protocol packet ok w')
  have "\<exists>ok w'. p2p_Send txTime d packet protocol w = Some (ok, w') \<and> link_inv a b w'"
    using send.hyps(2) Send_ok [OF _ send.hyps(3,4), of a b w txTime] Send_ok [OF _ send.hyps(3,4), of b a w txTime]
      send.IH link_inv_sym [of a b] by auto
  then show ?case using send.hyps(5) by auto
next
  case (event w i corrupt w')
  then show ?case using process_ok [OF event.IH event.hyps(2), of txTime corrupt] by auto
qed

text \<open>
  C18: no assertion of a device or channel fails on a link with two devices: in every state that
  can be reached, sending an IPv4 or IPv6 packet of at most 65535 bytes returns, and so does every
  event.  In particular \<^verbatim>\<open>TransmitStart\<close> always finds the transmitter ready, and
  \<^verbatim>\<open>TransmitComplete\<close> finds it busy.
\<close>

theorem p2p_never_fails:
  assumes "p2p_reach txTime a b w" and "d \<in> {a, b}"
  shows "(EtherToPpp protocol \<noteq> None \<longrightarrow> length packet \<le> 65535 \<longrightarrow> p2p_Send txTime d packet protocol w \<noteq> None)
    \<and> (next_event (pw_agenda w) i \<longrightarrow> p2p_process txTime corrupt i w \<noteq> None)"
proof -
  have inv: "link_inv a b w" "link_inv b a w" using p2p_reach_inv [OF assms(1)] link_inv_sym by blast+
  have "p2p_Send txTime d packet protocol w \<noteq> None" if "EtherToPpp protocol \<noteq> None" "length packet \<le> 65535"
    using assms(2) Send_ok [OF inv(1) that, of txTime] Send_ok [OF inv(2) that, of txTime] by auto
  moreover have "p2p_process txTime corrupt i w \<noteq> None" if "next_event (pw_agenda w) i"
    using process_ok [OF inv(1) that, of txTime corrupt] by auto
  ultimately show ?thesis by blast
qed

section \<open>A link comes to rest\<close>

lemma next_exists:
  assumes "ag \<noteq> []"
  shows "\<exists>i. next_event ag i"
proof -
  define t where "t = Min (fst ` set ag)"
  have "t \<in> fst ` set ag" unfolding t_def by (rule Min_in) (use assms in auto)
  then have ex: "\<exists>i. i < length ag \<and> fst (ag ! i) = t" by (force simp: in_set_conv_nth)
  define i where "i = (LEAST i. i < length ag \<and> fst (ag ! i) = t)"
  have i: "i < length ag" "fst (ag ! i) = t" using LeastI_ex [OF ex] by (simp_all add: i_def)
  have le: "t \<le> fst (ag ! j)" if "j < length ag" for j unfolding t_def using that by (intro Min_le) auto
  have ne: "fst (ag ! j) \<noteq> t" if "j < i" for j
    using not_less_Least [of j "\<lambda>i. i < length ag \<and> fst (ag ! i) = t"] that i(1) by (simp add: i_def)
  have "t < fst (ag ! j)" if "j < i" for j using le [of j] ne [OF that] that i(1) by linarith
  then show ?thesis using i le by (auto simp: next_event_def)
qed

definition ev_step :: "(nat \<Rightarrow> nat) \<Rightarrow> p2p_world \<Rightarrow> p2p_world \<Rightarrow> bool" where
  "ev_step txTime w w' \<longleftrightarrow> (\<exists>i corrupt. next_event (pw_agenda w) i \<and> p2p_process txTime corrupt i w = Some w')"

text \<open>The number of events that are still to come if nothing more is sent.\<close>

definition events_left :: "ptr \<Rightarrow> ptr \<Rightarrow> p2p_world \<Rightarrow> nat" where
  "events_left a b w = length (pw_agenda w)
     + 2 * (length (dt_packets (pd_queue (pw_dev w a))) + length (dt_packets (pd_queue (pw_dev w b))))"

lemma TransmitStart_counts:
  assumes "p2p_TransmitStart txTime d p w = Some (r, w')"
  shows "r \<and> length (pw_agenda w') = length (pw_agenda w) + 2 \<and> (\<forall>x. pd_queue (pw_dev w' x) = pd_queue (pw_dev w x))"
  using assms by (auto simp: p2p_TransmitStart_def ch_TransmitStart_def dev_on_def pw_schedule_def ns_assert_def Let_def split: if_splits)

lemma TransmitComplete_counts:
  assumes "p2p_TransmitComplete txTime d w = Some w'" and "dt_inv 65537 (pd_queue (pw_dev w d))"
  shows "length (pw_agenda w') = length (pw_agenda w) + (if dt_packets (pd_queue (pw_dev w d)) = [] then 0 else 2)
    \<and> dt_packets (pd_queue (pw_dev w' d)) = tl (dt_packets (pd_queue (pw_dev w d)))
    \<and> (\<forall>x. x \<noteq> d \<longrightarrow> pd_queue (pw_dev w' x) = pd_queue (pw_dev w x))
    \<and> (\<forall>x. dt_traceEnqueue (pd_queue (pw_dev w' x)) = dt_traceEnqueue (pd_queue (pw_dev w x)))"
proof -
  obtain q where q: "dt_Dequeue (pd_queue (pw_dev w d)) = Some (case dt_packets (pd_queue (pw_dev w d)) of [] \<Rightarrow> None | p # _ \<Rightarrow> Some p, q)"
    "dt_packets q = tl (dt_packets (pd_queue (pw_dev w d)))" "dt_traceEnqueue q = dt_traceEnqueue (pd_queue (pw_dev w d))"
    using dt_Dequeue_ok [OF assms(2)] by blast
  let ?w = "dev_on d (\<lambda>v. v\<lparr>pd_queue := q\<rparr>) (dev_on d (\<lambda>v. v\<lparr>pd_txMachineState := READY, pd_currentPkt := None\<rparr>) w)"
  have w: "pw_agenda ?w = pw_agenda w" "pd_queue (pw_dev ?w d) = q" "x \<noteq> d \<Longrightarrow> pd_queue (pw_dev ?w x) = pd_queue (pw_dev w x)" for x
    by (simp_all add: dev_on_def)
  show ?thesis
  proof (cases "dt_packets (pd_queue (pw_dev w d))")
    case Nil
    then have "w' = ?w" using assms(1) q(1)
      by (auto simp: p2p_TransmitComplete_def ns_assert_def dev_on_def Let_def split: if_splits)
    then show ?thesis using Nil w q(2,3) by (simp, metis)
  next
    case (Cons p r)
    then have "\<exists>b. p2p_TransmitStart txTime d p ?w = Some (b, w')" using assms(1) q(1)
      by (auto simp: p2p_TransmitComplete_def ns_assert_def dev_on_def Let_def bind_eq_Some_conv split: if_splits)
    then obtain c where "p2p_TransmitStart txTime d p ?w = Some (c, w')" by blast
    from TransmitStart_counts [OF this] show ?thesis using Cons w q(2,3) by (simp, metis)
  qed
qed

lemma process_counts:
  assumes "link_inv a b w" and "next_event (pw_agenda w) i" and "p2p_process txTime corrupt i w = Some w'"
  shows "Suc (events_left a b w') = events_left a b w
    \<and> (\<forall>x. dt_traceEnqueue (pd_queue (pw_dev w' x)) = dt_traceEnqueue (pd_queue (pw_dev w x)))"
proof -
  obtain xs t e ys where s: "pw_agenda w = xs @ (t, e) # ys" "i = length xs" using next_split [OF assms(2)] by metis
  let ?w = "w\<lparr>pw_now := t, pw_agenda := xs @ ys\<rparr>"
  have inv: "p2p_invoke txTime corrupt e ?w = Some w'" using assms(3) by (simp add: p2p_process_def s)
  have ab: "a \<noteq> b" "ev_dev e \<in> {a, b}" using assms(1) s(1) by (auto simp: link_inv_def)
  show ?thesis
  proof (cases e)
    case (TransmitComplete d)
    then have d: "d = a \<or> d = b" and q: "dt_inv 65537 (pd_queue (pw_dev ?w d))"
      using ab(2) assms(1) by (auto simp: link_inv_def pair_inv_def dir_inv_def)
    have tc: "p2p_TransmitComplete txTime d ?w = Some w'" using inv TransmitComplete by (simp add: p2p_invoke_def)
    note cnt = TransmitComplete_counts [OF tc q]
    show ?thesis using cnt d ab(1) s(1)
      by (cases "dt_packets (pd_queue (pw_dev w d))") (auto simp: events_left_def)
  next
    case (ReceiveAt d p)
    then have "pw_agenda w' = xs @ ys \<and> (\<forall>x. pd_queue (pw_dev w' x) = pd_queue (pw_dev w x))"
      using inv by (auto simp: p2p_invoke_def p2p_Receive_def dev_on_def bind_eq_Some_conv ns_assert_def split: if_splits)
    then show ?thesis using s(1) by (simp add: events_left_def)
  qed
qed

lemma steps_counts:
  assumes "link_inv a b w" and "(ev_step txTime ^^ k) w w'"
  shows "link_inv a b w' \<and> events_left a b w' + k = events_left a b w
    \<and> (\<forall>x. dt_traceEnqueue (pd_queue (pw_dev w' x)) = dt_traceEnqueue (pd_queue (pw_dev w x)))"
  using assms(2)
proof (induction k arbitrary: w')
  case 0
  then show ?case using assms(1) by simp
next
  case (Suc k)
  then obtain v where v: "(ev_step txTime ^^ k) w v" "ev_step txTime v w'" by auto
  obtain i corrupt where i: "next_event (pw_agenda v) i" "p2p_process txTime corrupt i v = Some w'" using v(2) by (auto simp: ev_step_def)
  note IH = Suc.IH [OF v(1)]
  then have "link_inv a b w'" using process_ok [OF _ i(1), of a b txTime corrupt] i(2) by auto
  then show ?case using process_counts [OF _ i, of a b] IH by auto
qed

lemma steps_exist:
  assumes "link_inv a b w" and "k \<le> events_left a b w"
  shows "\<exists>w'. (ev_step txTime ^^ k) w w'"
  using assms(2)
proof (induction k)
  case 0
  then show ?case by simp
next
  case (Suc k)
  then obtain v where v: "(ev_step txTime ^^ k) w v" by auto
  note c = steps_counts [OF assms(1) v]
  have "pw_agenda v \<noteq> []"
  proof
    assume e: "pw_agenda v = []"
    then have "dt_packets (pd_queue (pw_dev v a)) = []" "dt_packets (pd_queue (pw_dev v b)) = []"
      using c by (auto simp: link_inv_def pair_inv_def dir_inv_def tx_ok_def split: tx_state.splits)
    then show False using c e Suc.prems by (simp add: events_left_def)
  qed
  then obtain i where "next_event (pw_agenda v) i" using next_exists by blast
  then have "\<exists>w'. ev_step txTime v w'" using process_ok [of a b v i txTime False] c by (auto simp: ev_step_def)
  then show ?case using v by auto
qed

text \<open>
  C5: a link comes to rest.  When nothing more is sent, exactly \<open>events_left\<close> events follow, whatever
  the error model answers; then nothing is scheduled, both transmitters are ready, both queues are
  empty, and every frame that a queue ever accepted has arrived at the other device, in order.
\<close>

theorem p2p_link_drains:
  assumes "p2p_reach txTime a b w"
  shows "(\<exists>w'. (ev_step txTime ^^ events_left a b w) w w') \<and>
    (\<forall>w'. (ev_step txTime ^^ events_left a b w) w w' \<longrightarrow> pw_agenda w' = [] \<and>
      (\<forall>(d, d') \<in> {(a, b), (b, a)}. pd_txMachineState (pw_dev w' d) = READY \<and> dt_packets (pd_queue (pw_dev w' d)) = []
        \<and> dt_traceEnqueue (pd_queue (pw_dev w d)) \<in> shuffles (pd_phyRxEnd (pw_dev w' d')) (pd_phyRxDrop (pw_dev w' d'))))"
proof -
  have inv: "link_inv a b w" using p2p_reach_inv [OF assms] .
  have "pw_agenda w' = [] \<and> (\<forall>(d, d') \<in> {(a, b), (b, a)}. pd_txMachineState (pw_dev w' d) = READY \<and> dt_packets (pd_queue (pw_dev w' d)) = []
        \<and> dt_traceEnqueue (pd_queue (pw_dev w d)) \<in> shuffles (pd_phyRxEnd (pw_dev w' d')) (pd_phyRxDrop (pw_dev w' d')))"
    if "(ev_step txTime ^^ events_left a b w) w w'" for w'
  proof -
    note c = steps_counts [OF inv that]
    then have e: "pw_agenda w' = []" "dt_packets (pd_queue (pw_dev w' a)) = []" "dt_packets (pd_queue (pw_dev w' b)) = []"
      by (simp_all add: events_left_def)
    have rest: "pd_txMachineState (pw_dev w' d) = READY
        \<and> dt_traceEnqueue (pd_queue (pw_dev w' d)) \<in> shuffles (pd_phyRxEnd (pw_dev w' d')) (pd_phyRxDrop (pw_dev w' d'))"
      if "pair_inv w' d d'" "dt_packets (pd_queue (pw_dev w' d)) = []" for d d'
      using that e(1) by (cases "pd_txMachineState (pw_dev w' d)") (auto simp: pair_inv_def dir_inv_def tx_ok_def history_def)
    have "pair_inv w' a b" "pair_inv w' b a" using c by (simp_all add: link_inv_def)
    then show ?thesis using rest e c by simp
  qed
  then show ?thesis using steps_exist [OF inv order_refl, of txTime] by blast
qed

section \<open>What was sent\<close>

text \<open>
  The histories of a link, with the packets and protocol numbers for which \<^verbatim>\<open>Send\<close> of a device
  returned true.
\<close>

inductive p2p_history :: "(nat \<Rightarrow> nat) \<Rightarrow> ptr \<Rightarrow> ptr \<Rightarrow> (ptr \<Rightarrow> (u8 list \<times> u16) list) \<Rightarrow> p2p_world \<Rightarrow> bool"
  for txTime :: "nat \<Rightarrow> nat" and a b :: ptr where
  start: "a \<noteq> b \<Longrightarrow> p2p_Attach a (p2p_start delay gap) = Some w1 \<Longrightarrow> p2p_Attach b w1 = Some w \<Longrightarrow> p2p_history txTime a b (\<lambda>_. []) w"
| tick: "p2p_history txTime a b sent w \<Longrightarrow> pw_now w \<le> t \<Longrightarrow> \<forall>x \<in> set (pw_agenda w). t \<le> fst x
    \<Longrightarrow> p2p_history txTime a b sent (w\<lparr>pw_now := t\<rparr>)"
| send: "p2p_history txTime a b sent w \<Longrightarrow> d \<in> {a, b} \<Longrightarrow> EtherToPpp protocol \<noteq> None \<Longrightarrow> length packet \<le> 65535
    \<Longrightarrow> p2p_Send txTime d packet protocol w = Some (ok, w')
    \<Longrightarrow> p2p_history txTime a b (if ok then sent(d := sent d @ [(packet, protocol)]) else sent) w'"
| event: "p2p_history txTime a b sent w \<Longrightarrow> next_event (pw_agenda w) i \<Longrightarrow> p2p_process txTime corrupt i w = Some w'
    \<Longrightarrow> p2p_history txTime a b sent w'"

lemma history_reach: "p2p_history txTime a b sent w \<Longrightarrow> p2p_reach txTime a b w"
  by (induction rule: p2p_history.induct) (blast intro: p2p_reach.intros)+

lemma reach_history: "p2p_reach txTime a b w \<Longrightarrow> \<exists>sent. p2p_history txTime a b sent w"
  by (induction rule: p2p_reach.induct) (blast intro: p2p_history.intros)+

text \<open>The queue of the device accepts the frame exactly if \<^verbatim>\<open>Send\<close> returns true.\<close>

lemma Send_trace:
  assumes "pair_inv w d d'" and "p2p_AddHeader packet protocol = Some f" and "length packet \<le> 65535"
    and "p2p_Send txTime d packet protocol w = Some (ok, w')"
  shows "dt_traceEnqueue (pd_queue (pw_dev w' x)) =
    (if ok \<and> x = d then dt_traceEnqueue (pd_queue (pw_dev w x)) @ [f] else dt_traceEnqueue (pd_queue (pw_dev w x)))"
proof -
  let ?v = "pw_dev w d"
  have up: "pd_linkUp ?v" and q0: "dt_inv 65537 (pd_queue ?v)" using assms(1) by (simp_all add: pair_inv_def dir_inv_def)
  have "0 < length f" "length f \<le> 65537" using frame_added [OF assms(2,3)] by (auto simp: frame_ok_def)
  then obtain acc q where q: "dt_Enqueue f (pd_queue ?v) = Some (acc, q)" "dt_inv 65537 q"
    "dt_traceEnqueue q = (if acc then dt_traceEnqueue (pd_queue ?v) @ [f] else dt_traceEnqueue (pd_queue ?v))"
    using dt_Enqueue_ok [OF q0, of f] by blast
  obtain p q2 where q2: "dt_Dequeue q = Some (p, q2)" "dt_traceEnqueue q2 = dt_traceEnqueue q"
    using dt_Dequeue_ok [OF q(2)] by blast
  show ?thesis
  proof (cases "acc \<and> pd_txMachineState ?v = READY")
    case True
    let ?w = "dev_on d (\<lambda>v. v\<lparr>pd_queue := q2\<rparr>) (dev_on d (\<lambda>v. v\<lparr>pd_queue := q\<rparr>) w)"
    obtain p' where "p = Some p'" and t: "p2p_TransmitStart txTime d p' ?w = Some (ok, w')"
      using assms(4) True up assms(2) q(1) q2(1) by (cases p) (auto simp: p2p_Send_def dev_on_def Let_def)
    then show ?thesis using TransmitStart_counts [OF t] True q(3) q2(2) by (auto simp: dev_on_def)
  next
    case False
    then have "acc = ok \<and> pd_queue (pw_dev w' x) = (if x = d then q else pd_queue (pw_dev w x))"
      using assms(4) up assms(2) q(1) by (auto simp: p2p_Send_def dev_on_def Let_def split: if_splits)
    then show ?thesis using q(3) by auto
  qed
qed

lemma history_trace:
  "p2p_history txTime a b sent w \<Longrightarrow> d \<in> {a, b} \<Longrightarrow>
    map p2p_ProcessHeader (dt_traceEnqueue (pd_queue (pw_dev w d))) = map Some (sent d)"
proof (induction arbitrary: d rule: p2p_history.induct)
  case (start delay gap w1 w)
  then show ?case
    by (auto simp: p2p_Attach_def ch_Attach_def p2p_start_def PointToPointChannel_init_def dev_on_def Let_def
        PointToPointNetDevice_init_def DropTailQueue_init_def QueueBase_init_def bind_eq_Some_conv ns_assert_def split: if_splits)
next
  case (tick sent w t)
  then show ?case by simp
next
  case (send sent w e protocol packet ok w')
  obtain e' where "pair_inv w e e'" using p2p_reach_inv [OF history_reach [OF send.hyps(1)]] send.hyps(2) by (auto simp: link_inv_def)
  moreover obtain f where f: "p2p_AddHeader packet protocol = Some f" using send.hyps(3) by (auto simp: p2p_AddHeader_def)
  ultimately show ?case
    using Send_trace [of w e e' packet protocol f txTime ok w' d] send.hyps(4,5) send.IH [OF send.prems] ppp_header(1) [OF f] by auto
next
  case (event sent w i corrupt w')
  then show ?case using process_counts [OF p2p_reach_inv [OF history_reach [OF event.hyps(1)]] event.hyps(2,3)] by simp
qed

lemma shuffles_map: "zs \<in> shuffles xs ys \<Longrightarrow> map g zs \<in> shuffles (map g xs) (map g ys)"
  by (induction xs ys arbitrary: zs rule: shuffles.induct) (auto simp: Cons_in_shuffles_iff)

text \<open>
  C3: a link is first in, first out, and loses nothing silently.  At any time the packets that a
  device has sent, with their protocol numbers, are in this order: those that have arrived at the
  other device, those whose frame is under way, and those whose frame is still in the queue.  Of
  those that have arrived, the ones that were passed up are passed up as they were sent, byte by
  byte and with the same protocol number; the others were reported to the drop trace of the error
  model.  A device whose transmitter is ready has an empty queue.
\<close>

theorem p2p_link_fifo:
  assumes "p2p_history txTime a b sent w" and "(d, d') \<in> {(a, b), (b, a)}"
  shows "\<exists>arrived lost underway queued. sent d = arrived @ underway @ queued
    \<and> arrived \<in> shuffles (pd_rxCallback (pw_dev w d')) lost
    \<and> map p2p_ProcessHeader (pd_phyRxDrop (pw_dev w d')) = map Some lost
    \<and> map (p2p_ProcessHeader \<circ> snd) (recvs d' (pw_agenda w)) = map Some underway
    \<and> map p2p_ProcessHeader (dt_packets (pd_queue (pw_dev w d))) = map Some queued
    \<and> (pd_txMachineState (pw_dev w d) = READY \<longrightarrow> queued = [])"
proof -
  let ?g = "the \<circ> p2p_ProcessHeader"
  let ?rs = "map snd (recvs d' (pw_agenda w))" and ?q = "dt_packets (pd_queue (pw_dev w d))"
  have "pair_inv w d d'" using p2p_reach_inv [OF history_reach [OF assms(1)]] assms(2) by (auto simp: link_inv_def)
  then obtain arr where arr: "dt_traceEnqueue (pd_queue (pw_dev w d)) = arr @ ?rs @ ?q"
    "arr \<in> shuffles (pd_phyRxEnd (pw_dev w d')) (pd_phyRxDrop (pw_dev w d'))"
    "map p2p_ProcessHeader (pd_phyRxEnd (pw_dev w d')) = map Some (pd_rxCallback (pw_dev w d'))"
    "pd_txMachineState (pw_dev w d) = READY \<longrightarrow> ?q = []"
    by (cases "pd_txMachineState (pw_dev w d)") (auto simp: pair_inv_def dir_inv_def history_def tx_ok_def)
  have tr: "map p2p_ProcessHeader (arr @ ?rs @ ?q) = map Some (sent d)"
    using history_trace [OF assms(1), of d] assms(2) arr(1) by auto
  then have "map the (map p2p_ProcessHeader (arr @ ?rs @ ?q)) = map the (map Some (sent d))" by (rule arg_cong)
  then have sent: "sent d = map ?g arr @ map ?g ?rs @ map ?g ?q" by (simp add: comp_def)
  have "map the (map p2p_ProcessHeader (pd_phyRxEnd (pw_dev w d'))) = map the (map Some (pd_rxCallback (pw_dev w d')))"
    using arr(3) by (rule arg_cong)
  then have rx: "map ?g (pd_phyRxEnd (pw_dev w d')) = pd_rxCallback (pw_dev w d')" by (simp add: comp_def)
  have "Some ` set (sent d) = p2p_ProcessHeader ` set (arr @ ?rs @ ?q)" unfolding set_map [symmetric] tr ..
  then have dec: "p2p_ProcessHeader x = Some (?g x)" if "x \<in> set (arr @ ?rs @ ?q)" for x
    using that by (metis (no_types, lifting) comp_apply imageE image_eqI option.sel)
  have "set arr = set (pd_phyRxEnd (pw_dev w d')) \<union> set (pd_phyRxDrop (pw_dev w d'))" using set_shuffles [OF arr(2)] .
  then have "map p2p_ProcessHeader (pd_phyRxDrop (pw_dev w d')) = map Some (map ?g (pd_phyRxDrop (pw_dev w d')))"
    "map p2p_ProcessHeader ?rs = map Some (map ?g ?rs)" "map p2p_ProcessHeader ?q = map Some (map ?g ?q)"
    using dec by (simp_all add: comp_def)
  moreover have "map ?g arr \<in> shuffles (pd_rxCallback (pw_dev w d')) (map ?g (pd_phyRxDrop (pw_dev w d')))"
    using shuffles_map [OF arr(2), of ?g] unfolding rx .
  ultimately show ?thesis using sent arr(4)
    by (intro exI [of _ "map ?g arr"] exI [of _ "map ?g (pd_phyRxDrop (pw_dev w d'))"] exI [of _ "map ?g ?rs"] exI [of _ "map ?g ?q"]) simp
qed

section \<open>Witnesses\<close>

lemma sample_link:
  "\<exists>w w'. p2p_reach (\<lambda>n. n) 1 2 w \<and> p2p_Send (\<lambda>n. n) 1 [7] 0x0800 w = Some (True, w') \<and> p2p_reach (\<lambda>n. n) 1 2 w'
    \<and> dt_traceEnqueue (pd_queue (pw_dev w' 1)) = [[0, 0x21, 7]]"
proof -
  obtain w1 w where w: "p2p_Attach 1 (p2p_start 5 0) = Some w1" "p2p_Attach 2 w1 = Some w"
    by (simp add: p2p_Attach_def ch_Attach_def p2p_start_def PointToPointChannel_init_def dev_on_def)
  have reach: "p2p_reach (\<lambda>n. n) 1 2 w" by (rule p2p_reach.start [OF _ w]) simp
  have v: "pw_dev w 1 = PointToPointNetDevice_init\<lparr>pd_tInterframeGap := 0, pd_linkUp := True\<rparr>"
    using w by (auto simp: p2p_Attach_def ch_Attach_def p2p_start_def PointToPointChannel_init_def dev_on_def Let_def)
  have f: "p2p_AddHeader [7] 0x0800 = Some [0, 0x21, 7]"
    by (simp add: p2p_AddHeader_def EtherToPpp_def ppp_Serialize_def hton16_def)
  obtain ok w' where s: "p2p_Send (\<lambda>n. n) 1 [7] 0x0800 w = Some (ok, w')"
    using Send_ok [OF p2p_reach_inv [OF reach], of "0x0800" "[7]" "\<lambda>n. n"] by (auto simp: EtherToPpp_def)
  have "p2p_reach (\<lambda>n. n) 1 2 w'" by (rule p2p_reach.send [OF reach _ _ _ s]) (simp_all add: EtherToPpp_def)
  moreover have "ok \<and> dt_traceEnqueue (pd_queue (pw_dev w' 1)) = [[0, 0x21, 7]]"
    using s v f TransmitStart_counts [of "\<lambda>n. n" 1 "[0, 0x21, 7]"] by (auto simp: p2p_Send_def dt_Enqueue_eq dt_accept_def dt_Dequeue_def dt_DoDequeue_def dt_take_def dev_on_def
        DropTailQueue_init_def QueueBase_init_def PointToPointNetDevice_init_def dt_GetCurrentSize_def qs_add_def qs_new_def Let_def
        split: if_splits)
  ultimately show ?thesis using reach s by (intro exI [of _ w] exI [of _ w']) simp
qed

theorem p2p_never_fails_witness: "\<exists>w. p2p_reach (\<lambda>n. n) 1 2 w \<and> p2p_Send (\<lambda>n. n) 2 [1, 2] 0x86DD w \<noteq> None"
proof -
  obtain w where w: "p2p_reach (\<lambda>n. n) 1 2 w" using sample_link by blast
  then show ?thesis using p2p_never_fails [OF w, of 2 "0x86DD" "[1, 2]"] by (auto simp: EtherToPpp_def)
qed

theorem p2p_link_fifo_witness:
  "\<exists>sent w arrived underway queued. p2p_history (\<lambda>n. n) 1 2 sent w \<and> sent 1 = [([7], 0x0800)]
    \<and> [([7], 0x0800)] = arrived @ underway @ queued
    \<and> map p2p_ProcessHeader (dt_packets (pd_queue (pw_dev w 1))) = map Some queued"
proof -
  obtain w w' where w: "p2p_reach (\<lambda>n. n) 1 2 w" "p2p_Send (\<lambda>n. n) 1 [7] 0x0800 w = Some (True, w')"
    "dt_traceEnqueue (pd_queue (pw_dev w' 1)) = [[0, 0x21, 7]]"
    using sample_link by blast
  obtain sent where h: "p2p_history (\<lambda>n. n) 1 2 sent w" using reach_history [OF w(1)] by blast
  have h': "p2p_history (\<lambda>n. n) 1 2 (if True then sent(1 := sent 1 @ [([7], 0x0800)]) else sent) w'"
    by (rule p2p_history.send [OF h _ _ _ w(2)]) (simp_all add: EtherToPpp_def)
  have "length (sent 1 @ [([7 :: u8], 0x0800 :: u16)]) = 1"
    using arg_cong [OF history_trace [OF h', of 1], of length] w(3) by simp
  then have s: "(sent(1 := sent 1 @ [([7], 0x0800)])) 1 = [([7], 0x0800)]" by simp
  then show ?thesis using p2p_link_fifo [OF h', of 1 2] h'
    by (intro exI [of _ "sent(1 := sent 1 @ [([7], 0x0800)])"] exI [of _ w']) auto
qed

theorem p2p_link_drains_witness:
  "\<exists>w w' k. p2p_reach (\<lambda>n. n) 1 2 w \<and> (ev_step (\<lambda>n. n) ^^ k) w w'
    \<and> [[0, 0x21, 7]] \<in> shuffles (pd_phyRxEnd (pw_dev w' 2)) (pd_phyRxDrop (pw_dev w' 2))"
proof -
  obtain w where w: "p2p_reach (\<lambda>n. n) 1 2 w" "dt_traceEnqueue (pd_queue (pw_dev w 1)) = [[0, 0x21, 7]]" using sample_link by blast
  note d = p2p_link_drains [OF w(1)]
  then obtain w' where w': "(ev_step (\<lambda>n. n) ^^ events_left 1 2 w) w w'" by blast
  then have "[[0, 0x21, 7]] \<in> shuffles (pd_phyRxEnd (pw_dev w' 2)) (pd_phyRxDrop (pw_dev w' 2))" using d w(2) by auto
  then show ?thesis using w(1) w' by blast
qed

end
