(* ===== verification/Tcp_Header.thy ===== *)
theory Tcp_Header
  imports Udp_Header
begin

text \<open>
  The TCP header and its options: \<^verbatim>\<open>ns3::TcpHeader\<close> and the subclasses of
  \<^verbatim>\<open>ns3::TcpOption\<close> (src/internet/model/tcp-header.h, .cc, tcp-option*.cc).  The loop that
  reads the options is a partial function; \<open>None\<close> as its value means that it does not end,
  \<open>Some None\<close> that an assertion fails.
\<close>

section \<open>Options\<close>

datatype tcp_option = OptEnd | OptNOP | OptMSS u16 | OptWinScale u8 | OptSackPermitted | OptSack "(u32 \<times> u32) list"
  | OptTS u32 u32 | OptUnknown (unk_kind: u8) (unk_size: nat) (unk_content: "u8 list")

definition opt_IsKindKnown :: "u8 \<Rightarrow> bool" where
  "opt_IsKindKnown k \<longleftrightarrow> k \<in> {0, 1, 2, 3, 4, 5, 8}"

definition opt_CreateOption :: "u8 \<Rightarrow> tcp_option" where
  "opt_CreateOption k = (if k = 0 then OptEnd else if k = 2 then OptMSS 1460 else if k = 1 then OptNOP else if k = 8 then OptTS 0 0
     else if k = 3 then OptWinScale 0 else if k = 4 then OptSackPermitted else if k = 5 then OptSack [] else OptUnknown 0xFF 0 [])"

fun opt_GetKind :: "tcp_option \<Rightarrow> u8" where
  "opt_GetKind OptEnd = 0"
| "opt_GetKind OptNOP = 1"
| "opt_GetKind (OptMSS _) = 2"
| "opt_GetKind (OptWinScale _) = 3"
| "opt_GetKind OptSackPermitted = 4"
| "opt_GetKind (OptSack _) = 5"
| "opt_GetKind (OptTS _ _) = 8"
| "opt_GetKind (OptUnknown k _ _) = k"

fun opt_GetSerializedSize :: "tcp_option \<Rightarrow> nat" where
  "opt_GetSerializedSize OptEnd = 1"
| "opt_GetSerializedSize OptNOP = 1"
| "opt_GetSerializedSize (OptMSS _) = 4"
| "opt_GetSerializedSize (OptWinScale _) = 3"
| "opt_GetSerializedSize OptSackPermitted = 2"
| "opt_GetSerializedSize (OptSack bl) = 2 + length bl * 8"
| "opt_GetSerializedSize (OptTS _ _) = 10"
| "opt_GetSerializedSize (OptUnknown _ n _) = n"

text \<open>\<^verbatim>\<open>Write (m_content, m_size - 2)\<close> wraps around for a size of 1.\<close>

fun opt_Serialize :: "tcp_option \<Rightarrow> u8 list option" where
  "opt_Serialize OptEnd = Some [0]"
| "opt_Serialize OptNOP = Some [1]"
| "opt_Serialize (OptMSS mss) = Some ([2, 4] @ hton16 mss)"
| "opt_Serialize (OptWinScale scale) = Some [3, 3, scale]"
| "opt_Serialize OptSackPermitted = Some [4, 2]"
| "opt_Serialize (OptSack bl) = Some ([5, of_nat (length bl * 8 + 2)] @ concat (map (\<lambda>(l, r). hton32 l @ hton32 r) bl))"
| "opt_Serialize (OptTS ts ec) = Some ([8, 10] @ hton32 ts @ hton32 ec)"
| "opt_Serialize (OptUnknown k n content) =
     (if n = 0 then Some []
      else do { ns_assert (2 \<le> n \<and> n - 2 \<le> length content); Some ([k, of_nat n] @ take (n - 2) content) })"

primrec rd_blocks :: "nat \<Rightarrow> (u32 \<times> u32) list reader" where
  "rd_blocks 0 bs = Some ([], bs)"
| "rd_blocks (Suc n) bs = do {
     (l, a) \<leftarrow> rdNtohU32 bs;
     (r, a) \<leftarrow> rdNtohU32 a;
     (bl, a) \<leftarrow> rd_blocks n a;
     Some ((l, r) # bl, a)
   }"

text \<open>Reading into an option object; a result of 0 means that the bytes are not such an option.\<close>

fun opt_Deserialize :: "tcp_option \<Rightarrow> tcp_option deserializer" where
  "opt_Deserialize OptEnd bs = do { (k, _) \<leftarrow> rdU8 bs; Some (OptEnd, if k \<noteq> 0 then 0 else 1) }"
| "opt_Deserialize OptNOP bs = do { (k, _) \<leftarrow> rdU8 bs; Some (OptNOP, if k \<noteq> 1 then 0 else 1) }"
| "opt_Deserialize (OptMSS m) bs = do {
     (k, a) \<leftarrow> rdU8 bs;
     if k \<noteq> 2 then Some (OptMSS m, 0)
     else do {
       (n, a) \<leftarrow> rdU8 a;
       ns_assert (n = 4);
       (mss, a) \<leftarrow> rdNtohU16 a;
       Some (OptMSS mss, 4)
     }
   }"
| "opt_Deserialize (OptWinScale s) bs = do {
     (k, a) \<leftarrow> rdU8 bs;
     if k \<noteq> 3 then Some (OptWinScale s, 0)
     else do {
       (n, a) \<leftarrow> rdU8 a;
       if n \<noteq> 3 then Some (OptWinScale s, 0)
       else do { (scale, a) \<leftarrow> rdU8 a; Some (OptWinScale scale, 3) }
     }
   }"
| "opt_Deserialize OptSackPermitted bs = do {
     (k, a) \<leftarrow> rdU8 bs;
     if k \<noteq> 4 then Some (OptSackPermitted, 0)
     else do { (n, a) \<leftarrow> rdU8 a; Some (OptSackPermitted, if n \<noteq> 2 then 0 else 2) }
   }"
| "opt_Deserialize (OptSack b) bs = do {
     (k, a) \<leftarrow> rdU8 bs;
     if k \<noteq> 5 then Some (OptSack b, 0)
     else do {
       (n, a) \<leftarrow> rdU8 a;
       (bl, a) \<leftarrow> rd_blocks ((unat n - 2) div 8) a;
       Some (OptSack bl, opt_GetSerializedSize (OptSack bl))
     }
   }"
| "opt_Deserialize (OptTS t e) bs = do {
     (k, a) \<leftarrow> rdU8 bs;
     if k \<noteq> 8 then Some (OptTS t e, 0)
     else do {
       (n, a) \<leftarrow> rdU8 a;
       if n \<noteq> 10 then Some (OptTS t e, 0)
       else do { (ts, a) \<leftarrow> rdNtohU32 a; (ec, a) \<leftarrow> rdNtohU32 a; Some (OptTS ts ec, 10) }
     }
   }"
| "opt_Deserialize (OptUnknown k0 n0 c0) bs = do {
     (k, a) \<leftarrow> rdU8 bs;
     (n, a) \<leftarrow> rdU8 a;
     if n < 2 \<or> n > 40 then Some (OptUnknown k (unat n) c0, 0)
     else do { (content, a) \<leftarrow> rd_n (unat n - 2) a; Some (OptUnknown k (unat n) content, unat n) }
   }"

section \<open>The header\<close>

record tcp_header =
  tcp_sourcePort :: u16
  tcp_destinationPort :: u16
  tcp_sequenceNumber :: u32
  tcp_ackNumber :: u32
  tcp_length :: u8
  tcp_flags :: u8
  tcp_windowSize :: u16
  tcp_urgentPointer :: u16
  tcp_source :: net_address
  tcp_destination :: net_address
  tcp_protocol :: u8
  tcp_calcChecksum :: bool
  tcp_goodChecksum :: bool
  tcp_options :: "tcp_option list"
  tcp_optionsLen :: u8

definition TcpHeader_init :: tcp_header where
  "TcpHeader_init = \<lparr>tcp_sourcePort = 0, tcp_destinationPort = 0, tcp_sequenceNumber = 0, tcp_ackNumber = 0, tcp_length = 5,
     tcp_flags = 0, tcp_windowSize = 0xffff, tcp_urgentPointer = 0, tcp_source = OtherAddress [], tcp_destination = OtherAddress [],
     tcp_protocol = 6, tcp_calcChecksum = False, tcp_goodChecksum = True, tcp_options = [], tcp_optionsLen = 0\<rparr>"

definition tcp_EnableChecksums :: "tcp_header \<Rightarrow> tcp_header" where
  "tcp_EnableChecksums h = h\<lparr>tcp_calcChecksum := True\<rparr>"

definition tcp_InitializeChecksum :: "net_address \<Rightarrow> net_address \<Rightarrow> u8 \<Rightarrow> tcp_header \<Rightarrow> tcp_header" where
  "tcp_InitializeChecksum source destination protocol h =
     h\<lparr>tcp_source := source, tcp_destination := destination, tcp_protocol := protocol\<rparr>"

text \<open>Reading bytes of the scratch buffer that were not written is \<open>None\<close>.\<close>

definition tcp_CalculateHeaderChecksum :: "u16 \<Rightarrow> tcp_header \<Rightarrow> u16 option" where
  "tcp_CalculateHeaderChecksum sz h = do {
     let addrs = address_bytes (tcp_source h) @ address_bytes (tcp_destination h);
     let (bytes, hdrSize) = (case tcp_source h of
         Ipv4 _ \<Rightarrow> (addrs @ [0, tcp_protocol h, ucast (drop_bit 8 sz), ucast sz], 12)
       | _ \<Rightarrow> (addrs @ lsb16 0 @ [ucast (drop_bit 8 sz), ucast sz] @ lsb16 0 @ [0, tcp_protocol h], 40));
     ns_assert (hdrSize \<le> length bytes);
     Some (NOT (ip_checksum (take hdrSize bytes) 0))
   }"

definition opts_size :: "tcp_option list \<Rightarrow> nat" where
  "opts_size os = sum_list (map opt_GetSerializedSize os)"

definition tcp_CalculateHeaderLength :: "tcp_header \<Rightarrow> u8" where
  "tcp_CalculateHeaderLength h =
     (let len = 20 + opts_size (tcp_options h);
          len = (if len mod 4 \<noteq> 0 then len + (4 - len mod 4) else len)
      in of_nat (len div 4))"

definition tcp_GetSerializedSize :: "tcp_header \<Rightarrow> nat" where
  "tcp_GetSerializedSize h = unat (tcp_CalculateHeaderLength h) * 4"

definition tcp_AppendOption :: "tcp_option \<Rightarrow> tcp_header \<Rightarrow> bool \<times> tcp_header" where
  "tcp_AppendOption op h =
     (if unat (tcp_optionsLen h) + opt_GetSerializedSize op \<le> 40
      then if \<not> opt_IsKindKnown (opt_GetKind op) then (False, h)
        else if opt_GetKind op \<noteq> 0
        then let n = tcp_optionsLen h + of_nat (opt_GetSerializedSize op)
          in (True, h\<lparr>tcp_options := tcp_options h @ [op], tcp_optionsLen := n, tcp_length := of_nat ((20 + 3 + unat n) div 4)\<rparr>)
        else (True, h)
      else (False, h))"

definition tcp_GetOption :: "u8 \<Rightarrow> tcp_header \<Rightarrow> tcp_option option" where
  "tcp_GetOption k h = find (\<lambda>op. opt_GetKind op = k) (tcp_options h)"

primrec opts_Serialize :: "tcp_option list \<Rightarrow> u8 list option" where
  "opts_Serialize [] = Some []"
| "opts_Serialize (op # r) = do { x \<leftarrow> opt_Serialize op; y \<leftarrow> opts_Serialize r; Some (x @ y) }"

text \<open>The fixed fields before and after the checksum.\<close>

definition tcp_front :: "tcp_header \<Rightarrow> u8 list" where
  "tcp_front h = hton16 (tcp_sourcePort h) @ hton16 (tcp_destinationPort h) @ hton32 (tcp_sequenceNumber h) @ hton32 (tcp_ackNumber h)
     @ hton16 (push_bit 12 (ucast (tcp_length h)) OR ucast (tcp_flags h)) @ hton16 (tcp_windowSize h)"

text \<open>
  The bytes that are written in front of the payload \<open>pl\<close>.  The checksum is computed over the
  whole packet, of which only the low 16 bits of the size are used.
\<close>

definition tcp_Serialize :: "tcp_header \<Rightarrow> u8 list \<Rightarrow> u8 list option" where
  "tcp_Serialize h pl = do {
     os \<leftarrow> opts_Serialize (tcp_options h);
     let os = os @ replicate ((4 - length os mod 4) mod 4) 0;
     let after = hton16 (tcp_urgentPointer h) @ os;
     if tcp_calcChecksum h
     then do {
       let total = length (tcp_front h) + 2 + length after + length pl;
       headerChecksum \<leftarrow> tcp_CalculateHeaderChecksum (of_nat total) h;
       let checksum = ip_checksum (take (total mod 65536) (tcp_front h @ [0, 0] @ after @ pl)) (ucast headerChecksum);
       Some (tcp_front h @ lsb16 checksum @ after)
     }
     else Some (tcp_front h @ [0, 0] @ after)
   }"

text \<open>
  The loop over the options.  Its state: the bytes from the iterator on, the length of the option
  space that is left, the options read and the count of their bytes.  A step breaks the loop
  (\<open>Inl\<close>), goes on (\<open>Inr\<close>), or fails an assertion (\<open>None\<close>).
\<close>

record opt_state =
  os_bytes :: "u8 list"
  os_optionLen :: nat
  os_options :: "tcp_option list"
  os_optionsLen :: u8

definition opt_step :: "opt_state \<Rightarrow> (opt_state + opt_state) option" where
  "opt_step s = do {
     (kind, _) \<leftarrow> rdU8 (os_bytes s);
     let op = opt_CreateOption (if opt_IsKindKnown kind then kind else 0xFF);
     (op, optionSize) \<leftarrow> opt_Deserialize op (os_bytes s);
     if optionSize \<noteq> opt_GetSerializedSize op then Some (Inl s)
     else if os_optionLen s \<ge> optionSize
     then do {
       (_, i) \<leftarrow> rd_n optionSize (os_bytes s);
       let s = \<lparr>os_bytes = i, os_optionLen = os_optionLen s - optionSize, os_options = os_options s @ [op],
         os_optionsLen = os_optionsLen s + of_nat optionSize\<rparr>;
       if opt_GetKind op = 0
       then do {
         (_, i) \<leftarrow> rd_n (os_optionLen s) (os_bytes s);
         Some (Inr (s\<lparr>os_bytes := i, os_optionLen := 0, os_optionsLen := os_optionsLen s + of_nat (os_optionLen s)\<rparr>))
       }
       else Some (Inr s)
     }
     else Some (Inl s)
   }"

partial_function (option) opt_loop :: "opt_state \<Rightarrow> opt_state option option" where
  "opt_loop s = (if os_optionLen s = 0 then Some (Some s)
     else case opt_step s of
       None \<Rightarrow> Some None
     | Some (Inl s) \<Rightarrow> Some (Some s)
     | Some (Inr s) \<Rightarrow> opt_loop s)"

text \<open>The fixed part, and the whole of \<^verbatim>\<open>Deserialize\<close> into the header object \<open>r\<close>.\<close>

definition tcp_fixed :: "tcp_header \<Rightarrow> tcp_header reader" where
  "tcp_fixed r bs = do {
     (sp, a) \<leftarrow> rdNtohU16 bs;
     (dp, a) \<leftarrow> rdNtohU16 a;
     (sn, a) \<leftarrow> rdNtohU32 a;
     (an, a) \<leftarrow> rdNtohU32 a;
     (field, a) \<leftarrow> rdNtohU16 a;
     (win, a) \<leftarrow> rdNtohU16 a;
     (_, a) \<leftarrow> rd_n 2 a;
     (urg, a) \<leftarrow> rdNtohU16 a;
     Some (r\<lparr>tcp_optionsLen := 0, tcp_sourcePort := sp, tcp_destinationPort := dp, tcp_sequenceNumber := sn, tcp_ackNumber := an,
       tcp_flags := ucast (field AND 0xFF), tcp_length := ucast (drop_bit 12 field), tcp_windowSize := win, tcp_urgentPointer := urg,
       tcp_options := []\<rparr>, a)
   }"

definition tcp_check :: "u8 list \<Rightarrow> tcp_header \<Rightarrow> tcp_header option" where
  "tcp_check bs h =
     (if tcp_calcChecksum h
      then do {
        headerChecksum \<leftarrow> tcp_CalculateHeaderChecksum (of_nat (length bs)) h;
        Some (h\<lparr>tcp_goodChecksum := ip_checksum (take (length bs mod 65536) bs) (ucast headerChecksum) = 0\<rparr>)
      }
      else Some h)"

definition tcp_Deserialize :: "tcp_header \<Rightarrow> u8 list \<Rightarrow> (tcp_header \<times> nat) option option" where
  "tcp_Deserialize r bs = (case tcp_fixed r bs of
       None \<Rightarrow> Some None
     | Some (h, a) \<Rightarrow>
         let optionLen = (ucast (tcp_length h) - 5) * 4 :: u32
         in if optionLen > 40 then Some (Some (h, 20))
            else case opt_loop \<lparr>os_bytes = a, os_optionLen = unat optionLen, os_options = [], os_optionsLen = 0\<rparr> of
              None \<Rightarrow> None
            | Some None \<Rightarrow> Some None
            | Some (Some s) \<Rightarrow> Some (do {
                h \<leftarrow> tcp_check bs (h\<lparr>tcp_options := os_options s, tcp_optionsLen := os_optionsLen s\<rparr>);
                Some (h, tcp_GetSerializedSize h)
              }))"

end
