(* ===== verification/Tcp_Header_Laws.thy ===== *)
theory Tcp_Header_Laws
  imports Tcp_Header
begin

text \<open>
  What \<^verbatim>\<open>ns3::TcpHeader\<close> promises: a header that was built with its interface reads back as
  it was sent, with its options and a good checksum; and exactly when reading options does not end.
\<close>

section \<open>Options read back\<close>

text \<open>The options that can be appended to a header.\<close>

definition opt_ok :: "tcp_option \<Rightarrow> bool" where
  "opt_ok op \<longleftrightarrow> opt_IsKindKnown (opt_GetKind op) \<and> opt_GetKind op \<noteq> 0 \<and> opt_GetSerializedSize op \<le> 40
     \<and> (case op of OptUnknown _ _ _ \<Rightarrow> False | _ \<Rightarrow> True)"

lemma rd_blocks_written: "rd_blocks (length bl) (concat (map (\<lambda>(l, r). hton32 l @ hton32 r) bl) @ rest) = Some (bl, rest)"
  by (induction bl) (auto simp: append_assoc)

lemma blocks_length: "length (concat (map (\<lambda>(l, r). hton32 l @ hton32 r) bl)) = length bl * 8"
  by (induction bl) (auto simp: case_prod_beta)

lemma opt_read_back:
  assumes "opt_ok op"
  shows "\<exists>k x. opt_Serialize op = Some (k # x) \<and> length (k # x) = opt_GetSerializedSize op \<and> k = opt_GetKind op
    \<and> opt_Deserialize (opt_CreateOption k) (k # x @ rest) = Some (op, opt_GetSerializedSize op)"
proof (cases op)
  case (OptSack bl)
  then have n: "length bl * 8 + 2 \<le> 40" using assms by (simp add: opt_ok_def)
  then have "unat (of_nat (length bl * 8 + 2) :: u8) = length bl * 8 + 2" by (simp only: unat_of_nat) simp
  then have "(unat (of_nat (length bl * 8 + 2) :: u8) - 2) div 8 = length bl" by simp
  then show ?thesis using OptSack by (simp add: opt_CreateOption_def rd_blocks_written blocks_length del: of_nat_add of_nat_mult of_nat_numeral)
qed (use assms in \<open>simp_all add: opt_ok_def opt_CreateOption_def\<close>)

lemma opt_size_pos: "opt_ok op \<Longrightarrow> 0 < opt_GetSerializedSize op"
  by (cases op) (simp_all add: opt_ok_def)

lemma opt_step_read:
  assumes "opt_ok op" and "opt_Serialize op = Some x" and "os_bytes s = x @ rest" and "opt_GetSerializedSize op \<le> os_optionLen s"
  shows "opt_step s = Some (Inr \<lparr>os_bytes = rest, os_optionLen = os_optionLen s - opt_GetSerializedSize op, os_options = os_options s @ [op],
    os_optionsLen = os_optionsLen s + of_nat (opt_GetSerializedSize op)\<rparr>)"
proof -
  obtain k y where y: "x = k # y" "length (k # y) = opt_GetSerializedSize op" "k = opt_GetKind op"
    "opt_Deserialize (opt_CreateOption k) (k # y @ rest) = Some (op, opt_GetSerializedSize op)"
    using opt_read_back [OF assms(1), of rest] assms(2) by auto
  have k: "opt_IsKindKnown k" "k \<noteq> 0" "opt_GetKind op \<noteq> 0" using assms(1) y(3) by (simp_all add: opt_ok_def)
  have rd: "rd_n (opt_GetSerializedSize op) (k # y @ rest) = Some (k # y, rest)" using y(2) by (simp add: rd_n_def flip: append_Cons)
  show ?thesis using assms(3,4) y(1,4) k rd by (simp add: opt_step_def Let_def)
qed

lemma opt_step_end:
  assumes "os_bytes s = replicate (os_optionLen s) 0 @ rest" and "os_optionLen s \<noteq> 0"
  shows "opt_step s = Some (Inr \<lparr>os_bytes = rest, os_optionLen = 0, os_options = os_options s @ [OptEnd],
    os_optionsLen = os_optionsLen s + of_nat (os_optionLen s)\<rparr>)"
proof -
  obtain n where n: "os_optionLen s = Suc n" using assms(2) not0_implies_Suc by blast
  then show ?thesis using assms(1)
    by (simp add: opt_step_def opt_CreateOption_def opt_IsKindKnown_def rd_n_def Let_def add.assoc)
qed

text \<open>What the loop does with the options of a header and the padding that follows them.\<close>

definition padded :: "nat \<Rightarrow> tcp_option list" where
  "padded k = (if k = 0 then [] else [OptEnd])"

lemma opt_loop_read:
  assumes "\<forall>op \<in> set ops. opt_ok op" and "opts_Serialize ops = Some x"
  shows "opt_loop \<lparr>os_bytes = x @ replicate k 0 @ rest, os_optionLen = opts_size ops + k, os_options = acc, os_optionsLen = n\<rparr>
    = Some (Some \<lparr>os_bytes = rest, os_optionLen = 0, os_options = acc @ ops @ padded k, os_optionsLen = n + of_nat (opts_size ops + k)\<rparr>)"
  using assms
proof (induction ops arbitrary: x acc n)
  case Nil
  let ?s = "\<lparr>os_bytes = replicate k 0 @ rest, os_optionLen = k, os_options = acc, os_optionsLen = n\<rparr>"
  show ?case
  proof (cases "k = 0")
    case True
    then show ?thesis using Nil by (subst opt_loop.simps) (simp add: opts_size_def padded_def)
  next
    case False
    then have "opt_step ?s = Some (Inr \<lparr>os_bytes = rest, os_optionLen = 0, os_options = acc @ [OptEnd], os_optionsLen = n + of_nat k\<rparr>)"
      using opt_step_end [of ?s rest] by simp
    then show ?thesis using Nil False by (subst opt_loop.simps) (simp add: opts_size_def padded_def opt_loop.simps)
  qed
next
  case (Cons op ops)
  obtain y z where yz: "opt_Serialize op = Some y" "opts_Serialize ops = Some z" "x = y @ z"
    using Cons.prems(2) by (auto simp: bind_eq_Some_conv)
  have ok: "opt_ok op" "\<forall>op \<in> set ops. opt_ok op" using Cons.prems(1) by auto
  let ?s = "\<lparr>os_bytes = x @ replicate k 0 @ rest, os_optionLen = opts_size (op # ops) + k, os_options = acc, os_optionsLen = n\<rparr>"
  let ?m = "opt_GetSerializedSize op"
  have sz: "opts_size (op # ops) + k - ?m = opts_size ops + k" "opts_size (op # ops) + k \<noteq> 0" "?m \<le> opts_size (op # ops) + k"
    using opt_size_pos [OF ok(1)] by (simp_all add: opts_size_def)
  have "opt_step ?s = Some (Inr \<lparr>os_bytes = z @ replicate k 0 @ rest, os_optionLen = opts_size ops + k, os_options = acc @ [op],
      os_optionsLen = n + of_nat ?m\<rparr>)"
    using opt_step_read [OF ok(1) yz(1), of ?s "z @ replicate k 0 @ rest"] yz(3) sz by simp
  then have "opt_loop ?s = opt_loop \<lparr>os_bytes = z @ replicate k 0 @ rest, os_optionLen = opts_size ops + k, os_options = acc @ [op],
      os_optionsLen = n + of_nat ?m\<rparr>"
    using sz(2) by (subst opt_loop.simps) auto
  also have "\<dots> = Some (Some \<lparr>os_bytes = rest, os_optionLen = 0, os_options = acc @ op # ops @ padded k,
      os_optionsLen = n + of_nat ?m + of_nat (opts_size ops + k)\<rparr>)"
    using Cons.IH [OF ok(2) yz(2)] by simp
  also have "n + of_nat ?m + of_nat (opts_size ops + k) = n + of_nat (opts_size (op # ops) + k)" by (simp add: opts_size_def)
  finally show ?case by simp
qed

lemma opts_Serialize_ok:
  assumes "\<forall>op \<in> set ops. opt_ok op"
  shows "\<exists>x. opts_Serialize ops = Some x \<and> length x = opts_size ops"
  using assms
proof (induction ops)
  case (Cons op ops)
  then show ?case using opt_read_back [of op "[]"] by (auto simp: opts_size_def)
qed (simp add: opts_size_def)

section \<open>Headers that were built with the interface\<close>

definition tcp_inv :: "tcp_header \<Rightarrow> bool" where
  "tcp_inv h \<longleftrightarrow> (\<forall>op \<in> set (tcp_options h). opt_ok op) \<and> unat (tcp_optionsLen h) = opts_size (tcp_options h)
     \<and> opts_size (tcp_options h) \<le> 40 \<and> tcp_length h = of_nat ((23 + opts_size (tcp_options h)) div 4)"

lemma TcpHeader_init_inv: "tcp_inv TcpHeader_init"
  by (simp add: tcp_inv_def TcpHeader_init_def opts_size_def)

lemma header_length: "tcp_CalculateHeaderLength h = of_nat ((23 + opts_size (tcp_options h)) div 4)"
proof -
  have "(if n mod 4 \<noteq> 0 then n + (4 - n mod 4) else n) div 4 = (n + 3) div 4" for n :: nat
  proof -
    obtain q r where n: "n = q * 4 + r" "r < 4" using mod_div_decomp [of n 4] by (metis mod_less_divisor zero_less_numeral)
    then have "r = 0 \<or> r = 1 \<or> r = 2 \<or> r = 3" by auto
    then show ?thesis using n(1) by auto
  qed
  note eq = this [of "20 + opts_size (tcp_options h)"]
  show ?thesis unfolding tcp_CalculateHeaderLength_def Let_def eq by (simp add: add.commute)
qed

lemma AppendOption_inv:
  assumes "tcp_inv h" and "case op of OptUnknown _ _ _ \<Rightarrow> False | _ \<Rightarrow> True"
  shows "tcp_inv (snd (tcp_AppendOption op h))"
proof (cases "unat (tcp_optionsLen h) + opt_GetSerializedSize op \<le> 40 \<and> opt_IsKindKnown (opt_GetKind op) \<and> opt_GetKind op \<noteq> 0")
  case True
  then have "unat (of_nat (opt_GetSerializedSize op) :: u8) = opt_GetSerializedSize op" by (simp add: unat_of_nat)
  then have "unat (tcp_optionsLen h + of_nat (opt_GetSerializedSize op)) = unat (tcp_optionsLen h) + opt_GetSerializedSize op"
    using True by (subst unat_plus_no_wrap) simp_all
  then show ?thesis using assms True by (simp add: tcp_AppendOption_def tcp_inv_def opt_ok_def opts_size_def Let_def)
next
  case False
  then have "snd (tcp_AppendOption op h) = h" by (auto simp: tcp_AppendOption_def)
  then show ?thesis using assms(1) by simp
qed

section \<open>What the receiver gets\<close>

definition tcp_fit :: "tcp_header \<Rightarrow> tcp_header \<Rightarrow> u8 list \<Rightarrow> bool" where
  "tcp_fit h r pl \<longleftrightarrow> tcp_inv h \<and> 60 + length pl < 65536
     \<and> (tcp_calcChecksum h \<longrightarrow> (\<forall>sz. tcp_CalculateHeaderChecksum sz h \<noteq> None))
     \<and> (tcp_calcChecksum r \<longrightarrow> tcp_calcChecksum h \<and> tcp_source r = tcp_source h \<and> tcp_destination r = tcp_destination h
        \<and> tcp_protocol r = tcp_protocol h)"

definition tcp_result :: "tcp_header \<Rightarrow> tcp_header \<Rightarrow> u8 list \<Rightarrow> tcp_header" where
  "tcp_result h r pl = (let k = (4 - opts_size (tcp_options h) mod 4) mod 4 in
     r\<lparr>tcp_sourcePort := tcp_sourcePort h, tcp_destinationPort := tcp_destinationPort h, tcp_sequenceNumber := tcp_sequenceNumber h,
       tcp_ackNumber := tcp_ackNumber h, tcp_length := tcp_length h, tcp_flags := tcp_flags h, tcp_windowSize := tcp_windowSize h,
       tcp_urgentPointer := tcp_urgentPointer h, tcp_goodChecksum := (tcp_calcChecksum r \<or> tcp_goodChecksum r),
       tcp_options := tcp_options h @ padded k, tcp_optionsLen := of_nat (opts_size (tcp_options h) + k)\<rparr>)"

lemma tcp_header_checksum_cong:
  assumes "tcp_source r = tcp_source h" and "tcp_destination r = tcp_destination h" and "tcp_protocol r = tcp_protocol h"
  shows "tcp_CalculateHeaderChecksum sz r = tcp_CalculateHeaderChecksum sz h"
  using assms by (simp only: tcp_CalculateHeaderChecksum_def)

lemma length_field:
  assumes "unat l < 16"
  shows "ucast ((push_bit 12 (ucast l) OR ucast f :: u16) AND 0xFF) = (f :: u8)"
    and "ucast (drop_bit 12 (push_bit 12 (ucast l) OR ucast f :: u16)) = (l :: u8)"
proof -
  have m: "(0xFF :: u16) = mask 8" by (simp add: mask_eq_exp_minus_1)
  show "ucast ((push_bit 12 (ucast l) OR ucast f :: u16) AND 0xFF) = f"
    unfolding m by (rule bit_word_eqI) (auto simp: bit_simps)
  have "l = take_bit 4 l" using assms by (simp add: word_unat_eq_iff unsigned_take_bit_eq take_bit_nat_eq_self)
  then have hi: "bit l n \<Longrightarrow> n < 4" for n by (metis bit_take_bit_iff)
  have lo: "\<not> bit f (12 + n)" for n using bit_imp_le_length [of f "12 + n"] by auto
  show "ucast (drop_bit 12 (push_bit 12 (ucast l) OR ucast f :: u16)) = l"
    by (rule bit_word_eqI) (use hi lo in \<open>auto simp: bit_simps\<close>)
qed

lemma padding: "(n + (4 - n mod 4) mod 4) mod 4 = (0::nat)" "(n + (4 - n mod 4) mod 4) div 4 = (n + 3) div 4" "(4 - n mod 4) mod 4 < 4"
proof -
  obtain q r where n: "n = q * 4 + r" "r < 4" using mod_div_decomp [of n 4] by (metis mod_less_divisor zero_less_numeral)
  then have r: "r = 0 \<or> r = 1 \<or> r = 2 \<or> r = 3" by auto
  then show "(n + (4 - n mod 4) mod 4) mod 4 = 0" "(n + (4 - n mod 4) mod 4) div 4 = (n + 3) div 4" using n(1) by auto
qed simp

lemma tcp_fixed_read:
  assumes "unat (tcp_length h) < 16" and "length c = 2"
  shows "tcp_fixed r (tcp_front h @ c @ hton16 (tcp_urgentPointer h) @ rest) =
    Some (r\<lparr>tcp_optionsLen := 0, tcp_sourcePort := tcp_sourcePort h, tcp_destinationPort := tcp_destinationPort h,
      tcp_sequenceNumber := tcp_sequenceNumber h, tcp_ackNumber := tcp_ackNumber h, tcp_flags := tcp_flags h, tcp_length := tcp_length h,
      tcp_windowSize := tcp_windowSize h, tcp_urgentPointer := tcp_urgentPointer h, tcp_options := []\<rparr>, rest)"
proof -
  have "rd_n 2 (c @ x) = Some (c, x)" for x using assms(2) by (simp add: rd_n_def)
  then show ?thesis using length_field [OF assms(1), of "tcp_flags h"] by (simp add: tcp_fixed_def tcp_front_def)
qed

lemma tcp_options_space:
  assumes "tcp_inv h"
  shows "(ucast (tcp_length h) - 5) * 4 = (of_nat (opts_size (tcp_options h) + (4 - opts_size (tcp_options h) mod 4) mod 4) :: u32)"
    and "opts_size (tcp_options h) + (4 - opts_size (tcp_options h) mod 4) mod 4 \<le> 40"
    and "unat (tcp_length h) * 4 = 20 + opts_size (tcp_options h) + (4 - opts_size (tcp_options h) mod 4) mod 4"
proof -
  let ?n = "opts_size (tcp_options h)"
  let ?m = "(?n + 3) div 4"
  have "(23 + ?n) div 4 = 5 + ?m" by presburger
  then have n: "?n \<le> 40" and l: "tcp_length h = of_nat (5 + ?m)" using assms unfolding tcp_inv_def by (simp_all only:)
  have m: "?n + (4 - ?n mod 4) mod 4 = ?m * 4" using padding(1,2) [of ?n] by (metis div_mult_mod_eq add.right_neutral)
  have m10: "?m \<le> 10" using n by linarith
  then have u: "unat (tcp_length h) = 5 + ?m" unfolding l by (simp only: unat_of_nat) simp
  have "ucast (tcp_length h) = (of_nat (5 + ?m) :: u32)"
    unfolding l unsigned_of_nat using m10 by (simp add: take_bit_nat_eq_self)
  then show "(ucast (tcp_length h) - 5) * 4 = (of_nat (?n + (4 - ?n mod 4) mod 4) :: u32)" unfolding m by simp
  show "?n + (4 - ?n mod 4) mod 4 \<le> 40" unfolding m using m10 by simp
  show "unat (tcp_length h) * 4 = 20 + ?n + (4 - ?n mod 4) mod 4" using u m by linarith
qed

lemma padded_size:
  assumes "k = (4 - opts_size ops mod 4) mod 4"
  shows "(23 + opts_size (ops @ padded k)) div 4 = (23 + opts_size ops) div 4"
proof -
  obtain q r where n: "opts_size ops = q * 4 + r" "r < 4" using mod_div_decomp [of "opts_size ops" 4] by (metis mod_less_divisor zero_less_numeral)
  have "opts_size (ops @ padded k) = opts_size ops + (if k = 0 then 0 else 1)" by (simp add: opts_size_def padded_def)
  moreover have "r = 0 \<or> r = 1 \<or> r = 2 \<or> r = 3" using n(2) by auto
  ultimately show ?thesis using assms n(1) by auto
qed

lemma tcp_read_back:
  assumes fit: "tcp_fit h r pl"
  shows "\<exists>hdr. tcp_Serialize h pl = Some hdr \<and> length hdr = tcp_GetSerializedSize h
    \<and> tcp_Deserialize r (hdr @ pl) = Some (Some (tcp_result h r pl, tcp_GetSerializedSize h))"
proof -
  let ?ops = "tcp_options h"
  let ?n = "opts_size ?ops"
  define k where "k = (4 - ?n mod 4) mod 4"
  have inv: "tcp_inv h" and len: "60 + length pl < 65536" using fit by (simp_all add: tcp_fit_def)
  then obtain x where x: "opts_Serialize ?ops = Some x" "length x = ?n" using opts_Serialize_ok [of ?ops] by (auto simp: tcp_inv_def)
  have k: "(4 - length x mod 4) mod 4 = k" using x(2) by (simp add: k_def)
  note space = tcp_options_space [OF inv, folded k_def]
  let ?after = "hton16 (tcp_urgentPointer h) @ x @ replicate k 0"
  let ?total = "length (tcp_front h) + 2 + length ?after + length pl"
  have front: "length (tcp_front h) = 16" by (simp add: tcp_front_def)
  then have total: "?total = 20 + ?n + k + length pl" "?total < 65536" using x(2) space(2) len by simp_all
  have tk: "take (?total mod 65536) (tcp_front h @ c @ ?after @ pl) = tcp_front h @ c @ ?after @ pl" if "length c = 2" for c
    using that total(2) by simp
  have l16: "unat (tcp_length h) < 16" using space(2,3) by linarith
  obtain c where c: "length c = 2" "tcp_Serialize h pl = Some (tcp_front h @ c @ ?after)"
    "tcp_calcChecksum h \<Longrightarrow> tcp_CalculateHeaderChecksum (of_nat ?total) h = Some hc
      \<Longrightarrow> ip_checksum (tcp_front h @ c @ ?after @ pl) (ucast hc) = 0" for hc
  proof (cases "tcp_calcChecksum h")
    case False
    then show ?thesis using that [of "[0, 0]"] unfolding tcp_Serialize_def Let_def x(1) by (simp add: k)
  next
    case True
    then obtain hc where hc: "tcp_CalculateHeaderChecksum (of_nat ?total) h = Some hc" using fit by (auto simp: tcp_fit_def)
    let ?c = "ip_checksum (tcp_front h @ [0, 0] @ ?after @ pl) (ucast hc)"
    have "unat (ucast hc :: u32) < 65536" using unsigned_less [of hc, where ?'a = nat]
      by (simp add: unsigned_ucast_eq le_less_trans [OF take_bit_nat_less_eq_self])
    moreover have "(length (tcp_front h) + length (?after @ pl)) div 2 \<le> 32768" using total(2) by simp
    ultimately have "ip_checksum (tcp_front h @ lsb16 ?c @ ?after @ pl) (ucast hc) = 0"
      by (intro checksum_inserted) (simp_all add: front)
    moreover have "tcp_Serialize h pl = Some (tcp_front h @ lsb16 ?c @ ?after)"
      using True hc tk [of "[0, 0]"] unfolding tcp_Serialize_def Let_def x(1) bind.bind_lunit k by simp
    ultimately show ?thesis using hc by (intro that [of "lsb16 ?c"]) simp_all
  qed
  let ?h1 = "r\<lparr>tcp_optionsLen := 0, tcp_sourcePort := tcp_sourcePort h, tcp_destinationPort := tcp_destinationPort h,
      tcp_sequenceNumber := tcp_sequenceNumber h, tcp_ackNumber := tcp_ackNumber h, tcp_flags := tcp_flags h, tcp_length := tcp_length h,
      tcp_windowSize := tcp_windowSize h, tcp_urgentPointer := tcp_urgentPointer h, tcp_options := []\<rparr>"
  let ?h2 = "?h1\<lparr>tcp_options := ?ops @ padded k, tcp_optionsLen := of_nat (?n + k)\<rparr>"
  let ?bs = "tcp_front h @ c @ ?after @ pl"
  have fixed: "tcp_fixed r ?bs = Some (?h1, x @ replicate k 0 @ pl)" using tcp_fixed_read [OF l16 c(1), of r] by simp
  have u: "unat (of_nat (?n + k) :: u32) = ?n + k" using space(2) by (simp only: unat_of_nat) simp
  have loop: "opt_loop \<lparr>os_bytes = x @ replicate k 0 @ pl, os_optionLen = ?n + k, os_options = [], os_optionsLen = 0\<rparr>
      = Some (Some \<lparr>os_bytes = pl, os_optionLen = 0, os_options = ?ops @ padded k, os_optionsLen = of_nat (?n + k)\<rparr>)"
    using opt_loop_read [OF _ x(1), of k pl "[]" 0] inv by (simp add: tcp_inv_def)
  have check: "tcp_check ?bs ?h2 = Some (tcp_result h r pl)"
  proof (cases "tcp_calcChecksum r")
    case True
    then have h: "tcp_calcChecksum h" "tcp_CalculateHeaderChecksum sz ?h2 = tcp_CalculateHeaderChecksum sz h" for sz
      using fit tcp_header_checksum_cong [of ?h2 h sz] by (simp_all add: tcp_fit_def)
    obtain hc where hc: "tcp_CalculateHeaderChecksum (of_nat ?total) h = Some hc" using fit h(1) by (auto simp: tcp_fit_def)
    have lb: "length ?bs = ?total" using c(1) by simp
    show ?thesis unfolding tcp_check_def lb h(2) hc tk [OF c(1)]
      using True c(3) [OF h(1) hc] by (simp add: tcp_result_def k_def Let_def)
  next
    case False
    then show ?thesis by (simp add: tcp_check_def tcp_result_def k_def Let_def)
  qed
  have size: "tcp_GetSerializedSize (tcp_result h r pl) = tcp_GetSerializedSize h"
    using padded_size [OF k_def] by (simp add: tcp_GetSerializedSize_def header_length tcp_result_def k_def Let_def)
  have "\<not> (of_nat (?n + k) :: u32) > 40" using u space(2) by (simp add: word_less_nat_alt)
  then have "tcp_Deserialize r ?bs = Some (Some (tcp_result h r pl, tcp_GetSerializedSize h))"
    using fixed space(1) u loop check size by (simp add: tcp_Deserialize_def Let_def)
  moreover have "length (tcp_front h @ c @ ?after) = tcp_GetSerializedSize h"
    using c(1) x(2) front space(3) inv by (simp add: tcp_GetSerializedSize_def header_length tcp_inv_def)
  ultimately show ?thesis using c(2) by simp
qed

text \<open>Reading a header, where not to return counts as failure.\<close>

definition tcp_read :: "tcp_header \<Rightarrow> tcp_header deserializer" where
  "tcp_read r bs = (case tcp_Deserialize r bs of None \<Rightarrow> None | Some x \<Rightarrow> x)"

interpretation tcp: ns3_header tcp_Serialize tcp_read tcp_GetSerializedSize tcp_fit tcp_result
proof
  fix h r pl
  assume fit: "tcp_fit h r pl"
  then have "tcp_GetSerializedSize h = 20 + opts_size (tcp_options h) + (4 - opts_size (tcp_options h) mod 4) mod 4"
    using tcp_options_space(3) [of h] by (simp add: tcp_GetSerializedSize_def header_length tcp_fit_def tcp_inv_def)
  then show "0 < tcp_GetSerializedSize h" by simp
  show "\<exists>hdr. tcp_Serialize h pl = Some hdr \<and> length hdr = tcp_GetSerializedSize h
      \<and> tcp_read r (hdr @ pl) = Some (tcp_result h r pl, tcp_GetSerializedSize h)"
    using tcp_read_back [OF fit] by (auto simp: tcp_read_def)
qed

text \<open>
  C24: a TCP segment is received as it was sent.  For a header to which options were appended with
  \<^verbatim>\<open>AppendOption\<close> (\<open>tcp_inv\<close>, which every call keeps), the header that is removed from the
  packet has the ports, numbers, flags, window and options that were sent, followed by one END
  option if there was padding; with checksums enabled at both ends it has a good checksum; the
  payload is what remains, and no other packet changes.  In particular reading returns.
\<close>

theorem tcp_roundtrip:
  assumes "store_ok s (add_mset b bs) X" and "tcp_fit h r (buf_content s b)"
  shows "\<exists>b1 s1 h' b2. pkt_AddHeader (tcp_GetSerializedSize h) (tcp_Serialize h) b s = Some (b1, s1)
    \<and> pkt_RemoveHeader (tcp_read r) b1 s1 = Some (h', tcp_GetSerializedSize h, b2)
    \<and> (tcp_sourcePort h', tcp_destinationPort h', tcp_sequenceNumber h', tcp_ackNumber h')
      = (tcp_sourcePort h, tcp_destinationPort h, tcp_sequenceNumber h, tcp_ackNumber h)
    \<and> (tcp_flags h', tcp_windowSize h', tcp_urgentPointer h', tcp_length h')
      = (tcp_flags h, tcp_windowSize h, tcp_urgentPointer h, tcp_length h)
    \<and> tcp_options h' = tcp_options h @ (if 4 dvd opts_size (tcp_options h) then [] else [OptEnd])
    \<and> (tcp_calcChecksum r \<longrightarrow> tcp_goodChecksum h')
    \<and> buf_content s1 b2 = buf_content s b \<and> (\<forall>c \<in># bs. buf_content s1 c = buf_content s c)"
proof -
  have "buf_GetSize b < 65536" using assms(2) content_size [OF assms(1)] by (simp add: tcp_fit_def)
  moreover have "tcp_GetSerializedSize h < 1024" unfolding tcp_GetSerializedSize_def using unsigned_less [of "tcp_CalculateHeaderLength h", where ?'a = nat] by simp
  ultimately have "buf_GetSize b + tcp_GetSerializedSize h + 119 < 2 ^ 32" by simp
  note rt = tcp.packet_roundtrip [OF assms this]
  have "(4 - n mod 4) mod 4 = 0 \<longleftrightarrow> 4 dvd n" for n :: nat by presburger
  then have "tcp_options (tcp_result h r pl) = tcp_options h @ (if 4 dvd opts_size (tcp_options h) then [] else [OptEnd])" for pl
    by (simp add: tcp_result_def Let_def padded_def)
  moreover have "tcp_goodChecksum (tcp_result h r pl) \<longleftrightarrow> tcp_calcChecksum r \<or> tcp_goodChecksum r"
    "tcp_sourcePort (tcp_result h r pl) = tcp_sourcePort h" "tcp_destinationPort (tcp_result h r pl) = tcp_destinationPort h"
    "tcp_sequenceNumber (tcp_result h r pl) = tcp_sequenceNumber h" "tcp_ackNumber (tcp_result h r pl) = tcp_ackNumber h"
    "tcp_flags (tcp_result h r pl) = tcp_flags h" "tcp_windowSize (tcp_result h r pl) = tcp_windowSize h"
    "tcp_urgentPointer (tcp_result h r pl) = tcp_urgentPointer h" "tcp_length (tcp_result h r pl) = tcp_length h" for pl
    by (simp_all add: tcp_result_def Let_def)
  ultimately show ?thesis using rt by metis
qed

section \<open>Does reading the options end?\<close>

text \<open>The option at the iterator has an unknown kind and the length 0.\<close>

definition zero_option :: "opt_state \<Rightarrow> bool" where
  "zero_option s \<longleftrightarrow> os_optionLen s \<noteq> 0 \<and> (case os_bytes s of k # n # _ \<Rightarrow> \<not> opt_IsKindKnown k \<and> n = 0 | _ \<Rightarrow> False)"

definition opt_goes :: "opt_state \<Rightarrow> opt_state \<Rightarrow> bool" where
  "opt_goes s s' \<longleftrightarrow> os_optionLen s \<noteq> 0 \<and> opt_step s = Some (Inr s')"

lemma opt_goes_loop: "opt_goes s s' \<Longrightarrow> opt_loop s = opt_loop s'"
  by (subst opt_loop.simps) (simp add: opt_goes_def)

lemma create_unknown: "\<not> opt_IsKindKnown k \<Longrightarrow> opt_CreateOption 0xFF = OptUnknown 0xFF 0 [] \<and> k \<noteq> 0"
  by (auto simp: opt_CreateOption_def opt_IsKindKnown_def)

lemma zero_option_step:
  assumes "zero_option s"
  shows "\<exists>s'. opt_step s = Some (Inr s') \<and> zero_option s'"
proof -
  obtain k r where k: "os_bytes s = k # 0 # r" "\<not> opt_IsKindKnown k" "os_optionLen s \<noteq> 0"
    using assms by (auto simp: zero_option_def split: list.splits)
  then show ?thesis using create_unknown [OF k(2)] by (simp add: opt_step_def rd_n_def zero_option_def)
qed

lemma opt_loop_ends:
  assumes "opt_loop s = Some y"
  shows "\<not> zero_option s"
proof (rule opt_loop.raw_induct [where P = "\<lambda>s y. \<not> zero_option s"])
  fix f s y
  assume IH: "\<And>s y. f s = Some y \<Longrightarrow> \<not> zero_option s"
    and body: "(if os_optionLen s = 0 then Some (Some s)
      else case opt_step s of None \<Rightarrow> Some None | Some (Inl s) \<Rightarrow> Some (Some s) | Some (Inr s) \<Rightarrow> f s) = Some y"
  show "\<not> zero_option s"
  proof
    assume z: "zero_option s"
    then obtain s' where "opt_step s = Some (Inr s')" "zero_option s'" using zero_option_step by blast
    then show False using IH [of s' y] body z by (simp add: zero_option_def)
  qed
qed (rule assms)

lemma opt_Deserialize_known:
  assumes "opt_Deserialize new bs = Some (op, n)" and "case new of OptUnknown _ _ _ \<Rightarrow> False | _ \<Rightarrow> True"
  shows "opt_GetSerializedSize op \<noteq> 0"
  using assms by (cases new) (auto simp: bind_eq_Some_conv bind_ns_assert split: if_splits)

lemma unat_gt: "0 < unat (a :: u8) \<longleftrightarrow> a \<noteq> 0"
  by (simp add: unat_eq_0 flip: neq0_conv)

lemma opt_step_size:
  assumes "opt_step s = Some (Inr s')" and "os_optionLen s \<noteq> 0" and "\<not> zero_option s"
  shows "os_optionLen s' < os_optionLen s"
proof -
  obtain k r where k: "os_bytes s = k # r"
    using assms(1) by (cases "os_bytes s") (auto simp: opt_step_def rdU8_def rd_n_def)
  let ?new = "opt_CreateOption (if opt_IsKindKnown k then k else 0xFF)"
  obtain op n where op: "opt_Deserialize ?new (k # r) = Some (op, n)" "n = opt_GetSerializedSize op"
    "os_optionLen s' = os_optionLen s - n \<or> os_optionLen s' = 0"
    using assms(1) k by (auto simp: opt_step_def Let_def bind_eq_Some_conv split: if_splits)
  have "n \<noteq> 0"
  proof (cases "opt_IsKindKnown k")
    case True
    then have "case ?new of OptUnknown _ _ _ \<Rightarrow> False | _ \<Rightarrow> True" by (auto simp: opt_IsKindKnown_def opt_CreateOption_def)
    then show ?thesis using opt_Deserialize_known [OF op(1)] op(2) by simp
  next
    case False
    then show ?thesis using op(1,2) create_unknown [OF False] assms(2,3) k
      by (cases r) (auto simp: zero_option_def rdU8_def rd_n_def bind_eq_Some_conv unat_eq_0 unat_gt split: if_splits)
  qed
  then show ?thesis using op(3) assms(2) by auto
qed

text \<open>
  C25: exactly one thing keeps the reading of TCP options from ending: an option of unknown kind
  whose length byte is 0.  \<^verbatim>\<open>TcpOptionUnknown::Deserialize\<close> rejects it by returning 0, which
  the loop of \<^verbatim>\<open>TcpHeader::Deserialize\<close> takes for the size of the option, so that it adds
  the option and stays where it is; a segment with such an option hangs the receiver.  From every
  other state the loop returns or fails an assertion.
\<close>

theorem tcp_options_end:
  "opt_loop s = None \<longleftrightarrow> (\<exists>s'. opt_goes\<^sup>*\<^sup>* s s' \<and> zero_option s')"
proof
  assume "\<exists>s'. opt_goes\<^sup>*\<^sup>* s s' \<and> zero_option s'"
  then obtain s' where s': "opt_goes\<^sup>*\<^sup>* s s'" "zero_option s'" by blast
  from s'(1) have "opt_loop s = opt_loop s'" by (induction rule: rtranclp_induct) (simp_all add: opt_goes_loop)
  then show "opt_loop s = None" using opt_loop_ends s'(2) by (cases "opt_loop s'") auto
next
  assume "opt_loop s = None"
  then show "\<exists>s'. opt_goes\<^sup>*\<^sup>* s s' \<and> zero_option s'"
  proof (induction "os_optionLen s" arbitrary: s rule: less_induct)
    case less
    show ?case
    proof (cases "zero_option s")
      case False
      have ne: "os_optionLen s \<noteq> 0" using less.prems by (subst (asm) opt_loop.simps) (auto split: if_splits)
      obtain s' where s': "opt_step s = Some (Inr s')"
        using less.prems ne by (subst (asm) opt_loop.simps) (auto split: option.splits sum.splits)
      have go: "opt_goes s s'" using s' ne by (simp add: opt_goes_def)
      then have "opt_loop s' = None" using less.prems opt_goes_loop by simp
      then obtain s2 where "opt_goes\<^sup>*\<^sup>* s' s2" "zero_option s2" using less.hyps [OF opt_step_size [OF s' ne False]] by blast
      then show ?thesis using go by (meson converse_rtranclp_into_rtranclp)
    qed blast
  qed
qed

text \<open>
  A header whose option space holds only padding is taken to be shorter than it is: whatever its
  length \<open>5 + m\<close> in words, \<^verbatim>\<open>Deserialize\<close> answers 24 bytes, since it counts the options it
  kept and not the padding it skipped; the rest of the padding is delivered as data.
\<close>

theorem tcp_padding_delivered:
  assumes "tcp_length h = of_nat (5 + m)" and "1 \<le> m" and "m \<le> 10" and "length c = 2" and "\<not> tcp_calcChecksum r"
  shows "\<exists>h'. tcp_Deserialize r (tcp_front h @ c @ hton16 (tcp_urgentPointer h) @ replicate (m * 4) 0 @ pl) = Some (Some (h', 24))"
proof -
  have u: "unat (tcp_length h) = 5 + m" unfolding assms(1) using assms(3) by (simp only: unat_of_nat) simp
  have "ucast (tcp_length h) = (of_nat (5 + m) :: u32)"
    unfolding assms(1) unsigned_of_nat using assms(3) by (simp add: take_bit_nat_eq_self)
  then have sp: "(ucast (tcp_length h) - 5) * 4 = (of_nat (m * 4) :: u32)" by simp
  have um: "unat (of_nat (m * 4) :: u32) = m * 4" using assms(3) by (simp only: unat_of_nat) simp
  then have le: "\<not> (of_nat (m * 4) :: u32) > 40" using assms(3) by (simp add: word_less_nat_alt)
  have "opt_loop \<lparr>os_bytes = replicate (m * 4) 0 @ pl, os_optionLen = m * 4, os_options = [], os_optionsLen = 0\<rparr>
      = Some (Some \<lparr>os_bytes = pl, os_optionLen = 0, os_options = [OptEnd], os_optionsLen = of_nat (m * 4)\<rparr>)"
    using opt_loop_read [of "[]" "[]" "m * 4" pl "[]" 0] assms(2) by (simp add: opts_size_def padded_def)
  then show ?thesis using tcp_fixed_read [of h c r "replicate (m * 4) 0 @ pl"] u assms(3-5) sp um le
    by (simp add: tcp_Deserialize_def tcp_check_def tcp_GetSerializedSize_def tcp_CalculateHeaderLength_def opts_size_def Let_def)
qed

section \<open>Witness\<close>

theorem tcp_roundtrip_witness:
  "\<exists>s b h r b1 s1 h' b2. tcp_options h = [OptMSS 1000, OptWinScale 7] \<and> buf_content s b = replicate 10 0
    \<and> pkt_AddHeader (tcp_GetSerializedSize h) (tcp_Serialize h) b s = Some (b1, s1)
    \<and> pkt_RemoveHeader (tcp_read r) b1 s1 = Some (h', tcp_GetSerializedSize h, b2)
    \<and> tcp_options h' = [OptMSS 1000, OptWinScale 7, OptEnd] \<and> tcp_goodChecksum h' \<and> buf_content s1 b2 = replicate 10 0"
proof (rule shared_pair, goal_cases)
  case (1 s b c)
  let ?r = "tcp_InitializeChecksum (Ipv4 0x0a000001) (Ipv4 0x0a000002) 6 (tcp_EnableChecksums TcpHeader_init)"
  let ?h = "snd (tcp_AppendOption (OptWinScale 7) (snd (tcp_AppendOption (OptMSS 1000) ?r)))"
  have "tcp_inv ?r" using TcpHeader_init_inv by (simp add: tcp_inv_def tcp_InitializeChecksum_def tcp_EnableChecksums_def)
  then have inv: "tcp_inv ?h" by (intro AppendOption_inv) simp_all
  have h: "tcp_options ?h = [OptMSS 1000, OptWinScale 7]" "tcp_source ?h = Ipv4 0x0a000001" "tcp_destination ?h = Ipv4 0x0a000002"
    "tcp_protocol ?h = 6" "tcp_calcChecksum ?h"
    by (simp_all add: tcp_AppendOption_def opt_IsKindKnown_def tcp_InitializeChecksum_def tcp_EnableChecksums_def TcpHeader_init_def Let_def)
  have r: "tcp_calcChecksum ?r" "tcp_source ?r = Ipv4 0x0a000001" "tcp_destination ?r = Ipv4 0x0a000002" "tcp_protocol ?r = 6"
    by (simp_all add: tcp_InitializeChecksum_def tcp_EnableChecksums_def)
  have "tcp_CalculateHeaderChecksum sz ?h \<noteq> None" for sz by (simp only: tcp_CalculateHeaderChecksum_def h) simp
  then have "tcp_fit ?h ?r (buf_content s b)" using inv h r 1(5) by (simp add: tcp_fit_def)
  then have "\<exists>b1 s1 h' b2. pkt_AddHeader (tcp_GetSerializedSize ?h) (tcp_Serialize ?h) b s = Some (b1, s1)
    \<and> pkt_RemoveHeader (tcp_read ?r) b1 s1 = Some (h', tcp_GetSerializedSize ?h, b2)
    \<and> tcp_options h' = tcp_options ?h @ (if 4 dvd opts_size (tcp_options ?h) then [] else [OptEnd]) \<and> tcp_goodChecksum h'
    \<and> buf_content s1 b2 = buf_content s b"
    using tcp_roundtrip [of s b "{#c#}" "{#}" ?h ?r] 1 r(1) by blast
  moreover have "tcp_options ?h @ (if 4 dvd opts_size (tcp_options ?h) then [] else [OptEnd]) = [OptMSS 1000, OptWinScale 7, OptEnd]"
    by (simp add: h(1) opts_size_def)
  ultimately show ?case using 1(5) h(1) by metis
qed

end
