(* ===== verification/Packet_Tags.thy ===== *)
theory Packet_Tags
  imports Prelude
begin

text \<open>
  Packet tags: \<^verbatim>\<open>ns3::PacketTagList\<close> (src/network/model/packet-tag-list.h, .cc), a linked
  list of tags whose tails are shared between the packets that are copies of each other, with
  reference counts and copy-on-write.  The nodes are in an explicit heap; using a node that was
  freed is \<open>None\<close>, like a failing assertion.  A tag is its type and the bytes it serializes to.
\<close>

type_synonym pkt_tag = "u16 \<times> u8 list"

record tag_data =
  td_next :: ptr
  td_count :: u32
  td_tid :: u16
  td_size :: u32
  td_data :: "u8 list"

text \<open>
  The list objects by their number, with their \<^verbatim>\<open>m_next\<close>; the nodes; and the next address
  that \<^verbatim>\<open>malloc\<close> gives out.
\<close>

record tag_world =
  tw_lists :: "nat \<Rightarrow> ptr option"
  tw_nodes :: "ptr \<Rightarrow> tag_data option"
  tw_brk :: ptr

text \<open>The pointer variables that a list consists of; \<^verbatim>\<open>prevNext\<close> points to one of them.\<close>

datatype slot = Head nat | Next ptr

definition node_on :: "ptr \<Rightarrow> (tag_data \<Rightarrow> tag_data) \<Rightarrow> tag_world \<Rightarrow> tag_world option" where
  "node_on p g w = do { n \<leftarrow> tw_nodes w p; Some (w\<lparr>tw_nodes := (tw_nodes w)(p \<mapsto> g n)\<rparr>) }"

fun slot_set :: "slot \<Rightarrow> ptr \<Rightarrow> tag_world \<Rightarrow> tag_world option" where
  "slot_set (Head l) v w = Some (w\<lparr>tw_lists := (tw_lists w)(l \<mapsto> v)\<rparr>)"
| "slot_set (Next p) v w = node_on p (\<lambda>n. n\<lparr>td_next := v\<rparr>) w"

definition count_inc :: "ptr \<Rightarrow> tag_world \<Rightarrow> tag_world option" where
  "count_inc p w = (if p \<noteq> nullptr then node_on p (\<lambda>n. n\<lparr>td_count := td_count n + 1\<rparr>) w else Some w)"

definition tag_free :: "ptr \<Rightarrow> tag_world \<Rightarrow> tag_world" where
  "tag_free p w = (if p \<noteq> nullptr then w\<lparr>tw_nodes := (tw_nodes w)(p := None)\<rparr> else w)"

text \<open>\<^verbatim>\<open>CreateTagData\<close>, followed by the assignment of all fields of the new node.\<close>

definition tag_create :: "tag_data \<Rightarrow> tag_world \<Rightarrow> (ptr \<times> tag_world) option" where
  "tag_create n w = do {
     ns_assert (td_size n < 0xffffffff);
     Some (tw_brk w, w\<lparr>tw_nodes := (tw_nodes w)(tw_brk w \<mapsto> n), tw_brk := tw_brk w + 1\<rparr>)
   }"

definition new_node :: "ptr \<Rightarrow> pkt_tag \<Rightarrow> tag_data" where
  "new_node nxt t = \<lparr>td_next = nxt, td_count = 1, td_tid = fst t, td_size = of_nat (length (snd t)), td_data = snd t\<rparr>"

section \<open>Copy-on-write\<close>

text \<open>The search for the tag or the first shared node: whether the tag was found, \<^verbatim>\<open>prevNext\<close> and \<^verbatim>\<open>cur\<close>.\<close>

partial_function (option) cow_search :: "u16 \<Rightarrow> slot \<Rightarrow> ptr \<Rightarrow> tag_world \<Rightarrow> (bool \<times> slot \<times> ptr) option" where
  "cow_search tid prevNext cur w =
     (if cur = nullptr then Some (False, prevNext, cur)
      else do {
        n \<leftarrow> tw_nodes w cur;
        if td_count n > 1 then Some (False, prevNext, cur)
        else if td_tid n = tid then Some (True, prevNext, cur)
        else cow_search tid (Next cur) (td_next n) w
      })"

partial_function (option) cow_find :: "u16 \<Rightarrow> ptr \<Rightarrow> tag_world \<Rightarrow> u8 list option option" where
  "cow_find tid it w =
     (if it = nullptr then Some None
      else do {
        n \<leftarrow> tw_nodes w it;
        if td_tid n = tid then Some (Some (take (unat (td_size n)) (td_data n)))
        else cow_find tid (td_next n) w
      })"

partial_function (option) cow_copy :: "u16 \<Rightarrow> slot \<Rightarrow> ptr \<Rightarrow> tag_world \<Rightarrow> (slot \<times> ptr \<times> tag_world) option" where
  "cow_copy tid prevNext cur w = do {
     n \<leftarrow> tw_nodes w cur;
     if td_tid n = tid then Some (prevNext, cur, w)
     else do {
       ns_assert (td_count n > 1);
       w \<leftarrow> node_on cur (\<lambda>n. n\<lparr>td_count := td_count n - 1\<rparr>) w;
       (copy, w) \<leftarrow> tag_create (n\<lparr>td_count := 1\<rparr>) w;
       w \<leftarrow> node_on (td_next n) (\<lambda>n. n\<lparr>td_count := td_count n + 1\<rparr>) w;
       w \<leftarrow> slot_set prevNext copy w;
       cow_copy tid (Next copy) (td_next n) w
     }
   }"

text \<open>A writer gets \<^verbatim>\<open>preMerge\<close>, \<^verbatim>\<open>cur\<close> and \<^verbatim>\<open>prevNext\<close>, and answers the bytes of the tag.\<close>

type_synonym cow_writer = "bool \<Rightarrow> ptr \<Rightarrow> slot \<Rightarrow> tag_world \<Rightarrow> (u8 list \<times> tag_world) option"

definition tag_COWTraverse :: "cow_writer \<Rightarrow> u16 \<Rightarrow> nat \<Rightarrow> tag_world \<Rightarrow> (u8 list option \<times> tag_world) option" where
  "tag_COWTraverse writer tid l w = do {
     m_next \<leftarrow> tw_lists w l;
     if m_next = nullptr then Some (None, w)
     else do {
       (found, prevNext, cur) \<leftarrow> cow_search tid (Head l) m_next w;
       if found then do { (x, w) \<leftarrow> writer True cur prevNext w; Some (Some x, w) }
       else if cur = nullptr then Some (None, w)
       else do {
         it \<leftarrow> cow_find tid cur w;
         if it = None then Some (None, w)
         else do {
           n \<leftarrow> tw_nodes w cur;
           ns_assert (td_count n > 1);
           (prevNext, cur, w) \<leftarrow> cow_copy tid prevNext cur w;
           n \<leftarrow> tw_nodes w cur;
           ns_assert (td_tid n = tid \<and> td_count n > 1);
           (x, w) \<leftarrow> writer False cur prevNext w;
           Some (Some x, w)
         }
       }
     }
   }"

definition tag_RemoveWriter :: cow_writer where
  "tag_RemoveWriter preMerge cur prevNext w = do {
     n \<leftarrow> tw_nodes w cur;
     w \<leftarrow> slot_set prevNext (td_next n) w;
     w \<leftarrow> (if preMerge then Some (tag_free cur w)
           else do {
             w \<leftarrow> node_on cur (\<lambda>n. n\<lparr>td_count := td_count n - 1\<rparr>) w;
             count_inc (td_next n) w
           });
     Some (take (unat (td_size n)) (td_data n), w)
   }"

text \<open>
  Before a shared node, the new value is written over the old one, in the space of the old one.
\<close>

definition tag_ReplaceWriter :: "pkt_tag \<Rightarrow> cow_writer" where
  "tag_ReplaceWriter t preMerge cur prevNext w = do {
     n \<leftarrow> tw_nodes w cur;
     w \<leftarrow> (if preMerge
           then do {
             ns_assert (length (snd t) \<le> unat (td_size n));
             node_on cur (\<lambda>n. n\<lparr>td_data := snd t @ drop (length (snd t)) (td_data n)\<rparr>) w
           }
           else do {
             w \<leftarrow> node_on cur (\<lambda>n. n\<lparr>td_count := td_count n - 1\<rparr>) w;
             (copy, w) \<leftarrow> tag_create (new_node (td_next n) t) w;
             w \<leftarrow> count_inc (td_next n) w;
             slot_set prevNext copy w
           });
     Some (snd t, w)
   }"

section \<open>The operations of a list\<close>

definition tag_Add :: "pkt_tag \<Rightarrow> nat \<Rightarrow> tag_world \<Rightarrow> tag_world option" where
  "tag_Add t l w = do {
     m_next \<leftarrow> tw_lists w l;
     it \<leftarrow> cow_find (fst t) m_next w;
     ns_assert (it = None);
     (head, w) \<leftarrow> tag_create (new_node m_next t) w;
     slot_set (Head l) head w
   }"

definition tag_Remove :: "u16 \<Rightarrow> nat \<Rightarrow> tag_world \<Rightarrow> (u8 list option \<times> tag_world) option" where
  "tag_Remove tid l w = tag_COWTraverse tag_RemoveWriter tid l w"

definition tag_Replace :: "pkt_tag \<Rightarrow> nat \<Rightarrow> tag_world \<Rightarrow> (u8 list option \<times> tag_world) option" where
  "tag_Replace t l w = do {
     (found, w) \<leftarrow> tag_COWTraverse (tag_ReplaceWriter t) (fst t) l w;
     if found = None then do { w \<leftarrow> tag_Add t l w; Some (None, w) } else Some (found, w)
   }"

definition tag_Peek :: "u16 \<Rightarrow> nat \<Rightarrow> tag_world \<Rightarrow> u8 list option option" where
  "tag_Peek tid l w = do { m_next \<leftarrow> tw_lists w l; cow_find tid m_next w }"

partial_function (option) tag_remove_loop :: "ptr \<Rightarrow> ptr \<Rightarrow> tag_world \<Rightarrow> tag_world option" where
  "tag_remove_loop prev cur w =
     (if cur = nullptr then Some (tag_free prev w)
      else do {
        n \<leftarrow> tw_nodes w cur;
        w \<leftarrow> node_on cur (\<lambda>n. n\<lparr>td_count := td_count n - 1\<rparr>) w;
        if td_count n - 1 > 0 then Some (tag_free prev w)
        else tag_remove_loop cur (td_next n) (tag_free prev w)
      })"

definition tag_RemoveAll :: "nat \<Rightarrow> tag_world \<Rightarrow> tag_world option" where
  "tag_RemoveAll l w = do {
     m_next \<leftarrow> tw_lists w l;
     w \<leftarrow> tag_remove_loop nullptr m_next w;
     slot_set (Head l) nullptr w
   }"

text \<open>Construction, copying, assignment and destruction.\<close>

definition PacketTagList_init :: "nat \<Rightarrow> tag_world \<Rightarrow> tag_world" where
  "PacketTagList_init l w = w\<lparr>tw_lists := (tw_lists w)(l \<mapsto> nullptr)\<rparr>"

definition tag_list_copy :: "nat \<Rightarrow> nat \<Rightarrow> tag_world \<Rightarrow> tag_world option" where
  "tag_list_copy l o' w = do {
     p \<leftarrow> tw_lists w o';
     w \<leftarrow> slot_set (Head l) p w;
     count_inc p w
   }"

definition tag_list_assign :: "nat \<Rightarrow> nat \<Rightarrow> tag_world \<Rightarrow> tag_world option" where
  "tag_list_assign l o' w = do {
     m_next \<leftarrow> tw_lists w l;
     p \<leftarrow> tw_lists w o';
     if m_next = p then Some w
     else do {
       w \<leftarrow> tag_RemoveAll l w;
       w \<leftarrow> slot_set (Head l) p w;
       count_inc p w
     }
   }"

definition tag_list_destroy :: "nat \<Rightarrow> tag_world \<Rightarrow> tag_world option" where
  "tag_list_destroy l w = do { w \<leftarrow> tag_RemoveAll l w; Some (w\<lparr>tw_lists := (tw_lists w)(l := None)\<rparr>) }"

definition tag_world_init :: tag_world where
  "tag_world_init = \<lparr>tw_lists = Map.empty, tw_nodes = Map.empty, tw_brk = 1\<rparr>"

end
