(* ===== verification/Tag_Graph.thy ===== *)
theory Tag_Graph
  imports Packet_Tags
begin

text \<open>
  Lists with shared tails as a graph of pointer variables: \<open>f\<close> gives the value of each variable
  that exists, \<open>g\<close> the reference count, type and data of each node.  The transformations of such a
  graph of which the operations of \<^verbatim>\<open>PacketTagList\<close> consist, and that each of them keeps the
  counts exact, changes one list only, and leaves no node behind.
\<close>

type_synonym slots = "slot \<Rightarrow> ptr option"
type_synonym payload = "ptr \<Rightarrow> (nat \<times> pkt_tag) option"

section \<open>Chains\<close>

primrec spath :: "slots \<Rightarrow> slot \<Rightarrow> ptr list \<Rightarrow> bool" where
  "spath f s [] \<longleftrightarrow> f s = Some nullptr"
| "spath f s (x # xs) \<longleftrightarrow> f s = Some x \<and> x \<noteq> nullptr \<and> spath f (Next x) xs"

primrec seg :: "slots \<Rightarrow> slot \<Rightarrow> ptr list \<Rightarrow> bool" where
  "seg f s [] \<longleftrightarrow> True"
| "seg f s (x # xs) \<longleftrightarrow> f s = Some x \<and> x \<noteq> nullptr \<and> seg f (Next x) xs"

definition end_slot :: "slot \<Rightarrow> ptr list \<Rightarrow> slot" where
  "end_slot s pre = (if pre = [] then s else Next (last pre))"

lemma end_slot_simps [simp]: "end_slot s [] = s" "end_slot s (x # xs) = end_slot (Next x) xs" "end_slot s (xs @ [y]) = Next y"
  by (simp_all add: end_slot_def)

lemma spath_append: "spath f s (pre @ rest) \<longleftrightarrow> seg f s pre \<and> spath f (end_slot s pre) rest"
  by (induction pre arbitrary: s) auto

lemma seg_append: "seg f s (pre @ [x]) \<longleftrightarrow> seg f s pre \<and> f (end_slot s pre) = Some x \<and> x \<noteq> nullptr"
  by (induction pre arbitrary: s) auto

lemma spath_unique: "spath f s ps \<Longrightarrow> spath f s qs \<Longrightarrow> ps = qs"
proof (induction ps arbitrary: s qs)
  case Nil
  then show ?case by (cases qs) auto
next
  case (Cons x ps)
  then show ?case by (cases qs) auto
qed

lemma spath_same: "spath f s ps \<Longrightarrow> f s' = f s \<Longrightarrow> spath f s' ps"
  by (cases ps) auto

lemma spath_mid: "spath f s ps \<Longrightarrow> x \<in> set ps \<Longrightarrow> \<exists>as bs. ps = as @ x # bs \<and> seg f s (as @ [x]) \<and> spath f (Next x) bs"
proof -
  assume a: "spath f s ps" "x \<in> set ps"
  then obtain as bs where "ps = as @ x # bs" by (meson split_list)
  moreover have "spath f s ((as @ [x]) @ bs)" using a(1) calculation by simp
  ultimately show ?thesis using spath_append [of f s "as @ [x]" bs] by auto
qed

lemma spath_distinct: "spath f s ps \<Longrightarrow> distinct ps"
proof (induction ps arbitrary: s)
  case (Cons x ps)
  have "x \<notin> set ps"
  proof
    assume "x \<in> set ps"
    then obtain as bs where "ps = as @ x # bs" "spath f (Next x) bs" using spath_mid [of f "Next x" ps x] Cons.prems by auto
    moreover have "bs = ps" using spath_unique [of f "Next x" bs ps] Cons.prems calculation(2) by simp
    ultimately show False by (metis add_Suc_right length_Cons length_append less_add_Suc2 less_irrefl)
  qed
  then show ?case using Cons by auto
qed simp

lemma spath_pred: "spath f s ps \<Longrightarrow> x \<in> set ps \<Longrightarrow> f s = Some x \<or> (\<exists>y \<in> set ps. f (Next y) = Some x)"
  by (induction ps arbitrary: s) auto

lemma spath_nonnull: "spath f s ps \<Longrightarrow> nullptr \<notin> set ps"
  by (induction ps arbitrary: s) auto

lemma spath_frame: "spath f s ps \<Longrightarrow> f' s = f s \<Longrightarrow> \<forall>x \<in> set ps. f' (Next x) = f (Next x) \<Longrightarrow> spath f' s ps"
  by (induction ps arbitrary: s) auto

lemma seg_frame: "seg f s ps \<Longrightarrow> \<forall>as x bs. ps = as @ x # bs \<longrightarrow> f' (end_slot s as) = f (end_slot s as) \<Longrightarrow> seg f' s ps"
proof (induction ps arbitrary: s)
  case (Cons y ps)
  have "f' s = f s" using Cons.prems(2) by (metis append_Nil end_slot_simps(1))
  moreover have "\<forall>as x bs. ps = as @ x # bs \<longrightarrow> f' (end_slot (Next y) as) = f (end_slot (Next y) as)"
    using Cons.prems(2) by (metis append_Cons end_slot_simps(2))
  ultimately show ?case using Cons by auto
qed simp

text \<open>The variable at the end of a part of a chain is not one of those before it.\<close>

lemma end_slot_later:
  assumes "distinct pre" and "pre = as @ x # bs"
  shows "end_slot (Head l) as \<noteq> end_slot (Head l) pre"
proof (cases as rule: rev_cases)
  case Nil
  then show ?thesis using assms(2) by (cases bs rule: rev_cases) auto
next
  case (snoc ys y)
  have "last pre \<in> set (x # bs)" using assms(2) by simp
  then have "y \<noteq> last pre" using assms snoc by auto
  then show ?thesis using snoc assms(2) by (simp add: end_slot_def)
qed

lemma seg_upd:
  assumes "seg f (Head l) pre" and "distinct pre" and "\<forall>s. s \<noteq> end_slot (Head l) pre \<longrightarrow> s \<in> insert (Head l) (Next ` set pre) \<longrightarrow> f' s = f s"
  shows "seg f' (Head l) pre"
proof (rule seg_frame [OF assms(1)], intro allI impI)
  fix as x bs assume p: "pre = as @ x # bs"
  have "end_slot (Head l) as \<in> insert (Head l) (Next ` set pre)" using p by (cases as rule: rev_cases) auto
  then show "f' (end_slot (Head l) as) = f (end_slot (Head l) as)" using assms(3) end_slot_later [OF assms(2) p] by blast
qed

section \<open>Well-formed graphs\<close>

definition ins :: "slots \<Rightarrow> ptr \<Rightarrow> slot set" where
  "ins f p = {s. f s = Some p}"

definition wf_tags :: "slots \<Rightarrow> payload \<Rightarrow> bool" where
  "wf_tags f g \<longleftrightarrow> finite {s. f s \<noteq> None} \<and> (\<forall>p. f (Next p) \<noteq> None \<longleftrightarrow> g p \<noteq> None) \<and> g nullptr = None
     \<and> (\<forall>p c t. g p = Some (c, t) \<longrightarrow> c = card (ins f p))
     \<and> (\<forall>l. f (Head l) \<noteq> None \<longrightarrow> (\<exists>ps. spath f (Head l) ps))
     \<and> (\<forall>p. g p \<noteq> None \<longrightarrow> (\<exists>l ps. spath f (Head l) ps \<and> p \<in> set ps))"

lemma wf_tagsD:
  assumes "wf_tags f g"
  shows "finite {s. f s \<noteq> None}" and "f (Next p) \<noteq> None \<longleftrightarrow> g p \<noteq> None" and "g nullptr = None"
    and "g p = Some (c, t) \<Longrightarrow> c = card (ins f p)" and "f (Head l) \<noteq> None \<Longrightarrow> \<exists>ps. spath f (Head l) ps"
    and "g p \<noteq> None \<Longrightarrow> \<exists>l ps. spath f (Head l) ps \<and> p \<in> set ps"
  using assms unfolding wf_tags_def by blast+

lemma ins_finite: "finite {s. f s \<noteq> None} \<Longrightarrow> finite (ins f p)"
  by (rule finite_subset [of _ "{s. f s \<noteq> None}"]) (auto simp: ins_def)

lemma ins_upd: "ins (f(s := v)) p = (if v = Some p then insert s (ins f p) else ins f p - {s})"
  by (auto simp: ins_def)

lemma card_upd:
  assumes "finite {s. f s \<noteq> None}"
  shows "card (ins (f(s := v)) p) = card (ins f p) - (if f s = Some p then 1 else 0) + (if v = Some p then 1 else 0)"
proof -
  note fin = ins_finite [OF assms, of p]
  show ?thesis
  proof (cases "f s = Some p")
    case True
    then have s: "s \<in> ins f p" by (simp add: ins_def)
    then have "0 < card (ins f p)" using fin by (auto simp: card_gt_0_iff)
    then show ?thesis using s fin True by (auto simp: ins_upd insert_absorb card_Diff_singleton)
  next
    case False
    then have "s \<notin> ins f p" by (simp add: ins_def)
    then show ?thesis using fin False by (auto simp: ins_upd)
  qed
qed

lemma chain_in_graph: "wf_tags f g \<Longrightarrow> spath f s ps \<Longrightarrow> x \<in> set ps \<Longrightarrow> g x \<noteq> None"
proof -
  assume wf: "wf_tags f g" and "spath f s ps" "x \<in> set ps"
  then obtain bs where "spath f (Next x) bs" using spath_mid by blast
  then have "f (Next x) \<noteq> None" by (cases bs) auto
  then show ?thesis using wf by (simp add: wf_tags_def)
qed

text \<open>The part of a list up to the first shared node belongs to the list alone.\<close>

definition owned :: "slots \<Rightarrow> nat \<Rightarrow> ptr list \<Rightarrow> bool" where
  "owned f l pre \<longleftrightarrow> seg f (Head l) pre \<and> (\<forall>x \<in> set pre. card (ins f x) = 1)"

lemma owned_slot:
  assumes "owned f l (xs @ [x])" and "f s = Some x"
  shows "s = end_slot (Head l) xs"
proof -
  have "end_slot (Head l) xs \<in> ins f x" "s \<in> ins f x" "card (ins f x) = 1"
    using assms by (auto simp: owned_def seg_append ins_def)
  then show ?thesis by (metis card_1_singletonE singletonD)
qed

lemma owned_butlast: "owned f l (xs @ [x]) \<Longrightarrow> owned f l xs"
  by (simp add: owned_def seg_append)

lemma owned_other:
  assumes "owned f l pre" and "l' \<noteq> l" and "spath f (Head l') ps"
  shows "set pre \<inter> set ps = {}"
  using assms(1)
proof (induction pre rule: rev_induct)
  case (snoc x xs)
  have IH: "set xs \<inter> set ps = {}" using snoc.IH owned_butlast [OF snoc.prems] .
  have "x \<notin> set ps"
  proof
    assume x: "x \<in> set ps"
    then obtain s where s: "f s = Some x" "s = Head l' \<or> (\<exists>y \<in> set ps. s = Next y)" using spath_pred [OF assms(3)] by blast
    then have "s = end_slot (Head l) xs" using owned_slot [OF snoc.prems] by blast
    then show False using s(2) assms(2) IH by (cases xs rule: rev_cases) auto
  qed
  then show ?case using IH by auto
qed simp

section \<open>Transformations\<close>

text \<open>A position in the list \<open>l\<close>: the nodes before it belong to the list alone.\<close>

definition cursor :: "slots \<Rightarrow> nat \<Rightarrow> ptr list \<Rightarrow> ptr list \<Rightarrow> bool" where
  "cursor f l pre rest \<longleftrightarrow> owned f l pre \<and> spath f (Head l) (pre @ rest)"

text \<open>The list \<open>l\<close> becomes \<open>ps\<close>, and the other lists stay as they are.\<close>

definition upd_list :: "slots \<Rightarrow> slots \<Rightarrow> nat \<Rightarrow> ptr list \<Rightarrow> bool" where
  "upd_list f f' l ps \<longleftrightarrow> spath f' (Head l) ps \<and> (\<forall>l' ps. l' \<noteq> l \<longrightarrow> spath f (Head l') ps \<longrightarrow> spath f' (Head l') ps)
     \<and> (\<forall>l'. l' \<noteq> l \<longrightarrow> f' (Head l') = f (Head l'))"

lemma wf_upd:
  assumes "wf_tags f g" and "upd_list f f' l ps" and "finite {s. f' s \<noteq> None}" and "\<forall>p. f' (Next p) \<noteq> None \<longleftrightarrow> g' p \<noteq> None"
    and "g' nullptr = None" and "\<forall>p c t. g' p = Some (c, t) \<longrightarrow> c = card (ins f' p)"
    and "\<forall>p. g' p \<noteq> None \<longrightarrow> p \<in> set ps \<or> (\<exists>l' ps. l' \<noteq> l \<and> spath f (Head l') ps \<and> p \<in> set ps)"
  shows "wf_tags f' g'"
proof -
  have "\<exists>ps. spath f' (Head l') ps" if "f' (Head l') \<noteq> None" for l'
  proof (cases "l' = l")
    case False
    then have "f (Head l') \<noteq> None" using that assms(2) by (simp add: upd_list_def)
    then obtain qs where "spath f (Head l') qs" using assms(1) unfolding wf_tags_def by blast
    then show ?thesis using False assms(2) unfolding upd_list_def by blast
  qed (use assms(2) in \<open>auto simp: upd_list_def\<close>)
  moreover have "\<exists>l ps. spath f' (Head l) ps \<and> p \<in> set ps" if "g' p \<noteq> None" for p
    using that assms(2,7) unfolding upd_list_def by blast
  ultimately show ?thesis using assms(3-6) by (simp add: wf_tags_def)
qed

lemma others_same:
  assumes "owned f l pre" and "l' \<noteq> l" and "spath f (Head l') ps" and "\<forall>s. s \<noteq> end_slot (Head l) pre \<longrightarrow> s \<notin> Next ` Z \<longrightarrow> f' s = f s"
    and "Z \<inter> set ps = {}"
  shows "spath f' (Head l') ps"
proof (rule spath_frame [OF assms(3)])
  have "Head l' \<noteq> end_slot (Head l) pre" using assms(2) by (cases pre rule: rev_cases) auto
  then show "f' (Head l') = f (Head l')" using assms(4) [rule_format, of "Head l'"] by auto
  have "end_slot (Head l) pre \<noteq> Next x" if "x \<in> set ps" for x
    using owned_other [OF assms(1-3)] that by (cases pre rule: rev_cases) auto
  moreover have "Next x \<notin> Next ` Z" if "x \<in> set ps" for x using that assms(5) by auto
  ultimately show "\<forall>x \<in> set ps. f' (Next x) = f (Next x)" using assms(4) by metis
qed

lemma new_chain:
  assumes "owned f l pre" and "distinct pre" and "\<forall>s. s \<noteq> end_slot (Head l) pre \<longrightarrow> s \<in> insert (Head l) (Next ` set pre) \<longrightarrow> f' s = f s"
    and "spath f' (end_slot (Head l) pre) ps"
  shows "spath f' (Head l) (pre @ ps)"
  using seg_upd [OF _ assms(2,3)] assms(1,4) by (simp add: owned_def spath_append)

lemma spath_move: "spath f s ps \<Longrightarrow> f' s' = f s \<Longrightarrow> \<forall>x \<in> set ps. f' (Next x) = f (Next x) \<Longrightarrow> spath f' s' ps"
  by (cases ps) (auto intro: spath_frame)

lemma end_slot_notin: "x \<notin> set pre \<Longrightarrow> end_slot (Head l) pre \<noteq> Next x"
  by (cases pre rule: rev_cases) auto

lemma cursor_facts:
  assumes "cursor f l pre rest"
  shows "owned f l pre" and "spath f (end_slot (Head l) pre) rest" and "distinct (pre @ rest)"
  using assms spath_distinct [of f "Head l" "pre @ rest"] by (simp_all add: cursor_def spath_append)

lemma other_head: "l' \<noteq> l \<Longrightarrow> Head l' \<noteq> end_slot (Head l) pre"
  by (cases pre rule: rev_cases) auto

text \<open>A new node is put in.\<close>

lemma finite_upd: "finite {s. f s \<noteq> None} \<Longrightarrow> finite {s. (f(a := x)) s \<noteq> None}"
  by (rule finite_subset [of _ "insert a {s. f s \<noteq> None}"]) auto

lemma end_slot_live: "spath f s ps \<Longrightarrow> \<exists>v. f s = Some v"
  by (cases ps) auto

lemma insert_node:
  assumes wf: "wf_tags f g" and cur: "cursor f l pre rest" and new: "new \<noteq> nullptr" "g new = None" "ins f new = {}"
    and e: "e = end_slot (Head l) pre" and f': "f' = f(e := Some new, Next new := f e)"
  shows "upd_list f f' l (pre @ new # rest) \<and> wf_tags f' (g(new \<mapsto> (1, t)))"
proof -
  note c = cursor_facts [OF cur, folded e]
  have sp: "spath f (Head l) (pre @ rest)" using cur by (simp add: cursor_def)
  obtain v where v: "f e = Some v" using end_slot_live [OF c(2)] by blast
  have nn: "new \<notin> set (pre @ rest)" using chain_in_graph [OF wf sp, of new] new(2) by blast
  then have en: "e \<noteq> Next new" using end_slot_notin e by simp
  have rest: "f' (Next x) = f (Next x)" if "x \<in> set rest" for x
  proof -
    have "x \<notin> set pre" "x \<noteq> new" using that c(3) nn by auto
    then show ?thesis using end_slot_notin [of x pre l] e by (simp add: f')
  qed
  have "spath f' (Next new) rest" using spath_move [OF c(2), of f' "Next new"] rest en by (simp add: f')
  then have "spath f' e (new # rest)" using new(1) en by (simp add: f')
  moreover have "f' s = f s" if "s \<noteq> e" "s \<in> insert (Head l) (Next ` set pre)" for s using that nn by (auto simp: f')
  ultimately have chain: "spath f' (Head l) (pre @ new # rest)" using new_chain [OF c(1)] c(3) unfolding e [symmetric] by auto
  have other: "spath f' (Head l') ps" if "l' \<noteq> l" "spath f (Head l') ps" for l' ps
  proof (rule others_same [OF c(1) that, of "{new}"])
    show "{new} \<inter> set ps = {}" using chain_in_graph [OF wf that(2), of new] new(2) by auto
  qed (use e f' in auto)
  have "f' (Head l') = f (Head l')" if "l' \<noteq> l" for l' using other_head [OF that, of pre] by (simp add: f' e)
  then have up: "upd_list f f' l (pre @ new # rest)" using chain other by (simp add: upd_list_def)
  note fin = wf_tagsD(1) [OF wf]
  note live = wf_tagsD(2) [OF wf]
  have count: "card (ins f' p) = (if p = new then 1 else card (ins f p))" for p
  proof -
    have "0 < card (ins f p)" if "f e = Some p" using that ins_finite [OF fin, of p] by (auto simp: card_gt_0_iff ins_def)
    moreover have "f (Next new) = None" using live [of new] new(2) by blast
    moreover have "f e \<noteq> Some new" using new(3) by (auto simp: ins_def)
    moreover have "card (ins (f(e := Some new)) p) = card (ins f p) - (if v = p then 1 else 0) + (if new = p then 1 else 0)"
      using v by (simp add: card_upd [OF fin])
    moreover have "card (ins f' p) = card (ins (f(e := Some new)) p) + (if v = p then 1 else 0)"
    proof -
      define f1 where "f1 = f(e := Some new)"
      have fin1: "finite {s. f1 s \<noteq> None}" unfolding f1_def by (rule finite_upd [OF fin])
      have "f' = f1(Next new := Some v)" "f1 (Next new) = None" using v en calculation(2) by (simp_all add: f' f1_def)
      then show ?thesis using card_upd [OF fin1, of "Next new" "Some v" p] by (simp flip: f1_def)
    qed
    ultimately show ?thesis using v new(3) by (auto split: if_splits)
  qed
  note live = wf_tagsD(2) [OF wf]
  have "wf_tags f' (g(new \<mapsto> (1, t)))"
  proof (rule wf_upd [OF wf up])
    show "finite {s. f' s \<noteq> None}" unfolding f' by (intro finite_upd fin)
    show "\<forall>p. f' (Next p) \<noteq> None \<longleftrightarrow> (g(new \<mapsto> (1, t))) p \<noteq> None"
    proof
      fix p
      show "f' (Next p) \<noteq> None \<longleftrightarrow> (g(new \<mapsto> (1, t))) p \<noteq> None"
        using live [of p] v by (cases "Next p = e") (auto simp: f')
    qed
    show "(g(new \<mapsto> (1, t))) nullptr = None" using wf new(1) by (simp add: wf_tags_def)
    show "\<forall>p c ta. (g(new \<mapsto> (1, t))) p = Some (c, ta) \<longrightarrow> c = card (ins f' p)" using wf_tagsD(4) [OF wf] count by (auto split: if_splits)
    show "\<forall>p. (g(new \<mapsto> (1, t))) p \<noteq> None \<longrightarrow> p \<in> set (pre @ new # rest) \<or> (\<exists>l' ps. l' \<noteq> l \<and> spath f (Head l') ps \<and> p \<in> set ps)"
    proof (intro allI impI)
      fix p assume "(g(new \<mapsto> (1, t))) p \<noteq> None"
      then have "p = new \<or> (\<exists>l' ps. spath f (Head l') ps \<and> p \<in> set ps)" using wf_tagsD(6) [OF wf, of p] by (auto split: if_splits)
      then show "p \<in> set (pre @ new # rest) \<or> (\<exists>l' ps. l' \<noteq> l \<and> spath f (Head l') ps \<and> p \<in> set ps)"
        using spath_unique [OF sp] by fastforce
    qed
  qed
  then show ?thesis using up by blast
qed

text \<open>A node that belongs to one list alone is taken out and freed.\<close>

lemma delete_node:
  assumes wf: "wf_tags f g" and cur: "cursor f l pre (x # rest)" and one: "card (ins f x) = 1"
    and e: "e = end_slot (Head l) pre" and f': "f' = f(e := f (Next x), Next x := None)"
  shows "upd_list f f' l (pre @ rest) \<and> wf_tags f' (g(x := None))"
proof -
  note c = cursor_facts [OF cur, folded e]
  have sp: "spath f (Head l) (pre @ x # rest)" using cur by (simp add: cursor_def)
  have ox: "owned f l (pre @ [x])" using c(1,2) one e by (simp add: owned_def seg_append)
  have xr: "spath f (Next x) rest" and ex: "f e = Some x" and x0: "x \<noteq> nullptr" using c(2) by simp_all
  obtain v where v: "f (Next x) = Some v" using end_slot_live [OF xr] by blast
  have en: "e \<noteq> Next x" using c(3) end_slot_notin e by simp
  have "f' (Next y) = f (Next y)" if "y \<in> set rest" for y
  proof -
    have "y \<notin> set pre" "y \<noteq> x" using that c(3) by auto
    then show ?thesis using end_slot_notin [of y pre l] e by (simp add: f')
  qed
  then have "spath f' e rest" using spath_move [OF xr, of f' e] en by (simp add: f')
  moreover have "f' s = f s" if "s \<noteq> e" "s \<in> insert (Head l) (Next ` set pre)" for s using that c(3) by (auto simp: f')
  ultimately have chain: "spath f' (Head l) (pre @ rest)" using new_chain [OF c(1)] c(3) unfolding e [symmetric] by auto
  have other: "spath f' (Head l') ps" if "l' \<noteq> l" "spath f (Head l') ps" for l' ps
  proof (rule others_same [OF c(1) that, of "{x}"])
    show "{x} \<inter> set ps = {}" using owned_other [OF ox that] by auto
  qed (use e f' in auto)
  have "f' (Head l') = f (Head l')" if "l' \<noteq> l" for l' using other_head [OF that, of pre] by (simp add: f' e)
  then have up: "upd_list f f' l (pre @ rest)" using chain other by (simp add: upd_list_def)
  note fin = wf_tagsD(1) [OF wf]
  have count: "card (ins f' p) = card (ins f p)" if "p \<noteq> x" for p
  proof -
    define f1 where "f1 = f(e := Some v)"
    have fin1: "finite {s. f1 s \<noteq> None}" unfolding f1_def by (rule finite_upd [OF fin])
    have "card (ins f1 p) = card (ins f p) + (if v = p then 1 else 0)" using ex that by (simp add: f1_def card_upd [OF fin])
    moreover have "f' = f1(Next x := None)" "f1 (Next x) = Some v" using v en by (simp_all add: f' f1_def)
    ultimately show ?thesis using card_upd [OF fin1, of "Next x" None p] by simp
  qed
  note live = wf_tagsD(2) [OF wf]
  have "wf_tags f' (g(x := None))"
  proof (rule wf_upd [OF wf up])
    show "finite {s. f' s \<noteq> None}" unfolding f' by (intro finite_upd fin)
    show "\<forall>p. f' (Next p) \<noteq> None \<longleftrightarrow> (g(x := None)) p \<noteq> None"
    proof
      fix p
      show "f' (Next p) \<noteq> None \<longleftrightarrow> (g(x := None)) p \<noteq> None"
        using live [of p] v ex en by (cases "Next p = e") (auto simp: f')
    qed
    show "(g(x := None)) nullptr = None" using wf by (simp add: wf_tags_def)
    show "\<forall>p c ta. (g(x := None)) p = Some (c, ta) \<longrightarrow> c = card (ins f' p)" using wf_tagsD(4) [OF wf] count by (auto split: if_splits)
    show "\<forall>p. (g(x := None)) p \<noteq> None \<longrightarrow> p \<in> set (pre @ rest) \<or> (\<exists>l' ps. l' \<noteq> l \<and> spath f (Head l') ps \<and> p \<in> set ps)"
    proof (intro allI impI)
      fix p assume "(g(x := None)) p \<noteq> None"
      then have "p \<noteq> x" "\<exists>l' ps. spath f (Head l') ps \<and> p \<in> set ps" using wf_tagsD(6) [OF wf, of p] by (auto split: if_splits)
      then show "p \<in> set (pre @ rest) \<or> (\<exists>l' ps. l' \<noteq> l \<and> spath f (Head l') ps \<and> p \<in> set ps)"
        using spath_unique [OF sp] by fastforce
    qed
  qed
  then show ?thesis using up by blast
qed

text \<open>
  The variable at the position gets another value \<open>v\<close>, from which a chain starts that does not
  meet the nodes before the position; what it pointed to is shared, or null.
\<close>

definition recount :: "ptr \<Rightarrow> ptr \<Rightarrow> payload \<Rightarrow> payload" where
  "recount u v g = (\<lambda>p. map_option (\<lambda>(c, t). (c - (if p = u then 1 else 0) + (if p = v then 1 else 0), t)) (g p))"

lemma shared_elsewhere:
  assumes wf: "wf_tags f g" and cur: "cursor f l pre (u # r)" and shared: "1 < card (ins f u)" and p: "p \<in> set (u # r)"
  shows "\<exists>l' ps. l' \<noteq> l \<and> spath f (Head l') ps \<and> p \<in> set ps"
proof -
  let ?e = "end_slot (Head l) pre"
  note c = cursor_facts [OF cur]
  have sp: "spath f (Head l) (pre @ u # r)" using cur by (simp add: cursor_def)
  have "\<not> ins f u \<subseteq> {?e}" using shared card_mono [of "{?e}" "ins f u"] by auto
  then obtain s where s: "f s = Some u" "s \<noteq> ?e" by (auto simp: ins_def)
  have su: "spath f s (u # r)" using spath_same [OF c(2), of s] s(1) c(2) by simp
  show ?thesis
  proof (cases s)
    case (Head l')
    have "l' \<noteq> l"
    proof
      assume "l' = l"
      then have "spath f s (pre @ u # r)" using sp Head by simp
      then have "u # r = pre @ u # r" by (rule spath_unique [OF su])
      then have "pre = []" by (metis append_self_conv2)
      then show False using s(2) Head \<open>l' = l\<close> by simp
    qed
    then show ?thesis using su p Head by blast
  next
    case (Next q)
    then have "g q \<noteq> None" using wf_tagsD(2) [OF wf, of q] s(1) by simp
    then obtain l' ps where l': "spath f (Head l') ps" "q \<in> set ps" using wf_tagsD(6) [OF wf] by blast
    then obtain as bs where ab: "ps = as @ q # bs" "spath f (Next q) bs" using spath_mid by blast
    then have "spath f s bs" using Next by simp
    then have b: "bs = u # r" using spath_unique [OF su] by blast
    have "l' \<noteq> l"
    proof
      assume "l' = l"
      then have "spath f (Head l) ((as @ [q]) @ u # r)" using l'(1) ab(1) b by simp
      then have "pre @ u # r = (as @ [q]) @ u # r" by (rule spath_unique [OF sp])
      then have "pre = as @ [q]" by simp
      then show False using s(2) Next by simp
    qed
    then show ?thesis using l'(1) ab(1) b p by fastforce
  qed
qed

lemma relink:
  assumes wf: "wf_tags f g" and cur: "cursor f l pre rest" and e: "e = end_slot (Head l) pre" and u: "f e = Some u"
    and shared: "u = nullptr \<or> 1 < card (ins f u)" and tail: "spath f s ps" "f s = Some v" "set pre \<inter> set ps = {}"
    and f': "f' = f(e := Some v)"
  shows "upd_list f f' l (pre @ ps) \<and> wf_tags f' (recount u v g)"
proof -
  note c = cursor_facts [OF cur, folded e]
  have sp: "spath f (Head l) (pre @ rest)" using cur by (simp add: cursor_def)
  have "f' (Next y) = f (Next y)" if "y \<in> set ps" for y
  proof -
    have "y \<notin> set pre" using that tail(3) by auto
    then show ?thesis using end_slot_notin [of y pre l] e by (simp add: f')
  qed
  then have "spath f' e ps" using spath_move [OF tail(1), of f' e] tail(2) by (simp add: f')
  moreover have "f' s = f s" if "s \<noteq> e" "s \<in> insert (Head l) (Next ` set pre)" for s using that by (simp add: f')
  ultimately have chain: "spath f' (Head l) (pre @ ps)" using new_chain [OF c(1)] c(3) unfolding e [symmetric] by auto
  have other: "spath f' (Head l') ps" if "l' \<noteq> l" "spath f (Head l') ps" for l' ps
    by (rule others_same [OF c(1) that, of "{}"]) (use e f' in auto)
  have "f' (Head l') = f (Head l')" if "l' \<noteq> l" for l' using other_head [OF that, of pre] by (simp add: f' e)
  then have up: "upd_list f f' l (pre @ ps)" using chain other by (simp add: upd_list_def)
  note fin = wf_tagsD(1) [OF wf]
  have count: "card (ins f' p) = card (ins f p) - (if p = u then 1 else 0) + (if p = v then 1 else 0)" for p
    using u by (auto simp: f' card_upd [OF fin])
  note live = wf_tagsD(2) [OF wf]
  have "wf_tags f' (recount u v g)"
  proof (rule wf_upd [OF wf up])
    show "finite {s. f' s \<noteq> None}" unfolding f' by (intro finite_upd fin)
    show "\<forall>p. f' (Next p) \<noteq> None \<longleftrightarrow> recount u v g p \<noteq> None"
    proof
      fix p
      show "f' (Next p) \<noteq> None \<longleftrightarrow> recount u v g p \<noteq> None"
        using live [of p] u by (cases "Next p = e") (auto simp: f' recount_def)
    qed
    show "recount u v g nullptr = None" using wf by (simp add: wf_tags_def recount_def)
    show "\<forall>p c t. recount u v g p = Some (c, t) \<longrightarrow> c = card (ins f' p)" using wf_tagsD(4) [OF wf] count by (auto simp: recount_def)
    show "\<forall>p. recount u v g p \<noteq> None \<longrightarrow> p \<in> set (pre @ ps) \<or> (\<exists>l' ps. l' \<noteq> l \<and> spath f (Head l') ps \<and> p \<in> set ps)"
    proof (intro allI impI)
      fix p assume "recount u v g p \<noteq> None"
      then have "g p \<noteq> None" by (simp add: recount_def)
      then obtain l' qs where l': "spath f (Head l') qs" "p \<in> set qs" using wf_tagsD(6) [OF wf] by blast
      show "p \<in> set (pre @ ps) \<or> (\<exists>l' ps. l' \<noteq> l \<and> spath f (Head l') ps \<and> p \<in> set ps)"
      proof (cases "l' = l \<and> p \<in> set rest")
        case True
        then obtain r where r: "rest = u # r" "u \<noteq> nullptr" using c(2) u by (cases rest) auto
        then show ?thesis using shared_elsewhere [OF wf, of l pre u r p] cur shared True by auto
      next
        case False
        then show ?thesis using l' spath_unique [OF sp, of qs] by (cases "l' = l") auto
      qed
    qed
  qed
  then show ?thesis using up by blast
qed

text \<open>Lists come and go.\<close>

lemma head_change:
  assumes wf: "wf_tags f g" and "f (Head l) = None \<and> x = Some nullptr \<or> f (Head l) = Some nullptr \<and> x = None" and f': "f' = f(Head l := x)"
  shows "wf_tags f' g" and "l' \<noteq> l \<Longrightarrow> spath f (Head l') ps \<Longrightarrow> spath f' (Head l') ps"
proof -
  have same: "spath f' (Head l') ps" if "l' \<noteq> l" "spath f (Head l') ps" for l' ps
    by (rule spath_frame [OF that(2)]) (use that(1) f' in auto)
  then show "l' \<noteq> l \<Longrightarrow> spath f (Head l') ps \<Longrightarrow> spath f' (Head l') ps" by blast
  have "ins f' p = ins f p" if "p \<noteq> nullptr" for p using assms(2) that by (auto simp: f' ins_def)
  then have count: "\<forall>p c t. g p = Some (c, t) \<longrightarrow> c = card (ins f' p)" using wf_tagsD(3,4) [OF wf] by (metis option.distinct(1))
  have lists: "\<exists>ps. spath f' (Head l') ps" if "f' (Head l') \<noteq> None" for l'
  proof (cases "l' = l")
    case True
    then have "spath f' (Head l') []" using that assms(2) by (auto simp: f')
    then show ?thesis by blast
  next
    case False
    then have "f (Head l') \<noteq> None" using that by (simp add: f')
    then show ?thesis using same [OF False] wf_tagsD(5) [OF wf] by blast
  qed
  have cover: "\<exists>l ps. spath f' (Head l) ps \<and> p \<in> set ps" if p: "g p \<noteq> None" for p
  proof -
    obtain l' ps where l': "spath f (Head l') ps" "p \<in> set ps" using wf p unfolding wf_tags_def by blast
    then have "l' \<noteq> l" using assms(2) by (cases ps) auto
    then show ?thesis using same l' by blast
  qed
  have "finite {s. f' s \<noteq> None}" unfolding f' using wf by (intro finite_upd) (simp add: wf_tags_def)
  then show "wf_tags f' g" using wf count lists cover by (simp add: wf_tags_def f')
qed

lemma data_change:
  assumes wf: "wf_tags f g" and x: "g x = Some (c, t)"
  shows "wf_tags f (g(x \<mapsto> (c, t')))"
proof -
  have "x \<noteq> nullptr" using x wf_tagsD(3) [OF wf] by (metis option.distinct(1))
  then have n: "(g(x \<mapsto> (c, t'))) nullptr = None" using wf_tagsD(3) [OF wf] by simp
  have d: "(g(x \<mapsto> (c, t'))) p \<noteq> None \<longleftrightarrow> g p \<noteq> None" for p using x by simp
  have "(g(x \<mapsto> (c, t'))) p = Some (k, t'') \<Longrightarrow> k = card (ins f p)" for p k t''
    using x wf_tagsD(4) [OF wf] by (auto split: if_splits)
  then show ?thesis using wf_tagsD(1,2,5,6) [OF wf] n unfolding wf_tags_def d by blast
qed

end
