(* ===== verification/Packet_Tags_Laws.thy ===== *)
theory Packet_Tags_Laws
  imports Tag_Graph
begin

text \<open>
  The operations of \<^verbatim>\<open>PacketTagList\<close> as transformations of the graph of their pointers, and
  the refinement: each list behaves as a list of tags of its own.
\<close>

section \<open>The graph of a heap\<close>

definition slot_val :: "tag_world \<Rightarrow> slots" where
  "slot_val w s = (case s of Head l \<Rightarrow> tw_lists w l | Next p \<Rightarrow> map_option td_next (tw_nodes w p))"

definition pay :: "tag_world \<Rightarrow> payload" where
  "pay w p = map_option (\<lambda>n. (unat (td_count n), td_tid n, td_data n)) (tw_nodes w p)"

definition nodes_ok :: "tag_world \<Rightarrow> bool" where
  "nodes_ok w \<longleftrightarrow> 0 < tw_brk w \<and> (\<forall>p n. tw_nodes w p = Some n \<longrightarrow>
     p < tw_brk w \<and> unat (td_size n) = length (td_data n) \<and> td_size n < 0xffffffff)"

definition repr :: "tag_world \<Rightarrow> slots \<Rightarrow> payload \<Rightarrow> bool" where
  "repr w f g \<longleftrightarrow> slot_val w = f \<and> pay w = g \<and> nodes_ok w"

lemma slot_val_upd [simp]:
  "slot_val (w\<lparr>tw_nodes := (tw_nodes w)(p := n)\<rparr>) = (slot_val w)(Next p := map_option td_next n)"
  "slot_val (w\<lparr>tw_lists := (tw_lists w)(l := v)\<rparr>) = (slot_val w)(Head l := v)"
  "slot_val (w\<lparr>tw_nodes := (tw_nodes w)(p := n), tw_brk := b\<rparr>) = (slot_val w)(Next p := map_option td_next n)"
  by (auto simp: fun_eq_iff slot_val_def split: slot.splits)

lemma pay_upd [simp]:
  "pay (w\<lparr>tw_nodes := (tw_nodes w)(p := n)\<rparr>) = (pay w)(p := map_option (\<lambda>n. (unat (td_count n), td_tid n, td_data n)) n)"
  "pay (w\<lparr>tw_lists := (tw_lists w)(l := v)\<rparr>) = pay w"
  "pay (w\<lparr>tw_nodes := (tw_nodes w)(p := n), tw_brk := b\<rparr>) = (pay w)(p := map_option (\<lambda>n. (unat (td_count n), td_tid n, td_data n)) n)"
  by (auto simp: fun_eq_iff pay_def)

lemma repr_read:
  assumes "repr w f g" and "g p = Some (c, t)"
  obtains n where "tw_nodes w p = Some n" and "unat (td_count n) = c" and "td_tid n = fst t" and "td_data n = snd t"
    and "f (Next p) = Some (td_next n)" and "unat (td_size n) = length (snd t)" and "td_size n < 0xffffffff"
proof -
  obtain n where n: "tw_nodes w p = Some n" "unat (td_count n) = c" "(td_tid n, td_data n) = t"
    using assms by (auto simp: repr_def pay_def)
  moreover have "f (Next p) = Some (td_next n)" using assms(1) n(1) by (auto simp: repr_def slot_val_def)
  moreover have "unat (td_size n) = length (td_data n)" "td_size n < 0xffffffff" using assms(1) n(1) by (auto simp: repr_def nodes_ok_def)
  ultimately show ?thesis using that by auto
qed

lemma recount_null: "g nullptr = None \<Longrightarrow> recount nullptr nullptr g = g"
  by (auto simp: recount_def fun_eq_iff map_option_case split: option.splits)

lemma recount_twice: "g nullptr = None \<Longrightarrow> g u = Some (c, t) \<Longrightarrow> 0 < c \<Longrightarrow> recount nullptr v (recount u nullptr g) = recount u v g"
  by (auto simp: recount_def fun_eq_iff map_option_case split: option.splits)

lemma dec_ok:
  assumes r: "repr w f g" and u: "g u = Some (c, t)" "0 < c" "g nullptr = None"
  shows "\<exists>w'. node_on u (\<lambda>n. n\<lparr>td_count := td_count n - 1\<rparr>) w = Some w' \<and> repr w' f (recount u nullptr g) \<and> tw_brk w' = tw_brk w"
proof -
  obtain n where n: "tw_nodes w u = Some n" "unat (td_count n) = c" "td_tid n = fst t" "td_data n = snd t" "f (Next u) = Some (td_next n)"
    using repr_read [OF r u(1)] by metis
  let ?w = "w\<lparr>tw_nodes := (tw_nodes w)(u \<mapsto> n\<lparr>td_count := td_count n - 1\<rparr>)\<rparr>"
  have c: "unat (td_count n - 1) = c - 1" using n(2) u(2) by (subst unat_minus_no_wrap) (simp_all add: word_le_nat_alt)
  have "u \<noteq> nullptr" using u(1,3) by (metis option.distinct(1))
  then have "pay ?w = recount u nullptr g" using r u n c
    by (auto simp: repr_def recount_def fun_eq_iff map_option_case split: option.splits)
  moreover have "slot_val ?w = f" using r n(5) by (simp add: repr_def fun_upd_idem_iff)
  moreover have "nodes_ok ?w" using r n(1) by (auto simp: repr_def nodes_ok_def)
  ultimately show ?thesis using n(1) by (simp add: node_on_def repr_def)
qed

lemma inc_ok:
  assumes r: "repr w f g" and v: "v = nullptr \<or> (\<exists>c t. g v = Some (c, t) \<and> c + 1 < 2 ^ 32)" "g nullptr = None"
  shows "\<exists>w'. count_inc v w = Some w' \<and> repr w' f (recount nullptr v g) \<and> tw_brk w' = tw_brk w"
proof (cases "v = nullptr")
  case True
  then show ?thesis using r recount_null [of g] v(2) by (simp add: count_inc_def)
next
  case False
  then obtain c t where g: "g v = Some (c, t)" "c + 1 < 2 ^ 32" using v(1) by blast
  obtain n where n: "tw_nodes w v = Some n" "unat (td_count n) = c" "td_tid n = fst t" "td_data n = snd t" "f (Next v) = Some (td_next n)"
    using repr_read [OF r g(1)] by metis
  let ?w = "w\<lparr>tw_nodes := (tw_nodes w)(v \<mapsto> n\<lparr>td_count := td_count n + 1\<rparr>)\<rparr>"
  have c: "unat (td_count n + 1) = c + 1" using n(2) g(2) by (subst unat_Suc_no_wrap) simp_all
  have "pay ?w = recount nullptr v g" using r g n c v(2) False
    by (auto simp: repr_def recount_def fun_eq_iff map_option_case split: option.splits)
  moreover have "slot_val ?w = f" using r n(5) by (simp add: repr_def fun_upd_idem_iff)
  moreover have "nodes_ok ?w" using r n(1) by (auto simp: repr_def nodes_ok_def)
  ultimately show ?thesis using n(1) False by (simp add: count_inc_def node_on_def repr_def)
qed

lemma set_ok:
  assumes r: "repr w f g" and e: "f e \<noteq> None"
  shows "\<exists>w'. slot_set e v w = Some w' \<and> repr w' (f(e := Some v)) g \<and> tw_brk w' = tw_brk w"
proof (cases e)
  case (Head l)
  then show ?thesis using r by (auto simp: repr_def nodes_ok_def)
next
  case (Next p)
  then obtain n where n: "tw_nodes w p = Some n" using r e by (auto simp: repr_def slot_val_def)
  then have "pay w p = Some (unat (td_count n), td_tid n, td_data n)" by (simp add: pay_def)
  then show ?thesis using r n Next by (auto simp: repr_def nodes_ok_def node_on_def fun_upd_idem_iff)
qed

lemma create_ok:
  assumes r: "repr w f g" and n: "td_size n < 0xffffffff" "unat (td_size n) = length (td_data n)"
  shows "\<exists>w'. tag_create n w = Some (tw_brk w, w') \<and> repr w' (f(Next (tw_brk w) := Some (td_next n)))
      (g(tw_brk w \<mapsto> (unat (td_count n), td_tid n, td_data n))) \<and> g (tw_brk w) = None \<and> tw_brk w \<noteq> nullptr"
proof -
  have "tw_nodes w (tw_brk w) = None" using r unfolding repr_def nodes_ok_def by (metis less_irrefl not_None_eq)
  then have "pay w (tw_brk w) = None" by (simp add: pay_def)
  then show ?thesis using r n by (auto simp: tag_create_def repr_def nodes_ok_def less_Suc_eq)
qed

lemma free_ok:
  assumes "repr w f g" and "p \<noteq> nullptr"
  shows "repr (tag_free p w) (f(Next p := None)) (g(p := None)) \<and> tw_brk (tag_free p w) = tw_brk w"
  using assms by (auto simp: repr_def nodes_ok_def tag_free_def)

section \<open>Transformations of one list\<close>

definition tg :: "payload \<Rightarrow> ptr list \<Rightarrow> pkt_tag list" where
  "tg g ps = map (\<lambda>p. snd (the (g p))) ps"

lemma tg_simps [simp]: "tg g [] = []" "tg g (x # xs) = snd (the (g x)) # tg g xs" "tg g (xs @ ys) = tg g xs @ tg g ys"
  by (simp_all add: tg_def)

text \<open>The lists other than \<open>l\<close> are the same, with the same tags.\<close>

definition keeps :: "nat \<Rightarrow> slots \<Rightarrow> payload \<Rightarrow> slots \<Rightarrow> payload \<Rightarrow> bool" where
  "keeps l f g f' g' \<longleftrightarrow> (\<forall>l'. l' \<noteq> l \<longrightarrow> f' (Head l') = f (Head l'))
     \<and> (\<forall>l' ps. l' \<noteq> l \<longrightarrow> spath f (Head l') ps \<longrightarrow> spath f' (Head l') ps \<and> tg g' ps = tg g ps)"

lemma keeps_refl: "keeps l f g f g"
  by (simp add: keeps_def)

lemma keeps_trans: "keeps l f g f' g' \<Longrightarrow> keeps l f' g' f'' g'' \<Longrightarrow> keeps l f g f'' g''"
  unfolding keeps_def by metis

lemma keepsI:
  assumes "upd_list f f' l qs" and "\<And>l' ps x. l' \<noteq> l \<Longrightarrow> spath f (Head l') ps \<Longrightarrow> x \<in> set ps \<Longrightarrow> snd (the (g' x)) = snd (the (g x))"
  shows "keeps l f g f' g'"
  using assms by (simp add: keeps_def upd_list_def tg_def)

definition nslots :: "slots \<Rightarrow> nat" where
  "nslots f = card {s. f s \<noteq> None}"

lemma count_le: "wf_tags f g \<Longrightarrow> g p = Some (c, t) \<Longrightarrow> c \<le> nslots f"
proof -
  assume wf: "wf_tags f g" and p: "g p = Some (c, t)"
  have "card (ins f p) \<le> nslots f" unfolding nslots_def by (rule card_mono [OF wf_tagsD(1) [OF wf]]) (auto simp: ins_def)
  then show ?thesis using wf_tagsD(4) [OF wf p] by simp
qed

lemma count_pos: "wf_tags f g \<Longrightarrow> g p = Some (c, t) \<Longrightarrow> 0 < c"
proof -
  assume wf: "wf_tags f g" and p: "g p = Some (c, t)"
  obtain l ps where "spath f (Head l) ps" "p \<in> set ps" using wf_tagsD(6) [OF wf, of p] p by auto
  then have "ins f p \<noteq> {}" using spath_pred by (fastforce simp: ins_def)
  then show "0 < c" using wf_tagsD(4) [OF wf p] ins_finite [OF wf_tagsD(1) [OF wf], of p] by (simp add: card_gt_0_iff)
qed

lemma cursor_counts:
  assumes "wf_tags f g"
  shows "cursor f l pre rest \<longleftrightarrow> spath f (Head l) (pre @ rest) \<and> (\<forall>x \<in> set pre. \<exists>t. g x = Some (1, t))"
proof -
  have "card (ins f x) = 1 \<longleftrightarrow> (\<exists>t. g x = Some (1, t))" if "spath f (Head l) (pre @ rest)" "x \<in> set pre" for x
  proof -
    have "g x \<noteq> None" using chain_in_graph [OF assms that(1), of x] that(2) by auto
    then obtain c t where "g x = Some (c, t)" by auto
    then show ?thesis using wf_tagsD(4) [OF assms, of x c t] by auto
  qed
  then show ?thesis unfolding cursor_def owned_def using spath_append [of f "Head l" pre rest] by blast
qed

lemma slot_target:
  assumes "wf_tags f g" and "f s = Some p"
  shows "p = nullptr \<or> g p \<noteq> None"
proof -
  have "\<exists>ps. spath f s ps"
  proof (cases s)
    case (Head l)
    then show ?thesis using wf_tagsD(5) [OF assms(1), of l] assms(2) by auto
  next
    case (Next q)
    then have "g q \<noteq> None" using wf_tagsD(2) [OF assms(1), of q] assms(2) by simp
    then obtain l ps where "spath f (Head l) ps" "q \<in> set ps" using wf_tagsD(6) [OF assms(1)] by blast
    then show ?thesis using spath_mid Next by blast
  qed
  then obtain ps where "spath f s ps" by blast
  then show ?thesis using assms chain_in_graph [OF assms(1)] by (cases ps) fastforce+
qed

lemma fresh_ins: "wf_tags f g \<Longrightarrow> g p = None \<Longrightarrow> p \<noteq> nullptr \<Longrightarrow> ins f p = {}"
  using slot_target by (fastforce simp: ins_def)

lemma nslots_upd: "finite {s. f s \<noteq> None} \<Longrightarrow> nslots (f(e := x)) \<le> Suc (nslots f)"
proof -
  assume fin: "finite {s. f s \<noteq> None}"
  have "card {s. (f(e := x)) s \<noteq> None} \<le> card (insert e {s. f s \<noteq> None})" by (rule card_mono) (use fin in auto)
  also have "\<dots> \<le> Suc (card {s. f s \<noteq> None})" by (rule card_insert_le_m1) simp_all
  finally show ?thesis by (simp add: nslots_def)
qed

lemma nslots_same: "f e \<noteq> None \<Longrightarrow> nslots (f(e := Some v)) = nslots f"
proof -
  assume "f e \<noteq> None"
  then have "{s. (f(e := Some v)) s \<noteq> None} = {s. f s \<noteq> None}" by auto
  then show ?thesis by (simp add: nslots_def)
qed

definition st :: "tag_world \<Rightarrow> slots \<Rightarrow> payload \<Rightarrow> bool" where
  "st w f g \<longleftrightarrow> repr w f g \<and> wf_tags f g"

lemma insert_graph:
  assumes wf: "wf_tags f g" and cur: "cursor f l pre rest" and new: "g p = None" "p \<noteq> nullptr" and e: "e = end_slot (Head l) pre" "f e = Some v"
    and f': "f' = (f(Next p := Some v))(e := Some p)" and g': "g' = g(p \<mapsto> (1, t))"
  shows "e \<noteq> Next p \<and> wf_tags f' g' \<and> cursor f' l (pre @ [p]) rest
    \<and> tg g' (pre @ p # rest) = tg g pre @ t # tg g rest \<and> keeps l f g f' g' \<and> nslots f' \<le> Suc (nslots f)"
proof -
  note sp = cur [unfolded cursor_counts [OF wf]]
  have out: "p \<notin> set (pre @ rest)" using chain_in_graph [OF wf, of "Head l" "pre @ rest" p] sp new(1) by blast
  then have en: "e \<noteq> Next p" using e(1) end_slot_notin by simp
  have feq: "f' = f(e := Some p, Next p := f e)" using en e(2) by (simp add: f' fun_upd_twist)
  have ins: "upd_list f f' l (pre @ p # rest)" "wf_tags f' g'"
    using insert_node [OF wf cur new(2,1) fresh_ins [OF wf new] e(1) feq] g' by blast+
  have "snd (the (g' x)) = snd (the (g x))" if "spath f (Head l') ps" "x \<in> set ps" for l' ps x
    using chain_in_graph [OF wf that] new(1) by (auto simp: g')
  then have k: "keeps l f g f' g'" using keepsI [OF ins(1)] by blast
  have c: "cursor f' l (pre @ [p]) rest" unfolding cursor_counts [OF ins(2)] using ins(1) sp by (auto simp: upd_list_def g')
  have tags: "tg g' (pre @ p # rest) = tg g pre @ t # tg g rest" using out by (auto simp: tg_def g')
  have "nslots f' \<le> Suc (nslots f)"
    using nslots_upd [of "f(e := Some p)" "Next p" "f e"] nslots_same [of f e p] e(2) finite_upd [OF wf_tagsD(1) [OF wf], of e "Some p"]
    by (simp add: feq)
  then show ?thesis using ins(2) c tags k en by blast
qed

lemma insert_ok:
  assumes st: "st w f g" and cur: "cursor f l pre rest" and e: "e = end_slot (Head l) pre" "f e = Some (td_next n)"
    and n: "td_count n = 1" "td_size n < 0xffffffff" "unat (td_size n) = length (td_data n)"
  shows "\<exists>w1 w' f' g' p. tag_create n w = Some (p, w1) \<and> slot_set e p w1 = Some w' \<and> st w' f' g' \<and> cursor f' l (pre @ [p]) rest
    \<and> tg g' (pre @ p # rest) = tg g pre @ (td_tid n, td_data n) # tg g rest \<and> keeps l f g f' g'"
proof -
  let ?p = "tw_brk w"
  have r: "repr w f g" and wf: "wf_tags f g" using st by (simp_all add: st_def)
  obtain w1 where w1: "tag_create n w = Some (?p, w1)" "repr w1 (f(Next ?p := Some (td_next n))) (g(?p \<mapsto> (1, td_tid n, td_data n)))"
    "g ?p = None" "?p \<noteq> nullptr" using create_ok [OF r n(2,3)] n(1) by auto
  note ins = insert_graph [OF wf cur w1(3,4) e refl refl, of "(td_tid n, td_data n)"]
  obtain w' where "slot_set e ?p w1 = Some w'" "repr w' ((f(Next ?p := Some (td_next n)))(e := Some ?p)) (g(?p \<mapsto> (1, td_tid n, td_data n)))"
    using set_ok [OF w1(2), of e ?p] e(2) conjunct1 [OF ins] by auto
  then show ?thesis using w1(1) ins unfolding st_def by blast
qed

lemma delete_ok:
  assumes st: "st w f g" and cur: "cursor f l pre (x # rest)" and x: "g x = Some (1, t)" and e: "e = end_slot (Head l) pre"
  shows "\<exists>v w1 f' g'. f (Next x) = Some v \<and> slot_set e v w = Some w1 \<and> st (tag_free x w1) f' g' \<and> spath f' (Head l) (pre @ rest)
    \<and> tg g' (pre @ rest) = tg g pre @ tg g rest \<and> keeps l f g f' g'"
proof -
  have r: "repr w f g" and wf: "wf_tags f g" using st by (simp_all add: st_def)
  note c = cursor_facts [OF cur, folded e]
  obtain v where v: "f (Next x) = Some v" using c(2) end_slot_live [of f "Next x" rest] by auto
  have en: "e \<noteq> Next x" "x \<noteq> nullptr" using c(2,3) end_slot_notin e by auto
  obtain w1 where w1: "slot_set e v w = Some w1" "repr w1 (f(e := Some v)) g" using set_ok [OF r, of e v] c(2) by auto
  let ?f = "f(e := f (Next x), Next x := None)" and ?g = "g(x := None)"
  have rf: "repr (tag_free x w1) ?f ?g" using free_ok [OF w1(2) en(2)] v by simp
  have one: "card (ins f x) = 1" using wf_tagsD(4) [OF wf x] by simp
  note del = delete_node [OF wf cur one e refl]
  have "owned f l (pre @ [x])" using c(1,2) one e by (simp add: owned_def seg_append)
  then have "set (pre @ [x]) \<inter> set ps = {}" if "l' \<noteq> l" "spath f (Head l') ps" for l' ps by (rule owned_other [OF _ that])
  then have "snd (the (?g y)) = snd (the (g y))" if "l' \<noteq> l" "spath f (Head l') ps" "y \<in> set ps" for l' ps y
    using that by fastforce
  then have "keeps l f g ?f ?g" using keepsI del by blast
  moreover have "tg ?g (pre @ rest) = tg g pre @ tg g rest" using c(3) by (auto simp: tg_def)
  ultimately show ?thesis using v w1(1) rf del unfolding st_def upd_list_def by blast
qed

lemma relink_ok:
  assumes wf: "wf_tags f g" and cur: "cursor f l pre rest" and e: "e = end_slot (Head l) pre" "f e = Some u"
    and u: "u = nullptr \<or> (\<exists>c t. g u = Some (c, t) \<and> 1 < c)" and tail: "spath f s ps" "f s = Some v" "set pre \<inter> set ps = {}"
  shows "wf_tags (f(e := Some v)) (recount u v g) \<and> cursor (f(e := Some v)) l pre ps
    \<and> tg (recount u v g) (pre @ ps) = tg g pre @ tg g ps \<and> keeps l f g (f(e := Some v)) (recount u v g)"
proof -
  have "u = nullptr \<or> 1 < card (ins f u)" using u wf_tagsD(4) [OF wf] by auto
  note re = relink [OF wf cur e this tail refl]
  have sp: "spath f (Head l) (pre @ rest)" and one: "\<forall>x \<in> set pre. \<exists>t. g x = Some (1, t)" using cur cursor_counts [OF wf] by auto
  have same: "snd (the (recount u v g x)) = snd (the (g x))" if "g x \<noteq> None" for x
    using that by (auto simp: recount_def case_prod_beta)
  have "tg (recount u v g) (pre @ ps) = tg g pre @ tg g ps"
    using same chain_in_graph [OF wf tail(1)] one unfolding tg_simps tg_def by fastforce
  moreover have "keeps l f g (f(e := Some v)) (recount u v g)"
    by (rule keepsI [OF conjunct1 [OF re]]) (use same chain_in_graph [OF wf] in blast)
  moreover have "cursor (f(e := Some v)) l pre ps"
  proof -
    have "x \<noteq> nullptr" if "x \<in> set pre" for x using that spath_nonnull [OF sp] by (metis UnI1 set_append)
    then have "x \<noteq> v" "x \<noteq> u" if "x \<in> set pre" for x using that tail one u by (cases ps; fastforce)+
    then have "\<forall>x \<in> set pre. \<exists>t. recount u v g x = Some (1, t)" using one by (fastforce simp: recount_def)
    then show ?thesis using re cursor_counts [of "f(e := Some v)" "recount u v g"] by (simp add: upd_list_def)
  qed
  ultimately show ?thesis using re by blast
qed

text \<open>A shared node is replaced by a copy, possibly with another tag.\<close>

lemma copy_ok:
  assumes st: "st w f g" and cur: "cursor f l pre (x # rest)" and x: "g x = Some (c, t)" "1 < c"
    and e: "e = end_slot (Head l) pre" and v: "f (Next x) = Some v" "td_next n = v"
    and n: "td_count n = 1" "td_size n < 0xffffffff" "unat (td_size n) = length (td_data n)" and room: "nslots f + 2 < 2 ^ 32"
  shows "\<exists>w1 p w2 w3 w' f' g'. node_on x (\<lambda>n. n\<lparr>td_count := td_count n - 1\<rparr>) w = Some w1 \<and> tag_create n w1 = Some (p, w2)
    \<and> count_inc v w2 = Some w3 \<and> slot_set e p w3 = Some w' \<and> st w' f' g' \<and> cursor f' l (pre @ [p]) rest
    \<and> tg g' (pre @ p # rest) = tg g pre @ (td_tid n, td_data n) # tg g rest \<and> keeps l f g f' g' \<and> nslots f' \<le> Suc (nslots f)
    \<and> (v \<noteq> nullptr \<longrightarrow> (\<exists>c t. g' v = Some (c, t) \<and> 1 < c))"
proof -
  have r: "repr w f g" and wf: "wf_tags f g" using st by (simp_all add: st_def)
  note c = cursor_facts [OF cur, folded e]
  have nul: "g nullptr = None" using wf_tagsD(3) [OF wf] .
  have ex: "f e = Some x" "spath f (Next x) rest" "x \<noteq> nullptr" using c(2) by simp_all
  obtain w1 where w1: "node_on x (\<lambda>n. n\<lparr>td_count := td_count n - 1\<rparr>) w = Some w1" "repr w1 f (recount x nullptr g)" "tw_brk w1 = tw_brk w"
    using dec_ok [OF r x(1) _ nul] x(2) by auto
  let ?p = "tw_brk w1"
  obtain w2 where w2: "tag_create n w1 = Some (?p, w2)"
    "repr w2 (f(Next ?p := Some v)) ((recount x nullptr g)(?p \<mapsto> (1, td_tid n, td_data n)))" "recount x nullptr g ?p = None" "?p \<noteq> nullptr"
    using create_ok [OF w1(2) n(2,3)] n(1) v(2) by auto
  have gp: "g ?p = None" using w2(3) by (simp add: recount_def)
  have vp: "v \<noteq> ?p" using slot_target [OF wf v(1)] gp w2(4) by auto
  have "v = nullptr \<or> (\<exists>k u. ((recount x nullptr g)(?p \<mapsto> (1, td_tid n, td_data n))) v = Some (k, u) \<and> k + 1 < 2 ^ 32)"
  proof (cases "v = nullptr")
    case False
    then obtain k u where k: "g v = Some (k, u)" using slot_target [OF wf v(1)] by auto
    then have "k \<le> nslots f" using count_le [OF wf] by blast
    then have "k - 1 + 1 < 2 ^ 32" "k + 1 < 2 ^ 32" using room by simp_all
    then show ?thesis using k vp by (auto simp: recount_def)
  qed simp
  then obtain w3 where w3: "count_inc v w2 = Some w3"
    "repr w3 (f(Next ?p := Some v)) (recount nullptr v ((recount x nullptr g)(?p \<mapsto> (1, td_tid n, td_data n))))"
    using inc_ok [OF w2(2), of v] nul w2(4) by (auto simp: recount_def)
  have geq: "recount nullptr v ((recount x nullptr g)(?p \<mapsto> (1, td_tid n, td_data n))) = (recount x v g)(?p \<mapsto> (1, td_tid n, td_data n))"
    using recount_twice [OF nul x(1), of v] x(2) vp w2(4) by (auto simp: fun_eq_iff recount_def)
  let ?f1 = "f(e := Some v)" and ?g1 = "recount x v g"
  have disj: "set pre \<inter> set rest = {}" using c(3) by auto
  have re: "wf_tags ?f1 ?g1" "cursor ?f1 l pre rest" "tg ?g1 (pre @ rest) = tg g pre @ tg g rest" "keeps l f g ?f1 ?g1"
    using relink_ok [OF wf cur e ex(1) _ ex(2) v(1) disj] x by auto
  have g1p: "?g1 ?p = None" using gp by (simp add: recount_def)
  let ?f2 = "(?f1(Next ?p := Some v))(e := Some ?p)" and ?g2 = "?g1(?p \<mapsto> (1, td_tid n, td_data n))"
  have ins: "wf_tags ?f2 ?g2" "cursor ?f2 l (pre @ [?p]) rest" "keeps l ?f1 ?g1 ?f2 ?g2" "nslots ?f2 \<le> Suc (nslots ?f1)"
    "tg ?g2 (pre @ ?p # rest) = tg ?g1 pre @ (td_tid n, td_data n) # tg ?g1 rest" "e \<noteq> Next ?p"
    using insert_graph [OF re(1,2) g1p w2(4) e _ refl refl, of v "(td_tid n, td_data n)"] by auto
  have f2: "?f2 = (f(Next ?p := Some v))(e := Some ?p)" using ins(6) by (auto simp: fun_eq_iff)
  obtain w' where w': "slot_set e ?p w3 = Some w'" "repr w' ?f2 ?g2"
    using set_ok [OF w3(2), of e ?p] ex(1) ins(6) unfolding geq f2 by auto
  have len: "length (tg ?g1 pre) = length (tg g pre)" by (simp add: tg_def)
  have "tg ?g2 (pre @ ?p # rest) = tg g pre @ (td_tid n, td_data n) # tg g rest" using ins(5) re(3) len by simp
  moreover have "\<exists>k u. ?g2 v = Some (k, u) \<and> 1 < k" if nz: "v \<noteq> nullptr"
  proof -
    obtain k u where k: "g v = Some (k, u)" using slot_target [OF wf v(1)] nz by auto
    have "v \<noteq> x" using c(3) ex(2) v(1) nz by (cases rest) auto
    then show ?thesis using k vp count_pos [OF wf k] by (simp add: recount_def)
  qed
  moreover have "nslots ?f2 \<le> Suc (nslots f)" using ins(4) nslots_same [of f e v] ex(1) by simp
  ultimately show ?thesis using w1(1) w2(1) w3(1) w' ins(1,2) keeps_trans [OF re(4) ins(3)] unfolding st_def by blast
qed

section \<open>The loops\<close>

definition hd0 :: "ptr list \<Rightarrow> ptr" where
  "hd0 ps = (case ps of [] \<Rightarrow> nullptr | x # _ \<Rightarrow> x)"

lemma hd0_simps [simp]: "hd0 [] = nullptr" "hd0 (x # xs) = x"
  by (simp_all add: hd0_def)

lemma spath_hd: "spath f s ps \<Longrightarrow> f s = Some (hd0 ps)"
  by (cases ps) auto

text \<open>A node of a list, as the code reads it.\<close>

lemma read_node:
  assumes "st w f g" and "spath f s (x # xs)"
  obtains n c t where "tw_nodes w x = Some n" and "g x = Some (c, t)" and "unat (td_count n) = c" and "td_tid n = fst t" and "td_data n = snd t"
    and "td_next n = hd0 xs" and "take (unat (td_size n)) (td_data n) = snd t" and "unat (td_size n) = length (td_data n)"
    and "td_size n < 0xffffffff" and "0 < c" and "x \<noteq> nullptr" and "td_count n > 1 \<longleftrightarrow> 1 < c"
proof -
  have r: "repr w f g" and wf: "wf_tags f g" using assms(1) by (simp_all add: st_def)
  have "g x \<noteq> None" using chain_in_graph [OF wf assms(2)] by simp
  then obtain c t where g: "g x = Some (c, t)" by auto
  obtain n where n: "tw_nodes w x = Some n" "unat (td_count n) = c" "td_tid n = fst t" "td_data n = snd t" "f (Next x) = Some (td_next n)"
    "unat (td_size n) = length (snd t)" "td_size n < 0xffffffff" using repr_read [OF r g] by metis
  have "spath f (Next x) xs" "x \<noteq> nullptr" using assms(2) by simp_all
  then have "td_next n = hd0 xs" using spath_hd [of f "Next x" xs] n(5) by simp
  moreover have "td_count n > 1 \<longleftrightarrow> 1 < c" using n(2) by (simp add: word_less_nat_alt)
  moreover have "0 < c" using count_pos [OF wf g] .
  ultimately show ?thesis using that [OF n(1) g] n \<open>x \<noteq> nullptr\<close> by simp
qed

lemma read_known:
  assumes "st w f g" and "spath f s (x # xs)" and "g x = Some (c, t)"
  obtains n where "tw_nodes w x = Some n" and "unat (td_count n) = c" and "td_tid n = fst t" and "td_data n = snd t"
    and "td_next n = hd0 xs" and "take (unat (td_size n)) (td_data n) = snd t" and "unat (td_size n) = length (td_data n)"
    and "td_size n < 0xffffffff" and "td_count n > 1 \<longleftrightarrow> 1 < c"
  by (rule read_node [OF assms(1,2)]) (use assms(3) that in auto)

lemma find_ok:
  assumes "st w f g" and "spath f s ps"
  shows "cow_find tid (hd0 ps) w = Some (map_of (tg g ps) tid)"
  using assms(2)
proof (induction ps arbitrary: s)
  case Nil
  then show ?case by (subst cow_find.simps) simp
next
  case (Cons x xs)
  obtain n c t where n: "tw_nodes w x = Some n" "g x = Some (c, t)" "td_tid n = fst t" "td_next n = hd0 xs"
    "take (unat (td_size n)) (td_data n) = snd t" "x \<noteq> nullptr" using read_node [OF assms(1) Cons.prems] by metis
  have "spath f (Next x) xs" using Cons.prems by simp
  then show ?case using n Cons.IH by (subst cow_find.simps) (cases t, simp)
qed

lemma cursor_shift: "wf_tags f g \<Longrightarrow> cursor f l pre (x # rest) \<Longrightarrow> g x = Some (1, t) \<Longrightarrow> cursor f l (pre @ [x]) rest"
  by (auto simp: cursor_counts)

lemma search_ok:
  assumes "st w f g" and "cursor f l pre rest"
  shows "\<exists>mid rest' b. rest = mid @ rest' \<and> cow_search tid (end_slot (Head l) pre) (hd0 rest) w = Some (b, end_slot (Head l) (pre @ mid), hd0 rest')
    \<and> cursor f l (pre @ mid) rest' \<and> tid \<notin> fst ` set (tg g mid)
    \<and> (case rest' of [] \<Rightarrow> \<not> b | x # _ \<Rightarrow> \<exists>c t. g x = Some (c, t) \<and> (if b then c = 1 \<and> fst t = tid else 1 < c))"
  using assms(2)
proof (induction rest arbitrary: pre)
  case Nil
  then show ?case by (intro exI [of _ "[]"] exI [of _ "[]"] exI [of _ False]) (subst cow_search.simps, simp)
next
  case (Cons x rest)
  have wf: "wf_tags f g" using assms(1) by (simp add: st_def)
  have sp: "spath f (end_slot (Head l) pre) (x # rest)" using cursor_facts(2) [OF Cons.prems] .
  obtain n c t where n: "tw_nodes w x = Some n" "g x = Some (c, t)" "td_tid n = fst t" "td_next n = hd0 rest"
    "0 < c" "x \<noteq> nullptr" "td_count n > 1 \<longleftrightarrow> 1 < c" using read_node [OF assms(1) sp] by metis
  show ?case
  proof (cases "1 < c \<or> fst t = tid")
    case True
    then show ?thesis using n Cons.prems
      by (intro exI [of _ "[]"] exI [of _ "x # rest"] exI [of _ "\<not> 1 < c"]) (subst cow_search.simps, auto)
  next
    case False
    then have c1: "c = 1" using n(5) by simp
    then obtain mid rest' b where m: "rest = mid @ rest'"
      "cow_search tid (Next x) (hd0 rest) w = Some (b, end_slot (Head l) ((pre @ [x]) @ mid), hd0 rest')"
      "cursor f l ((pre @ [x]) @ mid) rest'" "tid \<notin> fst ` set (tg g mid)"
      "case rest' of [] \<Rightarrow> \<not> b | x # _ \<Rightarrow> \<exists>c t. g x = Some (c, t) \<and> (if b then c = 1 \<and> fst t = tid else 1 < c)"
      using Cons.IH [OF cursor_shift [OF wf Cons.prems]] n(2) by (auto simp del: append_assoc)
    have "cow_search tid (end_slot (Head l) pre) x w = cow_search tid (Next x) (hd0 rest) w"
      using n False by (subst cow_search.simps) simp
    moreover have "tid \<notin> fst ` set (tg g (x # mid))" using m(4) n(2) False by auto
    ultimately show ?thesis using m(1-3,5) by (intro exI [of _ "x # mid"] exI [of _ rest'] exI [of _ b]) simp
  qed
qed

lemma copy_loop_ok:
  assumes "st w f g" and "cursor f l pre (mid @ x # r)" and "\<exists>c t. g (hd0 (mid @ [x])) = Some (c, t) \<and> 1 < c"
    and "tid \<notin> fst ` set (tg g mid)" and "fst (snd (the (g x))) = tid" and "nslots f + length mid + 2 < 2 ^ 32"
  shows "\<exists>pre' w' f' g'. cow_copy tid (end_slot (Head l) pre) (hd0 (mid @ [x])) w = Some (end_slot (Head l) pre', x, w') \<and> st w' f' g'
    \<and> cursor f' l pre' (x # r) \<and> tg g' pre' = tg g pre @ tg g mid \<and> tg g' (x # r) = tg g (x # r) \<and> keeps l f g f' g'
    \<and> (\<exists>c t. g' x = Some (c, t) \<and> 1 < c) \<and> nslots f' \<le> nslots f + length mid"
  using assms
proof (induction mid arbitrary: pre w f g)
  case Nil
  have sp: "spath f (end_slot (Head l) pre) (x # r)" using cursor_facts(2) [OF Nil(2)] by simp
  obtain n c t where n: "tw_nodes w x = Some n" "g x = Some (c, t)" "td_tid n = fst t" using read_node [OF Nil(1) sp] by metis
  then have "cow_copy tid (end_slot (Head l) pre) x w = Some (end_slot (Head l) pre, x, w)" using Nil(5) by (subst cow_copy.simps) simp
  then show ?case using Nil keeps_refl [of l f g] by (intro exI [of _ pre] exI [of _ w] exI [of _ f] exI [of _ g]) simp
next
  case (Cons y mid)
  let ?rest = "mid @ x # r"
  have sp: "spath f (end_slot (Head l) pre) (y # ?rest)" using cursor_facts(2) [OF Cons.prems(2)] by simp
  obtain n c t where n: "tw_nodes w y = Some n" "g y = Some (c, t)" "unat (td_count n) = c" "td_tid n = fst t" "td_data n = snd t"
    "td_next n = hd0 ?rest" "unat (td_size n) = length (td_data n)" "td_size n < 0xffffffff" "td_count n > 1 \<longleftrightarrow> 1 < c"
    using read_node [OF Cons.prems(1) sp] by metis
  have c: "1 < c" using Cons.prems(3) n(2) by auto
  have tid: "fst t \<noteq> tid" using Cons.prems(4) n(2) by auto
  have v: "f (Next y) = Some (hd0 ?rest)" using sp spath_hd [of f "Next y" ?rest] by simp
  have hd: "hd0 ?rest = hd0 (mid @ [x])" "hd0 (mid @ [x]) \<noteq> nullptr" using sp by (cases mid; simp)+
  obtain w1 p w2 w3 w4 f' g' where s: "node_on y (\<lambda>n. n\<lparr>td_count := td_count n - 1\<rparr>) w = Some w1"
    "tag_create (n\<lparr>td_count := 1\<rparr>) w1 = Some (p, w2)" "count_inc (hd0 ?rest) w2 = Some w3" "slot_set (end_slot (Head l) pre) p w3 = Some w4"
    "st w4 f' g'" "cursor f' l (pre @ [p]) ?rest" "tg g' (pre @ p # ?rest) = tg g pre @ (td_tid n, td_data n) # tg g ?rest"
    "keeps l f g f' g'" "nslots f' \<le> Suc (nslots f)" "hd0 ?rest \<noteq> nullptr \<longrightarrow> (\<exists>c t. g' (hd0 ?rest) = Some (c, t) \<and> 1 < c)"
    using copy_ok [OF Cons.prems(1) _ n(2) c refl v, where rest = ?rest and n = "n\<lparr>td_count := 1\<rparr>" and l = l and pre = pre] Cons.prems(2,6) n by auto
  have tags: "tg g' (pre @ [p]) = tg g pre @ [t]" "tg g' mid = tg g mid" "tg g' (x # r) = tg g (x # r)"
    using s(7) n(4,5) by (simp_all add: tg_def)
  have "\<exists>pre' w' f'' g''. cow_copy tid (Next p) (hd0 (mid @ [x])) w4 = Some (end_slot (Head l) pre', x, w') \<and> st w' f'' g''
    \<and> cursor f'' l pre' (x # r) \<and> tg g'' pre' = tg g' (pre @ [p]) @ tg g' mid \<and> tg g'' (x # r) = tg g' (x # r) \<and> keeps l f' g' f'' g''
    \<and> (\<exists>c t. g'' x = Some (c, t) \<and> 1 < c) \<and> nslots f'' \<le> nslots f' + length mid"
    using Cons.IH [OF s(5,6)] hd s(9,10) Cons.prems(4-6) tags by auto
  then obtain pre' w' f'' g'' where i: "cow_copy tid (Next p) (hd0 (mid @ [x])) w4 = Some (end_slot (Head l) pre', x, w')" "st w' f'' g''"
    "cursor f'' l pre' (x # r)" "tg g'' pre' = tg g' (pre @ [p]) @ tg g' mid" "tg g'' (x # r) = tg g' (x # r)" "keeps l f' g' f'' g''"
    "\<exists>c t. g'' x = Some (c, t) \<and> 1 < c" "nslots f'' \<le> nslots f' + length mid" by blast
  have inc: "node_on (td_next n) (\<lambda>n. n\<lparr>td_count := td_count n + 1\<rparr>) w2 = Some w3"
    using s(3) hd n(6) by (simp add: count_inc_def)
  have "cow_copy tid (end_slot (Head l) pre) y w = cow_copy tid (Next p) (hd0 (mid @ [x])) w4"
    using n(1,4,9) c tid s(1,2,4) inc hd n(6) by (subst cow_copy.simps) (simp add: bind_ns_assert)
  moreover have "tg g'' pre' = tg g pre @ tg g (y # mid)" using i(4) tags n(2) by simp
  moreover have "nslots f'' \<le> nslots f + length (y # mid)" using i(8) s(9) by simp
  ultimately show ?case using i tags(3) keeps_trans [OF s(8) i(6)] by (intro exI [of _ pre'] exI [of _ w'] exI [of _ f''] exI [of _ g'']) simp
qed

end
