(* ===== verification/Packet_Tags_Refine.thy ===== *)
theory Packet_Tags_Refine
  imports Packet_Tags_Laws
begin

text \<open>
  Copy-on-write, once for the two writers, and the refinement: any number of lists that share
  their nodes behave as so many lists of tags.
\<close>

section \<open>Traversal\<close>

text \<open>The list of tags with the first tag of the type \<open>tid\<close> replaced by \<open>h t\<close>.\<close>

fun tags_upd :: "(pkt_tag \<Rightarrow> pkt_tag list) \<Rightarrow> u16 \<Rightarrow> pkt_tag list \<Rightarrow> pkt_tag list" where
  "tags_upd h tid [] = []"
| "tags_upd h tid (t # ts) = (if fst t = tid then h t @ ts else t # tags_upd h tid ts)"

definition tags_find :: "u16 \<Rightarrow> pkt_tag list \<Rightarrow> pkt_tag option" where
  "tags_find tid ts = find (\<lambda>t. fst t = tid) ts"

lemma tags_absent: "tid \<notin> fst ` set ts \<Longrightarrow> tags_upd h tid ts = ts \<and> tags_find tid ts = None"
  by (induction ts) (auto simp: tags_find_def)

lemma tags_present:
  "tid \<notin> fst ` set a \<Longrightarrow> fst t = tid \<Longrightarrow> tags_upd h tid (a @ t # b) = a @ h t @ b \<and> tags_find tid (a @ t # b) = Some t"
  by (induction a) (auto simp: tags_find_def)

lemma map_of_find: "map_of ts tid = map_option snd (tags_find tid ts)"
  by (induction ts) (auto simp: tags_find_def)

lemma map_of_split: "map_of ts tid = Some v \<Longrightarrow> \<exists>a t b. ts = a @ t # b \<and> tid \<notin> fst ` set a \<and> fst t = tid"
proof (induction ts)
  case (Cons t ts)
  show ?case
  proof (cases "fst t = tid")
    case True
    then have "t # ts = [] @ t # ts \<and> tid \<notin> fst ` set [] \<and> fst t = tid" by simp
    then show ?thesis by blast
  next
    case False
    then obtain a t' b where "ts = a @ t' # b" "tid \<notin> fst ` set a" "fst t' = tid" using Cons by (auto split: if_splits)
    then have "t # ts = (t # a) @ t' # b \<and> tid \<notin> fst ` set (t # a) \<and> fst t' = tid" using False by auto
    then show ?thesis by blast
  qed
qed simp

lemma tg_split: "tg g ps = A @ u # B \<Longrightarrow> \<exists>ma y rb. ps = ma @ y # rb \<and> tg g ma = A \<and> snd (the (g y)) = u \<and> tg g rb = B"
  by (auto simp: tg_def map_eq_append_conv map_eq_Cons_conv)

text \<open>
  What the traversal relies on: a writer that is called at a node with the tag of the type,
  which belongs to the list alone or is shared, answers \<open>out\<close> and puts \<open>h\<close> in its place.
\<close>

locale cow =
  fixes writer :: cow_writer
    and out :: "pkt_tag \<Rightarrow> u8 list"
    and h :: "pkt_tag \<Rightarrow> pkt_tag list"
    and adm :: "pkt_tag \<Rightarrow> bool"
  assumes writer_ok: "st w f g \<Longrightarrow> cursor f l pre (x # r) \<Longrightarrow> g x = Some (c, t) \<Longrightarrow> adm t \<Longrightarrow> (if b then c = 1 else 1 < c)
    \<Longrightarrow> nslots f + 2 < 2 ^ 32 \<Longrightarrow> \<exists>w' f' g' ps. writer b x (end_slot (Head l) pre) w = Some (out t, w') \<and> st w' f' g'
      \<and> spath f' (Head l) ps \<and> tg g' ps = tg g pre @ h t @ tg g r \<and> keeps l f g f' g'"
begin

lemma traverse:
  assumes st: "st w f g" and sp: "spath f (Head l) ps" and room: "nslots f + length ps + 2 < 2 ^ 32"
    and adm: "\<forall>t \<in> set (tg g ps). fst t = tid \<longrightarrow> adm t"
  shows "\<exists>w' f' g' ps'. tag_COWTraverse writer tid l w = Some (map_option out (tags_find tid (tg g ps)), w') \<and> st w' f' g'
    \<and> spath f' (Head l) ps' \<and> tg g' ps' = tags_upd h tid (tg g ps) \<and> keeps l f g f' g'"
proof (cases "ps = []")
  case True
  have "tw_lists w l = f (Head l)" using st by (auto simp: st_def repr_def slot_val_def)
  then have "tag_COWTraverse writer tid l w = Some (None, w)" using sp True by (simp add: tag_COWTraverse_def)
  then show ?thesis using st sp True keeps_refl [of l f g] by (intro exI [of _ w] exI [of _ f] exI [of _ g] exI [of _ "[]"]) (simp add: tags_find_def)
next
  case False
  have wf: "wf_tags f g" using st by (simp add: st_def)
  have nl: "tw_lists w l = Some (hd0 ps)" using st spath_hd [OF sp] by (auto simp: st_def repr_def slot_val_def)
  have hd: "hd0 ps \<noteq> nullptr" using sp False by (cases ps) auto
  have "cursor f l [] ps" using sp by (simp add: cursor_def owned_def)
  from search_ok [OF st this, of tid] obtain mid rest b where m: "ps = mid @ rest"
    "cow_search tid (Head l) (hd0 ps) w = Some (b, end_slot (Head l) mid, hd0 rest)" "cursor f l mid rest" "tid \<notin> fst ` set (tg g mid)"
    "case rest of [] \<Rightarrow> \<not> b | x # _ \<Rightarrow> \<exists>c t. g x = Some (c, t) \<and> (if b then c = 1 \<and> fst t = tid else 1 < c)"
    by auto
  have unchanged: "\<exists>w' f' g' ps'. tag_COWTraverse writer tid l w = Some (map_option out (tags_find tid (tg g ps)), w') \<and> st w' f' g'
    \<and> spath f' (Head l) ps' \<and> tg g' ps' = tags_upd h tid (tg g ps) \<and> keeps l f g f' g'" if "tid \<notin> fst ` set (tg g ps)" "tag_COWTraverse writer tid l w = Some (None, w)"
    using that tags_absent [OF that(1)] st sp keeps_refl [of l f g] by (intro exI [of _ w] exI [of _ f] exI [of _ g] exI [of _ ps]) simp
  show ?thesis
  proof (cases rest)
    case Nil
    then have "tid \<notin> fst ` set (tg g ps)" "tag_COWTraverse writer tid l w = Some (None, w)"
      using m nl hd by (simp_all add: tag_COWTraverse_def)
    then show ?thesis by (rule unchanged)
  next
    case (Cons x r)
    then obtain c t where x: "g x = Some (c, t)" "if b then c = 1 \<and> fst t = tid else 1 < c" using m(5) by auto
    have x0: "x \<noteq> nullptr" "spath f (end_slot (Head l) mid) (x # r)" using cursor_facts(2) [OF m(3)] Cons by auto
    show ?thesis
    proof (cases b)
      case True
      have tags: "tg g ps = tg g mid @ t # tg g r" using m(1) Cons x(1) by simp
      then have "adm t" using adm x(2) True by simp
      then obtain w' f' g' ps' where w: "writer True x (end_slot (Head l) mid) w = Some (out t, w')" "st w' f' g'" "spath f' (Head l) ps'"
        "tg g' ps' = tg g mid @ h t @ tg g r" "keeps l f g f' g'"
        using writer_ok [OF st _ x(1), of l mid r True] m(3) Cons x(2) True room by auto
      have "tag_COWTraverse writer tid l w = Some (Some (out t), w')" using nl hd m(2) Cons True w(1) by (simp add: tag_COWTraverse_def)
      then show ?thesis using w(2-5) tags_present [of tid "tg g mid" t h "tg g r"] m(4) x(2) True
        by (intro exI [of _ w'] exI [of _ f'] exI [of _ g'] exI [of _ ps']) (simp add: tags)
    next
      case False
      have find: "cow_find tid x w = Some (map_of (tg g (x # r)) tid)" using find_ok [OF st x0(2), of tid] by simp
      obtain n where n: "tw_nodes w x = Some n" "td_count n > 1" using read_known [OF st x0(2) x(1)] x(2) False by metis
      show ?thesis
      proof (cases "map_of (tg g (x # r)) tid")
        case None
        then have "tid \<notin> fst ` set (tg g ps)" using m(1,4) Cons unfolding map_of_eq_None_iff by auto
        moreover have "tag_COWTraverse writer tid l w = Some (None, w)"
          using nl hd m(2) Cons False x0 find None by (simp add: tag_COWTraverse_def)
        ultimately show ?thesis by (rule unchanged)
      next
        case (Some v)
        obtain A u B where A: "tg g (x # r) = A @ u # B" "tid \<notin> fst ` set A" "fst u = tid" using map_of_split [OF Some] by blast
        then obtain ma y rb where y: "x # r = ma @ y # rb" "tg g ma = A" "snd (the (g y)) = u" "tg g rb = B"
          using tg_split [OF A(1)] by blast
        have hy: "hd0 (ma @ [y]) = x" using y(1) by (cases ma) auto
        have cu: "cursor f l mid (ma @ y # rb)" using m(3) Cons y(1) by simp
        have "\<exists>c t. g (hd0 (ma @ [y])) = Some (c, t) \<and> 1 < c" "tid \<notin> fst ` set (tg g ma)" "fst (snd (the (g y))) = tid"
          "nslots f + length ma + 2 < 2 ^ 32" using hy x False A(2,3) y(2,3) room m(1) Cons y(1) by simp_all
        from copy_loop_ok [OF st cu this] obtain pre' w1 f1 g1 where cp:
          "cow_copy tid (end_slot (Head l) mid) x w = Some (end_slot (Head l) pre', y, w1)" "st w1 f1 g1" "cursor f1 l pre' (y # rb)"
          "tg g1 pre' = tg g mid @ A" "tg g1 (y # rb) = tg g (y # rb)" "keeps l f g f1 g1" "\<exists>c t. g1 y = Some (c, t) \<and> 1 < c"
          "nslots f1 \<le> nslots f + length ma"
          unfolding hy y(2) by blast
        obtain k u' where k: "g1 y = Some (k, u')" "1 < k" using cp(7) by blast
        have u: "u' = u" "tg g1 rb = B" using cp(5) y(3,4) k(1) by simp_all
        have tags: "tg g ps = (tg g mid @ A) @ u # B" using m(1) Cons A(1) by simp
        then have "adm u" using adm A(3) by simp
        then obtain w' f' g' ps' where w: "writer False y (end_slot (Head l) pre') w1 = Some (out u, w')" "st w' f' g'" "spath f' (Head l) ps'"
          "tg g' ps' = tg g1 pre' @ h u @ tg g1 rb" "keeps l f1 g1 f' g'"
          using writer_ok [OF cp(2,3) k(1), of False] k(2) u(1) cp(8) room m(1) Cons y(1) by auto
        obtain n1 where n1: "tw_nodes w1 y = Some n1" "td_tid n1 = tid" "td_count n1 > 1"
          using read_known [OF cp(2) cursor_facts(2) [OF cp(3)] k(1)] k(2) u(1) A(3) by metis
        have "tag_COWTraverse writer tid l w = Some (Some (out u), w')"
          using nl hd m(2) Cons False x0 find Some n cp(1) n1 w(1) by (simp add: tag_COWTraverse_def)
        moreover have "tid \<notin> fst ` set (tg g mid @ A)" using m(4) A(2) by auto
        ultimately show ?thesis
          using w(2-5) tags_present [of tid "tg g mid @ A" u h B] A(3) tags cp(4) u(2) keeps_trans [OF cp(6) w(5)]
          by (intro exI [of _ w'] exI [of _ f'] exI [of _ g'] exI [of _ ps']) simp
      qed
    qed
  qed
qed

end

section \<open>The writers\<close>

lemma remove_writer_ok:
  assumes st: "st w f g" and cur: "cursor f l pre (x # r)" and x: "g x = Some (c, t)" and b: "if b then c = 1 else 1 < c"
    and room: "nslots f + 2 < 2 ^ 32"
  shows "\<exists>w' f' g' ps. tag_RemoveWriter b x (end_slot (Head l) pre) w = Some (snd t, w') \<and> st w' f' g'
      \<and> spath f' (Head l) ps \<and> tg g' ps = tg g pre @ [] @ tg g r \<and> keeps l f g f' g'"
proof -
  let ?e = "end_slot (Head l) pre"
  have re: "repr w f g" and wf: "wf_tags f g" using st by (simp_all add: st_def)
  have sp: "spath f ?e (x # r)" and d: "distinct (pre @ x # r)" using cursor_facts [OF cur] by auto
  obtain n where n: "tw_nodes w x = Some n" "td_next n = hd0 r" "take (unat (td_size n)) (td_data n) = snd t"
    using read_known [OF st sp x] by metis
  have v: "f (Next x) = Some (hd0 r)" "spath f (Next x) r" using sp spath_hd [of f "Next x" r] by auto
  show ?thesis
  proof (cases b)
    case True
    obtain v w1 f' g' where d: "f (Next x) = Some v" "slot_set ?e v w = Some w1" "st (tag_free x w1) f' g'" "spath f' (Head l) (pre @ r)"
      "tg g' (pre @ r) = tg g pre @ tg g r" "keeps l f g f' g'" using delete_ok [OF st cur _ refl] x b True by auto
    then show ?thesis using n v True
      by (intro exI [of _ "tag_free x w1"] exI [of _ f'] exI [of _ g'] exI [of _ "pre @ r"]) (simp add: tag_RemoveWriter_def)
  next
    case False
    then have c: "1 < c" using b by simp
    have nul: "g nullptr = None" using wf_tagsD(3) [OF wf] .
    obtain w1 where w1: "slot_set ?e (hd0 r) w = Some w1" "repr w1 (f(?e := Some (hd0 r))) g" using set_ok [OF re, of ?e "hd0 r"] sp by auto
    obtain w2 where w2: "node_on x (\<lambda>n. n\<lparr>td_count := td_count n - 1\<rparr>) w1 = Some w2" "repr w2 (f(?e := Some (hd0 r))) (recount x nullptr g)"
      using dec_ok [OF w1(2) x _ nul] c by auto
    have "hd0 r = nullptr \<or> (\<exists>c t. recount x nullptr g (hd0 r) = Some (c, t) \<and> c + 1 < 2 ^ 32)"
    proof (cases "hd0 r = nullptr")
      case False
      then obtain k u where k: "g (hd0 r) = Some (k, u)" using slot_target [OF wf v(1)] by auto
      then have "k - 1 + 1 < 2 ^ 32" "k + 1 < 2 ^ 32" using count_le [OF wf k] room by simp_all
      then show ?thesis using k by (auto simp: recount_def)
    qed simp
    then obtain w3 where w3: "count_inc (hd0 r) w2 = Some w3" "repr w3 (f(?e := Some (hd0 r))) (recount nullptr (hd0 r) (recount x nullptr g))"
      using inc_ok [OF w2(2), of "hd0 r"] nul by (auto simp: recount_def)
    have geq: "recount nullptr (hd0 r) (recount x nullptr g) = recount x (hd0 r) g" using recount_twice [OF nul x] c by simp
    have disj: "set pre \<inter> set r = {}" using d by auto
    have "wf_tags (f(?e := Some (hd0 r))) (recount x (hd0 r) g)" "cursor (f(?e := Some (hd0 r))) l pre r"
      "tg (recount x (hd0 r) g) (pre @ r) = tg g pre @ tg g r" "keeps l f g (f(?e := Some (hd0 r))) (recount x (hd0 r) g)"
      using relink_ok [OF wf cur refl _ _ v(2,1) disj, of x] sp x c by auto
    moreover have "tag_RemoveWriter b x ?e w = Some (snd t, w3)" using n False w1(1) w2(1) w3(1) by (simp add: tag_RemoveWriter_def)
    ultimately show ?thesis using w3(2) unfolding geq st_def cursor_def
      by (intro exI [of _ w3] exI [of _ "f(?e := Some (hd0 r))"] exI [of _ "recount x (hd0 r) g"] exI [of _ "pre @ r"]) simp
  qed
qed

interpretation rm: cow tag_RemoveWriter snd "\<lambda>t. []" "\<lambda>t. True"
  by unfold_locales (rule remove_writer_ok)

text \<open>Replacing is right for tags whose type fixes their size.\<close>

lemma replace_writer_ok:
  assumes st: "st w f g" and cur: "cursor f l pre (x # r)" and x: "g x = Some (c, t)"
    and t': "fst t = fst t' \<and> length (snd t) = length (snd t')" and b: "if b then c = 1 else 1 < c" and room: "nslots f + 2 < 2 ^ 32"
  shows "\<exists>w' f' g' ps. tag_ReplaceWriter t' b x (end_slot (Head l) pre) w = Some (snd t', w') \<and> st w' f' g'
      \<and> spath f' (Head l) ps \<and> tg g' ps = tg g pre @ [t'] @ tg g r \<and> keeps l f g f' g'"
proof -
  let ?e = "end_slot (Head l) pre"
  have re: "repr w f g" and wf: "wf_tags f g" using st by (simp_all add: st_def)
  have sp: "spath f ?e (x # r)" "spath f (Head l) (pre @ x # r)" and d: "distinct (pre @ x # r)"
    using cursor_facts [OF cur] cur by (auto simp: cursor_def)
  obtain n where n: "tw_nodes w x = Some n" "td_next n = hd0 r" "unat (td_size n) = length (td_data n)" "td_size n < 0xffffffff"
    "td_tid n = fst t" "td_data n = snd t" "unat (td_count n) = c"
    using read_known [OF st sp(1) x] by metis
  have v: "f (Next x) = Some (hd0 r)" using sp spath_hd [of f "Next x" r] by auto
  show ?thesis
  proof (cases b)
    case True
    let ?w = "w\<lparr>tw_nodes := (tw_nodes w)(x \<mapsto> n\<lparr>td_data := snd t'\<rparr>)\<rparr>" and ?g = "g(x \<mapsto> (c, t'))"
    have "pay ?w = ?g" using re n t' by (auto simp: repr_def prod_eq_iff)
    moreover have "slot_val ?w = f" using re n(2) v by (simp add: repr_def fun_upd_idem_iff)
    moreover have "nodes_ok ?w" using re n t' by (auto simp: repr_def nodes_ok_def)
    ultimately have s: "st ?w f ?g" using data_change [OF wf x] by (simp add: st_def repr_def)
    have "card (ins f x) = 1" using wf_tagsD(4) [OF wf x] b True by simp
    then have own: "owned f l (pre @ [x])" using cursor_facts(1) [OF cur] sp(1) by (simp add: owned_def seg_append)
    have "x \<notin> set ps" if "l' \<noteq> l" "spath f (Head l') ps" for l' ps using owned_other [OF own that] by auto
    then have "tg ?g ps = tg g ps" if "l' \<noteq> l" "spath f (Head l') ps" for l' ps using that by (auto simp: tg_def)
    then have k: "keeps l f g f ?g" by (simp add: keeps_def)
    have "tg ?g (pre @ x # r) = tg g pre @ [t'] @ tg g r" using d by (auto simp: tg_def)
    moreover have "tag_ReplaceWriter t' b x ?e w = Some (snd t', ?w)" using n t' True by (simp add: tag_ReplaceWriter_def node_on_def)
    ultimately show ?thesis using s sp(2) k by blast
  next
    case False
    then have c: "1 < c" using b by simp
    have len: "length (snd t') < 4294967295" using n(3,4,6) t' by (simp add: word_less_nat_alt)
    then have "unat (of_nat (length (snd t')) :: u32) = length (snd t')" by (simp add: unat_of_nat)
    then have nn: "td_count (new_node (hd0 r) t') = 1" "td_size (new_node (hd0 r) t') < 0xffffffff"
      "unat (td_size (new_node (hd0 r) t')) = length (td_data (new_node (hd0 r) t'))" "td_next (new_node (hd0 r) t') = hd0 r"
      using len by (simp_all add: new_node_def word_less_nat_alt)
    obtain w1 p w2 w3 w' f' g' where s: "node_on x (\<lambda>n. n\<lparr>td_count := td_count n - 1\<rparr>) w = Some w1"
      "tag_create (new_node (hd0 r) t') w1 = Some (p, w2)" "count_inc (hd0 r) w2 = Some w3" "slot_set ?e p w3 = Some w'"
      "st w' f' g'" "cursor f' l (pre @ [p]) r" "tg g' (pre @ p # r) = tg g pre @ t' # tg g r" "keeps l f g f' g'"
      using copy_ok [OF st cur x c refl v nn(4,1,2,3) room] by (auto simp: new_node_def)
    have "tag_ReplaceWriter t' b x ?e w = Some (snd t', w')" using n(1,2) False s(1-4) by (simp add: tag_ReplaceWriter_def)
    moreover have "spath f' (Head l) (pre @ p # r)" using s(6) by (simp add: cursor_def)
    ultimately show ?thesis using s(5,7,8) by (intro exI [of _ w'] exI [of _ f'] exI [of _ g'] exI [of _ "pre @ p # r"]) simp
  qed
qed

interpretation rp: cow "tag_ReplaceWriter t'" "\<lambda>_. snd t'" "\<lambda>_. [t']" "\<lambda>t. fst t = fst t' \<and> length (snd t) = length (snd t')" for t'
  by unfold_locales (rule replace_writer_ok)

section \<open>The operations\<close>

lemma st_head: "st w f g \<Longrightarrow> tw_lists w l = f (Head l)"
  by (auto simp: st_def repr_def slot_val_def)

lemma Add_ok:
  assumes st: "st w f g" and sp: "spath f (Head l) ps" and t: "fst t \<notin> fst ` set (tg g ps)" "length (snd t) < 4294967295"
  shows "\<exists>w' f' g' ps'. tag_Add t l w = Some w' \<and> st w' f' g' \<and> spath f' (Head l) ps' \<and> tg g' ps' = t # tg g ps \<and> keeps l f g f' g'"
proof -
  have h: "tw_lists w l = Some (hd0 ps)" using st_head [OF st] spath_hd [OF sp] by simp
  have find: "cow_find (fst t) (hd0 ps) w = Some None" using find_ok [OF st sp, of "fst t"] t(1) by (simp add: map_of_eq_None_iff)
  have cur: "cursor f l [] ps" using sp by (simp add: cursor_def owned_def)
  have "unat (of_nat (length (snd t)) :: u32) = length (snd t)" using t(2) by (simp add: unat_of_nat)
  then obtain w1 w' f' g' p where "tag_create (new_node (hd0 ps) t) w = Some (p, w1)" "slot_set (Head l) p w1 = Some w'" "st w' f' g'"
    "cursor f' l [p] ps" "tg g' (p # ps) = t # tg g ps" "keeps l f g f' g'"
    using insert_ok [OF st cur, of "Head l" "new_node (hd0 ps) t"] spath_hd [OF sp] t(2) by (auto simp: new_node_def word_less_nat_alt)
  then show ?thesis using h find
    by (intro exI [of _ w'] exI [of _ f'] exI [of _ g'] exI [of _ "p # ps"]) (simp add: tag_Add_def cursor_def)
qed

lemma Replace_ok:
  assumes st: "st w f g" and sp: "spath f (Head l) ps" and room: "nslots f + length ps + 2 < 2 ^ 32" and len: "length (snd t) < 4294967295"
    and same: "case tags_find (fst t) (tg g ps) of None \<Rightarrow> True | Some t0 \<Rightarrow> length (snd t0) = length (snd t)"
    and d: "distinct (map fst (tg g ps))"
  shows "\<exists>w' f' g' ps'. tag_Replace t l w = Some (map_option (\<lambda>_. snd t) (tags_find (fst t) (tg g ps)), w') \<and> st w' f' g' \<and> spath f' (Head l) ps'
    \<and> tg g' ps' = (if fst t \<in> fst ` set (tg g ps) then tags_upd (\<lambda>_. [t]) (fst t) (tg g ps) else t # tg g ps) \<and> keeps l f g f' g'"
proof -
  have adm: "\<forall>u \<in> set (tg g ps). fst u = fst t \<longrightarrow> fst u = fst t \<and> length (snd u) = length (snd t)"
  proof (intro ballI impI conjI)
    fix u assume u: "u \<in> set (tg g ps)" "fst u = fst t"
    then have "map_of (tg g ps) (fst t) = Some (snd u)" using d by (metis map_of_eq_Some_iff prod.collapse)
    then show "length (snd u) = length (snd t)" using same by (auto simp: map_of_find)
  qed
  obtain w1 f1 g1 ps1 where tr: "tag_COWTraverse (tag_ReplaceWriter t) (fst t) l w = Some (map_option (\<lambda>_. snd t) (tags_find (fst t) (tg g ps)), w1)"
    "st w1 f1 g1" "spath f1 (Head l) ps1" "tg g1 ps1 = tags_upd (\<lambda>_. [t]) (fst t) (tg g ps)" "keeps l f g f1 g1"
    using rp.traverse [OF st sp room adm] by blast
  show ?thesis
  proof (cases "fst t \<in> fst ` set (tg g ps)")
    case True
    then have "map_of (tg g ps) (fst t) \<noteq> None" by (simp add: map_of_eq_None_iff)
    then obtain u where "tags_find (fst t) (tg g ps) = Some u" by (auto simp: map_of_find)
    then show ?thesis using tr True by (intro exI [of _ w1] exI [of _ f1] exI [of _ g1] exI [of _ ps1]) (simp add: tag_Replace_def)
  next
    case False
    then have no: "tags_find (fst t) (tg g ps) = None" "tags_upd (\<lambda>_. [t]) (fst t) (tg g ps) = tg g ps" using tags_absent [of "fst t" "tg g ps"] by blast+
    obtain w' f' g' ps' where "tag_Add t l w1 = Some w'" "st w' f' g'" "spath f' (Head l) ps'" "tg g' ps' = t # tg g1 ps1" "keeps l f1 g1 f' g'"
      using Add_ok [OF tr(2,3), of t] tr(4) no(2) False len by auto
    then show ?thesis using tr(1,4) no False keeps_trans [OF tr(5)]
      by (intro exI [of _ w'] exI [of _ f'] exI [of _ g'] exI [of _ ps']) (simp add: tag_Replace_def)
  qed
qed

text \<open>\<^verbatim>\<open>RemoveAll\<close> frees a node one step late; it could do it at once.\<close>

lemma node_on_free:
  "x \<noteq> p \<Longrightarrow> node_on p h (tag_free x w) = map_option (tag_free x) (node_on p h w)"
  by (cases "tw_nodes w p") (auto simp: node_on_def tag_free_def fun_upd_twist)

lemma remove_loop_free:
  assumes "x \<noteq> nullptr" and "x \<noteq> cur"
  shows "tag_remove_loop x cur w = tag_remove_loop nullptr cur (tag_free x w)"
proof (cases "cur = nullptr \<or> tw_nodes w cur = None")
  case True
  moreover have "tw_nodes (tag_free x w) cur = tw_nodes w cur" using assms(2) by (simp add: tag_free_def)
  ultimately show ?thesis by (subst (1 2) tag_remove_loop.simps) (auto simp: tag_free_def [of nullptr])
next
  case False
  then obtain n where n: "tw_nodes w cur = Some n" by auto
  obtain w1 where w1: "node_on cur (\<lambda>n. n\<lparr>td_count := td_count n - 1\<rparr>) w = Some w1" using n by (simp add: node_on_def)
  have "tw_nodes (tag_free x w) cur = Some n" using assms(2) n by (simp add: tag_free_def)
  moreover have "node_on cur (\<lambda>n. n\<lparr>td_count := td_count n - 1\<rparr>) (tag_free x w) = Some (tag_free x w1)" using node_on_free [OF assms(2)] w1 by simp
  ultimately show ?thesis using False n w1 by (subst (1 2) tag_remove_loop.simps) (simp add: tag_free_def [of nullptr])
qed

definition set_head :: "nat \<Rightarrow> ptr \<Rightarrow> tag_world \<Rightarrow> tag_world" where
  "set_head l p w = w\<lparr>tw_lists := (tw_lists w)(l \<mapsto> p)\<rparr>"

lemma remove_loop_ok:
  assumes "st (set_head l (hd0 ps) w) f g" and "spath f (Head l) ps"
  shows "\<exists>w' f' g'. tag_remove_loop nullptr (hd0 ps) w = Some w' \<and> st (set_head l nullptr w') f' g' \<and> spath f' (Head l) [] \<and> keeps l f g f' g'"
  using assms
proof (induction ps arbitrary: w f g)
  case Nil
  then show ?case using keeps_refl [of l f g] by (subst tag_remove_loop.simps) (auto simp: tag_free_def)
next
  case (Cons x xs)
  let ?w = "set_head l x w"
  have st: "st ?w f g" and re: "repr ?w f g" and wf: "wf_tags f g" using Cons.prems(1) by (simp_all add: st_def)
  obtain n c t where n: "tw_nodes ?w x = Some n" "g x = Some (c, t)" "unat (td_count n) = c" "td_next n = hd0 xs" "0 < c" "x \<noteq> nullptr"
    using read_node [OF st Cons.prems(2)] by metis
  have nw: "tw_nodes w x = Some n" using n(1) by (simp add: set_head_def)
  have u: "unat (td_count n - 1) = c - 1" using n(3,5) by (subst unat_minus_no_wrap) (simp_all add: word_le_nat_alt)
  have cur: "cursor f l [] (x # xs)" using Cons.prems(2) by (simp add: cursor_def owned_def)
  let ?n = "n\<lparr>td_count := td_count n - 1\<rparr>" and ?w1 = "w\<lparr>tw_nodes := (tw_nodes w)(x \<mapsto> n\<lparr>td_count := td_count n - 1\<rparr>)\<rparr>"
  have dec: "node_on x (\<lambda>n. n\<lparr>td_count := td_count n - 1\<rparr>) w = Some ?w1" using nw by (simp add: node_on_def)
  show ?case
  proof (cases "1 < c")
    case True
    then have "td_count n - 1 > 0" using u by (simp add: word_less_nat_alt)
    then have loop: "tag_remove_loop nullptr x w = Some ?w1" using n(6) nw dec by (subst tag_remove_loop.simps) (simp add: tag_free_def)
    have nul: "g nullptr = None" using wf_tagsD(3) [OF wf] .
    obtain w2 where w2: "node_on x (\<lambda>n. n\<lparr>td_count := td_count n - 1\<rparr>) ?w = Some w2" "repr w2 f (recount x nullptr g)"
      using dec_ok [OF re n(2,5) nul] by blast
    then have "w2 = ?w\<lparr>tw_nodes := (tw_nodes ?w)(x \<mapsto> ?n)\<rparr>" using n(1) by (simp add: node_on_def)
    then have "slot_set (Head l) nullptr w2 = Some (set_head l nullptr ?w1)" by (simp add: set_head_def)
    then have r: "repr (set_head l nullptr ?w1) (f(Head l := Some nullptr)) (recount x nullptr g)"
      using set_ok [OF w2(2), of "Head l" nullptr] Cons.prems(2) by auto
    have tail: "spath f (end_slot (Head l) (x # xs)) []" "f (end_slot (Head l) (x # xs)) = Some nullptr"
      using Cons.prems(2) spath_append [of f "Head l" "x # xs" "[]"] by simp_all
    have "wf_tags (f(Head l := Some nullptr)) (recount x nullptr g)" "cursor (f(Head l := Some nullptr)) l [] []"
      "keeps l f g (f(Head l := Some nullptr)) (recount x nullptr g)"
      using relink_ok [OF wf cur refl, of x "end_slot (Head l) (x # xs)" "[]" nullptr] tail n(2) True Cons.prems(2) by auto
    then show ?thesis using loop r unfolding st_def cursor_def hd0_simps append_Nil by blast
  next
    case False
    then have c: "c = 1" using n(5) by simp
    have x: "x \<noteq> hd0 xs" using spath_distinct [OF Cons.prems(2)] n(6) by (cases xs) auto
    have "\<not> td_count n - 1 > 0" using u c by (simp add: word_less_nat_alt)
    then have "tag_remove_loop nullptr x w = tag_remove_loop x (hd0 xs) ?w1" using n(4,6) nw dec by (subst tag_remove_loop.simps) (simp add: tag_free_def)
    also have "\<dots> = tag_remove_loop nullptr (hd0 xs) (tag_free x ?w1)" by (rule remove_loop_free [OF n(6) x])
    also have "tag_free x ?w1 = tag_free x w" using n(6) by (simp add: tag_free_def)
    finally have loop: "tag_remove_loop nullptr x w = tag_remove_loop nullptr (hd0 xs) (tag_free x w)" .
    obtain v w1 f1 g1 where d: "f (Next x) = Some v" "slot_set (Head l) v ?w = Some w1" "st (tag_free x w1) f1 g1" "spath f1 (Head l) xs"
      "keeps l f g f1 g1" using delete_ok [OF st cur _ refl] n(2) c by auto
    have "v = hd0 xs" using d(1) spath_hd [of f "Next x" xs] Cons.prems(2) by simp
    then have "tag_free x w1 = set_head l (hd0 xs) (tag_free x w)" using d(2) by (auto simp: set_head_def tag_free_def)
    then obtain w' f' g' where "tag_remove_loop nullptr (hd0 xs) (tag_free x w) = Some w'" "st (set_head l nullptr w') f' g'" "spath f' (Head l) []"
      "keeps l f1 g1 f' g'" using Cons.IH [of "tag_free x w" f1 g1] d(3,4) by auto
    then show ?thesis using loop keeps_trans [OF d(5)] by auto
  qed
qed

lemma RemoveAll_ok:
  assumes st: "st w f g" and sp: "spath f (Head l) ps"
  shows "\<exists>w' f' g'. tag_RemoveAll l w = Some w' \<and> st w' f' g' \<and> spath f' (Head l) [] \<and> keeps l f g f' g'"
proof -
  have h: "tw_lists w l = Some (hd0 ps)" using st_head [OF st] spath_hd [OF sp] by simp
  then have "set_head l (hd0 ps) w = w" by (simp add: set_head_def fun_upd_idem)
  then obtain w' f' g' where "tag_remove_loop nullptr (hd0 ps) w = Some w'" "st (set_head l nullptr w') f' g'" "spath f' (Head l) []" "keeps l f g f' g'"
    using remove_loop_ok [of l ps w f g] st sp by auto
  then show ?thesis using h by (auto simp: tag_RemoveAll_def set_head_def)
qed

end
