(* ===== verification/Packet_Tag_Lists.thy ===== *)
theory Packet_Tag_Lists
  imports Packet_Tags_Refine
begin

text \<open>
  The refinement of a set of independent lists of tags by \<^verbatim>\<open>PacketTagList\<close>.
\<close>

section \<open>The specification\<close>

datatype tag_op = NewList nat | CopyList nat nat | AssignList nat nat | DestroyList nat
  | AddTag pkt_tag nat | RemoveTag u16 nat | ReplaceTag pkt_tag nat | PeekTag u16 nat

fun tag_exec :: "tag_op \<Rightarrow> tag_world \<Rightarrow> (u8 list option \<times> tag_world) option" where
  "tag_exec (NewList l) w = Some (None, PacketTagList_init l w)"
| "tag_exec (CopyList l k) w = do { w \<leftarrow> tag_list_copy l k w; Some (None, w) }"
| "tag_exec (AssignList l k) w = do { w \<leftarrow> tag_list_assign l k w; Some (None, w) }"
| "tag_exec (DestroyList l) w = do { w \<leftarrow> tag_list_destroy l w; Some (None, w) }"
| "tag_exec (AddTag t l) w = do { w \<leftarrow> tag_Add t l w; Some (None, w) }"
| "tag_exec (RemoveTag tid l) w = tag_Remove tid l w"
| "tag_exec (ReplaceTag t l) w = tag_Replace t l w"
| "tag_exec (PeekTag tid l) w = do { x \<leftarrow> tag_Peek tid l w; Some (x, w) }"

text \<open>
  Each list object has its own list of tags.  \<open>None\<close> where the operation may not be called: on a
  list object that does not exist, a second tag of a type, or, in \<open>ReplaceTag\<close>, a value that is not
  as long as the old one.
\<close>

type_synonym tag_lists = "nat \<Rightarrow> pkt_tag list option"

fun tag_spec :: "tag_op \<Rightarrow> tag_lists \<Rightarrow> (u8 list option \<times> tag_lists) option" where
  "tag_spec (NewList l) A = do { ns_assert (A l = None); Some (None, A(l \<mapsto> [])) }"
| "tag_spec (CopyList l k) A = do { ns_assert (A l = None); ts \<leftarrow> A k; Some (None, A(l \<mapsto> ts)) }"
| "tag_spec (AssignList l k) A = do { _ \<leftarrow> A l; ts \<leftarrow> A k; Some (None, A(l \<mapsto> ts)) }"
| "tag_spec (DestroyList l) A = do { _ \<leftarrow> A l; Some (None, A(l := None)) }"
| "tag_spec (AddTag t l) A = do {
     ts \<leftarrow> A l;
     ns_assert (fst t \<notin> fst ` set ts \<and> length (snd t) < 4294967295);
     Some (None, A(l \<mapsto> t # ts))
   }"
| "tag_spec (RemoveTag tid l) A = do { ts \<leftarrow> A l; Some (map_of ts tid, A(l \<mapsto> tags_upd (\<lambda>_. []) tid ts)) }"
| "tag_spec (ReplaceTag t l) A = do {
     ts \<leftarrow> A l;
     ns_assert (length (snd t) < 4294967295);
     case map_of ts (fst t) of
       None \<Rightarrow> Some (None, A(l \<mapsto> t # ts))
     | Some v \<Rightarrow> do { ns_assert (length v = length (snd t)); Some (Some (snd t), A(l \<mapsto> tags_upd (\<lambda>_. [t]) (fst t) ts)) }
   }"
| "tag_spec (PeekTag tid l) A = do { ts \<leftarrow> A l; Some (map_of ts tid, A) }"

text \<open>A bound on the number of list objects and tags keeps the 32-bit counts from wrapping around.\<close>

definition weight :: "tag_lists \<Rightarrow> nat" where
  "weight A = (\<Sum>l \<in> dom A. Suc (length (the (A l))))"

primrec spec_run :: "tag_op list \<Rightarrow> tag_lists \<Rightarrow> (u8 list option list \<times> tag_lists) option" where
  "spec_run [] A = Some ([], A)"
| "spec_run (x # xs) A = do {
     ns_assert (2 * weight A + 4 < 2 ^ 32);
     (r, A) \<leftarrow> tag_spec x A;
     (rs, A) \<leftarrow> spec_run xs A;
     Some (r # rs, A)
   }"

primrec exec_run :: "tag_op list \<Rightarrow> tag_world \<Rightarrow> (u8 list option list \<times> tag_world) option" where
  "exec_run [] w = Some ([], w)"
| "exec_run (x # xs) w = do {
     (r, w) \<leftarrow> tag_exec x w;
     (rs, w) \<leftarrow> exec_run xs w;
     Some (r # rs, w)
   }"

section \<open>The simulation relation\<close>

definition matches :: "slots \<Rightarrow> payload \<Rightarrow> tag_lists \<Rightarrow> bool" where
  "matches f g A \<longleftrightarrow> (\<forall>l. case A l of None \<Rightarrow> f (Head l) = None
     | Some ts \<Rightarrow> distinct (map fst ts) \<and> (\<exists>ps. spath f (Head l) ps \<and> tg g ps = ts))"

definition tag_rel :: "tag_world \<Rightarrow> tag_lists \<Rightarrow> bool" where
  "tag_rel w A \<longleftrightarrow> (\<exists>f g. st w f g \<and> matches f g A)"

lemma matchesD:
  assumes "matches f g A"
  shows "A l = None \<longleftrightarrow> f (Head l) = None"
    and "A l = Some ts \<Longrightarrow> distinct (map fst ts)" and "A l = Some ts \<Longrightarrow> \<exists>ps. spath f (Head l) ps \<and> tg g ps = ts"
proof -
  have a: "case A l of None \<Rightarrow> f (Head l) = None | Some ts \<Rightarrow> distinct (map fst ts) \<and> (\<exists>ps. spath f (Head l) ps \<and> tg g ps = ts)"
    using assms by (simp add: matches_def)
  show "A l = Some ts \<Longrightarrow> distinct (map fst ts)" "A l = Some ts \<Longrightarrow> \<exists>ps. spath f (Head l) ps \<and> tg g ps = ts" using a by simp_all
  show "A l = None \<longleftrightarrow> f (Head l) = None" using a spath_hd [of f "Head l"] by (cases "A l") auto
qed

lemma matches_upd:
  assumes "matches f g A" and "keeps l f g f' g'" and "spath f' (Head l) ps" and "tg g' ps = ts" and "distinct (map fst ts)"
  shows "matches f' g' (A(l \<mapsto> ts))"
  unfolding matches_def
proof
  fix l'
  show "case (A(l \<mapsto> ts)) l' of None \<Rightarrow> f' (Head l') = None
     | Some ts \<Rightarrow> distinct (map fst ts) \<and> (\<exists>ps. spath f' (Head l') ps \<and> tg g' ps = ts)"
  proof (cases "l' = l")
    case True
    then show ?thesis using assms(3-5) by auto
  next
    case False
    show ?thesis
    proof (cases "A l'")
      case None
      then show ?thesis using False assms(2) matchesD(1) [OF assms(1), of l'] by (simp add: keeps_def)
    next
      case (Some us)
      then obtain qs where "spath f (Head l') qs" "tg g qs = us" using matchesD(3) [OF assms(1)] by blast
      then have "spath f' (Head l') qs \<and> tg g' qs = us" using False assms(2) unfolding keeps_def by metis
      then show ?thesis using Some False matchesD(2) [OF assms(1) Some] by auto
    qed
  qed
qed

lemma weight_bound:
  assumes wf: "wf_tags f g" and m: "matches f g A"
  shows "finite (dom A)" and "nslots f \<le> weight A" and "A l = Some ts \<Longrightarrow> length ts \<le> weight A"
proof -
  have d: "dom A = {l. f (Head l) \<noteq> None}" using matchesD(1) [OF m] by (simp add: dom_def)
  have "finite (Head ` dom A)" by (rule finite_subset [OF _ wf_tagsD(1) [OF wf]]) (auto simp: d)
  then show fin: "finite (dom A)" by (rule finite_imageD) (auto simp: inj_on_def)
  show "length ts \<le> weight A" if "A l = Some ts"
  proof -
    have "Suc (length (the (A l))) \<le> weight A" unfolding weight_def by (rule member_le_sum) (use that fin in auto)
    then show ?thesis using that by simp
  qed
  have "\<forall>l \<in> dom A. \<exists>ps. spath f (Head l) ps \<and> length ps = length (the (A l))"
  proof
    fix l assume "l \<in> dom A"
    then obtain ts where "A l = Some ts" by blast
    then show "\<exists>ps. spath f (Head l) ps \<and> length ps = length (the (A l))" using matchesD(3) [OF m, of l ts] by (auto simp: tg_def)
  qed
  then obtain P where P: "\<And>l. l \<in> dom A \<Longrightarrow> spath f (Head l) (P l) \<and> length (P l) = length (the (A l))" by metis
  let ?N = "\<Union>l \<in> dom A. set (P l)"
  have "{s. f s \<noteq> None} \<subseteq> Head ` dom A \<union> Next ` ?N"
  proof
    fix s assume s: "s \<in> {s. f s \<noteq> None}"
    show "s \<in> Head ` dom A \<union> Next ` ?N"
    proof (cases s)
      case (Head l)
      then show ?thesis using s d by auto
    next
      case (Next p)
      then have "g p \<noteq> None" using s wf_tagsD(2) [OF wf, of p] by simp
      then obtain l ps where l: "spath f (Head l) ps" "p \<in> set ps" using wf_tagsD(6) [OF wf] by blast
      then have ld: "l \<in> dom A" using d spath_hd [OF l(1)] by simp
      then have "ps = P l" using spath_unique [OF l(1)] P by blast
      then have "p \<in> ?N" using l(2) ld by blast
      then show ?thesis using Next by simp
    qed
  qed
  then have "nslots f \<le> card (Head ` dom A \<union> Next ` ?N)" unfolding nslots_def by (rule card_mono [rotated]) (use fin in auto)
  also have "\<dots> \<le> card (Head ` dom A) + card (Next ` ?N)" by (rule card_Un_le)
  also have "\<dots> \<le> card (dom A) + card ?N" by (intro add_mono card_image_le) (use fin in auto)
  also have "card ?N \<le> (\<Sum>l \<in> dom A. card (set (P l)))" by (rule card_UN_le [OF fin])
  also have "\<dots> \<le> (\<Sum>l \<in> dom A. length (the (A l)))" by (rule sum_mono) (use P card_length in metis)
  also have "card (dom A) + (\<Sum>l \<in> dom A. length (the (A l))) = weight A" by (simp add: weight_def sum_Suc)
  finally show "nslots f \<le> weight A" by simp
qed

section \<open>The operations refine the specification\<close>

text \<open>A list object takes over the tags of another one.\<close>

lemma share_ok:
  assumes st: "st w f g" and l: "spath f (Head l) []" "l' \<noteq> l" "spath f (Head l') ps" and room: "nslots f + 2 < 2 ^ 32"
  shows "\<exists>w1 w' f' g'. slot_set (Head l) (hd0 ps) w = Some w1 \<and> count_inc (hd0 ps) w1 = Some w' \<and> st w' f' g'
    \<and> spath f' (Head l) ps \<and> tg g' ps = tg g ps \<and> keeps l f g f' g'"
proof -
  have re: "repr w f g" and wf: "wf_tags f g" using st by (simp_all add: st_def)
  have nul: "g nullptr = None" using wf_tagsD(3) [OF wf] .
  have hd: "f (Head l') = Some (hd0 ps)" using spath_hd [OF l(3)] .
  obtain w1 where w1: "slot_set (Head l) (hd0 ps) w = Some w1" "repr w1 (f(Head l := Some (hd0 ps))) g"
    using set_ok [OF re, of "Head l" "hd0 ps"] l(1) by auto
  have "hd0 ps = nullptr \<or> (\<exists>c t. g (hd0 ps) = Some (c, t) \<and> c + 1 < 2 ^ 32)"
  proof (cases "hd0 ps = nullptr")
    case False
    then obtain c t where g: "g (hd0 ps) = Some (c, t)" using slot_target [OF wf hd] by auto
    then show ?thesis using count_le [OF wf g] room by simp
  qed simp
  then obtain w' where w': "count_inc (hd0 ps) w1 = Some w'" "repr w' (f(Head l := Some (hd0 ps))) (recount nullptr (hd0 ps) g)"
    using inc_ok [OF w1(2), of "hd0 ps"] nul by blast
  have cur: "cursor f l [] []" using l(1) by (simp add: cursor_def owned_def)
  have "wf_tags (f(Head l := Some (hd0 ps))) (recount nullptr (hd0 ps) g)" "cursor (f(Head l := Some (hd0 ps))) l [] ps"
    "tg (recount nullptr (hd0 ps) g) ps = tg g ps" "keeps l f g (f(Head l := Some (hd0 ps))) (recount nullptr (hd0 ps) g)"
    using relink_ok [OF wf cur refl, of nullptr "Head l'" ps "hd0 ps"] l(1,3) hd by auto
  then show ?thesis using w1(1) w' unfolding st_def cursor_def append_Nil by blast
qed

lemma init_ok:
  assumes st: "st w f g" and l: "f (Head l) = None"
  shows "st (PacketTagList_init l w) (f(Head l := Some nullptr)) g" and "keeps l f g (f(Head l := Some nullptr)) g"
proof -
  have re: "repr w f g" and wf: "wf_tags f g" using st by (simp_all add: st_def)
  note hc = head_change [OF wf _ refl, of l "Some nullptr"]
  have "repr (PacketTagList_init l w) (f(Head l := Some nullptr)) g" using re by (simp add: repr_def PacketTagList_init_def nodes_ok_def)
  then show "st (PacketTagList_init l w) (f(Head l := Some nullptr)) g" using hc(1) l by (simp add: st_def)
  show "keeps l f g (f(Head l := Some nullptr)) g" using hc(2) l by (simp add: keeps_def)
qed

lemma destroy_ok:
  assumes st: "st w f g" and sp: "spath f (Head l) ps"
  shows "\<exists>w' f' g'. tag_list_destroy l w = Some w' \<and> st w' f' g' \<and> f' (Head l) = None \<and> keeps l f g f' g'"
proof -
  obtain w1 f1 g1 where r: "tag_RemoveAll l w = Some w1" "st w1 f1 g1" "spath f1 (Head l) []" "keeps l f g f1 g1"
    using RemoveAll_ok [OF st sp] by blast
  let ?f = "f1(Head l := None)" and ?w = "w1\<lparr>tw_lists := (tw_lists w1)(l := None)\<rparr>"
  have re: "repr w1 f1 g1" and wf: "wf_tags f1 g1" using r(2) by (simp_all add: st_def)
  note hc = head_change [OF wf _ refl, of l None]
  have "repr ?w ?f g1" using re by (simp add: repr_def nodes_ok_def)
  then have "st ?w ?f g1" using hc(1) r(3) by (simp add: st_def)
  moreover have "keeps l f1 g1 ?f g1" using hc(2) r(3) by (simp add: keeps_def)
  moreover have "tag_list_destroy l w = Some ?w" "?f (Head l) = None" using r(1) by (simp_all add: tag_list_destroy_def)
  ultimately show ?thesis using keeps_trans [OF r(4)] by blast
qed

lemma copy_list_ok:
  assumes st: "st w f g" and l: "f (Head l) = None" and k: "spath f (Head k) ps" and room: "nslots f + 4 < 2 ^ 32"
  shows "\<exists>w' f' g'. tag_list_copy l k w = Some w' \<and> st w' f' g' \<and> spath f' (Head l) ps \<and> tg g' ps = tg g ps \<and> keeps l f g f' g'"
proof -
  note i = init_ok [OF st l]
  have kl: "k \<noteq> l" using l k spath_hd by fastforce
  have k1: "spath (f(Head l := Some nullptr)) (Head k) ps" using i(2) kl k unfolding keeps_def by blast
  have "finite {s. f s \<noteq> None}" using st wf_tagsD(1) by (auto simp: st_def)
  then have room1: "nslots (f(Head l := Some nullptr)) + 2 < 2 ^ 32" using nslots_upd [of f "Head l" "Some nullptr"] room by simp
  obtain w1 w' f' g' where s: "slot_set (Head l) (hd0 ps) (PacketTagList_init l w) = Some w1" "count_inc (hd0 ps) w1 = Some w'" "st w' f' g'"
    "spath f' (Head l) ps" "tg g' ps = tg g ps" "keeps l (f(Head l := Some nullptr)) g f' g'"
    using share_ok [OF i(1) _ kl k1 room1] by auto
  have "slot_set (Head l) (hd0 ps) w = Some w1" using s(1) by (simp add: PacketTagList_init_def)
  then have "tag_list_copy l k w = Some w'" using s(2) st_head [OF st, of k] spath_hd [OF k] by (simp add: tag_list_copy_def)
  then show ?thesis using s(3-5) keeps_trans [OF i(2) s(6)] by blast
qed

lemma assign_ok:
  assumes st: "st w f g" and l: "spath f (Head l) qs" and k: "spath f (Head k) ps"
    and room: "\<forall>f' g'. wf_tags f' g' \<longrightarrow> keeps l f g f' g' \<longrightarrow> spath f' (Head l) [] \<longrightarrow> nslots f' + 2 < 2 ^ 32"
  shows "\<exists>w' f' g'. tag_list_assign l k w = Some w' \<and> st w' f' g' \<and> spath f' (Head l) ps \<and> tg g' ps = tg g ps \<and> keeps l f g f' g'"
proof (cases "hd0 qs = hd0 ps")
  case True
  then have "spath f (Head l) ps" using spath_same [OF k, of "Head l"] spath_hd [OF l] spath_hd [OF k] by simp
  moreover have "tag_list_assign l k w = Some w"
    using True st_head [OF st] spath_hd [OF l] spath_hd [OF k] by (simp add: tag_list_assign_def)
  ultimately show ?thesis using st keeps_refl [of l f g] by blast
next
  case False
  then have kl: "k \<noteq> l" using spath_unique [OF l] k by blast
  obtain w1 f1 g1 where r: "tag_RemoveAll l w = Some w1" "st w1 f1 g1" "spath f1 (Head l) []" "keeps l f g f1 g1"
    using RemoveAll_ok [OF st l] by blast
  have k1: "spath f1 (Head k) ps" "tg g1 ps = tg g ps" using r(4) kl k unfolding keeps_def by blast+
  have "nslots f1 + 2 < 2 ^ 32" using room r(2-4) unfolding st_def by blast
  then obtain w2 w' f' g' where s: "slot_set (Head l) (hd0 ps) w1 = Some w2" "count_inc (hd0 ps) w2 = Some w'" "st w' f' g'"
    "spath f' (Head l) ps" "tg g' ps = tg g1 ps" "keeps l f1 g1 f' g'" using share_ok [OF r(2,3) kl k1(1)] by blast
  have "tag_list_assign l k w = Some w'"
    using False st_head [OF st] spath_hd [OF l] spath_hd [OF k] r(1) s(1,2) by (simp add: tag_list_assign_def)
  then show ?thesis using s(3-5) k1(2) keeps_trans [OF r(4) s(6)] by metis
qed

lemma tags_upd_distinct:
  assumes "distinct (map fst ts)" and "\<And>t. map fst (h t) = [] \<or> map fst (h t) = [tid]"
  shows "distinct (map fst (tags_upd h tid ts)) \<and> fst ` set (tags_upd h tid ts) \<subseteq> fst ` set ts"
  using assms(1)
proof (induction ts)
  case (Cons t ts)
  show ?case
  proof (cases "fst t = tid")
    case True
    then show ?thesis using Cons.prems assms(2) [of t] by (auto simp: image_iff)
  next
    case False
    then show ?thesis using Cons by (auto simp: subset_iff)
  qed
qed simp

lemma weight_clear: "finite (dom A) \<Longrightarrow> A l = Some ts \<Longrightarrow> weight (A(l \<mapsto> [])) \<le> weight A"
  unfolding weight_def by (simp add: insert_absorb domI) (rule sum_mono, auto)

text \<open>The states between the operations.\<close>

definition ready :: "tag_world \<Rightarrow> slots \<Rightarrow> payload \<Rightarrow> tag_lists \<Rightarrow> bool" where
  "ready w f g A \<longleftrightarrow> st w f g \<and> matches f g A \<and> 2 * weight A + 4 < 2 ^ 32"

lemma readyD:
  assumes "ready w f g A"
  shows "st w f g" and "matches f g A" and "finite (dom A)" and "nslots f + 4 < 2 ^ 32" and "2 * weight A + 4 < 2 ^ 32"
    and "A l = Some (tg g ps) \<Longrightarrow> nslots f + length ps + 2 < 2 ^ 32"
proof -
  show st: "st w f g" and m: "matches f g A" and room: "2 * weight A + 4 < 2 ^ 32" using assms by (simp_all add: ready_def)
  then have "wf_tags f g" by (simp add: st_def)
  note wb = weight_bound [OF this m]
  show "finite (dom A)" by (rule wb(1))
  show "nslots f + 4 < 2 ^ 32" using wb(2) room by simp
  show "nslots f + length ps + 2 < 2 ^ 32" if "A l = Some (tg g ps)" using wb(2) wb(3) [OF that] room by (simp add: tg_def)
qed

lemma ready_upd:
  assumes "ready w f g A" and "st w' f' g'" and "keeps l f g f' g'" and "spath f' (Head l) ps" and "tg g' ps = ts" and "distinct (map fst ts)"
  shows "tag_rel w' (A(l \<mapsto> ts))"
  using matches_upd [OF readyD(2) [OF assms(1)] assms(3-6)] assms(2) by (auto simp: tag_rel_def)

lemma step_NewList:
  assumes rd: "ready w f g A" and spec: "tag_spec (NewList l) A = Some (r, A')"
  shows "\<exists>w'. tag_exec (NewList l) w = Some (r, w') \<and> tag_rel w' A'"
proof -
  note st = readyD(1) [OF rd] and m = readyD(2) [OF rd]
  have a: "A l = None" "r = None" "A' = A(l \<mapsto> [])" using spec by (auto simp: bind_ns_assert split: if_splits)
  then have "f (Head l) = None" using matchesD(1) [OF m] by blast
  note i = init_ok [OF st this]
  have "tag_rel (PacketTagList_init l w) A'" unfolding a(3) by (rule ready_upd [OF rd i, of "[]"]) simp_all
  then show ?thesis using a(2) by simp
qed

lemma step_CopyList:
  assumes rd: "ready w f g A" and spec: "tag_spec (CopyList l k) A = Some (r, A')"
  shows "\<exists>w'. tag_exec (CopyList l k) w = Some (r, w') \<and> tag_rel w' A'"
proof -
  note st = readyD(1) [OF rd] and m = readyD(2) [OF rd]
  obtain ts where a: "A l = None" "A k = Some ts" "r = None" "A' = A(l \<mapsto> ts)" using spec by (auto simp: bind_ns_assert bind_eq_Some_conv split: if_splits)
  obtain ps where ps: "spath f (Head k) ps" "tg g ps = ts" using matchesD(3) [OF m a(2)] by blast
  have "f (Head l) = None" using matchesD(1) [OF m] a(1) by blast
  then obtain w' f' g' where c: "tag_list_copy l k w = Some w'" "st w' f' g'" "spath f' (Head l) ps" "tg g' ps = tg g ps" "keeps l f g f' g'"
    using copy_list_ok [OF st _ ps(1) readyD(4) [OF rd]] by blast
  have "tag_rel w' A'" unfolding a(4) by (rule ready_upd [OF rd c(2,5,3)]) (use c(4) ps(2) matchesD(2) [OF m a(2)] in simp_all)
  then show ?thesis using a(3) c(1) by simp
qed

lemma step_AssignList:
  assumes rd: "ready w f g A" and spec: "tag_spec (AssignList l k) A = Some (r, A')"
  shows "\<exists>w'. tag_exec (AssignList l k) w = Some (r, w') \<and> tag_rel w' A'"
proof -
  note st = readyD(1) [OF rd] and m = readyD(2) [OF rd]
  obtain us ts where a: "A l = Some us" "A k = Some ts" "r = None" "A' = A(l \<mapsto> ts)" using spec by (auto simp: bind_eq_Some_conv)
  obtain ps where ps: "spath f (Head k) ps" "tg g ps = ts" using matchesD(3) [OF m a(2)] by blast
  obtain qs where qs: "spath f (Head l) qs" using matchesD(3) [OF m a(1)] by blast
  have "nslots f' + 2 < 2 ^ 32" if "wf_tags f' g'" "keeps l f g f' g'" "spath f' (Head l) []" for f' g'
  proof -
    have "matches f' g' (A(l \<mapsto> []))" by (rule matches_upd [OF m that(2,3)]) simp_all
    then have "nslots f' \<le> weight (A(l \<mapsto> []))" using weight_bound(2) that(1) by blast
    then show ?thesis using weight_clear [OF readyD(3) [OF rd] a(1)] readyD(5) [OF rd] by simp
  qed
  then obtain w' f' g' where c: "tag_list_assign l k w = Some w'" "st w' f' g'" "spath f' (Head l) ps" "tg g' ps = tg g ps" "keeps l f g f' g'"
    using assign_ok [OF st qs ps(1)] by blast
  have "tag_rel w' A'" unfolding a(4) by (rule ready_upd [OF rd c(2,5,3)]) (use c(4) ps(2) matchesD(2) [OF m a(2)] in simp_all)
  then show ?thesis using a(3) c(1) by simp
qed

lemma step_DestroyList:
  assumes rd: "ready w f g A" and spec: "tag_spec (DestroyList l) A = Some (r, A')"
  shows "\<exists>w'. tag_exec (DestroyList l) w = Some (r, w') \<and> tag_rel w' A'"
proof -
  note st = readyD(1) [OF rd] and m = readyD(2) [OF rd]
  obtain us where a: "A l = Some us" "r = None" "A' = A(l := None)" using spec by (auto simp: bind_eq_Some_conv)
  obtain qs where qs: "spath f (Head l) qs" using matchesD(3) [OF m a(1)] by blast
  obtain w' f' g' where c: "tag_list_destroy l w = Some w'" "st w' f' g'" "f' (Head l) = None" "keeps l f g f' g'" using destroy_ok [OF st qs] by blast
  have "matches f' g' A'" unfolding matches_def a(3)
  proof
    fix l'
    have keep: "f' (Head l') = f (Head l')" "spath f (Head l') ps \<Longrightarrow> spath f' (Head l') ps \<and> tg g' ps = tg g ps" if "l' \<noteq> l" for ps
      using c(4) that unfolding keeps_def by blast+
    show "case (A(l := None)) l' of None \<Rightarrow> f' (Head l') = None | Some ts \<Rightarrow> distinct (map fst ts) \<and> (\<exists>ps. spath f' (Head l') ps \<and> tg g' ps = ts)"
      using c(3) keep matchesD [OF m, of l'] by (cases "l' = l"; cases "A l'") fastforce+
  qed
  then show ?thesis using a(2) c(1,2) by (auto simp: tag_rel_def)
qed

lemma step_AddTag:
  assumes rd: "ready w f g A" and spec: "tag_spec (AddTag t l) A = Some (r, A')"
  shows "\<exists>w'. tag_exec (AddTag t l) w = Some (r, w') \<and> tag_rel w' A'"
proof -
  note st = readyD(1) [OF rd] and m = readyD(2) [OF rd]
  obtain ts where a: "A l = Some ts" "fst t \<notin> fst ` set ts" "length (snd t) < 4294967295" "r = None" "A' = A(l \<mapsto> t # ts)"
    using spec by (auto simp: bind_ns_assert bind_eq_Some_conv split: if_splits)
  obtain ps where ps: "spath f (Head l) ps" "tg g ps = ts" using matchesD(3) [OF m a(1)] by blast
  obtain w' f' g' ps' where c: "tag_Add t l w = Some w'" "st w' f' g'" "spath f' (Head l) ps'" "tg g' ps' = t # tg g ps" "keeps l f g f' g'"
    using Add_ok [OF st ps(1), of t] a(2,3) ps(2) by blast
  have "tag_rel w' A'" unfolding a(5) by (rule ready_upd [OF rd c(2,5,3)]) (use c(4) ps(2) matchesD(2) [OF m a(1)] a(2) in simp_all)
  then show ?thesis using a(4) c(1) by simp
qed

lemma step_RemoveTag:
  assumes rd: "ready w f g A" and spec: "tag_spec (RemoveTag tid l) A = Some (r, A')"
  shows "\<exists>w'. tag_exec (RemoveTag tid l) w = Some (r, w') \<and> tag_rel w' A'"
proof -
  note st = readyD(1) [OF rd] and m = readyD(2) [OF rd]
  obtain ts where a: "A l = Some ts" "r = map_of ts tid" "A' = A(l \<mapsto> tags_upd (\<lambda>_. []) tid ts)" using spec by (auto simp: bind_eq_Some_conv)
  obtain ps where ps: "spath f (Head l) ps" "tg g ps = ts" using matchesD(3) [OF m a(1)] by blast
  obtain w' f' g' ps' where c: "tag_COWTraverse tag_RemoveWriter tid l w = Some (map_option snd (tags_find tid (tg g ps)), w')" "st w' f' g'"
    "spath f' (Head l) ps'" "tg g' ps' = tags_upd (\<lambda>_. []) tid (tg g ps)" "keeps l f g f' g'"
    using rm.traverse [OF st ps(1)] readyD(6) [OF rd, of l ps] a(1) ps(2) by blast
  have "tag_rel w' A'" unfolding a(3)
    by (rule ready_upd [OF rd c(2,5,3)]) (use c(4) ps(2) tags_upd_distinct [OF matchesD(2) [OF m a(1)], of "\<lambda>_. []" tid] in simp_all)
  then show ?thesis using a(2) c(1) ps(2) by (simp add: tag_Remove_def map_of_find)
qed

lemma step_ReplaceTag:
  assumes rd: "ready w f g A" and spec: "tag_spec (ReplaceTag t l) A = Some (r, A')"
  shows "\<exists>w'. tag_exec (ReplaceTag t l) w = Some (r, w') \<and> tag_rel w' A'"
proof -
  note st = readyD(1) [OF rd] and m = readyD(2) [OF rd]
  obtain ts where a: "A l = Some ts" "length (snd t) < 4294967295" using spec by (auto simp: bind_ns_assert bind_eq_Some_conv split: if_splits)
  obtain ps where ps: "spath f (Head l) ps" "tg g ps = ts" using matchesD(3) [OF m a(1)] by blast
  have b: "case tags_find (fst t) ts of None \<Rightarrow> True | Some t0 \<Rightarrow> length (snd t0) = length (snd t)" "r = map_option (\<lambda>_. snd t) (tags_find (fst t) ts)"
    "A' = A(l \<mapsto> (if fst t \<in> fst ` set ts then tags_upd (\<lambda>_. [t]) (fst t) ts else t # ts))"
    using spec a map_of_eq_None_iff [of ts "fst t"]
    by (auto simp: bind_ns_assert map_of_find split: option.splits if_splits)
  obtain w' f' g' ps' where c: "tag_Replace t l w = Some (map_option (\<lambda>_. snd t) (tags_find (fst t) (tg g ps)), w')" "st w' f' g'"
    "spath f' (Head l) ps'" "tg g' ps' = (if fst t \<in> fst ` set (tg g ps) then tags_upd (\<lambda>_. [t]) (fst t) (tg g ps) else t # tg g ps)" "keeps l f g f' g'"
    using Replace_ok [OF st ps(1) _ a(2)] readyD(6) [OF rd, of l ps] a(1) ps(2) b(1) matchesD(2) [OF m a(1)] by blast
  have "tag_rel w' A'" unfolding b(3)
    by (rule ready_upd [OF rd c(2,5,3)]) (use c(4) ps(2) tags_upd_distinct [OF matchesD(2) [OF m a(1)], of "\<lambda>_. [t]" "fst t"] matchesD(2) [OF m a(1)] in simp_all)
  then show ?thesis using b(2) c(1) ps(2) by simp
qed

lemma step_PeekTag:
  assumes rd: "ready w f g A" and spec: "tag_spec (PeekTag tid l) A = Some (r, A')"
  shows "\<exists>w'. tag_exec (PeekTag tid l) w = Some (r, w') \<and> tag_rel w' A'"
proof -
  note st = readyD(1) [OF rd] and m = readyD(2) [OF rd]
  obtain ts where a: "A l = Some ts" "r = map_of ts tid" "A' = A" using spec by (auto simp: bind_eq_Some_conv)
  obtain ps where ps: "spath f (Head l) ps" "tg g ps = ts" using matchesD(3) [OF m a(1)] by blast
  have "tag_Peek tid l w = Some (map_of ts tid)" using find_ok [OF st ps(1)] ps(2) st_head [OF st] spath_hd [OF ps(1)] by (simp add: tag_Peek_def)
  moreover have "tag_rel w A" using st m unfolding tag_rel_def by blast
  ultimately show ?thesis using a by simp
qed

lemma tag_step:
  assumes rel: "tag_rel w A" and spec: "tag_spec x A = Some (r, A')" and room: "2 * weight A + 4 < 2 ^ 32"
  shows "\<exists>w'. tag_exec x w = Some (r, w') \<and> tag_rel w' A'"
proof -
  obtain f g where rd: "ready w f g A" using rel room by (auto simp: tag_rel_def ready_def)
  show ?thesis
  proof (cases x)
    case (NewList l)
    show ?thesis using spec unfolding NewList by (rule step_NewList [OF rd])
  next
    case (CopyList l k)
    show ?thesis using spec unfolding CopyList by (rule step_CopyList [OF rd])
  next
    case (AssignList l k)
    show ?thesis using spec unfolding AssignList by (rule step_AssignList [OF rd])
  next
    case (DestroyList l)
    show ?thesis using spec unfolding DestroyList by (rule step_DestroyList [OF rd])
  next
    case (AddTag t l)
    show ?thesis using spec unfolding AddTag by (rule step_AddTag [OF rd])
  next
    case (RemoveTag tid l)
    show ?thesis using spec unfolding RemoveTag by (rule step_RemoveTag [OF rd])
  next
    case (ReplaceTag t l)
    show ?thesis using spec unfolding ReplaceTag by (rule step_ReplaceTag [OF rd])
  next
    case (PeekTag tid l)
    show ?thesis using spec unfolding PeekTag by (rule step_PeekTag [OF rd])
  qed
qed

lemma init_rel: "tag_rel tag_world_init Map.empty"
proof -
  have "repr tag_world_init (\<lambda>_. None) (\<lambda>_. None)"
    by (auto simp: repr_def tag_world_init_def slot_val_def pay_def nodes_ok_def fun_eq_iff split: slot.splits)
  moreover have "wf_tags (\<lambda>_. None) (\<lambda>_. None)" by (simp add: wf_tags_def)
  ultimately show ?thesis by (auto simp: tag_rel_def st_def matches_def)
qed

lemma run_ok:
  assumes "tag_rel w A" and "spec_run ops A = Some (rs, A')"
  shows "\<exists>w'. exec_run ops w = Some (rs, w') \<and> tag_rel w' A'"
  using assms
proof (induction ops arbitrary: w A rs)
  case (Cons x ops)
  obtain r A1 rs1 where s: "2 * weight A + 4 < 2 ^ 32" "tag_spec x A = Some (r, A1)" "spec_run ops A1 = Some (rs1, A')" "rs = r # rs1"
    using Cons.prems(2) by (auto simp: bind_ns_assert bind_eq_Some_conv split: if_splits)
  obtain w1 where w1: "tag_exec x w = Some (r, w1)" "tag_rel w1 A1" using tag_step [OF Cons.prems(1) s(2,1)] by blast
  then show ?case using Cons.IH [OF w1(2) s(3)] s(4) by auto
qed simp

lemma no_leak:
  assumes "tag_rel w Map.empty"
  shows "tw_nodes w = Map.empty"
proof -
  obtain f g where s: "st w f g" "matches f g Map.empty" using assms by (auto simp: tag_rel_def)
  then have re: "pay w = g" and wf: "wf_tags f g" by (simp_all add: st_def repr_def)
  have "f (Head l) = None" for l using matchesD(1) [OF s(2), of l] by simp
  then have "g p = None" for p using wf_tagsD(6) [OF wf, of p] spath_hd by fastforce
  then show ?thesis using re by (auto simp: pay_def fun_eq_iff)
qed

text \<open>
  C4: the tags of packets are independent, although copies of a packet share them.  Whatever the
  sequence of creating, copying, assigning and destroying lists and of adding, removing,
  replacing and looking up tags: if it is allowed by the specification, in which each list is
  a list of its own, then the program runs without a failing assertion or an access to a freed
  node and gives the same answers; and when the last list is destroyed, every node has been freed.
\<close>

theorem tag_lists_refined:
  assumes "spec_run ops Map.empty = Some (rs, A)"
  shows "\<exists>w. exec_run ops tag_world_init = Some (rs, w) \<and> tag_rel w A \<and> (A = Map.empty \<longrightarrow> tw_nodes w = Map.empty)"
  using run_ok [OF init_rel assms] no_leak by blast

theorem tag_lists_refined_witness:
  "\<exists>w. exec_run [NewList 0, AddTag (1, [5]) 0, CopyList 1 0, ReplaceTag (1, [6]) 1, PeekTag 1 0, RemoveTag 1 1, DestroyList 0, DestroyList 1] tag_world_init
    = Some ([None, None, None, Some [6], Some [5], Some [6], None, None], w) \<and> tw_nodes w = Map.empty"
proof -
  have "spec_run [NewList 0, AddTag (1, [5]) 0, CopyList 1 0, ReplaceTag (1, [6]) 1, PeekTag 1 0, RemoveTag 1 1, DestroyList 0, DestroyList 1] Map.empty
    = Some ([None, None, None, Some [6], Some [5], Some [6], None, None], Map.empty)"
    by (simp add: weight_def insert_Diff_if)
  then show ?thesis using tag_lists_refined by blast
qed

text \<open>
  Replacing a tag by a longer value fails an assertion if the node belongs to the list alone, since
  it is written into the space of the old value; if the node is shared, it works.
\<close>

lemma single_steps:
  "cow_find tid nullptr w = Some None"
  "cur \<noteq> nullptr \<Longrightarrow> tw_nodes w cur = Some n \<Longrightarrow> td_tid n = tid \<Longrightarrow> cow_find tid cur w = Some (Some (take (unat (td_size n)) (td_data n)))"
  "cur \<noteq> nullptr \<Longrightarrow> tw_nodes w cur = Some n \<Longrightarrow> td_count n > 1 \<Longrightarrow> cow_search tid e cur w = Some (False, e, cur)"
  "cur \<noteq> nullptr \<Longrightarrow> tw_nodes w cur = Some n \<Longrightarrow> \<not> td_count n > 1 \<Longrightarrow> td_tid n = tid \<Longrightarrow> cow_search tid e cur w = Some (True, e, cur)"
  "tw_nodes w cur = Some n \<Longrightarrow> td_tid n = tid \<Longrightarrow> cow_copy tid e cur w = Some (e, cur, w)"
  by (subst cow_find.simps cow_search.simps cow_copy.simps; simp)+

lemma replace_longer:
  "exec_run [NewList 0, AddTag (1, [5]) 0, ReplaceTag (1, [6, 7]) 0] tag_world_init = None"
  "exec_run [NewList 0, AddTag (1, [5]) 0, CopyList 1 0, ReplaceTag (1, [6, 7]) 0] tag_world_init \<noteq> None"
  by (simp_all add: tag_world_init_def PacketTagList_init_def tag_Add_def single_steps new_node_def tag_create_def tag_Replace_def
      tag_COWTraverse_def tag_ReplaceWriter_def tag_list_copy_def count_inc_def node_on_def)

end
