(* ===== verification/Spec2Isabelle.thy ===== *)
theory Spec2Isabelle
  imports Simulation Int64x64 Buffer_Serialize Tcp_Receiver Udp_Laws Point_To_Point_Laws Tcp_Header_Laws Packet_Tag_Lists
begin

text \<open>
  A verification library for the core of the ns-3 network simulator (sources under src/src/).

  \<^bold>\<open>The program.\<close>  ns-3 runs models of networks as a sequence of events.  A scheduler keeps the
  pending events in order; the simulator takes the earliest one, moves its clock and runs the
  code of the event, which may schedule, cancel or remove others.  The models exchange packets,
  whose bytes are in copy-on-write buffers; protocols write and read their headers through
  iterators into these buffers, and models attach tags to packets in lists with shared tails.
  Devices queue packets and transmit them over channels.  The Internet stack sends, routes, forwards,
  fragments, reassembles and resolves addresses on top of them; UDP delivers datagrams to the end
  points of sockets, and TCP puts segments back in order.

  \<^bold>\<open>Layout.\<close>  Every theory starts with the translated definitions, which keep the names of the
  source, and continues with their laws.
  \<^item> \<open>Prelude\<close>: machine integers, failing assertions as options, facts on words, lists, multisets.
  \<^item> \<open>Events\<close>, \<open>Scheduler\<close>: event keys and their order (core/model/scheduler.h); the contract of a
    scheduler as the locales \<open>scheduler\<close> and \<open>removing_scheduler\<close> over the multiset of pending events.
  \<^item> \<open>List_Scheduler\<close>, \<open>Map_Scheduler\<close>, \<open>Heap_Scheduler\<close>, \<open>Priority_Queue_Scheduler\<close>,
    \<open>Calendar_Scheduler\<close> with \<open>Calendar_Laws\<close>: the five schedulers (core/model/*-scheduler.cc), each an
    interpretation of the contract.
  \<^item> \<open>Simulator\<close>, \<open>Simulator_Laws\<close>: the event loop, event identifiers, cancellation and removal
    (core/model/default-simulator-impl.cc, event-id.cc, event-impl.cc), for any scheduler that keeps the
    contract; \<open>Simulation\<close>: the properties for the five schedulers.
  \<^item> \<open>Int64x64\<close>: fixed-point multiplication, division and reciprocals on 128-bit words
    (core/model/int64x64-128.cc).
  \<^item> \<open>Buffer\<close>, \<open>Buffer_Laws\<close>, \<open>Buffer_Access\<close>, \<open>Buffer_Checksum\<close>, \<open>Buffer_Serialize\<close>: packet buffers
    with shared blocks in an explicit store, iterators, the Internet checksum and serialization
    (network/model/buffer.h, .cc).
  \<^item> \<open>Wire\<close>: headers of packets (network/model/packet.cc) and the locale \<open>ns3_header\<close>, the contract of
    \<^verbatim>\<open>ns3::Header\<close>; \<open>Udp_Header\<close>, \<open>Ipv4_Header\<close>, \<open>Arp_Header\<close> and \<open>Tcp_Header\<close> with
    \<open>Tcp_Header_Laws\<close> interpret it (internet/model/udp-header.cc, ipv4-header.cc, arp-header.cc,
    tcp-header.cc and the options tcp-option*.cc).
  \<^item> \<open>Packet_Tags\<close>: the tags of packets, lists of counted nodes in an explicit heap that share their
    tails (network/model/packet-tag-list.cc); \<open>Tag_Graph\<close>, \<open>Packet_Tags_Laws\<close>: the invariant of the heap
    and its counts; \<open>Packet_Tags_Refine\<close>: the locale \<open>cow\<close>, the contract of the functions that
    \<^verbatim>\<open>COWTraverse\<close> takes, interpreted by removal and replacement; \<open>Packet_Tag_Lists\<close>: the refinement.
  \<^item> \<open>Sequence_Number\<close>: wrapped comparison (network/utils/sequence-number.h); \<open>Tcp_Rx_Buffer\<close>,
    \<open>Tcp_Rx_Laws\<close>, \<open>Tcp_Rx_Stream\<close>, \<open>Tcp_Receiver\<close>: the receive buffer of TCP
    (internet/model/tcp-rx-buffer.cc) against the stream that was sent.
  \<^item> \<open>Arp_Cache\<close>, \<open>Arp_Laws\<close>, \<open>Arp_Resolution\<close>: the ARP cache and protocol
    (internet/model/arp-cache.cc, arp-l3-protocol.cc) as a step relation with an invariant.
  \<^item> \<open>Ipv4_Address\<close>, \<open>Ipv4_Interfaces\<close>: addresses, masks, interfaces (network/utils/ipv4-address.cc,
    internet/model/ipv4-interface.cc, ipv4-interface-address.cc and the part of ipv4-l3-protocol.cc that
    keeps them); \<open>Ipv4_Static_Routing\<close>, \<open>Ipv4_Routing_Laws\<close>: static routing
    (internet/model/ipv4-static-routing.cc); \<open>Ipv4_Node\<close>, \<open>Ipv4_Configuration\<close>: how the two change together.
  \<^item> \<open>Ipv4_Fragments\<close>, \<open>Ipv4_Reassembly\<close>, \<open>Ipv4_Complete\<close>: fragmentation, reassembly and timeouts;
    \<open>Ipv4_Sending\<close>, \<open>Ipv4_Forwarding\<close>: sending and forwarding, with the locale \<open>ipv4_routing\<close> for the
    interface \<^verbatim>\<open>Ipv4RoutingProtocol\<close>, interpreted by static routing; \<open>Ipv4_Delivery\<close>: receiving, and the
    way of a packet from node to node (internet/model/ipv4-l3-protocol.cc).
  \<^item> \<open>Ipv4_End_Points\<close>, \<open>Ipv4_Demux\<close>: end points and the demultiplexer that chooses among them and
    allocates ports (internet/model/ipv4-end-point.cc, ipv4-end-point-demux.cc); \<open>Udp_Socket\<close>,
    \<open>Udp_Laws\<close>: UDP sockets and the UDP protocol of a node (internet/model/udp-socket-impl.cc,
    udp-l4-protocol.cc).
  \<^item> \<open>Drop_Tail_Queue\<close>: packet queues (network/utils/queue.h, drop-tail-queue.h, queue-size.cc) and the
    locale \<open>packet_queue\<close>, what a device expects of its queue; \<open>Point_To_Point\<close>,
    \<open>Point_To_Point_Laws\<close>: the header, devices and channel of point-to-point links
    (point-to-point/model/), as a world of two devices with an agenda of events.

  \<^bold>\<open>How code becomes definitions.\<close>  A class is a record and a method a function on it.  \<open>None\<close> is a
  failed \<^verbatim>\<open>NS_ASSERT\<close>, an \<^verbatim>\<open>NS_FATAL_ERROR\<close> or undefined behaviour, so that the statements that an
  operation returns \<open>Some\<close> say that it cannot fail.  Integers have their width wherever they can wrap
  around.  \<^verbatim>\<open>std::map\<close> is a sorted list where it is iterated, a function otherwise; sizes of
  containers and interface numbers are natural numbers.  Calls that leave the modelled part (what is
  sent, dropped, traced, answered) are recorded in lists of the state.  The code of events, the MTU
  and the virtual functions of devices are parameters.

  \<^bold>\<open>What is shown.\<close>
  \<^item> Schedulers and simulator: every scheduler returns the earliest event and all five agree on the
    order; a run fails no assertion, keeps its invariant, lets the clock only grow, and ends when
    events stop being scheduled; removal, cancellation and identifiers are exact, and it is said exactly
    when the removal of an event breaks the order of a heap.
  \<^item> Arithmetic: multiplication is exact up to the last of 64 fraction bits or reports overflow; division
    is exact for quotients below \<open>2^127\<close>, and what it does beyond is given by an equation.
  \<^item> Buffers: adding headers and taking fragments give the expected bytes and leave every buffer that
    shares memory unchanged; serialization round trip; the checksum detects a damaged
    word in packets of less than \<open>2^16\<close> bytes.
  \<^item> Headers: what is written is read back, for UDP, IPv4, ARP and TCP with its options; the loop that
    reads TCP options ends exactly when no option without length is met.
  \<^item> Tags: tag lists of packets behave as independent lists although they share nodes; every node is
    counted, none is freed early and none leaks.
  \<^item> Queues and links: queues are first in, first out and count what they hold; no assertion of a
    device fails; what a link passes up is what was sent, in order, and it comes to rest.
  \<^item> TCP: what is extracted is a prefix of the stream that was sent, whatever arrives; the next
    expected byte makes progress; SACK blocks are true.
  \<^item> ARP: no operation is fatal in a reachable state; packets wait, are passed on, dropped or returned,
    and only the removal of entries discards any; resolutions end.
  \<^item> IPv4: lookups find the longest prefix; the networks of interfaces that are up are routed until
    an address or a route is removed;
    fragmentation ends and reassembly gives the payload back and nothing else; incomplete packets
    are dropped in time; sending ends and hands out what each case of
    \<^verbatim>\<open>Send\<close> says; forwarding loops end; a packet that is sent
    arrives once, as it was sent.
  \<^item> UDP: the demultiplexer chooses the most exact end points; ephemeral ports are free ones; receive
    queues keep their bound and order; a datagram that is sent is read from the socket of its receiver;
    receiving aborts exactly when two end points fit equally well, and which uses lead there.
  \<^item> Defects: statements of kind error exhibit inputs on which the code does not do what it means to.

  \<^bold>\<open>Bounds and fuel.\<close>  The loop of the simulator and \<^verbatim>\<open>DoFragmentation\<close> may run for ever and take
  fuel.  A run of the simulator with fuel \<open>n\<close> executes at most \<open>n\<close> events; when events schedule nothing,
  as many units as there are pending events suffice.  Fragmentation needs one unit per fragment, and
  the length of the packet plus one suffices when the MTU admits eight bytes of payload; below that it
  is shown not to end for any fuel.  Simulation times are below \<open>2^63\<close> ticks.  The receive window of
  TCP is at most \<open>2^29\<close> bytes and segments repeat over at most \<open>2^30\<close>, less than half of the sequence
  space, as the wrapped comparison requires.  Buffers stay below \<open>2^32\<close> bytes with their headers and 139 bytes of room for growth, IPv4
  payloads below \<open>2^16\<close>.  The loop over TCP options and the traversals of tag lists are partial
  functions; where they are shown to return, the measure is the number of bytes left and the length of the
  list.  Tag lists are bounded so that the 32-bit counts of their nodes cannot wrap around.

  \<^bold>\<open>Not modelled.\<close>  The object system, attributes, tracing, logging, random variables, real-time and
  distributed simulators (reflection, output, floating point, threads); byte tags and packet
  metadata; devices and channels other than point-to-point; TCP sockets and congestion control;
  IPv6, ICMP and raw sockets; duplicate packet detection; queue disciplines; routing protocols other
  than static routing; the wireless, mobility, energy and QUIC models.  Of the modelled classes,
  printing, disposal and conversions from and to strings are left out.
\<close>

end
